(* ===== verification/Prelude.thy ===== *)
theory Prelude
  imports Main "HOL-Library.Word"
begin

unbundle bit_operations_syntax

text \<open>
  Shared vocabulary of the development: the machine types of the C sources, the failures a
  kernel path can end in, sequencing of fallible computations, and the generic lemmas on lists
  and function updates that the component theories use.
\<close>

section \<open>Machine types\<close>

text \<open>
  \<open>uchar\<close>, \<open>ushort\<close> and \<open>uint\<close> of \<^verbatim>\<open>types.h\<close>. A C \<open>int\<close> is a mathematical \<open>int\<close>
  where the sources only count with it: its overflow is undefined in C, and where the code
  mixes it with a \<open>uint\<close> the conversion is written out.
\<close>

type_synonym uchar = "8 word"
type_synonym ushort = "16 word"
type_synonym uint = "32 word"

section \<open>Sequencing of fallible computations\<close>

text \<open>
  A computation that can fail returns a sum: \<open>Inl\<close> is the failure, \<open>Inr\<close> the result. \<open>andThen\<close>
  runs the rest of a function body after a call that can fail.
\<close>

definition andThen :: "'e + 'a \<Rightarrow> ('a \<Rightarrow> 'e + 'b) \<Rightarrow> 'e + 'b" where
  "andThen m f = (case m of Inl e \<Rightarrow> Inl e | Inr x \<Rightarrow> f x)"

named_theorems flow_simps "evaluation of sequenced fallible computations"

lemma andThen_Inl [simp, flow_simps]: "andThen (Inl e) f = Inl e"
  by (simp add: andThen_def)

lemma andThen_Inr [simp, flow_simps]: "andThen (Inr x) f = f x"
  by (simp add: andThen_def)

lemma andThen_eq_Inr_iff: "andThen m f = Inr y \<longleftrightarrow> (\<exists>x. m = Inr x \<and> f x = Inr y)"
  by (cases m) auto

lemma andThen_InrE:
  assumes "andThen m f = Inr y"
  obtains x where "m = Inr x" and "f x = Inr y"
  using assms by (auto simp: andThen_eq_Inr_iff)

lemma andThen_eq_Inl_iff:
  "andThen m f = Inl e \<longleftrightarrow> m = Inl e \<or> (\<exists>x. m = Inr x \<and> f x = Inl e)"
  by (cases m) auto

lemma andThen_cong [fundef_cong]:
  "m = m' \<Longrightarrow> (\<And>x. m' = Inr x \<Longrightarrow> f x = g x) \<Longrightarrow> andThen m f = andThen m' g"
  by (cases m') auto

lemma andThen_split:
  "P (andThen m f) \<longleftrightarrow> (\<forall>e. m = Inl e \<longrightarrow> P (Inl e)) \<and> (\<forall>x. m = Inr x \<longrightarrow> P (f x))"
  by (cases m) auto

lemma andThen_assoc: "andThen (andThen m f) g = andThen m (\<lambda>x. andThen (f x) g)"
  by (cases m) auto

section \<open>Lists as C arrays\<close>

text \<open>
  The lowest index at which a scan \<^verbatim>\<open>for (i = 0; i < n; i++) if (P (a[i])) goto found;\<close> stops.
\<close>

fun first_index :: "('a \<Rightarrow> bool) \<Rightarrow> 'a list \<Rightarrow> nat option" where
  "first_index P [] = None"
| "first_index P (x # xs) = (if P x then Some 0 else map_option Suc (first_index P xs))"

lemma first_index_None_iff: "first_index P xs = None \<longleftrightarrow> (\<forall>x\<in>set xs. \<not> P x)"
  by (induction xs) auto

lemma first_index_Some_iff:
  "first_index P xs = Some i \<longleftrightarrow> i < length xs \<and> P (xs ! i) \<and> (\<forall>j<i. \<not> P (xs ! j))"
proof (induction xs arbitrary: i)
  case Nil
  then show ?case by simp
next
  case (Cons x xs)
  show ?case
  proof (cases i)
    case 0
    then show ?thesis using Cons by auto
  next
    case (Suc k)
    then show ?thesis using Cons[of k] by (auto simp: All_less_Suc2)
  qed
qed

lemma first_index_SomeD:
  assumes "first_index P xs = Some i"
  shows "i < length xs" and "P (xs ! i)" and "\<And>j. j < i \<Longrightarrow> \<not> P (xs ! j)"
  using assms by (auto simp: first_index_Some_iff)

lemma first_index_cong:
  "xs = ys \<Longrightarrow> (\<And>x. x \<in> set ys \<Longrightarrow> P x = Q x) \<Longrightarrow> first_index P xs = first_index Q ys"
  by (induction xs arbitrary: ys) auto

lemma map_update_nth_same:
  "i < length xs \<Longrightarrow> f y = f (xs ! i) \<Longrightarrow> map f (xs[i := y]) = map f xs"
  by (metis list_update_id map_update)

lemma set_list_updateE:
  assumes "x \<in> set (xs[i := y])"
  obtains "x = y" and "i < length xs" | "x \<in> set xs"
  using assms
  by (metis insertE length_list_update list_update_beyond not_le set_update_subset_insert subsetD)

lemma nth_list_update_if:
  "j < length xs \<Longrightarrow> xs[i := y] ! j = (if i = j then y else xs ! j)"
  by auto

section \<open>Updates of byte memories\<close>

text \<open>\<open>poke m a bs\<close> is the memory after the bytes \<open>bs\<close> have been stored from address \<open>a\<close> on.\<close>

definition poke :: "(nat \<Rightarrow> 'b) \<Rightarrow> nat \<Rightarrow> 'b list \<Rightarrow> nat \<Rightarrow> 'b" where
  "poke m a bs = (\<lambda>x. if a \<le> x \<and> x < a + length bs then bs ! (x - a) else m x)"

definition peek :: "(nat \<Rightarrow> 'b) \<Rightarrow> nat \<Rightarrow> nat \<Rightarrow> 'b list" where
  "peek m a n = map (\<lambda>i. m (a + i)) [0..<n]"

lemma poke_Nil [simp]: "poke m a [] = m"
  by (rule ext) (auto simp: poke_def)

lemma poke_Cons: "poke m a (b # bs) = poke (m(a := b)) (Suc a) bs"
proof (rule ext)
  fix x
  consider "x < a" | "x = a" | k where "x = Suc (a + k)"
    by (metis less_imp_Suc_add linorder_neqE_nat)
  then show "poke m a (b # bs) x = poke (m(a := b)) (Suc a) bs x"
    by cases (auto simp: poke_def)
qed

lemma poke_snoc: "poke m a (bs @ [b]) = (poke m a bs)(a + length bs := b)"
  by (rule ext) (auto simp: poke_def nth_append)

lemma length_peek [simp]: "length (peek m a n) = n"
  by (simp add: peek_def)

lemma nth_peek [simp]: "i < n \<Longrightarrow> peek m a n ! i = m (a + i)"
  by (simp add: peek_def)

lemma peek_0 [simp]: "peek m a 0 = []"
  by (simp add: peek_def)

lemma peek_Suc: "peek m a (Suc n) = m a # peek m (Suc a) n"
  by (simp add: peek_def upt_conv_Cons map_Suc_upt [symmetric] comp_def del: upt_Suc map_Suc_upt)

lemma peek_Suc_snoc: "peek m a (Suc n) = peek m a n @ [m (a + n)]"
  by (simp add: peek_def)

lemma peek_poke_same [simp]: "n = length bs \<Longrightarrow> peek (poke m a bs) a n = bs"
  by (rule nth_equalityI) (auto simp: poke_def)

lemma poke_outside: "x < a \<or> a + length bs \<le> x \<Longrightarrow> poke m a bs x = m x"
  by (auto simp: poke_def)

end
