(* ===== verification/KString.thy ===== *)
theory KString
  imports Prelude
begin

unbundle bit_operations_syntax

text \<open>
  The kernel's memory and string routines (\<^verbatim>\<open>string.c\<close>) over a byte-addressed memory. Every
  loop reads the memory that the loop itself has already changed, so overlapping arguments
  behave as they do in C. Addresses are natural numbers: a C object never wraps around the end
  of the address space.
\<close>

type_synonym memory = "nat \<Rightarrow> uchar"

section \<open>Definitions\<close>

text \<open>The string instructions \<open>rep stosb\<close> and \<open>rep stosl\<close> (little endian) of \<^verbatim>\<open>x86.h\<close>.\<close>

fun stosb :: "nat \<Rightarrow> uint \<Rightarrow> nat \<Rightarrow> memory \<Rightarrow> memory" where
  "stosb addr data 0 m = m"
| "stosb addr data (Suc cnt) m = stosb (addr + 1) data cnt (m(addr := ucast data))"

definition le_bytes :: "uint \<Rightarrow> uchar list" where
  "le_bytes w = [ucast w, ucast (drop_bit 8 w), ucast (drop_bit 16 w), ucast (drop_bit 24 w)]"

fun stosl :: "nat \<Rightarrow> uint \<Rightarrow> nat \<Rightarrow> memory \<Rightarrow> memory" where
  "stosl addr data 0 m = m"
| "stosl addr data (Suc cnt) m = stosl (addr + 4) data cnt (poke m addr (le_bytes data))"

definition memset :: "nat \<Rightarrow> uint \<Rightarrow> nat \<Rightarrow> memory \<Rightarrow> memory" where
  "memset dst c n m =
     (if dst mod 4 = 0 \<and> n mod 4 = 0
      then let c = c AND 0xFF
           in stosl dst (push_bit 24 c OR push_bit 16 c OR push_bit 8 c OR c) (n div 4) m
      else stosb dst c n m)"

fun memcmp :: "memory \<Rightarrow> nat \<Rightarrow> nat \<Rightarrow> nat \<Rightarrow> int" where
  "memcmp m s1 s2 0 = 0"
| "memcmp m s1 s2 (Suc n) =
     (if m s1 \<noteq> m s2 then uint (m s1) - uint (m s2) else memcmp m (s1 + 1) (s2 + 1) n)"

text \<open>The two copying loops: downwards from the ends, and upwards.\<close>

fun copy_down :: "nat \<Rightarrow> nat \<Rightarrow> nat \<Rightarrow> memory \<Rightarrow> memory" where
  "copy_down d s 0 m = m"
| "copy_down d s (Suc n) m = copy_down (d - 1) (s - 1) n (m(d - 1 := m (s - 1)))"

fun copy_up :: "nat \<Rightarrow> nat \<Rightarrow> nat \<Rightarrow> memory \<Rightarrow> memory" where
  "copy_up d s 0 m = m"
| "copy_up d s (Suc n) m = copy_up (d + 1) (s + 1) n (m(d := m s))"

definition memmove :: "nat \<Rightarrow> nat \<Rightarrow> nat \<Rightarrow> memory \<Rightarrow> memory" where
  "memmove d s n m =
     (if s < d \<and> s + n > d then copy_down (d + n) (s + n) n m else copy_up d s n m)"

definition memcpy :: "nat \<Rightarrow> nat \<Rightarrow> nat \<Rightarrow> memory \<Rightarrow> memory" where
  "memcpy d s n m = memmove d s n m"

fun strncmp :: "memory \<Rightarrow> nat \<Rightarrow> nat \<Rightarrow> nat \<Rightarrow> int" where
  "strncmp m p q 0 = 0"
| "strncmp m p q (Suc n) =
     (if m p \<noteq> 0 \<and> m p = m q then strncmp m (p + 1) (q + 1) n
      else uint (m p) - uint (m q))"

text \<open>
  \<open>strncpy\<close>: the copying loop \<^verbatim>\<open>while (n-- > 0 && (*s++ = *t++) != 0)\<close> returns the pointer,
  the bytes left over, and the memory; the second loop pads with zeros.
\<close>

fun strncpy_copy :: "nat \<Rightarrow> nat \<Rightarrow> nat \<Rightarrow> memory \<Rightarrow> nat \<times> nat \<times> memory" where
  "strncpy_copy s t 0 m = (s, 0, m)"
| "strncpy_copy s t (Suc n) m =
     (let c = m t; m' = m(s := c)
      in if c \<noteq> 0 then strncpy_copy (s + 1) (t + 1) n m' else (s + 1, n, m'))"

fun strncpy_pad :: "nat \<Rightarrow> nat \<Rightarrow> memory \<Rightarrow> memory" where
  "strncpy_pad s 0 m = m"
| "strncpy_pad s (Suc n) m = strncpy_pad (s + 1) n (m(s := 0))"

definition strncpy :: "nat \<Rightarrow> nat \<Rightarrow> int \<Rightarrow> memory \<Rightarrow> memory" where
  "strncpy s t n m = (case strncpy_copy s t (nat n) m of (s', n', m') \<Rightarrow> strncpy_pad s' n' m')"

text \<open>
  \<open>safestrcpy\<close>: the loop \<^verbatim>\<open>while (--n > 0 && (*s++ = *t++) != 0)\<close> is the same copying loop with
  one byte less, and the terminator is stored where the pointer stopped.
\<close>

definition safestrcpy :: "nat \<Rightarrow> nat \<Rightarrow> int \<Rightarrow> memory \<Rightarrow> memory" where
  "safestrcpy s t n m =
     (if n \<le> 0 then m
      else case strncpy_copy s t (nat n - 1) m of (s', n', m') \<Rightarrow> m'(s' := 0))"

text \<open>\<open>strlen\<close> runs to the first zero byte, and for ever when there is none.\<close>

partial_function (option) strlen_from :: "memory \<Rightarrow> nat \<Rightarrow> nat \<Rightarrow> nat option" where
  "strlen_from m s n = (if m (s + n) \<noteq> 0 then strlen_from m s (n + 1) else Some n)"

definition strlen :: "memory \<Rightarrow> nat \<Rightarrow> nat option" where
  "strlen m s = strlen_from m s 0"

text \<open>The specification side: the C string of at most \<open>n\<close> bytes at an address.\<close>

definition cstr :: "memory \<Rightarrow> nat \<Rightarrow> nat \<Rightarrow> uchar list" where
  "cstr m a n = takeWhile (\<lambda>c. c \<noteq> 0) (peek m a n)"

section \<open>memset and memmove\<close>

lemma stosb_poke: "stosb a d n m = poke m a (replicate n (ucast d))"
  by (induction n arbitrary: a m) (simp_all add: poke_Cons)

lemma poke_append: "poke m a (xs @ ys) = poke (poke m a xs) (a + length xs) ys"
  by (induction xs arbitrary: m a) (simp_all add: poke_Cons)

lemma length_le_bytes [simp]: "length (le_bytes w) = 4"
  by (simp add: le_bytes_def)

lemma stosl_poke: "stosl a d n m = poke m a (concat (replicate n (le_bytes d)))"
  by (induction n arbitrary: a m) (simp_all add: poke_append)

lemma replicate4: "replicate 4 x = [x, x, x, x]"
  by (simp add: eval_nat_numeral)

lemma le_bytes_repeated:
  fixes c :: uint
  assumes "d = c AND 0xFF"
  shows "le_bytes (push_bit 24 d OR push_bit 16 d OR push_bit 8 d OR d) = replicate 4 (ucast c)"
proof -
  have bits: "bit d i = (i < 8 \<and> bit c i)" for i
    using bit_mask_iff [where ?'a = "32 word", of 8 i]
    unfolding assms by (auto simp: bit_simps mask_eq_exp_minus_1)
  show ?thesis
    unfolding le_bytes_def
    by (simp only: replicate4 list.inject simp_thms, intro conjI bit_word_eqI)
      (auto simp: bit_simps bits)
qed

lemma concat_replicate_replicate: "concat (replicate k (replicate j x)) = replicate (k * j) x"
  by (induction k) (simp_all add: replicate_add)

text \<open>
  The word-wise fast path of \<open>memset\<close> stores the same bytes as the byte-wise one.
\<close>

lemma memset_fills: "memset dst c n m = poke m dst (replicate n (ucast c))"
proof (cases "dst mod 4 = 0 \<and> n mod 4 = 0")
  case True
  then have "n div 4 * 4 = n" by presburger
  with True show ?thesis
    by (simp only: memset_def stosl_poke le_bytes_repeated [OF refl] concat_replicate_replicate
        Let_def simp_thms if_True)
next
  case False
  then show ?thesis by (auto simp: memset_def stosb_poke)
qed

lemma copy_up_poke:
  "d \<le> s \<or> s + n \<le> d \<Longrightarrow> copy_up d s n m = poke m d (peek m s n)"
proof (induction n arbitrary: d s m)
  case 0
  then show ?case by simp
next
  case (Suc n)
  have "peek (m(d := m s)) (Suc s) n = peek m (Suc s) n"
    using Suc.prems by (auto simp: peek_def)
  moreover have "copy_up (Suc d) (Suc s) n (m(d := m s))
      = poke (m(d := m s)) (Suc d) (peek (m(d := m s)) (Suc s) n)"
    using Suc.prems by (intro Suc.IH) auto
  ultimately show ?case
    by (simp add: peek_Suc poke_Cons)
qed

lemma copy_down_poke:
  "s \<le> d \<Longrightarrow> copy_down (d + n) (s + n) n m = poke m d (peek m s n)"
proof (induction n arbitrary: m)
  case 0
  then show ?case by simp
next
  case (Suc n)
  let ?m = "m(d + n := m (s + n))"
  have "copy_down (d + n) (s + n) n ?m = poke ?m d (peek ?m s n)"
    using Suc by simp
  also have "peek ?m s n = peek m s n"
    using Suc.prems by (auto simp: peek_def)
  also have "poke ?m d (peek m s n) = poke m d (peek m s (Suc n))"
    by (rule ext) (auto simp: poke_def nth_append peek_Suc_snoc)
  finally show ?case by (simp del: fun_upd_apply)
qed

text \<open>\<open>memmove\<close> copies the old contents of the source whatever way the two ranges overlap.\<close>

lemma memmove_copies: "memmove d s n m = poke m d (peek m s n)"
  by (auto simp: memmove_def copy_down_poke intro: copy_up_poke)

lemma memcpy_copies: "memcpy d s n m = poke m d (peek m s n)"
  by (simp add: memcpy_def memmove_copies)

section \<open>Comparison and string copying\<close>

lemma uint_diff_eq_0_iff [simp]: "uint (a :: uchar) - uint b = 0 \<longleftrightarrow> a = b"
  by (simp add: word_uint_eq_iff)

lemma uint_uchar_eq_0_iff [simp]: "uint (a :: uchar) = 0 \<longleftrightarrow> a = 0"
  by (simp add: word_uint_eq_iff)

lemma memcmp_eq_0_iff: "memcmp m p q n = 0 \<longleftrightarrow> peek m p n = peek m q n"
proof (induction n arbitrary: p q)
  case (Suc n)
  then show ?case by (cases "m p = m q") (simp_all add: peek_Suc del: right_minus_eq)
qed simp

lemma cstr_Suc: "cstr m a (Suc n) = (if m a = 0 then [] else m a # cstr m (Suc a) n)"
  by (simp add: cstr_def peek_Suc)

lemma cstr_0 [simp]: "cstr m a 0 = []"
  by (simp add: cstr_def)

text \<open>\<open>strncmp\<close> is zero exactly on equal C strings, and its sign is that of the first difference.\<close>

lemma strncmp_eq_0_iff: "strncmp m p q n = 0 \<longleftrightarrow> cstr m p n = cstr m q n"
proof (induction n arbitrary: p q)
  case (Suc n)
  then show ?case
    by (cases "m p \<noteq> 0 \<and> m p = m q") (auto simp: cstr_Suc simp del: right_minus_eq)
qed simp

lemma length_cstr_le: "length (cstr m a n) \<le> n"
  using length_takeWhile_le [of "\<lambda>c. c \<noteq> 0" "peek m a n"] by (simp add: cstr_def)

lemma strncpy_copy_char:
  assumes "s + n \<le> t \<or> t + n \<le> s" and "strncpy_copy s t n m = (s', n', m')"
  shows "s' + n' = s + n \<and>
    m' = poke m s (if n' = 0 \<and> length (cstr m t n) = n then cstr m t n else cstr m t n @ [0]) \<and>
    s' = s + (if n' = 0 \<and> length (cstr m t n) = n then n else Suc (length (cstr m t n)))"
  using assms
proof (induction n arbitrary: s t m)
  case 0
  then show ?case by simp
next
  case (Suc n)
  have frame: "cstr (m(s := m t)) (Suc t) n = cstr m (Suc t) n"
    using Suc.prems(1) by (auto simp: cstr_def peek_def intro!: arg_cong [where f = "takeWhile _"])
  show ?case
  proof (cases "m t = 0")
    case True
    then show ?thesis using Suc.prems(2) by (auto simp: cstr_Suc poke_Cons)
  next
    case False
    have "s + 1 + n \<le> t + 1 \<or> t + 1 + n \<le> s + 1" using Suc.prems(1) by auto
    from Suc.IH [OF this, of "m(s := m t)"] Suc.prems(2) False show ?thesis
      by (auto simp: cstr_Suc poke_Cons frame Let_def simp del: fun_upd_apply split: if_splits)
  qed
qed

lemma strncpy_pad_poke: "strncpy_pad s n m = poke m s (replicate n 0)"
  by (induction n arbitrary: s m) (simp_all add: poke_Cons)

text \<open>\<open>strncpy\<close> stores the source string, cut at \<open>n\<close> bytes and padded with zeros to \<open>n\<close>.\<close>

lemma strncpy_stores:
  assumes "s + n \<le> t \<or> t + n \<le> s"
  shows "strncpy s t (int n) m
    = poke m s (cstr m t n @ replicate (n - length (cstr m t n)) 0)"
proof -
  obtain s' n' m' where c: "strncpy_copy s t n m = (s', n', m')"
    by (metis prod_cases3)
  note * = strncpy_copy_char [OF assms c]
  show ?thesis
  proof (cases "n' = 0 \<and> length (cstr m t n) = n")
    case True
    then show ?thesis using * c by (simp add: strncpy_def)
  next
    case False
    with * have len: "n - length (cstr m t n) = Suc n'" by auto
    have "strncpy s t (int n) m = poke m s ((cstr m t n @ [0]) @ replicate n' 0)"
      unfolding poke_append [of _ _ "cstr m t n @ [0]"]
      using * c False by (auto simp add: strncpy_def strncpy_pad_poke)
    then show ?thesis by (simp add: len)
  qed
qed

text \<open>\<open>safestrcpy\<close> always leaves a terminated string: the longest prefix that fits in \<open>n - 1\<close> bytes.\<close>

lemma safestrcpy_stores:
  assumes "s + n \<le> t \<or> t + n \<le> s" and "0 < n"
  shows "\<exists>bs. safestrcpy s t (int n) m = poke m s bs \<and> length bs \<le> n
    \<and> takeWhile (\<lambda>c. c \<noteq> 0) bs = cstr m t (n - 1) \<and> 0 \<in> set bs"
proof -
  obtain s' n' m' where c: "strncpy_copy s t (n - 1) m = (s', n', m')"
    by (metis prod_cases3)
  have "s + (n - 1) \<le> t \<or> t + (n - 1) \<le> s" using assms by auto
  note * = strncpy_copy_char [OF this c]
  let ?l = "cstr m t (n - 1)"
  let ?bs = "(if n' = 0 \<and> length ?l = n - 1 then ?l else ?l @ [0]) @ [0]"
  have nz: "\<forall>c\<in>set ?l. c \<noteq> 0" by (auto simp: cstr_def dest: set_takeWhileD)
  have "safestrcpy s t (int n) m = m'(s' := 0)"
    using assms c by (simp add: safestrcpy_def nat_diff_distrib)
  also have "\<dots> = poke m s ?bs"
    using * by (auto simp: poke_snoc)
  finally have "safestrcpy s t (int n) m = poke m s ?bs" .
  moreover have "length ?bs \<le> n"
    using * assms(2) length_cstr_le [of m t "n - 1"] by (auto split: if_splits)
  moreover have "takeWhile (\<lambda>c. c \<noteq> 0) ?bs = ?l"
    using nz by (auto simp: takeWhile_append1 takeWhile_append2)
  ultimately show ?thesis by (intro exI [of _ ?bs]) auto
qed

lemma strlen_from_reaches:
  "\<forall>j<k. m (s + i + j) \<noteq> 0 \<Longrightarrow> m (s + i + k) = 0 \<Longrightarrow> strlen_from m s i = Some (i + k)"
proof (induction k arbitrary: i)
  case 0
  then show ?case by (simp add: strlen_from.simps)
next
  case (Suc k)
  have "strlen_from m s (i + 1) = Some (i + 1 + k)"
    using Suc.prems by (intro Suc.IH) (auto simp: All_less_Suc2)
  with Suc.prems show ?case by (subst strlen_from.simps) auto
qed

text \<open>\<open>strlen\<close> returns on every terminated string, and returns its length.\<close>

lemma strlen_terminated:
  assumes "m (s + k) = 0" and "\<forall>j<k. m (s + j) \<noteq> 0"
  shows "strlen m s = Some k"
  using strlen_from_reaches [of k m s 0] assms by (simp add: strlen_def)

section \<open>Little-endian words in memory\<close>

definition load32 :: "memory \<Rightarrow> nat \<Rightarrow> uint" where
  "load32 m a = ucast (m a) OR push_bit 8 (ucast (m (a + 1))) OR push_bit 16 (ucast (m (a + 2)))
     OR push_bit 24 (ucast (m (a + 3)))"

definition store32 :: "nat \<Rightarrow> uint \<Rightarrow> memory \<Rightarrow> memory" where
  "store32 a w m = poke m a (le_bytes w)"

lemma load32_store32 [simp]: "load32 (store32 a w m) a = w"
proof (rule bit_word_eqI)
  fix n assume n: "n < LENGTH(32)"
  have m: "store32 a w m (a + k) = le_bytes w ! k" if "k < 4" for k
    using that by (simp add: store32_def poke_def)
  have "store32 a w m a = ucast w" "store32 a w m (a + 1) = ucast (drop_bit 8 w)"
    "store32 a w m (a + 2) = ucast (drop_bit 16 w)" "store32 a w m (a + 3) = ucast (drop_bit 24 w)"
    using m [of 0] m [of 1] m [of 2] m [of 3] by (simp_all add: le_bytes_def)
  note b = this
  consider "n < 8" | "8 \<le> n" "n < 16" | "16 \<le> n" "n < 24" | "24 \<le> n"
    by linarith
  then show "bit (load32 (store32 a w m) a) n = bit w n"
    using n unfolding load32_def b by cases (auto simp: bit_simps)
qed

lemma store32_outside: "x < a \<or> a + 4 \<le> x \<Longrightarrow> store32 a w m x = m x"
  by (simp add: store32_def poke_outside)

lemma load32_cong: "(\<And>k. k < 4 \<Longrightarrow> m (a + k) = m' (a + k)) \<Longrightarrow> load32 m a = load32 m' a"
proof -
  assume e: "\<And>k. k < 4 \<Longrightarrow> m (a + k) = m' (a + k)"
  show ?thesis using e [of 0] e [of 1] e [of 2] e [of 3] by (simp add: load32_def)
qed

lemma load32_store32_disjoint:
  "b + 4 \<le> a \<or> a + 4 \<le> b \<Longrightarrow> load32 (store32 a w m) b = load32 m b"
  by (rule load32_cong) (auto simp: store32_outside)

section \<open>Properties\<close>

text \<open>
  \<open>memmove\<close> leaves in the destination range the bytes that were in the source range before
  the call, whichever way the two ranges overlap, and changes no other byte.
\<close>

theorem memmove_overlapping:
  "memmove d s n m x = (if d \<le> x \<and> x < d + n then m (s + (x - d)) else m x)"
  by (auto simp: memmove_copies poke_def)

text \<open>
  \<open>memset\<close>: the word-wise fast path taken for aligned ranges stores the same bytes as the
  byte-wise path; the \<open>n\<close> bytes at \<open>dst\<close> become the low byte of \<open>c\<close> and nothing else changes.
\<close>

theorem memset_all_paths:
  "memset dst c n m x = (if dst \<le> x \<and> x < dst + n then ucast c else m x)
   \<and> memset dst c n m = stosb dst c n m"
  by (auto simp: memset_fills stosb_poke poke_def)

text \<open>
  Names in directories: a name written with \<open>strncpy\<close> into a field of \<open>n\<close> bytes and compared
  with \<open>strncmp\<close> over \<open>n\<close> bytes compares equal to its source, and \<open>strncmp\<close> is zero only on C
  strings that agree up to the \<open>n\<close>-th byte.
\<close>

theorem strncpy_strncmp_roundtrip:
  assumes "s + n \<le> t \<or> t + n \<le> s"
  shows "strncmp (strncpy s t (int n) m) s t n = 0
    \<and> (strncmp m p q n = 0 \<longleftrightarrow> cstr m p n = cstr m q n)"
proof -
  let ?l = "cstr m t n"
  let ?bs = "?l @ replicate (n - length ?l) 0"
  have len: "length ?bs = n" using length_cstr_le [of m t n] by simp
  have nz: "\<forall>c\<in>set ?l. c \<noteq> 0" by (auto simp: cstr_def dest: set_takeWhileD)
  have "peek (poke m s ?bs) s n = ?bs" by (rule peek_poke_same) (simp only: len)
  then have "cstr (poke m s ?bs) s n = takeWhile (\<lambda>c. c \<noteq> 0) ?bs"
    by (simp only: cstr_def [of "poke m s ?bs"])
  also have "\<dots> = ?l" using nz by (simp add: takeWhile_append2)
  finally have 1: "cstr (poke m s ?bs) s n = ?l" .
  have "peek (poke m s ?bs) t n = peek m t n"
    using assms len by (auto simp: peek_def poke_def)
  then have "cstr (poke m s ?bs) t n = ?l" by (simp add: cstr_def)
  with 1 show ?thesis
    by (simp add: strncmp_eq_0_iff strncpy_stores [OF assms])
qed

theorem strncpy_strncmp_roundtrip_witness:
  "strncmp (strncpy 100 200 14 (poke (\<lambda>_. 7) 200 [99, 97, 116, 0])) 100 200 14 = 0"
  using strncpy_strncmp_roundtrip [of 100 14 200 "poke (\<lambda>_. 7) 200 [99, 97, 116, 0]"] by simp

end
