(* ===== verification/Spinlock.thy ===== *)
theory Spinlock
  imports Prelude
begin

text \<open>
  Processors and spin locks: \<^verbatim>\<open>spinlock.c\<close>, and the processor lookup of \<^verbatim>\<open>proc.c\<close> that it needs.
  The base record \<open>kst\<close> holds the \<open>cpus\<close> array, the interrupt flag of every processor and the
  spin locks; the theories above extend it with their own tables. The call stack that
  \<open>acquire\<close> records in \<open>lk->pcs\<close> is debugging output and not part of the lock state;
  \<open>getcallerpcs\<close> itself is a function of the stack memory.
\<close>

section \<open>Data\<close>

text \<open>
  Long-term (sleep) locks are embedded in buffers and in inodes; a spin lock is a global
  variable or embedded in a pipe or in a sleep lock.
\<close>

datatype sleeplockid = BufLock nat | InodeLock nat

datatype lockid =
    PTABLE | TICKSLOCK | KMEM | FTABLE | ICACHE | BCACHE | LOGLOCK | IDELOCK | CONSLOCK
  | PIPELOCK nat | SLEEPLK sleeplockid

text \<open>
  The addresses processes sleep on: \<open>&ticks\<close>, \<open>&log\<close>, a process, the two ends of a pipe,
  a sleep lock, a disk buffer, the console's \<open>&input.r\<close>.
\<close>

datatype channel =
    ChTicks | ChLog | ChProc nat | ChNread nat | ChNwrite nat | ChSleeplock sleeplockid
  | ChBuf nat | ChInput

text \<open>
  How a kernel path can fail to return: \<open>panic\<close> with a message; spinning on a lock that some
  processor holds; having to sleep on a channel where the caller is modelled without
  interleaving; or behaviour that C leaves undefined.
\<close>

datatype failure =
    Panic string
  | Spin lockid
  | Sleeps channel
  | Undefined string

record cpu =
  c_apicid :: uchar
  c_ncli :: int
  c_intena :: bool
  c_proc :: "nat option"
  c_cr3 :: uint
  c_esp0 :: uint

record spinlock =
  l_locked :: uint
  l_name :: string
  l_cpu :: "nat option"

record kst =
  k_cpus :: "cpu list"
  k_me :: uchar
  k_if :: "uchar \<Rightarrow> bool"
  k_locks :: "lockid \<Rightarrow> spinlock"

section \<open>Operations\<close>

text \<open>The interrupt flag of the executing processor, and the instructions that change it.\<close>

definition readeflags_IF :: "'a kst_scheme \<Rightarrow> bool" where
  "readeflags_IF s = k_if s (k_me s)"

definition cli :: "'a kst_scheme \<Rightarrow> 'a kst_scheme" where
  "cli s = s\<lparr>k_if := (k_if s)(k_me s := False)\<rparr>"

definition sti :: "'a kst_scheme \<Rightarrow> 'a kst_scheme" where
  "sti s = s\<lparr>k_if := (k_if s)(k_me s := True)\<rparr>"

definition mycpu :: "'a kst_scheme \<Rightarrow> failure + nat" where
  "mycpu s =
     (if readeflags_IF s then Inl (Panic (''mycpu called with interrupts enabled'' @ [CHR 0x0A]))
      else case first_index (\<lambda>c. c_apicid c = k_me s) (k_cpus s) of
             Some i \<Rightarrow> Inr i
           | None \<Rightarrow> Inl (Panic (''unknown apicid'' @ [CHR 0x0A])))"

definition cpuid :: "'a kst_scheme \<Rightarrow> failure + nat" where
  "cpuid s = mycpu s"

definition upd_cpu :: "nat \<Rightarrow> (cpu \<Rightarrow> cpu) \<Rightarrow> 'a kst_scheme \<Rightarrow> 'a kst_scheme" where
  "upd_cpu i f s = s\<lparr>k_cpus := (k_cpus s)[i := f (k_cpus s ! i)]\<rparr>"

definition upd_lock :: "lockid \<Rightarrow> (spinlock \<Rightarrow> spinlock) \<Rightarrow> 'a kst_scheme \<Rightarrow> 'a kst_scheme" where
  "upd_lock lk f s = s\<lparr>k_locks := (k_locks s)(lk := f (k_locks s lk))\<rparr>"

definition initlock :: "lockid \<Rightarrow> string \<Rightarrow> 'a kst_scheme \<Rightarrow> 'a kst_scheme" where
  "initlock lk name s = upd_lock lk (\<lambda>l. l\<lparr>l_name := name, l_locked := 0, l_cpu := None\<rparr>) s"

definition pushcli :: "'a kst_scheme \<Rightarrow> failure + 'a kst_scheme" where
  "pushcli s =
     (let eflags = readeflags_IF s; s = cli s
      in andThen (mycpu s) (\<lambda>i.
         let s = (if c_ncli (k_cpus s ! i) = 0
                  then upd_cpu i (\<lambda>c. c\<lparr>c_intena := eflags\<rparr>) s else s)
         in Inr (upd_cpu i (\<lambda>c. c\<lparr>c_ncli := c_ncli c + 1\<rparr>) s)))"

definition popcli :: "'a kst_scheme \<Rightarrow> failure + 'a kst_scheme" where
  "popcli s =
     (if readeflags_IF s then Inl (Panic ''popcli - interruptible'')
      else andThen (mycpu s) (\<lambda>i.
        let s = upd_cpu i (\<lambda>c. c\<lparr>c_ncli := c_ncli c - 1\<rparr>) s
        in if c_ncli (k_cpus s ! i) < 0 then Inl (Panic ''popcli'')
           else if c_ncli (k_cpus s ! i) = 0 \<and> c_intena (k_cpus s ! i) then Inr (sti s)
           else Inr s))"

definition holding :: "lockid \<Rightarrow> 'a kst_scheme \<Rightarrow> failure + bool \<times> 'a kst_scheme" where
  "holding lk s =
     andThen (pushcli s) (\<lambda>s.
     andThen (mycpu s) (\<lambda>i.
     let r = (l_locked (k_locks s lk) \<noteq> 0 \<and> l_cpu (k_locks s lk) = Some i)
     in andThen (popcli s) (\<lambda>s. Inr (r, s))))"

text \<open>The atomic exchange: the old value, and the state with the new one stored.\<close>

definition xchg :: "lockid \<Rightarrow> uint \<Rightarrow> 'a kst_scheme \<Rightarrow> uint \<times> 'a kst_scheme" where
  "xchg lk v s = (l_locked (k_locks s lk), upd_lock lk (\<lambda>l. l\<lparr>l_locked := v\<rparr>) s)"

definition acquire :: "lockid \<Rightarrow> 'a kst_scheme \<Rightarrow> failure + 'a kst_scheme" where
  "acquire lk s =
     andThen (pushcli s) (\<lambda>s.
     andThen (holding lk s) (\<lambda>(r, s).
     if r then Inl (Panic ''acquire'')
     else case xchg lk 1 s of (old, s) \<Rightarrow>
       if old \<noteq> 0 then Inl (Spin lk)
       else andThen (mycpu s) (\<lambda>i.
         Inr (upd_lock lk (\<lambda>l. l\<lparr>l_cpu := Some i\<rparr>) s))))"

definition release :: "lockid \<Rightarrow> 'a kst_scheme \<Rightarrow> failure + 'a kst_scheme" where
  "release lk s =
     andThen (holding lk s) (\<lambda>(r, s).
     if \<not> r then Inl (Panic ''release'')
     else let s = upd_lock lk (\<lambda>l. l\<lparr>l_cpu := None\<rparr>) s;
              s = upd_lock lk (\<lambda>l. l\<lparr>l_locked := 0\<rparr>) s
          in popcli s)"

definition myproc :: "'a kst_scheme \<Rightarrow> failure + nat option \<times> 'a kst_scheme" where
  "myproc s =
     andThen (pushcli s) (\<lambda>s.
     andThen (mycpu s) (\<lambda>c.
     let p = c_proc (k_cpus s ! c)
     in andThen (popcli s) (\<lambda>s. Inr (p, s))))"

text \<open>
  \<open>getcallerpcs\<close> follows the saved frame pointers: \<open>frame ebp\<close> is the pair of words
  (\<open>ebp[0]\<close>, \<open>ebp[1]\<close>) at that address. Ten entries are filled, with zeros after the last frame.
\<close>

fun getcallerpcs_loop :: "(uint \<Rightarrow> uint \<times> uint) \<Rightarrow> uint \<Rightarrow> nat \<Rightarrow> uint list" where
  "getcallerpcs_loop frame ebp 0 = []"
| "getcallerpcs_loop frame ebp (Suc n) =
     (if ebp = 0 \<or> ebp < 0x80000000 \<or> ebp = 0xffffffff then replicate (Suc n) 0
      else snd (frame ebp) # getcallerpcs_loop frame (fst (frame ebp)) n)"

definition getcallerpcs :: "(uint \<Rightarrow> uint \<times> uint) \<Rightarrow> uint \<Rightarrow> uint list" where
  "getcallerpcs frame v = getcallerpcs_loop frame (v - 8) 10"

section \<open>The executing processor\<close>

text \<open>
  \<open>here s i\<close>: the processor that executes is \<open>cpus[i]\<close>. \<open>cli_ok s i\<close> is the invariant that
  \<open>pushcli\<close> and \<open>popcli\<close> maintain: the nesting depth is not negative, and while it is positive
  interrupts are off.
\<close>

definition here :: "'a kst_scheme \<Rightarrow> nat \<Rightarrow> bool" where
  "here s i \<longleftrightarrow> first_index (\<lambda>c. c_apicid c = k_me s) (k_cpus s) = Some i"

definition cli_ok :: "'a kst_scheme \<Rightarrow> nat \<Rightarrow> bool" where
  "cli_ok s i \<longleftrightarrow> 0 \<le> c_ncli (k_cpus s ! i) \<and> (0 < c_ncli (k_cpus s ! i) \<longrightarrow> \<not> k_if s (k_me s))"

text \<open>The states \<open>pushcli\<close> and \<open>popcli\<close> lead to, as single updates.\<close>

definition pushed :: "nat \<Rightarrow> 'a kst_scheme \<Rightarrow> 'a kst_scheme" where
  "pushed i s = s\<lparr>k_if := (k_if s)(k_me s := False),
     k_cpus := (k_cpus s)[i := (k_cpus s ! i)
       \<lparr>c_intena := (if c_ncli (k_cpus s ! i) = 0 then k_if s (k_me s)
                     else c_intena (k_cpus s ! i)),
        c_ncli := c_ncli (k_cpus s ! i) + 1\<rparr>]\<rparr>"

definition popped :: "nat \<Rightarrow> 'a kst_scheme \<Rightarrow> 'a kst_scheme" where
  "popped i s = s\<lparr>k_if := (k_if s)(k_me s :=
       c_ncli (k_cpus s ! i) = 1 \<and> c_intena (k_cpus s ! i)),
     k_cpus := (k_cpus s)[i := (k_cpus s ! i)\<lparr>c_ncli := c_ncli (k_cpus s ! i) - 1\<rparr>]\<rparr>"

lemma here_less: "here s i \<Longrightarrow> i < length (k_cpus s)"
  by (simp add: here_def first_index_Some_iff)

lemma here_unique: "here s i \<Longrightarrow> here s j \<Longrightarrow> i = j"
  by (simp add: here_def)

text \<open>Everything that leaves the APIC ids alone leaves the executing processor alone.\<close>

lemma first_index_apicid_update:
  "i < length cs \<Longrightarrow> c_apicid c = c_apicid (cs ! i) \<Longrightarrow>
   first_index (\<lambda>c. c_apicid c = a) (cs[i := c]) = first_index (\<lambda>c. c_apicid c = a) cs"
  by (induction cs arbitrary: i) (auto simp: nth_Cons' list_update.simps split: nat.splits)

lemma here_pushed [simp]: "here s i \<Longrightarrow> here (pushed i s) j = here s j"
  by (frule here_less) (simp add: here_def pushed_def first_index_apicid_update)

lemma here_popped [simp]: "here s i \<Longrightarrow> here (popped i s) j = here s j"
  by (frule here_less) (simp add: here_def popped_def first_index_apicid_update)

lemma here_upd_lock [simp]: "here (upd_lock lk f s) j = here s j"
  by (simp add: here_def upd_lock_def)

lemma upd_lock_upd_lock [simp]: "upd_lock lk f (upd_lock lk g s) = upd_lock lk (\<lambda>l. f (g l)) s"
  by (simp add: upd_lock_def)

lemma mycpu_here: "here s i \<Longrightarrow> \<not> k_if s (k_me s) \<Longrightarrow> mycpu s = Inr i"
  by (simp add: mycpu_def here_def readeflags_IF_def)

lemma pushcli_pushed: "here s i \<Longrightarrow> pushcli s = Inr (pushed i s)"
proof -
  assume h: "here s i"
  then have "here (cli s) i" by (simp add: here_def cli_def)
  then have "mycpu (cli s) = Inr i" by (rule mycpu_here) (simp add: cli_def)
  then show ?thesis using here_less [OF h]
    by (simp add: pushcli_def pushed_def Let_def upd_cpu_def cli_def readeflags_IF_def)
qed

lemma popcli_popped:
  assumes "here s i" and "\<not> k_if s (k_me s)" and "0 < c_ncli (k_cpus s ! i)"
  shows "popcli s = Inr (popped i s)"
proof -
  have "mycpu s = Inr i" using assms by (simp add: mycpu_here)
  moreover have "(k_if s)(k_me s := False) = k_if s" using assms(2) by (simp add: fun_upd_idem)
  ultimately show ?thesis using here_less [OF assms(1)] assms(2,3)
    by (auto simp: popcli_def popped_def Let_def upd_cpu_def sti_def readeflags_IF_def)
qed

text \<open>
  A matched pair restores the interrupt flag and the depth: only the remembered \<open>intena\<close> of the
  outermost \<open>pushcli\<close> differs.
\<close>

definition probed :: "nat \<Rightarrow> 'a kst_scheme \<Rightarrow> 'a kst_scheme" where
  "probed i s = (if c_ncli (k_cpus s ! i) = 0
     then s\<lparr>k_cpus := (k_cpus s)[i := (k_cpus s ! i)\<lparr>c_intena := k_if s (k_me s)\<rparr>]\<rparr> else s)"

lemma popped_pushed:
  assumes "here s i" and "cli_ok s i"
  shows "popped i (pushed i s) = probed i s"
proof -
  have "(k_if s)(k_me s := k_if s (k_me s)) = k_if s" by simp
  moreover have "0 < c_ncli (k_cpus s ! i) \<Longrightarrow> (k_if s)(k_me s := False) = k_if s"
    using assms(2) by (simp add: cli_ok_def fun_upd_idem)
  ultimately show ?thesis
    using here_less [OF assms(1)] assms(2)
    by (auto simp: popped_def pushed_def probed_def cli_ok_def)
qed

lemma pushed_simps [simp]:
  "k_me (pushed i s) = k_me s"
  "k_locks (pushed i s) = k_locks s"
  "\<not> k_if (pushed i s) (k_me s)"
  by (simp_all add: pushed_def)

lemma ncli_pushed: "i < length (k_cpus s) \<Longrightarrow>
  c_ncli (k_cpus (pushed i s) ! i) = c_ncli (k_cpus s ! i) + 1"
  by (simp add: pushed_def)

lemma probed_simps [simp]:
  "k_me (probed i s) = k_me s"
  "k_locks (probed i s) = k_locks s"
  "k_if (probed i s) = k_if s"
  by (simp_all add: probed_def)

lemma c_ncli_probed [simp]: "c_ncli (k_cpus (probed i s) ! j) = c_ncli (k_cpus s ! j)"
  by (cases "i < length (k_cpus s)")
    (auto simp: probed_def nth_list_update_if list_update_beyond not_less nth_list_update)

lemma here_probed [simp]: "here s i \<Longrightarrow> here (probed i s) j = here s j"
  by (frule here_less) (simp add: here_def probed_def first_index_apicid_update)

lemma probed_nested: "0 < c_ncli (k_cpus s ! i) \<Longrightarrow> probed i s = s"
  by (simp add: probed_def)

lemma holding_eq:
  assumes "here s i" and "cli_ok s i"
  shows "holding lk s =
    Inr (l_locked (k_locks s lk) \<noteq> 0 \<and> l_cpu (k_locks s lk) = Some i, probed i s)"
proof -
  have "mycpu (pushed i s) = Inr i" using assms by (simp add: mycpu_here)
  moreover have "popcli (pushed i s) = Inr (probed i s)"
    using assms popcli_popped [of "pushed i s" i] here_less [OF assms(1)]
    by (simp add: ncli_pushed cli_ok_def popped_pushed)
  ultimately show ?thesis using assms by (simp add: holding_def pushcli_pushed)
qed

lemma myproc_eq:
  assumes "here s i" and "cli_ok s i"
  shows "myproc s = Inr (c_proc (k_cpus s ! i), probed i s)"
proof -
  have "mycpu (pushed i s) = Inr i" using assms by (simp add: mycpu_here)
  moreover have "popcli (pushed i s) = Inr (probed i s)"
    using assms popcli_popped [of "pushed i s" i] here_less [OF assms(1)]
    by (simp add: ncli_pushed cli_ok_def popped_pushed)
  moreover have "c_proc (k_cpus (pushed i s) ! i) = c_proc (k_cpus s ! i)"
    using here_less [OF assms(1)] by (simp add: pushed_def)
  ultimately show ?thesis using assms by (simp add: myproc_def pushcli_pushed)
qed

section \<open>Acquiring and releasing\<close>

definition taken :: "nat \<Rightarrow> lockid \<Rightarrow> 'a kst_scheme \<Rightarrow> 'a kst_scheme" where
  "taken i lk s = upd_lock lk (\<lambda>l. l\<lparr>l_locked := 1, l_cpu := Some i\<rparr>) (pushed i s)"

definition dropped :: "nat \<Rightarrow> lockid \<Rightarrow> 'a kst_scheme \<Rightarrow> 'a kst_scheme" where
  "dropped i lk s = popped i (upd_lock lk (\<lambda>l. l\<lparr>l_cpu := None, l_locked := 0\<rparr>) s)"

definition holds :: "'a kst_scheme \<Rightarrow> lockid \<Rightarrow> nat \<Rightarrow> bool" where
  "holds s lk i \<longleftrightarrow> l_locked (k_locks s lk) \<noteq> 0 \<and> l_cpu (k_locks s lk) = Some i"

lemma cli_ok_pushed: "i < length (k_cpus s) \<Longrightarrow> cli_ok s i \<Longrightarrow> cli_ok (pushed i s) i"
  by (simp add: cli_ok_def ncli_pushed)

lemma acquire_eq:
  assumes "here s i" and "cli_ok s i"
  shows "acquire lk s =
    (if holds s lk i then Inl (Panic ''acquire'')
     else if l_locked (k_locks s lk) \<noteq> 0 then Inl (Spin lk)
     else Inr (taken i lk s))"
proof -
  have i: "i < length (k_cpus s)" using assms(1) by (rule here_less)
  have "probed i (pushed i s) = pushed i s"
    using assms(2) i by (simp add: probed_nested ncli_pushed cli_ok_def)
  then have h: "holding lk (pushed i s) =
      Inr (l_locked (k_locks s lk) \<noteq> 0 \<and> l_cpu (k_locks s lk) = Some i, pushed i s)"
    using holding_eq [of "pushed i s" i] assms i by (simp add: cli_ok_pushed)
  have "mycpu (upd_lock lk f (pushed i s)) = Inr i" for f
    using assms by (intro mycpu_here) (simp, simp add: upd_lock_def)
  then show ?thesis
    using assms h
    by (auto simp: acquire_def pushcli_pushed xchg_def holds_def taken_def upd_lock_def)
qed

lemma acquire_free:
  "here s i \<Longrightarrow> cli_ok s i \<Longrightarrow> l_locked (k_locks s lk) = 0 \<Longrightarrow> acquire lk s = Inr (taken i lk s)"
  by (simp add: acquire_eq holds_def)

lemma release_eq:
  assumes "here s i" and "cli_ok s i" and "0 < c_ncli (k_cpus s ! i)"
  shows "release lk s =
    (if holds s lk i then Inr (dropped i lk s) else Inl (Panic ''release''))"
proof -
  have off: "\<not> k_if s (k_me s)" using assms by (simp add: cli_ok_def)
  have "popcli (upd_lock lk f s) = Inr (popped i (upd_lock lk f s))" for f
    using assms off by (intro popcli_popped) (simp, simp_all add: upd_lock_def)
  then show ?thesis
    using assms by (auto simp: release_def holding_eq probed_nested holds_def dropped_def
        Let_def)
qed

lemma holds_taken [simp]: "holds (taken i lk s) lk i"
  by (simp add: holds_def taken_def upd_lock_def)

lemma here_taken [simp]: "here s i \<Longrightarrow> here (taken i lk s) j = here s j"
  by (simp add: taken_def)

lemma here_dropped [simp]: "here s i \<Longrightarrow> here (dropped i lk s) j = here s j"
  by (simp add: dropped_def)

lemma cli_ok_taken: "i < length (k_cpus s) \<Longrightarrow> cli_ok s i \<Longrightarrow> cli_ok (taken i lk s) i"
  by (simp add: taken_def upd_lock_def cli_ok_def ncli_pushed)

lemma ncli_taken: "i < length (k_cpus s) \<Longrightarrow>
  c_ncli (k_cpus (taken i lk s) ! i) = c_ncli (k_cpus s ! i) + 1"
  by (simp add: taken_def upd_lock_def ncli_pushed)

section \<open>Critical sections\<close>

text \<open>
  \<open>ready s i lk\<close>: processor \<open>i\<close> executes and the lock is free. A critical section then takes the
  lock and gives it back, and leaves everything else as \<open>probed\<close> describes.
\<close>

definition idle_lock :: "'a kst_scheme \<Rightarrow> lockid \<Rightarrow> bool" where
  "idle_lock s lk \<longleftrightarrow> l_locked (k_locks s lk) = 0 \<and> l_cpu (k_locks s lk) = None"

definition ready :: "'a kst_scheme \<Rightarrow> nat \<Rightarrow> lockid \<Rightarrow> bool" where
  "ready s i lk \<longleftrightarrow> here s i \<and> cli_ok s i \<and> idle_lock s lk"

lemma acquire_ready: "ready s i lk \<Longrightarrow> acquire lk s = Inr (taken i lk s)"
  by (simp add: ready_def idle_lock_def acquire_free)

text \<open>\<open>in_crit t s i lk\<close>: the lock table and processors of \<open>t\<close> are those right after the acquire.\<close>

definition in_crit :: "'a kst_scheme \<Rightarrow> 'b kst_scheme \<Rightarrow> nat \<Rightarrow> lockid \<Rightarrow> bool" where
  "in_crit t s i lk \<longleftrightarrow> k_cpus t = k_cpus (taken i lk s) \<and> k_me t = k_me s
     \<and> k_if t = k_if (taken i lk s) \<and> k_locks t = k_locks (taken i lk s)"

definition left_crit :: "nat \<Rightarrow> 'a kst_scheme \<Rightarrow> 'b kst_scheme \<Rightarrow> 'b kst_scheme" where
  "left_crit i s t = t\<lparr>k_cpus := k_cpus (probed i s), k_me := k_me s, k_if := k_if s,
     k_locks := k_locks s\<rparr>"

lemma in_crit_taken [simp]: "in_crit (taken i lk s) s i lk"
  by (simp add: in_crit_def taken_def upd_lock_def)

lemma k_cpus_dropped_taken:
  assumes "ready s i lk"
  shows "k_cpus (dropped i lk (taken i lk s)) = k_cpus (probed i s)"
    "k_if (dropped i lk (taken i lk s)) = k_if s"
    "k_locks (dropped i lk (taken i lk s)) = k_locks s"
proof -
  have e: "popped i (pushed i s) = probed i s"
    using assms by (simp add: popped_pushed ready_def)
  have c: "k_cpus (popped i (upd_lock lk f t)) = k_cpus (popped i t)"
    "k_if (popped i (upd_lock lk f t)) = k_if (popped i t)" for f and t :: "'a kst_scheme"
    by (simp_all add: popped_def upd_lock_def)
  show "k_cpus (dropped i lk (taken i lk s)) = k_cpus (probed i s)"
    by (simp add: dropped_def taken_def c e)
  show "k_if (dropped i lk (taken i lk s)) = k_if s"
    by (simp add: dropped_def taken_def c e)
  show "k_locks (dropped i lk (taken i lk s)) = k_locks s"
    using assms
    by (simp add: dropped_def taken_def popped_def upd_lock_def ready_def idle_lock_def fun_upd_idem)
qed

lemma in_crit_facts:
  assumes "ready s i lk" and "in_crit t s i lk"
  shows "here t i" and "cli_ok t i" and "holds t lk i" and "0 < c_ncli (k_cpus t ! i)"
proof -
  have r: "here s i" "cli_ok s i" "i < length (k_cpus s)"
    using assms(1) by (auto simp: ready_def here_less)
  have me: "k_me (taken i lk s) = k_me s" by (simp add: taken_def upd_lock_def)
  show "here t i"
    using here_taken [OF r(1), of lk i] r(1) assms(2) by (simp add: here_def in_crit_def me)
  show "cli_ok t i"
    using cli_ok_taken [OF r(3,2), of lk] assms(2) by (simp add: cli_ok_def in_crit_def me)
  show "holds t lk i"
    using holds_taken [of i lk s] assms(2) by (simp add: holds_def in_crit_def)
  show "0 < c_ncli (k_cpus t ! i)"
    using ncli_taken [OF r(3), of lk] r(2) assms(2) by (simp add: cli_ok_def in_crit_def)
qed

lemma release_in_crit:
  assumes "ready s i lk" and "in_crit t s i lk"
  shows "release lk t = Inr (left_crit i s t)"
proof -
  note f = in_crit_facts [OF assms]
  have "dropped i lk t = t\<lparr>k_cpus := k_cpus (dropped i lk (taken i lk s)),
      k_if := k_if (dropped i lk (taken i lk s)),
      k_locks := k_locks (dropped i lk (taken i lk s))\<rparr>"
    using assms(2) by (simp add: in_crit_def dropped_def popped_def upd_lock_def taken_def)
  also have "\<dots> = left_crit i s t"
    using assms(2) k_cpus_dropped_taken [OF assms(1)]
    by (simp add: left_crit_def in_crit_def)
  finally show ?thesis
    using release_eq [OF f(1,2,4), of lk] f(3) by simp
qed

lemma myproc_in_crit:
  assumes "ready s i lk" and "in_crit t s i lk"
  shows "myproc t = Inr (c_proc (k_cpus s ! i), t)"
proof -
  note f = in_crit_facts [OF assms]
  have "i < length (k_cpus s)" using assms(1) by (simp add: ready_def here_less)
  then have "c_proc (k_cpus t ! i) = c_proc (k_cpus s ! i)"
    using assms(2) by (simp add: in_crit_def taken_def upd_lock_def pushed_def)
  then show ?thesis using myproc_eq [OF f(1,2)] f(4) by (simp add: probed_nested)
qed

section \<open>Lock discipline over interleaved processors\<close>

text \<open>
  An execution is a sequence of events, each an \<open>acquire\<close> or a \<open>release\<close> by one of several
  agents (processors here, processes for sleep locks). The contract says what one successful
  operation does to the table of owners; mutual exclusion of whole executions follows from it.
\<close>

datatype 'l lockop = Acquire 'l | Release 'l

fun lock_run :: "('l \<Rightarrow> 's \<Rightarrow> 'e + 's) \<Rightarrow> ('l \<Rightarrow> 's \<Rightarrow> 'e + 's) \<Rightarrow> ('i \<Rightarrow> 's \<Rightarrow> 's) \<Rightarrow> 's \<Rightarrow>
    ('i \<times> 'l lockop) list \<Rightarrow> 'e + 's" where
  "lock_run acq rel on s [] = Inr s"
| "lock_run acq rel on s ((i, Acquire lk) # es) =
     andThen (acq lk (on i s)) (\<lambda>s. lock_run acq rel on s es)"
| "lock_run acq rel on s ((i, Release lk) # es) =
     andThen (rel lk (on i s)) (\<lambda>s. lock_run acq rel on s es)"

text \<open>
  The events on one lock take turns: it is acquired only while nobody owns it, and released only
  by its owner.
\<close>

fun turns :: "'l \<Rightarrow> 'i option \<Rightarrow> ('i \<times> 'l lockop) list \<Rightarrow> bool" where
  "turns lk ow [] = True"
| "turns lk ow ((i, Acquire l) # es) =
     (if l = lk then ow = None \<and> turns lk (Some i) es else turns lk ow es)"
| "turns lk ow ((i, Release l) # es) =
     (if l = lk then ow = Some i \<and> turns lk None es else turns lk ow es)"

locale lock_discipline =
  fixes acq rel :: "'l \<Rightarrow> 's \<Rightarrow> 'e + 's"
    and on :: "'i \<Rightarrow> 's \<Rightarrow> 's"
    and owner :: "'s \<Rightarrow> 'l \<Rightarrow> 'i option"
    and known :: "'s \<Rightarrow> 'i set"
    and inv :: "'s \<Rightarrow> bool"
  assumes acq_owner: "\<lbrakk>inv s; i \<in> known s; acq lk (on i s) = Inr s'\<rbrakk> \<Longrightarrow>
      owner s lk = None \<and> owner s' = (owner s)(lk := Some i)"
    and rel_owner: "\<lbrakk>inv s; i \<in> known s; rel lk (on i s) = Inr s'\<rbrakk> \<Longrightarrow>
      owner s lk = Some i \<and> owner s' = (owner s)(lk := None)"
    and acq_inv: "\<lbrakk>inv s; i \<in> known s; acq lk (on i s) = Inr s'\<rbrakk> \<Longrightarrow> inv s' \<and> known s' = known s"
    and rel_inv: "\<lbrakk>inv s; i \<in> known s; rel lk (on i s) = Inr s'\<rbrakk> \<Longrightarrow> inv s' \<and> known s' = known s"
begin

lemma run_inv:
  assumes "inv s" and "fst ` set es \<subseteq> known s" and "lock_run acq rel on s es = Inr s'"
  shows "inv s'"
  using assms
proof (induction es arbitrary: s)
  case (Cons e es)
  obtain i p where e: "e = (i, p)" by (cases e)
  have i: "i \<in> known s" using Cons.prems(2) e by simp
  obtain t where "inv t \<and> known t = known s" and "lock_run acq rel on t es = Inr s'"
  proof (cases p)
    case (Acquire l)
    then show ?thesis
      using Cons.prems(3) e that acq_inv [OF Cons.prems(1) i] by (auto elim!: andThen_InrE)
  next
    case (Release l)
    then show ?thesis
      using Cons.prems(3) e that rel_inv [OF Cons.prems(1) i] by (auto elim!: andThen_InrE)
  qed
  then show ?case using Cons.IH [of t] Cons.prems(2) by simp
qed simp

lemma run_turns:
  assumes "inv s" and "fst ` set es \<subseteq> known s" and "lock_run acq rel on s es = Inr s'"
  shows "turns lk (owner s lk) es"
  using assms
proof (induction es arbitrary: s)
  case (Cons e es)
  obtain i p where e: "e = (i, p)" by (cases e)
  have i: "i \<in> known s" using Cons.prems(2) e by simp
  show ?case
  proof (cases p)
    case (Acquire l)
    then obtain t where t: "acq l (on i s) = Inr t" "lock_run acq rel on t es = Inr s'"
      using Cons.prems(3) e by (auto elim!: andThen_InrE)
    have "turns lk (owner t lk) es"
      using Cons t i acq_inv [of s i l t] by (intro Cons.IH) auto
    then show ?thesis using acq_owner [OF Cons.prems(1) i t(1)] e Acquire by auto
  next
    case (Release l)
    then obtain t where t: "rel l (on i s) = Inr t" "lock_run acq rel on t es = Inr s'"
      using Cons.prems(3) e by (auto elim!: andThen_InrE)
    have "turns lk (owner t lk) es"
      using Cons t i rel_inv [of s i l t] by (intro Cons.IH) auto
    then show ?thesis using rel_owner [OF Cons.prems(1) i t(1)] e Release by auto
  qed
qed simp

end

text \<open>Spin locks and processors.\<close>

definition on_cpu :: "nat \<Rightarrow> 'a kst_scheme \<Rightarrow> 'a kst_scheme" where
  "on_cpu i s = s\<lparr>k_me := c_apicid (k_cpus s ! i)\<rparr>"

definition lock_owner :: "'a kst_scheme \<Rightarrow> lockid \<Rightarrow> nat option" where
  "lock_owner s lk = (if l_locked (k_locks s lk) \<noteq> 0 then l_cpu (k_locks s lk) else None)"

definition held_by :: "'a kst_scheme \<Rightarrow> nat \<Rightarrow> lockid set" where
  "held_by s i = {lk. lock_owner s lk = Some i}"

text \<open>
  The invariant: APIC ids are distinct, the nesting depth of every processor is the number of
  locks it holds, and interrupts are off on a processor that holds one.
\<close>

definition locks_ok :: "'a kst_scheme \<Rightarrow> bool" where
  "locks_ok s \<longleftrightarrow> distinct (map c_apicid (k_cpus s))
     \<and> (\<forall>i<length (k_cpus s). finite (held_by s i)
          \<and> c_ncli (k_cpus s ! i) = int (card (held_by s i))
          \<and> (held_by s i \<noteq> {} \<longrightarrow> \<not> k_if s (c_apicid (k_cpus s ! i))))
     \<and> (\<forall>lk. l_locked (k_locks s lk) \<noteq> 0 \<longrightarrow> lock_owner s lk \<noteq> None)"

lemma locks_okD:
  assumes "locks_ok s" and "i < length (k_cpus s)"
  shows "distinct (map c_apicid (k_cpus s))" "finite (held_by s i)"
    "c_ncli (k_cpus s ! i) = int (card (held_by s i))"
    "held_by s i \<noteq> {} \<Longrightarrow> \<not> k_if s (c_apicid (k_cpus s ! i))"
  using assms by (auto simp: locks_ok_def)

lemma here_on_cpu:
  assumes "distinct (map c_apicid (k_cpus s))" and "i < length (k_cpus s)"
  shows "here (on_cpu i s) i"
  using assms
  by (auto simp: here_def on_cpu_def first_index_Some_iff distinct_conv_nth nth_map)

lemma on_cpu_simps [simp]:
  "k_cpus (on_cpu i s) = k_cpus s" "k_locks (on_cpu i s) = k_locks s" "k_if (on_cpu i s) = k_if s"
  "k_me (on_cpu i s) = c_apicid (k_cpus s ! i)"
  by (simp_all add: on_cpu_def)

lemma cli_ok_on_cpu:
  "locks_ok s \<Longrightarrow> i < length (k_cpus s) \<Longrightarrow> cli_ok (on_cpu i s) i"
  using locks_okD [of s i] by (auto simp: cli_ok_def card_gt_0_iff)

lemma lock_owner_taken:
  "lock_owner (taken i lk s) = (lock_owner s)(lk := Some i)"
  by (rule ext) (simp add: lock_owner_def taken_def upd_lock_def)

lemma lock_owner_dropped:
  "lock_owner (dropped i lk s) = (lock_owner s)(lk := None)"
  by (rule ext) (simp add: lock_owner_def dropped_def popped_def upd_lock_def)

lemma lock_owner_on_cpu [simp]: "lock_owner (on_cpu i s) = lock_owner s"
  by (rule ext) (simp add: lock_owner_def)

lemma acquire_on_cpuE:
  assumes "locks_ok s" and "i < length (k_cpus s)" and "acquire lk (on_cpu i s) = Inr s'"
  shows "s' = taken i lk (on_cpu i s)" and "l_locked (k_locks s lk) = 0"
  using assms acquire_eq [OF here_on_cpu cli_ok_on_cpu, of s i lk] locks_okD(1) [of s i]
  by (auto split: if_splits)

lemma release_on_cpuE:
  assumes "locks_ok s" and "i < length (k_cpus s)" and "release lk (on_cpu i s) = Inr s'"
  shows "s' = dropped i lk (on_cpu i s)" and "lock_owner s lk = Some i"
proof -
  note h = here_on_cpu [OF locks_okD(1) [OF assms(1,2)] assms(2)]
    and c = cli_ok_on_cpu [OF assms(1,2)]
  have own: "holds (on_cpu i s) lk i"
    using assms(3) by (auto simp: release_def holding_eq [OF h c] holds_def split: if_splits)
  then show own': "lock_owner s lk = Some i"
    by (simp add: holds_def lock_owner_def)
  then have "0 < c_ncli (k_cpus s ! i)"
    using locks_okD [OF assms(1,2)] by (auto simp: held_by_def card_gt_0_iff)
  then show "s' = dropped i lk (on_cpu i s)"
    using release_eq [OF h c, of lk] own assms(3) by simp
qed

lemma locks_ok_taken:
  assumes ok: "locks_ok s" and i: "i < length (k_cpus s)" and free: "l_locked (k_locks s lk) = 0"
  shows "locks_ok (taken i lk (on_cpu i s))" (is "locks_ok ?t")
proof -
  note h = locks_okD [OF ok]
  have own: "lock_owner s lk = None" using free by (simp add: lock_owner_def)
  have held: "held_by ?t j = (if j = i then insert lk (held_by s j) else held_by s j)" for j
    using own by (auto simp: held_by_def lock_owner_taken)
  have lk: "lk \<notin> held_by s i" using own by (simp add: held_by_def)
  have cpus: "k_cpus ?t ! j =
      (if j = i then k_cpus ?t ! i else k_cpus s ! j)" if "j < length (k_cpus s)" for j
    using that by (simp add: taken_def upd_lock_def pushed_def)
  have apic: "map c_apicid (k_cpus ?t) = map c_apicid (k_cpus s)"
    using i by (simp add: taken_def upd_lock_def pushed_def map_update_nth_same)
  have ncli: "c_ncli (k_cpus ?t ! i) = c_ncli (k_cpus s ! i) + 1"
    using ncli_taken [of i "on_cpu i s" lk] i by simp
  have apici: "c_apicid (k_cpus ?t ! i) = c_apicid (k_cpus s ! i)"
    using i by (simp add: taken_def upd_lock_def pushed_def)
  have kif: "k_if ?t = (k_if s)(c_apicid (k_cpus s ! i) := False)"
    by (simp add: taken_def upd_lock_def pushed_def)
  show ?thesis
    unfolding locks_ok_def
  proof (intro conjI allI impI)
    show "distinct (map c_apicid (k_cpus ?t))" using h(1) [OF i] apic by simp
  next
    fix j assume "j < length (k_cpus ?t)"
    then have j: "j < length (k_cpus s)" by (simp add: taken_def upd_lock_def pushed_def)
    show "finite (held_by ?t j)" using h(2) [OF j] held by auto
    show "c_ncli (k_cpus ?t ! j) = int (card (held_by ?t j))"
      using h(2,3) [OF j] cpus [OF j] held ncli lk by auto
    show "\<not> k_if ?t (c_apicid (k_cpus ?t ! j))" if "held_by ?t j \<noteq> {}"
      using that h(4) [OF j] cpus [OF j] held kif apici by (cases "j = i") auto
  next
    fix l assume "l_locked (k_locks ?t l) \<noteq> 0"
    then show "lock_owner ?t l \<noteq> None"
      using ok by (cases "l = lk") (auto simp: lock_owner_taken, auto simp: taken_def upd_lock_def locks_ok_def)
  qed
qed

lemma locks_ok_dropped:
  assumes ok: "locks_ok s" and i: "i < length (k_cpus s)" and own: "lock_owner s lk = Some i"
  shows "locks_ok (dropped i lk (on_cpu i s))" (is "locks_ok ?t")
proof -
  note h = locks_okD [OF ok]
  have held: "held_by ?t j = (if j = i then held_by s j - {lk} else held_by s j)" for j
    using own by (auto simp: held_by_def lock_owner_dropped)
  have lk: "lk \<in> held_by s i" using own by (simp add: held_by_def)
  have cpus: "k_cpus ?t ! j =
      (if j = i then (k_cpus s ! i)\<lparr>c_ncli := c_ncli (k_cpus s ! i) - 1\<rparr> else k_cpus s ! j)"
    if "j < length (k_cpus s)" for j
    using that by (simp add: dropped_def upd_lock_def popped_def)
  have apic: "map c_apicid (k_cpus ?t) = map c_apicid (k_cpus s)"
    using i by (simp add: dropped_def upd_lock_def popped_def map_update_nth_same)
  have kif: "k_if ?t a \<Longrightarrow> a = c_apicid (k_cpus s ! i) \<and> c_ncli (k_cpus s ! i) = 1 \<or> k_if s a" for a
    by (auto simp: dropped_def upd_lock_def popped_def split: if_splits)
  show ?thesis
    unfolding locks_ok_def
  proof (intro conjI allI impI)
    show "distinct (map c_apicid (k_cpus ?t))" using h(1) [OF i] apic by simp
  next
    fix j assume "j < length (k_cpus ?t)"
    then have j: "j < length (k_cpus s)" by (simp add: dropped_def upd_lock_def popped_def)
    show "finite (held_by ?t j)" using h(2) [OF j] held by auto
    have "card (held_by s i - {lk}) = card (held_by s i) - 1" "0 < card (held_by s i)"
      using lk h(2) [OF i] by (auto simp: card_gt_0_iff)
    then show "c_ncli (k_cpus ?t ! j) = int (card (held_by ?t j))"
      using h(3) [OF j] h(3) [OF i] cpus [OF j] held by auto
    show "\<not> k_if ?t (c_apicid (k_cpus ?t ! j))" if ne: "held_by ?t j \<noteq> {}"
    proof
      assume "k_if ?t (c_apicid (k_cpus ?t ! j))"
      with kif cpus [OF j] have "c_apicid (k_cpus s ! j) = c_apicid (k_cpus s ! i)
          \<and> c_ncli (k_cpus s ! i) = 1 \<or> k_if s (c_apicid (k_cpus s ! j))"
        by (fastforce split: if_splits)
      moreover have "\<not> k_if s (c_apicid (k_cpus s ! j))"
        using ne held h(4) [OF j] by (auto split: if_splits)
      ultimately have "j = i" and "card (held_by s i) = 1"
        using h(1) [OF i] i j h(3) [OF i] by (auto simp: distinct_conv_nth)
      then show False using ne held lk by (auto simp: card_1_singleton_iff)
    qed
  next
    fix l assume "l_locked (k_locks ?t l) \<noteq> 0"
    then show "lock_owner ?t l \<noteq> None"
      using ok by (cases "l = lk")
        (auto simp: lock_owner_dropped, auto simp: dropped_def popped_def upd_lock_def locks_ok_def)
  qed
qed

interpretation spin: lock_discipline
  "acquire :: lockid \<Rightarrow> 'a kst_scheme \<Rightarrow> failure + 'a kst_scheme" release on_cpu lock_owner
  "\<lambda>s. {i. i < length (k_cpus s)}" locks_ok
proof unfold_locales
  fix s s' :: "'a kst_scheme" and i lk
  assume ok: "locks_ok s" and "i \<in> {i. i < length (k_cpus s)}"
  then have i: "i < length (k_cpus s)" by simp
  {
    assume a: "acquire lk (on_cpu i s) = Inr s'"
    note e = acquire_on_cpuE [OF ok i a]
    show "lock_owner s lk = None \<and> lock_owner s' = (lock_owner s)(lk := Some i)"
      using e by (simp add: lock_owner_taken) (simp add: lock_owner_def)
    show "locks_ok s' \<and> {i. i < length (k_cpus s')} = {i. i < length (k_cpus s)}"
      using e locks_ok_taken [OF ok i e(2)] by (simp add: taken_def upd_lock_def pushed_def)
  }
  {
    assume a: "release lk (on_cpu i s) = Inr s'"
    note e = release_on_cpuE [OF ok i a]
    show "lock_owner s lk = Some i \<and> lock_owner s' = (lock_owner s)(lk := None)"
      using e by (simp add: lock_owner_dropped)
    show "locks_ok s' \<and> {i. i < length (k_cpus s')} = {i. i < length (k_cpus s)}"
      using e locks_ok_dropped [OF ok i e(2)] by (simp add: dropped_def upd_lock_def popped_def)
  }
qed

section \<open>Properties\<close>

definition two_cpus :: kst where
  "two_cpus = \<lparr>k_cpus = [\<lparr>c_apicid = 0, c_ncli = 0, c_intena = False, c_proc = None, c_cr3 = 0, c_esp0 = 0\<rparr>,
       \<lparr>c_apicid = 1, c_ncli = 0, c_intena = False, c_proc = None, c_cr3 = 0, c_esp0 = 0\<rparr>],
     k_me = 0, k_if = (\<lambda>_. True),
     k_locks = (\<lambda>_. \<lparr>l_locked = 0, l_name = [], l_cpu = None\<rparr>)\<rparr>"

lemma locks_ok_two_cpus: "locks_ok two_cpus"
  by (simp add: locks_ok_def two_cpus_def held_by_def lock_owner_def less_Suc_eq numeral_2_eq_2)

text \<open>
  C19. Mutual exclusion of spin locks: in every interleaving of \<open>acquire\<close> and \<open>release\<close> calls of
  several processors that completes, each lock is acquired only while no processor owns it and is
  released only by the processor that owns it; at the end, as throughout, a processor's
  \<open>pushcli\<close> depth is the number of locks it holds, and its interrupts are off while it holds any.
\<close>

theorem spinlock_mutual_exclusion:
  assumes "locks_ok s" and "fst ` set es \<subseteq> {i. i < length (k_cpus s)}"
    and "lock_run acquire release on_cpu s es = Inr s'"
  shows "turns lk (lock_owner s lk) es
    \<and> (\<forall>i<length (k_cpus s'). c_ncli (k_cpus s' ! i) = int (card (held_by s' i))
        \<and> (held_by s' i \<noteq> {} \<longrightarrow> \<not> k_if s' (c_apicid (k_cpus s' ! i))))"
  using spin.run_turns [OF assms] spin.run_inv [OF assms] locks_okD [of s'] by auto

theorem spinlock_mutual_exclusion_witness:
  "\<exists>s'. lock_run acquire release on_cpu two_cpus
       [(0, Acquire PTABLE), (1, Acquire KMEM), (0, Release PTABLE), (1, Acquire PTABLE)] = Inr s'
     \<and> turns PTABLE None
       [(0, Acquire PTABLE), (1, Acquire KMEM), (0, Release PTABLE), (1, Acquire PTABLE)]
     \<and> c_ncli (k_cpus s' ! 1) = int (card (held_by s' 1))"
proof -
  let ?es = "[(0, Acquire PTABLE), (1, Acquire KMEM), (0, Release PTABLE), (1, Acquire PTABLE)]"
  have len: "length (k_cpus two_cpus) = 2" by (simp add: two_cpus_def)
  have own: "lock_owner two_cpus PTABLE = None" by (simp add: two_cpus_def lock_owner_def)
  have "\<exists>s'. lock_run acquire release on_cpu two_cpus ?es = Inr s' \<and> length (k_cpus s') = 2"
    by (simp add: two_cpus_def on_cpu_def acquire_def release_def holding_def pushcli_def popcli_def
        mycpu_def readeflags_IF_def cli_def sti_def upd_cpu_def upd_lock_def xchg_def Let_def)
  then obtain s' where s': "lock_run acquire release on_cpu two_cpus ?es = Inr s'"
    and l: "length (k_cpus s') = 2" by blast
  show ?thesis
    using spinlock_mutual_exclusion [OF locks_ok_two_cpus _ s', of PTABLE] s' l len own
    by (intro exI [of _ s']) auto
qed

text \<open>Repeating an operation.\<close>

fun times :: "nat \<Rightarrow> ('s \<Rightarrow> 'e + 's) \<Rightarrow> 's \<Rightarrow> 'e + 's" where
  "times 0 f s = Inr s"
| "times (Suc n) f s = andThen (f s) (times n f)"

lemma times_snoc: "times (Suc n) f s = andThen (times n f s) f"
proof (induction n arbitrary: s)
  case 0
  show ?case by (cases "f s") auto
next
  case (Suc n)
  show ?case by (cases "f s") (use Suc in auto)
qed

lemma nested_pairs:
  "here s i \<Longrightarrow> cli_ok s i \<Longrightarrow>
   andThen (times n pushcli s) (times n popcli) = Inr (if n = 0 then s else probed i s)"
proof (induction n arbitrary: s)
  case (Suc n)
  let ?s = "pushed i s"
  note i = here_less [OF Suc.prems(1)]
  have pos: "0 < c_ncli (k_cpus ?s ! i)" using Suc.prems(2) i by (simp add: ncli_pushed cli_ok_def)
  have "andThen (times n pushcli ?s) (times n popcli) = Inr ?s"
    using Suc.IH [of ?s] Suc.prems i pos by (simp add: cli_ok_pushed probed_nested)
  moreover have "popcli ?s = Inr (probed i s)"
    using popcli_popped [of ?s i] Suc.prems pos by (simp add: popped_pushed)
  moreover have "andThen (times (Suc n) pushcli s) (times (Suc n) popcli)
      = andThen (andThen (times n pushcli ?s) (times n popcli)) popcli"
    unfolding andThen_assoc times_snoc [of n popcli] using Suc.prems(1) by (simp add: pushcli_pushed)
  ultimately show ?case by (simp del: times.simps)
qed simp

text \<open>
  Matched \<open>pushcli\<close>/\<open>popcli\<close> calls nest: after \<open>n\<close> calls of \<open>pushcli\<close> and \<open>n\<close> calls of
  \<open>popcli\<close> none has panicked, and the interrupt flag, the nesting depth and every lock are what
  they were before.
\<close>

theorem pushcli_popcli_nest:
  assumes "here s i" and "cli_ok s i"
  shows "\<exists>t. andThen (times n pushcli s) (times n popcli) = Inr t \<and> k_if t = k_if s
    \<and> c_ncli (k_cpus t ! i) = c_ncli (k_cpus s ! i) \<and> k_locks t = k_locks s
    \<and> (0 < c_ncli (k_cpus s ! i) \<longrightarrow> t = s)"
  using nested_pairs [OF assms, of n] by (simp add: probed_nested)

theorem pushcli_popcli_nest_witness:
  "\<exists>t. andThen (times 3 pushcli two_cpus) (times 3 popcli) = Inr t \<and> k_if t = k_if two_cpus
    \<and> c_ncli (k_cpus t ! 0) = 0"
  using pushcli_popcli_nest [of two_cpus 0 3]
  by (auto simp: here_def cli_ok_def two_cpus_def)

end
