(* ===== verification/Kalloc.thy ===== *)
theory Kalloc
  imports KString Spinlock
begin

unbundle bit_operations_syntax

text \<open>
  The physical page allocator, \<^verbatim>\<open>kalloc.c\<close>: a list of free pages threaded through the pages
  themselves. \<open>km_mem\<close> is the kernel's view of memory, byte by byte; \<open>km_end\<close> is the linker's
  symbol \<open>end\<close>, the first address after the kernel image.
\<close>

section \<open>Data and operations\<close>

definition PGSIZE :: uint where "PGSIZE = 4096"
definition KERNBASE :: uint where "KERNBASE = 0x80000000"
definition PHYSTOP :: uint where "PHYSTOP = 0xE000000"

definition V2P :: "uint \<Rightarrow> uint" where "V2P a = a - KERNBASE"
definition P2V :: "uint \<Rightarrow> uint" where "P2V a = a + KERNBASE"

definition PGROUNDUP :: "uint \<Rightarrow> uint" where
  "PGROUNDUP sz = (sz + PGSIZE - 1) AND NOT (PGSIZE - 1)"

definition PGROUNDDOWN :: "uint \<Rightarrow> uint" where
  "PGROUNDDOWN a = a AND NOT (PGSIZE - 1)"

record kmst = kst +
  km_mem :: memory
  km_uselock :: bool
  km_freelist :: uint
  km_end :: uint

definition kfree :: "uint \<Rightarrow> 'a kmst_scheme \<Rightarrow> failure + 'a kmst_scheme" where
  "kfree v s =
     (if v mod PGSIZE \<noteq> 0 \<or> v < km_end s \<or> V2P v \<ge> PHYSTOP then Inl (Panic ''kfree'')
      else let s = s\<lparr>km_mem := memset (unat v) 1 4096 (km_mem s)\<rparr> in
        andThen (if km_uselock s then acquire KMEM s else Inr s) (\<lambda>s.
        let s = s\<lparr>km_mem := store32 (unat v) (km_freelist s) (km_mem s)\<rparr>;
            s = s\<lparr>km_freelist := v\<rparr>
        in if km_uselock s then release KMEM s else Inr s))"

definition kalloc :: "'a kmst_scheme \<Rightarrow> failure + uint \<times> 'a kmst_scheme" where
  "kalloc s =
     andThen (if km_uselock s then acquire KMEM s else Inr s) (\<lambda>s.
     let r = km_freelist s;
         s = (if r \<noteq> 0 then s\<lparr>km_freelist := load32 (km_mem s) (unat r)\<rparr> else s)
     in andThen (if km_uselock s then release KMEM s else Inr s) (\<lambda>s. Inr (r, s)))"

text \<open>
  A page that \<open>kfree\<close> accepts lies below \<open>KERNBASE + PHYSTOP\<close>, so the scan of \<open>freerange\<close>
  never wraps around and ends.
\<close>

lemma kfree_InrD:
  assumes "kfree v s = Inr s'"
  shows "v mod PGSIZE = 0" and "km_end s \<le> v" and "V2P v < PHYSTOP"
  using assms by (auto simp: kfree_def split: if_splits)

lemma V2P_less_PHYSTOP_iff: "V2P v < PHYSTOP \<longleftrightarrow> 0x80000000 \<le> unat v \<and> unat v < 0x8E000000"
  unfolding V2P_def PHYSTOP_def KERNBASE_def by (unat_arith, auto)

lemma unat_add_PGSIZE: "V2P v < PHYSTOP \<Longrightarrow> unat (v + PGSIZE) = unat v + 4096"
  unfolding V2P_less_PHYSTOP_iff PGSIZE_def by (unat_arith, auto)

function freerange_from :: "uint \<Rightarrow> uint \<Rightarrow> 'a kmst_scheme \<Rightarrow> failure + 'a kmst_scheme" where
  "freerange_from p vend s =
     (if p + PGSIZE \<le> vend
      then andThen (kfree p s) (\<lambda>s. freerange_from (p + PGSIZE) vend s)
      else Inr s)"
  by pat_completeness auto
termination
proof (relation "measure (\<lambda>(p, vend, s). 2 ^ 32 - unat p)", simp)
  fix p vend :: uint and s s' :: "'a kmst_scheme"
  assume "kfree p s = Inr s'"
  then have "V2P p < PHYSTOP" by (rule kfree_InrD)
  then have "unat (p + PGSIZE) = unat p + 4096" by (rule unat_add_PGSIZE)
  moreover have "unat (p + PGSIZE) < 2 ^ 32" using unsigned_less [of "p + PGSIZE"] by simp
  ultimately show "((p + PGSIZE, vend, s'), p, vend, s) \<in> measure (\<lambda>(p, vend, s). 2 ^ 32 - unat p)"
    by simp
qed

declare freerange_from.simps [simp del]

definition freerange :: "uint \<Rightarrow> uint \<Rightarrow> 'a kmst_scheme \<Rightarrow> failure + 'a kmst_scheme" where
  "freerange vstart vend s = freerange_from (PGROUNDUP vstart) vend s"

definition kinit1 :: "uint \<Rightarrow> uint \<Rightarrow> 'a kmst_scheme \<Rightarrow> failure + 'a kmst_scheme" where
  "kinit1 vstart vend s =
     (let s = initlock KMEM ''kmem'' s; s = s\<lparr>km_uselock := False\<rparr>
      in freerange vstart vend s)"

definition kinit2 :: "uint \<Rightarrow> uint \<Rightarrow> 'a kmst_scheme \<Rightarrow> failure + 'a kmst_scheme" where
  "kinit2 vstart vend s =
     andThen (freerange vstart vend s) (\<lambda>s. Inr (s\<lparr>km_uselock := True\<rparr>))"

section \<open>The free list\<close>

text \<open>\<open>free_chain m h ps\<close>: from \<open>h\<close> the \<open>next\<close> pointers run through exactly the pages \<open>ps\<close>.\<close>

fun free_chain :: "memory \<Rightarrow> uint \<Rightarrow> uint list \<Rightarrow> bool" where
  "free_chain m h [] = (h = 0)"
| "free_chain m h (p # ps) = (h = p \<and> p \<noteq> 0 \<and> free_chain m (load32 m (unat p)) ps)"

definition page_ok :: "uint \<Rightarrow> uint \<Rightarrow> bool" where
  "page_ok e p \<longleftrightarrow> p mod PGSIZE = 0 \<and> e \<le> p \<and> V2P p < PHYSTOP"

definition kmem_ok :: "'a kmst_scheme \<Rightarrow> uint list \<Rightarrow> bool" where
  "kmem_ok s ps \<longleftrightarrow> free_chain (km_mem s) (km_freelist s) ps \<and> distinct ps
     \<and> (\<forall>p\<in>set ps. page_ok (km_end s) p)"

text \<open>The processor can take the allocator's lock, if the allocator uses one.\<close>

definition kmem_ready :: "'a kmst_scheme \<Rightarrow> nat \<Rightarrow> bool" where
  "kmem_ready s i \<longleftrightarrow> (km_uselock s \<longrightarrow> ready s i KMEM)"

definition kmem_left :: "nat \<Rightarrow> 'a kmst_scheme \<Rightarrow> 'a kmst_scheme" where
  "kmem_left i s = (if km_uselock s then probed i s else s)"

lemma page_ok_bounds:
  assumes "page_ok e p"
  shows "unat p mod 4096 = 0" and "0x80000000 \<le> unat p" and "unat p + 4096 \<le> 0x8E000000" and "p \<noteq> 0"
proof -
  have "unat (p mod PGSIZE) = 0" using assms by (simp add: page_ok_def)
  then show m: "unat p mod 4096 = 0" by (simp add: unat_mod PGSIZE_def)
  show lo: "0x80000000 \<le> unat p"
    using assms by (auto simp: page_ok_def V2P_less_PHYSTOP_iff)
  obtain k where k: "unat p = 4096 * k" using m by (auto simp: mod_eq_0_iff_dvd elim: dvdE)
  have "4096 * k < 4096 * 0x8E000"
    using assms k by (simp add: page_ok_def V2P_less_PHYSTOP_iff)
  then have "Suc k \<le> 0x8E000" by simp
  then show "unat p + 4096 \<le> 0x8E000000" using k by simp
  show "p \<noteq> 0" using lo by auto
qed

lemma pages_disjoint:
  assumes "page_ok e p" and "page_ok e' q" and "p \<noteq> q"
  shows "unat p + 4096 \<le> unat q \<or> unat q + 4096 \<le> unat p"
proof -
  have "unat p \<noteq> unat q" using assms(3) by (simp add: word_unat_eq_iff)
  moreover obtain k j where "unat p = 4096 * k" "unat q = 4096 * j"
    using page_ok_bounds(1) [OF assms(1)] page_ok_bounds(1) [OF assms(2)]
    by (auto simp: mod_eq_0_iff_dvd elim!: dvdE)
  ultimately show ?thesis by simp arith
qed

lemma free_chain_frame:
  assumes "free_chain m h ps" and "\<And>p k. p \<in> set ps \<Longrightarrow> k < 4 \<Longrightarrow> m' (unat p + k) = m (unat p + k)"
  shows "free_chain m' h ps"
  using assms
proof (induction ps arbitrary: h)
  case (Cons p ps)
  have "load32 m' (unat p) = load32 m (unat p)"
    using Cons.prems(2) by (intro load32_cong) simp
  then show ?case using Cons by auto
qed simp

lemma free_chain_hd: "free_chain m h ps \<Longrightarrow> h = 0 \<longleftrightarrow> ps = []"
  by (cases ps) auto

text \<open>The lock bracket of the allocator: an update of the allocator's own fields inside it.\<close>

definition kmem_upd :: "memory \<Rightarrow> uint \<Rightarrow> 'a kmst_scheme \<Rightarrow> 'a kmst_scheme" where
  "kmem_upd m h s = s\<lparr>km_mem := m, km_freelist := h\<rparr>"

lemma k_fields_kmem_upd [simp]:
  "k_cpus (kmem_upd m h s) = k_cpus s" "k_me (kmem_upd m h s) = k_me s"
  "k_if (kmem_upd m h s) = k_if s" "k_locks (kmem_upd m h s) = k_locks s"
  by (simp_all add: kmem_upd_def)

lemma km_fields_taken [simp]:
  "km_mem (taken i lk s) = km_mem s" "km_uselock (taken i lk s) = km_uselock s"
  "km_freelist (taken i lk s) = km_freelist s" "km_end (taken i lk s) = km_end s"
  by (simp_all add: taken_def upd_lock_def pushed_def)

lemma km_fields_probed [simp]:
  "km_mem (probed i s) = km_mem s" "km_uselock (probed i s) = km_uselock s"
  "km_freelist (probed i s) = km_freelist s" "km_end (probed i s) = km_end s"
  by (simp_all add: probed_def)

lemma left_crit_kmem_upd:
  "left_crit i s (kmem_upd m h (taken i lk s)) = kmem_upd m h (probed i s)"
  by (simp add: left_crit_def kmem_upd_def taken_def upd_lock_def pushed_def probed_def)

lemma in_crit_kmem_upd [simp]: "in_crit (kmem_upd m h t) s i lk = in_crit t s i lk"
  by (simp add: in_crit_def)

lemma ready_km_mem [simp]: "ready (s\<lparr>km_mem := m\<rparr>) i lk = ready s i lk"
  by (simp add: ready_def here_def cli_ok_def idle_lock_def)

lemma kfree_eq:
  assumes "kmem_ready s i" and "page_ok (km_end s) v"
  shows "kfree v s = Inr (kmem_upd
     (store32 (unat v) (km_freelist s) (memset (unat v) 1 4096 (km_mem s))) v (kmem_left i s))"
proof -
  let ?m = "memset (unat v) 1 4096 (km_mem s)"
  let ?s = "s\<lparr>km_mem := ?m\<rparr>"
  have ok: "\<not> (v mod PGSIZE \<noteq> 0 \<or> v < km_end s \<or> V2P v \<ge> PHYSTOP)"
    using assms(2) by (auto simp: page_ok_def)
  show ?thesis
  proof (cases "km_uselock s")
    case False
    then show ?thesis using ok by (simp add: kfree_def kmem_left_def kmem_upd_def)
  next
    case True
    then have r: "ready ?s i KMEM" using assms(1) by (simp add: kmem_ready_def)
    have rel: "release KMEM (kmem_upd m h (taken i KMEM ?s)) = Inr (kmem_upd m h (probed i ?s))" for m h
      using release_in_crit [OF r, of "kmem_upd m h (taken i KMEM ?s)"]
      by (simp add: left_crit_kmem_upd)
    have "kfree v s = release KMEM (kmem_upd (store32 (unat v) (km_freelist s) ?m) v (taken i KMEM ?s))"
      using ok True acquire_ready [OF r] by (simp add: kfree_def kmem_upd_def)
    also have "\<dots> = Inr (kmem_upd (store32 (unat v) (km_freelist s) ?m) v (probed i ?s))"
      by (rule rel)
    finally show ?thesis
      using True by (simp add: kmem_left_def kmem_upd_def probed_def)
  qed
qed

lemma kalloc_eq:
  assumes "kmem_ready s i"
  shows "kalloc s = Inr (km_freelist s, kmem_upd (km_mem s)
     (if km_freelist s \<noteq> 0 then load32 (km_mem s) (unat (km_freelist s)) else 0) (kmem_left i s))"
proof (cases "km_uselock s")
  case False
  then show ?thesis by (simp add: kalloc_def kmem_left_def kmem_upd_def Let_def)
next
  case True
  then have r: "ready s i KMEM" using assms by (simp add: kmem_ready_def)
  have rel: "release KMEM (kmem_upd m h (taken i KMEM s)) = Inr (kmem_upd m h (probed i s))" for m h
    using release_in_crit [OF r, of "kmem_upd m h (taken i KMEM s)"]
    by (simp add: left_crit_kmem_upd)
  have k: "(taken i KMEM s)\<lparr>km_freelist := h\<rparr> = kmem_upd (km_mem s) h (taken i KMEM s)" for h
    by (simp add: kmem_upd_def)
  have k0: "taken i KMEM s = kmem_upd (km_mem s) 0 (taken i KMEM s)" if "km_freelist s = 0"
    using that by (simp add: kmem_upd_def)
  have u: "km_uselock (kmem_upd m h (taken i KMEM s))" for m h
    using True by (simp add: kmem_upd_def)
  show ?thesis
  proof (cases "km_freelist s = 0")
    case True
    then show ?thesis
      using \<open>km_uselock s\<close> acquire_ready [OF r] rel [of "km_mem s" 0] k0
      by (simp add: kalloc_def kmem_left_def)
  next
    case False
    then show ?thesis
      using True acquire_ready [OF r] rel k u by (simp add: kalloc_def kmem_left_def Let_def)
  qed
qed

lemma kmem_ok_upd_left [simp]:
  "kmem_ok (kmem_upd m h (kmem_left i s)) ps = kmem_ok (kmem_upd m h s) ps"
  by (simp add: kmem_ok_def kmem_upd_def kmem_left_def)

lemma kmem_ok_kfree:
  assumes ok: "kmem_ok s ps" and v: "page_ok (km_end s) v" "v \<notin> set ps"
  shows "kmem_ok (kmem_upd (store32 (unat v) (km_freelist s) (memset (unat v) 1 4096 (km_mem s))) v s)
           (v # ps)"
proof -
  let ?m = "store32 (unat v) (km_freelist s) (memset (unat v) 1 4096 (km_mem s))"
  have out: "?m x = km_mem s x" if "x < unat v \<or> unat v + 4096 \<le> x" for x
    using that by (auto simp: store32_outside memset_fills poke_outside)
  have "free_chain ?m (km_freelist s) ps"
  proof (rule free_chain_frame)
    show "free_chain (km_mem s) (km_freelist s) ps" using ok by (simp add: kmem_ok_def)
    fix p and k :: nat assume p: "p \<in> set ps" and "k < 4"
    then have "page_ok (km_end s) p" and "p \<noteq> v" using ok v by (auto simp: kmem_ok_def)
    then show "?m (unat p + k) = km_mem s (unat p + k)"
      using pages_disjoint [OF _ v(1)] \<open>k < 4\<close> by (intro out) fastforce
  qed
  then show ?thesis
    using ok v page_ok_bounds(4) [OF v(1)] by (auto simp: kmem_ok_def kmem_upd_def)
qed

lemma kmem_ok_kalloc:
  assumes "kmem_ok s (p # ps)"
  shows "km_freelist s = p" and "p \<noteq> 0"
    and "kmem_ok (kmem_upd (km_mem s) (load32 (km_mem s) (unat p)) s) ps"
  using assms by (auto simp: kmem_ok_def kmem_upd_def)

section \<open>The allocator's contract\<close>

text \<open>
  What the rest of the kernel relies on: \<open>alloc\<close> takes a page out of the available ones or
  reports that there is none, \<open>free\<close> puts a page back. Over any history of calls no page is in
  the hands of two owners, and no page that was handed out is still available.
\<close>

text \<open>
  A history is a list of calls: \<open>Alloc_page\<close> allocates, \<open>Free_page k\<close> frees the \<open>k\<close>-th of
  the pages the callers hold, in whatever order they were handed out.
\<close>

datatype page_call = Alloc_page | Free_page nat

fun page_history :: "('s \<Rightarrow> 'e + 'p option \<times> 's) \<Rightarrow> ('p \<Rightarrow> 's \<Rightarrow> 'e + 's) \<Rightarrow> page_call list \<Rightarrow>
    'p list \<Rightarrow> 's \<Rightarrow> 'e + 'p list \<times> 's" where
  "page_history alloc free [] own s = Inr (own, s)"
| "page_history alloc free (Alloc_page # es) own s =
     andThen (alloc s) (\<lambda>(r, s).
       case r of None \<Rightarrow> page_history alloc free es own s
       | Some p \<Rightarrow> page_history alloc free es (p # own) s)"
| "page_history alloc free (Free_page k # es) own s =
     (if k < length own then andThen (free (own ! k) s) (\<lambda>s. page_history alloc free es (take k own @ drop (Suc k) own) s)
      else page_history alloc free es own s)"

locale page_allocator =
  fixes alloc :: "'s \<Rightarrow> 'e + 'p option \<times> 's"
    and free :: "'p \<Rightarrow> 's \<Rightarrow> 'e + 's"
    and avail :: "'s \<Rightarrow> 'p set"
    and valid :: "'s \<Rightarrow> 'p \<Rightarrow> bool"
    and inv :: "'s \<Rightarrow> bool"
  assumes alloc_some: "inv s \<Longrightarrow> avail s \<noteq> {} \<Longrightarrow>
      \<exists>p s'. alloc s = Inr (Some p, s') \<and> p \<in> avail s \<and> avail s' = avail s - {p} \<and> inv s'
        \<and> valid s' = valid s"
    and alloc_none: "inv s \<Longrightarrow> avail s = {} \<Longrightarrow>
      \<exists>s'. alloc s = Inr (None, s') \<and> avail s' = {} \<and> inv s' \<and> valid s' = valid s"
    and free_back: "inv s \<Longrightarrow> valid s p \<Longrightarrow> p \<notin> avail s \<Longrightarrow>
      \<exists>s'. free p s = Inr s' \<and> avail s' = insert p (avail s) \<and> inv s' \<and> valid s' = valid s"
    and avail_valid: "inv s \<Longrightarrow> p \<in> avail s \<Longrightarrow> valid s p"
begin

lemma history_partition:
  assumes "inv s" and "distinct own" and "set own \<inter> avail s = {}" and "\<forall>p\<in>set own. valid s p"
  shows "\<exists>own' s'. page_history alloc free es own s = Inr (own', s') \<and> inv s' \<and> distinct own'
    \<and> set own' \<inter> avail s' = {} \<and> set own' \<union> avail s' = set own \<union> avail s"
  using assms
proof (induction es arbitrary: own s)
  case Nil
  then show ?case by simp
next
  case (Cons e es)
  show ?case
  proof (cases e)
    case Alloc_page
    show ?thesis
    proof (cases "avail s = {}")
      case empty: True
      then obtain s' where s': "alloc s = Inr (None, s')" "avail s' = {}" "inv s'" "valid s' = valid s"
        using alloc_none Cons.prems(1) by blast
      have "\<exists>own' s''. page_history alloc free es own s' = Inr (own', s'') \<and> inv s'' \<and> distinct own'
          \<and> set own' \<inter> avail s'' = {} \<and> set own' \<union> avail s'' = set own \<union> avail s'"
        using Cons.prems s' by (intro Cons.IH) auto
      then show ?thesis using Alloc_page s' empty by simp
    next
      case False
      then obtain p s' where p: "alloc s = Inr (Some p, s')" "p \<in> avail s" "avail s' = avail s - {p}"
          "inv s'" "valid s' = valid s"
        using alloc_some Cons.prems(1) by blast
      have "\<exists>own' s''. page_history alloc free es (p # own) s' = Inr (own', s'') \<and> inv s'' \<and> distinct own'
          \<and> set own' \<inter> avail s'' = {} \<and> set own' \<union> avail s'' = set (p # own) \<union> avail s'"
        using Cons.prems p avail_valid by (intro Cons.IH) auto
      then show ?thesis using Alloc_page p by (auto simp: insert_absorb)
    qed
  next
    case (Free_page k)
    show ?thesis
    proof (cases "k < length own")
      case False
      then show ?thesis using Cons.IH [of s own] Cons.prems Free_page by simp
    next
      case True
      define p where "p = own ! k"
      define own' where "own' = take k own @ drop (Suc k) own"
      have split: "own = take k own @ p # drop (Suc k) own" using True by (simp add: p_def id_take_nth_drop)
      define xs ys where "xs = take k own" and "ys = drop (Suc k) own"
      have own_eq: "own = xs @ p # ys" and own'_eq: "own' = xs @ ys"
        using split by (simp_all only: xs_def ys_def own'_def)
      have own': "distinct own'" "set own' = set own - {p}" "p \<in> set own"
        using Cons.prems(2) unfolding own_eq own'_eq by auto
      obtain s' where s': "free p s = Inr s'" "avail s' = insert p (avail s)" "inv s'" "valid s' = valid s"
        using free_back [of s p] Cons.prems own'(3) by auto
      have "\<exists>own'' s''. page_history alloc free es own' s' = Inr (own'', s'') \<and> inv s'' \<and> distinct own''
          \<and> set own'' \<inter> avail s'' = {} \<and> set own'' \<union> avail s'' = set own' \<union> avail s'"
        using Cons.prems own' s' by (intro Cons.IH) auto
      moreover have "set own' \<union> avail s' = set own \<union> avail s" using own' s'(2) by auto
      ultimately show ?thesis using Free_page True s'(1) by (simp add: p_def own'_def)
    qed
  qed
qed

end

text \<open>
  The model's allocator: the null pointer stands for "no page", and the available pages are those
  on the free list.
\<close>

definition kalloc_opt :: "'a kmst_scheme \<Rightarrow> failure + uint option \<times> 'a kmst_scheme" where
  "kalloc_opt s = andThen (kalloc s) (\<lambda>(r, s). Inr (if r = 0 then None else Some r, s))"

definition free_pages :: "'a kmst_scheme \<Rightarrow> uint set" where
  "free_pages s = {p. \<exists>ps. kmem_ok s ps \<and> p \<in> set ps}"

definition kmem_inv :: "'a kmst_scheme \<Rightarrow> bool" where
  "kmem_inv s \<longleftrightarrow> (\<exists>ps. kmem_ok s ps) \<and> (\<exists>i. kmem_ready s i)"

lemma free_chain_unique: "free_chain m h ps \<Longrightarrow> free_chain m h qs \<Longrightarrow> ps = qs"
  by (induction ps arbitrary: h qs) (case_tac qs; auto)+

lemma free_pages_eq: "kmem_ok s ps \<Longrightarrow> free_pages s = set ps"
  by (auto simp: free_pages_def kmem_ok_def dest: free_chain_unique)

lemma cli_ok_probed [simp]: "here s i \<Longrightarrow> cli_ok (probed i s) i = cli_ok s i"
  by (simp add: cli_ok_def)

lemma ready_probed [simp]: "ready s i lk \<Longrightarrow> ready (probed i s) i lk"
  by (auto simp: ready_def idle_lock_def)

lemma ready_kmem_upd [simp]: "ready (kmem_upd m h s) i lk = ready s i lk"
  by (simp add: ready_def here_def cli_ok_def idle_lock_def)

lemma kmem_ready_upd_left: "kmem_ready s i \<Longrightarrow> kmem_ready (kmem_upd m h (kmem_left i s)) i"
  by (auto simp: kmem_ready_def kmem_left_def) (simp_all add: kmem_upd_def)

lemma km_end_upd_left [simp]: "km_end (kmem_upd m h (kmem_left i s)) = km_end s"
  by (simp add: kmem_upd_def kmem_left_def)

interpretation kpages: page_allocator
  "kalloc_opt :: 'a kmst_scheme \<Rightarrow> failure + uint option \<times> 'a kmst_scheme" kfree free_pages
  "\<lambda>s. page_ok (km_end s)" kmem_inv
proof unfold_locales
  fix s :: "'a kmst_scheme"
  assume "kmem_inv s" and "free_pages s \<noteq> {}"
  then obtain i ps where i: "kmem_ready s i" and ps: "kmem_ok s ps" "ps \<noteq> []"
    by (fastforce simp: kmem_inv_def free_pages_eq)
  then obtain p qs where p: "ps = p # qs" by (cases ps) auto
  note k = kmem_ok_kalloc [OF ps(1) [unfolded p]]
  let ?t = "kmem_upd (km_mem s) (load32 (km_mem s) (unat p)) (kmem_left i s)"
  have "kalloc_opt s = Inr (Some p, ?t)"
    using kalloc_eq [OF i] k by (simp add: kalloc_opt_def)
  moreover have "kmem_ok ?t qs" using k(3) by simp
  moreover have "distinct ps" using ps by (simp add: kmem_ok_def)
  ultimately show "\<exists>p s'. kalloc_opt s = Inr (Some p, s') \<and> p \<in> free_pages s
      \<and> free_pages s' = free_pages s - {p} \<and> kmem_inv s' \<and> page_ok (km_end s') = page_ok (km_end s)"
    using ps(1) p i by (intro exI [of _ p] exI [of _ ?t])
      (auto simp: free_pages_eq kmem_inv_def intro: kmem_ready_upd_left)
next
  fix s :: "'a kmst_scheme"
  assume "kmem_inv s" and e: "free_pages s = {}"
  then obtain i ps where i: "kmem_ready s i" and ps: "kmem_ok s ps"
    by (auto simp: kmem_inv_def)
  have Nil: "ps = []" using e free_pages_eq [OF ps] by simp
  then have z: "km_freelist s = 0" using ps by (simp add: kmem_ok_def)
  let ?t = "kmem_upd (km_mem s) 0 (kmem_left i s)"
  have "kalloc_opt s = Inr (None, ?t)" using kalloc_eq [OF i] z by (simp add: kalloc_opt_def)
  moreover have "kmem_ok ?t []" by (simp add: kmem_ok_def kmem_upd_def)
  ultimately show "\<exists>s'. kalloc_opt s = Inr (None, s') \<and> free_pages s' = {} \<and> kmem_inv s'
      \<and> page_ok (km_end s') = page_ok (km_end s)"
    using i by (intro exI [of _ ?t]) (auto simp: free_pages_eq kmem_inv_def intro: kmem_ready_upd_left)
next
  fix s :: "'a kmst_scheme" and v
  assume "kmem_inv s" and v: "page_ok (km_end s) v" "v \<notin> free_pages s"
  then obtain i ps where i: "kmem_ready s i" and ps: "kmem_ok s ps"
    by (auto simp: kmem_inv_def)
  let ?m = "store32 (unat v) (km_freelist s) (memset (unat v) 1 4096 (km_mem s))"
  let ?t = "kmem_upd ?m v (kmem_left i s)"
  have "kfree v s = Inr ?t" by (rule kfree_eq [OF i v(1)])
  moreover have "kmem_ok ?t (v # ps)"
    using kmem_ok_kfree [OF ps v(1)] v(2) free_pages_eq [OF ps] by simp
  ultimately show "\<exists>s'. kfree v s = Inr s' \<and> free_pages s' = insert v (free_pages s) \<and> kmem_inv s'
      \<and> page_ok (km_end s') = page_ok (km_end s)"
    using i ps by (intro exI [of _ ?t])
      (auto simp: free_pages_eq kmem_inv_def intro: kmem_ready_upd_left)
next
  fix s :: "'a kmst_scheme" and p
  assume "kmem_inv s" and "p \<in> free_pages s"
  then show "page_ok (km_end s) p" by (auto simp: kmem_inv_def free_pages_eq kmem_ok_def)
qed

section \<open>Rounding to pages, and the initial free list\<close>

lemma and_not_page_mask: "(x :: uint) AND NOT (PGSIZE - 1) = push_bit 12 (drop_bit 12 x)"
proof (rule bit_word_eqI)
  fix n assume n: "n < LENGTH(32)"
  have "bit (mask 12 :: uint) n \<longleftrightarrow> n < 12" using n by (simp add: bit_mask_iff)
  moreover have "PGSIZE - 1 = (mask 12 :: uint)" by (simp add: PGSIZE_def mask_eq_exp_minus_1)
  ultimately show "bit (x AND NOT (PGSIZE - 1)) n = bit (push_bit 12 (drop_bit 12 x)) n"
    using n by (auto simp: bit_simps)
qed

lemma unat_PGROUNDDOWN: "unat (PGROUNDDOWN a) = unat a div 4096 * 4096"
proof -
  have "unat a div 4096 * 4096 \<le> unat a" by simp
  also have "unat a < 2 ^ 32" using unsigned_less [of a] by simp
  finally have "unat a div 4096 * 4096 < 2 ^ 32" .
  then show ?thesis
    unfolding PGROUNDDOWN_def and_not_page_mask
    by (simp add: unat_word_ariths unat_div push_bit_eq_mult drop_bit_eq_div)
qed

lemma unat_PGROUNDUP:
  assumes "unat sz + 4095 < 2 ^ 32"
  shows "unat (PGROUNDUP sz) = (unat sz + 4095) div 4096 * 4096"
proof -
  have "PGROUNDUP sz = PGROUNDDOWN (sz + 4095)"
    by (simp add: PGROUNDUP_def PGROUNDDOWN_def PGSIZE_def add.commute)
  moreover have "unat (sz + 4095) = unat sz + 4095" using assms by (simp add: unat_word_ariths)
  ultimately show ?thesis by (simp add: unat_PGROUNDDOWN)
qed

text \<open>The pages that lie between two addresses.\<close>

definition pages_in :: "uint \<Rightarrow> uint \<Rightarrow> uint set" where
  "pages_in lo hi = {q. q mod PGSIZE = 0 \<and> lo \<le> q \<and> unat q + 4096 \<le> unat hi}"

lemma pages_in_step:
  assumes "p mod PGSIZE = 0" and "unat p + 4096 \<le> unat hi" and "unat hi \<le> 0x8E000000"
  shows "pages_in p hi = insert p (pages_in (p + PGSIZE) hi)"
proof -
  have up: "unat (p + PGSIZE) = unat p + 4096"
    using assms by (simp add: PGSIZE_def unat_word_ariths)
  have far: "unat p + 4096 \<le> unat q" if "q mod PGSIZE = 0" "p \<le> q" "q \<noteq> p" for q
  proof -
    have "unat q mod 4096 = 0" "unat p mod 4096 = 0" "unat p < unat q"
      using that assms(1) unat_mod [of q PGSIZE] unat_mod [of p PGSIZE]
      by (auto simp: PGSIZE_def word_le_nat_alt word_unat_eq_iff)
    then obtain k j where "unat p = 4096 * k" "unat q = 4096 * j" "k < j"
      by (auto simp: mod_eq_0_iff_dvd elim!: dvdE)
    then show ?thesis by simp
  qed
  have "q \<in> pages_in p hi \<longleftrightarrow> q = p \<or> q \<in> pages_in (p + PGSIZE) hi" for q
    using far [of q] up assms
    by (cases "q = p"; cases "q mod PGSIZE = 0"; simp add: pages_in_def word_le_nat_alt; linarith)
  then show ?thesis by blast
qed

lemma freerange_from_adds:
  assumes "kmem_ready s i" and "kmem_ok s ps"
    and "p mod PGSIZE = 0" and "km_end s \<le> p" and "KERNBASE \<le> p" and "unat p \<le> 0x8E000000"
    and "unat vend \<le> 0x8E000000" and "\<forall>q\<in>set ps. q < p"
  shows "\<exists>s' qs. freerange_from p vend s = Inr s' \<and> kmem_ok s' (qs @ ps) \<and> kmem_ready s' i
    \<and> set qs = pages_in p vend"
  using assms
proof (induction p vend s arbitrary: ps rule: freerange_from.induct)
  case (1 p vend s)
  have p0: "0x80000000 \<le> unat p"
    using "1.prems"(5) by (simp add: KERNBASE_def word_le_nat_alt)
  have up: "unat (p + PGSIZE) = unat p + 4096"
    using "1.prems"(6) by (simp add: PGSIZE_def unat_word_ariths)
  show ?case
  proof (cases "unat p + 4096 \<le> unat vend")
    case False
    then have "\<not> p + PGSIZE \<le> vend" by (simp add: word_le_nat_alt up)
    moreover have "pages_in p vend = {}"
      using False by (auto simp: pages_in_def word_le_nat_alt)
    ultimately show ?thesis using "1.prems" by (simp add: freerange_from.simps [of p])
  next
    case True
    then have le: "p + PGSIZE \<le> vend" by (simp add: word_le_nat_alt up)
    have pg: "page_ok (km_end s) p"
      using "1.prems" True p0 by (auto simp: page_ok_def V2P_less_PHYSTOP_iff)
    let ?m = "store32 (unat p) (km_freelist s) (memset (unat p) 1 4096 (km_mem s))"
    let ?t = "kmem_upd ?m p (kmem_left i s)"
    have k: "kfree p s = Inr ?t" by (rule kfree_eq [OF "1.prems"(1) pg])
    have pm: "(p + PGSIZE) mod PGSIZE = 0"
    proof -
      have "unat ((p + PGSIZE) mod PGSIZE) = unat p mod 4096"
        by (simp add: unat_mod up) (simp add: PGSIZE_def)
      then show ?thesis
        using "1.prems"(3) unat_mod [of p PGSIZE] by (simp add: PGSIZE_def word_unat_eq_iff)
    qed
    have up': "p \<le> p + PGSIZE" "p < p + PGSIZE"
      by (simp_all add: word_le_nat_alt word_less_nat_alt up)
    have ok': "kmem_ok ?t (p # ps)"
      using kmem_ok_kfree [OF "1.prems"(2) pg] "1.prems"(8) by auto
    have "\<exists>s' qs. freerange_from (p + PGSIZE) vend ?t = Inr s' \<and> kmem_ok s' (qs @ p # ps)
        \<and> kmem_ready s' i \<and> set qs = pages_in (p + PGSIZE) vend"
      using "1.prems" pm up' True ok' up
      by (intro "1.IH" [OF le k]) (auto intro: kmem_ready_upd_left)
    then obtain s' qs where s': "freerange_from (p + PGSIZE) vend ?t = Inr s'"
        "kmem_ok s' ((qs @ [p]) @ ps)" "kmem_ready s' i" "set qs = pages_in (p + PGSIZE) vend"
      by auto
    then show ?thesis
      using le k pages_in_step [OF "1.prems"(3) True "1.prems"(7)]
      by (intro exI [of _ s'] exI [of _ "qs @ [p]"]) (simp add: freerange_from.simps [of p])
  qed
qed

section \<open>Properties\<close>

text \<open>
  A concrete machine for the examples: one processor, the kernel image ending at
  \<^verbatim>\<open>0x80112000\<close>, no lock in use yet, and a free list of the given pages.
\<close>

fun chain_mem :: "uint list \<Rightarrow> memory" where
  "chain_mem [] = (\<lambda>_. 0)"
| "chain_mem [p] = store32 (unat p) 0 (\<lambda>_. 0)"
| "chain_mem (p # q # ps) = store32 (unat p) q (chain_mem (q # ps))"

definition kinit_state :: "uint list \<Rightarrow> kmst" where
  "kinit_state ps = \<lparr>k_cpus = [\<lparr>c_apicid = 0, c_ncli = 0, c_intena = False, c_proc = None,
       c_cr3 = 0, c_esp0 = 0\<rparr>],
     k_me = 0, k_if = (\<lambda>_. False),
     k_locks = (\<lambda>_. \<lparr>l_locked = 0, l_name = [], l_cpu = None\<rparr>),
     km_mem = chain_mem ps, km_uselock = True,
     km_freelist = (case ps of [] \<Rightarrow> 0 | p # _ \<Rightarrow> p), km_end = 0x80112000\<rparr>"

lemma kinit_state_ready: "kmem_ready (kinit_state ps) 0"
  by (simp add: kmem_ready_def ready_def here_def cli_ok_def idle_lock_def kinit_state_def)

text \<open>
  C2. Whatever sequence of \<open>kalloc\<close> calls and of \<open>kfree\<close> calls on any of the pages handed out is made from a
  well-formed free list, every call returns (no panic), the pages handed out are pairwise distinct and
  disjoint from the free ones, and together they are the pages the allocator started with.
\<close>

theorem kalloc_history_partition:
  assumes "kmem_ok s ps" and "kmem_ready s i"
  shows "\<exists>own s'. page_history kalloc_opt kfree es [] s = Inr (own, s') \<and> distinct own
    \<and> set own \<inter> free_pages s' = {} \<and> set own \<union> free_pages s' = set ps"
proof -
  have "kmem_inv s" using assms by (auto simp: kmem_inv_def)
  then show ?thesis
    using kpages.history_partition [of s "[]" es] free_pages_eq [OF assms(1)] by auto
qed

theorem kalloc_history_partition_witness:
  "kmem_ok (kinit_state [0x80401000, 0x80400000]) [0x80401000, 0x80400000]
   \<and> kmem_ready (kinit_state [0x80401000, 0x80400000]) 0
   \<and> (\<exists>own s'. page_history kalloc_opt kfree [Alloc_page, Alloc_page, Free_page 1, Alloc_page] []
          (kinit_state [0x80401000, 0x80400000]) = Inr (own, s') \<and> distinct own
        \<and> set own \<inter> free_pages s' = {} \<and> set own \<union> free_pages s' = {0x80401000, 0x80400000})"
proof -
  have "kmem_ok (kinit_state [0x80401000, 0x80400000]) [0x80401000, 0x80400000]"
    by (simp add: kmem_ok_def kinit_state_def load32_store32_disjoint page_ok_def PGSIZE_def
        V2P_less_PHYSTOP_iff)
  then show ?thesis
    using kalloc_history_partition [of "kinit_state [0x80401000, 0x80400000]"
        "[0x80401000, 0x80400000]" 0 "[Alloc_page, Alloc_page, Free_page 1, Alloc_page]"] kinit_state_ready by simp
qed

text \<open>
  \<open>freerange\<close> returns for every range inside physical memory above the kernel and adds exactly
  the whole pages of that range to the free list, each once.
\<close>

theorem freerange_adds_pages:
  assumes "kmem_ready s i" and "kmem_ok s ps"
    and "km_end s \<le> vstart" and "KERNBASE \<le> vstart" and "unat vstart \<le> 0x8DFFF000"
    and "unat vend \<le> 0x8E000000" and "\<forall>q\<in>set ps. q < PGROUNDUP vstart"
  shows "\<exists>s' qs. freerange vstart vend s = Inr s' \<and> kmem_ok s' (qs @ ps)
    \<and> set qs = pages_in vstart vend"
proof -
  have up: "unat (PGROUNDUP vstart) = (unat vstart + 4095) div 4096 * 4096"
    using assms(5) by (intro unat_PGROUNDUP) simp
  have "(unat vstart + 4095) div 4096 * 4096 \<ge> unat vstart"
    using div_mult_mod_eq [of "unat vstart + 4095" 4096] mod_less_divisor [of 4096 "unat vstart + 4095"]
    by linarith
  then have ge: "vstart \<le> PGROUNDUP vstart" by (simp add: word_le_nat_alt up)
  have m: "PGROUNDUP vstart mod PGSIZE = 0"
    using unat_mod [of "PGROUNDUP vstart" PGSIZE] up by (simp add: PGSIZE_def word_unat_eq_iff)
  have hi: "unat (PGROUNDUP vstart) \<le> 0x8E000000"
  proof -
    have "(unat vstart + 4095) div 4096 \<le> (0x8DFFF000 + 4095) div 4096"
      using assms(5) by (intro div_le_mono) simp
    then show ?thesis by (simp add: up)
  qed
  have same: "pages_in (PGROUNDUP vstart) vend = pages_in vstart vend"
  proof -
    have above: "PGROUNDUP vstart \<le> q" if "q mod PGSIZE = 0" "vstart \<le> q" for q
    proof -
      have "unat q mod 4096 = 0" using that(1) unat_mod [of q PGSIZE] by (simp add: PGSIZE_def)
      then obtain k where k: "unat q = 4096 * k" by (auto simp: mod_eq_0_iff_dvd elim: dvdE)
      have "unat vstart \<le> unat q" using that(2) by (simp add: word_le_nat_alt)
      then have "(unat vstart + 4095) div 4096 \<le> (4095 + 4096 * k) div 4096"
        using k by (intro div_le_mono) simp
      then show ?thesis using k by (simp add: up word_le_nat_alt)
    qed
    have "PGROUNDUP vstart \<le> q \<longleftrightarrow> vstart \<le> q" if "q mod PGSIZE = 0" for q
      using above [OF that] order_trans [OF ge, of q] by (rule iffI [rotated])
    then show ?thesis by (simp add: pages_in_def cong: conj_cong)
  qed
  have "km_end s \<le> PGROUNDUP vstart" and "KERNBASE \<le> PGROUNDUP vstart"
    using assms(3,4) ge by (blast intro: order_trans)+
  from freerange_from_adds [OF assms(1,2) m this hi assms(6,7)] show ?thesis
    unfolding freerange_def same by blast
qed

theorem freerange_adds_pages_witness:
  "kmem_ready (kinit_state []) 0 \<and> kmem_ok (kinit_state []) []
   \<and> (\<exists>s' qs. freerange 0x80113000 0x80400000 (kinit_state []) = Inr s' \<and> kmem_ok s' (qs @ [])
        \<and> set qs = pages_in 0x80113000 0x80400000)"
proof -
  have "kmem_ok (kinit_state []) []" and "km_end (kinit_state []) = 0x80112000"
    by (simp_all add: kinit_state_def kmem_ok_def)
  then show ?thesis
    using freerange_adds_pages [of "kinit_state []" 0 "[]" "0x80113000" "0x80400000"]
      kinit_state_ready by (simp add: KERNBASE_def)
qed

end
