(* ===== verification/Vm.thy ===== *)
theory Vm
  imports Kalloc
begin

unbundle bit_operations_syntax

text \<open>
  Page tables and user memory, \<^verbatim>\<open>vm.c\<close> and the address macros of \<^verbatim>\<open>mmu.h\<close>. Page directories
  and page tables live in the modelled memory and are reached through \<open>P2V\<close>, as in the kernel.
  \<open>switchkvm\<close> and \<open>switchuvm\<close> are with the processes, whose stacks they install. \<open>vdata\<close> is the linker's symbol \<open>data\<close>.

  Loops over the address space carry fuel: one unit per page of the 32-bit address space is
  enough, since every iteration but the last advances by a page.
\<close>

section \<open>Addresses and page table entries\<close>

definition EXTMEM :: uint where "EXTMEM = 0x100000"
definition DEVSPACE :: uint where "DEVSPACE = 0xFE000000"
definition KERNLINK :: uint where "KERNLINK = KERNBASE + EXTMEM"

definition PTE_P :: uint where "PTE_P = 1"
definition PTE_W :: uint where "PTE_W = 2"
definition PTE_U :: uint where "PTE_U = 4"

definition PDX :: "uint \<Rightarrow> uint" where "PDX va = drop_bit 22 va AND 0x3FF"
definition PTX :: "uint \<Rightarrow> uint" where "PTX va = drop_bit 12 va AND 0x3FF"

definition PGADDR :: "uint \<Rightarrow> uint \<Rightarrow> uint \<Rightarrow> uint" where
  "PGADDR d t off = push_bit 22 d OR push_bit 12 t OR off"

definition PTE_ADDR :: "uint \<Rightarrow> uint" where "PTE_ADDR pte = pte AND NOT 0xFFF"
definition PTE_FLAGS :: "uint \<Rightarrow> uint" where "PTE_FLAGS pte = pte AND 0xFFF"

section \<open>Operations\<close>

definition mem_load :: "uint \<Rightarrow> 'a kmst_scheme \<Rightarrow> uint" where
  "mem_load a s = load32 (km_mem s) (unat a)"

definition mem_store :: "uint \<Rightarrow> uint \<Rightarrow> 'a kmst_scheme \<Rightarrow> 'a kmst_scheme" where
  "mem_store a w s = s\<lparr>km_mem := store32 (unat a) w (km_mem s)\<rparr>"

definition mem_set :: "uint \<Rightarrow> uint \<Rightarrow> nat \<Rightarrow> 'a kmst_scheme \<Rightarrow> 'a kmst_scheme" where
  "mem_set a c n s = s\<lparr>km_mem := memset (unat a) c n (km_mem s)\<rparr>"

definition mem_move :: "uint \<Rightarrow> uint \<Rightarrow> nat \<Rightarrow> 'a kmst_scheme \<Rightarrow> 'a kmst_scheme" where
  "mem_move d a n s = s\<lparr>km_mem := memmove (unat d) (unat a) n (km_mem s)\<rparr>"

definition walkpgdir :: "uint \<Rightarrow> uint \<Rightarrow> bool \<Rightarrow> 'a kmst_scheme \<Rightarrow> failure + uint \<times> 'a kmst_scheme" where
  "walkpgdir pgdir va alloc s =
     (let pde = pgdir + 4 * PDX va in
      if mem_load pde s AND PTE_P \<noteq> 0
      then Inr (P2V (PTE_ADDR (mem_load pde s)) + 4 * PTX va, s)
      else if \<not> alloc then Inr (0, s)
      else andThen (kalloc s) (\<lambda>(pgtab, s).
        if pgtab = 0 then Inr (0, s)
        else let s = mem_set pgtab 0 4096 s;
                 s = mem_store pde (V2P pgtab OR PTE_P OR PTE_W OR PTE_U) s
             in Inr (pgtab + 4 * PTX va, s)))"

fun mappages_from :: "nat \<Rightarrow> uint \<Rightarrow> uint \<Rightarrow> uint \<Rightarrow> uint \<Rightarrow> uint \<Rightarrow> 'a kmst_scheme \<Rightarrow>
    failure + int \<times> 'a kmst_scheme" where
  "mappages_from 0 pgdir a lst pa perm s = Inl (Undefined ''out of fuel'')"
| "mappages_from (Suc fuel) pgdir a lst pa perm s =
     andThen (walkpgdir pgdir a True s) (\<lambda>(pte, s).
     if pte = 0 then Inr (-1, s)
     else if mem_load pte s AND PTE_P \<noteq> 0 then Inl (Panic ''remap'')
     else let s = mem_store pte (pa OR perm OR PTE_P) s
          in if a = lst then Inr (0, s)
             else mappages_from fuel pgdir (a + PGSIZE) lst (pa + PGSIZE) perm s)"

definition mappages :: "uint \<Rightarrow> uint \<Rightarrow> uint \<Rightarrow> uint \<Rightarrow> uint \<Rightarrow> 'a kmst_scheme \<Rightarrow>
    failure + int \<times> 'a kmst_scheme" where
  "mappages pgdir va len pa perm s =
     (let a = PGROUNDDOWN va; lst = PGROUNDDOWN (va + len - 1)
      in mappages_from (unat (lst - a) div 4096 + 1) pgdir a lst pa perm s)"

fun deallocuvm_from :: "nat \<Rightarrow> uint \<Rightarrow> uint \<Rightarrow> uint \<Rightarrow> 'a kmst_scheme \<Rightarrow> failure + 'a kmst_scheme" where
  "deallocuvm_from 0 pgdir a oldsz s = Inl (Undefined ''out of fuel'')"
| "deallocuvm_from (Suc fuel) pgdir a oldsz s =
     (if a < oldsz then
        andThen (walkpgdir pgdir a False s) (\<lambda>(pte, s).
        if pte = 0 then
          let a = PGADDR (PDX a + 1) 0 0 - PGSIZE
          in deallocuvm_from fuel pgdir (a + PGSIZE) oldsz s
        else if mem_load pte s AND PTE_P \<noteq> 0 then
          let pa = PTE_ADDR (mem_load pte s)
          in if pa = 0 then Inl (Panic ''kfree'')
             else andThen (kfree (P2V pa) s) (\<lambda>s.
               let s = mem_store pte 0 s
               in deallocuvm_from fuel pgdir (a + PGSIZE) oldsz s)
        else deallocuvm_from fuel pgdir (a + PGSIZE) oldsz s)
      else Inr s)"

definition deallocuvm :: "uint \<Rightarrow> uint \<Rightarrow> uint \<Rightarrow> 'a kmst_scheme \<Rightarrow> failure + uint \<times> 'a kmst_scheme" where
  "deallocuvm pgdir oldsz newsz s =
     (if newsz \<ge> oldsz then Inr (oldsz, s)
      else andThen (deallocuvm_from (2 ^ 20 + 1) pgdir (PGROUNDUP newsz) oldsz s) (\<lambda>s. Inr (newsz, s)))"

fun allocuvm_from :: "nat \<Rightarrow> uint \<Rightarrow> uint \<Rightarrow> uint \<Rightarrow> uint \<Rightarrow> 'a kmst_scheme \<Rightarrow>
    failure + uint \<times> 'a kmst_scheme" where
  "allocuvm_from 0 pgdir a oldsz newsz s = Inl (Undefined ''out of fuel'')"
| "allocuvm_from (Suc fuel) pgdir a oldsz newsz s =
     (if a < newsz then
        andThen (kalloc s) (\<lambda>(mem, s).
        if mem = 0 then
          andThen (deallocuvm pgdir newsz oldsz s) (\<lambda>(_, s). Inr (0, s))
        else let s = mem_set mem 0 4096 s in
          andThen (mappages pgdir a PGSIZE (V2P mem) (PTE_W OR PTE_U) s) (\<lambda>(r, s).
          if r < 0 then
            andThen (deallocuvm pgdir newsz oldsz s) (\<lambda>(_, s).
            andThen (kfree mem s) (\<lambda>s. Inr (0, s)))
          else allocuvm_from fuel pgdir (a + PGSIZE) oldsz newsz s))
      else Inr (newsz, s))"

definition allocuvm :: "uint \<Rightarrow> uint \<Rightarrow> uint \<Rightarrow> 'a kmst_scheme \<Rightarrow> failure + uint \<times> 'a kmst_scheme" where
  "allocuvm pgdir oldsz newsz s =
     (if newsz \<ge> KERNBASE then Inr (0, s)
      else if newsz < oldsz then Inr (oldsz, s)
      else allocuvm_from (2 ^ 20 + 1) pgdir (PGROUNDUP oldsz) oldsz newsz s)"

text \<open>The loop of \<open>freevm\<close> over the page directory, from entry \<open>i\<close> on.\<close>

fun freevm_tables :: "nat \<Rightarrow> uint \<Rightarrow> uint \<Rightarrow> 'a kmst_scheme \<Rightarrow> failure + 'a kmst_scheme" where
  "freevm_tables 0 pgdir i s = Inr s"
| "freevm_tables (Suc n) pgdir i s =
     (let pde = mem_load (pgdir + 4 * i) s in
      if pde AND PTE_P \<noteq> 0
      then andThen (kfree (P2V (PTE_ADDR pde)) s) (\<lambda>s. freevm_tables n pgdir (i + 1) s)
      else freevm_tables n pgdir (i + 1) s)"

definition freevm :: "uint \<Rightarrow> 'a kmst_scheme \<Rightarrow> failure + 'a kmst_scheme" where
  "freevm pgdir s =
     (if pgdir = 0 then Inl (Panic ''freevm: no pgdir'')
      else andThen (deallocuvm pgdir KERNBASE 0 s) (\<lambda>(_, s).
        andThen (freevm_tables 1024 pgdir 0 s) (\<lambda>s. kfree pgdir s)))"

text \<open>The kernel's mappings: virtual address, physical start and end, permissions.\<close>

definition kmap :: "uint \<Rightarrow> (uint \<times> uint \<times> uint \<times> uint) list" where
  "kmap vdata =
     [(KERNBASE, 0, EXTMEM, PTE_W),
      (KERNLINK, V2P KERNLINK, V2P vdata, 0),
      (vdata, V2P vdata, PHYSTOP, PTE_W),
      (DEVSPACE, DEVSPACE, 0, PTE_W)]"

fun setupkvm_maps :: "(uint \<times> uint \<times> uint \<times> uint) list \<Rightarrow> uint \<Rightarrow> 'a kmst_scheme \<Rightarrow>
    failure + uint \<times> 'a kmst_scheme" where
  "setupkvm_maps [] pgdir s = Inr (pgdir, s)"
| "setupkvm_maps ((virt, phys_start, phys_end, perm) # ks) pgdir s =
     andThen (mappages pgdir virt (phys_end - phys_start) phys_start perm s) (\<lambda>(r, s).
     if r < 0 then andThen (freevm pgdir s) (\<lambda>s. Inr (0, s))
     else setupkvm_maps ks pgdir s)"

definition setupkvm :: "uint \<Rightarrow> 'a kmst_scheme \<Rightarrow> failure + uint \<times> 'a kmst_scheme" where
  "setupkvm vdata s =
     andThen (kalloc s) (\<lambda>(pgdir, s).
     if pgdir = 0 then Inr (0, s)
     else let s = mem_set pgdir 0 4096 s in
       if P2V PHYSTOP > DEVSPACE then Inl (Panic ''PHYSTOP too high'')
       else setupkvm_maps (kmap vdata) pgdir s)"

definition inituvm :: "uint \<Rightarrow> uchar list \<Rightarrow> 'a kmst_scheme \<Rightarrow> failure + 'a kmst_scheme" where
  "inituvm pgdir init s =
     (if length init \<ge> 4096 then Inl (Panic ''inituvm: more than a page'')
      else andThen (kalloc s) (\<lambda>(mem, s).
        let s = mem_set mem 0 4096 s in
        andThen (mappages pgdir 0 PGSIZE (V2P mem) (PTE_W OR PTE_U) s) (\<lambda>(_, s).
        Inr (s\<lparr>km_mem := poke (km_mem s) (unat mem) init\<rparr>))))"

definition clearpteu :: "uint \<Rightarrow> uint \<Rightarrow> 'a kmst_scheme \<Rightarrow> failure + 'a kmst_scheme" where
  "clearpteu pgdir uva s =
     andThen (walkpgdir pgdir uva False s) (\<lambda>(pte, s).
     if pte = 0 then Inl (Panic ''clearpteu'')
     else Inr (mem_store pte (mem_load pte s AND NOT PTE_U) s))"

fun copyuvm_from :: "nat \<Rightarrow> uint \<Rightarrow> uint \<Rightarrow> uint \<Rightarrow> uint \<Rightarrow> 'a kmst_scheme \<Rightarrow>
    failure + uint \<times> 'a kmst_scheme" where
  "copyuvm_from 0 pgdir d i sz s = Inl (Undefined ''out of fuel'')"
| "copyuvm_from (Suc fuel) pgdir d i sz s =
     (if i < sz then
        andThen (walkpgdir pgdir i False s) (\<lambda>(pte, s).
        if pte = 0 then Inl (Panic ''copyuvm: pte should exist'')
        else if mem_load pte s AND PTE_P = 0 then Inl (Panic ''copyuvm: page not present'')
        else let pa = PTE_ADDR (mem_load pte s); flags = PTE_FLAGS (mem_load pte s) in
          andThen (kalloc s) (\<lambda>(mem, s).
          if mem = 0 then andThen (freevm d s) (\<lambda>s. Inr (0, s))
          else let s = mem_move mem (P2V pa) 4096 s in
            andThen (mappages d i PGSIZE (V2P mem) flags s) (\<lambda>(r, s).
            if r < 0 then
              andThen (kfree mem s) (\<lambda>s. andThen (freevm d s) (\<lambda>s. Inr (0, s)))
            else copyuvm_from fuel pgdir d (i + PGSIZE) sz s)))
      else Inr (d, s))"

definition copyuvm :: "uint \<Rightarrow> uint \<Rightarrow> uint \<Rightarrow> 'a kmst_scheme \<Rightarrow> failure + uint \<times> 'a kmst_scheme" where
  "copyuvm vdata pgdir sz s =
     andThen (setupkvm vdata s) (\<lambda>(d, s).
     if d = 0 then Inr (0, s) else copyuvm_from (2 ^ 20 + 1) pgdir d 0 sz s)"

text \<open>
  \<open>uva2ka\<close> follows the entry that \<open>walkpgdir\<close> returns without a test for the null pointer: the
  kernel page table maps address 0 in no process, so that read faults.
\<close>

definition uva2ka :: "uint \<Rightarrow> uint \<Rightarrow> 'a kmst_scheme \<Rightarrow> failure + uint" where
  "uva2ka pgdir uva s =
     andThen (walkpgdir pgdir uva False s) (\<lambda>(pte, s).
     if pte = 0 then Inl (Undefined ''uva2ka: null pte'')
     else if mem_load pte s AND PTE_P = 0 then Inr 0
     else if mem_load pte s AND PTE_U = 0 then Inr 0
     else Inr (P2V (PTE_ADDR (mem_load pte s))))"

lemma unat_page_offset: "unat (va - PGROUNDDOWN va) = unat va mod 4096"
proof -
  have "PGROUNDDOWN va \<le> va" by (simp add: word_le_nat_alt unat_PGROUNDDOWN)
  then show ?thesis by (simp add: unat_sub unat_PGROUNDDOWN minus_div_mult_eq_mod)
qed

lemma unat_page_rest: "unat (PGSIZE - (va - PGROUNDDOWN va)) = 4096 - unat va mod 4096"
proof -
  have "va - PGROUNDDOWN va \<le> PGSIZE"
    using mod_less_divisor [of 4096 "unat va"]
    by (simp add: word_le_nat_alt unat_page_offset PGSIZE_def less_imp_le)
  then show ?thesis by (simp add: unat_sub unat_page_offset) (simp add: PGSIZE_def)
qed

text \<open>\<open>copyout\<close>, with the bytes at \<open>p\<close> as the list \<open>buf\<close>; it shrinks in every iteration.\<close>

function copyout :: "uint \<Rightarrow> uint \<Rightarrow> uchar list \<Rightarrow> 'a kmst_scheme \<Rightarrow> failure + int \<times> 'a kmst_scheme" where
  "copyout pgdir va buf s =
     (if buf = [] then Inr (0, s)
      else let va0 = PGROUNDDOWN va in
        andThen (uva2ka pgdir va0 s) (\<lambda>pa0.
        if pa0 = 0 then Inr (-1, s)
        else let n = unat (PGSIZE - (va - va0));
                 n = (if n > length buf then length buf else n);
                 s = s\<lparr>km_mem := poke (km_mem s) (unat (pa0 + (va - va0))) (take n buf)\<rparr>
             in copyout pgdir (va0 + PGSIZE) (drop n buf) s))"
  by pat_completeness auto
termination
  by (relation "measure (\<lambda>(pgdir, va, buf, s). length buf)")
    (auto simp: unat_page_rest)

declare copyout.simps [simp del]

section \<open>Address arithmetic\<close>

lemma mask_10_12: "(0x3FF :: uint) = mask 10" "(0xFFF :: uint) = mask 12"
  by (simp_all add: mask_eq_exp_minus_1)

lemma bit_low_mask: "bit (0x3FF :: uint) n \<longleftrightarrow> n < 10" "bit (0xFFF :: uint) n \<longleftrightarrow> n < 12"
  unfolding mask_10_12 bit_mask_iff by auto

lemma unat_PDX: "unat (PDX va) = unat va div 2 ^ 22"
proof -
  have "unat va < 2 ^ 32" using unsigned_less [of va] by simp
  then have "unat va div 2 ^ 22 < 1024" by (simp add: div_less_iff_less_mult)
  then show ?thesis
    unfolding PDX_def mask_10_12 take_bit_eq_mask [symmetric]
    by (simp add: take_bit_eq_mod drop_bit_eq_div unat_div unat_mod)
qed

lemma unat_PTX: "unat (PTX va) = unat va div 4096 mod 1024"
  unfolding PTX_def mask_10_12 take_bit_eq_mask [symmetric]
  by (simp add: take_bit_eq_mod drop_bit_eq_div unat_div unat_mod)

lemma PDX_less: "unat (PDX va) < 1024"
proof -
  have "unat va < 2 ^ 32" using unsigned_less [of va] by simp
  then show ?thesis by (simp add: unat_PDX div_less_iff_less_mult)
qed

lemma PTX_less: "unat (PTX va) < 1024"
  by (simp add: unat_PTX)

lemma PGADDR_parts: "PGADDR (PDX va) (PTX va) (va AND 0xFFF) = va"
proof (rule bit_word_eqI)
  fix n assume "n < LENGTH(32)"
  then have n: "n < 32" by simp
  consider "n < 12" | "12 \<le> n" "n < 22" | "22 \<le> n" by linarith
  then show "bit (PGADDR (PDX va) (PTX va) (va AND 0xFFF)) n = bit va n"
    unfolding PGADDR_def PDX_def PTX_def bit_or_iff bit_and_iff bit_push_bit_iff bit_drop_bit_eq
      bit_low_mask comp_apply
    using n by cases (auto dest: bit_imp_le_length)
qed

lemma PDX_PTX_eq_iff: "PDX a = PDX b \<and> PTX a = PTX b \<longleftrightarrow> PGROUNDDOWN a = PGROUNDDOWN b"
proof -
  let ?x = "unat a div 4096" and ?y = "unat b div 4096"
  have "PDX a = PDX b \<and> PTX a = PTX b \<longleftrightarrow> ?x div 1024 = ?y div 1024 \<and> ?x mod 1024 = ?y mod 1024"
    by (simp add: word_unat_eq_iff unat_PDX unat_PTX div_mult2_eq [symmetric])
  also have "\<dots> \<longleftrightarrow> ?x = ?y"
    by (metis div_mult_mod_eq)
  also have "\<dots> \<longleftrightarrow> PGROUNDDOWN a = PGROUNDDOWN b"
    by (simp add: word_unat_eq_iff unat_PGROUNDDOWN)
  finally show ?thesis .
qed

lemma aligned_bits: "p mod PGSIZE = 0 \<Longrightarrow> n < 12 \<Longrightarrow> \<not> bit (p :: uint) n"
proof -
  assume "p mod PGSIZE = 0" and n: "n < 12"
  then have "take_bit 12 p = 0" by (simp add: take_bit_eq_mod PGSIZE_def)
  then have "\<not> bit (take_bit 12 p) n" by simp
  then show ?thesis using n by (simp add: bit_take_bit_iff)
qed

lemma V2P_mod: "page_ok e p \<Longrightarrow> V2P p mod PGSIZE = 0"
proof -
  assume a: "page_ok e p"
  have "KERNBASE \<le> p" using page_ok_bounds(2) [OF a] by (simp add: KERNBASE_def word_le_nat_alt)
  then have "unat (V2P p) = unat p - 0x80000000" by (simp add: V2P_def unat_sub) (simp add: KERNBASE_def)
  moreover obtain k where "unat p = 4096 * k"
    using page_ok_bounds(1) [OF a] by (auto simp: mod_eq_0_iff_dvd elim: dvdE)
  ultimately have "unat (V2P p) = 4096 * (k - 0x80000)" by (simp add: diff_mult_distrib2)
  then show ?thesis using unat_mod [of "V2P p" PGSIZE] by (simp add: PGSIZE_def word_unat_eq_iff)
qed

lemma PTE_ADDR_entry:
  assumes "p mod PGSIZE = 0" and "f \<le> 0xFFF"
  shows "PTE_ADDR (p OR f) = p"
proof (rule bit_word_eqI)
  fix n assume n: "n < LENGTH(32)"
  have "f = take_bit 12 f"
    using assms(2)
    by (simp add: take_bit_eq_mod word_unat_eq_iff unat_mod word_le_nat_alt)
  then have "bit f n \<Longrightarrow> n < 12" by (metis bit_take_bit_iff)
  then show "bit (PTE_ADDR (p OR f)) n = bit p n"
    using n aligned_bits [OF assms(1), of n]
    unfolding PTE_ADDR_def bit_or_iff bit_and_iff bit_not_iff bit_low_mask by auto
qed

lemma P2V_V2P [simp]: "P2V (V2P p) = p" and V2P_P2V [simp]: "V2P (P2V a) = a"
  by (simp_all add: P2V_def V2P_def)

section \<open>Slots of page tables\<close>

lemma unat_slot:
  assumes "page_ok e p" and "unat k < 1024"
  shows "unat (p + 4 * k) = unat p + 4 * unat k"
  using page_ok_bounds(3) [OF assms(1)] assms(2) by (simp add: unat_word_ariths)

lemma slots_disjoint:
  assumes "page_ok e p" "page_ok e' q" "unat k < 1024" "unat j < 1024" "p \<noteq> q \<or> k \<noteq> j"
  shows "unat (p + 4 * k) + 4 \<le> unat (q + 4 * j) \<or> unat (q + 4 * j) + 4 \<le> unat (p + 4 * k)"
proof (cases "p = q")
  case True
  then have "unat k \<noteq> unat j" using assms(5) by (simp add: word_unat_eq_iff)
  then show ?thesis
    using True unat_slot [OF assms(1,3)] unat_slot [OF assms(2,4)] by (simp only:) arith
next
  case False
  then show ?thesis
    using pages_disjoint [OF assms(1,2)] assms(3,4)
    by (simp add: unat_slot [OF assms(1,3)] unat_slot [OF assms(2,4)]) linarith
qed

lemma mem_load_store_same [simp]: "mem_load a (mem_store a w s) = w"
  by (simp add: mem_load_def mem_store_def)

lemma mem_load_store_slot:
  assumes "page_ok e p" "page_ok e' q" "unat k < 1024" "unat j < 1024"
  shows "mem_load (q + 4 * j) (mem_store (p + 4 * k) w s)
    = (if p = q \<and> k = j then w else mem_load (q + 4 * j) s)"
  using slots_disjoint [OF assms]
  by (auto simp: mem_load_def mem_store_def load32_store32_disjoint)

lemma mem_load_set_zero:
  assumes "page_ok e p" "page_ok e' q" "unat j < 1024"
  shows "mem_load (q + 4 * j) (mem_set p 0 4096 s) = (if p = q then 0 else mem_load (q + 4 * j) s)"
proof (cases "p = q")
  case True
  have "memset (unat p) 0 4096 (km_mem s) (unat p + 4 * unat j + k) = 0" if "k < 4" for k
    using that assms(3) by (simp add: memset_fills poke_def)
  then have "load32 (memset (unat p) 0 4096 (km_mem s)) (unat p + 4 * unat j)
      = load32 (\<lambda>_. 0) (unat p + 4 * unat j)"
    by (intro load32_cong) simp
  then show ?thesis using True assms
    by (simp add: mem_load_def mem_set_def unat_slot [OF assms(2,3)]) (simp add: load32_def)
next
  case False
  have "load32 (memset (unat p) 0 4096 (km_mem s)) (unat q + 4 * unat j)
      = load32 (km_mem s) (unat q + 4 * unat j)"
    using pages_disjoint [OF assms(1,2) False] assms(3)
    by (intro load32_cong) (auto simp: memset_fills poke_outside)
  then show ?thesis using False by (simp add: mem_load_def mem_set_def unat_slot [OF assms(2,3)])
qed

section \<open>Well-formed page tables\<close>

definition pde_at :: "'a kmst_scheme \<Rightarrow> uint \<Rightarrow> uint \<Rightarrow> uint" where
  "pde_at s pgdir i = mem_load (pgdir + 4 * i) s"

definition table_at :: "'a kmst_scheme \<Rightarrow> uint \<Rightarrow> uint \<Rightarrow> uint" where
  "table_at s pgdir i = P2V (PTE_ADDR (pde_at s pgdir i))"

text \<open>The entry that maps a virtual address; 0 (not present) where there is no page table.\<close>

definition pte_for :: "'a kmst_scheme \<Rightarrow> uint \<Rightarrow> uint \<Rightarrow> uint" where
  "pte_for s pgdir va =
     (if pde_at s pgdir (PDX va) AND PTE_P \<noteq> 0
      then mem_load (table_at s pgdir (PDX va) + 4 * PTX va) s else 0)"

text \<open>
  The directory and the tables it points to are pages of their own: valid, distinct and none of
  them free.
\<close>

definition pt_ok :: "'a kmst_scheme \<Rightarrow> uint \<Rightarrow> uint list \<Rightarrow> bool" where
  "pt_ok s pgdir ps \<longleftrightarrow> kmem_ok s ps \<and> page_ok (km_end s) pgdir \<and> pgdir \<notin> set ps
     \<and> (\<forall>i. unat i < 1024 \<and> pde_at s pgdir i AND PTE_P \<noteq> 0 \<longrightarrow>
          page_ok (km_end s) (table_at s pgdir i) \<and> table_at s pgdir i \<noteq> pgdir
          \<and> table_at s pgdir i \<notin> set ps)
     \<and> (\<forall>i j. unat i < 1024 \<and> unat j < 1024 \<and> i \<noteq> j \<and> pde_at s pgdir i AND PTE_P \<noteq> 0
          \<and> pde_at s pgdir j AND PTE_P \<noteq> 0 \<longrightarrow> table_at s pgdir i \<noteq> table_at s pgdir j)"

lemma pt_okD:
  assumes "pt_ok s pgdir ps"
  shows "kmem_ok s ps" "page_ok (km_end s) pgdir" "pgdir \<notin> set ps"
    "\<And>i. unat i < 1024 \<Longrightarrow> pde_at s pgdir i AND PTE_P \<noteq> 0 \<Longrightarrow>
       page_ok (km_end s) (table_at s pgdir i) \<and> table_at s pgdir i \<noteq> pgdir
       \<and> table_at s pgdir i \<notin> set ps"
    "\<And>i j. unat i < 1024 \<Longrightarrow> unat j < 1024 \<Longrightarrow> i \<noteq> j \<Longrightarrow> pde_at s pgdir i AND PTE_P \<noteq> 0 \<Longrightarrow>
       pde_at s pgdir j AND PTE_P \<noteq> 0 \<Longrightarrow> table_at s pgdir i \<noteq> table_at s pgdir j"
  using assms by (auto simp: pt_ok_def)

lemma walkpgdir_present:
  "pde_at s pgdir (PDX va) AND PTE_P \<noteq> 0 \<Longrightarrow>
   walkpgdir pgdir va alloc s = Inr (table_at s pgdir (PDX va) + 4 * PTX va, s)"
  by (simp add: walkpgdir_def pde_at_def table_at_def Let_def)

lemma walkpgdir_absent_noalloc:
  "pde_at s pgdir (PDX va) AND PTE_P = 0 \<Longrightarrow> walkpgdir pgdir va False s = Inr (0, s)"
  by (simp add: walkpgdir_def pde_at_def Let_def)

section \<open>Mapping a page\<close>

text \<open>Writes into pages that are not free leave the free list alone.\<close>

lemma kmem_ok_store_slot:
  assumes "kmem_ok s ps" and "page_ok e p" and "p \<notin> set ps" and "unat k < 1024"
  shows "kmem_ok (mem_store (p + 4 * k) w s) ps"
proof -
  have "free_chain (store32 (unat (p + 4 * k)) w (km_mem s)) (km_freelist s) ps"
  proof (rule free_chain_frame)
    show "free_chain (km_mem s) (km_freelist s) ps" using assms(1) by (simp add: kmem_ok_def)
    fix q and j :: nat assume q: "q \<in> set ps" and j: "j < 4"
    have "page_ok (km_end s) q" "q \<noteq> p" using q assms by (auto simp: kmem_ok_def)
    then have "unat (p + 4 * k) + 4 \<le> unat q \<or> unat q + 4 \<le> unat (p + 4 * k)"
      using slots_disjoint [OF assms(2) _ assms(4), of "km_end s" q 0] by simp
    then show "store32 (unat (p + 4 * k)) w (km_mem s) (unat q + j) = km_mem s (unat q + j)"
      using j by (intro store32_outside) linarith
  qed
  then show ?thesis using assms(1) by (simp add: kmem_ok_def mem_store_def)
qed

lemma kmem_ok_set_page:
  assumes "kmem_ok s ps" and "page_ok e p" and "p \<notin> set ps"
  shows "kmem_ok (mem_set p c 4096 s) ps"
proof -
  have "free_chain (memset (unat p) c 4096 (km_mem s)) (km_freelist s) ps"
  proof (rule free_chain_frame)
    show "free_chain (km_mem s) (km_freelist s) ps" using assms(1) by (simp add: kmem_ok_def)
    fix q and j :: nat assume q: "q \<in> set ps" and j: "j < 4"
    have "page_ok (km_end s) q" "q \<noteq> p" using q assms by (auto simp: kmem_ok_def)
    then show "memset (unat p) c 4096 (km_mem s) (unat q + j) = km_mem s (unat q + j)"
      using pages_disjoint [OF assms(2), of "km_end s" q] j
      by (auto simp: memset_fills intro!: poke_outside)
  qed
  then show ?thesis using assms(1) by (simp add: kmem_ok_def mem_set_def)
qed

text \<open>
  The state after a new page table \<open>q\<close> has been put into directory slot \<open>k\<close>: every address is
  mapped as before, and the slot's table is \<open>q\<close>.
\<close>

definition new_table :: "uint \<Rightarrow> uint \<Rightarrow> uint \<Rightarrow> 'a kmst_scheme \<Rightarrow> 'a kmst_scheme" where
  "new_table pgdir k q s =
     mem_store (pgdir + 4 * k) (V2P q OR PTE_P OR PTE_W OR PTE_U) (mem_set q 0 4096 s)"

lemma entry_present: "(x OR PTE_P OR y) AND PTE_P \<noteq> 0"
proof
  assume a: "(x OR PTE_P OR y) AND PTE_P = 0"
  have "bit ((x OR PTE_P OR y) AND PTE_P) 0" by (simp add: bit_simps PTE_P_def)
  then show False using a by simp
qed

lemma table_entry_addr: "page_ok e q \<Longrightarrow> P2V (PTE_ADDR (V2P q OR PTE_P OR PTE_W OR PTE_U)) = q"
  using PTE_ADDR_entry [OF V2P_mod, of e q "PTE_P OR PTE_W OR PTE_U"]
  by (simp add: PTE_P_def PTE_W_def PTE_U_def)

lemma new_table_loads:
  assumes "page_ok e pgdir" "page_ok e' q" "page_ok e'' t" "q \<noteq> pgdir" "t \<noteq> pgdir"
    "unat k < 1024" "unat j < 1024"
  shows "pde_at (new_table pgdir k q s) pgdir j
      = (if j = k then V2P q OR PTE_P OR PTE_W OR PTE_U else pde_at s pgdir j)"
    and "mem_load (t + 4 * j) (new_table pgdir k q s) = (if t = q then 0 else mem_load (t + 4 * j) s)"
  using assms
  by (auto simp: pde_at_def new_table_def mem_load_store_slot [OF assms(1) assms(1) assms(6,7)]
      mem_load_store_slot [OF assms(1) assms(3) assms(6,7)] mem_load_set_zero [OF assms(2,1,7)]
      mem_load_set_zero [OF assms(2,3,7)])

lemma new_table_ok:
  assumes ok: "pt_ok s pgdir (q # qs)" and s1: "kmem_ok s1 qs" "km_mem s1 = km_mem s" "km_end s1 = km_end s"
    and k: "unat k < 1024" and abs: "pde_at s pgdir k AND PTE_P = 0"
  defines "t \<equiv> new_table pgdir k q s1"
  shows "pt_ok t pgdir qs" and "table_at t pgdir k = q" and "pde_at t pgdir k AND PTE_P \<noteq> 0"
    and "\<And>va. pte_for t pgdir va = pte_for s pgdir va"
proof -
  note D = pt_okD [OF ok]
  have q: "page_ok (km_end s) q" "q \<noteq> pgdir" "q \<notin> set qs"
    using D(1,3) by (auto simp: kmem_ok_def)
  have pde1: "pde_at s1 pgdir j = pde_at s pgdir j" and ld1: "mem_load a s1 = mem_load a s" for j a
    by (simp_all add: pde_at_def mem_load_def s1)
  have pde: "pde_at t pgdir j = (if j = k then V2P q OR PTE_P OR PTE_W OR PTE_U else pde_at s pgdir j)"
    if "unat j < 1024" for j
    using new_table_loads(1) [OF D(2) q(1) q(1) q(2) q(2) k that, of s1] by (auto simp: t_def pde1)
  have tab: "table_at t pgdir j = (if j = k then q else table_at s pgdir j)" if "unat j < 1024" for j
    using that by (simp add: table_at_def pde table_entry_addr [OF q(1)])
  have ld: "mem_load (p + 4 * j) t = (if p = q then 0 else mem_load (p + 4 * j) s)"
    if "page_ok (km_end s) p" "p \<noteq> pgdir" "unat j < 1024" for p j
    using new_table_loads(2) [OF D(2) q(1) that(1) q(2) that(2) k that(3), of s1]
    by (auto simp: t_def ld1)
  show present: "pde_at t pgdir k AND PTE_P \<noteq> 0"
    using pde [OF k] entry_present [of "V2P q" "PTE_W OR PTE_U"] by (simp add: or.assoc)
  show tk: "table_at t pgdir k = q" using tab [OF k] by simp
  have "kmem_ok t qs"
    unfolding t_def new_table_def using s1(1) D q k
    by (intro kmem_ok_store_slot [OF kmem_ok_set_page]) auto
  moreover have "km_end t = km_end s"
    by (simp add: t_def new_table_def mem_store_def mem_set_def s1)
  moreover have "pde_at t pgdir j AND PTE_P \<noteq> 0 \<longleftrightarrow> j = k \<or> pde_at s pgdir j AND PTE_P \<noteq> 0"
    if "unat j < 1024" for j
    using pde [OF that] present by (cases "j = k") auto
  moreover have "table_at s pgdir j \<noteq> q \<and> table_at s pgdir j \<notin> set qs"
    if "unat j < 1024" "pde_at s pgdir j AND PTE_P \<noteq> 0" for j
    using D(4) [OF that] by auto
  ultimately show "pt_ok t pgdir qs"
    unfolding pt_ok_def using D(2-5) q tab by (auto split: if_splits)
  show "pte_for t pgdir va = pte_for s pgdir va" for va
  proof (cases "PDX va = k")
    case True
    then show ?thesis
      using present tk abs ld [OF q(1,2) PTX_less, of va] by (simp add: pte_for_def)
  next
    case False
    then have "pde_at t pgdir (PDX va) = pde_at s pgdir (PDX va)"
        "table_at t pgdir (PDX va) = table_at s pgdir (PDX va)"
      using pde [OF PDX_less] tab [OF PDX_less] by auto
    moreover have "mem_load (table_at s pgdir (PDX va) + 4 * PTX va) t
        = mem_load (table_at s pgdir (PDX va) + 4 * PTX va) s" if "pde_at s pgdir (PDX va) AND PTE_P \<noteq> 0"
      using D(4) [OF PDX_less that] by (subst ld) (auto simp: PTX_less)
    ultimately show ?thesis by (simp add: pte_for_def)
  qed
qed

lemma set_entry:
  fixes w :: uint
  assumes ok: "pt_ok s pgdir ps" and pres: "pde_at s pgdir (PDX va) AND PTE_P \<noteq> 0"
  defines "t \<equiv> mem_store (table_at s pgdir (PDX va) + 4 * PTX va) w s"
  shows "pte_for t pgdir va' = (if PGROUNDDOWN va' = PGROUNDDOWN va then w else pte_for s pgdir va')"
    and "pt_ok t pgdir ps"
proof -
  note D = pt_okD [OF ok]
  note T = D(4) [OF PDX_less pres]
  have pde: "pde_at t pgdir j = pde_at s pgdir j" if "unat j < 1024" for j
    using mem_load_store_slot [OF conjunct1 [OF T] D(2) PTX_less that, of va w s] T
    by (simp add: pde_at_def t_def)
  then have tab: "table_at t pgdir (PDX va') = table_at s pgdir (PDX va')"
    by (simp add: table_at_def PDX_less)
  show "pte_for t pgdir va' = (if PGROUNDDOWN va' = PGROUNDDOWN va then w else pte_for s pgdir va')"
  proof (cases "pde_at s pgdir (PDX va') AND PTE_P = 0")
    case True
    then have "PDX va' \<noteq> PDX va" using pres by auto
    then have "PGROUNDDOWN va' \<noteq> PGROUNDDOWN va" using PDX_PTX_eq_iff [of va' va] by blast
    then show ?thesis using True by (simp add: pte_for_def pde [OF PDX_less])
  next
    case False
    note T' = D(4) [OF PDX_less False]
    have "table_at s pgdir (PDX va) = table_at s pgdir (PDX va') \<longleftrightarrow> PDX va = PDX va'"
      using D(5) [OF PDX_less PDX_less _ pres False] by auto
    then have "mem_load (table_at s pgdir (PDX va') + 4 * PTX va') t
        = (if PGROUNDDOWN va' = PGROUNDDOWN va then w
           else mem_load (table_at s pgdir (PDX va') + 4 * PTX va') s)"
      using mem_load_store_slot [OF conjunct1 [OF T] conjunct1 [OF T'] PTX_less [of va] PTX_less [of va'],
          of w s] PDX_PTX_eq_iff [of va va'] by (auto simp: t_def)
    then show ?thesis using False by (simp add: pte_for_def pde [OF PDX_less] tab)
  qed
  have "kmem_ok t ps"
    unfolding t_def using D T by (intro kmem_ok_store_slot) (auto simp: PTX_less)
  moreover have "km_end t = km_end s" by (simp add: t_def mem_store_def)
  moreover have "table_at t pgdir j = table_at s pgdir j" if "unat j < 1024" for j
    using that by (simp add: table_at_def pde)
  ultimately show "pt_ok t pgdir ps"
    unfolding pt_ok_def using D pde by auto
qed

lemma walkpgdir_alloc:
  assumes ok: "pt_ok s pgdir ps" and r: "kmem_ready s i"
    and abs: "pde_at s pgdir (PDX va) AND PTE_P = 0"
  shows "ps = [] \<Longrightarrow> \<exists>t. walkpgdir pgdir va True s = Inr (0, t) \<and> pte_for t pgdir = pte_for s pgdir"
    and "ps = q # qs \<Longrightarrow> \<exists>t. walkpgdir pgdir va True s = Inr (table_at t pgdir (PDX va) + 4 * PTX va, t)
      \<and> pt_ok t pgdir qs \<and> pde_at t pgdir (PDX va) AND PTE_P \<noteq> 0 \<and> pte_for t pgdir = pte_for s pgdir"
proof -
  note D = pt_okD [OF ok]
  have W: "walkpgdir pgdir va True s = andThen (kalloc s) (\<lambda>(pgtab, s).
      if pgtab = 0 then Inr (0, s) else Inr (pgtab + 4 * PTX va, new_table pgdir (PDX va) pgtab s))"
    using abs by (auto simp: walkpgdir_def pde_at_def new_table_def Let_def andThen_def
        split: sum.splits)
  {
    assume "ps = []"
    then have "km_freelist s = 0" using D(1) by (simp add: kmem_ok_def)
    then have "walkpgdir pgdir va True s = Inr (0, kmem_upd (km_mem s) 0 (kmem_left i s))"
      using W kalloc_eq [OF r] by simp
    then show "\<exists>t. walkpgdir pgdir va True s = Inr (0, t) \<and> pte_for t pgdir = pte_for s pgdir"
      by (auto simp: pte_for_def pde_at_def table_at_def mem_load_def kmem_upd_def)
  }
  {
    assume ps: "ps = q # qs"
    let ?s1 = "kmem_upd (km_mem s) (load32 (km_mem s) (unat q)) (kmem_left i s)"
    note K = kmem_ok_kalloc [OF D(1) [unfolded ps]]
    have s1: "kmem_ok ?s1 qs" "km_mem ?s1 = km_mem s" "km_end ?s1 = km_end s"
      using K(3) by (simp_all add: kmem_upd_def kmem_left_def kmem_ok_def)
    note N = new_table_ok [OF ok [unfolded ps] s1 PDX_less abs]
    have "walkpgdir pgdir va True s = Inr (q + 4 * PTX va, new_table pgdir (PDX va) q ?s1)"
      using W kalloc_eq [OF r] K by simp
    then show "\<exists>t. walkpgdir pgdir va True s = Inr (table_at t pgdir (PDX va) + 4 * PTX va, t)
        \<and> pt_ok t pgdir qs \<and> pde_at t pgdir (PDX va) AND PTE_P \<noteq> 0 \<and> pte_for t pgdir = pte_for s pgdir"
      using N by (intro exI [of _ "new_table pgdir (PDX va) q ?s1"]) auto
  }
qed

lemma mappages_one_page:
  assumes "va mod PGSIZE = 0"
  shows "mappages pgdir va PGSIZE pa perm s =
     andThen (walkpgdir pgdir va True s) (\<lambda>(pte, s).
     if pte = 0 then Inr (-1, s)
     else if mem_load pte s AND PTE_P \<noteq> 0 then Inl (Panic ''remap'')
     else Inr (0, mem_store pte (pa OR perm OR PTE_P) s))"
proof -
  have m: "unat va mod 4096 = 0" using assms unat_mod [of va PGSIZE] by (simp add: PGSIZE_def)
  then obtain k where k: "unat va = 4096 * k" by (auto simp: mod_eq_0_iff_dvd elim: dvdE)
  have "unat va < 2 ^ 32" using unsigned_less [of va] by simp
  then have "4096 * k < 4096 * 2 ^ 20" using k by simp
  then have "k < 2 ^ 20" by simp
  then have u: "unat (va + PGSIZE - 1) = 4095 + 4096 * k"
    using k by (simp add: PGSIZE_def unat_word_ariths)
  have "PGROUNDDOWN va = va" "PGROUNDDOWN (va + PGSIZE - 1) = va"
    using k u by (simp_all add: word_unat_eq_iff unat_PGROUNDDOWN)
  then show ?thesis by (auto simp: mappages_def Let_def andThen_def split: sum.splits)
qed

lemma slot_nonzero: "page_ok e t \<Longrightarrow> unat k < 1024 \<Longrightarrow> t + 4 * k \<noteq> 0"
  using page_ok_bounds(2) [of e t] unat_slot [of e t k] by auto

section \<open>Properties\<close>

text \<open>
  C14. Mapping one page: \<open>mappages\<close> panics exactly when the page is already mapped; it returns
  \<open>-1\<close> exactly when a page table is missing and no page is free, and then every translation is as
  before; otherwise it returns 0, the page is mapped to the given frame with the given
  permissions, and no other page's translation has changed.
\<close>

theorem mappages_maps_one_page:
  assumes ok: "pt_ok s pgdir ps" and r: "kmem_ready s i" and va: "va mod PGSIZE = 0"
  shows "if pte_for s pgdir va AND PTE_P \<noteq> 0
     then mappages pgdir va PGSIZE pa perm s = Inl (Panic ''remap'')
     else if pde_at s pgdir (PDX va) AND PTE_P = 0 \<and> ps = []
     then \<exists>t. mappages pgdir va PGSIZE pa perm s = Inr (-1, t) \<and> pte_for t pgdir = pte_for s pgdir
     else \<exists>t. mappages pgdir va PGSIZE pa perm s = Inr (0, t)
       \<and> pte_for t pgdir va = pa OR perm OR PTE_P
       \<and> (\<forall>va'. PGROUNDDOWN va' \<noteq> PGROUNDDOWN va \<longrightarrow> pte_for t pgdir va' = pte_for s pgdir va')"
proof -
  have main: "if pte_for s pgdir va AND PTE_P \<noteq> 0
     then mappages pgdir va PGSIZE pa perm s = Inl (Panic ''remap'')
     else \<exists>t. mappages pgdir va PGSIZE pa perm s = Inr (0, t)
       \<and> pte_for t pgdir va = pa OR perm OR PTE_P
       \<and> (\<forall>va'. PGROUNDDOWN va' \<noteq> PGROUNDDOWN va \<longrightarrow> pte_for t pgdir va' = pte_for s pgdir va')"
    if w: "walkpgdir pgdir va True s = Inr (table_at t pgdir (PDX va) + 4 * PTX va, t)"
      and t: "pt_ok t pgdir qs" "pde_at t pgdir (PDX va) AND PTE_P \<noteq> 0" "pte_for t pgdir = pte_for s pgdir"
    for t qs
  proof -
    have "table_at t pgdir (PDX va) + 4 * PTX va \<noteq> 0"
      using slot_nonzero [OF conjunct1 [OF pt_okD(4) [OF t(1) PDX_less t(2)]] PTX_less] .
    moreover have "mem_load (table_at t pgdir (PDX va) + 4 * PTX va) t = pte_for s pgdir va"
      using t(2) by (simp add: pte_for_def flip: t(3))
    ultimately show ?thesis
      using w set_entry(1) [OF t(1,2), of "pa OR perm OR PTE_P"] t(3)
      by (simp add: mappages_one_page [OF va])
  qed
  show ?thesis
  proof (cases "pde_at s pgdir (PDX va) AND PTE_P = 0")
    case False
    then show ?thesis using main [OF walkpgdir_present ok] by simp
  next
    case True
    then have p0: "pte_for s pgdir va = 0" by (simp add: pte_for_def)
    show ?thesis
    proof (cases ps)
      case Nil
      then show ?thesis
        using walkpgdir_alloc(1) [OF ok r True] True p0 by (auto simp: mappages_one_page [OF va])
    next
      case (Cons q qs)
      then obtain t where "walkpgdir pgdir va True s = Inr (table_at t pgdir (PDX va) + 4 * PTX va, t)"
          "pt_ok t pgdir qs" "pde_at t pgdir (PDX va) AND PTE_P \<noteq> 0" "pte_for t pgdir = pte_for s pgdir"
        using walkpgdir_alloc(2) [OF ok r True] by blast
      from main [OF this] show ?thesis using p0 Cons by simp
    qed
  qed
qed

text \<open>A virtual address is recovered from its directory index, table index and offset.\<close>

theorem PGADDR_of_parts: "PGADDR (PDX va) (PTX va) (va AND 0xFFF) = va"
  by (rule PGADDR_parts)

text \<open>An empty page directory at \<^verbatim>\<open>0x80402000\<close> and two free pages.\<close>

definition vm_example :: kmst where
  "vm_example = kinit_state [0x80401000, 0x80400000]"

lemma vm_example_directory: "pde_at vm_example 0x80402000 i = 0" if "unat i < 1024"
proof -
  have u: "unat (0x80402000 + 4 * i) = 0x80402000 + 4 * unat i"
    using that by (simp add: unat_word_ariths)
  show ?thesis
    unfolding pde_at_def mem_load_def u
    by (simp add: vm_example_def kinit_state_def load32_store32_disjoint, simp add: load32_def)
qed

lemma vm_example_ok: "pt_ok vm_example 0x80402000 [0x80401000, 0x80400000]"
proof -
  have "kmem_ok vm_example [0x80401000, 0x80400000]"
    by (simp add: vm_example_def kmem_ok_def kinit_state_def load32_store32_disjoint page_ok_def
        PGSIZE_def V2P_less_PHYSTOP_iff)
  moreover have "page_ok (km_end vm_example) 0x80402000"
    by (simp add: vm_example_def kinit_state_def page_ok_def PGSIZE_def V2P_less_PHYSTOP_iff)
  ultimately show ?thesis by (auto simp: pt_ok_def vm_example_directory)
qed

theorem mappages_maps_one_page_witness:
  "\<exists>t. mappages 0x80402000 0x5000 PGSIZE 0x7000 (PTE_W OR PTE_U) vm_example = Inr (0, t)
     \<and> pte_for t 0x80402000 0x5000 = 0x7000 OR (PTE_W OR PTE_U) OR PTE_P
     \<and> (\<forall>va. PGROUNDDOWN va \<noteq> PGROUNDDOWN 0x5000 \<longrightarrow> pte_for t 0x80402000 va = pte_for vm_example 0x80402000 va)"
proof -
  have r: "kmem_ready vm_example 0" by (simp add: vm_example_def kinit_state_ready)
  have "pte_for vm_example 0x80402000 0x5000 = 0"
    using vm_example_directory [OF PDX_less] by (simp add: pte_for_def)
  then show ?thesis
    using mappages_maps_one_page [OF vm_example_ok r, of "0x5000" "0x7000" "PTE_W OR PTE_U"]
    by (simp add: PGSIZE_def)
qed

end
