(* ===== verification/Proc.thy ===== *)
theory Proc
  imports Vm
begin

unbundle bit_operations_syntax

text \<open>
  The process table, \<^verbatim>\<open>proc.h\<close> and \<^verbatim>\<open>proc.c\<close>. A process is named by its index in
  \<open>ptable.proc\<close>; kernel stacks, trap frames and saved contexts are addresses in the modelled
  memory. Operations that need the file system (\<open>userinit\<close>, \<open>fork\<close>, \<open>exit\<close>) are in a later theory.

  A kernel thread leaves the processor only in \<open>swtch\<close>, called by \<open>sched\<close>. A function that calls
  \<open>sched\<close> is therefore in two parts: up to the switch, and from the moment the scheduler switches
  back. The flag that \<open>sched\<close> keeps on the thread's stack (\<open>intena\<close>) is handed from the first part
  to the second.
\<close>

section \<open>Data\<close>

definition NPROC :: nat where "NPROC = 64"
definition KSTACKSIZE :: uint where "KSTACKSIZE = 4096"
definition NOFILE :: nat where "NOFILE = 16"

datatype procstate = UNUSED | EMBRYO | SLEEPING | RUNNABLE | RUNNING | ZOMBIE

record proc =
  p_sz :: uint
  p_pgdir :: uint
  p_kstack :: uint
  p_state :: procstate
  p_pid :: int
  p_parent :: "nat option"
  p_tf :: uint
  p_context :: uint
  p_chan :: "channel option"
  p_killed :: int
  p_ofile :: "nat option list"
  p_cwd :: "nat option"
  p_name :: "uchar list"
  p_ctime :: int
  p_etime :: int
  p_rtime :: int
  p_iotime :: int
  p_priority :: int
  p_cur_q :: int
  p_q0 :: int
  p_q1 :: int
  p_q2 :: int
  p_q3 :: int
  p_q4 :: int
  p_toe :: int
  p_ticks :: int
  p_n_run :: int

text \<open>
  The kernel state with the process table, \<open>initproc\<close>, \<open>nextpid\<close>, the clock \<open>ticks\<close>, the kernel's
  own page directory \<open>kpgdir\<close>, and the addresses of the assembly labels \<open>trapret\<close> and \<open>forkret\<close>.
\<close>

record pst = kmst +
  ps_proc :: "proc list"
  ps_initproc :: "nat option"
  ps_nextpid :: int
  ps_ticks :: uint
  ps_kpgdir :: uint
  ps_trapret :: uint
  ps_forkret :: uint

definition upd_proc :: "nat \<Rightarrow> (proc \<Rightarrow> proc) \<Rightarrow> 'a pst_scheme \<Rightarrow> 'a pst_scheme" where
  "upd_proc i f s = s\<lparr>ps_proc := (ps_proc s)[i := f (ps_proc s ! i)]\<rparr>"

text \<open>
  \<open>p->member\<close> where \<open>p\<close> is what \<open>myproc\<close> returned: a null pointer is an error of the kernel.
\<close>

definition deref :: "nat option \<Rightarrow> (nat \<Rightarrow> failure + 'b) \<Rightarrow> failure + 'b" where
  "deref p f = (case p of None \<Rightarrow> Inl (Undefined ''null process'') | Some i \<Rightarrow> f i)"

text \<open>
  \<open>safestrcpy\<close> between the name fields of two structures: the routine of \<^verbatim>\<open>string.c\<close> on a memory
  that holds the two arrays one after the other.
\<close>

definition copy_name :: "uchar list \<Rightarrow> uchar list \<Rightarrow> uchar list" where
  "copy_name dst src =
     (let n = length dst
      in peek (safestrcpy 0 n (int n) (poke (poke (\<lambda>_. 0) 0 dst) n src)) 0 n)"

text \<open>The result of a function that may have left the processor.\<close>

datatype 'r ctl = Ret 'r | Off bool

section \<open>Switching address spaces\<close>

definition switchkvm :: "'a pst_scheme \<Rightarrow> failure + 'a pst_scheme" where
  "switchkvm s = andThen (mycpu s) (\<lambda>i. Inr (upd_cpu i (\<lambda>c. c\<lparr>c_cr3 := V2P (ps_kpgdir s)\<rparr>) s))"

definition switchuvm :: "nat option \<Rightarrow> 'a pst_scheme \<Rightarrow> failure + 'a pst_scheme" where
  "switchuvm q s = (case q of None \<Rightarrow> Inl (Panic ''switchuvm: no process'')
    | Some p \<Rightarrow>
       if p_kstack (ps_proc s ! p) = 0 then Inl (Panic ''switchuvm: no kstack'')
       else if p_pgdir (ps_proc s ! p) = 0 then Inl (Panic ''switchuvm: no pgdir'')
       else andThen (pushcli s) (\<lambda>s.
         andThen (mycpu s) (\<lambda>i.
         popcli (upd_cpu i (\<lambda>c. c\<lparr>c_esp0 := p_kstack (ps_proc s ! p) + KSTACKSIZE,
                                   c_cr3 := V2P (p_pgdir (ps_proc s ! p))\<rparr>) s))))"

section \<open>Allocation\<close>

definition pinit :: "'a pst_scheme \<Rightarrow> 'a pst_scheme" where
  "pinit s = initlock PTABLE ''ptable'' s"

definition allocproc :: "'a pst_scheme \<Rightarrow> failure + nat option \<times> 'a pst_scheme" where
  "allocproc s =
     andThen (acquire PTABLE s) (\<lambda>s.
     case first_index (\<lambda>p. p_state p = UNUSED) (ps_proc s) of
       None \<Rightarrow> andThen (release PTABLE s) (\<lambda>s. Inr (None, s))
     | Some i \<Rightarrow>
        let s = upd_proc i (\<lambda>p. p\<lparr>p_state := EMBRYO, p_pid := ps_nextpid s\<rparr>) s;
            s = s\<lparr>ps_nextpid := ps_nextpid s + 1\<rparr>
        in andThen (release PTABLE s) (\<lambda>s.
        andThen (kalloc s) (\<lambda>(k, s).
        let s = upd_proc i (\<lambda>p. p\<lparr>p_kstack := k\<rparr>) s
        in if k = 0 then Inr (None, upd_proc i (\<lambda>p. p\<lparr>p_state := UNUSED\<rparr>) s)
           else let sp = k + KSTACKSIZE - 76;
                    s = upd_proc i (\<lambda>p. p\<lparr>p_tf := sp\<rparr>) s;
                    sp = sp - 4;
                    s = mem_store sp (ps_trapret s) s;
                    sp = sp - 20;
                    s = upd_proc i (\<lambda>p. p\<lparr>p_context := sp\<rparr>) s;
                    s = mem_set sp 0 20 s;
                    s = mem_store (sp + 16) (ps_forkret s) s
                in Inr (Some i, upd_proc i (\<lambda>p. p\<lparr>p_ctime := sint (ps_ticks s),
                     p_priority := 60, p_cur_q := 0, p_q0 := 0, p_q1 := 0, p_q2 := 0, p_q3 := 0,
                     p_q4 := 0, p_toe := sint (ps_ticks s), p_n_run := 0, p_rtime := 0,
                     p_etime := 0, p_iotime := 0\<rparr>) s))))"

definition growproc :: "int \<Rightarrow> 'a pst_scheme \<Rightarrow> failure + int \<times> 'a pst_scheme" where
  "growproc n s =
     andThen (myproc s) (\<lambda>(cur, s). deref cur (\<lambda>c.
     let sz = p_sz (ps_proc s ! c);
         pgdir = p_pgdir (ps_proc s ! c)
     in andThen
          (if n > 0 then allocuvm pgdir sz (sz + word_of_int n) s
           else if n < 0 then deallocuvm pgdir sz (sz + word_of_int n) s
           else Inr (sz, s)) (\<lambda>(sz, s).
        if n \<noteq> 0 \<and> sz = 0 then Inr (-1, s)
        else let s = upd_proc c (\<lambda>p. p\<lparr>p_sz := sz\<rparr>) s
             in andThen (switchuvm (Some c) s) (\<lambda>s. Inr (0, s)))))"

section \<open>Giving up the processor\<close>

definition sched_off :: "'a pst_scheme \<Rightarrow> failure + bool \<times> 'a pst_scheme" where
  "sched_off s =
     andThen (myproc s) (\<lambda>(q, s).
     andThen (holding PTABLE s) (\<lambda>(h, s).
     if \<not> h then Inl (Panic ''sched ptable.lock'')
     else andThen (mycpu s) (\<lambda>i.
     if c_ncli (k_cpus s ! i) \<noteq> 1 then Inl (Panic ''sched locks'')
     else deref q (\<lambda>p.
     if p_state (ps_proc s ! p) = RUNNING then Inl (Panic ''sched running'')
     else if readeflags_IF s then Inl (Panic ''sched interruptible'')
     else Inr (c_intena (k_cpus s ! i), s)))))"

definition sched_on :: "bool \<Rightarrow> 'a pst_scheme \<Rightarrow> failure + 'a pst_scheme" where
  "sched_on intena s = andThen (mycpu s) (\<lambda>i. Inr (upd_cpu i (\<lambda>c. c\<lparr>c_intena := intena\<rparr>) s))"

definition yield_off :: "'a pst_scheme \<Rightarrow> failure + bool \<times> 'a pst_scheme" where
  "yield_off s =
     andThen (acquire PTABLE s) (\<lambda>s.
     andThen (myproc s) (\<lambda>(q, s). deref q (\<lambda>p.
     let s = upd_proc p (\<lambda>x. x\<lparr>p_toe := sint (ps_ticks s)\<rparr>) s
     in andThen (myproc s) (\<lambda>(q, s). deref q (\<lambda>p.
     let s = upd_proc p (\<lambda>x. x\<lparr>p_state := RUNNABLE\<rparr>) s
     in sched_off s)))))"

definition yield_on :: "bool \<Rightarrow> 'a pst_scheme \<Rightarrow> failure + 'a pst_scheme" where
  "yield_on intena s = andThen (sched_on intena s) (\<lambda>s. release PTABLE s)"

text \<open>
  \<open>sleep\<close> takes the lock as an option: \<open>None\<close> is the null pointer it guards against. What it does
  before \<open>sched\<close> is kept as a list of steps, each one a call or an assignment of the code: another
  processor may run between any two of them.
\<close>

type_synonym 'a steps = "('a pst_scheme \<Rightarrow> failure + 'a pst_scheme) list"

fun run_steps :: "'a steps \<Rightarrow> 'a pst_scheme \<Rightarrow> failure + 'a pst_scheme" where
  "run_steps [] s = Inr s"
| "run_steps (f # fs) s = andThen (f s) (run_steps fs)"

definition sleep_steps :: "nat \<Rightarrow> channel \<Rightarrow> lockid \<Rightarrow> 'a steps" where
  "sleep_steps p ch lk = (if lk \<noteq> PTABLE then [acquire PTABLE, release lk] else []) @
     [\<lambda>s. Inr (upd_proc p (\<lambda>x. x\<lparr>p_chan := Some ch\<rparr>) s),
      \<lambda>s. Inr (upd_proc p (\<lambda>x. x\<lparr>p_state := SLEEPING\<rparr>) s),
      \<lambda>s. Inr (upd_proc p (\<lambda>x. x\<lparr>p_toe := sint (ps_ticks s)\<rparr>) s)]"

definition sleep_off :: "channel \<Rightarrow> lockid option \<Rightarrow> 'a pst_scheme \<Rightarrow> failure + bool \<times> 'a pst_scheme" where
  "sleep_off ch lko s =
     andThen (myproc s) (\<lambda>(q, s).
     case q of None \<Rightarrow> Inl (Panic ''sleep'')
     | Some p \<Rightarrow> (case lko of None \<Rightarrow> Inl (Panic ''sleep without lk'')
       | Some lk \<Rightarrow> andThen (run_steps (sleep_steps p ch lk) s) sched_off))"

definition sleep_on :: "nat \<Rightarrow> lockid \<Rightarrow> bool \<Rightarrow> 'a pst_scheme \<Rightarrow> failure + 'a pst_scheme" where
  "sleep_on p lk intena s =
     andThen (sched_on intena s) (\<lambda>s.
     let s = upd_proc p (\<lambda>x. x\<lparr>p_chan := None\<rparr>) s
     in if lk \<noteq> PTABLE then andThen (release PTABLE s) (acquire lk) else Inr s)"

definition wakeup1 :: "channel \<Rightarrow> 'a pst_scheme \<Rightarrow> 'a pst_scheme" where
  "wakeup1 ch s = s\<lparr>ps_proc := map (\<lambda>p. if p_state p = SLEEPING \<and> p_chan p = Some ch
     then p\<lparr>p_toe := sint (ps_ticks s), p_state := RUNNABLE\<rparr> else p) (ps_proc s)\<rparr>"

definition wakeup_steps :: "channel \<Rightarrow> 'a steps" where
  "wakeup_steps ch = [acquire PTABLE, \<lambda>s. Inr (wakeup1 ch s), release PTABLE]"

definition wakeup :: "channel \<Rightarrow> 'a pst_scheme \<Rightarrow> failure + 'a pst_scheme" where
  "wakeup ch s = run_steps (wakeup_steps ch) s"

definition kill :: "int \<Rightarrow> 'a pst_scheme \<Rightarrow> failure + int \<times> 'a pst_scheme" where
  "kill pid s =
     andThen (acquire PTABLE s) (\<lambda>s.
     case first_index (\<lambda>p. p_pid p = pid) (ps_proc s) of
       Some i \<Rightarrow>
         let s = upd_proc i (\<lambda>p. p\<lparr>p_killed := 1\<rparr>) s;
             s = (if p_state (ps_proc s ! i) = SLEEPING
                  then upd_proc i (\<lambda>p. p\<lparr>p_state := RUNNABLE\<rparr>) s else s)
         in andThen (release PTABLE s) (\<lambda>s. Inr (0, s))
     | None \<Rightarrow> andThen (release PTABLE s) (\<lambda>s. Inr (-1, s)))"

section \<open>Waiting for children\<close>

text \<open>
  One scan of the table. The loop of \<open>wait\<close> stops at the first zombie child; it has seen a child
  at all if one is in the table.
\<close>

definition zombie_child :: "nat \<Rightarrow> 'a pst_scheme \<Rightarrow> nat option" where
  "zombie_child c s = first_index (\<lambda>p. p_parent p = Some c \<and> p_state p = ZOMBIE) (ps_proc s)"

definition havekids :: "nat \<Rightarrow> 'a pst_scheme \<Rightarrow> bool" where
  "havekids c s = list_ex (\<lambda>p. p_parent p = Some c) (ps_proc s)"

definition reap :: "nat \<Rightarrow> 'a pst_scheme \<Rightarrow> failure + int \<times> 'a pst_scheme" where
  "reap i s =
     (let pid = p_pid (ps_proc s ! i)
      in andThen (kfree (p_kstack (ps_proc s ! i)) s) (\<lambda>s.
      let s = upd_proc i (\<lambda>p. p\<lparr>p_kstack := 0\<rparr>) s
      in andThen (freevm (p_pgdir (ps_proc s ! i)) s) (\<lambda>s.
      Inr (pid, upd_proc i (\<lambda>p. p\<lparr>p_pid := 0, p_parent := None, p_name := (p_name p)[0 := 0],
            p_killed := 0, p_state := UNUSED\<rparr>) s))))"

definition wait_iter :: "nat \<Rightarrow> 'a pst_scheme \<Rightarrow> failure + int ctl \<times> 'a pst_scheme" where
  "wait_iter c s = (case zombie_child c s of
       Some i \<Rightarrow> andThen (reap i s) (\<lambda>(pid, s). andThen (release PTABLE s) (\<lambda>s. Inr (Ret pid, s)))
     | None \<Rightarrow>
        if \<not> havekids c s \<or> p_killed (ps_proc s ! c) \<noteq> 0
        then andThen (release PTABLE s) (\<lambda>s. Inr (Ret (-1), s))
        else andThen (sleep_off (ChProc c) (Some PTABLE) s) (\<lambda>(intena, s). Inr (Off intena, s)))"

definition wait :: "'a pst_scheme \<Rightarrow> failure + int ctl \<times> 'a pst_scheme" where
  "wait s = andThen (myproc s) (\<lambda>(cur, s).
     andThen (acquire PTABLE s) (\<lambda>s. deref cur (\<lambda>c. wait_iter c s)))"

definition wait_resume :: "nat \<Rightarrow> bool \<Rightarrow> 'a pst_scheme \<Rightarrow> failure + int ctl \<times> 'a pst_scheme" where
  "wait_resume c intena s = andThen (sleep_on c PTABLE intena s) (\<lambda>s. wait_iter c s)"

text \<open>\<open>waitx\<close> also returns the two values it stores through its pointer arguments.\<close>

definition waitx_iter :: "nat \<Rightarrow> 'a pst_scheme \<Rightarrow> failure + (int \<times> (int \<times> int) option) ctl \<times> 'a pst_scheme" where
  "waitx_iter c s = (case zombie_child c s of
       Some i \<Rightarrow> andThen (reap i s) (\<lambda>(pid, s).
         let p = ps_proc s ! i;
             wtime = p_etime p - p_rtime p - p_iotime p - p_ctime p;
             rtime = p_rtime p;
             s = upd_proc i (\<lambda>p. p\<lparr>p_etime := 0, p_ctime := 0, p_rtime := 0, p_iotime := 0\<rparr>) s
         in andThen (release PTABLE s) (\<lambda>s. Inr (Ret (pid, Some (wtime, rtime)), s)))
     | None \<Rightarrow>
        if \<not> havekids c s \<or> p_killed (ps_proc s ! c) \<noteq> 0
        then andThen (release PTABLE s) (\<lambda>s. Inr (Ret (-1, None), s))
        else andThen (sleep_off (ChProc c) (Some PTABLE) s) (\<lambda>(intena, s). Inr (Off intena, s)))"

definition waitx :: "'a pst_scheme \<Rightarrow> failure + (int \<times> (int \<times> int) option) ctl \<times> 'a pst_scheme" where
  "waitx s = andThen (myproc s) (\<lambda>(cur, s).
     andThen (acquire PTABLE s) (\<lambda>s. deref cur (\<lambda>c. waitx_iter c s)))"

definition waitx_resume :: "nat \<Rightarrow> bool \<Rightarrow> 'a pst_scheme \<Rightarrow> failure + (int \<times> (int \<times> int) option) ctl \<times> 'a pst_scheme" where
  "waitx_resume c intena s = andThen (sleep_on c PTABLE intena s) (\<lambda>s. waitx_iter c s)"

section \<open>Priorities and listings\<close>

text \<open>The loop of \<open>set_priority\<close> goes through the whole table and keeps the last old value.\<close>

fun set_priority_loop :: "int \<Rightarrow> int \<Rightarrow> int \<Rightarrow> proc list \<Rightarrow> int \<times> proc list" where
  "set_priority_loop prio pid old [] = (old, [])"
| "set_priority_loop prio pid old (p # ps) =
     (if p_pid p \<noteq> pid
      then (case set_priority_loop prio pid old ps of (r, qs) \<Rightarrow> (r, p # qs))
      else (case set_priority_loop prio pid (p_priority p) ps of
             (r, qs) \<Rightarrow> (r, p\<lparr>p_priority := prio\<rparr> # qs)))"

definition set_priority :: "int \<Rightarrow> int \<Rightarrow> 'a pst_scheme \<Rightarrow> failure + int \<times> 'a pst_scheme" where
  "set_priority prio pid s =
     andThen (acquire PTABLE s) (\<lambda>s.
     case set_priority_loop prio pid 0 (ps_proc s) of (old, ps) \<Rightarrow>
       andThen (release PTABLE (s\<lparr>ps_proc := ps\<rparr>)) (\<lambda>s. Inr (old, s)))"

text \<open>The values of one line that \<open>get_ps\<close> prints.\<close>

record ps_row =
  r_pid :: int
  r_prio :: int
  r_state :: string
  r_rtime :: int
  r_wtime :: int
  r_n_run :: int
  r_cur_q :: int
  r_qs :: "int list"

definition state_name :: "procstate \<Rightarrow> string" where
  "state_name st = (case st of UNUSED \<Rightarrow> ''UNUSED  '' | EMBRYO \<Rightarrow> ''EMBRYO  ''
     | SLEEPING \<Rightarrow> ''SLEEPING'' | RUNNABLE \<Rightarrow> ''RUNNABLE'' | RUNNING \<Rightarrow> ''RUNNING ''
     | ZOMBIE \<Rightarrow> ''ZOMBIE  '')"

definition get_ps :: "'a pst_scheme \<Rightarrow> failure + int \<times> ps_row list \<times> 'a pst_scheme" where
  "get_ps s =
     andThen (acquire PTABLE s) (\<lambda>s.
     let rows = map (\<lambda>p. \<lparr>r_pid = p_pid p, r_prio = p_priority p, r_state = state_name (p_state p),
                  r_rtime = p_rtime p, r_wtime = sint (ps_ticks s - word_of_int (p_toe p)),
                  r_n_run = p_n_run p, r_cur_q = p_cur_q p,
                  r_qs = [p_q0 p, p_q1 p, p_q2 p, p_q3 p, p_q4 p]\<rparr>)
                  (filter (\<lambda>p. \<not> p_pid p \<le> 0) (ps_proc s))
     in andThen (release PTABLE s) (\<lambda>s. Inr (0, rows, s)))"

text \<open>
  The lines of \<open>procdump\<close>: pid, state, name, and for a sleeping process the call stack up to
  the first zero.
\<close>

definition dump_name :: "procstate \<Rightarrow> string" where
  "dump_name st = (case st of UNUSED \<Rightarrow> ''unused'' | EMBRYO \<Rightarrow> ''embryo'' | SLEEPING \<Rightarrow> ''sleep ''
     | RUNNABLE \<Rightarrow> ''runble'' | RUNNING \<Rightarrow> ''run   '' | ZOMBIE \<Rightarrow> ''zombie'')"

definition procdump :: "'a pst_scheme \<Rightarrow> (int \<times> string \<times> uchar list \<times> uint list) list" where
  "procdump s = map (\<lambda>p. (p_pid p, dump_name (p_state p), takeWhile (\<lambda>c. c \<noteq> 0) (p_name p),
       if p_state p = SLEEPING
       then takeWhile (\<lambda>x. x \<noteq> 0) (getcallerpcs (\<lambda>ebp. (mem_load ebp s, mem_load (ebp + 4) s))
              (mem_load (p_context p + 12) s + 8))
       else []))
     (filter (\<lambda>p. p_state p \<noteq> UNUSED) (ps_proc s))"

section \<open>Process fields and the layers below\<close>

named_theorems ps_simps "process fields of states that differ in the lower layers only"

lemma ps_fields_taken [simp, ps_simps]:
  "ps_proc (taken i lk s) = ps_proc s" "ps_initproc (taken i lk s) = ps_initproc s"
  "ps_nextpid (taken i lk s) = ps_nextpid s" "ps_ticks (taken i lk s) = ps_ticks s"
  "ps_kpgdir (taken i lk s) = ps_kpgdir s" "ps_trapret (taken i lk s) = ps_trapret s"
  "ps_forkret (taken i lk s) = ps_forkret s"
  by (simp_all add: taken_def upd_lock_def pushed_def)

lemma ps_fields_probed [simp, ps_simps]:
  "ps_proc (probed i s) = ps_proc s" "ps_initproc (probed i s) = ps_initproc s"
  "ps_nextpid (probed i s) = ps_nextpid s" "ps_ticks (probed i s) = ps_ticks s"
  "ps_kpgdir (probed i s) = ps_kpgdir s" "ps_trapret (probed i s) = ps_trapret s"
  "ps_forkret (probed i s) = ps_forkret s"
  by (simp_all add: probed_def)

lemma ps_fields_kmem_left [simp, ps_simps]:
  "ps_proc (kmem_left i s) = ps_proc s" "ps_nextpid (kmem_left i s) = ps_nextpid s"
  "ps_ticks (kmem_left i s) = ps_ticks s"
  by (simp_all add: kmem_left_def)

lemma ps_fields_kmem_upd [simp, ps_simps]:
  "ps_proc (kmem_upd m h s) = ps_proc s" "ps_initproc (kmem_upd m h s) = ps_initproc s"
  "ps_nextpid (kmem_upd m h s) = ps_nextpid s" "ps_ticks (kmem_upd m h s) = ps_ticks s"
  "ps_kpgdir (kmem_upd m h s) = ps_kpgdir s" "ps_trapret (kmem_upd m h s) = ps_trapret s"
  "ps_forkret (kmem_upd m h s) = ps_forkret s"
  by (simp_all add: kmem_upd_def)

lemma ps_fields_mem [simp, ps_simps]:
  "ps_proc (mem_store a w s) = ps_proc s" "ps_ticks (mem_store a w s) = ps_ticks s"
  "ps_nextpid (mem_store a w s) = ps_nextpid s" "ps_forkret (mem_store a w s) = ps_forkret s"
  "ps_trapret (mem_store a w s) = ps_trapret s"
  "ps_proc (mem_set a c n s) = ps_proc s" "ps_ticks (mem_set a c n s) = ps_ticks s"
  "ps_nextpid (mem_set a c n s) = ps_nextpid s" "ps_forkret (mem_set a c n s) = ps_forkret s"
  "ps_trapret (mem_set a c n s) = ps_trapret s"
  by (simp_all add: mem_store_def mem_set_def)

lemma upd_proc_fields [simp, ps_simps]:
  "ps_ticks (upd_proc i f s) = ps_ticks s" "ps_nextpid (upd_proc i f s) = ps_nextpid s"
  "ps_forkret (upd_proc i f s) = ps_forkret s" "ps_trapret (upd_proc i f s) = ps_trapret s"
  "km_mem (upd_proc i f s) = km_mem s" "km_end (upd_proc i f s) = km_end s"
  "km_freelist (upd_proc i f s) = km_freelist s"
  "length (ps_proc (upd_proc i f s)) = length (ps_proc s)"
  by (simp_all add: upd_proc_def)

lemma nth_upd_proc:
  "j < length (ps_proc s) \<Longrightarrow>
   ps_proc (upd_proc i f s) ! j = (if j = i then f (ps_proc s ! i) else ps_proc s ! j)"
  by (auto simp: upd_proc_def)

text \<open>A processor that holds no lock, with every lock free.\<close>

definition calm :: "'a kst_scheme \<Rightarrow> nat \<Rightarrow> bool" where
  "calm s i \<longleftrightarrow> here s i \<and> cli_ok s i \<and> (\<forall>lk. idle_lock s lk)"

lemma calm_ready: "calm s i \<Longrightarrow> ready s i lk"
  by (simp add: calm_def ready_def)

lemma calm_kmem_ready: "calm s i \<Longrightarrow> kmem_ready s i"
  by (simp add: kmem_ready_def calm_ready)

lemma calm_probed [simp]: "calm s i \<Longrightarrow> calm (probed i s) i"
  by (simp add: calm_def idle_lock_def)

text \<open>\<open>calm\<close> depends on the base record only.\<close>

lemma calm_cong:
  "k_cpus t = k_cpus s \<Longrightarrow> k_me t = k_me s \<Longrightarrow> k_if t = k_if s \<Longrightarrow> k_locks t = k_locks s \<Longrightarrow>
   calm t i = calm s i"
  by (simp add: calm_def here_def cli_ok_def idle_lock_def)

lemma calm_more [simp]:
  "calm (upd_proc p f s) i = calm s i" "calm (s\<lparr>ps_proc := ps\<rparr>) i = calm s i"
  "calm (s\<lparr>ps_nextpid := n\<rparr>) i = calm s i" "calm (kmem_upd m h t) i = calm t i"
  "calm (mem_store a w t) i = calm t i" "calm (mem_set a c k t) i = calm t i"
  by (rule calm_cong; simp add: upd_proc_def mem_store_def mem_set_def)+

text \<open>The bracket of the process table lock around an update of the table.\<close>

lemma ptable_section:
  assumes "ready s i PTABLE"
  shows "release PTABLE ((taken i PTABLE s)\<lparr>ps_proc := ps, ps_nextpid := n\<rparr>)
       = Inr ((probed i s)\<lparr>ps_proc := ps, ps_nextpid := n\<rparr>)"
proof -
  let ?t = "(taken i PTABLE s)\<lparr>ps_proc := ps, ps_nextpid := n\<rparr>"
  have "in_crit ?t s i PTABLE" by (simp add: in_crit_def taken_def upd_lock_def pushed_def)
  moreover have "left_crit i s ?t = (probed i s)\<lparr>ps_proc := ps, ps_nextpid := n\<rparr>"
    by (simp add: left_crit_def taken_def upd_lock_def pushed_def probed_def)
  ultimately show ?thesis using release_in_crit [OF assms, of ?t] by simp
qed

lemma ptable_section_proc:
  assumes "ready s i PTABLE"
  shows "release PTABLE ((taken i PTABLE s)\<lparr>ps_proc := ps\<rparr>) = Inr ((probed i s)\<lparr>ps_proc := ps\<rparr>)"
    and "release PTABLE (taken i PTABLE s) = Inr (probed i s)"
proof -
  have crit: "in_crit ((taken i PTABLE s)\<lparr>ps_proc := ps\<rparr>) s i PTABLE"
    by (simp add: in_crit_def taken_def upd_lock_def pushed_def)
  have left: "left_crit i s ((taken i PTABLE s)\<lparr>ps_proc := ps\<rparr>) = (probed i s)\<lparr>ps_proc := ps\<rparr>"
    "left_crit i s (taken i PTABLE s) = probed i s"
    by (simp_all add: left_crit_def taken_def upd_lock_def pushed_def probed_def)
  show "release PTABLE ((taken i PTABLE s)\<lparr>ps_proc := ps\<rparr>) = Inr ((probed i s)\<lparr>ps_proc := ps\<rparr>)"
    using release_in_crit [OF assms crit] left(1) by simp
  show "release PTABLE (taken i PTABLE s) = Inr (probed i s)"
    using release_in_crit [OF assms in_crit_taken] left(2) by simp
qed

lemma wakeup_unfold:
  "wakeup ch s = andThen (acquire PTABLE s) (\<lambda>s. release PTABLE (wakeup1 ch s))"
proof -
  have r: "run_steps [release PTABLE] u = release PTABLE u" for u :: "'a pst_scheme"
    by (cases "release PTABLE u") simp_all
  show ?thesis by (simp add: wakeup_def wakeup_steps_def r run_steps.simps(2) [of _ "[_, _]"]
      run_steps.simps(2) [of _ "[_]"] cong: andThen_cong del: run_steps.simps)
qed

lemma wakeup_eq: "ready s i PTABLE \<Longrightarrow> wakeup ch s = Inr (wakeup1 ch (probed i s))"
  using ptable_section_proc(1) [of s i]
  by (simp add: wakeup_unfold acquire_ready wakeup1_def)

lemma kill_eq:
  assumes "ready s i PTABLE"
  shows "kill pid s = Inr (case first_index (\<lambda>p. p_pid p = pid) (ps_proc s) of
      None \<Rightarrow> (-1, probed i s)
    | Some k \<Rightarrow> (0, upd_proc k (\<lambda>p. p\<lparr>p_killed := 1,
        p_state := (if p_state p = SLEEPING then RUNNABLE else p_state p)\<rparr>) (probed i s)))"
proof (cases "first_index (\<lambda>p. p_pid p = pid) (ps_proc s)")
  case None
  then show ?thesis using assms ptable_section_proc(2) [OF assms] by (simp add: kill_def acquire_ready)
next
  case (Some k)
  then have "k < length (ps_proc s)" by (rule first_index_SomeD)
  then show ?thesis using assms Some
    by (auto simp: kill_def acquire_ready upd_proc_def ptable_section_proc(1) [OF assms] Let_def)
qed

lemma set_priority_loop_eq:
  "set_priority_loop prio pid old ps =
     ((if \<exists>p\<in>set ps. p_pid p = pid
       then p_priority (last (filter (\<lambda>p. p_pid p = pid) ps)) else old),
      map (\<lambda>p. if p_pid p = pid then p\<lparr>p_priority := prio\<rparr> else p) ps)"
  by (induction ps arbitrary: old) (auto simp: filter_empty_conv)

lemma set_priority_eq:
  assumes "ready s i PTABLE"
  shows "set_priority prio pid s =
    Inr (fst (set_priority_loop prio pid 0 (ps_proc s)),
         (probed i s)\<lparr>ps_proc := snd (set_priority_loop prio pid 0 (ps_proc s))\<rparr>)"
  using assms by (simp add: set_priority_def acquire_ready ptable_section_proc(1) [OF assms]
      split: prod.splits)

section \<open>Allocating a process\<close>

text \<open>The slot as \<open>allocproc\<close> leaves it, for the process id \<open>pid\<close>, the stack page \<open>k\<close> and the clock \<open>t\<close>.\<close>

definition embryo :: "int \<Rightarrow> uint \<Rightarrow> int \<Rightarrow> proc \<Rightarrow> proc" where
  "embryo pid k t p = p\<lparr>p_state := EMBRYO, p_pid := pid, p_kstack := k, p_tf := k + 4020,
     p_context := k + 3996, p_ctime := t, p_priority := 60, p_cur_q := 0, p_q0 := 0, p_q1 := 0,
     p_q2 := 0, p_q3 := 0, p_q4 := 0, p_toe := t, p_n_run := 0, p_rtime := 0, p_etime := 0,
     p_iotime := 0\<rparr>"

lemma kmem_ok_frame:
  assumes "kmem_ok s ps" and "page_ok e p" and "p \<notin> set ps"
    and "\<And>x. x < unat p \<or> unat p + 4096 \<le> x \<Longrightarrow> m x = km_mem s x"
  shows "kmem_ok (s\<lparr>km_mem := m\<rparr>) ps"
proof -
  have "free_chain m (km_freelist s) ps"
  proof (rule free_chain_frame)
    show "free_chain (km_mem s) (km_freelist s) ps" using assms(1) by (simp add: kmem_ok_def)
    fix q and j :: nat assume q: "q \<in> set ps" and j: "j < 4"
    have "page_ok (km_end s) q" "q \<noteq> p" using q assms by (auto simp: kmem_ok_def)
    then show "m (unat q + j) = km_mem s (unat q + j)"
      using pages_disjoint [OF assms(2), of "km_end s" q] j by (intro assms(4)) auto
  qed
  then show ?thesis using assms(1) by (simp add: kmem_ok_def)
qed

lemma kmem_ok_cong:
  "km_mem t = km_mem s \<Longrightarrow> km_freelist t = km_freelist s \<Longrightarrow> km_end t = km_end s \<Longrightarrow>
   kmem_ok t ps = kmem_ok s ps"
  by (simp add: kmem_ok_def)

lemma unat_in_page:
  assumes "page_ok e q" and "unat d < 4096"
  shows "unat (q + d) = unat q + unat d"
  using page_ok_bounds(3) [OF assms(1)] assms(2) by (simp add: unat_word_ariths)

lemma allocproc_found:
  assumes "calm s i" and "first_index (\<lambda>p. p_state p = UNUSED) (ps_proc s) = Some k"
  shows "allocproc s =
    (let s1 = (probed i s)\<lparr>ps_proc := (ps_proc s)[k := (ps_proc s ! k)
               \<lparr>p_state := EMBRYO, p_pid := ps_nextpid s\<rparr>], ps_nextpid := ps_nextpid s + 1\<rparr>;
         h = km_freelist s;
         s2 = upd_proc k (\<lambda>p. p\<lparr>p_kstack := h\<rparr>) (kmem_upd (km_mem s)
                (if h \<noteq> 0 then load32 (km_mem s) (unat h) else 0) (kmem_left i s1))
     in if h = 0 then Inr (None, upd_proc k (\<lambda>p. p\<lparr>p_state := UNUSED\<rparr>) s2)
        else Inr (Some k, upd_proc k (\<lambda>_. embryo (ps_nextpid s) h (sint (ps_ticks s)) (ps_proc s ! k))
               (mem_store (h + 4012) (ps_forkret s) (mem_set (h + 3996) 0 20
                  (mem_store (h + 4016) (ps_trapret s) s2)))))"
proof -
  let ?s1 = "(probed i s)\<lparr>ps_proc := (ps_proc s)[k := (ps_proc s ! k)
               \<lparr>p_state := EMBRYO, p_pid := ps_nextpid s\<rparr>], ps_nextpid := ps_nextpid s + 1\<rparr>"
  have k: "k < length (ps_proc s)" using assms(2) by (rule first_index_SomeD)
  have "calm ?s1 i" using assms(1) by simp
  note ka = kalloc_eq [OF calm_kmem_ready [OF this]]
  have rel: "release PTABLE ((upd_proc k (\<lambda>p. p\<lparr>p_state := EMBRYO, p_pid := ps_nextpid s\<rparr>)
      (taken i PTABLE s))\<lparr>ps_nextpid := ps_nextpid s + 1\<rparr>) = Inr ?s1"
    using ptable_section [OF calm_ready [OF assms(1)]] by (simp add: upd_proc_def)
  show ?thesis
    using assms(2) k
    by (simp add: allocproc_def acquire_ready [OF calm_ready [OF assms(1)]] rel ka Let_def
        KSTACKSIZE_def)
      (simp add: upd_proc_def kmem_left_def embryo_def mem_store_def mem_set_def add.commute)
qed

text \<open>Process ids: positive, below \<open>nextpid\<close>, and different for different live processes.\<close>

definition pids_ok :: "'a pst_scheme \<Rightarrow> bool" where
  "pids_ok s \<longleftrightarrow> 0 < ps_nextpid s
     \<and> (\<forall>p\<in>set (ps_proc s). p_state p \<noteq> UNUSED \<longrightarrow> 0 < p_pid p \<and> p_pid p < ps_nextpid s)
     \<and> (\<forall>i<length (ps_proc s). \<forall>j<length (ps_proc s). i \<noteq> j \<and> p_state (ps_proc s ! i) \<noteq> UNUSED
          \<and> p_state (ps_proc s ! j) \<noteq> UNUSED \<longrightarrow> p_pid (ps_proc s ! i) \<noteq> p_pid (ps_proc s ! j))"

lemma pids_ok_new:
  assumes "pids_ok s" and "k < length (ps_proc s)" and "ps_proc t = (ps_proc s)[k := x]"
    and "ps_nextpid t = ps_nextpid s + 1" and "p_state x = UNUSED \<or> p_pid x = ps_nextpid s"
  shows "pids_ok t"
proof -
  have old: "0 < p_pid (ps_proc s ! i) \<and> p_pid (ps_proc s ! i) < ps_nextpid s"
    if "i < length (ps_proc s)" "p_state (ps_proc s ! i) \<noteq> UNUSED" for i
    using assms(1) that by (auto simp: pids_ok_def)
  have "0 < p_pid p \<and> p_pid p < ps_nextpid t" if p: "p \<in> set (ps_proc t)" "p_state p \<noteq> UNUSED" for p
  proof -
    from p(1) obtain j where j: "j < length (ps_proc s)" "p = (ps_proc s)[k := x] ! j"
      unfolding assms(3) by (auto simp: in_set_conv_nth)
    show ?thesis
      using j p(2) old [OF j(1)] assms(1,4,5)
      by (cases "j = k") (auto simp: pids_ok_def)
  qed
  moreover have "p_pid (ps_proc t ! i) \<noteq> p_pid (ps_proc t ! j)"
    if "i < length (ps_proc t)" "j < length (ps_proc t)" "i \<noteq> j"
      "p_state (ps_proc t ! i) \<noteq> UNUSED" "p_state (ps_proc t ! j) \<noteq> UNUSED" for i j
    using that old [of i] old [of j] assms(1,2,5) unfolding assms(3)
    by (cases "i = k"; cases "j = k") (auto simp: pids_ok_def)
  ultimately show ?thesis using assms(1,4) by (auto simp: pids_ok_def)
qed

lemma allocproc_none:
  "calm s i \<Longrightarrow> first_index (\<lambda>p. p_state p = UNUSED) (ps_proc s) = None \<Longrightarrow>
   allocproc s = Inr (None, probed i s)"
  using ptable_section_proc(2) [OF calm_ready, of s i]
  by (simp add: allocproc_def acquire_ready [OF calm_ready])

text \<open>The new kernel stack: its two words of interest, and the free list beside it.\<close>

lemma stack_setup:
  fixes v w :: uint
  assumes ok: "kmem_ok s ps" and q: "page_ok e q" "q \<notin> set ps"
  defines "t \<equiv> mem_store (q + 4012) w (mem_set (q + 3996) 0 20 (mem_store (q + 4016) v s))"
  shows "kmem_ok t ps" and "mem_load (q + 4012) t = w" and "mem_load (q + 4016) t = v"
proof -
  have u: "unat (q + 4012) = unat q + 4012" "unat (q + 3996) = unat q + 3996" "unat (q + 4016) = unat q + 4016"
    by (simp_all add: unat_in_page [OF q(1)])
  have m: "t = s\<lparr>km_mem := store32 (unat q + 4012) w (memset (unat q + 3996) 0 20
        (store32 (unat q + 4016) v (km_mem s)))\<rparr>"
    by (simp add: t_def mem_store_def mem_set_def u)
  show "kmem_ok t ps"
    unfolding m using ok q
    by (rule kmem_ok_frame) (auto simp: store32_outside memset_fills poke_outside)
  show "mem_load (q + 4012) t = w" by (simp add: t_def)
  have "load32 (memset (unat q + 3996) 0 20 (store32 (unat q + 4016) v (km_mem s))) (unat q + 4016)
      = load32 (store32 (unat q + 4016) v (km_mem s)) (unat q + 4016)"
    by (rule load32_cong) (auto simp: memset_fills poke_outside)
  then show "mem_load (q + 4016) t = v"
    by (simp add: m mem_load_def u load32_store32_disjoint)
qed

lemma allocproc_succeeds:
  assumes c: "calm s i" and k: "first_index (\<lambda>p. p_state p = UNUSED) (ps_proc s) = Some k"
    and ok: "kmem_ok s (q # qs)"
  shows "\<exists>t. allocproc s = Inr (Some k, t) \<and> calm t i \<and> kmem_ok t qs
    \<and> ps_proc t = (ps_proc s)[k := embryo (ps_nextpid s) q (sint (ps_ticks s)) (ps_proc s ! k)]
    \<and> ps_nextpid t = ps_nextpid s + 1 \<and> km_end t = km_end s
    \<and> mem_load (q + 4012) t = ps_forkret s \<and> mem_load (q + 4016) t = ps_trapret s"
proof -
  note K = kmem_ok_kalloc [OF ok]
  let ?s1 = "(probed i s)\<lparr>ps_proc := (ps_proc s)[k := (ps_proc s ! k)
               \<lparr>p_state := EMBRYO, p_pid := ps_nextpid s\<rparr>], ps_nextpid := ps_nextpid s + 1\<rparr>"
  let ?s2 = "upd_proc k (\<lambda>p. p\<lparr>p_kstack := q\<rparr>)
      (kmem_upd (km_mem s) (load32 (km_mem s) (unat q)) (kmem_left i ?s1))"
  let ?s3 = "mem_store (q + 4012) (ps_forkret s) (mem_set (q + 3996) 0 20 (mem_store (q + 4016) (ps_trapret s) ?s2))"
  have q: "page_ok (km_end s) q" "q \<notin> set qs" "q \<noteq> 0" "km_freelist s = q"
    using ok by (auto simp: kmem_ok_def)
  have "kmem_ok ?s2 qs"
    using K(3) by (simp add: kmem_ok_def kmem_upd_def kmem_left_def)
  note S = stack_setup [OF this q(1,2), of "ps_forkret s" "ps_trapret s"]
  let ?t = "upd_proc k (\<lambda>_. embryo (ps_nextpid s) q (sint (ps_ticks s)) (ps_proc s ! k)) ?s3"
  have ke: "kmem_ok (upd_proc j f u) ps = kmem_ok u ps" "mem_load a (upd_proc j f u) = mem_load a u"
    for j f a ps and u :: "'a pst_scheme"
    by (simp_all add: kmem_ok_def mem_load_def)
  have "calm ?s1 i" using c by simp
  then have "calm ?t i" by (simp add: kmem_left_def)
  moreover have "allocproc s = Inr (Some k, ?t)"
    using q by (simp add: allocproc_found [OF c k] Let_def)
  moreover have "ps_proc ?t = (ps_proc s)[k := embryo (ps_nextpid s) q (sint (ps_ticks s)) (ps_proc s ! k)]"
    by (simp add: upd_proc_def kmem_left_def)
  moreover have "ps_nextpid ?t = ps_nextpid s + 1" "km_end ?t = km_end s"
    by (simp_all add: kmem_left_def mem_store_def mem_set_def kmem_upd_def)
  ultimately show ?thesis using S ke by (intro exI [of _ ?t]) simp
qed

section \<open>Sleeping and waking\<close>

text \<open>What one processor does to its own flags leaves another processor's alone.\<close>

definition elsewhere :: "nat \<Rightarrow> 'a kst_scheme \<Rightarrow> 'b kst_scheme \<Rightarrow> bool" where
  "elsewhere j s t \<longleftrightarrow> k_cpus t ! j = k_cpus s ! j
     \<and> k_if t (c_apicid (k_cpus s ! j)) = k_if s (c_apicid (k_cpus s ! j))
     \<and> map c_apicid (k_cpus t) = map c_apicid (k_cpus s) \<and> k_me t = k_me s"

lemma elsewhere_trans: "elsewhere j s t \<Longrightarrow> elsewhere j t u \<Longrightarrow> elsewhere j s u"
  by (simp add: elsewhere_def)

lemma elsewhere_lock:
  assumes "i < length (k_cpus s)" "j \<noteq> i" "c_apicid (k_cpus s ! j) \<noteq> k_me s"
  shows "elsewhere j s (taken i lk s)" and "elsewhere j s (dropped i lk s)"
  using assms
  by (simp_all add: elsewhere_def taken_def dropped_def popped_def pushed_def upd_lock_def
      map_update_nth_same)

lemma elsewhere_on_cpu:
  assumes "elsewhere j s t" and "j < length (k_cpus s)" and "distinct (map c_apicid (k_cpus s))"
    and "cli_ok (on_cpu j s) j"
  shows "here (on_cpu j t) j" and "cli_ok (on_cpu j t) j"
proof -
  have "length (k_cpus t) = length (k_cpus s)"
    using assms(1) by (metis elsewhere_def length_map)
  then show "here (on_cpu j t) j" using assms here_on_cpu [of t j] by (simp add: elsewhere_def)
  show "cli_ok (on_cpu j t) j" using assms by (simp add: elsewhere_def cli_ok_def)
qed

text \<open>
  A thread that holds \<open>lk\<close> goes to sleep: its processor took \<open>lk\<close> in the state \<open>s\<close>. The process
  table lock is taken before \<open>lk\<close> is given up, and is held when the thread leaves the processor.
\<close>

definition asleep :: "nat \<Rightarrow> channel \<Rightarrow> 'a pst_scheme \<Rightarrow> 'a pst_scheme" where
  "asleep p ch s = upd_proc p (\<lambda>x. x\<lparr>p_chan := Some ch, p_state := SLEEPING,
     p_toe := sint (ps_ticks s)\<rparr>) s"

lemma upd_proc_upd_proc: "upd_proc p f (upd_proc p g s) = upd_proc p (\<lambda>x. f (g x)) s"
  by (cases "p < length (ps_proc s)") (simp_all add: upd_proc_def list_update_beyond)

lemma sleep_off_unfold: "sleep_off ch lko s =
     andThen (myproc s) (\<lambda>(q, s).
     case q of None \<Rightarrow> Inl (Panic ''sleep'')
     | Some p \<Rightarrow> (case lko of None \<Rightarrow> Inl (Panic ''sleep without lk'')
       | Some lk \<Rightarrow>
          andThen (if lk \<noteq> PTABLE then andThen (acquire PTABLE s) (release lk) else Inr s) (\<lambda>s.
          sched_off (asleep p ch s))))"
proof -
  have toe: "ps_ticks (upd_proc p f u) = ps_ticks u" for p f and u :: "'a pst_scheme"
    by (simp add: upd_proc_def)
  have "andThen (run_steps (sleep_steps p ch lk) u) sched_off =
      andThen (if lk \<noteq> PTABLE then andThen (acquire PTABLE u) (release lk) else Inr u) (\<lambda>s.
        sched_off (asleep p ch s))" for p lk and u :: "'a pst_scheme"
    by (simp add: sleep_steps_def andThen_assoc asleep_def upd_proc_upd_proc toe)
  then show ?thesis
    unfolding sleep_off_def by (intro andThen_cong refl) (simp split: option.splits prod.splits)
qed

lemma upd_proc_base [simp]:
  "k_cpus (upd_proc p f s) = k_cpus s" "k_me (upd_proc p f s) = k_me s"
  "k_if (upd_proc p f s) = k_if s" "k_locks (upd_proc p f s) = k_locks s"
  "here (upd_proc p f s) i = here s i" "cli_ok (upd_proc p f s) i = cli_ok s i"
  "holds (upd_proc p f s) lk i = holds s lk i"
  by (simp_all add: upd_proc_def here_def cli_ok_def holds_def)

lemma sched_off_eq:
  assumes "here s i" and "cli_ok s i" and "c_ncli (k_cpus s ! i) = 1" and "holds s PTABLE i"
    and "c_proc (k_cpus s ! i) = Some p" and "p_state (ps_proc s ! p) \<noteq> RUNNING"
  shows "sched_off s = Inr (c_intena (k_cpus s ! i), s)"
proof -
  have nest: "probed i s = s" using assms(3) by (simp add: probed_nested)
  have off: "\<not> k_if s (k_me s)" using assms(2,3) by (simp add: cli_ok_def)
  have "myproc s = Inr (Some p, s)" using myproc_eq [OF assms(1,2)] nest assms(5) by simp
  moreover have "holding PTABLE s = Inr (True, s)"
    using holding_eq [OF assms(1,2)] nest assms(4) by (simp add: holds_def)
  moreover have "mycpu s = Inr i" using assms(1) off by (rule mycpu_here)
  ultimately show ?thesis using assms(3,6) off by (simp add: sched_off_def deref_def readeflags_IF_def)
qed

lemma sleep_off_eq:
  fixes ch :: channel
  assumes c: "calm s i" and n: "c_ncli (k_cpus s ! i) = 0" and p: "c_proc (k_cpus s ! i) = Some p"
    and lk: "lk \<noteq> PTABLE" and len: "p < length (ps_proc s)"
  defines "t \<equiv> asleep p ch (dropped i lk (taken i PTABLE (taken i lk s)))"
  shows "\<exists>b. sleep_off ch (Some lk) (taken i lk s) = Inr (b, t)"
    and "here t i" and "cli_ok t i" and "c_ncli (k_cpus t ! i) = 1" and "holds t PTABLE i"
proof -
  let ?s1 = "taken i lk s" and ?s2 = "taken i PTABLE (taken i lk s)"
  let ?t = "dropped i lk ?s2"
  have i: "here s i" "cli_ok s i" "i < length (k_cpus s)"
    using c by (auto simp: calm_def here_less)
  note f1 = in_crit_facts [OF calm_ready [OF c] in_crit_taken, of lk]
  have cp: "c_proc (k_cpus (taken i l u) ! i) = c_proc (k_cpus u ! i)" "length (k_cpus (taken i l u)) = length (k_cpus u)"
    if "i < length (k_cpus u)" for l and u :: "'a pst_scheme"
    using that by (simp_all add: taken_def upd_lock_def pushed_def)
  have my: "myproc ?s1 = Inr (Some p, ?s1)"
    using myproc_in_crit [OF calm_ready [OF c] in_crit_taken, of lk] p by simp
  have free: "l_locked (k_locks ?s1 PTABLE) = 0"
    using c lk by (simp add: taken_def upd_lock_def calm_def idle_lock_def)
  have acq: "acquire PTABLE ?s1 = Inr ?s2" using f1 free by (intro acquire_free) auto
  have i1: "i < length (k_cpus ?s1)" using i cp by simp
  have h2: "here ?s2 i" "cli_ok ?s2 i" "c_ncli (k_cpus ?s2 ! i) = 2"
    using f1 ncli_taken [OF i1, of PTABLE] ncli_taken [OF i(3), of lk] n
    by (simp_all add: cli_ok_taken [OF i1])
  have "holds ?s2 lk i" using lk by (simp add: holds_def taken_def upd_lock_def)
  then have rel: "release lk ?s2 = Inr ?t" using release_eq [OF h2(1,2)] h2(3) by simp
  have ht: "here ?t i" using h2(1) by simp
  have t: "c_ncli (k_cpus ?t ! i) = 1" "cli_ok ?t i" "holds ?t PTABLE i"
      "c_proc (k_cpus ?t ! i) = Some p"
    using h2 here_less [OF h2(1)] cp [OF i1] cp [OF i(3)] p lk
    by (auto simp: dropped_def popped_def upd_lock_def cli_ok_def holds_def)
      (auto simp: taken_def upd_lock_def)
  have "ps_proc ?t = ps_proc s" by (simp add: dropped_def popped_def upd_lock_def)
  then have "sched_off (asleep p ch ?t) = Inr (c_intena (k_cpus ?t ! i), asleep p ch ?t)"
    using sched_off_eq [of "asleep p ch ?t" i p] ht t len
    by (simp add: asleep_def holds_def) (simp add: upd_proc_def)
  then show "\<exists>b. sleep_off ch (Some lk) (taken i lk s) = Inr (b, t)"
    using lk my acq rel by (auto simp: sleep_off_unfold asleep_def t_def)
  show "here t i" "cli_ok t i" "c_ncli (k_cpus t ! i) = 1" "holds t PTABLE i"
    using ht t by (simp_all add: t_def asleep_def holds_def)
qed

lemma wakeup1_nth:
  "p < length (ps_proc s) \<Longrightarrow> ps_proc (wakeup1 ch s) ! p = (let q = ps_proc s ! p in
     if p_state q = SLEEPING \<and> p_chan q = Some ch
     then q\<lparr>p_toe := sint (ps_ticks s), p_state := RUNNABLE\<rparr> else q)"
  by (simp add: wakeup1_def Let_def)

section \<open>Properties\<close>

text \<open>Example states: one processor and the first process, the other 63 slots never used.\<close>

definition unused_proc :: proc where
  "unused_proc = \<lparr>p_sz = 0, p_pgdir = 0, p_kstack = 0, p_state = UNUSED, p_pid = 0, p_parent = None,
     p_tf = 0, p_context = 0, p_chan = None, p_killed = 0, p_ofile = replicate 16 None, p_cwd = None,
     p_name = replicate 16 0, p_ctime = 0, p_etime = 0, p_rtime = 0, p_iotime = 0, p_priority = 0,
     p_cur_q = 0, p_q0 = 0, p_q1 = 0, p_q2 = 0, p_q3 = 0, p_q4 = 0, p_toe = 0, p_ticks = 0, p_n_run = 0\<rparr>"

definition first_proc :: proc where
  "first_proc = unused_proc\<lparr>p_state := RUNNING, p_pid := 1, p_kstack := 0x80403000,
     p_pgdir := 0x80402000, p_sz := 4096\<rparr>"

definition boot_state :: pst where
  "boot_state = \<lparr>k_cpus = [\<lparr>c_apicid = 0, c_ncli = 0, c_intena = False, c_proc = Some 0, c_cr3 = 0, c_esp0 = 0\<rparr>,
       \<lparr>c_apicid = 1, c_ncli = 0, c_intena = False, c_proc = None, c_cr3 = 0, c_esp0 = 0\<rparr>],
     k_me = 0, k_if = (\<lambda>_. True),
     k_locks = (\<lambda>_. \<lparr>l_locked = 0, l_name = [], l_cpu = None\<rparr>),
     km_mem = chain_mem [0x80401000, 0x80400000], km_uselock = True, km_freelist = 0x80401000,
     km_end = 0x80112000,
     ps_proc = first_proc # replicate 63 unused_proc, ps_initproc = Some 0, ps_nextpid = 2,
     ps_ticks = 0, ps_kpgdir = 0x80404000, ps_trapret = 0x80105000, ps_forkret = 0x80104000\<rparr>"

lemma boot_state_calm: "calm boot_state 0"
  by (simp add: calm_def here_def cli_ok_def idle_lock_def boot_state_def)

lemma boot_state_kmem: "kmem_ok boot_state [0x80401000, 0x80400000]"
  by (simp add: kmem_ok_def boot_state_def load32_store32_disjoint page_ok_def PGSIZE_def
      V2P_less_PHYSTOP_iff)

lemma first_index_replicate:
  "first_index P (replicate n x) = (if 0 < n \<and> P x then Some 0 else None)"
  by (cases n) (auto simp: first_index_None_iff)

lemma boot_state_slots:
  "first_index (\<lambda>p. p_state p = UNUSED) (ps_proc boot_state) = Some 1"
  "first_index (\<lambda>p. p_pid p = 0) (ps_proc boot_state) = Some 1"
  by (simp_all add: boot_state_def first_proc_def first_index_replicate)
    (simp_all add: unused_proc_def)

lemma boot_state_pids: "pids_ok boot_state"
  by (auto simp: pids_ok_def boot_state_def first_proc_def unused_proc_def nth_Cons' split: if_splits)

text \<open>
  C35. Creating a process slot: with a free slot and a free page \<open>allocproc\<close> returns the first free
  slot, set up with the next process id, the page as kernel stack, and a context that starts in
  \<open>forkret\<close> and returns to \<open>trapret\<close>; the page leaves the free list, no other process changes and
  process ids stay unique. Without a free slot nothing changes; without a free page only the
  unused slot is touched.
\<close>

theorem allocproc_creates_process:
  assumes "calm s i" and "kmem_ok s pages" and "pids_ok s"
  shows "case first_index (\<lambda>p. p_state p = UNUSED) (ps_proc s) of
      None \<Rightarrow> \<exists>t. allocproc s = Inr (None, t) \<and> ps_proc t = ps_proc s \<and> km_freelist t = km_freelist s
    | Some k \<Rightarrow> (case pages of
        [] \<Rightarrow> \<exists>t x. allocproc s = Inr (None, t) \<and> ps_proc t = (ps_proc s)[k := x]
               \<and> p_state x = UNUSED \<and> pids_ok t
      | q # qs \<Rightarrow> \<exists>t. allocproc s = Inr (Some k, t) \<and> kmem_ok t qs \<and> pids_ok t
               \<and> ps_proc t = (ps_proc s)[k := embryo (ps_nextpid s) q (sint (ps_ticks s)) (ps_proc s ! k)]
               \<and> mem_load (q + 4012) t = ps_forkret s \<and> mem_load (q + 4016) t = ps_trapret s)"
proof (cases "first_index (\<lambda>p. p_state p = UNUSED) (ps_proc s)")
  case None
  then show ?thesis using allocproc_none [OF assms(1)] by simp
next
  case (Some k)
  note k = first_index_SomeD(1) [OF Some]
  show ?thesis
  proof (cases pages)
    case Nil
    let ?x = "(ps_proc s ! k)\<lparr>p_pid := ps_nextpid s, p_kstack := 0, p_state := UNUSED\<rparr>"
    have "km_freelist s = 0" using assms(2) Nil by (simp add: kmem_ok_def)
    then obtain t where t: "allocproc s = Inr (None, t)" "ps_proc t = (ps_proc s)[k := ?x]"
        "ps_nextpid t = ps_nextpid s + 1"
      using k by (simp add: allocproc_found [OF assms(1) Some] Let_def)
        (simp add: upd_proc_def)
    have "pids_ok t" using pids_ok_new [OF assms(3) k t(2,3)] by simp
    moreover have "p_state ?x = UNUSED" by simp
    ultimately show ?thesis using t Some Nil by (simp only: option.case list.case) blast
  next
    case (Cons q qs)
    then obtain t where t: "allocproc s = Inr (Some k, t)" "kmem_ok t qs"
        "ps_proc t = (ps_proc s)[k := embryo (ps_nextpid s) q (sint (ps_ticks s)) (ps_proc s ! k)]"
        "ps_nextpid t = ps_nextpid s + 1"
        "mem_load (q + 4012) t = ps_forkret s" "mem_load (q + 4016) t = ps_trapret s"
      using allocproc_succeeds [OF assms(1) Some assms(2) [unfolded Cons]] by blast
    have "pids_ok t" using pids_ok_new [OF assms(3) k t(3,4)] by (simp add: embryo_def)
    then show ?thesis using t Some Cons by simp
  qed
qed

theorem allocproc_creates_process_witness:
  "\<exists>t. allocproc boot_state = Inr (Some 1, t) \<and> kmem_ok t [0x80400000] \<and> pids_ok t
     \<and> mem_load (0x80401000 + 4012) t = 0x80104000"
proof -
  have "ps_forkret boot_state = 0x80104000" by (simp add: boot_state_def)
  then show ?thesis
    using allocproc_creates_process [OF boot_state_calm boot_state_kmem boot_state_pids]
    by (auto simp: boot_state_slots)
qed

text \<open>
  Two processors run two lists of steps in turns that a schedule chooses. A processor whose next
  step spins on a lock stays at that step; any other failure is a panic of the kernel.
\<close>

fun cpu_turn :: "nat \<Rightarrow> 'a steps \<Rightarrow> 'a pst_scheme \<Rightarrow> failure + 'a steps \<times> 'a pst_scheme" where
  "cpu_turn k [] s = Inr ([], s)"
| "cpu_turn k (f # fs) s = (case f (on_cpu k s) of
     Inr t \<Rightarrow> Inr (fs, t)
   | Inl (Spin l) \<Rightarrow> Inr (f # fs, s)
   | Inl e \<Rightarrow> Inl e)"

fun interleave :: "nat \<Rightarrow> nat \<Rightarrow> bool list \<Rightarrow> 'a steps \<Rightarrow> 'a steps \<Rightarrow> 'a pst_scheme \<Rightarrow>
    failure + 'a steps \<times> 'a steps \<times> 'a pst_scheme" where
  "interleave i j [] a b s = Inr (a, b, s)"
| "interleave i j (True # w) a b s = andThen (cpu_turn i a s) (\<lambda>(a, s). interleave i j w a b s)"
| "interleave i j (False # w) a b s = andThen (cpu_turn j b s) (\<lambda>(b, s). interleave i j w a b s)"

text \<open>
  The sleeper: the steps of \<open>sleep\<close>, the checks of \<open>sched\<close>, and the release of the process table
  by the scheduler it switches to. The waker takes \<open>lk\<close>, calls \<open>wakeup\<close> and releases \<open>lk\<close>, as
  every caller in the kernel does.
\<close>

definition sleeper :: "nat \<Rightarrow> channel \<Rightarrow> lockid \<Rightarrow> 'a steps" where
  "sleeper p ch lk = sleep_steps p ch lk @
     [\<lambda>s. andThen (sched_off s) (\<lambda>(_, s). Inr s), release PTABLE]"

definition waker :: "channel \<Rightarrow> lockid \<Rightarrow> 'a steps" where
  "waker ch lk = [acquire lk] @ wakeup_steps ch @ [release lk]"

text \<open>
  The invariant, by the number of steps each has taken. \<open>w\<close> is the table of lock owners before;
  the two locks in question are owned as the positions say.
\<close>

definition race_ok :: "nat \<Rightarrow> nat \<Rightarrow> bool" where
  "race_ok m n \<longleftrightarrow> m \<le> 7 \<and> n \<le> 5 \<and> (1 \<le> n \<longrightarrow> 2 \<le> m) \<and> (2 \<le> n \<longrightarrow> m = 7)"

definition race_owner :: "nat \<Rightarrow> nat \<Rightarrow> lockid \<Rightarrow> nat \<Rightarrow> nat \<Rightarrow> (lockid \<Rightarrow> nat option) \<Rightarrow> lockid \<Rightarrow> nat option" where
  "race_owner i j lk m n w = w(
     lk := (if m \<le> 1 then Some i else if 1 \<le> n \<and> n \<le> 4 then Some j else None),
     PTABLE := (if 1 \<le> m \<and> m \<le> 6 then Some i else if n = 2 \<or> n = 3 then Some j else None))"

definition race_inv :: "nat \<Rightarrow> nat \<Rightarrow> nat \<Rightarrow> nat \<Rightarrow> channel \<Rightarrow> lockid \<Rightarrow> (lockid \<Rightarrow> nat option) \<Rightarrow> nat \<Rightarrow> nat \<Rightarrow>
    'a pst_scheme \<Rightarrow> bool" where
  "race_inv N i j p ch lk w m n s \<longleftrightarrow>
     race_ok m n \<and> locks_ok s \<and> length (k_cpus s) = N \<and> lock_owner s = race_owner i j lk m n w
     \<and> c_proc (k_cpus s ! i) = Some p \<and> p < length (ps_proc s)
     \<and> (3 \<le> m \<longrightarrow> p_chan (ps_proc s ! p) = Some ch)
     \<and> (4 \<le> m \<longrightarrow> p_state (ps_proc s ! p) = (if n \<le> 2 then SLEEPING else RUNNABLE))"

lemma locked_by:
  assumes "locks_ok s" and "k < length (k_cpus s)"
  shows "acquire lk (on_cpu k s) = (case lock_owner s lk of
      None \<Rightarrow> Inr (taken k lk (on_cpu k s))
    | Some m \<Rightarrow> if m = k then Inl (Panic ''acquire'') else Inl (Spin lk))"
    and "lock_owner s lk = Some k \<Longrightarrow> release lk (on_cpu k s) = Inr (dropped k lk (on_cpu k s))"
proof -
  note h = here_on_cpu [OF locks_okD(1) [OF assms] assms(2)] and c = cli_ok_on_cpu [OF assms]
  have "l_locked (k_locks s lk) \<noteq> 0 \<Longrightarrow> l_cpu (k_locks s lk) \<noteq> None"
    using assms(1) unfolding locks_ok_def lock_owner_def by presburger
  then show "acquire lk (on_cpu k s) = (case lock_owner s lk of
      None \<Rightarrow> Inr (taken k lk (on_cpu k s))
    | Some m \<Rightarrow> if m = k then Inl (Panic ''acquire'') else Inl (Spin lk))"
    by (auto simp: acquire_eq [OF h c] holds_def lock_owner_def)
  assume own: "lock_owner s lk = Some k"
  then have "0 < c_ncli (k_cpus s ! k)"
    using locks_okD [OF assms] by (auto simp: held_by_def card_gt_0_iff)
  moreover have "holds (on_cpu k s) lk k"
    using own by (simp add: holds_def lock_owner_def split: if_splits)
  ultimately show "release lk (on_cpu k s) = Inr (dropped k lk (on_cpu k s))"
    using release_eq [OF h c, of lk] by simp
qed

lemma race_taken:
  assumes "locks_ok s" and "k < length (k_cpus s)" and "lock_owner s lk = None"
  defines "t \<equiv> taken k lk (on_cpu k s)"
  shows "locks_ok t" and "length (k_cpus t) = length (k_cpus s)"
    and "lock_owner t = (lock_owner s)(lk := Some k)" and "ps_proc t = ps_proc s"
    and "c_proc (k_cpus t ! i) = c_proc (k_cpus s ! i)"
proof -
  have "l_locked (k_locks s lk) = 0"
    using assms(1,3) by (auto simp: locks_ok_def)
  then show "locks_ok t" unfolding t_def by (rule locks_ok_taken [OF assms(1,2)])
  show "lock_owner t = (lock_owner s)(lk := Some k)" by (simp add: t_def lock_owner_taken)
  show "length (k_cpus t) = length (k_cpus s)" "ps_proc t = ps_proc s"
    "c_proc (k_cpus t ! i) = c_proc (k_cpus s ! i)"
    using assms(2) by (simp_all add: t_def taken_def upd_lock_def pushed_def nth_list_update on_cpu_def)
qed

lemma race_dropped:
  assumes "locks_ok s" and "k < length (k_cpus s)" and "lock_owner s lk = Some k"
  defines "t \<equiv> dropped k lk (on_cpu k s)"
  shows "locks_ok t" and "length (k_cpus t) = length (k_cpus s)"
    and "lock_owner t = (lock_owner s)(lk := None)" and "ps_proc t = ps_proc s"
    and "c_proc (k_cpus t ! i) = c_proc (k_cpus s ! i)"
proof -
  show "locks_ok t" unfolding t_def by (rule locks_ok_dropped [OF assms(1-3)])
  show "lock_owner t = (lock_owner s)(lk := None)" by (simp add: t_def lock_owner_dropped)
  show "length (k_cpus t) = length (k_cpus s)" "ps_proc t = ps_proc s"
    "c_proc (k_cpus t ! i) = c_proc (k_cpus s ! i)"
    using assms(2) by (simp_all add: t_def dropped_def upd_lock_def popped_def nth_list_update on_cpu_def)
qed

lemma locks_ok_upd_proc:
  "locks_ok (upd_proc p f s) = locks_ok s" "lock_owner (upd_proc p f s) = lock_owner s"
  "locks_ok (on_cpu k s) = locks_ok s" "ps_proc (on_cpu k s) = ps_proc s"
  "locks_ok (wakeup1 ch s) = locks_ok s" "lock_owner (wakeup1 ch s) = lock_owner s"
  "k_cpus (wakeup1 ch s) = k_cpus s"
  by (simp_all add: locks_ok_def held_by_def lock_owner_def fun_eq_iff upd_proc_def on_cpu_def wakeup1_def)

lemma race_sched:
  assumes inv: "race_inv N i j p ch lk w 5 n s" and i: "i < N" "j \<noteq> i" and lk: "lk \<noteq> PTABLE"
    and w: "\<And>l. w l \<noteq> Some i"
  shows "\<exists>b. sched_off (on_cpu i s) = Inr (b, on_cpu i s)"
proof -
  have ok: "locks_ok s" "i < length (k_cpus s)" using inv i by (auto simp: race_inv_def)
  have n: "n \<le> 1" using inv by (auto simp: race_inv_def race_ok_def)
  have own: "lock_owner s = race_owner i j lk 5 n w" using inv by (simp add: race_inv_def)
  then have pt: "lock_owner s PTABLE = Some i" by (simp add: race_owner_def)
  have "held_by s i = {PTABLE}"
    using w i(2) by (auto simp: held_by_def own race_owner_def split: if_splits)
  then have "c_ncli (k_cpus s ! i) = 1" using locks_okD(3) [OF ok] by simp
  moreover have "holds (on_cpu i s) PTABLE i"
    using pt by (simp add: holds_def lock_owner_def split: if_splits)
  moreover have "p_state (ps_proc s ! p) = SLEEPING" "c_proc (k_cpus s ! i) = Some p"
    using inv n by (simp_all add: race_inv_def)
  ultimately show ?thesis
    using sched_off_eq [OF here_on_cpu [OF locks_okD(1) [OF ok] ok(2)] cli_ok_on_cpu [OF ok], of p]
    by (simp add: locks_ok_upd_proc)
qed

lemma sleeper_eq: "lk \<noteq> PTABLE \<Longrightarrow> sleeper p ch lk = [acquire PTABLE, release lk,
    \<lambda>s. Inr (upd_proc p (\<lambda>x. x\<lparr>p_chan := Some ch\<rparr>) s),
    \<lambda>s. Inr (upd_proc p (\<lambda>x. x\<lparr>p_state := SLEEPING\<rparr>) s),
    \<lambda>s. Inr (upd_proc p (\<lambda>x. x\<lparr>p_toe := sint (ps_ticks s)\<rparr>) s),
    \<lambda>s. andThen (sched_off s) (\<lambda>(_, s). Inr s), release PTABLE]"
  by (simp add: sleeper_def sleep_steps_def)

lemma sleeper_step:
  assumes inv: "race_inv N i j p ch lk w m n s" and i: "i < N" "j \<noteq> i" and lk: "lk \<noteq> PTABLE"
    and w: "\<And>l. w l \<noteq> Some i" "w lk = None" "w PTABLE = None" and m: "m < 7"
  shows "\<exists>t. (sleeper p ch lk ! m) (on_cpu i s) = Inr t \<and> race_inv N i j p ch lk w (Suc m) n t"
proof -
  have ok: "locks_ok s" "i < length (k_cpus s)" "length (k_cpus s) = N"
    "lock_owner s = race_owner i j lk m n w" "c_proc (k_cpus s ! i) = Some p" "p < length (ps_proc s)"
    "race_ok m n" "3 \<le> m \<Longrightarrow> p_chan (ps_proc s ! p) = Some ch"
    "4 \<le> m \<Longrightarrow> p_state (ps_proc s ! p) = (if n \<le> 2 then SLEEPING else RUNNABLE)"
    using inv i by (auto simp: race_inv_def)
  note fields = nth_list_update on_cpu_simps locks_ok_upd_proc lock_owner_on_cpu upd_proc_base
  consider "m = 0" | "m = 1" | "m = 2" | "m = 3" | "m = 4" | "m = 5" | "m = 6" using m by linarith
  then show ?thesis
  proof cases
    case 1
    then have n: "n = 0" and own: "lock_owner s PTABLE = None"
      using ok(4,7) lk by (auto simp: race_ok_def race_owner_def)
    note T = race_taken [OF ok(1,2) own]
    have "acquire PTABLE (on_cpu i s) = Inr (taken i PTABLE (on_cpu i s))"
      using locked_by(1) [OF ok(1,2), of PTABLE] own by simp
    moreover have "race_inv N i j p ch lk w 1 n (taken i PTABLE (on_cpu i s))"
      using T ok n 1 lk by (simp add: race_inv_def race_ok_def race_owner_def fun_eq_iff)
    ultimately show ?thesis using 1 lk by (simp add: sleeper_eq)
  next
    case 2
    then have n: "n = 0" and own: "lock_owner s lk = Some i"
      using ok(4,7) lk by (auto simp: race_ok_def race_owner_def)
    note T = race_dropped [OF ok(1,2) own]
    have "race_inv N i j p ch lk w 2 n (dropped i lk (on_cpu i s))"
      using T ok n 2 lk by (simp add: race_inv_def race_ok_def race_owner_def fun_eq_iff)
    then show ?thesis
      using 2 lk locked_by(2) [OF ok(1,2) own] by (simp add: sleeper_eq numeral_2_eq_2)
  next
    case 3
    then have n: "n \<le> 1" using ok(7) by (auto simp: race_ok_def)
    have "race_inv N i j p ch lk w 3 n (upd_proc p (\<lambda>x. x\<lparr>p_chan := Some ch\<rparr>) (on_cpu i s))"
      using ok n 3 by (simp add: race_inv_def race_ok_def race_owner_def fields)
        (simp add: upd_proc_def on_cpu_def)
    then show ?thesis using 3 lk by (simp add: sleeper_eq)
  next
    case 4
    then have n: "n \<le> 1" using ok(7) by (auto simp: race_ok_def)
    have "race_inv N i j p ch lk w 4 n (upd_proc p (\<lambda>x. x\<lparr>p_state := SLEEPING\<rparr>) (on_cpu i s))"
      using ok n 4 by (simp add: race_inv_def race_ok_def race_owner_def fields)
        (simp add: upd_proc_def on_cpu_def)
    then show ?thesis using 4 lk by (simp add: sleeper_eq)
  next
    case 5
    then have n: "n \<le> 1" using ok(7) by (auto simp: race_ok_def)
    have "race_inv N i j p ch lk w 5 n (upd_proc p (\<lambda>x. x\<lparr>p_toe := sint (ps_ticks (on_cpu i s))\<rparr>) (on_cpu i s))"
      using ok n 5 by (simp add: race_inv_def race_ok_def race_owner_def fields)
        (simp add: upd_proc_def on_cpu_def)
    then show ?thesis using 5 lk by (simp add: sleeper_eq)
  next
    case 6
    then have n: "n \<le> 1" using ok(7) by (auto simp: race_ok_def)
    obtain b where "sched_off (on_cpu i s) = Inr (b, on_cpu i s)"
      using race_sched [OF inv [unfolded 6] i lk w(1)] by blast
    moreover have "race_inv N i j p ch lk w 6 n (on_cpu i s)"
      using ok n 6 by (simp add: race_inv_def race_ok_def race_owner_def fields)
    ultimately show ?thesis using 6 lk by (simp add: sleeper_eq)
  next
    case 7
    then have n: "n \<le> 1" and own: "lock_owner s PTABLE = Some i"
      using ok(4,7) lk by (auto simp: race_ok_def race_owner_def)
    note T = race_dropped [OF ok(1,2) own]
    have "race_inv N i j p ch lk w 7 n (dropped i PTABLE (on_cpu i s))"
      using T ok n 7 lk by (simp add: race_inv_def race_ok_def race_owner_def fun_eq_iff)
    then show ?thesis
      using 7 lk locked_by(2) [OF ok(1,2) own] by (simp add: sleeper_eq)
  qed
qed

lemma waker_eq: "waker ch lk = [acquire lk, acquire PTABLE, \<lambda>s. Inr (wakeup1 ch s), release PTABLE, release lk]"
  by (simp add: waker_def wakeup_steps_def)

lemma waker_step:
  assumes inv: "race_inv N i j p ch lk w m n s" and i: "j < N" "j \<noteq> i" and lk: "lk \<noteq> PTABLE"
    and w: "w lk = None" "w PTABLE = None" and n: "n < 5"
  shows "m < 7 \<and> (\<exists>l. (waker ch lk ! n) (on_cpu j s) = Inl (Spin l))
    \<or> (\<exists>t. (waker ch lk ! n) (on_cpu j s) = Inr t \<and> race_inv N i j p ch lk w m (Suc n) t)"
proof -
  have ok: "locks_ok s" "j < length (k_cpus s)" "length (k_cpus s) = N"
    "lock_owner s = race_owner i j lk m n w" "c_proc (k_cpus s ! i) = Some p" "p < length (ps_proc s)"
    "race_ok m n" "3 \<le> m \<Longrightarrow> p_chan (ps_proc s ! p) = Some ch"
    "4 \<le> m \<Longrightarrow> p_state (ps_proc s ! p) = (if n \<le> 2 then SLEEPING else RUNNABLE)"
    using inv i by (auto simp: race_inv_def)
  consider "n = 0" "m \<le> 1" | "n = 0" "2 \<le> m" | "n = 1" "m < 7" | "n = 1" "m = 7" | "n = 2" | "n = 3" | "n = 4"
    using n ok(7) by (fastforce simp: race_ok_def)
  then show ?thesis
  proof cases
    case 1
    then have "lock_owner s lk = Some i" using ok(4) lk by (simp add: race_owner_def)
    then show ?thesis using 1 i locked_by(1) [OF ok(1,2), of lk] by (simp add: waker_eq)
  next
    case 2
    then have own: "lock_owner s lk = None" using ok(4) lk by (simp add: race_owner_def)
    note T = race_taken [OF ok(1,2) own]
    have "race_inv N i j p ch lk w m 1 (taken j lk (on_cpu j s))"
      using T ok 2 lk by (auto simp: race_inv_def race_ok_def race_owner_def fun_eq_iff)
    then show ?thesis using 2 own locked_by(1) [OF ok(1,2), of lk] by (simp add: waker_eq)
  next
    case 3
    then have "lock_owner s PTABLE = Some i" using ok(4,7) lk by (simp add: race_owner_def race_ok_def)
    then show ?thesis using 3 i locked_by(1) [OF ok(1,2), of PTABLE] by (simp add: waker_eq)
  next
    case 4
    then have own: "lock_owner s PTABLE = None" using ok(4) lk by (simp add: race_owner_def)
    note T = race_taken [OF ok(1,2) own]
    have "race_inv N i j p ch lk w m 2 (taken j PTABLE (on_cpu j s))"
      using T ok 4 lk by (auto simp: race_inv_def race_ok_def race_owner_def fun_eq_iff)
    then show ?thesis
      using 4 own locked_by(1) [OF ok(1,2), of PTABLE] by (simp add: waker_eq numeral_2_eq_2)
  next
    case 5
    then have m: "m = 7" using ok(7) by (simp add: race_ok_def)
    have "p_chan (ps_proc s ! p) = Some ch" "p_state (ps_proc s ! p) = SLEEPING"
      using ok(8,9) m 5 by auto
    then have "ps_proc (wakeup1 ch (on_cpu j s)) ! p = (ps_proc s ! p)
        \<lparr>p_toe := sint (ps_ticks (on_cpu j s)), p_state := RUNNABLE\<rparr>"
      using wakeup1_nth [of p "on_cpu j s" ch] ok(6) by (simp add: Let_def locks_ok_upd_proc)
    moreover have "length (ps_proc (wakeup1 ch (on_cpu j s))) = length (ps_proc s)"
      by (simp add: wakeup1_def on_cpu_def)
    ultimately have "race_inv N i j p ch lk w m 3 (wakeup1 ch (on_cpu j s))"
      using ok m 5
      by (simp add: race_inv_def race_ok_def race_owner_def locks_ok_upd_proc)
    then show ?thesis using 5 by (simp add: waker_eq)
  next
    case 6
    then have m: "m = 7" using ok(7) by (simp add: race_ok_def)
    have own: "lock_owner s PTABLE = Some j" using ok(4) 6 m lk by (simp add: race_owner_def)
    note T = race_dropped [OF ok(1,2) own]
    have "race_inv N i j p ch lk w m 4 (dropped j PTABLE (on_cpu j s))"
      using T ok m 6 lk by (simp add: race_inv_def race_ok_def race_owner_def fun_eq_iff)
    then show ?thesis
      using 6 lk locked_by(2) [OF ok(1,2) own] by (simp add: waker_eq)
  next
    case 7
    then have m: "m = 7" using ok(7) by (simp add: race_ok_def)
    have own: "lock_owner s lk = Some j" using ok(4) 7 m lk by (simp add: race_owner_def)
    note T = race_dropped [OF ok(1,2) own]
    have "race_inv N i j p ch lk w m 5 (dropped j lk (on_cpu j s))"
      using T ok m 7 lk w by (auto simp: race_inv_def race_ok_def race_owner_def fun_eq_iff)
    then show ?thesis
      using 7 lk locked_by(2) [OF ok(1,2) own] by (simp add: waker_eq)
  qed
qed

lemma race_length: "lk \<noteq> PTABLE \<Longrightarrow> length (sleeper p ch lk) = 7" "length (waker ch lk) = 5"
  by (simp_all add: sleeper_eq waker_eq)

lemma race_progress:
  assumes inv: "race_inv N i j p ch lk w m n s"
    and i: "i < N" "j < N" "j \<noteq> i" and lk: "lk \<noteq> PTABLE"
    and w: "\<And>l. w l \<noteq> Some i" "w lk = None" "w PTABLE = None"
  shows "drop m (sleeper p ch lk) = ([] :: 'a steps) \<and> drop n (waker ch lk) = ([] :: 'a steps)
    \<or> (\<exists>t :: 'a pst_scheme. cpu_turn i (drop m (sleeper p ch lk)) s = Inr (drop (Suc m) (sleeper p ch lk), t) \<and> m < 7)
    \<or> (\<exists>t. cpu_turn j (drop n (waker ch lk)) s = Inr (drop (Suc n) (waker ch lk), t) \<and> n < 5)"
proof (cases "m < 7")
  case True
  obtain t where "(sleeper p ch lk ! m) (on_cpu i s) = Inr t"
    using sleeper_step [OF inv i(1,3) lk w True] by blast
  then show ?thesis
    using True by (simp add: Cons_nth_drop_Suc [symmetric] race_length lk)
next
  case m: False
  show ?thesis
  proof (cases "n < 5")
    case True
    then show ?thesis
      using m waker_step [OF inv i(2,3) lk w(2,3) True]
      by (auto simp add: Cons_nth_drop_Suc [symmetric] race_length lk)
  next
    case False
    then show ?thesis using m by (simp add: race_length lk)
  qed
qed

lemma race_run:
  assumes i: "i < N" "j < N" "j \<noteq> i" and lk: "lk \<noteq> PTABLE"
    and w: "\<And>l. w l \<noteq> Some i" "w lk = None" "w PTABLE = None"
  shows "race_inv N i j p ch lk w m n s \<Longrightarrow>
    \<exists>m' n' t. interleave i j sched (drop m (sleeper p ch lk)) (drop n (waker ch lk)) s
        = Inr (drop m' (sleeper p ch lk), drop n' (waker ch lk), t)
      \<and> race_inv N i j p ch lk w m' n' t"
proof (induction sched arbitrary: m n s)
  case Nil
  then show ?case by auto
next
  case (Cons x sched)
  note len = race_length(1) [OF lk] race_length(2)
  have mn: "m \<le> 7" "n \<le> 5" using Cons.prems by (auto simp: race_inv_def race_ok_def)
  have "\<exists>m' n' t. race_inv N i j p ch lk w m' n' t
    \<and> interleave i j (x # sched) (drop m (sleeper p ch lk)) (drop n (waker ch lk)) s
      = interleave i j sched (drop m' (sleeper p ch lk)) (drop n' (waker ch lk)) t"
  proof (cases x)
    case True
    show ?thesis
    proof (cases "m < 7")
      case m: True
      obtain t where "(sleeper p ch lk ! m) (on_cpu i s) = Inr t" "race_inv N i j p ch lk w (Suc m) n t"
        using sleeper_step [OF Cons.prems i(1,3) lk w m] by blast
      then show ?thesis
        using m True by (intro exI [of _ "Suc m"] exI [of _ n] exI [of _ t])
          (simp add: Cons_nth_drop_Suc [symmetric] len)
    next
      case False
      then show ?thesis using True Cons.prems
        by (intro exI [of _ m] exI [of _ n] exI [of _ s]) (simp add: len)
    qed
  next
    case False
    show ?thesis
    proof (cases "n < 5")
      case n: True
      have e: "drop n (waker ch lk) = (waker ch lk ! n) # drop (Suc n) (waker ch lk)"
        using n by (simp add: Cons_nth_drop_Suc len)
      from waker_step [OF Cons.prems i(2,3) lk w(2,3) n] show ?thesis
      proof (elim disjE exE conjE)
        fix l assume "(waker ch lk ! n) (on_cpu j s) = Inl (Spin l)"
        then show ?thesis using False Cons.prems
          by (intro exI [of _ m] exI [of _ n] exI [of _ s]) (simp add: e)
      next
        fix t assume "(waker ch lk ! n) (on_cpu j s) = Inr t" "race_inv N i j p ch lk w m (Suc n) t"
        then show ?thesis using False
          by (intro exI [of _ m] exI [of _ "Suc n"] exI [of _ t]) (simp add: e)
      qed
    next
      case n: False
      then show ?thesis using False Cons.prems
        by (intro exI [of _ m] exI [of _ n] exI [of _ s]) (simp add: len)
    qed
  qed
  then show ?case using Cons.IH by (elim exE conjE) simp
qed

text \<open>
  C18. No wakeup is lost: a process that holds \<open>lk\<close> calls \<open>sleep\<close> on one processor while another
  processor takes \<open>lk\<close>, calls \<open>wakeup\<close> on the same channel and releases \<open>lk\<close>. However their steps
  interleave (every \<open>acquire\<close>, \<open>release\<close> and assignment of \<open>sleep\<close>, and every call of \<open>wakeup\<close>, is a
  step), the kernel does not panic; until both are done one of the two can take its next step;
  and when both are done the process is runnable.
\<close>

theorem sleep_wakeup_not_lost:
  assumes ok: "locks_ok s" and i: "i < length (k_cpus s)" "j < length (k_cpus s)" "j \<noteq> i"
    and free: "held_by s i = {}" "lock_owner s PTABLE = None" and lk: "lk \<noteq> PTABLE"
    and p: "c_proc (k_cpus s ! i) = Some p" "p < length (ps_proc s)"
    and start: "acquire lk (on_cpu i s) = Inr s1"
  shows "\<exists>a b t. interleave i j sched (sleeper p ch lk) (waker ch lk) s1 = Inr (a, b, t)
    \<and> (a = [] \<and> b = [] \<and> p_state (ps_proc t ! p) = RUNNABLE
       \<or> (\<exists>a' t'. cpu_turn i a t = Inr (a', t') \<and> length a' < length a)
       \<or> (\<exists>b' t'. cpu_turn j b t = Inr (b', t') \<and> length b' < length b))"
proof -
  let ?w = "lock_owner s"
  note s1 = acquire_on_cpuE [OF ok i(1) start]
  have own: "lock_owner s lk = None" using s1(2) by (simp add: lock_owner_def)
  have w: "\<And>l. ?w l \<noteq> Some i" using free(1) by (auto simp: held_by_def)
  note T = race_taken [OF ok i(1) own, folded s1(1)]
  have "race_inv (length (k_cpus s)) i j p ch lk ?w 0 0 s1"
    using T p free(2) lk by (auto simp add: race_inv_def race_ok_def race_owner_def fun_eq_iff)
  then obtain m n t where run: "interleave i j sched (sleeper p ch lk) (waker ch lk) s1
        = Inr (drop m (sleeper p ch lk), drop n (waker ch lk), t)"
      and inv: "race_inv (length (k_cpus s)) i j p ch lk ?w m n t"
    using race_run [OF i lk w own free(2), of p ch 0 0 s1 sched] by auto
  have mn: "m \<le> 7" "n \<le> 5" using inv by (auto simp: race_inv_def race_ok_def)
  have "p_state (ps_proc t ! p) = RUNNABLE" if "7 \<le> m" "5 \<le> n"
    using inv that by (simp add: race_inv_def)
  then show ?thesis
    using run race_progress [OF inv i lk w own free(2)] mn
    by (auto simp: race_length lk)
qed

theorem sleep_wakeup_not_lost_witness:
  "\<exists>a b t. interleave 0 1 [False, True, True, False, True, True, True, True, False, True, False, False, False, False]
      (sleeper 0 ChTicks TICKSLOCK) (waker ChTicks TICKSLOCK) (taken 0 TICKSLOCK boot_state) = Inr (a, b, t)
    \<and> (a = [] \<and> b = [] \<and> p_state (ps_proc t ! 0) = RUNNABLE
       \<or> (\<exists>a' t'. cpu_turn 0 a t = Inr (a', t') \<and> length a' < length a)
       \<or> (\<exists>b' t'. cpu_turn 1 b t = Inr (b', t') \<and> length b' < length b))"
proof (rule sleep_wakeup_not_lost [where s = boot_state])
  have "lock_owner boot_state = (\<lambda>_. None)" by (simp add: boot_state_def lock_owner_def fun_eq_iff)
  then show "locks_ok boot_state" "held_by boot_state 0 = {}" "lock_owner boot_state PTABLE = None"
    by (simp_all add: locks_ok_def held_by_def)
      (auto simp: boot_state_def nth_Cons' split: if_splits)
  have "on_cpu 0 boot_state = boot_state" by (simp add: boot_state_def on_cpu_def)
  then show "acquire TICKSLOCK (on_cpu 0 boot_state) = Inr (taken 0 TICKSLOCK boot_state)"
    using acquire_ready [OF calm_ready [OF boot_state_calm]] by simp
qed (simp_all add: boot_state_def)

text \<open>
  \<open>kill(0)\<close> succeeds whenever a slot has never been used, since unused slots have process id 0:
  it marks the unused slot as killed, \<open>allocproc\<close> does not clear the mark, and the next process
  created in that slot is born killed.
\<close>

theorem kill_zero_poisons_next_process:
  assumes "calm s i" and "kmem_ok s (q # qs)"
    and "first_index (\<lambda>p. p_state p = UNUSED) (ps_proc s) = Some k"
    and "first_index (\<lambda>p. p_pid p = 0) (ps_proc s) = Some k"
  shows "\<exists>t u. kill 0 s = Inr (0, t) \<and> allocproc t = Inr (Some k, u)
    \<and> p_state (ps_proc u ! k) = EMBRYO \<and> p_killed (ps_proc u ! k) = 1"
proof -
  note k = first_index_SomeD [OF assms(3)]
  let ?t = "upd_proc k (\<lambda>p. p\<lparr>p_killed := 1,
        p_state := (if p_state p = SLEEPING then RUNNABLE else p_state p)\<rparr>) (probed i s)"
  have kl: "kill 0 s = Inr (0, ?t)" by (simp add: kill_eq [OF calm_ready [OF assms(1)]] assms(4))
  have slot: "first_index (\<lambda>p. p_state p = UNUSED) (ps_proc ?t) = Some k"
    using k by (auto simp: first_index_Some_iff upd_proc_def)
  have "kmem_ok ?t (q # qs)" using assms(2) by (simp add: kmem_ok_def)
  moreover have "calm ?t i" using assms(1) by simp
  ultimately obtain u where
    "allocproc ?t = Inr (Some k, u)"
    "ps_proc u = (ps_proc ?t)[k := embryo (ps_nextpid s) q (sint (ps_ticks s)) (ps_proc ?t ! k)]"
    using allocproc_succeeds [of ?t i k q qs] slot by auto
  then show ?thesis using kl k by (auto simp: embryo_def upd_proc_def)
qed

theorem kill_zero_poisons_next_process_witness:
  "\<exists>t u. kill 0 boot_state = Inr (0, t) \<and> allocproc t = Inr (Some 1, u)
    \<and> p_state (ps_proc u ! 1) = EMBRYO \<and> p_killed (ps_proc u ! 1) = 1"
  using kill_zero_poisons_next_process [OF boot_state_calm boot_state_kmem boot_state_slots] .

end
