(* ===== verification/SleepLock.thy ===== *)
theory SleepLock
  imports Proc
begin

text \<open>
  Long-term locks, \<^verbatim>\<open>sleeplock.c\<close>. A thread that finds the lock taken leaves the processor;
  \<open>acquiresleep_start\<close> and \<open>acquiresleep_resume\<close> are the parts of \<open>acquiresleep\<close> between such
  switches. The file system calls \<open>acquiresleep\<close> itself, for which a lock that is taken is the
  outcome \<open>Sleeps\<close>.
\<close>

record sleeplock =
  sl_locked :: uint
  sl_name :: string
  sl_pid :: int

record slst = pst +
  sl_tab :: "sleeplockid \<Rightarrow> sleeplock"

definition upd_sleep :: "sleeplockid \<Rightarrow> (sleeplock \<Rightarrow> sleeplock) \<Rightarrow> 'a slst_scheme \<Rightarrow> 'a slst_scheme" where
  "upd_sleep lk f s = s\<lparr>sl_tab := (sl_tab s)(lk := f (sl_tab s lk))\<rparr>"

definition initsleeplock :: "sleeplockid \<Rightarrow> string \<Rightarrow> 'a slst_scheme \<Rightarrow> 'a slst_scheme" where
  "initsleeplock lk name s =
     upd_sleep lk (\<lambda>l. l\<lparr>sl_name := name, sl_locked := 0, sl_pid := 0\<rparr>)
       (initlock (SLEEPLK lk) ''sleep lock'' s)"

definition acquiresleep_iter :: "sleeplockid \<Rightarrow> 'a slst_scheme \<Rightarrow> failure + unit ctl \<times> 'a slst_scheme" where
  "acquiresleep_iter lk s =
     (if sl_locked (sl_tab s lk) \<noteq> 0
      then andThen (sleep_off (ChSleeplock lk) (Some (SLEEPLK lk)) s) (\<lambda>(intena, s). Inr (Off intena, s))
      else let s = upd_sleep lk (\<lambda>l. l\<lparr>sl_locked := 1\<rparr>) s
           in andThen (myproc s) (\<lambda>(q, s). deref q (\<lambda>p.
              let s = upd_sleep lk (\<lambda>l. l\<lparr>sl_pid := p_pid (ps_proc s ! p)\<rparr>) s
              in andThen (release (SLEEPLK lk) s) (\<lambda>s. Inr (Ret (), s)))))"

definition acquiresleep_start :: "sleeplockid \<Rightarrow> 'a slst_scheme \<Rightarrow> failure + unit ctl \<times> 'a slst_scheme" where
  "acquiresleep_start lk s = andThen (acquire (SLEEPLK lk) s) (acquiresleep_iter lk)"

definition acquiresleep_resume :: "nat \<Rightarrow> sleeplockid \<Rightarrow> bool \<Rightarrow> 'a slst_scheme \<Rightarrow> failure + unit ctl \<times> 'a slst_scheme" where
  "acquiresleep_resume p lk intena s =
     andThen (sleep_on p (SLEEPLK lk) intena s) (acquiresleep_iter lk)"

definition acquiresleep :: "sleeplockid \<Rightarrow> 'a slst_scheme \<Rightarrow> failure + 'a slst_scheme" where
  "acquiresleep lk s = andThen (acquiresleep_start lk s) (\<lambda>(r, s).
     case r of Ret _ \<Rightarrow> Inr s | Off _ \<Rightarrow> Inl (Sleeps (ChSleeplock lk)))"

definition releasesleep :: "sleeplockid \<Rightarrow> 'a slst_scheme \<Rightarrow> failure + 'a slst_scheme" where
  "releasesleep lk s =
     andThen (acquire (SLEEPLK lk) s) (\<lambda>s.
     let s = upd_sleep lk (\<lambda>l. l\<lparr>sl_locked := 0, sl_pid := 0\<rparr>) s
     in andThen (wakeup (ChSleeplock lk) s) (release (SLEEPLK lk)))"

definition holdingsleep :: "sleeplockid \<Rightarrow> 'a slst_scheme \<Rightarrow> failure + bool \<times> 'a slst_scheme" where
  "holdingsleep lk s =
     andThen (acquire (SLEEPLK lk) s) (\<lambda>s.
     andThen (if sl_locked (sl_tab s lk) = 0 then Inr (False, s)
              else andThen (myproc s) (\<lambda>(q, s). deref q (\<lambda>p.
                     Inr (sl_pid (sl_tab s lk) = p_pid (ps_proc s ! p), s)))) (\<lambda>(r, s).
     andThen (release (SLEEPLK lk) s) (\<lambda>s. Inr (r, s))))"

section \<open>Effect of the operations\<close>

lemma sl_tab_base [simp]:
  "sl_tab (taken i l s) = sl_tab s" "sl_tab (probed i s) = sl_tab s" "sl_tab (left_crit i t s) = sl_tab s"
  "sl_tab (wakeup1 ch s) = sl_tab s"
  by (simp_all add: taken_def upd_lock_def pushed_def probed_def left_crit_def wakeup1_def)

lemma in_crit_upd_sleep [simp]: "in_crit (upd_sleep lk f t) s i l = in_crit t s i l"
  by (simp add: in_crit_def upd_sleep_def)

lemma in_crit_wakeup1 [simp]: "in_crit (wakeup1 ch t) s i l = in_crit t s i l"
  by (simp add: in_crit_def wakeup1_def)

lemma ready_nested:
  assumes "calm s i" and "l \<noteq> l'" and "in_crit t s i l"
  shows "ready t i l'"
  using in_crit_facts [OF calm_ready [OF assms(1)] assms(3)] assms
  by (simp add: ready_def idle_lock_def in_crit_def taken_def upd_lock_def calm_def)

text \<open>The current process is \<open>p\<close>, and the processor is ready for a system call.\<close>

definition at_proc :: "'a pst_scheme \<Rightarrow> nat \<Rightarrow> nat \<Rightarrow> bool" where
  "at_proc s i p \<longleftrightarrow> calm s i \<and> c_proc (k_cpus s ! i) = Some p \<and> p < length (ps_proc s)"

lemma left_crit_upd_sleep: "left_crit i s (upd_sleep lk f t) = upd_sleep lk f (left_crit i s t)"
  by (simp add: left_crit_def upd_sleep_def)

lemma left_crit_wakeup1: "left_crit i s (wakeup1 ch t) = wakeup1 ch (left_crit i s t)"
  by (simp add: left_crit_def wakeup1_def)

lemma left_crit_taken: "left_crit i s (taken i l s) = probed i s"
  by (simp add: left_crit_def taken_def upd_lock_def pushed_def probed_def)

lemma acquiresleep_start_eq:
  assumes "at_proc s i p" and free: "sl_locked (sl_tab s lk) = 0"
  shows "acquiresleep_start lk s = Inr (Ret (),
    upd_sleep lk (\<lambda>l. l\<lparr>sl_locked := 1, sl_pid := p_pid (ps_proc s ! p)\<rparr>) (probed i s))"
proof -
  have r: "ready s i (SLEEPLK lk)" using assms by (auto simp: at_proc_def calm_ready)
  let ?t = "upd_sleep lk (\<lambda>l. l\<lparr>sl_locked := 1\<rparr>) (taken i (SLEEPLK lk) s)"
  have "myproc ?t = Inr (Some p, ?t)"
    using myproc_in_crit [OF r, of ?t] assms by (simp add: at_proc_def)
  moreover have "release (SLEEPLK lk) (upd_sleep lk f ?t) = Inr (upd_sleep lk f (upd_sleep lk (\<lambda>l. l\<lparr>sl_locked := 1\<rparr>) (probed i s)))" for f
    using release_in_crit [OF r, of "upd_sleep lk f ?t"] by (simp add: left_crit_upd_sleep left_crit_taken)
  moreover have "ps_proc ?t = ps_proc s" by (simp add: upd_sleep_def)
  ultimately show ?thesis
    using free
    by (simp add: acquiresleep_start_def acquire_ready [OF r] acquiresleep_iter_def
        deref_def Let_def) (simp add: upd_sleep_def)
qed

lemma acquiresleep_eq:
  assumes "at_proc s i p" and free: "sl_locked (sl_tab s lk) = 0"
  shows "acquiresleep lk s =
    Inr (upd_sleep lk (\<lambda>l. l\<lparr>sl_locked := 1, sl_pid := p_pid (ps_proc s ! p)\<rparr>) (probed i s))"
  by (simp add: acquiresleep_def acquiresleep_start_eq [OF assms])

lemma acquiresleep_start_taken:
  assumes "at_proc s i p" and "c_ncli (k_cpus s ! i) = 0" and "sl_locked (sl_tab s lk) \<noteq> 0"
  defines "t \<equiv> asleep p (ChSleeplock lk) (dropped i (SLEEPLK lk) (taken i PTABLE (taken i (SLEEPLK lk) s)))"
  shows "\<exists>b. acquiresleep_start lk s = Inr (Off b, t)"
proof -
  have c: "calm s i" "c_proc (k_cpus s ! i) = Some p" "p < length (ps_proc s)"
    using assms(1) by (auto simp: at_proc_def)
  obtain b where "sleep_off (ChSleeplock lk) (Some (SLEEPLK lk)) (taken i (SLEEPLK lk) s) = Inr (b, t)"
    using sleep_off_eq(1) [OF c(1) assms(2) c(2) _ c(3), of "SLEEPLK lk" "ChSleeplock lk"]
    by (auto simp: t_def)
  then show ?thesis
    using assms(3) acquire_ready [OF calm_ready [OF c(1)]]
    by (simp add: acquiresleep_start_def acquiresleep_iter_def)
qed

lemma acquiresleep_taken:
  assumes "at_proc s i p" and "c_ncli (k_cpus s ! i) = 0" and "sl_locked (sl_tab s lk) \<noteq> 0"
  shows "acquiresleep lk s = Inl (Sleeps (ChSleeplock lk))"
  using acquiresleep_start_taken [OF assms] by (auto simp: acquiresleep_def)

lemma releasesleep_eq:
  assumes "calm s i"
  shows "releasesleep lk s = Inr (wakeup1 (ChSleeplock lk)
     (upd_sleep lk (\<lambda>l. l\<lparr>sl_locked := 0, sl_pid := 0\<rparr>) (probed i s)))"
proof -
  have r: "ready s i (SLEEPLK lk)" using assms by (rule calm_ready)
  let ?t = "upd_sleep lk (\<lambda>l. l\<lparr>sl_locked := 0, sl_pid := 0\<rparr>) (taken i (SLEEPLK lk) s)"
  have crit: "in_crit ?t s i (SLEEPLK lk)" by simp
  have "wakeup (ChSleeplock lk) ?t = Inr (wakeup1 (ChSleeplock lk) (probed i ?t))"
    using ready_nested [OF assms _ crit] by (intro wakeup_eq) simp
  moreover have "probed i ?t = ?t"
    using in_crit_facts(4) [OF r crit] by (rule probed_nested)
  moreover have "release (SLEEPLK lk) (wakeup1 (ChSleeplock lk) ?t)
      = Inr (left_crit i s (wakeup1 (ChSleeplock lk) ?t))"
    by (rule release_in_crit [OF r]) simp
  ultimately show ?thesis
    by (simp add: releasesleep_def acquire_ready [OF r] Let_def left_crit_wakeup1 left_crit_upd_sleep
        left_crit_taken)
qed

lemma holdingsleep_eq:
  assumes "at_proc s i p"
  shows "holdingsleep lk s = Inr (sl_locked (sl_tab s lk) \<noteq> 0 \<and> sl_pid (sl_tab s lk) = p_pid (ps_proc s ! p),
     probed i s)"
proof -
  have r: "ready s i (SLEEPLK lk)" using assms by (auto simp: at_proc_def calm_ready)
  have "myproc (taken i (SLEEPLK lk) s) = Inr (Some p, taken i (SLEEPLK lk) s)"
    using myproc_in_crit [OF r, of "taken i (SLEEPLK lk) s"] assms by (simp add: at_proc_def)
  moreover have "release (SLEEPLK lk) (taken i (SLEEPLK lk) s) = Inr (probed i s)"
    using release_in_crit [OF r in_crit_taken] by (simp add: left_crit_taken)
  ultimately show ?thesis
    by (auto simp: holdingsleep_def acquire_ready [OF r] deref_def)
qed

section \<open>Nested critical sections\<close>

text \<open>
  What the kernel does while it holds one more lock than in \<open>s\<close>: the state is \<open>taken i l s\<close>, and
  operations on other parts of the state act on \<open>s\<close> under it.
\<close>

lemma release_taken: "calm s i \<Longrightarrow> release l (taken i l s) = Inr (probed i s)"
  using release_in_crit [OF calm_ready in_crit_taken, of s i l] by (simp add: left_crit_taken)

lemma acquire_calm: "calm s i \<Longrightarrow> acquire l s = Inr (taken i l s)"
  by (rule acquire_ready [OF calm_ready])

lemma myproc_taken: "calm s i \<Longrightarrow> myproc (taken i l s) = Inr (c_proc (k_cpus s ! i), taken i l s)"
  by (rule myproc_in_crit [OF calm_ready in_crit_taken])

lemma calm_wakeup1 [simp]: "calm (wakeup1 ch s) i = calm s i"
  by (rule calm_cong) (simp_all add: wakeup1_def)

lemma wakeup_taken:
  assumes "calm s i" and "l \<noteq> PTABLE"
  shows "wakeup ch (taken i l s) = Inr (taken i l (wakeup1 ch s))"
proof -
  note r = ready_nested [OF assms in_crit_taken]
  have "probed i (taken i l s) = taken i l s"
    using in_crit_facts(4) [OF calm_ready [OF assms(1)] in_crit_taken] by (rule probed_nested)
  then show ?thesis
    using wakeup_eq [OF r, of ch]
    by (simp add: wakeup1_def taken_def upd_lock_def pushed_def)
qed

text \<open>A thread that went to sleep under \<open>l\<close>, once the scheduler has unlocked the process table.\<close>

lemma calm_asleep:
  fixes ch :: channel
  assumes c: "calm s i" and n: "c_ncli (k_cpus s ! i) = 0" and p: "c_proc (k_cpus s ! i) = Some p"
    and l: "l \<noteq> PTABLE" and len: "p < length (ps_proc s)"
  defines "t \<equiv> asleep p ch (dropped i l (taken i PTABLE (taken i l s)))"
  shows "\<exists>u. release PTABLE t = Inr u \<and> calm u i \<and> c_ncli (k_cpus u ! i) = 0
    \<and> c_proc (k_cpus u ! i) = Some p \<and> length (ps_proc u) = length (ps_proc s)
    \<and> u = dropped i PTABLE t"
proof -
  note S = sleep_off_eq [OF c n p l len, of ch, folded t_def]
  let ?u = "dropped i PTABLE t"
  have "release PTABLE t = Inr ?u" using release_eq [OF S(2,3)] S(4,5) by simp
  moreover have h: "here ?u i" using S(2) by simp
  have i: "i < length (k_cpus s)" "i < length (k_cpus t)" using c S(2) by (auto simp: calm_def here_less)
  have ncli: "c_ncli (k_cpus ?u ! i) = 0" using S(4) i by (simp add: dropped_def popped_def upd_lock_def)
  have proc: "c_proc (k_cpus ?u ! i) = Some p"
    using p i unfolding t_def
    by (simp add: dropped_def popped_def upd_lock_def asleep_def taken_def pushed_def)
  have "idle_lock ?u lk" for lk
    using c l unfolding t_def
    by (simp add: dropped_def popped_def upd_lock_def asleep_def taken_def pushed_def calm_def idle_lock_def)
  then have "calm ?u i" using h ncli by (simp add: calm_def cli_ok_def)
  moreover have "length (ps_proc ?u) = length (ps_proc s)"
    by (simp add: t_def dropped_def popped_def upd_lock_def asleep_def)
  ultimately show ?thesis using ncli proc by blast
qed

section \<open>Mutual exclusion\<close>

text \<open>
  The users of sleep locks check \<open>holdingsleep\<close> before they release (\<open>brelse\<close>, \<open>iunlock\<close>). The
  agents are the live processes, named by their process ids; \<open>on_pid i pid\<close> makes process \<open>pid\<close> the
  current process of processor \<open>i\<close>.
\<close>

definition checked_releasesleep :: "sleeplockid \<Rightarrow> 'a slst_scheme \<Rightarrow> failure + 'a slst_scheme" where
  "checked_releasesleep lk s = andThen (holdingsleep lk s) (\<lambda>(h, s).
     if h then releasesleep lk s else Inl (Panic ''releasesleep''))"

definition slot_of :: "int \<Rightarrow> 'a pst_scheme \<Rightarrow> nat option" where
  "slot_of pid s = first_index (\<lambda>p. p_state p \<noteq> UNUSED \<and> p_pid p = pid) (ps_proc s)"

definition on_pid :: "nat \<Rightarrow> int \<Rightarrow> 'a pst_scheme \<Rightarrow> 'a pst_scheme" where
  "on_pid i pid s = upd_cpu i (\<lambda>c. c\<lparr>c_proc := slot_of pid s\<rparr>) s"

definition sleep_owner :: "'a slst_scheme \<Rightarrow> sleeplockid \<Rightarrow> int option" where
  "sleep_owner s lk = (if sl_locked (sl_tab s lk) \<noteq> 0 then Some (sl_pid (sl_tab s lk)) else None)"

definition live_pids :: "'a pst_scheme \<Rightarrow> int set" where
  "live_pids s = set (map p_pid (filter (\<lambda>p. p_state p \<noteq> UNUSED) (ps_proc s)))"

definition sleep_inv :: "nat \<Rightarrow> 'a slst_scheme \<Rightarrow> bool" where
  "sleep_inv i s \<longleftrightarrow> calm s i \<and> c_ncli (k_cpus s ! i) = 0"

lemma at_proc_on_pid:
  assumes "sleep_inv i s" and "pid \<in> live_pids s"
  obtains p where "at_proc (on_pid i pid s) i p" "p_pid (ps_proc s ! p) = pid"
    "c_ncli (k_cpus (on_pid i pid s) ! i) = 0" "sl_tab (on_pid i pid s) = sl_tab s"
    "ps_proc (on_pid i pid s) = ps_proc s"
proof -
  have i: "i < length (k_cpus s)" using assms(1) by (auto simp: sleep_inv_def calm_def here_less)
  obtain p where p: "slot_of pid s = Some p"
    using assms(2) unfolding slot_of_def live_pids_def
    by (cases "first_index (\<lambda>p. p_state p \<noteq> UNUSED \<and> p_pid p = pid) (ps_proc s)")
      (auto simp: first_index_None_iff)
  have "calm (on_pid i pid s) i"
    using assms(1) i
    by (simp add: sleep_inv_def calm_def here_def cli_ok_def idle_lock_def on_pid_def upd_cpu_def
        first_index_apicid_update)
  then show ?thesis
    using that [of p] p assms(1) i first_index_SomeD [of _ "ps_proc s" p]
    by (auto simp: at_proc_def slot_of_def on_pid_def upd_cpu_def sleep_inv_def)
qed

lemma live_pids_wakeup1 [simp]: "live_pids (wakeup1 ch s) = live_pids s"
proof -
  let ?f = "\<lambda>p. if p_state p = SLEEPING \<and> p_chan p = Some ch
      then p\<lparr>p_toe := sint (ps_ticks s), p_state := RUNNABLE\<rparr> else p"
  have "map p_pid (filter (\<lambda>p. p_state p \<noteq> UNUSED) (map ?f xs))
      = map p_pid (filter (\<lambda>p. p_state p \<noteq> UNUSED) xs)" for xs :: "proc list"
    by (induction xs) auto
  moreover have "ps_proc (wakeup1 ch s) = map ?f (ps_proc s)" by (simp add: wakeup1_def)
  ultimately show ?thesis by (simp only: live_pids_def)
qed

lemma c_proc_probed [simp]: "c_proc (k_cpus (probed i s) ! j) = c_proc (k_cpus s ! j)"
  by (cases "i < length (k_cpus s)")
    (auto simp: probed_def nth_list_update_if list_update_beyond not_less nth_list_update)

lemma at_proc_probed [simp]: "at_proc s i p \<Longrightarrow> at_proc (probed i s) i p"
  by (simp add: at_proc_def)

lemma sleep_inv_upd:
  assumes "at_proc t i p" "c_ncli (k_cpus t ! i) = 0"
  shows "sleep_inv i (upd_sleep lk f (probed i t))" "sleep_inv i (wakeup1 ch (upd_sleep lk f (probed i t)))"
  using assms calm_probed [of t i]
  by (simp_all add: sleep_inv_def at_proc_def upd_sleep_def wakeup1_def calm_def here_def cli_ok_def idle_lock_def)

interpretation slk: lock_discipline
  "acquiresleep :: sleeplockid \<Rightarrow> 'a slst_scheme \<Rightarrow> failure + 'a slst_scheme" checked_releasesleep
  "on_pid i" sleep_owner live_pids "sleep_inv i"
proof unfold_locales
  fix s s' :: "'a slst_scheme" and pid lk
  assume inv: "sleep_inv i s" and pid: "pid \<in> live_pids s"
  obtain p where p: "at_proc (on_pid i pid s) i p" "p_pid (ps_proc s ! p) = pid"
    "c_ncli (k_cpus (on_pid i pid s) ! i) = 0" "sl_tab (on_pid i pid s) = sl_tab s"
    "ps_proc (on_pid i pid s) = ps_proc s"
    using at_proc_on_pid [OF inv pid] .
  have live: "live_pids (upd_sleep lk f (probed i (on_pid i pid s))) = live_pids s" for f
    using p(5) by (simp add: live_pids_def upd_sleep_def)
  {
    assume a: "acquiresleep lk (on_pid i pid s) = Inr s'"
    have free: "sl_locked (sl_tab s lk) = 0"
      using acquiresleep_taken [OF p(1,3), of lk] a p(4) by auto
    have s': "s' = upd_sleep lk (\<lambda>l. l\<lparr>sl_locked := 1, sl_pid := pid\<rparr>) (probed i (on_pid i pid s))"
      using acquiresleep_eq [OF p(1), of lk] free a p(2,4,5) by simp
    show "sleep_owner s lk = None \<and> sleep_owner s' = (sleep_owner s)(lk := Some pid)"
      using free p(4) by (auto simp: s' sleep_owner_def upd_sleep_def)
    show "sleep_inv i s' \<and> live_pids s' = live_pids s"
      using sleep_inv_upd(1) [OF p(1,3)] live by (simp add: s')
  }
  {
    assume a: "checked_releasesleep lk (on_pid i pid s) = Inr s'"
    have h: "sl_locked (sl_tab s lk) \<noteq> 0" "sl_pid (sl_tab s lk) = pid"
      and r: "releasesleep lk (probed i (on_pid i pid s)) = Inr s'"
      using a holdingsleep_eq [OF p(1), of lk] p(2,4,5)
      by (auto simp: checked_releasesleep_def split: if_splits)
    have at: "at_proc (probed i (on_pid i pid s)) i p"
      using p(1) by simp
    then have c: "calm (probed i (on_pid i pid s)) i" by (simp add: at_proc_def)
    have s': "s' = wakeup1 (ChSleeplock lk) (upd_sleep lk (\<lambda>l. l\<lparr>sl_locked := 0, sl_pid := 0\<rparr>)
        (probed i (probed i (on_pid i pid s))))"
      using releasesleep_eq [OF c, of lk] r by simp
    show "sleep_owner s lk = Some pid \<and> sleep_owner s' = (sleep_owner s)(lk := None)"
      using h p(4) by (auto simp: s' sleep_owner_def upd_sleep_def wakeup1_def)
    show "sleep_inv i s' \<and> live_pids s' = live_pids s"
      using sleep_inv_upd(2) [OF at] p(3,5)
      by (simp only: s' live_pids_wakeup1) (simp add: live_pids_def upd_sleep_def)
  }
qed

section \<open>Waiting for a sleep lock\<close>

text \<open>
  The events of one processor at the level of kernel threads. A process calls \<open>acquiresleep\<close>; it
  returns or leaves the processor, and then the table of waiting threads keeps the lock and the
  flag of \<open>sched\<close>. The scheduler may switch back to a waiting process that is runnable: the call
  goes on behind \<open>sleep\<close>. A process that does not wait may release a lock, and any process may be
  killed, which wakes it up without a release. An event of a process that cannot run is skipped.
  A run also gives the acquisitions and releases that were completed, in order.
\<close>

datatype sl_event =
    Call_acquire int sleeplockid
  | Switch_to int
  | Call_release int sleeplockid
  | Call_kill int

type_synonym waiting = "int \<Rightarrow> (sleeplockid \<times> bool) option"
type_synonym 'a sl_result = "'a slst_scheme \<times> waiting \<times> (int \<times> sleeplockid lockop) list"

text \<open>The end of a call: the scheduler that a sleeping thread switched to unlocks the process table.\<close>

definition settle :: "int \<Rightarrow> sleeplockid \<Rightarrow> waiting \<Rightarrow> unit ctl \<times> 'a slst_scheme \<Rightarrow> failure + 'a sl_result" where
  "settle pid lk w rs = (case fst rs of
     Ret _ \<Rightarrow> Inr (snd rs, w(pid := None), [(pid, Acquire lk)])
   | Off b \<Rightarrow> andThen (release PTABLE (snd rs)) (\<lambda>s. Inr (s, w(pid := Some (lk, b)), [])))"

text \<open>The scheduler locks the process table and switches to the process in slot \<open>p\<close>.\<close>

definition switch_in :: "nat \<Rightarrow> int \<Rightarrow> nat \<Rightarrow> 'a slst_scheme \<Rightarrow> failure + 'a slst_scheme" where
  "switch_in i pid p s = andThen (acquire PTABLE s) (\<lambda>s.
     Inr (upd_proc p (\<lambda>x. x\<lparr>p_state := RUNNING\<rparr>) (on_pid i pid s)))"

fun sl_step :: "nat \<Rightarrow> sl_event \<Rightarrow> waiting \<Rightarrow> 'a slst_scheme \<Rightarrow> failure + 'a sl_result" where
  "sl_step i (Call_acquire pid lk) w s =
     (if pid \<in> live_pids s \<and> w pid = None
      then andThen (acquiresleep_start lk (on_pid i pid s)) (settle pid lk w) else Inr (s, w, []))"
| "sl_step i (Switch_to pid) w s = (case (w pid, slot_of pid s) of
     (Some (lk, b), Some p) \<Rightarrow>
       if p_state (ps_proc s ! p) = RUNNABLE
       then andThen (switch_in i pid p s) (\<lambda>s.
            andThen (acquiresleep_resume p lk b s) (settle pid lk w))
       else Inr (s, w, [])
   | _ \<Rightarrow> Inr (s, w, []))"
| "sl_step i (Call_release pid lk) w s =
     (if pid \<in> live_pids s \<and> w pid = None
      then andThen (checked_releasesleep lk (on_pid i pid s)) (\<lambda>s. Inr (s, w, [(pid, Release lk)]))
      else Inr (s, w, []))"
| "sl_step i (Call_kill pid) w s = andThen (kill pid s) (\<lambda>(_, s). Inr (s, w, []))"

fun sl_run :: "nat \<Rightarrow> sl_event list \<Rightarrow> waiting \<Rightarrow> 'a slst_scheme \<Rightarrow> failure + 'a sl_result" where
  "sl_run i [] w s = Inr (s, w, [])"
| "sl_run i (e # es) w s = andThen (sl_step i e w s) (\<lambda>(s, w, tr).
     andThen (sl_run i es w s) (\<lambda>(s, w, tr'). Inr (s, w, tr @ tr')))"

text \<open>
  The invariant: a waiting process is runnable, or it sleeps on the lock it waits for and that
  lock is taken.
\<close>

definition waits_ok :: "'a slst_scheme \<Rightarrow> waiting \<Rightarrow> bool" where
  "waits_ok s w \<longleftrightarrow> (\<forall>pid lk b. w pid = Some (lk, b) \<longrightarrow> (\<exists>p. slot_of pid s = Some p
     \<and> (p_state (ps_proc s ! p) = RUNNABLE
        \<or> p_state (ps_proc s ! p) = SLEEPING \<and> p_chan (ps_proc s ! p) = Some (ChSleeplock lk)
          \<and> sl_locked (sl_tab s lk) \<noteq> 0)))"

definition slots :: "'a pst_scheme \<Rightarrow> (int \<times> bool) list" where
  "slots s = map (\<lambda>p. (p_pid p, p_state p = UNUSED)) (ps_proc s)"

lemma first_index_map: "first_index P (map f xs) = first_index (\<lambda>x. P (f x)) xs"
  by (induction xs) auto

lemma slot_of_slots: "slot_of pid s = first_index (\<lambda>x. \<not> snd x \<and> fst x = pid) (slots s)"
  by (simp add: slot_of_def slots_def first_index_map)

lemma live_pids_slots: "live_pids s = {q. (q, False) \<in> set (slots s)}"
  by (auto simp: live_pids_def slots_def)

lemma slots_cong:
  assumes "slots t = slots s"
  shows "slot_of pid t = slot_of pid s" and "live_pids t = live_pids s"
    and "length (ps_proc t) = length (ps_proc s)"
  using assms map_eq_imp_length_eq [OF assms [unfolded slots_def]]
  by (simp_all only: slot_of_slots live_pids_slots)

lemma slots_update:
  assumes "ps_proc t = (ps_proc s)[p := x]" and "p < length (ps_proc s)"
    and "p_pid x = p_pid (ps_proc s ! p)" and "(p_state x = UNUSED) = (p_state (ps_proc s ! p) = UNUSED)"
  shows "slots t = slots s"
  using assms by (simp add: slots_def map_update_nth_same)

lemma slot_ofD: "slot_of pid s = Some p \<Longrightarrow>
    p < length (ps_proc s) \<and> p_pid (ps_proc s ! p) = pid \<and> p_state (ps_proc s ! p) \<noteq> UNUSED"
  unfolding slot_of_def by (frule first_index_SomeD(1), drule first_index_SomeD(2)) simp

lemma waits_ok_upd:
  assumes ok: "waits_ok s w" and slot: "slot_of pid s = Some p" and t: "ps_proc t = (ps_proc s)[p := x]"
    and x: "p_pid x = pid" "p_state x \<noteq> UNUSED"
    and lk: "\<And>l. sl_locked (sl_tab s l) \<noteq> 0 \<Longrightarrow> sl_locked (sl_tab t l) \<noteq> 0"
    and v: "v = None \<or> (\<exists>l b. v = Some (l, b) \<and> p_state x = SLEEPING \<and> p_chan x = Some (ChSleeplock l)
      \<and> sl_locked (sl_tab t l) \<noteq> 0)"
  shows "waits_ok t (w(pid := v))" and "slots t = slots s"
proof -
  note p = slot_ofD [OF slot]
  show sl: "slots t = slots s" by (rule slots_update [OF t]) (use p x in auto)
  have other: "ps_proc t ! q = ps_proc s ! q" if "slot_of pid' s = Some q" "pid' \<noteq> pid" for pid' q
    using slot_ofD [OF that(1)] that(2) p by (cases "q = p") (simp_all add: t)
  have at_p: "ps_proc t ! p = x" using p by (simp add: t)
  show "waits_ok t (w(pid := v))"
    unfolding waits_ok_def slots_cong [OF sl]
  proof (intro allI impI)
    fix q l b assume w: "(w(pid := v)) q = Some (l, b)"
    show "\<exists>k. slot_of q s = Some k \<and> (p_state (ps_proc t ! k) = RUNNABLE
       \<or> p_state (ps_proc t ! k) = SLEEPING \<and> p_chan (ps_proc t ! k) = Some (ChSleeplock l)
         \<and> sl_locked (sl_tab t l) \<noteq> 0)"
    proof (cases "q = pid")
      case True
      then show ?thesis using w v slot at_p by auto
    next
      case False
      then obtain k where k: "slot_of q s = Some k" "p_state (ps_proc s ! k) = RUNNABLE
         \<or> p_state (ps_proc s ! k) = SLEEPING \<and> p_chan (ps_proc s ! k) = Some (ChSleeplock l)
           \<and> sl_locked (sl_tab s l) \<noteq> 0"
        using ok w unfolding waits_ok_def by fastforce
      then show ?thesis using other [OF k(1) False] lk by auto
    qed
  qed
qed

text \<open>The state of a process that went to sleep, after the scheduler unlocked the process table.\<close>

lemma start_settled:
  assumes at: "at_proc s i p" "c_ncli (k_cpus s ! i) = 0"
  shows "sl_locked (sl_tab s lk) = 0 \<Longrightarrow>
      andThen (acquiresleep_start lk s) (settle pid lk w) = Inr (upd_sleep lk (\<lambda>l. l\<lparr>sl_locked := 1,
        sl_pid := p_pid (ps_proc s ! p)\<rparr>) (probed i s), w(pid := None), [(pid, Acquire lk)])"
    and "sl_locked (sl_tab s lk) \<noteq> 0 \<Longrightarrow> \<exists>b u.
      andThen (acquiresleep_start lk s) (settle pid lk w) = Inr (u, w(pid := Some (lk, b)), [])
      \<and> sleep_inv i u \<and> sl_tab u = sl_tab s
      \<and> (\<exists>x. ps_proc u = (ps_proc s)[p := x] \<and> p_pid x = p_pid (ps_proc s ! p)
          \<and> p_state x = SLEEPING \<and> p_chan x = Some (ChSleeplock lk))"
proof -
  assume "sl_locked (sl_tab s lk) = 0"
  then show "andThen (acquiresleep_start lk s) (settle pid lk w) = Inr (upd_sleep lk (\<lambda>l. l\<lparr>sl_locked := 1,
        sl_pid := p_pid (ps_proc s ! p)\<rparr>) (probed i s), w(pid := None), [(pid, Acquire lk)])"
    by (simp add: acquiresleep_start_eq [OF at(1)] settle_def)
next
  assume held: "sl_locked (sl_tab s lk) \<noteq> 0"
  let ?d = "dropped i (SLEEPLK lk) (taken i PTABLE (taken i (SLEEPLK lk) s))"
  let ?t = "asleep p (ChSleeplock lk) ?d"
  let ?u = "dropped i PTABLE ?t"
  have c: "calm s i" "c_proc (k_cpus s ! i) = Some p" "p < length (ps_proc s)"
    using at(1) by (auto simp: at_proc_def)
  obtain b where st: "acquiresleep_start lk s = Inr (Off b, ?t)"
    using acquiresleep_start_taken [OF at held] by blast
  obtain u where u: "release PTABLE ?t = Inr u" "calm u i" "c_ncli (k_cpus u ! i) = 0" "u = ?u"
    using calm_asleep [OF c(1) at(2) c(2) _ c(3), of "SLEEPLK lk" "ChSleeplock lk"] by auto
  have tab: "sl_tab u = sl_tab s" "ps_proc ?d = ps_proc s" "ps_proc u = ps_proc ?t"
    unfolding u(4)
    by (simp_all add: dropped_def popped_def upd_lock_def asleep_def upd_proc_def taken_def pushed_def)
  have px: "ps_proc u = (ps_proc s)[p := (ps_proc s ! p)\<lparr>p_chan := Some (ChSleeplock lk),
      p_state := SLEEPING, p_toe := sint (ps_ticks ?d)\<rparr>]"
    unfolding tab(3) by (simp add: asleep_def upd_proc_def tab(2))
  show "\<exists>b u. andThen (acquiresleep_start lk s) (settle pid lk w) = Inr (u, w(pid := Some (lk, b)), [])
      \<and> sleep_inv i u \<and> sl_tab u = sl_tab s
      \<and> (\<exists>x. ps_proc u = (ps_proc s)[p := x] \<and> p_pid x = p_pid (ps_proc s ! p)
          \<and> p_state x = SLEEPING \<and> p_chan x = Some (ChSleeplock lk))"
    using u tab(1) px st
    by (intro exI [of _ b] exI [of _ u] conjI exI [of _ "(ps_proc s ! p)\<lparr>p_chan := Some (ChSleeplock lk),
      p_state := SLEEPING, p_toe := sint (ps_ticks ?d)\<rparr>"])
      (simp_all add: settle_def sleep_inv_def)
qed

lemma resumed:
  assumes inv: "sleep_inv i s" and slot: "slot_of pid s = Some p"
  shows "\<exists>u. andThen (switch_in i pid p s) (acquiresleep_resume p lk b) = acquiresleep_start lk u
    \<and> at_proc u i p \<and> c_ncli (k_cpus u ! i) = 0 \<and> sl_tab u = sl_tab s
    \<and> ps_proc u = (ps_proc s)[p := (ps_proc s ! p)\<lparr>p_state := RUNNING, p_chan := None\<rparr>]"
proof -
  have c: "calm s i" "c_ncli (k_cpus s ! i) = 0" using inv by (auto simp: sleep_inv_def)
  have i: "here s i" "i < length (k_cpus s)" "cli_ok s i" using c by (auto simp: calm_def here_less)
  note p = slot_ofD [OF slot]
  define t where "t = taken i PTABLE s"
  define v where "v = upd_proc p (\<lambda>x. x\<lparr>p_state := RUNNING\<rparr>) (on_pid i pid t)"
  define y where "y = upd_proc p (\<lambda>x. x\<lparr>p_chan := None\<rparr>) (upd_cpu i (\<lambda>c. c\<lparr>c_intena := b\<rparr>) v)"
  define u where "u = dropped i PTABLE y"
  have acq: "acquire PTABLE s = Inr t" unfolding t_def by (rule acquire_calm [OF c(1)])
  have t: "here t i" "cli_ok t i" "c_ncli (k_cpus t ! i) = 1" "\<not> k_if t (k_me t)" "k_me t = k_me s"
    "ps_proc t = ps_proc s" "sl_tab t = sl_tab s" "i < length (k_cpus t)"
    using i c ncli_taken [OF i(2), of PTABLE] cli_ok_taken [OF i(2,3), of PTABLE] here_less
    by (simp_all add: t_def) (simp_all add: taken_def upd_lock_def pushed_def)
  have slot_t: "slot_of pid t = Some p" using slot t(6) by (simp add: slot_of_def)
  have v: "here v i" "k_if v = k_if t" "k_me v = k_me t" "k_locks v = k_locks t"
    "k_cpus v = (k_cpus t)[i := (k_cpus t ! i)\<lparr>c_proc := Some p\<rparr>]" "sl_tab v = sl_tab s"
    "ps_proc v = (ps_proc s)[p := (ps_proc s ! p)\<lparr>p_state := RUNNING\<rparr>]"
    using t slot_t
    by (simp_all add: v_def on_pid_def upd_cpu_def upd_proc_def here_def first_index_apicid_update)
  have "mycpu v = Inr i" using v(1) t(4) by (intro mycpu_here) (simp_all add: v(2,3))
  then have on: "sched_on b v = Inr (upd_cpu i (\<lambda>c. c\<lparr>c_intena := b\<rparr>) v)" by (simp add: sched_on_def)
  have y: "here y i" "k_if y = k_if t" "k_me y = k_me t" "k_locks y = k_locks t" "sl_tab y = sl_tab s"
    "k_cpus y = (k_cpus t)[i := (k_cpus t ! i)\<lparr>c_proc := Some p, c_intena := b\<rparr>]"
    "ps_proc y = (ps_proc s)[p := (ps_proc s ! p)\<lparr>p_state := RUNNING, p_chan := None\<rparr>]"
    using v t p
    by (simp_all add: y_def upd_cpu_def upd_proc_def here_def first_index_apicid_update)
  have "cli_ok y i" "c_ncli (k_cpus y ! i) = 1" using t y by (simp_all add: cli_ok_def)
  moreover have "holds y PTABLE i" using holds_taken [of i PTABLE s] by (simp add: holds_def y(4) t_def)
  ultimately have rel: "release PTABLE y = Inr u" using release_eq [OF y(1)] by (simp add: u_def)
  have "here u i" using y(1) by (simp add: u_def)
  moreover have ncli: "c_ncli (k_cpus u ! i) = 0" and pr: "c_proc (k_cpus u ! i) = Some p"
    using t y by (simp_all add: u_def dropped_def popped_def upd_lock_def)
  moreover have "idle_lock u l" for l
    using c(1) y(4)
    by (simp add: u_def t_def dropped_def popped_def upd_lock_def idle_lock_def taken_def pushed_def calm_def)
  moreover have tabs: "sl_tab u = sl_tab s" "ps_proc u = ps_proc y"
    using y(5) by (simp_all add: u_def dropped_def popped_def upd_lock_def)
  ultimately have at: "at_proc u i p" using p y(7) by (simp add: at_proc_def calm_def cli_ok_def)
  have "switch_in i pid p s = Inr v" by (simp add: switch_in_def acq v_def)
  moreover have "acquiresleep_resume p lk b v = acquiresleep_start lk u"
    using rel by (simp add: acquiresleep_resume_def sleep_on_def on y_def [symmetric] andThen_assoc
        acquiresleep_start_def)
  ultimately show ?thesis using at ncli tabs y(7) by (intro exI [of _ u]) simp
qed

fun owner_after :: "sleeplockid \<Rightarrow> int option \<Rightarrow> (int \<times> sleeplockid lockop) list \<Rightarrow> int option" where
  "owner_after lk ow [] = ow"
| "owner_after lk ow ((pid, Acquire l) # es) = owner_after lk (if l = lk then Some pid else ow) es"
| "owner_after lk ow ((pid, Release l) # es) = owner_after lk (if l = lk then None else ow) es"

lemma turns_append:
  "turns lk ow (es @ fs) \<longleftrightarrow> turns lk ow es \<and> turns lk (owner_after lk ow es) fs"
  "owner_after lk ow (es @ fs) = owner_after lk (owner_after lk ow es) fs"
  by (induction lk ow es rule: owner_after.induct) auto

text \<open>What one event leaves true, and what it adds to the trace.\<close>

definition sl_good :: "nat \<Rightarrow> 'a slst_scheme \<Rightarrow> failure + 'a sl_result \<Rightarrow> bool" where
  "sl_good i s r \<longleftrightarrow> (case r of
     Inl f \<Rightarrow> f = Panic ''releasesleep''
   | Inr (t, w, tr) \<Rightarrow> sleep_inv i t \<and> waits_ok t w \<and> slots t = slots s
       \<and> (\<forall>lk. turns lk (sleep_owner s lk) tr \<and> sleep_owner t lk = owner_after lk (sleep_owner s lk) tr))"

lemma sl_good_skip: "sleep_inv i s \<Longrightarrow> waits_ok s w \<Longrightarrow> sl_good i s (Inr (s, w, []))"
  by (simp add: sl_good_def)

text \<open>A call of \<open>acquiresleep\<close> that starts, or is taken up again, in the state \<open>u\<close>.\<close>

lemma started_good:
  fixes s u :: "'a slst_scheme"
  assumes ok: "waits_ok s w" and slot: "slot_of pid s = Some p"
    and at: "at_proc u i p" "c_ncli (k_cpus u ! i) = 0" and tab: "sl_tab u = sl_tab s"
    and pu: "ps_proc u = (ps_proc s)[p := x]" "p_pid x = pid" "p_state x \<noteq> UNUSED"
  shows "sl_good i s (andThen (acquiresleep_start lk u) (settle pid lk w))"
proof (cases "sl_locked (sl_tab s lk) = 0")
  case True
  let ?t = "upd_sleep lk (\<lambda>l. l\<lparr>sl_locked := 1, sl_pid := p_pid (ps_proc u ! p)\<rparr>) (probed i u)"
  note p = slot_ofD [OF slot]
  have pt: "ps_proc ?t = (ps_proc s)[p := x]" by (simp add: upd_sleep_def pu)
  then have "waits_ok ?t (w(pid := None))"
    using pu tab by (intro waits_ok_upd(1) [OF ok slot]) (auto simp: upd_sleep_def)
  moreover have "slots ?t = slots s" by (rule slots_update [OF pt]) (use p pu in auto)
  moreover have "sleep_inv i ?t" by (rule sleep_inv_upd(1) [OF at])
  moreover have "p_pid (ps_proc u ! p) = pid" using pu p by simp
  ultimately show ?thesis
    using start_settled(1) [OF at, where lk = lk and w = w and pid = pid] True tab
    by (auto simp: sl_good_def sleep_owner_def upd_sleep_def)
next
  case False
  obtain b t y where t: "andThen (acquiresleep_start lk u) (settle pid lk w) = Inr (t, w(pid := Some (lk, b)), [])"
      "sleep_inv i t" "sl_tab t = sl_tab u" "ps_proc t = (ps_proc u)[p := y]"
      "p_pid y = p_pid (ps_proc u ! p)" "p_state y = SLEEPING" "p_chan y = Some (ChSleeplock lk)"
    using start_settled(2) [OF at, where lk = lk and w = w and pid = pid] False tab by auto
  note p = slot_ofD [OF slot]
  have pt: "ps_proc t = (ps_proc s)[p := y]" "p_pid y = pid" using t(4,5) pu p by simp_all
  then have "waits_ok t (w(pid := Some (lk, b)))"
    using t tab False by (intro waits_ok_upd(1) [OF ok slot]) auto
  moreover have "slots t = slots s" by (rule slots_update [OF pt(1)]) (use p pt t in auto)
  ultimately show ?thesis using t tab by (simp add: sl_good_def sleep_owner_def)
qed

lemma live_slot: "pid \<in> live_pids s \<Longrightarrow> \<exists>p. slot_of pid s = Some p"
  unfolding slot_of_def live_pids_def
  by (cases "first_index (\<lambda>p. p_state p \<noteq> UNUSED \<and> p_pid p = pid) (ps_proc s)")
    (auto simp: first_index_None_iff)

lemma switch_good:
  assumes inv: "sleep_inv i s" and ok: "waits_ok s w"
  shows "sl_good i s (sl_step i (Switch_to pid) w s)"
proof (cases "w pid")
  case None
  then show ?thesis using sl_good_skip [OF assms] by simp
next
  case (Some l)
  obtain lk b where l: "l = (lk, b)" by (cases l)
  then obtain p where slot: "slot_of pid s = Some p" using ok Some unfolding waits_ok_def by blast
  show ?thesis
  proof (cases "p_state (ps_proc s ! p) = RUNNABLE")
    case True
    obtain u where u: "andThen (switch_in i pid p s) (acquiresleep_resume p lk b) = acquiresleep_start lk u"
        "at_proc u i p" "c_ncli (k_cpus u ! i) = 0" "sl_tab u = sl_tab s"
        "ps_proc u = (ps_proc s)[p := (ps_proc s ! p)\<lparr>p_state := RUNNING, p_chan := None\<rparr>]"
      using resumed [OF inv slot] by blast
    have "sl_good i s (andThen (acquiresleep_start lk u) (settle pid lk w))"
      using slot_ofD [OF slot] by (intro started_good [OF ok slot u(2-5)]) simp_all
    moreover have "sl_step i (Switch_to pid) w s = andThen (acquiresleep_start lk u) (settle pid lk w)"
      using Some l slot True by (simp add: u(1) [symmetric] andThen_assoc)
    ultimately show ?thesis by simp
  next
    case False
    then show ?thesis using sl_good_skip [OF assms] Some l slot by simp
  qed
qed

lemma call_start:
  assumes inv: "sleep_inv i s" and live: "pid \<in> live_pids s"
  obtains p where "slot_of pid s = Some p" "at_proc (on_pid i pid s) i p"
    "c_ncli (k_cpus (on_pid i pid s) ! i) = 0" "sl_tab (on_pid i pid s) = sl_tab s"
    "ps_proc (on_pid i pid s) = ps_proc s"
proof -
  obtain p where slot: "slot_of pid s = Some p" using live live_slot by blast
  obtain q where q: "at_proc (on_pid i pid s) i q"
      "c_ncli (k_cpus (on_pid i pid s) ! i) = 0" "sl_tab (on_pid i pid s) = sl_tab s"
      "ps_proc (on_pid i pid s) = ps_proc s"
    using at_proc_on_pid [OF inv live] by blast
  have "q = p"
    using q(1) slot inv by (auto simp: at_proc_def on_pid_def upd_cpu_def sleep_inv_def calm_def here_less)
  then show thesis using that slot q by simp
qed

lemma acquire_good:
  assumes inv: "sleep_inv i s" and ok: "waits_ok s w"
  shows "sl_good i s (sl_step i (Call_acquire pid lk) w s)"
proof (cases "pid \<in> live_pids s \<and> w pid = None")
  case True
  then have live: "pid \<in> live_pids s" by simp
  obtain p where p: "slot_of pid s = Some p" "at_proc (on_pid i pid s) i p"
      "c_ncli (k_cpus (on_pid i pid s) ! i) = 0" "sl_tab (on_pid i pid s) = sl_tab s"
      "ps_proc (on_pid i pid s) = ps_proc s"
    using call_start [OF inv live] .
  have "sl_good i s (andThen (acquiresleep_start lk (on_pid i pid s)) (settle pid lk w))"
    using p(5) slot_ofD [OF p(1)] by (intro started_good [OF ok p(1-4), where x = "ps_proc s ! p"]) simp_all
  then show ?thesis using True by simp
qed (use sl_good_skip [OF assms] in auto)

lemma calls:
  assumes inv: "sleep_inv i s" and live: "pid \<in> live_pids s" and w: "w pid = None"
  shows "sleep_owner s lk = None \<Longrightarrow>
      \<exists>t. sl_step i (Call_acquire pid lk) w s = Inr (t, w(pid := None), [(pid, Acquire lk)])"
    and "sleep_owner s lk \<noteq> None \<Longrightarrow>
      \<exists>t b. sl_step i (Call_acquire pid lk) w s = Inr (t, w(pid := Some (lk, b)), [])"
    and "sleep_owner s lk = Some pid \<Longrightarrow>
      \<exists>t. sl_step i (Call_release pid lk) w s = Inr (t, w, [(pid, Release lk)])"
proof -
  obtain p where p: "slot_of pid s = Some p" "at_proc (on_pid i pid s) i p"
      "c_ncli (k_cpus (on_pid i pid s) ! i) = 0" "sl_tab (on_pid i pid s) = sl_tab s"
      "ps_proc (on_pid i pid s) = ps_proc s"
    using call_start [OF inv live] .
  note st = start_settled [OF p(2,3), where lk = lk and w = w and pid = pid]
  show "\<exists>t. sl_step i (Call_acquire pid lk) w s = Inr (t, w(pid := None), [(pid, Acquire lk)])"
    if "sleep_owner s lk = None"
    using that st(1) p(4) live w by (simp add: sleep_owner_def split: if_splits)
  show "\<exists>t b. sl_step i (Call_acquire pid lk) w s = Inr (t, w(pid := Some (lk, b)), [])"
    if "sleep_owner s lk \<noteq> None"
    using that st(2) p(4) live w by (auto simp add: sleep_owner_def split: if_splits)
  have "calm (probed i (on_pid i pid s)) i" using at_proc_probed [OF p(2)] by (simp add: at_proc_def)
  then show "\<exists>t. sl_step i (Call_release pid lk) w s = Inr (t, w, [(pid, Release lk)])"
    if "sleep_owner s lk = Some pid"
    using that holdingsleep_eq [OF p(2), of lk] p(4,5) slot_ofD [OF p(1)] live w
      releasesleep_eq [of "probed i (on_pid i pid s)" i lk]
    by (auto simp: sleep_owner_def checked_releasesleep_def split: if_splits)
qed

lemma release_good:
  assumes inv: "sleep_inv i s" and ok: "waits_ok s w"
  shows "sl_good i s (sl_step i (Call_release pid lk) w s)"
proof (cases "pid \<in> live_pids s \<and> w pid = None")
  case True
  then have live: "pid \<in> live_pids s" and w: "w pid = None" by auto
  obtain p where p: "at_proc (on_pid i pid s) i p" "p_pid (ps_proc s ! p) = pid"
      "c_ncli (k_cpus (on_pid i pid s) ! i) = 0" "sl_tab (on_pid i pid s) = sl_tab s"
      "ps_proc (on_pid i pid s) = ps_proc s"
    using at_proc_on_pid [OF inv live] .
  let ?o = "on_pid i pid s"
  have c: "calm (probed i ?o) i" using at_proc_probed [OF p(1)] by (simp add: at_proc_def)
  show ?thesis
  proof (cases "sl_locked (sl_tab s lk) \<noteq> 0 \<and> sl_pid (sl_tab s lk) = pid")
    case False
    then show ?thesis
      using live w holdingsleep_eq [OF p(1), of lk] p(2,4,5)
      by (auto simp: checked_releasesleep_def sl_good_def)
  next
    case h: True
    let ?f = "\<lambda>x. if p_state x = SLEEPING \<and> p_chan x = Some (ChSleeplock lk)
        then x\<lparr>p_toe := sint (ps_ticks s), p_state := RUNNABLE\<rparr> else x"
    obtain t where t: "checked_releasesleep lk ?o = Inr t"
        "t = wakeup1 (ChSleeplock lk) (upd_sleep lk (\<lambda>l. l\<lparr>sl_locked := 0, sl_pid := 0\<rparr>) (probed i (probed i ?o)))"
      using holdingsleep_eq [OF p(1), of lk] p(2,4,5) h releasesleep_eq [OF c, of lk]
      by (auto simp: checked_releasesleep_def)
    have ticks: "ps_ticks ?o = ps_ticks s" by (simp add: on_pid_def upd_cpu_def)
    have tp: "ps_proc t = map ?f (ps_proc s)" and tt: "sl_tab t = (sl_tab s)(lk := (sl_tab s lk)\<lparr>sl_locked := 0, sl_pid := 0\<rparr>)"
      using p(4,5) by (simp_all add: t(2) wakeup1_def upd_sleep_def ticks)
    have sl: "slots t = slots s" by (auto simp: slots_def tp)
    note own = slk.rel_owner [OF inv live t(1)] and inv' = slk.rel_inv [OF inv live t(1)]
    have "waits_ok t w"
      unfolding waits_ok_def slots_cong [OF sl]
    proof (intro allI impI)
      fix q l b assume "w q = Some (l, b)"
      then obtain k where k: "slot_of q s = Some k" "p_state (ps_proc s ! k) = RUNNABLE
          \<or> p_state (ps_proc s ! k) = SLEEPING \<and> p_chan (ps_proc s ! k) = Some (ChSleeplock l)
            \<and> sl_locked (sl_tab s l) \<noteq> 0"
        using ok unfolding waits_ok_def by blast
      have "ps_proc t ! k = ?f (ps_proc s ! k)" using slot_ofD [OF k(1)] by (simp add: tp)
      then show "\<exists>k. slot_of q s = Some k \<and> (p_state (ps_proc t ! k) = RUNNABLE
          \<or> p_state (ps_proc t ! k) = SLEEPING \<and> p_chan (ps_proc t ! k) = Some (ChSleeplock l)
            \<and> sl_locked (sl_tab t l) \<noteq> 0)"
        using k by (cases "l = lk") (auto simp: tt)
    qed
    then show ?thesis using live w t(1) own inv' sl by (auto simp: sl_good_def)
  qed
qed (use sl_good_skip [OF assms] in auto)

lemma kill_good:
  assumes inv: "sleep_inv i s" and ok: "waits_ok s w"
  shows "sl_good i s (sl_step i (Call_kill pid) w s)"
proof -
  have c: "calm s i" and n: "c_ncli (k_cpus s ! i) = 0" using inv by (auto simp: sleep_inv_def)
  have probe: "sleep_inv i (probed i s)" "waits_ok (probed i s) w"
    using c n ok by (simp_all add: sleep_inv_def waits_ok_def slot_of_def)
  show ?thesis
  proof (cases "first_index (\<lambda>p. p_pid p = pid) (ps_proc s)")
    case None
    then show ?thesis
      using probe kill_eq [OF calm_ready [OF c], of pid] by (simp add: sl_good_def sleep_owner_def slots_def)
  next
    case (Some k)
    let ?g = "\<lambda>p. p\<lparr>p_killed := 1, p_state := (if p_state p = SLEEPING then RUNNABLE else p_state p)\<rparr>"
    let ?t = "upd_proc k ?g (probed i s)"
    note k = first_index_SomeD(1) [OF Some]
    have tp: "ps_proc ?t = (ps_proc s)[k := ?g (ps_proc s ! k)]" and tt: "sl_tab ?t = sl_tab s"
      by (simp_all add: upd_proc_def)
    have sl: "slots ?t = slots s" by (rule slots_update [OF tp k]) auto
    have "waits_ok ?t w"
      unfolding waits_ok_def slots_cong [OF sl]
    proof (intro allI impI)
      fix q l b assume "w q = Some (l, b)"
      then obtain m where m: "slot_of q s = Some m" "p_state (ps_proc s ! m) = RUNNABLE
          \<or> p_state (ps_proc s ! m) = SLEEPING \<and> p_chan (ps_proc s ! m) = Some (ChSleeplock l)
            \<and> sl_locked (sl_tab s l) \<noteq> 0"
        using ok unfolding waits_ok_def by blast
      then show "\<exists>m. slot_of q s = Some m \<and> (p_state (ps_proc ?t ! m) = RUNNABLE
          \<or> p_state (ps_proc ?t ! m) = SLEEPING \<and> p_chan (ps_proc ?t ! m) = Some (ChSleeplock l)
            \<and> sl_locked (sl_tab ?t l) \<noteq> 0)"
        unfolding tp tt using k by (cases "m = k") auto
    qed
    moreover have "sleep_inv i ?t" using probe(1) by (simp add: sleep_inv_def)
    ultimately show ?thesis
      using Some kill_eq [OF calm_ready [OF c], of pid] tt sl by (simp add: sl_good_def sleep_owner_def)
  qed
qed

lemma sl_step_good: "sleep_inv i s \<Longrightarrow> waits_ok s w \<Longrightarrow> sl_good i s (sl_step i e w s)"
  using acquire_good switch_good release_good kill_good by (cases e) blast+

lemma sl_next:
  assumes "sleep_inv i s" and "waits_ok s w" and "sl_step i e w s = Inr (t, w', tr)"
  shows "sleep_inv i t" and "waits_ok t w'" and "live_pids t = live_pids s"
    and "sleep_owner t lk = owner_after lk (sleep_owner s lk) tr"
  using sl_step_good [OF assms(1,2), of e] slots_cong(2) [of t s] assms(3)
  by (simp_all add: sl_good_def)

lemma sl_run_good: "sleep_inv i s \<Longrightarrow> waits_ok s w \<Longrightarrow> sl_good i s (sl_run i es w s)"
proof (induction es arbitrary: w s)
  case Nil
  then show ?case by (simp add: sl_good_skip)
next
  case (Cons e es)
  note st = sl_step_good [OF Cons.prems, of e]
  show ?case
  proof (cases "sl_step i e w s")
    case (Inl f)
    then show ?thesis using st by (simp add: sl_good_def)
  next
    case (Inr r)
    obtain t w' tr where r: "r = (t, w', tr)" by (cases r)
    have "sl_good i t (sl_run i es w' t)" using st Inr r by (intro Cons.IH) (simp_all add: sl_good_def)
    then show ?thesis
      using st Inr r by (cases "sl_run i es w' t") (auto simp: sl_good_def turns_append)
  qed
qed

lemma waiter_gets_lock:
  assumes inv: "sleep_inv i s" and ok: "waits_ok s w"
    and w: "w pid = Some (lk, b)" and free: "sleep_owner s lk = None"
  shows "\<exists>t. sl_step i (Switch_to pid) w s = Inr (t, w(pid := None), [(pid, Acquire lk)])"
proof -
  have fr: "sl_locked (sl_tab s lk) = 0" using free by (simp add: sleep_owner_def split: if_splits)
  obtain p where p: "slot_of pid s = Some p" "p_state (ps_proc s ! p) = RUNNABLE"
    using ok w fr unfolding waits_ok_def by blast
  obtain u where u: "andThen (switch_in i pid p s) (acquiresleep_resume p lk b) = acquiresleep_start lk u"
      "at_proc u i p" "c_ncli (k_cpus u ! i) = 0" "sl_tab u = sl_tab s"
    using resumed [OF inv p(1)] by blast
  have "sl_step i (Switch_to pid) w s = andThen (acquiresleep_start lk u) (settle pid lk w)"
    using w p by (simp add: u(1) [symmetric] andThen_assoc)
  then show ?thesis using start_settled(1) [OF u(2,3), where lk = lk and w = w and pid = pid] fr u(4) by simp
qed

section \<open>Properties\<close>

text \<open>
  C20. Mutual exclusion of sleep locks among the processes of one processor: in every sequence of
  calls of \<open>acquiresleep\<close> (that sleep while the lock is taken and look at it again whenever they
  are switched back to), checked releases and kills (which wake a sleeper without a release), each
  lock is taken only while nobody owns it and given up only by its owner; the only panic is that of
  a release by a process that is not the owner; and no wakeup is lost: when a lock is free, a
  process that waits for it can be switched to and gets it.
\<close>

theorem sleeplock_mutual_exclusion:
  assumes "calm s i" and "c_ncli (k_cpus s ! i) = 0"
  shows "case sl_run i es (\<lambda>_. None) s of
      Inl f \<Rightarrow> f = Panic ''releasesleep''
    | Inr (t, w, tr) \<Rightarrow> turns lk (sleep_owner s lk) tr
        \<and> sleep_owner t lk = owner_after lk (sleep_owner s lk) tr
        \<and> (sleep_owner t lk = None \<longrightarrow> (\<forall>pid b. w pid = Some (lk, b) \<longrightarrow>
            (\<exists>u. sl_step i (Switch_to pid) w t = Inr (u, w(pid := None), [(pid, Acquire lk)]))))"
proof -
  have "sleep_inv i s" "waits_ok s (\<lambda>_. None)" using assms by (simp_all add: sleep_inv_def waits_ok_def)
  note good = sl_run_good [OF this, of es]
  show ?thesis
  proof (cases "sl_run i es (\<lambda>_. None) s")
    case (Inl f)
    then show ?thesis using good by (simp add: sl_good_def)
  next
    case (Inr r)
    obtain t w tr where r: "r = (t, w, tr)" by (cases r)
    have g: "sleep_inv i t" "waits_ok t w" "turns lk (sleep_owner s lk) tr"
        "sleep_owner t lk = owner_after lk (sleep_owner s lk) tr"
      using good Inr r by (simp_all add: sl_good_def)
    then show ?thesis
      using waiter_gets_lock [OF g(1,2)] Inr r by (auto simp del: sl_step.simps)
  qed
qed

definition sleep_state :: slst where
  "sleep_state = pst.extend (boot_state\<lparr>ps_proc := [first_proc, first_proc\<lparr>p_pid := 2\<rparr>, unused_proc]\<rparr>)
     (slst.fields (\<lambda>_. \<lparr>sl_locked = 0, sl_name = [], sl_pid = 0\<rparr>))"

lemma sleep_state_calm: "calm sleep_state 0" "c_ncli (k_cpus sleep_state ! 0) = 0"
proof -
  have "calm sleep_state 0 = calm boot_state 0"
    by (rule calm_cong) (simp_all add: sleep_state_def pst.defs slst.defs boot_state_def)
  then show "calm sleep_state 0" using boot_state_calm by simp
  show "c_ncli (k_cpus sleep_state ! 0) = 0"
    by (simp add: sleep_state_def pst.defs slst.defs boot_state_def)
qed

lemma sleep_state_start:
  "sleep_inv 0 sleep_state" "waits_ok sleep_state (\<lambda>_. None)" "live_pids sleep_state = {1, 2}"
  "sleep_owner sleep_state lk = None"
  using sleep_state_calm
  by (simp_all add: sleep_inv_def waits_ok_def) (auto simp: live_pids_def sleep_owner_def
      sleep_state_def pst.defs slst.defs boot_state_def first_proc_def unused_proc_def)

text \<open>Two processes and one lock: the second waits, and gets the lock after the first releases it.\<close>

definition handover :: "sl_event list" where
  "handover = [Call_acquire 1 (BufLock 3), Call_acquire 2 (BufLock 3), Call_release 1 (BufLock 3), Switch_to 2]"

lemma handover_run: "\<exists>t w. sl_run 0 handover (\<lambda>_. None) sleep_state = Inr (t, w,
    [(1, Acquire (BufLock 3)), (1, Release (BufLock 3)), (2, Acquire (BufLock 3))])"
proof -
  let ?L = "BufLock 3" and ?w = "\<lambda>_ :: int. None :: (sleeplockid \<times> bool) option"
  note s0 = sleep_state_start
  obtain s1 where e1: "sl_step 0 (Call_acquire 1 ?L) ?w sleep_state = Inr (s1, ?w, [(1, Acquire ?L)])"
    using calls(1) [OF s0(1), of 1 ?w ?L] s0(3,4) by (auto simp del: sl_step.simps)
  have s1: "sleep_inv 0 s1" "waits_ok s1 ?w" "live_pids s1 = {1, 2}" "sleep_owner s1 ?L = Some 1"
    using sl_next [OF s0(1,2) e1] s0(3) by simp_all
  obtain s2 b where e2: "sl_step 0 (Call_acquire 2 ?L) ?w s1 = Inr (s2, ?w(2 := Some (?L, b)), [])"
    using calls(2) [OF s1(1), of 2 ?w ?L] s1(3,4) by (auto simp del: sl_step.simps)
  let ?w2 = "?w(2 := Some (?L, b))"
  have s2: "sleep_inv 0 s2" "waits_ok s2 ?w2" "live_pids s2 = {1, 2}" "sleep_owner s2 ?L = Some 1"
    using sl_next [OF s1(1,2) e2] s1(3,4) by simp_all
  obtain s3 where e3: "sl_step 0 (Call_release 1 ?L) ?w2 s2 = Inr (s3, ?w2, [(1, Release ?L)])"
    using calls(3) [OF s2(1), of 1 ?w2 ?L] s2(3,4) by (auto simp del: sl_step.simps)
  have s3: "sleep_inv 0 s3" "waits_ok s3 ?w2" "sleep_owner s3 ?L = None"
    using sl_next [OF s2(1,2) e3] by simp_all
  obtain s4 where "sl_step 0 (Switch_to 2) ?w2 s3 = Inr (s4, ?w2(2 := None), [(2, Acquire ?L)])"
    using waiter_gets_lock [OF s3(1,2), of 2 ?L b] s3(3) by (auto simp del: sl_step.simps)
  then show ?thesis by (simp add: handover_def e1 e2 e3 del: sl_step.simps)
qed

theorem sleeplock_mutual_exclusion_witness:
  "\<exists>t w. sl_run 0 handover (\<lambda>_. None) sleep_state = Inr (t, w,
      [(1, Acquire (BufLock 3)), (1, Release (BufLock 3)), (2, Acquire (BufLock 3))])
    \<and> sleep_owner t (BufLock 3) = Some 2"
  using handover_run
    sleeplock_mutual_exclusion [OF sleep_state_calm, where es = handover and lk = "BufLock 3"]
  by auto

end
