(* ===== verification/Bio.thy ===== *)
theory Bio
  imports SleepLock
begin

unbundle bit_operations_syntax

text \<open>
  The buffer cache, \<^verbatim>\<open>bio.c\<close>, over the memory disk of \<^verbatim>\<open>memide.c\<close>. The circular list through
  \<open>prev\<close> and \<open>next\<close> is kept as the list of buffer indices from \<open>bcache.head.next\<close> on, most recently
  used first. \<open>dk_writes\<close> records the writes the disk has received, in order; it is what a crash
  can cut short. The second part proves the contract of the cache: with at most one process using it,
  \<open>bread\<close>, \<open>bwrite\<close> and \<open>brelse\<close> implement the abstract disk with pending writes of the locale
  \<open>block_cache\<close>, which is what the log is verified against.
\<close>

section \<open>Data\<close>

definition BSIZE :: nat where "BSIZE = 512"
definition NBUF :: nat where "NBUF = 30"
definition B_VALID :: uint where "B_VALID = 2"
definition B_DIRTY :: uint where "B_DIRTY = 4"

type_synonym block = "uchar list"

record buf =
  b_flags :: uint
  b_dev :: uint
  b_blockno :: uint
  b_refcnt :: uint
  b_data :: block

record bst = slst +
  bc_buf :: "buf list"
  bc_lru :: "nat list"
  dk_blocks :: "uint \<Rightarrow> block"
  dk_size :: uint
  dk_writes :: "(uint \<times> block) list"

definition upd_buf :: "nat \<Rightarrow> (buf \<Rightarrow> buf) \<Rightarrow> 'a bst_scheme \<Rightarrow> 'a bst_scheme" where
  "upd_buf i f s = s\<lparr>bc_buf := (bc_buf s)[i := f (bc_buf s ! i)]\<rparr>"

section \<open>The disk\<close>

definition iderw :: "nat \<Rightarrow> 'a bst_scheme \<Rightarrow> failure + 'a bst_scheme" where
  "iderw b s =
     andThen (holdingsleep (BufLock b) s) (\<lambda>(h, s).
     let x = bc_buf s ! b in
     if \<not> h then Inl (Panic ''iderw: buf not locked'')
     else if b_flags x AND (B_VALID OR B_DIRTY) = B_VALID then Inl (Panic ''iderw: nothing to do'')
     else if b_dev x \<noteq> 1 then Inl (Panic ''iderw: request not for disk 1'')
     else if b_blockno x \<ge> dk_size s then Inl (Panic ''iderw: block out of range'')
     else if b_flags x AND B_DIRTY \<noteq> 0
     then let s = upd_buf b (\<lambda>x. x\<lparr>b_flags := b_flags x AND NOT B_DIRTY\<rparr>) s;
              s = s\<lparr>dk_blocks := (dk_blocks s)(b_blockno x := b_data x),
                    dk_writes := dk_writes s @ [(b_blockno x, b_data x)]\<rparr>
          in Inr (upd_buf b (\<lambda>x. x\<lparr>b_flags := b_flags x OR B_VALID\<rparr>) s)
     else let s = upd_buf b (\<lambda>y. y\<lparr>b_data := dk_blocks s (b_blockno x)\<rparr>) s
          in Inr (upd_buf b (\<lambda>x. x\<lparr>b_flags := b_flags x OR B_VALID\<rparr>) s))"

section \<open>The cache\<close>

fun binit_from :: "nat list \<Rightarrow> 'a bst_scheme \<Rightarrow> 'a bst_scheme" where
  "binit_from [] s = s"
| "binit_from (b # bs) s =
     binit_from bs (initsleeplock (BufLock b) ''buffer'' (s\<lparr>bc_lru := b # bc_lru s\<rparr>))"

definition binit :: "'a bst_scheme \<Rightarrow> 'a bst_scheme" where
  "binit s = binit_from [0..<NBUF] ((initlock BCACHE ''bcache'' s)\<lparr>bc_lru := []\<rparr>)"

definition bget :: "uint \<Rightarrow> uint \<Rightarrow> 'a bst_scheme \<Rightarrow> failure + nat \<times> 'a bst_scheme" where
  "bget dev blockno s =
     andThen (acquire BCACHE s) (\<lambda>s.
     case find (\<lambda>b. b_dev (bc_buf s ! b) = dev \<and> b_blockno (bc_buf s ! b) = blockno) (bc_lru s) of
       Some b \<Rightarrow>
         let s = upd_buf b (\<lambda>x. x\<lparr>b_refcnt := b_refcnt x + 1\<rparr>) s
         in andThen (release BCACHE s) (\<lambda>s.
            andThen (acquiresleep (BufLock b) s) (\<lambda>s. Inr (b, s)))
     | None \<Rightarrow>
        (case find (\<lambda>b. b_refcnt (bc_buf s ! b) = 0 \<and> b_flags (bc_buf s ! b) AND B_DIRTY = 0) (rev (bc_lru s)) of
          Some b \<Rightarrow>
            let s = upd_buf b (\<lambda>x. x\<lparr>b_dev := dev, b_blockno := blockno, b_flags := 0, b_refcnt := 1\<rparr>) s
            in andThen (release BCACHE s) (\<lambda>s.
               andThen (acquiresleep (BufLock b) s) (\<lambda>s. Inr (b, s)))
        | None \<Rightarrow> Inl (Panic ''bget: no buffers'')))"

definition bread :: "uint \<Rightarrow> uint \<Rightarrow> 'a bst_scheme \<Rightarrow> failure + nat \<times> 'a bst_scheme" where
  "bread dev blockno s =
     andThen (bget dev blockno s) (\<lambda>(b, s).
     if b_flags (bc_buf s ! b) AND B_VALID = 0
     then andThen (iderw b s) (\<lambda>s. Inr (b, s)) else Inr (b, s))"

definition bwrite :: "nat \<Rightarrow> 'a bst_scheme \<Rightarrow> failure + 'a bst_scheme" where
  "bwrite b s =
     andThen (holdingsleep (BufLock b) s) (\<lambda>(h, s).
     if \<not> h then Inl (Panic ''bwrite'')
     else iderw b (upd_buf b (\<lambda>x. x\<lparr>b_flags := b_flags x OR B_DIRTY\<rparr>) s))"

definition brelse :: "nat \<Rightarrow> 'a bst_scheme \<Rightarrow> failure + 'a bst_scheme" where
  "brelse b s =
     andThen (holdingsleep (BufLock b) s) (\<lambda>(h, s).
     if \<not> h then Inl (Panic ''brelse'')
     else andThen (releasesleep (BufLock b) s) (\<lambda>s.
     andThen (acquire BCACHE s) (\<lambda>s.
     let s = upd_buf b (\<lambda>x. x\<lparr>b_refcnt := b_refcnt x - 1\<rparr>) s;
         s = (if b_refcnt (bc_buf s ! b) = 0 then s\<lparr>bc_lru := b # remove1 b (bc_lru s)\<rparr> else s)
     in release BCACHE s)))"

text \<open>The caller's accesses to \<open>b->data\<close>.\<close>

definition bdata :: "nat \<Rightarrow> 'a bst_scheme \<Rightarrow> block" where
  "bdata b s = b_data (bc_buf s ! b)"

definition set_bdata :: "nat \<Rightarrow> block \<Rightarrow> 'a bst_scheme \<Rightarrow> 'a bst_scheme" where
  "set_bdata b d s = upd_buf b (\<lambda>x. x\<lparr>b_data := d\<rparr>) s"

section \<open>The contract of the cache\<close>

definition bvalid :: "buf \<Rightarrow> bool" where "bvalid x \<longleftrightarrow> b_flags x AND B_VALID \<noteq> 0"
definition bdirty :: "buf \<Rightarrow> bool" where "bdirty x \<longleftrightarrow> b_flags x AND B_DIRTY \<noteq> 0"

lemma bvalid_bit: "bvalid x \<longleftrightarrow> bit (b_flags x) 1"
  using and_exp_eq_0_iff_not_bit [of "b_flags x" 1] by (simp add: bvalid_def B_VALID_def)

lemma bdirty_bit: "bdirty x \<longleftrightarrow> bit (b_flags x) 2"
  using and_exp_eq_0_iff_not_bit [of "b_flags x" 2] by (simp add: bdirty_def B_DIRTY_def)

lemma flag_bits: "bit B_VALID n \<longleftrightarrow> n = 1" "bit B_DIRTY n \<longleftrightarrow> n = 2"
proof -
  have e: "B_VALID = 2 ^ 1" "B_DIRTY = 2 ^ 2" by (simp_all add: B_VALID_def B_DIRTY_def)
  show "bit B_VALID n \<longleftrightarrow> n = 1" "bit B_DIRTY n \<longleftrightarrow> n = 2"
    unfolding e by (auto simp only: bit_exp_iff possible_bit_word) auto
qed

lemma flags_only_valid: "f AND (B_VALID OR B_DIRTY) = B_VALID \<longleftrightarrow> bit f 1 \<and> \<not> bit f 2"
proof
  assume "f AND (B_VALID OR B_DIRTY) = B_VALID"
  then have "bit (f AND (B_VALID OR B_DIRTY)) k = bit B_VALID k" for k by simp
  from this [of 1] this [of 2] show "bit f 1 \<and> \<not> bit f 2" by (simp add: bit_simps flag_bits)
next
  assume "bit f 1 \<and> \<not> bit f 2"
  then show "f AND (B_VALID OR B_DIRTY) = B_VALID"
    by (auto intro!: bit_word_eqI simp: bit_simps flag_bits)
qed

text \<open>The buffer that has a block of disk 1, and the block's contents as the kernel sees them.\<close>

definition has_block :: "'a bst_scheme \<Rightarrow> uint \<Rightarrow> nat \<Rightarrow> bool" where
  "has_block s no b \<longleftrightarrow> b_dev (bc_buf s ! b) = 1 \<and> b_blockno (bc_buf s ! b) = no"

definition view :: "'a bst_scheme \<Rightarrow> uint \<Rightarrow> block" where
  "view s no = (case find (has_block s no) [0..<NBUF] of Some b \<Rightarrow> bdata b s | None \<Rightarrow> dk_blocks s no)"

definition dirty_blocks :: "'a bst_scheme \<Rightarrow> uint set" where
  "dirty_blocks s = {b_blockno (bc_buf s ! b) |b. b < NBUF \<and> bdirty (bc_buf s ! b)}"

text \<open>
  \<open>cache_inv i p H s\<close>: process \<open>p\<close> runs on processor \<open>i\<close>, holds the buffers \<open>H\<close> and no other buffer is
  held. Every block has at most one buffer; a buffer of the disk is valid; one that is neither dirty
  nor held has the disk's contents.
\<close>

definition slot_ok :: "bool \<Rightarrow> int \<Rightarrow> (uint \<Rightarrow> block) \<Rightarrow> buf \<Rightarrow> sleeplock \<Rightarrow> bool" where
  "slot_ok held pid disk x l \<longleftrightarrow>
     (if held then sl_locked l \<noteq> 0 \<and> sl_pid l = pid \<and> b_refcnt x = 1 else sl_locked l = 0 \<and> b_refcnt x = 0)
     \<and> (b_dev x = 1 \<longrightarrow> bvalid x \<and> (\<not> held \<and> \<not> bdirty x \<longrightarrow> b_data x = disk (b_blockno x)))
     \<and> (bdirty x \<longrightarrow> b_dev x = 1)"

definition cache_inv :: "nat \<Rightarrow> nat \<Rightarrow> nat set \<Rightarrow> 'a bst_scheme \<Rightarrow> bool" where
  "cache_inv i p H s \<longleftrightarrow> at_proc s i p \<and> length (bc_buf s) = NBUF
     \<and> distinct (bc_lru s) \<and> set (bc_lru s) = {..<NBUF} \<and> H \<subseteq> {..<NBUF}
     \<and> (\<forall>b<NBUF. slot_ok (b \<in> H) (p_pid (ps_proc s ! p)) (dk_blocks s) (bc_buf s ! b) (sl_tab s (BufLock b)))
     \<and> (\<forall>b<NBUF. \<forall>b'<NBUF. \<forall>no. has_block s no b \<and> has_block s no b' \<longrightarrow> b = b')"

text \<open>What the operations of the cache leave alone: everything but the fields they work on.\<close>

definition beyond :: "'a bst_scheme \<Rightarrow> 'a bst_scheme" where
  "beyond s = s\<lparr>k_cpus := [], ps_proc := [], sl_tab := (\<lambda>_. \<lparr>sl_locked = 0, sl_name = [], sl_pid = 0\<rparr>),
     bc_buf := [], bc_lru := [], dk_blocks := (\<lambda>_. []), dk_writes := []\<rparr>"

lemma beyond_simps [simp]:
  "beyond (probed i s) = beyond s" "beyond (upd_sleep lk f s) = beyond s" "beyond (wakeup1 ch s) = beyond s"
  "beyond (upd_buf b g s) = beyond s" "beyond (set_bdata b d s) = beyond s"
  "beyond (s\<lparr>bc_lru := l\<rparr>) = beyond s"
  "beyond (s\<lparr>dk_blocks := bl, dk_writes := w\<rparr>) = beyond s"
  by (simp_all add: beyond_def probed_def upd_sleep_def wakeup1_def upd_buf_def set_bdata_def)

lemma bst_frame [simp]:
  "bc_buf (probed i s) = bc_buf s" "bc_buf (upd_sleep lk f s) = bc_buf s" "bc_buf (wakeup1 ch s) = bc_buf s"
  "bc_buf (taken i l s) = bc_buf s"
  "bc_lru (probed i s) = bc_lru s" "bc_lru (upd_sleep lk f s) = bc_lru s" "bc_lru (wakeup1 ch s) = bc_lru s"
  "bc_lru (taken i l s) = bc_lru s" "bc_lru (upd_buf b g s) = bc_lru s"
  "dk_blocks (probed i s) = dk_blocks s" "dk_blocks (upd_sleep lk f s) = dk_blocks s"
  "dk_blocks (wakeup1 ch s) = dk_blocks s" "dk_blocks (upd_buf b g s) = dk_blocks s"
  "dk_writes (probed i s) = dk_writes s" "dk_writes (upd_sleep lk f s) = dk_writes s"
  "dk_writes (wakeup1 ch s) = dk_writes s" "dk_writes (upd_buf b g s) = dk_writes s"
  "dk_size (probed i s) = dk_size s" "dk_size (upd_sleep lk f s) = dk_size s"
  "dk_size (wakeup1 ch s) = dk_size s" "dk_size (upd_buf b g s) = dk_size s"
  "sl_tab (upd_buf b g s) = sl_tab s" "ps_proc (upd_buf b g s) = ps_proc s" "ps_proc (upd_sleep lk f s) = ps_proc s"
  by (simp_all add: probed_def upd_sleep_def wakeup1_def taken_def upd_lock_def pushed_def upd_buf_def)

lemma bc_buf_upd_buf: "bc_buf (upd_buf b g s) = (bc_buf s)[b := g (bc_buf s ! b)]"
  by (simp add: upd_buf_def)

lemma sl_tab_upd_sleep: "sl_tab (upd_sleep lk f s) = (sl_tab s)(lk := f (sl_tab s lk))"
  by (simp add: upd_sleep_def)

lemma at_proc_frame [simp]:
  "at_proc (upd_buf b g s) i p = at_proc s i p" "at_proc (upd_sleep lk f s) i p = at_proc s i p"
  "at_proc (wakeup1 ch s) i p = at_proc s i p" "at_proc (s\<lparr>bc_lru := l\<rparr>) i p = at_proc s i p"
  "at_proc (s\<lparr>dk_blocks := bl, dk_writes := w\<rparr>) i p = at_proc s i p"
  by (simp_all add: at_proc_def calm_def here_def cli_ok_def idle_lock_def upd_buf_def upd_sleep_def wakeup1_def)

lemma pid_wakeup1 [simp]: "p < length (ps_proc s) \<Longrightarrow> p_pid (ps_proc (wakeup1 ch s) ! p) = p_pid (ps_proc s ! p)"
  by (simp add: wakeup1_def)

text \<open>A critical section of the cache lock that only touches the cache.\<close>

lemma release_bcache:
  assumes "calm s i"
  shows "release BCACHE (upd_buf b g (taken i BCACHE s)) = Inr (upd_buf b g (probed i s))"
    "release BCACHE ((upd_buf b g (taken i BCACHE s))\<lparr>bc_lru := l\<rparr>) = Inr ((upd_buf b g (probed i s))\<lparr>bc_lru := l\<rparr>)"
proof -
  let ?t = "upd_buf b g (taken i BCACHE s)"
  have c: "in_crit ?t s i BCACHE" "in_crit (?t\<lparr>bc_lru := l\<rparr>) s i BCACHE"
    using in_crit_taken [of i BCACHE s] by (simp_all add: in_crit_def upd_buf_def)
  have e: "left_crit i s ?t = upd_buf b g (probed i s)"
    unfolding left_crit_taken [of i s BCACHE, symmetric] by (simp add: left_crit_def upd_buf_def)
  moreover have "left_crit i s (?t\<lparr>bc_lru := l\<rparr>) = (left_crit i s ?t)\<lparr>bc_lru := l\<rparr>"
    by (simp add: left_crit_def)
  ultimately show "release BCACHE ?t = Inr (upd_buf b g (probed i s))"
    "release BCACHE (?t\<lparr>bc_lru := l\<rparr>) = Inr ((upd_buf b g (probed i s))\<lparr>bc_lru := l\<rparr>)"
    using release_in_crit [OF calm_ready [OF assms] c(1)] release_in_crit [OF calm_ready [OF assms] c(2)] by simp_all
qed

lemma find_SomeD: "find P xs = Some x \<Longrightarrow> x \<in> set xs \<and> P x"
  by (induction xs) (auto split: if_splits)

lemma cache_invD:
  assumes "cache_inv i p H s"
  shows "at_proc s i p" "calm s i" "length (bc_buf s) = NBUF" "set (bc_lru s) = {..<NBUF}"
    and "\<And>b. b < NBUF \<Longrightarrow> b \<in> H \<Longrightarrow> sl_locked (sl_tab s (BufLock b)) \<noteq> 0
      \<and> sl_pid (sl_tab s (BufLock b)) = p_pid (ps_proc s ! p) \<and> b_refcnt (bc_buf s ! b) = 1"
    and "\<And>b. b < NBUF \<Longrightarrow> b \<notin> H \<Longrightarrow> sl_locked (sl_tab s (BufLock b)) = 0 \<and> b_refcnt (bc_buf s ! b) = 0"
    and "\<And>b b' no. b < NBUF \<Longrightarrow> b' < NBUF \<Longrightarrow> has_block s no b \<Longrightarrow> has_block s no b' \<Longrightarrow> b = b'"
    and "\<And>b. b < NBUF \<Longrightarrow> b_dev (bc_buf s ! b) = 1 \<Longrightarrow> bvalid (bc_buf s ! b)"
    and "\<And>b. b < NBUF \<Longrightarrow> b_dev (bc_buf s ! b) = 1 \<Longrightarrow> b \<notin> H \<Longrightarrow> \<not> bdirty (bc_buf s ! b) \<Longrightarrow>
      bdata b s = dk_blocks s (b_blockno (bc_buf s ! b))"
    and "\<And>b. b < NBUF \<Longrightarrow> bdirty (bc_buf s ! b) \<Longrightarrow> b_dev (bc_buf s ! b) = 1"
    and "H \<subseteq> {..<NBUF}" "distinct (bc_lru s)"
proof -
  show "\<And>b b' no. b < NBUF \<Longrightarrow> b' < NBUF \<Longrightarrow> has_block s no b \<Longrightarrow> has_block s no b' \<Longrightarrow> b = b'"
    using assms unfolding cache_inv_def by blast
qed (use assms in \<open>auto simp: cache_inv_def slot_ok_def bdata_def at_proc_def split: if_splits\<close>)

text \<open>\<open>bget\<close> on a block that has a buffer, and on one that needs a buffer.\<close>

definition hold_buf :: "nat \<Rightarrow> nat \<Rightarrow> nat \<Rightarrow> (buf \<Rightarrow> buf) \<Rightarrow> 'a bst_scheme \<Rightarrow> 'a bst_scheme" where
  "hold_buf i p b g s = upd_sleep (BufLock b) (\<lambda>l. l\<lparr>sl_locked := 1, sl_pid := p_pid (ps_proc s ! p)\<rparr>)
     (probed i (upd_buf b g (probed i s)))"

lemma bget_acquire:
  assumes "at_proc s i p" "sl_locked (sl_tab s (BufLock b)) = 0"
  shows "andThen (release BCACHE (upd_buf b g (taken i BCACHE s))) (\<lambda>s. andThen (acquiresleep (BufLock b) s) (\<lambda>s. Inr (b, s)))
    = Inr (b, hold_buf i p b g s)"
proof -
  have c: "calm s i" using assms(1) by (simp add: at_proc_def)
  have "at_proc (upd_buf b g (probed i s)) i p" using assms(1) by simp
  from acquiresleep_eq [OF this, of "BufLock b"] show ?thesis
    using assms by (simp add: release_bcache [OF c] hold_buf_def)
qed

lemma bget_hit:
  assumes "cache_inv i p H s" "b < NBUF" "has_block s no b" "b \<notin> H"
  shows "bget 1 no s = Inr (b, hold_buf i p b (\<lambda>x. x\<lparr>b_refcnt := b_refcnt x + 1\<rparr>) s)"
proof -
  note inv = cache_invD [OF assms(1)]
  have "find (\<lambda>b. b_dev (bc_buf s ! b) = 1 \<and> b_blockno (bc_buf s ! b) = no) (bc_lru s) = Some b"
  proof (cases "find (\<lambda>b. b_dev (bc_buf s ! b) = 1 \<and> b_blockno (bc_buf s ! b) = no) (bc_lru s)")
    case None
    then show ?thesis using assms(2,3) inv(4) by (auto simp: find_None_iff has_block_def)
  next
    case (Some b')
    then have "b' \<in> set (bc_lru s)" "has_block s no b'"
      by (auto simp: find_Some_iff has_block_def)
    then show ?thesis using Some inv(4) inv(7) [OF _ assms(2) _ assms(3)] by auto
  qed
  then show ?thesis
    unfolding bget_def acquire_calm [OF inv(2)] using bget_acquire [OF inv(1)] inv(6) [OF assms(2,4)]
    by (simp add: Let_def)
qed

lemma bget_miss:
  assumes "cache_inv i p H s" "\<And>b. b < NBUF \<Longrightarrow> \<not> has_block s no b"
    and "v < NBUF" "v \<notin> H" "\<not> bdirty (bc_buf s ! v)"
  obtains b where "b < NBUF" "b \<notin> H" "\<not> bdirty (bc_buf s ! b)"
    and "bget 1 no s = Inr (b, hold_buf i p b (\<lambda>x. x\<lparr>b_dev := 1, b_blockno := no, b_flags := 0, b_refcnt := 1\<rparr>) s)"
proof -
  note inv = cache_invD [OF assms(1)]
  let ?free = "\<lambda>b. b_refcnt (bc_buf s ! b) = 0 \<and> b_flags (bc_buf s ! b) AND B_DIRTY = 0"
  have none: "find (\<lambda>b. b_dev (bc_buf s ! b) = 1 \<and> b_blockno (bc_buf s ! b) = no) (bc_lru s) = None"
    using assms(2) inv(4) by (auto simp: find_None_iff has_block_def)
  have "?free v" using inv(6) assms(3-5) by (simp add: bdirty_def)
  then obtain b where f: "find ?free (rev (bc_lru s)) = Some b"
    using assms(3) inv(4) by (cases "find ?free (rev (bc_lru s))") (auto simp: find_None_iff)
  then have "b \<in> set (rev (bc_lru s))" "?free b" using find_SomeD [OF f] by auto
  then have b: "b < NBUF" "?free b" using inv(4) by auto
  then have bH: "b \<notin> H" "\<not> bdirty (bc_buf s ! b)" using inv(5) by (auto simp: bdirty_def)
  have "bget 1 no s = Inr (b, hold_buf i p b (\<lambda>x. x\<lparr>b_dev := 1, b_blockno := no, b_flags := 0, b_refcnt := 1\<rparr>) s)"
    unfolding bget_def acquire_calm [OF inv(2)]
    using bget_acquire [OF inv(1)] inv(6) [OF b(1) bH(1)] none f by (simp add: Let_def)
  with b(1) bH show thesis using that by blast
qed

text \<open>The contents of a block, by whether it has a buffer.\<close>

lemma view_uncached: "(\<And>b. b < NBUF \<Longrightarrow> \<not> has_block s no b) \<Longrightarrow> view s no = dk_blocks s no"
  by (auto simp: view_def find_None_iff split: option.splits dest!: find_SomeD)

lemma view_cached:
  assumes "cache_inv i p H s" "b < NBUF" "has_block s no b"
  shows "view s no = bdata b s"
proof (cases "find (has_block s no) [0..<NBUF]")
  case None
  then show ?thesis using assms(2,3) by (auto simp: find_None_iff)
next
  case (Some b')
  then have "b' < NBUF" "has_block s no b'" using find_SomeD [OF Some] by auto
  then have "b' = b" using cache_invD(7) [OF assms(1)] assms(2,3) by blast
  then show ?thesis using Some by (simp add: view_def)
qed

text \<open>
  A buffer is taken: from a state with the invariant to one where buffer \<open>b\<close> is \<open>x\<close> and is held.
\<close>

definition took :: "nat \<Rightarrow> nat \<Rightarrow> nat \<Rightarrow> buf \<Rightarrow> 'a bst_scheme \<Rightarrow> 'a bst_scheme \<Rightarrow> bool" where
  "took i p b x s t \<longleftrightarrow> at_proc t i p \<and> bc_buf t = (bc_buf s)[b := x] \<and> bc_lru t = bc_lru s
     \<and> dk_blocks t = dk_blocks s \<and> dk_writes t = dk_writes s \<and> beyond t = beyond s
     \<and> sl_locked (sl_tab t (BufLock b)) \<noteq> 0 \<and> sl_pid (sl_tab t (BufLock b)) = p_pid (ps_proc t ! p)
     \<and> p_pid (ps_proc t ! p) = p_pid (ps_proc s ! p)
     \<and> (\<forall>c. c \<noteq> b \<longrightarrow> sl_tab t (BufLock c) = sl_tab s (BufLock c))"

lemma has_block_took:
  "took i p b x s t \<Longrightarrow> length (bc_buf s) = NBUF \<Longrightarrow> c < NBUF \<Longrightarrow>
   has_block t no c \<longleftrightarrow> (if c = b then b_dev x = 1 \<and> b_blockno x = no else has_block s no c)"
  by (auto simp: took_def has_block_def nth_list_update)

lemma cache_inv_took:
  assumes inv: "cache_inv i p H s" and t: "took i p b x s t" and b: "b < NBUF" "b \<notin> H"
    and x: "b_refcnt x = 1" "b_dev x = 1" "bvalid x"
    and u: "\<And>c. c < NBUF \<Longrightarrow> c \<noteq> b \<Longrightarrow> \<not> has_block s (b_blockno x) c"
  shows "cache_inv i p (insert b H) t"
proof -
  note d = cache_invD [OF inv]
  have "c = c'" if "c < NBUF" "c' < NBUF" "has_block t no c" "has_block t no c'" for c c' no
    using that u d(7) has_block_took [OF t d(3)] by (auto split: if_splits)
  moreover have "slot_ok (c \<in> insert b H) (p_pid (ps_proc t ! p)) (dk_blocks t) (bc_buf t ! c) (sl_tab t (BufLock c))"
    if c: "c < NBUF" for c
  proof (cases "c = b")
    case True
    then show ?thesis using t x d(3) b(1) by (simp add: slot_ok_def took_def)
  next
    case False
    have "slot_ok (c \<in> H) (p_pid (ps_proc s ! p)) (dk_blocks s) (bc_buf s ! c) (sl_tab s (BufLock c))"
      using inv c by (simp add: cache_inv_def)
    then show ?thesis using False t by (simp add: took_def)
  qed
  ultimately show ?thesis
    using t b(1) d(3,4,11,12) by (auto simp: cache_inv_def took_def)
qed

lemma view_took:
  assumes inv: "cache_inv i p H s" and t: "took i p b x s t" and inv': "cache_inv i p H' t" and b: "b < NBUF"
    and x: "b_dev x = 1" "b_data x = view s (b_blockno x)"
    and old: "has_block s (b_blockno x) b \<or> (b \<notin> H \<and> \<not> bdirty (bc_buf s ! b))"
    and u: "\<And>c. c < NBUF \<Longrightarrow> c \<noteq> b \<Longrightarrow> \<not> has_block s (b_blockno x) c"
  shows "view t = view s"
proof
  fix no
  note d = cache_invD [OF inv]
  have len: "length (bc_buf s) = NBUF" and dk: "dk_blocks t = dk_blocks s" using d(3) t by (auto simp: took_def)
  note hb = has_block_took [OF t len]
  have buf: "bdata c t = (if c = b then b_data x else bdata c s)" if "c < NBUF" for c
    using t len that by (auto simp: took_def bdata_def nth_list_update)
  show "view t no = view s no"
  proof (cases "no = b_blockno x")
    case True
    then show ?thesis using view_cached [OF inv' b, of no] hb [OF b] x buf [OF b] by simp
  next
    case False
    show ?thesis
    proof (cases "\<exists>c<NBUF. c \<noteq> b \<and> has_block s no c")
      case True
      then obtain c where c: "c < NBUF" "c \<noteq> b" "has_block s no c" by blast
      then show ?thesis
        using view_cached [OF inv c(1,3)] view_cached [OF inv' c(1)] hb [OF c(1)] buf [OF c(1)] by simp
    next
      case n: False
      have "\<not> has_block t no c" if "c < NBUF" for c using n hb [OF that] False that by auto
      then have "view t no = dk_blocks s no" using view_uncached [of t no] dk by simp
      moreover have "view s no = dk_blocks s no"
      proof (cases "has_block s no b")
        case True
        then have "\<not> has_block s (b_blockno x) b" using False by (auto simp: has_block_def)
        then show ?thesis
          using True old d(9) [OF b] view_cached [OF inv b True] by (auto simp: has_block_def)
      next
        case f: False
        then show ?thesis using n view_uncached [of s no] by metis
      qed
      ultimately show ?thesis by simp
    qed
  qed
qed

lemma dirty_blocks_took:
  assumes "took i p b x s t" "length (bc_buf s) = NBUF" "b < NBUF"
    and "bdirty x \<longleftrightarrow> bdirty (bc_buf s ! b)" "bdirty x \<Longrightarrow> b_blockno x = b_blockno (bc_buf s ! b)"
  shows "dirty_blocks t = dirty_blocks s"
  using assms unfolding dirty_blocks_def took_def by (auto simp: nth_list_update; metis)

lemma took_hold_buf:
  assumes "at_proc s i p" "b < length (bc_buf s)"
  shows "took i p b (g (bc_buf s ! b)) s (hold_buf i p b g s)"
  using assms
  by (auto simp: took_def hold_buf_def bc_buf_upd_buf sl_tab_upd_sleep)

lemma took_buf: "took i p b x s t \<Longrightarrow> b < length (bc_buf s) \<Longrightarrow> bc_buf t ! b = x"
  by (simp add: took_def)

lemma upd_buf_twice: "b < length (bc_buf s) \<Longrightarrow> upd_buf b f (upd_buf b g s) = upd_buf b (\<lambda>x. f (g x)) s"
  by (simp add: upd_buf_def)

lemma upd_buf_cong: "f (bc_buf s ! b) = g (bc_buf s ! b) \<Longrightarrow> upd_buf b f s = upd_buf b g s"
  by (simp add: upd_buf_def)

lemma iderw_read:
  assumes "at_proc s i p" "b < length (bc_buf s)" "sl_locked (sl_tab s (BufLock b)) \<noteq> 0"
    and "sl_pid (sl_tab s (BufLock b)) = p_pid (ps_proc s ! p)"
    and "b_flags (bc_buf s ! b) = 0" "b_dev (bc_buf s ! b) = 1" "b_blockno (bc_buf s ! b) < dk_size s"
  shows "iderw b s = Inr (upd_buf b (\<lambda>x. x\<lparr>b_flags := B_VALID, b_data := dk_blocks s (b_blockno x)\<rparr>) (probed i s))"
proof -
  have "(0 :: uint) \<noteq> B_VALID" by (simp add: B_VALID_def)
  then show ?thesis
    using assms(2-) unfolding iderw_def holdingsleep_eq [OF assms(1)]
    by (simp add: Let_def not_le upd_buf_twice) (rule upd_buf_cong, simp_all)
qed

lemma finite_dirty [simp]: "finite (dirty_blocks s)"
proof -
  have "dirty_blocks s = (\<lambda>b. b_blockno (bc_buf s ! b)) ` {b. b < NBUF \<and> bdirty (bc_buf s ! b)}"
    by (auto simp: dirty_blocks_def)
  then show ?thesis by simp
qed

text \<open>While fewer than \<open>NBUF\<close> buffers are held or dirty, one can be recycled.\<close>

lemma card_dirty:
  assumes "cache_inv i p H s"
  shows "card (dirty_blocks s) = card {b. b < NBUF \<and> bdirty (bc_buf s ! b)}"
proof -
  have e: "dirty_blocks s = (\<lambda>b. b_blockno (bc_buf s ! b)) ` {b. b < NBUF \<and> bdirty (bc_buf s ! b)}"
    by (auto simp: dirty_blocks_def)
  have "inj_on (\<lambda>b. b_blockno (bc_buf s ! b)) {b. b < NBUF \<and> bdirty (bc_buf s ! b)}"
  proof (rule inj_onI)
    fix b c assume a: "b \<in> {b. b < NBUF \<and> bdirty (bc_buf s ! b)}" "c \<in> {b. b < NBUF \<and> bdirty (bc_buf s ! b)}"
      "b_blockno (bc_buf s ! b) = b_blockno (bc_buf s ! c)"
    then show "b = c"
      using cache_invD(7) [OF assms, of b c "b_blockno (bc_buf s ! c)"] cache_invD(10) [OF assms] by (simp add: has_block_def)
  qed
  then show ?thesis unfolding e by (rule card_image)
qed

lemma victim:
  assumes inv: "cache_inv i p H s" and few: "card H + card (dirty_blocks s) < NBUF"
  obtains v where "v < NBUF" "v \<notin> H" "\<not> bdirty (bc_buf s ! v)"
proof -
  let ?D = "{b. b < NBUF \<and> bdirty (bc_buf s ! b)}"
  have "card (H \<union> ?D) \<le> card H + card ?D" by (rule card_Un_le)
  also have "\<dots> < card {..<NBUF}" using few card_dirty [OF inv] by simp
  finally have "\<not> {..<NBUF} \<subseteq> H \<union> ?D"
    using card_mono [of "H \<union> ?D" "{..<NBUF}"] finite_subset [OF cache_invD(11) [OF inv]] by auto
  then show thesis using that by auto
qed

lemma bread_spec:
  assumes inv: "cache_inv i p H s" and sz: "no < dk_size s" and nh: "\<And>b. b \<in> H \<Longrightarrow> \<not> has_block s no b"
    and v: "no \<in> dirty_blocks s \<or> card H + card (dirty_blocks s) < NBUF"
  obtains b x t where "bread 1 no s = Inr (b, t)" "took i p b x s t" "b < NBUF" "b \<notin> H"
    and "cache_inv i p (insert b H) t" "has_block t no b" "bdata b t = view s no" "view t = view s"
    and "dirty_blocks t = dirty_blocks s" "bdirty (bc_buf t ! b) \<longleftrightarrow> no \<in> dirty_blocks s"
proof (cases "\<exists>b<NBUF. has_block s no b")
  case True
  then obtain b where b: "b < NBUF" "has_block s no b" by blast
  note d = cache_invD [OF inv]
  have bH: "b \<notin> H" using nh b(2) by blast
  let ?g = "\<lambda>x. x\<lparr>b_refcnt := b_refcnt x + 1\<rparr>"
  let ?t = "hold_buf i p b ?g s" and ?x = "?g (bc_buf s ! b)"
  have dev: "b_dev (bc_buf s ! b) = 1" "b_blockno (bc_buf s ! b) = no" using b(2) by (auto simp: has_block_def)
  have tk: "took i p b ?x s ?t" using took_hold_buf [OF d(1), of b ?g] b(1) d(3) by simp
  have buf: "bc_buf ?t ! b = ?x" by (rule took_buf [OF tk]) (simp add: b(1) d(3))
  have u: "\<not> has_block s (b_blockno ?x) c" if "c < NBUF" "c \<noteq> b" for c
    using d(7) [OF that(1) b(1)] b(2) that(2) dev by auto
  have "bvalid ?x" using d(8) [OF b(1) dev(1)] by (simp add: bvalid_def)
  then have inv': "cache_inv i p (insert b H) ?t"
    using cache_inv_took [OF inv tk b(1) bH _ _ _ u] d(6) [OF b(1) bH] dev by simp
  have data: "b_data ?x = view s no" using view_cached [OF inv b] by (simp add: bdata_def)
  have dirty: "bdirty ?x \<longleftrightarrow> bdirty (bc_buf s ! b)" by (simp add: bdirty_def)
  have "bread 1 no s = Inr (b, ?t)"
    using bget_hit [OF inv b bH] \<open>bvalid ?x\<close> buf by (simp add: bread_def bvalid_def)
  moreover have "view ?t = view s"
    using view_took [OF inv tk inv' b(1) _ _ _ u] data dev b(2) by simp
  moreover have "dirty_blocks ?t = dirty_blocks s" using dirty_blocks_took [OF tk d(3) b(1) dirty] by simp
  moreover have "bdirty (bc_buf ?t ! b) \<longleftrightarrow> no \<in> dirty_blocks s"
  proof
    assume "no \<in> dirty_blocks s"
    then obtain c where c: "c < NBUF" "bdirty (bc_buf s ! c)" "b_blockno (bc_buf s ! c) = no" by (auto simp: dirty_blocks_def)
    then have "has_block s no c" using d(10) by (simp add: has_block_def)
    then have "c = b" using d(7) c(1) b by blast
    then show "bdirty (bc_buf ?t ! b)" using c(2) buf dirty by simp
  qed (use b(1) buf dirty dev in \<open>auto simp: dirty_blocks_def\<close>)
  ultimately show thesis
    using that [OF _ tk b(1) bH inv'] data buf dev by (simp add: bdata_def has_block_def)
next
  case False
  then have nc: "\<And>b. b < NBUF \<Longrightarrow> \<not> has_block s no b" by blast
  note d = cache_invD [OF inv]
  let ?g = "\<lambda>x. x\<lparr>b_dev := 1, b_blockno := no, b_flags := 0, b_refcnt := 1\<rparr>"
  have nd: "no \<notin> dirty_blocks s"
  proof
    assume "no \<in> dirty_blocks s"
    then obtain c where "c < NBUF" "bdirty (bc_buf s ! c)" "b_blockno (bc_buf s ! c) = no" by (auto simp: dirty_blocks_def)
    then show False using d(10) nc by (auto simp: has_block_def)
  qed
  with v obtain v where v: "v < NBUF" "v \<notin> H" "\<not> bdirty (bc_buf s ! v)" using victim [OF inv] by blast
  from bget_miss [OF inv nc v] obtain b where b: "b < NBUF" "b \<notin> H" "\<not> bdirty (bc_buf s ! b)"
    and get: "bget 1 no s = Inr (b, hold_buf i p b ?g s)" by blast
  let ?u = "hold_buf i p b ?g s"
  have tu: "took i p b (?g (bc_buf s ! b)) s ?u" using took_hold_buf [OF d(1), of b ?g] b(1) d(3) by simp
  then have bu: "bc_buf ?u ! b = ?g (bc_buf s ! b)" "length (bc_buf ?u) = NBUF" using b(1) d(3) by (auto simp: took_def)
  let ?x = "(?g (bc_buf s ! b))\<lparr>b_flags := B_VALID, b_data := dk_blocks s no\<rparr>"
  let ?t = "upd_buf b (\<lambda>x. x\<lparr>b_flags := B_VALID, b_data := dk_blocks ?u (b_blockno x)\<rparr>) (probed i ?u)"
  have size: "dk_size ?u = dk_size s" by (simp add: hold_buf_def)
  have rd: "bread 1 no s = Inr (b, ?t)"
    using get iderw_read [of ?u i p b] tu bu b(1) sz size by (simp add: bread_def took_def)
  have tk: "took i p b ?x s ?t"
    using tu bu b(1) by (auto simp: took_def bc_buf_upd_buf)
  have buf: "bc_buf ?t ! b = ?x" by (rule took_buf [OF tk]) (simp add: b(1) d(3))
  have vx: "bvalid ?x" "\<not> bdirty ?x" by (simp_all add: bvalid_def bdirty_def B_VALID_def B_DIRTY_def)
  have u: "\<not> has_block s (b_blockno ?x) c" if "c < NBUF" "c \<noteq> b" for c using nc [OF that(1)] by simp
  have inv': "cache_inv i p (insert b H) ?t"
    using cache_inv_took [OF inv tk b(1,2) _ _ vx(1) u] by simp
  have data: "b_data ?x = view s no" using view_uncached [OF nc] by simp
  have "view ?t = view s" using view_took [OF inv tk inv' b(1) _ _ _ u] data b(2,3) by simp
  moreover have "dirty_blocks ?t = dirty_blocks s"
    using dirty_blocks_took [OF tk d(3) b(1)] vx b(3) by simp
  ultimately show thesis
    using that [OF rd tk b(1,2) inv'] data buf vx nd by (simp add: bdata_def has_block_def)
qed

lemma has_block_keep:
  "b < length (bc_buf s) \<Longrightarrow> bc_buf t = (bc_buf s)[b := x] \<Longrightarrow> b_dev x = b_dev (bc_buf s ! b) \<Longrightarrow>
   b_blockno x = b_blockno (bc_buf s ! b) \<Longrightarrow> has_block t n c = has_block s n c"
  by (cases "c = b") (simp_all add: has_block_def)

lemma cache_inv_upd:
  assumes inv: "cache_inv i p H s" and at: "at_proc t i p" and b: "b < NBUF" and H': "H' = H \<or> H' = H - {b}"
    and t: "bc_buf t = (bc_buf s)[b := x]" "distinct (bc_lru t)" "set (bc_lru t) = {..<NBUF}"
    and id: "b_dev x = b_dev (bc_buf s ! b)" "b_blockno x = b_blockno (bc_buf s ! b)"
    and dk: "\<And>no. \<not> has_block s no b \<Longrightarrow> dk_blocks t no = dk_blocks s no"
    and sl: "\<And>c. c \<noteq> b \<Longrightarrow> sl_tab t (BufLock c) = sl_tab s (BufLock c)"
    and pid: "p_pid (ps_proc t ! p) = p_pid (ps_proc s ! p)"
    and ok: "slot_ok (b \<in> H') (p_pid (ps_proc s ! p)) (dk_blocks t) x (sl_tab t (BufLock b))"
  shows "cache_inv i p H' t"
proof -
  note d = cache_invD [OF inv]
  have hb: "has_block t no c = has_block s no c" if "c < NBUF" for c no
    using t(1) id d(3) that b by (auto simp: has_block_def nth_list_update)
  have "slot_ok (c \<in> H') (p_pid (ps_proc t ! p)) (dk_blocks t) (bc_buf t ! c) (sl_tab t (BufLock c))"
    if c: "c < NBUF" for c
  proof (cases "c = b")
    case True
    then show ?thesis using ok t(1) d(3) b pid by simp
  next
    case False
    have "dk_blocks t (b_blockno (bc_buf s ! c)) = dk_blocks s (b_blockno (bc_buf s ! c))"
      if "b_dev (bc_buf s ! c) = 1"
      using d(7) [OF c b, of "b_blockno (bc_buf s ! c)"] False that by (intro dk) (auto simp: has_block_def)
    moreover have "slot_ok (c \<in> H) (p_pid (ps_proc s ! p)) (dk_blocks s) (bc_buf s ! c) (sl_tab s (BufLock c))"
      using inv c by (simp add: cache_inv_def)
    moreover have "c \<in> H' \<longleftrightarrow> c \<in> H" using H' False by auto
    ultimately show ?thesis using False t(1) sl pid by (simp add: slot_ok_def)
  qed
  moreover have "H' \<subseteq> {..<NBUF}" using H' d(11) by blast
  ultimately show ?thesis using at t d(3,7) hb by (simp add: cache_inv_def) blast
qed

lemma view_upd:
  assumes inv: "cache_inv i p H s" and inv': "cache_inv i p H' t" and b: "b < NBUF" "has_block s no b"
    and t: "bc_buf t = (bc_buf s)[b := x]" and id: "b_dev x = b_dev (bc_buf s ! b)" "b_blockno x = b_blockno (bc_buf s ! b)"
    and dk: "\<And>n. n \<noteq> no \<Longrightarrow> dk_blocks t n = dk_blocks s n"
  shows "view t = (view s)(no := b_data x)"
proof
  fix n
  note d = cache_invD [OF inv]
  have hb: "has_block t m c = has_block s m c" if "c < NBUF" for c m
    using t(1) id d(3) that b by (auto simp: has_block_def nth_list_update)
  show "view t n = ((view s)(no := b_data x)) n"
  proof (cases "n = no")
    case True
    then show ?thesis using view_cached [OF inv' b(1)] hb [OF b(1)] b d(3) t by (simp add: bdata_def)
  next
    case False
    show ?thesis
    proof (cases "\<exists>c<NBUF. has_block s n c")
      case True
      then obtain c where c: "c < NBUF" "has_block s n c" by blast
      then have "c \<noteq> b" using b(2) False by (auto simp: has_block_def)
      then show ?thesis
        using view_cached [OF inv c] view_cached [OF inv' c(1), of n] hb [OF c(1)] c(2) t False by (simp add: bdata_def)
    next
      case f: False
      then have "view s n = dk_blocks s n" "view t n = dk_blocks t n"
        using view_uncached [of s n] view_uncached [of t n] hb by auto
      then show ?thesis using False dk by simp
    qed
  qed
qed

lemma dirty_blocks_iff:
  "n \<in> dirty_blocks s \<longleftrightarrow> (\<exists>c<NBUF. bdirty (bc_buf s ! c) \<and> b_blockno (bc_buf s ! c) = n)"
  by (auto simp: dirty_blocks_def)

lemma dirty_blocks_upd:
  assumes inv: "cache_inv i p H s" and b: "b < NBUF" "has_block s no b"
    and t: "bc_buf t = (bc_buf s)[b := x]" and id: "b_blockno x = b_blockno (bc_buf s ! b)"
  shows "dirty_blocks t = (if bdirty x then insert no (dirty_blocks s) else dirty_blocks s - {no})"
proof -
  note d = cache_invD [OF inv]
  have other: "b_blockno (bc_buf s ! c) \<noteq> no" if "c < NBUF" "c \<noteq> b" "bdirty (bc_buf s ! c)" for c
    using d(7) [OF that(1) b(1)] d(10) [OF that(1,3)] b(2) that(2) by (auto simp: has_block_def)
  have no: "b_blockno (bc_buf s ! b) = no" using b(2) by (simp add: has_block_def)
  have buf: "bc_buf t ! c = (if c = b then x else bc_buf s ! c)" if "c < NBUF" for c
    using t d(3) that by (auto simp: nth_list_update)
  have "n \<in> dirty_blocks t \<longleftrightarrow> (if n = no then bdirty x else n \<in> dirty_blocks s)" for n
  proof (cases "n = no")
    case True
    have "(\<exists>c<NBUF. bdirty (bc_buf t ! c) \<and> b_blockno (bc_buf t ! c) = no) \<longleftrightarrow> bdirty x"
    proof
      assume "\<exists>c<NBUF. bdirty (bc_buf t ! c) \<and> b_blockno (bc_buf t ! c) = no"
      then obtain c where c: "c < NBUF" "bdirty (bc_buf t ! c)" "b_blockno (bc_buf t ! c) = no" by blast
      then show "bdirty x" using other [of c] buf [of c] by (cases "c = b") auto
    qed (use b(1) buf id no in auto)
    then show ?thesis using True by (simp add: dirty_blocks_iff)
  next
    case False
    have "(\<exists>c<NBUF. bdirty (bc_buf t ! c) \<and> b_blockno (bc_buf t ! c) = n) \<longleftrightarrow>
        (\<exists>c<NBUF. bdirty (bc_buf s ! c) \<and> b_blockno (bc_buf s ! c) = n)"
    proof (intro ex_cong1)
      fix c
      show "c < NBUF \<and> bdirty (bc_buf t ! c) \<and> b_blockno (bc_buf t ! c) = n \<longleftrightarrow>
          c < NBUF \<and> bdirty (bc_buf s ! c) \<and> b_blockno (bc_buf s ! c) = n"
        using buf [of c] id no False by (cases "c = b") auto
    qed
    then show ?thesis using False by (simp add: dirty_blocks_iff)
  qed
  then show ?thesis by (intro set_eqI) simp
qed

text \<open>The caller of \<open>bread\<close> changes the data of a buffer it holds.\<close>

lemma set_bdata_spec:
  assumes inv: "cache_inv i p H s" and b: "b \<in> H" "has_block s no b"
  shows "cache_inv i p H (set_bdata b d s)" "view (set_bdata b d s) = (view s)(no := d)"
    "dirty_blocks (set_bdata b d s) = dirty_blocks s" "bdata b (set_bdata b d s) = d"
    "dk_blocks (set_bdata b d s) = dk_blocks s" "dk_writes (set_bdata b d s) = dk_writes s"
proof -
  note D = cache_invD [OF inv]
  have lt: "b < NBUF" using D(11) b(1) by auto
  let ?x = "(bc_buf s ! b)\<lparr>b_data := d\<rparr>" and ?t = "set_bdata b d s"
  have buf: "bc_buf ?t = (bc_buf s)[b := ?x]" by (simp add: set_bdata_def bc_buf_upd_buf)
  have "slot_ok True (p_pid (ps_proc s ! p)) (dk_blocks s) (bc_buf s ! b) (sl_tab s (BufLock b))"
    using inv lt b(1) by (auto simp: cache_inv_def)
  then have ok: "slot_ok True (p_pid (ps_proc s ! p)) (dk_blocks s) ?x (sl_tab s (BufLock b))"
    by (simp add: slot_ok_def bvalid_def bdirty_def)
  show inv': "cache_inv i p H ?t"
    by (rule cache_inv_upd [OF inv _ lt _ buf]) (use D b ok in \<open>simp_all add: set_bdata_def\<close>)
  show "view ?t = (view s)(no := d)"
    using view_upd [OF inv inv' lt b(2) buf] by (simp add: set_bdata_def)
  have "bdirty ?x \<longleftrightarrow> bdirty (bc_buf s ! b)" by (simp add: bdirty_def)
  moreover have "bdirty (bc_buf s ! b) \<longleftrightarrow> no \<in> dirty_blocks s"
    using dirty_blocks_upd [OF inv lt b(2), of s "bc_buf s ! b"] by (auto split: if_splits)
  ultimately show "dirty_blocks ?t = dirty_blocks s"
    using dirty_blocks_upd [OF inv lt b(2) buf] by auto
  show "bdata b ?t = d" using lt D(3) by (simp add: bdata_def buf)
qed (simp_all add: set_bdata_def)

lemma dirty_held:
  assumes "cache_inv i p H s" "b < NBUF" "has_block s no b"
  shows "bdirty (bc_buf s ! b) \<longleftrightarrow> no \<in> dirty_blocks s"
  using dirty_blocks_upd [OF assms, of s "bc_buf s ! b"] by (auto split: if_splits)

lemma bwrite_spec:
  assumes inv: "cache_inv i p H s" and b: "b \<in> H" "has_block s no b" and sz: "no < dk_size s"
  obtains t where "bwrite b s = Inr t" "cache_inv i p H t" "view t = view s" "dirty_blocks t = dirty_blocks s - {no}"
    and "dk_blocks t = (dk_blocks s)(no := view s no)" "dk_writes t = dk_writes s @ [(no, view s no)]"
    and "beyond t = beyond s" "\<And>c n. has_block t n c = has_block s n c"
proof -
  note D = cache_invD [OF inv]
  have lt: "b < NBUF" using D(11) b(1) by auto
  note h = D(5) [OF lt b(1)]
  have dev: "b_dev (bc_buf s ! b) = 1" "b_blockno (bc_buf s ! b) = no" using b(2) by (auto simp: has_block_def)
  let ?f = "b_flags (bc_buf s ! b)"
  let ?x = "(bc_buf s ! b)\<lparr>b_flags := (?f OR B_DIRTY) AND NOT B_DIRTY OR B_VALID\<rparr>"
  let ?d = "b_data (bc_buf s ! b)"
  let ?t = "(upd_buf b (\<lambda>_. ?x) (probed i (probed i s)))\<lparr>dk_blocks := (dk_blocks s)(no := ?d),
    dk_writes := dk_writes s @ [(no, ?d)]\<rparr>"
  have fl: "(?f OR B_DIRTY) AND (B_VALID OR B_DIRTY) \<noteq> B_VALID" "(?f OR B_DIRTY) AND B_DIRTY \<noteq> 0"
    using flags_only_valid [of "?f OR B_DIRTY"] bdirty_bit [of "(bc_buf s ! b)\<lparr>b_flags := ?f OR B_DIRTY\<rparr>"]
    by (auto simp: bit_simps flag_bits bdirty_def)
  have data: "?d = view s no" using view_cached [OF inv lt b(2)] by (simp add: bdata_def)
  have "at_proc (upd_buf b (\<lambda>x. x\<lparr>b_flags := b_flags x OR B_DIRTY\<rparr>) (probed i s)) i p" using D(1) by simp
  note hs = holdingsleep_eq [OF this, of "BufLock b"] holdingsleep_eq [OF D(1), of "BufLock b"]
  have pu: "probed i (upd_buf b g u) = upd_buf b g (probed i u)" for g and u :: "'a bst_scheme"
    by (simp add: probed_def upd_buf_def)
  have wr: "bwrite b s = Inr ?t"
    using h dev lt D(3) sz fl unfolding bwrite_def iderw_def
    by (simp add: hs Let_def bc_buf_upd_buf not_le pu) (simp add: upd_buf_def)
  have buf: "bc_buf ?t = (bc_buf s)[b := ?x]" by (simp add: bc_buf_upd_buf)
  have clean: "\<not> bdirty ?x" "bvalid ?x" by (simp_all add: bdirty_bit bvalid_bit bit_simps flag_bits)
  have inv': "cache_inv i p H ?t"
  proof (rule cache_inv_upd [OF inv _ lt _ buf])
    show "at_proc ?t i p" using D(1) by simp
    show "slot_ok (b \<in> H) (p_pid (ps_proc s ! p)) (dk_blocks ?t) ?x (sl_tab ?t (BufLock b))"
      using h b(1) clean dev by (simp add: slot_ok_def)
  qed (use D b dev in \<open>auto simp: has_block_def\<close>)
  have "view ?t = view s"
    using view_upd [OF inv inv' lt b(2) buf] data by (simp add: fun_upd_idem)
  moreover have "dirty_blocks ?t = dirty_blocks s - {no}"
    using dirty_blocks_upd [OF inv lt b(2) buf] clean by simp
  moreover have "beyond ?t = beyond s" by simp
  moreover have "has_block ?t n c = has_block s n c" for n c
    using lt D(3) by (intro has_block_keep [OF _ buf]) simp_all
  ultimately show thesis using that [OF wr inv'] data by simp
qed

lemma calm_upd_sleep: "calm (upd_sleep lk f s) i = calm s i"
  by (rule calm_cong) (simp_all add: upd_sleep_def)

lemma brelse_spec:
  assumes inv: "cache_inv i p H s" and b: "b \<in> H" "has_block s no b"
    and ok: "no \<in> dirty_blocks s \<or> view s no = dk_blocks s no"
  obtains t where "brelse b s = Inr t" "cache_inv i p (H - {b}) t" "view t = view s" "dirty_blocks t = dirty_blocks s"
    and "dk_blocks t = dk_blocks s" "dk_writes t = dk_writes s" "beyond t = beyond s"
    and "\<And>c n. has_block t n c = has_block s n c"
proof -
  note D = cache_invD [OF inv]
  have lt: "b < NBUF" using D(11) b(1) by auto
  note h = D(5) [OF lt b(1)]
  let ?u = "wakeup1 (ChSleeplock (BufLock b)) (upd_sleep (BufLock b) (\<lambda>l. l\<lparr>sl_locked := 0, sl_pid := 0\<rparr>) (probed i (probed i s)))"
  let ?g = "\<lambda>x :: buf. x\<lparr>b_refcnt := b_refcnt x - 1\<rparr>"
  let ?x = "?g (bc_buf s ! b)"
  let ?t = "(upd_buf b ?g (probed i ?u))\<lparr>bc_lru := b # remove1 b (bc_lru s)\<rparr>"
  have at: "at_proc (probed i s) i p" "calm (probed i s) i" using D(1,2) by simp_all
  have cu: "calm ?u i" using D(2) by (simp add: calm_upd_sleep)
  have refs: "b_refcnt (bc_buf (upd_buf b ?g (taken i BCACHE ?u)) ! b) = 0"
    using h lt D(3) by (simp add: bc_buf_upd_buf)
  have rel: "brelse b s = Inr ?t"
    unfolding brelse_def holdingsleep_eq [OF D(1)]
    using h refs release_bcache(2) [OF cu, where b = b and g = ?g and l = "b # remove1 b (bc_lru s)"]
    by (simp add: releasesleep_eq [OF at(2)] acquire_calm [OF cu] Let_def)
  have buf: "bc_buf ?t = (bc_buf s)[b := ?x]" by (simp add: bc_buf_upd_buf)
  have len: "p < length (ps_proc s)" using D(1) by (simp add: at_proc_def)
  have so: "slot_ok True (p_pid (ps_proc s ! p)) (dk_blocks s) (bc_buf s ! b) (sl_tab s (BufLock b))"
    using inv lt b(1) by (auto simp: cache_inv_def)
  have dd: "bdirty ?x \<longleftrightarrow> bdirty (bc_buf s ! b)" "bvalid ?x \<longleftrightarrow> bvalid (bc_buf s ! b)" by (simp_all add: bdirty_def bvalid_def)
  have data: "b_data (bc_buf s ! b) = view s no" using view_cached [OF inv lt b(2)] by (simp add: bdata_def)
  have inv': "cache_inv i p (H - {b}) ?t"
  proof (rule cache_inv_upd [OF inv _ lt _ buf])
    show "slot_ok (b \<in> H - {b}) (p_pid (ps_proc s ! p)) (dk_blocks ?t) ?x (sl_tab ?t (BufLock b))"
      using so ok dd data dirty_held [OF inv lt b(2)] b(2)
      by (auto simp: slot_ok_def sl_tab_upd_sleep has_block_def)
    show "distinct (bc_lru ?t)" "set (bc_lru ?t) = {..<NBUF}" using D(4,12) lt by (auto simp: set_remove1_eq)
  qed (use D(1) len in \<open>auto simp: sl_tab_upd_sleep\<close>)
  have "view ?t = view s" using view_upd [OF inv inv' lt b(2) buf] data by (simp add: fun_upd_idem)
  moreover have "dirty_blocks ?t = dirty_blocks s"
    using dirty_blocks_upd [OF inv lt b(2) buf] dirty_held [OF inv lt b(2)] dd(1) by auto
  moreover have "has_block ?t n c = has_block s n c" for n c
    using lt D(3) by (intro has_block_keep [OF _ buf]) simp_all
  ultimately show thesis using that [OF rel inv'] by simp
qed

lemma clean_view:
  assumes inv: "cache_inv i p {} s" and c: "no \<notin> dirty_blocks s"
  shows "view s no = dk_blocks s no"
proof (cases "\<exists>b<NBUF. has_block s no b")
  case True
  then obtain b where b: "b < NBUF" "has_block s no b" by blast
  then have "\<not> bdirty (bc_buf s ! b)" using dirty_held [OF inv b] c by simp
  then show ?thesis
    using view_cached [OF inv b] cache_invD(9) [OF inv b(1)] b(2) by (simp add: has_block_def)
qed (use view_uncached [of s no] in blast)

section \<open>The cache as a disk with pending writes\<close>

text \<open>
  What a client of the cache sees of it: the contents of every block, the blocks whose contents have
  been changed but not written, the disk and the writes it has received, and the rest of the state.
\<close>

record 'r disk_view =
  dv_cont :: "uint \<Rightarrow> block"
  dv_pend :: "uint set"
  dv_disk :: "uint \<Rightarrow> block"
  dv_writes :: "(uint \<times> block) list"
  dv_rest :: 'r

definition dv_put :: "uint \<Rightarrow> block \<Rightarrow> 'r disk_view \<Rightarrow> 'r disk_view" where
  "dv_put no d a = a\<lparr>dv_cont := (dv_cont a)(no := d)\<rparr>"

definition dv_write :: "uint \<Rightarrow> 'r disk_view \<Rightarrow> 'r disk_view" where
  "dv_write no a = a\<lparr>dv_pend := dv_pend a - {no}, dv_disk := (dv_disk a)(no := dv_cont a no),
     dv_writes := dv_writes a @ [(no, dv_cont a no)]\<rparr>"

definition dv_copy :: "uint \<Rightarrow> uint \<Rightarrow> 'r disk_view \<Rightarrow> 'r disk_view" where
  "dv_copy src dst a = dv_write dst (dv_put dst (dv_cont a src) a)"

definition disk_of :: "'a bst_scheme \<Rightarrow> 'a bst_scheme disk_view" where
  "disk_of s = \<lparr>dv_cont = view s, dv_pend = dirty_blocks s, dv_disk = dk_blocks s, dv_writes = dk_writes s,
     dv_rest = beyond s\<rparr>"

locale block_cache =
  fixes rd :: "uint \<Rightarrow> 's \<Rightarrow> 'e + nat \<times> 's"
    and wr rel :: "nat \<Rightarrow> 's \<Rightarrow> 'e + 's"
    and get :: "nat \<Rightarrow> 's \<Rightarrow> block"
    and put :: "nat \<Rightarrow> block \<Rightarrow> 's \<Rightarrow> 's"
    and inv :: "nat set \<Rightarrow> 's \<Rightarrow> bool"
    and has :: "'s \<Rightarrow> uint \<Rightarrow> nat \<Rightarrow> bool"
    and abs :: "'s \<Rightarrow> 'r disk_view"
    and limit :: "'r \<Rightarrow> uint"
    and slots :: nat
  assumes rd_law: "\<lbrakk>inv H s; no < limit (dv_rest (abs s)); \<And>b. b \<in> H \<Longrightarrow> \<not> has s no b;
      no \<in> dv_pend (abs s) \<or> card H + card (dv_pend (abs s)) < slots\<rbrakk> \<Longrightarrow>
      \<exists>b t. rd no s = Inr (b, t) \<and> b \<notin> H \<and> inv (insert b H) t \<and> has t no b \<and> abs t = abs s
        \<and> (\<forall>c\<in>H. \<forall>n. has t n c = has s n c)"
    and put_law: "\<lbrakk>inv H s; b \<in> H; has s no b\<rbrakk> \<Longrightarrow> inv H (put b d s) \<and> abs (put b d s) = dv_put no d (abs s)
        \<and> (\<forall>c n. has (put b d s) n c = has s n c)"
    and wr_law: "\<lbrakk>inv H s; b \<in> H; has s no b; no < limit (dv_rest (abs s))\<rbrakk> \<Longrightarrow>
      \<exists>t. wr b s = Inr t \<and> inv H t \<and> abs t = dv_write no (abs s) \<and> (\<forall>c n. has t n c = has s n c)"
    and rel_law: "\<lbrakk>inv H s; b \<in> H; has s no b; no \<in> dv_pend (abs s) \<or> dv_cont (abs s) no = dv_disk (abs s) no\<rbrakk> \<Longrightarrow>
      \<exists>t. rel b s = Inr t \<and> inv (H - {b}) t \<and> abs t = abs s \<and> (\<forall>c n. has t n c = has s n c)"
    and get_law: "\<lbrakk>inv H s; b \<in> H; has s no b\<rbrakk> \<Longrightarrow> get b s = dv_cont (abs s) no"
    and one_block: "has s n b \<Longrightarrow> has s m b \<Longrightarrow> n = m"
    and clean: "inv {} s \<Longrightarrow> no \<notin> dv_pend (abs s) \<Longrightarrow> dv_cont (abs s) no = dv_disk (abs s) no"
begin

lemma copy_held:
  assumes inv: "inv {l, d} s" and l: "has s src l" and d: "has s dst d" and ne: "src \<noteq> dst"
    and lt: "dst < limit (dv_rest (abs s))" and src: "src \<in> dv_pend (abs s) \<or> dv_cont (abs s) src = dv_disk (abs s) src"
  shows "\<exists>t. andThen (wr d (put d (get l s) s)) (\<lambda>s. andThen (rel l s) (rel d)) = Inr t \<and> inv {} t
    \<and> abs t = dv_copy src dst (abs s)"
proof -
  have ld: "l \<noteq> d" using one_block l d ne by blast
  let ?s1 = "put d (get l s) s"
  have s1: "inv {l, d} ?s1" "abs ?s1 = dv_put dst (dv_cont (abs s) src) (abs s)" "has ?s1 n c = has s n c" for n c
    using put_law [OF inv _ d] get_law [OF inv _ l] by auto
  obtain s2 where s2: "wr d ?s1 = Inr s2" "inv {l, d} s2" "abs s2 = dv_copy src dst (abs s)" "\<And>n c. has s2 n c = has s n c"
    using wr_law [OF s1(1), of d dst] s1 d lt by (auto simp: dv_put_def dv_copy_def)
  obtain s3 where s3: "rel l s2 = Inr s3" "inv ({l, d} - {l}) s3" "abs s3 = abs s2" "\<And>n c. has s3 n c = has s n c"
    using rel_law [OF s2(2), of l src] s2 l src ne by (auto simp: dv_copy_def dv_put_def dv_write_def)
  have "{l, d} - {l} = {d}" using ld by auto
  then obtain s4 where "rel d s3 = Inr s4" "inv ({d} - {d}) s4" "abs s4 = abs s3"
    using rel_law [of "{d}" s3 d dst] s3 s2(3) d by (auto simp: dv_copy_def dv_put_def dv_write_def)
  then show ?thesis using s2 s3 by auto
qed

lemma read_two:
  assumes inv: "inv {} s" and ne: "x \<noteq> y" and lt: "x < limit (dv_rest (abs s))" "y < limit (dv_rest (abs s))"
    and few: "card (dv_pend (abs s)) < slots" "y \<in> dv_pend (abs s) \<or> card (dv_pend (abs s)) + 1 < slots"
  shows "\<exists>b c s1 s2. rd x s = Inr (b, s1) \<and> rd y s1 = Inr (c, s2) \<and> inv {b, c} s2 \<and> has s2 x b \<and> has s2 y c
    \<and> abs s1 = abs s \<and> abs s2 = abs s"
proof -
  obtain b s1 where s1: "rd x s = Inr (b, s1)" "inv {b} s1" "has s1 x b" "abs s1 = abs s"
    using rd_law [OF inv lt(1)] few(1) by auto
  obtain c s2 where s2: "rd y s1 = Inr (c, s2)" "inv (insert c {b}) s2" "has s2 y c" "abs s2 = abs s1"
      "\<forall>c\<in>{b}. \<forall>n. has s2 n c = has s1 n c"
    using rd_law [OF s1(2), of y] one_block [OF s1(3)] ne lt(2) few(2) s1(4) by fastforce
  then show ?thesis using s1 by (auto simp: insert_commute)
qed

lemma copy_block:
  assumes inv: "inv {} s" and ne: "src \<noteq> dst" and lt: "src < limit (dv_rest (abs s))" "dst < limit (dv_rest (abs s))"
    and few: "card (dv_pend (abs s)) < slots"
  shows src_first: "dst \<in> dv_pend (abs s) \<or> card (dv_pend (abs s)) + 1 < slots \<Longrightarrow>
      \<exists>l d s1 s2 t. rd src s = Inr (l, s1) \<and> abs s1 = abs s \<and> rd dst s1 = Inr (d, s2) \<and> inv {} t
        \<and> andThen (wr d (put d (get l s2) s2)) (\<lambda>s. andThen (rel l s) (rel d)) = Inr t \<and> abs t = dv_copy src dst (abs s)"
    and dst_first: "src \<in> dv_pend (abs s) \<or> card (dv_pend (abs s)) + 1 < slots \<Longrightarrow>
      \<exists>l d s1 s2 t. rd dst s = Inr (d, s1) \<and> abs s1 = abs s \<and> rd src s1 = Inr (l, s2) \<and> inv {} t
        \<and> andThen (wr d (put d (get l s2) s2)) (\<lambda>s. andThen (rel l s) (rel d)) = Inr t \<and> abs t = dv_copy src dst (abs s)"
proof -
  have src: "src \<in> dv_pend (abs s) \<or> dv_cont (abs s) src = dv_disk (abs s) src" using clean [OF inv] by blast
  { assume "dst \<in> dv_pend (abs s) \<or> card (dv_pend (abs s)) + 1 < slots"
    then obtain l d s1 s2 where "rd src s = Inr (l, s1)" "rd dst s1 = Inr (d, s2)" "inv {l, d} s2" "has s2 src l"
        "has s2 dst d" "abs s1 = abs s" "abs s2 = abs s" using read_two [OF inv ne lt few] by blast
    then show "\<exists>l d s1 s2 t. rd src s = Inr (l, s1) \<and> abs s1 = abs s \<and> rd dst s1 = Inr (d, s2) \<and> inv {} t
        \<and> andThen (wr d (put d (get l s2) s2)) (\<lambda>s. andThen (rel l s) (rel d)) = Inr t \<and> abs t = dv_copy src dst (abs s)"
      using copy_held [of l d s2 src dst] src ne lt(2) by auto }
  { assume "src \<in> dv_pend (abs s) \<or> card (dv_pend (abs s)) + 1 < slots"
    then obtain d l s1 s2 where "rd dst s = Inr (d, s1)" "rd src s1 = Inr (l, s2)" "inv {d, l} s2" "has s2 dst d"
        "has s2 src l" "abs s1 = abs s" "abs s2 = abs s" using read_two [OF inv ne [symmetric] lt(2,1) few] by blast
    then show "\<exists>l d s1 s2 t. rd dst s = Inr (d, s1) \<and> abs s1 = abs s \<and> rd src s1 = Inr (l, s2) \<and> inv {} t
        \<and> andThen (wr d (put d (get l s2) s2)) (\<lambda>s. andThen (rel l s) (rel d)) = Inr t \<and> abs t = dv_copy src dst (abs s)"
      using copy_held [of l d s2 src dst] src ne lt(2) by (auto simp: insert_commute) }
qed

text \<open>Reading a block, and changing one through \<open>f\<close> and writing it.\<close>

lemma read_block:
  assumes inv: "inv {} s" and lt: "no < limit (dv_rest (abs s))" and few: "card (dv_pend (abs s)) < slots"
  shows "\<exists>b s1 t. rd no s = Inr (b, s1) \<and> get b s1 = dv_cont (abs s) no \<and> abs s1 = abs s
    \<and> inv {b} s1 \<and> has s1 no b \<and> rel b s1 = Inr t \<and> inv {} t \<and> abs t = abs s"
proof -
  obtain b s1 where s1: "rd no s = Inr (b, s1)" "inv {b} s1" "has s1 no b" "abs s1 = abs s"
    using rd_law [OF inv lt] few by auto
  moreover have "get b s1 = dv_cont (abs s) no" using get_law [OF s1(2) _ s1(3)] s1(4) by simp
  moreover obtain t where "rel b s1 = Inr t" "inv {} t" "abs t = abs s1"
    using rel_law [OF s1(2) _ s1(3)] clean [OF inv] s1(4) by auto
  ultimately show ?thesis by auto
qed

lemma rewrite_block:
  assumes inv: "inv {} s" and lt: "no < limit (dv_rest (abs s))" and few: "card (dv_pend (abs s)) < slots"
  shows "\<exists>b s1 t. rd no s = Inr (b, s1) \<and> get b s1 = dv_cont (abs s) no \<and> abs s1 = abs s
    \<and> andThen (wr b (put b d s1)) (rel b) = Inr t \<and> inv {} t \<and> abs t = dv_write no (dv_put no d (abs s))"
proof -
  obtain b s1 where s1: "rd no s = Inr (b, s1)" "inv {b} s1" "has s1 no b" "abs s1 = abs s" "get b s1 = dv_cont (abs s) no"
    using read_block [OF inv lt few] by blast
  note p = put_law [OF s1(2) _ s1(3), of d]
  obtain s2 where s2: "wr b (put b d s1) = Inr s2" "inv {b} s2" "abs s2 = dv_write no (dv_put no d (abs s))"
      "\<forall>c n. has s2 n c = has s1 n c"
    using wr_law [of "{b}" "put b d s1" b no] p s1 lt by (auto simp: dv_put_def)
  obtain t where "rel b s2 = Inr t" "inv {} t" "abs t = abs s2"
    using rel_law [OF s2(2), of b no] s2 s1(3) by (auto simp: dv_write_def dv_put_def)
  then show ?thesis using s1 s2 by auto
qed

end

lemma beyond_fields [simp]: "dk_size (beyond s) = dk_size s"
  by (simp add: beyond_def)

interpretation bcache: block_cache "bread 1" bwrite brelse bdata set_bdata "cache_inv i p" has_block
  "disk_of :: 'a bst_scheme \<Rightarrow> _" dk_size NBUF
proof unfold_locales
  fix H and s :: "'a bst_scheme" and no b d n m
  show "\<exists>b t. bread 1 no s = Inr (b, t) \<and> b \<notin> H \<and> cache_inv i p (insert b H) t \<and> has_block t no b
      \<and> disk_of t = disk_of s \<and> (\<forall>c\<in>H. \<forall>n. has_block t n c = has_block s n c)"
    if inv: "cache_inv i p H s" and lt: "no < dk_size (dv_rest (disk_of s))" and nh: "\<And>b. b \<in> H \<Longrightarrow> \<not> has_block s no b"
      and v: "no \<in> dv_pend (disk_of s) \<or> card H + card (dv_pend (disk_of s)) < NBUF"
  proof -
    have lt': "no < dk_size s" and v': "no \<in> dirty_blocks s \<or> card H + card (dirty_blocks s) < NBUF"
      using lt v by (simp_all add: disk_of_def)
    obtain b x t where t: "bread 1 no s = Inr (b, t)" "took i p b x s t" "b < NBUF" "b \<notin> H"
      "cache_inv i p (insert b H) t" "has_block t no b" "view t = view s" "dirty_blocks t = dirty_blocks s"
      using bread_spec [OF inv lt' nh v'] by metis
    have "has_block t n c = has_block s n c" if "c \<in> H" for n c
    proof -
      have "c < NBUF" "c \<noteq> b" using cache_invD(11) [OF inv] that t(4) by auto
      then show ?thesis using has_block_took [OF t(2) cache_invD(3) [OF inv], of c n] by simp
    qed
    moreover have "disk_of t = disk_of s" using t(2,7,8) by (simp add: disk_of_def took_def)
    ultimately show ?thesis using t by blast
  qed
  assume inv: "cache_inv i p H s" and b: "b \<in> H" "has_block s no b"
  have "b < NBUF" using cache_invD(11) [OF inv] b(1) by auto
  then show "bdata b s = dv_cont (disk_of s) no" using view_cached [OF inv _ b(2)] by (simp add: disk_of_def)
  show "cache_inv i p H (set_bdata b d s) \<and> disk_of (set_bdata b d s) = dv_put no d (disk_of s)
      \<and> (\<forall>c n. has_block (set_bdata b d s) n c = has_block s n c)"
  proof -
    have "has_block (set_bdata b d s) n c = has_block s n c" for n c
      using \<open>b < NBUF\<close> cache_invD(3) [OF inv]
      by (intro has_block_keep [of b s _ "(bc_buf s ! b)\<lparr>b_data := d\<rparr>"]) (simp_all add: set_bdata_def bc_buf_upd_buf)
    then show ?thesis using set_bdata_spec [OF inv b, of d] by (simp add: disk_of_def dv_put_def)
  qed
  show "\<exists>t. bwrite b s = Inr t \<and> cache_inv i p H t \<and> disk_of t = dv_write no (disk_of s)
      \<and> (\<forall>c n. has_block t n c = has_block s n c)" if "no < dk_size (dv_rest (disk_of s))"
  proof -
    have "no < dk_size s" using that by (simp add: disk_of_def)
    then obtain t where "bwrite b s = Inr t" "cache_inv i p H t" "view t = view s" "dirty_blocks t = dirty_blocks s - {no}"
      "dk_blocks t = (dk_blocks s)(no := view s no)" "dk_writes t = dk_writes s @ [(no, view s no)]"
      "beyond t = beyond s" "\<And>c n. has_block t n c = has_block s n c"
      by (rule bwrite_spec [OF inv b]) (rule that)
    then show ?thesis by (simp add: disk_of_def dv_write_def)
  qed
  show "\<exists>t. brelse b s = Inr t \<and> cache_inv i p (H - {b}) t \<and> disk_of t = disk_of s
      \<and> (\<forall>c n. has_block t n c = has_block s n c)"
    if "no \<in> dv_pend (disk_of s) \<or> dv_cont (disk_of s) no = dv_disk (disk_of s) no"
  proof -
    have "no \<in> dirty_blocks s \<or> view s no = dk_blocks s no" using that by (simp add: disk_of_def)
    then obtain t where "brelse b s = Inr t" "cache_inv i p (H - {b}) t" "view t = view s" "dirty_blocks t = dirty_blocks s"
      "dk_blocks t = dk_blocks s" "dk_writes t = dk_writes s" "beyond t = beyond s"
      "\<And>c n. has_block t n c = has_block s n c"
      by (rule brelse_spec [OF inv b]) (rule that)
    then show ?thesis by (simp add: disk_of_def)
  qed
qed (auto simp: has_block_def disk_of_def clean_view)

end
