(* ===== verification/Log.thy ===== *)
theory Log
  imports Bio
begin

unbundle bit_operations_syntax

text \<open>
  The write-ahead log, \<^verbatim>\<open>log.c\<close>, and the reading of the super block (\<open>readsb\<close> of \<^verbatim>\<open>fs.c\<close>), which it
  needs at start-up. The header of the log is kept in memory (\<open>lg_n\<close>, \<open>lg_block\<close>) and in the
  first block of the log on disk, encoded as in C: the count, then the block numbers.
  \<open>begin_op\<close> is in parts like the other functions that sleep; the file system calls \<open>begin_op\<close>
  itself, for which having to wait is the outcome \<open>Sleeps\<close>.
  The lemmas express \<open>commit\<close> and \<open>recover_from_log\<close> as sequences of disk writes, against the contract
  of the buffer cache, and show what recovery makes of every prefix of the writes of a commit.
\<close>

section \<open>Integers in blocks\<close>

definition ld32 :: "block \<Rightarrow> nat \<Rightarrow> uint" where
  "ld32 d k = load32 (\<lambda>a. d ! a) k"

definition st32 :: "nat \<Rightarrow> uint \<Rightarrow> block \<Rightarrow> block" where
  "st32 k w d = d[k := ucast w, k + 1 := ucast (drop_bit 8 w), k + 2 := ucast (drop_bit 16 w),
     k + 3 := ucast (drop_bit 24 w)]"

definition ld16 :: "block \<Rightarrow> nat \<Rightarrow> ushort" where
  "ld16 d k = ucast (d ! k) OR push_bit 8 (ucast (d ! (k + 1)))"

definition st16 :: "nat \<Rightarrow> ushort \<Rightarrow> block \<Rightarrow> block" where
  "st16 k w d = d[k := ucast w, k + 1 := ucast (drop_bit 8 w)]"

section \<open>State\<close>

definition MAXOPBLOCKS :: int where "MAXOPBLOCKS = 10"
definition LOGSIZE :: int where "LOGSIZE = MAXOPBLOCKS * 3"

record superblock =
  sb_size :: uint
  sb_nblocks :: uint
  sb_ninodes :: uint
  sb_nlog :: uint
  sb_logstart :: uint
  sb_inodestart :: uint
  sb_bmapstart :: uint

record lst = bst +
  lg_start :: int
  lg_size :: int
  lg_outstanding :: int
  lg_committing :: bool
  lg_dev :: uint
  lg_n :: int
  lg_block :: "int list"

definition decode_sb :: "block \<Rightarrow> superblock" where
  "decode_sb d = \<lparr>sb_size = ld32 d 0, sb_nblocks = ld32 d 4, sb_ninodes = ld32 d 8, sb_nlog = ld32 d 12,
     sb_logstart = ld32 d 16, sb_inodestart = ld32 d 20, sb_bmapstart = ld32 d 24\<rparr>"

definition readsb :: "uint \<Rightarrow> 'a bst_scheme \<Rightarrow> failure + superblock \<times> 'a bst_scheme" where
  "readsb dev s =
     andThen (bread dev 1 s) (\<lambda>(b, s).
     let sb = decode_sb (bdata b s)
     in andThen (brelse b s) (\<lambda>s. Inr (sb, s)))"

section \<open>Commit and recovery\<close>

fun install_from :: "nat list \<Rightarrow> 'a lst_scheme \<Rightarrow> failure + 'a lst_scheme" where
  "install_from [] s = Inr s"
| "install_from (tail # ts) s =
     andThen (bread (lg_dev s) (word_of_int (lg_start s + int tail + 1)) s) (\<lambda>(lbuf, s).
     andThen (bread (lg_dev s) (word_of_int (lg_block s ! tail)) s) (\<lambda>(dbuf, s).
     let s = set_bdata dbuf (bdata lbuf s) s
     in andThen (bwrite dbuf s) (\<lambda>s.
     andThen (brelse lbuf s) (\<lambda>s.
     andThen (brelse dbuf s) (install_from ts)))))"

definition install_trans :: "'a lst_scheme \<Rightarrow> failure + 'a lst_scheme" where
  "install_trans s = install_from [0..<nat (lg_n s)] s"

text \<open>
  The header names at most \<open>LOGSIZE\<close> blocks; a larger count on disk would make \<open>read_head\<close> write
  past the end of \<open>log.lh.block\<close>.
\<close>

definition read_head :: "'a lst_scheme \<Rightarrow> failure + 'a lst_scheme" where
  "read_head s =
     andThen (bread (lg_dev s) (word_of_int (lg_start s)) s) (\<lambda>(b, s).
     let d = bdata b s;
         n = sint (ld32 d 0)
     in if n > LOGSIZE then Inl (Undefined ''read_head: log header'')
        else let s = s\<lparr>lg_n := n,
                 lg_block := map (\<lambda>i. sint (ld32 d (4 + 4 * i))) [0..<nat n] @ drop (nat n) (lg_block s)\<rparr>
             in brelse b s)"

fun put_blocks :: "nat list \<Rightarrow> int list \<Rightarrow> block \<Rightarrow> block" where
  "put_blocks [] bs d = d"
| "put_blocks (i # is) bs d = put_blocks is bs (st32 (4 + 4 * i) (word_of_int (bs ! i)) d)"

definition write_head :: "'a lst_scheme \<Rightarrow> failure + 'a lst_scheme" where
  "write_head s =
     andThen (bread (lg_dev s) (word_of_int (lg_start s)) s) (\<lambda>(b, s).
     let d = st32 0 (word_of_int (lg_n s)) (bdata b s);
         s = set_bdata b (put_blocks [0..<nat (lg_n s)] (lg_block s) d) s
     in andThen (bwrite b s) (brelse b))"

definition recover_from_log :: "'a lst_scheme \<Rightarrow> failure + 'a lst_scheme" where
  "recover_from_log s =
     andThen (read_head s) (\<lambda>s.
     andThen (install_trans s) (\<lambda>s.
     write_head (s\<lparr>lg_n := 0\<rparr>)))"

definition initlog :: "uint \<Rightarrow> 'a lst_scheme \<Rightarrow> failure + 'a lst_scheme" where
  "initlog dev s =
     (if 4 + 4 * LOGSIZE \<ge> int BSIZE then Inl (Panic ''initlog: too big logheader'')
      else andThen (readsb dev (initlock LOGLOCK ''log'' s)) (\<lambda>(sb, s).
        recover_from_log (s\<lparr>lg_start := sint (sb_logstart sb), lg_size := sint (sb_nlog sb),
          lg_dev := dev\<rparr>)))"

fun write_log_from :: "nat list \<Rightarrow> 'a lst_scheme \<Rightarrow> failure + 'a lst_scheme" where
  "write_log_from [] s = Inr s"
| "write_log_from (tail # ts) s =
     andThen (bread (lg_dev s) (word_of_int (lg_start s + int tail + 1)) s) (\<lambda>(to, s).
     andThen (bread (lg_dev s) (word_of_int (lg_block s ! tail)) s) (\<lambda>(from, s).
     let s = set_bdata to (bdata from s) s
     in andThen (bwrite to s) (\<lambda>s.
     andThen (brelse from s) (\<lambda>s.
     andThen (brelse to s) (write_log_from ts)))))"

definition write_log :: "'a lst_scheme \<Rightarrow> failure + 'a lst_scheme" where
  "write_log s = write_log_from [0..<nat (lg_n s)] s"

definition commit :: "'a lst_scheme \<Rightarrow> failure + 'a lst_scheme" where
  "commit s =
     (if lg_n s > 0
      then andThen (write_log s) (\<lambda>s.
           andThen (write_head s) (\<lambda>s.
           andThen (install_trans s) (\<lambda>s.
           write_head (s\<lparr>lg_n := 0\<rparr>))))
      else Inr s)"

section \<open>Transactions\<close>

definition begin_op_iter :: "'a lst_scheme \<Rightarrow> failure + unit ctl \<times> 'a lst_scheme" where
  "begin_op_iter s =
     (if lg_committing s
      then andThen (sleep_off ChLog (Some LOGLOCK) s) (\<lambda>(intena, s). Inr (Off intena, s))
      else if lg_n s + (lg_outstanding s + 1) * MAXOPBLOCKS > LOGSIZE
      then andThen (sleep_off ChLog (Some LOGLOCK) s) (\<lambda>(intena, s). Inr (Off intena, s))
      else andThen (release LOGLOCK (s\<lparr>lg_outstanding := lg_outstanding s + 1\<rparr>)) (\<lambda>s. Inr (Ret (), s)))"

definition begin_op_start :: "'a lst_scheme \<Rightarrow> failure + unit ctl \<times> 'a lst_scheme" where
  "begin_op_start s = andThen (acquire LOGLOCK s) begin_op_iter"

definition begin_op_resume :: "nat \<Rightarrow> bool \<Rightarrow> 'a lst_scheme \<Rightarrow> failure + unit ctl \<times> 'a lst_scheme" where
  "begin_op_resume p intena s = andThen (sleep_on p LOGLOCK intena s) begin_op_iter"

definition begin_op :: "'a lst_scheme \<Rightarrow> failure + 'a lst_scheme" where
  "begin_op s = andThen (begin_op_start s) (\<lambda>(r, s).
     case r of Ret _ \<Rightarrow> Inr s | Off _ \<Rightarrow> Inl (Sleeps ChLog))"

definition end_op :: "'a lst_scheme \<Rightarrow> failure + 'a lst_scheme" where
  "end_op s =
     andThen (acquire LOGLOCK s) (\<lambda>s.
     let s = s\<lparr>lg_outstanding := lg_outstanding s - 1\<rparr>
     in if lg_committing s then Inl (Panic ''log.committing'')
        else andThen (if lg_outstanding s = 0 then Inr (True, s\<lparr>lg_committing := True\<rparr>)
                      else andThen (wakeup ChLog s) (\<lambda>s. Inr (False, s))) (\<lambda>(do_commit, s).
        andThen (release LOGLOCK s) (\<lambda>s.
        if \<not> do_commit then Inr s
        else andThen (commit s) (\<lambda>s.
             andThen (acquire LOGLOCK s) (\<lambda>s.
             andThen (wakeup ChLog (s\<lparr>lg_committing := False\<rparr>)) (release LOGLOCK))))))"

definition log_write :: "nat \<Rightarrow> 'a lst_scheme \<Rightarrow> failure + 'a lst_scheme" where
  "log_write b s =
     (if lg_n s \<ge> LOGSIZE \<or> lg_n s \<ge> lg_size s - 1 then Inl (Panic ''too big a transaction'')
      else if lg_outstanding s < 1 then Inl (Panic ''log_write outside of trans'')
      else andThen (acquire LOGLOCK s) (\<lambda>s.
        let no = b_blockno (bc_buf s ! b);
            i = (case first_index (\<lambda>x. word_of_int x = no) (take (nat (lg_n s)) (lg_block s)) of
                   Some i \<Rightarrow> i | None \<Rightarrow> nat (lg_n s));
            s = s\<lparr>lg_block := (lg_block s)[i := sint no]\<rparr>;
            s = (if int i = lg_n s then s\<lparr>lg_n := lg_n s + 1\<rparr> else s);
            s = upd_buf b (\<lambda>x. x\<lparr>b_flags := b_flags x OR B_DIRTY\<rparr>) s
        in release LOGLOCK s))"

section \<open>Integers in blocks, read back\<close>

lemma st32_nth:
  "k + 3 < length d \<Longrightarrow> st32 k w d ! x = (if k \<le> x \<and> x < k + 4 then store32 k w (\<lambda>a. d ! a) x else d ! x)"
proof -
  assume k: "k + 3 < length d"
  consider "x < k" | "x = k" | "x = k + 1" | "x = k + 2" | "x = k + 3" | "k + 4 \<le> x" by linarith
  then show ?thesis
    using k by cases (simp_all add: st32_def store32_def poke_def le_bytes_def)
qed

lemma length_st32 [simp]: "length (st32 k w d) = length d"
  by (simp add: st32_def)

lemma st32_is_store32: "k + 3 < length d \<Longrightarrow> (\<lambda>a. st32 k w d ! a) = store32 k w (\<lambda>a. d ! a)"
  by (rule ext) (auto simp: st32_nth store32_outside not_less)

lemma ld32_st32 [simp]: "k + 3 < length d \<Longrightarrow> ld32 (st32 k w d) k = w"
  by (simp add: ld32_def st32_is_store32)

lemma ld32_st32_disjoint: "k + 3 < length d \<Longrightarrow> j + 4 \<le> k \<or> k + 4 \<le> j \<Longrightarrow> ld32 (st32 k w d) j = ld32 d j"
  by (simp add: ld32_def st32_is_store32 load32_store32_disjoint)

text \<open>The header written by \<open>write_head\<close> is the one \<open>read_head\<close> reads.\<close>

lemma length_put_blocks [simp]: "length (put_blocks js bs d) = length d"
  by (induction js arbitrary: d) simp_all

lemma put_blocks_keeps:
  "\<forall>j\<in>set js. 4 * j + 7 < length d \<Longrightarrow> k \<noteq> 0 \<and> k - 1 \<notin> set js \<or> k = 0 \<Longrightarrow> ld32 (put_blocks js bs d) (4 * k) = ld32 d (4 * k)"
proof (induction js arbitrary: d)
  case (Cons j js)
  have "4 * k + 4 \<le> 4 + 4 * j \<or> 4 + 4 * j + 4 \<le> 4 * k" using Cons.prems(2) by auto
  then have "ld32 (st32 (4 + 4 * j) (word_of_int (bs ! j)) d) (4 * k) = ld32 d (4 * k)"
    using Cons.prems(1) by (intro ld32_st32_disjoint) auto
  then show ?case using Cons by auto
qed simp

lemma put_blocks_reads:
  "distinct js \<Longrightarrow> \<forall>j\<in>set js. 4 * j + 7 < length d \<Longrightarrow> j \<in> set js \<Longrightarrow>
   ld32 (put_blocks js bs d) (4 + 4 * j) = word_of_int (bs ! j)"
proof (induction js arbitrary: d)
  case (Cons x js)
  show ?case
  proof (cases "j = x")
    case True
    then have "ld32 (put_blocks js bs (st32 (4 + 4 * x) (word_of_int (bs ! x)) d)) (4 * Suc x)
        = ld32 (st32 (4 + 4 * x) (word_of_int (bs ! x)) d) (4 * Suc x)"
      using Cons.prems by (intro put_blocks_keeps) auto
    then show ?thesis using True Cons.prems by simp
  next
    case False
    then show ?thesis using Cons by simp
  qed
qed simp

definition head_block :: "int \<Rightarrow> int list \<Rightarrow> block \<Rightarrow> block" where
  "head_block n bs d = put_blocks [0..<nat n] bs (st32 0 (word_of_int n) d)"

lemma head_block_reads:
  assumes "0 \<le> n" "n \<le> LOGSIZE" "length d = BSIZE"
  shows "sint (ld32 (head_block n bs d) 0) = n"
    and "map (\<lambda>i. word_of_int (sint (ld32 (head_block n bs d) (4 + 4 * i)))) [0..<nat n]
      = map (\<lambda>i. word_of_int (bs ! i) :: uint) [0..<nat n]"
proof -
  let ?e = "st32 0 (word_of_int n) d"
  have l: "\<forall>j\<in>set [0..<nat n]. 4 * j + 7 < length ?e"
    using assms by (auto simp: LOGSIZE_def MAXOPBLOCKS_def BSIZE_def)
  have "ld32 (head_block n bs d) 0 = word_of_int n"
    using put_blocks_keeps [OF l, of 0 bs] assms(3) by (simp add: head_block_def BSIZE_def)
  moreover have "sint (word_of_int n :: uint) = n"
    using assms by (simp add: sint_uint LOGSIZE_def MAXOPBLOCKS_def signed_take_bit_int_eq_self uint_word_of_int)
  ultimately show "sint (ld32 (head_block n bs d) 0) = n" by simp
  show "map (\<lambda>i. word_of_int (sint (ld32 (head_block n bs d) (4 + 4 * i)))) [0..<nat n]
      = map (\<lambda>i. word_of_int (bs ! i) :: uint) [0..<nat n]"
    using put_blocks_reads [OF _ l, of _ bs] by (simp add: head_block_def)
qed

section \<open>Commit and recovery as sequences of disk writes\<close>

definition replay :: "(uint \<times> block) list \<Rightarrow> (uint \<Rightarrow> block) \<Rightarrow> uint \<Rightarrow> block" where
  "replay ws d = fold (\<lambda>(no, b) d. d(no := b)) ws d"

lemma replay_simps [simp]:
  "replay [] d = d" "replay ((no, b) # ws) d = replay ws (d(no := b))" "replay (ws @ vs) d = replay vs (replay ws d)"
  by (simp_all add: replay_def)

lemma replay_other: "no \<notin> fst ` set ws \<Longrightarrow> replay ws d no = d no"
  by (induction ws arbitrary: d) auto

lemma replay_in: "distinct (map fst ws) \<Longrightarrow> (no, b) \<in> set ws \<Longrightarrow> replay ws d no = b"
proof (induction ws arbitrary: d)
  case (Cons w ws)
  then show ?case using replay_other [of "fst w" ws] by (cases w) auto
qed simp

lemma replay_map_other: "\<forall>j\<in>set js. f j \<noteq> no \<Longrightarrow> replay (map (\<lambda>j. (f j, c j)) js) d no = d no"
  by (rule replay_other) auto

lemma replay_map_in:
  "inj_on f (set js) \<Longrightarrow> distinct js \<Longrightarrow> j \<in> set js \<Longrightarrow> replay (map (\<lambda>j. (f j, c j)) js) d (f j) = c j"
  by (rule replay_in) (auto simp: distinct_map comp_def)

lemma replay_twice:
  assumes "distinct (map fst ws)"
  shows "replay ws (replay (take k ws) d) = replay ws d"
proof
  fix no
  show "replay ws (replay (take k ws) d) no = replay ws d no"
  proof (cases "no \<in> fst ` set ws")
    case True
    then obtain b where "(no, b) \<in> set ws" by auto
    then show ?thesis using replay_in [OF assms] by simp
  next
    case False
    moreover have "no \<notin> fst ` set (take k ws)" using False by (auto dest: in_set_takeD)
    ultimately show ?thesis by (simp add: replay_other)
  qed
qed

text \<open>The abstract effect of the two copying loops.\<close>

definition dv_copies :: "(nat \<Rightarrow> uint) \<Rightarrow> (nat \<Rightarrow> uint) \<Rightarrow> nat list \<Rightarrow> 'r disk_view \<Rightarrow> 'r disk_view" where
  "dv_copies src dst js a = fold (\<lambda>j. dv_copy (src j) (dst j)) js a"

lemma dv_copies_simps [simp]:
  "dv_copies src dst [] a = a"
  "dv_copies src dst (j # js) a = dv_copies src dst js (dv_copy (src j) (dst j) a)"
  by (simp_all add: dv_copies_def)

lemma dv_copy_simps [simp]:
  "dv_cont (dv_copy x y a) = (dv_cont a)(y := dv_cont a x)" "dv_pend (dv_copy x y a) = dv_pend a - {y}"
  "dv_disk (dv_copy x y a) = (dv_disk a)(y := dv_cont a x)" "dv_writes (dv_copy x y a) = dv_writes a @ [(y, dv_cont a x)]"
  "dv_rest (dv_copy x y a) = dv_rest a"
  by (simp_all add: dv_copy_def dv_put_def dv_write_def)

lemma dv_copies_eq:
  assumes "\<forall>j\<in>set js. \<forall>k\<in>set js. src j \<noteq> dst k"
  shows "dv_copies src dst js a = (let ws = map (\<lambda>j. (dst j, dv_cont a (src j))) js in
    a\<lparr>dv_cont := replay ws (dv_cont a), dv_pend := dv_pend a - dst ` set js, dv_disk := replay ws (dv_disk a),
      dv_writes := dv_writes a @ ws\<rparr>)"
  using assms
proof (induction js arbitrary: a)
  case (Cons j js)
  let ?a = "dv_copy (src j) (dst j) a"
  have m: "map (\<lambda>j. (dst j, dv_cont ?a (src j))) js = map (\<lambda>j. (dst j, dv_cont a (src j))) js"
    using Cons.prems by (auto intro!: map_cong)
  have "dv_copies src dst (j # js) a = dv_copies src dst js ?a" by simp
  also have "\<dots> = (let ws = map (\<lambda>j. (dst j, dv_cont a (src j))) js in
    ?a\<lparr>dv_cont := replay ws (dv_cont ?a), dv_pend := dv_pend ?a - dst ` set js, dv_disk := replay ws (dv_disk ?a),
      dv_writes := dv_writes ?a @ ws\<rparr>)"
    using Cons.IH [of ?a] Cons.prems unfolding m by (simp add: Let_def fun_upd_def)
  finally show ?case by (simp add: Let_def dv_copy_def dv_put_def dv_write_def Diff_insert2 [symmetric] insert_commute)
qed simp

definition logno :: "'a lst_scheme \<Rightarrow> nat \<Rightarrow> uint" where
  "logno s j = word_of_int (lg_start s + int j + 1)"

definition home :: "'a lst_scheme \<Rightarrow> nat \<Rightarrow> uint" where
  "home s j = word_of_int (lg_block s ! j)"

definition headno :: "'a lst_scheme \<Rightarrow> uint" where
  "headno s = word_of_int (lg_start s)"

lemma beyond_log [simp]:
  "lg_start (beyond s) = lg_start s" "lg_size (beyond s) = lg_size s" "lg_dev (beyond s) = lg_dev s"
  "lg_n (beyond s) = lg_n s" "lg_block (beyond s) = lg_block s" "lg_outstanding (beyond s) = lg_outstanding s"
  "lg_committing (beyond s) = lg_committing s"
  by (simp_all add: beyond_def)

lemma disk_of_simps [simp]:
  "dv_cont (disk_of s) = view s" "dv_pend (disk_of s) = dirty_blocks s" "dv_disk (disk_of s) = dk_blocks s"
  "dv_writes (disk_of s) = dk_writes s" "dv_rest (disk_of s) = beyond s"
  by (simp_all add: disk_of_def)

lemma same_beyond:
  assumes "beyond t = beyond s"
  shows "lg_start t = lg_start s" "lg_size t = lg_size s" "lg_dev t = lg_dev s" "lg_n t = lg_n s"
    "lg_block t = lg_block s" "dk_size t = dk_size s" "logno t = logno s" "home t = home s" "headno t = headno s"
proof -
  have e: "lg_start t = lg_start s" "lg_block t = lg_block s"
    using arg_cong [OF assms, of lg_start] arg_cong [OF assms, of lg_block] by simp_all
  then show "lg_start t = lg_start s" "lg_block t = lg_block s" "logno t = logno s" "home t = home s" "headno t = headno s"
    by (simp_all add: logno_def home_def headno_def fun_eq_iff)
qed (use arg_cong [OF assms, of lg_size] arg_cong [OF assms, of lg_dev] arg_cong [OF assms, of lg_n]
  arg_cong [OF assms, of dk_size] in simp_all)

text \<open>One turn of each loop copies a block.\<close>

lemma install_step:
  assumes "cache_inv i p {} s" "lg_dev s = 1" "logno s j \<noteq> home s j" "logno s j < dk_size s" "home s j < dk_size s"
    and "card (dirty_blocks s) < NBUF" "home s j \<in> dirty_blocks s \<or> card (dirty_blocks s) + 1 < NBUF"
  obtains t where "install_from (j # js) s = install_from js t" "cache_inv i p {} t"
    "disk_of t = dv_copy (logno s j) (home s j) (disk_of s)"
proof -
  obtain l d s1 s2 t where h: "bread 1 (logno s j) s = Inr (l, s1)" "disk_of s1 = disk_of s" "bread 1 (home s j) s1 = Inr (d, s2)"
    "cache_inv i p {} t" "andThen (bwrite d (set_bdata d (bdata l s2) s2)) (\<lambda>s. andThen (brelse l s) (brelse d)) = Inr t"
    "disk_of t = dv_copy (logno s j) (home s j) (disk_of s)"
    using bcache.src_first [OF assms(1,3)] assms by auto
  have "beyond s1 = beyond s" using h(2) by (simp add: disk_of_def)
  note e = same_beyond [OF this]
  have "install_from (j # js) s = andThen (andThen (bwrite d (set_bdata d (bdata l s2) s2)) (\<lambda>s. andThen (brelse l s) (brelse d))) (install_from js)"
    using h(1,3) assms(2) e by (simp add: logno_def home_def Let_def andThen_assoc)
  then show thesis using that h(4-6) by simp
qed

lemma write_log_step:
  assumes "cache_inv i p {} s" "lg_dev s = 1" "home s j \<noteq> logno s j" "logno s j < dk_size s" "home s j < dk_size s"
    and "card (dirty_blocks s) < NBUF" "home s j \<in> dirty_blocks s \<or> card (dirty_blocks s) + 1 < NBUF"
  obtains t where "write_log_from (j # js) s = write_log_from js t" "cache_inv i p {} t"
    "disk_of t = dv_copy (home s j) (logno s j) (disk_of s)"
proof -
  obtain l d s1 s2 t where h: "bread 1 (logno s j) s = Inr (d, s1)" "disk_of s1 = disk_of s" "bread 1 (home s j) s1 = Inr (l, s2)"
    "cache_inv i p {} t" "andThen (bwrite d (set_bdata d (bdata l s2) s2)) (\<lambda>s. andThen (brelse l s) (brelse d)) = Inr t"
    "disk_of t = dv_copy (home s j) (logno s j) (disk_of s)"
    using bcache.dst_first [OF assms(1,3)] assms by auto
  have "beyond s1 = beyond s" using h(2) by (simp add: disk_of_def)
  note e = same_beyond [OF this]
  have "write_log_from (j # js) s = andThen (andThen (bwrite d (set_bdata d (bdata l s2) s2)) (\<lambda>s. andThen (brelse l s) (brelse d))) (write_log_from js)"
    using h(1,3) assms(2) e by (simp add: logno_def home_def Let_def andThen_assoc)
  then show thesis using that h(4-6) by simp
qed

lemma disk_of_eqD:
  assumes "disk_of t = a"
  shows "view t = dv_cont a" "dirty_blocks t = dv_pend a" "dk_blocks t = dv_disk a" "dk_writes t = dv_writes a"
    "beyond t = dv_rest a"
  using assms by auto

lemma install_copies:
  assumes "cache_inv i p {} s" "lg_dev s = 1"
    "\<forall>j\<in>set js. logno s j \<noteq> home s j \<and> logno s j < dk_size s \<and> home s j < dk_size s"
    and "card (dirty_blocks s) < NBUF"
    and "distinct (map (home s) js) \<and> home s ` set js \<subseteq> dirty_blocks s \<or> card (dirty_blocks s) + 1 < NBUF"
  shows "\<exists>t. install_from js s = Inr t \<and> cache_inv i p {} t \<and> disk_of t = dv_copies (logno s) (home s) js (disk_of s)"
  using assms
proof (induction js arbitrary: s)
  case (Cons j js)
  have b: "logno s j \<noteq> home s j" "logno s j < dk_size s" "home s j < dk_size s" using Cons.prems(3) by simp_all
  have p: "home s j \<in> dirty_blocks s \<or> card (dirty_blocks s) + 1 < NBUF" using Cons.prems(5) by auto
  obtain t where t: "install_from (j # js) s = install_from js t" "cache_inv i p {} t"
      "disk_of t = dv_copy (logno s j) (home s j) (disk_of s)"
    by (rule install_step [OF Cons.prems(1,2) b(1,2,3) Cons.prems(4) p, of js])
  note d = disk_of_eqD [OF t(3)]
  note e = same_beyond [of t s, simplified d, simplified]
  have c: "card (dirty_blocks t) \<le> card (dirty_blocks s)" using d(2) by (simp add: card_Diff1_le)
  have "distinct (map (home s) js) \<and> home s ` set js \<subseteq> dirty_blocks s - {home s j} \<or> card (dirty_blocks s) + 1 < NBUF"
    using Cons.prems(5) by (simp add: subset_Diff_insert) blast
  then have "distinct (map (home t) js) \<and> home t ` set js \<subseteq> dirty_blocks t \<or> card (dirty_blocks t) + 1 < NBUF"
    unfolding e using c d(2) by (elim disjE) simp_all
  moreover have "lg_dev t = 1" "card (dirty_blocks t) < NBUF" using Cons.prems(2,4) e c by simp_all
  moreover have "\<forall>j\<in>set js. logno t j \<noteq> home t j \<and> logno t j < dk_size t \<and> home t j < dk_size t"
    using Cons.prems(3) e by simp
  ultimately have "\<exists>u. install_from js t = Inr u \<and> cache_inv i p {} u \<and> disk_of u = dv_copies (logno t) (home t) js (disk_of t)"
    using Cons.IH [OF t(2)] by blast
  then show ?case unfolding t(1) e t(3) by simp
qed auto

lemma write_log_copies:
  assumes "cache_inv i p {} s" "lg_dev s = 1"
    "\<forall>j\<in>set js. home s j \<noteq> logno s j \<and> logno s j < dk_size s \<and> home s j < dk_size s"
    and "card (dirty_blocks s) < NBUF" "home s ` set js \<subseteq> dirty_blocks s" "logno s ` set js \<inter> dirty_blocks s = {}"
  shows "\<exists>t. write_log_from js s = Inr t \<and> cache_inv i p {} t \<and> disk_of t = dv_copies (home s) (logno s) js (disk_of s)"
  using assms
proof (induction js arbitrary: s)
  case (Cons j js)
  have b: "home s j \<noteq> logno s j" "logno s j < dk_size s" "home s j < dk_size s" using Cons.prems(3) by simp_all
  have p: "home s j \<in> dirty_blocks s \<or> card (dirty_blocks s) + 1 < NBUF" using Cons.prems(5) by auto
  obtain t where t: "write_log_from (j # js) s = write_log_from js t" "cache_inv i p {} t"
      "disk_of t = dv_copy (home s j) (logno s j) (disk_of s)"
    by (rule write_log_step [OF Cons.prems(1,2) b(1,2,3) Cons.prems(4) p, of js])
  note d = disk_of_eqD [OF t(3)]
  note e = same_beyond [of t s, simplified d, simplified]
  have "dirty_blocks t = dirty_blocks s" using d(2) Cons.prems(6) by auto
  then have "card (dirty_blocks t) < NBUF" "home t ` set js \<subseteq> dirty_blocks t" "logno t ` set js \<inter> dirty_blocks t = {}"
    using Cons.prems(4-6) e by auto
  moreover have "lg_dev t = 1" using Cons.prems(2) e by simp
  moreover have "\<forall>j\<in>set js. home t j \<noteq> logno t j \<and> logno t j < dk_size t \<and> home t j < dk_size t"
    using Cons.prems(3) e by simp
  ultimately have "\<exists>u. write_log_from js t = Inr u \<and> cache_inv i p {} u \<and> disk_of u = dv_copies (home t) (logno t) js (disk_of t)"
    using Cons.IH [OF t(2)] by blast
  then show ?case unfolding t(1) e t(3) by simp
qed auto

lemma write_head_eq:
  assumes "cache_inv i p {} s" "lg_dev s = 1" "headno s < dk_size s" "card (dirty_blocks s) < NBUF"
  obtains t where "write_head s = Inr t" "cache_inv i p {} t"
    "disk_of t = dv_write (headno s) (dv_put (headno s) (head_block (lg_n s) (lg_block s) (view s (headno s))) (disk_of s))"
proof -
  let ?d = "head_block (lg_n s) (lg_block s) (view s (headno s))"
  obtain b s1 t where h: "bread 1 (headno s) s = Inr (b, s1)" "bdata b s1 = view s (headno s)" "disk_of s1 = disk_of s"
    "andThen (bwrite b (set_bdata b ?d s1)) (brelse b) = Inr t" "cache_inv i p {} t"
    "disk_of t = dv_write (headno s) (dv_put (headno s) ?d (disk_of s))"
    using bcache.rewrite_block [OF assms(1), of "headno s" ?d] assms by auto
  have "beyond s1 = beyond s" using h(3) by (simp add: disk_of_def)
  note e = same_beyond [OF this]
  have "write_head s = Inr t"
    using h(1,2,4) assms(2) e by (simp add: write_head_def headno_def head_block_def Let_def)
  then show thesis using that h(5,6) by blast
qed

text \<open>
  A transaction that is ready to be committed: the blocks of the transaction are the dirty ones, they
  are different from each other and from the blocks of the log, and the header on disk is empty.
\<close>

definition log_fits :: "int \<Rightarrow> 'a lst_scheme \<Rightarrow> bool" where
  "log_fits n s \<longleftrightarrow> lg_dev s = 1 \<and> 0 \<le> lg_start s \<and> lg_start s + n < uint (dk_size s) \<and>
     (\<forall>j<nat n. home s j < dk_size s \<and> home s j \<noteq> headno s \<and> (\<forall>k<nat n. home s j \<noteq> logno s k))
     \<and> distinct (map (home s) [0..<nat n])"

definition log_ready :: "nat \<Rightarrow> nat \<Rightarrow> 'a lst_scheme \<Rightarrow> bool" where
  "log_ready i p s \<longleftrightarrow> cache_inv i p {} s \<and> 0 < lg_n s \<and> lg_n s < int NBUF \<and> log_fits (lg_n s) s
     \<and> dirty_blocks s = home s ` {..<nat (lg_n s)}
     \<and> length (dk_blocks s (headno s)) = BSIZE \<and> ld32 (dk_blocks s (headno s)) 0 = 0"

definition commit_writes :: "'a lst_scheme \<Rightarrow> (uint \<times> block) list" where
  "commit_writes s = (let n = nat (lg_n s); h = head_block (lg_n s) (lg_block s) (dk_blocks s (headno s)) in
     map (\<lambda>j. (logno s j, view s (home s j))) [0..<n] @ [(headno s, h)]
     @ map (\<lambda>j. (home s j, view s (home s j))) [0..<n] @ [(headno s, head_block 0 (lg_block s) h)])"

lemma log_numbers:
  assumes "log_fits n s" "j < nat n"
  shows "logno s j < dk_size s" "headno s < dk_size s" "logno s j \<noteq> headno s" "k < nat n \<Longrightarrow> logno s j = logno s k \<Longrightarrow> j = k"
proof -
  have b: "0 \<le> lg_start s" "lg_start s + n < uint (dk_size s)" using assms(1) by (auto simp: log_fits_def)
  have sz: "uint (dk_size s) < 2 ^ 32" using uint_lt2p [of "dk_size s"] by simp
  have u: "uint (word_of_int x :: uint) = x" if "0 \<le> x" "x \<le> lg_start s + n" for x
    using that b sz by (simp add: uint_word_of_int)
  have l: "uint (logno s k) = lg_start s + int k + 1" if "k < nat n" for k
    unfolding logno_def using that b by (intro u) auto
  have h: "uint (headno s) = lg_start s" unfolding headno_def using assms(2) b by (intro u) auto
  show "logno s j < dk_size s" "headno s < dk_size s" using l [OF assms(2)] h assms(2) b by (simp_all add: word_less_def)
  show "logno s j \<noteq> headno s"
  proof
    assume "logno s j = headno s"
    then have "uint (logno s j) = uint (headno s)" by (rule arg_cong)
    then show False unfolding l [OF assms(2)] h by linarith
  qed
  show "j = k" if "k < nat n" "logno s j = logno s k"
  proof -
    have "uint (logno s j) = uint (logno s k)" using that(2) by (rule arg_cong)
    then show ?thesis unfolding l [OF assms(2)] l [OF that(1)] by linarith
  qed
qed

lemma log_fits_cong: "beyond t = beyond s \<Longrightarrow> log_fits n t = log_fits n s"
  using same_beyond [of t s] by (simp add: log_fits_def)

text \<open>What the cache is in depends on its own fields only.\<close>

lemma same_cache:
  assumes "bc_buf t = bc_buf s" "dk_blocks t = dk_blocks s"
  shows "\<lbrakk>bc_lru t = bc_lru s; sl_tab t = sl_tab s; p_pid (ps_proc t ! p) = p_pid (ps_proc s ! p);
      at_proc t i p = at_proc s i p\<rbrakk> \<Longrightarrow> cache_inv i p H t = cache_inv i p H s"
    and "view t = view s" "dirty_blocks t = dirty_blocks s" "has_block t = has_block s"
proof -
  show hb: "has_block t = has_block s" using assms by (simp add: has_block_def fun_eq_iff)
  show "view t = view s" using assms by (simp add: view_def fun_eq_iff hb bdata_def split: option.split)
  show "dirty_blocks t = dirty_blocks s" using assms by (simp add: dirty_blocks_def)
  show "cache_inv i p H t = cache_inv i p H s" if "bc_lru t = bc_lru s" "sl_tab t = sl_tab s"
      "p_pid (ps_proc t ! p) = p_pid (ps_proc s ! p)" "at_proc t i p = at_proc s i p"
    using assms that by (simp add: cache_inv_def hb)
qed

lemma set_lg_n [simp]:
  "cache_inv i p H (s\<lparr>lg_n := m\<rparr>) = cache_inv i p H s" "view (s\<lparr>lg_n := m\<rparr>) = view s"
  "dirty_blocks (s\<lparr>lg_n := m\<rparr>) = dirty_blocks s" "beyond (s\<lparr>lg_n := m\<rparr>) = (beyond s)\<lparr>lg_n := m\<rparr>"
  "home (s\<lparr>lg_n := m\<rparr>) = home s" "logno (s\<lparr>lg_n := m\<rparr>) = logno s" "headno (s\<lparr>lg_n := m\<rparr>) = headno s"
  by (rule same_cache; simp add: at_proc_def calm_def here_def cli_ok_def idle_lock_def)+
    (simp_all add: beyond_def home_def logno_def headno_def fun_eq_iff)

lemma log_fits_upd [simp]: "log_fits n (s\<lparr>lg_n := m\<rparr>) = log_fits n s"
  by (simp add: log_fits_def)

lemma disk_of_set_n: "disk_of (s\<lparr>lg_n := m\<rparr>) = (disk_of s)\<lparr>dv_rest := (beyond s)\<lparr>lg_n := m\<rparr>\<rparr>"
  by (simp add: disk_of_def)

text \<open>What a sequence of writes makes of the disk.\<close>

definition dv_run :: "(uint \<times> block) list \<Rightarrow> uint set \<Rightarrow> 'r disk_view \<Rightarrow> 'r disk_view" where
  "dv_run ws D a = a\<lparr>dv_cont := replay ws (dv_cont a), dv_pend := dv_pend a - D, dv_disk := replay ws (dv_disk a),
     dv_writes := dv_writes a @ ws\<rparr>"

lemma dv_run_run: "dv_run vs E (dv_run ws D a) = dv_run (ws @ vs) (D \<union> E) a"
  by (simp add: dv_run_def Diff_eq Int_assoc)

lemma dv_write_put: "dv_write no (dv_put no d a) = dv_run [(no, d)] {no} a"
  by (simp add: dv_write_def dv_put_def dv_run_def)

lemma dv_copies_run:
  assumes "\<forall>j\<in>set js. \<forall>k\<in>set js. src j \<noteq> dst k" "\<forall>j\<in>set js. dv_cont a (src j) = c j"
  shows "dv_copies src dst js a = dv_run (map (\<lambda>j. (dst j, c j)) js) (dst ` set js) a"
proof -
  have "map (\<lambda>j. (dst j, dv_cont a (src j))) js = map (\<lambda>j. (dst j, c j)) js" using assms(2) by simp
  then show ?thesis unfolding dv_copies_eq [OF assms(1)] Let_def dv_run_def by (rule arg_cong)
qed

lemma dv_run_simps [simp]:
  "dv_cont (dv_run ws D a) = replay ws (dv_cont a)" "dv_pend (dv_run ws D a) = dv_pend a - D"
  "dv_disk (dv_run ws D a) = replay ws (dv_disk a)" "dv_writes (dv_run ws D a) = dv_writes a @ ws"
  "dv_rest (dv_run ws D a) = dv_rest a"
  by (simp_all add: dv_run_def)

definition log_blocks :: "'a lst_scheme \<Rightarrow> uint set" where
  "log_blocks s = insert (headno s) (logno s ` {..<nat (lg_n s)})"

text \<open>The three shapes of the disk that a crash can leave.\<close>

definition home_writes :: "'a lst_scheme \<Rightarrow> (uint \<times> block) list" where
  "home_writes s = map (\<lambda>j. (home s j, view s (home s j))) [0..<nat (lg_n s)]"

definition log_writes :: "'a lst_scheme \<Rightarrow> (uint \<times> block) list" where
  "log_writes s = map (\<lambda>j. (logno s j, view s (home s j))) [0..<nat (lg_n s)]"

definition full_head :: "'a lst_scheme \<Rightarrow> block" where
  "full_head s = head_block (lg_n s) (lg_block s) (dk_blocks s (headno s))"

lemma length_writes [simp]: "length (home_writes s) = nat (lg_n s)" "length (log_writes s) = nat (lg_n s)"
  by (simp_all add: home_writes_def log_writes_def)

lemma commit_writes_eq:
  "commit_writes s = log_writes s @ (headno s, full_head s) # home_writes s
     @ [(headno s, head_block 0 (lg_block s) (full_head s))]"
  by (simp add: commit_writes_def log_writes_def home_writes_def full_head_def Let_def)

lemma ready_facts:
  assumes "log_ready i p s"
  shows "j < nat (lg_n s) \<Longrightarrow> home s j \<notin> log_blocks s" "inj_on (home s) {0..<nat (lg_n s)}" "inj_on (logno s) {0..<nat (lg_n s)}"
    "sint (ld32 (full_head s) 0) = lg_n s" "\<forall>j<nat (lg_n s). ld32 (full_head s) (4 + 4 * j) = home s j"
    "ld32 (head_block 0 bs (full_head s)) 0 = 0" "ld32 (head_block 0 bs (dk_blocks s (headno s))) 0 = 0"
    "j < nat (lg_n s) \<Longrightarrow> logno s j \<noteq> headno s" "lg_n s \<le> LOGSIZE" "headno s < dk_size s"
    "j < nat (lg_n s) \<Longrightarrow> logno s j < dk_size s" "j < nat (lg_n s) \<Longrightarrow> home s j < dk_size s" "card (dirty_blocks s) < NBUF"
    "j < nat (lg_n s) \<Longrightarrow> k < nat (lg_n s) \<Longrightarrow> logno s j \<noteq> home s k" "headno s \<notin> dirty_blocks s"
    "dirty_blocks s = home s ` {0..<nat (lg_n s)}" "lg_dev s = 1" "0 < lg_n s" "j < nat (lg_n s) \<Longrightarrow> home s j \<noteq> headno s"
    "cache_inv i p {} s"
proof -
  have fits: "log_fits (lg_n s) s" and n: "0 < lg_n s" "lg_n s \<le> LOGSIZE" and l: "length (dk_blocks s (headno s)) = BSIZE"
    using assms by (auto simp: log_ready_def NBUF_def LOGSIZE_def MAXOPBLOCKS_def)
  show "home s j \<notin> log_blocks s" if "j < nat (lg_n s)" using fits that by (auto simp: log_fits_def log_blocks_def)
  show "inj_on (home s) {0..<nat (lg_n s)}" using fits by (simp add: log_fits_def distinct_map)
  show "inj_on (logno s) {0..<nat (lg_n s)}" using log_numbers(4) [OF fits] by (auto simp: inj_on_def)
  show "logno s j \<noteq> headno s" if "j < nat (lg_n s)" using log_numbers(3) [OF fits that] .
  show "headno s < dk_size s" using log_numbers(2) [OF fits, of 0] n by simp
  show "sint (ld32 (full_head s) 0) = lg_n s" unfolding full_head_def using n l by (intro head_block_reads) auto
  show "\<forall>j<nat (lg_n s). ld32 (full_head s) (4 + 4 * j) = home s j"
    using head_block_reads(2) [of "lg_n s" "dk_blocks s (headno s)" "lg_block s"] n l by (simp add: full_head_def home_def)
  show "ld32 (head_block 0 bs (full_head s)) 0 = 0" "ld32 (head_block 0 bs (dk_blocks s (headno s))) 0 = 0"
    using l by (simp_all add: head_block_def full_head_def BSIZE_def)
  show "lg_n s \<le> LOGSIZE" "0 < lg_n s" by (rule n)+
  show pend: "dirty_blocks s = home s ` {0..<nat (lg_n s)}" and "cache_inv i p {} s"
    using assms by (simp_all add: log_ready_def atLeast0LessThan)
  have "card (dirty_blocks s) \<le> nat (lg_n s)"
    unfolding pend using card_image_le [of "{0..<nat (lg_n s)}" "home s"] by simp
  then show "card (dirty_blocks s) < NBUF" using assms unfolding log_ready_def by linarith
  show "logno s j < dk_size s" if "j < nat (lg_n s)" using log_numbers(1) [OF fits that] .
  show "home s j < dk_size s" "home s j \<noteq> headno s" if "j < nat (lg_n s)" using fits that by (auto simp: log_fits_def)
  show "logno s j \<noteq> home s k" if "j < nat (lg_n s)" "k < nat (lg_n s)" using fits that unfolding log_fits_def by metis
  show "headno s \<notin> dirty_blocks s" unfolding pend using fits by (auto simp: log_fits_def)
  show "lg_dev s = 1" using fits by (simp add: log_fits_def)
qed

text \<open>The first half of \<open>commit\<close> fills the log, the second installs it.\<close>

lemma log_phase:
  assumes r: "log_ready i p s"
  obtains t u where "write_log s = Inr t" "write_head t = Inr u" "cache_inv i p {} u" "dirty_blocks u = dirty_blocks s"
    "disk_of u = dv_run (log_writes s @ [(headno s, full_head s)]) (insert (headno s) (logno s ` {0..<nat (lg_n s)})) (disk_of s)"
proof -
  let ?js = "[0..<nat (lg_n s)]" and ?S = "headno s"
  note f = ready_facts [OF r]
  have cS: "view s ?S = dk_blocks s ?S" using clean_view [OF f(20,15)] .
  have lp: "logno s ` set ?js \<inter> dirty_blocks s = {}" using f(14) by (auto simp: f(16))
  have "\<forall>j\<in>set ?js. home s j \<noteq> logno s j \<and> logno s j < dk_size s \<and> home s j < dk_size s"
    using f(11,12) f(14) [symmetric] by auto
  then obtain t where t: "write_log_from ?js s = Inr t" "cache_inv i p {} t" "disk_of t = dv_copies (home s) (logno s) ?js (disk_of s)"
    using write_log_copies [OF f(20,17) _ f(13) _ lp] by (auto simp: f(16))
  have "dv_copies (home s) (logno s) ?js (disk_of s) = dv_run (log_writes s) (logno s ` set ?js) (disk_of s)"
    unfolding log_writes_def using f(14) [symmetric] by (intro dv_copies_run) auto
  note a = t(3) [unfolded this]
  note d = disk_of_eqD [OF a, simplified]
  note e = same_beyond [OF d(5)]
  have p: "dirty_blocks t = dirty_blocks s" using d(2) lp by auto
  have c: "view t ?S = dk_blocks s ?S" using d(1) f(8) cS by (simp add: log_writes_def replay_map_other)
  obtain u where u: "write_head t = Inr u" "cache_inv i p {} u"
      "disk_of u = dv_write ?S (dv_put ?S (head_block (lg_n s) (lg_block s) (dk_blocks s ?S)) (disk_of t))"
    using write_head_eq [OF t(2)] e f(10,13,17) p c by metis
  have a': "disk_of u = dv_run (log_writes s @ [(?S, full_head s)]) (insert ?S (logno s ` {0..<nat (lg_n s)})) (disk_of s)"
    unfolding u(3) dv_write_put a dv_run_run by (simp add: full_head_def)
  have "dirty_blocks u = dirty_blocks s" using disk_of_eqD(2) [OF a'] lp f(15) by auto
  then show thesis using that t(1) u(1,2) a' by (simp add: write_log_def)
qed

lemma install_phase:
  assumes r: "log_ready i p s" and inv: "cache_inv i p {} u" "dirty_blocks u = dirty_blocks s"
    and u: "disk_of u = dv_run (log_writes s @ [(headno s, full_head s)]) (insert (headno s) (logno s ` {0..<nat (lg_n s)})) (disk_of s)"
  obtains v w where "install_trans u = Inr v" "write_head (v\<lparr>lg_n := 0\<rparr>) = Inr w" "cache_inv i p {} w" "dirty_blocks w = {}"
    "beyond w = (beyond s)\<lparr>lg_n := 0\<rparr>" "dk_writes w = dk_writes s @ commit_writes s"
    "dk_blocks w = replay (commit_writes s) (dk_blocks s)" "view w = replay (commit_writes s) (view s)"
proof -
  let ?js = "[0..<nat (lg_n s)]" and ?S = "headno s"
  note f = ready_facts [OF r]
  note d = disk_of_eqD [OF u, simplified]
  note e = same_beyond [OF d(5)]
  have c: "view u (logno s j) = view s (home s j)" if "j < nat (lg_n s)" for j
    using d(1) f(3) f(8) [OF that] that
    by (simp add: log_writes_def replay_map_in [of "logno s" ?js j "\<lambda>j. view s (home s j)"])
  have dist: "distinct (map (home s) ?js)" using f(2) by (simp add: distinct_map)
  obtain v where v: "install_from ?js u = Inr v" "cache_inv i p {} v" "disk_of v = dv_copies (logno s) (home s) ?js (disk_of u)"
    using install_copies [OF inv(1), of ?js] e f(11-14,16,17) dist by (auto simp: inv(2))
  have "dv_copies (logno s) (home s) ?js (disk_of u) = dv_run (home_writes s) (home s ` set ?js) (disk_of u)"
    unfolding home_writes_def using f(14) c by (intro dv_copies_run) auto
  note a = v(3) [unfolded this]
  note dv = disk_of_eqD [OF a, simplified]
  have b: "beyond v = beyond s" using dv(5) d(5) by simp
  note ev = same_beyond [OF b]
  have p: "dirty_blocks v = {}" using dv(2) inv(2) by (auto simp: f(16))
  have vS: "view v ?S = full_head s" using dv(1) d(1) f(19) by (simp add: home_writes_def replay_map_other)
  obtain w where w: "write_head (v\<lparr>lg_n := 0\<rparr>) = Inr w" "cache_inv i p {} w"
      "disk_of w = dv_run [(?S, head_block 0 (lg_block s) (full_head s))] {?S} (disk_of (v\<lparr>lg_n := 0\<rparr>))"
    using write_head_eq [of i p "v\<lparr>lg_n := 0\<rparr>"] v(2) ev f(10,13,17) p vS by (auto simp: dv_write_put)
  note dw = disk_of_eqD [OF w(3), simplified]
  have "install_trans u = Inr v" using v(1) e by (simp add: install_trans_def)
  then show thesis using that w(1,2) dw p b dv d by (simp add: commit_writes_eq)
qed

lemma commit_eq:
  assumes r: "log_ready i p s"
  obtains t where "commit s = Inr t" "cache_inv i p {} t" "dirty_blocks t = {}" "beyond t = (beyond s)\<lparr>lg_n := 0\<rparr>"
    "dk_writes t = dk_writes s @ commit_writes s" "dk_blocks t = replay (commit_writes s) (dk_blocks s)"
    "view t = replay (commit_writes s) (view s)"
proof -
  obtain t u where tu: "write_log s = Inr t" "write_head t = Inr u" "cache_inv i p {} u" "dirty_blocks u = dirty_blocks s"
    "disk_of u = dv_run (log_writes s @ [(headno s, full_head s)]) (insert (headno s) (logno s ` {0..<nat (lg_n s)})) (disk_of s)"
    by (rule log_phase [OF r])
  obtain v w where vw: "install_trans u = Inr v" "write_head (v\<lparr>lg_n := 0\<rparr>) = Inr w" "cache_inv i p {} w" "dirty_blocks w = {}"
    "beyond w = (beyond s)\<lparr>lg_n := 0\<rparr>" "dk_writes w = dk_writes s @ commit_writes s"
    "dk_blocks w = replay (commit_writes s) (dk_blocks s)" "view w = replay (commit_writes s) (view s)"
    by (rule install_phase [OF r tu(3-5)])
  have "commit s = Inr w" using ready_facts(18) [OF r] tu(1,2) vw(1,2) by (simp add: commit_def)
  then show thesis using that vw by blast
qed

section \<open>Recovery\<close>

text \<open>
  The state in which \<open>recover_from_log\<close> runs after a crash that left the disk \<open>d\<close>: an empty cache, and the
  log where it was.
\<close>

definition rebooted :: "nat \<Rightarrow> nat \<Rightarrow> 'a lst_scheme \<Rightarrow> (uint \<Rightarrow> block) \<Rightarrow> 'a lst_scheme \<Rightarrow> bool" where
  "rebooted i p s d u \<longleftrightarrow> cache_inv i p {} u \<and> dirty_blocks u = {} \<and> dk_blocks u = d \<and> lg_dev u = 1
     \<and> lg_start u = lg_start s \<and> dk_size u = dk_size s"

lemma set_lg_head:
  "cache_inv i p H (s\<lparr>lg_n := m, lg_block := bs\<rparr>) = cache_inv i p H s" "view (s\<lparr>lg_n := m, lg_block := bs\<rparr>) = view s"
  "dirty_blocks (s\<lparr>lg_n := m, lg_block := bs\<rparr>) = dirty_blocks s"
  "has_block (s\<lparr>lg_n := m, lg_block := bs\<rparr>) = has_block s"
  "beyond (s\<lparr>lg_n := m, lg_block := bs\<rparr>) = (beyond s)\<lparr>lg_n := m, lg_block := bs\<rparr>"
  by (rule same_cache; simp add: at_proc_def calm_def here_def cli_ok_def idle_lock_def)+
    (simp add: beyond_def)

lemma read_head_eq:
  assumes inv: "cache_inv i p {} u" and clean: "dirty_blocks u = {}" and dev: "lg_dev u = 1" "headno u < dk_size u"
    and n: "sint (ld32 (dk_blocks u (headno u)) 0) = n" "n \<le> LOGSIZE"
  obtains t bs where "read_head u = Inr t" "cache_inv i p {} t"
    "disk_of t = (disk_of u)\<lparr>dv_rest := (beyond u)\<lparr>lg_n := n, lg_block := bs\<rparr>\<rparr>"
    "\<And>j. j < nat n \<Longrightarrow> word_of_int (bs ! j) = ld32 (dk_blocks u (headno u)) (4 + 4 * j)"
proof -
  let ?S = "headno u" and ?d = "dk_blocks u (headno u)"
  have few: "card (dv_pend (disk_of u)) < NBUF" using clean by (simp add: NBUF_def)
  obtain b s1 where h: "bread 1 ?S u = Inr (b, s1)" "bdata b s1 = view u ?S" "disk_of s1 = disk_of u"
      "cache_inv i p {b} s1" "has_block s1 ?S b"
    using bcache.read_block [OF inv _ few, of ?S] dev(2) by auto
  have d: "view u ?S = ?d" using clean_view [OF inv] clean by simp
  let ?bs = "map (\<lambda>i. sint (ld32 ?d (4 + 4 * i))) [0..<nat n] @ drop (nat n) (lg_block s1)"
  let ?s2 = "s1\<lparr>lg_n := n, lg_block := ?bs\<rparr>"
  have e: "beyond s1 = beyond u" "view s1 = view u" "dirty_blocks s1 = dirty_blocks u" "dk_blocks s1 = dk_blocks u"
    "dk_writes s1 = dk_writes u"
    using disk_of_eqD [OF h(3)] by simp_all
  have c: "cache_inv i p {b} ?s2" "has_block ?s2 ?S b" using h(4,5) by (simp_all add: set_lg_head)
  have "dv_cont (disk_of ?s2) ?S = dv_disk (disk_of ?s2) ?S" using e d by (simp add: set_lg_head)
  then obtain t where t: "brelse b ?s2 = Inr t" "cache_inv i p {} t" "disk_of t = disk_of ?s2"
    using bcache.rel_law [OF c(1) _ c(2)] by auto
  have "read_head u = Inr t"
    using h(1,2) dev(1) n d t(1) by (simp add: read_head_def headno_def Let_def not_less)
  moreover have "disk_of t = (disk_of u)\<lparr>dv_rest := (beyond u)\<lparr>lg_n := n, lg_block := ?bs\<rparr>\<rparr>"
    unfolding t(3) using e by (simp add: disk_of_def set_lg_head)
  ultimately show thesis using that [of t ?bs] t(2) by (simp add: nth_append)
qed

lemma recover_eq:
  assumes inv: "cache_inv i p {} u" and clean: "dirty_blocks u = {}" and dev: "lg_dev u = 1" "headno u < dk_size u"
    and n: "sint (ld32 (dk_blocks u (headno u)) 0) = n" "n \<le> LOGSIZE"
    and at: "\<And>j. j < nat n \<Longrightarrow> ld32 (dk_blocks u (headno u)) (4 + 4 * j) = at j"
    and fits: "\<And>j. j < nat n \<Longrightarrow> logno u j < dk_size u \<and> at j < dk_size u \<and> at j \<noteq> headno u"
    and apart: "\<And>j k. j < nat n \<Longrightarrow> k < nat n \<Longrightarrow> logno u j \<noteq> at k"
  shows "\<exists>v bs. recover_from_log u = Inr v \<and> cache_inv i p {} v \<and> dirty_blocks v = {}
    \<and> dk_blocks v = (replay (map (\<lambda>j. (at j, dk_blocks u (logno u j))) [0..<nat n]) (dk_blocks u))
        (headno u := head_block 0 bs (dk_blocks u (headno u)))"
proof -
  let ?js = "[0..<nat n]" and ?S = "headno u"
  obtain t bs where t: "read_head u = Inr t" "cache_inv i p {} t"
      "disk_of t = (disk_of u)\<lparr>dv_rest := (beyond u)\<lparr>lg_n := n, lg_block := bs\<rparr>\<rparr>"
      "\<And>j. j < nat n \<Longrightarrow> word_of_int (bs ! j) = ld32 (dk_blocks u ?S) (4 + 4 * j)"
    using read_head_eq [OF inv clean dev n] by blast
  note d = disk_of_eqD [OF t(3), simplified]
  have "beyond t = beyond (u\<lparr>lg_n := n, lg_block := bs\<rparr>)" using d(5) by (simp add: set_lg_head)
  note e = same_beyond [OF this, simplified]
  have ht: "home t j = at j" if "j < nat n" for j using e(8) t(4) [OF that] at [OF that] by (simp add: home_def)
  have lt: "logno t = logno u" "headno t = ?S" "lg_n t = n" "lg_dev t = 1" "dk_size t = dk_size u"
    using e dev(1) by (simp_all add: logno_def headno_def fun_eq_iff)
  have vw: "view t x = dk_blocks u x" for x using clean_view [OF inv] clean d(1) by simp
  obtain v where v: "install_from ?js t = Inr v" "cache_inv i p {} v" "disk_of v = dv_copies (logno t) (home t) ?js (disk_of t)"
    using install_copies [OF t(2) lt(4), of ?js] lt ht fits apart d(2) clean by (auto simp: NBUF_def)
  let ?w = "map (\<lambda>j. (at j, dk_blocks u (logno u j))) ?js"
  have "dv_copies (logno t) (home t) ?js (disk_of t)
      = dv_run (map (\<lambda>j. (home t j, dk_blocks u (logno u j))) ?js) (home t ` set ?js) (disk_of t)"
    using lt(1) ht apart vw by (intro dv_copies_run) auto
  moreover have "map (\<lambda>j. (home t j, dk_blocks u (logno u j))) ?js = ?w" using ht by simp
  ultimately have a: "disk_of v = dv_run ?w (home t ` set ?js) (disk_of t)" using v(3) by simp
  note dv = disk_of_eqD [OF a, simplified]
  note ev = same_beyond [OF dv(5)]
  have vS: "view v ?S = dk_blocks u ?S" using dv(1) fits vw by (simp add: replay_map_other)
  obtain w where w: "write_head (v\<lparr>lg_n := 0\<rparr>) = Inr w" "cache_inv i p {} w"
      "disk_of w = dv_run [(?S, head_block 0 (lg_block v) (dk_blocks u ?S))] {?S} (disk_of (v\<lparr>lg_n := 0\<rparr>))"
    using write_head_eq [of i p "v\<lparr>lg_n := 0\<rparr>"] v(2) ev lt dev(2) dv(2) d(2) clean vS
    by (auto simp: dv_write_put NBUF_def)
  note dw = disk_of_eqD [OF w(3), simplified]
  have "recover_from_log u = Inr w" using t(1) v(1) w(1) lt by (simp add: recover_from_log_def install_trans_def)
  then show ?thesis using w(2) dw dv d clean by auto
qed

section \<open>Crashes\<close>

lemma commit_prefixes:
  obtains "k \<le> nat (lg_n s)" "take k (commit_writes s) = take k (log_writes s)"
  | m where "nat (lg_n s) < k" "take k (commit_writes s) = log_writes s @ (headno s, full_head s) # take m (home_writes s)"
  | "nat (lg_n s) < k" "take k (commit_writes s) = commit_writes s"
proof -
  let ?n = "nat (lg_n s)"
  consider "k \<le> ?n" | m where "k = ?n + Suc m" "m \<le> ?n" | m where "k = ?n + Suc m" "?n < m"
    by (metis less_imp_Suc_add not_le not_less add_Suc_right)
  then show thesis using that by cases (simp_all add: commit_writes_eq)
qed

lemma replay_log_writes:
  "no \<notin> log_blocks s \<Longrightarrow> replay (take k (log_writes s)) d no = d no"
  "log_ready i p s \<Longrightarrow> replay (take k (log_writes s)) d (headno s) = d (headno s)"
proof -
  have sub: "fst ` set (take k (log_writes s)) \<subseteq> logno s ` {..<nat (lg_n s)}"
    by (auto simp: log_writes_def take_map dest: in_set_takeD)
  then show "replay (take k (log_writes s)) d no = d no" if "no \<notin> log_blocks s"
    using that by (intro replay_other) (auto simp: log_blocks_def)
  show "replay (take k (log_writes s)) d (headno s) = d (headno s)" if "log_ready i p s"
    using sub ready_facts(8) [OF that] by (intro replay_other) fastforce
qed

lemma replay_home_writes:
  assumes r: "log_ready i p s"
  shows "no \<in> log_blocks s \<Longrightarrow> replay (take k (home_writes s)) d no = d no"
    and "d no = dk_blocks s no \<Longrightarrow> replay (home_writes s) d no = view s no"
proof -
  show "replay (take k (home_writes s)) d no = d no" if "no \<in> log_blocks s"
    using that ready_facts(1) [OF r] by (intro replay_other) (auto simp: home_writes_def take_map dest!: in_set_takeD)
  show "replay (home_writes s) d no = view s no" if d: "d no = dk_blocks s no"
  proof (cases "no \<in> home s ` {0..<nat (lg_n s)}")
    case True
    then obtain j where "j < nat (lg_n s)" "no = home s j" by auto
    then show ?thesis using ready_facts(2) [OF r]
      by (simp add: home_writes_def replay_map_in [of "home s" "[0..<nat (lg_n s)]" j "\<lambda>j. view s (home s j)"])
  next
    case False
    then have "no \<notin> dirty_blocks s" "cache_inv i p {} s" using r by (auto simp: log_ready_def)
    moreover have "replay (home_writes s) d no = d no" unfolding home_writes_def using False by (intro replay_map_other) auto
    ultimately show ?thesis using d clean_view by metis
  qed
qed

lemma recover_empty:
  assumes b: "rebooted i p s d u" and s: "headno s < dk_size s" "ld32 (d (headno s)) 0 = 0"
  shows "\<exists>v bs. recover_from_log u = Inr v \<and> dk_blocks v = d(headno s := head_block 0 bs (d (headno s)))"
proof -
  have "headno u = headno s" using b by (simp add: rebooted_def headno_def)
  then show ?thesis using recover_eq [of i p u 0 "\<lambda>_. 0"] b s
    by (auto simp: rebooted_def LOGSIZE_def MAXOPBLOCKS_def)
qed

lemma recover_full:
  assumes r: "log_ready i p s" and b: "rebooted i' p' s d u" and h: "d (headno s) = full_head s"
    and l: "\<And>j. j < nat (lg_n s) \<Longrightarrow> d (logno s j) = view s (home s j)"
  shows "\<exists>v bs. recover_from_log u = Inr v \<and> dk_blocks v = (replay (home_writes s) d)(headno s := head_block 0 bs (full_head s))"
proof -
  note f = ready_facts [OF r]
  have e: "headno u = headno s" "logno u = logno s" "dk_size u = dk_size s" "dk_blocks u = d"
    using b by (simp_all add: rebooted_def headno_def logno_def fun_eq_iff)
  have fits: "log_fits (lg_n s) s" using r by (simp add: log_ready_def)
  have w: "map (\<lambda>j. (home s j, d (logno s j))) [0..<nat (lg_n s)] = home_writes s" by (simp add: home_writes_def l)
  have 1: "logno u j < dk_size u \<and> home s j < dk_size u \<and> home s j \<noteq> headno u" if "j < nat (lg_n s)" for j
    using fits log_numbers(1) [OF fits that] that by (auto simp: e log_fits_def)
  have 2: "logno u j \<noteq> home s k" if "j < nat (lg_n s)" "k < nat (lg_n s)" for j k
    using f(1) [OF that(2)] that(1) unfolding e log_blocks_def by (metis imageI insertI2 lessThan_iff)
  have 3: "cache_inv i' p' {} u" "dirty_blocks u = {}" "lg_dev u = 1" "headno u < dk_size u"
    using b f(10) by (auto simp: rebooted_def e)
  have "\<exists>v bs. recover_from_log u = Inr v \<and> cache_inv i' p' {} v \<and> dirty_blocks v = {}
    \<and> dk_blocks v = (replay (map (\<lambda>j. (home s j, dk_blocks u (logno u j))) [0..<nat (lg_n s)]) (dk_blocks u))
        (headno u := head_block 0 bs (dk_blocks u (headno u)))"
    by (rule recover_eq [OF 3 _ f(9)]) (use f(4,5) 1 2 in \<open>simp_all add: e h\<close>)
  then show ?thesis unfolding e w h by blast
qed

lemma crash_recovers:
  assumes r: "log_ready i p s" and b: "rebooted i' p' s (replay (take k (commit_writes s)) (dk_blocks s)) u"
  shows "\<exists>v. recover_from_log u = Inr v \<and> ld32 (dk_blocks v (headno s)) 0 = 0 \<and>
    (\<forall>no. no \<notin> log_blocks s \<longrightarrow> dk_blocks v no = (if k \<le> nat (lg_n s) then dk_blocks s no else view s no))"
proof (cases rule: commit_prefixes [of k s])
  case 1
  let ?d = "replay (take k (log_writes s)) (dk_blocks s)"
  have h: "?d (headno s) = dk_blocks s (headno s)" by (rule replay_log_writes(2) [OF r])
  have "ld32 (?d (headno s)) 0 = 0" using r h by (simp add: log_ready_def)
  from recover_empty [OF b [unfolded 1(2)] ready_facts(10) [OF r] this] obtain v bs where
    v: "recover_from_log u = Inr v" "dk_blocks v = ?d(headno s := head_block 0 bs (?d (headno s)))" by blast
  then show ?thesis
    using 1(1) h ready_facts(7) [OF r] replay_log_writes(1) [of _ s] by (auto simp: log_blocks_def)
next
  case (2 m)
  let ?x = "(replay (log_writes s) (dk_blocks s))(headno s := full_head s)"
  let ?d = "replay (take m (home_writes s)) ?x"
  have lb: "headno s \<in> log_blocks s" "j < nat (lg_n s) \<Longrightarrow> logno s j \<in> log_blocks s" for j by (auto simp: log_blocks_def)
  have d: "?d (headno s) = full_head s" using replay_home_writes(1) [OF r lb(1)] by simp
  have "?d (logno s j) = view s (home s j)" if "j < nat (lg_n s)" for j
    using replay_home_writes(1) [OF r lb(2) [OF that]] ready_facts(3,8) [OF r] that
    by (simp add: log_writes_def replay_map_in [of "logno s" "[0..<nat (lg_n s)]" j "\<lambda>j. view s (home s j)"])
  with recover_full [OF r, of i' p' ?d u] d b 2(2) obtain v bs where
    v: "recover_from_log u = Inr v" "dk_blocks v = (replay (home_writes s) ?d)(headno s := head_block 0 bs (full_head s))"
    by auto
  have "distinct (map fst (home_writes s))" using ready_facts(2) [OF r] by (simp add: home_writes_def distinct_map comp_def)
  then have "dk_blocks v = (replay (home_writes s) ?x)(headno s := head_block 0 bs (full_head s))"
    using v(2) by (simp add: replay_twice)
  moreover have "replay (home_writes s) ?x no = view s no" if "no \<notin> log_blocks s" for no
    using that replay_log_writes(1) [of no s "nat (lg_n s)"] lb(1) by (intro replay_home_writes(2) [OF r]) auto
  ultimately show ?thesis using v(1) 2(1) ready_facts(6) [OF r] lb(1) by (auto simp: not_le [symmetric])
next
  case 3
  let ?x = "(replay (log_writes s) (dk_blocks s))(headno s := full_head s)"
  let ?d = "(replay (home_writes s) ?x)(headno s := head_block 0 (lg_block s) (full_head s))"
  have e: "replay (commit_writes s) (dk_blocks s) = ?d" by (simp add: commit_writes_eq)
  have h: "ld32 (?d (headno s)) 0 = 0" using ready_facts(6) [OF r] by simp
  from recover_empty [OF b [unfolded 3(2) e] ready_facts(10) [OF r] h] obtain v bs where
    v: "recover_from_log u = Inr v" "dk_blocks v = ?d(headno s := head_block 0 bs (?d (headno s)))" by blast
  have "replay (home_writes s) ?x no = view s no" if "no \<notin> log_blocks s" for no
    using that replay_log_writes(1) [of no s "nat (lg_n s)"] by (intro replay_home_writes(2) [OF r]) (auto simp: log_blocks_def)
  moreover have "ld32 (head_block 0 bs (head_block 0 (lg_block s) (full_head s))) 0 = 0"
    using r by (simp add: head_block_def full_head_def BSIZE_def log_ready_def)
  ultimately show ?thesis
    using v 3(1) by (auto simp: log_blocks_def)
qed

end
