(* ===== verification/Inode.thy ===== *)
theory Inode
  imports Log
begin

unbundle bit_operations_syntax

text \<open>
  The block allocator and the inode layer of \<^verbatim>\<open>fs.c\<close>: the free bitmap, the inode cache, the
  inodes on disk and the map from file blocks to disk blocks. An inode pointer is an index into
  the inode cache; short integers are 16-bit words.
\<close>

section \<open>Data\<close>

definition NINODE :: nat where "NINODE = 50"
definition NDIRECT :: nat where "NDIRECT = 12"
definition NINDIRECT :: nat where "NINDIRECT = BSIZE div 4"
definition MAXFILE :: nat where "MAXFILE = NDIRECT + NINDIRECT"
definition IPB :: nat where "IPB = BSIZE div 64"
definition BPB :: nat where "BPB = BSIZE * 8"
definition ROOTINO :: uint where "ROOTINO = 1"
definition ROOTDEV :: uint where "ROOTDEV = 1"
definition T_DIR :: ushort where "T_DIR = 1"
definition T_FILE :: ushort where "T_FILE = 2"
definition T_DEV :: ushort where "T_DEV = 3"

record inode =
  i_dev :: uint
  i_inum :: uint
  i_ref :: int
  i_valid :: bool
  i_type :: ushort
  i_major :: ushort
  i_minor :: ushort
  i_nlink :: ushort
  i_size :: uint
  i_addrs :: "uint list"

record ist = lst +
  fs_sb :: superblock
  ic_inode :: "inode list"

definition upd_inode :: "nat \<Rightarrow> (inode \<Rightarrow> inode) \<Rightarrow> 'a ist_scheme \<Rightarrow> 'a ist_scheme" where
  "upd_inode i f s = s\<lparr>ic_inode := (ic_inode s)[i := f (ic_inode s ! i)]\<rparr>"

definition IBLOCK :: "uint \<Rightarrow> superblock \<Rightarrow> uint" where
  "IBLOCK i sb = i div of_nat IPB + sb_inodestart sb"

definition BBLOCK :: "uint \<Rightarrow> superblock \<Rightarrow> uint" where
  "BBLOCK b sb = b div of_nat BPB + sb_bmapstart sb"

section \<open>Disk blocks\<close>

definition bzero :: "uint \<Rightarrow> uint \<Rightarrow> 'a lst_scheme \<Rightarrow> failure + 'a lst_scheme" where
  "bzero dev bno s =
     andThen (bread dev bno s) (\<lambda>(b, s).
     andThen (log_write b (set_bdata b (replicate BSIZE 0) s)) (brelse b))"

text \<open>The first clear bit of a bitmap block, below \<open>n\<close>.\<close>

definition bit_clear :: "block \<Rightarrow> nat \<Rightarrow> bool" where
  "bit_clear d bi \<longleftrightarrow> (d ! (bi div 8)) AND push_bit (bi mod 8) 1 = 0"

fun balloc_from :: "uint \<Rightarrow> nat list \<Rightarrow> 'a ist_scheme \<Rightarrow> failure + uint \<times> 'a ist_scheme" where
  "balloc_from dev [] s = Inl (Panic ''balloc: out of blocks'')"
| "balloc_from dev (b # bs) s =
     andThen (bread dev (BBLOCK (of_nat b) (fs_sb s)) s) (\<lambda>(bp, s).
     case find (bit_clear (bdata bp s)) [0..<min BPB (unat (sb_size (fs_sb s)) - b)] of
       Some bi \<Rightarrow>
         let d = bdata bp s;
             s = set_bdata bp (d[bi div 8 := (d ! (bi div 8)) OR push_bit (bi mod 8) 1]) s
         in andThen (log_write bp s) (\<lambda>s.
            andThen (brelse bp s) (\<lambda>s.
            andThen (bzero dev (of_nat (b + bi)) s) (\<lambda>s. Inr (of_nat (b + bi), s))))
     | None \<Rightarrow> andThen (brelse bp s) (balloc_from dev bs))"

definition balloc :: "uint \<Rightarrow> 'a ist_scheme \<Rightarrow> failure + uint \<times> 'a ist_scheme" where
  "balloc dev s = balloc_from dev
     (map (\<lambda>k. k * BPB) [0..<(unat (sb_size (fs_sb s)) + BPB - 1) div BPB]) s"

definition bfree :: "uint \<Rightarrow> uint \<Rightarrow> 'a ist_scheme \<Rightarrow> failure + 'a ist_scheme" where
  "bfree dev b s =
     andThen (bread dev (BBLOCK b (fs_sb s)) s) (\<lambda>(bp, s).
     let bi = unat b mod BPB;
         d = bdata bp s
     in if bit_clear d bi then Inl (Panic ''freeing free block'')
        else let s = set_bdata bp (d[bi div 8 := (d ! (bi div 8)) AND NOT (push_bit (bi mod 8) 1)]) s
             in andThen (log_write bp s) (brelse bp))"

section \<open>Inodes\<close>

fun init_inode_locks :: "nat list \<Rightarrow> 'a ist_scheme \<Rightarrow> 'a ist_scheme" where
  "init_inode_locks [] s = s"
| "init_inode_locks (i # is) s = init_inode_locks is (initsleeplock (InodeLock i) ''inode'' s)"

definition iinit :: "uint \<Rightarrow> 'a ist_scheme \<Rightarrow> failure + 'a ist_scheme" where
  "iinit dev s =
     andThen (readsb dev (init_inode_locks [0..<NINODE] (initlock ICACHE ''icache'' s))) (\<lambda>(sb, s).
     Inr (s\<lparr>fs_sb := sb\<rparr>))"

text \<open>The disk inode at byte \<open>k\<close> of a block: 64 bytes.\<close>

definition put_dinode :: "nat \<Rightarrow> inode \<Rightarrow> block \<Rightarrow> block" where
  "put_dinode k ip d =
     (let d = st16 k (i_type ip) d;
          d = st16 (k + 2) (i_major ip) d;
          d = st16 (k + 4) (i_minor ip) d;
          d = st16 (k + 6) (i_nlink ip) d;
          d = st32 (k + 8) (i_size ip) d
      in fold (\<lambda>j. st32 (k + 12 + 4 * j) (i_addrs ip ! j)) [0..<NDIRECT + 1] d)"

definition get_dinode :: "nat \<Rightarrow> block \<Rightarrow> inode \<Rightarrow> inode" where
  "get_dinode k d ip = ip\<lparr>i_type := ld16 d k, i_major := ld16 d (k + 2), i_minor := ld16 d (k + 4),
     i_nlink := ld16 d (k + 6), i_size := ld32 d (k + 8),
     i_addrs := map (\<lambda>j. ld32 d (k + 12 + 4 * j)) [0..<NDIRECT + 1]\<rparr>"

definition dinode_at :: "uint \<Rightarrow> nat" where
  "dinode_at inum = 64 * (unat inum mod IPB)"

definition iget :: "uint \<Rightarrow> uint \<Rightarrow> 'a ist_scheme \<Rightarrow> failure + nat \<times> 'a ist_scheme" where
  "iget dev inum s =
     andThen (acquire ICACHE s) (\<lambda>s.
     case first_index (\<lambda>ip. i_ref ip > 0 \<and> i_dev ip = dev \<and> i_inum ip = inum) (ic_inode s) of
       Some i \<Rightarrow> andThen (release ICACHE (upd_inode i (\<lambda>ip. ip\<lparr>i_ref := i_ref ip + 1\<rparr>) s)) (\<lambda>s. Inr (i, s))
     | None \<Rightarrow>
        (case first_index (\<lambda>ip. i_ref ip = 0) (ic_inode s) of
          None \<Rightarrow> Inl (Panic ''iget: no inodes'')
        | Some i \<Rightarrow>
            let s = upd_inode i (\<lambda>ip. ip\<lparr>i_dev := dev, i_inum := inum, i_ref := 1, i_valid := False\<rparr>) s
            in andThen (release ICACHE s) (\<lambda>s. Inr (i, s))))"

fun ialloc_from :: "uint \<Rightarrow> ushort \<Rightarrow> nat list \<Rightarrow> 'a ist_scheme \<Rightarrow> failure + nat \<times> 'a ist_scheme" where
  "ialloc_from dev type [] s = Inl (Panic ''ialloc: no inodes'')"
| "ialloc_from dev type (inum # ns) s =
     andThen (bread dev (IBLOCK (of_nat inum) (fs_sb s)) s) (\<lambda>(bp, s).
     let k = dinode_at (of_nat inum)
     in if ld16 (bdata bp s) k = 0
        then let d = bdata bp s;
                 s = set_bdata bp (st16 k type (take k d @ replicate 64 0 @ drop (k + 64) d)) s
             in andThen (log_write bp s) (\<lambda>s.
                andThen (brelse bp s) (\<lambda>s. iget dev (of_nat inum) s))
        else andThen (brelse bp s) (ialloc_from dev type ns))"

definition ialloc :: "uint \<Rightarrow> ushort \<Rightarrow> 'a ist_scheme \<Rightarrow> failure + nat \<times> 'a ist_scheme" where
  "ialloc dev type s = ialloc_from dev type [1..<unat (sb_ninodes (fs_sb s))] s"

definition iupdate :: "nat \<Rightarrow> 'a ist_scheme \<Rightarrow> failure + 'a ist_scheme" where
  "iupdate ip s =
     andThen (bread (i_dev (ic_inode s ! ip)) (IBLOCK (i_inum (ic_inode s ! ip)) (fs_sb s)) s) (\<lambda>(bp, s).
     let x = ic_inode s ! ip;
         s = set_bdata bp (put_dinode (dinode_at (i_inum x)) x (bdata bp s)) s
     in andThen (log_write bp s) (brelse bp))"

definition idup :: "nat \<Rightarrow> 'a ist_scheme \<Rightarrow> failure + 'a ist_scheme" where
  "idup ip s =
     andThen (acquire ICACHE s) (\<lambda>s.
     release ICACHE (upd_inode ip (\<lambda>x. x\<lparr>i_ref := i_ref x + 1\<rparr>) s))"

text \<open>\<open>ilock\<close> and \<open>iunlock\<close> take the inode pointer as an option: \<open>None\<close> is the null pointer.\<close>

definition ilock :: "nat option \<Rightarrow> 'a ist_scheme \<Rightarrow> failure + 'a ist_scheme" where
  "ilock p s = (case p of None \<Rightarrow> Inl (Panic ''ilock'')
   | Some ip \<Rightarrow>
      if i_ref (ic_inode s ! ip) < 1 then Inl (Panic ''ilock'')
      else andThen (acquiresleep (InodeLock ip) s) (\<lambda>s.
        if \<not> i_valid (ic_inode s ! ip)
        then andThen (bread (i_dev (ic_inode s ! ip)) (IBLOCK (i_inum (ic_inode s ! ip)) (fs_sb s)) s) (\<lambda>(bp, s).
          let d = bdata bp s;
              s = upd_inode ip (\<lambda>x. get_dinode (dinode_at (i_inum x)) d x) s
          in andThen (brelse bp s) (\<lambda>s.
             let s = upd_inode ip (\<lambda>x. x\<lparr>i_valid := True\<rparr>) s
             in if i_type (ic_inode s ! ip) = 0 then Inl (Panic ''ilock: no type'') else Inr s))
        else Inr s))"

definition iunlock :: "nat option \<Rightarrow> 'a ist_scheme \<Rightarrow> failure + 'a ist_scheme" where
  "iunlock p s = (case p of None \<Rightarrow> Inl (Panic ''iunlock'')
   | Some ip \<Rightarrow>
      andThen (holdingsleep (InodeLock ip) s) (\<lambda>(h, s).
      if \<not> h \<or> i_ref (ic_inode s ! ip) < 1 then Inl (Panic ''iunlock'')
      else releasesleep (InodeLock ip) s))"

section \<open>The blocks of a file\<close>

definition bmap :: "nat \<Rightarrow> nat \<Rightarrow> 'a ist_scheme \<Rightarrow> failure + uint \<times> 'a ist_scheme" where
  "bmap ip bn s =
     (if bn < NDIRECT
      then let addr = i_addrs (ic_inode s ! ip) ! bn
           in if addr = 0
              then andThen (balloc (i_dev (ic_inode s ! ip)) s) (\<lambda>(addr, s).
                   Inr (addr, upd_inode ip (\<lambda>x. x\<lparr>i_addrs := (i_addrs x)[bn := addr]\<rparr>) s))
              else Inr (addr, s)
      else let bn = bn - NDIRECT
           in if bn < NINDIRECT
              then andThen
                (if i_addrs (ic_inode s ! ip) ! NDIRECT = 0
                 then andThen (balloc (i_dev (ic_inode s ! ip)) s) (\<lambda>(addr, s).
                      Inr (addr, upd_inode ip (\<lambda>x. x\<lparr>i_addrs := (i_addrs x)[NDIRECT := addr]\<rparr>) s))
                 else Inr (i_addrs (ic_inode s ! ip) ! NDIRECT, s)) (\<lambda>(addr, s).
                andThen (bread (i_dev (ic_inode s ! ip)) addr s) (\<lambda>(bp, s).
                andThen
                (if ld32 (bdata bp s) (4 * bn) = 0
                 then andThen (balloc (i_dev (ic_inode s ! ip)) s) (\<lambda>(addr, s).
                      andThen (log_write bp (set_bdata bp (st32 (4 * bn) addr (bdata bp s)) s)) (\<lambda>s.
                      Inr (addr, s)))
                 else Inr (ld32 (bdata bp s) (4 * bn), s)) (\<lambda>(addr, s).
                andThen (brelse bp s) (\<lambda>s. Inr (addr, s)))))
              else Inl (Panic ''bmap: out of range''))"

fun itrunc_direct :: "nat \<Rightarrow> nat list \<Rightarrow> 'a ist_scheme \<Rightarrow> failure + 'a ist_scheme" where
  "itrunc_direct ip [] s = Inr s"
| "itrunc_direct ip (i # is) s =
     (let addr = i_addrs (ic_inode s ! ip) ! i
      in if addr \<noteq> 0
         then andThen (bfree (i_dev (ic_inode s ! ip)) addr s) (\<lambda>s.
              itrunc_direct ip is (upd_inode ip (\<lambda>x. x\<lparr>i_addrs := (i_addrs x)[i := 0]\<rparr>) s))
         else itrunc_direct ip is s)"

fun itrunc_indirect :: "uint \<Rightarrow> nat \<Rightarrow> nat list \<Rightarrow> 'a ist_scheme \<Rightarrow> failure + 'a ist_scheme" where
  "itrunc_indirect dev bp [] s = Inr s"
| "itrunc_indirect dev bp (j # js) s =
     (let a = ld32 (bdata bp s) (4 * j)
      in if a \<noteq> 0 then andThen (bfree dev a s) (itrunc_indirect dev bp js)
         else itrunc_indirect dev bp js s)"

definition itrunc :: "nat \<Rightarrow> 'a ist_scheme \<Rightarrow> failure + 'a ist_scheme" where
  "itrunc ip s =
     andThen (itrunc_direct ip [0..<NDIRECT] s) (\<lambda>s.
     let ind = i_addrs (ic_inode s ! ip) ! NDIRECT;
         dev = i_dev (ic_inode s ! ip)
     in andThen
        (if ind \<noteq> 0
         then andThen (bread dev ind s) (\<lambda>(bp, s).
              andThen (itrunc_indirect dev bp [0..<NINDIRECT] s) (\<lambda>s.
              andThen (brelse bp s) (\<lambda>s.
              andThen (bfree dev ind s) (\<lambda>s.
              Inr (upd_inode ip (\<lambda>x. x\<lparr>i_addrs := (i_addrs x)[NDIRECT := 0]\<rparr>) s)))))
         else Inr s) (\<lambda>s.
        iupdate ip (upd_inode ip (\<lambda>x. x\<lparr>i_size := 0\<rparr>) s)))"

definition iput :: "nat \<Rightarrow> 'a ist_scheme \<Rightarrow> failure + 'a ist_scheme" where
  "iput ip s =
     andThen (acquiresleep (InodeLock ip) s) (\<lambda>s.
     andThen
       (if i_valid (ic_inode s ! ip) \<and> i_nlink (ic_inode s ! ip) = 0
        then andThen (acquire ICACHE s) (\<lambda>s.
             let r = i_ref (ic_inode s ! ip)
             in andThen (release ICACHE s) (\<lambda>s.
                if r = 1
                then andThen (itrunc ip s) (\<lambda>s.
                     andThen (iupdate ip (upd_inode ip (\<lambda>x. x\<lparr>i_type := 0\<rparr>) s)) (\<lambda>s.
                     Inr (upd_inode ip (\<lambda>x. x\<lparr>i_valid := False\<rparr>) s)))
                else Inr s))
        else Inr s) (\<lambda>s.
     andThen (releasesleep (InodeLock ip) s) (\<lambda>s.
     andThen (acquire ICACHE s) (\<lambda>s.
     release ICACHE (upd_inode ip (\<lambda>x. x\<lparr>i_ref := i_ref x - 1\<rparr>) s)))))"

definition iunlockput :: "nat \<Rightarrow> 'a ist_scheme \<Rightarrow> failure + 'a ist_scheme" where
  "iunlockput ip s = andThen (iunlock (Some ip) s) (iput ip)"

record stat =
  st_type :: ushort
  st_dev :: uint
  st_ino :: uint
  st_nlink :: ushort
  st_size :: uint

definition stati :: "nat \<Rightarrow> 'a ist_scheme \<Rightarrow> stat" where
  "stati ip s = (let x = ic_inode s ! ip
     in \<lparr>st_type = i_type x, st_dev = i_dev x, st_ino = i_inum x, st_nlink = i_nlink x, st_size = i_size x\<rparr>)"

end
