(* ===== verification/Console.thy ===== *)
theory Console
  imports Inode
begin

unbundle bit_operations_syntax

text \<open>
  The console, \<^verbatim>\<open>console.c\<close>: formatted output, line editing of the input in the interrupt handler,
  and the device's read and write functions. What \<open>consputc\<close> sends to the screen and the serial
  line is the list \<open>cs_out\<close> of character codes, with \<open>BACKSPACE\<close> for a rubbed-out character; the
  screen memory of \<open>cgaputc\<close> is not modelled. A reader that finds no complete line has to sleep,
  which is the outcome \<open>Sleeps\<close>.
\<close>

definition INPUT_BUF :: uint where "INPUT_BUF = 128"
definition BACKSPACE :: int where "BACKSPACE = 0x100"

text \<open>Control characters: \<^verbatim>\<open>C('P')\<close>, \<^verbatim>\<open>C('U')\<close>, \<^verbatim>\<open>C('H')\<close> and \<^verbatim>\<open>C('D')\<close>.\<close>

definition ctrl :: "char \<Rightarrow> int" where
  "ctrl c = int (of_char c) - int (of_char CHR ''@'')"

record cst = ist +
  cs_locking :: bool
  cs_out :: "int list"
  cs_buf :: "uchar list"
  cs_r :: uint
  cs_w :: uint
  cs_e :: uint

definition consputc :: "int \<Rightarrow> 'a cst_scheme \<Rightarrow> 'a cst_scheme" where
  "consputc c s = s\<lparr>cs_out := cs_out s @ [c]\<rparr>"

section \<open>Output\<close>

text \<open>The digits of a number, least significant first, as the loop of \<open>printint\<close> stores them in \<open>buf\<close>.\<close>

definition digit :: "nat \<Rightarrow> int" where
  "digit d = int (of_char (''0123456789abcdef'' ! d))"

function print_digits :: "nat \<Rightarrow> nat \<Rightarrow> int list" where
  "print_digits base x =
     (if base < 2 then []
      else digit (x mod base) # (if x div base \<noteq> 0 then print_digits base (x div base) else []))"
  by pat_completeness auto
termination
  by (relation "measure (\<lambda>(base, x). x)") (auto intro!: div_less_dividend gr0I)

declare print_digits.simps [simp del]

definition printint_str :: "int \<Rightarrow> nat \<Rightarrow> bool \<Rightarrow> int list" where
  "printint_str xx base sign =
     (let neg = (sign \<and> xx < 0);
          x = unat (word_of_int (if neg then - xx else xx) :: uint)
      in rev (print_digits base x @ (if neg then [45] else [])))"

definition printint :: "int \<Rightarrow> nat \<Rightarrow> bool \<Rightarrow> 'a cst_scheme \<Rightarrow> 'a cst_scheme" where
  "printint xx base sign s = fold consputc (printint_str xx base sign) s"

text \<open>The arguments of \<open>cprintf\<close>: words, and pointers to strings (\<open>None\<close> for the null pointer).\<close>

datatype parg = PInt int | PStr "uchar list option"

fun cprintf_str :: "int list \<Rightarrow> parg list \<Rightarrow> failure + int list" where
  "cprintf_str [] args = Inr []"
| "cprintf_str (c # fmt) args =
     (if c \<noteq> 37 then andThen (cprintf_str fmt args) (\<lambda>r. Inr (c # r))
      else case fmt of
        [] \<Rightarrow> Inr []
      | d # fmt \<Rightarrow>
         if d = 100 then
           (case args of PInt x # args \<Rightarrow> andThen (cprintf_str fmt args) (\<lambda>r. Inr (printint_str x 10 True @ r))
            | _ \<Rightarrow> Inl (Undefined ''cprintf: argument''))
         else if d = 120 \<or> d = 112 then
           (case args of PInt x # args \<Rightarrow> andThen (cprintf_str fmt args) (\<lambda>r. Inr (printint_str x 16 False @ r))
            | _ \<Rightarrow> Inl (Undefined ''cprintf: argument''))
         else if d = 115 then
           (case args of PStr p # args \<Rightarrow>
              andThen (cprintf_str fmt args) (\<lambda>r.
              Inr ((case p of None \<Rightarrow> map (\<lambda>c. int (of_char c)) ''(null)'' | Some cs \<Rightarrow> map uint cs) @ r))
            | _ \<Rightarrow> Inl (Undefined ''cprintf: argument''))
         else if d = 37 then andThen (cprintf_str fmt args) (\<lambda>r. Inr (37 # r))
         else andThen (cprintf_str fmt args) (\<lambda>r. Inr (37 # d # r)))"

definition cprintf :: "string \<Rightarrow> parg list \<Rightarrow> 'a cst_scheme \<Rightarrow> failure + 'a cst_scheme" where
  "cprintf fmt args s =
     (let locking = cs_locking s
      in andThen (if locking then acquire CONSLOCK s else Inr s) (\<lambda>s.
      andThen (cprintf_str (map (\<lambda>c. int (of_char c)) fmt) args) (\<lambda>out.
      let s = fold consputc out s
      in if locking then release CONSLOCK s else Inr s)))"

section \<open>Input\<close>

text \<open>Kill line: rub out back to the last newline or to what readers may already see.\<close>

function kill_line :: "'a cst_scheme \<Rightarrow> 'a cst_scheme" where
  "kill_line s =
     (if cs_e s \<noteq> cs_w s \<and> cs_buf s ! unat ((cs_e s - 1) mod INPUT_BUF) \<noteq> 10
      then kill_line (consputc BACKSPACE (s\<lparr>cs_e := cs_e s - 1\<rparr>)) else s)"
  by pat_completeness auto
termination
proof (relation "measure (\<lambda>s. unat (cs_e s - cs_w s))")
  fix s :: "'a cst_scheme"
  assume "cs_e s \<noteq> cs_w s \<and> cs_buf s ! unat ((cs_e s - 1) mod INPUT_BUF) \<noteq> 10"
  then have "cs_e s - cs_w s \<noteq> 0" by simp
  then have "unat (cs_e s - cs_w s - 1) < unat (cs_e s - cs_w s)"
    by (metis measure_unat)
  then show "(consputc BACKSPACE (s\<lparr>cs_e := cs_e s - 1\<rparr>), s) \<in> measure (\<lambda>s. unat (cs_e s - cs_w s))"
    by (simp add: consputc_def algebra_simps)
qed simp

declare kill_line.simps [simp del]

definition console_char :: "int \<Rightarrow> 'a cst_scheme \<Rightarrow> failure + 'a cst_scheme" where
  "console_char c s =
     (if c = ctrl CHR ''P'' then Inr s
      else if c = ctrl CHR ''U'' then Inr (kill_line s)
      else if c = ctrl CHR ''H'' \<or> c = 0x7f
      then Inr (if cs_e s \<noteq> cs_w s then consputc BACKSPACE (s\<lparr>cs_e := cs_e s - 1\<rparr>) else s)
      else if c \<noteq> 0 \<and> cs_e s - cs_r s < INPUT_BUF
      then let c = (if c = 13 then 10 else c);
               s = s\<lparr>cs_buf := (cs_buf s)[unat (cs_e s mod INPUT_BUF) := word_of_int c], cs_e := cs_e s + 1\<rparr>;
               s = consputc c s
           in if c = 10 \<or> c = ctrl CHR ''D'' \<or> cs_e s = cs_r s + INPUT_BUF
              then wakeup ChInput (s\<lparr>cs_w := cs_e s\<rparr>) else Inr s
      else Inr s)"

fun console_chars :: "int list \<Rightarrow> 'a cst_scheme \<Rightarrow> failure + 'a cst_scheme" where
  "console_chars [] s = Inr s"
| "console_chars (c # cs) s = andThen (console_char c s) (console_chars cs)"

text \<open>
  The interrupt handler, for the characters that \<open>getc\<close> delivers before it returns a negative
  value; the result also has the process listing when one was asked for.
\<close>

definition consoleintr :: "int list \<Rightarrow> 'a cst_scheme \<Rightarrow>
    failure + (int \<times> string \<times> uchar list \<times> uint list) list option \<times> 'a cst_scheme" where
  "consoleintr cs s =
     andThen (acquire CONSLOCK s) (\<lambda>s.
     andThen (console_chars cs s) (\<lambda>s.
     andThen (release CONSLOCK s) (\<lambda>s.
     Inr (if ctrl CHR ''P'' \<in> set cs then Some (procdump s) else None, s))))"

section \<open>The device functions\<close>

fun consoleread_loop :: "nat \<Rightarrow> nat \<Rightarrow> uchar list \<Rightarrow> 'a cst_scheme \<Rightarrow>
    failure + (nat \<times> uchar list) option \<times> 'a cst_scheme" where
  "consoleread_loop target 0 acc s = Inr (Some (0, acc), s)"
| "consoleread_loop target (Suc n) acc s =
     (if cs_r s = cs_w s
      then andThen (myproc s) (\<lambda>(q, s). deref q (\<lambda>p.
           if p_killed (ps_proc s ! p) \<noteq> 0 then Inr (None, s) else Inl (Sleeps ChInput)))
      else let c = cs_buf s ! unat (cs_r s mod INPUT_BUF);
               s = s\<lparr>cs_r := cs_r s + 1\<rparr>
           in if c = 4 then Inr (Some (Suc n, acc), if Suc n < target then s\<lparr>cs_r := cs_r s - 1\<rparr> else s)
              else if c = 10 then Inr (Some (n, acc @ [c]), s)
              else consoleread_loop target n (acc @ [c]) s)"

definition consoleread :: "nat \<Rightarrow> int \<Rightarrow> 'a cst_scheme \<Rightarrow> failure + (int \<times> uchar list) \<times> 'a cst_scheme" where
  "consoleread ip n s =
     andThen (iunlock (Some ip) s) (\<lambda>s.
     andThen (acquire CONSLOCK s) (\<lambda>s.
     andThen (consoleread_loop (nat n) (nat n) [] s) (\<lambda>(r, s).
     andThen (release CONSLOCK s) (\<lambda>s.
     andThen (ilock (Some ip) s) (\<lambda>s.
     case r of None \<Rightarrow> Inr ((-1, []), s)
     | Some (m, bs) \<Rightarrow> Inr ((int (nat n) - int m, bs), s))))))"

definition consolewrite :: "nat \<Rightarrow> uchar list \<Rightarrow> 'a cst_scheme \<Rightarrow> failure + int \<times> 'a cst_scheme" where
  "consolewrite ip bs s =
     andThen (iunlock (Some ip) s) (\<lambda>s.
     andThen (acquire CONSLOCK s) (\<lambda>s.
     andThen (release CONSLOCK (fold (\<lambda>b. consputc (uint b)) bs s)) (\<lambda>s.
     andThen (ilock (Some ip) s) (\<lambda>s. Inr (int (length bs), s)))))"

definition consoleinit :: "'a cst_scheme \<Rightarrow> 'a cst_scheme" where
  "consoleinit s = (initlock CONSLOCK ''console'' s)\<lparr>cs_locking := True\<rparr>"

end
