(* ===== verification/Fs.thy ===== *)
theory Fs
  imports Console
begin

unbundle bit_operations_syntax

text \<open>
  File contents, directories and path names: the upper half of \<^verbatim>\<open>fs.c\<close>. Bytes that C code reads
  from or writes to a caller's buffer are lists. The device table \<open>devsw\<close> has one entry, the
  console, as \<open>consoleinit\<close> sets it up. C strings are lists without their terminating zero; the
  fixed-size name fields of directory entries are lists of \<open>DIRSIZ\<close> bytes.
\<close>

definition DIRSIZ :: nat where "DIRSIZ = 14"
definition NDEV :: int where "NDEV = 10"
definition CONSOLE :: int where "CONSOLE = 1"

section \<open>Reading and writing files\<close>

function readi_loop :: "nat \<Rightarrow> nat \<Rightarrow> nat \<Rightarrow> 'a ist_scheme \<Rightarrow> failure + uchar list \<times> 'a ist_scheme" where
  "readi_loop ip off n s =
     (if n = 0 then Inr ([], s)
      else andThen (bmap ip (off div BSIZE) s) (\<lambda>(addr, s).
        andThen (bread (i_dev (ic_inode s ! ip)) addr s) (\<lambda>(bp, s).
        let m = min n (BSIZE - off mod BSIZE);
            bs = take m (drop (off mod BSIZE) (bdata bp s))
        in andThen (brelse bp s) (\<lambda>s.
           andThen (readi_loop ip (off + m) (n - m) s) (\<lambda>(rest, s). Inr (bs @ rest, s))))))"
  by pat_completeness auto
termination
  by (relation "measure (\<lambda>(ip, off, n, s). n)") (auto simp: BSIZE_def)

declare readi_loop.simps [simp del]

definition readi :: "nat \<Rightarrow> uint \<Rightarrow> uint \<Rightarrow> 'a cst_scheme \<Rightarrow> failure + (int \<times> uchar list) \<times> 'a cst_scheme" where
  "readi ip off n s =
     (let x = ic_inode s ! ip in
      if i_type x = T_DEV
      then if sint (i_major x) < 0 \<or> sint (i_major x) \<ge> NDEV \<or> sint (i_major x) \<noteq> CONSOLE
           then Inr ((-1, []), s)
           else consoleread ip (sint n) s
      else if off > i_size x \<or> off + n < off then Inr ((-1, []), s)
      else let n = (if off + n > i_size x then i_size x - off else n)
           in andThen (readi_loop ip (unat off) (unat n) s) (\<lambda>(bs, s). Inr ((sint n, bs), s)))"

function writei_loop :: "nat \<Rightarrow> nat \<Rightarrow> uchar list \<Rightarrow> 'a ist_scheme \<Rightarrow> failure + 'a ist_scheme" where
  "writei_loop ip off src s =
     (if src = [] then Inr s
      else andThen (bmap ip (off div BSIZE) s) (\<lambda>(addr, s).
        andThen (bread (i_dev (ic_inode s ! ip)) addr s) (\<lambda>(bp, s).
        let m = min (length src) (BSIZE - off mod BSIZE);
            d = bdata bp s;
            s = set_bdata bp (take (off mod BSIZE) d @ take m src @ drop (off mod BSIZE + m) d) s
        in andThen (log_write bp s) (\<lambda>s.
           andThen (brelse bp s) (writei_loop ip (off + m) (drop m src))))))"
  by pat_completeness auto
termination
  by (relation "measure (\<lambda>(ip, off, src, s). length src)") (auto simp: BSIZE_def)

declare writei_loop.simps [simp del]

definition writei :: "nat \<Rightarrow> uchar list \<Rightarrow> uint \<Rightarrow> 'a cst_scheme \<Rightarrow> failure + int \<times> 'a cst_scheme" where
  "writei ip src off s =
     (let x = ic_inode s ! ip;
          n = of_nat (length src)
      in if i_type x = T_DEV
      then if sint (i_major x) < 0 \<or> sint (i_major x) \<ge> NDEV \<or> sint (i_major x) \<noteq> CONSOLE
           then Inr (-1, s)
           else consolewrite ip src s
      else if off > i_size x \<or> off + n < off then Inr (-1, s)
      else if off + n > of_nat (MAXFILE * BSIZE) then Inr (-1, s)
      else andThen (writei_loop ip (unat off) src s) (\<lambda>s.
        if n > 0 \<and> off + n > i_size (ic_inode s ! ip)
        then andThen (iupdate ip (upd_inode ip (\<lambda>x. x\<lparr>i_size := off + n\<rparr>) s)) (\<lambda>s. Inr (sint n, s))
        else Inr (sint n, s)))"

section \<open>Directories\<close>

text \<open>\<open>strncmp\<close> and \<open>strncpy\<close> of \<^verbatim>\<open>string.c\<close> on two buffers laid out in one memory.\<close>

definition namecmp :: "uchar list \<Rightarrow> uchar list \<Rightarrow> int" where
  "namecmp a b = strncmp (poke (poke (\<lambda>_. 0) 0 a) (length a + 1) b) 0 (length a + 1) DIRSIZ"

definition entry_name :: "uchar list \<Rightarrow> uchar list" where
  "entry_name name = peek (strncpy 0 DIRSIZ (int DIRSIZ) (poke (\<lambda>_. 0) DIRSIZ name)) 0 DIRSIZ"

definition de_inum :: "uchar list \<Rightarrow> ushort" where
  "de_inum de = ld16 de 0"

definition de_name :: "uchar list \<Rightarrow> uchar list" where
  "de_name de = take DIRSIZ (drop 2 de)"

definition dirent :: "ushort \<Rightarrow> uchar list \<Rightarrow> uchar list" where
  "dirent inum name = [ucast inum, ucast (drop_bit 8 inum)] @ entry_name name"

text \<open>The offsets of the directory entries of a directory of \<open>sz\<close> bytes, from \<open>k\<close> on.\<close>

definition entry_offsets :: "nat \<Rightarrow> nat \<Rightarrow> nat list" where
  "entry_offsets k sz = map (\<lambda>j. k + 16 * j) [0..<(sz - k + 15) div 16]"

definition read_entry :: "nat \<Rightarrow> nat \<Rightarrow> string \<Rightarrow> 'a cst_scheme \<Rightarrow> failure + uchar list \<times> 'a cst_scheme" where
  "read_entry dp off msg s =
     andThen (readi dp (of_nat off) 16 s) (\<lambda>((r, de), s).
     if r \<noteq> 16 then Inl (Panic msg) else Inr (de, s))"

fun dirlookup_from :: "nat \<Rightarrow> uchar list \<Rightarrow> nat list \<Rightarrow> 'a cst_scheme \<Rightarrow> failure + (nat \<times> nat) option \<times> 'a cst_scheme" where
  "dirlookup_from dp name [] s = Inr (None, s)"
| "dirlookup_from dp name (off # offs) s =
     andThen (read_entry dp off ''dirlookup read'' s) (\<lambda>(de, s).
     if de_inum de = 0 then dirlookup_from dp name offs s
     else if namecmp name (de_name de) = 0
     then andThen (iget (i_dev (ic_inode s ! dp)) (ucast (de_inum de)) s) (\<lambda>(ip, s). Inr (Some (ip, off), s))
     else dirlookup_from dp name offs s)"

definition dirlookup :: "nat \<Rightarrow> uchar list \<Rightarrow> 'a cst_scheme \<Rightarrow> failure + (nat \<times> nat) option \<times> 'a cst_scheme" where
  "dirlookup dp name s =
     (if i_type (ic_inode s ! dp) \<noteq> T_DIR then Inl (Panic ''dirlookup not DIR'')
      else dirlookup_from dp name (entry_offsets 0 (unat (i_size (ic_inode s ! dp)))) s)"

fun empty_entry_from :: "nat \<Rightarrow> nat \<Rightarrow> nat list \<Rightarrow> 'a cst_scheme \<Rightarrow> failure + nat \<times> 'a cst_scheme" where
  "empty_entry_from dp k [] s = Inr (k, s)"
| "empty_entry_from dp k (off # offs) s =
     andThen (read_entry dp off ''dirlink read'' s) (\<lambda>(de, s).
     if de_inum de = 0 then Inr (off, s) else empty_entry_from dp (off + 16) offs s)"

definition dirlink :: "nat \<Rightarrow> uchar list \<Rightarrow> uint \<Rightarrow> 'a cst_scheme \<Rightarrow> failure + int \<times> 'a cst_scheme" where
  "dirlink dp name inum s =
     andThen (dirlookup dp name s) (\<lambda>(r, s).
     case r of
       Some (ip, _) \<Rightarrow> andThen (iput ip s) (\<lambda>s. Inr (-1, s))
     | None \<Rightarrow>
        andThen (empty_entry_from dp 0 (entry_offsets 0 (unat (i_size (ic_inode s ! dp)))) s) (\<lambda>(off, s).
        andThen (writei dp (dirent (ucast inum) name) (of_nat off) s) (\<lambda>(r, s).
        if r \<noteq> 16 then Inl (Panic ''dirlink'') else Inr (0, s))))"

section \<open>Path names\<close>

text \<open>
  \<open>skipelem\<close> returns the rest of the path and the name buffer, or \<open>None\<close> if there is no element.
  A name shorter than the buffer is stored with its terminator; what was behind it stays.
\<close>

definition slash :: uchar where "slash = 47"

definition skipelem :: "uchar list \<Rightarrow> uchar list \<Rightarrow> (uchar list \<times> uchar list) option" where
  "skipelem path name =
     (let path = dropWhile (\<lambda>c. c = slash) path
      in if path = [] then None
         else let elem = takeWhile (\<lambda>c. c \<noteq> slash) path;
                  path = dropWhile (\<lambda>c. c \<noteq> slash) path;
                  name = (if length elem \<ge> DIRSIZ then take DIRSIZ elem
                          else elem @ 0 # drop (length elem + 1) name)
              in Some (dropWhile (\<lambda>c. c = slash) path, name))"

lemma skipelem_shorter: "skipelem path name = Some (path', name') \<Longrightarrow> length path' < length path"
proof -
  assume a: "skipelem path name = Some (path', name')"
  let ?p = "dropWhile (\<lambda>c. c = slash) path"
  have ne: "?p \<noteq> []" and p': "path' = dropWhile (\<lambda>c. c = slash) (dropWhile (\<lambda>c. c \<noteq> slash) ?p)"
    using a by (auto simp: skipelem_def Let_def split: if_splits)
  have "hd ?p \<noteq> slash" using hd_dropWhile [OF ne] .
  then obtain c cs where c: "?p = c # cs" "c \<noteq> slash" using ne by (cases ?p) auto
  have "length path' \<le> length (dropWhile (\<lambda>c. c \<noteq> slash) ?p)" unfolding p' by (rule length_dropWhile_le)
  also have "\<dots> \<le> length cs" using c length_dropWhile_le [of _ cs] by simp
  also have "\<dots> < length ?p" using c by simp
  also have "\<dots> \<le> length path" by (rule length_dropWhile_le)
  finally show ?thesis .
qed

function namex_loop :: "uchar list \<Rightarrow> bool \<Rightarrow> uchar list \<Rightarrow> nat \<Rightarrow> 'a cst_scheme \<Rightarrow>
    failure + (nat option \<times> uchar list) \<times> 'a cst_scheme" where
  "namex_loop path nameiparent name ip s = (case skipelem path name of
       None \<Rightarrow>
         if nameiparent then andThen (iput ip s) (\<lambda>s. Inr ((None, name), s)) else Inr ((Some ip, name), s)
     | Some (path, name) \<Rightarrow>
         andThen (ilock (Some ip) s) (\<lambda>s.
         if i_type (ic_inode s ! ip) \<noteq> T_DIR then andThen (iunlockput ip s) (\<lambda>s. Inr ((None, name), s))
         else if nameiparent \<and> path = [] then andThen (iunlock (Some ip) s) (\<lambda>s. Inr ((Some ip, name), s))
         else andThen (dirlookup ip name s) (\<lambda>(r, s).
           case r of
             None \<Rightarrow> andThen (iunlockput ip s) (\<lambda>s. Inr ((None, name), s))
           | Some (next, _) \<Rightarrow> andThen (iunlockput ip s) (\<lambda>s. namex_loop path nameiparent name next s))))"
  by pat_completeness auto
termination
  by (relation "measure (\<lambda>(path, np, name, ip, s). length path)") (auto dest: skipelem_shorter)

declare namex_loop.simps [simp del]

definition namex :: "uchar list \<Rightarrow> bool \<Rightarrow> uchar list \<Rightarrow> 'a cst_scheme \<Rightarrow>
    failure + (nat option \<times> uchar list) \<times> 'a cst_scheme" where
  "namex path nameiparent name s =
     andThen
       (if path \<noteq> [] \<and> hd path = slash then iget ROOTDEV ROOTINO s
        else andThen (myproc s) (\<lambda>(q, s). deref q (\<lambda>p.
             case p_cwd (ps_proc s ! p) of
               None \<Rightarrow> Inl (Undefined ''idup: null inode'')
             | Some ip \<Rightarrow> andThen (idup ip s) (\<lambda>s. Inr (ip, s))))) (\<lambda>(ip, s).
     namex_loop path nameiparent name ip s)"

definition namei :: "uchar list \<Rightarrow> 'a cst_scheme \<Rightarrow> failure + nat option \<times> 'a cst_scheme" where
  "namei path s = andThen (namex path False (replicate DIRSIZ 0) s) (\<lambda>((r, _), s). Inr (r, s))"

definition nameiparent :: "uchar list \<Rightarrow> uchar list \<Rightarrow> 'a cst_scheme \<Rightarrow>
    failure + (nat option \<times> uchar list) \<times> 'a cst_scheme" where
  "nameiparent path name s = namex path True name s"

end
