(* ===== verification/Pipe.thy ===== *)
theory Pipe
  imports Fs
begin

unbundle bit_operations_syntax

text \<open>
  Pipes, \<^verbatim>\<open>pipe.c\<close>. A pipe lives in a page of its own and is named by the page's address; its
  fields are the entry of \<open>pp_tab\<close> at that address. The counters \<open>nread\<close> and \<open>nwrite\<close> are 32-bit
  and wrap around. Bytes are lists. A writer that finds the pipe full and a reader that finds it
  empty leave the processor; the functions are in parts accordingly. \<open>pipealloc\<close> is with the file
  table.
\<close>

definition PIPESIZE :: uint where "PIPESIZE = 512"

record pipe =
  pi_data :: "uchar list"
  pi_nread :: uint
  pi_nwrite :: uint
  pi_readopen :: bool
  pi_writeopen :: bool

record ppst = cst +
  pp_tab :: "uint \<Rightarrow> pipe"

definition upd_pipe :: "uint \<Rightarrow> (pipe \<Rightarrow> pipe) \<Rightarrow> 'a ppst_scheme \<Rightarrow> 'a ppst_scheme" where
  "upd_pipe p f s = s\<lparr>pp_tab := (pp_tab s)(p := f (pp_tab s p))\<rparr>"

abbreviation pipelock :: "uint \<Rightarrow> lockid" where "pipelock p \<equiv> PIPELOCK (unat p)"

section \<open>Operations\<close>

definition pipeclose :: "uint \<Rightarrow> bool \<Rightarrow> 'a ppst_scheme \<Rightarrow> failure + 'a ppst_scheme" where
  "pipeclose p writable s =
     andThen (acquire (pipelock p) s) (\<lambda>s.
     andThen
       (if writable then wakeup (ChNread (unat p)) (upd_pipe p (\<lambda>x. x\<lparr>pi_writeopen := False\<rparr>) s)
        else wakeup (ChNwrite (unat p)) (upd_pipe p (\<lambda>x. x\<lparr>pi_readopen := False\<rparr>) s)) (\<lambda>s.
     if \<not> pi_readopen (pp_tab s p) \<and> \<not> pi_writeopen (pp_tab s p)
     then andThen (release (pipelock p) s) (kfree p)
     else release (pipelock p) s))"

definition pipe_full :: "pipe \<Rightarrow> bool" where
  "pipe_full x \<longleftrightarrow> pi_nwrite x = pi_nread x + PIPESIZE"

definition pipe_put :: "uchar \<Rightarrow> pipe \<Rightarrow> pipe" where
  "pipe_put b x = x\<lparr>pi_data := (pi_data x)[unat (pi_nwrite x mod PIPESIZE) := b], pi_nwrite := pi_nwrite x + 1\<rparr>"

text \<open>
  The writing loop, for the bytes that are left; \<open>n\<close> is the value returned at the end. With
  \<open>Off\<close> the thread is asleep and the bytes still to be written are returned.
\<close>

fun pipewrite_loop :: "uint \<Rightarrow> int \<Rightarrow> uchar list \<Rightarrow> 'a ppst_scheme \<Rightarrow>
    failure + (int ctl \<times> uchar list) \<times> 'a ppst_scheme" where
  "pipewrite_loop p n [] s =
     andThen (wakeup (ChNread (unat p)) s) (\<lambda>s.
     andThen (release (pipelock p) s) (\<lambda>s. Inr ((Ret n, []), s)))"
| "pipewrite_loop p n (b # bs) s =
     (if pipe_full (pp_tab s p)
      then andThen (if \<not> pi_readopen (pp_tab s p) then Inr (True, s)
                    else andThen (myproc s) (\<lambda>(q, s). deref q (\<lambda>c. Inr (p_killed (ps_proc s ! c) \<noteq> 0, s)))) (\<lambda>(stop, s).
           if stop then andThen (release (pipelock p) s) (\<lambda>s. Inr ((Ret (-1), b # bs), s))
           else andThen (wakeup (ChNread (unat p)) s) (\<lambda>s.
                andThen (sleep_off (ChNwrite (unat p)) (Some (pipelock p)) s) (\<lambda>(intena, s).
                Inr ((Off intena, b # bs), s))))
      else pipewrite_loop p n bs (upd_pipe p (pipe_put b) s))"

definition pipewrite :: "uint \<Rightarrow> uchar list \<Rightarrow> 'a ppst_scheme \<Rightarrow> failure + (int ctl \<times> uchar list) \<times> 'a ppst_scheme" where
  "pipewrite p bs s =
     andThen (acquire (pipelock p) s) (pipewrite_loop p (int (length bs)) bs)"

definition pipewrite_resume :: "uint \<Rightarrow> int \<Rightarrow> uchar list \<Rightarrow> nat \<Rightarrow> bool \<Rightarrow> 'a ppst_scheme \<Rightarrow>
    failure + (int ctl \<times> uchar list) \<times> 'a ppst_scheme" where
  "pipewrite_resume p n bs c intena s =
     andThen (sleep_on c (pipelock p) intena s) (pipewrite_loop p n bs)"

text \<open>The copying loop of \<open>piperead\<close>.\<close>

fun pipe_take :: "nat \<Rightarrow> pipe \<Rightarrow> uchar list \<times> pipe" where
  "pipe_take 0 x = ([], x)"
| "pipe_take (Suc n) x =
     (if pi_nread x = pi_nwrite x then ([], x)
      else case pipe_take n (x\<lparr>pi_nread := pi_nread x + 1\<rparr>) of
        (bs, y) \<Rightarrow> (pi_data x ! unat (pi_nread x mod PIPESIZE) # bs, y))"

definition piperead_iter :: "uint \<Rightarrow> int \<Rightarrow> 'a ppst_scheme \<Rightarrow> failure + (int ctl \<times> uchar list) \<times> 'a ppst_scheme" where
  "piperead_iter p n s =
     (if pi_nread (pp_tab s p) = pi_nwrite (pp_tab s p) \<and> pi_writeopen (pp_tab s p)
      then andThen (myproc s) (\<lambda>(q, s). deref q (\<lambda>c.
           if p_killed (ps_proc s ! c) \<noteq> 0
           then andThen (release (pipelock p) s) (\<lambda>s. Inr ((Ret (-1), []), s))
           else andThen (sleep_off (ChNread (unat p)) (Some (pipelock p)) s) (\<lambda>(intena, s).
                Inr ((Off intena, []), s))))
      else case pipe_take (nat n) (pp_tab s p) of (bs, x) \<Rightarrow>
           andThen (wakeup (ChNwrite (unat p)) (upd_pipe p (\<lambda>_. x) s)) (\<lambda>s.
           andThen (release (pipelock p) s) (\<lambda>s. Inr ((Ret (int (length bs)), bs), s))))"

definition piperead :: "uint \<Rightarrow> int \<Rightarrow> 'a ppst_scheme \<Rightarrow> failure + (int ctl \<times> uchar list) \<times> 'a ppst_scheme" where
  "piperead p n s = andThen (acquire (pipelock p) s) (piperead_iter p n)"

definition piperead_resume :: "uint \<Rightarrow> int \<Rightarrow> nat \<Rightarrow> bool \<Rightarrow> 'a ppst_scheme \<Rightarrow>
    failure + (int ctl \<times> uchar list) \<times> 'a ppst_scheme" where
  "piperead_resume p n c intena s = andThen (sleep_on c (pipelock p) intena s) (piperead_iter p n)"

section \<open>The ring buffer\<close>

text \<open>The bytes in the pipe, oldest first, and the invariant of the counters.\<close>

definition pipe_used :: "pipe \<Rightarrow> nat" where
  "pipe_used x = unat (pi_nwrite x - pi_nread x)"

definition pipe_queue :: "pipe \<Rightarrow> uchar list" where
  "pipe_queue x = map (\<lambda>k. pi_data x ! ((unat (pi_nread x) + k) mod 512)) [0..<pipe_used x]"

definition pipe_ok :: "pipe \<Rightarrow> bool" where
  "pipe_ok x \<longleftrightarrow> length (pi_data x) = 512 \<and> pipe_used x \<le> 512"

lemma unat_mod_PIPESIZE: "unat (w mod PIPESIZE) = unat w mod 512"
  by (simp add: PIPESIZE_def unat_mod)

lemma unat_add_mod: "unat (w + v :: uint) mod 512 = (unat w + unat v) mod 512"
proof -
  have "(512 :: nat) dvd 2 ^ 32" by simp
  then show ?thesis by (simp add: unat_word_ariths mod_mod_cancel)
qed

lemma pipe_full_iff: "pipe_full x \<longleftrightarrow> pipe_used x = 512"
proof -
  have "pi_nwrite x = pi_nread x + PIPESIZE \<longleftrightarrow> pi_nwrite x - pi_nread x = 512"
    by (simp add: PIPESIZE_def diff_eq_eq add.commute)
  also have "\<dots> \<longleftrightarrow> unat (pi_nwrite x - pi_nread x) = 512" by (simp add: word_unat_eq_iff)
  finally show ?thesis by (simp add: pipe_full_def pipe_used_def)
qed

lemma pipe_used_put: "pipe_used x < 512 \<Longrightarrow> pipe_used (pipe_put b x) = pipe_used x + 1"
proof -
  assume a: "pipe_used x < 512"
  have "unat ((pi_nwrite x - pi_nread x) + 1) = unat (pi_nwrite x - pi_nread x) + 1"
    using a unat_word_ariths(1) [of "pi_nwrite x - pi_nread x" 1] by (simp add: pipe_used_def)
  moreover have "unat (pi_nwrite x + 1 - pi_nread x) = unat ((pi_nwrite x - pi_nread x) + 1)"
    by (rule arg_cong [where f = unat]) simp
  ultimately show ?thesis unfolding pipe_used_def pipe_put_def by simp
qed

lemma nwrite_slot: "unat (pi_nwrite x) mod 512 = (unat (pi_nread x) + pipe_used x) mod 512"
proof -
  have "pi_nwrite x = pi_nread x + (pi_nwrite x - pi_nread x)" by simp
  then show ?thesis unfolding pipe_used_def by (metis unat_add_mod)
qed

lemma slots_distinct:
  assumes "k < u" and "u < 512"
  shows "((a :: nat) + k) mod 512 \<noteq> (a + u) mod 512"
proof -
  define r where "r = (a + k) mod 512"
  have "(a + u) mod 512 = (r + (u - k)) mod 512"
    using assms(1) mod_add_left_eq [of "a + k" 512 "u - k"] unfolding r_def by simp
  moreover have "r < 512" by (simp add: r_def)
  ultimately have "(a + u) mod 512 = (if r + (u - k) < 512 then r + (u - k) else r + (u - k) - 512)"
    using assms by (simp add: mod_if)
  then show ?thesis
    unfolding r_def [symmetric] using assms \<open>r < 512\<close> by (cases "r + (u - k) < 512") auto
qed

lemma pipe_put_queue:
  assumes "pipe_ok x" and "pipe_used x < 512"
  shows "pipe_queue (pipe_put b x) = pipe_queue x @ [b]" and "pipe_ok (pipe_put b x)"
proof -
  let ?w = "unat (pi_nwrite x mod PIPESIZE)"
  have w: "?w = (unat (pi_nread x) + pipe_used x) mod 512" by (simp add: unat_mod_PIPESIZE nwrite_slot)
  have len: "length (pi_data x) = 512" using assms(1) by (simp add: pipe_ok_def)
  have "(pi_data x)[?w := b] ! ((unat (pi_nread x) + k) mod 512) =
      (if k = pipe_used x then b else pi_data x ! ((unat (pi_nread x) + k) mod 512))"
    if "k \<le> pipe_used x" for k
    using that w len slots_distinct [of k "pipe_used x" "unat (pi_nread x)"] assms(2)
    by (auto simp: nth_list_update)
  then show "pipe_queue (pipe_put b x) = pipe_queue x @ [b]"
    unfolding pipe_queue_def pipe_used_put [OF assms(2)] by (simp add: pipe_put_def)
  show "pipe_ok (pipe_put b x)"
    using assms by (simp add: pipe_ok_def pipe_used_put) (simp add: pipe_put_def)
qed

lemma pipe_get_queue:
  assumes "pipe_ok x" and "pi_nread x \<noteq> pi_nwrite x"
  defines "y \<equiv> x\<lparr>pi_nread := pi_nread x + 1\<rparr>"
  shows "pipe_queue x = pi_data x ! unat (pi_nread x mod PIPESIZE) # pipe_queue y" and "pipe_ok y"
proof -
  have "pi_nwrite x - pi_nread x \<noteq> 0" using assms(2) by simp
  then have pos: "0 < pipe_used x" by (simp add: pipe_used_def unat_gt_0)
  have "unat (pi_nwrite x - pi_nread x - 1) = unat (pi_nwrite x - pi_nread x) - 1"
    using pos by (intro unat_minus_one) (simp add: pipe_used_def unat_gt_0)
  then have u: "pipe_used y = pipe_used x - 1"
    by (simp add: pipe_used_def y_def diff_diff_eq)
  have e: "Suc (unat (pi_nread x) + k) mod 512 = (unat (pi_nread x + 1) + k) mod 512" for k
    using unat_add_mod [of "pi_nread x" 1] mod_add_left_eq [of "unat (pi_nread x + 1)" 512 k]
      mod_add_left_eq [of "unat (pi_nread x) + 1" 512 k] by simp
  have "[0..<pipe_used x] = 0 # map Suc [0..<pipe_used y]"
    using pos u by (simp add: map_Suc_upt upt_conv_Cons)
  then show "pipe_queue x = pi_data x ! unat (pi_nread x mod PIPESIZE) # pipe_queue y"
    by (simp add: pipe_queue_def unat_mod_PIPESIZE y_def e comp_def)
  show "pipe_ok y" using assms(1) u by (auto simp: pipe_ok_def) (simp add: y_def)
qed

lemma pipe_take_queue:
  "pipe_ok x \<Longrightarrow> pipe_take n x = (bs, y) \<Longrightarrow>
   pipe_queue x = bs @ pipe_queue y \<and> pipe_ok y \<and> length bs = min n (length (pipe_queue x))
   \<and> pi_readopen y = pi_readopen x \<and> pi_writeopen y = pi_writeopen x"
proof (induction n arbitrary: x bs)
  case (Suc n)
  show ?case
  proof (cases "pi_nread x = pi_nwrite x")
    case True
    then show ?thesis using Suc.prems by (simp add: pipe_queue_def pipe_used_def)
  next
    case False
    let ?x = "x\<lparr>pi_nread := pi_nread x + 1\<rparr>"
    let ?b = "pi_data x ! unat (pi_nread x mod PIPESIZE)"
    have g: "pipe_queue x = ?b # pipe_queue ?x" "pipe_ok ?x"
      using pipe_get_queue [OF Suc.prems(1) False] by blast+
    obtain cs where cs: "pipe_take n ?x = (cs, y)" "bs = ?b # cs"
    proof (cases "pipe_take n ?x")
      case (Pair cs z)
      then show ?thesis using Suc.prems(2) False by (intro that [of cs]) simp_all
    qed
    have ih: "pipe_queue ?x = cs @ pipe_queue y" "pipe_ok y" "length cs = min n (length (pipe_queue ?x))"
        "pi_readopen y = pi_readopen ?x" "pi_writeopen y = pi_writeopen ?x"
      using Suc.IH [OF g(2) cs(1)] by blast+
    have q: "pipe_queue x = bs @ pipe_queue y" by (simp only: g(1) ih(1) cs(2) append_Cons)
    have "length bs = min (Suc n) (length (pipe_queue x))"
      by (simp only: g(1) cs(2) list.size ih(3))
    then show ?thesis using q ih(2,4,5) by simp
  qed
qed simp

section \<open>Reading and writing in the kernel\<close>

lemma pp_tab_base [simp]:
  "pp_tab (taken i l s) = pp_tab s" "pp_tab (probed i s) = pp_tab s" "pp_tab (wakeup1 ch s) = pp_tab s"
  "pp_tab (asleep q ch s) = pp_tab s" "pp_tab (dropped i l s) = pp_tab s"
  by (simp_all add: taken_def upd_lock_def pushed_def probed_def wakeup1_def asleep_def upd_proc_def
      dropped_def popped_def)

lemma taken_upd_pipe: "upd_pipe p f (taken i l s) = taken i l (upd_pipe p f s)"
  by (simp add: upd_pipe_def taken_def upd_lock_def pushed_def)

lemma upd_pipe_base [simp]:
  "calm (upd_pipe p f s) i = calm s i" "k_cpus (upd_pipe p f s) = k_cpus s"
  "ps_proc (upd_pipe p f s) = ps_proc s"
  by (rule calm_cong; simp add: upd_pipe_def) (simp_all add: upd_pipe_def)

lemma wakeup1_base [simp]:
  "k_cpus (wakeup1 ch s) = k_cpus s" "length (ps_proc (wakeup1 ch s)) = length (ps_proc s)"
  by (simp_all add: wakeup1_def)

text \<open>A process that can use the pipe: it runs on processor \<open>i\<close>, which holds no lock.\<close>

definition pipe_user :: "nat \<Rightarrow> nat \<Rightarrow> uint \<Rightarrow> 'a ppst_scheme \<Rightarrow> bool" where
  "pipe_user i c p s \<longleftrightarrow> at_proc s i c \<and> c_ncli (k_cpus s ! i) = 0 \<and> pipe_ok (pp_tab s p)"

lemma pipe_userD:
  assumes "pipe_user i c p s"
  shows "calm s i" "c_ncli (k_cpus s ! i) = 0" "c_proc (k_cpus s ! i) = Some c" "c < length (ps_proc s)"
    "pipe_ok (pp_tab s p)"
  using assms by (auto simp: pipe_user_def at_proc_def)

lemma pipe_user_probed: "pipe_user i c p s \<Longrightarrow> pipe_user i c p (probed i s)"
  by (simp add: pipe_user_def)

lemma pipe_user_wakeup1: "pipe_user i c p s \<Longrightarrow> pipe_user i c p (wakeup1 ch s)"
  by (simp add: pipe_user_def at_proc_def)

lemma sleep_in_pipe:
  assumes "pipe_user i c p s"
  obtains b u where "sleep_off ch (Some (pipelock p)) (taken i (pipelock p) s) = Inr (b, u)"
    "pp_tab u = pp_tab s" "\<exists>v. release PTABLE u = Inr v \<and> pipe_user i c p v \<and> pp_tab v = pp_tab s"
proof -
  note D = pipe_userD [OF assms]
  have l: "pipelock p \<noteq> PTABLE" by simp
  let ?u = "asleep c ch (dropped i (pipelock p) (taken i PTABLE (taken i (pipelock p) s)))"
  have tab: "pp_tab ?u = pp_tab s" by simp
  obtain b where b: "sleep_off ch (Some (pipelock p)) (taken i (pipelock p) s) = Inr (b, ?u)"
    using sleep_off_eq(1) [OF D(1-3) l D(4), of ch] by blast
  obtain v where v: "release PTABLE ?u = Inr v" "calm v i" "c_ncli (k_cpus v ! i) = 0"
      "c_proc (k_cpus v ! i) = Some c" "length (ps_proc v) = length (ps_proc s)" "v = dropped i PTABLE ?u"
    using calm_asleep [OF D(1-3) l D(4), of ch] by blast
  have "pp_tab v = pp_tab s" by (simp add: v(6))
  then have "pipe_user i c p v \<and> pp_tab v = pp_tab s" using v D by (simp add: pipe_user_def at_proc_def)
  then show ?thesis using that b tab v(1) by blast
qed

text \<open>
  The outcome of a write: some prefix of the bytes has been appended, all of them if the call
  returned normally; the process is back with no lock held, or asleep.
\<close>

definition wrote :: "nat \<Rightarrow> nat \<Rightarrow> uint \<Rightarrow> int \<Rightarrow> uchar list \<Rightarrow> 'a ppst_scheme \<Rightarrow>
    (int ctl \<times> uchar list) \<times> 'a ppst_scheme \<Rightarrow> bool" where
  "wrote i c p n bs s res \<longleftrightarrow> (case res of ((r, rest), u) \<Rightarrow>
     (\<exists>ws. bs = ws @ rest \<and> pipe_queue (pp_tab u p) = pipe_queue (pp_tab s p) @ ws)
     \<and> (\<forall>q. q \<noteq> p \<longrightarrow> pp_tab u q = pp_tab s q)
     \<and> (case r of Ret k \<Rightarrow> pipe_user i c p u \<and> (k = n \<and> rest = [] \<or> k = -1 \<and> rest \<noteq> [])
        | Off _ \<Rightarrow> rest \<noteq> [] \<and> (\<exists>v. release PTABLE u = Inr v \<and> pipe_user i c p v \<and> pp_tab v = pp_tab u)))"

lemma pipewrite_loop_ok:
  "pipe_user i c p s \<Longrightarrow> \<exists>res. pipewrite_loop p n bs (taken i (pipelock p) s) = Inr res \<and> wrote i c p n bs s res"
proof (induction bs arbitrary: s)
  case Nil
  note D = pipe_userD [OF Nil]
  let ?u = "probed i (wakeup1 (ChNread (unat p)) s)"
  have "pipewrite_loop p n [] (taken i (pipelock p) s) = Inr ((Ret n, []), ?u)"
    using D(1) by (simp add: wakeup_taken release_taken)
  moreover have "pipe_user i c p ?u" using Nil by (intro pipe_user_probed pipe_user_wakeup1)
  ultimately show ?case by (simp add: wrote_def)
next
  case (Cons b bs)
  note D = pipe_userD [OF Cons.prems]
  let ?t = "taken i (pipelock p) s"
  show ?case
  proof (cases "pipe_full (pp_tab s p)")
    case False
    let ?s = "upd_pipe p (pipe_put b) s"
    have "pipe_used (pp_tab s p) < 512" using False D(5) by (simp add: pipe_full_iff pipe_ok_def)
    note q = pipe_put_queue [OF D(5) this, of b]
    have tab: "pp_tab ?s p = pipe_put b (pp_tab s p)" "q \<noteq> p \<Longrightarrow> pp_tab ?s q = pp_tab s q" for q
      by (simp_all add: upd_pipe_def)
    have "pipe_user i c p ?s" using D q(2) tab by (simp add: pipe_user_def at_proc_def)
    from Cons.IH [OF this] obtain r rest u where
      res: "pipewrite_loop p n bs (taken i (pipelock p) ?s) = Inr ((r, rest), u)"
        "wrote i c p n bs ?s ((r, rest), u)"
      by (metis prod.collapse)
    obtain ws where ws: "bs = ws @ rest" "pipe_queue (pp_tab u p) = (pipe_queue (pp_tab s p) @ [b]) @ ws"
      using res(2) tab q(1) by (auto simp: wrote_def)
    have "pipewrite_loop p n (b # bs) ?t = Inr ((r, rest), u)"
      using False res(1) by (simp add: taken_upd_pipe)
    moreover have "\<exists>ws. b # bs = ws @ rest \<and> pipe_queue (pp_tab u p) = pipe_queue (pp_tab s p) @ ws"
      using ws by (intro exI [of _ "b # ws"]) simp
    ultimately show ?thesis using res(2) tab(2) by (auto simp: wrote_def)
  next
    case True
    have stop: "\<exists>res. pipewrite_loop p n (b # bs) ?t = Inr res \<and> wrote i c p n (b # bs) s res"
      if "\<not> pi_readopen (pp_tab s p) \<or> p_killed (ps_proc s ! c) \<noteq> 0"
    proof -
      have "pipewrite_loop p n (b # bs) ?t = Inr ((Ret (-1), b # bs), probed i s)"
        using True that D by (auto simp: myproc_taken release_taken deref_def)
      then show ?thesis using pipe_user_probed [OF Cons.prems] by (simp add: wrote_def)
    qed
    have sleep: "\<exists>res. pipewrite_loop p n (b # bs) ?t = Inr res \<and> wrote i c p n (b # bs) s res"
      if o: "pi_readopen (pp_tab s p)" "p_killed (ps_proc s ! c) = 0"
    proof -
      let ?s = "wakeup1 (ChNread (unat p)) s"
      obtain a u where u: "sleep_off (ChNwrite (unat p)) (Some (pipelock p)) (taken i (pipelock p) ?s) = Inr (a, u)"
          "pp_tab u = pp_tab ?s" "\<exists>v. release PTABLE u = Inr v \<and> pipe_user i c p v \<and> pp_tab v = pp_tab ?s"
        using sleep_in_pipe [OF pipe_user_wakeup1 [OF Cons.prems]] by metis
      have "pipewrite_loop p n (b # bs) ?t = Inr ((Off a, b # bs), u)"
        using True o D u(1) by (simp add: myproc_taken wakeup_taken deref_def)
      then show ?thesis using u(2,3) by (simp add: wrote_def)
    qed
    show ?thesis using stop sleep by blast
  qed
qed

lemma pipewrite_ok:
  "pipe_user i c p s \<Longrightarrow> \<exists>res. pipewrite p bs s = Inr res \<and> wrote i c p (int (length bs)) bs s res"
  using pipewrite_loop_ok [of i c p s "int (length bs)" bs] pipe_userD(1) [of i c p s]
  by (simp add: pipewrite_def acquire_calm)

text \<open>The outcome of a read: the bytes returned were at the front of the queue.\<close>

definition was_read :: "nat \<Rightarrow> nat \<Rightarrow> uint \<Rightarrow> int \<Rightarrow> 'a ppst_scheme \<Rightarrow>
    (int ctl \<times> uchar list) \<times> 'a ppst_scheme \<Rightarrow> bool" where
  "was_read i c p n s res \<longleftrightarrow> (case res of ((r, bs), u) \<Rightarrow>
     pipe_queue (pp_tab s p) = bs @ pipe_queue (pp_tab u p)
     \<and> (\<forall>q. q \<noteq> p \<longrightarrow> pp_tab u q = pp_tab s q)
     \<and> (case r of Ret k \<Rightarrow> pipe_user i c p u \<and> length bs \<le> nat n
           \<and> (k = int (length bs) \<and> length bs = min (nat n) (length (pipe_queue (pp_tab s p))) \<or> k = -1 \<and> bs = [])
        | Off _ \<Rightarrow> bs = [] \<and> pipe_queue (pp_tab s p) = []
           \<and> (\<exists>v. release PTABLE u = Inr v \<and> pipe_user i c p v \<and> pp_tab v = pp_tab u)))"

lemma piperead_ok:
  assumes "pipe_user i c p s"
  shows "\<exists>res. piperead p n s = Inr res \<and> was_read i c p n s res"
proof -
  note D = pipe_userD [OF assms]
  let ?t = "taken i (pipelock p) s"
  have acq: "piperead p n s = piperead_iter p n ?t" using D(1) by (simp add: piperead_def acquire_calm)
  show ?thesis
  proof (cases "pi_nread (pp_tab s p) = pi_nwrite (pp_tab s p) \<and> pi_writeopen (pp_tab s p)")
    case empty: True
    then have q: "pipe_queue (pp_tab s p) = []" by (simp add: pipe_queue_def pipe_used_def)
    show ?thesis
    proof (cases "p_killed (ps_proc s ! c) = 0")
      case False
      then have "piperead p n s = Inr ((Ret (-1), []), probed i s)"
        using empty D acq by (simp add: piperead_iter_def myproc_taken release_taken deref_def)
      then show ?thesis using pipe_user_probed [OF assms] q by (simp add: was_read_def)
    next
      case True
      obtain a u where u: "sleep_off (ChNread (unat p)) (Some (pipelock p)) ?t = Inr (a, u)"
          "pp_tab u = pp_tab s" "\<exists>v. release PTABLE u = Inr v \<and> pipe_user i c p v \<and> pp_tab v = pp_tab s"
        using sleep_in_pipe [OF assms] by metis
      have "piperead p n s = Inr ((Off a, []), u)"
        using empty True D u(1) acq by (simp add: piperead_iter_def myproc_taken deref_def)
      then show ?thesis using u(2,3) q by (simp add: was_read_def)
    qed
  next
    case False
    obtain bs x where tk: "pipe_take (nat n) (pp_tab s p) = (bs, x)" by (cases "pipe_take (nat n) (pp_tab s p)")
    have T: "pipe_queue (pp_tab s p) = bs @ pipe_queue x" "pipe_ok x"
      using pipe_take_queue [OF D(5) tk] by blast+
    have len: "length bs = min (nat n) (length (pipe_queue (pp_tab s p)))"
      using pipe_take_queue [OF D(5) tk] by blast
    let ?s = "wakeup1 (ChNwrite (unat p)) (upd_pipe p (\<lambda>_. x) s)"
    have tab: "pp_tab ?s p = x" "q \<noteq> p \<Longrightarrow> pp_tab ?s q = pp_tab s q" for q by (simp_all add: upd_pipe_def)
    have "piperead p n s = Inr ((Ret (int (length bs)), bs), probed i ?s)"
      using False tk D(1) acq
      by (auto simp: piperead_iter_def taken_upd_pipe wakeup_taken release_taken)
    moreover have "pipe_user i c p (probed i ?s)"
      using D T(2) tab(1) by (intro pipe_user_probed) (simp add: pipe_user_def at_proc_def)
    moreover have "length bs \<le> nat n" using len by (metis min.cobounded1)
    moreover have "pipe_queue (pp_tab s p) = bs @ pipe_queue (pp_tab (probed i ?s) p)"
      unfolding pp_tab_base(2) tab(1) by (rule T(1))
    moreover have "\<forall>q. q \<noteq> p \<longrightarrow> pp_tab (probed i ?s) q = pp_tab s q" using tab(2) by simp
    ultimately show ?thesis
      using len unfolding was_read_def
      by (intro exI [of _ "((Ret (int (length bs)), bs), probed i ?s)"]) (simp only: prod.case ctl.case, blast)
  qed
qed

section \<open>A pipe is a byte stream\<close>

text \<open>
  The contract of a stream: what is sent is appended to the content up to some point, what is
  received comes off its front. Over any sequence of sends and receives, the bytes received are
  then the bytes that were in the stream followed by the bytes accepted, in order.
\<close>

datatype 'b stream_op = Send "'b list" | Recv nat

fun stream_run :: "('b list \<Rightarrow> 's \<Rightarrow> 'e + 'b list \<times> 's) \<Rightarrow> (nat \<Rightarrow> 's \<Rightarrow> 'e + 'b list \<times> 's) \<Rightarrow>
    'b stream_op list \<Rightarrow> 's \<Rightarrow> 'e + ('b list \<times> 'b list) \<times> 's" where
  "stream_run send recv [] s = Inr (([], []), s)"
| "stream_run send recv (Send bs # es) s =
     andThen (send bs s) (\<lambda>(rest, s).
     andThen (stream_run send recv es s) (\<lambda>((sent, got), s).
     Inr ((take (length bs - length rest) bs @ sent, got), s)))"
| "stream_run send recv (Recv n # es) s =
     andThen (recv n s) (\<lambda>(bs, s).
     andThen (stream_run send recv es s) (\<lambda>((sent, got), s). Inr ((sent, bs @ got), s)))"

locale byte_stream =
  fixes send :: "'b list \<Rightarrow> 's \<Rightarrow> 'e + 'b list \<times> 's"
    and recv :: "nat \<Rightarrow> 's \<Rightarrow> 'e + 'b list \<times> 's"
    and content :: "'s \<Rightarrow> 'b list"
    and inv :: "'s \<Rightarrow> bool"
  assumes send_law: "inv s \<Longrightarrow> \<exists>ws rest t. send (bs :: 'b list) s = Inr (rest, t) \<and> bs = ws @ rest
      \<and> content t = content s @ ws \<and> inv t"
    and recv_law: "inv s \<Longrightarrow> \<exists>bs t. recv n s = Inr (bs, t) \<and> content s = bs @ content t \<and> inv t"
begin

lemma run_fifo:
  "inv s \<Longrightarrow> \<exists>sent got t. stream_run send recv es s = Inr ((sent, got), t)
     \<and> content s @ sent = got @ content t"
proof (induction es arbitrary: s)
  case (Cons e es)
  show ?case
  proof (cases e)
    case (Send bs)
    obtain ws rest t where t: "send bs s = Inr (rest, t)" "bs = ws @ rest"
        "content t = content s @ ws" "inv t"
      using send_law [OF Cons.prems] by blast
    obtain sent got u where "stream_run send recv es t = Inr ((sent, got), u)"
        "content t @ sent = got @ content u"
      using Cons.IH [OF t(4)] by blast
    then show ?thesis using t Send by simp
  next
    case (Recv n)
    obtain bs t where t: "recv n s = Inr (bs, t)" "content s = bs @ content t" "inv t"
      using recv_law [OF Cons.prems] by blast
    obtain sent got u where "stream_run send recv es t = Inr ((sent, got), u)"
        "content t @ sent = got @ content u"
      using Cons.IH [OF t(3)] by blast
    then show ?thesis using t Recv by simp
  qed
qed simp

end

text \<open>
  A call of \<open>pipewrite\<close> or \<open>piperead\<close> up to the point where it returns or the thread sleeps and the
  scheduler has unlocked the process table.
\<close>

definition settle :: "'r ctl \<Rightarrow> 'a ppst_scheme \<Rightarrow> failure + 'a ppst_scheme" where
  "settle r s = (case r of Ret _ \<Rightarrow> Inr s | Off _ \<Rightarrow> release PTABLE s)"

definition pipe_send :: "uint \<Rightarrow> uchar list \<Rightarrow> 'a ppst_scheme \<Rightarrow> failure + uchar list \<times> 'a ppst_scheme" where
  "pipe_send p bs s = andThen (pipewrite p bs s) (\<lambda>((r, rest), s). andThen (settle r s) (\<lambda>s. Inr (rest, s)))"

definition pipe_recv :: "uint \<Rightarrow> nat \<Rightarrow> 'a ppst_scheme \<Rightarrow> failure + uchar list \<times> 'a ppst_scheme" where
  "pipe_recv p n s = andThen (piperead p (int n) s) (\<lambda>((r, bs), s). andThen (settle r s) (\<lambda>s. Inr (bs, s)))"

interpretation pipe: byte_stream "pipe_send p" "pipe_recv p" "\<lambda>s. pipe_queue (pp_tab s p)" "pipe_user i c p"
proof unfold_locales
  fix s :: "'a ppst_scheme" and bs n
  assume inv: "pipe_user i c p s"
  obtain r rest u where w: "pipewrite p bs s = Inr ((r, rest), u)"
      "wrote i c p (int (length bs)) bs s ((r, rest), u)"
    using pipewrite_ok [OF inv, of bs] by (metis prod.collapse)
  show "\<exists>ws rest t. pipe_send p bs s = Inr (rest, t) \<and> bs = ws @ rest
      \<and> pipe_queue (pp_tab t p) = pipe_queue (pp_tab s p) @ ws \<and> pipe_user i c p t"
    using w by (cases r) (auto simp: pipe_send_def settle_def wrote_def)
  obtain r' bs' u' where r: "piperead p (int n) s = Inr ((r', bs'), u')"
      "was_read i c p (int n) s ((r', bs'), u')"
    using piperead_ok [OF inv, of "int n"] by (metis prod.collapse)
  show "\<exists>bs t. pipe_recv p n s = Inr (bs, t) \<and> pipe_queue (pp_tab s p) = bs @ pipe_queue (pp_tab t p)
      \<and> pipe_user i c p t"
  proof (cases r')
    case (Ret k)
    then show ?thesis
      using r by (intro exI [of _ bs'] exI [of _ u']) (auto simp: pipe_recv_def settle_def was_read_def)
  next
    case (Off b)
    then show ?thesis using r by (auto simp: pipe_recv_def settle_def was_read_def)
  qed
qed

section \<open>Properties\<close>

text \<open>
  C16. A pipe is a first-in first-out byte stream, also when the 32-bit counters wrap around: any
  sequence of writes and reads runs without panic, and the bytes read, followed by the bytes still
  in the pipe, are the bytes that were in it followed by the bytes accepted from the writers, in
  order.
\<close>

theorem pipe_fifo:
  assumes "pipe_user i c p s"
  shows "\<exists>sent got t. stream_run (pipe_send p) (pipe_recv p) es s = Inr ((sent, got), t)
    \<and> pipe_queue (pp_tab s p) @ sent = got @ pipe_queue (pp_tab t p)"
  using pipe.run_fifo [OF assms] .

definition pipe_state :: ppst where
  "pipe_state = cst.extend (ist.extend (lst.extend (bst.extend (slst.extend sleep_state
       (bst.fields [] [] (\<lambda>_. []) 0 []))
       (lst.fields 0 0 0 False 0 0 [])) (ist.fields (decode_sb (replicate 28 0)) [])) (cst.fields False [] [] 0 0 0))
     (ppst.fields (\<lambda>_. \<lparr>pi_data = replicate 512 0, pi_nread = - 2, pi_nwrite = - 2,
        pi_readopen = True, pi_writeopen = True\<rparr>))"

lemma pipe_state_ok: "pipe_user 0 0 p pipe_state" "pipe_queue (pp_tab pipe_state p) = []"
proof -
  note defs = pipe_state_def cst.defs ist.defs lst.defs bst.defs slst.defs ppst.defs sleep_state_def pst.defs
    boot_state_def
  have "calm pipe_state 0 = calm boot_state 0" by (rule calm_cong) (simp_all add: defs)
  then show "pipe_user 0 0 p pipe_state"
    using boot_state_calm
    by (simp add: pipe_user_def at_proc_def) (simp add: defs pipe_ok_def pipe_used_def)
  show "pipe_queue (pp_tab pipe_state p) = []" by (simp add: defs pipe_queue_def pipe_used_def)
qed

theorem pipe_fifo_witness:
  "\<exists>sent got t. stream_run (pipe_send 0x80400000) (pipe_recv 0x80400000)
       [Send [1, 2, 3], Recv 2, Send [4], Recv 9] pipe_state = Inr ((sent, got), t)
     \<and> sent = got @ pipe_queue (pp_tab t 0x80400000)"
  using pipe_fifo [OF pipe_state_ok(1), of "0x80400000" "[Send [1, 2, 3], Recv 2, Send [4], Recv 9]"]
  by (simp only: pipe_state_ok(2) append_Nil)



end
