(* ===== verification/File.thy ===== *)
theory File
  imports Pipe
begin

unbundle bit_operations_syntax

text \<open>
  The file table, \<^verbatim>\<open>file.c\<close>, the creation of pipes, and the operations of \<^verbatim>\<open>proc.c\<close> and \<^verbatim>\<open>vm.c\<close> that
  need files: \<open>userinit\<close>, \<open>fork\<close>, \<open>exit\<close>, \<open>forkret\<close> and \<open>loaduvm\<close>. A file pointer is an index into
  \<open>ftable.file\<close>. \<open>fileread\<close> and \<open>filewrite\<close> on a pipe can leave the processor; their result is then
  the one of \<open>piperead\<close> or \<open>pipewrite\<close>, which resume it.
\<close>

section \<open>Data\<close>

definition NFILE :: nat where "NFILE = 100"

datatype fdtype = FD_NONE | FD_PIPE | FD_INODE

record file_t =
  f_type :: fdtype
  f_ref :: int
  f_readable :: bool
  f_writable :: bool
  f_pipe :: uint
  f_ip :: nat
  f_off :: uint

text \<open>The kernel state with the file table and the flag \<open>first\<close> of \<open>forkret\<close>.\<close>

record flst = ppst +
  ft_file :: "file_t list"
  fk_first :: bool

definition upd_file :: "nat \<Rightarrow> (file_t \<Rightarrow> file_t) \<Rightarrow> 'a flst_scheme \<Rightarrow> 'a flst_scheme" where
  "upd_file i f s = s\<lparr>ft_file := (ft_file s)[i := f (ft_file s ! i)]\<rparr>"

section \<open>The file table\<close>

definition fileinit :: "'a flst_scheme \<Rightarrow> 'a flst_scheme" where
  "fileinit s = initlock FTABLE ''ftable'' s"

definition filealloc :: "'a flst_scheme \<Rightarrow> failure + nat option \<times> 'a flst_scheme" where
  "filealloc s =
     andThen (acquire FTABLE s) (\<lambda>s.
     case first_index (\<lambda>f. f_ref f = 0) (ft_file s) of
       Some f \<Rightarrow> andThen (release FTABLE (upd_file f (\<lambda>x. x\<lparr>f_ref := 1\<rparr>) s)) (\<lambda>s. Inr (Some f, s))
     | None \<Rightarrow> andThen (release FTABLE s) (\<lambda>s. Inr (None, s)))"

definition filedup :: "nat \<Rightarrow> 'a flst_scheme \<Rightarrow> failure + 'a flst_scheme" where
  "filedup f s =
     andThen (acquire FTABLE s) (\<lambda>s.
     if f_ref (ft_file s ! f) < 1 then Inl (Panic ''filedup'')
     else release FTABLE (upd_file f (\<lambda>x. x\<lparr>f_ref := f_ref x + 1\<rparr>) s))"

definition fileclose :: "nat \<Rightarrow> 'a flst_scheme \<Rightarrow> failure + 'a flst_scheme" where
  "fileclose f s =
     andThen (acquire FTABLE s) (\<lambda>s.
     if f_ref (ft_file s ! f) < 1 then Inl (Panic ''fileclose'')
     else let s = upd_file f (\<lambda>x. x\<lparr>f_ref := f_ref x - 1\<rparr>) s
          in if f_ref (ft_file s ! f) > 0 then release FTABLE s
             else let ff = ft_file s ! f;
                      s = upd_file f (\<lambda>x. x\<lparr>f_ref := 0, f_type := FD_NONE\<rparr>) s
                  in andThen (release FTABLE s) (\<lambda>s.
                     case f_type ff of
                       FD_PIPE \<Rightarrow> pipeclose (f_pipe ff) (f_writable ff) s
                     | FD_INODE \<Rightarrow> andThen (begin_op s) (\<lambda>s. andThen (iput (f_ip ff) s) end_op)
                     | FD_NONE \<Rightarrow> Inr s))"

definition filestat :: "nat \<Rightarrow> 'a flst_scheme \<Rightarrow> failure + (int \<times> stat option) \<times> 'a flst_scheme" where
  "filestat f s =
     (let x = ft_file s ! f in
      if f_type x = FD_INODE
      then andThen (ilock (Some (f_ip x)) s) (\<lambda>s.
           let st = stati (f_ip x) s
           in andThen (iunlock (Some (f_ip x)) s) (\<lambda>s. Inr ((0, Some st), s)))
      else Inr ((-1, None), s))"

text \<open>The bytes read are returned; the caller's buffer is behind the system call interface.\<close>

definition fileread :: "nat \<Rightarrow> int \<Rightarrow> 'a flst_scheme \<Rightarrow> failure + (int ctl \<times> uchar list) \<times> 'a flst_scheme" where
  "fileread f n s =
     (let x = ft_file s ! f in
      if \<not> f_readable x then Inr ((Ret (-1), []), s)
      else case f_type x of
        FD_PIPE \<Rightarrow> piperead (f_pipe x) n s
      | FD_INODE \<Rightarrow>
          andThen (ilock (Some (f_ip x)) s) (\<lambda>s.
          andThen (readi (f_ip x) (f_off (ft_file s ! f)) (word_of_int n) s) (\<lambda>((r, bs), s).
          let s = (if r > 0 then upd_file f (\<lambda>x. x\<lparr>f_off := f_off x + word_of_int r\<rparr>) s else s)
          in andThen (iunlock (Some (f_ip x)) s) (\<lambda>s. Inr ((Ret r, bs), s))))
      | FD_NONE \<Rightarrow> Inl (Panic ''fileread''))"

text \<open>
  The loop of \<open>filewrite\<close>, for the bytes that are left: at most three blocks in one transaction.
  The result is the number of bytes that are not written when the loop ends.
\<close>

definition write_max :: nat where "write_max = nat ((MAXOPBLOCKS - 1 - 1 - 2) div 2) * 512"

function filewrite_loop :: "nat \<Rightarrow> uchar list \<Rightarrow> 'a flst_scheme \<Rightarrow> failure + nat \<times> 'a flst_scheme" where
  "filewrite_loop f bs s =
     (if bs = [] then Inr (0, s)
      else let n1 = min (length bs) write_max;
               ip = f_ip (ft_file s ! f)
        in andThen (begin_op s) (\<lambda>s.
           andThen (ilock (Some ip) s) (\<lambda>s.
           andThen (writei ip (take n1 bs) (f_off (ft_file s ! f)) s) (\<lambda>(r, s).
           let s = (if r > 0 then upd_file f (\<lambda>x. x\<lparr>f_off := f_off x + word_of_int r\<rparr>) s else s)
           in andThen (iunlock (Some ip) s) (\<lambda>s.
              andThen (end_op s) (\<lambda>s.
              if r < 0 then Inr (length bs, s)
              else if r \<noteq> int n1 then Inl (Panic ''short filewrite'')
              else filewrite_loop f (drop n1 bs) s))))))"
  by pat_completeness auto
termination
  by (relation "measure (\<lambda>(f, bs, s). length bs)") (auto simp: write_max_def MAXOPBLOCKS_def)

declare filewrite_loop.simps [simp del]

definition filewrite :: "nat \<Rightarrow> uchar list \<Rightarrow> 'a flst_scheme \<Rightarrow> failure + (int ctl \<times> uchar list) \<times> 'a flst_scheme" where
  "filewrite f bs s =
     (let x = ft_file s ! f in
      if \<not> f_writable x then Inr ((Ret (-1), bs), s)
      else case f_type x of
        FD_PIPE \<Rightarrow> pipewrite (f_pipe x) bs s
      | FD_INODE \<Rightarrow>
          andThen (filewrite_loop f bs s) (\<lambda>(left, s).
          Inr ((Ret (if left = 0 then int (length bs) else -1), []), s))
      | FD_NONE \<Rightarrow> Inl (Panic ''filewrite''))"

section \<open>Creating a pipe\<close>

definition pipealloc :: "'a flst_scheme \<Rightarrow> failure + (nat \<times> nat) option \<times> 'a flst_scheme" where
  "pipealloc s =
     andThen (filealloc s) (\<lambda>(f0, s).
     case f0 of None \<Rightarrow> Inr (None, s)
     | Some f0 \<Rightarrow> andThen (filealloc s) (\<lambda>(f1, s).
        case f1 of None \<Rightarrow> andThen (fileclose f0 s) (\<lambda>s. Inr (None, s))
        | Some f1 \<Rightarrow> andThen (kalloc s) (\<lambda>(p, s).
            if p = 0
            then andThen (fileclose f0 s) (\<lambda>s. andThen (fileclose f1 s) (\<lambda>s. Inr (None, s)))
            else let s = upd_pipe p (\<lambda>x. x\<lparr>pi_readopen := True, pi_writeopen := True, pi_nwrite := 0, pi_nread := 0\<rparr>) s;
                     s = initlock (pipelock p) ''pipe'' s;
                     s = upd_file f0 (\<lambda>x. x\<lparr>f_type := FD_PIPE, f_readable := True, f_writable := False, f_pipe := p\<rparr>) s;
                     s = upd_file f1 (\<lambda>x. x\<lparr>f_type := FD_PIPE, f_readable := False, f_writable := True, f_pipe := p\<rparr>) s
                 in Inr (Some (f0, f1), s))))"

section \<open>Processes and their files\<close>

text \<open>
  Offsets in the trap frame of \<^verbatim>\<open>x86.h\<close>, 76 bytes in all. The 16-bit segment fields are followed by
  two bytes of padding; \<open>userinit\<close> stores them into a zeroed frame, as whole words.
\<close>

definition tf_eax :: uint where "tf_eax = 28"
definition tf_es :: uint where "tf_es = 40"
definition tf_ds :: uint where "tf_ds = 44"
definition tf_trapno :: uint where "tf_trapno = 48"
definition tf_err :: uint where "tf_err = 52"
definition tf_eip :: uint where "tf_eip = 56"
definition tf_cs :: uint where "tf_cs = 60"
definition tf_eflags :: uint where "tf_eflags = 64"
definition tf_esp :: uint where "tf_esp = 68"
definition tf_ss :: uint where "tf_ss = 72"

definition FL_IF :: uint where "FL_IF = 0x200"
definition SEG_UCODE :: uint where "SEG_UCODE = 3"
definition SEG_UDATA :: uint where "SEG_UDATA = 4"
definition DPL_USER :: uint where "DPL_USER = 3"

text \<open>A C string literal as bytes, with its terminator.\<close>

definition cstring :: "string \<Rightarrow> uchar list" where
  "cstring t = map (\<lambda>c. of_nat (of_char c)) t @ [0]"

definition userinit :: "uint \<Rightarrow> uchar list \<Rightarrow> 'a flst_scheme \<Rightarrow> failure + 'a flst_scheme" where
  "userinit vdata initcode s =
     andThen (allocproc s) (\<lambda>(q, s).
     let s = s\<lparr>ps_initproc := q\<rparr> in deref q (\<lambda>p.
     andThen (setupkvm vdata s) (\<lambda>(pgdir, s).
     let s = upd_proc p (\<lambda>x. x\<lparr>p_pgdir := pgdir\<rparr>) s
     in if pgdir = 0 then Inl (Panic ''userinit: out of memory?'')
     else andThen (inituvm pgdir initcode s) (\<lambda>s.
       let s = upd_proc p (\<lambda>x. x\<lparr>p_sz := PGSIZE\<rparr>) s;
           tf = p_tf (ps_proc s ! p);
           s = mem_set tf 0 76 s;
           s = mem_store (tf + tf_cs) (push_bit 3 SEG_UCODE OR DPL_USER) s;
           s = mem_store (tf + tf_ds) (push_bit 3 SEG_UDATA OR DPL_USER) s;
           s = mem_store (tf + tf_es) (mem_load (tf + tf_ds) s) s;
           s = mem_store (tf + tf_ss) (mem_load (tf + tf_ds) s) s;
           s = mem_store (tf + tf_eflags) FL_IF s;
           s = mem_store (tf + tf_esp) PGSIZE s;
           s = mem_store (tf + tf_eip) 0 s;
           s = upd_proc p (\<lambda>x. x\<lparr>p_name := copy_name (p_name x) (cstring ''initcode'')\<rparr>) s
       in andThen (namei [slash] s) (\<lambda>(cwd, s).
          let s = upd_proc p (\<lambda>x. x\<lparr>p_cwd := cwd\<rparr>) s
          in andThen (acquire PTABLE s) (\<lambda>s.
             release PTABLE (upd_proc p (\<lambda>x. x\<lparr>p_ctime := 0, p_toe := sint (ps_ticks s), p_state := RUNNABLE\<rparr>) s)))))))"

fun dup_files :: "nat list \<Rightarrow> nat \<Rightarrow> nat \<Rightarrow> 'a flst_scheme \<Rightarrow> failure + 'a flst_scheme" where
  "dup_files [] cur np s = Inr s"
| "dup_files (i # is) cur np s =
     (case p_ofile (ps_proc s ! cur) ! i of
        None \<Rightarrow> dup_files is cur np s
      | Some f \<Rightarrow> andThen (filedup f s) (\<lambda>s.
          dup_files is cur np (upd_proc np (\<lambda>x. x\<lparr>p_ofile := (p_ofile x)[i := Some f]\<rparr>) s)))"

definition fork :: "uint \<Rightarrow> 'a flst_scheme \<Rightarrow> failure + int \<times> 'a flst_scheme" where
  "fork vdata s =
     andThen (myproc s) (\<lambda>(c, s).
     andThen (allocproc s) (\<lambda>(q, s).
     case q of None \<Rightarrow> Inr (-1, s)
     | Some np \<Rightarrow> deref c (\<lambda>cur.
        andThen (copyuvm vdata (p_pgdir (ps_proc s ! cur)) (p_sz (ps_proc s ! cur)) s) (\<lambda>(pgdir, s).
        let s = upd_proc np (\<lambda>x. x\<lparr>p_pgdir := pgdir\<rparr>) s
        in if pgdir = 0
           then andThen (kfree (p_kstack (ps_proc s ! np)) s) (\<lambda>s.
                Inr (-1, upd_proc np (\<lambda>x. x\<lparr>p_kstack := 0, p_state := UNUSED\<rparr>) s))
           else let s = upd_proc np (\<lambda>x. x\<lparr>p_sz := p_sz (ps_proc s ! cur), p_parent := Some cur\<rparr>) s;
                    tf = p_tf (ps_proc s ! np);
                    s = mem_move tf (p_tf (ps_proc s ! cur)) 76 s;
                    s = mem_store (tf + tf_eax) 0 s
                in andThen (dup_files [0..<NOFILE] cur np s) (\<lambda>s.
                   case p_cwd (ps_proc s ! cur) of
                     None \<Rightarrow> Inl (Undefined ''idup: null inode'')
                   | Some ip \<Rightarrow> andThen (idup ip s) (\<lambda>s.
                       let s = upd_proc np (\<lambda>x. x\<lparr>p_cwd := Some ip,
                             p_name := copy_name (p_name x) (p_name (ps_proc s ! cur))\<rparr>) s;
                           pid = p_pid (ps_proc s ! np)
                       in andThen (acquire PTABLE s) (\<lambda>s.
                          andThen (release PTABLE (upd_proc np (\<lambda>x. x\<lparr>p_toe := sint (ps_ticks s), p_state := RUNNABLE\<rparr>) s)) (\<lambda>s.
                          Inr (pid, s)))))))))"

fun close_files :: "nat list \<Rightarrow> nat \<Rightarrow> 'a flst_scheme \<Rightarrow> failure + 'a flst_scheme" where
  "close_files [] cur s = Inr s"
| "close_files (fd # fds) cur s =
     (case p_ofile (ps_proc s ! cur) ! fd of
        None \<Rightarrow> close_files fds cur s
      | Some f \<Rightarrow> andThen (fileclose f s) (\<lambda>s.
          close_files fds cur (upd_proc cur (\<lambda>x. x\<lparr>p_ofile := (p_ofile x)[fd := None]\<rparr>) s)))"

text \<open>
  \<open>wakeup1\<close> on a process pointer; no process sleeps on the null pointer.
\<close>

definition wakeup1_proc :: "nat option \<Rightarrow> 'a pst_scheme \<Rightarrow> 'a pst_scheme" where
  "wakeup1_proc q s = (case q of None \<Rightarrow> s | Some p \<Rightarrow> wakeup1 (ChProc p) s)"

fun adopt :: "nat list \<Rightarrow> nat \<Rightarrow> 'a pst_scheme \<Rightarrow> 'a pst_scheme" where
  "adopt [] cur s = s"
| "adopt (p # ps) cur s =
     (if p_parent (ps_proc s ! p) = Some cur
      then let s = upd_proc p (\<lambda>x. x\<lparr>p_parent := ps_initproc s\<rparr>) s
           in adopt ps cur (if p_state (ps_proc s ! p) = ZOMBIE then wakeup1_proc (ps_initproc s) s else s)
      else adopt ps cur s)"

text \<open>\<open>exit\<close> up to the switch to the scheduler; it never comes back.\<close>

definition exit :: "'a flst_scheme \<Rightarrow> failure + bool \<times> 'a flst_scheme" where
  "exit s =
     andThen (myproc s) (\<lambda>(c, s).
     if c = ps_initproc s then Inl (Panic ''init exiting'')
     else deref c (\<lambda>cur.
       andThen (close_files [0..<NOFILE] cur s) (\<lambda>s.
       andThen (begin_op s) (\<lambda>s.
       case p_cwd (ps_proc s ! cur) of
         None \<Rightarrow> Inl (Undefined ''iput: null inode'')
       | Some ip \<Rightarrow> andThen (iput ip s) (\<lambda>s.
         andThen (end_op s) (\<lambda>s.
         let s = upd_proc cur (\<lambda>x. x\<lparr>p_cwd := None\<rparr>) s
         in andThen (acquire PTABLE s) (\<lambda>s.
            let s = wakeup1_proc (p_parent (ps_proc s ! cur)) s;
                s = adopt [0..<length (ps_proc s)] cur s
            in sched_off (upd_proc cur (\<lambda>x. x\<lparr>p_etime := sint (ps_ticks s), p_state := ZOMBIE\<rparr>) s))))))))"

definition exit_resumed :: "failure + 'a flst_scheme" where
  "exit_resumed = Inl (Panic ''zombie exit'')"

definition forkret :: "'a flst_scheme \<Rightarrow> failure + 'a flst_scheme" where
  "forkret s =
     andThen (release PTABLE s) (\<lambda>s.
     if fk_first s
     then andThen (iinit ROOTDEV (s\<lparr>fk_first := False\<rparr>)) (initlog ROOTDEV)
     else Inr s)"

section \<open>Loading a program\<close>

text \<open>
  The counter of \<open>loaduvm\<close> does not wrap around: \<open>exec\<close> calls it for segments below \<open>KERNBASE\<close>.
\<close>

function loaduvm_from :: "uint \<Rightarrow> uint \<Rightarrow> nat \<Rightarrow> uint \<Rightarrow> nat \<Rightarrow> nat \<Rightarrow> 'a cst_scheme \<Rightarrow> failure + int \<times> 'a cst_scheme" where
  "loaduvm_from pgdir addr ip off sz i s =
     (if i < sz
      then andThen (walkpgdir pgdir (addr + of_nat i) False s) (\<lambda>(pte, s).
           if pte = 0 then Inl (Panic ''loaduvm: address should exist'')
           else let pa = PTE_ADDR (mem_load pte s);
                    n = min (sz - i) 4096
                in andThen (readi ip (off + of_nat i) (of_nat n) s) (\<lambda>((r, bs), s).
                   let s = s\<lparr>km_mem := poke (km_mem s) (unat (P2V pa)) bs\<rparr>
                   in if r \<noteq> int n then Inr (-1, s)
                      else loaduvm_from pgdir addr ip off sz (i + 4096) s))
      else Inr (0, s))"
  by pat_completeness auto
termination
  by (relation "measure (\<lambda>(pgdir, addr, ip, off, sz, i, s). sz - i)") auto

declare loaduvm_from.simps [simp del]

definition loaduvm :: "uint \<Rightarrow> uint \<Rightarrow> nat \<Rightarrow> uint \<Rightarrow> uint \<Rightarrow> 'a cst_scheme \<Rightarrow> failure + int \<times> 'a cst_scheme" where
  "loaduvm pgdir addr ip off sz s =
     (if addr mod PGSIZE \<noteq> 0 then Inl (Panic ''loaduvm: addr must be page aligned'')
      else loaduvm_from pgdir addr ip off (unat sz) 0 s)"

end
