(* ===== verification/Syscall.thy ===== *)
theory Syscall
  imports File
begin

unbundle bit_operations_syntax

text \<open>
  System calls on processes: the argument fetching of \<^verbatim>\<open>syscall.c\<close> and the handlers of
  \<^verbatim>\<open>sysproc.c\<close>. The kernel reads and writes the memory of the calling process at its user addresses:
  the processor translates them with the page directory of the current process, which \<open>switchuvm\<close>
  has loaded into \<open>cr3\<close>. An access that the page table does not allow traps in the kernel, which
  panics. A handler returns \<open>Ret\<close> with the value for \<open>eax\<close>, or \<open>Off\<close> when the process has left the
  processor.
\<close>

section \<open>User memory\<close>

definition mmu :: "bool \<Rightarrow> uint \<Rightarrow> uint \<Rightarrow> 'a kmst_scheme \<Rightarrow> failure + nat" where
  "mmu writing pgdir va s =
     (let need = (if writing then PTE_P OR PTE_W else PTE_P);
          pde = mem_load (pgdir + 4 * PDX va) s;
          pte = mem_load (P2V (PTE_ADDR pde) + 4 * PTX va) s
      in if pde AND need \<noteq> need \<or> pte AND need \<noteq> need then Inl (Panic ''trap'')
         else Inr (unat (P2V (PTE_ADDR pte) + (va AND 0xFFF))))"

fun uload :: "uint \<Rightarrow> nat \<Rightarrow> uint \<Rightarrow> 'a kmst_scheme \<Rightarrow> failure + uchar list" where
  "uload pgdir 0 va s = Inr []"
| "uload pgdir (Suc n) va s =
     andThen (mmu False pgdir va s) (\<lambda>a.
     andThen (uload pgdir n (va + 1) s) (\<lambda>bs. Inr (km_mem s a # bs)))"

fun ustore :: "uint \<Rightarrow> uint \<Rightarrow> uchar list \<Rightarrow> 'a kmst_scheme \<Rightarrow> failure + 'a kmst_scheme" where
  "ustore pgdir va [] s = Inr s"
| "ustore pgdir va (b # bs) s =
     andThen (mmu True pgdir va s) (\<lambda>a. ustore pgdir (va + 1) bs (s\<lparr>km_mem := (km_mem s)(a := b)\<rparr>))"

text \<open>A 32-bit word as it lies in memory.\<close>

definition bytes32 :: "uint \<Rightarrow> uchar list" where
  "bytes32 w = st32 0 w [0, 0, 0, 0]"

section \<open>Arguments\<close>

definition fetchint :: "uint \<Rightarrow> 'a pst_scheme \<Rightarrow> failure + uint option \<times> 'a pst_scheme" where
  "fetchint addr s =
     andThen (myproc s) (\<lambda>(c, s). deref c (\<lambda>p.
     let x = ps_proc s ! p
     in if addr \<ge> p_sz x \<or> addr + 4 > p_sz x then Inr (None, s)
        else andThen (uload (p_pgdir x) 4 addr s) (\<lambda>bs. Inr (Some (ld32 bs 0), s))))"

text \<open>The loop of \<open>fetchstr\<close>, with \<open>n\<close> bytes left before the end of the process.\<close>

fun fetchstr_from :: "uint \<Rightarrow> nat \<Rightarrow> uint \<Rightarrow> 'a kmst_scheme \<Rightarrow> failure + uchar list option" where
  "fetchstr_from pgdir 0 va s = Inr None"
| "fetchstr_from pgdir (Suc n) va s =
     andThen (mmu False pgdir va s) (\<lambda>a.
     if km_mem s a = 0 then Inr (Some [])
     else andThen (fetchstr_from pgdir n (va + 1) s) (\<lambda>r. Inr (map_option ((#) (km_mem s a)) r)))"

definition fetchstr :: "uint \<Rightarrow> 'a pst_scheme \<Rightarrow> failure + uchar list option \<times> 'a pst_scheme" where
  "fetchstr addr s =
     andThen (myproc s) (\<lambda>(c, s). deref c (\<lambda>p.
     let x = ps_proc s ! p
     in if addr \<ge> p_sz x then Inr (None, s)
        else andThen (fetchstr_from (p_pgdir x) (unat (p_sz x) - unat addr) addr s) (\<lambda>r. Inr (r, s))))"

definition argint :: "nat \<Rightarrow> 'a pst_scheme \<Rightarrow> failure + uint option \<times> 'a pst_scheme" where
  "argint n s =
     andThen (myproc s) (\<lambda>(c, s). deref c (\<lambda>p.
     fetchint (mem_load (p_tf (ps_proc s ! p) + tf_esp) s + 4 + 4 * of_nat n) s))"

definition argptr :: "nat \<Rightarrow> int \<Rightarrow> 'a pst_scheme \<Rightarrow> failure + uint option \<times> 'a pst_scheme" where
  "argptr n len s =
     andThen (myproc s) (\<lambda>(c, s).
     andThen (argint n s) (\<lambda>(i, s).
     case i of None \<Rightarrow> Inr (None, s)
     | Some i \<Rightarrow> deref c (\<lambda>p.
        let sz = p_sz (ps_proc s ! p)
        in if len < 0 \<or> i \<ge> sz \<or> i + word_of_int len > sz then Inr (None, s) else Inr (Some i, s))))"

definition argstr :: "nat \<Rightarrow> 'a pst_scheme \<Rightarrow> failure + uchar list option \<times> 'a pst_scheme" where
  "argstr n s =
     andThen (argint n s) (\<lambda>(addr, s).
     case addr of None \<Rightarrow> Inr (None, s) | Some addr \<Rightarrow> fetchstr addr s)"

section \<open>Processes\<close>

definition returns :: "failure + int \<times> 'a \<Rightarrow> failure + int ctl \<times> 'a" where
  "returns m = andThen m (\<lambda>(r, s). Inr (Ret r, s))"

text \<open>The page directory of the calling process.\<close>

definition with_pgdir :: "(uint \<Rightarrow> 'a pst_scheme \<Rightarrow> failure + 'b) \<Rightarrow> 'a pst_scheme \<Rightarrow> failure + 'b" where
  "with_pgdir f s = andThen (myproc s) (\<lambda>(c, s). deref c (\<lambda>p. f (p_pgdir (ps_proc s ! p)) s))"

definition sys_fork :: "uint \<Rightarrow> 'a flst_scheme \<Rightarrow> failure + int ctl \<times> 'a flst_scheme" where
  "sys_fork vdata s = returns (fork vdata s)"

definition sys_exit :: "'a flst_scheme \<Rightarrow> failure + int ctl \<times> 'a flst_scheme" where
  "sys_exit s = andThen (exit s) (\<lambda>(intena, s). Inr (Off intena, s))"

definition sys_wait :: "'a pst_scheme \<Rightarrow> failure + int ctl \<times> 'a pst_scheme" where
  "sys_wait s = wait s"

definition sys_kill :: "'a pst_scheme \<Rightarrow> failure + int ctl \<times> 'a pst_scheme" where
  "sys_kill s =
     andThen (argint 0 s) (\<lambda>(pid, s).
     case pid of None \<Rightarrow> Inr (Ret (-1), s) | Some pid \<Rightarrow> returns (kill (sint pid) s))"

definition sys_getpid :: "'a pst_scheme \<Rightarrow> failure + int ctl \<times> 'a pst_scheme" where
  "sys_getpid s = andThen (myproc s) (\<lambda>(c, s). deref c (\<lambda>p. Inr (Ret (p_pid (ps_proc s ! p)), s)))"

definition sys_sbrk :: "'a pst_scheme \<Rightarrow> failure + int ctl \<times> 'a pst_scheme" where
  "sys_sbrk s =
     andThen (argint 0 s) (\<lambda>(n, s).
     case n of None \<Rightarrow> Inr (Ret (-1), s)
     | Some n \<Rightarrow> andThen (myproc s) (\<lambda>(c, s). deref c (\<lambda>p.
        let addr = sint (p_sz (ps_proc s ! p))
        in andThen (growproc (sint n) s) (\<lambda>(r, s).
           if r < 0 then Inr (Ret (-1), s) else Inr (Ret addr, s)))))"

text \<open>
  The comparison \<^verbatim>\<open>ticks - ticks0 < n\<close> of an unsigned with a signed integer is unsigned.
\<close>

definition sys_sleep_iter :: "uint \<Rightarrow> uint \<Rightarrow> 'a pst_scheme \<Rightarrow> failure + int ctl \<times> 'a pst_scheme" where
  "sys_sleep_iter n ticks0 s =
     (if ps_ticks s - ticks0 < n
      then andThen (myproc s) (\<lambda>(c, s). deref c (\<lambda>p.
           if p_killed (ps_proc s ! p) \<noteq> 0
           then andThen (release TICKSLOCK s) (\<lambda>s. Inr (Ret (-1), s))
           else andThen (sleep_off ChTicks (Some TICKSLOCK) s) (\<lambda>(intena, s). Inr (Off intena, s))))
      else andThen (release TICKSLOCK s) (\<lambda>s. Inr (Ret 0, s)))"

definition sys_sleep :: "'a pst_scheme \<Rightarrow> failure + int ctl \<times> 'a pst_scheme" where
  "sys_sleep s =
     andThen (argint 0 s) (\<lambda>(n, s).
     case n of None \<Rightarrow> Inr (Ret (-1), s)
     | Some n \<Rightarrow> andThen (acquire TICKSLOCK s) (\<lambda>s. sys_sleep_iter n (ps_ticks s) s))"

definition sys_sleep_resume :: "uint \<Rightarrow> uint \<Rightarrow> nat \<Rightarrow> bool \<Rightarrow> 'a pst_scheme \<Rightarrow> failure + int ctl \<times> 'a pst_scheme" where
  "sys_sleep_resume n ticks0 p intena s =
     andThen (sleep_on p TICKSLOCK intena s) (sys_sleep_iter n ticks0)"

definition sys_uptime :: "'a pst_scheme \<Rightarrow> failure + int ctl \<times> 'a pst_scheme" where
  "sys_uptime s =
     andThen (acquire TICKSLOCK s) (\<lambda>s.
     let xticks = ps_ticks s
     in andThen (release TICKSLOCK s) (\<lambda>s. Inr (Ret (sint xticks), s)))"

text \<open>\<open>waitx\<close> stores the two times through the pointers it is given.\<close>

definition store_times :: "uint \<Rightarrow> uint \<Rightarrow> (int \<times> (int \<times> int) option) ctl \<times> 'a pst_scheme \<Rightarrow>
    failure + int ctl \<times> 'a pst_scheme" where
  "store_times wtime rtime rs = (case rs of
       (Off intena, s) \<Rightarrow> Inr (Off intena, s)
     | (Ret (r, None), s) \<Rightarrow> Inr (Ret r, s)
     | (Ret (r, Some (w, t)), s) \<Rightarrow>
         with_pgdir (\<lambda>pgdir s.
           andThen (ustore pgdir wtime (bytes32 (word_of_int w)) s) (\<lambda>s.
           andThen (ustore pgdir rtime (bytes32 (word_of_int t)) s) (\<lambda>s. Inr (Ret r, s)))) s)"

definition sys_waitx :: "'a pst_scheme \<Rightarrow> failure + int ctl \<times> 'a pst_scheme" where
  "sys_waitx s =
     andThen (argptr 0 4 s) (\<lambda>(wtime, s).
     case wtime of None \<Rightarrow> Inr (Ret (-1), s)
     | Some wtime \<Rightarrow> andThen (argptr 1 4 s) (\<lambda>(rtime, s).
        case rtime of None \<Rightarrow> Inr (Ret (-1), s)
        | Some rtime \<Rightarrow> andThen (waitx s) (store_times wtime rtime)))"

definition sys_set_priority :: "'a pst_scheme \<Rightarrow> failure + int ctl \<times> 'a pst_scheme" where
  "sys_set_priority s =
     andThen (argint 0 s) (\<lambda>(prio, s).
     case prio of None \<Rightarrow> Inr (Ret (-1), s)
     | Some prio \<Rightarrow> andThen (argint 1 s) (\<lambda>(pid, s).
        case pid of None \<Rightarrow> Inr (Ret (-1), s)
        | Some pid \<Rightarrow> returns (set_priority (sint prio) (sint pid) s)))"

text \<open>The lines that \<open>get_ps\<close> prints are its second result.\<close>

definition sys_get_ps :: "'a pst_scheme \<Rightarrow> failure + int ctl \<times> 'a pst_scheme" where
  "sys_get_ps s = andThen (get_ps s) (\<lambda>(r, rows, s). Inr (Ret r, s))"

end
