(* ===== verification/SysFile.thy ===== *)
theory SysFile
  imports Syscall
begin

unbundle bit_operations_syntax

text \<open>
  System calls on files, \<^verbatim>\<open>sysfile.c\<close>. Each handler is the whole C function: the argument checks in
  their order, the transaction around it, the locking of the inodes and every error path.
\<close>

definition O_RDONLY :: uint where "O_RDONLY = 0"
definition O_WRONLY :: uint where "O_WRONLY = 1"
definition O_RDWR :: uint where "O_RDWR = 2"
definition O_CREATE :: uint where "O_CREATE = 0x200"
definition MAXARG :: nat where "MAXARG = 32"

section \<open>Descriptors\<close>

definition argfd :: "nat \<Rightarrow> 'a pst_scheme \<Rightarrow> failure + (nat \<times> nat) option \<times> 'a pst_scheme" where
  "argfd n s =
     andThen (argint n s) (\<lambda>(fd, s).
     case fd of None \<Rightarrow> Inr (None, s)
     | Some fd \<Rightarrow>
        if sint fd < 0 \<or> sint fd \<ge> int NOFILE then Inr (None, s)
        else andThen (myproc s) (\<lambda>(c, s). deref c (\<lambda>p.
             Inr (map_option (\<lambda>f. (nat (sint fd), f)) (p_ofile (ps_proc s ! p) ! nat (sint fd)), s))))"

definition fdalloc :: "nat \<Rightarrow> 'a pst_scheme \<Rightarrow> failure + int \<times> 'a pst_scheme" where
  "fdalloc f s =
     andThen (myproc s) (\<lambda>(c, s). deref c (\<lambda>p.
     case first_index (\<lambda>x. x = None) (take NOFILE (p_ofile (ps_proc s ! p))) of
       Some fd \<Rightarrow> Inr (int fd, upd_proc p (\<lambda>x. x\<lparr>p_ofile := (p_ofile x)[fd := Some f]\<rparr>) s)
     | None \<Rightarrow> Inr (-1, s)))"

definition clear_fd :: "nat \<Rightarrow> 'a pst_scheme \<Rightarrow> failure + 'a pst_scheme" where
  "clear_fd fd s =
     andThen (myproc s) (\<lambda>(c, s). deref c (\<lambda>p.
     Inr (upd_proc p (\<lambda>x. x\<lparr>p_ofile := (p_ofile x)[fd := None]\<rparr>) s)))"

definition sys_dup :: "'a flst_scheme \<Rightarrow> failure + int ctl \<times> 'a flst_scheme" where
  "sys_dup s =
     andThen (argfd 0 s) (\<lambda>(r, s).
     case r of None \<Rightarrow> Inr (Ret (-1), s)
     | Some (_, f) \<Rightarrow> andThen (fdalloc f s) (\<lambda>(fd, s).
        if fd < 0 then Inr (Ret (-1), s)
        else andThen (filedup f s) (\<lambda>s. Inr (Ret fd, s))))"

text \<open>The arguments of \<open>read\<close> and \<open>write\<close>: file, address, count.\<close>

definition arg_buffer :: "'a pst_scheme \<Rightarrow> failure + (nat \<times> uint \<times> int) option \<times> 'a pst_scheme" where
  "arg_buffer s =
     andThen (argfd 0 s) (\<lambda>(r, s).
     case r of None \<Rightarrow> Inr (None, s)
     | Some (_, f) \<Rightarrow> andThen (argint 2 s) (\<lambda>(n, s).
        case n of None \<Rightarrow> Inr (None, s)
        | Some n \<Rightarrow> andThen (argptr 1 (sint n) s) (\<lambda>(p, s).
            case p of None \<Rightarrow> Inr (None, s) | Some p \<Rightarrow> Inr (Some (f, p, sint n), s))))"

text \<open>
  Bytes read are stored at the caller's address. A reader that sleeps has read nothing yet.
\<close>

definition sys_read :: "'a flst_scheme \<Rightarrow> failure + int ctl \<times> 'a flst_scheme" where
  "sys_read s =
     andThen (arg_buffer s) (\<lambda>(r, s).
     case r of None \<Rightarrow> Inr (Ret (-1), s)
     | Some (f, p, n) \<Rightarrow> andThen (fileread f n s) (\<lambda>((res, bs), s).
        with_pgdir (\<lambda>pgdir s. andThen (ustore pgdir p bs s) (\<lambda>s. Inr (res, s))) s))"

definition sys_write :: "'a flst_scheme \<Rightarrow> failure + int ctl \<times> 'a flst_scheme" where
  "sys_write s =
     andThen (arg_buffer s) (\<lambda>(r, s).
     case r of None \<Rightarrow> Inr (Ret (-1), s)
     | Some (f, p, n) \<Rightarrow> with_pgdir (\<lambda>pgdir s.
        andThen (uload pgdir (nat n) p s) (\<lambda>bs.
        andThen (filewrite f bs s) (\<lambda>((res, _), s). Inr (res, s)))) s)"

definition sys_close :: "'a flst_scheme \<Rightarrow> failure + int ctl \<times> 'a flst_scheme" where
  "sys_close s =
     andThen (argfd 0 s) (\<lambda>(r, s).
     case r of None \<Rightarrow> Inr (Ret (-1), s)
     | Some (fd, f) \<Rightarrow> andThen (clear_fd fd s) (\<lambda>s.
        andThen (fileclose f s) (\<lambda>s. Inr (Ret 0, s))))"

text \<open>
  \<open>struct stat\<close> in memory, 20 bytes; the padding after each \<open>short\<close> keeps its old bytes.
\<close>

definition bytes16 :: "ushort \<Rightarrow> uchar list" where
  "bytes16 w = st16 0 w [0, 0]"

definition store_stat :: "uint \<Rightarrow> uint \<Rightarrow> stat \<Rightarrow> 'a kmst_scheme \<Rightarrow> failure + 'a kmst_scheme" where
  "store_stat pgdir p st s =
     andThen (ustore pgdir p (bytes16 (st_type st)) s) (\<lambda>s.
     andThen (ustore pgdir (p + 4) (bytes32 (st_dev st) @ bytes32 (st_ino st) @ bytes16 (st_nlink st)) s) (\<lambda>s.
     ustore pgdir (p + 16) (bytes32 (st_size st)) s))"

definition sys_fstat :: "'a flst_scheme \<Rightarrow> failure + int ctl \<times> 'a flst_scheme" where
  "sys_fstat s =
     andThen (argfd 0 s) (\<lambda>(r, s).
     case r of None \<Rightarrow> Inr (Ret (-1), s)
     | Some (_, f) \<Rightarrow> andThen (argptr 1 20 s) (\<lambda>(p, s).
        case p of None \<Rightarrow> Inr (Ret (-1), s)
        | Some p \<Rightarrow> andThen (filestat f s) (\<lambda>((r, st), s).
            case st of None \<Rightarrow> Inr (Ret r, s)
            | Some st \<Rightarrow> with_pgdir (\<lambda>pgdir s. andThen (store_stat pgdir p st s) (\<lambda>s. Inr (Ret r, s))) s)))"

section \<open>Links\<close>

text \<open>A transaction that ends with the error \<open>-1\<close>.\<close>

definition fail_op :: "'a lst_scheme \<Rightarrow> failure + int ctl \<times> 'a lst_scheme" where
  "fail_op s = andThen (end_op s) (\<lambda>s. Inr (Ret (-1), s))"

definition add_nlink :: "nat \<Rightarrow> ushort \<Rightarrow> 'a ist_scheme \<Rightarrow> failure + 'a ist_scheme" where
  "add_nlink ip d s = iupdate ip (upd_inode ip (\<lambda>x. x\<lparr>i_nlink := i_nlink x + d\<rparr>) s)"

definition link_bad :: "nat \<Rightarrow> 'a ist_scheme \<Rightarrow> failure + int ctl \<times> 'a ist_scheme" where
  "link_bad ip s =
     andThen (ilock (Some ip) s) (\<lambda>s.
     andThen (add_nlink ip (-1) s) (\<lambda>s.
     andThen (iunlockput ip s) fail_op))"

definition sys_link :: "'a cst_scheme \<Rightarrow> failure + int ctl \<times> 'a cst_scheme" where
  "sys_link s =
     andThen (argstr 0 s) (\<lambda>(old, s).
     case old of None \<Rightarrow> Inr (Ret (-1), s)
     | Some old \<Rightarrow> andThen (argstr 1 s) (\<lambda>(new, s).
     case new of None \<Rightarrow> Inr (Ret (-1), s)
     | Some new \<Rightarrow> andThen (begin_op s) (\<lambda>s.
       andThen (namei old s) (\<lambda>(ip, s).
       case ip of None \<Rightarrow> fail_op s
       | Some ip \<Rightarrow> andThen (ilock (Some ip) s) (\<lambda>s.
         if i_type (ic_inode s ! ip) = T_DIR then andThen (iunlockput ip s) fail_op
         else andThen (add_nlink ip 1 s) (\<lambda>s.
           andThen (iunlock (Some ip) s) (\<lambda>s.
           andThen (nameiparent new (replicate DIRSIZ 0) s) (\<lambda>((dp, name), s).
           case dp of None \<Rightarrow> link_bad ip s
           | Some dp \<Rightarrow> andThen (ilock (Some dp) s) (\<lambda>s.
             andThen (if i_dev (ic_inode s ! dp) \<noteq> i_dev (ic_inode s ! ip) then Inr (-1, s)
                      else dirlink dp name (i_inum (ic_inode s ! ip)) s) (\<lambda>(r, s).
             if r < 0 then andThen (iunlockput dp s) (link_bad ip)
             else andThen (iunlockput dp s) (\<lambda>s.
                  andThen (iput ip s) (\<lambda>s.
                  andThen (end_op s) (\<lambda>s. Inr (Ret 0, s))))))))))))))"

fun isdirempty_from :: "nat \<Rightarrow> nat list \<Rightarrow> 'a cst_scheme \<Rightarrow> failure + bool \<times> 'a cst_scheme" where
  "isdirempty_from dp [] s = Inr (True, s)"
| "isdirempty_from dp (off # offs) s =
     andThen (read_entry dp off ''isdirempty: readi'' s) (\<lambda>(de, s).
     if de_inum de \<noteq> 0 then Inr (False, s) else isdirempty_from dp offs s)"

definition isdirempty :: "nat \<Rightarrow> 'a cst_scheme \<Rightarrow> failure + bool \<times> 'a cst_scheme" where
  "isdirempty dp s = isdirempty_from dp (entry_offsets 32 (unat (i_size (ic_inode s ! dp)))) s"

definition unlink_bad :: "nat \<Rightarrow> 'a ist_scheme \<Rightarrow> failure + int ctl \<times> 'a ist_scheme" where
  "unlink_bad dp s = andThen (iunlockput dp s) fail_op"

definition sys_unlink :: "'a cst_scheme \<Rightarrow> failure + int ctl \<times> 'a cst_scheme" where
  "sys_unlink s =
     andThen (argstr 0 s) (\<lambda>(path, s).
     case path of None \<Rightarrow> Inr (Ret (-1), s)
     | Some path \<Rightarrow> andThen (begin_op s) (\<lambda>s.
       andThen (nameiparent path (replicate DIRSIZ 0) s) (\<lambda>((dp, name), s).
       case dp of None \<Rightarrow> fail_op s
       | Some dp \<Rightarrow> andThen (ilock (Some dp) s) (\<lambda>s.
         if namecmp name (cstring ''.'') = 0 \<or> namecmp name (cstring ''..'') = 0 then unlink_bad dp s
         else andThen (dirlookup dp name s) (\<lambda>(r, s).
         case r of None \<Rightarrow> unlink_bad dp s
         | Some (ip, off) \<Rightarrow> andThen (ilock (Some ip) s) (\<lambda>s.
           if sint (i_nlink (ic_inode s ! ip)) < 1 then Inl (Panic ''unlink: nlink < 1'')
           else andThen (if i_type (ic_inode s ! ip) = T_DIR then isdirempty ip s else Inr (True, s)) (\<lambda>(empty, s).
           if \<not> empty then andThen (iunlockput ip s) (unlink_bad dp)
           else andThen (writei dp (replicate 16 0) (of_nat off) s) (\<lambda>(r, s).
             if r \<noteq> 16 then Inl (Panic ''unlink: writei'')
             else andThen (if i_type (ic_inode s ! ip) = T_DIR then add_nlink dp (-1) s else Inr s) (\<lambda>s.
               andThen (iunlockput dp s) (\<lambda>s.
               andThen (add_nlink ip (-1) s) (\<lambda>s.
               andThen (iunlockput ip s) (\<lambda>s.
               andThen (end_op s) (\<lambda>s. Inr (Ret 0, s))))))))))))))"

section \<open>Creating and opening\<close>

text \<open>The entries \<^verbatim>\<open>.\<close> and \<^verbatim>\<open>..\<close> of a new directory.\<close>

definition create_dots :: "nat \<Rightarrow> nat \<Rightarrow> 'a cst_scheme \<Rightarrow> failure + 'a cst_scheme" where
  "create_dots dp ip s =
     andThen (add_nlink dp 1 s) (\<lambda>s.
     andThen (dirlink ip (cstring ''.'') (i_inum (ic_inode s ! ip)) s) (\<lambda>(r, s).
     if r < 0 then Inl (Panic ''create dots'')
     else andThen (dirlink ip (cstring ''..'') (i_inum (ic_inode s ! dp)) s) (\<lambda>(r, s).
       if r < 0 then Inl (Panic ''create dots'') else Inr s)))"

definition create :: "uchar list \<Rightarrow> ushort \<Rightarrow> ushort \<Rightarrow> ushort \<Rightarrow> 'a cst_scheme \<Rightarrow>
    failure + nat option \<times> 'a cst_scheme" where
  "create path type major minor s =
     andThen (nameiparent path (replicate DIRSIZ 0) s) (\<lambda>((dp, name), s).
     case dp of None \<Rightarrow> Inr (None, s)
     | Some dp \<Rightarrow> andThen (ilock (Some dp) s) (\<lambda>s.
       andThen (dirlookup dp name s) (\<lambda>(r, s).
       case r of
         Some (ip, _) \<Rightarrow>
           andThen (iunlockput dp s) (\<lambda>s.
           andThen (ilock (Some ip) s) (\<lambda>s.
           if type = T_FILE \<and> i_type (ic_inode s ! ip) = T_FILE then Inr (Some ip, s)
           else andThen (iunlockput ip s) (\<lambda>s. Inr (None, s))))
       | None \<Rightarrow>
           andThen (ialloc (i_dev (ic_inode s ! dp)) type s) (\<lambda>(ip, s).
           andThen (ilock (Some ip) s) (\<lambda>s.
           andThen (iupdate ip (upd_inode ip (\<lambda>x. x\<lparr>i_major := major, i_minor := minor, i_nlink := 1\<rparr>) s)) (\<lambda>s.
           andThen (if type = T_DIR then create_dots dp ip s else Inr s) (\<lambda>s.
           andThen (dirlink dp name (i_inum (ic_inode s ! ip)) s) (\<lambda>(r, s).
           if r < 0 then Inl (Panic ''create: dirlink'')
           else andThen (iunlockput dp s) (\<lambda>s. Inr (Some ip, s)))))))))) "

text \<open>The inode to open, locked; \<open>None\<close> when there is none.\<close>

definition open_inode :: "uchar list \<Rightarrow> uint \<Rightarrow> 'a cst_scheme \<Rightarrow> failure + nat option \<times> 'a cst_scheme" where
  "open_inode path omode s =
     (if omode AND O_CREATE \<noteq> 0 then create path T_FILE 0 0 s
      else andThen (namei path s) (\<lambda>(ip, s).
        case ip of None \<Rightarrow> Inr (None, s)
        | Some ip \<Rightarrow> andThen (ilock (Some ip) s) (\<lambda>s.
            if i_type (ic_inode s ! ip) = T_DIR \<and> omode \<noteq> O_RDONLY
            then andThen (iunlockput ip s) (\<lambda>s. Inr (None, s)) else Inr (Some ip, s))))"

definition sys_open :: "'a flst_scheme \<Rightarrow> failure + int ctl \<times> 'a flst_scheme" where
  "sys_open s =
     andThen (argstr 0 s) (\<lambda>(path, s).
     case path of None \<Rightarrow> Inr (Ret (-1), s)
     | Some path \<Rightarrow> andThen (argint 1 s) (\<lambda>(omode, s).
     case omode of None \<Rightarrow> Inr (Ret (-1), s)
     | Some omode \<Rightarrow> andThen (begin_op s) (\<lambda>s.
       andThen (open_inode path omode s) (\<lambda>(ip, s).
       case ip of None \<Rightarrow> fail_op s
       | Some ip \<Rightarrow> andThen (filealloc s) (\<lambda>(f, s).
         case f of None \<Rightarrow> andThen (iunlockput ip s) fail_op
         | Some f \<Rightarrow> andThen (fdalloc f s) (\<lambda>(fd, s).
           if fd < 0 then andThen (fileclose f s) (\<lambda>s. andThen (iunlockput ip s) fail_op)
           else andThen (iunlock (Some ip) s) (\<lambda>s.
                andThen (end_op s) (\<lambda>s.
                Inr (Ret fd, upd_file f (\<lambda>x. x\<lparr>f_type := FD_INODE, f_ip := ip, f_off := 0,
                  f_readable := (omode AND O_WRONLY = 0),
                  f_writable := (omode AND O_WRONLY \<noteq> 0 \<or> omode AND O_RDWR \<noteq> 0)\<rparr>) s)))))))))"

definition made :: "failure + nat option \<times> 'a ist_scheme \<Rightarrow> failure + int ctl \<times> 'a ist_scheme" where
  "made m = andThen m (\<lambda>(ip, s).
     case ip of None \<Rightarrow> fail_op s
     | Some ip \<Rightarrow> andThen (iunlockput ip s) (\<lambda>s. andThen (end_op s) (\<lambda>s. Inr (Ret 0, s))))"

definition sys_mkdir :: "'a cst_scheme \<Rightarrow> failure + int ctl \<times> 'a cst_scheme" where
  "sys_mkdir s =
     andThen (begin_op s) (\<lambda>s.
     made (andThen (argstr 0 s) (\<lambda>(path, s).
       case path of None \<Rightarrow> Inr (None, s) | Some path \<Rightarrow> create path T_DIR 0 0 s)))"

definition sys_mknod :: "'a cst_scheme \<Rightarrow> failure + int ctl \<times> 'a cst_scheme" where
  "sys_mknod s =
     andThen (begin_op s) (\<lambda>s.
     made (andThen (argstr 0 s) (\<lambda>(path, s).
       case path of None \<Rightarrow> Inr (None, s)
       | Some path \<Rightarrow> andThen (argint 1 s) (\<lambda>(major, s).
         case major of None \<Rightarrow> Inr (None, s)
         | Some major \<Rightarrow> andThen (argint 2 s) (\<lambda>(minor, s).
           case minor of None \<Rightarrow> Inr (None, s)
           | Some minor \<Rightarrow> create path T_DEV (ucast major) (ucast minor) s)))))"

definition sys_chdir :: "'a cst_scheme \<Rightarrow> failure + int ctl \<times> 'a cst_scheme" where
  "sys_chdir s =
     andThen (myproc s) (\<lambda>(c, s).
     andThen (begin_op s) (\<lambda>s.
     andThen (argstr 0 s) (\<lambda>(path, s).
     andThen (case path of None \<Rightarrow> Inr (None, s) | Some path \<Rightarrow> namei path s) (\<lambda>(ip, s).
     case ip of None \<Rightarrow> fail_op s
     | Some ip \<Rightarrow> andThen (ilock (Some ip) s) (\<lambda>s.
       if i_type (ic_inode s ! ip) \<noteq> T_DIR then andThen (iunlockput ip s) fail_op
       else andThen (iunlock (Some ip) s) (\<lambda>s. deref c (\<lambda>p.
         case p_cwd (ps_proc s ! p) of
           None \<Rightarrow> Inl (Undefined ''iput: null inode'')
         | Some cwd \<Rightarrow> andThen (iput cwd s) (\<lambda>s.
             andThen (end_op s) (\<lambda>s.
             Inr (Ret 0, upd_proc p (\<lambda>x. x\<lparr>p_cwd := Some ip\<rparr>) s)))))))))) "

definition sys_pipe :: "'a flst_scheme \<Rightarrow> failure + int ctl \<times> 'a flst_scheme" where
  "sys_pipe s =
     andThen (argptr 0 8 s) (\<lambda>(fdp, s).
     case fdp of None \<Rightarrow> Inr (Ret (-1), s)
     | Some fdp \<Rightarrow> andThen (pipealloc s) (\<lambda>(r, s).
       case r of None \<Rightarrow> Inr (Ret (-1), s)
       | Some (rfile, wfile) \<Rightarrow> andThen (fdalloc rfile s) (\<lambda>(fd0, s).
         andThen (if fd0 < 0 then Inr (-1, s) else fdalloc wfile s) (\<lambda>(fd1, s).
         if fd0 < 0 \<or> fd1 < 0
         then andThen (if fd0 \<ge> 0 then clear_fd (nat fd0) s else Inr s) (\<lambda>s.
              andThen (fileclose rfile s) (\<lambda>s.
              andThen (fileclose wfile s) (\<lambda>s. Inr (Ret (-1), s))))
         else with_pgdir (\<lambda>pgdir s.
              andThen (ustore pgdir fdp (bytes32 (word_of_int fd0)) s) (\<lambda>s.
              andThen (ustore pgdir (fdp + 4) (bytes32 (word_of_int fd1)) s) (\<lambda>s. Inr (Ret 0, s)))) s))))"

end
