(* ===== verification/Exec.thy ===== *)
theory Exec
  imports SysFile
begin

unbundle bit_operations_syntax

text \<open>
  Program loading, \<^verbatim>\<open>exec.c\<close>, the system call \<open>exec\<close>, and the dispatch of system calls (\<open>syscall\<close> of
  \<^verbatim>\<open>syscall.c\<close>). The error exit \<^verbatim>\<open>bad:\<close> of \<open>exec\<close> frees the new page table if there is one and, while
  the inode is still held, releases it and ends the transaction.
\<close>

section \<open>The image\<close>

definition ELF_MAGIC :: uint where "ELF_MAGIC = 0x464C457F"
definition ELF_PROG_LOAD :: uint where "ELF_PROG_LOAD = 1"

text \<open>The fields of the ELF header (52 bytes) and of a program header (32 bytes) that are used.\<close>

definition elf_magic :: "uchar list \<Rightarrow> uint" where "elf_magic d = ld32 d 0"
definition elf_entry :: "uchar list \<Rightarrow> uint" where "elf_entry d = ld32 d 24"
definition elf_phoff :: "uchar list \<Rightarrow> uint" where "elf_phoff d = ld32 d 28"
definition elf_phnum :: "uchar list \<Rightarrow> ushort" where "elf_phnum d = ld16 d 44"

definition ph_type :: "uchar list \<Rightarrow> uint" where "ph_type d = ld32 d 0"
definition ph_off :: "uchar list \<Rightarrow> uint" where "ph_off d = ld32 d 4"
definition ph_vaddr :: "uchar list \<Rightarrow> uint" where "ph_vaddr d = ld32 d 8"
definition ph_filesz :: "uchar list \<Rightarrow> uint" where "ph_filesz d = ld32 d 16"
definition ph_memsz :: "uchar list \<Rightarrow> uint" where "ph_memsz d = ld32 d 20"

text \<open>
  The loop over the \<open>n\<close> program headers from offset \<open>off\<close> on: the size of the image, or \<open>None\<close> for
  \<^verbatim>\<open>goto bad\<close>.
\<close>

fun exec_load :: "nat \<Rightarrow> uint \<Rightarrow> nat \<Rightarrow> uint \<Rightarrow> uint \<Rightarrow> 'a cst_scheme \<Rightarrow> failure + uint option \<times> 'a cst_scheme" where
  "exec_load 0 off ip pgdir sz s = Inr (Some sz, s)"
| "exec_load (Suc n) off ip pgdir sz s =
     andThen (readi ip off 32 s) (\<lambda>((r, ph), s).
     if r \<noteq> 32 then Inr (None, s)
     else if ph_type ph \<noteq> ELF_PROG_LOAD then exec_load n (off + 32) ip pgdir sz s
     else if ph_memsz ph < ph_filesz ph then Inr (None, s)
     else if ph_vaddr ph + ph_memsz ph < ph_vaddr ph then Inr (None, s)
     else andThen (allocuvm pgdir sz (ph_vaddr ph + ph_memsz ph) s) (\<lambda>(sz, s).
       if sz = 0 then Inr (None, s)
       else if ph_vaddr ph mod PGSIZE \<noteq> 0 then Inr (None, s)
       else andThen (loaduvm pgdir (ph_vaddr ph) ip (ph_off ph) (ph_filesz ph) s) (\<lambda>(r, s).
         if r < 0 then Inr (None, s) else exec_load n (off + 32) ip pgdir sz s)))"

text \<open>
  The argument strings are pushed one after the other; the result has the stack pointer and the
  addresses of the strings so far.
\<close>

fun exec_args :: "nat \<Rightarrow> uchar list list \<Rightarrow> uint \<Rightarrow> uint \<Rightarrow> uint list \<Rightarrow> 'a kmst_scheme \<Rightarrow>
    failure + (uint \<times> uint list) option \<times> 'a kmst_scheme" where
  "exec_args argc [] pgdir sp ptrs s = Inr (Some (sp, ptrs), s)"
| "exec_args argc (arg # args) pgdir sp ptrs s =
     (if argc \<ge> MAXARG then Inr (None, s)
      else let sp = (sp - of_nat (length arg + 1)) AND NOT 3
           in andThen (copyout pgdir sp (arg @ [0]) s) (\<lambda>(r, s).
              if r < 0 then Inr (None, s)
              else exec_args (argc + 1) args pgdir sp (ptrs @ [sp]) s))"

definition exec_ustack :: "uint \<Rightarrow> uint list \<Rightarrow> uint list" where
  "exec_ustack sp ptrs = [0xFFFFFFFF, of_nat (length ptrs), sp - of_nat (length ptrs + 1) * 4] @ ptrs @ [0]"

text \<open>The last element of a path: \<open>last\<close> is moved behind every slash.\<close>

definition last_elem :: "uchar list \<Rightarrow> uchar list" where
  "last_elem path = rev (takeWhile (\<lambda>c. c \<noteq> slash) (rev path))"

definition exec_bad :: "uint \<Rightarrow> nat option \<Rightarrow> 'a ist_scheme \<Rightarrow> failure + int \<times> 'a ist_scheme" where
  "exec_bad pgdir ip s =
     andThen (if pgdir \<noteq> 0 then freevm pgdir s else Inr s) (\<lambda>s.
     case ip of None \<Rightarrow> Inr (-1, s)
     | Some ip \<Rightarrow> andThen (iunlockput ip s) (\<lambda>s. andThen (end_op s) (\<lambda>s. Inr (-1, s))))"

text \<open>The part of \<open>exec\<close> after the image is loaded and the inode released.\<close>

definition exec_commit :: "nat \<Rightarrow> uchar list \<Rightarrow> uint \<Rightarrow> uint \<Rightarrow> uint \<Rightarrow> uint \<Rightarrow> 'a pst_scheme \<Rightarrow> failure + int \<times> 'a pst_scheme" where
  "exec_commit p path pgdir sz entry sp s =
     (let s = upd_proc p (\<lambda>x. x\<lparr>p_name := copy_name (p_name x) (last_elem path @ [0])\<rparr>) s;
          oldpgdir = p_pgdir (ps_proc s ! p);
          s = upd_proc p (\<lambda>x. x\<lparr>p_pgdir := pgdir, p_sz := sz\<rparr>) s;
          s = mem_store (p_tf (ps_proc s ! p) + tf_eip) entry s;
          s = mem_store (p_tf (ps_proc s ! p) + tf_esp) sp s
      in andThen (switchuvm (Some p) s) (\<lambda>s.
         andThen (freevm oldpgdir s) (\<lambda>s. Inr (0, s))))"

definition exec_stack :: "nat option \<Rightarrow> uchar list \<Rightarrow> uchar list list \<Rightarrow> uint \<Rightarrow> uint \<Rightarrow> uint \<Rightarrow> 'a ist_scheme \<Rightarrow>
    failure + int \<times> 'a ist_scheme" where
  "exec_stack c path argv pgdir sz entry s =
     (let sz = PGROUNDUP sz
      in andThen (allocuvm pgdir sz (sz + 2 * PGSIZE) s) (\<lambda>(sz, s).
      if sz = 0 then exec_bad pgdir None s
      else andThen (clearpteu pgdir (sz - 2 * PGSIZE) s) (\<lambda>s.
        andThen (exec_args 0 argv pgdir sz [] s) (\<lambda>(r, s).
        case r of None \<Rightarrow> exec_bad pgdir None s
        | Some (sp, ptrs) \<Rightarrow>
            let sp' = sp - of_nat (length ptrs + 4) * 4
            in andThen (copyout pgdir sp' (concat (map bytes32 (exec_ustack sp ptrs))) s) (\<lambda>(r, s).
               if r < 0 then exec_bad pgdir None s
               else deref c (\<lambda>p. exec_commit p path pgdir sz entry sp' s))))))"

definition exec :: "uint \<Rightarrow> uchar list \<Rightarrow> uchar list list \<Rightarrow> 'a cst_scheme \<Rightarrow> failure + int \<times> 'a cst_scheme" where
  "exec vdata path argv s =
     andThen (myproc s) (\<lambda>(c, s).
     andThen (begin_op s) (\<lambda>s.
     andThen (namei path s) (\<lambda>(ip, s).
     case ip of
       None \<Rightarrow> andThen (end_op s) (\<lambda>s.
         andThen (cprintf (''exec: fail'' @ [CHR 0x0A]) [] s) (\<lambda>s. Inr (-1, s)))
     | Some ip \<Rightarrow> andThen (ilock (Some ip) s) (\<lambda>s.
         andThen (readi ip 0 52 s) (\<lambda>((r, elf), s).
         if r \<noteq> 52 then exec_bad 0 (Some ip) s
         else if elf_magic elf \<noteq> ELF_MAGIC then exec_bad 0 (Some ip) s
         else andThen (setupkvm vdata s) (\<lambda>(pgdir, s).
           if pgdir = 0 then exec_bad 0 (Some ip) s
           else andThen (exec_load (unat (elf_phnum elf)) (elf_phoff elf) ip pgdir 0 s) (\<lambda>(r, s).
             case r of None \<Rightarrow> exec_bad pgdir (Some ip) s
             | Some sz \<Rightarrow> andThen (iunlockput ip s) (\<lambda>s.
                 andThen (end_op s) (\<lambda>s.
                 exec_stack c path argv pgdir sz (elf_entry elf) s)))))))))"

section \<open>The system call\<close>

text \<open>
  The loop of \<open>sys_exec\<close> with \<open>n\<close> slots of \<open>argv\<close> left: the argument strings, or \<open>None\<close> for an error.
\<close>

fun fetch_argv :: "nat \<Rightarrow> uint \<Rightarrow> 'a pst_scheme \<Rightarrow> failure + uchar list list option \<times> 'a pst_scheme" where
  "fetch_argv 0 uargv s = Inr (None, s)"
| "fetch_argv (Suc n) uargv s =
     andThen (fetchint uargv s) (\<lambda>(uarg, s).
     case uarg of None \<Rightarrow> Inr (None, s)
     | Some uarg \<Rightarrow>
        if uarg = 0 then Inr (Some [], s)
        else andThen (fetchstr uarg s) (\<lambda>(arg, s).
          case arg of None \<Rightarrow> Inr (None, s)
          | Some arg \<Rightarrow> andThen (fetch_argv n (uargv + 4) s) (\<lambda>(args, s).
              Inr (map_option ((#) arg) args, s))))"

definition sys_exec :: "uint \<Rightarrow> 'a cst_scheme \<Rightarrow> failure + int ctl \<times> 'a cst_scheme" where
  "sys_exec vdata s =
     andThen (argstr 0 s) (\<lambda>(path, s).
     case path of None \<Rightarrow> Inr (Ret (-1), s)
     | Some path \<Rightarrow> andThen (argint 1 s) (\<lambda>(uargv, s).
        case uargv of None \<Rightarrow> Inr (Ret (-1), s)
        | Some uargv \<Rightarrow> andThen (fetch_argv MAXARG uargv s) (\<lambda>(argv, s).
            case argv of None \<Rightarrow> Inr (Ret (-1), s)
            | Some argv \<Rightarrow> returns (exec vdata path argv s))))"

section \<open>Dispatch\<close>

text \<open>The table \<open>syscalls\<close>, indexed by the numbers of \<^verbatim>\<open>syscall.h\<close>; entry 0 is empty.\<close>

definition syscalls :: "uint \<Rightarrow> ('a flst_scheme \<Rightarrow> failure + int ctl \<times> 'a flst_scheme) option list" where
  "syscalls vdata =
     [None, Some (sys_fork vdata), Some sys_exit, Some sys_wait, Some sys_pipe, Some sys_read, Some sys_kill,
      Some (sys_exec vdata), Some sys_fstat, Some sys_chdir, Some sys_dup, Some sys_getpid, Some sys_sbrk,
      Some sys_sleep, Some sys_uptime, Some sys_open, Some sys_write, Some sys_mknod, Some sys_unlink,
      Some sys_link, Some sys_mkdir, Some sys_close, Some sys_waitx, Some sys_set_priority, Some sys_get_ps]"

definition set_eax :: "nat \<Rightarrow> int \<Rightarrow> 'a pst_scheme \<Rightarrow> 'a pst_scheme" where
  "set_eax p r s = mem_store (p_tf (ps_proc s ! p) + tf_eax) (word_of_int r) s"

definition syscall :: "uint \<Rightarrow> 'a flst_scheme \<Rightarrow> failure + unit ctl \<times> 'a flst_scheme" where
  "syscall vdata s =
     andThen (myproc s) (\<lambda>(c, s). deref c (\<lambda>p.
     let num = sint (mem_load (p_tf (ps_proc s ! p) + tf_eax) s);
         entry = (if num > 0 \<and> num < int (length (syscalls vdata :: ('a flst_scheme \<Rightarrow> _) option list))
                  then syscalls vdata ! nat num else None)
     in case entry of
          Some f \<Rightarrow> andThen (f s) (\<lambda>(r, s).
            case r of Ret v \<Rightarrow> Inr (Ret (), set_eax p v s) | Off intena \<Rightarrow> Inr (Off intena, s))
        | None \<Rightarrow> andThen (cprintf (''%d %s: unknown sys call %d'' @ [CHR 0x0A])
              [PInt (p_pid (ps_proc s ! p)), PStr (Some (takeWhile (\<lambda>c. c \<noteq> 0) (p_name (ps_proc s ! p)))), PInt num] s)
            (\<lambda>s. Inr (Ret (), set_eax p (-1) s))))"

end
