(* ===== verification/Sched.thy ===== *)
theory Sched
  imports Proc
begin

unbundle bit_operations_syntax

text \<open>
  The four schedulers that the build selects between: round robin (\<^verbatim>\<open>RR.c\<close>), first come first
  served (\<^verbatim>\<open>FCFS.c\<close>), priorities (\<^verbatim>\<open>PBS.c\<close>) and multi-level feedback queues (\<^verbatim>\<open>MLFQ.c\<close>).

  What a process does between the switch to its context and the switch back to the scheduler is
  the argument \<open>run\<close>: any change of the state, or a failure. \<open>c\<close> is the index of the processor that
  runs the scheduler. The loops \<^verbatim>\<open>for(;;)\<close> never end; one iteration is a function, and the
  scheduler is its \<open>n\<close>-fold repetition.
\<close>

section \<open>Common parts\<close>

type_synonym 'a turn = "nat \<Rightarrow> 'a pst_scheme \<Rightarrow> failure + 'a pst_scheme"

definition set_cpu_proc :: "nat \<Rightarrow> nat option \<Rightarrow> 'a pst_scheme \<Rightarrow> 'a pst_scheme" where
  "set_cpu_proc c p s = upd_cpu c (\<lambda>x. x\<lparr>c_proc := p\<rparr>) s"

text \<open>From \<^verbatim>\<open>c->proc = p\<close> to \<^verbatim>\<open>switchkvm()\<close>.\<close>

definition dispatch :: "'a turn \<Rightarrow> nat \<Rightarrow> nat \<Rightarrow> 'a pst_scheme \<Rightarrow> failure + 'a pst_scheme" where
  "dispatch run c p s =
     (let s = set_cpu_proc c (Some p) s
      in andThen (switchuvm (Some p) s) (\<lambda>s.
      let s = upd_proc p (\<lambda>x. x\<lparr>p_state := RUNNING, p_n_run := p_n_run x + 1\<rparr>) s
      in andThen (run p s) switchkvm))"

definition scheduler_enter :: "'a pst_scheme \<Rightarrow> failure + nat \<times> 'a pst_scheme" where
  "scheduler_enter s = andThen (mycpu s) (\<lambda>c. Inr (c, set_cpu_proc c None s))"

section \<open>Round robin\<close>

fun rr_scan :: "'a turn \<Rightarrow> nat \<Rightarrow> nat list \<Rightarrow> 'a pst_scheme \<Rightarrow> failure + 'a pst_scheme" where
  "rr_scan run c [] s = Inr s"
| "rr_scan run c (p # ps) s =
     (if p_state (ps_proc s ! p) \<noteq> RUNNABLE then rr_scan run c ps s
      else andThen (dispatch run c p s) (\<lambda>s. rr_scan run c ps (set_cpu_proc c None s)))"

definition rr_iter :: "'a turn \<Rightarrow> nat \<Rightarrow> 'a pst_scheme \<Rightarrow> failure + 'a pst_scheme" where
  "rr_iter run c s =
     andThen (acquire PTABLE (sti s)) (\<lambda>s.
     andThen (rr_scan run c [0..<length (ps_proc s)] s) (release PTABLE))"

definition rr_scheduler :: "nat \<Rightarrow> 'a turn \<Rightarrow> 'a pst_scheme \<Rightarrow> failure + 'a pst_scheme" where
  "rr_scheduler n run s = andThen (scheduler_enter s) (\<lambda>(c, s). times n (rr_iter run c) s)"

section \<open>First come first served\<close>

fun fcfs_scan :: "proc list \<Rightarrow> nat list \<Rightarrow> int \<times> nat option \<Rightarrow> int \<times> nat option" where
  "fcfs_scan ps [] acc = acc"
| "fcfs_scan ps (i # is) (m, p) =
     fcfs_scan ps is (if p_state (ps ! i) = RUNNABLE \<and> p_ctime (ps ! i) < m
                      then (p_ctime (ps ! i), Some i) else (m, p))"

definition fcfs_pick :: "proc list \<Rightarrow> nat option" where
  "fcfs_pick ps = snd (fcfs_scan ps [0..<length ps] (1000000000, None))"

definition fcfs_iter :: "'a turn \<Rightarrow> nat \<Rightarrow> 'a pst_scheme \<Rightarrow> failure + 'a pst_scheme" where
  "fcfs_iter run c s =
     andThen (acquire PTABLE (sti s)) (\<lambda>s.
     andThen (case fcfs_pick (ps_proc s) of
         None \<Rightarrow> Inr s
       | Some p \<Rightarrow> andThen (dispatch run c p s) (\<lambda>s. Inr (set_cpu_proc c None s))) (release PTABLE))"

definition fcfs_scheduler :: "nat \<Rightarrow> 'a turn \<Rightarrow> 'a pst_scheme \<Rightarrow> failure + 'a pst_scheme" where
  "fcfs_scheduler n run s = andThen (scheduler_enter s) (\<lambda>(c, s). times n (fcfs_iter run c) s)"

section \<open>Priorities\<close>

fun min_prio_scan :: "proc list \<Rightarrow> int \<Rightarrow> int" where
  "min_prio_scan [] m = m"
| "min_prio_scan (p # ps) m =
     min_prio_scan ps (if p_state p = RUNNABLE \<and> p_priority p < m then p_priority p else m)"

definition getMinPrio :: "'a pst_scheme \<Rightarrow> int" where
  "getMinPrio s = min_prio_scan (ps_proc s) 101"

fun pbs_scan :: "'a turn \<Rightarrow> nat \<Rightarrow> nat list \<Rightarrow> int \<Rightarrow> 'a pst_scheme \<Rightarrow> failure + 'a pst_scheme" where
  "pbs_scan run c [] currMinPrio s = Inr s"
| "pbs_scan run c (p # ps) currMinPrio s =
     (if p_state (ps_proc s ! p) = RUNNABLE \<and> p_priority (ps_proc s ! p) = currMinPrio
      then andThen (dispatch run c p s) (\<lambda>s.
        let s = set_cpu_proc c None s in pbs_scan run c ps (getMinPrio s) s)
      else pbs_scan run c ps currMinPrio s)"

definition pbs_iter :: "'a turn \<Rightarrow> nat \<Rightarrow> 'a pst_scheme \<Rightarrow> failure + 'a pst_scheme" where
  "pbs_iter run c s =
     andThen (acquire PTABLE (sti s)) (\<lambda>s.
     andThen (pbs_scan run c [0..<length (ps_proc s)] (getMinPrio s) s) (release PTABLE))"

definition pbs_scheduler :: "nat \<Rightarrow> 'a turn \<Rightarrow> 'a pst_scheme \<Rightarrow> failure + 'a pst_scheme" where
  "pbs_scheduler n run s = andThen (scheduler_enter s) (\<lambda>(c, s). times n (pbs_iter run c) s)"

section \<open>Multi-level feedback queues\<close>

fun mlfq_scan :: "int \<Rightarrow> proc list \<Rightarrow> nat list \<Rightarrow> int \<times> nat option \<Rightarrow> int \<times> nat option" where
  "mlfq_scan lvl ps [] acc = acc"
| "mlfq_scan lvl ps (i # is) (min_toe, p) =
     mlfq_scan lvl ps is
       (if p_state (ps ! i) = RUNNABLE \<and> p_cur_q (ps ! i) = lvl \<and> p_toe (ps ! i) < min_toe
        then (p_toe (ps ! i), Some i) else (min_toe, p))"

definition mlfq_pick :: "int \<Rightarrow> proc list \<Rightarrow> nat option" where
  "mlfq_pick lvl ps = snd (mlfq_scan lvl ps [0..<length ps] (1000000000, None))"

fun mlfq_search :: "int list \<Rightarrow> proc list \<Rightarrow> (int \<times> nat) option" where
  "mlfq_search [] ps = None"
| "mlfq_search (lvl # lvls) ps =
     (case mlfq_pick lvl ps of None \<Rightarrow> mlfq_search lvls ps | Some p \<Rightarrow> Some (lvl, p))"

definition mlfq_demote :: "proc \<Rightarrow> proc" where
  "mlfq_demote p =
     (if p_ticks p = 0
      then if p_state p = ZOMBIE then p\<lparr>p_cur_q := -1\<rparr>
           else if p_cur_q p \<noteq> 4 then p\<lparr>p_cur_q := p_cur_q p + 1\<rparr> else p
      else p)"

text \<open>The comparison of the waiting time is unsigned: \<open>ticks\<close> is a \<open>uint\<close>.\<close>

definition mlfq_age1 :: "uint \<Rightarrow> proc \<Rightarrow> proc" where
  "mlfq_age1 ticks p =
     (if p_state p = RUNNABLE \<and> ticks - word_of_int (p_toe p) > word_of_int (2 ^ nat (p_cur_q p + 4))
      then p\<lparr>p_cur_q := (if p_cur_q p - 1 < 0 then 0 else p_cur_q p - 1), p_toe := sint ticks\<rparr>
      else p)"

definition mlfq_turn :: "'a turn \<Rightarrow> nat \<Rightarrow> int \<times> nat \<Rightarrow> 'a pst_scheme \<Rightarrow> failure + 'a pst_scheme" where
  "mlfq_turn run c lp s = (case lp of (lvl, p) \<Rightarrow>
     let s = set_cpu_proc c (Some p) s
     in andThen (switchuvm (Some p) s) (\<lambda>s.
     let s = upd_proc p (\<lambda>x. x\<lparr>p_ticks := 2 ^ nat lvl, p_state := RUNNING, p_n_run := p_n_run x + 1\<rparr>) s
     in andThen (run p s) (\<lambda>s.
     andThen (switchkvm s) (\<lambda>s.
     let s = upd_proc p mlfq_demote s
     in Inr (s\<lparr>ps_proc := map (mlfq_age1 (ps_ticks s)) (ps_proc s)\<rparr>)))))"

text \<open>
  The loop over the levels starts again after every turn and ends when no level has a process;
  \<open>fuel\<close> bounds the number of turns, and the flag says whether the loop has ended.
\<close>

fun mlfq_loop :: "nat \<Rightarrow> 'a turn \<Rightarrow> nat \<Rightarrow> 'a pst_scheme \<Rightarrow> failure + bool \<times> 'a pst_scheme" where
  "mlfq_loop fuel run c s = (case mlfq_search [0, 1, 2, 3, 4] (ps_proc s) of
       None \<Rightarrow> Inr (True, s)
     | Some lp \<Rightarrow> (case fuel of 0 \<Rightarrow> Inr (False, s)
         | Suc n \<Rightarrow> andThen (mlfq_turn run c lp s) (mlfq_loop n run c)))"

definition mlfq_iter :: "nat \<Rightarrow> 'a turn \<Rightarrow> nat \<Rightarrow> 'a pst_scheme \<Rightarrow> failure + bool \<times> 'a pst_scheme" where
  "mlfq_iter fuel run c s =
     andThen (acquire PTABLE (sti s)) (\<lambda>s.
     andThen (mlfq_loop fuel run c s) (\<lambda>(fin, s).
     if fin then andThen (release PTABLE s) (\<lambda>s. Inr (True, s)) else Inr (False, s)))"

section \<open>Which process is chosen\<close>

text \<open>
  The three scans compute a minimum: the first index among the eligible processes with the least
  key, provided the key is below the initial bound.
\<close>

definition least_index :: "(proc \<Rightarrow> bool) \<Rightarrow> (proc \<Rightarrow> int) \<Rightarrow> proc list \<Rightarrow> nat \<Rightarrow> bool" where
  "least_index ok key ps p \<longleftrightarrow> p < length ps \<and> ok (ps ! p)
     \<and> (\<forall>q<length ps. ok (ps ! q) \<longrightarrow> key (ps ! p) \<le> key (ps ! q)
          \<and> (q < p \<longrightarrow> key (ps ! p) < key (ps ! q)))"

fun min_scan :: "(proc \<Rightarrow> bool) \<Rightarrow> (proc \<Rightarrow> int) \<Rightarrow> proc list \<Rightarrow> nat list \<Rightarrow> int \<times> nat option \<Rightarrow> int \<times> nat option" where
  "min_scan ok key ps [] acc = acc"
| "min_scan ok key ps (i # is) (m, p) = min_scan ok key ps is
     (if ok (ps ! i) \<and> key (ps ! i) < m then (key (ps ! i), Some i) else (m, p))"

lemma fcfs_scan_min: "fcfs_scan ps is acc = min_scan (\<lambda>p. p_state p = RUNNABLE) p_ctime ps is acc"
  by (induction ps "is" acc rule: fcfs_scan.induct) simp_all

lemma mlfq_scan_min:
  "mlfq_scan lvl ps is acc = min_scan (\<lambda>p. p_state p = RUNNABLE \<and> p_cur_q p = lvl) p_toe ps is acc"
  by (induction lvl ps "is" acc rule: mlfq_scan.induct) simp_all

text \<open>The state of the scan after the first \<open>n\<close> slots.\<close>

definition min_inv :: "(proc \<Rightarrow> bool) \<Rightarrow> (proc \<Rightarrow> int) \<Rightarrow> proc list \<Rightarrow> int \<Rightarrow> nat \<Rightarrow> int \<times> nat option \<Rightarrow> bool" where
  "min_inv ok key ps b n acc = (case acc of
       (m, None) \<Rightarrow> m = b \<and> (\<forall>q<n. ok (ps ! q) \<longrightarrow> b \<le> key (ps ! q))
     | (m, Some p) \<Rightarrow> p < n \<and> ok (ps ! p) \<and> m = key (ps ! p) \<and> m < b
         \<and> (\<forall>q<n. ok (ps ! q) \<longrightarrow> m \<le> key (ps ! q) \<and> (q < p \<longrightarrow> m < key (ps ! q))))"

lemma min_scan_inv:
  "min_inv ok key ps b n acc \<Longrightarrow> min_inv ok key ps b (n + k) (min_scan ok key ps [n..<n + k] acc)"
proof (induction k arbitrary: n acc)
  case (Suc k)
  obtain m p where acc: "acc = (m, p)" by (cases acc)
  let ?acc = "if ok (ps ! n) \<and> key (ps ! n) < m then (key (ps ! n), Some n) else (m, p)"
  have "min_inv ok key ps b (Suc n) ?acc"
    using Suc.prems unfolding acc min_inv_def
    by (cases p) (auto simp: less_Suc_eq)
  from Suc.IH [OF this] show ?case
    by (simp add: acc upt_conv_Cons del: upt_Suc)
qed simp

lemma min_scan_result:
  "case snd (min_scan ok key ps [0..<length ps] (b, None)) of
     Some p \<Rightarrow> least_index ok key ps p \<and> key (ps ! p) < b
   | None \<Rightarrow> \<forall>q<length ps. ok (ps ! q) \<longrightarrow> b \<le> key (ps ! q)"
  using min_scan_inv [of ok key ps b 0 "(b, None)" "length ps"]
  by (auto simp: min_inv_def least_index_def split: option.splits prod.splits)

lemma mlfq_pick_cases:
  "case mlfq_pick lvl ps of
     Some p \<Rightarrow> least_index (\<lambda>p. p_state p = RUNNABLE \<and> p_cur_q p = lvl) p_toe ps p
   | None \<Rightarrow> \<forall>q<length ps. p_state (ps ! q) = RUNNABLE \<and> p_cur_q (ps ! q) = lvl \<longrightarrow> 1000000000 \<le> p_toe (ps ! q)"
  using min_scan_result [where ok = "\<lambda>p. p_state p = RUNNABLE \<and> p_cur_q p = lvl" and key = p_toe
      and ps = ps and b = 1000000000]
  by (auto simp: mlfq_pick_def mlfq_scan_min split: option.splits)

lemma mlfq_search_SomeD:
  "mlfq_search lvls ps = Some (l, p) \<Longrightarrow> sorted lvls \<Longrightarrow> l \<in> set lvls \<and> mlfq_pick l ps = Some p
     \<and> (\<forall>l'\<in>set lvls. l' < l \<longrightarrow> mlfq_pick l' ps = None)"
  by (induction lvls) (auto split: option.splits)

lemma mlfq_search_NoneD: "mlfq_search lvls ps = None \<Longrightarrow> \<forall>l\<in>set lvls. mlfq_pick l ps = None"
  by (induction lvls) (auto split: option.splits)

lemma level_cases: "0 \<le> (l :: int) \<Longrightarrow> l \<le> 4 \<Longrightarrow> l \<in> set [0, 1, 2, 3, 4]"
  by auto

lemma Min_insert2: "finite A \<Longrightarrow> Min (insert m (insert x A)) = Min (insert (min m x) A)"
  for m :: int
  by (cases "A = {}") (simp_all add: min.assoc)

lemma min_prio_scan_eq: "min_prio_scan ps m = Min (insert m {p_priority p |p. p \<in> set ps \<and> p_state p = RUNNABLE})"
proof (induction ps arbitrary: m)
  case (Cons p ps)
  let ?A = "{p_priority p |p. p \<in> set ps \<and> p_state p = RUNNABLE}"
  have f: "finite ?A" by simp
  have A: "{p_priority q |q. q \<in> set (p # ps) \<and> p_state q = RUNNABLE}
      = (if p_state p = RUNNABLE then insert (p_priority p) ?A else ?A)"
    by auto
  show ?case
  proof (cases "p_state p = RUNNABLE")
    case True
    have "Min (insert m (insert (p_priority p) ?A)) = Min (insert (min m (p_priority p)) ?A)"
      using f by (rule Min_insert2)
    then show ?thesis unfolding A using True Cons.IH by (auto simp: min_def)
  next
    case False
    then show ?thesis unfolding A using Cons.IH by simp
  qed
qed simp

section \<open>Turns\<close>

text \<open>
  The scheduler's context: it executes on processor \<open>c\<close>, holds the process table lock and no
  other, with interrupts off. A runnable or sleeping process has a kernel stack and a page directory.
\<close>

definition sched_ctx :: "'a pst_scheme \<Rightarrow> nat \<Rightarrow> bool" where
  "sched_ctx s c \<longleftrightarrow> here s c \<and> cli_ok s c \<and> c_ncli (k_cpus s ! c) = 1 \<and> holds s PTABLE c"

definition tasks_ok :: "'a pst_scheme \<Rightarrow> bool" where
  "tasks_ok s \<longleftrightarrow> (\<forall>p<length (ps_proc s). p_state (ps_proc s ! p) \<in> {RUNNABLE, SLEEPING} \<longrightarrow>
     p_kstack (ps_proc s ! p) \<noteq> 0 \<and> p_pgdir (ps_proc s ! p) \<noteq> 0)"

text \<open>
  What the scheduler relies on of a process's turn: it ends, back in the scheduler's context; it
  dispatches nobody and leaves the other runnable processes runnable.
\<close>

definition turn_ok :: "'a turn \<Rightarrow> nat \<Rightarrow> bool" where
  "turn_ok run c \<longleftrightarrow> (\<forall>p s. sched_ctx s c \<and> tasks_ok s \<and> p < length (ps_proc s)
      \<and> c_proc (k_cpus s ! c) = Some p \<and> p_state (ps_proc s ! p) = RUNNING
      \<and> p_kstack (ps_proc s ! p) \<noteq> 0 \<and> p_pgdir (ps_proc s ! p) \<noteq> 0 \<longrightarrow>
    (\<exists>t. run p s = Inr t \<and> sched_ctx t c \<and> tasks_ok t \<and> c_proc (k_cpus t ! c) = Some p
      \<and> length (ps_proc t) = length (ps_proc s)
      \<and> (\<forall>q<length (ps_proc s). p_n_run (ps_proc t ! q) = p_n_run (ps_proc s ! q)
           \<and> (q \<noteq> p \<and> p_state (ps_proc s ! q) = RUNNABLE \<longrightarrow> p_state (ps_proc t ! q) = RUNNABLE))))"

lemma sched_ctx_upd_cpu:
  assumes "\<And>x. c_apicid (f x) = c_apicid x" "\<And>x. c_ncli (f x) = c_ncli x"
  shows "sched_ctx (upd_cpu c f s) c = sched_ctx s c"
proof (cases "c < length (k_cpus s)")
  case True
  then show ?thesis
    using assms first_index_apicid_update [OF True, of "f (k_cpus s ! c)" "k_me s"]
    by (simp add: sched_ctx_def here_def cli_ok_def holds_def upd_cpu_def)
next
  case False
  then show ?thesis by (simp add: upd_cpu_def list_update_beyond)
qed

lemma sched_ctx_more [simp]:
  "sched_ctx (upd_proc p f s) c = sched_ctx s c" "sched_ctx (s\<lparr>ps_proc := ps\<rparr>) c = sched_ctx s c"
  "sched_ctx (set_cpu_proc c q s) c = sched_ctx s c"
  by (simp add: sched_ctx_def holds_def, simp add: sched_ctx_def here_def cli_ok_def holds_def,
      unfold set_cpu_proc_def, rule sched_ctx_upd_cpu, simp_all)

lemma upd_cpu_ps [simp]: "ps_proc (upd_cpu c f s) = ps_proc s" "ps_ticks (upd_cpu c f s) = ps_ticks s"
    "ps_proc (set_cpu_proc c q s) = ps_proc s" "ps_ticks (set_cpu_proc c q s) = ps_ticks s"
  by (simp_all add: upd_cpu_def set_cpu_proc_def)

lemma switchuvm_eq:
  assumes "sched_ctx s c" and "p_kstack (ps_proc s ! p) \<noteq> 0" and "p_pgdir (ps_proc s ! p) \<noteq> 0"
  shows "switchuvm (Some p) s = Inr (upd_cpu c (\<lambda>x. x\<lparr>c_esp0 := p_kstack (ps_proc s ! p) + KSTACKSIZE,
           c_cr3 := V2P (p_pgdir (ps_proc s ! p))\<rparr>) s)"
proof -
  let ?f = "\<lambda>x. x\<lparr>c_esp0 := p_kstack (ps_proc s ! p) + KSTACKSIZE, c_cr3 := V2P (p_pgdir (ps_proc s ! p))\<rparr>"
  have h: "here s c" "\<not> k_if s (k_me s)" "c_ncli (k_cpus s ! c) = 1" "c < length (k_cpus s)"
    using assms(1) here_less [of s c] by (auto simp: sched_ctx_def cli_ok_def)
  have "here (upd_cpu c ?f (pushed c s)) c"
    using h here_pushed [OF h(1)]
    by (auto simp: here_def upd_cpu_def pushed_def first_index_apicid_update)
  then have p1: "popcli (upd_cpu c ?f (pushed c s)) = Inr (popped c (upd_cpu c ?f (pushed c s)))"
    using h by (intro popcli_popped) (auto simp: upd_cpu_def pushed_def)
  have same: "(k_cpus s ! c)\<lparr>c_esp0 := a, c_cr3 := b, c_ncli := 1\<rparr>
      = (k_cpus s ! c)\<lparr>c_esp0 := a, c_cr3 := b\<rparr>" for a b
    using h(3) by (cases "k_cpus s ! c") simp
  have "popped c (upd_cpu c ?f (pushed c s)) = upd_cpu c ?f s"
    using h by (simp add: popped_def upd_cpu_def pushed_def fun_upd_idem same)
  then have pop: "popcli (upd_cpu c ?f (pushed c s)) = Inr (upd_cpu c ?f s)" using p1 by simp
  have "mycpu (pushed c s) = Inr c" using h by (simp add: mycpu_here)
  moreover have "ps_proc (pushed c s) = ps_proc s" by (simp add: pushed_def)
  ultimately show ?thesis using assms(2,3) pop pushcli_pushed [OF h(1)] by (simp add: switchuvm_def)
qed

lemma switchkvm_eq:
  "sched_ctx s c \<Longrightarrow> switchkvm s = Inr (upd_cpu c (\<lambda>x. x\<lparr>c_cr3 := V2P (ps_kpgdir s)\<rparr>) s)"
  using mycpu_here [of s c] by (auto simp: switchkvm_def sched_ctx_def cli_ok_def)

lemma turn_okD:
  assumes "turn_ok run c" and "sched_ctx s c" "tasks_ok s" "p < length (ps_proc s)"
    "c_proc (k_cpus s ! c) = Some p" "p_state (ps_proc s ! p) = RUNNING"
    "p_kstack (ps_proc s ! p) \<noteq> 0" "p_pgdir (ps_proc s ! p) \<noteq> 0"
  obtains t where "run p s = Inr t" "sched_ctx t c" "tasks_ok t" "c_proc (k_cpus t ! c) = Some p"
    "length (ps_proc t) = length (ps_proc s)"
    "\<And>q. q < length (ps_proc s) \<Longrightarrow> p_n_run (ps_proc t ! q) = p_n_run (ps_proc s ! q)"
    "\<And>q. q < length (ps_proc s) \<Longrightarrow> q \<noteq> p \<Longrightarrow> p_state (ps_proc s ! q) = RUNNABLE \<Longrightarrow>
       p_state (ps_proc t ! q) = RUNNABLE"
  using assms unfolding turn_ok_def by blast

text \<open>One dispatch: it returns, in the scheduler's context, and has run exactly \<open>p\<close>.\<close>

lemma dispatch_ok:
  assumes run: "turn_ok run c" and ctx: "sched_ctx s c" "tasks_ok s" "p < length (ps_proc s)"
    and r: "p_state (ps_proc s ! p) = RUNNABLE"
  obtains t where "dispatch run c p s = Inr t" "sched_ctx t c" "tasks_ok t"
    "c_proc (k_cpus t ! c) = Some p" "length (ps_proc t) = length (ps_proc s)"
    "\<And>q. q < length (ps_proc s) \<Longrightarrow>
       p_n_run (ps_proc t ! q) = p_n_run (ps_proc s ! q) + (if q = p then 1 else 0)"
    "\<And>q. q < length (ps_proc s) \<Longrightarrow> q \<noteq> p \<Longrightarrow> p_state (ps_proc s ! q) = RUNNABLE \<Longrightarrow>
       p_state (ps_proc t ! q) = RUNNABLE"
proof -
  have kp: "p_kstack (ps_proc s ! p) \<noteq> 0" "p_pgdir (ps_proc s ! p) \<noteq> 0"
    using ctx r by (auto simp: tasks_ok_def)
  have len: "c < length (k_cpus s)" using ctx(1) by (auto simp: sched_ctx_def here_less)
  let ?s0 = "set_cpu_proc c (Some p) s"
  let ?s1 = "upd_cpu c (\<lambda>x. x\<lparr>c_esp0 := p_kstack (ps_proc s ! p) + KSTACKSIZE,
           c_cr3 := V2P (p_pgdir (ps_proc s ! p))\<rparr>) ?s0"
  let ?s2 = "upd_proc p (\<lambda>x. x\<lparr>p_state := RUNNING, p_n_run := p_n_run x + 1\<rparr>) ?s1"
  have sw: "switchuvm (Some p) ?s0 = Inr ?s1"
    using switchuvm_eq [of ?s0 c p] ctx(1) kp by simp
  have c2: "sched_ctx ?s2 c" using ctx(1) by (simp add: sched_ctx_upd_cpu)
  have t2: "tasks_ok ?s2" using ctx(2,3) by (auto simp: tasks_ok_def nth_upd_proc)
  have p2: "c_proc (k_cpus ?s2 ! c) = Some p" "p_state (ps_proc ?s2 ! p) = RUNNING"
      "p_kstack (ps_proc ?s2 ! p) \<noteq> 0" "p_pgdir (ps_proc ?s2 ! p) \<noteq> 0"
    using len ctx(3) kp by (simp_all add: nth_upd_proc) (simp add: upd_cpu_def set_cpu_proc_def)
  obtain t where t: "run p ?s2 = Inr t" "sched_ctx t c" "tasks_ok t" "c_proc (k_cpus t ! c) = Some p"
      "length (ps_proc t) = length (ps_proc s)"
      "\<And>q. q < length (ps_proc s) \<Longrightarrow> p_n_run (ps_proc t ! q) = p_n_run (ps_proc ?s2 ! q)"
      "\<And>q. q < length (ps_proc s) \<Longrightarrow> q \<noteq> p \<Longrightarrow> p_state (ps_proc ?s2 ! q) = RUNNABLE \<Longrightarrow>
         p_state (ps_proc t ! q) = RUNNABLE"
    using turn_okD [OF run c2 t2 _ p2] ctx(3) by auto
  let ?t = "upd_cpu c (\<lambda>x. x\<lparr>c_cr3 := V2P (ps_kpgdir t)\<rparr>) t"
  have "dispatch run c p s = Inr ?t"
    using sw t(1) switchkvm_eq [OF t(2)] by (simp add: dispatch_def Let_def)
  moreover have "c < length (k_cpus t)" using t(2) by (auto simp: sched_ctx_def here_less)
  then have "c_proc (k_cpus ?t ! c) = Some p" using t(4) by (simp add: upd_cpu_def)
  moreover have "sched_ctx ?t c" "tasks_ok ?t"
    using t(2,3) by (simp_all add: sched_ctx_upd_cpu tasks_ok_def)
  ultimately show ?thesis
    using t(5-7) ctx(3) by (intro that [of ?t]) (simp_all add: nth_upd_proc)
qed

text \<open>A turn made of the kernel's own code: the process comes back from \<open>yield\<close> and yields again.\<close>

definition yield_turn :: "'a turn" where
  "yield_turn p s = andThen (yield_on True s) (\<lambda>s. andThen (yield_off s) (\<lambda>(intena, s). Inr s))"

lemma yield_turn_eq:
  assumes ctx: "sched_ctx s c" and p: "c_proc (k_cpus s ! c) = Some p" "p < length (ps_proc s)"
  obtains t where "yield_turn p s = Inr t" "sched_ctx t c" "c_proc (k_cpus t ! c) = Some p"
    "ps_proc t = (ps_proc s)[p := (ps_proc s ! p)\<lparr>p_toe := sint (ps_ticks s), p_state := RUNNABLE\<rparr>]"
proof -
  let ?s1 = "upd_cpu c (\<lambda>x. x\<lparr>c_intena := True\<rparr>) s"
  let ?s2 = "dropped c PTABLE ?s1"
  let ?s3 = "taken c PTABLE ?s2"
  let ?s4 = "upd_proc p (\<lambda>x. x\<lparr>p_state := RUNNABLE\<rparr>) (upd_proc p (\<lambda>x. x\<lparr>p_toe := sint (ps_ticks s)\<rparr>) ?s3)"
  have h: "here s c" "c < length (k_cpus s)" "c_ncli (k_cpus s ! c) = 1" "\<not> k_if s (k_me s)"
    using ctx here_less by (auto simp: sched_ctx_def cli_ok_def)
  have "sched_ctx ?s1 c" using ctx by (simp add: sched_ctx_upd_cpu)
  then have h1: "here ?s1 c" "cli_ok ?s1 c" "c_ncli (k_cpus ?s1 ! c) = 1" "holds ?s1 PTABLE c"
    by (auto simp: sched_ctx_def)
  have "yield_on True s = Inr ?s2"
    using mycpu_here [OF h(1,4)] release_eq [OF h1(1,2), of PTABLE] h1(3,4)
    by (simp add: yield_on_def sched_on_def)
  moreover have h2: "here ?s2 c" "cli_ok ?s2 c" "l_locked (k_locks ?s2 PTABLE) = 0" "c < length (k_cpus ?s2)"
      "c_ncli (k_cpus ?s2 ! c) = 0" "c_proc (k_cpus ?s2 ! c) = Some p"
    using h1 h p(1) here_dropped [OF h1(1)]
    by (simp_all add: cli_ok_def, simp_all add: dropped_def popped_def upd_lock_def upd_cpu_def)
  then have "acquire PTABLE ?s2 = Inr ?s3" by (intro acquire_free)
  moreover have h3: "here ?s3 c" "cli_ok ?s3 c" "c_ncli (k_cpus ?s3 ! c) = 1" "holds ?s3 PTABLE c"
      "c_proc (k_cpus ?s3 ! c) = Some p"
    using h2 by (simp_all add: cli_ok_taken ncli_taken) (simp add: taken_def upd_lock_def pushed_def)
  then have "myproc t = Inr (Some p, t)"
    if "k_cpus t = k_cpus ?s3" "k_me t = k_me ?s3" "k_if t = k_if ?s3" "k_locks t = k_locks ?s3"
    for t :: "'a pst_scheme"
    using myproc_eq [of t c] probed_nested [of t c] that by (simp add: here_def cli_ok_def)
  moreover have ps3: "ps_proc ?s3 = ps_proc s" "ps_ticks ?s3 = ps_ticks s"
    by (simp_all add: dropped_def popped_def upd_lock_def)
  moreover have "sched_off ?s4 = Inr (c_intena (k_cpus ?s4 ! c), ?s4)"
    using h3 p(2) ps3
    by (intro sched_off_eq) (simp_all add: holds_def, simp add: upd_proc_def)
  ultimately have "yield_turn p s = Inr ?s4"
    by (simp add: yield_turn_def yield_off_def deref_def Let_def)
  moreover have "sched_ctx ?s4 c" using h3 by (simp add: sched_ctx_def)
  moreover have "ps_proc ?s4 = (ps_proc s)[p := (ps_proc s ! p)\<lparr>p_toe := sint (ps_ticks s), p_state := RUNNABLE\<rparr>]"
    using ps3 p(2) by (simp add: upd_proc_def)
  ultimately show ?thesis using h3(5) by (intro that) simp_all
qed

lemma yield_turn_ok: "turn_ok yield_turn c"
  unfolding turn_ok_def
proof (intro allI impI, elim conjE)
  fix p and s :: "'a pst_scheme"
  assume a: "sched_ctx s c" "tasks_ok s" "p < length (ps_proc s)" "c_proc (k_cpus s ! c) = Some p"
    "p_kstack (ps_proc s ! p) \<noteq> 0" "p_pgdir (ps_proc s ! p) \<noteq> 0"
  obtain t where t: "yield_turn p s = Inr t" "sched_ctx t c" "c_proc (k_cpus t ! c) = Some p"
    "ps_proc t = (ps_proc s)[p := (ps_proc s ! p)\<lparr>p_toe := sint (ps_ticks s), p_state := RUNNABLE\<rparr>]"
    using yield_turn_eq [OF a(1,4,3)] .
  have "tasks_ok t" using a by (auto simp: tasks_ok_def t(4) nth_list_update)
  then show "\<exists>t. yield_turn p s = Inr t \<and> sched_ctx t c \<and> tasks_ok t \<and> c_proc (k_cpus t ! c) = Some p
      \<and> length (ps_proc t) = length (ps_proc s)
      \<and> (\<forall>q<length (ps_proc s). p_n_run (ps_proc t ! q) = p_n_run (ps_proc s ! q)
           \<and> (q \<noteq> p \<and> p_state (ps_proc s ! q) = RUNNABLE \<longrightarrow> p_state (ps_proc t ! q) = RUNNABLE))"
    using t a(3) by (intro exI [of _ t]) (auto simp: nth_list_update)
qed

section \<open>Turns of the kernel's own operations\<close>

text \<open>
  What a process does in its turn, made of the kernel's own operations: it comes back from \<open>yield\<close>, or from the
  \<open>sleep\<close> that it entered with the process table lock as \<open>wait\<close> does; then it computes, which changes memory, and
  calls \<open>kill\<close>, \<open>wakeup\<close> and \<open>set_priority\<close> as often as it likes; and in the end it gives up the processor in
  \<open>yield\<close> or in such a \<open>sleep\<close>. What it does may depend on the whole state.
\<close>

datatype kcall = Do_compute "memory \<Rightarrow> memory" | Do_kill int | Do_wakeup channel | Do_set_priority int int

datatype leave = By_yield | By_sleep channel

fun kcalls :: "kcall list \<Rightarrow> 'a pst_scheme \<Rightarrow> failure + 'a pst_scheme" where
  "kcalls [] s = Inr s"
| "kcalls (Do_compute f # cs) s = kcalls cs (s\<lparr>km_mem := f (km_mem s)\<rparr>)"
| "kcalls (Do_kill pid # cs) s = andThen (kill pid s) (\<lambda>(r, s). kcalls cs s)"
| "kcalls (Do_wakeup ch # cs) s = andThen (wakeup ch s) (kcalls cs)"
| "kcalls (Do_set_priority prio pid # cs) s = andThen (set_priority prio pid s) (\<lambda>(r, s). kcalls cs s)"

definition come_back :: "nat \<Rightarrow> 'a pst_scheme \<Rightarrow> failure + 'a pst_scheme" where
  "come_back p s =
     (if p_chan (ps_proc s ! p) = None then yield_on True s
      else andThen (sleep_on p PTABLE True s) (release PTABLE))"

fun give_up :: "leave \<Rightarrow> 'a pst_scheme \<Rightarrow> failure + 'a pst_scheme" where
  "give_up By_yield s = andThen (yield_off s) (\<lambda>(intena, s). Inr s)"
| "give_up (By_sleep ch) s = andThen (acquire PTABLE s) (\<lambda>s.
     andThen (sleep_off ch (Some PTABLE) s) (\<lambda>(intena, s). Inr s))"

definition kernel_turn :: "(nat \<Rightarrow> 'a pst_scheme \<Rightarrow> kcall list \<times> leave) \<Rightarrow> 'a turn" where
  "kernel_turn prog p s = andThen (come_back p s) (\<lambda>s. case prog p s of (cs, l) \<Rightarrow> andThen (kcalls cs s) (give_up l))"

definition user_ctx :: "'a pst_scheme \<Rightarrow> nat \<Rightarrow> nat \<Rightarrow> bool" where
  "user_ctx s c p \<longleftrightarrow> ready s c PTABLE \<and> c_ncli (k_cpus s ! c) = 0 \<and> c_proc (k_cpus s ! c) = Some p"

text \<open>What a turn of \<open>p\<close> leaves of the table.\<close>

definition spares :: "nat \<Rightarrow> 'a pst_scheme \<Rightarrow> 'a pst_scheme \<Rightarrow> bool" where
  "spares p s t \<longleftrightarrow> length (ps_proc t) = length (ps_proc s) \<and>
     (\<forall>q<length (ps_proc s). p_n_run (ps_proc t ! q) = p_n_run (ps_proc s ! q)
        \<and> p_kstack (ps_proc t ! q) = p_kstack (ps_proc s ! q) \<and> p_pgdir (ps_proc t ! q) = p_pgdir (ps_proc s ! q)
        \<and> (p_state (ps_proc t ! q) = p_state (ps_proc s ! q) \<or>
           p_state (ps_proc s ! q) = SLEEPING \<and> p_state (ps_proc t ! q) = RUNNABLE))"

lemma spares_refl [simp]: "spares p s s"
  by (simp add: spares_def)

lemma spares_trans: "spares p s t \<Longrightarrow> spares p t u \<Longrightarrow> spares p s u"
  unfolding spares_def by (metis procstate.distinct)

lemma proc_probed: "here s c \<Longrightarrow> c_proc (k_cpus (probed c s) ! c) = c_proc (k_cpus s ! c)"
  using here_less [of s c] by (simp add: probed_def)

lemma user_probed: "user_ctx s c p \<Longrightarrow> user_ctx (probed c s) c p"
  by (simp add: user_ctx_def ready_def cli_ok_def idle_lock_def proc_probed)

lemma user_ctx_cong:
  "k_cpus t = k_cpus s \<Longrightarrow> k_me t = k_me s \<Longrightarrow> k_if t = k_if s \<Longrightarrow> k_locks t = k_locks s \<Longrightarrow> user_ctx t c p = user_ctx s c p"
  by (simp add: user_ctx_def ready_def here_def cli_ok_def idle_lock_def)

lemma user_ctx_more [simp]: "user_ctx (s\<lparr>ps_proc := ps\<rparr>) c p = user_ctx s c p" "user_ctx (upd_proc q f s) c p = user_ctx s c p"
    "user_ctx (wakeup1 ch s) c p = user_ctx s c p" "user_ctx (s\<lparr>km_mem := m\<rparr>) c p = user_ctx s c p"
  by (rule user_ctx_cong; simp add: upd_proc_def wakeup1_def)+

lemma spares_map:
  assumes "\<And>x. p_n_run (f x) = p_n_run x \<and> p_kstack (f x) = p_kstack x \<and> p_pgdir (f x) = p_pgdir x
      \<and> (p_state (f x) = p_state x \<or> p_state x = SLEEPING \<and> p_state (f x) = RUNNABLE)"
    and "ps_proc t = map f (ps_proc s)"
  shows "spares p s t"
  using assms by (simp add: spares_def)

lemma spares_upd:
  assumes "\<And>x. p_n_run (f x) = p_n_run x \<and> p_kstack (f x) = p_kstack x \<and> p_pgdir (f x) = p_pgdir x
      \<and> (p_state (f x) = p_state x \<or> p_state x = SLEEPING \<and> p_state (f x) = RUNNABLE)"
    and "ps_proc u = ps_proc s"
  shows "spares p s (upd_proc k f u)"
  using assms by (simp add: spares_def nth_upd_proc)

lemma spares_cong: "ps_proc t = ps_proc u \<Longrightarrow> spares p s u \<Longrightarrow> spares p s t"
  by (simp add: spares_def)

lemma kcalls_ok:
  assumes "user_ctx s c p"
  shows "\<exists>t. kcalls cs s = Inr t \<and> user_ctx t c p \<and> spares p s t"
  using assms
proof (induction cs arbitrary: s)
  case Nil
  then show ?case by simp
next
  case (Cons k cs)
  have r: "ready s c PTABLE" using Cons.prems by (simp add: user_ctx_def)
  note u = user_probed [OF Cons.prems]
  have go: "\<exists>t. kcalls cs u = Inr t \<and> user_ctx t c p \<and> spares p s t" if "user_ctx u c p" "spares p s u" for u
    using Cons.IH [OF that(1)] spares_trans [OF that(2)] by blast
  show ?case
  proof (cases k)
    case (Do_compute f)
    have "spares p s (s\<lparr>km_mem := f (km_mem s)\<rparr>)" by (simp add: spares_def)
    with go [of "s\<lparr>km_mem := f (km_mem s)\<rparr>"] Do_compute Cons.prems show ?thesis by simp
  next
    case (Do_kill pid)
    let ?u = "case first_index (\<lambda>p. p_pid p = pid) (ps_proc s) of None \<Rightarrow> probed c s
      | Some k \<Rightarrow> upd_proc k (\<lambda>p. p\<lparr>p_killed := 1, p_state := (if p_state p = SLEEPING then RUNNABLE else p_state p)\<rparr>) (probed c s)"
    have "\<exists>r. kill pid s = Inr (r, ?u)" using kill_eq [OF r, of pid] by (auto split: option.splits)
    moreover have "user_ctx ?u c p" using u by (simp split: option.split)
    moreover have "spares p s ?u"
    proof (cases "first_index (\<lambda>p. p_pid p = pid) (ps_proc s)")
      case None
      then show ?thesis by (simp add: spares_def)
    next
      case (Some k)
      have "spares p s (upd_proc k (\<lambda>p. p\<lparr>p_killed := 1, p_state := (if p_state p = SLEEPING then RUNNABLE else p_state p)\<rparr>) (probed c s))"
        by (rule spares_upd) simp_all
      then show ?thesis by (simp add: Some)
    qed
    ultimately show ?thesis using go [of ?u] Do_kill by auto
  next
    case (Do_wakeup ch)
    have "spares p s (wakeup1 ch (probed c s))"
      by (rule spares_map [where f = "\<lambda>x. if p_state x = SLEEPING \<and> p_chan x = Some ch
          then x\<lparr>p_toe := sint (ps_ticks s), p_state := RUNNABLE\<rparr> else x"]) (simp_all add: wakeup1_def)
    with go [of "wakeup1 ch (probed c s)"] Do_wakeup u show ?thesis by (simp add: wakeup_eq [OF r])
  next
    case (Do_set_priority prio pid)
    let ?u = "(probed c s)\<lparr>ps_proc := snd (set_priority_loop prio pid 0 (ps_proc s))\<rparr>"
    have "spares p s ?u"
      by (rule spares_map [where f = "\<lambda>x. if p_pid x = pid then x\<lparr>p_priority := prio\<rparr> else x"]) (simp_all add: set_priority_loop_eq)
    with go [of ?u] Do_set_priority u show ?thesis by (simp add: set_priority_eq [OF r])
  qed
qed

lemma leave_kernel:
  assumes "sched_ctx s c" and "c_proc (k_cpus s ! c) = Some p"
  shows "release PTABLE s = Inr (dropped c PTABLE s)" and "user_ctx (dropped c PTABLE s) c p"
    and "ps_proc (dropped c PTABLE s) = ps_proc s"
proof -
  have h: "here s c" "cli_ok s c" "c < length (k_cpus s)" "c_ncli (k_cpus s ! c) = 1" "holds s PTABLE c"
    using assms(1) here_less by (auto simp: sched_ctx_def)
  show "release PTABLE s = Inr (dropped c PTABLE s)" using release_eq [OF h(1,2)] h(4,5) by simp
  show "user_ctx (dropped c PTABLE s) c p"
    using h assms(2) here_dropped [OF h(1)]
    by (simp add: user_ctx_def ready_def cli_ok_def idle_lock_def, simp add: dropped_def popped_def upd_lock_def upd_cpu_def)
  show "ps_proc (dropped c PTABLE s) = ps_proc s" by (simp add: dropped_def popped_def upd_lock_def)
qed

lemma come_back_ok:
  assumes "sched_ctx s c" and "c_proc (k_cpus s ! c) = Some p" "p < length (ps_proc s)"
  shows "\<exists>t. come_back p s = Inr t \<and> user_ctx t c p \<and> spares p s t"
proof -
  let ?s1 = "upd_cpu c (\<lambda>x. x\<lparr>c_intena := True\<rparr>) s"
  have h: "here s c" "\<not> k_if s (k_me s)" "c < length (k_cpus s)"
    using assms(1) here_less by (auto simp: sched_ctx_def cli_ok_def)
  have on: "sched_on True s = Inr ?s1" using mycpu_here [OF h(1,2)] by (simp add: sched_on_def)
  have s1: "sched_ctx ?s1 c" "c_proc (k_cpus ?s1 ! c) = Some p"
    using assms h(3) by (simp_all add: sched_ctx_upd_cpu) (simp add: upd_cpu_def)
  show ?thesis
  proof (cases "p_chan (ps_proc s ! p) = None")
    case True
    note l = leave_kernel [OF s1]
    have "spares p s (dropped c PTABLE ?s1)" by (simp add: spares_def l(3))
    then show ?thesis using True on l(1,2) by (simp add: come_back_def yield_on_def)
  next
    case False
    let ?s2 = "upd_proc p (\<lambda>x. x\<lparr>p_chan := None\<rparr>) ?s1"
    have s2: "sched_ctx ?s2 c" "c_proc (k_cpus ?s2 ! c) = Some p" using s1 by simp_all
    note l = leave_kernel [OF s2]
    have "spares p s ?s2" by (rule spares_upd) simp_all
    from spares_cong [OF l(3) this] have "spares p s (dropped c PTABLE ?s2)" .
    moreover have "come_back p s = Inr (dropped c PTABLE ?s2)"
      unfolding come_back_def if_not_P [OF False] using on l(1) by (simp add: sleep_on_def Let_def)
    ultimately show ?thesis using l(2) by blast
  qed
qed

lemma enter_kernel:
  assumes "user_ctx s c p"
  shows "acquire PTABLE s = Inr (taken c PTABLE s)" and "sched_ctx (taken c PTABLE s) c"
    and "c_proc (k_cpus (taken c PTABLE s) ! c) = Some p"
proof -
  have h: "here s c" "cli_ok s c" "c < length (k_cpus s)" "c_ncli (k_cpus s ! c) = 0" "c_proc (k_cpus s ! c) = Some p" "ready s c PTABLE"
    using assms here_less by (auto simp: user_ctx_def ready_def)
  show "acquire PTABLE s = Inr (taken c PTABLE s)" by (rule acquire_ready [OF h(6)])
  show "sched_ctx (taken c PTABLE s) c" using h by (simp add: sched_ctx_def cli_ok_taken ncli_taken)
  show "c_proc (k_cpus (taken c PTABLE s) ! c) = Some p" using h by (simp add: taken_def upd_lock_def pushed_def)
qed

lemma myproc_sched: "sched_ctx s c \<Longrightarrow> c_proc (k_cpus s ! c) = Some p \<Longrightarrow> myproc s = Inr (Some p, s)"
  using myproc_eq [of s c] probed_nested [of s c] by (simp add: sched_ctx_def)

lemma give_up_ok:
  assumes "user_ctx s c p" "p < length (ps_proc s)"
  shows "\<exists>t. give_up l s = Inr t \<and> sched_ctx t c \<and> c_proc (k_cpus t ! c) = Some p \<and> length (ps_proc t) = length (ps_proc s)
    \<and> (\<forall>q<length (ps_proc s). q \<noteq> p \<longrightarrow> ps_proc t ! q = ps_proc s ! q)
    \<and> p_n_run (ps_proc t ! p) = p_n_run (ps_proc s ! p) \<and> p_kstack (ps_proc t ! p) = p_kstack (ps_proc s ! p)
    \<and> p_pgdir (ps_proc t ! p) = p_pgdir (ps_proc s ! p)"
proof -
  let ?s1 = "taken c PTABLE s"
  note e = enter_kernel [OF assms(1)]
  have out: "sched_off t = Inr (c_intena (k_cpus t ! c), t)"
    if "sched_ctx t c" "c_proc (k_cpus t ! c) = Some p" "p_state (ps_proc t ! p) \<noteq> RUNNING" for t :: "'a pst_scheme"
    using that by (intro sched_off_eq) (auto simp: sched_ctx_def)
  show ?thesis
  proof (cases l)
    case By_yield
    let ?mid = "upd_proc p (\<lambda>x. x\<lparr>p_toe := sint (ps_ticks ?s1)\<rparr>) ?s1"
    let ?t = "upd_proc p (\<lambda>x. x\<lparr>p_state := RUNNABLE\<rparr>) ?mid"
    have o: "sched_off ?t = Inr (c_intena (k_cpus ?t ! c), ?t)"
      using e(2,3) assms(2) by (intro out) (simp_all add: upd_proc_def)
    have m: "myproc ?s1 = Inr (Some p, ?s1)" using e(2,3) by (simp add: myproc_sched)
    have m0: "myproc ?mid = Inr (Some p, ?mid)" by (rule myproc_sched [of _ c]) (use e(2,3) in simp_all)
    have "yield_off s = sched_off ?t"
      unfolding yield_off_def e(1) andThen_Inr m prod.case deref_def option.case Let_def m0 ..
    then have "give_up l s = Inr ?t" using o By_yield by simp
    then show ?thesis using e(2,3) assms(2) by (intro exI [of _ ?t]) (simp add: nth_upd_proc)
  next
    case (By_sleep ch)
    let ?t = "upd_proc p (\<lambda>x. x\<lparr>p_chan := Some ch, p_state := SLEEPING, p_toe := sint (ps_ticks ?s1)\<rparr>) ?s1"
    have "sched_off ?t = Inr (c_intena (k_cpus ?t ! c), ?t)"
      using e(2,3) assms(2) by (intro out) (simp_all add: upd_proc_def)
    moreover have "myproc ?s1 = Inr (Some p, ?s1)" using e(2,3) by (simp add: myproc_sched)
    ultimately have "give_up l s = Inr ?t" using e(1) By_sleep by (simp add: sleep_off_unfold asleep_def)
    then show ?thesis using e(2,3) assms(2) by (intro exI [of _ ?t]) (simp add: nth_upd_proc)
  qed
qed

lemma kernel_turn_ok: "turn_ok (kernel_turn prog) c"
  unfolding turn_ok_def
proof (intro allI impI, elim conjE)
  fix p and s :: "'a pst_scheme"
  assume a: "sched_ctx s c" "tasks_ok s" "p < length (ps_proc s)" "c_proc (k_cpus s ! c) = Some p" "p_state (ps_proc s ! p) = RUNNING"
    "p_kstack (ps_proc s ! p) \<noteq> 0" "p_pgdir (ps_proc s ! p) \<noteq> 0"
  obtain u where u: "come_back p s = Inr u" "user_ctx u c p" "spares p s u" using come_back_ok [OF a(1,4,3)] by blast
  obtain cs l where l: "prog p u = (cs, l)" by (cases "prog p u")
  obtain v where v: "kcalls cs u = Inr v" "user_ctx v c p" "spares p u v" using kcalls_ok [OF u(2)] by blast
  have sv: "spares p s v" by (rule spares_trans [OF u(3) v(3)])
  then have len: "length (ps_proc v) = length (ps_proc s)" by (simp add: spares_def)
  then have pv: "p < length (ps_proc v)" using a(3) by simp
  obtain t where t: "give_up l v = Inr t" "sched_ctx t c" "c_proc (k_cpus t ! c) = Some p" "length (ps_proc t) = length (ps_proc v)"
      "\<forall>q<length (ps_proc v). q \<noteq> p \<longrightarrow> ps_proc t ! q = ps_proc v ! q"
      "p_n_run (ps_proc t ! p) = p_n_run (ps_proc v ! p)" "p_kstack (ps_proc t ! p) = p_kstack (ps_proc v ! p)"
      "p_pgdir (ps_proc t ! p) = p_pgdir (ps_proc v ! p)"
    using give_up_ok [OF v(2) pv] by blast
  have run: "kernel_turn prog p s = Inr t" using u(1) l v(1) t(1) by (simp add: kernel_turn_def)
  have one: "p_n_run (ps_proc t ! q) = p_n_run (ps_proc s ! q)
      \<and> (q \<noteq> p \<and> p_state (ps_proc s ! q) = RUNNABLE \<longrightarrow> p_state (ps_proc t ! q) = RUNNABLE)
      \<and> (p_state (ps_proc t ! q) \<in> {RUNNABLE, SLEEPING} \<longrightarrow> p_kstack (ps_proc t ! q) \<noteq> 0 \<and> p_pgdir (ps_proc t ! q) \<noteq> 0)"
    if q: "q < length (ps_proc s)" for q
  proof (cases "q = p")
    case True
    then show ?thesis using t(6-8) sv a(3,6,7) by (simp add: spares_def)
  next
    case False
    have s: "p_state (ps_proc s ! q) \<in> {RUNNABLE, SLEEPING} \<longrightarrow> p_kstack (ps_proc s ! q) \<noteq> 0 \<and> p_pgdir (ps_proc s ! q) \<noteq> 0"
      using a(2) q by (simp add: tasks_ok_def)
    have "ps_proc t ! q = ps_proc v ! q" using t(5) q len False by simp
    then show ?thesis using sv q s False unfolding spares_def by fastforce
  qed
  then have "tasks_ok t" using t(4) len by (simp add: tasks_ok_def)
  then show "\<exists>t. kernel_turn prog p s = Inr t \<and> sched_ctx t c \<and> tasks_ok t \<and> c_proc (k_cpus t ! c) = Some p
      \<and> length (ps_proc t) = length (ps_proc s)
      \<and> (\<forall>q<length (ps_proc s). p_n_run (ps_proc t ! q) = p_n_run (ps_proc s ! q)
           \<and> (q \<noteq> p \<and> p_state (ps_proc s ! q) = RUNNABLE \<longrightarrow> p_state (ps_proc t ! q) = RUNNABLE))"
    using run t(2-4) len one by (intro exI [of _ t]) simp
qed

section \<open>Round robin is fair\<close>

definition ran_once :: "nat set \<Rightarrow> 'a pst_scheme \<Rightarrow> 'a pst_scheme \<Rightarrow> bool" where
  "ran_once A s t \<longleftrightarrow> length (ps_proc t) = length (ps_proc s)
     \<and> (\<forall>q<length (ps_proc s).
          p_n_run (ps_proc t ! q) - p_n_run (ps_proc s ! q) \<in> {0, 1}
          \<and> (q \<notin> A \<longrightarrow> p_n_run (ps_proc t ! q) = p_n_run (ps_proc s ! q))
          \<and> (q \<in> A \<and> p_state (ps_proc s ! q) = RUNNABLE \<longrightarrow>
               p_n_run (ps_proc t ! q) = p_n_run (ps_proc s ! q) + 1))"

lemma rr_scan_ok:
  assumes "turn_ok run c" and "sched_ctx s c" and "tasks_ok s" and "distinct is"
    and "\<forall>i\<in>set is. i < length (ps_proc s)"
  shows "\<exists>t. rr_scan run c is s = Inr t \<and> sched_ctx t c \<and> ran_once (set is) s t"
  using assms
proof (induction "is" arbitrary: s)
  case Nil
  then show ?case by (simp add: ran_once_def)
next
  case (Cons i "is")
  show ?case
  proof (cases "p_state (ps_proc s ! i) = RUNNABLE")
    case False
    then obtain t where "rr_scan run c (i # is) s = Inr t" "sched_ctx t c" "ran_once (set is) s t"
      using Cons by auto
    then show ?thesis using False Cons.prems(4) by (auto simp: ran_once_def)
  next
    case True
    have i: "i < length (ps_proc s)" using Cons.prems(5) by simp
    obtain u where u: "dispatch run c i s = Inr u" "sched_ctx u c" "tasks_ok u"
      "length (ps_proc u) = length (ps_proc s)"
      "\<And>q. q < length (ps_proc s) \<Longrightarrow>
         p_n_run (ps_proc u ! q) = p_n_run (ps_proc s ! q) + (if q = i then 1 else 0)"
      "\<And>q. q < length (ps_proc s) \<Longrightarrow> q \<noteq> i \<Longrightarrow> p_state (ps_proc s ! q) = RUNNABLE \<Longrightarrow>
         p_state (ps_proc u ! q) = RUNNABLE"
      using dispatch_ok [OF Cons.prems(1-3) i True] by metis
    let ?u = "set_cpu_proc c None u"
    have "tasks_ok ?u" using u(3) by (simp add: tasks_ok_def)
    then obtain t where t: "rr_scan run c is ?u = Inr t" "sched_ctx t c" "ran_once (set is) ?u t"
      using Cons.IH [of ?u] Cons.prems u(2,4) by auto
    have "p_n_run (ps_proc t ! q) - p_n_run (ps_proc s ! q) \<in> {0, 1}
        \<and> (q \<notin> set (i # is) \<longrightarrow> p_n_run (ps_proc t ! q) = p_n_run (ps_proc s ! q))
        \<and> (q \<in> set (i # is) \<and> p_state (ps_proc s ! q) = RUNNABLE \<longrightarrow>
             p_n_run (ps_proc t ! q) = p_n_run (ps_proc s ! q) + 1)" if "q < length (ps_proc s)" for q
      using t(3) u(4) u(5) [OF that] u(6) [OF that] Cons.prems(4) that
      by (cases "q = i") (auto simp: ran_once_def)
    then have "ran_once (set (i # is)) s t" using t(3) u(4) by (simp add: ran_once_def)
    then show ?thesis using t u(1) True by auto
  qed
qed

lemma scheduler_lock:
  assumes "calm s c" and "c_ncli (k_cpus s ! c) = 0"
  shows "acquire PTABLE (sti s) = Inr (taken c PTABLE (sti s))"
    and "sched_ctx (taken c PTABLE (sti s)) c" and "ps_proc (taken c PTABLE (sti s)) = ps_proc s"
proof -
  have "calm (sti s) c" using assms by (simp add: calm_def sti_def here_def cli_ok_def idle_lock_def)
  note r = calm_ready [OF this, of PTABLE]
  show "acquire PTABLE (sti s) = Inr (taken c PTABLE (sti s))" by (rule acquire_ready [OF r])
  note f = in_crit_facts [OF r in_crit_taken]
  have "c < length (k_cpus (sti s))" using r by (auto simp: ready_def here_less)
  from ncli_taken [OF this, of PTABLE] show "sched_ctx (taken c PTABLE (sti s)) c"
    using f assms(2) by (simp add: sched_ctx_def sti_def)
  show "ps_proc (taken c PTABLE (sti s)) = ps_proc s" by (simp add: sti_def)
qed

lemma scheduler_unlock:
  assumes "sched_ctx s c"
  shows "\<exists>t. release PTABLE s = Inr t \<and> ps_proc t = ps_proc s \<and> c_proc (k_cpus t ! c) = c_proc (k_cpus s ! c)"
  using assms release_eq [of s c PTABLE] here_less [of s c]
  by (auto simp: sched_ctx_def dropped_def popped_def upd_lock_def)

lemma calm_sti [simp]: "c_ncli (k_cpus s ! c) = 0 \<Longrightarrow> calm (sti s) c = calm s c"
  by (auto simp: calm_def sti_def here_def cli_ok_def idle_lock_def)

section \<open>Properties\<close>

text \<open>
  A machine with three processes: the first runs on no processor, the table has no other
  process. The scheduler runs on the first processor.
\<close>

definition ready_proc :: "int \<Rightarrow> int \<Rightarrow> int \<Rightarrow> proc" where
  "ready_proc pid prio toe = first_proc\<lparr>p_state := RUNNABLE, p_pid := pid, p_priority := prio,
     p_toe := toe, p_ctime := toe\<rparr>"

definition ready_state :: "proc list \<Rightarrow> pst" where
  "ready_state ps = boot_state\<lparr>ps_proc := ps\<rparr>"

lemma ready_state_calm: "calm (ready_state ps) 0" "c_ncli (k_cpus (ready_state ps) ! 0) = 0"
    "ps_proc (ready_state ps) = ps"
  using boot_state_calm by (simp_all add: ready_state_def) (simp add: boot_state_def)

lemma rr_pass:
  assumes "turn_ok run c" and "calm s c" and "c_ncli (k_cpus s ! c) = 0" and "tasks_ok s"
  shows "\<exists>t. rr_iter run c s = Inr t \<and> length (ps_proc t) = length (ps_proc s)
    \<and> (\<forall>q<length (ps_proc s).
         (p_state (ps_proc s ! q) = RUNNABLE \<longrightarrow> p_n_run (ps_proc t ! q) = p_n_run (ps_proc s ! q) + 1)
         \<and> p_n_run (ps_proc t ! q) - p_n_run (ps_proc s ! q) \<in> {0, 1})"
proof -
  note L = scheduler_lock [OF assms(2,3)]
  have "tasks_ok (taken c PTABLE (sti s))" using assms(4) L(3) by (simp add: tasks_ok_def)
  from rr_scan_ok [OF assms(1) L(2) this, of "[0..<length (ps_proc s)]"]
  obtain t where t: "rr_scan run c [0..<length (ps_proc s)] (taken c PTABLE (sti s)) = Inr t"
      "sched_ctx t c" "ran_once {0..<length (ps_proc s)} (taken c PTABLE (sti s)) t"
    using L(3) by auto
  then show ?thesis
    using scheduler_unlock [OF t(2)] L by (auto simp: rr_iter_def ran_once_def)
qed

text \<open>
  C34. Round robin is fair. Let each process, in its turn, come back from \<open>yield\<close> or \<open>sleep\<close>, compute, call \<open>kill\<close>,
  \<open>wakeup\<close> and \<open>set_priority\<close> any number of times, and give up the processor in \<open>yield\<close> or \<open>sleep\<close>, all depending
  on the state in any way; no process is created or exits. One pass of the scheduler over the process table
  then ends without a panic, and dispatches every process that was runnable at its start exactly once, and
  no process twice, also those that are woken up on the way.
\<close>

theorem rr_pass_fair:
  assumes "calm s c" and "c_ncli (k_cpus s ! c) = 0" and "tasks_ok s"
  shows "\<exists>t. rr_iter (kernel_turn prog) c s = Inr t \<and> length (ps_proc t) = length (ps_proc s)
    \<and> (\<forall>q<length (ps_proc s).
         (p_state (ps_proc s ! q) = RUNNABLE \<longrightarrow> p_n_run (ps_proc t ! q) = p_n_run (ps_proc s ! q) + 1)
         \<and> p_n_run (ps_proc t ! q) - p_n_run (ps_proc s ! q) \<in> {0, 1})"
  by (rule rr_pass [OF kernel_turn_ok assms])

text \<open>The first process kills the second and goes to sleep, the second yields.\<close>

definition killer :: "nat \<Rightarrow> 'a pst_scheme \<Rightarrow> kcall list \<times> leave" where
  "killer p s = (if p = 0 then ([Do_kill 2], By_sleep ChTicks) else ([], By_yield))"

theorem rr_pass_fair_witness:
  "\<exists>t. rr_iter (kernel_turn killer) 0 (ready_state [ready_proc 1 60 0, ready_proc 2 60 5]) = Inr t
     \<and> p_n_run (ps_proc t ! 1) = p_n_run (ps_proc (ready_state [ready_proc 1 60 0, ready_proc 2 60 5]) ! 1) + 1"
proof -
  let ?s = "ready_state [ready_proc 1 60 0, ready_proc 2 60 5]"
  have "tasks_ok ?s"
    by (auto simp: tasks_ok_def ready_state_calm(3) ready_proc_def first_proc_def less_Suc_eq)
  from rr_pass_fair [OF ready_state_calm(1,2) this]
  show ?thesis by (auto simp: ready_state_calm(3) ready_proc_def less_Suc_eq)
qed

text \<open>
  First come first served: the process the scheduler picks is the first in the table among
  the runnable processes with the least creation time; it picks none only if no runnable process
  has a creation time below \<open>1e9\<close>.
\<close>

theorem fcfs_picks_oldest:
  "case fcfs_pick ps of
     Some p \<Rightarrow> p < length ps \<and> p_state (ps ! p) = RUNNABLE
       \<and> (\<forall>q<length ps. p_state (ps ! q) = RUNNABLE \<longrightarrow>
            p_ctime (ps ! p) < p_ctime (ps ! q) \<or> p_ctime (ps ! p) = p_ctime (ps ! q) \<and> p \<le> q)
   | None \<Rightarrow> \<forall>q<length ps. p_state (ps ! q) = RUNNABLE \<longrightarrow> 1000000000 \<le> p_ctime (ps ! q)"
proof -
  have "case fcfs_pick ps of Some p \<Rightarrow> least_index (\<lambda>p. p_state p = RUNNABLE) p_ctime ps p
      | None \<Rightarrow> \<forall>q<length ps. p_state (ps ! q) = RUNNABLE \<longrightarrow> 1000000000 \<le> p_ctime (ps ! q)"
    using min_scan_result [where ok = "\<lambda>p. p_state p = RUNNABLE" and key = p_ctime and ps = ps
        and b = 1000000000]
    by (auto simp: fcfs_pick_def fcfs_scan_min split: option.splits)
  then show ?thesis
    by (auto simp: least_index_def split: option.splits)
qed

theorem fcfs_picks_oldest_witness:
  "fcfs_pick [ready_proc 1 60 0\<lparr>p_ctime := 9\<rparr>, ready_proc 2 60 0\<lparr>p_ctime := 4\<rparr>] = Some 1
   \<and> p_state (ready_proc 2 60 0\<lparr>p_ctime := 4\<rparr>) = RUNNABLE"
  using fcfs_picks_oldest [of "[ready_proc 1 60 0\<lparr>p_ctime := 9\<rparr>, ready_proc 2 60 0\<lparr>p_ctime := 4\<rparr>]"]
  by (simp add: fcfs_pick_def ready_proc_def)


text \<open>
  Multi-level feedback queues: the search over the levels picks a process of the lowest
  level that has one, the one that has waited longest (least time of entry, the first on a tie);
  no process of a lower level is passed over, and none is found only if every queue is empty of
  processes with an entry time below \<open>1e9\<close>.
\<close>

theorem mlfq_picks_lowest_queue:
  "case mlfq_search [0, 1, 2, 3, 4] ps of
     Some (lvl, p) \<Rightarrow> p < length ps \<and> p_state (ps ! p) = RUNNABLE \<and> p_cur_q (ps ! p) = lvl
       \<and> (\<forall>q<length ps. p_state (ps ! q) = RUNNABLE \<and> p_toe (ps ! q) < 1000000000 \<and> 0 \<le> p_cur_q (ps ! q) \<longrightarrow>
            lvl \<le> p_cur_q (ps ! q) \<and> (p_cur_q (ps ! q) = lvl \<longrightarrow>
              p_toe (ps ! p) < p_toe (ps ! q) \<or> p_toe (ps ! p) = p_toe (ps ! q) \<and> p \<le> q))
   | None \<Rightarrow> \<forall>q<length ps. p_state (ps ! q) = RUNNABLE \<and> 0 \<le> p_cur_q (ps ! q) \<and> p_cur_q (ps ! q) \<le> 4 \<longrightarrow>
        1000000000 \<le> p_toe (ps ! q)"
proof (cases "mlfq_search [0, 1, 2, 3, 4] ps")
  case None
  have "1000000000 \<le> p_toe (ps ! q)"
    if "q < length ps" "p_state (ps ! q) = RUNNABLE" "0 \<le> p_cur_q (ps ! q)" "p_cur_q (ps ! q) \<le> 4" for q
    using mlfq_search_NoneD [OF None] level_cases [OF that(3,4)]
      mlfq_pick_cases [where lvl = "p_cur_q (ps ! q)" and ps = ps] that by auto
  then show ?thesis using None by simp
next
  case (Some lp)
  then obtain l p where lp: "mlfq_search [0, 1, 2, 3, 4] ps = Some (l, p)" by (cases lp) auto
  note D = mlfq_search_SomeD [OF lp, simplified sorted_simps]
  have L: "least_index (\<lambda>p. p_state p = RUNNABLE \<and> p_cur_q p = l) p_toe ps p"
    using D mlfq_pick_cases [where lvl = l and ps = ps] by auto
  have "l \<le> p_cur_q (ps ! q)"
    if q: "q < length ps" "p_state (ps ! q) = RUNNABLE" "p_toe (ps ! q) < 1000000000" "0 \<le> p_cur_q (ps ! q)" for q
  proof (rule ccontr)
    assume "\<not> l \<le> p_cur_q (ps ! q)"
    then have "mlfq_pick (p_cur_q (ps ! q)) ps = None"
      using D level_cases [OF q(4)] by auto
    then show False using mlfq_pick_cases [where lvl = "p_cur_q (ps ! q)" and ps = ps] q by auto
  qed
  then show ?thesis using lp L by (auto simp: least_index_def)
qed

theorem mlfq_picks_lowest_queue_witness:
  "mlfq_search [0, 1, 2, 3, 4] [ready_proc 1 60 0\<lparr>p_cur_q := 3\<rparr>, ready_proc 2 60 7\<lparr>p_cur_q := 1\<rparr>] = Some (1, 1)
   \<and> p_cur_q (ready_proc 2 60 7\<lparr>p_cur_q := 1\<rparr>) = 1"
  using mlfq_picks_lowest_queue [of "[ready_proc 1 60 0\<lparr>p_cur_q := 3\<rparr>, ready_proc 2 60 7\<lparr>p_cur_q := 1\<rparr>]"]
  by (simp add: mlfq_pick_def ready_proc_def)


lemma getMinPrio_le: "getMinPrio s \<le> 101"
    "q < length (ps_proc s) \<Longrightarrow> p_state (ps_proc s ! q) = RUNNABLE \<Longrightarrow> getMinPrio s \<le> p_priority (ps_proc s ! q)"
    "getMinPrio s = 101 \<or> (\<exists>q<length (ps_proc s). p_state (ps_proc s ! q) = RUNNABLE
        \<and> p_priority (ps_proc s ! q) = getMinPrio s)"
proof -
  let ?A = "{p_priority p |p. p \<in> set (ps_proc s) \<and> p_state p = RUNNABLE}"
  have e: "getMinPrio s = Min (insert 101 ?A)" by (simp add: getMinPrio_def min_prio_scan_eq)
  have f: "finite (insert 101 ?A)" by simp
  show "getMinPrio s \<le> 101" unfolding e using f by (rule Min_le) simp
  show "q < length (ps_proc s) \<Longrightarrow> p_state (ps_proc s ! q) = RUNNABLE \<Longrightarrow> getMinPrio s \<le> p_priority (ps_proc s ! q)"
    unfolding e using f by (rule Min_le) auto
  have "getMinPrio s \<in> insert 101 ?A" unfolding e using f by (rule Min_in) simp
  then show "getMinPrio s = 101 \<or> (\<exists>q<length (ps_proc s). p_state (ps_proc s ! q) = RUNNABLE
        \<and> p_priority (ps_proc s ! q) = getMinPrio s)"
    by (auto simp: in_set_conv_nth)
qed

lemma pbs_scan_skip:
  "(\<And>i. i \<in> set is \<Longrightarrow> \<not> (p_state (ps_proc s ! i) = RUNNABLE \<and> p_priority (ps_proc s ! i) = m)) \<Longrightarrow>
   pbs_scan run c (is @ js) m s = pbs_scan run c js m s"
  by (induction "is") auto

text \<open>
  Priority scheduling: the first process that an iteration dispatches is the first one in the
  table whose priority value is least among all runnable processes; if it dispatches none, every
  runnable process has a priority value above 101.
\<close>

theorem pbs_dispatches_least_priority:
  "case first_index (\<lambda>p. p_state p = RUNNABLE \<and> p_priority p = getMinPrio s) (ps_proc s) of
     Some k \<Rightarrow> (\<forall>q<length (ps_proc s). p_state (ps_proc s ! q) = RUNNABLE \<longrightarrow>
         p_priority (ps_proc s ! k) \<le> p_priority (ps_proc s ! q))
       \<and> pbs_scan run c [0..<length (ps_proc s)] (getMinPrio s) s
         = andThen (dispatch run c k s) (\<lambda>s'. let s' = set_cpu_proc c None s'
             in pbs_scan run c [Suc k..<length (ps_proc s)] (getMinPrio s') s')
   | None \<Rightarrow> (\<forall>q<length (ps_proc s). p_state (ps_proc s ! q) = RUNNABLE \<longrightarrow> 101 < p_priority (ps_proc s ! q))
       \<and> pbs_scan run c [0..<length (ps_proc s)] (getMinPrio s) s = Inr s"
proof (cases "first_index (\<lambda>p. p_state p = RUNNABLE \<and> p_priority p = getMinPrio s) (ps_proc s)")
  case None
  then have no: "\<not> (p_state (ps_proc s ! q) = RUNNABLE \<and> p_priority (ps_proc s ! q) = getMinPrio s)"
    if "q < length (ps_proc s)" for q
    using that by (auto simp: first_index_None_iff)
  then have "101 < p_priority (ps_proc s ! q)" if "q < length (ps_proc s)" "p_state (ps_proc s ! q) = RUNNABLE" for q
    using getMinPrio_le(2) [OF that] getMinPrio_le(3) [of s] that no [OF that(1)] by force
  then show ?thesis
    using None no pbs_scan_skip [of "[0..<length (ps_proc s)]" s "getMinPrio s" run c "[]"] by simp
next
  case (Some k)
  note k = first_index_SomeD [OF Some]
  have "pbs_scan run c ([0..<k] @ k # [Suc k..<length (ps_proc s)]) (getMinPrio s) s
      = pbs_scan run c (k # [Suc k..<length (ps_proc s)]) (getMinPrio s) s"
    using k(3) by (intro pbs_scan_skip) auto
  moreover have "[0..<length (ps_proc s)] = [0..<k] @ k # [Suc k..<length (ps_proc s)]"
    using k(1) by (metis le_add_same_cancel1 less_imp_le_nat upt_add_eq_append upt_conv_Cons
        le_add_diff_inverse zero_le)
  ultimately show ?thesis using Some k getMinPrio_le(2) [of _ s] by simp
qed

theorem pbs_dispatches_least_priority_witness:
  "getMinPrio (ready_state [ready_proc 1 60 0, ready_proc 2 40 7]) = 40
   \<and> pbs_scan yield_turn 0 [0..<2] 40 (ready_state [ready_proc 1 60 0, ready_proc 2 40 7])
     = andThen (dispatch yield_turn 0 1 (ready_state [ready_proc 1 60 0, ready_proc 2 40 7]))
         (\<lambda>s'. let s' = set_cpu_proc 0 None s' in pbs_scan yield_turn 0 [2..<2] (getMinPrio s') s')"
proof -
  let ?s = "ready_state [ready_proc 1 60 0, ready_proc 2 40 7]"
  have m: "getMinPrio ?s = 40" by (simp add: getMinPrio_def ready_state_calm(3) ready_proc_def)
  then have "first_index (\<lambda>p. p_state p = RUNNABLE \<and> p_priority p = getMinPrio ?s) (ps_proc ?s) = Some 1"
    by (simp add: ready_state_calm(3) ready_proc_def)
  then show ?thesis
    using pbs_dispatches_least_priority [of ?s yield_turn 0] m
    by (simp add: ready_state_calm(3) numeral_2_eq_2)
qed


lemma pbs_scan_none: "ps_proc t = ps_proc s \<Longrightarrow> pbs_scan run c is m t = Inr t" if
  "\<forall>i\<in>set is. p_state (ps_proc s ! i) = RUNNABLE \<longrightarrow> m < p_priority (ps_proc s ! i)"
  using that by (induction "is") auto

lemma sti_release_calm:
  assumes "calm s c" and "c_ncli (k_cpus s ! c) = 0"
  shows "release PTABLE (taken c PTABLE (sti s)) = Inr (probed c (sti s))"
    and "calm (probed c (sti s)) c" and "c_ncli (k_cpus (probed c (sti s)) ! c) = 0"
    and "ps_proc (probed c (sti s)) = ps_proc s"
  using assms ptable_section_proc(2) [OF calm_ready, of "sti s" c] by (simp_all, simp_all add: sti_def)

lemma pbs_iter_idle:
  assumes "calm s c" and "c_ncli (k_cpus s ! c) = 0"
    and "\<forall>q<length (ps_proc s). p_state (ps_proc s ! q) = RUNNABLE \<longrightarrow> 101 < p_priority (ps_proc s ! q)"
  shows "pbs_iter run c s = Inr (probed c (sti s))"
proof -
  note L = scheduler_lock [OF assms(1,2)]
  have "getMinPrio (taken c PTABLE (sti s)) \<le> 101" by (rule getMinPrio_le)
  then have "pbs_scan run c [0..<length (ps_proc s)] (getMinPrio (taken c PTABLE (sti s))) (taken c PTABLE (sti s))
      = Inr (taken c PTABLE (sti s))"
    using assms(3) L(3) by (intro pbs_scan_none [of _ s]) auto
  then show ?thesis
    using L sti_release_calm(1) [OF assms(1,2)] by (simp add: pbs_iter_def)
qed

text \<open>
  Priority values above 101 starve: \<open>getMinPrio\<close> starts from 101 and \<open>set_priority\<close> accepts any
  value, so as long as every runnable process has a higher value, no number of scheduler
  iterations dispatches any of them.
\<close>

theorem pbs_starves_above_101:
  assumes "calm s c" and "c_ncli (k_cpus s ! c) = 0"
    and "\<forall>q<length (ps_proc s). p_state (ps_proc s ! q) = RUNNABLE \<longrightarrow> 101 < p_priority (ps_proc s ! q)"
  shows "\<exists>t. times n (pbs_iter run c) s = Inr t \<and> ps_proc t = ps_proc s"
  using assms
proof (induction n arbitrary: s)
  case (Suc n)
  note S = sti_release_calm [OF Suc.prems(1,2)]
  obtain t where "times n (pbs_iter run c) (probed c (sti s)) = Inr t" "ps_proc t = ps_proc s"
    using Suc.IH [OF S(2,3)] Suc.prems(3) S(4) by auto
  then show ?case using pbs_iter_idle [OF Suc.prems] by simp
qed simp

theorem pbs_starves_above_101_witness:
  "\<exists>t. times 1000 (pbs_iter yield_turn 0) (ready_state [ready_proc 3 150 0]) = Inr t
     \<and> ps_proc t = [ready_proc 3 150 0]"
  using pbs_starves_above_101 [OF ready_state_calm(1,2), of "[ready_proc 3 150 0]" 1000 yield_turn]
  by (simp add: ready_state_calm(3) ready_proc_def)

section \<open>Feedback queues: turns\<close>

text \<open>
  The state in which the process runs: it owns the processor and has a slice of \<open>2 ^ lvl\<close> ticks.
\<close>

definition mlfq_start :: "nat \<Rightarrow> int \<times> nat \<Rightarrow> 'a pst_scheme \<Rightarrow> 'a pst_scheme" where
  "mlfq_start c lp s = (case lp of (lvl, p) \<Rightarrow>
     upd_proc p (\<lambda>x. x\<lparr>p_ticks := 2 ^ nat lvl, p_state := RUNNING, p_n_run := p_n_run x + 1\<rparr>)
       (upd_cpu c (\<lambda>x. x\<lparr>c_esp0 := p_kstack (ps_proc s ! p) + KSTACKSIZE,
           c_cr3 := V2P (p_pgdir (ps_proc s ! p))\<rparr>) (set_cpu_proc c (Some p) s)))"

lemma mlfq_turn_eq:
  assumes run: "turn_ok run c" and ctx: "sched_ctx s c" "tasks_ok s" "p < length (ps_proc s)"
    and r: "p_state (ps_proc s ! p) = RUNNABLE"
  obtains u where "run p (mlfq_start c (l, p) s) = Inr u" "sched_ctx u c"
    "c_proc (k_cpus u ! c) = Some p" "length (ps_proc u) = length (ps_proc s)"
    "mlfq_turn run c (l, p) s = Inr ((upd_cpu c (\<lambda>x. x\<lparr>c_cr3 := V2P (ps_kpgdir u)\<rparr>) u)
       \<lparr>ps_proc := map (mlfq_age1 (ps_ticks u)) ((ps_proc u)[p := mlfq_demote (ps_proc u ! p)])\<rparr>)"
proof -
  have kp: "p_kstack (ps_proc s ! p) \<noteq> 0" "p_pgdir (ps_proc s ! p) \<noteq> 0"
    using ctx r by (auto simp: tasks_ok_def)
  have len: "c < length (k_cpus s)" using ctx(1) by (auto simp: sched_ctx_def here_less)
  let ?s0 = "set_cpu_proc c (Some p) s"
  let ?s2 = "mlfq_start c (l, p) s"
  have sw: "switchuvm (Some p) ?s0 = Inr (upd_cpu c (\<lambda>x. x\<lparr>c_esp0 := p_kstack (ps_proc s ! p) + KSTACKSIZE,
           c_cr3 := V2P (p_pgdir (ps_proc s ! p))\<rparr>) ?s0)"
    using switchuvm_eq [of ?s0 c p] ctx(1) kp by simp
  have c2: "sched_ctx ?s2 c" using ctx(1) by (simp add: mlfq_start_def sched_ctx_upd_cpu)
  have t2: "tasks_ok ?s2" using ctx(2,3) by (auto simp: mlfq_start_def tasks_ok_def nth_upd_proc)
  have p2: "c_proc (k_cpus ?s2 ! c) = Some p" "p_state (ps_proc ?s2 ! p) = RUNNING"
      "p_kstack (ps_proc ?s2 ! p) \<noteq> 0" "p_pgdir (ps_proc ?s2 ! p) \<noteq> 0" "p < length (ps_proc ?s2)"
    using len ctx(3) kp
    by (simp_all add: mlfq_start_def nth_upd_proc) (simp add: upd_cpu_def set_cpu_proc_def)
  have ls: "length (ps_proc ?s2) = length (ps_proc s)" by (simp add: mlfq_start_def)
  obtain u where u: "run p ?s2 = Inr u" "sched_ctx u c" "c_proc (k_cpus u ! c) = Some p"
      "length (ps_proc u) = length (ps_proc s)"
    using turn_okD [OF run c2 t2 p2(5) p2(1-4)] ls by metis
  have "mlfq_turn run c (l, p) s = Inr ((upd_cpu c (\<lambda>x. x\<lparr>c_cr3 := V2P (ps_kpgdir u)\<rparr>) u)
       \<lparr>ps_proc := map (mlfq_age1 (ps_ticks u)) ((ps_proc u)[p := mlfq_demote (ps_proc u ! p)])\<rparr>)"
    using sw u(1) switchkvm_eq [OF u(2)]
    by (simp add: mlfq_turn_def Let_def mlfq_start_def) (simp add: upd_proc_def)
  then show ?thesis using that u by blast
qed

lemma mlfq_levels_one:
  fixes d :: bool and ticks :: uint
  assumes "p_state x \<noteq> ZOMBIE" "0 \<le> p_cur_q x" "p_cur_q x \<le> 4"
  defines "lvl \<equiv> (if d \<and> p_ticks x = 0 then min (p_cur_q x + 1) 4 else p_cur_q x)"
    and "y \<equiv> mlfq_age1 ticks (if d then mlfq_demote x else x)"
  shows "(if p_state x = RUNNABLE \<and> ticks - word_of_int (p_toe x) > 2 ^ nat (lvl + 4)
          then p_cur_q y = max (lvl - 1) 0 \<and> p_toe y = sint ticks
          else p_cur_q y = lvl \<and> p_toe y = p_toe x) \<and> 0 \<le> p_cur_q y \<and> p_cur_q y \<le> 4"
proof -
  define z where "z = (if d then mlfq_demote x else x)"
  have z: "p_cur_q z = lvl" "p_toe z = p_toe x" "p_state z = p_state x"
    using assms(1-3) by (auto simp: z_def mlfq_demote_def lvl_def)
  have l: "0 \<le> lvl" "lvl \<le> 4" using assms(2,3) by (auto simp: lvl_def)
  have "y = mlfq_age1 ticks z" by (simp add: y_def z_def)
  then show ?thesis using z l by (auto simp: mlfq_age1_def of_int_power)
qed

text \<open>
  A turn under feedback queues: the process runs with a slice of \<open>2 ^ lvl\<close> ticks; afterwards
  it has moved down one level exactly if it used up the slice (and is not a zombie, and level 4 is
  not left downwards), and then every runnable process that has waited for more than
  \<open>2 ^ (q + 4)\<close> ticks in its queue \<open>q\<close> moves up one level with its waiting time reset. Levels of
  live processes stay between 0 and 4.
\<close>

theorem mlfq_turn_levels:
  assumes "turn_ok run c" and "sched_ctx s c" and "tasks_ok s" and "p < length (ps_proc s)"
    and "p_state (ps_proc s ! p) = RUNNABLE"
  shows "\<exists>t u. run p (mlfq_start c (l, p) s) = Inr u \<and> mlfq_turn run c (l, p) s = Inr t
    \<and> p_ticks (ps_proc (mlfq_start c (l, p) s) ! p) = 2 ^ nat l
    \<and> (\<forall>q<length (ps_proc s).
         let x = ps_proc u ! q; y = ps_proc t ! q;
             lvl = (if q = p \<and> p_ticks x = 0 then min (p_cur_q x + 1) 4 else p_cur_q x)
         in p_state x \<noteq> ZOMBIE \<and> 0 \<le> p_cur_q x \<and> p_cur_q x \<le> 4 \<longrightarrow>
            (if p_state x = RUNNABLE \<and> ps_ticks u - word_of_int (p_toe x) > 2 ^ nat (lvl + 4)
             then p_cur_q y = max (lvl - 1) 0 \<and> p_toe y = sint (ps_ticks u)
             else p_cur_q y = lvl \<and> p_toe y = p_toe x)
            \<and> 0 \<le> p_cur_q y \<and> p_cur_q y \<le> 4)"
proof -
  obtain u where u: "run p (mlfq_start c (l, p) s) = Inr u" "length (ps_proc u) = length (ps_proc s)"
    "mlfq_turn run c (l, p) s = Inr ((upd_cpu c (\<lambda>x. x\<lparr>c_cr3 := V2P (ps_kpgdir u)\<rparr>) u)
       \<lparr>ps_proc := map (mlfq_age1 (ps_ticks u)) ((ps_proc u)[p := mlfq_demote (ps_proc u ! p)])\<rparr>)"
    using mlfq_turn_eq [OF assms] by metis
  let ?t = "(upd_cpu c (\<lambda>x. x\<lparr>c_cr3 := V2P (ps_kpgdir u)\<rparr>) u)
       \<lparr>ps_proc := map (mlfq_age1 (ps_ticks u)) ((ps_proc u)[p := mlfq_demote (ps_proc u ! p)])\<rparr>"
  have "p_ticks (ps_proc (mlfq_start c (l, p) s) ! p) = 2 ^ nat l"
    using assms(4) by (simp add: mlfq_start_def nth_upd_proc)
  moreover have "ps_proc ?t ! q = mlfq_age1 (ps_ticks u) (if q = p then mlfq_demote (ps_proc u ! q) else ps_proc u ! q)"
    if "q < length (ps_proc s)" for q
    using that u(2) by (auto simp: nth_list_update)
  ultimately show ?thesis
    using u(1,3) mlfq_levels_one
    by (intro exI [of _ ?t] exI [of _ u]) (simp add: Let_def)
qed

text \<open>A turn that ends in \<open>sleep\<close>: its net effect is that the process is asleep.\<close>

definition nap_turn :: "'a turn" where
  "nap_turn p s = Inr (asleep p ChTicks s)"

lemma nap_turn_ok: "turn_ok nap_turn c"
  by (auto simp: turn_ok_def nap_turn_def asleep_def tasks_ok_def nth_upd_proc)

lemma ready_sched_ctx:
  "sched_ctx (taken 0 PTABLE (sti (ready_state ps))) 0" "ps_proc (taken 0 PTABLE (sti (ready_state ps))) = ps"
  using scheduler_lock [OF ready_state_calm(1,2), of ps] by (simp_all add: ready_state_calm(3))

theorem mlfq_turn_levels_witness:
  "\<exists>t u. nap_turn 0 (mlfq_start 0 (0, 0) (taken 0 PTABLE (sti (ready_state [ready_proc 1 60 0])))) = Inr u
     \<and> mlfq_turn nap_turn 0 (0, 0) (taken 0 PTABLE (sti (ready_state [ready_proc 1 60 0]))) = Inr t
     \<and> p_ticks (ps_proc (mlfq_start 0 (0, 0) (taken 0 PTABLE (sti (ready_state [ready_proc 1 60 0])))) ! 0) = 1"
proof -
  let ?s = "taken 0 PTABLE (sti (ready_state [ready_proc 1 60 0]))"
  have "tasks_ok ?s" by (simp only: tasks_ok_def ready_sched_ctx) (simp add: ready_proc_def first_proc_def)
  from mlfq_turn_levels [OF nap_turn_ok ready_sched_ctx(1) this, of 0 0]
  show ?thesis by (simp only: ready_sched_ctx) (auto simp: ready_proc_def)
qed

lemma mlfq_search_runnable:
  assumes "mlfq_search [0, 1, 2, 3, 4] ps = Some (l, p)"
  shows "p < length ps" and "p_state (ps ! p) = RUNNABLE"
  using mlfq_search_SomeD [OF assms] mlfq_pick_cases [where lvl = l and ps = ps]
  by (auto simp: least_index_def)

text \<open>
  The feedback-queue scheduler never clears the processor's current process: when it has found
  no more process to run and unlocks the process table, \<open>myproc\<close> on the idle processor still
  returns the process that ran last, which the next clock interrupt then charges.
\<close>

theorem mlfq_leaves_stale_process:
  assumes run: "turn_ok run c" and s: "calm s c" "c_ncli (k_cpus s ! c) = 0" "tasks_ok s"
    and pick: "mlfq_search [0, 1, 2, 3, 4] (ps_proc s) = Some (l, p)"
    and idle: "\<forall>t. mlfq_turn run c (l, p) (taken c PTABLE (sti s)) = Inr t \<longrightarrow>
        mlfq_search [0, 1, 2, 3, 4] (ps_proc t) = None"
  shows "\<exists>t. mlfq_iter (Suc n) run c s = Inr (True, t) \<and> c_proc (k_cpus t ! c) = Some p"
proof -
  note L = scheduler_lock [OF s(1,2)]
  let ?s = "taken c PTABLE (sti s)"
  have tk: "tasks_ok ?s" using s(3) L(3) by (simp add: tasks_ok_def)
  have p: "p < length (ps_proc ?s)" "p_state (ps_proc ?s ! p) = RUNNABLE"
    using mlfq_search_runnable [OF pick] L(3) by simp_all
  obtain u where u: "sched_ctx u c" "c_proc (k_cpus u ! c) = Some p"
    "mlfq_turn run c (l, p) ?s = Inr ((upd_cpu c (\<lambda>x. x\<lparr>c_cr3 := V2P (ps_kpgdir u)\<rparr>) u)
       \<lparr>ps_proc := map (mlfq_age1 (ps_ticks u)) ((ps_proc u)[p := mlfq_demote (ps_proc u ! p)])\<rparr>)"
    (is "_ = Inr ?t")
    using mlfq_turn_eq [OF run L(2) tk p] by metis
  have "c < length (k_cpus u)" using u(1) by (auto simp: sched_ctx_def here_less)
  then have ct: "c_proc (k_cpus ?t ! c) = Some p" "sched_ctx ?t c"
    using u(1,2) by (simp_all add: sched_ctx_upd_cpu) (simp add: upd_cpu_def)
  obtain v where v: "release PTABLE ?t = Inr v" "c_proc (k_cpus v ! c) = Some p"
    using scheduler_unlock [OF ct(2)] ct(1) by auto
  have none: "mlfq_search [0, 1, 2, 3, 4] (ps_proc ?t) = None" using idle u(3) by blast
  have "mlfq_loop (Suc n) run c ?s = mlfq_loop n run c ?t"
    using pick L(3) u(3) by (simp only: mlfq_loop.simps [of "Suc n"]) simp
  also have "\<dots> = Inr (True, ?t)" using none by (subst mlfq_loop.simps) simp
  finally show ?thesis using L(1) v by (simp add: mlfq_iter_def del: mlfq_loop.simps)
qed

theorem mlfq_leaves_stale_process_witness:
  "\<exists>t. mlfq_iter 5 nap_turn 0 (ready_state [ready_proc 1 60 0]) = Inr (True, t)
     \<and> c_proc (k_cpus t ! 0) = Some 0"
proof -
  let ?s = "ready_state [ready_proc 1 60 0]"
  have tk: "tasks_ok ?s" by (simp add: tasks_ok_def ready_state_calm(3) ready_proc_def first_proc_def)
  have pick: "mlfq_search [0, 1, 2, 3, 4] (ps_proc ?s) = Some (0, 0)"
    by (simp add: ready_state_calm(3) mlfq_pick_def ready_proc_def first_proc_def unused_proc_def)
  have tk': "tasks_ok (taken 0 PTABLE (sti ?s))"
    using tk by (simp only: tasks_ok_def ready_sched_ctx ready_state_calm(3))
  have "mlfq_search [0, 1, 2, 3, 4] (ps_proc t) = None"
    if t: "mlfq_turn nap_turn 0 (0, 0) (taken 0 PTABLE (sti ?s)) = Inr t" for t
  proof -
    have p0: "0 < length (ps_proc (taken 0 PTABLE (sti ?s)))"
        "p_state (ps_proc (taken 0 PTABLE (sti ?s)) ! 0) = RUNNABLE"
      by (simp_all only: ready_sched_ctx(2)) (simp_all add: ready_proc_def)
    obtain u where u1: "nap_turn 0 (mlfq_start 0 (0, 0) (taken 0 PTABLE (sti ?s))) = Inr u"
      and "mlfq_turn nap_turn 0 (0, 0) (taken 0 PTABLE (sti ?s))
        = Inr ((upd_cpu 0 (\<lambda>x. x\<lparr>c_cr3 := V2P (ps_kpgdir u)\<rparr>) u)
            \<lparr>ps_proc := map (mlfq_age1 (ps_ticks u)) ((ps_proc u)[0 := mlfq_demote (ps_proc u ! 0)])\<rparr>)"
      by (rule mlfq_turn_eq [OF nap_turn_ok ready_sched_ctx(1) tk' p0])
    then have u2: "ps_proc t = map (mlfq_age1 (ps_ticks u)) ((ps_proc u)[0 := mlfq_demote (ps_proc u ! 0)])"
      using t by auto
    have "u = asleep 0 ChTicks (mlfq_start 0 (0, 0) (taken 0 PTABLE (sti ?s)))"
      using u1 by (simp add: nap_turn_def)
    then have "length (ps_proc u) = 1" "p_state (ps_proc u ! 0) = SLEEPING"
      by (simp_all add: asleep_def mlfq_start_def nth_upd_proc ready_sched_ctx(2) [simplified])
    then have "ps_proc t = [mlfq_age1 (ps_ticks u) (mlfq_demote (ps_proc u ! 0))]"
        "p_state (mlfq_age1 (ps_ticks u) (mlfq_demote (ps_proc u ! 0))) = SLEEPING"
      using u2 by (cases "ps_proc u", auto simp: mlfq_age1_def mlfq_demote_def)
    then show ?thesis by (simp add: mlfq_pick_def)
  qed
  then show ?thesis
    using mlfq_leaves_stale_process [OF nap_turn_ok ready_state_calm(1,2) tk pick, of 4]
    by (simp add: eval_nat_numeral)
qed

end
