(* ===== verification/Trap.thy ===== *)
theory Trap
  imports Exec Sched
begin

unbundle bit_operations_syntax

text \<open>
  The trap handler. Each scheduler file has its own copy of \<open>trap\<close>: \<^verbatim>\<open>RR.c\<close> and \<^verbatim>\<open>PBS.c\<close> yield on every
  timer tick, \<^verbatim>\<open>FCFS.c\<close> never does, \<^verbatim>\<open>MLFQ.c\<close> counts the ticks of the running process and yields when
  its slice is used up. The parts that the four copies share are defined once and take what differs
  as arguments.

  Repeated calls of \<open>myproc()\<close> in one condition are one call of the model: it changes nothing that a
  second call would see. What the devices deliver is an argument: the characters that \<open>kbdgetc\<close> and
  \<open>uartgetc\<close> return before they report that there are no more, and the faulting address. The
  acknowledgement to the interrupt controller (\<open>lapiceoi\<close>) and \<open>ideintr\<close> of \<^verbatim>\<open>memide.c\<close> have no effect.
\<close>

definition T_SYSCALL :: uint where "T_SYSCALL = 64"
definition T_IRQ0 :: uint where "T_IRQ0 = 32"
definition IRQ_TIMER :: uint where "IRQ_TIMER = 0"
definition IRQ_KBD :: uint where "IRQ_KBD = 1"
definition IRQ_COM1 :: uint where "IRQ_COM1 = 4"
definition IRQ_IDE :: uint where "IRQ_IDE = 14"
definition IRQ_SPURIOUS :: uint where "IRQ_SPURIOUS = 31"

record devices =
  dv_kbd :: "int list"
  dv_com1 :: "int list"
  dv_cr2 :: uint

definition tvinit :: "'a kst_scheme \<Rightarrow> 'a kst_scheme" where
  "tvinit s = initlock TICKSLOCK ''time'' s"

section \<open>The clock\<close>

text \<open>What a tick charges to the process on the processor.\<close>

definition tick_account :: "proc \<Rightarrow> proc" where
  "tick_account x =
     (if p_state x = RUNNING then x\<lparr>p_rtime := p_rtime x + 1\<rparr>
      else if p_state x = SLEEPING then x\<lparr>p_iotime := p_iotime x + 1\<rparr> else x)"

definition mlfq_account :: "proc \<Rightarrow> proc" where
  "mlfq_account x =
     (if p_state x = RUNNING
      then let x = x\<lparr>p_rtime := p_rtime x + 1, p_ticks := p_ticks x - 1\<rparr>
           in if p_cur_q x = 0 then x\<lparr>p_q0 := p_q0 x + 1\<rparr>
              else if p_cur_q x = 1 then x\<lparr>p_q1 := p_q1 x + 1\<rparr>
              else if p_cur_q x = 2 then x\<lparr>p_q2 := p_q2 x + 1\<rparr>
              else if p_cur_q x = 3 then x\<lparr>p_q3 := p_q3 x + 1\<rparr>
              else if p_cur_q x = 4 then x\<lparr>p_q4 := p_q4 x + 1\<rparr> else x
      else if p_state x = SLEEPING then x\<lparr>p_iotime := p_iotime x + 1\<rparr> else x)"

definition timer_tick :: "(proc \<Rightarrow> proc) \<Rightarrow> 'a pst_scheme \<Rightarrow> failure + 'a pst_scheme" where
  "timer_tick account s =
     andThen (cpuid s) (\<lambda>i.
     if i = 0
     then andThen (acquire TICKSLOCK s) (\<lambda>s.
          let s = s\<lparr>ps_ticks := ps_ticks s + 1\<rparr>
          in andThen (myproc s) (\<lambda>(c, s).
             let s = (case c of None \<Rightarrow> s | Some p \<Rightarrow> upd_proc p account s)
             in andThen (wakeup ChTicks s) (release TICKSLOCK)))
     else Inr s)"

section \<open>Interrupts and faults\<close>

definition ignore_listing :: "failure + 'b \<times> 'a \<Rightarrow> failure + 'a" where
  "ignore_listing m = andThen m (\<lambda>(_, s). Inr s)"

text \<open>The default case: a fault in the kernel is fatal, a fault of a process kills it.\<close>

definition trap_fault :: "uint \<Rightarrow> devices \<Rightarrow> 'a cst_scheme \<Rightarrow> failure + 'a cst_scheme" where
  "trap_fault tf dv s =
     andThen (myproc s) (\<lambda>(c, s).
     let trapno = mem_load (tf + tf_trapno) s;
         eip = mem_load (tf + tf_eip) s;
         cs = mem_load (tf + tf_cs) s AND 0xFFFF
     in if c = None \<or> cs AND 3 = 0
        then andThen (cpuid s) (\<lambda>i.
             andThen (cprintf (''unexpected trap %d from cpu %d eip %x (cr2=0x%x)'' @ [CHR 0x0A])
               [PInt (sint trapno), PInt (int i), PInt (sint eip), PInt (sint (dv_cr2 dv))] s) (\<lambda>s.
             Inl (Panic ''trap'')))
        else deref c (\<lambda>p.
             andThen (cpuid s) (\<lambda>i.
             andThen (cprintf (''pid %d %s: trap %d err %d on cpu %d eip 0x%x addr 0x%x--kill proc'' @ [CHR 0x0A])
               [PInt (p_pid (ps_proc s ! p)), PStr (Some (takeWhile (\<lambda>c. c \<noteq> 0) (p_name (ps_proc s ! p)))),
                PInt (sint trapno), PInt (sint (mem_load (tf + tf_err) s)), PInt (int i), PInt (sint eip),
                PInt (sint (dv_cr2 dv))] s) (\<lambda>s.
             Inr (upd_proc p (\<lambda>x. x\<lparr>p_killed := 1\<rparr>) s)))))"

definition trap_dispatch :: "(proc \<Rightarrow> proc) \<Rightarrow> uint \<Rightarrow> devices \<Rightarrow> 'a cst_scheme \<Rightarrow> failure + 'a cst_scheme" where
  "trap_dispatch account tf dv s =
     (let trapno = mem_load (tf + tf_trapno) s
      in if trapno = T_IRQ0 + IRQ_TIMER then timer_tick account s
         else if trapno = T_IRQ0 + IRQ_IDE \<or> trapno = T_IRQ0 + IRQ_IDE + 1 then Inr s
         else if trapno = T_IRQ0 + IRQ_KBD then ignore_listing (consoleintr (dv_kbd dv) s)
         else if trapno = T_IRQ0 + IRQ_COM1 then ignore_listing (consoleintr (dv_com1 dv) s)
         else if trapno = T_IRQ0 + 7 \<or> trapno = T_IRQ0 + IRQ_SPURIOUS
         then andThen (cpuid s) (\<lambda>i.
              cprintf (''cpu%d: spurious interrupt at %x:%x'' @ [CHR 0x0A])
                [PInt (int i), PInt (uint (mem_load (tf + tf_cs) s AND 0xFFFF)), PInt (sint (mem_load (tf + tf_eip) s))] s)
         else trap_fault tf dv s)"

section \<open>The handler\<close>

text \<open>A killed process that was interrupted in user space exits.\<close>

definition exit_if_killed :: "uint \<Rightarrow> 'a flst_scheme \<Rightarrow> ('a flst_scheme \<Rightarrow> failure + unit ctl \<times> 'a flst_scheme) \<Rightarrow>
    failure + unit ctl \<times> 'a flst_scheme" where
  "exit_if_killed tf s k =
     andThen (myproc s) (\<lambda>(c, s).
     if (case c of None \<Rightarrow> False | Some p \<Rightarrow> p_killed (ps_proc s ! p) \<noteq> 0) \<and> mem_load (tf + tf_cs) s AND 3 = DPL_USER
     then andThen (exit s) (\<lambda>(intena, s). Inr (Off intena, s))
     else k s)"

definition trap_end :: "uint \<Rightarrow> 'a flst_scheme \<Rightarrow> failure + unit ctl \<times> 'a flst_scheme" where
  "trap_end tf s = exit_if_killed tf s (\<lambda>s. Inr (Ret (), s))"

definition trap_syscall :: "uint \<Rightarrow> uint \<Rightarrow> 'a flst_scheme \<Rightarrow> failure + unit ctl \<times> 'a flst_scheme" where
  "trap_syscall vdata tf s =
     andThen (myproc s) (\<lambda>(c, s). deref c (\<lambda>p.
     if p_killed (ps_proc s ! p) \<noteq> 0
     then andThen (exit s) (\<lambda>(intena, s). Inr (Off intena, s))
     else andThen (syscall vdata (upd_proc p (\<lambda>x. x\<lparr>p_tf := tf\<rparr>) s)) (\<lambda>(r, s).
       case r of Off intena \<Rightarrow> Inr (Off intena, s)
       | Ret _ \<Rightarrow> andThen (myproc s) (\<lambda>(c, s). deref c (\<lambda>p.
           if p_killed (ps_proc s ! p) \<noteq> 0
           then andThen (exit s) (\<lambda>(intena, s). Inr (Off intena, s))
           else Inr (Ret (), s))))))"

text \<open>
  The whole handler up to the return or to the point where the process leaves the processor. A
  process that comes back from \<open>yield\<close> goes on with \<open>trap_resume\<close>.
\<close>

definition trap_with :: "(proc \<Rightarrow> proc) \<Rightarrow> (proc \<Rightarrow> bool) \<Rightarrow> uint \<Rightarrow> uint \<Rightarrow> devices \<Rightarrow> 'a flst_scheme \<Rightarrow>
    failure + unit ctl \<times> 'a flst_scheme" where
  "trap_with account yields_now vdata tf dv s =
     (if mem_load (tf + tf_trapno) s = T_SYSCALL then trap_syscall vdata tf s
      else andThen (trap_dispatch account tf dv s) (\<lambda>s.
        exit_if_killed tf s (\<lambda>s.
        andThen (myproc s) (\<lambda>(c, s).
        if (case c of None \<Rightarrow> False
            | Some p \<Rightarrow> p_state (ps_proc s ! p) = RUNNING \<and> mem_load (tf + tf_trapno) s = T_IRQ0 + IRQ_TIMER
                \<and> yields_now (ps_proc s ! p))
        then andThen (yield_off s) (\<lambda>(intena, s). Inr (Off intena, s))
        else trap_end tf s))))"

definition trap_resume :: "uint \<Rightarrow> bool \<Rightarrow> 'a flst_scheme \<Rightarrow> failure + unit ctl \<times> 'a flst_scheme" where
  "trap_resume tf intena s = andThen (yield_on intena s) (trap_end tf)"

definition rr_trap :: "uint \<Rightarrow> uint \<Rightarrow> devices \<Rightarrow> 'a flst_scheme \<Rightarrow> failure + unit ctl \<times> 'a flst_scheme" where
  "rr_trap = trap_with tick_account (\<lambda>_. True)"

definition fcfs_trap :: "uint \<Rightarrow> uint \<Rightarrow> devices \<Rightarrow> 'a flst_scheme \<Rightarrow> failure + unit ctl \<times> 'a flst_scheme" where
  "fcfs_trap = trap_with tick_account (\<lambda>_. False)"

definition pbs_trap :: "uint \<Rightarrow> uint \<Rightarrow> devices \<Rightarrow> 'a flst_scheme \<Rightarrow> failure + unit ctl \<times> 'a flst_scheme" where
  "pbs_trap = trap_with tick_account (\<lambda>_. True)"

definition mlfq_trap :: "uint \<Rightarrow> uint \<Rightarrow> devices \<Rightarrow> 'a flst_scheme \<Rightarrow> failure + unit ctl \<times> 'a flst_scheme" where
  "mlfq_trap = trap_with mlfq_account (\<lambda>x. p_ticks x \<le> 0)"

end
