(* ===== verification/Txn.thy ===== *)
theory Txn
  imports Log
begin

unbundle bit_operations_syntax

text \<open>
  Transactions of the log: \<open>begin_op\<close>, \<open>log_write\<close> and \<open>end_op\<close> of \<^verbatim>\<open>log.c\<close> around the updates of a system
  call. The invariant \<open>in_txn\<close> says that the header in memory names the dirty blocks, each once; the
  theorems show that a transaction reaches the disk as a whole or not at all, wherever a crash cuts
  the sequence of disk writes.
\<close>

section \<open>Transactions\<close>

text \<open>The critical sections of \<open>begin_op\<close> and \<open>log_write\<close>, without the lock.\<close>

definition log_index :: "uint \<Rightarrow> int \<Rightarrow> int list \<Rightarrow> nat" where
  "log_index no n bs = (case first_index (\<lambda>x. word_of_int x = no) (take (nat n) bs) of
     Some i \<Rightarrow> i | None \<Rightarrow> nat n)"

definition log_mark :: "nat \<Rightarrow> 'a lst_scheme \<Rightarrow> 'a lst_scheme" where
  "log_mark b s = (let no = b_blockno (bc_buf s ! b); j = log_index no (lg_n s) (lg_block s) in
     upd_buf b (\<lambda>x. x\<lparr>b_flags := b_flags x OR B_DIRTY\<rparr>)
       (s\<lparr>lg_block := (lg_block s)[j := sint no], lg_n := (if int j = lg_n s then lg_n s + 1 else lg_n s)\<rparr>))"

lemma log_mark_frame:
  "dk_blocks (log_mark b s) = dk_blocks s" "dk_writes (log_mark b s) = dk_writes s" "dk_size (log_mark b s) = dk_size s"
  "lg_outstanding (log_mark b s) = lg_outstanding s" "lg_size (log_mark b s) = lg_size s" "lg_start (log_mark b s) = lg_start s"
  "lg_dev (log_mark b s) = lg_dev s" "lg_committing (log_mark b s) = lg_committing s" "lst.more (log_mark b s) = lst.more s"
  by (simp_all add: log_mark_def Let_def upd_buf_def)

lemma log_write_eq:
  assumes c: "calm s i"
  shows "log_write b s =
    (if lg_n s \<ge> LOGSIZE \<or> lg_n s \<ge> lg_size s - 1 then Inl (Panic ''too big a transaction'')
     else if lg_outstanding s < 1 then Inl (Panic ''log_write outside of trans'')
     else Inr (log_mark b (probed i s)))"
proof -
  let ?t = "log_mark b (taken i LOGLOCK s)"
  have "in_crit ?t s i LOGLOCK" using in_crit_taken [of i LOGLOCK s] by (simp add: in_crit_def log_mark_def upd_buf_def Let_def)
  moreover have "left_crit i s ?t = log_mark b (probed i s)"
    unfolding left_crit_taken [of i s LOGLOCK, symmetric] by (simp add: left_crit_def log_mark_def upd_buf_def Let_def)
  ultimately have "release LOGLOCK ?t = Inr (log_mark b (probed i s))" using release_in_crit [OF calm_ready [OF c]] by metis
  moreover have "log_write b s =
    (if lg_n s \<ge> LOGSIZE \<or> lg_n s \<ge> lg_size s - 1 then Inl (Panic ''too big a transaction'')
     else if lg_outstanding s < 1 then Inl (Panic ''log_write outside of trans'') else release LOGLOCK ?t)"
    unfolding log_write_def acquire_calm [OF c] andThen_Inr log_mark_def log_index_def
    by (simp add: Let_def upd_buf_def)
  ultimately show ?thesis by simp
qed

lemma log_frame [simp]:
  "lg_n (probed i s) = lg_n s" "lg_block (probed i s) = lg_block s" "lg_start (probed i s) = lg_start s"
  "lg_size (probed i s) = lg_size s" "lg_dev (probed i s) = lg_dev s" "lg_outstanding (probed i s) = lg_outstanding s"
  "lg_committing (probed i s) = lg_committing s" "lst.more (probed i s) = lst.more s"
  by (simp_all add: probed_def)

lemma begin_op_eq:
  assumes c: "calm s i" and go: "\<not> lg_committing s" "lg_n s + (lg_outstanding s + 1) * MAXOPBLOCKS \<le> LOGSIZE"
  shows "begin_op s = Inr ((probed i s)\<lparr>lg_outstanding := lg_outstanding s + 1\<rparr>)"
proof -
  let ?t = "(taken i LOGLOCK s)\<lparr>lg_outstanding := lg_outstanding s + 1\<rparr>"
  have "in_crit ?t s i LOGLOCK" using in_crit_taken [of i LOGLOCK s] by (simp add: in_crit_def)
  moreover have "left_crit i s ?t = (probed i s)\<lparr>lg_outstanding := lg_outstanding s + 1\<rparr>"
    unfolding left_crit_taken [of i s LOGLOCK, symmetric] by (simp add: left_crit_def)
  ultimately have "release LOGLOCK ?t = Inr ((probed i s)\<lparr>lg_outstanding := lg_outstanding s + 1\<rparr>)"
    using release_in_crit [OF calm_ready [OF c]] by metis
  moreover have "lg_committing (taken i LOGLOCK s) = lg_committing s" "lg_n (taken i LOGLOCK s) = lg_n s"
    "lg_outstanding (taken i LOGLOCK s) = lg_outstanding s"
    by (simp_all add: taken_def upd_lock_def pushed_def)
  ultimately show ?thesis using go
    by (simp add: begin_op_def begin_op_start_def begin_op_iter_def acquire_calm [OF c])
qed

text \<open>
  A transaction in progress: the header in memory names the dirty blocks, each once.
\<close>

definition in_txn :: "nat \<Rightarrow> nat \<Rightarrow> nat set \<Rightarrow> 'a lst_scheme \<Rightarrow> bool" where
  "in_txn i p H s \<longleftrightarrow> cache_inv i p H s \<and> 0 \<le> lg_n s \<and> lg_n s \<le> LOGSIZE \<and> length (lg_block s) = nat LOGSIZE
     \<and> dirty_blocks s = home s ` {..<nat (lg_n s)} \<and> inj_on (home s) {..<nat (lg_n s)}"

lemma bex_set_nth: "(\<exists>x\<in>set xs. P x) \<longleftrightarrow> (\<exists>j<length xs. P (xs ! j))"
  by (metis in_set_conv_nth)

lemma log_index:
  assumes t: "in_txn i p H s" and n: "lg_n s < LOGSIZE"
  shows "no \<in> dirty_blocks s \<Longrightarrow> log_index no (lg_n s) (lg_block s) < nat (lg_n s) \<and> home s (log_index no (lg_n s) (lg_block s)) = no"
    and "no \<notin> dirty_blocks s \<Longrightarrow> log_index no (lg_n s) (lg_block s) = nat (lg_n s)"
proof -
  have len: "length (take (nat (lg_n s)) (lg_block s)) = nat (lg_n s)" using t n by (auto simp: in_txn_def min_def)
  have d: "no \<in> dirty_blocks s \<longleftrightarrow> (\<exists>j<nat (lg_n s). home s j = no)" using t by (auto simp: in_txn_def)
  have m: "(\<exists>j<nat (lg_n s). home s j = no) \<longleftrightarrow> (\<exists>x\<in>set (take (nat (lg_n s)) (lg_block s)). word_of_int x = no)"
    unfolding home_def bex_set_nth len by auto
  show "log_index no (lg_n s) (lg_block s) = nat (lg_n s)" if "no \<notin> dirty_blocks s"
  proof -
    have "first_index (\<lambda>x. word_of_int x = no) (take (nat (lg_n s)) (lg_block s)) = None"
      using that d m by (auto simp: first_index_None_iff)
    then show ?thesis by (simp add: log_index_def)
  qed
  show "log_index no (lg_n s) (lg_block s) < nat (lg_n s) \<and> home s (log_index no (lg_n s) (lg_block s)) = no" if "no \<in> dirty_blocks s"
  proof (cases "first_index (\<lambda>x. word_of_int x = no) (take (nat (lg_n s)) (lg_block s))")
    case None
    then show ?thesis using that d m by (auto simp: first_index_None_iff)
  next
    case (Some j)
    then have "j < nat (lg_n s)" "word_of_int (take (nat (lg_n s)) (lg_block s) ! j) = no"
      unfolding first_index_Some_iff len by auto
    then show ?thesis using Some by (simp add: log_index_def home_def)
  qed
qed

lemma extend_image:
  assumes "\<And>k. k < n \<Longrightarrow> g k = f k"
  shows "g ` {..<Suc n} = insert (g n) (f ` {..<n})"
    and "inj_on f {..<n} \<Longrightarrow> g n \<notin> f ` {..<n} \<Longrightarrow> inj_on g {..<Suc n}"
proof -
  have i: "g ` {..<n} = f ` {..<n}" using assms by (intro image_cong) auto
  have j: "inj_on g {..<n} = inj_on f {..<n}" using assms by (intro inj_on_cong) auto
  show "g ` {..<Suc n} = insert (g n) (f ` {..<n})" using i by (simp add: lessThan_Suc)
  show "inj_on g {..<Suc n}" if "inj_on f {..<n}" "g n \<notin> f ` {..<n}"
    using that i j by (simp add: lessThan_Suc inj_on_insert)
qed

lemma log_write_in_txn:
  assumes t: "in_txn i p H s" and b: "b \<in> H" "has_block s no b"
    and room: "lg_n s < LOGSIZE" "lg_n s < lg_size s - 1" "1 \<le> lg_outstanding s"
  obtains u where "log_write b s = Inr u" "in_txn i p H u" "dirty_blocks u = insert no (dirty_blocks s)"
    "view u = view s" "dk_blocks u = dk_blocks s" "dk_writes u = dk_writes s" "\<And>c n. has_block u n c = has_block s n c"
    "lg_n u = (if no \<in> dirty_blocks s then lg_n s else lg_n s + 1)" "lg_outstanding u = lg_outstanding s"
    "lg_size u = lg_size s" "lg_start u = lg_start s" "lg_dev u = lg_dev s" "dk_size u = dk_size s" "lg_committing u = lg_committing s"
    "lst.more u = lst.more s"
proof -
  have inv: "cache_inv i p H s" using t by (simp add: in_txn_def)
  note D = cache_invD [OF inv]
  have lt: "b < NBUF" using D(11) b(1) by auto
  let ?u = "log_mark b (probed i s)" and ?x = "(bc_buf s ! b)\<lparr>b_flags := b_flags (bc_buf s ! b) OR B_DIRTY\<rparr>"
  let ?j = "log_index no (lg_n s) (lg_block s)"
  have no: "b_blockno (bc_buf s ! b) = no" "b_dev (bc_buf s ! b) = 1" using b(2) by (auto simp: has_block_def)
  have w: "log_write b s = Inr ?u" using log_write_eq [OF D(2), of b] room by simp
  have buf: "bc_buf ?u = (bc_buf s)[b := ?x]" by (simp add: log_mark_def Let_def bc_buf_upd_buf)
  have lb: "lg_block ?u = (lg_block s)[?j := sint no]" "lg_n ?u = (if int ?j = lg_n s then lg_n s + 1 else lg_n s)"
    using no by (simp_all add: log_mark_def Let_def upd_buf_def)
  have so: "slot_ok True (p_pid (ps_proc s ! p)) (dk_blocks s) (bc_buf s ! b) (sl_tab s (BufLock b))"
    using inv lt b(1) by (auto simp: cache_inv_def)
  have dx: "bdirty ?x" by (simp add: bdirty_bit bit_simps flag_bits)
  have inv': "cache_inv i p H ?u"
  proof (rule cache_inv_upd [OF inv _ lt _ buf])
    show "slot_ok (b \<in> H) (p_pid (ps_proc s ! p)) (dk_blocks ?u) ?x (sl_tab ?u (BufLock b))"
      using so b(1) no by (simp add: slot_ok_def log_mark_def Let_def bvalid_bit bit_simps)
    have "at_proc (probed i s) i p" using D(1) by simp
    then show "at_proc ?u i p"
      by (simp add: at_proc_def calm_def here_def cli_ok_def idle_lock_def log_mark_def Let_def upd_buf_def)
  qed (use D in \<open>simp_all add: log_mark_def Let_def upd_buf_def\<close>)
  have vw: "view ?u = view s"
    using view_upd [OF inv inv' lt b(2) buf] view_cached [OF inv lt b(2)]
    by (simp add: log_mark_def Let_def upd_buf_def bdata_def fun_upd_idem)
  have dirty: "dirty_blocks ?u = insert no (dirty_blocks s)" using dirty_blocks_upd [OF inv lt b(2) buf] dx by simp
  have n: "0 \<le> lg_n s" "length (lg_block s) = nat LOGSIZE" "dirty_blocks s = home s ` {..<nat (lg_n s)}"
    "inj_on (home s) {..<nat (lg_n s)}" using t by (auto simp: in_txn_def)
  have "in_txn i p H ?u \<and> lg_n ?u = (if no \<in> dirty_blocks s then lg_n s else lg_n s + 1)"
  proof (cases "no \<in> dirty_blocks s")
    case True
    from log_index(1) [OF t room(1) True] have j: "?j < nat (lg_n s)" "home s ?j = no" by auto
    then have "home ?u k = home s k" if "k < nat (lg_n s)" for k
      using that lb(1) room(1) n by (cases "k = ?j") (auto simp: home_def)
    then have "home ?u ` {..<nat (lg_n s)} = home s ` {..<nat (lg_n s)}" "inj_on (home ?u) {..<nat (lg_n s)}"
      using n(4) by (auto simp: inj_on_def)
    then show ?thesis using j True inv' dirty n room(1) lb by (auto simp: in_txn_def insert_absorb)
  next
    case False
    from log_index(2) [OF t room(1) False] have j: "?j = nat (lg_n s)" .
    have m: "nat (lg_n ?u) = Suc (nat (lg_n s))" "lg_n ?u = lg_n s + 1" using lb(2) j n(1) by auto
    have h: "home ?u k = home s k" if "k < nat (lg_n s)" for k using that lb(1) j by (simp add: home_def)
    have "home ?u (nat (lg_n s)) = no" using lb(1) j n room(1) by (simp add: home_def)
    then have "home ?u ` {..<Suc (nat (lg_n s))} = insert no (home s ` {..<nat (lg_n s)})"
      "inj_on (home ?u) {..<Suc (nat (lg_n s))}"
      using extend_image [OF h] n(3,4) False by simp_all
    then show ?thesis using False m inv' dirty n room(1) lb(1) by (simp add: in_txn_def)
  qed
  moreover have "has_block ?u n c = has_block s n c" for n c using lt D(3) by (intro has_block_keep [OF _ buf]) simp_all
  ultimately show thesis using that w vw dirty by (simp add: log_mark_frame)
qed

text \<open>Operations of the cache keep the transaction.\<close>

lemma in_txn_keep:
  "in_txn i p H s \<Longrightarrow> cache_inv i p H' t \<Longrightarrow> dirty_blocks t = dirty_blocks s \<Longrightarrow> beyond t = beyond s \<Longrightarrow> in_txn i p H' t"
  using same_beyond [of t s] by (simp add: in_txn_def)

text \<open>How the file system writes a block, and a transaction of such writes.\<close>

definition write_block :: "uint \<Rightarrow> block \<Rightarrow> 'a lst_scheme \<Rightarrow> failure + 'a lst_scheme" where
  "write_block no d s = andThen (bread (lg_dev s) no s) (\<lambda>(b, s).
     andThen (log_write b (set_bdata b d s)) (brelse b))"

fun write_blocks :: "(uint \<times> block) list \<Rightarrow> 'a lst_scheme \<Rightarrow> failure + 'a lst_scheme" where
  "write_blocks [] s = Inr s"
| "write_blocks ((no, d) # ws) s = andThen (write_block no d s) (write_blocks ws)"

definition transaction :: "(uint \<times> block) list \<Rightarrow> 'a lst_scheme \<Rightarrow> failure + 'a lst_scheme" where
  "transaction ws s = andThen (begin_op s) (\<lambda>s. andThen (write_blocks ws s) end_op)"

definition same_log :: "'a lst_scheme \<Rightarrow> 'a lst_scheme \<Rightarrow> bool" where
  "same_log t s \<longleftrightarrow> dk_blocks t = dk_blocks s \<and> dk_writes t = dk_writes s \<and> lg_outstanding t = lg_outstanding s
     \<and> lg_size t = lg_size s \<and> lg_start t = lg_start s \<and> lg_dev t = lg_dev s \<and> dk_size t = dk_size s
     \<and> lg_committing t = lg_committing s \<and> lst.more t = lst.more s"

lemma same_log_trans: "same_log t s \<Longrightarrow> same_log u t \<Longrightarrow> same_log u s"
  by (simp add: same_log_def)

lemma same_log_beyond:
  assumes "beyond t = beyond s" "dk_blocks t = dk_blocks s" "dk_writes t = dk_writes s"
  shows "same_log t s" "lg_n t = lg_n s"
proof -
  have "lg_outstanding t = lg_outstanding s" "lg_committing t = lg_committing s" "lst.more t = lst.more s"
    using arg_cong [OF assms(1), of lg_outstanding] arg_cong [OF assms(1), of lg_committing]
      arg_cong [OF assms(1), of lst.more] by (simp_all add: beyond_def)
  then show "same_log t s" "lg_n t = lg_n s" using same_beyond [OF assms(1)] assms(2,3) by (simp_all add: same_log_def)
qed

text \<open>A block that is read can be released as it is, or changed, logged and released.\<close>

lemma update_block_in_txn:
  assumes t: "in_txn i p {} s" and dev: "lg_dev s = 1" "no < dk_size s" and few: "lg_n s < int NBUF"
  obtains b s1 where "bread 1 no s = Inr (b, s1)" "bdata b s1 = view s no" "beyond s1 = beyond s"
    and "\<exists>u. brelse b s1 = Inr u \<and> in_txn i p {} u \<and> same_log u s \<and> view u = view s \<and> lg_n u = lg_n s"
    and "\<And>d. \<lbrakk>lg_n s < LOGSIZE; lg_n s < lg_size s - 1; 1 \<le> lg_outstanding s\<rbrakk> \<Longrightarrow>
      \<exists>u. andThen (log_write b (set_bdata b d s1)) (brelse b) = Inr u \<and> in_txn i p {} u \<and> same_log u s
        \<and> dirty_blocks u = insert no (dirty_blocks s) \<and> view u = (view s)(no := d) \<and> lg_n u \<le> lg_n s + 1"
proof -
  have inv: "cache_inv i p {} s" and n: "dirty_blocks s = home s ` {..<nat (lg_n s)}" "0 \<le> lg_n s"
    using t by (auto simp: in_txn_def)
  have "card (dirty_blocks s) \<le> nat (lg_n s)" unfolding n using card_image_le [of "{..<nat (lg_n s)}" "home s"] by simp
  then have few: "card (dv_pend (disk_of s)) < NBUF" using few n(2) by simp
  obtain b s1 v where s1: "bread 1 no s = Inr (b, s1)" "bdata b s1 = view s no" "disk_of s1 = disk_of s"
      "cache_inv i p {b} s1" "has_block s1 no b" and v: "brelse b s1 = Inr v" "cache_inv i p {} v" "disk_of v = disk_of s"
    using bcache.read_block [OF inv _ few, of no] dev(2) by auto
  note d1 = disk_of_eqD [OF s1(3), simplified]
  note dv = disk_of_eqD [OF v(3), simplified]
  have "in_txn i p {} v" by (rule in_txn_keep [OF t v(2)]) (use dv in simp_all)
  moreover have "same_log v s" "lg_n v = lg_n s" using same_log_beyond [of v s] dv by simp_all
  moreover have "\<exists>u. andThen (log_write b (set_bdata b d s1)) (brelse b) = Inr u \<and> in_txn i p {} u \<and> same_log u s
        \<and> dirty_blocks u = insert no (dirty_blocks s) \<and> view u = (view s)(no := d) \<and> lg_n u \<le> lg_n s + 1"
    if room: "lg_n s < LOGSIZE" "lg_n s < lg_size s - 1" "1 \<le> lg_outstanding s" for d
  proof -
    let ?s2 = "set_bdata b d s1"
    note sp = set_bdata_spec [OF s1(4) _ s1(5), of d, simplified]
    have hb: "has_block ?s2 n c = has_block s1 n c" for n c
      using bcache.put_law [OF s1(4) _ s1(5)] by simp
    have t2: "in_txn i p {b} ?s2" by (rule in_txn_keep [OF t sp(1)]) (use sp d1 in simp_all)
    have l2: "same_log ?s2 s" "lg_n ?s2 = lg_n s" using same_log_beyond [of ?s2 s] sp d1 by simp_all
    obtain u where u: "log_write b ?s2 = Inr u" "in_txn i p {b} u" "dirty_blocks u = insert no (dirty_blocks ?s2)"
      "view u = view ?s2" "\<And>c n. has_block u n c = has_block ?s2 n c"
      "lg_n u = (if no \<in> dirty_blocks ?s2 then lg_n ?s2 else lg_n ?s2 + 1)" "same_log u ?s2"
      by (rule log_write_in_txn [OF t2, of b no]) (use hb s1(5) l2 room in \<open>simp_all add: same_log_def\<close>)
    have inv3: "cache_inv i p {b} u" using u(2) by (simp add: in_txn_def)
    obtain w where w: "brelse b u = Inr w" "cache_inv i p ({b} - {b}) w" "disk_of w = disk_of u"
      using bcache.rel_law [OF inv3, of b no] u(3,5) hb s1(5) by auto
    note dw = disk_of_eqD [OF w(3), simplified]
    have "in_txn i p {} w" by (rule in_txn_keep [OF u(2)]) (use w dw in simp_all)
    moreover have wu: "same_log w u" "lg_n w = lg_n u" using same_log_beyond [of w u] dw by simp_all
    then have "same_log w s" using same_log_trans l2(1) u(7) by blast
    ultimately show ?thesis using u(1,3,4,6) w(1) wu(2) dw(1,2) sp d1 l2(2) by simp
  qed
  ultimately show thesis using that [OF s1(1,2)] d1(5) v(1) dv(1) by blast
qed

lemma write_block_in_txn:
  assumes t: "in_txn i p {} s" and dev: "lg_dev s = 1" "no < dk_size s"
    and room: "lg_n s < LOGSIZE" "lg_n s < lg_size s - 1" "1 \<le> lg_outstanding s"
  obtains u where "write_block no d s = Inr u" "in_txn i p {} u" "same_log u s"
    "dirty_blocks u = insert no (dirty_blocks s)" "view u = (view s)(no := d)" "lg_n u \<le> lg_n s + 1"
proof -
  have few: "lg_n s < int NBUF" using room(1) by (simp add: LOGSIZE_def MAXOPBLOCKS_def NBUF_def)
  obtain b s1 where b: "bread 1 no s = Inr (b, s1)"
      "\<exists>u. andThen (log_write b (set_bdata b d s1)) (brelse b) = Inr u \<and> in_txn i p {} u \<and> same_log u s
        \<and> dirty_blocks u = insert no (dirty_blocks s) \<and> view u = (view s)(no := d) \<and> lg_n u \<le> lg_n s + 1"
    by (rule update_block_in_txn [OF t dev few]) (use room in blast)
  then show thesis using that dev(1) by (auto simp: write_block_def)
qed

lemma write_blocks_in_txn:
  assumes "in_txn i p {} s" "lg_dev s = 1" "\<forall>w\<in>set ws. fst w < dk_size s" "1 \<le> lg_outstanding s"
    and "lg_n s + int (length ws) \<le> LOGSIZE" "lg_n s + int (length ws) \<le> lg_size s - 1"
  shows "\<exists>u. write_blocks ws s = Inr u \<and> in_txn i p {} u \<and> same_log u s
    \<and> dirty_blocks u = dirty_blocks s \<union> fst ` set ws \<and> view u = replay ws (view s) \<and> lg_n u \<le> lg_n s + int (length ws)"
  using assms
proof (induction ws arbitrary: s)
  case (Cons w ws)
  obtain no d where w: "w = (no, d)" by (cases w)
  obtain t where t: "write_block no d s = Inr t" "in_txn i p {} t" "same_log t s"
      "dirty_blocks t = insert no (dirty_blocks s)" "view t = (view s)(no := d)" "lg_n t \<le> lg_n s + 1"
    by (rule write_block_in_txn [OF Cons.prems(1,2), of no d]) (use Cons.prems w in simp_all)
  have "lg_dev t = 1" "\<forall>w\<in>set ws. fst w < dk_size t" "1 \<le> lg_outstanding t"
    "lg_n t + int (length ws) \<le> LOGSIZE" "lg_n t + int (length ws) \<le> lg_size t - 1"
    using t(3,6) Cons.prems by (auto simp: same_log_def)
  from Cons.IH [OF t(2) this] obtain u where u: "write_blocks ws t = Inr u" "in_txn i p {} u" "same_log u t"
    "dirty_blocks u = dirty_blocks t \<union> fst ` set ws" "view u = replay ws (view t)" "lg_n u \<le> lg_n t + int (length ws)"
    by blast
  then show ?case using t w same_log_trans [OF t(3) u(3)] by auto
qed (simp add: same_log_def)

lemma lg_frame [simp]:
  "lg_outstanding (wakeup1 ch s) = lg_outstanding s" "lg_committing (wakeup1 ch s) = lg_committing s"
  "(taken i l s)\<lparr>lg_outstanding := x\<rparr> = taken i l (s\<lparr>lg_outstanding := x\<rparr>)"
  "(taken i l s)\<lparr>lg_committing := c\<rparr> = taken i l (s\<lparr>lg_committing := c\<rparr>)"
  "lg_outstanding (taken i l s) = lg_outstanding s" "lg_committing (taken i l s) = lg_committing s"
  "calm (s\<lparr>lg_outstanding := x\<rparr>) i = calm s i" "calm (s\<lparr>lg_committing := c\<rparr>) i = calm s i"
  by (simp_all add: wakeup1_def taken_def upd_lock_def pushed_def calm_def here_def cli_ok_def idle_lock_def)

lemma end_op_eq:
  assumes c: "calm s i" and one: "lg_outstanding s = 1" "\<not> lg_committing s"
    and t: "commit (probed i (s\<lparr>lg_outstanding := 0, lg_committing := True\<rparr>)) = Inr t" "calm t i"
  shows "end_op s = Inr (probed i (wakeup1 ChLog (t\<lparr>lg_committing := False\<rparr>)))"
  using one t release_taken [of "s\<lparr>lg_outstanding := 0, lg_committing := True\<rparr>" i LOGLOCK] c
    wakeup_taken [of "t\<lparr>lg_committing := False\<rparr>" i LOGLOCK ChLog]
    release_taken [of "wakeup1 ChLog (t\<lparr>lg_committing := False\<rparr>)" i LOGLOCK]
  by (simp add: end_op_def acquire_calm Let_def)

text \<open>The log between transactions, and the area of the disk that belongs to it.\<close>

definition log_area :: "'a lst_scheme \<Rightarrow> uint set" where
  "log_area s = (\<lambda>k. word_of_int (lg_start s + int k)) ` {..<nat (lg_size s)}"

definition log_idle :: "nat \<Rightarrow> nat \<Rightarrow> 'a lst_scheme \<Rightarrow> bool" where
  "log_idle i p s \<longleftrightarrow> in_txn i p {} s \<and> lg_n s = 0 \<and> lg_outstanding s = 0 \<and> \<not> lg_committing s \<and> lg_dev s = 1
     \<and> 0 \<le> lg_start s \<and> lg_start s + lg_size s \<le> uint (dk_size s) \<and> MAXOPBLOCKS < lg_size s \<and> lg_size s \<le> LOGSIZE
     \<and> length (dk_blocks s (headno s)) = BSIZE \<and> ld32 (dk_blocks s (headno s)) 0 = 0"

lemma commit_disk:
  assumes "log_ready i p s" "no \<notin> log_blocks s"
  shows "replay (commit_writes s) (dk_blocks s) no = view s no"
proof -
  let ?x = "(replay (log_writes s) (dk_blocks s))(headno s := full_head s)"
  have "?x no = dk_blocks s no"
    using assms(2) replay_log_writes(1) [of no s "nat (lg_n s)"] by (auto simp: log_blocks_def)
  from replay_home_writes(2) [where d = ?x, OF assms(1) this] show ?thesis
    using assms(2) by (auto simp: commit_writes_eq log_blocks_def)
qed

lemma commit_head:
  assumes "log_ready i p s"
  shows "length (replay (commit_writes s) (dk_blocks s) (headno s)) = BSIZE"
    "ld32 (replay (commit_writes s) (dk_blocks s) (headno s)) 0 = 0"
proof -
  have "length (full_head s) = BSIZE" using assms by (simp add: full_head_def head_block_def log_ready_def)
  then show "length (replay (commit_writes s) (dk_blocks s) (headno s)) = BSIZE"
    "ld32 (replay (commit_writes s) (dk_blocks s) (headno s)) 0 = 0"
    using ready_facts(6) [OF assms] by (simp_all add: commit_writes_eq head_block_def)
qed

text \<open>What \<open>end_op\<close> commits is ready.\<close>

lemma txn_ready:
  assumes idle: "log_idle i p s" and t: "in_txn i p {} t" "same_log t (s\<lparr>lg_outstanding := 1\<rparr>)"
    and d: "dirty_blocks t = fst ` set ws" "ws \<noteq> []" "lg_n t \<le> MAXOPBLOCKS"
    and ws: "\<forall>w\<in>set ws. fst w < dk_size s \<and> fst w \<notin> log_area s"
  shows "log_ready i p (probed i (t\<lparr>lg_outstanding := 0, lg_committing := True\<rparr>))"
    "log_blocks (probed i (t\<lparr>lg_outstanding := 0, lg_committing := True\<rparr>)) \<subseteq> log_area s"
proof -
  let ?r = "probed i (t\<lparr>lg_outstanding := 0, lg_committing := True\<rparr>)"
  note I = idle [unfolded log_idle_def]
  have T: "cache_inv i p {} t" "0 \<le> lg_n t" "dirty_blocks t = home t ` {..<nat (lg_n t)}" "inj_on (home t) {..<nat (lg_n t)}"
    using t(1) by (auto simp: in_txn_def)
  have e: "lg_start t = lg_start s" "lg_dev t = lg_dev s" "lg_size t = lg_size s" "dk_size t = dk_size s" "dk_blocks t = dk_blocks s"
    using t(2) by (auto simp: same_log_def)
  have f: "home ?r = home t" "headno ?r = headno s" "logno ?r = logno s" "lg_n ?r = lg_n t" "dk_size ?r = dk_size s"
    "lg_dev ?r = 1" "lg_start ?r = lg_start s" "dk_blocks ?r = dk_blocks s"
    using e I by (simp_all add: home_def headno_def logno_def fun_eq_iff)
  have c: "cache_inv i p {} ?r = cache_inv i p {} t" "dirty_blocks ?r = dirty_blocks t"
    using cache_invD(1) [OF T(1)]
    by (intro same_cache; simp add: at_proc_def; simp add: calm_def here_def cli_ok_def idle_lock_def probed_def)+
  have n: "0 < lg_n t" using T(2,3) d(1,2) by (cases "lg_n t = 0") auto
  have area: "headno s \<in> log_area s" "k < nat (lg_n t) \<Longrightarrow> logno s k \<in> log_area s" for k
  proof -
    show "headno s \<in> log_area s" unfolding headno_def log_area_def using I by (intro image_eqI [of _ _ 0]) (auto simp: MAXOPBLOCKS_def)
    show "logno s k \<in> log_area s" if "k < nat (lg_n t)"
      unfolding logno_def log_area_def using that I d(3) by (intro image_eqI [of _ _ "Suc k"]) (auto simp: add_ac)
  qed
  have home: "home t j \<in> fst ` set ws" if "j < nat (lg_n t)" for j using T(3) d(1) that by auto
  have "log_fits (lg_n t) ?r"
    unfolding log_fits_def f
  proof (intro conjI allI impI)
    fix j k assume "j < nat (lg_n t)"
    from home [OF this] obtain w where "w \<in> set ws" "home t j = fst w" by (rule imageE) simp
    then show "home t j < dk_size s" "home t j \<noteq> headno s" "k < nat (lg_n t) \<Longrightarrow> home t j \<noteq> logno s k"
      using ws area by auto
  qed (use I d(3) T(4) in \<open>auto simp: distinct_map atLeast0LessThan\<close>)
  then show "log_ready i p ?r"
    using T(1) n d(3) T(3) I c e(5) by (simp add: log_ready_def f NBUF_def MAXOPBLOCKS_def)
  show "log_blocks ?r \<subseteq> log_area s" using area by (auto simp: log_blocks_def f)
qed

lemma transaction_runs:
  fixes s :: "'a lst_scheme"
  assumes idle: "log_idle i p s" and ws: "\<forall>w\<in>set ws. fst w < dk_size s \<and> fst w \<notin> log_area s"
    and len: "ws \<noteq> []" "int (length ws) \<le> MAXOPBLOCKS"
  obtains r t :: "'a lst_scheme" where "transaction ws s = Inr t" "log_ready i p r" "log_blocks r \<subseteq> log_area s" "log_idle i p t"
    "dk_writes t = dk_writes s @ commit_writes r" "dk_blocks t = replay (commit_writes r) (dk_blocks s)"
    "view r = replay ws (dk_blocks s)" "dk_blocks r = dk_blocks s" "lg_start r = lg_start s" "dk_size r = dk_size s" "headno r = headno s"
proof -
  note I = idle [unfolded log_idle_def]
  have inv: "cache_inv i p {} s" and n: "lg_n s = 0" using I by (auto simp: in_txn_def)
  have at: "at_proc s i p" "calm s i" using cache_invD(1,2) [OF inv] .
  have clean: "dirty_blocks s = {}" using I by (auto simp: in_txn_def)
  have vw: "view s = dk_blocks s" using clean_view [OF inv] clean by auto
  let ?b = "(probed i s)\<lparr>lg_outstanding := 1\<rparr>"
  have b: "begin_op s = Inr ?b" using begin_op_eq [OF at(2)] I by (simp add: LOGSIZE_def MAXOPBLOCKS_def)
  have sc: "cache_inv i p {} ?b = cache_inv i p {} s" "view ?b = view s" "dirty_blocks ?b = dirty_blocks s"
    using at by (intro same_cache; simp add: at_proc_def)+
  have "in_txn i p {} ?b" using I sc by (simp add: in_txn_def home_def)
  then obtain u where u: "write_blocks ws ?b = Inr u" "in_txn i p {} u" "same_log u ?b"
      "dirty_blocks u = dirty_blocks ?b \<union> fst ` set ws" "view u = replay ws (view ?b)" "lg_n u \<le> lg_n ?b + int (length ws)"
    using write_blocks_in_txn [of i p ?b ws] ws len I by (auto simp: LOGSIZE_def MAXOPBLOCKS_def)
  have sl: "same_log u (s\<lparr>lg_outstanding := 1\<rparr>)" using u(3) by (simp add: same_log_def)
  have cu: "calm u i" using u(2) cache_invD(2) by (auto simp: in_txn_def)
  let ?r = "probed i (u\<lparr>lg_outstanding := 0, lg_committing := True\<rparr>)"
  have r: "log_ready i p ?r" "log_blocks ?r \<subseteq> log_area s"
    using txn_ready [OF idle u(2) sl _ len(1) _ ws] u(4,6) sc clean n len by simp_all
  obtain t where t: "commit ?r = Inr t" "cache_inv i p {} t" "dirty_blocks t = {}" "beyond t = (beyond ?r)\<lparr>lg_n := 0\<rparr>"
    "dk_writes t = dk_writes ?r @ commit_writes ?r" "dk_blocks t = replay (commit_writes ?r) (dk_blocks ?r)"
    by (rule commit_eq [OF r(1)])
  let ?e = "probed i (wakeup1 ChLog (t\<lparr>lg_committing := False\<rparr>))"
  have end': "end_op u = Inr ?e"
    using end_op_eq [OF cu _ _ t(1)] cache_invD(2) [OF t(2)] u(3) I by (simp add: same_log_def)
  have bt: "beyond t = beyond (?r\<lparr>lg_n := 0\<rparr>)" using t(4) by simp
  note et = same_beyond [OF bt, simplified]
  have "lg_outstanding t = 0" using arg_cong [OF bt, of lg_outstanding] by simp
  moreover have "length (lg_block t) = nat LOGSIZE" using et(5) u(2) by (simp add: in_txn_def)
  moreover have hd: "headno ?r = headno s" "headno t = headno s" using u(3) et(1) by (simp_all add: headno_def same_log_def)
  moreover have len': "p < length (ps_proc t)" using cache_invD(1) [OF t(2)] by (simp add: at_proc_def)
  moreover have ce: "cache_inv i p {} ?e = cache_inv i p {} t" "dirty_blocks ?e = dirty_blocks t"
    using cache_invD(1) [OF t(2)] len' by (intro same_cache; simp add: at_proc_def; simp add: wakeup1_def)+
  ultimately have "log_idle i p ?e"
    using t commit_head [OF r(1)] et u(3) I
    by (simp add: log_idle_def in_txn_def same_log_def headno_def LOGSIZE_def MAXOPBLOCKS_def wakeup1_def probed_def)
  moreover have "view ?r = view u" by (rule same_cache) simp_all
  ultimately show thesis
    using that [of ?e ?r] b u r end' t sc vw hd by (simp add: transaction_def same_log_def)
qed

lemma begin_op_in_txn:
  assumes t: "in_txn i p {} s" and go: "\<not> lg_committing s" "lg_n s + (lg_outstanding s + 1) * MAXOPBLOCKS \<le> LOGSIZE"
  shows "\<exists>u. begin_op s = Inr u \<and> in_txn i p {} u \<and> lg_n u = lg_n s \<and> dirty_blocks u = dirty_blocks s
    \<and> same_log u (s\<lparr>lg_outstanding := lg_outstanding s + 1\<rparr>)"
proof -
  have inv: "cache_inv i p {} s" using t by (simp add: in_txn_def)
  let ?u = "(probed i s)\<lparr>lg_outstanding := lg_outstanding s + 1\<rparr>"
  have sc: "cache_inv i p {} ?u = cache_inv i p {} s" "dirty_blocks ?u = dirty_blocks s"
    using cache_invD(1) [OF inv] by (intro same_cache; simp add: at_proc_def)+
  have "begin_op s = Inr ?u" using begin_op_eq [OF cache_invD(2) [OF inv] go] .
  moreover have "home ?u = home s" by (simp add: home_def fun_eq_iff)
  then have "in_txn i p {} ?u" using t sc by (simp add: in_txn_def)
  ultimately show ?thesis using sc(2) by (simp add: same_log_def)
qed

lemma write_blocks_append: "write_blocks (vs @ ws) s = andThen (write_blocks vs s) (write_blocks ws)"
proof (induction vs arbitrary: s)
  case (Cons v vs)
  show ?case by (cases v) (simp add: andThen_assoc Cons.IH [abs_def])
qed simp

lemma write_block_full:
  assumes t: "in_txn i p {} s" and dev: "lg_dev s = 1" "no < dk_size s" and full: "lg_n s = lg_size s - 1" "lg_n s < int NBUF"
  shows "write_block no d s = Inl (Panic ''too big a transaction'')"
proof -
  have inv: "cache_inv i p {} s" and n: "dirty_blocks s = home s ` {..<nat (lg_n s)}" "0 \<le> lg_n s"
    using t by (auto simp: in_txn_def)
  have "card (dirty_blocks s) \<le> nat (lg_n s)" unfolding n using card_image_le [of "{..<nat (lg_n s)}" "home s"] by simp
  then have few: "card (dv_pend (disk_of s)) < NBUF" using full(2) n(2) by simp
  obtain b s1 where s1: "bread 1 no s = Inr (b, s1)" "disk_of s1 = disk_of s" "cache_inv i p {b} s1" "has_block s1 no b"
    using bcache.read_block [OF inv _ few, of no] dev(2) by auto
  let ?u = "set_bdata b d s1"
  have "cache_inv i p {b} ?u" using bcache.put_law [OF s1(3) _ s1(4)] by simp
  moreover have "beyond ?u = beyond s" using disk_of_eqD(5) [OF s1(2)] by simp
  then have "lg_n ?u = lg_n s" "lg_size ?u = lg_size s" using same_beyond [of ?u s] by simp_all
  ultimately show ?thesis
    using s1(1) dev(1) log_write_eq [OF cache_invD(2), of i p "{b}" ?u b] full(1) by (simp add: write_block_def)
qed

section \<open>Example states\<close>

definition empty_buf :: buf where
  "empty_buf = \<lparr>b_flags = 0, b_dev = 0, b_blockno = 0, b_refcnt = 0, b_data = replicate 512 0\<rparr>"

definition idle_log :: lst where
  "idle_log = bst.extend (slst.extend sleep_state
     (bst.fields (replicate 30 empty_buf) (rev [0..<30]) (\<lambda>_. replicate 512 0) 1000 []))
     (lst.fields 2 30 0 False 1 0 (replicate 30 0))"

definition ready_log :: lst where
  "ready_log = idle_log\<lparr>lg_n := 1, lg_block := 500 # replicate 29 0,
     bc_buf := \<lparr>b_flags = 6, b_dev = 1, b_blockno = 500, b_refcnt = 0, b_data = replicate 512 7\<rparr> # replicate 29 empty_buf\<rparr>"

lemmas log_state_defs = idle_log_def ready_log_def bst.defs lst.defs slst.defs sleep_state_def pst.defs boot_state_def

lemma empty_buf_clean: "\<not> bdirty empty_buf" "b_dev empty_buf = 0" "b_refcnt empty_buf = 0"
  by (simp_all add: empty_buf_def bdirty_def)

lemma log_states_at: "at_proc idle_log 0 0" "at_proc ready_log 0 0"
proof -
  have "calm idle_log 0 = calm boot_state 0" "calm ready_log 0 = calm boot_state 0"
    by (rule calm_cong; simp add: log_state_defs)+
  then show "at_proc idle_log 0 0" "at_proc ready_log 0 0"
    using boot_state_calm by (simp_all add: at_proc_def) (simp_all add: log_state_defs)
qed

lemma idle_log_cache: "cache_inv 0 0 {} idle_log" "dirty_blocks idle_log = {}"
proof -
  have b: "bc_buf idle_log = replicate NBUF empty_buf" "bc_lru idle_log = rev [0..<NBUF]"
    "sl_tab idle_log = (\<lambda>_. \<lparr>sl_locked = 0, sl_name = [], sl_pid = 0\<rparr>)"
    by (simp_all add: log_state_defs NBUF_def)
  show "dirty_blocks idle_log = {}" by (auto simp: dirty_blocks_def b empty_buf_clean)
  show "cache_inv 0 0 {} idle_log"
    using log_states_at(1) by (auto simp: cache_inv_def b slot_ok_def empty_buf_clean has_block_def)
qed

lemma idle_log_idle: "log_idle 0 0 idle_log"
proof -
  have "length (dk_blocks idle_log (headno idle_log)) = BSIZE \<and> ld32 (dk_blocks idle_log (headno idle_log)) 0 = 0"
    by (simp add: log_state_defs BSIZE_def ld32_def load32_def)
  then show ?thesis
    using idle_log_cache
    by (simp add: log_idle_def in_txn_def) (simp add: log_state_defs LOGSIZE_def MAXOPBLOCKS_def)
qed

lemma ready_log_ready: "log_ready 0 0 ready_log"
proof -
  let ?d = "\<lparr>b_flags = 6, b_dev = 1, b_blockno = 500, b_refcnt = 0, b_data = replicate 512 7\<rparr>"
  have b: "bc_buf ready_log = ?d # replicate 29 empty_buf" "bc_lru ready_log = rev [0..<NBUF]"
    "sl_tab ready_log = (\<lambda>_. \<lparr>sl_locked = 0, sl_name = [], sl_pid = 0\<rparr>)"
    by (simp_all add: log_state_defs NBUF_def)
  have n: "bc_buf ready_log ! k = (if k = 0 then ?d else empty_buf)" if "k < NBUF" for k
    using that b(1) by (cases k) (simp_all add: NBUF_def)
  have d: "bdirty ?d" "bvalid ?d" by (simp_all add: bdirty_def bvalid_def B_DIRTY_def B_VALID_def)
  have "length (bc_buf ready_log) = NBUF" using b(1) by (simp add: NBUF_def)
  then have cache: "cache_inv 0 0 {} ready_log"
    using log_states_at(2) d by (auto simp: cache_inv_def b(2,3) slot_ok_def empty_buf_clean has_block_def n split: if_splits)
  have "home ready_log 0 = 500" "headno ready_log = 2" "logno ready_log 0 = 3" "lg_n ready_log = 1" "dk_size ready_log = 1000"
    "lg_dev ready_log = 1" "lg_start ready_log = 2" "dk_blocks ready_log = (\<lambda>_. replicate 512 0)"
    by (simp_all add: home_def headno_def logno_def log_state_defs)
  moreover have "dirty_blocks ready_log = {500}"
    unfolding dirty_blocks_def using n d(1) empty_buf_clean(1) by (auto simp: NBUF_def intro!: exI [of _ 0] split: if_splits)
  ultimately show ?thesis
    using cache by (simp add: log_ready_def log_fits_def NBUF_def BSIZE_def ld32_def load32_def lessThan_Suc)
qed

lemma reboot_log:
  "rebooted 0 0 idle_log d (idle_log\<lparr>dk_blocks := d\<rparr>)" "rebooted 0 0 ready_log d (idle_log\<lparr>dk_blocks := d\<rparr>)"
proof -
  have b: "bc_buf (idle_log\<lparr>dk_blocks := d\<rparr>) = replicate NBUF empty_buf" "bc_lru (idle_log\<lparr>dk_blocks := d\<rparr>) = rev [0..<NBUF]"
    "sl_tab (idle_log\<lparr>dk_blocks := d\<rparr>) = (\<lambda>_. \<lparr>sl_locked = 0, sl_name = [], sl_pid = 0\<rparr>)"
    by (simp_all add: log_state_defs NBUF_def)
  have "calm (idle_log\<lparr>dk_blocks := d\<rparr>) 0 = calm idle_log 0" by (rule calm_cong) (simp_all add: log_state_defs)
  then have "at_proc (idle_log\<lparr>dk_blocks := d\<rparr>) 0 0" using log_states_at(1) by (simp add: at_proc_def)
  then have "cache_inv 0 0 {} (idle_log\<lparr>dk_blocks := d\<rparr>)" "dirty_blocks (idle_log\<lparr>dk_blocks := d\<rparr>) = {}"
    by (auto simp: cache_inv_def b slot_ok_def empty_buf_clean has_block_def dirty_blocks_def)
  then show "rebooted 0 0 idle_log d (idle_log\<lparr>dk_blocks := d\<rparr>)" "rebooted 0 0 ready_log d (idle_log\<lparr>dk_blocks := d\<rparr>)"
    by (simp_all add: rebooted_def) (simp_all add: log_state_defs)
qed

lemma far_from_log: "500 \<notin> log_area idle_log"
proof
  assume "500 \<in> log_area idle_log"
  moreover have "lg_start idle_log = 2" "lg_size idle_log = 30" by (simp_all add: log_state_defs)
  ultimately obtain k where k: "k < 30" "(500 :: uint) = word_of_int (2 + int k)" unfolding log_area_def by auto
  then have "uint (500 :: uint) = uint (word_of_int (2 + int k) :: uint)" by (simp only:)
  then show False using k(1) unfolding uint_word_of_int by simp
qed

section \<open>Properties\<close>

text \<open>
  C1. A transaction is atomic. From a state between transactions, \<open>begin_op\<close>, at most \<open>MAXOPBLOCKS\<close>
  block updates through \<open>log_write\<close> and \<open>end_op\<close> return; the disk then has the updates, and the log is
  ready for the next transaction. Whatever prefix of the disk writes a crash lets through, recovery
  returns and leaves outside the log either the old disk or the disk with all the updates.
\<close>

theorem transaction_crash_atomic:
  fixes s :: "'a lst_scheme"
  assumes "log_idle i p s" and "\<forall>w\<in>set ws. fst w < dk_size s \<and> fst w \<notin> log_area s"
    and "ws \<noteq> []" "int (length ws) \<le> MAXOPBLOCKS"
  shows "\<exists>t W. transaction ws s = Inr t \<and> log_idle i p t \<and> dk_writes t = dk_writes s @ W
    \<and> (\<forall>no. no \<notin> log_area s \<longrightarrow> dk_blocks t no = replay ws (dk_blocks s) no)
    \<and> (\<forall>k i' p' u. rebooted i' p' s (replay (take k W) (dk_blocks s)) u \<longrightarrow>
        (\<exists>v. recover_from_log u = Inr v \<and>
          ((\<forall>no. no \<notin> log_area s \<longrightarrow> dk_blocks v no = dk_blocks s no)
           \<or> (\<forall>no. no \<notin> log_area s \<longrightarrow> dk_blocks v no = replay ws (dk_blocks s) no))))"
proof -
  obtain r t :: "'a lst_scheme" where h: "transaction ws s = Inr t" "log_ready i p r" "log_blocks r \<subseteq> log_area s" "log_idle i p t"
    "dk_writes t = dk_writes s @ commit_writes r" "dk_blocks t = replay (commit_writes r) (dk_blocks s)"
    "view r = replay ws (dk_blocks s)" "dk_blocks r = dk_blocks s" "lg_start r = lg_start s" "dk_size r = dk_size s"
    by (rule transaction_runs [OF assms]) (rule that)
  have "\<exists>v. recover_from_log u = Inr v \<and>
      ((\<forall>no. no \<notin> log_area s \<longrightarrow> dk_blocks v no = dk_blocks s no)
       \<or> (\<forall>no. no \<notin> log_area s \<longrightarrow> dk_blocks v no = replay ws (dk_blocks s) no))"
    if "rebooted i' p' s (replay (take k (commit_writes r)) (dk_blocks s)) u" for k i' p' u
  proof -
    have "rebooted i' p' r (replay (take k (commit_writes r)) (dk_blocks r)) u"
      using that h(8-10) by (simp add: rebooted_def)
    from crash_recovers [OF h(2) this] obtain v where "recover_from_log u = Inr v"
      "\<forall>no. no \<notin> log_blocks r \<longrightarrow> dk_blocks v no = (if k \<le> nat (lg_n r) then dk_blocks s no else replay ws (dk_blocks s) no)"
      using h(7,8) by auto
    then show ?thesis using h(3) by (cases "k \<le> nat (lg_n r)") auto
  qed
  moreover have "dk_blocks t no = replay ws (dk_blocks s) no" if "no \<notin> log_area s" for no
    using commit_disk [OF h(2), of no] that h(3,6,7,8) by auto
  ultimately show ?thesis using h(1,4,5) by blast
qed

theorem transaction_crash_atomic_witness:
  "\<exists>t W u v. transaction [(500, replicate 512 7)] idle_log = Inr t \<and> log_idle 0 0 t \<and> dk_blocks t 500 = replicate 512 7
    \<and> rebooted 0 0 idle_log (replay (take 1 W) (dk_blocks idle_log)) u \<and> recover_from_log u = Inr v"
proof -
  let ?ws = "[(500, replicate 512 7)] :: (uint \<times> block) list"
  have ok: "\<forall>w\<in>set ?ws. fst w < dk_size idle_log \<and> fst w \<notin> log_area idle_log" "?ws \<noteq> []" "int (length ?ws) \<le> MAXOPBLOCKS"
    using far_from_log by (simp_all add: MAXOPBLOCKS_def) (simp add: log_state_defs)
  obtain t W where t: "transaction ?ws idle_log = Inr t" "log_idle 0 0 t"
    "\<forall>no. no \<notin> log_area idle_log \<longrightarrow> dk_blocks t no = replay ?ws (dk_blocks idle_log) no"
    "\<And>u. rebooted 0 0 idle_log (replay (take 1 W) (dk_blocks idle_log)) u \<Longrightarrow> \<exists>v. recover_from_log u = Inr v"
    using transaction_crash_atomic [OF idle_log_idle ok] by metis
  moreover have "dk_blocks t 500 = replicate 512 7" using t(3) far_from_log by simp
  ultimately show ?thesis using reboot_log(1) by blast
qed

text \<open>
  The commit point. \<open>commit\<close> of a transaction that is ready returns and writes the log, the header,
  the home blocks and the empty header, in this order; a crash before the header is written recovers
  to the old disk, a crash after it to what the cache had, and the header on disk is empty again.
\<close>

theorem commit_crash_atomic:
  assumes "log_ready i p s"
  shows "\<exists>t. commit s = Inr t \<and> dk_writes t = dk_writes s @ commit_writes s \<and>
    (\<forall>k i' p' u. rebooted i' p' s (replay (take k (commit_writes s)) (dk_blocks s)) u \<longrightarrow>
      (\<exists>v. recover_from_log u = Inr v \<and> ld32 (dk_blocks v (headno s)) 0 = 0 \<and>
        (\<forall>no. no \<notin> log_blocks s \<longrightarrow> dk_blocks v no = (if k \<le> nat (lg_n s) then dk_blocks s no else view s no))))"
  using commit_eq [OF assms] crash_recovers [OF assms] by metis

theorem commit_crash_atomic_witness:
  "\<exists>t. commit ready_log = Inr t \<and> log_ready 0 0 ready_log \<and>
    (\<exists>u v. rebooted 0 0 ready_log (replay (take 2 (commit_writes ready_log)) (dk_blocks ready_log)) u
      \<and> recover_from_log u = Inr v \<and> dk_blocks v 500 = view ready_log 500)"
proof -
  let ?d = "replay (take 2 (commit_writes ready_log)) (dk_blocks ready_log)"
  let ?u = "idle_log\<lparr>dk_blocks := ?d\<rparr>"
  have n: "lg_n ready_log = 1" "500 \<notin> log_blocks ready_log"
    by (simp_all add: log_blocks_def headno_def logno_def log_state_defs lessThan_Suc)
  obtain t where t: "commit ready_log = Inr t"
    "\<forall>k i' p' u. rebooted i' p' ready_log (replay (take k (commit_writes ready_log)) (dk_blocks ready_log)) u \<longrightarrow>
      (\<exists>v. recover_from_log u = Inr v \<and> ld32 (dk_blocks v (headno ready_log)) 0 = 0 \<and>
        (\<forall>no. no \<notin> log_blocks ready_log \<longrightarrow>
          dk_blocks v no = (if k \<le> nat (lg_n ready_log) then dk_blocks ready_log no else view ready_log no)))"
    using commit_crash_atomic [OF ready_log_ready] by (elim exE conjE) (rule that)
  from t(2) [rule_format, OF reboot_log(2) [of ?d]] obtain v where v: "recover_from_log ?u = Inr v"
    "\<forall>no. no \<notin> log_blocks ready_log \<longrightarrow> dk_blocks v no = (if 2 \<le> nat (lg_n ready_log) then dk_blocks ready_log no else view ready_log no)"
    by (elim exE conjE) (rule that)
  have "dk_blocks v 500 = view ready_log 500" using v(2) n by simp
  with t(1) v(1) ready_log_ready reboot_log(2) show ?thesis by blast
qed

text \<open>
  C3. Reading a block through the buffer cache, changing it, writing it and releasing it does to the
  disk, to its pending writes and to the contents of all blocks what the abstract disk does.
\<close>

theorem cached_update_refines_disk:
  assumes "cache_inv i p {} s" and "no < dk_size s" and "card (dirty_blocks s) < NBUF"
  shows "\<exists>b s1 t. bread 1 no s = Inr (b, s1) \<and> bdata b s1 = view s no
    \<and> andThen (bwrite b (set_bdata b d s1)) (brelse b) = Inr t
    \<and> cache_inv i p {} t \<and> disk_of t = dv_write no (dv_put no d (disk_of s))"
  using bcache.rewrite_block [OF assms(1), of no d] assms(2,3) by auto

theorem cached_update_refines_disk_witness:
  "\<exists>b s1 t. bread 1 7 idle_log = Inr (b, s1) \<and> andThen (bwrite b (set_bdata b [1] s1)) (brelse b) = Inr t
    \<and> disk_of t = dv_write 7 (dv_put 7 [1] (disk_of idle_log))"
proof -
  have "7 < dk_size idle_log" "card (dirty_blocks idle_log) < NBUF"
    using idle_log_cache(2) by (simp_all add: log_state_defs NBUF_def)
  from cached_update_refines_disk [OF idle_log_cache(1) this, of "[1]"] show ?thesis by blast
qed

text \<open>
  C40. Three operations that \<open>begin_op\<close> has admitted together, each within its \<open>MAXOPBLOCKS\<close> blocks, end in
  a panic on a disk whose log has \<open>LOGSIZE\<close> blocks, the header included: \<open>begin_op\<close> reserves room for
  \<open>LOGSIZE\<close> blocks, \<open>log_write\<close> accepts one less.
\<close>

theorem reserved_transactions_panic:
  assumes idle: "log_idle i p s" and size: "lg_size s = LOGSIZE" and len: "int (length ws) = 3 * MAXOPBLOCKS"
    and ws: "distinct (map fst ws)" "\<forall>w\<in>set ws. fst w < dk_size s"
  shows "andThen (begin_op s) (\<lambda>s. andThen (begin_op s) (\<lambda>s. andThen (begin_op s) (write_blocks ws)))
    = Inl (Panic ''too big a transaction'')"
proof -
  note I = idle [unfolded log_idle_def]
  have s0: "in_txn i p {} s" "lg_n s = 0" "lg_outstanding s = 0" "\<not> lg_committing s" "lg_dev s = 1" "dirty_blocks s = {}"
    using I by (auto simp: in_txn_def)
  obtain s1 where s1: "begin_op s = Inr s1" "in_txn i p {} s1" "lg_outstanding s1 = 1" "lg_n s1 = 0" "dirty_blocks s1 = {}"
    "same_log s1 (s\<lparr>lg_outstanding := 1\<rparr>)"
    using begin_op_in_txn [OF s0(1,4)] s0 by (auto simp: LOGSIZE_def MAXOPBLOCKS_def same_log_def)
  obtain s2 where s2: "begin_op s1 = Inr s2" "in_txn i p {} s2" "lg_outstanding s2 = 2" "lg_n s2 = 0" "dirty_blocks s2 = {}"
    "same_log s2 (s1\<lparr>lg_outstanding := 2\<rparr>)"
    using begin_op_in_txn [OF s1(2)] s0(4) s1 by (auto simp: LOGSIZE_def MAXOPBLOCKS_def same_log_def)
  obtain s3 where s3: "begin_op s2 = Inr s3" "in_txn i p {} s3" "lg_outstanding s3 = 3" "lg_n s3 = 0" "dirty_blocks s3 = {}"
    "same_log s3 (s2\<lparr>lg_outstanding := 3\<rparr>)"
    using begin_op_in_txn [OF s2(2)] s0(4) s1 s2 by (auto simp: LOGSIZE_def MAXOPBLOCKS_def same_log_def)
  have e: "lg_dev s3 = 1" "dk_size s3 = dk_size s" "lg_size s3 = 30"
    using s1(6) s2(6) s3(6) s0(5) size by (auto simp: same_log_def LOGSIZE_def MAXOPBLOCKS_def)
  obtain vs no d where w: "ws = vs @ [(no, d)]" using len by (cases ws rule: rev_cases) (auto simp: MAXOPBLOCKS_def)
  have vs: "length vs = 29" using len w by (simp add: MAXOPBLOCKS_def)
  obtain u where u: "write_blocks vs s3 = Inr u" "in_txn i p {} u" "same_log u s3" "dirty_blocks u = fst ` set vs"
    using write_blocks_in_txn [OF s3(2) e(1), of vs] ws(2) s3 e vs w by (auto simp: LOGSIZE_def MAXOPBLOCKS_def)
  have "card (fst ` set vs) = 29" using distinct_card [of "map fst vs"] ws(1) w vs by simp
  moreover have "card (home u ` {..<nat (lg_n u)}) = nat (lg_n u)" using u(2) card_image by (fastforce simp: in_txn_def)
  ultimately have "lg_n u = 29" using u(2,4) by (simp add: in_txn_def)
  then have "write_block no d u = Inl (Panic ''too big a transaction'')"
    using write_block_full [OF u(2)] u(3) e ws(2) w by (simp add: same_log_def NBUF_def)
  then show ?thesis using s1(1) s2(1) s3(1) u(1) w by (simp add: write_blocks_append)
qed

theorem reserved_transactions_panic_witness:
  "andThen (begin_op idle_log) (\<lambda>s. andThen (begin_op s) (\<lambda>s. andThen (begin_op s)
     (write_blocks (map (\<lambda>k. (word_of_nat k, [])) [100..<130]))))
   = Inl (Panic ''too big a transaction'')"
proof (rule reserved_transactions_panic [OF idle_log_idle])
  have u: "unat (word_of_nat k :: uint) = k" if "k < 130" for k using that by (simp add: unat_of_nat)
  have "inj_on (\<lambda>k. word_of_nat k :: uint) (set [100..<130])"
    by (rule inj_on_inverseI [where g = unat], rule u) (simp only: set_upt atLeastLessThan_iff)
  then show "distinct (map fst (map (\<lambda>k. (word_of_nat k :: uint, [] :: block)) [100..<130]))"
    by (simp add: distinct_map comp_def)
  show "\<forall>w\<in>set (map (\<lambda>k. (word_of_nat k :: uint, [] :: block)) [100..<130]). fst w < dk_size idle_log"
    using u by (simp add: log_state_defs word_less_nat_alt)
qed (simp_all add: log_state_defs LOGSIZE_def MAXOPBLOCKS_def)

end
