(* ===== verification/Preempt.thy ===== *)
theory Preempt
  imports Trap Txn
begin

unbundle bit_operations_syntax

text \<open>
  What a timer interrupt does to the running process under the four schedulers: whether it is
  charged for the tick, and whether it keeps the processor.
\<close>

section \<open>The tick\<close>

definition timer_interrupt :: "nat \<Rightarrow> nat \<Rightarrow> uint \<Rightarrow> 'a flst_scheme \<Rightarrow> bool" where
  "timer_interrupt i p tf s \<longleftrightarrow> at_proc s i p \<and> c_ncli (k_cpus s ! i) = 0 \<and> \<not> k_if s (k_me s)
     \<and> p_state (ps_proc s ! p) = RUNNING \<and> p_killed (ps_proc s ! p) = 0
     \<and> mem_load (tf + tf_trapno) s = T_IRQ0 + IRQ_TIMER"

definition ticked :: "nat \<Rightarrow> nat \<Rightarrow> (proc \<Rightarrow> proc) \<Rightarrow> 'a pst_scheme \<Rightarrow> 'a pst_scheme" where
  "ticked i p account s = probed i (wakeup1 ChTicks (upd_proc p account (s\<lparr>ps_ticks := ps_ticks s + 1\<rparr>)))"

lemma taken_proc [simp]:
  "(taken i l s)\<lparr>ps_ticks := x\<rparr> = taken i l (s\<lparr>ps_ticks := x\<rparr>)" "upd_proc p f (taken i l s) = taken i l (upd_proc p f s)"
  "ps_ticks (taken i l s) = ps_ticks s" "ps_proc (taken i l s) = ps_proc s"
  "calm (s\<lparr>ps_ticks := x\<rparr>) i = calm s i"
  by (simp_all add: taken_def upd_lock_def pushed_def upd_proc_def calm_def here_def cli_ok_def idle_lock_def)

lemma timer_tick_eq:
  assumes "at_proc s i p" and "\<not> k_if s (k_me s)"
  shows "timer_tick account s = Inr (if i = 0 then ticked i p account s else s)"
proof -
  have c: "calm s i" "c_proc (k_cpus s ! i) = Some p" using assms(1) by (auto simp: at_proc_def)
  have id: "cpuid s = Inr i" using c(1) assms(2) by (simp add: cpuid_def calm_def mycpu_here)
  let ?s1 = "s\<lparr>ps_ticks := ps_ticks s + 1\<rparr>"
  have c1: "calm ?s1 i" "calm (upd_proc p account ?s1) i" using c(1) by simp_all
  have m: "myproc (taken i TICKSLOCK ?s1) = Inr (Some p, taken i TICKSLOCK ?s1)" using myproc_taken [OF c1(1)] c(2) by simp
  have w: "wakeup ChTicks (taken i TICKSLOCK (upd_proc p account ?s1)) = Inr (taken i TICKSLOCK (wakeup1 ChTicks (upd_proc p account ?s1)))"
    by (rule wakeup_taken) (use c1(2) in simp_all)
  have r: "release TICKSLOCK (taken i TICKSLOCK (wakeup1 ChTicks (upd_proc p account ?s1))) = Inr (ticked i p account s)"
    unfolding ticked_def by (rule release_taken) (use c1(2) in simp)
  have a: "acquire TICKSLOCK s = Inr (taken i TICKSLOCK s)" by (rule acquire_calm [OF c(1)])
  show ?thesis
  proof (cases "i = 0")
    case True
    show ?thesis using id a m w r unfolding True by (simp add: timer_tick_def Let_def)
  next
    case False
    then show ?thesis using id by (simp add: timer_tick_def)
  qed
qed

lemma ticked_facts:
  assumes "timer_interrupt i p tf s" and run: "p_state (account (ps_proc s ! p)) = RUNNING"
  shows "at_proc (ticked i p account s) i p" "c_ncli (k_cpus (ticked i p account s) ! i) = 0"
    "ps_proc (ticked i p account s) ! p = account (ps_proc s ! p)"
    "mem_load a (ticked i p account s) = mem_load a s"
proof -
  have a: "at_proc s i p" "c_ncli (k_cpus s ! i) = 0" "p < length (ps_proc s)" using assms(1) by (auto simp: timer_interrupt_def at_proc_def)
  let ?u = "upd_proc p account (s\<lparr>ps_ticks := ps_ticks s + 1\<rparr>)"
  have "at_proc ?u i p" using a(1) by (simp add: at_proc_def)
  then show "at_proc (ticked i p account s) i p" by (simp add: ticked_def)
  show "c_ncli (k_cpus (ticked i p account s) ! i) = 0"
    using a(2) by (simp add: ticked_def)
  show "ps_proc (ticked i p account s) ! p = account (ps_proc s ! p)"
    using a(3) run wakeup1_nth [of p ?u ChTicks] by (simp add: ticked_def) (simp add: upd_proc_def)
  show "mem_load a (ticked i p account s) = mem_load a s"
    by (simp add: ticked_def mem_load_def probed_def wakeup1_def upd_proc_def)
qed

section \<open>Giving up the processor\<close>

lemma yield_off_eq:
  assumes "at_proc s i p" and "c_ncli (k_cpus s ! i) = 0"
  obtains ie t where "yield_off s = Inr (ie, t)" "p_state (ps_proc t ! p) = RUNNABLE"
    "\<And>q. q \<noteq> p \<Longrightarrow> ps_proc t ! q = ps_proc s ! q"
proof -
  have c: "calm s i" "c_proc (k_cpus s ! i) = Some p" "p < length (ps_proc s)" using assms(1) by (auto simp: at_proc_def)
  let ?s1 = "upd_proc p (\<lambda>x. x\<lparr>p_toe := sint (ps_ticks s)\<rparr>) s"
  let ?s2 = "upd_proc p (\<lambda>x. x\<lparr>p_state := RUNNABLE\<rparr>) ?s1"
  have mp: "myproc (taken i PTABLE s) = Inr (Some p, taken i PTABLE s)" "myproc (taken i PTABLE ?s1) = Inr (Some p, taken i PTABLE ?s1)"
    using myproc_taken [of s i PTABLE] myproc_taken [of ?s1 i PTABLE] c by (simp_all add: upd_proc_def) 
  let ?t = "taken i PTABLE ?s2"
  have k: "c_proc (k_cpus ?s2 ! i) = Some p" "c_ncli (k_cpus ?s2 ! i) = 0" "calm ?s2 i" using c assms(2) by (simp_all add: upd_proc_def [of p])
  have len: "i < length (k_cpus ?s2)" using k(3) here_less by (auto simp: calm_def)
  have h: "here ?t i" "cli_ok ?t i" "c_ncli (k_cpus ?t ! i) = 1" "holds ?t PTABLE i" "c_proc (k_cpus ?t ! i) = Some p"
    using k len by (simp_all add: cli_ok_taken ncli_taken calm_def) (simp add: taken_def upd_lock_def pushed_def)
  have ps: "p_state (ps_proc ?t ! p) = RUNNABLE" "\<And>q. q \<noteq> p \<Longrightarrow> ps_proc ?t ! q = ps_proc s ! q" using c(3) by (simp_all add: upd_proc_def)
  have nr: "p_state (ps_proc ?t ! p) \<noteq> RUNNING" unfolding ps(1) by simp
  have "sched_off ?t = Inr (c_intena (k_cpus ?t ! i), ?t)" using h nr by (intro sched_off_eq)
  then have "yield_off s = Inr (c_intena (k_cpus ?t ! i), ?t)"
    using mp by (simp add: yield_off_def acquire_calm [OF c(1)] deref_def Let_def)
  with ps show thesis using that by blast
qed

section \<open>The four policies\<close>

text \<open>What the tick leaves in the process's entry: only processor 0 keeps the clock.\<close>

definition charged :: "nat \<Rightarrow> (proc \<Rightarrow> proc) \<Rightarrow> proc \<Rightarrow> proc" where
  "charged i account x = (if i = 0 then account x else x)"

lemma trap_dispatch_timer:
  assumes "timer_interrupt i p tf s" and run: "p_state (account (ps_proc s ! p)) = RUNNING"
  obtains u where "trap_dispatch account tf dv s = Inr u" "at_proc u i p" "c_ncli (k_cpus u ! i) = 0"
    "ps_proc u ! p = charged i account (ps_proc s ! p)" "\<And>a. mem_load a u = mem_load a s"
proof -
  have a: "at_proc s i p" "\<not> k_if s (k_me s)" "c_ncli (k_cpus s ! i) = 0" "mem_load (tf + tf_trapno) s = T_IRQ0 + IRQ_TIMER"
    using assms(1) by (auto simp: timer_interrupt_def)
  have e: "trap_dispatch account tf dv s = Inr (if i = 0 then ticked i p account s else s)"
    using timer_tick_eq [OF a(1,2), of account] a(4) by (simp add: trap_dispatch_def)
  show thesis
  proof (cases "i = 0")
    case True
    show thesis
      by (rule that [of "ticked i p account s"]) (use e True ticked_facts [where account = account, OF assms] in \<open>simp_all add: charged_def\<close>)
  next
    case False
    show thesis by (rule that [of s]) (use e False a in \<open>simp_all add: charged_def\<close>)
  qed
qed

lemma myproc_at_proc: "at_proc s i p \<Longrightarrow> myproc s = Inr (Some p, probed i s)"
  using myproc_eq [of s i] by (simp add: at_proc_def calm_def)

lemma exit_if_killed_live:
  assumes "at_proc s i p" and "p_killed (ps_proc s ! p) = 0"
  shows "exit_if_killed tf s k = k (probed i s)"
  using assms by (simp add: exit_if_killed_def myproc_at_proc)

lemma mem_load_probed [simp]: "mem_load a (probed i s) = mem_load a s"
  by (simp add: mem_load_def probed_def)

lemma trap_with_timer:
  assumes t: "timer_interrupt i p tf s"
    and run: "p_state (account (ps_proc s ! p)) = RUNNING" and live: "p_killed (account (ps_proc s ! p)) = 0"
  defines "x \<equiv> charged i account (ps_proc s ! p)"
  shows "\<exists>r u. trap_with account yields_now vdata tf dv s = Inr (r, u) \<and>
    (if yields_now x then (\<exists>ie. r = Off ie) \<and> p_state (ps_proc u ! p) = RUNNABLE
     else r = Ret () \<and> ps_proc u ! p = x)"
proof -
  obtain u where u: "trap_dispatch account tf dv s = Inr u" "at_proc u i p" "c_ncli (k_cpus u ! i) = 0"
    "ps_proc u ! p = x" "\<And>a. mem_load a u = mem_load a s"
    using trap_dispatch_timer [where account = account and dv = dv, OF t run] unfolding x_def by blast
  have no: "mem_load (tf + tf_trapno) s = T_IRQ0 + IRQ_TIMER" using t by (simp add: timer_interrupt_def)
  have x: "p_state x = RUNNING" "p_killed x = 0" using t run live by (simp_all add: x_def charged_def timer_interrupt_def)
  let ?w = "probed i (probed i u)"
  have w: "at_proc (probed i u) i p" "at_proc ?w i p" "c_ncli (k_cpus ?w ! i) = 0" "ps_proc ?w ! p = x" using u(2,3,4) by simp_all
  have e: "trap_with account yields_now vdata tf dv s =
    (if yields_now x then andThen (yield_off ?w) (\<lambda>(intena, s). Inr (Off intena, s)) else trap_end tf ?w)"
    using no u x by (simp add: trap_with_def T_IRQ0_def IRQ_TIMER_def T_SYSCALL_def
        exit_if_killed_live [OF u(2)] myproc_at_proc [OF w(1)])
  show ?thesis
  proof (cases "yields_now x")
    case True
    obtain ie v where "yield_off ?w = Inr (ie, v)" "p_state (ps_proc v ! p) = RUNNABLE" by (rule yield_off_eq [OF w(2,3)]) (rule that)
    with True e show ?thesis by simp
  next
    case False
    with e w x show ?thesis by (simp add: trap_end_def exit_if_killed_live [OF w(2)])
  qed
qed

lemma tick_account_keeps [simp]: "p_state (tick_account x) = p_state x" "p_killed (tick_account x) = p_killed x"
  by (simp_all add: tick_account_def)

lemma mlfq_account_keeps [simp]: "p_state (mlfq_account x) = p_state x" "p_killed (mlfq_account x) = p_killed x"
  by (simp_all add: mlfq_account_def Let_def)

lemma mlfq_account_ticks: "p_state x = RUNNING \<Longrightarrow> p_ticks (mlfq_account x) = p_ticks x - 1"
  by (simp add: mlfq_account_def Let_def)

text \<open>
  C15. A timer interrupt taken while a process is running always completes, and the four policies
  differ exactly as the schedulers require. Round robin and the priority scheduler put the process
  back into the RUNNABLE state and leave the processor; first come first served returns to the
  process, which keeps running. The multilevel queue leaves the processor exactly when the slice is
  used up; the slice is counted down by one when the interrupt arrives at processor 0, but on any
  other processor it is not counted down, so that a process with a positive slice is then neither
  charged nor preempted.
\<close>

theorem timer_preemption:
  assumes "timer_interrupt i p tf s"
  defines "left \<equiv> (if i = 0 then p_ticks (ps_proc s ! p) - 1 else p_ticks (ps_proc s ! p))"
  shows "(\<exists>ie u. rr_trap vdata tf dv s = Inr (Off ie, u) \<and> p_state (ps_proc u ! p) = RUNNABLE) \<and>
    (\<exists>ie u. pbs_trap vdata tf dv s = Inr (Off ie, u) \<and> p_state (ps_proc u ! p) = RUNNABLE) \<and>
    (\<exists>u. fcfs_trap vdata tf dv s = Inr (Ret (), u) \<and> p_state (ps_proc u ! p) = RUNNING) \<and>
    (\<exists>r u. mlfq_trap vdata tf dv s = Inr (r, u) \<and>
       (if left \<le> 0 then (\<exists>ie. r = Off ie) \<and> p_state (ps_proc u ! p) = RUNNABLE
        else r = Ret () \<and> p_state (ps_proc u ! p) = RUNNING \<and> p_ticks (ps_proc u ! p) = left))"
proof (intro conjI)
  have x: "p_state (ps_proc s ! p) = RUNNING" "p_killed (ps_proc s ! p) = 0" using assms(1) by (auto simp: timer_interrupt_def)
  note t = trap_with_timer [OF assms(1), where vdata = vdata and dv = dv]
  have y: "\<exists>ie u. trap_with tick_account (\<lambda>_. True) vdata tf dv s = Inr (Off ie, u) \<and> p_state (ps_proc u ! p) = RUNNABLE"
    using t [of tick_account "\<lambda>_. True"] x by auto
  then show "\<exists>ie u. rr_trap vdata tf dv s = Inr (Off ie, u) \<and> p_state (ps_proc u ! p) = RUNNABLE" by (simp add: rr_trap_def)
  show "\<exists>ie u. pbs_trap vdata tf dv s = Inr (Off ie, u) \<and> p_state (ps_proc u ! p) = RUNNABLE" using y by (simp add: pbs_trap_def)
  show "\<exists>u. fcfs_trap vdata tf dv s = Inr (Ret (), u) \<and> p_state (ps_proc u ! p) = RUNNING"
    using t [of tick_account "\<lambda>_. False"] x by (auto simp: fcfs_trap_def charged_def)
  have "p_ticks (charged i mlfq_account (ps_proc s ! p)) = left" "p_state (charged i mlfq_account (ps_proc s ! p)) = RUNNING"
    using x by (simp_all add: left_def charged_def mlfq_account_ticks)
  then show "\<exists>r u. mlfq_trap vdata tf dv s = Inr (r, u) \<and>
       (if left \<le> 0 then (\<exists>ie. r = Off ie) \<and> p_state (ps_proc u ! p) = RUNNABLE
        else r = Ret () \<and> p_state (ps_proc u ! p) = RUNNING \<and> p_ticks (ps_proc u ! p) = left)"
    using t [of mlfq_account "\<lambda>x. p_ticks x \<le> 0"] x by (simp add: mlfq_trap_def) (auto split: if_splits)
qed

text \<open>Processor 1 runs the first process, whose slice is two ticks, when its timer fires.\<close>

definition tick_state :: flst where
  "tick_state = ppst.extend (cst.extend (ist.extend (lst.extend idle_log
       (ist.fields \<lparr>sb_size = 1000, sb_nblocks = 900, sb_ninodes = 200, sb_nlog = 30, sb_logstart = 2,
          sb_inodestart = 32, sb_bmapstart = 58\<rparr> []))
       (cst.fields False [] (replicate 128 0) 0 0 0))
       (ppst.fields (\<lambda>_. \<lparr>pi_data = [], pi_nread = 0, pi_nwrite = 0, pi_readopen = False, pi_writeopen = False\<rparr>)))
       (flst.fields [] True)
     \<lparr>k_cpus := [\<lparr>c_apicid = 0, c_ncli = 0, c_intena = False, c_proc = None, c_cr3 = 0, c_esp0 = 0\<rparr>,
        \<lparr>c_apicid = 1, c_ncli = 0, c_intena = False, c_proc = Some 0, c_cr3 = 0, c_esp0 = 0\<rparr>],
      k_me := 1, k_if := (\<lambda>_. False), k_locks := (\<lambda>_. \<lparr>l_locked = 0, l_name = [], l_cpu = None\<rparr>),
      ps_proc := [first_proc\<lparr>p_ticks := 2\<rparr>],
      km_mem := (\<lambda>_. 0)(48 := 32)\<rparr>"

lemma tick_state_fields:
  "k_cpus tick_state = [\<lparr>c_apicid = 0, c_ncli = 0, c_intena = False, c_proc = None, c_cr3 = 0, c_esp0 = 0\<rparr>,
     \<lparr>c_apicid = 1, c_ncli = 0, c_intena = False, c_proc = Some 0, c_cr3 = 0, c_esp0 = 0\<rparr>]"
  "k_me tick_state = 1" "k_if tick_state = (\<lambda>_. False)" "k_locks tick_state = (\<lambda>_. \<lparr>l_locked = 0, l_name = [], l_cpu = None\<rparr>)"
  "ps_proc tick_state = [first_proc\<lparr>p_ticks := 2\<rparr>]" "km_mem tick_state = (\<lambda>_. 0)(48 := 32)"
  by (simp_all add: tick_state_def ppst.defs cst.defs ist.defs lst.defs flst.defs)

lemma tick_state_interrupted: "timer_interrupt 1 0 0 tick_state"
  by (simp add: timer_interrupt_def at_proc_def calm_def here_def cli_ok_def idle_lock_def tick_state_fields
      mem_load_def load32_def tf_trapno_def T_IRQ0_def IRQ_TIMER_def first_proc_def unused_proc_def)

theorem timer_preemption_witness:
  "(\<exists>ie u. rr_trap 0 0 \<lparr>dv_kbd = [], dv_com1 = [], dv_cr2 = 0\<rparr> tick_state = Inr (Off ie, u) \<and> p_state (ps_proc u ! 0) = RUNNABLE) \<and>
   (\<exists>u. mlfq_trap 0 0 \<lparr>dv_kbd = [], dv_com1 = [], dv_cr2 = 0\<rparr> tick_state = Inr (Ret (), u) \<and>
      p_state (ps_proc u ! 0) = RUNNING \<and> p_ticks (ps_proc u ! 0) = 2)"
  using timer_preemption [OF tick_state_interrupted, of 0 "\<lparr>dv_kbd = [], dv_com1 = [], dv_cr2 = 0\<rparr>"]
  by (simp add: tick_state_fields)

end
