(* ===== verification/BlockAlloc.thy ===== *)
theory BlockAlloc
  imports Txn Inode
begin

unbundle bit_operations_syntax

text \<open>
  Allocation of disk blocks, \<open>balloc\<close> and \<open>bfree\<close> of \<^verbatim>\<open>fs.c\<close>, inside a transaction of the log. The free map
  is a set of bits on disk; the lemmas relate it to the set of blocks in use.
\<close>

section \<open>The bitmap\<close>

definition map_block :: "'a ist_scheme \<Rightarrow> nat \<Rightarrow> uint" where
  "map_block s x = BBLOCK (word_of_nat x) (fs_sb s)"

definition in_use :: "'a ist_scheme \<Rightarrow> nat \<Rightarrow> bool" where
  "in_use s x \<longleftrightarrow> \<not> bit_clear (view s (map_block s x)) (x mod BPB)"

definition set_bit8 :: "nat \<Rightarrow> block \<Rightarrow> block" where
  "set_bit8 bi d = d[bi div 8 := (d ! (bi div 8)) OR push_bit (bi mod 8) 1]"

definition clear_bit8 :: "nat \<Rightarrow> block \<Rightarrow> block" where
  "clear_bit8 bi d = d[bi div 8 := (d ! (bi div 8)) AND NOT (push_bit (bi mod 8) 1)]"

lemma bit_clear_bit: "bit_clear d bi \<longleftrightarrow> \<not> bit (d ! (bi div 8)) (bi mod 8)"
proof -
  have "push_bit (bi mod 8) 1 = (2 :: uchar) ^ (bi mod 8)" by (simp add: push_bit_eq_mult)
  then show ?thesis
    using and_exp_eq_0_iff_not_bit [of "d ! (bi div 8)" "bi mod 8"] by (simp add: bit_clear_def)
qed

lemma bit_clear_set:
  assumes "bi < BPB" "length d = BSIZE"
  shows "bit_clear (set_bit8 bi d) bj \<longleftrightarrow> bj \<noteq> bi \<and> bit_clear d bj"
proof -
  have lt: "bi div 8 < length d" using assms by (simp add: BPB_def BSIZE_def)
  have eq: "bj = bi \<longleftrightarrow> bj div 8 = bi div 8 \<and> bj mod 8 = bi mod 8"
    by (metis div_mult_mod_eq)
  show ?thesis
    using lt eq by (cases "bj div 8 = bi div 8")
      (auto simp: bit_clear_bit set_bit8_def bit_simps push_bit_eq_mult)
qed

lemma bit_clear_clear:
  assumes "bi < BPB" "length d = BSIZE"
  shows "bit_clear (clear_bit8 bi d) bj \<longleftrightarrow> bj = bi \<or> bit_clear d bj"
proof -
  have lt: "bi div 8 < length d" using assms by (simp add: BPB_def BSIZE_def)
  have eq: "bj = bi \<longleftrightarrow> bj div 8 = bi div 8 \<and> bj mod 8 = bi mod 8"
    by (metis div_mult_mod_eq)
  show ?thesis
    using lt eq by (cases "bj div 8 = bi div 8")
      (auto simp: bit_clear_bit clear_bit8_def bit_simps push_bit_eq_mult)
qed

text \<open>
  The free map is sound: its blocks are whole, on the disk and in use, and the blocks of the file system are on the disk.
\<close>

definition nblocks :: "'a ist_scheme \<Rightarrow> nat" where
  "nblocks s = unat (sb_size (fs_sb s))"

definition map_ok :: "'a ist_scheme \<Rightarrow> bool" where
  "map_ok s \<longleftrightarrow> nblocks s \<le> unat (dk_size s)
     \<and> (\<forall>x<nblocks s. map_block s x < dk_size s \<and> length (view s (map_block s x)) = BSIZE
          \<and> unat (map_block s x) < nblocks s \<and> in_use s (unat (map_block s x)))
     \<and> unat (sb_bmapstart (fs_sb s)) + nblocks s < 2 ^ 32"

definition fs_txn :: "nat \<Rightarrow> nat \<Rightarrow> 'a ist_scheme \<Rightarrow> bool" where
  "fs_txn i p s \<longleftrightarrow> in_txn i p {} s \<and> lg_dev s = 1 \<and> 1 \<le> lg_outstanding s \<and> map_ok s"

lemma unat_map_block:
  assumes "map_ok s" "x < nblocks s"
  shows "unat (map_block s x) = x div BPB + unat (sb_bmapstart (fs_sb s))"
proof -
  have b: "unat (sb_bmapstart (fs_sb s)) + nblocks s < 2 ^ 32" using assms(1) by (simp add: map_ok_def)
  have "unat (word_of_nat x :: uint) = x" using b assms(2) by (simp add: unat_of_nat)
  moreover have "unat (word_of_nat BPB :: uint) = BPB" by (simp add: BPB_def BSIZE_def)
  ultimately have "unat (word_of_nat x div word_of_nat BPB :: uint) = x div BPB" by (simp only: unat_div)
  moreover have "x div BPB + unat (sb_bmapstart (fs_sb s)) < 2 ^ 32"
    using b assms(2) div_le_dividend [of x BPB] by linarith
  ultimately show ?thesis unfolding map_block_def BBLOCK_def by (subst unat_plus_if_size) (simp add: word_size)
qed

lemma fs_sb_same: "lst.more t = lst.more s \<Longrightarrow> fs_sb t = fs_sb s"
  for s t :: "'a ist_scheme"
  by (cases s; cases t) simp


lemma same_map_block:
  assumes "map_ok s" "x < nblocks s" "y < nblocks s"
  shows "map_block s x = map_block s y \<and> x mod BPB = y mod BPB \<longleftrightarrow> x = y"
proof
  assume a: "map_block s x = map_block s y \<and> x mod BPB = y mod BPB"
  then have "x div BPB = y div BPB" using unat_map_block [OF assms(1,2)] unat_map_block [OF assms(1,3)] by simp
  then show "x = y" using a by (metis div_mult_mod_eq)
qed simp

text \<open>What a change of one bit of the map does.\<close>

lemma map_update:
  assumes ok: "map_ok s" and x: "x < nblocks s" and same: "same_log t s"
    and vt: "view t = (view s)(map_block s x := d)" and len: "length d = BSIZE"
    and bits: "\<And>bj. bit_clear d bj = (if bj = x mod BPB then \<not> used else bit_clear (view s (map_block s x)) bj)"
  shows "map_block t = map_block s" "nblocks t = nblocks s"
    "y < nblocks s \<Longrightarrow> in_use t y = (if y = x then used else in_use s y)"
proof -
  have sb: "fs_sb t = fs_sb s" using same by (intro fs_sb_same) (simp add: same_log_def)
  show mb: "map_block t = map_block s" "nblocks t = nblocks s" by (simp_all add: map_block_def nblocks_def sb fun_eq_iff)
  show "in_use t y = (if y = x then used else in_use s y)" if y: "y < nblocks s"
    using same_map_block [OF ok y x] bits by (auto simp: in_use_def mb vt)
qed

lemma map_ok_update:
  assumes ok: "map_ok s" and same: "same_log t s" and mb: "map_block t = map_block s" "nblocks t = nblocks s"
    and len: "\<And>y. y < nblocks s \<Longrightarrow> length (view t (map_block s y)) = BSIZE"
    and use: "\<And>y. y < nblocks s \<Longrightarrow> in_use t (unat (map_block s y))"
  shows "map_ok t"
proof -
  have "fs_sb t = fs_sb s" using same by (intro fs_sb_same) (simp add: same_log_def)
  then show ?thesis using ok same len use mb by (simp add: map_ok_def same_log_def)
qed

lemma fs_txnD:
  assumes "fs_txn i p s"
  shows "in_txn i p {} s" "lg_dev s = 1" "1 \<le> lg_outstanding s" "map_ok s"
    "x < nblocks s \<Longrightarrow> map_block s x < dk_size s" "x < nblocks s \<Longrightarrow> length (view s (map_block s x)) = BSIZE"
    "x < nblocks s \<Longrightarrow> unat (map_block s x) < nblocks s" "x < nblocks s \<Longrightarrow> in_use s (unat (map_block s x))"
    "x < nblocks s \<Longrightarrow> word_of_nat x < dk_size s" "x < nblocks s \<Longrightarrow> unat (word_of_nat x :: uint) = x"
proof -
  have ok: "map_ok s" using assms by (simp add: fs_txn_def)
  show u: "unat (word_of_nat x :: uint) = x" if "x < nblocks s" using that ok by (simp add: map_ok_def unat_of_nat)
  show "word_of_nat x < dk_size s" if "x < nblocks s" using u [OF that] that ok by (simp add: map_ok_def word_less_nat_alt)
qed (use assms in \<open>auto simp: fs_txn_def map_ok_def\<close>)

lemma length_bit8 [simp]: "length (set_bit8 bi d) = length d" "length (clear_bit8 bi d) = length d"
  by (simp_all add: set_bit8_def clear_bit8_def)

lemma bfree_in_txn:
  assumes fs: "fs_txn i p s" and room: "lg_n s < LOGSIZE" "lg_n s < lg_size s - 1"
    and x: "x < nblocks s" "in_use s x" "\<forall>y<nblocks s. unat (map_block s y) \<noteq> x"
  obtains t where "bfree 1 (word_of_nat x) s = Inr t" "fs_txn i p t" "same_log t s" "nblocks t = nblocks s"
    "\<forall>y<nblocks s. in_use t y \<longleftrightarrow> y \<noteq> x \<and> in_use s y" "\<forall>no. no \<noteq> map_block s x \<longrightarrow> view t no = view s no"
    "lg_n t \<le> lg_n s + 1"
proof -
  note F = fs_txnD [OF fs]
  let ?no = "map_block s x" and ?bi = "x mod BPB"
  let ?d = "clear_bit8 ?bi (view s ?no)"
  have few: "lg_n s < int NBUF" using room(1) by (simp add: LOGSIZE_def MAXOPBLOCKS_def NBUF_def)
  obtain b s1 where b: "bread 1 ?no s = Inr (b, s1)" "bdata b s1 = view s ?no" "beyond s1 = beyond s"
      "\<exists>t. andThen (log_write b (set_bdata b ?d s1)) (brelse b) = Inr t \<and> in_txn i p {} t \<and> same_log t s
        \<and> dirty_blocks t = insert ?no (dirty_blocks s) \<and> view t = (view s)(?no := ?d) \<and> lg_n t \<le> lg_n s + 1"
    by (rule update_block_in_txn [OF F(1,2) F(5) [OF x(1)] few]) (use room F(3) in blast)
  from b(4) obtain t where t: "andThen (log_write b (set_bdata b ?d s1)) (brelse b) = Inr t" "in_txn i p {} t" "same_log t s"
      "view t = (view s)(?no := ?d)" "lg_n t \<le> lg_n s + 1" by blast
  have bi: "?bi < BPB" by (simp add: BPB_def BSIZE_def)
  have bits: "bit_clear ?d bj = (if bj = ?bi then \<not> False else bit_clear (view s ?no) bj)" for bj
    using bit_clear_clear [OF bi F(6) [OF x(1)]] by simp
  have len: "length ?d = BSIZE" using F(6) [OF x(1)] by simp
  note m = map_update [OF F(4) x(1) t(3,4) len bits]
  have "map_ok t"
    by (rule map_ok_update [OF F(4) t(3) m(1,2)]) (use F(6,7,8) m(3) x(3) len t(4) in auto)
  then have "fs_txn i p t" using t(2,3) F(2,3) by (simp add: fs_txn_def same_log_def)
  moreover have "bfree 1 (word_of_nat x) s = Inr t"
    using b(1,2) t(1) x(2) F(10) [OF x(1)]
    by (simp add: bfree_def map_block_def [symmetric] Let_def in_use_def clear_bit8_def)
  ultimately show thesis using that [of t] t(3,4,5) m by simp
qed

lemma bzero_in_txn:
  assumes t: "in_txn i p {} s" and dev: "lg_dev s = 1" "no < dk_size s"
    and room: "lg_n s < LOGSIZE" "lg_n s < lg_size s - 1" "1 \<le> lg_outstanding s"
  obtains u where "bzero 1 no s = Inr u" "in_txn i p {} u" "same_log u s"
    "view u = (view s)(no := replicate BSIZE 0)" "lg_n u \<le> lg_n s + 1"
proof -
  have "bzero 1 no s = write_block no (replicate BSIZE 0) s" using dev(1) by (simp add: bzero_def write_block_def)
  then show thesis using write_block_in_txn [OF assms, of "replicate BSIZE 0"] that by metis
qed


text \<open>
  Setting the bit of a free block and clearing the block. The block is none of the map's own, which are in use.
\<close>

lemma take_block:
  assumes fs: "fs_txn i p s" and room: "lg_n s + 2 \<le> LOGSIZE" "lg_n s + 2 \<le> lg_size s - 1" and x: "x < nblocks s" "\<not> in_use s x"
    and b: "\<And>d. \<lbrakk>lg_n s < LOGSIZE; lg_n s < lg_size s - 1; 1 \<le> lg_outstanding s\<rbrakk> \<Longrightarrow>
      \<exists>u. andThen (log_write b (set_bdata b d s1)) (brelse b) = Inr u \<and> in_txn i p {} u \<and> same_log u s
        \<and> dirty_blocks u = insert (map_block s x) (dirty_blocks s) \<and> view u = (view s)(map_block s x := d) \<and> lg_n u \<le> lg_n s + 1"
  shows "\<exists>u t. andThen (log_write b (set_bdata b (set_bit8 (x mod BPB) (view s (map_block s x))) s1)) (brelse b) = Inr u
    \<and> bzero 1 (word_of_nat x) u = Inr t \<and> fs_txn i p t \<and> same_log t s \<and> nblocks t = nblocks s
    \<and> (\<forall>y<nblocks s. in_use t y \<longleftrightarrow> y = x \<or> in_use s y) \<and> view t (word_of_nat x) = replicate BSIZE 0
    \<and> (\<forall>no. no \<noteq> map_block s x \<and> no \<noteq> word_of_nat x \<longrightarrow> view t no = view s no) \<and> lg_n t \<le> lg_n s + 2"
proof -
  note F = fs_txnD [OF fs]
  let ?no = "map_block s x" and ?bi = "x mod BPB" and ?z = "word_of_nat x :: uint"
  let ?d = "set_bit8 ?bi (view s ?no)"
  have "lg_n s < LOGSIZE" "lg_n s < lg_size s - 1" using room by simp_all
  then obtain u where u: "andThen (log_write b (set_bdata b ?d s1)) (brelse b) = Inr u" "in_txn i p {} u" "same_log u s"
      "view u = (view s)(?no := ?d)" "lg_n u \<le> lg_n s + 1"
    using b [of ?d] F(3) by blast
  have e: "lg_dev u = 1" "dk_size u = dk_size s" "lg_size u = lg_size s" "1 \<le> lg_outstanding u"
    using u(3) F(2,3) by (auto simp: same_log_def)
  obtain t where t: "bzero 1 ?z u = Inr t" "in_txn i p {} t" "same_log t u" "view t = (view u)(?z := replicate BSIZE 0)" "lg_n t \<le> lg_n u + 1"
    by (rule bzero_in_txn [OF u(2) e(1), of ?z]) (use F(9) [OF x(1)] e u(5) room in simp_all)
  have bi: "?bi < BPB" by (simp add: BPB_def BSIZE_def)
  have bits: "bit_clear ?d bj = (if bj = ?bi then \<not> True else bit_clear (view s ?no) bj)" for bj
    using bit_clear_set [OF bi F(6) [OF x(1)]] by simp
  have len: "length ?d = BSIZE" using F(6) [OF x(1)] by simp
  note m = map_update [OF F(4) x(1) u(3,4) len bits]
  have other: "map_block s y \<noteq> ?z" if y: "y < nblocks s" for y
    using F(8) [OF y] F(10) [OF x(1)] x(2) by auto
  have st: "same_log t s" using same_log_trans [OF u(3) t(3)] .
  have sb: "fs_sb t = fs_sb s" using st by (intro fs_sb_same) (simp add: same_log_def)
  have mb: "map_block t = map_block s" "nblocks t = nblocks s" by (simp_all add: map_block_def nblocks_def sb fun_eq_iff)
  have use: "in_use t y \<longleftrightarrow> y = x \<or> in_use s y" if y: "y < nblocks s" for y
    using m(3) [OF y] other [OF y] mb m(1) t(4) by (simp add: in_use_def)
  have "map_ok t"
    by (rule map_ok_update [OF F(4) st mb]) (use F(6,7,8) use other len t(4) u(4) in auto)
  then have "fs_txn i p t" using t(2) st F(2,3) by (simp add: fs_txn_def same_log_def)
  then show ?thesis using u(1,5) t(1,5) st mb(2) use t(4) u(4) by auto
qed

lemma unat_BPB: "0 < BPB" by (simp add: BPB_def BSIZE_def)

lemma map_block_group:
  assumes "map_ok s" "k * BPB + bi < nblocks s" "bi < BPB"
  shows "map_block s (k * BPB) = map_block s (k * BPB + bi)" "(k * BPB + bi) mod BPB = bi"
proof -
  have "unat (map_block s (k * BPB)) = unat (map_block s (k * BPB + bi))"
    using unat_map_block [OF assms(1,2)] unat_map_block [OF assms(1), of "k * BPB"] assms(2,3) by simp
  then show "map_block s (k * BPB) = map_block s (k * BPB + bi)" by (simp only: word_unat_eq_iff)
  show "(k * BPB + bi) mod BPB = bi" using assms(3) by simp
qed

lemma groups:
  fixes n :: nat
  assumes "0 < b" "m = (n + b - 1) div b"
  shows "n \<le> m * b" and "k < m \<Longrightarrow> k * b < n"
proof -
  have "n + b - 1 < Suc m * b" unfolding assms(2) using assms(1) by (simp add: dividend_less_div_times add.commute)
  then show "n \<le> m * b" using assms(1) by simp
  assume "k < m"
  then have "Suc k \<le> (n + b - 1) div b" unfolding assms(2) by simp
  then have "Suc k * b \<le> n + b - 1" using assms(1) less_eq_div_iff_mult_less_eq by blast
  then show "k * b < n" using assms(1) by simp
qed

text \<open>The scan of \<open>balloc\<close> over the blocks of the map, with no free block before.\<close>

definition allocated :: "nat \<Rightarrow> nat \<Rightarrow> 'a ist_scheme \<Rightarrow> nat \<Rightarrow> 'a ist_scheme \<Rightarrow> bool" where
  "allocated i p s x t \<longleftrightarrow> x < nblocks s \<and> \<not> in_use s x \<and> (\<forall>y<x. in_use s y) \<and> fs_txn i p t \<and> same_log t s \<and> nblocks t = nblocks s
     \<and> (\<forall>y<nblocks s. in_use t y \<longleftrightarrow> y = x \<or> in_use s y) \<and> view t (word_of_nat x) = replicate BSIZE 0
     \<and> (\<forall>no. no \<noteq> map_block s x \<and> no \<noteq> word_of_nat x \<longrightarrow> view t no = view s no) \<and> lg_n t \<le> lg_n s + 2"


lemma allocated_cong:
  assumes "same_log s' s" "view s' = view s" "lg_n s' = lg_n s"
  shows "allocated i p s' = allocated i p s" "nblocks s' = nblocks s" "in_use s' = in_use s" "fs_txn i p s \<Longrightarrow> in_txn i p {} s' \<Longrightarrow> fs_txn i p s'"
proof -
  have sb: "fs_sb s' = fs_sb s" using assms(1) by (intro fs_sb_same) (simp add: same_log_def)
  have mb: "map_block s' = map_block s" by (simp add: map_block_def sb fun_eq_iff)
  show nb: "nblocks s' = nblocks s" by (simp add: nblocks_def sb)
  show iu: "in_use s' = in_use s" by (simp add: in_use_def fun_eq_iff mb assms(2))
  show "allocated i p s' = allocated i p s" 
    using assms by (simp add: allocated_def fun_eq_iff mb nb iu same_log_def)
  show "fs_txn i p s'" if "fs_txn i p s" "in_txn i p {} s'"
    using that assms(1,2) by (simp add: fs_txn_def map_ok_def same_log_def mb nb iu sb)
qed

lemma bit_in_use:
  assumes "map_ok s" "k * BPB + bi < nblocks s" "bi < BPB"
  shows "in_use s (k * BPB + bi) \<longleftrightarrow> \<not> bit_clear (view s (map_block s (k * BPB))) bi"
  using map_block_group [OF assms] by (simp add: in_use_def)

text \<open>One block of the map: the first clear bit, if there is one.\<close>

lemma find_clear:
  assumes ok: "map_ok s"
    and "find (bit_clear (view s (map_block s (k * BPB)))) [0..<min BPB (nblocks s - k * BPB)] = r"
  shows "r = Some bi \<Longrightarrow> bi < BPB \<and> k * BPB + bi < nblocks s \<and> \<not> in_use s (k * BPB + bi)
      \<and> (\<forall>y. k * BPB \<le> y \<and> y < k * BPB + bi \<longrightarrow> in_use s y)"
    and "r = None \<Longrightarrow> \<forall>y<nblocks s. k * BPB \<le> y \<and> y < Suc k * BPB \<longrightarrow> in_use s y"
proof -
  let ?d = "view s (map_block s (k * BPB))"
  let ?n = "min BPB (nblocks s - k * BPB)"
  have y: "y = k * BPB + (y - k * BPB)" if "k * BPB \<le> y" for y using that by simp
  show "\<forall>y<nblocks s. k * BPB \<le> y \<and> y < Suc k * BPB \<longrightarrow> in_use s y" if "r = None"
  proof (intro allI impI)
    fix y assume a: "y < nblocks s" "k * BPB \<le> y \<and> y < Suc k * BPB"
    then have b: "y - k * BPB < BPB" "y - k * BPB < nblocks s - k * BPB" by auto
    then have "\<not> bit_clear ?d (y - k * BPB)" using assms(2) that by (auto simp: find_None_iff)
    then show "in_use s y" using bit_in_use [OF ok, of k "y - k * BPB"] b(1) a by simp
  qed
  assume "r = Some bi"
  then obtain j where j: "j < length [0..<?n]" "bit_clear ?d ([0..<?n] ! j)" "bi = [0..<?n] ! j"
      "\<forall>l<j. \<not> bit_clear ?d ([0..<?n] ! l)" using assms(2) by (auto simp: find_Some_iff)
  then have bi: "bi = j" "bi < BPB" "k * BPB + bi < nblocks s" "bit_clear ?d bi" "\<forall>l<bi. \<not> bit_clear ?d l" by auto
  moreover have "in_use s y" if "k * BPB \<le> y" "y < k * BPB + bi" for y
    using bit_in_use [OF ok, of k "y - k * BPB"] bi that by simp
  ultimately show "bi < BPB \<and> k * BPB + bi < nblocks s \<and> \<not> in_use s (k * BPB + bi)
      \<and> (\<forall>y. k * BPB \<le> y \<and> y < k * BPB + bi \<longrightarrow> in_use s y)"
    using bit_in_use [OF ok, of k bi] by simp
qed

lemma balloc_from_spec:
  fixes s :: "'a ist_scheme"
  assumes "fs_txn i p s" "lg_n s + 2 \<le> LOGSIZE" "lg_n s + 2 \<le> lg_size s - 1"
    and "\<forall>y<nblocks s. y < k * BPB \<longrightarrow> in_use s y" "m = (nblocks s + BPB - 1) div BPB" "k \<le> m"
  shows "balloc_from 1 (map (\<lambda>k. k * BPB) [k..<m]) s = Inl (Panic ''balloc: out of blocks'') \<and> (\<forall>y<nblocks s. in_use s y)
    \<or> (\<exists>x t. balloc_from 1 (map (\<lambda>k. k * BPB) [k..<m]) s = Inr (word_of_nat x, t) \<and> allocated i p s x t)"
  using assms
proof (induction "m - k" arbitrary: k s)
  case 0
  then have "k = m" by simp
  moreover have "nblocks s \<le> m * BPB" using groups(1) [OF unat_BPB] 0(6) by simp
  ultimately show ?case using 0 by auto
next
  case (Suc d)
  note F = fs_txnD [OF Suc.prems(1)]
  have km: "k < m" using Suc.hyps(2) by simp
  have kb: "k * BPB < nblocks s" using groups(2) [OF unat_BPB Suc.prems(5) km] .
  let ?no = "map_block s (k * BPB)" and ?b = "k * BPB"
  have few: "lg_n s < int NBUF" using Suc.prems(2) by (simp add: LOGSIZE_def MAXOPBLOCKS_def NBUF_def)
  obtain b s1 u where b: "bread 1 ?no s = Inr (b, s1)" "bdata b s1 = view s ?no" "beyond s1 = beyond s"
      "brelse b s1 = Inr u" "in_txn i p {} u" "same_log u s" "view u = view s" "lg_n u = lg_n s"
      "\<And>d. \<lbrakk>lg_n s < LOGSIZE; lg_n s < lg_size s - 1; 1 \<le> lg_outstanding s\<rbrakk> \<Longrightarrow>
      \<exists>u. andThen (log_write b (set_bdata b d s1)) (brelse b) = Inr u \<and> in_txn i p {} u \<and> same_log u s
        \<and> dirty_blocks u = insert ?no (dirty_blocks s) \<and> view u = (view s)(?no := d) \<and> lg_n u \<le> lg_n s + 1"
    by (rule update_block_in_txn [OF F(1,2) F(5) [OF kb] few]) metis
  have sb: "fs_sb s1 = fs_sb s" using arg_cong [OF b(3), of lst.more] by (intro fs_sb_same) (simp add: beyond_def)
  have nb: "nblocks s1 = nblocks s" by (simp add: nblocks_def sb)
  have list: "map (\<lambda>k. k * BPB) [k..<m] = ?b # map (\<lambda>k. k * BPB) [Suc k..<m]" using km by (simp add: upt_conv_Cons)
  have step: "balloc_from 1 (map (\<lambda>k. k * BPB) [k..<m]) s =
    (case find (bit_clear (view s ?no)) [0..<min BPB (nblocks s - ?b)] of
       Some bi \<Rightarrow> andThen (andThen (log_write b (set_bdata b (set_bit8 bi (view s ?no)) s1)) (brelse b)) (\<lambda>s.
          andThen (bzero 1 (word_of_nat (?b + bi)) s) (\<lambda>s. Inr (word_of_nat (?b + bi), s)))
     | None \<Rightarrow> balloc_from 1 (map (\<lambda>k. k * BPB) [Suc k..<m]) u)"
    unfolding list balloc_from.simps map_block_def [symmetric] b(1) andThen_Inr prod.case b(2) nblocks_def [symmetric] nb
    by (simp add: b(4) set_bit8_def Let_def andThen_assoc split: option.split)
  show ?case
  proof (cases "find (bit_clear (view s ?no)) [0..<min BPB (nblocks s - ?b)]")
    case None
    have c: "allocated i p u = allocated i p s" "nblocks u = nblocks s" "in_use u = in_use s" "fs_txn i p u"
      using allocated_cong [OF b(6-8)] Suc.prems(1) b(5) by blast+
    have "\<forall>y<nblocks u. y < Suc k * BPB \<longrightarrow> in_use u y"
      using find_clear(2) [OF F(4) None refl] Suc.prems(4) unfolding c by (meson not_le)
    then have "balloc_from 1 (map (\<lambda>k. k * BPB) [Suc k..<m]) u = Inl (Panic ''balloc: out of blocks'') \<and> (\<forall>y<nblocks u. in_use u y)
      \<or> (\<exists>x t. balloc_from 1 (map (\<lambda>k. k * BPB) [Suc k..<m]) u = Inr (word_of_nat x, t) \<and> allocated i p u x t)"
      using Suc.prems Suc.hyps(2) c km b(6,8) by (intro Suc.hyps(1)) (auto simp: same_log_def)
    then show ?thesis unfolding step None c by simp
  next
    case (Some bi)
    note f = find_clear(1) [OF F(4) Some refl]
    let ?x = "?b + bi"
    have g: "map_block s ?x = ?no" "?x mod BPB = bi" using map_block_group [OF F(4), of k bi] f by auto
    have x: "?x < nblocks s" "\<not> in_use s ?x" using f by auto
    obtain v t where t: "andThen (log_write b (set_bdata b (set_bit8 bi (view s ?no)) s1)) (brelse b) = Inr v"
      "bzero 1 (word_of_nat ?x) v = Inr t" "fs_txn i p t" "same_log t s" "nblocks t = nblocks s"
      "\<forall>y<nblocks s. in_use t y \<longleftrightarrow> y = ?x \<or> in_use s y" "view t (word_of_nat ?x) = replicate BSIZE 0"
      "\<forall>no. no \<noteq> map_block s ?x \<and> no \<noteq> word_of_nat ?x \<longrightarrow> view t no = view s no" "lg_n t \<le> lg_n s + 2"
      using take_block [OF Suc.prems(1-3) x b(9) [folded g(1)]] unfolding g by blast
    have "\<forall>y<?x. in_use s y"
    proof (intro allI impI)
      fix y assume "y < ?x"
      then show "in_use s y" using f Suc.prems(4) x(1) by (cases "y < ?b") auto
    qed
    then have "allocated i p s ?x t" using x t(3-) by (simp add: allocated_def)
    then show ?thesis unfolding step Some using t(1,2) by (auto simp del: of_nat_add of_nat_mult)
  qed
qed


section \<open>An example file system\<close>

text \<open>
  One hundred blocks on a disk of 1000: the log in blocks 2 to 31, the free map in block 60, blocks 0 to 63 in use.
\<close>

definition full_map :: block where
  "full_map = replicate 8 255 @ replicate 504 0"

definition fs_state :: ist where
  "fs_state = lst.extend (idle_log\<lparr>lg_outstanding := 1, dk_blocks := (\<lambda>no. if no = 60 then full_map else replicate 512 0)\<rparr>)
     (ist.fields \<lparr>sb_size = 100, sb_nblocks = 36, sb_ninodes = 8, sb_nlog = 30, sb_logstart = 2, sb_inodestart = 32, sb_bmapstart = 60\<rparr> [])"

lemma fs_state_txn: "in_txn 0 0 {} fs_state" "dirty_blocks fs_state = {}"
proof -
  note defs = fs_state_def lst.defs ist.defs log_state_defs
  have b: "bc_buf fs_state = replicate NBUF empty_buf" "bc_lru fs_state = rev [0..<NBUF]"
    "sl_tab fs_state = (\<lambda>_. \<lparr>sl_locked = 0, sl_name = [], sl_pid = 0\<rparr>)" "lg_n fs_state = 0" "length (lg_block fs_state) = 30"
    by (simp_all add: defs NBUF_def)
  have "calm fs_state 0 = calm boot_state 0" by (rule calm_cong; simp add: defs)
  then have "at_proc fs_state 0 0" using boot_state_calm by (simp add: at_proc_def) (simp add: defs)
  moreover show d: "dirty_blocks fs_state = {}" by (auto simp: dirty_blocks_def b empty_buf_clean)
  ultimately show "in_txn 0 0 {} fs_state"
    by (simp add: in_txn_def b d LOGSIZE_def MAXOPBLOCKS_def) (auto simp: cache_inv_def b slot_ok_def empty_buf_clean has_block_def)
qed

lemma idle_log_fields: "dk_size idle_log = 1000" "lg_n idle_log = 0" "lg_size idle_log = 30" "lg_dev idle_log = 1"
  by (simp_all add: log_state_defs)

lemma fs_state_fields: "nblocks fs_state = 100" "dk_size fs_state = 1000" "lg_n fs_state = 0" "lg_size fs_state = 30"
    "lg_dev fs_state = 1" "lg_outstanding fs_state = 1" "sb_bmapstart (fs_sb fs_state) = 60" "x < 100 \<Longrightarrow> map_block fs_state x = 60"
    "view fs_state 60 = full_map"
proof -
  note defs = fs_state_def lst.defs ist.defs
  show "nblocks fs_state = 100" "dk_size fs_state = 1000" "lg_n fs_state = 0" "lg_size fs_state = 30"
    "lg_dev fs_state = 1" "lg_outstanding fs_state = 1" "sb_bmapstart (fs_sb fs_state) = 60"
    by (simp_all add: nblocks_def defs idle_log_fields)
  have "view fs_state 60 = dk_blocks fs_state 60"
    using fs_state_txn by (intro clean_view [of 0 0]) (simp_all add: in_txn_def)
  then show "view fs_state 60 = full_map" by (simp add: defs)
  assume "x < 100"
  then have "unat (word_of_nat x :: uint) = x" by (simp add: unat_of_nat)
  then have "unat (word_of_nat x div (4096 :: uint)) = 0" using \<open>x < 100\<close> by (simp add: unat_div)
  then have "word_of_nat x div (4096 :: uint) = 0" by (simp only: unat_eq_0)
  then show "map_block fs_state x = 60" by (simp add: map_block_def BBLOCK_def BPB_def BSIZE_def defs)
qed

lemma full_map_bits: "x < 100 \<Longrightarrow> bit_clear full_map x \<longleftrightarrow> 64 \<le> x"
proof -
  assume x: "x < 100"
  have m: "(255 :: uchar) = mask 8" by (simp add: mask_eq_exp_minus_1)
  have "bit (255 :: uchar) (x mod 8)" unfolding m by (simp add: bit_mask_iff)
  then show ?thesis using x by (auto simp: bit_clear_bit full_map_def nth_append)
qed

lemma fs_state_ok: "fs_txn 0 0 fs_state" "x < 100 \<Longrightarrow> in_use fs_state x \<longleftrightarrow> x < 64"
proof -
  show u: "in_use fs_state x \<longleftrightarrow> x < 64" if "x < 100" for x
    using full_map_bits [OF that] that by (simp add: in_use_def fs_state_fields BPB_def BSIZE_def not_le)
  then show "fs_txn 0 0 fs_state"
    by (simp add: fs_txn_def fs_state_txn map_ok_def fs_state_fields full_map_def BSIZE_def)
qed

lemma first_free_example: "\<exists>t. balloc 1 fs_state = Inr (64, t)"
proof -
  have r: "lg_n fs_state + 2 \<le> LOGSIZE" "lg_n fs_state + 2 \<le> lg_size fs_state - 1" by (simp_all add: fs_state_fields LOGSIZE_def MAXOPBLOCKS_def)
  have "\<not> in_use fs_state 64" using fs_state_ok(2) [of 64] by simp
  then have "\<not> (\<forall>y<nblocks fs_state. in_use fs_state y)" unfolding fs_state_fields(1) by (auto intro!: exI [of _ 64])
  then obtain x t where t: "balloc 1 fs_state = Inr (word_of_nat x, t)" "allocated 0 0 fs_state x t"
    using balloc_from_spec [OF fs_state_ok(1) r, of 0 "(nblocks fs_state + BPB - 1) div BPB"] by (auto simp: balloc_def nblocks_def)
  have "x < 100" "\<not> in_use fs_state x" "\<forall>y<x. in_use fs_state y" using t(2) by (simp_all add: allocated_def fs_state_fields)
  then have "x = 64" using fs_state_ok(2) [of x] fs_state_ok(2) [of 64] by (cases "64 < x") auto
  then show ?thesis using t(1) by auto
qed

section \<open>Properties\<close>

text \<open>
  \<open>balloc\<close> inside a transaction: with room for two more blocks in the log it either allocates the
  least free block, marks it in the free map, clears it and changes nothing else, or panics, and
  then every block is in use.
\<close>

theorem balloc_takes_first_free:
  assumes "fs_txn i p s" and "lg_n s + 2 \<le> LOGSIZE" and "lg_n s + 2 \<le> lg_size s - 1"
  shows "balloc 1 s = Inl (Panic ''balloc: out of blocks'') \<and> (\<forall>y<nblocks s. in_use s y)
    \<or> (\<exists>x t. balloc 1 s = Inr (word_of_nat x, t) \<and> allocated i p s x t)"
  using balloc_from_spec [OF assms, of 0 "(nblocks s + BPB - 1) div BPB"]
  by (simp add: balloc_def nblocks_def)

theorem balloc_takes_first_free_witness:
  "\<exists>t. balloc 1 fs_state = Inr (64, t) \<and> in_use t 64 \<and> view t 64 = replicate BSIZE 0"
proof -
  have "\<not> in_use fs_state 64" using fs_state_ok(2) [of 64] by simp
  then have "\<not> (\<forall>y<nblocks fs_state. in_use fs_state y)" unfolding fs_state_fields(1) by (auto intro!: exI [of _ 64])
  then obtain x t where t: "balloc 1 fs_state = Inr (word_of_nat x, t)" "allocated 0 0 fs_state x t"
    using balloc_takes_first_free [OF fs_state_ok(1)] by (auto simp: fs_state_fields LOGSIZE_def MAXOPBLOCKS_def)
  have a: "x < 100" "\<not> in_use fs_state x" "\<forall>y<x. in_use fs_state y" "\<forall>y<100. in_use t y \<longleftrightarrow> y = x \<or> in_use fs_state y"
      "view t (word_of_nat x) = replicate BSIZE 0"
    using t(2) by (simp_all add: allocated_def fs_state_fields)
  then have "x = 64" using fs_state_ok(2) [of x] fs_state_ok(2) [of 64] by (cases "64 < x") auto
  then show ?thesis using t(1) a by auto
qed

text \<open>
  \<open>bfree\<close> gives back what \<open>balloc\<close> took: after allocating a block and freeing it in the same
  transaction exactly the blocks that were in use before are in use again.
\<close>

theorem balloc_bfree_roundtrip:
  assumes "fs_txn i p s" and "lg_n s + 3 \<le> LOGSIZE" and "lg_n s + 3 \<le> lg_size s - 1" and "balloc 1 s = Inr (b, t)"
  shows "\<exists>u. bfree 1 b t = Inr u \<and> fs_txn i p u \<and> (\<forall>y<nblocks s. in_use u y = in_use s y)"
proof -
  have r: "lg_n s + 2 \<le> LOGSIZE" "lg_n s + 2 \<le> lg_size s - 1" using assms(2,3) by simp_all
  obtain x where x: "b = word_of_nat x" "allocated i p s x t"
    using balloc_from_spec [OF assms(1) r, of 0 "(nblocks s + BPB - 1) div BPB"] assms(4)
    by (auto simp: balloc_def nblocks_def)
  have a: "x < nblocks s" "\<not> in_use s x" "fs_txn i p t" "nblocks t = nblocks s" "\<forall>y<nblocks s. in_use t y \<longleftrightarrow> y = x \<or> in_use s y"
    "lg_n t \<le> lg_n s + 2" "same_log t s" using x(2) by (auto simp: allocated_def)
  have "map_block t = map_block s"
    using fs_sb_same [of t s] a(7) by (simp add: map_block_def same_log_def fun_eq_iff)
  then have "\<forall>y<nblocks t. unat (map_block t y) \<noteq> x" using fs_txnD(8) [OF assms(1)] a(2,4) by auto
  moreover have "lg_n t < LOGSIZE" "lg_n t < lg_size t - 1" using a(6,7) assms(2,3) by (auto simp: same_log_def)
  ultimately obtain u where "bfree 1 (word_of_nat x) t = Inr u" "fs_txn i p u" "\<forall>y<nblocks t. in_use u y \<longleftrightarrow> y \<noteq> x \<and> in_use t y"
    using bfree_in_txn [OF a(3)] a(1,4,5) by metis
  then show ?thesis using x(1) a(2,4,5) by auto
qed

theorem balloc_bfree_roundtrip_witness:
  "\<exists>t u. balloc 1 fs_state = Inr (64, t) \<and> bfree 1 64 t = Inr u \<and> \<not> in_use u 64"
proof -
  have "\<not> in_use fs_state 64" using fs_state_ok(2) [of 64] by simp
  moreover obtain t where t: "balloc 1 fs_state = Inr (64, t)" using first_free_example by blast
  moreover obtain u where "bfree 1 64 t = Inr u" "\<forall>y<nblocks fs_state. in_use u y = in_use fs_state y"
    using balloc_bfree_roundtrip [OF fs_state_ok(1) _ _ t] by (auto simp: fs_state_fields LOGSIZE_def MAXOPBLOCKS_def)
  ultimately show ?thesis by (auto simp: fs_state_fields)
qed

end
