(* ===== verification/VmLoops.thy ===== *)
theory VmLoops
  imports Vm
begin

unbundle bit_operations_syntax

text \<open>
  The loops of \<^verbatim>\<open>vm.c\<close> over pages carry fuel in the model. \<open>ends m\<close> says that a computation does not run
  out of it; the fuel that \<open>mappages\<close>, \<open>deallocuvm\<close>, \<open>allocuvm\<close> and \<open>copyuvm\<close> give their loops is always enough,
  so the loops of the code end.
\<close>

named_theorems ends_intros

definition ends :: "failure + 'b \<Rightarrow> bool" where
  "ends m \<longleftrightarrow> m \<noteq> Inl (Undefined ''out of fuel'')"

lemma ends_Inr [simp]: "ends (Inr x)" by (simp add: ends_def)
lemma ends_Panic [simp]: "ends (Inl (Panic msg))" "ends (Inl (Spin lk))" by (simp_all add: ends_def)

lemma ends_andThen: "ends m \<Longrightarrow> (\<And>x. m = Inr x \<Longrightarrow> ends (f x)) \<Longrightarrow> ends (andThen m f)"
  by (cases m) (auto simp: ends_def)

lemma ends_if [ends_intros]: "(c \<Longrightarrow> ends m) \<Longrightarrow> (\<not> c \<Longrightarrow> ends m') \<Longrightarrow> ends (if c then m else m')" by simp

lemma ends_mycpu: "ends (mycpu s)"
  by (simp add: mycpu_def split: option.split)

lemma ends_pushcli: "ends (pushcli s)"
  by (simp add: pushcli_def Let_def ends_andThen ends_mycpu)

lemma ends_popcli: "ends (popcli s)"
  by (simp add: popcli_def Let_def ends_andThen ends_mycpu)

lemma ends_holding: "ends (holding lk s)"
  by (simp add: holding_def Let_def ends_andThen ends_mycpu ends_pushcli ends_popcli)

lemma ends_locks [ends_intros]: "ends (acquire lk s)" "ends (release lk s)"
  by (auto simp: acquire_def release_def xchg_def Let_def intro!: ends_andThen ends_mycpu ends_pushcli ends_popcli ends_holding)

lemma ends_kmem [ends_intros]: "ends (kalloc s)" "ends (kfree v s)"
  by (auto simp: kalloc_def kfree_def Let_def intro!: ends_andThen ends_locks)

lemma ends_walkpgdir [ends_intros]: "ends (walkpgdir pgdir va alloc s)"
  by (auto simp: walkpgdir_def Let_def intro!: ends_andThen ends_kmem)

section \<open>Pages\<close>

lemma page_diff: "4096 dvd unat (PGROUNDDOWN x - PGROUNDDOWN y)"
proof -
  have d: "4096 dvd uint (PGROUNDDOWN z)" for z
  proof -
    have "4096 dvd int (unat (PGROUNDDOWN z))" by (simp add: unat_PGROUNDDOWN)
    then show ?thesis by simp
  qed
  have "uint (PGROUNDDOWN x - PGROUNDDOWN y) = (uint (PGROUNDDOWN x) - uint (PGROUNDDOWN y)) mod 2 ^ 32"
    by (simp add: uint_word_ariths)
  moreover have "(4096 :: int) dvd 2 ^ 32" by simp
  ultimately have "4096 dvd uint (PGROUNDDOWN x - PGROUNDDOWN y)" using d [of x] d [of y] by (simp add: dvd_mod)
  then have "int 4096 dvd int (unat (PGROUNDDOWN x - PGROUNDDOWN y))" by simp
  then show ?thesis by (simp only: int_dvd_int_iff)
qed

lemma unat_sub_page:
  assumes "4096 \<le> unat w" shows "unat (w - PGSIZE) = unat w - 4096"
  using assms by (simp add: PGSIZE_def unat_sub word_le_nat_alt)

lemma mappages_from_ends:
  fixes s :: "'a kmst_scheme"
  shows "4096 dvd unat (lst - a) \<Longrightarrow> unat (lst - a) \<le> 4096 * fuel \<Longrightarrow> ends (mappages_from (Suc fuel) pgdir a lst pa perm s)"
proof (induction fuel arbitrary: a pa s)
  case 0
  then have "unat (lst - a) = 0" by simp
  then have "lst - a = 0" by (simp only: unat_eq_0)
  then have "a = lst" by simp
  then show ?case by (auto simp: Let_def intro!: ends_andThen ends_walkpgdir)
next
  case (Suc fuel)
  have e: "lst - (a + PGSIZE) = (lst - a) - PGSIZE" by simp
  have "ends (mappages_from (Suc fuel) pgdir (a + PGSIZE) lst (pa + PGSIZE) perm t)" if "a \<noteq> lst" for t :: "'a kmst_scheme"
  proof -
    have "unat (lst - a) \<noteq> 0" using that by (simp add: unat_eq_0)
    then have g: "4096 \<le> unat (lst - a)" using Suc.prems(1) by (intro dvd_imp_le) auto
    then have u: "unat (lst - (a + PGSIZE)) = unat (lst - a) - 4096" unfolding e by (rule unat_sub_page)
    show ?thesis
    proof (rule Suc.IH)
      show "4096 dvd unat (lst - (a + PGSIZE))" unfolding u using Suc.prems(1) by (intro dvd_diff_nat) auto
      show "unat (lst - (a + PGSIZE)) \<le> 4096 * fuel" unfolding u using Suc.prems(2) by simp
    qed
  qed
  then show ?case
    by (subst mappages_from.simps) (auto simp del: mappages_from.simps simp: Let_def intro!: ends_andThen ends_walkpgdir)
qed

lemma mappages_ends [ends_intros]: "ends (mappages pgdir va len pa perm s)"
proof -
  let ?d = "unat (PGROUNDDOWN (va + len - 1) - PGROUNDDOWN va)"
  have "?d \<le> 4096 * (?d div 4096)" using page_diff by (simp add: dvd_mult_div_cancel)
  then show ?thesis using mappages_from_ends [OF page_diff] by (simp add: mappages_def Let_def)
qed

text \<open>
  The scan of \<open>deallocuvm\<close> skips to the next page directory entry where there is no page table; below
  \<open>KERNBASE\<close> this is forward.
\<close>

lemma skip_pde:
  assumes "4096 dvd unat a" "a < 0x80000000"
  shows "4096 dvd unat (PGADDR (PDX a + 1) 0 0)" "unat a + 4096 \<le> unat (PGADDR (PDX a + 1) 0 0)"
proof -
  have a: "unat a < 2 ^ 31" using assms(2) by (simp add: word_less_nat_alt)
  have "unat (PDX a + 1) = unat a div 2 ^ 22 + 1"
    using PDX_less [of a] unat_PDX [of a] by (simp add: unat_plus_if_size word_size)
  moreover have "unat a div 2 ^ 22 + 1 \<le> 512" using a by (simp add: div_less_iff_less_mult Suc_le_eq)
  moreover have "unat (push_bit 22 w) = unat w * 2 ^ 22" if "unat w \<le> 512" for w :: uint
    using that by (simp add: push_bit_eq_mult unat_word_ariths)
  ultimately have u: "unat (PGADDR (PDX a + 1) 0 0) = (unat a div 2 ^ 22 + 1) * 2 ^ 22"
    unfolding PGADDR_def push_bit_of_0 or.right_neutral by metis
  then show "4096 dvd unat (PGADDR (PDX a + 1) 0 0)" by (simp add: dvd_mult)
  obtain k where k: "unat a = 4096 * k" using assms(1) by auto
  have "k + 1 \<le> (k div 1024 + 1) * 1024" by simp
  moreover have "unat a div 2 ^ 22 = k div 1024" unfolding k by (simp add: div_mult2_eq)
  ultimately show "unat a + 4096 \<le> unat (PGADDR (PDX a + 1) 0 0)" unfolding u k by simp
qed

lemma deallocuvm_from_ends:
  fixes s :: "'a kmst_scheme"
  shows "4096 dvd unat a \<Longrightarrow> unat oldsz \<le> unat a + 4096 * fuel \<Longrightarrow> oldsz \<le> KERNBASE \<Longrightarrow>
    ends (deallocuvm_from (Suc fuel) pgdir a oldsz s)"
proof (induction fuel arbitrary: a s)
  case 0
  then show ?case by (simp add: word_less_nat_alt)
next
  case (Suc fuel)
  show ?case
  proof (cases "a < oldsz")
    case True
    then have lt: "a < 0x80000000" using Suc.prems(3) by (simp add: KERNBASE_def)
    have step: "unat (a + PGSIZE) = unat a + 4096"
      using lt by (simp add: PGSIZE_def unat_plus_if_size word_size word_less_nat_alt)
    have n: "ends (deallocuvm_from (Suc fuel) pgdir (a + PGSIZE) oldsz t)" for t :: "'a kmst_scheme"
      using Suc.prems step by (intro Suc.IH) auto
    have m: "ends (deallocuvm_from (Suc fuel) pgdir (PGADDR (PDX a + 1) 0 0) oldsz t)" for t :: "'a kmst_scheme"
      using Suc.prems skip_pde [OF Suc.prems(1) lt] by (intro Suc.IH) auto
    show ?thesis using n m True
      by (subst deallocuvm_from.simps) (auto simp del: deallocuvm_from.simps simp: Let_def intro!: ends_andThen ends_intros)
  qed simp
qed

lemma aligned_PGROUNDUP: "4096 dvd unat (PGROUNDUP a)"
proof -
  have "PGROUNDUP a = PGROUNDDOWN (a + PGSIZE - 1)" by (simp add: PGROUNDUP_def PGROUNDDOWN_def)
  then show ?thesis by (simp add: unat_PGROUNDDOWN)
qed

lemma below_2_20: "unat (x :: uint) \<le> unat (y :: uint) + 4096 * 2 ^ 20"
proof -
  have "unat x < 2 ^ 32" using unsigned_less [of x] by simp
  then show ?thesis by simp
qed

lemma deallocuvm_ends: "oldsz \<le> KERNBASE \<Longrightarrow> ends (deallocuvm pgdir oldsz newsz s)"
  using deallocuvm_from_ends [OF aligned_PGROUNDUP below_2_20]
  by (auto simp: deallocuvm_def simp del: deallocuvm_from.simps intro!: ends_andThen)

lemma allocuvm_from_ends:
  fixes s :: "'a kmst_scheme"
  shows "unat newsz \<le> unat a + 4096 * fuel \<Longrightarrow> newsz < KERNBASE \<Longrightarrow> ends (allocuvm_from (Suc fuel) pgdir a oldsz newsz s)"
proof (induction fuel arbitrary: a s)
  case 0
  then show ?case by (simp add: word_less_nat_alt)
next
  case (Suc fuel)
  show ?case
  proof (cases "a < newsz")
    case True
    then have lt: "unat a < 2 ^ 31" using Suc.prems(2) by (simp add: KERNBASE_def word_less_nat_alt)
    then have "unat (a + PGSIZE) = unat a + 4096" by (simp add: PGSIZE_def unat_plus_if_size word_size)
    then have n: "ends (allocuvm_from (Suc fuel) pgdir (a + PGSIZE) oldsz newsz t)" for t :: "'a kmst_scheme"
      using Suc.prems by (intro Suc.IH) auto
    have d: "ends (deallocuvm pgdir newsz oldsz t)" for t :: "'a kmst_scheme"
      using Suc.prems(2) by (intro deallocuvm_ends) simp
    show ?thesis using n d
      by (subst allocuvm_from.simps) (auto simp del: allocuvm_from.simps simp: Let_def intro!: ends_andThen ends_intros)
  qed simp
qed

lemma allocuvm_ends: "ends (allocuvm pgdir oldsz newsz s)"
  using allocuvm_from_ends [OF below_2_20] by (auto simp: allocuvm_def not_le simp del: allocuvm_from.simps)

lemma freevm_tables_ends: "ends (freevm_tables n pgdir i s)"
  by (induction n arbitrary: i s) (auto simp: Let_def intro!: ends_andThen ends_intros)

lemma freevm_ends [ends_intros]: "ends (freevm pgdir s)"
  by (auto simp: freevm_def intro!: ends_andThen deallocuvm_ends freevm_tables_ends ends_intros)

lemma setupkvm_maps_ends: "ends (setupkvm_maps ks pgdir s)"
  by (induction ks pgdir s rule: setupkvm_maps.induct) (auto intro!: ends_andThen ends_intros)

lemma setupkvm_ends [ends_intros]: "ends (setupkvm vdata s)"
  by (auto simp: setupkvm_def Let_def intro!: ends_andThen setupkvm_maps_ends ends_intros)

lemma copyuvm_from_ends:
  fixes s :: "'a kmst_scheme"
  shows "unat sz \<le> unat i + 4096 * fuel \<Longrightarrow> sz \<le> KERNBASE \<Longrightarrow> ends (copyuvm_from (Suc fuel) pgdir d i sz s)"
proof (induction fuel arbitrary: i s)
  case 0
  then show ?case by (simp add: word_less_nat_alt)
next
  case (Suc fuel)
  show ?case
  proof (cases "i < sz")
    case True
    then have "unat i < 2 ^ 31" using Suc.prems(2) by (simp add: KERNBASE_def word_less_nat_alt word_le_nat_alt)
    then have "unat (i + PGSIZE) = unat i + 4096" by (simp add: PGSIZE_def unat_plus_if_size word_size)
    then have n: "ends (copyuvm_from (Suc fuel) pgdir d (i + PGSIZE) sz t)" for t :: "'a kmst_scheme"
      using Suc.prems by (intro Suc.IH) auto
    show ?thesis using n
      by (subst copyuvm_from.simps) (auto simp del: copyuvm_from.simps simp: Let_def intro!: ends_andThen ends_intros)
  qed simp
qed

lemma copyuvm_ends: "sz \<le> KERNBASE \<Longrightarrow> ends (copyuvm vdata pgdir sz s)"
  using copyuvm_from_ends [OF below_2_20]
  by (auto simp: copyuvm_def simp del: copyuvm_from.simps intro!: ends_andThen ends_intros)

section \<open>Property\<close>

text \<open>
  C23. The loops over user memory end: mapping, allocating, freeing and copying pages never runs out
  of the fuel of the model, for every page directory contents and every state of the allocator,
  as long as the sizes are those of user memory, at most \<open>KERNBASE\<close>.
\<close>

theorem vm_loops_end:
  assumes "sz \<le> KERNBASE"
  shows "mappages pgdir va len pa perm s \<noteq> Inl (Undefined ''out of fuel'')
    \<and> allocuvm pgdir oldsz newsz s \<noteq> Inl (Undefined ''out of fuel'')
    \<and> deallocuvm pgdir sz newsz s \<noteq> Inl (Undefined ''out of fuel'')
    \<and> freevm pgdir s \<noteq> Inl (Undefined ''out of fuel'')
    \<and> copyuvm vdata pgdir sz s \<noteq> Inl (Undefined ''out of fuel'')"
  using mappages_ends allocuvm_ends deallocuvm_ends [OF assms] freevm_ends copyuvm_ends [OF assms]
  unfolding ends_def by (intro conjI)

theorem vm_loops_end_witness:
  "copyuvm 0x80108000 0x80402000 0x3000 vm_example \<noteq> Inl (Undefined ''out of fuel'')"
proof -
  have "0x3000 \<le> KERNBASE" by (simp add: KERNBASE_def)
  from vm_loops_end [OF this] show ?thesis by blast
qed

end
