(* ===== verification/ConsoleLine.thy ===== *)
theory ConsoleLine
  imports Console
begin

unbundle bit_operations_syntax

text \<open>
  Line editing. The interrupt handler keeps the characters of the input in a ring of \<open>INPUT_BUF\<close> bytes
  between the indices \<open>r\<close>, \<open>w\<close> and \<open>e\<close>, which grow without bound and wrap at \<open>2\<^sup>3\<^sup>2\<close>. The abstract console is
  a pair of lists: what readers may see, and the line that is being typed. \<open>consoleintr\<close> refines the
  abstract editor, and \<open>consoleread\<close> takes lines from the first list.
\<close>

section \<open>The ring\<close>

definition ring :: "uchar list \<Rightarrow> uint \<Rightarrow> nat \<Rightarrow> uchar list" where
  "ring buf a n = map (\<lambda>k. buf ! ((unat a + k) mod 128)) [0..<n]"

lemma ring_index: "unat ((a + word_of_nat k) mod INPUT_BUF) = (unat a + k) mod 128"
proof -
  have "unat ((a + word_of_nat k) mod INPUT_BUF) = unat (a + word_of_nat k) mod 128"
    by (simp add: INPUT_BUF_def unat_mod)
  also have "\<dots> = (unat a + k) mod 2 ^ 32 mod 128" by (simp add: unat_word_ariths unat_of_nat mod_add_right_eq)
  also have "\<dots> = (unat a + k) mod 128" by (rule mod_mod_cancel) simp
  finally show ?thesis .
qed

lemma length_ring [simp]: "length (ring buf a n) = n"
  by (simp add: ring_def)

lemma ring_Suc: "ring buf a (Suc n) = ring buf a n @ [buf ! ((unat a + n) mod 128)]"
  by (simp add: ring_def)

lemma take_ring: "m \<le> n \<Longrightarrow> take m (ring buf a n) = ring buf a m"
  by (simp add: ring_def take_map)

lemma ring_store:
  assumes "n < 128" "length buf = 128"
  shows "ring (buf[(unat a + n) mod 128 := c]) a n = ring buf a n"
proof -
  have "(unat a + k) mod 128 \<noteq> (unat a + n) mod 128" if "k < n" for k
  proof
    assume "(unat a + k) mod 128 = (unat a + n) mod 128"
    then have "128 dvd (unat a + n) - (unat a + k)"
      using that mod_eq_dvd_iff_nat [of "unat a + k" "unat a + n" 128] by simp
    then show False using that assms(1) by (auto dest: dvd_imp_le)
  qed
  then have "buf[(unat a + n) mod 128 := c] ! ((unat a + k) mod 128) = buf ! ((unat a + k) mod 128)" if "k < n" for k
    using that by (metis nth_list_update_neq)
  then show ?thesis unfolding ring_def by (intro map_cong) auto
qed

lemma ring_step: "ring buf (a + 1) n = map (\<lambda>k. buf ! ((unat a + Suc k) mod 128)) [0..<n]"
proof -
  have "(unat (a + 1) + k) mod 128 = (unat a + Suc k) mod 128" for k
    using ring_index [of "a + 1" k] ring_index [of a "Suc k"] by (simp add: add_ac)
  then show ?thesis by (simp add: ring_def)
qed

lemma ring_Cons: "ring buf a (Suc n) = buf ! (unat a mod 128) # ring buf (a + 1) n"
  unfolding ring_step by (simp add: ring_def upt_conv_Cons map_Suc_upt [symmetric] del: upt_Suc)

section \<open>The abstract console\<close>

definition typed :: "'a cst_scheme \<Rightarrow> uchar list" where
  "typed s = ring (cs_buf s) (cs_r s) (unat (cs_e s - cs_r s))"

definition committed :: "'a cst_scheme \<Rightarrow> uchar list" where
  "committed s = take (unat (cs_w s - cs_r s)) (typed s)"

definition current_line :: "'a cst_scheme \<Rightarrow> uchar list" where
  "current_line s = drop (unat (cs_w s - cs_r s)) (typed s)"

definition console_ok :: "'a cst_scheme \<Rightarrow> bool" where
  "console_ok s \<longleftrightarrow> length (cs_buf s) = 128 \<and> unat (cs_w s - cs_r s) \<le> unat (cs_e s - cs_r s)
     \<and> unat (cs_e s - cs_r s) \<le> 128 \<and> 10 \<notin> set (current_line s)"

definition edit :: "int \<Rightarrow> uchar list \<times> uchar list \<Rightarrow> uchar list \<times> uchar list" where
  "edit c x = (case x of (com, cur) \<Rightarrow>
     if c = ctrl CHR ''P'' then (com, cur)
     else if c = ctrl CHR ''U'' then (com, [])
     else if c = ctrl CHR ''H'' \<or> c = 0x7f then (com, butlast cur)
     else if c \<noteq> 0 \<and> length com + length cur < 128
     then let c = (if c = 13 then 10 else c); cur = cur @ [word_of_int c]
          in if c = 10 \<or> c = ctrl CHR ''D'' \<or> length com + length cur = 128 then (com @ cur, []) else (com, cur)
     else (com, cur))"

text \<open>The editor's steps on the typed text and on the number of characters that are committed.\<close>

lemma e_minus: "(e :: uint) \<noteq> r \<Longrightarrow> unat (e - 1 - r) = unat (e - r) - 1"
proof -
  assume "e \<noteq> r"
  then have "e - r \<noteq> 0" by simp
  then have "unat (e - r - 1) = unat (e - r) - 1" by (simp add: unat_minus_one)
  then show ?thesis by (simp add: algebra_simps)
qed

lemma e_plus: "unat (e - r) < 2 ^ 31 \<Longrightarrow> unat ((e :: uint) + 1 - r) = unat (e - r) + 1"
proof -
  assume a: "unat (e - r) < 2 ^ 31"
  have "unat (e - r + 1) = unat (e - r) + 1" using a by (simp add: unat_plus_if_size word_size)
  then show ?thesis by (simp add: algebra_simps)
qed

lemma typed_back:
  assumes "cs_e s \<noteq> cs_r s"
  shows "typed (s\<lparr>cs_e := cs_e s - 1\<rparr>) = butlast (typed s)"
proof -
  obtain n where n: "unat (cs_e s - cs_r s) = Suc n" using assms by (cases "unat (cs_e s - cs_r s)") (auto simp: unat_eq_0)
  then show ?thesis using e_minus [OF assms] by (simp add: typed_def ring_Suc)
qed

lemma typed_put:
  assumes "unat (cs_e s - cs_r s) < 128" "length (cs_buf s) = 128"
  shows "typed (s\<lparr>cs_buf := (cs_buf s)[unat (cs_e s mod INPUT_BUF) := c], cs_e := cs_e s + 1\<rparr>) = typed s @ [c]"
proof -
  let ?n = "unat (cs_e s - cs_r s)"
  have "cs_e s = cs_r s + word_of_nat ?n" by simp
  then have i: "unat (cs_e s mod INPUT_BUF) = (unat (cs_r s) + ?n) mod 128" using ring_index [of "cs_r s" ?n] by simp
  show ?thesis
    using assms e_plus [of "cs_e s" "cs_r s"] by (simp add: typed_def i ring_Suc ring_store)
qed


lemma console_lengths:
  assumes "console_ok s"
  shows "length (typed s) = unat (cs_e s - cs_r s)" "length (committed s) = unat (cs_w s - cs_r s)"
    "typed s = committed s @ current_line s" "cs_e s = cs_w s \<longleftrightarrow> current_line s = []"
proof -
  show "length (typed s) = unat (cs_e s - cs_r s)" by (simp add: typed_def)
  then show "length (committed s) = unat (cs_w s - cs_r s)" using assms by (simp add: committed_def console_ok_def)
  show "typed s = committed s @ current_line s" by (simp add: committed_def current_line_def)
  have "cs_e s = cs_w s \<longleftrightarrow> cs_e s - cs_r s = cs_w s - cs_r s" by simp
  also have "\<dots> \<longleftrightarrow> unat (cs_e s - cs_r s) = unat (cs_w s - cs_r s)" by (simp only: word_unat_eq_iff)
  finally show "cs_e s = cs_w s \<longleftrightarrow> current_line s = []" using assms by (auto simp: current_line_def typed_def console_ok_def)
qed

text \<open>Rubbing out a character, and the kill-line loop.\<close>

lemma console_back:
  assumes ok: "console_ok s" and ne: "cs_e s \<noteq> cs_w s"
  shows "console_ok (s\<lparr>cs_e := cs_e s - 1\<rparr>)" "committed (s\<lparr>cs_e := cs_e s - 1\<rparr>) = committed s"
    "current_line (s\<lparr>cs_e := cs_e s - 1\<rparr>) = butlast (current_line s)"
proof -
  let ?t = "s\<lparr>cs_e := cs_e s - 1\<rparr>" and ?m = "unat (cs_w s - cs_r s)"
  note l = console_lengths [OF ok]
  have cne: "current_line s \<noteq> []" using l(4) ne by simp
  have lt: "?m < unat (cs_e s - cs_r s)" using cne by (auto simp: current_line_def typed_def)
  then have er: "cs_e s \<noteq> cs_r s" by auto
  note tb = typed_back [OF er]
  have t: "typed ?t = committed s @ butlast (current_line s)" unfolding tb using l(3) cne by (simp add: butlast_append)
  show c: "committed ?t = committed s" using t l(2) by (simp add: committed_def)
  show d: "current_line ?t = butlast (current_line s)" using t l(2) by (simp add: current_line_def)
  show "console_ok ?t" using ok lt d e_minus [OF er] by (auto simp: console_ok_def dest: in_set_butlastD)
qed

lemma last_typed:
  assumes "console_ok s" "cs_e s \<noteq> cs_w s"
  shows "cs_buf s ! unat ((cs_e s - 1) mod INPUT_BUF) = last (current_line s)"
proof -
  let ?n = "unat (cs_e s - cs_r s)"
  note l = console_lengths [OF assms(1)]
  have cne: "current_line s \<noteq> []" using l(4) assms(2) by simp
  then have "0 < length (typed s)" unfolding l(3) by simp
  then have "?n \<noteq> 0" unfolding l(1) by simp
  then obtain n where n: "?n = Suc n" by (cases ?n) auto
  have "cs_e s = cs_r s + word_of_nat (Suc n)" unfolding n [symmetric] by simp
  then have "cs_e s - 1 = cs_r s + word_of_nat n" by (simp add: algebra_simps)
  then have "cs_buf s ! unat ((cs_e s - 1) mod INPUT_BUF) = last (typed s)"
    unfolding typed_def n by (simp add: ring_index ring_Suc)
  then show ?thesis using l(3) cne by (simp add: last_append)
qed

lemma consputc_frame [simp]:
  "cs_e (consputc c s) = cs_e s" "cs_w (consputc c s) = cs_w s" "cs_r (consputc c s) = cs_r s" "cs_buf (consputc c s) = cs_buf s"
  by (simp_all add: consputc_def)

lemma same_console:
  assumes "cs_e t = cs_e s" "cs_w t = cs_w s" "cs_r t = cs_r s" "cs_buf t = cs_buf s"
  shows "typed t = typed s" "committed t = committed s" "current_line t = current_line s" "console_ok t = console_ok s"
  using assms by (simp_all add: typed_def committed_def current_line_def console_ok_def)

lemma console_kill:
  "console_ok s \<Longrightarrow> console_ok (kill_line s) \<and> committed (kill_line s) = committed s \<and> current_line (kill_line s) = []
     \<and> cs_r (kill_line s) = cs_r s"
proof (induction s rule: kill_line.induct)
  case (1 s)
  show ?case
  proof (cases "cs_e s = cs_w s")
    case True
    then show ?thesis using 1 console_lengths(4) [OF 1(2)] by (simp add: kill_line.simps [of s])
  next
    case False
    let ?t = "consputc BACKSPACE (s\<lparr>cs_e := cs_e s - 1\<rparr>)"
    have "current_line s \<noteq> []" using console_lengths(4) [OF 1(2)] False by simp
    then have c: "cs_e s \<noteq> cs_w s \<and> cs_buf s ! unat ((cs_e s - 1) mod INPUT_BUF) \<noteq> 10"
      using last_typed [OF 1(2) False] 1(2) False last_in_set by (fastforce simp: console_ok_def)
    have t: "console_ok ?t" "committed ?t = committed s"
      using console_back [OF 1(2) False] same_console [of ?t "s\<lparr>cs_e := cs_e s - 1\<rparr>"] by simp_all
    show ?thesis using 1(1) [OF c t(1)] c t(2) by (simp add: kill_line.simps [of s])
  qed
qed

text \<open>Under the console lock the handler works on the state below it.\<close>

lemma taken_console [simp]:
  "cs_e (taken i l s) = cs_e s" "cs_w (taken i l s) = cs_w s" "cs_r (taken i l s) = cs_r s" "cs_buf (taken i l s) = cs_buf s"
  "(taken i l s)\<lparr>cs_e := x\<rparr> = taken i l (s\<lparr>cs_e := x\<rparr>)" "(taken i l s)\<lparr>cs_w := x\<rparr> = taken i l (s\<lparr>cs_w := x\<rparr>)"
  "(taken i l s)\<lparr>cs_buf := b\<rparr> = taken i l (s\<lparr>cs_buf := b\<rparr>)" "consputc c (taken i l s) = taken i l (consputc c s)"
  by (simp_all add: taken_def upd_lock_def pushed_def consputc_def)

lemma calm_console [simp]:
  "calm (s\<lparr>cs_e := x\<rparr>) i = calm s i" "calm (s\<lparr>cs_w := x\<rparr>) i = calm s i" "calm (s\<lparr>cs_buf := b\<rparr>) i = calm s i"
  "calm (consputc c s) i = calm s i"
  by (simp_all add: calm_def here_def cli_ok_def idle_lock_def consputc_def)

lemma kill_line_taken: "kill_line (taken i l s) = taken i l (kill_line s) \<and> calm (kill_line s) j = calm s j"
proof (induction s rule: kill_line.induct)
  case (1 s)
  then show ?case by (subst (1 2 3) kill_line.simps) (simp add: kill_line.simps [of s])
qed


text \<open>A character that is stored, with or without the end of the line.\<close>

lemma console_put:
  assumes ok: "console_ok s" and calm: "calm s i" and c: "0 \<le> c" "c < 256"
    and put: "c \<noteq> 0" "cs_e s - cs_r s < INPUT_BUF" "c \<noteq> ctrl CHR ''P''" "c \<noteq> ctrl CHR ''U''" "c \<noteq> ctrl CHR ''H''" "c \<noteq> 0x7f"
  shows "\<exists>t. console_char c (taken i CONSLOCK s) = Inr (taken i CONSLOCK t) \<and> calm t i \<and> console_ok t \<and> cs_r t = cs_r s
    \<and> (committed t, current_line t) = edit c (committed s, current_line s)"
proof -
  note l = console_lengths [OF ok]
  define d where "d = (if c = 13 then 10 else c)"
  let ?s1 = "s\<lparr>cs_buf := (cs_buf s)[unat (cs_e s mod INPUT_BUF) := word_of_int d], cs_e := cs_e s + 1\<rparr>"
  let ?s2 = "consputc d ?s1"
  have n: "unat (cs_e s - cs_r s) < 128" using put(2) by (simp add: INPUT_BUF_def word_less_nat_alt)
  then have n': "unat (cs_e s + 1 - cs_r s) = unat (cs_e s - cs_r s) + 1" by (intro e_plus) simp
  have len: "length (cs_buf s) = 128" "unat (cs_w s - cs_r s) \<le> unat (cs_e s - cs_r s)" using ok by (auto simp: console_ok_def)
  have ty: "typed ?s1 = committed s @ current_line s @ [word_of_int d]"
    using typed_put [OF n len(1)] l(3) by simp
  have a2: "committed ?s2 = committed s" "current_line ?s2 = current_line s @ [word_of_int d]"
    using ty l(2) same_console(1) [of ?s2 ?s1] by (simp_all add: committed_def current_line_def)
  have len2: "length (committed s) + length (current_line s) = unat (cs_e s - cs_r s)" using l(1,3) by simp
  have full: "cs_e s + 1 = cs_r s + INPUT_BUF \<longleftrightarrow> Suc (length (committed s) + length (current_line s)) = 128"
  proof -
    have "cs_e s + 1 = cs_r s + INPUT_BUF \<longleftrightarrow> cs_e s + 1 - cs_r s = INPUT_BUF" by (auto simp: algebra_simps)
    also have "\<dots> \<longleftrightarrow> unat (cs_e s + 1 - cs_r s) = 128" by (simp add: word_unat_eq_iff INPUT_BUF_def)
    finally show ?thesis using n' len2 by simp
  qed
  show ?thesis
  proof (cases "d = 10 \<or> d = ctrl CHR ''D'' \<or> cs_e s + 1 = cs_r s + INPUT_BUF")
    case True
    let ?t = "wakeup1 ChInput (?s2\<lparr>cs_w := cs_e s + 1\<rparr>)"
    have f: "cs_e ?t = cs_e s + 1" "cs_w ?t = cs_e s + 1" "cs_r ?t = cs_r s" "cs_buf ?t = cs_buf ?s1"
      by (simp_all add: wakeup1_def)
    have "typed ?t = typed ?s1" using f by (simp add: typed_def)
    then have a: "committed ?t = committed s @ current_line s @ [word_of_int d]" "current_line ?t = []"
      unfolding committed_def current_line_def f n' using ty l len2 by simp_all
    have "console_ok ?t" using a(2) len n n' f by (simp add: console_ok_def)
    moreover have "console_char c (taken i CONSLOCK s) = Inr (taken i CONSLOCK ?t)"
      using put True calm wakeup_taken [of "?s2\<lparr>cs_w := cs_e s + 1\<rparr>" i CONSLOCK ChInput]
      by (simp add: console_char_def Let_def d_def)
    moreover have "edit c (committed s, current_line s) = (committed s @ current_line s @ [word_of_int d], [])"
      using put(1,3-) n len2 True full by (simp add: edit_def Let_def d_def)
    ultimately show ?thesis using a f(3) calm by auto
  next
    case False
    have "word_of_int d \<noteq> (10 :: uchar)"
    proof
      assume "word_of_int d = (10 :: uchar)"
      then have "uint (word_of_int d :: uchar) = uint (10 :: uchar)" by simp
      then show False using False c by (simp add: uint_word_of_int d_def split: if_splits)
    qed
    then have "console_ok ?s2" using a2 ok n n' len by (simp add: console_ok_def)
    moreover have "console_char c (taken i CONSLOCK s) = Inr (taken i CONSLOCK ?s2)"
      using put False by (simp add: console_char_def Let_def d_def)
    moreover have "edit c (committed s, current_line s) = (committed s, current_line s @ [word_of_int d])"
      using put(1,3-) n len2 False full by (simp add: edit_def Let_def d_def)
    ultimately show ?thesis using a2 calm by auto
  qed
qed

lemma console_char_refines:
  assumes ok: "console_ok s" and calm: "calm s i" and c: "0 \<le> c" "c < 256"
  shows "\<exists>t. console_char c (taken i CONSLOCK s) = Inr (taken i CONSLOCK t) \<and> calm t i \<and> console_ok t \<and> cs_r t = cs_r s
    \<and> (committed t, current_line t) = edit c (committed s, current_line s)"
proof -
  note l = console_lengths [OF ok]
  let ?abs = "\<lambda>t. (committed t, current_line t)"
  consider (p) "c = ctrl CHR ''P''" | (u) "c = ctrl CHR ''U''" | (h) "c = ctrl CHR ''H'' \<or> c = 0x7f"
    | (put) "c \<noteq> 0" "cs_e s - cs_r s < INPUT_BUF" "c \<noteq> ctrl CHR ''P''" "c \<noteq> ctrl CHR ''U''" "c \<noteq> ctrl CHR ''H''" "c \<noteq> 0x7f"
    | (no) "c = 0 \<or> \<not> cs_e s - cs_r s < INPUT_BUF" "c \<noteq> ctrl CHR ''P''" "c \<noteq> ctrl CHR ''U''" "c \<noteq> ctrl CHR ''H''" "c \<noteq> 0x7f"
    by blast
  then show ?thesis
  proof cases
    case p
    then show ?thesis using ok calm by (auto simp: console_char_def edit_def)
  next
    case u
    have ne: "ctrl CHR ''U'' \<noteq> ctrl CHR ''P''" by (simp add: ctrl_def)
    then show ?thesis
      using u console_kill [OF ok] kill_line_taken [of i CONSLOCK s i] calm by (auto simp: console_char_def edit_def)
  next
    case h
    then have ne: "c \<noteq> ctrl CHR ''P''" "c \<noteq> ctrl CHR ''U''" by (auto simp: ctrl_def)
    show ?thesis
    proof (cases "cs_e s = cs_w s")
      case True
      then show ?thesis using h ne ok calm l(4) by (auto simp: console_char_def edit_def)
    next
      case False
      let ?t = "consputc BACKSPACE (s\<lparr>cs_e := cs_e s - 1\<rparr>)"
      have "console_ok ?t" "?abs ?t = (committed s, butlast (current_line s))"
        using console_back [OF ok False] same_console [of ?t "s\<lparr>cs_e := cs_e s - 1\<rparr>"] by simp_all
      then show ?thesis using h ne False calm by (auto simp: console_char_def edit_def)
    qed
  next
    case no
    have "\<not> (c \<noteq> 0 \<and> length (committed s) + length (current_line s) < 128)"
      using no(1) l(1-3) by (auto simp: INPUT_BUF_def word_less_nat_alt)
    then show ?thesis using no ok calm by (auto simp: console_char_def edit_def)
  next
    case put
    then show ?thesis using console_put [OF ok calm c] by blast
  qed
qed


lemma console_chars_refine:
  "console_ok s \<Longrightarrow> calm s i \<Longrightarrow> \<forall>c\<in>set cs. 0 \<le> c \<and> c < 256 \<Longrightarrow>
   \<exists>t. console_chars cs (taken i CONSLOCK s) = Inr (taken i CONSLOCK t) \<and> calm t i \<and> console_ok t \<and> cs_r t = cs_r s
     \<and> (committed t, current_line t) = fold edit cs (committed s, current_line s)"
proof (induction cs arbitrary: s)
  case (Cons c cs)
  obtain t where t: "console_char c (taken i CONSLOCK s) = Inr (taken i CONSLOCK t)" "calm t i" "console_ok t" "cs_r t = cs_r s"
      "(committed t, current_line t) = edit c (committed s, current_line s)"
    using console_char_refines [OF Cons.prems(1,2), of c] Cons.prems(3) by auto
  from Cons.IH [OF t(3,2)] Cons.prems(3) show ?case using t by auto
qed auto

lemma probed_console [simp]:
  "cs_e (probed i s) = cs_e s" "cs_w (probed i s) = cs_w s" "cs_r (probed i s) = cs_r s" "cs_buf (probed i s) = cs_buf s"
  by (simp_all add: probed_def)

lemma consoleintr_eq:
  assumes "console_ok s" "calm s i" "\<forall>c\<in>set cs. 0 \<le> c \<and> c < 256"
  obtains r t where "consoleintr cs s = Inr (r, t)" "calm t i" "console_ok t" "cs_r t = cs_r s"
    "(committed t, current_line t) = fold edit cs (committed s, current_line s)"
proof -
  obtain t where t: "console_chars cs (taken i CONSLOCK s) = Inr (taken i CONSLOCK t)" "calm t i" "console_ok t" "cs_r t = cs_r s"
      "(committed t, current_line t) = fold edit cs (committed s, current_line s)"
    using console_chars_refine [OF assms] by blast
  let ?u = "probed i t"
  have "consoleintr cs s = Inr (if ctrl CHR ''P'' \<in> set cs then Some (procdump ?u) else None, ?u)"
    using t(1) release_taken [OF t(2)] by (simp add: consoleintr_def acquire_calm [OF assms(2)])
  moreover have "console_ok ?u" "committed ?u = committed t" "current_line ?u = current_line t"
    using same_console [of ?u t] t(3) by simp_all
  ultimately show thesis using that t by simp
qed

section \<open>Reading\<close>

lemma committed_Cons:
  assumes ok: "console_ok s" and ne: "cs_r s \<noteq> cs_w s"
  shows "committed s = cs_buf s ! unat (cs_r s mod INPUT_BUF) # committed (s\<lparr>cs_r := cs_r s + 1\<rparr>)"
    and "console_ok (s\<lparr>cs_r := cs_r s + 1\<rparr>)"
proof -
  let ?t = "s\<lparr>cs_r := cs_r s + 1\<rparr>"
  have m: "unat (cs_w s - (cs_r s + 1)) = unat (cs_w s - cs_r s) - 1" "0 < unat (cs_w s - cs_r s)"
  proof -
    have nz: "cs_w s - cs_r s \<noteq> 0" using ne by simp
    then show "0 < unat (cs_w s - cs_r s)" by (simp add: unat_gt_0)
    have "unat (cs_w s - cs_r s - 1) = unat (cs_w s - cs_r s) - 1" using nz by (simp add: unat_minus_one)
    then show "unat (cs_w s - (cs_r s + 1)) = unat (cs_w s - cs_r s) - 1" by (simp add: algebra_simps)
  qed
  have le: "unat (cs_w s - cs_r s) \<le> unat (cs_e s - cs_r s)" using ok by (simp add: console_ok_def)
  have nz: "cs_e s - cs_r s \<noteq> 0" using m(2) le by auto
  have e: "unat (cs_e s - (cs_r s + 1)) = unat (cs_e s - cs_r s) - 1"
    using unat_minus_one [OF nz] by (simp add: algebra_simps)
  obtain k where k: "unat (cs_e s - cs_r s) = Suc k" using nz by (cases "unat (cs_e s - cs_r s)") (auto simp: unat_eq_0)
  have h: "unat (cs_r s mod INPUT_BUF) = unat (cs_r s) mod 128" using ring_index [of "cs_r s" 0] by simp
  have ty: "typed s = cs_buf s ! unat (cs_r s mod INPUT_BUF) # typed ?t"
    unfolding typed_def h using k e by (simp add: ring_Cons)
  obtain j where j: "unat (cs_w s - cs_r s) = Suc j" using m(2) by (cases "unat (cs_w s - cs_r s)") auto
  show "committed s = cs_buf s ! unat (cs_r s mod INPUT_BUF) # committed ?t"
    unfolding committed_def ty using m(1) j by simp
  have "current_line ?t = current_line s" unfolding current_line_def ty using m(1) j by simp
  then show "console_ok ?t" using ok m e by (simp add: console_ok_def) linarith
qed

lemma consoleread_line:
  "console_ok s \<Longrightarrow> committed s = line @ 10 # rest \<Longrightarrow> 10 \<notin> set line \<Longrightarrow> 4 \<notin> set line \<Longrightarrow> length line < n \<Longrightarrow>
   \<exists>t. consoleread_loop target n acc s = Inr (Some (n - length line - 1, acc @ line @ [10]), t)
     \<and> console_ok t \<and> committed t = rest"
proof (induction line arbitrary: s n acc)
  case Nil
  then have ne: "cs_r s \<noteq> cs_w s" by (auto simp: committed_def)
  note c = committed_Cons [OF Nil.prems(1) ne]
  obtain m where n: "n = Suc m" using Nil.prems(5) by (cases n) auto
  show ?case using Nil.prems(2) c ne n by (auto simp: Let_def)
next
  case (Cons x line)
  then have ne: "cs_r s \<noteq> cs_w s" by (auto simp: committed_def)
  note c = committed_Cons [OF Cons.prems(1) ne]
  obtain m where n: "n = Suc m" using Cons.prems(5) by (cases n) auto
  have "consoleread_loop target n acc s = consoleread_loop target m (acc @ [x]) (s\<lparr>cs_r := cs_r s + 1\<rparr>)"
    using Cons.prems(2-4) c(1) ne n by (auto simp: Let_def)
  then show ?case using Cons.IH [OF c(2), of m "acc @ [x]"] Cons.prems c(1) n by auto
qed


text \<open>Typing printable characters.\<close>

lemma edit_printable:
  assumes "\<forall>c\<in>set cs. 32 \<le> c \<and> c < 127" "length cur + length cs < 128"
  shows "fold edit cs ([], cur) = ([], cur @ map word_of_int cs)"
  using assms by (induction cs arbitrary: cur) (auto simp: edit_def ctrl_def Let_def)

lemma printable_not_control:
  assumes "32 \<le> c" "c < 127"
  shows "word_of_int c \<noteq> (10 :: uchar)" "word_of_int c \<noteq> (4 :: uchar)"
proof -
  have "uint (word_of_int c :: uchar) = c" using assms by (simp add: uint_word_of_int)
  then show "word_of_int c \<noteq> (10 :: uchar)" "word_of_int c \<noteq> (4 :: uchar)" using assms by auto
qed

definition console_state :: cst where
  "console_state = ist.extend (lst.extend (bst.extend (slst.extend sleep_state (bst.fields [] [] (\<lambda>_. []) 0 []))
     (lst.fields 0 0 0 False 0 0 [])) (ist.fields (decode_sb (replicate 28 0)) []))
     (cst.fields True [] (replicate 128 0) (- 3) (- 3) (- 3))"

lemma console_state_ok: "console_ok console_state" "calm console_state 0" "committed console_state = []" "current_line console_state = []"
proof -
  note defs = console_state_def cst.defs ist.defs lst.defs bst.defs slst.defs sleep_state_def pst.defs boot_state_def
  have f: "cs_r console_state = - 3" "cs_w console_state = - 3" "cs_e console_state = - 3" "cs_buf console_state = replicate 128 0"
    by (simp_all add: defs)
  then show "committed console_state = []" and c: "current_line console_state = []"
    by (simp_all add: committed_def current_line_def typed_def ring_def)
  show "console_ok console_state" using f c by (simp add: console_ok_def)
  have "calm console_state 0 = calm boot_state 0" by (rule calm_cong) (simp_all add: defs)
  then show "calm console_state 0" using boot_state_calm by simp
qed

section \<open>Properties\<close>

text \<open>
  C21. The interrupt handler of the console is a line editor: for every sequence of characters it
  returns, keeps the indices of the ring in order and at most \<open>INPUT_BUF\<close> apart, and changes the
  committed input and the line being typed as the abstract editor does: control-U empties the line,
  control-H and delete take its last character, newline, control-D and a full buffer commit it.
\<close>

theorem consoleintr_refines_editor:
  assumes "console_ok s" and "calm s i" and "\<forall>c\<in>set cs. 0 \<le> c \<and> c < 256"
  shows "\<exists>r t. consoleintr cs s = Inr (r, t) \<and> console_ok t
    \<and> (committed t, current_line t) = fold edit cs (committed s, current_line s)"
  using consoleintr_eq [OF assms] by metis

theorem consoleintr_refines_editor_witness:
  "\<exists>r t. consoleintr [104, 106, 8, 105, 13, 120] console_state = Inr (r, t) \<and> committed t = [104, 105, 10] \<and> current_line t = [120]"
proof -
  have "\<forall>c\<in>set [104, 106, 8, 105, 13, 120 :: int]. 0 \<le> c \<and> c < 256" by simp
  from consoleintr_refines_editor [OF console_state_ok(1,2) this] show ?thesis
    by (auto simp: console_state_ok(3,4) edit_def ctrl_def)
qed

text \<open>
  A line that is typed is the line that is read: on a console with no pending input, after a line
  of fewer than 128 printable characters and return, a read of enough bytes returns the line with a
  newline, and nothing is left.
\<close>

theorem console_line_roundtrip:
  assumes "console_ok s" and "calm s i" and "committed s = []" and "current_line s = []"
    and "\<forall>c\<in>set line. 32 \<le> c \<and> c < 127" and "length line < 128" and "length line < n"
  shows "\<exists>r t u. consoleintr (line @ [13]) s = Inr (r, t)
    \<and> consoleread_loop n n [] t = Inr (Some (n - length line - 1, map word_of_int line @ [10]), u) \<and> committed u = []"
proof -
  have "\<forall>c\<in>set (line @ [13]). 0 \<le> c \<and> c < 256" using assms(5) by auto
  then obtain r t where t: "consoleintr (line @ [13]) s = Inr (r, t)" "console_ok t"
      "(committed t, current_line t) = fold edit (line @ [13]) (committed s, current_line s)"
    using consoleintr_eq [OF assms(1,2)] by metis
  have "fold edit (line @ [13]) ([], []) = (map word_of_int line @ [10], [])"
    using edit_printable [OF assms(5), of "[]"] assms(6) by (simp add: edit_def ctrl_def)
  then have c: "committed t = map word_of_int line @ 10 # []" using t(3) assms(3,4) by simp
  have "10 \<notin> set (map word_of_int line :: uchar list)" "4 \<notin> set (map word_of_int line :: uchar list)"
    using assms(5) printable_not_control by force+
  from consoleread_line [OF t(2) c this, of n n "[]"] show ?thesis using t(1) assms(7) by auto
qed

theorem console_line_roundtrip_witness:
  "\<exists>r t u. consoleintr ([108, 115] @ [13]) console_state = Inr (r, t)
    \<and> consoleread_loop 100 100 [] t = Inr (Some (97, [108, 115, 10]), u) \<and> committed u = []"
  using console_line_roundtrip [OF console_state_ok, of "[108, 115]" 100] by simp

end
