(* ===== verification/Paths.thy ===== *)
theory Paths
  imports Fs
begin

text \<open>
  Path names. The reference splits a path at its slashes and drops the empty parts; the calls of
  \<open>skipelem\<close> that \<open>namex\<close> makes go through the same elements, cut to \<open>DIRSIZ\<close> characters.
\<close>

fun splits :: "uchar list \<Rightarrow> uchar list list" where
  "splits [] = [[]]"
| "splits (c # cs) = (if c = slash then [] # splits cs else (c # hd (splits cs)) # tl (splits cs))"

definition path_elems :: "uchar list \<Rightarrow> uchar list list" where
  "path_elems path = filter (\<lambda>e. e \<noteq> []) (splits path)"

text \<open>The names that the loop of \<open>namex\<close> sees, as C strings.\<close>

function skipelem_names :: "uchar list \<Rightarrow> uchar list \<Rightarrow> uchar list list" where
  "skipelem_names path name = (case skipelem path name of
       None \<Rightarrow> []
     | Some (rest, nm) \<Rightarrow> takeWhile (\<lambda>c. c \<noteq> 0) nm # skipelem_names rest nm)"
  by pat_completeness auto
termination
  by (relation "measure (\<lambda>(path, name). length path)") (auto dest: skipelem_shorter)

declare skipelem_names.simps [simp del]

lemma splits_ne [simp]: "splits p \<noteq> []"
  by (cases p) auto

lemma splits_eq:
  "splits p = takeWhile (\<lambda>c. c \<noteq> slash) p
     # (case dropWhile (\<lambda>c. c \<noteq> slash) p of [] \<Rightarrow> [] | _ # q \<Rightarrow> splits q)"
  by (induction p) (auto split: list.split)

lemma path_elems_slash: "path_elems (slash # p) = path_elems p"
  by (simp add: path_elems_def)

lemma path_elems_skip: "path_elems (dropWhile (\<lambda>c. c = slash) p) = path_elems p"
  by (induction p) (auto simp: path_elems_slash)

lemma path_elems_first:
  assumes "p \<noteq> []" "hd p \<noteq> slash"
  shows "path_elems p = takeWhile (\<lambda>c. c \<noteq> slash) p # path_elems (dropWhile (\<lambda>c. c \<noteq> slash) p)"
proof -
  let ?d = "dropWhile (\<lambda>c. c \<noteq> slash) p"
  have ne: "takeWhile (\<lambda>c. c \<noteq> slash) p \<noteq> []" using assms by (cases p) auto
  have "path_elems ?d = filter (\<lambda>e. e \<noteq> []) (case ?d of [] \<Rightarrow> [] | _ # q \<Rightarrow> splits q)"
  proof (cases ?d)
    case (Cons c q)
    then have "c = slash" using hd_dropWhile [of "\<lambda>c. c \<noteq> slash" p] by auto
    then show ?thesis using Cons by (simp add: path_elems_def)
  next
    case Nil
    show ?thesis unfolding Nil by (simp add: path_elems_def)
  qed
  then show ?thesis using ne unfolding path_elems_def by (subst splits_eq) simp
qed

lemma skipelem_elems:
  "skipelem path name = (case path_elems path of
       [] \<Rightarrow> None
     | e # _ \<Rightarrow> Some (dropWhile (\<lambda>c. c = slash) (dropWhile (\<lambda>c. c \<noteq> slash) (dropWhile (\<lambda>c. c = slash) path)),
          if length e \<ge> DIRSIZ then take DIRSIZ e else e @ 0 # drop (length e + 1) name))"
  "path_elems path = e # es \<Longrightarrow>
     path_elems (dropWhile (\<lambda>c. c = slash) (dropWhile (\<lambda>c. c \<noteq> slash) (dropWhile (\<lambda>c. c = slash) path))) = es"
proof -
  let ?p = "dropWhile (\<lambda>c. c = slash) path"
  have p: "path_elems path = path_elems ?p" by (simp add: path_elems_skip)
  have f: "path_elems ?p = takeWhile (\<lambda>c. c \<noteq> slash) ?p # path_elems (dropWhile (\<lambda>c. c \<noteq> slash) ?p)" if "?p \<noteq> []"
    using that hd_dropWhile [OF that] by (intro path_elems_first) auto
  show "path_elems (dropWhile (\<lambda>c. c = slash) (dropWhile (\<lambda>c. c \<noteq> slash) ?p)) = es" if "path_elems path = e # es"
  proof (cases "?p = []")
    case True
    have "path_elems [] = []" by (simp add: path_elems_def)
    then show ?thesis using that p unfolding True by simp
  next
    case False
    then show ?thesis using that p f unfolding path_elems_skip by simp
  qed
  show "skipelem path name = (case path_elems path of
       [] \<Rightarrow> None
     | e # _ \<Rightarrow> Some (dropWhile (\<lambda>c. c = slash) (dropWhile (\<lambda>c. c \<noteq> slash) ?p),
          if length e \<ge> DIRSIZ then take DIRSIZ e else e @ 0 # drop (length e + 1) name))"
  proof (cases "?p = []")
    case True
    have "path_elems [] = []" by (simp add: path_elems_def)
    then show ?thesis using p unfolding True by (simp add: skipelem_def True)
  next
    case False
    then show ?thesis unfolding p f [OF False] by (simp add: skipelem_def Let_def)
  qed
qed

lemma set_splits: "e \<in> set (splits p) \<Longrightarrow> set e \<subseteq> set p"
proof (induction p arbitrary: e)
  case (Cons c p)
  have h: "set (hd (splits p)) \<subseteq> set p" using Cons.IH by simp
  have t: "x \<in> set (tl (splits p)) \<Longrightarrow> set x \<subseteq> set p" for x using Cons.IH by (meson list.set_sel(2) splits_ne)
  show ?case
  proof (cases "c = slash")
    case True
    then show ?thesis using Cons.prems Cons.IH by auto
  next
    case False
    then have "e = c # hd (splits p) \<or> e \<in> set (tl (splits p))" using Cons.prems by simp
    then show ?thesis using h t [of e] by auto
  qed
qed simp

section \<open>Property\<close>

text \<open>
  C22. The elements that repeated calls of \<open>skipelem\<close> deliver for a path without zero bytes are the
  non-empty parts between its slashes, in order, each cut to \<open>DIRSIZ\<close> characters.
\<close>

theorem skipelem_walks_elements:
  assumes "0 \<notin> set path"
  shows "skipelem_names path name = map (take DIRSIZ) (path_elems path)"
  using assms
proof (induction path name rule: skipelem_names.induct)
  case (1 path name)
  show ?case
  proof (cases "path_elems path")
    case Nil
    then show ?thesis using skipelem_elems(1) [of path name] by (simp add: skipelem_names.simps)
  next
    case (Cons e es)
    let ?rest = "dropWhile (\<lambda>c. c = slash) (dropWhile (\<lambda>c. c \<noteq> slash) (dropWhile (\<lambda>c. c = slash) path))"
    let ?nm = "if length e \<ge> DIRSIZ then take DIRSIZ e else e @ 0 # drop (length e + 1) name"
    have s: "skipelem path name = Some (?rest, ?nm)" using skipelem_elems(1) [of path name] Cons by simp
    have "e \<in> set (splits path)" using Cons unfolding path_elems_def by (metis filter_is_subset list.set_intros(1) subsetD)
    then have z: "0 \<notin> set e" using set_splits 1(2) by blast
    have r: "0 \<notin> set ?rest" using 1(2) by (meson set_dropWhileD)
    have "takeWhile (\<lambda>c. c \<noteq> 0) e = e" using z by (auto simp: takeWhile_eq_all_conv)
    then have "takeWhile (\<lambda>c. c \<noteq> 0) ?nm = take DIRSIZ e"
      using z by (auto simp: takeWhile_eq_all_conv takeWhile_append2 dest: in_set_takeD)
    then show ?thesis
      using 1(1) [OF s refl r] skipelem_elems(2) [OF Cons] Cons s by (subst skipelem_names.simps) simp
  qed
qed

theorem skipelem_walks_elements_witness:
  "skipelem_names [47, 97, 47, 47, 98, 99, 47] (replicate 14 0) = [[97], [98, 99]]"
  using skipelem_walks_elements [of "[47, 97, 47, 47, 98, 99, 47]" "replicate 14 0"]
  by (simp add: path_elems_def slash_def DIRSIZ_def)

end
