(* ===== verification/MergeSorts.thy ===== *)
theory MergeSorts
  imports Prelude "HOL-Library.Multiset" "HOL-Library.Signed_Division"
begin

text \<open>
  The sorting program of \<^verbatim>\<open>Assignment4/2019101050/q1/q1.c\<close>: selection sort for short ranges, merge
  sort above it, and the two concurrent versions that sort the halves in child processes over
  shared memory or in threads. A sorting routine is a program over one shared array: a tree of
  reads, writes and fork/join points. One semantics executes it in program order and is what the
  witnesses evaluate, the other interleaves the running processes at every access to the array.
\<close>

section \<open>Programs over a shared array\<close>

text \<open>
  \<open>Rd i k\<close> reads \<^verbatim>\<open>a[i]\<close> and goes on with the value, \<open>Wr i v p\<close> stores \<open>v\<close> in \<^verbatim>\<open>a[i]\<close>. \<open>Fork p q k\<close>
  starts \<open>p\<close> as a child, goes on with \<open>q\<close> in the parent, waits for the child and goes on with
  \<open>k\<close>. \<open>Undef\<close> is a point where the C program has no defined behaviour.
\<close>

datatype prog = Halt | Undef | Rd int "int \<Rightarrow> prog" | Wr int int prog | Fork prog prog prog

primrec seqp :: "prog \<Rightarrow> prog \<Rightarrow> prog" where
  "seqp Halt q = q"
| "seqp Undef q = Undef"
| "seqp (Rd i k) q = Rd i (\<lambda>v. seqp (k v) q)"
| "seqp (Wr i v p) q = Wr i v (seqp p q)"
| "seqp (Fork p1 p2 k) q = Fork p1 p2 (seqp k q)"

definition in_arr :: "int \<Rightarrow> int list \<Rightarrow> bool" where
  "in_arr i a \<longleftrightarrow> 0 \<le> i \<and> nat i < length a"

text \<open>Execution in program order, a child before the parent: the number of steps and the final array.\<close>

primrec run_prog :: "prog \<Rightarrow> int list \<Rightarrow> (nat \<times> int list) option" where
  "run_prog Halt a = Some (0, a)"
| "run_prog Undef a = None"
| "run_prog (Rd i k) a = (if in_arr i a then map_option (apfst Suc) (run_prog (k (a ! nat i)) a) else None)"
| "run_prog (Wr i v p) a = (if in_arr i a then map_option (apfst Suc) (run_prog p (a[nat i := v])) else None)"
| "run_prog (Fork p q k) a =
     (case run_prog p a of None \<Rightarrow> None
      | Some (n1, a1) \<Rightarrow> (case run_prog q a1 of None \<Rightarrow> None
        | Some (n2, a2) \<Rightarrow> map_option (apfst (\<lambda>n. Suc (n1 + n2 + n))) (run_prog k a2)))"

text \<open>One step of one of the running processes.\<close>

inductive pstep :: "prog \<Rightarrow> int list \<Rightarrow> prog \<Rightarrow> int list \<Rightarrow> bool" where
  step_Rd: "in_arr i a \<Longrightarrow> pstep (Rd i k) a (k (a ! nat i)) a"
| step_Wr: "in_arr i a \<Longrightarrow> pstep (Wr i v p) a p (a[nat i := v])"
| step_child: "pstep p a p' a' \<Longrightarrow> pstep (Fork p q k) a (Fork p' q k) a'"
| step_parent: "pstep q a q' a' \<Longrightarrow> pstep (Fork p q k) a (Fork p q' k) a'"
| step_join: "pstep (Fork Halt Halt k) a k a"

inductive psteps :: "nat \<Rightarrow> prog \<Rightarrow> int list \<Rightarrow> prog \<Rightarrow> int list \<Rightarrow> bool" where
  psteps_0: "psteps 0 p a p a"
| psteps_Suc: "pstep p a p' a' \<Longrightarrow> psteps n p' a' q b \<Longrightarrow> psteps (Suc n) p a q b"

inductive_cases pstep_HaltE: "pstep Halt a p' a'"
inductive_cases pstep_UndefE: "pstep Undef a p' a'"
inductive_cases pstep_RdE: "pstep (Rd i k) a p' a'"
inductive_cases pstep_WrE: "pstep (Wr i v p) a p' a'"
inductive_cases pstep_ForkE: "pstep (Fork p q k) a p' a'"
inductive_cases psteps_SucE: "psteps (Suc n) p a q b"

section \<open>The sorting routines\<close>

text \<open>The inner loop of \<^verbatim>\<open>selectionSort\<close>: the index of the least element from \<open>mn\<close> on goes to \<open>k\<close>.\<close>

function find_min :: "int \<Rightarrow> int \<Rightarrow> int \<Rightarrow> (int \<Rightarrow> prog) \<Rightarrow> prog" where
  "find_min j mn stop k =
     (if j < stop
      then Rd j (\<lambda>x. Rd mn (\<lambda>y. find_min (j + 1) (if x < y then j else mn) stop k))
      else k mn)"
  by auto
termination by (relation "measure (\<lambda>(j, mn, stop, k). nat (stop - j))") auto

function selectionSort_from :: "int \<Rightarrow> int \<Rightarrow> prog" where
  "selectionSort_from i stop =
     (if i < stop
      then find_min (i + 1) i stop (\<lambda>mn.
           Rd i (\<lambda>temp. Rd mn (\<lambda>v. Wr i v (Wr mn temp (selectionSort_from (i + 1) stop)))))
      else Halt)"
  by auto
termination by (relation "measure (\<lambda>(i, stop). nat (stop - i))") auto

definition selectionSort :: "int \<Rightarrow> int \<Rightarrow> prog" where
  "selectionSort num start = selectionSort_from start (num + start)"

text \<open>
  \<^verbatim>\<open>merge\<close>: the copies of the two halves into freshly allocated arrays, then the three loops that
  write back. The cursors \<open>f\<close> and \<open>s\<close> are the parts of \<^verbatim>\<open>left\<close> and \<^verbatim>\<open>right\<close> still to be written,
  \<open>pos\<close> is \<open>c + l\<close>.
\<close>

fun copy_in :: "nat \<Rightarrow> int \<Rightarrow> (int list \<Rightarrow> prog) \<Rightarrow> prog" where
  "copy_in 0 i k = k []"
| "copy_in (Suc n) i k = Rd i (\<lambda>v. copy_in n (i + 1) (\<lambda>vs. k (v # vs)))"

fun write_out :: "int \<Rightarrow> int list \<Rightarrow> prog" where
  "write_out pos [] = Halt"
| "write_out pos (v # vs) = Wr pos v (write_out (pos + 1) vs)"

fun merge_loop :: "int \<Rightarrow> int list \<Rightarrow> int list \<Rightarrow> prog" where
  "merge_loop pos (x # left) (y # right) =
     (if x < y then Wr pos x (merge_loop (pos + 1) left (y # right))
      else Wr pos y (merge_loop (pos + 1) (x # left) right))"
| "merge_loop pos left [] = write_out pos left"
| "merge_loop pos [] right = write_out pos right"

definition merge_halves :: "int \<Rightarrow> int \<Rightarrow> int \<Rightarrow> prog" where
  "merge_halves l m r =
     copy_in (nat (m - l + 1)) l (\<lambda>left. copy_in (nat (r - m)) (m + 1) (\<lambda>right.
     merge_loop l left right))"

lemma midpoint: "l < r \<Longrightarrow> \<not> r - l + 1 < 5 \<Longrightarrow> l \<le> (l + r) sdiv 2 \<and> (l + r) sdiv 2 < (r :: int)"
  by (auto simp: signed_divide_int_def sgn_if abs_if split: if_splits)

text \<open>
  The middle of a range is computed in a C \<open>int\<close>: past \<open>INT_MAX\<close> the sum overflows, which is
  undefined.
\<close>

definition INT_MAX :: int where "INT_MAX = 2147483647"

function mergeSort :: "int \<Rightarrow> int \<Rightarrow> prog" where
  "mergeSort l r =
     (if r - l + 1 < 5 then selectionSort (r - l + 1) l
      else if l < r then
        (if INT_MAX < l + r then Undef
         else let m = (l + r) sdiv 2
              in seqp (mergeSort l m) (seqp (mergeSort (m + 1) r) (merge_halves l m r)))
      else Halt)"
  by auto
termination
  by (relation "measure (\<lambda>(l, r). nat (r - l + 1))") (use midpoint in \<open>fastforce+\<close>)

text \<open>
  \<^verbatim>\<open>concurrentMergeSort\<close>: \<open>forks path\<close> says for the call at \<open>path\<close> in the tree of calls whether its two
  \<^verbatim>\<open>fork\<close> calls succeed. When one fails the parent sorts that half itself.
\<close>

type_synonym forks = "bool list \<Rightarrow> bool \<times> bool"

function concurrentMergeSort :: "forks \<Rightarrow> bool list \<Rightarrow> int \<Rightarrow> int \<Rightarrow> prog" where
  "concurrentMergeSort forks path l r =
     (if r - l + 1 < 5 then selectionSort (r - l + 1) l
      else if l < r then
        (if INT_MAX < l + r then Undef
         else let m = (l + r) sdiv 2;
                  right = (if snd (forks path)
                           then Fork (concurrentMergeSort forks (True # path) (m + 1) r) Halt Halt
                           else mergeSort (m + 1) r)
              in if fst (forks path)
                 then Fork (concurrentMergeSort forks (False # path) l m) right (merge_halves l m r)
                 else seqp (mergeSort l m) (seqp right (merge_halves l m r)))
      else Halt)"
  by auto
termination
  by (relation "measure (\<lambda>(forks, path, l, r). nat (r - l + 1))") (use midpoint in \<open>fastforce+\<close>)

text \<open>
  \<^verbatim>\<open>threadedMergeSort\<close>: threads down to level 3, plain merge sort below. \<open>creates\<close> says for a call
  whether its two \<^verbatim>\<open>pthread_create\<close> calls succeed. When one fails the half is sorted in the calling
  thread, but the join that follows is on a handle that was never set, which is undefined.
\<close>

function threadedMergeSort :: "forks \<Rightarrow> bool list \<Rightarrow> int \<Rightarrow> int \<Rightarrow> int \<Rightarrow> prog" where
  "threadedMergeSort creates path l r level =
     (if r - l + 1 < 5 then selectionSort (r - l + 1) l
      else if l < r then
        (if INT_MAX < l + r then Undef
         else let m = (l + r) sdiv 2
              in if level \<le> 3 then
                   let right = (if snd (creates path)
                                then Fork (threadedMergeSort creates (True # path) (m + 1) r (level + 1)) Halt Halt
                                else mergeSort (m + 1) r);
                       joined = (if fst (creates path) \<and> snd (creates path) then merge_halves l m r else Undef)
                   in if fst (creates path)
                      then Fork (threadedMergeSort creates (False # path) l m (level + 1)) right joined
                      else seqp (mergeSort l m) (seqp right joined)
                 else seqp (mergeSort l m) (seqp (mergeSort (m + 1) r) (merge_halves l m r)))
      else Halt)"
  by auto
termination
  by (relation "measure (\<lambda>(creates, path, l, r, level). nat (r - l + 1))") (use midpoint in \<open>fastforce+\<close>)

declare find_min.simps [simp del] selectionSort_from.simps [simp del] mergeSort.simps [simp del]
  concurrentMergeSort.simps [simp del] threadedMergeSort.simps [simp del]

text \<open>\<^verbatim>\<open>checkArr\<close>: \<open>None\<close> is a read outside the array.\<close>

function checkArr_from :: "int \<Rightarrow> int list \<Rightarrow> int \<Rightarrow> bool option" where
  "checkArr_from i a n =
     (if i < n - 1
      then if in_arr (i - 1) a \<and> in_arr i a
           then if a ! nat (i - 1) > a ! nat i then Some False else checkArr_from (i + 1) a n
           else None
      else Some True)"
  by auto
termination by (relation "measure (\<lambda>(i, a, n). nat (n - i))") auto

declare checkArr_from.simps [simp del]

definition checkArr :: "int list \<Rightarrow> int \<Rightarrow> bool option" where
  "checkArr a n = checkArr_from 0 a n"

text \<open>
  The three runs of \<^verbatim>\<open>runSorts\<close> on the elements read by \<^verbatim>\<open>main\<close>: each copies them, sorts the copy,
  prints it and sets its flag to what \<^verbatim>\<open>checkArr\<close> says of it. The result is the printed array and
  the flag; the timing around the sort is left out.
\<close>

definition run_sort :: "(int \<Rightarrow> prog) \<Rightarrow> int list \<Rightarrow> (int list \<times> bool option) option" where
  "run_sort sorter a = map_option (\<lambda>(n, b). (b, checkArr b (int (length a)))) (run_prog (sorter (int (length a) - 1)) a)"

definition runNormal :: "int list \<Rightarrow> (int list \<times> bool option) option" where
  "runNormal a = run_sort (\<lambda>r. mergeSort 0 r) a"

definition runMultiProcess :: "forks \<Rightarrow> int list \<Rightarrow> (int list \<times> bool option) option" where
  "runMultiProcess forks a = run_sort (\<lambda>r. concurrentMergeSort forks [] 0 r) a"

definition runMultiThread :: "forks \<Rightarrow> int list \<Rightarrow> (int list \<times> bool option) option" where
  "runMultiThread creates a = run_sort (\<lambda>r. threadedMergeSort creates [] 0 r 0) a"

section \<open>Execution in program order\<close>

text \<open>\<open>yields p a b\<close>: executed in program order from \<open>a\<close>, \<open>p\<close> ends in the array \<open>b\<close>.\<close>

definition yields :: "prog \<Rightarrow> int list \<Rightarrow> int list \<Rightarrow> bool" where
  "yields p a b \<longleftrightarrow> (\<exists>n. run_prog p a = Some (n, b))"

lemma yields_Halt [simp]: "yields Halt a b \<longleftrightarrow> b = a"
  by (auto simp: yields_def)

lemma yields_Rd [simp]: "in_arr i a \<Longrightarrow> yields (Rd i k) a b \<longleftrightarrow> yields (k (a ! nat i)) a b"
  by (auto simp: yields_def)

lemma yields_Wr [simp]: "in_arr i a \<Longrightarrow> yields (Wr i v p) a b \<longleftrightarrow> yields p (a[nat i := v]) b"
  by (auto simp: yields_def)

lemma exec_seqp:
  "run_prog (seqp p q) a = (case run_prog p a of None \<Rightarrow> None
     | Some (n, a1) \<Rightarrow> map_option (apfst (\<lambda>m. n + m)) (run_prog q a1))"
  by (induction p arbitrary: a) (auto split: option.splits prod.splits simp: map_option_case)

lemma yields_seqp: "yields p a a1 \<Longrightarrow> yields q a1 b \<Longrightarrow> yields (seqp p q) a b"
  by (auto simp: yields_def exec_seqp)

lemma yields_Fork: "yields p a a1 \<Longrightarrow> yields q a1 a2 \<Longrightarrow> yields k a2 b \<Longrightarrow> yields (Fork p q k) a b"
  by (auto simp: yields_def)

lemma in_arr_append [simp]: "in_arr (int (length xs)) (xs @ y # ys)"
  by (simp add: in_arr_def)

lemma in_arr_update [simp]: "in_arr i (a[j := v]) = in_arr i a"
  by (simp add: in_arr_def)

text \<open>
  The array around the range a routine works on: \<open>xs\<close> before it, \<open>ys\<close> behind it.
\<close>

lemma copy_in_yields:
  "yields (k vs) (xs @ vs @ ys) b \<Longrightarrow> length xs = nat i \<Longrightarrow> 0 \<le> i \<Longrightarrow>
   yields (copy_in (length vs) i k) (xs @ vs @ ys) b"
proof (induction vs arbitrary: i k xs)
  case (Cons v vs)
  have "in_arr i (xs @ v # vs @ ys)" using Cons.prems by (simp add: in_arr_def)
  moreover have "yields (copy_in (length vs) (i + 1) (\<lambda>vs. k (v # vs))) ((xs @ [v]) @ vs @ ys) b"
    using Cons.prems by (intro Cons.IH) auto
  ultimately show ?case using Cons.prems(2) by (simp add: nth_append flip: Cons.prems(2))
qed simp

lemma write_out_yields:
  "length zs = length vs \<Longrightarrow> length xs = nat pos \<Longrightarrow> 0 \<le> pos \<Longrightarrow>
   yields (write_out pos vs) (xs @ zs @ ys) (xs @ vs @ ys)"
proof (induction vs arbitrary: zs pos xs)
  case (Cons v vs)
  then obtain z zs' where zs: "zs = z # zs'" by (cases zs) auto
  have "in_arr pos (xs @ z # zs' @ ys)" using Cons.prems by (simp add: in_arr_def)
  moreover have "yields (write_out (pos + 1) vs) ((xs @ [v]) @ zs' @ ys) ((xs @ [v]) @ vs @ ys)"
    using Cons.prems zs by (intro Cons.IH) auto
  ultimately show ?case using zs Cons.prems(2) by (simp add: list_update_append flip: Cons.prems(2))
qed simp

text \<open>The list that the merge loop writes.\<close>

fun merge_lists :: "int list \<Rightarrow> int list \<Rightarrow> int list" where
  "merge_lists (x # xs) (y # ys) = (if x < y then x # merge_lists xs (y # ys) else y # merge_lists (x # xs) ys)"
| "merge_lists xs [] = xs"
| "merge_lists [] ys = ys"

lemma mset_merge_lists [simp]: "mset (merge_lists xs ys) = mset xs + mset ys"
  by (induction xs ys rule: merge_lists.induct) auto

lemma length_merge_lists [simp]: "length (merge_lists xs ys) = length xs + length ys"
  by (induction xs ys rule: merge_lists.induct) auto

lemma sorted_merge_lists: "sorted xs \<Longrightarrow> sorted ys \<Longrightarrow> sorted (merge_lists xs ys)"
proof (induction xs ys rule: merge_lists.induct)
  case (1 x xs y ys)
  have "set (merge_lists us vs) = set us \<union> set vs" for us vs
    by (metis mset_merge_lists set_mset_mset set_mset_union)
  then show ?case using 1 by (auto simp: not_less intro: less_imp_le)
qed auto

lemma merge_loop_write: "merge_loop pos xs ys = write_out pos (merge_lists xs ys)"
  by (induction pos xs ys rule: merge_loop.induct) auto

lemma merge_lists_sort: "merge_lists (sort xs) (sort ys) = sort (xs @ ys)"
  by (rule properties_for_sort [symmetric]) (simp_all add: sorted_merge_lists)

lemma merge_halves_yields:
  assumes "length xs = nat l" "0 \<le> l" "length us = nat (m - l + 1)" "length vs = nat (r - m)" "l \<le> m" "m \<le> r"
  shows "yields (merge_halves l m r) (xs @ sort us @ sort vs @ ys) (xs @ sort (us @ vs) @ ys)"
proof -
  have "yields (merge_loop l (sort us) (sort vs)) (xs @ (sort us @ sort vs) @ ys) (xs @ sort (us @ vs) @ ys)"
    using assms by (simp only: merge_loop_write merge_lists_sort) (rule write_out_yields, simp_all)
  then have "yields (copy_in (length (sort vs)) (m + 1) (\<lambda>right. merge_loop l (sort us) right))
      ((xs @ sort us) @ sort vs @ ys) (xs @ sort (us @ vs) @ ys)"
    using assms by (intro copy_in_yields) auto
  then have "yields (copy_in (length (sort us)) l (\<lambda>left. copy_in (length (sort vs)) (m + 1) (\<lambda>right. merge_loop l left right)))
      (xs @ sort us @ sort vs @ ys) (xs @ sort (us @ vs) @ ys)"
    using assms by (intro copy_in_yields) auto
  then show ?thesis using assms by (simp add: merge_halves_def)
qed

lemma find_min_yields:
  assumes "\<And>x. mn \<le> x \<Longrightarrow> x < stop \<Longrightarrow> in_arr x a" "mn < j"
    and "mn < stop"
    and "\<And>mn'. mn \<le> mn' \<Longrightarrow> mn' < stop \<Longrightarrow> (mn' = mn \<or> j \<le> mn') \<Longrightarrow> a ! nat mn' \<le> a ! nat mn \<Longrightarrow>
           (\<forall>x. j \<le> x \<and> x < stop \<longrightarrow> a ! nat mn' \<le> a ! nat x) \<Longrightarrow> yields (k mn') a b"
  shows "yields (find_min j mn stop k) a b"
  using assms
proof (induction j mn stop k rule: find_min.induct)
  case (1 j mn stop k)
  show ?case
  proof (cases "j < stop")
    case True
    let ?mn = "if a ! nat j < a ! nat mn then j else mn"
    have "yields (find_min (j + 1) ?mn stop k) a b"
    proof (rule "1.IH" [OF True])
      fix mn' assume p: "?mn \<le> mn'" "mn' < stop" "mn' = ?mn \<or> j + 1 \<le> mn'"
        "a ! nat mn' \<le> a ! nat ?mn" "\<forall>x. j + 1 \<le> x \<and> x < stop \<longrightarrow> a ! nat mn' \<le> a ! nat x"
      have "a ! nat ?mn \<le> a ! nat mn" "a ! nat ?mn \<le> a ! nat j" by auto
      then have "a ! nat mn' \<le> a ! nat x" if "j \<le> x" "x < stop" for x
        using p(4,5) that by (cases "x = j") auto
      then show "yields (k mn') a b"
        using p "1.prems"(2) \<open>a ! nat ?mn \<le> a ! nat mn\<close> by (intro "1.prems"(4)) (auto split: if_splits)
    qed (use "1.prems" True in \<open>auto split: if_splits\<close>)
    then show ?thesis
      using True "1.prems"(1) [of j] "1.prems"(1) [of mn] "1.prems"(2,3) by (subst find_min.simps) simp
  next
    case False
    then show ?thesis using "1.prems" by (subst find_min.simps) auto
  qed
qed

lemma swap_head_sort:
  assumes "d < length zs" "\<And>x. x < length zs \<Longrightarrow> zs ! d \<le> (zs :: int list) ! x"
  shows "sort zs = (zs ! d) # sort (tl (zs[0 := zs ! d, d := zs ! 0]))"
proof (rule properties_for_sort)
  let ?zs = "zs[0 := zs ! d, d := zs ! 0]"
  have ne: "?zs \<noteq> []" using assms(1) by auto
  then have h: "hd ?zs = zs ! d"
    using assms(1) by (subst hd_conv_nth) (auto simp: nth_list_update)
  have m: "mset ?zs = mset zs" using assms(1) by (intro mset_swap) auto
  have "mset (hd ?zs # tl ?zs) = mset zs" using ne m by (metis list.collapse)
  then show "mset (zs ! d # sort (tl ?zs)) = mset zs" by (simp add: h)
  have "set (tl ?zs) \<subseteq> set zs" using ne m by (metis list.set_sel(2) set_mset_mset subsetI)
  moreover have "\<forall>x\<in>set zs. zs ! d \<le> x" using assms(2) by (auto simp: in_set_conv_nth)
  ultimately show "sorted (zs ! d # sort (tl ?zs))" by auto
qed

lemma selectionSort_from_yields:
  "length xs = nat i \<Longrightarrow> 0 \<le> i \<Longrightarrow> length zs = nat (stop - i) \<Longrightarrow>
   yields (selectionSort_from i stop) (xs @ zs @ ys) (xs @ sort zs @ ys)"
proof (induction i stop arbitrary: xs zs rule: selectionSort_from.induct)
  case (1 i stop)
  let ?a = "xs @ zs @ ys"
  have at: "?a ! nat x = zs ! nat (x - i)" "in_arr x ?a" if "i \<le> x" "x < stop" for x
    using that "1.prems" by (auto simp: nth_append nat_diff_distrib in_arr_def)
  show ?case
  proof (cases "i < stop")
    case True
    have "yields (find_min (i + 1) i stop (\<lambda>mn. Rd i (\<lambda>temp. Rd mn (\<lambda>v. Wr i v (Wr mn temp (selectionSort_from (i + 1) stop))))))
        ?a (xs @ sort zs @ ys)"
    proof (rule find_min_yields)
      fix mn assume mn: "i \<le> mn" "mn < stop" "?a ! nat mn \<le> ?a ! nat i"
        "\<forall>x. i + 1 \<le> x \<and> x < stop \<longrightarrow> ?a ! nat mn \<le> ?a ! nat x"
      define d where "d = nat (mn - i)"
      let ?zs = "zs[0 := zs ! d, d := zs ! 0]"
      have d: "d < length zs" "?a ! nat mn = zs ! d" "?a ! nat i = zs ! 0" "nat mn = length xs + d"
        using mn(1,2) True "1.prems" at(1) [of mn] at(1) [of i] by (simp_all add: d_def)
      have le: "zs ! d \<le> zs ! x" if "x < length zs" for x
      proof (cases x)
        case 0
        then show ?thesis using mn(3) d(2,3) by simp
      next
        case (Suc y)
        have "i + 1 \<le> i + int x \<and> i + int x < stop" using that "1.prems"(3) Suc by auto
        with mn(4) have "?a ! nat mn \<le> ?a ! nat (i + int x)" by blast
        then show ?thesis using at(1) [of "i + int x"] that "1.prems"(3) d(2) by auto
      qed
      note srt = swap_head_sort [OF d(1) le]
      have z: "?zs = zs ! d # tl ?zs" using d(1) by (cases zs) (auto simp: nth_list_update split: nat.splits)
      have "?a[nat i := zs ! d, nat mn := zs ! 0] = xs @ ?zs @ ys"
        using d(1) by (auto simp add: list_update_append d(4) "1.prems"(1) [symmetric])
      also have "\<dots> = (xs @ [zs ! d]) @ tl ?zs @ ys" by (subst z) simp
      finally have "?a[nat i := zs ! d, nat mn := zs ! 0] = (xs @ [zs ! d]) @ tl ?zs @ ys" .
      moreover have "yields (selectionSort_from (i + 1) stop) ((xs @ [zs ! d]) @ tl ?zs @ ys) ((xs @ [zs ! d]) @ sort (tl ?zs) @ ys)"
        using "1.prems" True by (intro "1.IH") auto
      ultimately show "yields (Rd i (\<lambda>temp. Rd mn (\<lambda>v. Wr i v (Wr mn temp (selectionSort_from (i + 1) stop))))) ?a (xs @ sort zs @ ys)"
        using at(2) [of i] at(2) [OF mn(1,2)] True by (simp add: d(2,3) srt)
    qed (use True at(2) in auto)
    then show ?thesis using True by (subst selectionSort_from.simps) simp
  next
    case False
    then show ?thesis using "1.prems" by (subst selectionSort_from.simps) simp
  qed
qed

lemma selectionSort_yields:
  "length xs = nat l \<Longrightarrow> 0 \<le> l \<Longrightarrow> length zs = nat (r - l + 1) \<Longrightarrow>
   yields (selectionSort (r - l + 1) l) (xs @ zs @ ys) (xs @ sort zs @ ys)"
  unfolding selectionSort_def by (rule selectionSort_from_yields) auto

text \<open>
  A routine sorts the range \<open>l..r\<close>: from any array it ends, with the range sorted and nothing else
  changed.
\<close>

definition sorts_range :: "prog \<Rightarrow> int \<Rightarrow> int \<Rightarrow> bool" where
  "sorts_range p l r \<longleftrightarrow> (\<forall>xs zs ys. length xs = nat l \<longrightarrow> length zs = nat (r - l + 1) \<longrightarrow>
     yields p (xs @ zs @ ys) (xs @ sort zs @ ys))"

lemma sorts_rangeD:
  "sorts_range p l r \<Longrightarrow> length xs = nat l \<Longrightarrow> length zs = nat (r - l + 1) \<Longrightarrow>
   yields p (xs @ zs @ ys) (xs @ sort zs @ ys)"
  by (simp add: sorts_range_def)

lemma sorts_range_selectionSort: "0 \<le> l \<Longrightarrow> sorts_range (selectionSort (r - l + 1) l) l r"
  by (simp add: sorts_range_def selectionSort_yields)

lemma sorts_range_Fork_Halt: "sorts_range p l r \<Longrightarrow> sorts_range (Fork p Halt Halt) l r"
  by (auto simp: sorts_range_def intro!: yields_Fork)

text \<open>The array between the two halves of a call.\<close>

lemma sorted_halves:
  assumes "sorts_range p l m" "sorts_range q (m + 1) r" "0 \<le> l" "l \<le> m" "m \<le> r"
    and "length xs = nat l" "length zs = nat (r - l + 1)"
  obtains a1 a2 where "yields p (xs @ zs @ ys) a1" "yields q a1 a2"
    and "yields (merge_halves l m r) a2 (xs @ sort zs @ ys)"
proof
  let ?us = "take (nat (m - l + 1)) zs" and ?vs = "drop (nat (m - l + 1)) zs"
  have len: "length ?us = nat (m - l + 1)" "length ?vs = nat (r - m)" using assms by auto
  show "yields p (xs @ zs @ ys) (xs @ sort ?us @ ?vs @ ys)"
    using sorts_rangeD [OF assms(1,6) len(1), of "?vs @ ys"] by (metis append_assoc append_take_drop_id)
  show "yields q (xs @ sort ?us @ ?vs @ ys) (xs @ sort ?us @ sort ?vs @ ys)"
    using sorts_rangeD [OF assms(2), of "xs @ sort ?us" ?vs ys] assms(3-6) len by (simp add: nat_add_distrib flip: nat_add_distrib)
  show "yields (merge_halves l m r) (xs @ sort ?us @ sort ?vs @ ys) (xs @ sort zs @ ys)"
    using merge_halves_yields [OF assms(6,3) len assms(4,5), of ys] by simp
qed

lemma sorts_range_seqp:
  assumes "sorts_range p l m" "sorts_range q (m + 1) r" "0 \<le> l" "l \<le> m" "m \<le> r"
  shows "sorts_range (seqp p (seqp q (merge_halves l m r))) l r"
  unfolding sorts_range_def
proof (intro allI impI)
  fix xs zs ys :: "int list" assume "length xs = nat l" "length zs = nat (r - l + 1)"
  then show "yields (seqp p (seqp q (merge_halves l m r))) (xs @ zs @ ys) (xs @ sort zs @ ys)"
    by (rule sorted_halves [OF assms]) (blast intro: yields_seqp)
qed

lemma sorts_range_Fork:
  assumes "sorts_range p l m" "sorts_range q (m + 1) r" "0 \<le> l" "l \<le> m" "m \<le> r"
  shows "sorts_range (Fork p q (merge_halves l m r)) l r"
  unfolding sorts_range_def
proof (intro allI impI)
  fix xs zs ys :: "int list" assume "length xs = nat l" "length zs = nat (r - l + 1)"
  then show "yields (Fork p q (merge_halves l m r)) (xs @ zs @ ys) (xs @ sort zs @ ys)"
    by (rule sorted_halves [OF assms]) (blast intro: yields_Fork)
qed

lemma range_halves:
  assumes "0 \<le> l" "l < r" "\<not> r - l + 1 < 5" "2 * r \<le> INT_MAX"
  defines "m \<equiv> (l + r) sdiv 2"
  shows "l \<le> m" "m \<le> r" "0 \<le> m + 1" "2 * m \<le> INT_MAX" "\<not> INT_MAX < l + r"
  using midpoint [OF assms(2,3)] assms by (auto simp: m_def)

lemma sorts_range_mergeSort: "0 \<le> l \<Longrightarrow> 2 * r \<le> INT_MAX \<Longrightarrow> sorts_range (mergeSort l r) l r"
proof (induction l r rule: mergeSort.induct)
  case (1 l r)
  show ?case
  proof (cases "r - l + 1 < 5")
    case True
    then show ?thesis using "1.prems" by (subst mergeSort.simps) (simp add: sorts_range_selectionSort)
  next
    case False
    then have lr: "l < r" by simp
    note h = range_halves [OF "1.prems"(1) lr False "1.prems"(2)]
    have "sorts_range (seqp (mergeSort l ((l + r) sdiv 2)) (seqp (mergeSort ((l + r) sdiv 2 + 1) r)
        (merge_halves l ((l + r) sdiv 2) r))) l r"
      using h "1.prems" by (intro sorts_range_seqp "1.IH" [OF False lr h(5) refl]) auto
    then show ?thesis using False lr h(5) by (subst mergeSort.simps) (simp add: Let_def)
  qed
qed

lemma sorts_range_concurrentMergeSort:
  "0 \<le> l \<Longrightarrow> 2 * r \<le> INT_MAX \<Longrightarrow> sorts_range (concurrentMergeSort forks path l r) l r"
proof (induction forks path l r rule: concurrentMergeSort.induct)
  case (1 forks path l r)
  show ?case
  proof (cases "r - l + 1 < 5")
    case True
    then show ?thesis using "1.prems" by (subst concurrentMergeSort.simps) (simp add: sorts_range_selectionSort)
  next
    case False
    then have lr: "l < r" by simp
    note h = range_halves [OF "1.prems"(1) lr False "1.prems"(2)]
    let ?m = "(l + r) sdiv 2"
    let ?right = "if snd (forks path) then Fork (concurrentMergeSort forks (True # path) (?m + 1) r) Halt Halt
        else mergeSort (?m + 1) r"
    have right: "sorts_range ?right (?m + 1) r"
      using h "1.prems" "1.IH"(1) [OF False lr h(5) refl]
      by (auto intro: sorts_range_Fork_Halt sorts_range_mergeSort)
    show ?thesis
    proof (cases "fst (forks path)")
      case True
      have "sorts_range (concurrentMergeSort forks (False # path) l ?m) l ?m"
        using h "1.prems" by (intro "1.IH"(2) [OF False lr h(5) refl refl True]) auto
      from sorts_range_Fork [OF this right "1.prems"(1) h(1,2)] show ?thesis
        using True False lr h(5) by (subst concurrentMergeSort.simps) (simp add: Let_def)
    next
      case f: False
      have "sorts_range (mergeSort l ?m) l ?m" using h "1.prems" by (intro sorts_range_mergeSort) auto
      from sorts_range_seqp [OF this right "1.prems"(1) h(1,2)] show ?thesis
        using f False lr h(5) by (subst concurrentMergeSort.simps) (simp add: Let_def)
    qed
  qed
qed

lemma sorts_range_threadedMergeSort:
  "0 \<le> l \<Longrightarrow> 2 * r \<le> INT_MAX \<Longrightarrow> sorts_range (threadedMergeSort (\<lambda>_. (True, True)) path l r level) l r"
proof (induction "\<lambda>_ :: bool list. (True, True)" path l r level rule: threadedMergeSort.induct)
  case (1 path l r level)
  show ?case
  proof (cases "r - l + 1 < 5")
    case True
    then show ?thesis using "1.prems" by (subst threadedMergeSort.simps) (simp add: sorts_range_selectionSort)
  next
    case False
    then have lr: "l < r" by simp
    note h = range_halves [OF "1.prems"(1) lr False "1.prems"(2)]
    let ?m = "(l + r) sdiv 2"
    show ?thesis
    proof (cases "level \<le> 3")
      case True
      have "sorts_range (threadedMergeSort (\<lambda>_. (True, True)) (False # path) l ?m (level + 1)) l ?m"
        and "sorts_range (Fork (threadedMergeSort (\<lambda>_. (True, True)) (True # path) (?m + 1) r (level + 1)) Halt Halt) (?m + 1) r"
        using h "1.prems" "1.hyps" [OF False lr h(5) refl True]
        by (auto intro!: sorts_range_Fork_Halt)
      from sorts_range_Fork [OF this "1.prems"(1) h(1,2)] show ?thesis
        using True False lr h(5) by (subst threadedMergeSort.simps) (simp add: Let_def)
    next
      case f: False
      have "sorts_range (mergeSort l ?m) l ?m" "sorts_range (mergeSort (?m + 1) r) (?m + 1) r"
        using h "1.prems" by (auto intro: sorts_range_mergeSort)
      from sorts_range_seqp [OF this "1.prems"(1) h(1,2)] show ?thesis
        using f False lr h(5) by (subst threadedMergeSort.simps) (simp add: Let_def)
    qed
  qed
qed

section \<open>Interleaved execution\<close>

text \<open>
  \<open>confined A p\<close>: whatever values \<open>p\<close> reads, it reads and writes only indices in \<open>A\<close>. \<open>race_free\<close>:
  at every fork the child and the parent are confined to disjoint sets of indices.
\<close>

primrec confined :: "int set \<Rightarrow> prog \<Rightarrow> bool" where
  "confined A Halt \<longleftrightarrow> True"
| "confined A Undef \<longleftrightarrow> True"
| "confined A (Rd i k) \<longleftrightarrow> i \<in> A \<and> (\<forall>v. confined A (k v))"
| "confined A (Wr i v p) \<longleftrightarrow> i \<in> A \<and> confined A p"
| "confined A (Fork p q k) \<longleftrightarrow> confined A p \<and> confined A q \<and> confined A k"

primrec race_free :: "prog \<Rightarrow> bool" where
  "race_free Halt \<longleftrightarrow> True"
| "race_free Undef \<longleftrightarrow> True"
| "race_free (Rd i k) \<longleftrightarrow> (\<forall>v. race_free (k v))"
| "race_free (Wr i v p) \<longleftrightarrow> race_free p"
| "race_free (Fork p q k) \<longleftrightarrow> (\<exists>A. confined A p \<and> confined (- A) q) \<and> race_free p \<and> race_free q \<and> race_free k"

definition agree :: "int set \<Rightarrow> int list \<Rightarrow> int list \<Rightarrow> bool" where
  "agree A a b \<longleftrightarrow> length a = length b \<and> (\<forall>i. i \<in> A \<and> in_arr i a \<longrightarrow> a ! nat i = b ! nat i)"

lemma agree_refl [simp]: "agree A a a"
  by (simp add: agree_def)

lemma agree_sym: "agree A a b \<Longrightarrow> agree A b a"
  by (auto simp: agree_def in_arr_def)

lemma agree_trans: "agree A a b \<Longrightarrow> agree A b c \<Longrightarrow> agree A a c"
  by (auto simp: agree_def in_arr_def)

lemma agree_in_arr: "agree A a b \<Longrightarrow> in_arr i a = in_arr i b"
  by (auto simp: agree_def in_arr_def)

lemma nth_update_if: "xs[i := v] ! j = (if i = j \<and> j < length xs then v else xs ! j)"
  by (cases "i < length xs") (auto simp: nth_list_update list_update_beyond)

lemma agree_update: "agree A a b \<Longrightarrow> agree A (a[nat i := v]) (b[nat i := v])"
  by (auto simp: agree_def in_arr_def nth_update_if)

lemma agree_update_out: "i \<notin> A \<Longrightarrow> 0 \<le> i \<Longrightarrow> agree A (a[nat i := v]) a"
  by (auto simp: agree_def in_arr_def nth_update_if eq_nat_nat_iff)

lemma agree_both: "agree A a b \<Longrightarrow> agree (- A) a b \<Longrightarrow> a = b"
  by (rule nth_equalityI) (auto simp: agree_def in_arr_def, metis ComplI nat_int of_nat_0_le_iff)

lemma agree_nth: "agree A a b \<Longrightarrow> i \<in> A \<Longrightarrow> in_arr i a \<Longrightarrow> a ! nat i = b ! nat i"
  by (simp add: agree_def)

lemma exec_length: "run_prog p a = Some (n, b) \<Longrightarrow> length b = length a"
  by (induction p arbitrary: a n b) (fastforce split: if_splits option.splits)+

text \<open>A confined program leaves the rest of the array alone and does not depend on it.\<close>

lemma exec_confined: "confined A p \<Longrightarrow> run_prog p a = Some (n, b) \<Longrightarrow> agree (- A) b a"
proof (induction p arbitrary: a n b)
  case (Wr i v p)
  then obtain m where "run_prog p (a[nat i := v]) = Some (m, b)" "0 \<le> i" by (auto split: if_splits simp: in_arr_def)
  then show ?case using Wr agree_update_out [of i "- A" a v] by (fastforce intro: agree_trans)
next
  case (Fork p q k)
  then show ?case by (fastforce split: option.splits intro: agree_trans)
qed (auto split: if_splits, blast)

lemma exec_frame:
  "confined A p \<Longrightarrow> run_prog p a = Some (n, b) \<Longrightarrow> agree A a a' \<Longrightarrow> \<exists>b'. run_prog p a' = Some (n, b') \<and> agree A b b'"
proof (induction p arbitrary: a a' n b)
  case (Rd i k)
  then have i: "in_arr i a" "in_arr i a'" "a ! nat i = a' ! nat i"
    by (auto split: if_splits simp: agree_in_arr agree_nth)
  then obtain m where "run_prog (k (a ! nat i)) a = Some (m, b)" "n = Suc m" using Rd.prems(2) by auto
  then show ?case using Rd.IH [of "k (a ! nat i)" a m b a'] Rd.prems(1,3) i by auto
next
  case (Wr i v p)
  then have i: "in_arr i a" "in_arr i a'" by (auto split: if_splits simp: agree_in_arr)
  then obtain m where "run_prog p (a[nat i := v]) = Some (m, b)" "n = Suc m" using Wr.prems(2) by auto
  then show ?case using Wr.IH [of "a[nat i := v]" m b "a'[nat i := v]"] Wr.prems(1,3) i by (auto simp: agree_update)
next
  case (Fork p q k)
  then obtain n1 a1 n2 a2 n3 where e: "run_prog p a = Some (n1, a1)" "run_prog q a1 = Some (n2, a2)" "run_prog k a2 = Some (n3, b)"
    "n = Suc (n1 + n2 + n3)" by (auto split: option.splits)
  obtain b1 where b1: "run_prog p a' = Some (n1, b1)" "agree A a1 b1" using Fork.IH(1) Fork.prems e(1) by fastforce
  obtain b2 where b2: "run_prog q b1 = Some (n2, b2)" "agree A a2 b2" using Fork.IH(2) Fork.prems(1) e(2) b1(2) by fastforce
  obtain b3 where "run_prog k b2 = Some (n3, b3)" "agree A b b3" using Fork.IH(3) Fork.prems(1) e(3) b2(2) by fastforce
  then show ?case using b1 b2 e(4) by auto
qed auto

lemma pstep_confined: "pstep p a p' a' \<Longrightarrow> confined A p \<Longrightarrow> confined A p' \<and> agree (- A) a' a"
  by (induction rule: pstep.induct) (auto simp: agree_update_out in_arr_def)

lemma pstep_race_free: "pstep p a p' a' \<Longrightarrow> race_free p \<Longrightarrow> race_free p'"
  by (induction rule: pstep.induct) (auto dest: pstep_confined)

lemma pstep_frame:
  "pstep p a p' a' \<Longrightarrow> confined A p \<Longrightarrow> agree A a b \<Longrightarrow> \<exists>b'. pstep p b p' b' \<and> agree A a' b'"
proof (induction rule: pstep.induct)
  case (step_Rd i a k)
  then have "a ! nat i = b ! nat i" "in_arr i b" by (auto simp: agree_def in_arr_def)
  then show ?case using step_Rd.prems(2) pstep.step_Rd [of i b k] by auto
next
  case (step_Wr i a v p)
  then show ?case using pstep.step_Wr [of i b v p] agree_update agree_in_arr by blast
next
  case (step_child p a p' a' q k)
  then show ?case by (fastforce intro: pstep.step_child)
next
  case (step_parent q a q' a' p k)
  then show ?case by (fastforce intro: pstep.step_parent)
qed (auto intro: pstep.step_join)

text \<open>
  Every step of every process of a race-free program is a step towards the result of the
  execution in program order.
\<close>

lemma pstep_exec:
  "pstep p a p' a' \<Longrightarrow> race_free p \<Longrightarrow> run_prog p a = Some (n, b) \<Longrightarrow> \<exists>m. n = Suc m \<and> run_prog p' a' = Some (m, b)"
proof (induction p arbitrary: a p' a' n b)
  case (Fork p q k)
  from Fork.prems obtain n1 a1 n2 a2 n3 where e: "run_prog p a = Some (n1, a1)" "run_prog q a1 = Some (n2, a2)"
    "run_prog k a2 = Some (n3, b)" "n = Suc (n1 + n2 + n3)" by (auto split: option.splits)
  from Fork.prems obtain A where A: "confined A p" "confined (- A) q" "race_free p" "race_free q" by auto
  from Fork.prems(1) consider p1 where "p' = Fork p1 q k" "pstep p a p1 a'"
    | q1 where "p' = Fork p q1 k" "pstep q a q1 a'" | "p = Halt" "q = Halt" "p' = k" "a' = a"
    by (rule pstep_ForkE) auto
  then show ?case
  proof cases
    case 1
    then show ?thesis using Fork.IH(1) [OF 1(2) A(3) e(1)] e by auto
  next
    case 2
    have a': "agree A a a'" using pstep_confined [OF 2(2) A(2)] by (simp add: agree_sym)
    obtain a1' where p: "run_prog p a' = Some (n1, a1')" "agree A a1 a1'" using exec_frame [OF A(1) e(1) a'] by blast
    have "agree (- A) a a1" using exec_confined [OF A(1) e(1)] by (rule agree_sym)
    from pstep_frame [OF 2(2) A(2) this] obtain c where c: "pstep q a1 q1 c" "agree (- A) a' c" by blast
    have "agree A c a1'" using pstep_confined [OF c(1) A(2)] p(2) by (auto intro: agree_trans)
    moreover have "agree (- A) c a1'"
      using c(2) exec_confined [OF A(1) p(1)] by (blast intro: agree_sym agree_trans)
    ultimately have "c = a1'" by (rule agree_both)
    then show ?thesis using Fork.IH(2) [OF c(1) A(4) e(2)] p(1) e 2(1) by auto
  next
    case 3
    then show ?thesis using e by auto
  qed
qed (auto elim!: pstep_HaltE pstep_UndefE pstep_RdE pstep_WrE split: if_splits)

lemma exec_progress: "run_prog p a = Some (n, b) \<Longrightarrow> (p = Halt \<and> b = a \<and> n = 0) \<or> (\<exists>p' a'. pstep p a p' a')"
proof (induction p arbitrary: a n b)
  case (Fork p q k)
  then obtain n1 a1 n2 a2 where e: "run_prog p a = Some (n1, a1)" "run_prog q a1 = Some (n2, a2)"
    by (auto split: option.splits)
  show ?case using Fork.IH(1) [OF e(1)] Fork.IH(2) [OF e(2)] e
    by (fastforce intro: step_child step_parent step_join)
qed (auto split: if_splits intro: step_Rd step_Wr)

lemma psteps_exec:
  "psteps m p a q a' \<Longrightarrow> race_free p \<Longrightarrow> run_prog p a = Some (n, b) \<Longrightarrow>
   race_free q \<and> m \<le> n \<and> run_prog q a' = Some (n - m, b)"
  by (induction arbitrary: n rule: psteps.induct) (fastforce dest: pstep_exec pstep_race_free)+

lemma exec_psteps: "run_prog p a = Some (n, b) \<Longrightarrow> race_free p \<Longrightarrow> psteps n p a Halt b"
proof (induction n arbitrary: p a)
  case 0
  then show ?case using exec_progress [OF 0(1)] pstep_exec [OF _ 0(2,1)] by (auto intro: psteps_0)
next
  case (Suc n)
  then obtain p' a' where "pstep p a p' a'" using exec_progress [OF Suc.prems(1)] by auto
  then show ?case using Suc.IH pstep_exec [OF _ Suc.prems(2,1)] pstep_race_free Suc.prems(2)
    by (blast intro: psteps_Suc)
qed

text \<open>
  Every interleaved run of a race-free program can be continued to the end, and every run that
  goes to the end takes the same number of steps and leaves the same array.
\<close>

lemma race_free_determinate:
  assumes "race_free p" "yields p a b"
  obtains N where "\<And>m q a'. psteps m p a q a' \<Longrightarrow> m \<le> N \<and> psteps (N - m) q a' Halt b"
  using assms psteps_exec exec_psteps unfolding yields_def by metis

section \<open>The routines stay within their ranges\<close>

lemma confined_mono: "confined A p \<Longrightarrow> A \<subseteq> B \<Longrightarrow> confined B p"
  by (induction p) auto

lemma confined_seqp: "confined A p \<Longrightarrow> confined A q \<Longrightarrow> confined A (seqp p q)"
  by (induction p) auto

lemma race_free_seqp: "race_free p \<Longrightarrow> race_free q \<Longrightarrow> race_free (seqp p q)"
  by (induction p) auto

lemma confined_find_min:
  "(\<And>x. l \<le> x \<Longrightarrow> x < stop \<Longrightarrow> confined {l..<stop} (k x)) \<Longrightarrow> l \<le> mn \<Longrightarrow> mn < stop \<Longrightarrow> l \<le> j \<Longrightarrow>
   confined {l..<stop} (find_min j mn stop k)"
proof (induction j mn stop k rule: find_min.induct)
  case (1 j mn stop k)
  show ?case by (subst find_min.simps) (use 1 in auto)
qed

lemma race_free_find_min: "(\<And>x. race_free (k x)) \<Longrightarrow> race_free (find_min j mn stop k)"
proof (induction j mn stop k rule: find_min.induct)
  case (1 j mn stop k)
  show ?case by (subst find_min.simps) (use 1 in auto)
qed

lemma confined_selectionSort_from: "l \<le> i \<Longrightarrow> confined {l..<stop} (selectionSort_from i stop)"
proof (induction i stop rule: selectionSort_from.induct)
  case (1 i stop)
  show ?case by (subst selectionSort_from.simps) (use 1 in \<open>auto intro!: confined_find_min\<close>)
qed

lemma race_free_selectionSort_from: "race_free (selectionSort_from i stop)"
proof (induction i stop rule: selectionSort_from.induct)
  case (1 i stop)
  show ?case by (subst selectionSort_from.simps) (use 1 in \<open>auto intro!: race_free_find_min\<close>)
qed

lemma confined_copy_in:
  "(\<And>vs. length vs = n \<Longrightarrow> confined A (k vs)) \<Longrightarrow> {i..<i + int n} \<subseteq> A \<Longrightarrow> confined A (copy_in n i k)"
proof (induction n i k rule: copy_in.induct)
  case (2 n i k)
  then have "i \<in> A" "{i + 1..<i + 1 + int n} \<subseteq> A" by auto
  then show ?case using 2 by auto
qed auto

text \<open>A routine on the range \<open>l..r\<close> that touches only that range and is free of races.\<close>

definition well_behaved :: "prog \<Rightarrow> int \<Rightarrow> int \<Rightarrow> bool" where
  "well_behaved p l r \<longleftrightarrow> confined {l..r} p \<and> race_free p"

lemma race_free_copy_in: "(\<And>vs. race_free (k vs)) \<Longrightarrow> race_free (copy_in n i k)"
  by (induction n i k rule: copy_in.induct) auto

lemma write_out_confined: "{pos..<pos + int (length vs)} \<subseteq> A \<Longrightarrow> confined A (write_out pos vs)"
proof (induction pos vs rule: write_out.induct)
  case (2 pos v vs)
  then have "pos \<in> A" "{pos + 1..<pos + 1 + int (length vs)} \<subseteq> A" by auto
  then show ?case using 2 by auto
qed auto

lemma race_free_write_out: "race_free (write_out pos vs)"
  by (induction pos vs rule: write_out.induct) auto

lemma well_behaved_merge_halves: "l \<le> m \<Longrightarrow> m \<le> r \<Longrightarrow> well_behaved (merge_halves l m r) l r"
  by (auto simp: well_behaved_def merge_halves_def merge_loop_write
      intro!: confined_copy_in write_out_confined race_free_copy_in race_free_write_out)

lemma well_behaved_selectionSort: "well_behaved (selectionSort (r - l + 1) l) l r"
proof -
  have "r - l + 1 + l = r + 1" "{l..<r + 1} = {l..r}" by auto
  then show ?thesis
    using confined_selectionSort_from [of l l "r + 1"] race_free_selectionSort_from
    by (simp only: well_behaved_def selectionSort_def)
qed

lemma well_behaved_Fork_Halt: "well_behaved p l r \<Longrightarrow> well_behaved (Fork p Halt Halt) l r"
  by (auto simp: well_behaved_def)

lemma well_behaved_halves:
  assumes "well_behaved p l m" "well_behaved q (m + 1) r" "l \<le> m" "m \<le> r"
  shows "well_behaved (seqp p (seqp q (merge_halves l m r))) l r"
    "well_behaved (Fork p q (merge_halves l m r)) l r"
proof -
  have "confined {l..r} p" "confined {l..r} q" "confined (- {l..m}) q"
    using assms by (auto simp: well_behaved_def intro: confined_mono)
  then show "well_behaved (seqp p (seqp q (merge_halves l m r))) l r"
    "well_behaved (Fork p q (merge_halves l m r)) l r"
    using assms well_behaved_merge_halves [OF assms(3,4)]
    by (auto simp: well_behaved_def intro!: confined_seqp race_free_seqp)
qed

lemma well_behaved_mergeSort: "well_behaved (mergeSort l r) l r"
proof (induction l r rule: mergeSort.induct)
  case (1 l r)
  show ?case
  proof (cases "r - l + 1 < 5 \<or> \<not> l < r \<or> INT_MAX < l + r")
    case True
    then show ?thesis by (subst mergeSort.simps) (auto simp: well_behaved_selectionSort well_behaved_def [of Undef])
  next
    case False
    then have c: "\<not> r - l + 1 < 5" "l < r" "\<not> INT_MAX < l + r" by auto
    note m = midpoint [OF c(2,1)]
    show ?thesis
      using well_behaved_halves(1) [OF "1.IH" [OF c refl]] m c by (subst mergeSort.simps) (simp add: Let_def)
  qed
qed

lemma well_behaved_concurrentMergeSort: "well_behaved (concurrentMergeSort forks path l r) l r"
proof (induction forks path l r rule: concurrentMergeSort.induct)
  case (1 forks path l r)
  show ?case
  proof (cases "r - l + 1 < 5 \<or> \<not> l < r \<or> INT_MAX < l + r")
    case True
    then show ?thesis
      by (subst concurrentMergeSort.simps) (auto simp: well_behaved_selectionSort well_behaved_def [of Undef])
  next
    case False
    then have c: "\<not> r - l + 1 < 5" "l < r" "\<not> INT_MAX < l + r" by auto
    note m = midpoint [OF c(2,1)]
    let ?m = "(l + r) sdiv 2"
    have right: "well_behaved (if snd (forks path) then Fork (concurrentMergeSort forks (True # path) (?m + 1) r) Halt Halt
        else mergeSort (?m + 1) r) (?m + 1) r"
      using "1.IH"(1) [OF c refl] by (auto intro: well_behaved_Fork_Halt well_behaved_mergeSort)
    show ?thesis
      using well_behaved_halves(1) [OF well_behaved_mergeSort right]
        well_behaved_halves(2) [OF "1.IH"(2) [OF c refl refl] right] m c
      by (subst concurrentMergeSort.simps) (auto simp: Let_def)
  qed
qed

lemma well_behaved_threadedMergeSort:
  "well_behaved (threadedMergeSort (\<lambda>_. (True, True)) path l r level) l r"
proof (induction "\<lambda>_ :: bool list. (True, True)" path l r level rule: threadedMergeSort.induct)
  case (1 path l r level)
  show ?case
  proof (cases "r - l + 1 < 5 \<or> \<not> l < r \<or> INT_MAX < l + r")
    case True
    then show ?thesis
      by (subst threadedMergeSort.simps) (auto simp: well_behaved_selectionSort well_behaved_def [of Undef])
  next
    case False
    then have c: "\<not> r - l + 1 < 5" "l < r" "\<not> INT_MAX < l + r" by auto
    note m = midpoint [OF c(2,1)]
    show ?thesis
      using well_behaved_halves(1) [OF well_behaved_mergeSort well_behaved_mergeSort]
        well_behaved_halves(2) [OF "1.hyps"(2) [OF c refl] well_behaved_Fork_Halt [OF "1.hyps"(1) [OF c refl]]] m c
      by (subst threadedMergeSort.simps) (auto simp: Let_def)
  qed
qed

text \<open>
  C37. Sorting with child processes: started on the whole of an array of at most \<open>2\<^sup>3\<^sup>0\<close> elements,
  whatever \<^verbatim>\<open>fork\<close> calls fail and however the processes are scheduled, \<^verbatim>\<open>concurrentMergeSort\<close> never
  faults, ends after a number of steps that does not depend on the schedule, and leaves the array sorted.
\<close>

theorem concurrentMergeSort_sorts:
  assumes "2 * int (length a) \<le> INT_MAX"
  shows "\<exists>N. \<forall>m q a'. psteps m (concurrentMergeSort forks [] 0 (int (length a) - 1)) a q a' \<longrightarrow>
           m \<le> N \<and> psteps (N - m) q a' Halt (sort a)"
proof -
  have "yields (concurrentMergeSort forks [] 0 (int (length a) - 1)) a (sort a)"
    using sorts_rangeD [OF sorts_range_concurrentMergeSort, of 0 "int (length a) - 1" "[]" a forks "[]" "[]"] assms by simp
  then show ?thesis
    using race_free_determinate well_behaved_concurrentMergeSort unfolding well_behaved_def by metis
qed

theorem concurrentMergeSort_sorts_witness:
  "\<exists>N. psteps N (concurrentMergeSort (\<lambda>p. (p = [], True)) [] 0 6) [5, 3, 9, 1, 7, 2, 8] Halt [1, 2, 3, 5, 7, 8, 9]"
proof -
  have "sort [5, 3, 9, 1, 7, 2, 8 :: int] = [1, 2, 3, 5, 7, 8, 9]" by simp
  then show ?thesis
    using concurrentMergeSort_sorts [of "[5, 3, 9, 1, 7, 2, 8]" "\<lambda>p. (p = [], True)"] psteps_0
    by (auto simp: INT_MAX_def) (metis diff_zero)
qed

text \<open>
  The threaded sort: when every thread is created, every schedule of the threads ends, after the
  same number of steps, with the array sorted.
\<close>

theorem threadedMergeSort_sorts:
  assumes "2 * int (length a) \<le> INT_MAX"
  shows "\<exists>N. \<forall>m q a'. psteps m (threadedMergeSort (\<lambda>_. (True, True)) [] 0 (int (length a) - 1) 0) a q a' \<longrightarrow>
           m \<le> N \<and> psteps (N - m) q a' Halt (sort a)"
proof -
  have "yields (threadedMergeSort (\<lambda>_. (True, True)) [] 0 (int (length a) - 1) 0) a (sort a)"
    using sorts_rangeD [OF sorts_range_threadedMergeSort, of 0 "int (length a) - 1" "[]" a "[]" 0 "[]"] assms by simp
  then show ?thesis
    using race_free_determinate well_behaved_threadedMergeSort unfolding well_behaved_def by metis
qed

theorem threadedMergeSort_sorts_witness:
  "\<exists>N. psteps N (threadedMergeSort (\<lambda>_. (True, True)) [] 0 4 0) [5, 3, 9, 1, 7] Halt [1, 3, 5, 7, 9]"
proof -
  have "sort [5, 3, 9, 1, 7 :: int] = [1, 3, 5, 7, 9]" by simp
  then show ?thesis
    using threadedMergeSort_sorts [of "[5, 3, 9, 1, 7]"] psteps_0
    by (auto simp: INT_MAX_def) (metis diff_zero)
qed

lemma run_sort_sorts:
  "sorts_range (sorter (int (length a) - 1)) 0 (int (length a) - 1) \<Longrightarrow>
   run_sort sorter a = Some (sort a, checkArr (sort a) (int (length a)))"
  using sorts_rangeD [of "sorter (int (length a) - 1)" 0 "int (length a) - 1" "[]" a "[]"]
  by (auto simp: run_sort_def yields_def)

lemma checkArr_out_of_bounds: "2 \<le> n \<Longrightarrow> checkArr a n = None"
  by (simp add: checkArr_def checkArr_from.simps [of 0] in_arr_def)

text \<open>
  The three runs print the same sorted array, but the check that follows reads \<^verbatim>\<open>a[-1]\<close>: with two
  or more elements no defined value is ever stored in the flags that report success.
\<close>

theorem runs_sort_but_check_faults:
  assumes "2 \<le> length a" "2 * int (length a) \<le> INT_MAX"
  shows "runNormal a = Some (sort a, None) \<and> runMultiProcess forks a = Some (sort a, None)
    \<and> runMultiThread (\<lambda>_. (True, True)) a = Some (sort a, None)"
  using assms unfolding runNormal_def runMultiProcess_def runMultiThread_def
  by (simp add: run_sort_sorts sorts_range_mergeSort sorts_range_concurrentMergeSort
      sorts_range_threadedMergeSort checkArr_out_of_bounds)

theorem runs_sort_but_check_faults_witness:
  "runNormal [4, 2] = Some ([2, 4], None)"
  using runs_sort_but_check_faults [of "[4, 2]" "\<lambda>_. (False, True)"] by (simp add: INT_MAX_def)

end
