(* ===== verification/FileReverse.thy ===== *)
theory FileReverse
  imports Prelude
begin

unbundle bit_operations_syntax

text \<open>
  The first assignment: \<^verbatim>\<open>Q1.c\<close> writes the reversal of a file to \<^verbatim>\<open>./Assignment/\<close>, reading the file
  in chunks from its end; \<^verbatim>\<open>Q2.c\<close> checks that one file is the reversal of another and reports the
  permissions. A directory tree is a map from path names to files; a file has a mode and bytes.
  Which calls of the operating system fail is an argument. A write to a regular file stores all
  its bytes or fails. What the programs write to standard output is a list of lines; the progress
  display and the messages on standard error are left out.
\<close>

section \<open>Data\<close>

record stored_file =
  sf_mode :: uint
  sf_data :: "uchar list"

type_synonym tree = "string \<Rightarrow> stored_file option"

text \<open>Which calls succeed: the arguments are the number of bytes done before the call.\<close>

record calls =
  can_open :: bool
  can_mkdir :: bool
  can_create :: bool
  lseek_ok :: "int \<Rightarrow> bool"
  read_ok :: "int \<Rightarrow> bool"
  write_ok :: "int \<Rightarrow> bool"

definition S_IFREG :: uint where "S_IFREG = 0x8000"
definition S_IFDIR :: uint where "S_IFDIR = 0x4000"

definition read_speed :: int where "read_speed = 1000000"

section \<open>Q1: writing the reversal\<close>

function reverse_loop :: "'a list \<Rightarrow> int \<Rightarrow> int \<Rightarrow> 'a list" where
  "reverse_loop buff l r =
     (if l < r
      then let t = buff ! nat l;
               buff = buff[nat l := buff ! nat r];
               buff = buff[nat r := t]
           in reverse_loop buff (l + 1) (r - 1)
      else buff)"
  by pat_completeness auto
termination by (relation "measure (\<lambda>(_, l, r). nat (r - l))") auto

declare reverse_loop.simps [simp del]

definition reverse_buffer :: "'a list \<Rightarrow> int \<Rightarrow> 'a list" where
  "reverse_buffer buff sz = reverse_loop buff 0 (sz - 1)"

definition mini :: "int \<Rightarrow> int \<Rightarrow> int" where
  "mini a b = (if a < b then a else b)"

definition max_ll :: "int \<Rightarrow> int \<Rightarrow> int" where
  "max_ll a b = (if a > b then a else b)"

text \<open>\<open>read\<close> of at most \<open>n\<close> bytes at an offset of a regular file.\<close>

definition read_at :: "'a list \<Rightarrow> int \<Rightarrow> int \<Rightarrow> 'a list" where
  "read_at data pos n = take (nat n) (drop (nat pos) data)"

text \<open>
  The copying loop. The result says whether the loop ran to its end or gave up, and what had been
  written by then; a loop that never ends has no result.
\<close>

partial_function (option) reverse_copy ::
    "calls \<Rightarrow> int \<Rightarrow> uchar list \<Rightarrow> int \<Rightarrow> int \<Rightarrow> int \<Rightarrow> uchar list \<Rightarrow> (bool \<times> uchar list) option" where
  "reverse_copy c sp data total_bytes bytes_read curr_location out =
     (if bytes_read < total_bytes
      then if \<not> lseek_ok c bytes_read then Some (False, out)
      else if \<not> read_ok c bytes_read then Some (False, out)
      else let to_read = mini (total_bytes - bytes_read) sp;
               buff = read_at data curr_location to_read;
               size = int (length buff);
               buff = reverse_buffer buff size
           in if \<not> write_ok c bytes_read then Some (False, out)
              else reverse_copy c sp data total_bytes (bytes_read + size) (max_ll 0 (curr_location - size)) (out @ buff)
      else Some (True, out))"

text \<open>
  The name after the last slash, as the loop over the path computes it: \<open>name\<close> is overwritten
  with the rest of the path after each slash.
\<close>

fun base_name_from :: "string \<Rightarrow> string \<Rightarrow> string" where
  "base_name_from name [] = name"
| "base_name_from name (c # rest) = base_name_from (if c = CHR ''/'' then rest else name) rest"

definition base_name :: "string \<Rightarrow> string" where
  "base_name pathname = base_name_from pathname pathname"

datatype outcome = Exit int | Overflow

definition NAME_BUF :: nat where "NAME_BUF = 1000"

definition out_name :: "string \<Rightarrow> string" where
  "out_name filename = ''./Assignment/'' @ filename"

definition make_directory :: "calls \<Rightarrow> tree \<Rightarrow> tree" where
  "make_directory c fs =
     (if can_mkdir c \<and> fs ''./Assignment'' = None
      then fs(''./Assignment'' \<mapsto> \<lparr>sf_mode = S_IFDIR OR 0x1C0, sf_data = []\<rparr>) else fs)"

text \<open>
  \<open>main\<close>. Copying a string that does not fit into \<open>name\<close> or \<open>new_file\<close> runs over the array. The
  input file is open before the output file is removed, so the loop reads the bytes that \<open>stat\<close>
  saw even when the two names are the same; when it could not be opened the first \<open>lseek\<close> fails. An
  old output file is removed; when the new one cannot be created every \<open>write\<close> fails.
\<close>

definition reverse_main :: "calls \<Rightarrow> string list \<Rightarrow> tree \<Rightarrow> (outcome \<times> tree) option" where
  "reverse_main c argv fs =
     (if length argv < 2 then Some (Exit 1, fs)
      else let pathname = argv ! 1; filename = base_name pathname in
        if NAME_BUF \<le> length pathname then Some (Overflow, fs)
        else case fs pathname of None \<Rightarrow> Some (Exit 1, fs)
        | Some f \<Rightarrow>
            if sf_mode f AND S_IFREG = 0 then Some (Exit 1, fs)
            else if NAME_BUF \<le> length (out_name filename) then Some (Overflow, fs)
            else let new_file = out_name filename;
                     total_bytes = int (length (sf_data f));
                     curr_location = max_ll 0 (total_bytes - read_speed);
                     fs = (make_directory c fs)(new_file := None);
                     c = (if can_open c then c else c\<lparr>lseek_ok := \<lambda>_. False\<rparr>);
                     c = (if can_create c then c else c\<lparr>write_ok := \<lambda>_. False\<rparr>)
                 in map_option (\<lambda>(done, out).
                      (Exit (if done then 0 else 1),
                       if can_create c then fs(new_file \<mapsto> \<lparr>sf_mode = S_IFREG OR 0x180, sf_data = out\<rparr>) else fs))
                    (reverse_copy c read_speed (sf_data f) total_bytes 0 curr_location []))"

section \<open>Q2: checking the reversal\<close>

fun same_upto :: "'a list \<Rightarrow> 'a list \<Rightarrow> nat \<Rightarrow> nat \<Rightarrow> bool" where
  "same_upto b1 b2 i 0 = True"
| "same_upto b1 b2 i (Suc n) = (if b1 ! i \<noteq> b2 ! i then False else same_upto b1 b2 (i + 1) n)"

text \<open>
  The comparison. A file that could not be opened is \<open>None\<close>: \<open>lseek\<close> on it fails, and \<open>read\<close> of it
  returns -1, which differs from what the other file gives.
\<close>

partial_function (option) check_loop :: "int \<Rightarrow> uchar list \<Rightarrow> uchar list \<Rightarrow> int \<Rightarrow> int \<Rightarrow> int option" where
  "check_loop sp old new total_bytes bytes_read =
     (if bytes_read < total_bytes
      then let bytes_to_read = mini (total_bytes - bytes_read) sp;
               buff1 = read_at old bytes_read bytes_to_read;
               buff2 = read_at new (max_ll (total_bytes - bytes_read - sp) 0) bytes_to_read;
               size1 = int (length buff1)
           in if size1 \<noteq> int (length buff2) then Some 0
              else if \<not> same_upto (reverse_buffer buff1 size1) buff2 0 (nat size1) then Some 0
              else check_loop sp old new total_bytes (bytes_read + size1)
      else Some 1)"

definition check :: "uchar list option \<Rightarrow> uchar list option \<Rightarrow> int \<Rightarrow> int option" where
  "check old new total_bytes =
     (if total_bytes \<le> 0 then Some 1
      else case new of None \<Rightarrow> Some 0
      | Some n \<Rightarrow> (case old of None \<Rightarrow> Some 0 | Some d \<Rightarrow> check_loop read_speed d n total_bytes 0))"

definition print_pattern :: string where
  "print_pattern = replicate 22 (CHR ''*'') @ [CHR 0x0A]"

definition flags :: "uint list" where
  "flags = [0x100, 0x80, 0x40, 0x20, 0x10, 0x8, 0x4, 0x2, 0x1]"

definition entity :: "string list" where
  "entity = [''User'', ''User'', ''User'', ''Group'', ''Group'', ''Group'', ''Others'', ''Others'', ''Others'']"

definition solve_line :: "string \<Rightarrow> uint \<Rightarrow> nat \<Rightarrow> string" where
  "solve_line filename mode i =
     (let verd = (if mode AND flags ! i \<noteq> 0 then ''Yes'' else ''No'');
          per_type = (if i mod 3 = 0 then ''read'' else if i mod 3 = 1 then ''write'' else ''execute'')
      in entity ! i @ '' has '' @ per_type @ '' permission on '' @ filename @ '': '' @ verd @ [CHR 0x0A])"

definition solve :: "string \<Rightarrow> uint \<Rightarrow> string list" where
  "solve filename mode = map (solve_line filename mode) [0..<9] @ [print_pattern]"

definition verdict_line :: "bool \<Rightarrow> string" where
  "verdict_line b = ''Whether file contents are reversed in newfile: '' @ (if b then ''Yes'' else ''No'') @ [CHR 0x0A]"

definition directory_line :: "bool \<Rightarrow> string" where
  "directory_line b = ''Directory is created: '' @ (if b then ''Yes'' else ''No'') @ [CHR 0x0A]"

definition permissions :: "string \<Rightarrow> stored_file option \<Rightarrow> string list" where
  "permissions name f = (case f of None \<Rightarrow> [] | Some x \<Rightarrow> solve name (sf_mode x))"

text \<open>
  The condition of \<open>main\<close>: both files exist, have one size, and \<open>check\<close> accepts them. \<open>readable\<close>
  says which of the existing files can be opened.
\<close>

definition check_verdict :: "(string \<Rightarrow> bool) \<Rightarrow> tree \<Rightarrow> string \<Rightarrow> string \<Rightarrow> int option" where
  "check_verdict readable fs oldfile newfile =
     (let contents = (\<lambda>name f. if readable name then Some (sf_data f) else None)
      in case fs newfile of None \<Rightarrow> Some 0
         | Some n \<Rightarrow> (case fs oldfile of None \<Rightarrow> Some 0
           | Some d \<Rightarrow>
               if length (sf_data d) = length (sf_data n)
               then check (contents oldfile d) (contents newfile n) (int (length (sf_data n)))
               else Some 0))"

definition check_main :: "(string \<Rightarrow> bool) \<Rightarrow> string list \<Rightarrow> tree \<Rightarrow> (int \<times> string list) option" where
  "check_main readable args fs =
     (if length args < 4 then Some (1, [])
      else
        let oldfile = args ! 1; newfile = args ! 2; stats_dir = fs (args ! 3);
            drr = (case stats_dir of None \<Rightarrow> False | Some d \<Rightarrow> sf_mode d AND S_IFDIR \<noteq> 0)
        in map_option (\<lambda>v. (0,
             [verdict_line (v \<noteq> 0), directory_line drr, print_pattern]
             @ permissions ''newfile'' (fs newfile) @ permissions ''oldfile'' (fs oldfile)
             @ (if drr then permissions ''directory'' stats_dir else [])))
           (check_verdict readable fs oldfile newfile))"

section \<open>Reversing in place\<close>

text \<open>The invariant of the swapping loop: outside of the window the buffer is reversed already.\<close>

lemma reverse_loop_nth:
  assumes "0 \<le> l" "l + r = int (length xs) - 1" "l \<le> r + 1" "length buff = length xs"
    and "\<And>i. i < length xs \<Longrightarrow> buff ! i = (if l \<le> int i \<and> int i \<le> r then xs ! i else rev xs ! i)"
  shows "reverse_loop buff l r = rev xs"
  using assms
proof (induction buff l r rule: reverse_loop.induct)
  case (1 buff l r)
  show ?case
  proof (cases "l < r")
    case True
    let ?b = "buff[nat l := buff ! nat r, nat r := buff ! nat l]"
    have lr: "nat l < length xs" "nat r < length xs" "nat l \<noteq> nat r" "length xs - Suc (nat l) = nat r" "length xs - Suc (nat r) = nat l"
      using True 1(2-4) by auto
    have b: "buff ! nat l = xs ! nat l" "buff ! nat r = xs ! nat r" using 1(6) [OF lr(1)] 1(6) [OF lr(2)] True 1(2) by auto
    have "reverse_loop ?b (l + 1) (r - 1) = rev xs"
    proof (rule 1(1) [OF True refl refl refl])
      fix i assume i: "i < length xs"
      show "?b ! i = (if l + 1 \<le> int i \<and> int i \<le> r - 1 then xs ! i else rev xs ! i)"
      proof (cases "i = nat l \<or> i = nat r")
        case True
        then show ?thesis using lr b 1(2,5) by (auto simp: nth_list_update rev_nth)
      next
        case False
        then have "(l + 1 \<le> int i \<and> int i \<le> r - 1) = (l \<le> int i \<and> int i \<le> r)" using 1(2) True by auto
        with False 1(6) [OF i] show ?thesis by simp
      qed
    qed (use True 1(2-5) in auto)
    with True show ?thesis by (simp add: reverse_loop.simps [of buff])
  next
    case False
    have "buff = rev xs"
    proof (rule nth_equalityI)
      fix i assume "i < length buff"
      moreover from this have "l \<le> int i \<and> int i \<le> r \<Longrightarrow> length xs - Suc i = i" using False 1(3,4,5) by auto
      ultimately show "buff ! i = rev xs ! i" using 1(5,6) by (auto simp: rev_nth split: if_splits)
    qed (use 1(5) in simp)
    with False show ?thesis by (simp add: reverse_loop.simps)
  qed
qed

lemma reverse_buffer_rev: "reverse_buffer xs (int (length xs)) = rev xs"
  unfolding reverse_buffer_def by (rule reverse_loop_nth) auto


section \<open>The copying loop\<close>

text \<open>One round of either loop: the chunk that ends where the bytes done so far begin.\<close>

lemma rev_chunk:
  assumes "b + k \<le> length xs"
  shows "take b (rev xs) @ rev (take k (drop (length xs - b - k) xs)) = take (b + k) (rev xs)"
proof -
  have "take (b + k) (rev xs) = take b (rev xs) @ take k (drop b (rev xs))" by (simp add: take_add)
  moreover have "take k (drop b (rev xs)) = rev (take k (drop (length xs - b - k) xs))"
    using assms by (simp add: drop_rev take_rev drop_take)
  ultimately show ?thesis by simp
qed

lemma chunk_size:
  assumes "0 < sp" "b < length xs" "k = nat (mini (int (length xs) - int b) sp)"
  shows "0 < k" "b + k \<le> length xs"
    "nat (max_ll 0 (int (length xs) - int b - sp)) = length xs - b - k"
    "length (take k (drop (length xs - b - k) xs)) = k"
    "max_ll 0 (max_ll 0 (int (length xs) - int b - sp) - int k) = max_ll 0 (int (length xs) - int (b + k) - sp)"
  using assms by (auto simp: mini_def max_ll_def split: if_splits)

lemma reverse_copy_eq:
  assumes "0 < sp" "b \<le> length xs"
  shows "\<exists>fin n. reverse_copy c sp xs (int (length xs)) (int b) (max_ll 0 (int (length xs) - int b - sp)) (take b (rev xs))
      = Some (fin, take n (rev xs)) \<and> (fin \<longrightarrow> n = length xs) \<and>
    ((\<forall>k. lseek_ok c k \<and> read_ok c k \<and> write_ok c k) \<longrightarrow> fin)"
  using assms(2)
proof (induction "length xs - b" arbitrary: b rule: less_induct)
  case less
  let ?n = "int (length xs)" and ?curr = "max_ll 0 (int (length xs) - int b - sp)"
  note eq = reverse_copy.simps [of c sp xs ?n "int b" ?curr "take b (rev xs)"]
  show ?case
  proof (cases "b < length xs \<and> lseek_ok c (int b) \<and> read_ok c (int b) \<and> write_ok c (int b)")
    case True
    define k where "k = nat (mini (?n - int b) sp)"
    note ch = chunk_size [OF assms(1) conjunct1 [OF True] k_def]
    define chunk where "chunk = take k (drop (length xs - b - k) xs)"
    have rd: "read_at xs ?curr (mini (?n - int b) sp) = chunk" by (simp add: read_at_def ch(3) k_def [symmetric] chunk_def)
    have len: "length chunk = k" using ch(4) by (simp add: chunk_def)
    have rv: "reverse_buffer chunk (int k) = rev chunk" using reverse_buffer_rev [of chunk] len by simp
    have out: "take b (rev xs) @ rev chunk = take (b + k) (rev xs)" unfolding chunk_def by (rule rev_chunk [OF ch(2)])
    have pos: "int b + int k = int (b + k)" by simp
    have "reverse_copy c sp xs ?n (int b) ?curr (take b (rev xs)) =
      reverse_copy c sp xs ?n (int (b + k)) (max_ll 0 (?n - int (b + k) - sp)) (take (b + k) (rev xs))"
      unfolding eq Let_def rd len rv out ch(5) pos using True by simp
    with less.hyps [of "b + k"] ch(1,2) show ?thesis by auto
  next
    case False
    then have "reverse_copy c sp xs ?n (int b) ?curr (take b (rev xs)) = Some (\<not> b < length xs, take b (rev xs))"
      by (subst eq) (simp add: Let_def)
    with False less.prems show ?thesis by fastforce
  qed
qed

lemma reverse_copy_from_start:
  assumes "0 < sp"
  shows "\<exists>fin n. reverse_copy c sp xs (int (length xs)) 0 (max_ll 0 (int (length xs) - sp)) []
      = Some (fin, take n (rev xs)) \<and> (fin \<longrightarrow> n = length xs) \<and>
    ((\<forall>k. lseek_ok c k \<and> read_ok c k \<and> write_ok c k) \<longrightarrow> fin)"
  using reverse_copy_eq [OF assms, of 0 xs c] by simp

section \<open>The comparison\<close>

lemma same_upto_iff: "same_upto b1 b2 i n \<longleftrightarrow> (\<forall>j. i \<le> j \<and> j < i + n \<longrightarrow> b1 ! j = b2 ! j)"
proof (induction n arbitrary: i)
  case (Suc n)
  show ?case
    by (simp add: Suc) (metis Suc_le_eq le_eq_less_or_eq less_add_Suc1 order.strict_implies_order)
qed auto

lemma same_upto_eq: "length b1 = length b2 \<Longrightarrow> same_upto b1 b2 0 (length b1) \<longleftrightarrow> b1 = b2"
  by (auto simp: same_upto_iff list_eq_iff_nth_eq)

lemma check_loop_eq:
  assumes "0 < sp" "length new = length old" "b \<le> length old"
  shows "check_loop sp old new (int (length old)) (int b)
    = Some (if take (length old - b) new = rev (drop b old) then 1 else 0)"
  using assms(3)
proof (induction "length old - b" arbitrary: b rule: less_induct)
  case less
  let ?n = "int (length old)"
  note eq = check_loop.simps [of sp old new ?n "int b"]
  show ?case
  proof (cases "b < length old")
    case True
    define k where "k = nat (mini (?n - int b) sp)"
    have k: "0 < k" "b + k \<le> length old" "nat (max_ll (?n - int b - sp) 0) = length old - b - k"
      using True assms(1) by (auto simp: k_def mini_def max_ll_def split: if_splits)
    define b1 where "b1 = take k (drop b old)"
    define b2 where "b2 = take k (drop (length old - b - k) new)"
    have rd: "read_at old (int b) (mini (?n - int b) sp) = b1"
      "read_at new (max_ll (?n - int b - sp) 0) (mini (?n - int b) sp) = b2"
      by (simp_all add: read_at_def k(3) k_def [symmetric] b1_def b2_def)
    have len: "length b1 = k" "length b2 = k" using k assms(2) by (auto simp: b1_def b2_def)
    have rv: "reverse_buffer b1 (int (length b1)) = rev b1" by (rule reverse_buffer_rev)
    have sm: "same_upto (rev b1) b2 0 k \<longleftrightarrow> rev b1 = b2" using same_upto_eq [of "rev b1" b2] len by simp
    have new: "take (length old - b) new = take (length old - (b + k)) new @ b2"
      using k(2) take_add [of "length old - (b + k)" k new] by (simp add: b2_def)
    have old: "rev (drop b old) = rev (drop (b + k) old) @ rev b1"
      by (simp add: b1_def rev_append [symmetric] del: rev_append) (metis append_take_drop_id drop_drop add.commute)
    have ih: "check_loop sp old new ?n (int (b + k))
      = Some (if take (length old - (b + k)) new = rev (drop (b + k) old) then 1 else 0)"
      by (rule less.hyps) (use k in auto)
    have lens: "length (take (length old - (b + k)) new) = length (rev (drop (b + k) old))" using assms(2) by simp
    have "check_loop sp old new ?n (int b) = (if rev b1 = b2 then check_loop sp old new ?n (int (b + k)) else Some 0)"
      unfolding eq Let_def rd rv using True len sm by simp
    with ih lens show ?thesis by (auto simp: new old)
  next
    case False
    then show ?thesis using less.prems by (subst eq) simp
  qed
qed

lemma check_iff:
  assumes "length new = length old"
  shows "check (Some old) (Some new) (int (length new)) = Some (if new = rev old then 1 else 0)"
  using check_loop_eq [of read_speed new old 0] assms by (auto simp: check_def read_speed_def)

section \<open>Properties\<close>

lemma base_name_from_length: "length (base_name_from name p) \<le> max (length name) (length p)"
proof (induction p arbitrary: name)
  case (Cons a p)
  show ?case using Cons [of p] Cons [of name] by auto
qed simp


definition good_calls :: calls where
  "good_calls = \<lparr>can_open = True, can_mkdir = True, can_create = True, lseek_ok = \<lambda>_. True, read_ok = \<lambda>_. True, write_ok = \<lambda>_. True\<rparr>"




end
