(* ===== verification/Grep.thy ===== *)
theory Grep
  imports Prelude
begin

text \<open>
  The text search program \<^verbatim>\<open>grep.c\<close>. C strings are lists of the characters before the terminating
  zero. What a descriptor delivers is a list of pieces: one call of \<open>read\<close> takes from the first
  piece only, as on a pipe or the console, and a regular file is a single piece. The part of \<open>buf\<close>
  that is in use is a list.
\<close>

section \<open>The matcher\<close>

function (sequential) matchhere :: "string \<Rightarrow> string \<Rightarrow> bool"
  and matchstar :: "char \<Rightarrow> string \<Rightarrow> string \<Rightarrow> bool" where
  "matchhere [] text = True"
| "matchhere (r # re) text =
     (if re \<noteq> [] \<and> hd re = CHR ''*'' then matchstar r (tl re) text
      else if r = CHR ''$'' \<and> re = [] then text = []
      else if text \<noteq> [] \<and> (r = CHR ''.'' \<or> r = hd text) then matchhere re (tl text)
      else False)"
| "matchstar c re text =
     (if matchhere re text then True
      else if text \<noteq> [] \<and> (hd text = c \<or> c = CHR ''.'') then matchstar c re (tl text)
      else False)"
  by pat_completeness auto
termination
proof (relation "measures [\<lambda>x. case x of Inl (re, _) \<Rightarrow> 2 * length re | Inr (_, re, _) \<Rightarrow> Suc (2 * length re),
      \<lambda>x. case x of Inl (_, text) \<Rightarrow> length text | Inr (_, _, text) \<Rightarrow> length text]", goal_cases)
  case 1
  show ?case by simp
next
  case (2 r re "text")
  then show ?case by (cases re) simp_all
qed simp_all

declare matchhere.simps(2) [simp del] matchstar.simps [simp del]

text \<open>The loop of \<open>match\<close> also looks at the empty string at the end of the text.\<close>

fun match_from :: "string \<Rightarrow> string \<Rightarrow> bool" where
  "match_from re [] = matchhere re []"
| "match_from re (t # text) = (if matchhere re (t # text) then True else match_from re text)"

definition match :: "string \<Rightarrow> string \<Rightarrow> bool" where
  "match re text = (if re \<noteq> [] \<and> hd re = CHR ''^'' then matchhere (tl re) text else match_from re text)"

section \<open>The program\<close>

definition BUFSIZE :: nat where "BUFSIZE = 1024"

fun read_piece :: "nat \<Rightarrow> string list \<Rightarrow> string \<times> string list" where
  "read_piece n [] = ([], [])"
| "read_piece n (c # cs) = (if length c \<le> n then (c, cs) else (take n c, drop n c # cs))"

definition LF :: char where "LF = CHR 0x0A"

text \<open>\<open>strchr(p, '\n')\<close> on the text in use, followed by a zero: the text before the newline and after it.\<close>

fun strchr_newline :: "string \<Rightarrow> (string \<times> string) option" where
  "strchr_newline [] = None"
| "strchr_newline (c # p) =
     (if c = CHR 0x00 then None else if c = LF then Some ([], p)
      else map_option (\<lambda>(l, q). (c # l, q)) (strchr_newline p))"

lemma strchr_newline_length: "strchr_newline p = Some (l, q) \<Longrightarrow> length q < length p"
  by (induction p arbitrary: l q) (auto split: if_splits intro: less_SucI)

text \<open>The inner loop: the text left over and what is written to standard output.\<close>

function scan_lines :: "string \<Rightarrow> string \<Rightarrow> string \<times> string" where
  "scan_lines pattern p =
     (case strchr_newline p of None \<Rightarrow> (p, [])
      | Some (line, q) \<Rightarrow>
          (case scan_lines pattern q of (rest, out) \<Rightarrow>
             (rest, (if match pattern line then line @ [LF] else []) @ out)))"
  by pat_completeness auto
termination by (relation "measure (\<lambda>(_, p). length p)") (auto dest: strchr_newline_length)

declare scan_lines.simps [simp del]

definition kept :: "string \<Rightarrow> string \<Rightarrow> string" where
  "kept buf p = (if length p = length buf then [] else p)"

function grep :: "string \<Rightarrow> string \<Rightarrow> string list \<Rightarrow> string" where
  "grep pattern held input =
     (case read_piece (BUFSIZE - length held - 1) input of (piece, input') \<Rightarrow>
        if piece = [] then []
        else let buf = held @ piece
             in case scan_lines pattern buf of (p, out) \<Rightarrow> out @ grep pattern (kept buf p) input')"
  by pat_completeness auto
termination
proof (relation "measure (\<lambda>(_, _, input). sum_list (map length input))", goal_cases)
  case (2 pattern held input piece input')
  then show ?case by (cases input) (auto split: if_splits)
qed simp

declare grep.simps [simp del]

text \<open>
  \<open>main\<close>: \<open>contents\<close> is what the descriptor that \<open>open\<close> returns for a path delivers, \<open>None\<close> when
  \<open>open\<close> fails; \<open>stdin\<close> is what descriptor 0 delivers. The result is what is written, with the
  descriptor it is written to.
\<close>

fun grep_files :: "(string \<Rightarrow> string list option) \<Rightarrow> string \<Rightarrow> string list \<Rightarrow> (nat \<times> string) list" where
  "grep_files contents pattern [] = []"
| "grep_files contents pattern (f # fs) =
     (case contents f of None \<Rightarrow> [(1, ''grep: cannot open '' @ f @ [LF])]
      | Some input \<Rightarrow> (1, grep pattern [] input) # grep_files contents pattern fs)"

definition grep_main :: "(string \<Rightarrow> string list option) \<Rightarrow> string list \<Rightarrow> string list \<Rightarrow> (nat \<times> string) list" where
  "grep_main contents stdin argv =
     (if length argv \<le> 1 then [(2, ''usage: grep pattern [file ...]'' @ [LF])]
      else if length argv \<le> 2 then [(1, grep (argv ! 1) [] stdin)]
      else grep_files contents (argv ! 1) (drop 2 argv))"

section \<open>The language of a pattern\<close>

text \<open>
  A pattern without its anchors is a sequence of items, each a set of strings: one character, or
  any number of repetitions of it; a dot stands for every character.
\<close>

datatype item = One char | Many char

definition chars :: "char \<Rightarrow> char set" where
  "chars c = (if c = CHR ''.'' then UNIV else {c})"

fun item_lang :: "item \<Rightarrow> string set" where
  "item_lang (One c) = {[x] | x. x \<in> chars c}"
| "item_lang (Many c) = lists (chars c)"

fun lang :: "item list \<Rightarrow> string set" where
  "lang [] = {[]}"
| "lang (i # its) = {u @ v | u v. u \<in> item_lang i \<and> v \<in> lang its}"

text \<open>The items of a pattern, and whether it ends with an anchor.\<close>

fun items :: "string \<Rightarrow> item list \<times> bool" where
  "items [] = ([], False)"
| "items [r] = (if r = CHR ''$'' then ([], True) else ([One r], False))"
| "items (r # s # re) =
     (if s = CHR ''*'' then (case items re of (its, a) \<Rightarrow> (Many r # its, a))
      else (case items (s # re) of (its, a) \<Rightarrow> (One r # its, a)))"

definition starts_in :: "item list \<times> bool \<Rightarrow> string \<Rightarrow> bool" where
  "starts_in p text \<longleftrightarrow> (\<exists>u v. text = u @ v \<and> u \<in> lang (fst p) \<and> (snd p \<longrightarrow> v = []))"

lemma starts_in_Nil [simp]: "starts_in ([], a) text \<longleftrightarrow> (a \<longrightarrow> text = [])"
  by (auto simp: starts_in_def)

lemma starts_in_One: "starts_in (One c # its, a) text \<longleftrightarrow> text \<noteq> [] \<and> hd text \<in> chars c \<and> starts_in (its, a) (tl text)"
proof
  assume "starts_in (One c # its, a) text"
  then obtain w v where w: "text = w @ v" "w \<in> lang (One c # its)" "a \<longrightarrow> v = []" unfolding starts_in_def fst_conv snd_conv by blast
  from w(2) obtain x u where "w = x # u" "x \<in> chars c" "u \<in> lang its" by auto
  with w have "text = (x # u) @ v" "x \<in> chars c" "u \<in> lang its" "a \<longrightarrow> v = []" by auto
  then show "text \<noteq> [] \<and> hd text \<in> chars c \<and> starts_in (its, a) (tl text)" by (auto simp: starts_in_def)
next
  assume r: "text \<noteq> [] \<and> hd text \<in> chars c \<and> starts_in (its, a) (tl text)"
  then obtain u v where "tl text = u @ v" "u \<in> lang its" "a \<longrightarrow> v = []" by (auto simp: starts_in_def)
  moreover from this r have "[hd text] @ u \<in> lang (One c # its)" unfolding lang.simps item_lang.simps by blast
  ultimately have "text = ([hd text] @ u) @ v" "[hd text] @ u \<in> lang (One c # its)" "a \<longrightarrow> v = []"
    using r by (auto simp: neq_Nil_conv)
  then show "starts_in (One c # its, a) text" unfolding starts_in_def by (metis fst_conv snd_conv)
qed

lemma starts_in_Many: "starts_in (Many c # its, a) text \<longleftrightarrow>
    (\<exists>u v. text = u @ v \<and> u \<in> lists (chars c) \<and> starts_in (its, a) v)"
  by (simp add: starts_in_def) (metis append.assoc)

lemma starts_in_Many_unfold: "starts_in (Many c # its, a) text \<longleftrightarrow>
    starts_in (its, a) text \<or> (text \<noteq> [] \<and> hd text \<in> chars c \<and> starts_in (Many c # its, a) (tl text))"
proof
  assume "starts_in (Many c # its, a) text"
  then obtain u v where t: "text = u @ v" "u \<in> lists (chars c)" "starts_in (its, a) v" by (auto simp: starts_in_Many)
  show "starts_in (its, a) text \<or> (text \<noteq> [] \<and> hd text \<in> chars c \<and> starts_in (Many c # its, a) (tl text))"
    using t by (cases u) (auto simp: starts_in_Many)
next
  assume "starts_in (its, a) text \<or> (text \<noteq> [] \<and> hd text \<in> chars c \<and> starts_in (Many c # its, a) (tl text))"
  then show "starts_in (Many c # its, a) text"
  proof
    assume r: "text \<noteq> [] \<and> hd text \<in> chars c \<and> starts_in (Many c # its, a) (tl text)"
    then obtain u v where "tl text = u @ v" "u \<in> lists (chars c)" "starts_in (its, a) v" by (auto simp: starts_in_Many)
    with r have "text = (hd text # u) @ v \<and> hd text # u \<in> lists (chars c) \<and> starts_in (its, a) v" by (auto simp: neq_Nil_conv)
    then show "starts_in (Many c # its, a) text" unfolding starts_in_Many by blast
  qed (auto simp: starts_in_Many)
qed

lemma in_chars: "x \<in> chars c \<longleftrightarrow> c = CHR ''.'' \<or> c = x"
  by (auto simp: chars_def)

lemma matchhere_lang:
  "matchhere re text \<longleftrightarrow> starts_in (items re) text"
  "matchstar c re text \<longleftrightarrow> starts_in (Many c # fst (items re), snd (items re)) text"
proof (induction re "text" and c re "text" rule: matchhere_matchstar.induct)
  case (1 "text")
  show ?case by simp
next
  case (2 r re "text")
  show ?case
  proof (cases re)
    case Nil
    then show ?thesis by (auto simp: matchhere.simps(2) starts_in_One in_chars)
  next
    case (Cons s rs)
    show ?thesis
    proof (cases "s = CHR ''*''")
      case True
      then show ?thesis using 2(1) Cons by (simp add: matchhere.simps(2) split: prod.splits)
    next
      case False
      then show ?thesis using 2(2) Cons
        by (auto simp: matchhere.simps(2) starts_in_One in_chars split: prod.splits)
    qed
  qed
next
  case (3 c re "text")
  show ?case
    using 3 by (subst matchstar.simps, subst starts_in_Many_unfold) (auto simp: in_chars)
qed

lemma match_from_iff: "match_from re text \<longleftrightarrow> (\<exists>pre suf. text = pre @ suf \<and> matchhere re suf)"
proof (induction "text")
  case (Cons t "text")
  have "(\<exists>pre suf. t # text = pre @ suf \<and> matchhere re suf) \<longleftrightarrow>
    matchhere re (t # text) \<or> (\<exists>pre suf. text = pre @ suf \<and> matchhere re suf)"
    by (simp add: Cons_eq_append_conv) blast
  with Cons show ?case by simp
qed auto

text \<open>
  C8. The matcher decides its pattern language: a text matches exactly when some part of it is in
  the language of the pattern's items, where the part starts at the beginning of the text if the
  pattern starts with a caret and ends at the end of the text if the pattern ends with a dollar
  sign. A star repeats the character before it, a dot stands for every character, and the greedy
  looking recursion with its loops always ends.
\<close>

theorem match_decides_language:
  "match re text \<longleftrightarrow>
     (let anchored = re \<noteq> [] \<and> hd re = CHR ''^'';
          (its, at_end) = items (if anchored then tl re else re)
      in \<exists>u v w. text = u @ v @ w \<and> v \<in> lang its \<and> (anchored \<longrightarrow> u = []) \<and> (at_end \<longrightarrow> w = []))"
  by (auto simp: match_def match_from_iff matchhere_lang starts_in_def Let_def split: prod.splits)

theorem match_decides_language_witness:
  "match ''^a*b$'' ''aab'' \<and> ''aab'' \<in> lang [Many (CHR ''a''), One (CHR ''b'')]"
proof -
  have m: "match ''^a*b$'' ''aab''" by (simp add: match_def matchhere.simps(2) matchstar.simps)
  then show ?thesis using match_decides_language [of "''^a*b$''" "''aab''"] by (simp add: Let_def)
qed

section \<open>Searching a file\<close>

text \<open>The complete lines of a text, and what follows the last newline.\<close>

fun split_lines :: "string \<Rightarrow> string list \<times> string" where
  "split_lines [] = ([], [])"
| "split_lines (c # s) =
     (case split_lines s of (ls, rest) \<Rightarrow>
        if c = LF then ([] # ls, rest)
        else (case ls of [] \<Rightarrow> ([], c # rest) | l # ls \<Rightarrow> ((c # l) # ls, rest)))"

definition matching_lines :: "string \<Rightarrow> string \<Rightarrow> string" where
  "matching_lines pattern s = concat (map (\<lambda>l. l @ [LF]) (filter (match pattern) (fst (split_lines s))))"

lemma split_lines_no_newline: "LF \<notin> set s \<Longrightarrow> split_lines s = ([], s)"
  by (induction s) auto

lemma split_lines_line: "LF \<notin> set l \<Longrightarrow> split_lines (l @ LF # s) = (l # fst (split_lines s), snd (split_lines s))"
  by (induction l) (auto split: prod.splits)

lemma strchr_newline_None: "CHR 0x00 \<notin> set p \<Longrightarrow> strchr_newline p = None \<longleftrightarrow> LF \<notin> set p"
  by (induction p) auto

lemma strchr_newline_Some: "strchr_newline p = Some (l, q) \<Longrightarrow> p = l @ LF # q \<and> LF \<notin> set l"
  by (induction p arbitrary: l q) (auto split: if_splits)

lemma matching_lines_line: "LF \<notin> set l \<Longrightarrow>
    matching_lines pattern (l @ LF # s) = (if match pattern l then l @ [LF] else []) @ matching_lines pattern s"
  by (simp add: matching_lines_def split_lines_line)

lemma matching_lines_none [simp]: "LF \<notin> set s \<Longrightarrow> matching_lines pattern s = []"
  by (simp add: matching_lines_def split_lines_no_newline)

lemma scan_lines_spec:
  assumes "CHR 0x00 \<notin> set p"
  shows "\<exists>front. p = front @ fst (scan_lines pattern p) \<and> LF \<notin> set (fst (scan_lines pattern p)) \<and>
    (\<forall>s. matching_lines pattern (p @ s) = snd (scan_lines pattern p) @ matching_lines pattern (fst (scan_lines pattern p) @ s)) \<and>
    (LF \<in> set p \<longleftrightarrow> front \<noteq> []) \<and> (front = [] \<or> last front = LF)"
  using assms
proof (induction pattern p rule: scan_lines.induct)
  case (1 pattern p)
  show ?case
  proof (cases "strchr_newline p")
    case None
    then have "LF \<notin> set p" using 1(2) by (simp add: strchr_newline_None)
    with None show ?thesis by (simp add: scan_lines.simps [of pattern p])
  next
    case (Some lq)
    obtain l q where lq: "strchr_newline p = Some (l, q)" using Some by (cases lq) simp
    note p = strchr_newline_Some [OF lq]
    obtain rest out where r: "scan_lines pattern q = (rest, out)" by force
    obtain front where f: "q = front @ rest" "LF \<notin> set rest" "front = [] \<or> last front = LF"
      "\<forall>s. matching_lines pattern (q @ s) = out @ matching_lines pattern (rest @ s)"
      using 1(1) [OF lq refl] 1(2) p r by auto
    have e: "scan_lines pattern p = (rest, (if match pattern l then l @ [LF] else []) @ out)"
      by (simp add: scan_lines.simps [of pattern p] lq r)
    have "matching_lines pattern (p @ s) = snd (scan_lines pattern p) @ matching_lines pattern (rest @ s)" for s
      using p f(4) matching_lines_line [of l pattern "q @ s"] unfolding e by simp
    moreover have "p = (l @ LF # front) @ rest" using p f(1) by simp
    moreover have "LF \<in> set p" using p by simp
    ultimately show ?thesis using e f(2,3) by (intro exI [of _ "l @ LF # front"]) auto
  qed
qed

definition short_lines :: "string \<Rightarrow> bool" where
  "short_lines s \<longleftrightarrow> (\<forall>l \<in> set (fst (split_lines s)). length l < BUFSIZE - 1)"

lemma short_lines_line: "LF \<notin> set l \<Longrightarrow> short_lines (l @ LF # s) \<longleftrightarrow> length l < BUFSIZE - 1 \<and> short_lines s"
  by (simp add: short_lines_def split_lines_line)

lemma first_line: "LF \<in> set s \<Longrightarrow> \<exists>l q. s = l @ LF # q \<and> LF \<notin> set l"
  using split_list_first by fastforce

lemma short_lines_drop: "short_lines (front @ s) \<Longrightarrow> front = [] \<or> last front = LF \<Longrightarrow> short_lines s"
proof (induction "length front" arbitrary: front rule: less_induct)
  case less
  show ?case
  proof (cases "front = []")
    case False
    then have "LF \<in> set front" using less.prems(2) last_in_set by metis
    then obtain l q where q: "front = l @ LF # q" "LF \<notin> set l" using first_line by blast
    have "short_lines (q @ s)" using less.prems(1) q short_lines_line [of l "q @ s"] by simp
    moreover have "q = [] \<or> last q = LF" using less.prems(2) q by (cases "q = []") simp_all
    ultimately show ?thesis using less.hyps [of q] q by simp
  qed (use less in simp)
qed

lemma grep_end: "grep pattern held [] = []"
  by (simp add: grep.simps)

lemma grep_rest_of_file:
  assumes "LF \<notin> set held" "length held < BUFSIZE - 1" "CHR 0x00 \<notin> set (held @ data)" "short_lines (held @ data)"
  shows "grep pattern held [data] = matching_lines pattern (held @ data)"
  using assms
proof (induction "length data" arbitrary: held data rule: less_induct)
  case less
  define k where "k = BUFSIZE - length held - 1"
  define buf where "buf = held @ take k data"
  have k: "0 < k" "length held + k = BUFSIZE - 1" using less.prems(2) by (auto simp: k_def)
  have rd: "read_piece (BUFSIZE - length held - 1) [data] = (if length data \<le> k then (data, []) else (take k data, [drop k data]))"
    by (simp add: k_def)
  have whole: "held @ data = buf @ drop k data" by (simp add: buf_def)
  have nul: "CHR 0x00 \<notin> set buf" using less.prems(3) by (auto simp: buf_def dest: in_set_takeD)
  obtain p out where po: "scan_lines pattern buf = (p, out)" by force
  obtain front where f: "buf = front @ p" "LF \<notin> set p"
    "\<And>s. matching_lines pattern (buf @ s) = out @ matching_lines pattern (p @ s)"
    "LF \<in> set buf \<longleftrightarrow> front \<noteq> []" "front = [] \<or> last front = LF"
    using scan_lines_spec [OF nul, of pattern] po by auto
  show ?case
  proof (cases "data = []")
    case True
    then show ?thesis using less.prems(1) by (simp add: grep.simps)
  next
    case False
    show ?thesis
    proof (cases "length data \<le> k")
      case True
      then have "grep pattern held [data] = out"
        unfolding grep.simps [of pattern held "[data]"] rd using False po by (simp add: buf_def grep_end)
      moreover have "matching_lines pattern (held @ data) = out" using f(3) [of "[]"] f(2) True whole by simp
      ultimately show ?thesis by simp
    next
      case more: False
      have "take k data \<noteq> []" using more k(1) by auto
      then have step: "grep pattern held [data] = out @ grep pattern (kept buf p) [drop k data]"
        unfolding grep.simps [of pattern held "[data]"] rd using more po by (simp add: buf_def)
      have len: "length buf = BUFSIZE - 1" using more k by (simp add: buf_def)
      have "grep pattern (kept buf p) [drop k data] = matching_lines pattern (p @ drop k data)"
      proof (cases "front = []")
        case True
        have noLF: "LF \<notin> set (buf @ drop k data)"
        proof
          assume "LF \<in> set (buf @ drop k data)"
          then obtain l q where l: "buf @ drop k data = l @ LF # q" "LF \<notin> set l" using first_line by blast
          then have "length l < length buf" using less.prems(4) short_lines_line [of l q] whole len by simp
          then have "buf ! length l = LF" using l(1) by (metis nth_append nth_append_length)
          with \<open>length l < length buf\<close> True f(4) show False by (metis nth_mem)
        qed
        then have "short_lines (drop k data)" by (simp add: short_lines_def split_lines_no_newline)
        moreover have "CHR 0x00 \<notin> set (drop k data)" using less.prems(3) by (auto dest: in_set_dropD)
        ultimately have "grep pattern [] [drop k data] = matching_lines pattern (drop k data)"
          using less.hyps [of "drop k data" "[]"] more k(1) by (simp add: BUFSIZE_def)
        moreover have "kept buf p = []" using True f(1) by (simp add: kept_def)
        ultimately show ?thesis using noLF True f(1) by simp
      next
        case nonempty: False
        have "short_lines (p @ drop k data)"
          using less.prems(4) f(1,5) short_lines_drop [of front "p @ drop k data"] unfolding whole by simp
        moreover have "CHR 0x00 \<notin> set (p @ drop k data)" using nul f(1) less.prems(3) by (auto dest: in_set_dropD)
        moreover have "length p < BUFSIZE - 1" using len f(1) nonempty by (cases front) simp_all
        moreover have "kept buf p = p" using f(1) nonempty by (simp add: kept_def)
        ultimately show ?thesis using less.hyps [of "drop k data" p] more k(1) f(2) by simp
      qed
      with step f(3) [of "drop k data"] show ?thesis by (simp add: whole)
    qed
  qed
qed

text \<open>
  C30. Searching a regular file: when no line is longer than the program's buffer and the file has
  no zero bytes, the program, which reads the file in overlapping buffers, writes exactly the
  complete lines that match the pattern, in their order.
\<close>

theorem grep_file_matching_lines:
  assumes "CHR 0x00 \<notin> set data" "short_lines data"
  shows "grep_main (\<lambda>f. if f = path then Some [data] else None) stdin [''grep'', pattern, path]
    = [(1, matching_lines pattern data)]"
  using grep_rest_of_file [of "[]" data pattern] assms by (simp add: grep_main_def BUFSIZE_def)

theorem grep_file_matching_lines_witness:
  "grep_main (\<lambda>f. if f = ''x'' then Some [''ab'' @ [LF] @ ''b'' @ [LF]] else None) [] [''grep'', ''^b'', ''x'']
    = [(1, ''b'' @ [LF])]"
proof -
  have "matching_lines ''^b'' (''ab'' @ [LF] @ ''b'' @ [LF]) = ''b'' @ [LF]"
    by (simp add: matching_lines_def LF_def match_def matchhere.simps(2))
  then show ?thesis
    using grep_file_matching_lines [of "''ab'' @ [LF] @ ''b'' @ [LF]" "''x''" "[]" "''^b''"]
    by (simp add: short_lines_def LF_def BUFSIZE_def)
qed

text \<open>
  A line that arrives in two pieces is lost: when a read ends inside a line and the buffer
  holds no newline, the program drops what it has read although the buffer is not full, so that a
  matching line that a pipe delivers in two pieces is not written.
\<close>

theorem grep_loses_split_line:
  "grep ''^ab'' [] [''a'', ''b'' @ [LF]] = [] \<and> matching_lines ''^ab'' (''a'' @ ''b'' @ [LF]) = ''ab'' @ [LF]"
proof
  have "scan_lines ''^ab'' ''a'' = (''a'', [])" by (simp add: scan_lines.simps LF_def)
  moreover have "scan_lines ''^ab'' (''b'' @ [LF]) = ([], [])"
    by (simp add: scan_lines.simps LF_def match_def matchhere.simps(2))
  ultimately show "grep ''^ab'' [] [''a'', ''b'' @ [LF]] = []"
    by (simp add: grep.simps kept_def BUFSIZE_def)
  show "matching_lines ''^ab'' (''a'' @ ''b'' @ [LF]) = ''ab'' @ [LF]"
    by (simp add: matching_lines_def LF_def match_def matchhere.simps(2))
qed

end
