(* ===== verification/Shell.thy ===== *)
theory Shell
  imports Prelude
begin

text \<open>
  The shell of the teaching system, \<^verbatim>\<open>sh.c\<close>: its command parser and the system calls with which it
  runs a command. The parser's pointers \<open>*ps\<close> and \<open>es\<close> delimit the text that is left, which is a
  list here; a token is the text between \<open>q\<close> and \<open>eq\<close>, so that \<open>nulterminate\<close>, which writes the
  terminating zeros at the \<open>eq\<close> pointers, has nothing left to do. A call of \<open>panic\<close> is a failure.
\<close>

section \<open>Commands\<close>

datatype mode = O_RDONLY | O_WRONLY_CREATE

datatype cmd =
    EXEC "string list"
  | REDIR cmd string mode nat
  | PIPE cmd cmd
  | LIST cmd cmd
  | BACK cmd

definition MAXARGS :: nat where "MAXARGS = 10"

datatype parse_failure = SyntaxPanic string | Leftovers string | OutOfFuel

section \<open>Tokens\<close>

definition whitespace :: string where
  "whitespace = [CHR '' '', CHR 0x09, CHR 0x0D, CHR 0x0A, CHR 0x0B]"

definition symbols :: string where
  "symbols = ''<|>&;()''"

definition space :: "char \<Rightarrow> bool" where
  "space c \<longleftrightarrow> c \<in> set whitespace"

definition symbol :: "char \<Rightarrow> bool" where
  "symbol c \<longleftrightarrow> c \<in> set symbols"

definition skip_space :: "string \<Rightarrow> string" where
  "skip_space s = dropWhile space s"

definition word_char :: "char \<Rightarrow> bool" where
  "word_char c \<longleftrightarrow> \<not> space c \<and> \<not> symbol c"

text \<open>
  \<open>gettoken\<close> returns the kind of the token, its text, and the text after it. The kind is the
  character for a symbol, \<open>+\<close> for two greater signs, \<open>a\<close> for a word and zero at the end.
\<close>

definition gettoken :: "string \<Rightarrow> char \<times> string \<times> string" where
  "gettoken s =
     (let s = skip_space s
      in case s of [] \<Rightarrow> (CHR 0x00, [], [])
         | c # r \<Rightarrow>
             if c \<in> set ''|();&<'' then (c, [c], skip_space r)
             else if c = CHR ''>''
             then (if r \<noteq> [] \<and> hd r = CHR ''>'' then (CHR ''+'', ''>>'', skip_space (tl r)) else (c, [c], skip_space r))
             else (CHR ''a'', takeWhile word_char s, skip_space (dropWhile word_char s)))"

definition peek_tok :: "string \<Rightarrow> string \<Rightarrow> bool \<times> string" where
  "peek_tok s toks = (let s = skip_space s in (s \<noteq> [] \<and> hd s \<in> set toks, s))"

abbreviation after_token :: "string \<Rightarrow> string" where
  "after_token s \<equiv> snd (snd (gettoken s))"

lemma skip_space_length: "length (skip_space s) \<le> length s"
  by (simp add: skip_space_def length_dropWhile_le)

lemma peek_tok_length: "length (snd (peek_tok s toks)) \<le> length s"
  by (simp add: peek_tok_def Let_def skip_space_length)

lemma peek_tok_skips: "peek_tok s toks = (b, r) \<Longrightarrow> r = skip_space s \<and> (b \<longleftrightarrow> r \<noteq> [] \<and> hd r \<in> set toks)"
  by (auto simp: peek_tok_def Let_def)

lemma skip_space_idem [simp]: "skip_space (skip_space s) = skip_space s"
  by (simp add: skip_space_def dropWhile_idem)

lemma space_symbol_disjoint: "symbol c \<Longrightarrow> \<not> space c"
  by (auto simp: symbol_def symbols_def space_def whitespace_def)

lemma skip_space_hd: "skip_space s = c # r \<Longrightarrow> \<not> space c"
  using hd_dropWhile [of space s] by (auto simp: skip_space_def)

text \<open>Every token but the end of the text takes at least one character.\<close>

lemma gettoken_length:
  assumes "gettoken s = (k, t, r)"
  shows "length r \<le> length s" "skip_space s \<noteq> [] \<Longrightarrow> length r < length s" "k = CHR 0x00 \<Longrightarrow> skip_space s = [] \<or> hd (skip_space s) = CHR 0x00"
proof -
  show lt: "length r < length s" if ne: "skip_space s \<noteq> []"
  proof -
    obtain c q where cq: "skip_space s = c # q" using ne by (auto simp: neq_Nil_conv)
    have q: "length q < length s" using skip_space_length [of s] cq by simp
    have "word_char c" if "c \<notin> set ''|();&<''" "c \<noteq> CHR ''>''"
      using that skip_space_hd [OF cq] by (auto simp: word_char_def symbol_def symbols_def)
    then have "length r \<le> length q"
      using assms cq skip_space_length [of q] skip_space_length [of "tl q"] skip_space_length [of "dropWhile word_char q"]
        length_dropWhile_le [of word_char q]
      by (auto simp: gettoken_def Let_def split: if_splits)
    with q show ?thesis by simp
  qed
  show "length r \<le> length s" using lt assms by (cases "skip_space s = []") (auto simp: gettoken_def)
  show "k = CHR 0x00 \<Longrightarrow> skip_space s = [] \<or> hd (skip_space s) = CHR 0x00"
    using assms by (auto simp: gettoken_def Let_def split: list.splits if_splits)
qed

text \<open>What the parsing functions keep: they do not run out of fuel and do not invent text.\<close>

definition fed :: "string \<Rightarrow> parse_failure + 'a \<times> string \<Rightarrow> bool" where
  "fed s res \<longleftrightarrow> (case res of Inl e \<Rightarrow> e \<noteq> OutOfFuel | Inr (_, r) \<Rightarrow> length r \<le> length s)"

lemma fed_Inr [simp]: "fed s (Inr (c, r)) \<longleftrightarrow> length r \<le> length s"
  by (simp add: fed_def)

lemma fed_Inl [simp]: "fed s (Inl e) \<longleftrightarrow> e \<noteq> OutOfFuel"
  by (simp add: fed_def)

lemma fed_le: "fed s m \<Longrightarrow> length s \<le> length t \<Longrightarrow> fed t m"
  by (auto simp: fed_def split: sum.splits)

lemma fed_andThen:
  assumes "fed s m" "\<And>c r. m = Inr (c, r) \<Longrightarrow> length r \<le> length s \<Longrightarrow> fed t (k (c, r))"
  shows "fed t (andThen m k)"
  using assms by (cases m) (auto simp: fed_def split: sum.splits)

section \<open>The parser\<close>

text \<open>\<open>parseredirs\<close>: the redirections that follow, in their order.\<close>

function parseredirs :: "cmd \<Rightarrow> string \<Rightarrow> parse_failure + cmd \<times> string" where
  "parseredirs c s =
     (case peek_tok s ''<>'' of (b, s') \<Rightarrow>
        if b
        then case gettoken s' of (tok, _, s2) \<Rightarrow>
             (case gettoken s2 of (k, file, s3) \<Rightarrow>
                if k \<noteq> CHR ''a'' then Inl (SyntaxPanic ''missing file for redirection'')
                else parseredirs (if tok = CHR ''<'' then REDIR c file O_RDONLY 0 else REDIR c file O_WRONLY_CREATE 1) s3)
        else Inr (c, s'))"
  by pat_completeness auto
termination
proof (relation "measure (\<lambda>(_, s). length s)", goal_cases)
  case (2 c s b s' tok y t s2 k y' word s3)
  then have p: "skip_space s = s'" "s' \<noteq> []" using peek_tok_skips [of s "''<>''" b s'] by auto
  then have "skip_space s' \<noteq> []" by (metis skip_space_idem)
  with 2 p gettoken_length(2) [of s' tok t s2] gettoken_length(1) [of s2 k word s3] skip_space_length [of s]
  show ?case by auto
qed simp

declare parseredirs.simps [simp del]

lemma fed_redirs: "fed s (parseredirs c s)"
proof (induction c s rule: parseredirs.induct)
  case (1 c s)
  obtain b s' where p: "peek_tok s ''<>'' = (b, s')" by force
  obtain tok t s2 where g: "gettoken s' = (tok, t, s2)" by (cases "gettoken s'")
  obtain k word s3 where h: "gettoken s2 = (k, word, s3)" by (cases "gettoken s2")
  have l: "length s' \<le> length s" "length s3 \<le> length s"
    using peek_tok_length [of s "''<>''"] p gettoken_length(1) [OF g] gettoken_length(1) [OF h] by auto
  show ?case
  proof (cases "b \<and> k = CHR ''a''")
    case True
    have "fed s3 (parseredirs (if tok = CHR ''<'' then REDIR c word O_RDONLY 0 else REDIR c word O_WRONLY_CREATE 1) s3)"
      using 1 [OF p [symmetric] _ g [symmetric] refl h [symmetric] refl] True by simp
    then have "fed s (parseredirs (if tok = CHR ''<'' then REDIR c word O_RDONLY 0 else REDIR c word O_WRONLY_CREATE 1) s3)"
      using l(2) by (rule fed_le)
    with True show ?thesis by (simp add: parseredirs.simps [of c s] p g h)
  next
    case False
    then show ?thesis using l by (auto simp: parseredirs.simps [of c s] p g h)
  qed
qed

lemma parseredirs_length: "parseredirs c s = Inr (c', r) \<Longrightarrow> length r \<le> length s"
  using fed_redirs [of s c] by simp

text \<open>
  The loop of \<open>parseexec\<close>. The command that is built has the words in the innermost \<open>EXEC\<close>; \<open>wrap\<close>
  puts the redirections found so far around it.
\<close>

fun wrap :: "cmd \<Rightarrow> string list \<Rightarrow> cmd" where
  "wrap (REDIR c file m fd) argv = REDIR (wrap c argv) file m fd"
| "wrap c argv = EXEC argv"

function parseargs :: "cmd \<Rightarrow> string list \<Rightarrow> string \<Rightarrow> parse_failure + cmd \<times> string" where
  "parseargs ret argv s =
     (case peek_tok s ''|)&;'' of (b, s') \<Rightarrow>
        if b then Inr (wrap ret argv, s')
        else case gettoken s' of (tok, word, s2) \<Rightarrow>
          if tok = CHR 0x00 then Inr (wrap ret argv, s2)
          else if tok \<noteq> CHR ''a'' then Inl (SyntaxPanic ''syntax'')
          else if MAXARGS \<le> length (argv @ [word]) then Inl (SyntaxPanic ''too many args'')
          else case parseredirs ret s2 of Inl e \<Rightarrow> Inl e
               | Inr (ret, s3) \<Rightarrow> parseargs ret (argv @ [word]) s3)"
  by pat_completeness auto
termination
proof (relation "measure (\<lambda>(_, _, s). length s)", goal_cases)
  case (2 ret argv s b s' tok y word s2 pr ret' s3)
  then have s: "s' = skip_space s" using peek_tok_skips [of s "''|)&;''" b s'] by simp
  have g: "gettoken s' = (tok, word, s2)" using 2 by simp
  have "length s3 \<le> length s2" using 2 by (intro parseredirs_length [of ret s2 ret']) simp
  moreover have "length s2 < length s'"
  proof (rule gettoken_length(2) [OF g])
    show "skip_space s' \<noteq> []" using g 2 by (auto simp: gettoken_def)
  qed
  ultimately show ?case using skip_space_length [of s] s by simp
qed simp

declare parseargs.simps [simp del]

lemma fed_args: "fed s (parseargs ret argv s)"
proof (induction ret argv s rule: parseargs.induct)
  case (1 ret argv s)
  obtain b s' where p: "peek_tok s ''|)&;'' = (b, s')" by force
  obtain tok word s2 where g: "gettoken s' = (tok, word, s2)" by (cases "gettoken s'")
  have l: "length s' \<le> length s" "length s2 \<le> length s"
    using peek_tok_length [of s "''|)&;''"] p gettoken_length(1) [OF g] by auto
  show ?case
  proof (cases "\<not> b \<and> tok = CHR ''a'' \<and> length argv + 1 < MAXARGS")
    case True
    then have m: "\<not> MAXARGS \<le> length (argv @ [word])" by simp
    have e: "parseargs ret argv s = (case parseredirs ret s2 of Inl e \<Rightarrow> Inl e | Inr (ret, s3) \<Rightarrow> parseargs ret (argv @ [word]) s3)"
      using True by (simp add: parseargs.simps [of ret argv s] p g)
    show ?thesis
    proof (cases "parseredirs ret s2")
      case (Inl x)
      then show ?thesis using fed_redirs [of s2 ret] by (simp add: e)
    next
      case (Inr pr)
      obtain ret' s3 where r: "parseredirs ret s2 = Inr (ret', s3)" using Inr by (cases pr) simp
      have "fed s3 (parseargs ret' (argv @ [word]) s3)"
        by (rule 1 [OF p [symmetric] _ g [symmetric] refl _ _ m r refl]) (use True in auto)
      then have "fed s (parseargs ret' (argv @ [word]) s3)" by (rule fed_le) (use parseredirs_length [OF r] l in simp)
      with r show ?thesis by (simp add: e)
    qed
  next
    case False
    then show ?thesis using l by (auto simp: parseargs.simps [of ret argv s] p g)
  qed
qed

text \<open>The loop of \<open>parseline\<close> over the ampersands.\<close>

function backs :: "cmd \<Rightarrow> string \<Rightarrow> cmd \<times> string" where
  "backs c s =
     (case peek_tok s ''&'' of (b, s') \<Rightarrow> if b then backs (BACK c) (after_token s') else (c, s'))"
  by pat_completeness auto
termination
proof (relation "measure (\<lambda>(_, s). length s)", goal_cases)
  case (2 c s b s')
  then have s: "s' = skip_space s" "skip_space s' \<noteq> []" using peek_tok_skips [of s "''&''" b s'] by auto
  obtain k w r where "gettoken s' = (k, w, r)" by (cases "gettoken s'")
  then show ?case using gettoken_length(2) [of s' k w r] s skip_space_length [of s] by simp
qed simp

declare backs.simps [simp del]

lemma after_token_length: "length (after_token s) \<le> length s" "skip_space s \<noteq> [] \<Longrightarrow> length (after_token s) < length s"
  using gettoken_length(1,2) [of s "fst (gettoken s)" "fst (snd (gettoken s))" "after_token s"] by simp_all

lemma peek_then_token: "peek_tok s toks = (True, s') \<Longrightarrow> length (after_token s') < length s"
  using peek_tok_skips [of s toks True s'] after_token_length(2) [of s'] skip_space_length [of s] by auto

lemma backs_length: "length (snd (backs c s)) \<le> length s"
proof (induction c s rule: backs.induct)
  case (1 c s)
  obtain b s' where p: "peek_tok s ''&'' = (b, s')" by force
  show ?case
  proof (cases b)
    case True
    have "length (snd (backs (BACK c) (after_token s'))) \<le> length (after_token s')" by (rule 1 [OF p [symmetric] True])
    with p True peek_then_token [of s "''&''" s'] show ?thesis by (simp add: backs.simps [of c s])
  next
    case False
    then show ?thesis using p peek_tok_length [of s "''&''"] by (simp add: backs.simps [of c s])
  qed
qed

text \<open>
  The mutually recursive functions. The recursion is bounded by \<open>fuel\<close>; \<open>parsecmd\<close> gives enough for
  every text, which is proved below.
\<close>

fun parseline :: "nat \<Rightarrow> string \<Rightarrow> parse_failure + cmd \<times> string"
  and parsepipe :: "nat \<Rightarrow> string \<Rightarrow> parse_failure + cmd \<times> string"
  and parseexec :: "nat \<Rightarrow> string \<Rightarrow> parse_failure + cmd \<times> string"
  and parseblock :: "nat \<Rightarrow> string \<Rightarrow> parse_failure + cmd \<times> string" where
  "parseline 0 s = Inl OutOfFuel"
| "parseline (Suc fuel) s =
     andThen (parsepipe fuel s) (\<lambda>(c, s).
     case backs c s of (c, s) \<Rightarrow>
     case peek_tok s '';'' of (b, s) \<Rightarrow>
       if b then andThen (parseline fuel (after_token s)) (\<lambda>(d, s). Inr (LIST c d, s)) else Inr (c, s))"
| "parsepipe 0 s = Inl OutOfFuel"
| "parsepipe (Suc fuel) s =
     andThen (parseexec fuel s) (\<lambda>(c, s).
     case peek_tok s ''|'' of (b, s) \<Rightarrow>
       if b then andThen (parsepipe fuel (after_token s)) (\<lambda>(d, s). Inr (PIPE c d, s)) else Inr (c, s))"
| "parseexec 0 s = Inl OutOfFuel"
| "parseexec (Suc fuel) s =
     (case peek_tok s ''('' of (b, s) \<Rightarrow>
        if b then parseblock fuel s
        else andThen (parseredirs (EXEC []) s) (\<lambda>(ret, s). parseargs ret [] s))"
| "parseblock 0 s = Inl OutOfFuel"
| "parseblock (Suc fuel) s =
     (case peek_tok s ''('' of (b, s) \<Rightarrow>
        if \<not> b then Inl (SyntaxPanic ''parseblock'')
        else andThen (parseline fuel (after_token s)) (\<lambda>(c, s).
          case peek_tok s '')'' of (b, s) \<Rightarrow>
            if \<not> b then Inl (SyntaxPanic ''syntax - missing )'')
            else parseredirs c (after_token s)))"

definition parsecmd :: "string \<Rightarrow> parse_failure + cmd" where
  "parsecmd s =
     andThen (parseline (4 * length s + 4) s) (\<lambda>(c, s).
     case peek_tok s [] of (_, s) \<Rightarrow> if s \<noteq> [] then Inl (Leftovers s) else Inr c)"

section \<open>Running commands\<close>

text \<open>
  The system calls of a process that runs a command, up to the point where it ends or is replaced
  by another program; a fork has the calls of the child. The ends of the latest pipe are named.
  Which calls succeed is an argument.
\<close>

datatype fdesc = Fd nat | PipeEnd nat

datatype act =
    Close fdesc | Open string mode | Exec "string list" | Pipe | Dup fdesc | Fork "act list" | Wait
  | Chdir string | Write nat string | Exit

record answers =
  open_ok :: "string \<Rightarrow> bool"
  exec_ok :: "string \<Rightarrow> bool"
  chdir_ok :: "string \<Rightarrow> bool"
  pipe_ok :: bool
  fork_ok :: bool

definition panic :: "string \<Rightarrow> act list" where
  "panic s = [Write 2 (s @ [CHR 0x0A]), Exit]"

definition fork1 :: "answers \<Rightarrow> act list \<Rightarrow> act list \<Rightarrow> act list" where
  "fork1 e child rest = (if fork_ok e then Fork child # rest else panic ''fork'')"

fun runcmd :: "answers \<Rightarrow> cmd \<Rightarrow> act list" where
  "runcmd e (EXEC argv) =
     (case argv of [] \<Rightarrow> [Exit]
      | prog # _ \<Rightarrow> Exec argv # (if exec_ok e prog then [] else [Write 2 (''exec '' @ prog @ '' failed'' @ [CHR 0x0A]), Exit]))"
| "runcmd e (REDIR c file m fd) =
     Close (Fd fd) # Open file m
     # (if open_ok e file then runcmd e c else [Write 2 (''open '' @ file @ '' failed'' @ [CHR 0x0A]), Exit])"
| "runcmd e (LIST l r) = fork1 e (runcmd e l) (Wait # runcmd e r)"
| "runcmd e (PIPE l r) =
     Pipe # (if \<not> pipe_ok e then panic ''pipe''
       else fork1 e ([Close (Fd 1), Dup (PipeEnd 1), Close (PipeEnd 0), Close (PipeEnd 1)] @ runcmd e l)
           (fork1 e ([Close (Fd 0), Dup (PipeEnd 0), Close (PipeEnd 0), Close (PipeEnd 1)] @ runcmd e r)
             [Close (PipeEnd 0), Close (PipeEnd 1), Wait, Wait, Exit]))"
| "runcmd e (BACK c) = fork1 e (runcmd e c) [Exit]"

definition run_line :: "answers \<Rightarrow> string \<Rightarrow> act list" where
  "run_line e s = (case parsecmd s of Inr c \<Rightarrow> runcmd e c
     | Inl (Leftovers r) \<Rightarrow> Write 2 (''leftovers: '' @ r @ [CHR 0x0A]) # panic ''syntax''
     | Inl (SyntaxPanic msg) \<Rightarrow> panic msg
     | Inl OutOfFuel \<Rightarrow> [])"

text \<open>The loop of \<open>main\<close> over the lines that \<open>gets\<close> returns; the empty one is the end of the input.\<close>

fun shell_loop :: "answers \<Rightarrow> string list \<Rightarrow> act list" where
  "shell_loop e [] = [Write 2 ''$ '', Exit]"
| "shell_loop e (buf # rest) =
     Write 2 ''$ '' #
     (if buf = [] then [Exit]
      else if take 3 buf = ''cd ''
      then let dir = drop 3 (butlast buf)
           in Chdir dir # (if chdir_ok e dir then [] else [Write 2 (''cannot cd '' @ dir @ [CHR 0x0A])]) @ shell_loop e rest
      else fork1 e (run_line e buf) (Wait # shell_loop e rest))"

section \<open>The parser always ends\<close>

lemma fed_line:
  assumes "fed s (parsepipe n s)" "\<And>r. length r < length s \<Longrightarrow> fed r (parseline n r)"
  shows "fed s (parseline (Suc n) s)"
  unfolding parseline.simps
proof (rule fed_andThen [OF assms(1)])
  fix c and r :: string assume r: "length r \<le> length s"
  obtain d q where b: "backs c r = (d, q)" by force
  obtain t q' where p: "peek_tok q '';'' = (t, q')" by force
  have len: "length q \<le> length s" "length q' \<le> length s" using backs_length [of c r] peek_tok_length [of q "'';''"] b p r by simp_all
  have "fed s (andThen (parseline n (after_token q')) (\<lambda>(e, s). Inr (LIST d e, s)))" if t
  proof -
    have a: "length (after_token q') < length s" using peek_then_token [of q "'';''" q'] p that len by simp
    show ?thesis by (rule fed_andThen [OF assms(2) [OF a]]) (use a in auto)
  qed
  with b p len show "fed s (case (c, r) of (c, s) \<Rightarrow> case backs c s of (c, s) \<Rightarrow> case peek_tok s '';'' of (b, s) \<Rightarrow>
     if b then andThen (parseline n (after_token s)) (\<lambda>(d, s). Inr (LIST c d, s)) else Inr (c, s))" by simp
qed

lemma fed_pipe:
  assumes "fed s (parseexec n s)" "\<And>r. length r < length s \<Longrightarrow> fed r (parsepipe n r)"
  shows "fed s (parsepipe (Suc n) s)"
  unfolding parsepipe.simps
proof (rule fed_andThen [OF assms(1)])
  fix c and r :: string assume r: "length r \<le> length s"
  obtain t q' where p: "peek_tok r ''|'' = (t, q')" by force
  have len: "length q' \<le> length s" using peek_tok_length [of r "''|''"] p r by simp
  have "fed s (andThen (parsepipe n (after_token q')) (\<lambda>(e, s). Inr (PIPE c e, s)))" if t
  proof -
    have a: "length (after_token q') < length s" using peek_then_token [of r "''|''" q'] p that r by simp
    show ?thesis by (rule fed_andThen [OF assms(2) [OF a]]) (use a in auto)
  qed
  with p len show "fed s (case (c, r) of (c, s) \<Rightarrow> case peek_tok s ''|'' of (b, s) \<Rightarrow>
     if b then andThen (parsepipe n (after_token s)) (\<lambda>(d, s). Inr (PIPE c d, s)) else Inr (c, s))" by simp
qed

lemma fed_exec:
  assumes "\<And>r. length r \<le> length s \<Longrightarrow> fed r (parseblock n r)"
  shows "fed s (parseexec (Suc n) s)"
proof -
  obtain b s' where p: "peek_tok s ''('' = (b, s')" by force
  have l: "length s' \<le> length s" using peek_tok_length [of s "''(''"] p by simp
  have "fed s (andThen (parseredirs (EXEC []) s') (\<lambda>(ret, s). parseargs ret [] s))"
  proof (rule fed_andThen [OF fed_redirs])
    fix c and r :: string assume "length r \<le> length s'"
    then show "fed s (case (c, r) of (ret, s) \<Rightarrow> parseargs ret [] s)" using fed_le [OF fed_args] l by simp
  qed
  then show ?thesis using p l fed_le [OF assms [OF l] l] by simp
qed

lemma fed_block:
  assumes "\<And>r. length r < length s \<Longrightarrow> fed r (parseline n r)"
  shows "fed s (parseblock (Suc n) s)"
proof -
  obtain b s' where p: "peek_tok s ''('' = (b, s')" by force
  have "fed s (andThen (parseline n (after_token s')) (\<lambda>(c, s). case peek_tok s '')'' of (b, s) \<Rightarrow>
      if \<not> b then Inl (SyntaxPanic ''syntax - missing )'') else parseredirs c (after_token s)))" if b
  proof -
    have a: "length (after_token s') < length s" using peek_then_token [of s "''(''" s'] p that by simp
    show ?thesis
    proof (rule fed_andThen [OF assms [OF a]])
      fix c and r :: string assume r: "length r \<le> length (after_token s')"
      obtain t q where q: "peek_tok r '')'' = (t, q)" by force
      have "length (after_token q) \<le> length s" using after_token_length(1) [of q] peek_tok_length [of r "'')''"] q r a by simp
      then show "fed s (case (c, r) of (c, s) \<Rightarrow> case peek_tok s '')'' of (b, s) \<Rightarrow>
          if \<not> b then Inl (SyntaxPanic ''syntax - missing )'') else parseredirs c (after_token s))"
        using fed_le [OF fed_redirs] q by simp
    qed
  qed
  then show ?thesis using p by simp
qed

lemma parser_fed:
  "(\<forall>s. 4 * length s + 4 \<le> n \<longrightarrow> fed s (parseline n s)) \<and> (\<forall>s. 4 * length s + 3 \<le> n \<longrightarrow> fed s (parsepipe n s)) \<and>
   (\<forall>s. 4 * length s + 2 \<le> n \<longrightarrow> fed s (parseexec n s)) \<and> (\<forall>s. 4 * length s + 1 \<le> n \<longrightarrow> fed s (parseblock n s))"
proof (induction n)
  case (Suc n)
  then show ?case
    by (intro conjI allI impI fed_line fed_pipe fed_exec fed_block) auto
qed simp

section \<open>Printing commands\<close>

text \<open>
  A rank for the calls between the levels on the same command, for the termination of the printer:
  the number of levels that are passed before the command is taken apart.
\<close>

fun level_rank :: "nat \<Rightarrow> cmd \<Rightarrow> nat" where
  "level_rank lvl (EXEC _) = lvl"
| "level_rank lvl (REDIR _ _ _ _) = lvl"
| "level_rank lvl (PIPE _ _) = (lvl + 3) mod 4"
| "level_rank lvl (BACK _) = (lvl + 2) mod 4"
| "level_rank lvl (LIST _ _) = (lvl + 1) mod 4"

text \<open>
  The text of a command, with parentheses where the grammar needs them. Redirections follow the
  words; every word is followed by a space.
\<close>

function (sequential) show_exec :: "cmd \<Rightarrow> string" and show_pipe :: "cmd \<Rightarrow> string"
  and show_back :: "cmd \<Rightarrow> string" and show_line :: "cmd \<Rightarrow> string" where
  "show_exec (EXEC argv) = concat (map (\<lambda>w. w @ '' '') argv)"
| "show_exec (REDIR c file m fd) = show_exec c @ (if m = O_RDONLY then ''<'' else ''>'') @ file @ '' ''"
| "show_exec c = ''('' @ show_line c @ '')''"
| "show_pipe (PIPE l r) = show_exec l @ ''|'' @ show_pipe r"
| "show_pipe c = show_exec c"
| "show_back (BACK c) = show_back c @ ''&''"
| "show_back c = show_pipe c"
| "show_line (LIST l r) = show_back l @ '';'' @ show_line r"
| "show_line c = show_back c"
  by pat_completeness auto
termination
  by (relation "measures
      [\<lambda>x. case x of Inl (Inl c) \<Rightarrow> size c | Inl (Inr c) \<Rightarrow> size c | Inr (Inl c) \<Rightarrow> size c | Inr (Inr c) \<Rightarrow> size c,
       \<lambda>x. case x of Inl (Inl c) \<Rightarrow> level_rank 0 c | Inl (Inr c) \<Rightarrow> level_rank 1 c
         | Inr (Inl c) \<Rightarrow> level_rank 2 c | Inr (Inr c) \<Rightarrow> level_rank 3 c]") simp_all

definition word_ok :: "string \<Rightarrow> bool" where
  "word_ok w \<longleftrightarrow> w \<noteq> [] \<and> (\<forall>c \<in> set w. word_char c)"

fun cmd_ok :: "cmd \<Rightarrow> bool" where
  "cmd_ok (EXEC argv) \<longleftrightarrow> length argv < MAXARGS \<and> (\<forall>w \<in> set argv. word_ok w)"
| "cmd_ok (REDIR c file m fd) \<longleftrightarrow> cmd_ok c \<and> word_ok file \<and> fd = (if m = O_RDONLY then 0 else 1)"
| "cmd_ok (PIPE l r) \<longleftrightarrow> cmd_ok l \<and> cmd_ok r"
| "cmd_ok (LIST l r) \<longleftrightarrow> cmd_ok l \<and> cmd_ok r"
| "cmd_ok (BACK c) \<longleftrightarrow> cmd_ok c"

text \<open>What may follow a piece of text: nothing but spaces, or one of some characters.\<close>

definition follows :: "string \<Rightarrow> string \<Rightarrow> bool" where
  "follows toks s \<longleftrightarrow> skip_space s = [] \<or> hd (skip_space s) \<in> set toks"

lemma skip_Cons [simp]: "skip_space (c # s) = (if space c then skip_space s else c # s)"
  by (simp add: skip_space_def)

lemma skip_Nil [simp]: "skip_space [] = []"
  by (simp add: skip_space_def)

lemma space_chars [simp]: "space (CHR '' '')" "\<not> space (CHR ''<'')" "\<not> space (CHR ''>'')" "\<not> space (CHR ''('')" "\<not> space (CHR '')'')"
  "\<not> space (CHR ''|'')" "\<not> space (CHR ''&'')" "\<not> space (CHR '';'')"
  by (simp_all add: space_def whitespace_def)

lemma word_chars [simp]: "\<not> word_char (CHR '' '')" "\<not> word_char (CHR ''<'')" "\<not> word_char (CHR ''>'')" "\<not> word_char (CHR ''('')"
  "\<not> word_char (CHR '')'')" "\<not> word_char (CHR ''|'')" "\<not> word_char (CHR ''&'')" "\<not> word_char (CHR '';'')"
  by (simp_all add: word_char_def) (simp_all add: symbol_def symbols_def)

lemma word_char_not_space: "word_char c \<Longrightarrow> \<not> space c"
  by (simp add: word_char_def)

lemma gettoken_word: "word_ok w \<Longrightarrow> gettoken (w @ CHR '' '' # s) = (CHR ''a'', w, skip_space s)"
proof -
  assume w: "word_ok w"
  then obtain c q where cq: "w = c # q" by (cases w) (auto simp: word_ok_def)
  have c: "word_char c" "\<forall>d \<in> set q. word_char d" using w cq by (auto simp: word_ok_def)
  have n: "c \<notin> set ''|();&<''" "c \<noteq> CHR ''>''" using c(1) by auto
  have "takeWhile word_char (w @ CHR '' '' # s) = w" "dropWhile word_char (w @ CHR '' '' # s) = CHR '' '' # s"
    using w by (simp_all add: word_ok_def takeWhile_append2 dropWhile_append2)
  then show ?thesis using n word_char_not_space [OF c(1)] cq by (simp add: gettoken_def Let_def)
qed

lemma gettoken_symbol: "gettoken (CHR ''('' # s) = (CHR ''('', ''('', skip_space s)" "gettoken (CHR '')'' # s) = (CHR '')'', '')'', skip_space s)"
  "gettoken (CHR ''|'' # s) = (CHR ''|'', ''|'', skip_space s)" "gettoken (CHR ''&'' # s) = (CHR ''&'', ''&'', skip_space s)"
  "gettoken (CHR '';'' # s) = (CHR '';'', '';'', skip_space s)" "gettoken (CHR ''<'' # s) = (CHR ''<'', ''<'', skip_space s)"
  "s = [] \<or> hd s \<noteq> CHR ''>'' \<Longrightarrow> gettoken (CHR ''>'' # s) = (CHR ''>'', ''>'', skip_space s)"
  by (auto simp: gettoken_def)

text \<open>The parsing functions ignore leading spaces.\<close>

lemma peek_tok_skip [simp]: "peek_tok (skip_space s) toks = peek_tok s toks"
  by (simp add: peek_tok_def)

lemma gettoken_skip [simp]: "gettoken (skip_space s) = gettoken s"
  by (simp add: gettoken_def)

lemma parse_skip [simp]: "parseredirs c (skip_space s) = parseredirs c s" "parseargs c argv (skip_space s) = parseargs c argv s"
  "backs c (skip_space s) = backs c s" "parseblock n (skip_space s) = parseblock n s" "parseexec n (skip_space s) = parseexec n s"
  "parsepipe n (skip_space s) = parsepipe n s" "parseline n (skip_space s) = parseline n s"
proof -
  show "parseredirs c (skip_space s) = parseredirs c s" by (simp add: parseredirs.simps [of c])
  show "parseargs c argv (skip_space s) = parseargs c argv s" by (simp add: parseargs.simps [of c argv])
  show "backs c (skip_space s) = backs c s" by (simp add: backs.simps [of c])
  show b: "parseblock n (skip_space s) = parseblock n s" for n by (cases n) simp_all
  show e: "parseexec n (skip_space s) = parseexec n s" for n by (cases n) simp_all
  show q: "parsepipe n (skip_space s) = parsepipe n s" for n by (cases n) (simp_all add: e)
  show "parseline n (skip_space s) = parseline n s" by (cases n) (simp_all add: q)
qed

lemma peek_follows: "follows toks s \<Longrightarrow> set toks \<inter> set other = {} \<Longrightarrow> peek_tok s other = (False, skip_space s)"
  by (auto simp: follows_def peek_tok_def Let_def)

section \<open>Parsing what was printed\<close>

text \<open>A command under its redirections.\<close>

definition redirect :: "cmd \<Rightarrow> string \<times> mode \<Rightarrow> cmd" where
  "redirect c r = REDIR c (fst r) (snd r) (if snd r = O_RDONLY then 0 else 1)"

definition show_redirs :: "(string \<times> mode) list \<Rightarrow> string" where
  "show_redirs rs = concat (map (\<lambda>r. (if snd r = O_RDONLY then ''<'' else ''>'') @ fst r @ '' '') rs)"

definition show_words :: "string list \<Rightarrow> string" where
  "show_words ws = concat (map (\<lambda>w. w @ '' '') ws)"

fun chain :: "cmd \<Rightarrow> cmd \<times> (string \<times> mode) list" where
  "chain (REDIR c file m fd) = (fst (chain c), snd (chain c) @ [(file, m)])"
| "chain c = (c, [])"

lemma chain_facts:
  assumes "cmd_ok c"
  shows "foldl redirect (fst (chain c)) (snd (chain c)) = c" "show_exec c = show_exec (fst (chain c)) @ show_redirs (snd (chain c))"
    "cmd_ok (fst (chain c))" "\<forall>r \<in> set (snd (chain c)). word_ok (fst r)" "size (fst (chain c)) \<le> size c"
    "\<And>d f m n. fst (chain c) \<noteq> REDIR d f m n"
  using assms by (induction c) (auto simp: redirect_def show_redirs_def)

lemma word_start: "word_ok w \<Longrightarrow> \<exists>c q. w = c # q \<and> word_char c \<and> \<not> space c"
  by (cases w) (auto simp: word_ok_def word_char_def)

lemma peek_word: "word_ok w \<Longrightarrow> \<forall>c \<in> set toks. \<not> word_char c \<Longrightarrow> peek_tok (w @ s) toks = (False, w @ s)"
  using word_start [of w] by (auto simp: peek_tok_def)

lemma redirs_parse:
  assumes "\<forall>r \<in> set rs. word_ok (fst r)" "follows toks s" "set toks \<inter> set ''<>'' = {}"
  shows "parseredirs c (show_redirs rs @ s) = Inr (foldl redirect c rs, skip_space s)"
  using assms(1)
proof (induction rs arbitrary: c)
  case Nil
  show ?case using peek_follows [OF assms(2,3)] by (simp add: show_redirs_def parseredirs.simps [of c])
next
  case (Cons r rs)
  let ?rest = "show_redirs rs @ s" and ?sym = "if snd r = O_RDONLY then CHR ''<'' else CHR ''>''"
  let ?body = "fst r @ CHR '' '' # ?rest"
  have w: "word_ok (fst r)" using Cons.prems by simp
  have e: "show_redirs (r # rs) @ s = ?sym # ?body" by (simp add: show_redirs_def)
  have nh: "hd ?body \<noteq> CHR ''>''" using word_start [OF w] by auto
  have g: "gettoken (?sym # ?body) = (?sym, [?sym], skip_space ?body)" using gettoken_symbol(6,7) [of ?body] nh by simp
  have p: "peek_tok (?sym # ?body) ''<>'' = (True, ?sym # ?body)" by (simp add: peek_tok_def)
  have "parseredirs c (?sym # ?body) = parseredirs (redirect c r) ?rest"
    unfolding parseredirs.simps [of c "?sym # ?body"] p using g gettoken_word [OF w, of ?rest] by (cases "snd r") (simp_all add: redirect_def)
  with Cons show ?case unfolding e by simp
qed

lemma wrap_redirs: "wrap (foldl redirect (EXEC a) rs) argv = foldl redirect (EXEC argv) rs"
  by (induction rs rule: rev_induct) (simp_all add: redirect_def)

lemma args_end: "follows ''|)&;'' s \<Longrightarrow> parseargs ret argv s = Inr (wrap ret argv, skip_space s)"
  by (auto simp: follows_def parseargs.simps [of ret argv s] peek_tok_def Let_def gettoken_def)

lemma show_words_Cons: "show_words (w # ws) @ s = w @ CHR '' '' # (show_words ws @ s)"
  by (simp add: show_words_def)

lemma args_parse:
  assumes "ws \<noteq> []" "\<forall>w \<in> set ws. word_ok w" "length (acc @ ws) < MAXARGS" "\<forall>r \<in> set rs. word_ok (fst r)" "follows ''|)&;'' s"
  shows "parseargs (EXEC []) acc (show_words ws @ show_redirs rs @ s) = Inr (foldl redirect (EXEC (acc @ ws)) rs, skip_space s)"
  using assms
proof (induction ws arbitrary: acc)
  case (Cons w ws)
  let ?rest = "show_words ws @ show_redirs rs @ s"
  have w: "word_ok w" using Cons.prems by simp
  have p: "peek_tok (w @ CHR '' '' # ?rest) ''|)&;'' = (False, w @ CHR '' '' # ?rest)" using w by (intro peek_word) auto
  have step: "parseargs (EXEC []) acc (w @ CHR '' '' # ?rest) =
    (case parseredirs (EXEC []) ?rest of Inl e \<Rightarrow> Inl e | Inr (ret, s3) \<Rightarrow> parseargs ret (acc @ [w]) s3)"
    unfolding parseargs.simps [of "EXEC []" acc "w @ CHR '' '' # ?rest"] p
    using Cons.prems(3) gettoken_word [OF w, of ?rest] by simp
  show ?case
  proof (cases "ws = []")
    case True
    have "parseredirs (EXEC []) ?rest = Inr (foldl redirect (EXEC []) rs, skip_space s)"
      using redirs_parse [OF Cons.prems(4,5), of "EXEC []"] True by (simp add: show_words_def)
    then show ?thesis using args_end [OF Cons.prems(5)] True unfolding show_words_Cons step by (simp add: wrap_redirs)
  next
    case False
    then obtain v vs where v: "ws = v # vs" by (cases ws) auto
    have "peek_tok ?rest ''<>'' = (False, ?rest)"
      using Cons.prems(2) unfolding v show_words_Cons by (intro peek_word) auto
    then have "parseredirs (EXEC []) ?rest = Inr (EXEC [], ?rest)" by (simp add: parseredirs.simps)
    then show ?thesis using Cons.IH [OF False, of "acc @ [w]"] Cons.prems unfolding show_words_Cons step by simp
  qed
qed simp

lemma exec_parse:
  assumes "\<forall>w \<in> set argv. word_ok w" "length argv < MAXARGS" "\<forall>r \<in> set rs. word_ok (fst r)" "follows ''|)&;'' s" "0 < n"
  shows "parseexec n (show_words argv @ show_redirs rs @ s) = Inr (foldl redirect (EXEC argv) rs, skip_space s)"
proof -
  let ?t = "show_words argv @ show_redirs rs @ s"
  obtain k where n: "n = Suc k" using assms(5) by (cases n) auto
  show ?thesis
  proof (cases "argv = []")
    case False
    then obtain w ws where a: "argv = w # ws" by (cases argv) auto
    have w: "word_ok w" using assms(1) a by simp
    have "peek_tok ?t ''('' = (False, ?t)" "peek_tok ?t ''<>'' = (False, ?t)"
      unfolding a show_words_Cons using w by (intro peek_word; simp)+
    then show ?thesis using args_parse [OF False assms(1) _ assms(3,4), of "[]"] assms(2)
      by (simp add: n parseredirs.simps [of "EXEC []"])
  next
    case True
    have "peek_tok (show_redirs rs @ s) ''('' = (False, skip_space (show_redirs rs @ s))"
      using assms(4) by (cases rs) (auto simp: show_redirs_def peek_tok_def follows_def)
    then show ?thesis using redirs_parse [OF assms(3,4), of "EXEC []"] args_end [OF assms(4)] True
      by (simp add: n show_words_def wrap_redirs)
  qed
qed

text \<open>A command under its ampersands.\<close>

fun unback :: "cmd \<Rightarrow> cmd \<times> nat" where
  "unback (BACK c) = (fst (unback c), Suc (snd (unback c)))"
| "unback c = (c, 0)"

lemma unback_facts:
  "(BACK ^^ snd (unback c)) (fst (unback c)) = c" "show_back c = show_pipe (fst (unback c)) @ replicate (snd (unback c)) (CHR ''&'')"
  "cmd_ok c \<Longrightarrow> cmd_ok (fst (unback c))" "size (fst (unback c)) \<le> size c" "\<And>d. fst (unback c) \<noteq> BACK d"
  by (induction c) (auto simp: replicate_append_same)

lemma backs_parse:
  assumes "follows '');'' s"
  shows "backs c (replicate n (CHR ''&'') @ s) = ((BACK ^^ n) c, skip_space s)"
proof (induction n arbitrary: c)
  case 0
  show ?case using peek_follows [OF assms, of "''&''"] by (simp add: backs.simps [of c])
next
  case (Suc n)
  have "backs c (CHR ''&'' # replicate n (CHR ''&'') @ s) = backs (BACK c) (replicate n (CHR ''&'') @ s)"
    by (simp add: backs.simps [of c "CHR ''&'' # replicate n (CHR ''&'') @ s"] peek_tok_def gettoken_symbol)
  with Suc show ?case by (simp add: funpow_swap1)
qed

definition parses_exec :: "cmd \<Rightarrow> bool" where
  "parses_exec c \<longleftrightarrow> (\<forall>s n. follows ''|)&;'' s \<longrightarrow> 4 * length (show_exec c @ s) + 2 \<le> n \<longrightarrow>
     parseexec n (show_exec c @ s) = Inr (c, skip_space s))"

definition parses_pipe :: "cmd \<Rightarrow> bool" where
  "parses_pipe c \<longleftrightarrow> (\<forall>s n. follows '')&;'' s \<longrightarrow> 4 * length (show_pipe c @ s) + 3 \<le> n \<longrightarrow>
     parsepipe n (show_pipe c @ s) = Inr (c, skip_space s))"

definition parses_line :: "cmd \<Rightarrow> bool" where
  "parses_line c \<longleftrightarrow> (\<forall>s n. follows '')'' s \<longrightarrow> 4 * length (show_line c @ s) + 4 \<le> n \<longrightarrow>
     parseline n (show_line c @ s) = Inr (c, skip_space s))"

lemma follows_mono: "follows toks s \<Longrightarrow> set toks \<subseteq> set wider \<Longrightarrow> follows wider s"
  by (auto simp: follows_def)

lemma follows_symbol [simp]: "\<not> space c \<Longrightarrow> c \<in> set toks \<Longrightarrow> follows toks (c # s)"
  by (simp add: follows_def)

lemma exec_level:
  assumes ok: "cmd_ok c" and block: "\<And>d. fst (chain c) = d \<Longrightarrow> (\<forall>argv. d \<noteq> EXEC argv) \<Longrightarrow> parses_line d"
  shows "parses_exec c"
  unfolding parses_exec_def
proof (intro allI impI)
  fix s n assume s: "follows ''|)&;'' s" and n: "4 * length (show_exec c @ s) + 2 \<le> n"
  define d where "d = fst (chain c)"
  define rs where "rs = snd (chain c)"
  have f: "foldl redirect d rs = c" "show_exec c = show_exec d @ show_redirs rs" "cmd_ok d" "\<forall>r \<in> set rs. word_ok (fst r)"
    "\<And>e f m n. d \<noteq> REDIR e f m n" using chain_facts [OF ok] by (auto simp: d_def rs_def)
  show "parseexec n (show_exec c @ s) = Inr (c, skip_space s)"
  proof (cases "\<exists>argv. d = EXEC argv")
    case True
    then obtain argv where a: "d = EXEC argv" by blast
    have "show_exec c @ s = show_words argv @ show_redirs rs @ s" using f(2) a by (simp add: show_words_def)
    then show ?thesis using exec_parse [of argv rs s n] f a s n by simp
  next
    case False
    let ?tail = "show_redirs rs @ s"
    have e: "show_exec d = ''('' @ show_line d @ '')''" using False f(5) by (cases d) auto
    obtain k where k: "n = Suc (Suc k)" "4 * length (show_line d @ CHR '')'' # ?tail) + 4 \<le> k"
      using n unfolding f(2) e by (cases n; cases "n - 1") auto
    have l: "parseline k (show_line d @ CHR '')'' # ?tail) = Inr (d, CHR '')'' # ?tail)"
      using block [OF d_def [symmetric]] False k(2) unfolding parses_line_def by (simp add: follows_def)
    have r: "parseredirs d ?tail = Inr (c, skip_space s)" using redirs_parse [OF f(4) s, of d] f(1) by simp
    have t: "show_exec c @ s = CHR ''('' # show_line d @ CHR '')'' # ?tail" unfolding f(2) e by simp
    show ?thesis unfolding t k(1) using l r by (simp add: peek_tok_def gettoken_symbol)
  qed
qed

lemma pipe_level:
  assumes "\<And>l r. c = PIPE l r \<Longrightarrow> parses_exec l \<and> parses_pipe r" "(\<forall>l r. c \<noteq> PIPE l r) \<Longrightarrow> parses_exec c"
  shows "parses_pipe c"
  unfolding parses_pipe_def
proof (intro allI impI)
  fix s n assume s: "follows '')&;'' s" and n: "4 * length (show_pipe c @ s) + 3 \<le> n"
  obtain k where k: "n = Suc k" using n by (cases n) auto
  show "parsepipe n (show_pipe c @ s) = Inr (c, skip_space s)"
  proof (cases "\<exists>l r. c = PIPE l r")
    case True
    then obtain l r where c: "c = PIPE l r" by blast
    let ?rest = "show_pipe r @ s"
    have "parseexec k (show_exec l @ CHR ''|'' # ?rest) = Inr (l, CHR ''|'' # ?rest)"
      using assms(1) [OF c] n k c unfolding parses_exec_def by (simp add: follows_def)
    moreover have "parsepipe k ?rest = Inr (r, skip_space s)" using assms(1) [OF c] n k c s unfolding parses_pipe_def by simp
    ultimately show ?thesis by (simp add: k c peek_tok_def gettoken_symbol)
  next
    case False
    then have e: "show_pipe c = show_exec c" by (cases c) auto
    have "parseexec k (show_exec c @ s) = Inr (c, skip_space s)"
      using assms(2) False n k follows_mono [OF s] unfolding parses_exec_def e by simp
    then show ?thesis using peek_follows [OF s, of "''|''"] by (simp add: k e)
  qed
qed

text \<open>The part of a line up to a semicolon, a closing parenthesis or the end.\<close>

lemma back_level:
  assumes "parses_pipe (fst (unback c))" "follows '');'' s" "4 * length (show_back c @ s) + 3 \<le> n"
  shows "\<exists>q. parsepipe n (show_back c @ s) = Inr (fst (unback c), q) \<and> backs (fst (unback c)) q = (c, skip_space s)"
proof -
  let ?amps = "replicate (snd (unback c)) (CHR ''&'')"
  have "follows '')&;'' (?amps @ s)" using assms(2) by (cases "snd (unback c)") (auto simp: follows_def)
  then have "parsepipe n (show_back c @ s) = Inr (fst (unback c), skip_space (?amps @ s))"
    using assms(1,3) unfolding parses_pipe_def unback_facts(2) [of c] by simp
  moreover have "backs (fst (unback c)) (skip_space (?amps @ s)) = (c, skip_space s)"
    using backs_parse [OF assms(2)] unback_facts(1) [of c] by simp
  ultimately show ?thesis by blast
qed

lemma line_level:
  assumes "\<And>l r. c = LIST l r \<Longrightarrow> parses_pipe (fst (unback l)) \<and> parses_line r"
    "(\<forall>l r. c \<noteq> LIST l r) \<Longrightarrow> parses_pipe (fst (unback c))"
  shows "parses_line c"
  unfolding parses_line_def
proof (intro allI impI)
  fix s n assume s: "follows '')'' s" and n: "4 * length (show_line c @ s) + 4 \<le> n"
  obtain k where k: "n = Suc k" using n by (cases n) auto
  show "parseline n (show_line c @ s) = Inr (c, skip_space s)"
  proof (cases "\<exists>l r. c = LIST l r")
    case True
    then obtain l r where c: "c = LIST l r" by blast
    let ?rest = "CHR '';'' # show_line r @ s"
    obtain q where "parsepipe k (show_back l @ ?rest) = Inr (fst (unback l), q)" "backs (fst (unback l)) q = (l, ?rest)"
      using back_level [of l ?rest k] assms(1) [OF c] n k c by auto
    moreover have "parseline k (show_line r @ s) = Inr (r, skip_space s)" using assms(1) [OF c] n k c s unfolding parses_line_def by simp
    ultimately show ?thesis by (simp add: k c peek_tok_def gettoken_symbol)
  next
    case False
    then have e: "show_line c = show_back c" by (cases c) auto
    obtain q where "parsepipe k (show_back c @ s) = Inr (fst (unback c), q)" "backs (fst (unback c)) q = (c, skip_space s)"
      using back_level [of c s k] assms(2) False n k follows_mono [OF s, of "'');''"] e by auto
    then show ?thesis using peek_follows [OF s, of "'';''"] by (simp add: k e)
  qed
qed

text \<open>
  The levels call each other on the same command until it is taken apart, in the order that
  depends on its constructor.
\<close>

lemma parses_all: "cmd_ok c \<Longrightarrow> parses_exec c \<and> parses_pipe c \<and> parses_line c"
proof (induction "size c" arbitrary: c rule: less_induct)
  case less
  have sub: "cmd_ok d \<Longrightarrow> size d < size c \<Longrightarrow> parses_exec d \<and> parses_pipe d \<and> parses_line d" for d using less.hyps by blast
  have sub_back: "parses_pipe (fst (unback d))" if "cmd_ok d" "size d < size c" for d
    using sub [of "fst (unback d)"] unback_facts(3,4) [of d] that by simp
  show ?case
  proof (cases c)
    case (EXEC argv)
    have e: "parses_exec c" by (rule exec_level [OF less.prems]) (use EXEC in simp)
    have p: "parses_pipe c" by (rule pipe_level) (use e EXEC in simp_all)
    have "parses_line c" by (rule line_level) (use p EXEC in simp_all)
    with e p show ?thesis by simp
  next
    case (REDIR d f m fd)
    have e: "parses_exec c"
    proof (rule exec_level [OF less.prems])
      fix x assume x: "fst (chain c) = x" "\<forall>argv. x \<noteq> EXEC argv"
      have "cmd_ok x" "size x < size c" using chain_facts(3) [OF less.prems] chain_facts(5) [of d] less.prems REDIR x(1) by auto
      then show "parses_line x" using sub by blast
    qed
    have p: "parses_pipe c" by (rule pipe_level) (use e REDIR in simp_all)
    have "parses_line c" by (rule line_level) (use p REDIR in simp_all)
    with e p show ?thesis by simp
  next
    case (PIPE l r)
    have p: "parses_pipe c" by (rule pipe_level) (use sub less.prems PIPE in simp_all)
    have l: "parses_line c" by (rule line_level) (use p PIPE in simp_all)
    have "parses_exec c" by (rule exec_level [OF less.prems]) (use l PIPE in simp)
    with l p show ?thesis by simp
  next
    case (LIST l r)
    have li: "parses_line c" by (rule line_level) (use sub sub_back less.prems LIST in simp_all)
    have e: "parses_exec c" by (rule exec_level [OF less.prems]) (use li LIST in simp)
    have "parses_pipe c" by (rule pipe_level) (use e LIST in simp_all)
    with e li show ?thesis by simp
  next
    case (BACK d)
    have li: "parses_line c" by (rule line_level) (use sub_back [of d] less.prems BACK in simp_all)
    have e: "parses_exec c" by (rule exec_level [OF less.prems]) (use li BACK in simp)
    have "parses_pipe c" by (rule pipe_level) (use e BACK in simp_all)
    with e li show ?thesis by simp
  qed
qed

lemma parse_printed:
  assumes "cmd_ok c"
  shows "parsecmd (show_line c) = Inr c"
proof -
  have "parses_line c" using parses_all [OF assms] by simp
  moreover have "follows '')'' []" by (simp add: follows_def)
  ultimately have "parseline (4 * length (show_line c @ []) + 4) (show_line c @ []) = Inr (c, skip_space [])"
    unfolding parses_line_def by blast
  then show ?thesis by (simp add: parsecmd_def peek_tok_def)
qed

section \<open>Parsed commands are well formed\<close>

lemma gettoken_word_ok:
  assumes "gettoken s = (CHR ''a'', w, r)"
  shows "word_ok w"
proof -
  obtain c q where cq: "skip_space s = c # q" using assms by (cases "skip_space s") (auto simp: gettoken_def)
  have n: "c \<notin> set ''|();&<''" "c \<noteq> CHR ''>''" using assms cq by (auto simp: gettoken_def split: if_splits)
  have "word_char c" using n skip_space_hd [OF cq] by (auto simp: word_char_def symbol_def symbols_def)
  then show ?thesis using assms cq n by (auto simp: gettoken_def word_ok_def dest: set_takeWhileD)
qed

lemma redirs_ok: "cmd_ok c \<Longrightarrow> parseredirs c s = Inr (d, r) \<Longrightarrow> cmd_ok d"
proof (induction c s rule: parseredirs.induct)
  case (1 c s)
  obtain b s' where p: "peek_tok s ''<>'' = (b, s')" by force
  obtain tok t s2 where g: "gettoken s' = (tok, t, s2)" by (cases "gettoken s'")
  obtain k word s3 where h: "gettoken s2 = (k, word, s3)" by (cases "gettoken s2")
  show ?case
  proof (cases "b \<and> k = CHR ''a''")
    case True
    have "word_ok word" using gettoken_word_ok h True by simp
    then have "cmd_ok (if tok = CHR ''<'' then REDIR c word O_RDONLY 0 else REDIR c word O_WRONLY_CREATE 1)" using 1(2) by simp
    then show ?thesis using 1(1) [OF p [symmetric] _ g [symmetric] refl h [symmetric] refl] 1(3) True
      by (simp add: parseredirs.simps [of c s] p g h)
  next
    case False
    then show ?thesis using 1(2,3) by (auto simp: parseredirs.simps [of c s] p g h split: if_splits)
  qed
qed

lemma wrap_ok: "cmd_ok c \<Longrightarrow> length argv < MAXARGS \<Longrightarrow> \<forall>w \<in> set argv. word_ok w \<Longrightarrow> cmd_ok (wrap c argv)"
  by (induction c argv rule: wrap.induct) auto

lemma args_ok:
  "cmd_ok ret \<Longrightarrow> length argv < MAXARGS \<Longrightarrow> \<forall>w \<in> set argv. word_ok w \<Longrightarrow> parseargs ret argv s = Inr (d, r) \<Longrightarrow> cmd_ok d"
proof (induction ret argv s rule: parseargs.induct)
  case (1 ret argv s)
  obtain b s' where p: "peek_tok s ''|)&;'' = (b, s')" by force
  obtain tok word s2 where g: "gettoken s' = (tok, word, s2)" by (cases "gettoken s'")
  have w: "cmd_ok (wrap ret argv)" using 1(2-4) by (rule wrap_ok)
  show ?case
  proof (cases "\<not> b \<and> tok = CHR ''a'' \<and> length argv + 1 < MAXARGS")
    case True
    then have m: "\<not> MAXARGS \<le> length (argv @ [word])" by simp
    obtain ret' s3 where r: "parseredirs ret s2 = Inr (ret', s3)" "parseargs ret' (argv @ [word]) s3 = Inr (d, r)"
      using 1(5) True by (auto simp: parseargs.simps [of ret argv s] p g split: sum.splits)
    have "word_ok word" using gettoken_word_ok g True by simp
    then show ?thesis
      by (intro 1(1) [OF p [symmetric] _ g [symmetric] refl _ _ m r(1) refl redirs_ok [OF 1(2) r(1)] _ _ r(2)])
        (use True 1(4) in auto)
  next
    case False
    then show ?thesis using 1(5) w by (auto simp: parseargs.simps [of ret argv s] p g split: if_splits)
  qed
qed

lemma backs_ok: "cmd_ok c \<Longrightarrow> cmd_ok (fst (backs c s))"
proof (induction c s rule: backs.induct)
  case (1 c s)
  obtain b s' where p: "peek_tok s ''&'' = (b, s')" by force
  show ?case
    using 1(1) [OF p [symmetric]] 1(2) by (cases b) (auto simp: backs.simps [of c s] p)
qed

lemma parser_ok:
  "(\<forall>s c r. parseline n s = Inr (c, r) \<longrightarrow> cmd_ok c) \<and> (\<forall>s c r. parsepipe n s = Inr (c, r) \<longrightarrow> cmd_ok c) \<and>
   (\<forall>s c r. parseexec n s = Inr (c, r) \<longrightarrow> cmd_ok c) \<and> (\<forall>s c r. parseblock n s = Inr (c, r) \<longrightarrow> cmd_ok c)"
proof (induction n)
  case (Suc n)
  then have ih: "\<And>s c r. parseline n s = Inr (c, r) \<Longrightarrow> cmd_ok c" "\<And>s c r. parsepipe n s = Inr (c, r) \<Longrightarrow> cmd_ok c"
    "\<And>s c r. parseexec n s = Inr (c, r) \<Longrightarrow> cmd_ok c" "\<And>s c r. parseblock n s = Inr (c, r) \<Longrightarrow> cmd_ok c" by blast+
  show ?case
  proof (intro conjI allI impI)
    fix s c r
    show "parseline (Suc n) s = Inr (c, r) \<Longrightarrow> cmd_ok c"
      by (auto simp: andThen_eq_Inr_iff split_beta split: if_splits dest!: ih(1,2) intro: backs_ok)
    show "parsepipe (Suc n) s = Inr (c, r) \<Longrightarrow> cmd_ok c"
      by (auto simp: andThen_eq_Inr_iff split_beta split: if_splits dest!: ih(2,3))
    show "parseblock (Suc n) s = Inr (c, r) \<Longrightarrow> cmd_ok c"
      by (auto simp: andThen_eq_Inr_iff split_beta split: if_splits dest!: ih(1) dest: redirs_ok)
    have "cmd_ok c" if "parseredirs (EXEC []) t = Inr (a, b)" "parseargs a [] b = Inr (c, r)" for t a b
      using args_ok [OF redirs_ok [OF _ that(1)] _ _ that(2)] by (simp add: MAXARGS_def)
    then show "parseexec (Suc n) s = Inr (c, r) \<Longrightarrow> cmd_ok c"
      by (auto simp: andThen_eq_Inr_iff split_beta split: if_splits dest!: ih(4))
  qed
qed simp

section \<open>No process falls off the end\<close>

text \<open>A process, and every process it starts, ends by leaving or by becoming another program.\<close>

fun leaves :: "act list \<Rightarrow> bool" where
  "leaves [] = False"
| "leaves (a # as) = ((case a of Fork child \<Rightarrow> leaves child | _ \<Rightarrow> True) \<and> (if as = [] then a = Exit \<or> (\<exists>argv. a = Exec argv) else leaves as))"

lemma runcmd_leaves: "leaves (runcmd e c)"
  by (induction e c rule: runcmd.induct) (auto simp: fork1_def panic_def split: list.splits)

section \<open>Properties\<close>

text \<open>
  C12. Printing and parsing are inverse: the text of a command, whatever its nesting of pipes,
  lists, background commands, redirections and parentheses, parses to the same command, provided its
  words are words and no command has more arguments than the shell's array holds.
\<close>

theorem parsecmd_print_roundtrip:
  assumes "cmd_ok c"
  shows "parsecmd (show_line c) = Inr c"
  using assms by (rule parse_printed)

theorem parsecmd_print_roundtrip_witness:
  "parsecmd (show_line (LIST (BACK (PIPE (EXEC [''ls'', ''a'']) (REDIR (EXEC [''wc'']) ''out'' O_WRONLY_CREATE 1))) (EXEC [''echo''])))
   = Inr (LIST (BACK (PIPE (EXEC [''ls'', ''a'']) (REDIR (EXEC [''wc'']) ''out'' O_WRONLY_CREATE 1))) (EXEC [''echo'']))"
  by (rule parsecmd_print_roundtrip)
    (simp add: word_ok_def word_char_def symbol_def symbols_def space_def whitespace_def MAXARGS_def)

text \<open>
  What the parser returns is well formed: every program has fewer arguments than the shell's
  array has entries, all words are not empty and hold no spaces and symbols, and redirections are of
  the standard input or output. With the previous property, printing a parsed command and parsing
  it again gives the same command.
\<close>

theorem parsecmd_well_formed:
  assumes "parsecmd s = Inr c"
  shows "cmd_ok c \<and> parsecmd (show_line c) = Inr c"
proof -
  have "cmd_ok c" using assms parser_ok [of "4 * length s + 4"] by (auto simp: parsecmd_def andThen_eq_Inr_iff split_beta split: if_splits)
  then show ?thesis using parse_printed by blast
qed

theorem parsecmd_well_formed_witness:
  "\<exists>c. parsecmd ''a>b'' = Inr c \<and> cmd_ok c \<and> parsecmd (show_line c) = Inr c"
proof -
  have "parsecmd ''a>b'' = Inr (REDIR (EXEC [''a'']) ''b'' O_WRONLY_CREATE 1)"
    by (simp add: parsecmd_def peek_tok_def gettoken_def parseredirs.simps parseargs.simps backs.simps space_def whitespace_def
        word_char_def symbol_def symbols_def MAXARGS_def eval_nat_numeral)
  then show ?thesis using parsecmd_well_formed by blast
qed

text \<open>
  C27. The parser always comes to an end: for every text it returns a command or reports a syntax
  error; the bound on its recursion is never reached.
\<close>

theorem parsecmd_ends:
  "(\<exists>c. parsecmd s = Inr c) \<or> (\<exists>msg. parsecmd s = Inl (SyntaxPanic msg)) \<or> (\<exists>r. parsecmd s = Inl (Leftovers r))"
proof -
  have "fed s (parseline (4 * length s + 4) s)" using parser_fed by blast
  then show ?thesis
  proof (cases "parseline (4 * length s + 4) s")
    case (Inl e)
    then show ?thesis using \<open>fed s _\<close> by (cases e) (simp_all add: parsecmd_def)
  next
    case (Inr p)
    then show ?thesis by (cases p) (simp add: parsecmd_def split: prod.splits)
  qed
qed

end
