(* ===== verification/Umalloc.thy ===== *)
theory Umalloc
  imports Prelude
begin

unbundle bit_operations_syntax

text \<open>
  The storage allocator of user programs, \<^verbatim>\<open>umalloc.c\<close>. Addresses count in units of a header, eight
  bytes; a header has the address of the next free block and the size of its own block in units. The
  free blocks form a ring in the order of their addresses that starts at the static header \<open>base\<close>,
  which lies below the heap; \<open>sbrk\<close> is the system call that moves the end of the heap. The byte counts of the C code are 32-bit and wrap around.
\<close>

section \<open>Data and operations\<close>

record header =
  h_ptr :: nat
  h_size :: nat

record mstate =
  heap :: "nat \<Rightarrow> header"
  freep :: "nat option"
  brk :: nat

text \<open>The loop of \<open>free\<close> that finds the block after which \<open>bp\<close> belongs.\<close>

partial_function (option) find_slot :: "(nat \<Rightarrow> header) \<Rightarrow> nat \<Rightarrow> nat \<Rightarrow> nat option" where
  "find_slot h bp p =
     (let q = h_ptr (h p)
      in if p < bp \<and> bp < q then Some p
         else if q \<le> p \<and> (p < bp \<or> bp < q) then Some p
         else find_slot h bp q)"

text \<open>The block at \<open>bp\<close> is put into the ring after \<open>p\<close> and joined with its neighbours.\<close>

definition join_at :: "nat \<Rightarrow> nat \<Rightarrow> (nat \<Rightarrow> header) \<Rightarrow> nat \<Rightarrow> header" where
  "join_at p bp h =
     (let q = h_ptr (h p);
          h = (if bp + h_size (h bp) = q
               then h(bp := \<lparr>h_ptr = h_ptr (h q), h_size = h_size (h bp) + h_size (h q)\<rparr>)
               else h(bp := (h bp)\<lparr>h_ptr := q\<rparr>))
      in if p + h_size (h p) = bp
         then h(p := \<lparr>h_ptr = h_ptr (h bp), h_size = h_size (h p) + h_size (h bp)\<rparr>)
         else h(p := (h p)\<lparr>h_ptr := bp\<rparr>))"

definition free :: "nat \<Rightarrow> mstate \<Rightarrow> mstate option" where
  "free ap s =
     (let bp = ap - 1
      in case freep s of None \<Rightarrow> None
      | Some fp \<Rightarrow> (case find_slot (heap s) bp fp of None \<Rightarrow> None
        | Some p \<Rightarrow> Some (s\<lparr>heap := join_at p bp (heap s), freep := Some p\<rparr>)))"

text \<open>
  The system call: growing fails when the process would have more than \<open>limit\<close> units; shrinking by more
  than the size of the process wraps around in \<^verbatim>\<open>deallocuvm\<close>, which then leaves the size as it is.
\<close>

definition sbrk :: "nat \<Rightarrow> int \<Rightarrow> mstate \<Rightarrow> (nat \<times> mstate) option" where
  "sbrk limit n s =
     (let b = int (brk s) + n div 8
      in if 0 < n then if int limit < b then None else Some (brk s, s\<lparr>brk := nat b\<rparr>)
         else if b < 0 then Some (brk s, s)
         else if b = 0 then None else Some (brk s, s\<lparr>brk := nat b\<rparr>))"

definition morecore :: "nat \<Rightarrow> nat \<Rightarrow> mstate \<Rightarrow> (nat option \<times> mstate) option" where
  "morecore limit nu s =
     (let nu = (if nu < 4096 then 4096 else nu)
      in case sbrk limit (sint (of_nat nu * 8 :: uint)) s of None \<Rightarrow> Some (None, s)
         | Some (hp, s) \<Rightarrow>
             map_option (\<lambda>s. (freep s, s)) (free (hp + 1) (s\<lparr>heap := (heap s)(hp := (heap s hp)\<lparr>h_size := nu\<rparr>)\<rparr>)))"

partial_function (option) malloc_loop :: "nat \<Rightarrow> nat \<Rightarrow> nat \<Rightarrow> nat \<Rightarrow> mstate \<Rightarrow> (nat option \<times> mstate) option" where
  "malloc_loop limit nunits prevp p s =
     (let h = heap s
      in if nunits \<le> h_size (h p)
         then if h_size (h p) = nunits
           then Some (Some (p + 1), s\<lparr>heap := h(prevp := (h prevp)\<lparr>h_ptr := h_ptr (h p)\<rparr>), freep := Some prevp\<rparr>)
           else let h = h(p := (h p)\<lparr>h_size := h_size (h p) - nunits\<rparr>);
                    p = p + h_size (h p);
                    h = h(p := (h p)\<lparr>h_size := nunits\<rparr>)
                in Some (Some (p + 1), s\<lparr>heap := h, freep := Some prevp\<rparr>)
         else if Some p = freep s
         then (case morecore limit nunits s of None \<Rightarrow> None
               | Some (None, s) \<Rightarrow> Some (None, s)
               | Some (Some p, s) \<Rightarrow> malloc_loop limit nunits p (h_ptr (heap s p)) s)
         else malloc_loop limit nunits p (h_ptr (h p)) s)"

definition units_for :: "uint \<Rightarrow> nat" where
  "units_for nbytes = unat ((nbytes + 8 - 1) div 8 + 1)"

definition start_list :: "nat \<Rightarrow> mstate \<Rightarrow> mstate" where
  "start_list base s =
     (case freep s of None \<Rightarrow> s\<lparr>heap := (heap s)(base := \<lparr>h_ptr = base, h_size = 0\<rparr>), freep := Some base\<rparr> | Some _ \<Rightarrow> s)"

definition malloc :: "nat \<Rightarrow> nat \<Rightarrow> uint \<Rightarrow> mstate \<Rightarrow> (nat option \<times> mstate) option" where
  "malloc base limit nbytes s =
     (let s = start_list base s
      in case freep s of None \<Rightarrow> None
         | Some prevp \<Rightarrow> malloc_loop limit (units_for nbytes) prevp (h_ptr (heap s prevp)) s)"

section \<open>Rings\<close>

text \<open>\<open>links h xs z\<close>: each block of \<open>xs\<close> points to the next one, the last to \<open>z\<close>.\<close>

fun links :: "(nat \<Rightarrow> header) \<Rightarrow> nat list \<Rightarrow> nat \<Rightarrow> bool" where
  "links h [] z = True"
| "links h (x # xs) z = (h_ptr (h x) = hd (xs @ [z]) \<and> links h xs z)"

lemma links_append: "links h (as @ bs) z \<longleftrightarrow> links h as (hd (bs @ [z])) \<and> links h bs z"
  by (induction as) (auto simp: hd_append)

lemma links_cong: "(\<And>a. a \<in> set xs \<Longrightarrow> h_ptr (h' a) = h_ptr (h a)) \<Longrightarrow> links h' xs z = links h xs z"
  by (induction xs) auto

lemma links_last: "links h (as @ [p]) z \<longleftrightarrow> links h as p \<and> h_ptr (h p) = z"
  by (simp add: links_append)

definition span :: "(nat \<Rightarrow> header) \<Rightarrow> nat \<Rightarrow> nat set" where
  "span h a = {a..<a + h_size (h a)}"

definition ring :: "nat \<Rightarrow> (nat \<Rightarrow> header) \<Rightarrow> nat list \<Rightarrow> bool" where
  "ring base h xs \<longleftrightarrow> xs \<noteq> [] \<and> hd xs = base \<and> links h xs base \<and> sorted_wrt (\<lambda>a b. a + h_size (h a) < b) xs
     \<and> h_size (h base) = 0 \<and> (\<forall>a \<in> set (tl xs). 0 < h_size (h a))"

lemma ring_distinct: "sorted_wrt (\<lambda>a b. a + h_size (h a) < b) xs \<Longrightarrow> distinct xs"
  by (induction xs) auto

text \<open>A block that overlaps no free one lies between two neighbours of the ring.\<close>

lemma ring_split:
  assumes "ring base h xs" "base < bp" "\<And>a. a \<in> set xs \<Longrightarrow> a \<noteq> bp"
  shows "\<exists>as p bs. xs = as @ p # bs \<and> (\<forall>a \<in> set (as @ [p]). a < bp) \<and> (\<forall>b \<in> set bs. bp < b)"
proof -
  let ?l = "takeWhile (\<lambda>a. a < bp) xs" and ?r = "dropWhile (\<lambda>a. a < bp) xs"
  have "?l \<noteq> []" using assms(1,2) by (cases xs) (auto simp: ring_def)
  then obtain as p where l: "?l = as @ [p]" by (metis rev_exhaust)
  have lt: "\<forall>a \<in> set ?l. a < bp" by (auto dest: set_takeWhileD)
  have gt: "bp < b" if b: "b \<in> set ?r" for b
  proof -
    obtain c r where r: "?r = c # r" using b by (cases ?r) auto
    have "\<not> c < bp" using hd_dropWhile [of "\<lambda>a. a < bp" xs] r by simp
    moreover have "c \<noteq> bp" using assms(3) r by (metis list.set_intros(1) set_dropWhileD)
    moreover have "sorted_wrt (\<lambda>a b. a + h_size (h a) < b) (?l @ ?r)"
      using assms(1) by (simp only: takeWhile_dropWhile_id ring_def)
    then have "sorted_wrt (\<lambda>a b. a + h_size (h a) < b) (c # r)" by (simp only: sorted_wrt_append r)
    ultimately show ?thesis using b unfolding r by auto
  qed
  have "xs = as @ p # ?r" using l takeWhile_dropWhile_id [of "\<lambda>a. a < bp" xs] by (metis append.assoc append_Cons append_Nil)
  with lt gt l show ?thesis by (metis (no_types, lifting))
qed

lemma find_slot_below:
  assumes "links h (as @ [p]) q" "\<forall>a \<in> set (as @ [p]). a < bp" "bp < q \<or> q \<le> p" "sorted_wrt (<) (as @ [p])" "x # r = as @ [p]"
  shows "find_slot h bp x = Some p"
  using assms
proof (induction as arbitrary: x r)
  case Nil
  then show ?case by (subst find_slot.simps) (auto simp: Let_def)
next
  case (Cons a as)
  then have x: "x = a" by simp
  define y where "y = hd (as @ [p])"
  have y: "h_ptr (h a) = y" "y < bp" "a < y" using Cons.prems by (auto simp: y_def hd_append split: if_splits)
  have "find_slot h bp y = Some p"
    by (rule Cons.IH [of y "tl (as @ [p])"]) (use Cons.prems in \<open>auto simp: y_def\<close>)
  then show ?case using y by (subst find_slot.simps) (simp add: x Let_def)
qed

lemma find_slot_above:
  assumes "links h (x # r) base" "\<forall>a \<in> set (x # r). bp < a" "base < bp" "sorted_wrt (<) (x # r)"
  shows "find_slot h bp x = find_slot h bp base"
  using assms
proof (induction r arbitrary: x)
  case Nil
  then show ?case by (subst find_slot.simps) (simp add: Let_def)
next
  case (Cons y r)
  have "find_slot h bp x = find_slot h bp y" using Cons.prems by (subst find_slot.simps) (simp add: Let_def)
  also have "\<dots> = find_slot h bp base" by (rule Cons.IH) (use Cons.prems in simp_all)
  finally show ?case .
qed

lemma sorted_wrt_lt: "sorted_wrt (\<lambda>a b. a + h_size (h a) < b) xs \<Longrightarrow> sorted_wrt (<) xs"
  by (erule sorted_wrt_mono_rel [rotated]) simp

lemma find_slot_ring:
  assumes r: "ring base h (as @ p # bs)" and lt: "\<forall>a \<in> set (as @ [p]). a < bp" and gt: "\<forall>b \<in> set bs. bp < b"
    and fp: "fp \<in> set (as @ p # bs)"
  shows "find_slot h bp fp = Some p"
proof -
  let ?q = "hd (bs @ [base])"
  have l: "links h (as @ [p]) ?q" "links h bs base" using r links_append [of h "as @ [p]" bs base] by (auto simp: ring_def)
  have s: "sorted_wrt (<) (as @ p # bs)" using r sorted_wrt_lt by (auto simp: ring_def)
  have base: "base \<in> set (as @ [p])" "base < bp" using r lt by (auto simp: ring_def hd_append split: if_splits)
  have q: "bp < ?q \<or> ?q \<le> p"
  proof (cases bs)
    case Nil
    have "base \<le> p" using r s by (cases as) (auto simp: ring_def sorted_wrt_append)
    with Nil show ?thesis by simp
  qed (use gt in simp)
  have below: "find_slot h bp x = Some p" if "x \<in> set (as @ [p])" for x
  proof -
    obtain us vs where uv: "as @ [p] = us @ x # vs" using split_list [OF \<open>x \<in> set (as @ [p])\<close>] by blast
    have e: "x # vs = butlast (x # vs) @ [p]" by (metis append_butlast_last_id last_appendR last_snoc list.distinct(1) uv)
    have "links h (x # vs) ?q" using l(1) links_append [of h us "x # vs" ?q] unfolding uv by simp
    then have "links h (butlast (x # vs) @ [p]) ?q" using e by metis
    moreover have "set (butlast (x # vs) @ [p]) \<subseteq> set (as @ [p])" using uv e by (metis set_append sup_ge2)
    moreover have "sorted_wrt (<) (x # vs)" using s uv sorted_wrt_append [of "(<)" "us" "x # vs"]
      by (metis append.assoc append_Cons append_Nil sorted_wrt_append)
    ultimately show ?thesis using find_slot_below [of h "butlast (x # vs)" p ?q bp x vs] q lt e by (metis subsetD)
  qed
  show ?thesis
  proof (cases "fp \<in> set (as @ [p])")
    case False
    then have "fp \<in> set bs" using fp by auto
    then obtain us vs where uv: "bs = us @ fp # vs" using split_list by metis
    have "find_slot h bp fp = find_slot h bp base"
      by (rule find_slot_above) (use l(2) uv links_append [of h us "fp # vs" base] gt base(2) s in \<open>auto simp: sorted_wrt_append\<close>)
    then show ?thesis using below base(1) by simp
  qed (use below in simp)
qed

section \<open>Giving a block back\<close>

definition units :: "(nat \<Rightarrow> header) \<Rightarrow> nat list \<Rightarrow> nat set" where
  "units h xs = (\<Union>a \<in> set xs. span h a)"

lemma units_simps [simp]: "units h [] = {}" "units h (x # xs) = span h x \<union> units h xs" "units h (as @ bs) = units h as \<union> units h bs"
  by (auto simp: units_def)

lemma units_cong: "(\<And>a. a \<in> set xs \<Longrightarrow> h' a = h a) \<Longrightarrow> units h' xs = units h xs"
  by (auto simp: units_def span_def)

lemma span_join: "a + h_size (h a) = b \<Longrightarrow> {a..<b} \<union> {b..<b + n} = {a..<a + (h_size (h a) + n)}"
  by (auto simp: add.assoc)

lemma header_upd: "x\<lparr>h_ptr := q\<rparr> = \<lparr>h_ptr = q, h_size = h_size x\<rparr>"
  by (cases x) simp

text \<open>The first half of \<open>join_at\<close>: the header that \<open>bp\<close> gets, and the blocks that follow it then.\<close>

lemma join_next:
  assumes "links h bs base" "\<forall>b \<in> set bs. bp + h_size (h bp) \<le> b" "base < bp" "0 < h_size (h bp)" "q = hd (bs @ [base])"
    "sorted_wrt (\<lambda>a b. a + h_size (h a) < b) bs"
  shows "\<exists>n z cs. (if bp + h_size (h bp) = q then h(bp := \<lparr>h_ptr = h_ptr (h q), h_size = h_size (h bp) + h_size (h q)\<rparr>)
        else h(bp := (h bp)\<lparr>h_ptr := q\<rparr>)) = h(bp := \<lparr>h_ptr = n, h_size = z\<rparr>)
      \<and> n = hd (cs @ [base]) \<and> links h cs base \<and> 0 < z \<and> h_size (h bp) \<le> z \<and> (\<forall>c \<in> set cs. bp + z < c) \<and> set cs \<subseteq> set bs
      \<and> sorted_wrt (\<lambda>a b. a + h_size (h a) < b) cs
      \<and> {bp..<bp + z} \<union> units h cs = span h bp \<union> units h bs"
proof (cases "bp + h_size (h bp) = q")
  case True
  then obtain cs where bs: "bs = q # cs" using assms(3,5) by (cases bs) auto
  have u: "{bp..<bp + (h_size (h bp) + h_size (h q))} = span h bp \<union> span h q"
    using span_join [of bp h q "h_size (h q)"] True by (simp add: span_def)
  have e: "bp + (h_size (h bp) + h_size (h q)) = q + h_size (h q)" using True by simp
  have c: "\<forall>c \<in> set cs. bp + (h_size (h bp) + h_size (h q)) < c" unfolding e using assms(6) bs by simp
  have f: "h_ptr (h q) = hd (cs @ [base])" "links h cs base" "set cs \<subseteq> set bs" "sorted_wrt (\<lambda>a b. a + h_size (h a) < b) cs"
    using assms(1,6) bs by auto
  show ?thesis
    by (rule exI [of _ "h_ptr (h q)"], rule exI [of _ "h_size (h bp) + h_size (h q)"], rule exI [of _ cs])
      (use True assms(4) c u bs f in \<open>simp add: Un_assoc\<close>)
next
  case False
  have lt: "\<forall>c \<in> set bs. bp + h_size (h bp) < c"
  proof
    fix c assume c: "c \<in> set bs"
    then obtain b cs where bs: "bs = b # cs" by (cases bs) auto
    have "bp + h_size (h bp) < b" using False assms(2,5) bs by (simp add: le_neq_implies_less)
    then show "bp + h_size (h bp) < c" using c assms(6) bs by auto
  qed
  show ?thesis
    by (rule exI [of _ q], rule exI [of _ "h_size (h bp)"], rule exI [of _ bs])
      (use False assms lt in \<open>simp add: span_def header_upd\<close>)
qed

text \<open>The second half: the header that \<open>p\<close> gets.\<close>

lemma join_prev:
  assumes r: "ring base h (as @ p # bs)" and bp: "p + h_size (h p) \<le> bp" "p < bp"
    and cs: "n = hd (cs @ [base])" "links h cs base" "0 < z" "\<forall>c \<in> set cs. bp + z < c" "set cs \<subseteq> set bs"
      "sorted_wrt (\<lambda>a b. a + h_size (h a) < b) cs"
  defines "g \<equiv> h(bp := \<lparr>h_ptr = n, h_size = z\<rparr>)"
  defines "k \<equiv> (if p + h_size (g p) = bp then g(p := \<lparr>h_ptr = h_ptr (g bp), h_size = h_size (g p) + h_size (g bp)\<rparr>)
      else g(p := (g p)\<lparr>h_ptr := bp\<rparr>))"
  shows "\<exists>ys. ring base k ys \<and> p \<in> set ys \<and> (\<exists>a \<in> set ys. {bp..<bp + z} \<subseteq> span k a)
    \<and> units k ys = units h (as @ [p]) \<union> {bp..<bp + z} \<union> units h cs"
proof -
  note R = r [unfolded ring_def]
  have s: "sorted_wrt (\<lambda>a b. a + h_size (h a) < b) (as @ [p])" using R sorted_wrt_append [of _ "as @ [p]" bs] by simp
  have lo: "\<forall>a \<in> set as. a + h_size (h a) < p" using s by (simp add: sorted_wrt_append)
  have far: "\<forall>a \<in> set as. a + h_size (h a) < bp \<and> (\<forall>c \<in> set cs. a + h_size (h a) < c)"
    using lo cs(4) bp(2) by (meson less_trans add_lessD1)
  have las: "links h as p" using R by (simp add: links_append)
  have kas: "k a = h a" if "a \<in> set as" for a using lo bp that by (auto simp: k_def g_def)
  have kcs: "k a = h a" if "a \<in> set cs" for a using cs(4) bp that by (auto simp: k_def g_def)
  have "hd (as @ [p]) = base" using R by (cases as) auto
  have L: "links k as p" "links k cs base" using las cs(2) links_cong [of as k h p] links_cong [of cs k h base] kas kcs by simp_all
  have U: "units k as = units h as" "units k cs = units h cs" using units_cong kas kcs by blast+
  have S: "sorted_wrt (\<lambda>a b. a + h_size (k a) < b) as" "sorted_wrt (\<lambda>a b. a + h_size (k a) < b) cs"
    by (rule sorted_wrt_mono_rel [of _ "\<lambda>a b. a + h_size (h a) < b"]; use s cs(6) kas kcs in \<open>simp add: sorted_wrt_append\<close>)+
  have base: "h_size (k base) = 0 \<and> (as = [] \<longrightarrow> p = base \<and> p + h_size (h p) \<noteq> bp)"
  proof (cases as)
    case Nil
    then have "p = base" "h_size (h p) = 0" using R by auto
    then show ?thesis using bp Nil by (auto simp: k_def g_def)
  next
    case (Cons a as')
    then have "base \<in> set as" using R by auto
    then show ?thesis using kas R Cons by simp
  qed
  have pos: "\<forall>a \<in> set (tl as). 0 < h_size (k a)" "as \<noteq> [] \<longrightarrow> 0 < h_size (h p)" "\<forall>a \<in> set cs. 0 < h_size (k a)"
    using R kas kcs cs(5) by (cases as; auto)+
  show ?thesis
  proof (cases "p + h_size (h p) = bp")
    case True
    have k: "k p = \<lparr>h_ptr = n, h_size = h_size (h p) + z\<rparr>" using True bp by (simp add: k_def g_def)
    have "as \<noteq> []" using base True by auto
    have sp: "span k p = span h p \<union> {bp..<bp + z}" using span_join [of p h bp z] True by (simp add: span_def k)
    then have u: "units k (as @ p # cs) = units h (as @ [p]) \<union> {bp..<bp + z} \<union> units h cs" using U by auto
    have "sorted_wrt (\<lambda>a b. a + h_size (k a) < b) (as @ p # cs)"
      using S lo far cs(4) bp True kas k by (auto simp: sorted_wrt_append)
    then have "ring base k (as @ p # cs)"
      using L base pos k cs(1) R \<open>as \<noteq> []\<close> by (auto simp: ring_def links_append)
    with u sp show ?thesis by (intro exI [of _ "as @ p # cs"]) auto
  next
    case False
    have k: "k p = (h p)\<lparr>h_ptr := bp\<rparr>" "k bp = \<lparr>h_ptr = n, h_size = z\<rparr>" using False bp by (simp_all add: k_def g_def)
    have u: "units k (as @ p # bp # cs) = units h (as @ [p]) \<union> {bp..<bp + z} \<union> units h cs" using U k by (auto simp: span_def)
    have "sorted_wrt (\<lambda>a b. a + h_size (k a) < b) (as @ p # bp # cs)"
      using S lo far cs(4) bp False kas k by (auto simp: sorted_wrt_append)
    then have "ring base k (as @ p # bp # cs)"
      using L base pos k cs(1,3) R by (cases as) (auto simp: ring_def links_append hd_append)
    moreover have "{bp..<bp + z} \<subseteq> span k bp" by (simp add: span_def k)
    ultimately show ?thesis using u by (intro exI [of _ "as @ p # bp # cs"]) auto
  qed
qed

lemma join_at_ring:
  assumes r: "ring base h (as @ p # bs)" and bp: "p + h_size (h p) \<le> bp" "p < bp" "0 < h_size (h bp)"
    and gt: "\<forall>b \<in> set bs. bp + h_size (h bp) \<le> b"
  shows "\<exists>ys. ring base (join_at p bp h) ys \<and> p \<in> set ys \<and> (\<exists>a \<in> set ys. h_size (h bp) \<le> h_size (join_at p bp h a))
      \<and> units (join_at p bp h) ys = units h (as @ p # bs) \<union> span h bp"
    and "a \<noteq> p \<Longrightarrow> a \<noteq> bp \<Longrightarrow> join_at p bp h a = h a"
proof -
  note R = r [unfolded ring_def]
  have "base \<le> p" using R by (cases as) (auto simp: sorted_wrt_append)
  then have b: "base < bp" using bp(2) by simp
  let ?q = "h_ptr (h p)"
  have q: "?q = hd (bs @ [base])" "links h bs base" "sorted_wrt (\<lambda>a b. a + h_size (h a) < b) bs"
    using R by (simp_all add: links_append sorted_wrt_append)
  obtain n z cs where c: "(if bp + h_size (h bp) = ?q then h(bp := \<lparr>h_ptr = h_ptr (h ?q), h_size = h_size (h bp) + h_size (h ?q)\<rparr>)
        else h(bp := (h bp)\<lparr>h_ptr := ?q\<rparr>)) = h(bp := \<lparr>h_ptr = n, h_size = z\<rparr>)"
      "n = hd (cs @ [base])" "links h cs base" "0 < z" "\<forall>c \<in> set cs. bp + z < c" "set cs \<subseteq> set bs"
      "sorted_wrt (\<lambda>a b. a + h_size (h a) < b) cs" "{bp..<bp + z} \<union> units h cs = span h bp \<union> units h bs" "h_size (h bp) \<le> z"
    using join_next [OF q(2) gt b bp(3) q(1,3)] by blast
  have big: "h_size (h bp) \<le> h_size (k a)" if "{bp..<bp + z} \<subseteq> span k a" for k :: "nat \<Rightarrow> header" and a
  proof -
    have "card {bp..<bp + z} \<le> card (span k a)" by (rule card_mono [OF _ that]) (simp add: span_def)
    then show ?thesis using c(9) by (simp add: span_def)
  qed
  obtain ys where ys: "ring base (join_at p bp h) ys" "p \<in> set ys" "\<exists>a \<in> set ys. {bp..<bp + z} \<subseteq> span (join_at p bp h) a"
      "units (join_at p bp h) ys = units h (as @ [p]) \<union> ({bp..<bp + z} \<union> units h cs)"
    using join_prev [OF r bp(1,2) c(2-7)] unfolding join_at_def Let_def c(1) Un_assoc by blast
  have "units (join_at p bp h) ys = units h (as @ p # bs) \<union> span h bp" unfolding ys(4) c(8) by auto
  then show "\<exists>ys. ring base (join_at p bp h) ys \<and> p \<in> set ys \<and> (\<exists>a \<in> set ys. h_size (h bp) \<le> h_size (join_at p bp h a))
      \<and> units (join_at p bp h) ys = units h (as @ p # bs) \<union> span h bp" using ys(1-3) big by blast
  show "a \<noteq> p \<Longrightarrow> a \<noteq> bp \<Longrightarrow> join_at p bp h a = h a" by (simp add: join_at_def Let_def)
qed

section \<open>The invariant\<close>

text \<open>
  The blocks in use, given by the addresses of their headers, do not overlap each other or the free
  blocks; everything is between the static header and the end of the heap.
\<close>

definition heap_inv :: "nat \<Rightarrow> mstate \<Rightarrow> nat set \<Rightarrow> nat list \<Rightarrow> bool" where
  "heap_inv base s live xs \<longleftrightarrow> ring base (heap s) xs \<and> (\<exists>fp \<in> set xs. freep s = Some fp)
     \<and> units (heap s) xs \<subseteq> {base<..<brk s} \<and> base < brk s
     \<and> (\<forall>a \<in> live. 0 < h_size (heap s a) \<and> span (heap s) a \<subseteq> {base<..<brk s} - units (heap s) xs)
     \<and> (\<forall>a \<in> live. \<forall>b \<in> live. a \<noteq> b \<longrightarrow> span (heap s) a \<inter> span (heap s) b = {})"

definition used :: "(nat \<Rightarrow> header) \<Rightarrow> nat set \<Rightarrow> nat set" where
  "used h live = (\<Union>a \<in> live. span h a)"

lemma used_bounds:
  assumes "heap_inv base s live xs" "a \<in> used (heap s) live"
  shows "base < a" "a < brk s" "a \<notin> units (heap s) xs"
proof -
  obtain b where b: "b \<in> live" "a \<in> span (heap s) b" using assms(2) by (auto simp: used_def)
  have "span (heap s) b \<subseteq> {base<..<brk s} - units (heap s) xs" using assms(1) b(1) by (simp add: heap_inv_def)
  with b(2) have "a \<in> {base<..<brk s} - units (heap s) xs" by (rule subsetD [rotated])
  then show "base < a" "a < brk s" "a \<notin> units (heap s) xs" by simp_all
qed

lemma used_off_ring:
  assumes i: "heap_inv base s live xs" and a: "a \<in> used (heap s) live"
  shows "a \<notin> set xs"
proof
  assume x: "a \<in> set xs"
  have "ring base (heap s) xs" using i by (simp add: heap_inv_def)
  then show False using x used_bounds [OF i a] by (cases xs) (auto simp: ring_def units_def span_def)
qed

lemma live_used: "heap_inv base s live xs \<Longrightarrow> a \<in> live \<Longrightarrow> a \<in> used (heap s) live"
  by (auto simp: heap_inv_def used_def span_def)

lemma span_nonempty: "0 < h_size (h a) \<Longrightarrow> a \<in> span h a"
  by (simp add: span_def)

lemma span_disjoint: "0 < h_size (h a) \<Longrightarrow> 0 < h_size (h b) \<Longrightarrow> span h a \<inter> span h b = {} \<Longrightarrow>
    a + h_size (h a) \<le> b \<or> b + h_size (h b) \<le> a"
  by (auto simp: span_def)

lemma ring_member_base: "ring base h xs \<Longrightarrow> a \<in> set xs \<Longrightarrow> a = base \<or> 0 < h_size (h a) \<and> span h a \<subseteq> units h xs"
  by (cases xs) (auto simp: ring_def units_def)

lemma ring_join:
  assumes r: "ring base h xs" and fp: "fp \<in> set xs" and bp: "0 < h_size (h bp)" "base < bp" "span h bp \<inter> units h xs = {}"
  shows "\<exists>p ys. find_slot h bp fp = Some p \<and> p \<in> set xs \<and> ring base (join_at p bp h) ys \<and> p \<in> set ys
    \<and> (\<exists>a \<in> set ys. h_size (h bp) \<le> h_size (join_at p bp h a)) \<and> units (join_at p bp h) ys = units h xs \<union> span h bp \<and> (\<forall>a. a \<noteq> p \<longrightarrow> a \<noteq> bp \<longrightarrow> join_at p bp h a = h a)"
proof -
  have side: "a < bp \<and> a + h_size (h a) \<le> bp \<or> bp + h_size (h bp) \<le> a" if "a \<in> set xs" for a
  proof (cases "a = base")
    case True
    then show ?thesis using bp(2) r by (auto simp: ring_def)
  next
    case False
    then have "0 < h_size (h a)" "span h a \<subseteq> units h xs" using ring_member_base [OF r that] by auto
    then show ?thesis using span_disjoint [of h a bp] bp(1,3) by fastforce
  qed
  have ne: "a \<noteq> bp" if "a \<in> set xs" for a using side [OF that] bp(1) by auto
  obtain as p bs where xs: "xs = as @ p # bs" "\<forall>a \<in> set (as @ [p]). a < bp" "\<forall>b \<in> set bs. bp < b"
    using ring_split [OF r bp(2) ne] by blast
  have p: "p + h_size (h p) \<le> bp" "p < bp" using side [of p] xs by auto
  have gt: "\<forall>b \<in> set bs. bp + h_size (h bp) \<le> b"
  proof
    fix b assume b: "b \<in> set bs"
    then have "bp < b" using xs(3) by simp
    then show "bp + h_size (h bp) \<le> b" using side [of b] b xs(1) by auto
  qed
  have "find_slot h bp fp = Some p" using find_slot_ring [OF r [unfolded xs(1)] xs(2,3)] fp xs(1) by simp
  with join_at_ring [OF r [unfolded xs(1)] p bp(1) gt] xs(1) show ?thesis by auto
qed

lemma free_inv:
  assumes i: "heap_inv base s live xs" and bp: "0 < h_size (heap s bp)" "span (heap s) bp \<subseteq> {base<..<brk s} - units (heap s) xs"
    and others: "\<forall>a \<in> live. a \<noteq> bp \<longrightarrow> span (heap s) a \<inter> span (heap s) bp = {}"
  shows "\<exists>t ys. free (bp + 1) s = Some t \<and> heap_inv base t (live - {bp}) ys \<and> brk t = brk s
    \<and> (\<exists>a \<in> set ys. h_size (heap s bp) \<le> h_size (heap t a)) \<and> units (heap t) ys = units (heap s) xs \<union> span (heap s) bp \<and> (\<forall>a \<in> used (heap s) (live - {bp}). heap t a = heap s a)"
proof -
  note I = i [unfolded heap_inv_def]
  obtain fp where fp: "fp \<in> set xs" "freep s = Some fp" using I by blast
  have "base < bp" using bp span_nonempty [of "heap s" bp] by auto
  then obtain p ys where p: "find_slot (heap s) bp fp = Some p" "p \<in> set xs" "ring base (join_at p bp (heap s)) ys" "p \<in> set ys"
    "units (join_at p bp (heap s)) ys = units (heap s) xs \<union> span (heap s) bp" "\<forall>a. a \<noteq> p \<longrightarrow> a \<noteq> bp \<longrightarrow> join_at p bp (heap s) a = heap s a"
    "\<exists>a \<in> set ys. h_size (heap s bp) \<le> h_size (join_at p bp (heap s) a)"
    using ring_join [where base = base and h = "heap s" and bp = bp, OF _ fp(1) bp(1)] bp(2) I by blast
  let ?t = "s\<lparr>heap := join_at p bp (heap s), freep := Some p\<rparr>"
  have same: "join_at p bp (heap s) a = heap s a" if a: "a \<in> used (heap s) (live - {bp})" for a
  proof -
    have l: "a \<in> used (heap s) live" using a by (auto simp: used_def)
    have "a \<noteq> p" using used_off_ring [OF i l] p(2) by auto
    moreover have "a \<noteq> bp" using a others span_nonempty [of "heap s" bp] bp(1) by (auto simp: used_def)
    ultimately show ?thesis using p(6) by simp
  qed
  have samel: "join_at p bp (heap s) a = heap s a" if "a \<in> live - {bp}" for a
    by (rule same) (use that live_used [OF i, of a] I in \<open>auto simp: used_def span_def\<close>)
  have sp: "span (join_at p bp (heap s)) a = span (heap s) a" if "a \<in> live - {bp}" for a using samel [OF that] by (simp add: span_def)
  have "heap_inv base ?t (live - {bp}) ys"
    unfolding heap_inv_def
  proof (intro conjI)
    show "units (heap ?t) ys \<subseteq> {base<..<brk ?t}" using I p(5) bp(2) by auto
    show "\<forall>a \<in> live - {bp}. 0 < h_size (heap ?t a) \<and> span (heap ?t) a \<subseteq> {base<..<brk ?t} - units (heap ?t) ys"
      using I samel sp p(5) others by auto
    show "\<forall>a \<in> live - {bp}. \<forall>b \<in> live - {bp}. a \<noteq> b \<longrightarrow> span (heap ?t) a \<inter> span (heap ?t) b = {}" using I sp by auto
  qed (use I p(3,4) in auto)
  then show ?thesis using fp p same by (intro exI [of _ ?t] exI [of _ ys]) (simp add: free_def Let_def)
qed

section \<open>Taking a block\<close>

lemma ring_below:
  assumes "ring base h xs" "units h xs \<subseteq> {base<..<b}" "base < b" "a \<in> set xs"
  shows "a < b"
proof (cases "a = base")
  case False
  then have "0 < h_size (h a)" "span h a \<subseteq> units h xs" using ring_member_base [OF assms(1,4)] by simp_all
  then have "a \<in> units h xs" using span_nonempty [of h a] by (simp add: subset_iff)
  then have "a \<in> {base<..<b}" using assms(2) by (rule rev_subsetD)
  then show ?thesis by simp
qed (use assms(3) in simp)

lemma heap_inv_live:
  assumes "heap_inv base s L xs" "a \<in> L"
  shows "0 < h_size (heap s a)" "span (heap s) a \<subseteq> {base<..<brk s} - units (heap s) xs"
  using assms by (simp_all add: heap_inv_def)

lemma heap_inv_apart: "heap_inv base s L xs \<Longrightarrow> a \<in> L \<Longrightarrow> b \<in> L \<Longrightarrow> a \<noteq> b \<Longrightarrow> span (heap s) a \<inter> span (heap s) b = {}"
  by (simp add: heap_inv_def)

text \<open>What leaves the ring and the headers of the blocks in use alone keeps the invariant.\<close>

lemma ring_cong:
  assumes r: "ring base h xs" and same: "\<And>a. a \<in> set xs \<Longrightarrow> k a = h a"
  shows "ring base k xs"
proof -
  note I = r [unfolded ring_def]
  have base: "base \<in> set xs" using I by auto
  have "sorted_wrt (\<lambda>a b. a + h_size (k a) < b) xs"
    by (rule sorted_wrt_mono_rel [of _ "\<lambda>a b. a + h_size (h a) < b"]) (use I same in auto)
  moreover have "links k xs base" using I links_cong [of xs k h base] same by simp
  moreover have "\<forall>a \<in> set (tl xs). 0 < h_size (k a)" using I same by (cases xs) auto
  ultimately show ?thesis using I same base by (simp add: ring_def)
qed

lemma heap_inv_cong:
  assumes i: "heap_inv base s L xs" and same: "\<And>a. a \<in> set xs \<union> L \<Longrightarrow> heap t a = heap s a" and t: "freep t = freep s" "brk s \<le> brk t"
  shows "heap_inv base t L xs"
  unfolding heap_inv_def
proof (intro conjI ballI impI)
  note I = i [unfolded heap_inv_def]
  have sp: "span (heap t) a = span (heap s) a" if "a \<in> set xs \<union> L" for a using same [OF that] by (simp add: span_def)
  have u: "units (heap t) xs = units (heap s) xs" by (rule units_cong) (use same in simp)
  have b: "{base<..<brk s} \<subseteq> {base<..<brk t}" using t(2) by auto
  show "ring base (heap t) xs" by (rule ring_cong [of base "heap s"]) (use I same in auto)
  show "\<exists>fp \<in> set xs. freep t = Some fp" using I t(1) by simp
  show "units (heap t) xs \<subseteq> {base<..<brk t}" unfolding u using I b by (meson order_trans)
  show "base < brk t" using I t(2) by simp
  fix a assume a: "a \<in> L"
  show "0 < h_size (heap t a)" using heap_inv_live(1) [OF i a] same a by simp
  have "span (heap t) a = span (heap s) a" using sp a by simp
  then show "span (heap t) a \<subseteq> {base<..<brk t} - units (heap t) xs" unfolding u using heap_inv_live(2) [OF i a] b by blast
  show "span (heap t) a \<inter> span (heap t) b = {}" if "b \<in> L" "a \<noteq> b" for b
    using heap_inv_apart [OF i a that] sp a that(1) by simp
qed

text \<open>A larger heap with a header at its old end.\<close>

lemma grow_inv:
  fixes n :: nat
  assumes i: "heap_inv base s live xs"
  defines "t \<equiv> s\<lparr>brk := brk s + n, heap := (heap s)(brk s := (heap s (brk s))\<lparr>h_size := n\<rparr>)\<rparr>"
  shows "heap_inv base t live xs" "units (heap t) xs = units (heap s) xs" "\<And>a. a \<in> used (heap s) live \<Longrightarrow> heap t a = heap s a" "brk s \<notin> live"
proof -
  note I = i [unfolded heap_inv_def]
  have xs: "heap t a = heap s a" if "a \<in> set xs" for a
    using ring_below [OF conjunct1 [OF I], of "brk s" a] I that by (auto simp: t_def)
  show same: "heap t a = heap s a" if "a \<in> used (heap s) live" for a using used_bounds(2) [OF i that] by (simp add: t_def)
  have live: "heap t a = heap s a" if "a \<in> live" for a by (rule same) (rule live_used [OF i that])
  show "brk s \<notin> live" using used_bounds(2) [OF i live_used [OF i]] by blast
  show "units (heap t) xs = units (heap s) xs" by (rule units_cong) (rule xs)
  show "heap_inv base t live xs"
  proof (rule heap_inv_cong [OF i])
    show "heap t a = heap s a" if "a \<in> set xs \<union> live" for a using that xs live by blast
  qed (simp_all add: t_def)
qed

lemma sint_bytes: "n < 2 ^ 28 \<Longrightarrow> sint (of_nat n * 8 :: uint) = int n * 8"
proof -
  assume n: "n < 2 ^ 28"
  have "sint (of_nat n * 8 :: uint) = sint (word_of_int (int n * 8) :: uint)" by simp
  also have "\<dots> = signed_take_bit 31 (int n * 8)" by (simp only: sint_sbintrunc') simp
  also have "\<dots> = int n * 8" using n by (intro signed_take_bit_int_eq_self) auto
  finally show ?thesis .
qed

lemma morecore_inv:
  assumes i: "heap_inv base s live xs" and n: "0 < n" "n < 2 ^ 28"
  shows "morecore limit n s = Some (None, s) \<or>
    (\<exists>fp t ys. morecore limit n s = Some (Some fp, t) \<and> freep t = Some fp \<and> heap_inv base t live ys \<and>
      (\<exists>a \<in> set ys. n \<le> h_size (heap t a)) \<and> (\<forall>a \<in> used (heap s) live. heap t a = heap s a) \<and> brk s \<le> brk t)"
proof -
  define nu where "nu = (if n < 4096 then 4096 else n)"
  have nu: "nu < 2 ^ 28" "0 < nu" "n \<le> nu" using n by (auto simp: nu_def)
  let ?t = "s\<lparr>brk := brk s + nu, heap := (heap s)(brk s := (heap s (brk s))\<lparr>h_size := nu\<rparr>)\<rparr>"
  note g = grow_inv(1-3) [OF i, where n = nu] grow_inv(4) [OF i]
  show ?thesis
  proof (cases "brk s + nu \<le> limit")
    case False
    then have "sbrk limit (sint (of_nat nu * 8 :: uint)) s = None" using nu(2) by (simp add: sbrk_def Let_def sint_bytes [OF nu(1)])
    then show ?thesis by (simp add: morecore_def Let_def nu_def)
  next
    case True
    have b: "sbrk limit (sint (of_nat nu * 8 :: uint)) s = Some (brk s, s\<lparr>brk := brk s + nu\<rparr>)"
      using True nu(2) by (simp add: sbrk_def Let_def sint_bytes [OF nu(1)] nat_add_distrib)
    have G: "ring base (heap s) xs" "base < brk s" "units (heap s) xs \<subseteq> {base<..<brk s}" using i by (auto simp: heap_inv_def)
    have hp: "0 < h_size (heap ?t (brk s))" "span (heap ?t) (brk s) \<subseteq> {base<..<brk ?t} - units (heap ?t) xs"
      using nu G g(2) by (auto simp: span_def)
    have "\<forall>a \<in> live. a \<noteq> brk s \<longrightarrow> span (heap ?t) a \<inter> span (heap ?t) (brk s) = {}"
    proof (intro ballI impI)
      fix a assume a: "a \<in> live" "a \<noteq> brk s"
      have "span (heap s) a \<subseteq> {base<..<brk s}" using i a(1) unfolding heap_inv_def by blast
      moreover have "span (heap ?t) a = span (heap s) a" "span (heap ?t) (brk s) = {brk s..<brk s + nu}" using a(2) by (simp_all add: span_def)
      ultimately show "span (heap ?t) a \<inter> span (heap ?t) (brk s) = {}" by auto
    qed
    from free_inv [OF g(1) hp this] obtain u ys where u: "free (brk s + 1) ?t = Some u" "heap_inv base u (live - {brk s}) ys" "brk u = brk ?t"
      "\<exists>a \<in> set ys. h_size (heap ?t (brk s)) \<le> h_size (heap u a)" "\<forall>a \<in> used (heap ?t) (live - {brk s}). heap u a = heap ?t a" by blast
    have live: "live - {brk s} = live" using g(4) by simp
    obtain fp where fp: "freep u = Some fp" using u(2) by (auto simp: heap_inv_def)
    have m: "morecore limit n s = Some (Some fp, u)"
      unfolding morecore_def nu_def [symmetric] Let_def b using u(1) fp by simp
    have "\<exists>a \<in> set ys. n \<le> h_size (heap u a)" using u(4) nu(3) by force
    moreover have us: "used (heap ?t) live = used (heap s) live" using g(3) live_used [OF i] by (simp add: used_def span_def)
    moreover have "\<forall>a \<in> used (heap s) live. heap u a = heap s a" using u(5) g(3) unfolding live us by simp
    ultimately show ?thesis using m fp u(2,3) unfolding live by auto
  qed
qed

lemma sorted_wrt_either: "sorted_wrt R xs \<Longrightarrow> a \<in> set xs \<Longrightarrow> b \<in> set xs \<Longrightarrow> a \<noteq> b \<Longrightarrow> R a b \<or> R b a"
  by (induction xs) auto

lemma ring_spans_disjoint:
  assumes "ring base h xs" "a \<in> set xs" "b \<in> set xs" "a \<noteq> b"
  shows "span h a \<inter> span h b = {}"
  using sorted_wrt_either [of "\<lambda>a b. a + h_size (h a) < b" xs a b] assms by (auto simp: ring_def span_def)

lemma links_next: "links h xs z \<Longrightarrow> xs \<noteq> [] \<Longrightarrow> map (\<lambda>a. h_ptr (h a)) xs = tl xs @ [z]"
proof (induction xs)
  case (Cons x xs)
  then show ?case by (cases xs) simp_all
qed simp

text \<open>The block before a block of the ring, other than the static header.\<close>

lemma ring_prev:
  assumes r: "ring base h xs" and p: "p \<in> set xs" "p \<noteq> base" and v: "v \<in> set xs" "h_ptr (h v) = p"
  shows "\<exists>as bs. xs = as @ v # p # bs"
proof -
  obtain us bs where u: "xs = us @ p # bs" using split_list [OF p(1)] by blast
  then obtain as w where w: "us = as @ [w]" using r p(2) by (cases us rule: rev_cases) (auto simp: ring_def)
  have next_w: "h_ptr (h w) = p" using r u w by (auto simp: ring_def links_append)
  have "distinct xs" using r ring_distinct by (auto simp: ring_def)
  then have "distinct (tl xs @ [base])" using r by (cases xs) (auto simp: ring_def)
  moreover have "map (\<lambda>a. h_ptr (h a)) xs = tl xs @ [base]" using r by (intro links_next) (auto simp: ring_def)
  ultimately have "inj_on (\<lambda>a. h_ptr (h a)) (set xs)" using distinct_map [of "\<lambda>a. h_ptr (h a)" xs] by metis
  moreover have "w \<in> set xs" using u w by simp
  ultimately have "v = w" using v next_w by (metis inj_onD)
  then show ?thesis using u w by auto
qed

lemma ring_base_less: "ring base h xs \<Longrightarrow> p \<in> set xs \<Longrightarrow> p \<noteq> base \<Longrightarrow> base < p"
  by (cases xs) (auto simp: ring_def)

text \<open>Unlinking a block that fits exactly.\<close>

lemma unlink_ring:
  assumes r: "ring base h (as @ v # p # bs)"
  defines "k \<equiv> h(v := (h v)\<lparr>h_ptr := h_ptr (h p)\<rparr>)"
  shows "ring base k (as @ v # bs)" "units k (as @ v # bs) = units h (as @ v # p # bs) - span h p"
proof -
  note R = r [unfolded ring_def]
  have d: "distinct (as @ v # p # bs)" using R ring_distinct by blast
  have sz: "h_size (k a) = h_size (h a)" for a by (simp add: k_def)
  have pt: "h_ptr (k a) = h_ptr (h a)" if "a \<noteq> v" for a using that by (simp add: k_def)
  have l: "links h as v" "links h bs base" using R by (simp_all add: links_append)
  have "h_ptr (k a) = h_ptr (h a)" if "a \<in> set as \<union> set bs" for a by (rule pt) (use d that in auto)
  then have "links k as v" "links k bs base" using l links_cong [of as k h v] links_cong [of bs k h base] by simp_all
  moreover have "h_ptr (k v) = hd (bs @ [base])" using R by (simp add: k_def links_append)
  ultimately show "ring base k (as @ v # bs)"
    using R by (cases as) (auto simp: ring_def links_append sorted_wrt_append sz hd_append)
  have sp: "span k = span h" by (rule ext) (simp add: span_def sz)
  have "span h a \<inter> span h p = {}" if "a \<in> set (as @ v # bs)" for a using ring_spans_disjoint [OF r, of a p] d that by auto
  then show "units k (as @ v # bs) = units h (as @ v # p # bs) - span h p" by (auto simp: units_def sp)
qed

text \<open>Cutting the end off a larger block.\<close>

lemma cut_ring:
  assumes r: "ring base h xs" and p: "p \<in> set xs" "n < h_size (h p)" "0 < n"
  defines "q \<equiv> p + (h_size (h p) - n)"
  defines "k \<equiv> h(p := (h p)\<lparr>h_size := h_size (h p) - n\<rparr>, q := (h q)\<lparr>h_size := n\<rparr>)"
  shows "ring base k xs" "units k xs = units h xs - {q..<q + n}" "{q..<q + n} \<subseteq> span h p" "q \<noteq> p"
proof -
  note R = r [unfolded ring_def]
  show in_p: "{q..<q + n} \<subseteq> span h p" "q \<noteq> p" using p by (auto simp: q_def span_def)
  have qp: "q \<in> span h p" using p by (auto simp: q_def span_def)
  have pb: "p \<noteq> base" using R p by auto
  have nq: "a \<noteq> q" if "a \<in> set xs" for a
  proof (cases "a = p")
    case False
    have "a = base \<or> a \<in> span h a" using ring_member_base [OF r that] span_nonempty [of h a] by auto
    moreover have "base < q" using ring_base_less [OF r p(1) pb] by (simp add: q_def)
    moreover have "span h a \<inter> span h p = {}" using ring_spans_disjoint [OF r that p(1) False] .
    ultimately show ?thesis using qp by auto
  qed (use in_p(2) in auto)
  have ka: "k a = h a" if "a \<in> set xs" "a \<noteq> p" for a using that nq by (simp add: k_def)
  have kp: "k p = (h p)\<lparr>h_size := h_size (h p) - n\<rparr>" using in_p(2) by (simp add: k_def)
  have pt: "h_ptr (k a) = h_ptr (h a)" if "a \<in> set xs" for a using ka [OF that] kp by (cases "a = p") auto
  have sz: "h_size (k a) \<le> h_size (h a)" "0 < h_size (h a) \<Longrightarrow> 0 < h_size (k a)" if "a \<in> set xs" for a
    using ka [OF that] kp p by (cases "a = p"; auto)+
  have "sorted_wrt (\<lambda>a b. a + h_size (k a) < b) xs"
    by (rule sorted_wrt_mono_rel [of _ "\<lambda>a b. a + h_size (h a) < b"]) (use R sz(1) in \<open>auto intro: le_less_trans add_left_mono\<close>)
  moreover have "links k xs base" using R links_cong [of xs k h base] pt by simp
  moreover have "base \<in> set xs" using R by auto
  moreover have "\<forall>a \<in> set (tl xs). 0 < h_size (k a)" using R sz(2) by (cases xs) auto
  ultimately show "ring base k xs" using R ka pb by (simp add: ring_def)
  have "span k p = span h p - {q..<q + n}" using p by (auto simp: span_def kp q_def)
  moreover have "span k a = span h a - {q..<q + n}" if "a \<in> set xs" "a \<noteq> p" for a
    using ka [OF that] ring_spans_disjoint [OF r that(1) p(1) that(2)] in_p(1) by (auto simp: span_def)
  ultimately show "units k xs = units h xs - {q..<q + n}" unfolding units_def by blast
qed

text \<open>A part of the free units becomes a block in use.\<close>

lemma take_inv:
  assumes i: "heap_inv base s live xs" and r: "ring base (heap t) ys" "v \<in> set ys" "freep t = Some v" "brk t = brk s"
    and q: "units (heap t) ys = units (heap s) xs - span (heap t) q" "span (heap t) q \<subseteq> units (heap s) xs" "0 < h_size (heap t q)"
    and ch: "\<And>a. heap t a \<noteq> heap s a \<Longrightarrow> a = base \<or> a \<in> units (heap s) xs"
  shows "heap_inv base t (insert q live) ys \<and> q \<notin> live \<and> (\<forall>a \<in> used (heap s) live. heap t a = heap s a)"
proof -
  note I = i [unfolded heap_inv_def]
  have sameu: "heap t a = heap s a" if "a \<in> used (heap s) live" for a using ch [of a] used_bounds [OF i that] by auto
  have same: "heap t a = heap s a" if "a \<in> live" for a by (rule sameu) (rule live_used [OF i that])
  have sp: "span (heap t) a = span (heap s) a" if "a \<in> live" for a using same [OF that] by (simp add: span_def)
  have "q \<in> span (heap t) q" using q(3) by (simp add: span_def)
  then have "q \<notin> live" using q(2) used_bounds(3) [OF i live_used [OF i]] by auto
  moreover have "heap_inv base t (insert q live) ys"
    unfolding heap_inv_def
  proof (intro conjI)
    show "units (heap t) ys \<subseteq> {base<..<brk t}" using I q(1) r(4) by auto
    have "\<forall>a \<in> live. 0 < h_size (heap t a) \<and> span (heap t) a \<subseteq> {base<..<brk t} - units (heap t) ys"
    proof
      fix a assume a: "a \<in> live"
      then have "0 < h_size (heap s a)" "span (heap s) a \<subseteq> {base<..<brk s} - units (heap s) xs" using I by blast+
      then show "0 < h_size (heap t a) \<and> span (heap t) a \<subseteq> {base<..<brk t} - units (heap t) ys" using same [OF a] sp [OF a] q(1) r(4) by auto
    qed
    moreover have "span (heap t) q \<subseteq> {base<..<brk t} - units (heap t) ys" using I q(1,2) r(4) by auto
    ultimately show "\<forall>a \<in> insert q live. 0 < h_size (heap t a) \<and> span (heap t) a \<subseteq> {base<..<brk t} - units (heap t) ys"
      using q(3) by simp
    have d: "span (heap t) a \<inter> span (heap t) q = {}" if "a \<in> live" for a
    proof -
      have "span (heap s) a \<subseteq> {base<..<brk s} - units (heap s) xs" using I that by blast
      then show ?thesis using sp [OF that] q(2) by auto
    qed
    have "\<forall>a \<in> live. \<forall>b \<in> live. a \<noteq> b \<longrightarrow> span (heap t) a \<inter> span (heap t) b = {}" using I sp by simp
    then show "\<forall>a \<in> insert q live. \<forall>b \<in> insert q live. a \<noteq> b \<longrightarrow> span (heap t) a \<inter> span (heap t) b = {}"
      using d by (simp add: Int_commute)
  qed (use I r in auto)
  ultimately show ?thesis using sameu by blast
qed

definition allocated :: "nat \<Rightarrow> mstate \<Rightarrow> nat set \<Rightarrow> nat \<Rightarrow> nat option \<times> mstate \<Rightarrow> bool" where
  "allocated base s live n res \<longleftrightarrow>
     (case res of
        (None, t) \<Rightarrow> (\<exists>ys. heap_inv base t live ys) \<and> (\<forall>a \<in> used (heap s) live. heap t a = heap s a)
      | (Some ap, t) \<Rightarrow> \<exists>q ys. ap = q + 1 \<and> q \<notin> live \<and> h_size (heap t q) = n \<and> heap_inv base t (insert q live) ys
          \<and> (\<forall>a \<in> used (heap s) live. heap t a = heap s a))"

lemma loop_takes:
  assumes i: "heap_inv base s live xs" and v: "v \<in> set xs" "p \<in> set xs" "h_ptr (heap s v) = p" and n: "n \<le> h_size (heap s p)" "0 < n"
  shows "\<exists>res. malloc_loop limit n v p s = Some res \<and> allocated base s live n res"
proof -
  let ?h = "heap s"
  have r: "ring base ?h xs" using i by (simp add: heap_inv_def)
  have pb: "p \<noteq> base" using r n by (auto simp: ring_def)
  have xu: "a = base \<or> a \<in> units ?h xs" if "a \<in> set xs" for a using ring_member_base [OF r that] span_nonempty [of ?h a] by auto
  show ?thesis
  proof (cases "h_size (?h p) = n")
    case True
    obtain as bs where xs: "xs = as @ v # p # bs" using ring_prev [OF r v(2) pb v(1,3)] by blast
    let ?k = "?h(v := (?h v)\<lparr>h_ptr := h_ptr (?h p)\<rparr>)"
    let ?t = "s\<lparr>heap := ?k, freep := Some v\<rparr>"
    note u = unlink_ring [OF r [unfolded xs]]
    have "distinct xs" using r ring_distinct by (auto simp: ring_def)
    then have vp: "v \<noteq> p" unfolding xs by auto
    have kp: "?k p = ?h p" using vp by simp
    have sp: "span ?k p = span ?h p" using kp by (simp add: span_def)
    have "heap_inv base ?t (insert p live) (as @ v # bs) \<and> p \<notin> live \<and> (\<forall>a \<in> used (heap s) live. heap ?t a = heap s a)"
    proof (rule take_inv [OF i, of ?t "as @ v # bs" v p])
      show "span (heap ?t) p \<subseteq> units ?h xs" using sp xs by auto
      show "0 < h_size (heap ?t p)" using vp kp n by simp
      show "heap ?t a \<noteq> heap s a \<Longrightarrow> a = base \<or> a \<in> units (heap s) xs" for a using xu [OF v(1)] by (cases "a = v") auto
    qed (use u sp xs in auto)
    moreover have "malloc_loop limit n v p s = Some (Some (p + 1), ?t)" using n True by (subst malloc_loop.simps) (simp add: Let_def)
    moreover have "h_size (heap ?t p) = n" using kp True by simp
    ultimately show ?thesis by (auto simp: allocated_def)
  next
    case False
    then have lt: "n < h_size (?h p)" using n by simp
    let ?q = "p + (h_size (?h p) - n)"
    let ?k = "?h(p := (?h p)\<lparr>h_size := h_size (?h p) - n\<rparr>, ?q := (?h ?q)\<lparr>h_size := n\<rparr>)"
    let ?t = "s\<lparr>heap := ?k, freep := Some v\<rparr>"
    note c = cut_ring [OF r v(2) lt n(2)]
    have kq: "h_size (?k ?q) = n" by simp
    have sq: "span ?k ?q = {?q..<?q + n}" by (simp add: span_def)
    have pu: "span ?h p \<subseteq> units ?h xs" using ring_member_base [OF r v(2)] pb by simp
    have "heap_inv base ?t (insert ?q live) xs \<and> ?q \<notin> live \<and> (\<forall>a \<in> used (heap s) live. heap ?t a = heap s a)"
    proof (rule take_inv [OF i, of ?t xs v ?q])
      show "units (heap ?t) xs = units (heap s) xs - span (heap ?t) ?q" using c(2) sq by simp
      show "span (heap ?t) ?q \<subseteq> units (heap s) xs" using c(3) sq pu by auto
      have "?q \<in> {?q..<?q + n}" using n(2) by simp
      then have "?q \<in> units ?h xs" using c(3) pu by (meson subsetD)
      moreover have "p \<in> units ?h xs" using pu lt span_nonempty [of ?h p] by auto
      ultimately show "heap ?t a \<noteq> heap s a \<Longrightarrow> a = base \<or> a \<in> units (heap s) xs" for a by (cases "a = ?q"; cases "a = p") auto
    qed (use c(1) v(1) n(2) in auto)
    moreover have "malloc_loop limit n v p s = Some (Some (?q + 1), ?t)"
      using lt c(4) by (subst malloc_loop.simps) (simp add: Let_def)
    ultimately show ?thesis using kq by (auto simp: allocated_def)
  qed
qed

text \<open>The loop passes over the blocks that are too small.\<close>

lemma loop_walk:
  assumes "links (heap s) (v # as) p" "\<forall>a \<in> set as. h_size (heap s a) < n" "\<forall>a \<in> set as. freep s \<noteq> Some a"
  shows "malloc_loop limit n v (h_ptr (heap s v)) s = malloc_loop limit n (last (v # as)) p s"
  using assms
proof (induction as arbitrary: v)
  case (Cons a as)
  have "malloc_loop limit n v a s = malloc_loop limit n a (h_ptr (heap s a)) s"
    using Cons.prems by (subst malloc_loop.simps) (auto simp: Let_def)
  also have "\<dots> = malloc_loop limit n (last (a # as)) p s" by (rule Cons.IH) (use Cons.prems in simp_all)
  finally show ?case using Cons.prems by simp
qed simp

lemma ring_rotate:
  assumes r: "ring base h xs" and fp: "fp \<in> set xs"
  shows "\<exists>ws. links h (fp # ws) fp \<and> set (fp # ws) = set xs \<and> fp \<notin> set ws"
proof -
  obtain us vs where xs: "xs = us @ fp # vs" using split_list [OF fp] by blast
  note R = r [unfolded ring_def]
  have "distinct xs" using R ring_distinct by blast
  moreover have l: "links h us fp" "links h (fp # vs) base" using R unfolding xs links_append by simp_all
  have "links h ((fp # vs) @ us) fp"
    unfolding links_append
  proof
    have "hd (us @ [fp]) = base" using R xs by (cases us) auto
    then show "links h (fp # vs) (hd (us @ [fp]))" using l(2) by simp
  qed (rule l(1))
  ultimately show ?thesis unfolding xs by (intro exI [of _ "vs @ us"]) auto
qed

lemma loop_fits:
  assumes i: "heap_inv base s live xs" and fp: "freep s = Some fp" and fit: "\<exists>a \<in> set xs. n \<le> h_size (heap s a)" and n: "0 < n"
  shows "\<exists>res. malloc_loop limit n fp (h_ptr (heap s fp)) s = Some res \<and> allocated base s live n res"
proof -
  have r: "ring base (heap s) xs" "fp \<in> set xs" using i fp by (auto simp: heap_inv_def)
  obtain ws where ws: "links (heap s) (fp # ws) fp" "set (fp # ws) = set xs" "fp \<notin> set ws" using ring_rotate [OF r] by blast
  have "\<exists>a \<in> set (ws @ [fp]). n \<le> h_size (heap s a)" using fit ws(2) by auto
  then obtain as p bs where sp: "ws @ [fp] = as @ p # bs" "n \<le> h_size (heap s p)" "\<forall>a \<in> set as. \<not> n \<le> h_size (heap s a)"
    by (rule split_list_first_propE)
  have as: "set as \<subseteq> set ws" using sp(1) by (cases bs rule: rev_cases) auto
  have "links (heap s) ((fp # ws) @ [fp]) (h_ptr (heap s fp))" using ws(1) by (simp only: links_last)
  then have l: "links (heap s) (fp # as) p" using sp(1) links_append [of "heap s" "fp # as" "p # bs"] by simp
  have p: "p \<in> set xs" using sp(1) ws(2) by (metis in_set_conv_decomp set_ConsD set_append Un_iff list.set_intros(1) list.set_intros(2) append_Nil)
  have v: "last (fp # as) \<in> set xs" using as ws(2) by (cases as rule: rev_cases) auto
  have "links (heap s) (butlast (fp # as) @ [last (fp # as)]) p" using l by (metis append_butlast_last_id list.distinct(1))
  then have "h_ptr (heap s (last (fp # as))) = p" by (simp only: links_last)
  from loop_takes [OF i v p this sp(2) n]
  obtain res where "malloc_loop limit n (last (fp # as)) p s = Some res" "allocated base s live n res" by blast
  moreover have "malloc_loop limit n fp (h_ptr (heap s fp)) s = malloc_loop limit n (last (fp # as)) p s"
    by (rule loop_walk [OF l]) (use sp(3) as ws(3) fp in auto)
  ultimately show ?thesis by simp
qed

lemma allocated_trans:
  assumes i: "heap_inv base s live xs" and same: "\<forall>a \<in> used (heap s) live. heap t a = heap s a" and al: "allocated base t live n res"
  shows "allocated base s live n res"
proof -
  have "heap t a = heap s a" if "a \<in> live" for a using same live_used [OF i that] by simp
  then have "used (heap t) live = used (heap s) live" by (simp add: used_def span_def)
  then show ?thesis using al same by (auto simp: allocated_def split: prod.splits option.splits)
qed

lemma loop_grows:
  assumes i: "heap_inv base s live xs" and fp: "freep s = Some fp" and n: "0 < n" "n < 2 ^ 28"
  shows "\<exists>res. malloc_loop limit n fp (h_ptr (heap s fp)) s = Some res \<and> allocated base s live n res"
proof (cases "\<exists>a \<in> set xs. n \<le> h_size (heap s a)")
  case True
  show ?thesis by (rule loop_fits [OF i fp True n(1)])
next
  case False
  have r: "ring base (heap s) xs" "fp \<in> set xs" using i fp by (auto simp: heap_inv_def)
  obtain ws where ws: "links (heap s) (fp # ws) fp" "set (fp # ws) = set xs" "fp \<notin> set ws" using ring_rotate [OF r] by blast
  have "malloc_loop limit n fp (h_ptr (heap s fp)) s = malloc_loop limit n (last (fp # ws)) fp s"
    by (rule loop_walk [OF ws(1)]) (use False ws(2,3) fp in \<open>auto simp: not_le\<close>)
  also have "\<dots> = (case morecore limit n s of None \<Rightarrow> None | Some (None, s) \<Rightarrow> Some (None, s)
      | Some (Some p, s) \<Rightarrow> malloc_loop limit n p (h_ptr (heap s p)) s)"
    using False r(2) fp by (subst malloc_loop.simps) (simp add: Let_def)
  finally have e: "malloc_loop limit n fp (h_ptr (heap s fp)) s = \<dots>" .
  from morecore_inv [OF i n, of limit] show ?thesis
  proof (elim disjE exE conjE)
    assume "morecore limit n s = Some (None, s)"
    then show ?thesis using e i by (auto simp: allocated_def)
  next
    fix p t ys
    assume m: "morecore limit n s = Some (Some p, t)" "freep t = Some p" "heap_inv base t live ys"
      "\<exists>a \<in> set ys. n \<le> h_size (heap t a)" "\<forall>a \<in> used (heap s) live. heap t a = heap s a"
    obtain res where "malloc_loop limit n p (h_ptr (heap t p)) t = Some res" "allocated base t live n res"
      using loop_fits [OF m(3,2,4) n(1), of limit] by blast
    then show ?thesis using e m(1) allocated_trans [OF i m(5)] by auto
  qed
qed

section \<open>Programs that use the allocator\<close>

text \<open>
  The states a program reaches and the addresses it has been given and not given back: it may allocate
  fewer than \<open>2 ^ 31 - 15\<close> bytes at a time, free an address it holds, write anywhere inside a block it holds, and move the end of the heap up.
\<close>

definition payload :: "(nat \<Rightarrow> header) \<Rightarrow> nat \<Rightarrow> nat set" where
  "payload h ap = {ap..<ap - 1 + h_size (h (ap - 1))}"

inductive uses :: "nat \<Rightarrow> nat \<Rightarrow> mstate \<Rightarrow> nat set \<Rightarrow> bool" for base limit where
  start: "freep s = None \<Longrightarrow> base < brk s \<Longrightarrow> uses base limit s {}"
| got: "uses base limit s live \<Longrightarrow> nbytes < 2 ^ 31 - 15 \<Longrightarrow> malloc base limit nbytes s = Some (Some ap, t) \<Longrightarrow>
    uses base limit t (insert ap live)"
| not_got: "uses base limit s live \<Longrightarrow> nbytes < 2 ^ 31 - 15 \<Longrightarrow> malloc base limit nbytes s = Some (None, t) \<Longrightarrow> uses base limit t live"
| gave: "uses base limit s live \<Longrightarrow> ap \<in> live \<Longrightarrow> free ap s = Some t \<Longrightarrow> uses base limit t (live - {ap})"
| wrote: "uses base limit s live \<Longrightarrow> ap \<in> live \<Longrightarrow> a \<in> payload (heap s) ap \<Longrightarrow>
    uses base limit (s\<lparr>heap := (heap s)(a := x)\<rparr>) live"
| grew: "uses base limit s live \<Longrightarrow> uses base limit (s\<lparr>brk := brk s + k\<rparr>) live"

lemma units_for_small: "nbytes < 2 ^ 31 - 15 \<Longrightarrow> units_for nbytes = (unat nbytes + 7) div 8 + 1"
proof -
  assume "nbytes < 2 ^ 31 - 15"
  then have n: "unat nbytes < 2 ^ 31 - 15" by (simp add: word_less_nat_alt)
  have a: "unat (nbytes + 7) = unat nbytes + 7" using n by (subst unat_add_lem [THEN iffD1]) (simp_all add: unat_of_nat)
  have "unat ((nbytes + 7) div 8) = (unat nbytes + 7) div 8" by (simp add: unat_div a)
  moreover have "(unat nbytes + 7) div 8 < 2 ^ 29" using n by simp
  ultimately have "unat ((nbytes + 7) div 8 + 1) = (unat nbytes + 7) div 8 + 1" by (subst unat_add_lem [THEN iffD1]) simp_all
  then show ?thesis by (simp add: units_for_def add.commute)
qed

lemma units_for_bounds:
  assumes "nbytes < 2 ^ 31 - 15"
  shows "0 < units_for nbytes" "units_for nbytes < 2 ^ 28" "unat nbytes \<le> 8 * (units_for nbytes - 1)"
  using assms by (simp_all add: units_for_small word_less_nat_alt)

definition holds :: "nat \<Rightarrow> mstate \<Rightarrow> nat set \<Rightarrow> bool" where
  "holds base s L \<longleftrightarrow> freep s = None \<and> L = {} \<and> base < brk s \<or> (\<exists>xs. heap_inv base s L xs)"

lemma start_list_inv:
  assumes "holds base s L"
  shows "\<exists>xs. heap_inv base (start_list base s) L xs \<and> (\<forall>a \<in> used (heap s) L. heap (start_list base s) a = heap s a)"
proof (cases "freep s")
  case None
  then have "L = {}" "base < brk s" using assms by (auto simp: holds_def heap_inv_def)
  then show ?thesis using None by (intro exI [of _ "[base]"]) (simp add: start_list_def heap_inv_def ring_def span_def used_def)
next
  case (Some fp)
  then show ?thesis using assms by (auto simp: holds_def start_list_def)
qed

lemma malloc_inv:
  assumes h: "holds base s L" and n: "nbytes < 2 ^ 31 - 15"
  shows "\<exists>res. malloc base limit nbytes s = Some res \<and> allocated base s L (units_for nbytes) res"
proof -
  let ?s = "start_list base s"
  obtain xs where i: "heap_inv base ?s L xs" and same: "\<forall>a \<in> used (heap s) L. heap ?s a = heap s a" using start_list_inv [OF h] by blast
  obtain fp where fp: "freep ?s = Some fp" using i by (auto simp: heap_inv_def)
  obtain res where res: "malloc_loop limit (units_for nbytes) fp (h_ptr (heap ?s fp)) ?s = Some res" "allocated base ?s L (units_for nbytes) res"
    using loop_grows [OF i fp units_for_bounds(1,2) [OF n], of limit] by blast
  have "allocated base s L (units_for nbytes) res"
  proof (cases "L = {}")
    case True
    then show ?thesis using res(2) by (auto simp: allocated_def used_def split: prod.splits option.splits)
  next
    case False
    then obtain ys where "heap_inv base s L ys" using h by (auto simp: holds_def)
    from allocated_trans [OF this same res(2)] show ?thesis .
  qed
  with res(1) fp show ?thesis by (simp add: malloc_def Let_def)
qed

lemma holds_live:
  assumes "holds base s L" "q \<in> L"
  shows "\<exists>xs. heap_inv base s L xs"
  using assms by (auto simp: holds_def)

lemma free_holds:
  assumes h: "holds base s L" and q: "q \<in> L"
  shows "\<exists>t. free (q + 1) s = Some t \<and> holds base t (L - {q}) \<and> (\<forall>a \<in> used (heap s) (L - {q}). heap t a = heap s a)"
proof -
  obtain xs where i: "heap_inv base s L xs" using holds_live [OF h q] by blast
  have "0 < h_size (heap s q)" "span (heap s) q \<subseteq> {base<..<brk s} - units (heap s) xs"
    "\<forall>a \<in> L. a \<noteq> q \<longrightarrow> span (heap s) a \<inter> span (heap s) q = {}" using heap_inv_live [OF i q] heap_inv_apart [OF i _ q] by blast+
  from free_inv [OF i this] show ?thesis by (auto simp: holds_def)
qed

lemma payload_span: "payload h (q + 1) = span h q - {q}"
  by (auto simp: payload_def span_def)

lemma write_holds:
  assumes h: "holds base s L" and q: "q \<in> L" "a \<in> payload (heap s) (q + 1)"
  shows "holds base (s\<lparr>heap := (heap s)(a := x)\<rparr>) L"
proof -
  obtain xs where i: "heap_inv base s L xs" using holds_live [OF h q(1)] by blast
  have a: "a \<in> span (heap s) q" "a \<noteq> q" using q(2) unfolding payload_span by simp_all
  have "a \<notin> L"
  proof
    assume l: "a \<in> L"
    then have "a \<in> span (heap s) a" using i by (auto simp: heap_inv_def span_def)
    moreover have "span (heap s) a \<inter> span (heap s) q = {}" using heap_inv_apart [OF i l q(1) a(2)] .
    ultimately show False using a(1) by blast
  qed
  moreover have "a \<notin> set xs" by (rule used_off_ring [OF i]) (use a(1) q(1) in \<open>auto simp: used_def\<close>)
  ultimately have "heap_inv base (s\<lparr>heap := (heap s)(a := x)\<rparr>) L xs" by (intro heap_inv_cong [OF i]) auto
  then show ?thesis by (auto simp: holds_def)
qed

lemma uses_holds: "uses base limit s live \<Longrightarrow> \<exists>L. live = Suc ` L \<and> holds base s L"
proof (induction rule: uses.induct)
  case (start s)
  then show ?case by (simp add: holds_def)
next
  case (got s live nbytes ap t)
  then obtain L where L: "live = Suc ` L" "holds base s L" by blast
  have "allocated base s L (units_for nbytes) (Some ap, t)" using malloc_inv [OF L(2) got.hyps(2), of limit] got.hyps(3) by simp
  then obtain q where "ap = Suc q" "holds base t (insert q L)" by (auto simp: allocated_def holds_def)
  then show ?case using L(1) by (intro exI [of _ "insert q L"]) simp
next
  case (not_got s live nbytes t)
  then obtain L where L: "live = Suc ` L" "holds base s L" by blast
  have "allocated base s L (units_for nbytes) (None, t)" using malloc_inv [OF L(2) not_got.hyps(2), of limit] not_got.hyps(3) by simp
  then show ?case using L(1) by (auto simp: allocated_def holds_def)
next
  case (gave s live ap t)
  then obtain L where L: "live = Suc ` L" "holds base s L" by blast
  then obtain q where q: "ap = Suc q" "q \<in> L" using gave.hyps(2) by blast
  have "holds base t (L - {q})" using free_holds [OF L(2) q(2)] gave.hyps(3) q(1) by simp
  then show ?case using L(1) q(1) by (intro exI [of _ "L - {q}"]) auto
next
  case (wrote s live ap a x)
  then obtain L where L: "live = Suc ` L" "holds base s L" by blast
  then obtain q where q: "ap = q + 1" "q \<in> L" using wrote.hyps(2) by auto
  show ?case using L(1) write_holds [OF L(2) q(2) wrote.hyps(3) [unfolded q(1)]] by blast
next
  case (grew s live k)
  then obtain L where L: "live = Suc ` L" "holds base s L" by blast
  have "heap_inv base (s\<lparr>brk := brk s + k\<rparr>) L xs" if "heap_inv base s L xs" for xs by (rule heap_inv_cong [OF that]) simp_all
  then have "holds base (s\<lparr>brk := brk s + k\<rparr>) L" using L(2) by (auto simp: holds_def)
  then show ?case using L(1) by blast
qed

lemma payload_kept:
  assumes "holds base s L" "\<forall>a \<in> used (heap s) K. heap t a = heap s a" "K \<subseteq> L" "b \<in> Suc ` K"
  shows "payload (heap t) b = payload (heap s) b" "\<forall>a \<in> payload (heap s) b. heap t a = heap s a"
proof -
  obtain q where q: "b = q + 1" "q \<in> K" using assms(4) by auto
  obtain xs where "heap_inv base s L xs" using holds_live [of base s L q] assms(1,3) q(2) by blast
  then have "q \<in> span (heap s) q" using assms(3) q(2) by (auto simp: heap_inv_def span_def)
  then have k: "\<forall>a \<in> span (heap s) q. heap t a = heap s a" "heap t q = heap s q" using assms(2) q(2) by (auto simp: used_def)
  then show "payload (heap t) b = payload (heap s) b" "\<forall>a \<in> payload (heap s) b. heap t a = heap s a"
    unfolding q(1) payload_span by (simp_all add: span_def)
qed

lemma payloads_disjoint:
  assumes "holds base s L" "a \<in> Suc ` L" "b \<in> Suc ` L" "a \<noteq> b"
  shows "payload (heap s) a \<inter> payload (heap s) b = {}"
proof -
  obtain p q where q: "a = p + 1" "b = q + 1" "p \<in> L" "q \<in> L" using assms(2,3) by auto
  obtain xs where "heap_inv base s L xs" using holds_live [OF assms(1) q(3)] by blast
  then have "span (heap s) p \<inter> span (heap s) q = {}" by (rule heap_inv_apart) (use q assms(4) in auto)
  then show ?thesis unfolding q(1,2) payload_span by auto
qed


definition fresh_heap :: mstate where
  "fresh_heap = \<lparr>heap = (\<lambda>_. \<lparr>h_ptr = 0, h_size = 0\<rparr>), freep = None, brk = 10\<rparr>"

lemmas malloc_run = malloc_def malloc_loop.simps morecore_def free_def find_slot.simps join_at_def sbrk_def start_list_def units_for_def
  fresh_heap_def

lemma first_malloc: "\<exists>t. malloc 3 8192 5 fresh_heap = Some (Some 4105, t)"
  by (simp add: malloc_run Let_def)


text \<open>The size of a request wraps around: the largest one gets a block of one header and no bytes.\<close>

lemma malloc_size_wraps: "units_for 0xFFFFFFFF = 1"
  by (simp add: units_for_def)

text \<open>A request for half the address space makes \<open>sbrk\<close> shrink: it succeeds and adds no memory to the heap.\<close>

lemma malloc_without_memory: "\<exists>t. malloc 3 8192 0x80000000 fresh_heap = Some (Some 11, t) \<and> brk t = 10"
  by (simp add: malloc_run Let_def)

end
