(* ===== verification/ULib.thy ===== *)
theory ULib
  imports KString
begin

unbundle bit_operations_syntax

text \<open>
  The library of user programs, \<^verbatim>\<open>ulib.c\<close> and \<^verbatim>\<open>printf.c\<close>, and three programs that show it at work: \<^verbatim>\<open>wc.c\<close>,
  \<^verbatim>\<open>cat.c\<close> and \<^verbatim>\<open>echo.c\<close>. Strings are in a byte memory and end with a zero byte; a loop over a string that
  does not end does not return (\<open>None\<close>). The arguments of \<open>printf\<close> are the words on the stack behind the
  format. A read of a file is the piece it returns, or an error; the output of a program is the list of
  its bytes.
\<close>

section \<open>Strings\<close>

partial_function (option) strcpy :: "nat \<Rightarrow> nat \<Rightarrow> memory \<Rightarrow> memory option" where
  "strcpy s t m = (let c = m t; m = m(s := c) in if c \<noteq> 0 then strcpy (s + 1) (t + 1) m else Some m)"

partial_function (option) strcmp :: "memory \<Rightarrow> nat \<Rightarrow> nat \<Rightarrow> int option" where
  "strcmp m p q = (if m p \<noteq> 0 \<and> m p = m q then strcmp m (p + 1) (q + 1) else Some (uint (m p) - uint (m q)))"

partial_function (option) user_strlen_from :: "memory \<Rightarrow> nat \<Rightarrow> nat \<Rightarrow> nat option" where
  "user_strlen_from m s n = (if m (s + n) \<noteq> 0 then user_strlen_from m s (n + 1) else Some n)"

definition user_strlen :: "memory \<Rightarrow> nat \<Rightarrow> nat option" where
  "user_strlen m s = user_strlen_from m s 0"

definition user_memset :: "nat \<Rightarrow> uint \<Rightarrow> nat \<Rightarrow> memory \<Rightarrow> memory" where
  "user_memset dst c n m = stosb dst c n m"

text \<open>\<open>Some None\<close> is the null pointer that \<open>strchr\<close> returns.\<close>

partial_function (option) strchr :: "memory \<Rightarrow> nat \<Rightarrow> uchar \<Rightarrow> nat option option" where
  "strchr m s c = (if m s = 0 then Some None else if m s = c then Some (Some s) else strchr m (s + 1) c)"

text \<open>\<open>reads\<close> are the bytes the calls of \<open>read\<close> return one after the other; its end is a call that returns none.\<close>

fun gets_loop :: "nat \<Rightarrow> nat \<Rightarrow> nat \<Rightarrow> uchar list \<Rightarrow> memory \<Rightarrow> nat \<times> memory" where
  "gets_loop buf i lim [] m = (i, m)"
| "gets_loop buf i lim (c # reads) m =
     (if i + 1 < lim
      then let m = m(buf + i := c) in if c = 10 \<or> c = 13 then (i + 1, m) else gets_loop buf (i + 1) lim reads m
      else (i, m))"

definition gets :: "nat \<Rightarrow> nat \<Rightarrow> uchar list \<Rightarrow> memory \<Rightarrow> memory" where
  "gets buf lim reads m = (case gets_loop buf 0 lim reads m of (i, m) \<Rightarrow> m(buf + i := 0))"

text \<open>\<open>stat\<close>: what \<open>open\<close> and \<open>fstat\<close> return are arguments; the second component says that the file is closed.\<close>

definition user_stat :: "int \<Rightarrow> (int \<Rightarrow> int) \<Rightarrow> int \<times> int option" where
  "user_stat fd fstat = (if fd < 0 then (-1, None) else (fstat fd, Some fd))"

partial_function (option) atoi_loop :: "memory \<Rightarrow> nat \<Rightarrow> uint \<Rightarrow> uint option" where
  "atoi_loop m s n = (if 48 \<le> m s \<and> m s \<le> 57 then atoi_loop m (s + 1) (n * 10 + ucast (m s) - 48) else Some n)"

definition atoi :: "memory \<Rightarrow> nat \<Rightarrow> uint option" where
  "atoi m s = atoi_loop m s 0"

definition user_memmove :: "nat \<Rightarrow> nat \<Rightarrow> int \<Rightarrow> memory \<Rightarrow> memory" where
  "user_memmove dst src n m = copy_up dst src (nat n) m"

section \<open>Formatted output\<close>

definition hex_digit :: "nat \<Rightarrow> uchar" where
  "hex_digit d = of_char (''0123456789ABCDEF'' ! d)"

function put_digits :: "uint \<Rightarrow> uint \<Rightarrow> uchar list" where
  "put_digits base x =
     (if base < 2 then [hex_digit 0]
      else hex_digit (unat (x mod base)) # (if x div base \<noteq> 0 then put_digits base (x div base) else []))"
  by pat_completeness auto
termination
proof (relation "measure (\<lambda>(base, x). unat x)")
  fix base x :: uint
  assume "\<not> base < 2" "x div base \<noteq> 0"
  then have "2 \<le> unat base" "0 < unat x" by (auto simp: word_less_nat_alt unat_gt_0)
  then show "((base, x div base), base, x) \<in> measure (\<lambda>(base, x). unat x)" by (simp add: unat_div div_less_dividend)
qed simp

declare put_digits.simps [simp del]

definition user_printint :: "uint \<Rightarrow> uint \<Rightarrow> bool \<Rightarrow> uchar list" where
  "user_printint xx base sg =
     (let neg = sg \<and> sint xx < 0;
          x = (if neg then - xx else xx);
          buf = put_digits base x @ (if neg then [45] else [])
      in rev buf)"

partial_function (option) put_string :: "memory \<Rightarrow> nat \<Rightarrow> uchar list \<Rightarrow> uchar list option" where
  "put_string m s out = (if m s \<noteq> 0 then put_string m (s + 1) (out @ [m s]) else Some out)"

definition null_text :: "uchar list" where
  "null_text = map of_char ''(null)''"

text \<open>One conversion: its text and whether it took a word of the stack. 100 is d, 120 x, 112 p, 115 s, 99 c, 37 the percent sign.\<close>

definition conversion :: "memory \<Rightarrow> uchar \<Rightarrow> uint \<Rightarrow> (uchar list \<times> bool) option" where
  "conversion m c arg =
     (if c = 100 then Some (user_printint arg 10 True, True)
      else if c = 120 \<or> c = 112 then Some (user_printint arg 16 False, True)
      else if c = 115
      then if arg = 0 then Some (null_text, True) else map_option (\<lambda>t. (t, True)) (put_string m (unat arg) [])
      else if c = 99 then Some ([ucast arg], True)
      else if c = 37 then Some ([c], False)
      else Some ([37, c], False))"

fun printf_from :: "memory \<Rightarrow> uchar list \<Rightarrow> bool \<Rightarrow> (nat \<Rightarrow> uint) \<Rightarrow> nat \<Rightarrow> uchar list option" where
  "printf_from m [] state ap k = Some []"
| "printf_from m (c # fmt) state ap k =
     (if \<not> state
      then if c = 37 then printf_from m fmt True ap k
           else map_option ((#) c) (printf_from m fmt False ap k)
      else case conversion m c (ap k) of None \<Rightarrow> None
           | Some (t, used) \<Rightarrow> map_option ((@) t) (printf_from m fmt False ap (if used then k + 1 else k)))"

definition user_printf :: "memory \<Rightarrow> uchar list \<Rightarrow> (nat \<Rightarrow> uint) \<Rightarrow> uchar list option" where
  "user_printf m fmt ap = printf_from m fmt False ap 0"

section \<open>Three programs\<close>

text \<open>\<open>reads\<close> are the pieces that \<open>read\<close> returns; \<open>fails\<close> says that it then returns an error and not the end.\<close>

record wcount =
  wc_l :: uint
  wc_w :: uint
  wc_c :: uint
  wc_inword :: bool

definition spaces :: "uchar list" where
  "spaces = [32, 13, 9, 10, 11]"

definition wc_byte :: "uchar \<Rightarrow> wcount \<Rightarrow> wcount" where
  "wc_byte b s =
     (let s = s\<lparr>wc_c := wc_c s + 1\<rparr>;
          s = (if b = 10 then s\<lparr>wc_l := wc_l s + 1\<rparr> else s)
      in if b \<in> set spaces then s\<lparr>wc_inword := False\<rparr>
         else if \<not> wc_inword s then s\<lparr>wc_w := wc_w s + 1, wc_inword := True\<rparr>
         else s)"

fun wc_loop :: "uchar list list \<Rightarrow> wcount \<Rightarrow> wcount" where
  "wc_loop [] s = s"
| "wc_loop (buf # reads) s = (if buf = [] then s else wc_loop reads (fold wc_byte buf s))"

definition wc :: "memory \<Rightarrow> uchar list list \<Rightarrow> bool \<Rightarrow> nat \<Rightarrow> uchar list option" where
  "wc m reads fails name =
     (let s = wc_loop reads \<lparr>wc_l = 0, wc_w = 0, wc_c = 0, wc_inword = False\<rparr>
      in if fails then user_printf m (map of_char ''wc: read error'' @ [10]) (\<lambda>_. 0)
         else user_printf m (map of_char ''%d %d %d %s'' @ [10]) (\<lambda>k. [wc_l s, wc_w s, wc_c s, of_nat name] ! k))"

text \<open>\<open>writes\<close> are the results of the calls of \<open>write\<close>; the second component says that \<open>cat\<close> goes on.\<close>

fun cat :: "memory \<Rightarrow> uchar list list \<Rightarrow> bool \<Rightarrow> int list \<Rightarrow> (uchar list \<times> bool) option" where
  "cat m (buf # reads) fails (n # writes) =
     (if buf = [] then cat m [] fails [] 
      else let out = take (nat n) buf
           in if n \<noteq> int (length buf)
              then map_option (\<lambda>t. (out @ t, False)) (user_printf m (map of_char ''cat: write error'' @ [10]) (\<lambda>_. 0))
              else map_option (\<lambda>(t, b). (out @ t, b)) (cat m reads fails writes))"
| "cat m reads fails writes =
     (if fails then map_option (\<lambda>t. (t, False)) (user_printf m (map of_char ''cat: read error'' @ [10]) (\<lambda>_. 0))
      else Some ([], True))"

text \<open>\<open>argv\<close> without the name of the program; \<open>space\<close> and \<open>newline\<close> are the addresses of the two separators.\<close>

fun echo :: "memory \<Rightarrow> nat list \<Rightarrow> nat \<Rightarrow> nat \<Rightarrow> uchar list option" where
  "echo m [] space newline = Some []"
| "echo m (a # argv) space newline =
     (case user_printf m (map of_char ''%s%s'') (\<lambda>k. [of_nat a, of_nat (if argv \<noteq> [] then space else newline)] ! k) of
        None \<Rightarrow> None
      | Some t \<Rightarrow> map_option ((@) t) (echo m argv space newline))"

section \<open>Numbers\<close>

text \<open>\<open>str_at m a bs\<close>: the string \<open>bs\<close> and its end are in memory from \<open>a\<close> on.\<close>

fun str_at :: "memory \<Rightarrow> nat \<Rightarrow> uchar list \<Rightarrow> bool" where
  "str_at m a [] \<longleftrightarrow> m a = 0"
| "str_at m a (b # bs) \<longleftrightarrow> m a = b \<and> b \<noteq> 0 \<and> str_at m (a + 1) bs"

fun dec :: "nat \<Rightarrow> uchar list" where
  "dec n = (if n < 10 then [of_nat (48 + n)] else dec (n div 10) @ [of_nat (48 + n mod 10)])"

declare dec.simps [simp del]

lemma hex_digit_dec: "d < 10 \<Longrightarrow> hex_digit d = of_nat (48 + d)"
proof -
  assume "d < 10"
  then have "d \<in> {0, 1, 2, 3, 4, 5, 6, 7, 8, 9}" by auto
  then show ?thesis by (elim insertE) (simp_all add: hex_digit_def)
qed

lemma put_digits_dec: "rev (put_digits 10 x) = dec (unat x)"
proof (induction "unat x" arbitrary: x rule: less_induct)
  case less
  have m: "unat (x mod 10) = unat x mod 10" "unat (x div 10) = unat x div 10" by (simp_all add: unat_mod unat_div)
  have h: "hex_digit (unat x mod 10) = of_nat (48 + unat x mod 10)" by (rule hex_digit_dec) simp
  show ?case
  proof (cases "unat x < 10")
    case True
    then have "x div 10 = 0" using m(2) by (simp add: unat_eq_0 [symmetric])
    then show ?thesis using True h m by (simp add: put_digits.simps [of 10 x] dec.simps [of "unat x"])
  next
    case False
    then have "x div 10 \<noteq> 0" using m(2) by (auto simp: unat_eq_0 [symmetric])
    moreover have "rev (put_digits 10 (x div 10)) = dec (unat x div 10)" using less [of "x div 10"] m(2) False by simp
    ultimately show ?thesis using False h m by (simp add: put_digits.simps [of 10 x] dec.simps [of "unat x"])
  qed
qed

lemma printint_dec: "0 \<le> sint w \<Longrightarrow> user_printint w 10 True = dec (unat w)"
  by (simp add: user_printint_def Let_def put_digits_dec)

lemma atoi_loop_digits:
  "str_at m a bs \<Longrightarrow> \<forall>b \<in> set bs. 48 \<le> b \<and> b \<le> 57 \<Longrightarrow> atoi_loop m a n = Some (foldl (\<lambda>n b. n * 10 + ucast b - 48) n bs)"
proof (induction bs arbitrary: a n)
  case Nil
  then show ?case by (subst atoi_loop.simps) simp
next
  case (Cons b bs)
  then show ?case by (subst atoi_loop.simps) simp
qed

lemma digit_byte:
  assumes "d < 10"
  shows "unat (of_nat (48 + d) :: uchar) = 48 + d" "48 \<le> (of_nat (48 + d) :: uchar)" "(of_nat (48 + d) :: uchar) \<le> 57"
    "ucast (of_nat (48 + d) :: uchar) = (of_nat (48 + d) :: uint)"
proof -
  show u: "unat (of_nat (48 + d) :: uchar) = 48 + d" using assms by (subst unat_of_nat) simp
  then show "48 \<le> (of_nat (48 + d) :: uchar)" "(of_nat (48 + d) :: uchar) \<le> 57" using assms by (simp_all add: word_le_nat_alt del: of_nat_add)
  show "ucast (of_nat (48 + d) :: uchar) = (of_nat (48 + d) :: uint)" using u by (metis of_nat_unat)
qed

lemma set_dec: "b \<in> set (dec n) \<Longrightarrow> 48 \<le> b \<and> b \<le> 57"
proof (induction n rule: dec.induct)
  case (1 n)
  show ?case
  proof (cases "n < 10")
    case True
    then show ?thesis using 1(2) digit_byte [of n] by (simp add: dec.simps [of n] del: of_nat_add)
  next
    case False
    then show ?thesis using 1 digit_byte [of "n mod 10"] by (auto simp: dec.simps [of n] simp del: of_nat_add)
  qed
qed

lemma foldl_dec: "foldl (\<lambda>n b. n * 10 + ucast b - 48) 0 (dec n) = (of_nat n :: uint)"
proof (induction n rule: dec.induct)
  case (1 n)
  show ?case
  proof (cases "n < 10")
    case True
    then show ?thesis using digit_byte(4) [of n] by (simp add: dec.simps [of n])
  next
    case False
    have d: "(of_nat n :: uint) = of_nat (n div 10) * 10 + of_nat (n mod 10)" by (metis div_mult_mod_eq of_nat_add of_nat_mult of_nat_numeral)
    show ?thesis using 1 False digit_byte(4) [of "n mod 10"] by (simp add: dec.simps [of n] d)
  qed
qed

lemma length_dec: "n < 10 ^ k \<Longrightarrow> 0 < k \<Longrightarrow> length (dec n) \<le> k"
proof (induction k arbitrary: n)
  case (Suc k)
  show ?case
  proof (cases "n < 10")
    case False
    then have "0 < k" using Suc.prems(1) by (cases k) auto
    moreover have "n div 10 < 10 ^ k" using Suc.prems(1) by (simp add: less_mult_imp_div_less mult.commute)
    ultimately show ?thesis using Suc.IH [of "n div 10"] False by (simp add: dec.simps [of n])
  qed (simp add: dec.simps [of n])
qed simp

lemma printf_d: "user_printf m [37, 100] ap = Some (user_printint (ap 0) 10 True)"
  by (simp add: user_printf_def conversion_def)

lemma length_printint: "length (user_printint w 10 sg) \<le> 16"
proof -
  have "length (put_digits 10 x) \<le> 10" for x
  proof -
    have "unat x < 2 ^ 32" using unsigned_less [of x, where ?'a = nat] by simp
    then have "unat x < 10 ^ 10" by simp
    then have "length (dec (unat x)) \<le> 10" by (rule length_dec) simp
    then show ?thesis unfolding put_digits_dec [symmetric] by simp
  qed
  from this [of w] this [of "- w"] show ?thesis by (auto simp: user_printint_def Let_def)
qed

section \<open>Strings in output\<close>

lemma put_string_out: "str_at m a bs \<Longrightarrow> put_string m a out = Some (out @ bs)"
proof (induction bs arbitrary: a out)
  case Nil
  then show ?case by (subst put_string.simps) simp
next
  case (Cons b bs)
  then show ?case by (subst put_string.simps) simp
qed

section \<open>Counting\<close>

text \<open>The words of a text: the longest parts without white space.\<close>

definition blank :: "uchar \<Rightarrow> bool" where
  "blank b \<longleftrightarrow> b \<in> {32, 13, 9, 10, 11}"

function words_of :: "uchar list \<Rightarrow> uchar list list" where
  "words_of bs =
     (let r = dropWhile blank bs
      in if r = [] then [] else takeWhile (\<lambda>b. \<not> blank b) r # words_of (dropWhile (\<lambda>b. \<not> blank b) r))"
  by pat_completeness auto
termination
proof (relation "measure length")
  fix bs r :: "uchar list"
  assume r: "r = dropWhile blank bs" "r \<noteq> []"
  then have "\<not> blank (hd r)" using hd_dropWhile by blast
  then have "length (dropWhile (\<lambda>b. \<not> blank b) r) < length r" using r(2) length_dropWhile_le [of "\<lambda>b. \<not> blank b" "tl r"] by (cases r) auto
  also have "\<dots> \<le> length bs" using r(1) length_dropWhile_le by simp
  finally show "(dropWhile (\<lambda>b. \<not> blank b) r, bs) \<in> measure length" by simp
qed simp

declare words_of.simps [simp del]

lemma words_of_Nil: "words_of [] = []"
  by (simp add: words_of.simps)

lemma words_of_blank: "blank b \<Longrightarrow> words_of (b # bs) = words_of bs"
  by (simp add: words_of.simps [of "b # bs"] words_of.simps [of bs])

lemma words_of_word: "\<not> blank b \<Longrightarrow> length (words_of (b # bs)) = Suc (length (words_of (dropWhile (\<lambda>b. \<not> blank b) bs)))"
  by (simp add: words_of.simps [of "b # bs"])

lemma blank_spaces: "b \<in> set spaces \<longleftrightarrow> blank b"
  by (simp add: spaces_def blank_def)

lemma wc_fold:
  "fold wc_byte bs s = s\<lparr>wc_l := wc_l s + of_nat (count_list bs 10),
     wc_w := wc_w s + of_nat (length (words_of (if wc_inword s then dropWhile (\<lambda>b. \<not> blank b) bs else bs))),
     wc_c := wc_c s + of_nat (length bs), wc_inword := wc_inword (fold wc_byte bs s)\<rparr>"
proof (induction bs arbitrary: s)
  case Nil
  then show ?case by (simp add: words_of_Nil)
next
  case (Cons b bs)
  define t where "t = wc_byte b s"
  have IH: "fold wc_byte (b # bs) s = t\<lparr>wc_l := wc_l t + of_nat (count_list bs 10),
     wc_w := wc_w t + of_nat (length (words_of (if wc_inword t then dropWhile (\<lambda>b. \<not> blank b) bs else bs))),
     wc_c := wc_c t + of_nat (length bs), wc_inword := wc_inword (fold wc_byte bs t)\<rparr>" using Cons.IH [of t] by (simp add: t_def)
  have t: "wc_l t = (if b = 10 then wc_l s + 1 else wc_l s)" "wc_c t = wc_c s + 1" "wc_inword t \<longleftrightarrow> \<not> blank b"
      "wc_w t = (if \<not> blank b \<and> \<not> wc_inword s then wc_w s + 1 else wc_w s)"
    by (simp_all add: t_def wc_byte_def Let_def blank_spaces)
  show ?case
    unfolding IH using t
    by (intro wcount.equality) (simp_all add: t_def [symmetric] words_of_blank words_of_word algebra_simps)
qed

lemma wc_loop_fold: "wc_loop reads s = fold wc_byte (concat (takeWhile (\<lambda>b. b \<noteq> []) reads)) s"
  by (induction reads arbitrary: s) simp_all

lemma length_words_of: "length (words_of bs) \<le> length bs"
proof (induction bs rule: words_of.induct)
  case (1 bs)
  define r where "r = dropWhile blank bs"
  show ?case
  proof (cases "r = []")
    case True
    then show ?thesis by (simp add: words_of.simps [of bs] r_def Let_def)
  next
    case False
    then have "\<not> blank (hd r)" unfolding r_def using hd_dropWhile by blast
    then have "length (dropWhile (\<lambda>b. \<not> blank b) r) < length r" using False length_dropWhile_le [of "\<lambda>b. \<not> blank b" "tl r"] by (cases r) auto
    moreover have "length r \<le> length bs" by (simp add: r_def length_dropWhile_le)
    ultimately show ?thesis using 1 [OF r_def False] False by (simp add: words_of.simps [of bs] r_def [symmetric] Let_def)
  qed
qed

lemma printint_count: "n < 2 ^ 31 \<Longrightarrow> user_printint (of_nat n) 10 True = dec n"
proof -
  assume n: "n < 2 ^ 31"
  have u: "unat (of_nat n :: uint) = n" using n by (simp add: unat_of_nat)
  have "sint (of_nat n :: uint) = sint (word_of_int (int n) :: uint)" by simp
  also have "\<dots> = signed_take_bit 31 (int n)" by (simp only: sint_sbintrunc') simp
  also have "\<dots> = int n" using n by (intro signed_take_bit_int_eq_self) auto
  finally show ?thesis using printint_dec [of "of_nat n"] u n by simp
qed

text \<open>
  C31. For every division of an input of fewer than \<open>2 ^ 31\<close> bytes into reads, \<open>wc\<close> prints the number of its lines, words and bytes in
  decimal and the name: the counts are those of the whole input, and words that two reads share
  are counted once.
\<close>

theorem wc_prints_counts:
  fixes name :: uint
  assumes "str_at m (unat name) bs" "name \<noteq> 0" "length input < 2 ^ 31" "concat (takeWhile (\<lambda>b. b \<noteq> []) reads) = input"
  shows "wc m reads False (unat name) =
    Some (dec (count_list input 10) @ [32] @ dec (length (words_of input)) @ [32] @ dec (length input) @ [32] @ bs @ [10])"
proof -
  have n: "count_list input 10 < 2 ^ 31" "length (words_of input) < 2 ^ 31"
    using count_le_length [of input 10] length_words_of [of input] assms(3) by linarith+
  let ?s = "\<lparr>wc_l = 0, wc_w = 0, wc_c = 0, wc_inword = False\<rparr>"
  have s: "wc_l (wc_loop reads ?s) = of_nat (count_list input 10)" "wc_w (wc_loop reads ?s) = of_nat (length (words_of input))"
      "wc_c (wc_loop reads ?s) = of_nat (length input)"
    unfolding wc_loop_fold assms(4) by (subst wc_fold; simp)+
  show ?thesis
    using printint_count [OF n(1)] printint_count [OF n(2)] printint_count [OF assms(3)] put_string_out [OF assms(1), of "[]"] assms(2)
    by (simp add: wc_def Let_def s user_printf_def conversion_def)
qed

theorem wc_prints_counts_witness:
  "wc (poke (\<lambda>_. 0) 8 [102]) [[97, 98], [99, 32, 100, 10], []] False 8
    = Some ([49] @ [32] @ [50] @ [32] @ [54] @ [32] @ [102] @ [10])"
proof -
  let ?i = "[97, 98, 99, 32, 100, 10] :: uchar list"
  have "wc (poke (\<lambda>_. 0) 8 [102]) [[97, 98], [99, 32, 100, 10], []] False (unat (8 :: uint)) =
    Some (dec (count_list ?i 10) @ [32] @ dec (length (words_of ?i)) @ [32] @ dec (length ?i) @ [32] @ [102] @ [10])"
    by (rule wc_prints_counts) (simp_all add: poke_def)
  then show ?thesis by (simp add: words_of.simps blank_def dec.simps)
qed

text \<open>
  \<open>printf\<close> of a number that is not negative writes its decimal digits, never more than the sixteen bytes of its
  buffer, and \<open>atoi\<close> reads the same number back from them, wherever they are in memory. For negative
  numbers the text is a minus sign and the digits, and \<open>atoi\<close> stops at the sign and gives zero.
\<close>

theorem printf_atoi_roundtrip:
  "\<exists>t. user_printf m [37, 100] ap = Some t \<and> length t \<le> 16
    \<and> (\<forall>m' a. str_at m' a t \<longrightarrow> atoi m' a = Some (if 0 \<le> sint (ap 0) then ap 0 else 0))"
proof -
  let ?t = "user_printint (ap 0) 10 True"
  have "atoi m' a = Some (if 0 \<le> sint (ap 0) then ap 0 else 0)" if s: "str_at m' a ?t" for m' a
  proof (cases "0 \<le> sint (ap 0)")
    case True
    have "str_at m' a (dec (unat (ap 0)))" using s printint_dec [OF True] by simp
    from atoi_loop_digits [OF this, of 0] set_dec foldl_dec [of "unat (ap 0)"] True show ?thesis by (simp add: atoi_def)
  next
    case False
    then have "?t = 45 # rev (put_digits 10 (- ap 0))" by (simp add: user_printint_def Let_def)
    then have "m' a = 45" using s by simp
    then show ?thesis using False by (simp add: atoi_def atoi_loop.simps [of m' a])
  qed
  then show ?thesis using length_printint printf_d by metis
qed

theorem printf_atoi_roundtrip_witness:
  "user_printf (\<lambda>_. 0) [37, 100] (\<lambda>_. 42) = Some [52, 50] \<and> atoi (poke (\<lambda>_. 0) 8 [52, 50]) 8 = Some 42"
proof -
  have p: "user_printf (\<lambda>_. 0) [37, 100] (\<lambda>_. 42) = Some [52, 50]"
    unfolding printf_d using printint_count [of 42] by (simp add: dec.simps)
  have s: "str_at (poke (\<lambda>_. 0) 8 [52, 50]) 8 [52, 50]" by (simp add: poke_def)
  obtain t where "user_printf (\<lambda>_. 0) [37, 100] (\<lambda>_. 42) = Some t"
      "\<forall>m' a. str_at m' a t \<longrightarrow> atoi m' a = Some (if 0 \<le> sint (42 :: uint) then 42 else 0)"
    using printf_atoi_roundtrip [of "\<lambda>_. 0" "\<lambda>_. 42"] by blast
  moreover have "0 \<le> sint (42 :: uint)" by simp
  ultimately show ?thesis using p s by fastforce
qed

text \<open>The library's \<open>memmove\<close> copies upwards only: it is right when the destination is not inside the source.\<close>

lemma user_memmove_copies: "d \<le> s \<or> s + n \<le> d \<Longrightarrow> user_memmove d s (int n) m = poke m d (peek m s n)"
  by (simp add: user_memmove_def copy_up_poke)

lemma user_memmove_overlap: "user_memmove 1 0 2 (poke (\<lambda>_. 0) 0 [1, 2, 3]) 2 = 1 \<and> memmove 1 0 2 (poke (\<lambda>_. 0) 0 [1, 2, 3]) 2 = 2"
  by (simp add: user_memmove_def memmove_def poke_def numeral_2_eq_2)

end
