(* ===== verification/Mkfs.thy ===== *)
theory Mkfs
  imports Fs BlockAlloc
begin

unbundle bit_operations_syntax

text \<open>
  The program \<^verbatim>\<open>mkfs.c\<close> that builds the disk image the kernel starts from. The image is the list of its
  blocks; inodes and directory entries have the layout of \<^verbatim>\<open>fs.h\<close>, for which the operations of the
  kernel's file system are used. \<open>host n\<close> says whether the n-th call of \<open>lseek\<close>, \<open>read\<close> or \<open>write\<close> on the
  image works. A file of the host is its name and the pieces that \<open>read\<close> returns, or nothing when it
  cannot be opened.
\<close>

section \<open>Layout\<close>

definition FSSIZE :: nat where "FSSIZE = 1000"
definition NINODES :: nat where "NINODES = 200"
definition nbitmap :: nat where "nbitmap = FSSIZE div (BSIZE * 8) + 1"
definition ninodeblocks :: nat where "ninodeblocks = NINODES div IPB + 1"
definition nlog :: nat where "nlog = nat LOGSIZE"
definition nmeta :: nat where "nmeta = 2 + nlog + ninodeblocks + nbitmap"
definition data_blocks :: nat where "data_blocks = FSSIZE - nmeta"

datatype mkfs_exit = Usage | Perror string | Assertion

record mkfs =
  mk_img :: "block list"
  mk_freeinode :: nat
  mk_freeblock :: nat
  mk_calls :: nat

definition xshort :: "ushort \<Rightarrow> ushort" where
  "xshort x = ld16 [ucast x, ucast (drop_bit 8 x)] 0"

definition xint :: "uint \<Rightarrow> uint" where
  "xint x = ld32 [ucast x, ucast (drop_bit 8 x), ucast (drop_bit 16 x), ucast (drop_bit 24 x)] 0"

definition mkfs_sb :: superblock where
  "mkfs_sb = \<lparr>sb_size = xint (of_nat FSSIZE), sb_nblocks = xint (of_nat data_blocks), sb_ninodes = xint (of_nat NINODES),
     sb_nlog = xint (of_nat nlog), sb_logstart = xint 2, sb_inodestart = xint (of_nat (2 + nlog)),
     sb_bmapstart = xint (of_nat (2 + nlog + ninodeblocks))\<rparr>"

section \<open>Sectors and inodes\<close>

definition host_call :: "(nat \<Rightarrow> bool) \<Rightarrow> string \<Rightarrow> mkfs \<Rightarrow> mkfs_exit + mkfs" where
  "host_call host name s = (if host (mk_calls s) then Inr (s\<lparr>mk_calls := mk_calls s + 1\<rparr>) else Inl (Perror name))"

text \<open>A write past the end of the image leaves a hole of zeros; a read there is short.\<close>

definition wsect :: "(nat \<Rightarrow> bool) \<Rightarrow> nat \<Rightarrow> block \<Rightarrow> mkfs \<Rightarrow> mkfs_exit + mkfs" where
  "wsect host sec buf s =
     andThen (host_call host ''lseek'' s) (\<lambda>s.
     andThen (host_call host ''write'' s) (\<lambda>s.
     Inr (s\<lparr>mk_img := (if sec < length (mk_img s) then (mk_img s)[sec := buf]
        else mk_img s @ replicate (sec - length (mk_img s)) (replicate BSIZE 0) @ [buf])\<rparr>)))"

definition rsect :: "(nat \<Rightarrow> bool) \<Rightarrow> nat \<Rightarrow> mkfs \<Rightarrow> mkfs_exit + block \<times> mkfs" where
  "rsect host sec s =
     andThen (host_call host ''lseek'' s) (\<lambda>s.
     andThen (host_call host ''read'' s) (\<lambda>s.
     if sec < length (mk_img s) then Inr (mk_img s ! sec, s) else Inl (Perror ''read'')))"

text \<open>A disk inode, as an inode of the kernel whose other fields are not used.\<close>

definition no_inode :: inode where
  "no_inode = \<lparr>i_dev = 0, i_inum = 0, i_ref = 0, i_valid = False, i_type = 0, i_major = 0, i_minor = 0,
     i_nlink = 0, i_size = 0, i_addrs = replicate (NDIRECT + 1) 0\<rparr>"

definition winode :: "(nat \<Rightarrow> bool) \<Rightarrow> nat \<Rightarrow> inode \<Rightarrow> mkfs \<Rightarrow> mkfs_exit + mkfs" where
  "winode host inum ip s =
     (let bn = unat (IBLOCK (of_nat inum) mkfs_sb)
      in andThen (rsect host bn s) (\<lambda>(buf, s).
         wsect host bn (put_dinode (dinode_at (of_nat inum)) ip buf) s))"

definition rinode :: "(nat \<Rightarrow> bool) \<Rightarrow> nat \<Rightarrow> mkfs \<Rightarrow> mkfs_exit + inode \<times> mkfs" where
  "rinode host inum s =
     (let bn = unat (IBLOCK (of_nat inum) mkfs_sb)
      in andThen (rsect host bn s) (\<lambda>(buf, s). Inr (get_dinode (dinode_at (of_nat inum)) buf no_inode, s)))"

definition mkfs_ialloc :: "(nat \<Rightarrow> bool) \<Rightarrow> ushort \<Rightarrow> mkfs \<Rightarrow> mkfs_exit + nat \<times> mkfs" where
  "mkfs_ialloc host type s =
     (let inum = mk_freeinode s;
          s = s\<lparr>mk_freeinode := inum + 1\<rparr>;
          din = no_inode\<lparr>i_type := xshort type, i_nlink := xshort 1, i_size := xint 0\<rparr>
      in andThen (winode host inum din s) (\<lambda>s. Inr (inum, s)))"

fun mark_used :: "nat list \<Rightarrow> block \<Rightarrow> block" where
  "mark_used [] buf = buf"
| "mark_used (i # is) buf = mark_used is (buf[i div 8 := (buf ! (i div 8)) OR push_bit (i mod 8) 1])"

definition mkfs_balloc :: "(nat \<Rightarrow> bool) \<Rightarrow> nat \<Rightarrow> mkfs \<Rightarrow> mkfs_exit + mkfs" where
  "mkfs_balloc host used s =
     (if \<not> used < BSIZE * 8 then Inl Assertion
      else wsect host (unat (sb_bmapstart mkfs_sb)) (mark_used [0..<used] (replicate BSIZE 0)) s)"

section \<open>Appending to a file\<close>

definition new_addr :: "nat \<Rightarrow> inode \<Rightarrow> mkfs \<Rightarrow> inode \<times> mkfs" where
  "new_addr k din s =
     (if xint (i_addrs din ! k) = 0
      then (din\<lparr>i_addrs := (i_addrs din)[k := xint (of_nat (mk_freeblock s))]\<rparr>, s\<lparr>mk_freeblock := mk_freeblock s + 1\<rparr>)
      else (din, s))"

text \<open>The block of the image for block \<open>fbn\<close> of the file.\<close>

definition block_for :: "(nat \<Rightarrow> bool) \<Rightarrow> nat \<Rightarrow> inode \<Rightarrow> mkfs \<Rightarrow> mkfs_exit + nat \<times> inode \<times> mkfs" where
  "block_for host fbn din s =
     (if fbn < NDIRECT
      then let (din, s) = new_addr fbn din s in Inr (unat (xint (i_addrs din ! fbn)), din, s)
      else
        let (din, s) = new_addr NDIRECT din s;
            ind = unat (xint (i_addrs din ! NDIRECT));
            j = 4 * (fbn - NDIRECT)
        in andThen (rsect host ind s) (\<lambda>(indirect, s).
           if ld32 indirect j = 0
           then let indirect = st32 j (xint (of_nat (mk_freeblock s))) indirect;
                    s = s\<lparr>mk_freeblock := mk_freeblock s + 1\<rparr>
                in andThen (wsect host ind indirect s) (\<lambda>s. Inr (unat (xint (ld32 indirect j)), din, s))
           else Inr (unat (xint (ld32 indirect j)), din, s)))"

definition bcopy_at :: "nat \<Rightarrow> uchar list \<Rightarrow> block \<Rightarrow> block" where
  "bcopy_at k src buf = take k buf @ src @ drop (k + length src) buf"

lemma block_end: "off < BSIZE + off div BSIZE * BSIZE"
  by (simp add: BSIZE_def)

function iappend_loop :: "(nat \<Rightarrow> bool) \<Rightarrow> inode \<Rightarrow> nat \<Rightarrow> uchar list \<Rightarrow> mkfs \<Rightarrow> mkfs_exit + inode \<times> nat \<times> mkfs" where
  "iappend_loop host din off p s =
     (if p = [] then Inr (din, off, s)
      else let fbn = off div BSIZE
           in if \<not> fbn < MAXFILE then Inl Assertion
              else andThen (block_for host fbn din s) (\<lambda>(x, din, s).
                let n1 = min (length p) ((fbn + 1) * BSIZE - off)
                in andThen (rsect host x s) (\<lambda>(buf, s).
                   andThen (wsect host x (bcopy_at (off - fbn * BSIZE) (take n1 p) buf) s) (\<lambda>s.
                   iappend_loop host din (off + n1) (drop n1 p) s))))"
  by pat_completeness auto
termination
  by (relation "measure (\<lambda>(host, din, off, p, s). length p)") (auto simp: block_end)

declare iappend_loop.simps [simp del]

definition iappend :: "(nat \<Rightarrow> bool) \<Rightarrow> nat \<Rightarrow> uchar list \<Rightarrow> mkfs \<Rightarrow> mkfs_exit + mkfs" where
  "iappend host inum p s =
     andThen (rinode host inum s) (\<lambda>(din, s).
     andThen (iappend_loop host din (unat (xint (i_size din))) p s) (\<lambda>(din, off, s).
     winode host inum (din\<lparr>i_size := xint (of_nat off)\<rparr>) s))"

section \<open>The program\<close>

definition mk_dirent :: "nat \<Rightarrow> uchar list \<Rightarrow> uchar list" where
  "mk_dirent inum name =
     (let i = xshort (of_nat inum) in [ucast i, ucast (drop_bit 8 i)] @ take DIRSIZ (name @ replicate DIRSIZ 0))"

fun zero_image :: "(nat \<Rightarrow> bool) \<Rightarrow> nat list \<Rightarrow> mkfs \<Rightarrow> mkfs_exit + mkfs" where
  "zero_image host [] s = Inr s"
| "zero_image host (i # is) s = andThen (wsect host i (replicate BSIZE 0) s) (zero_image host is)"

definition sb_block :: block where
  "sb_block =
     (let d = st32 0 (sb_size mkfs_sb) (replicate BSIZE 0);
          d = st32 4 (sb_nblocks mkfs_sb) d;
          d = st32 8 (sb_ninodes mkfs_sb) d;
          d = st32 12 (sb_nlog mkfs_sb) d;
          d = st32 16 (sb_logstart mkfs_sb) d;
          d = st32 20 (sb_inodestart mkfs_sb) d
      in st32 24 (sb_bmapstart mkfs_sb) d)"

text \<open>The loop that copies a file of the host; it ends at the first read that returns nothing.\<close>

fun add_pieces :: "(nat \<Rightarrow> bool) \<Rightarrow> nat \<Rightarrow> uchar list list \<Rightarrow> mkfs \<Rightarrow> mkfs_exit + mkfs" where
  "add_pieces host inum [] s = Inr s"
| "add_pieces host inum (b # bs) s =
     (if b = [] then Inr s else andThen (iappend host inum b s) (add_pieces host inum bs))"

type_synonym host_file = "uchar list \<times> uchar list list option"

text \<open>47 is a slash and 95 an underscore.\<close>

definition add_file :: "(nat \<Rightarrow> bool) \<Rightarrow> nat \<Rightarrow> host_file \<Rightarrow> mkfs \<Rightarrow> mkfs_exit + mkfs" where
  "add_file host rootino f s =
     (let name = fst f
      in if 47 \<in> set name then Inl Assertion
         else case snd f of None \<Rightarrow> Inl (Perror ''open'')
         | Some pieces \<Rightarrow>
             let name = (if name \<noteq> [] \<and> hd name = 95 then tl name else name)
             in andThen (mkfs_ialloc host T_FILE s) (\<lambda>(inum, s).
                andThen (iappend host rootino (mk_dirent inum name) s) (\<lambda>s.
                add_pieces host inum pieces s)))"

fun add_files :: "(nat \<Rightarrow> bool) \<Rightarrow> nat \<Rightarrow> host_file list \<Rightarrow> mkfs \<Rightarrow> mkfs_exit + mkfs" where
  "add_files host rootino [] s = Inr s"
| "add_files host rootino (f # fs) s = andThen (add_file host rootino f s) (add_files host rootino fs)"

definition fix_root_size :: "(nat \<Rightarrow> bool) \<Rightarrow> nat \<Rightarrow> mkfs \<Rightarrow> mkfs_exit + mkfs" where
  "fix_root_size host rootino s =
     andThen (rinode host rootino s) (\<lambda>(din, s).
     let off = xint (i_size din);
         off = (off div of_nat BSIZE + 1) * of_nat BSIZE
     in winode host rootino (din\<lparr>i_size := xint off\<rparr>) s)"

text \<open>\<open>argv\<close> has the image, whether it can be opened, and the files; without it there is a usage message.\<close>

definition mkfs_main :: "(nat \<Rightarrow> bool) \<Rightarrow> (bool \<times> host_file list) option \<Rightarrow> mkfs_exit + mkfs" where
  "mkfs_main host argv =
     (case argv of None \<Rightarrow> Inl Usage
      | Some (opens, files) \<Rightarrow>
          if \<not> opens then Inl (Perror ''open'')
          else let s = \<lparr>mk_img = [], mk_freeinode = 1, mk_freeblock = nmeta, mk_calls = 0\<rparr>
          in andThen (zero_image host [0..<FSSIZE] s) (\<lambda>s.
             andThen (wsect host 1 sb_block s) (\<lambda>s.
             andThen (mkfs_ialloc host T_DIR s) (\<lambda>(rootino, s).
             if rootino \<noteq> unat ROOTINO then Inl Assertion
             else andThen (iappend host rootino (mk_dirent rootino [46]) s) (\<lambda>s.
                  andThen (iappend host rootino (mk_dirent rootino [46, 46]) s) (\<lambda>s.
                  andThen (add_files host rootino files s) (\<lambda>s.
                  andThen (fix_root_size host rootino s) (\<lambda>s.
                  mkfs_balloc host (mk_freeblock s) s))))))))"

section \<open>Inodes in blocks\<close>

lemma le_bytes_eq: "[ucast x, ucast (drop_bit 8 x), ucast (drop_bit 16 x), ucast (drop_bit 24 x)] = le_bytes x"
  by (simp add: le_bytes_def)

lemma xint_id [simp]: "xint x = x"
proof -
  have "ld32 (le_bytes x) 0 = load32 (store32 0 x (\<lambda>_. 0)) 0"
    unfolding ld32_def by (rule load32_cong) (simp add: store32_def poke_def)
  then show ?thesis by (simp add: xint_def le_bytes_eq)
qed

lemma xshort_id [simp]: "xshort x = x"
proof -
  have "bit (xshort x) n = bit x n" if "n < 16" for n
    using that by (auto simp: xshort_def ld16_def bit_simps)
  then show ?thesis by (intro bit_word_eqI) simp
qed

lemma length_st16 [simp]: "length (st16 k w d) = length d"
  by (simp add: st16_def)

lemma st16_nth: "x < k \<or> k + 2 \<le> x \<Longrightarrow> st16 k w d ! x = d ! x"
  by (auto simp: st16_def)

lemma st32_outside: "x < k \<or> k + 4 \<le> x \<Longrightarrow> st32 k w d ! x = d ! x"
  by (auto simp: st32_def)

lemma ld16_cong: "d ! k = e ! k \<Longrightarrow> d ! (k + 1) = e ! (k + 1) \<Longrightarrow> ld16 d k = ld16 e k"
  by (simp add: ld16_def)

lemma ld32_cong: "(\<And>i. i < 4 \<Longrightarrow> d ! (k + i) = e ! (k + i)) \<Longrightarrow> ld32 d k = ld32 e k"
  unfolding ld32_def by (rule load32_cong)

lemma ld16_st16: "k + 1 < length d \<Longrightarrow> ld16 (st16 k w d) k = w"
proof -
  assume k: "k + 1 < length d"
  have "ld16 (st16 k w d) k = xshort w" using k unfolding xshort_def ld16_def st16_def by simp
  then show ?thesis by simp
qed

lemma length_fold_st32 [simp]: "length (fold (\<lambda>j. st32 (k + 4 * j) (ws ! j)) js d) = length d"
  by (induction js arbitrary: d) simp_all

lemma fold_st32_outside: "x < k \<or> k + 4 * n \<le> x \<Longrightarrow> fold (\<lambda>j. st32 (k + 4 * j) (ws ! j)) [0..<n] d ! x = d ! x"
  by (induction n) (auto simp: st32_outside)

lemma fold_st32_reads:
  "i < n \<Longrightarrow> k + 4 * n \<le> length d \<Longrightarrow> ld32 (fold (\<lambda>j. st32 (k + 4 * j) (ws ! j)) [0..<n] d) (k + 4 * i) = ws ! i"
proof (induction n)
  case (Suc n)
  let ?f = "fold (\<lambda>j. st32 (k + 4 * j) (ws ! j)) [0..<n] d"
  show ?case
  proof (cases "i = n")
    case False
    then have "ld32 (st32 (k + 4 * n) (ws ! n) ?f) (k + 4 * i) = ld32 ?f (k + 4 * i)"
      using Suc.prems by (intro ld32_st32_disjoint) auto
    with False Suc show ?thesis by simp
  qed (use Suc.prems in simp)
qed simp

lemma put_dinode_eq:
  "put_dinode k ip d = fold (\<lambda>j. st32 (k + 12 + 4 * j) (i_addrs ip ! j)) [0..<13]
     (st32 (k + 8) (i_size ip) (st16 (k + 6) (i_nlink ip) (st16 (k + 4) (i_minor ip) (st16 (k + 2) (i_major ip) (st16 k (i_type ip) d)))))"
  by (simp only: put_dinode_def Let_def NDIRECT_def) simp

lemma length_put_dinode [simp]: "length (put_dinode k ip d) = length d"
  using length_fold_st32 [of "k + 12" "i_addrs ip"] by (simp add: put_dinode_eq add.assoc)

lemma put_dinode_outside: "x < k \<or> k + 64 \<le> x \<Longrightarrow> put_dinode k ip d ! x = d ! x"
  using fold_st32_outside [of x "k + 12" 13 "i_addrs ip"] by (auto simp: put_dinode_eq st32_outside st16_nth)

lemma get_put_dinode:
  assumes "k + 64 \<le> length d" "length (i_addrs ip) = 13"
  shows "i_addrs (get_dinode k (put_dinode k ip d) x) = i_addrs ip" "i_size (get_dinode k (put_dinode k ip d) x) = i_size ip"
    "i_type (get_dinode k (put_dinode k ip d) x) = i_type ip" "i_nlink (get_dinode k (put_dinode k ip d) x) = i_nlink ip"
proof -
  have out: "fold (\<lambda>j. st32 (k + 12 + 4 * j) (i_addrs ip ! j)) [0..<13] e ! y = e ! y" if "y < k + 12" for e y
    using that by (rule fold_st32_outside [OF disjI1])
  show "i_addrs (get_dinode k (put_dinode k ip d) x) = i_addrs ip"
    using fold_st32_reads [of _ 13 "k + 12"] assms by (intro nth_equalityI) (simp_all add: get_dinode_def put_dinode_eq NDIRECT_def)
  have "ld32 (put_dinode k ip d) (k + 8) = ld32 (st32 (k + 8) (i_size ip) d) (k + 8)"
    using assms by (intro ld32_cong) (auto simp: put_dinode_eq out st32_def nth_list_update st16_def)
  then show "i_size (get_dinode k (put_dinode k ip d) x) = i_size ip" using assms by (simp add: get_dinode_def)
  have "ld16 (put_dinode k ip d) k = ld16 (st16 k (i_type ip) d) k"
    by (intro ld16_cong) (simp_all add: put_dinode_eq out st32_outside st16_nth)
  then show "i_type (get_dinode k (put_dinode k ip d) x) = i_type ip" using assms by (simp add: get_dinode_def ld16_st16)
  have "ld16 (put_dinode k ip d) (k + 6) = ld16 (st16 (k + 6) (i_nlink ip) (st16 (k + 4) (i_minor ip) (st16 (k + 2) (i_major ip) (st16 k (i_type ip) d)))) (k + 6)"
    by (intro ld16_cong) (simp_all add: put_dinode_eq out st32_outside)
  then show "i_nlink (get_dinode k (put_dinode k ip d) x) = i_nlink ip" using assms by (simp add: get_dinode_def ld16_st16)
qed

lemma get_dinode_cong:
  assumes "\<And>x. k \<le> x \<Longrightarrow> x < k + 64 \<Longrightarrow> d ! x = e ! x"
  shows "get_dinode k d ip = get_dinode k e ip"
proof -
  have h: "ld16 d (k + j) = ld16 e (k + j)" if "j + 2 \<le> 64" for j using that by (intro ld16_cong) (simp_all add: assms)
  have w: "ld32 d (k + j) = ld32 e (k + j)" if "j + 4 \<le> 64" for j using that by (intro ld32_cong) (simp_all add: assms)
  show ?thesis using h [of 0] h [of 2] h [of 4] h [of 6] by (simp add: get_dinode_def NDIRECT_def add.assoc w)
qed

section \<open>Sectors\<close>

lemma wsect_ok: "(\<And>n. host n) \<Longrightarrow> sec < length (mk_img s) \<Longrightarrow>
    wsect host sec buf s = Inr (s\<lparr>mk_calls := mk_calls s + 2, mk_img := (mk_img s)[sec := buf]\<rparr>)"
  by (simp add: wsect_def host_call_def)

lemma rsect_ok: "(\<And>n. host n) \<Longrightarrow> sec < length (mk_img s) \<Longrightarrow>
    rsect host sec s = Inr (mk_img s ! sec, s\<lparr>mk_calls := mk_calls s + 2\<rparr>)"
  by (simp add: rsect_def host_call_def)

lemma layout_values: "nmeta = 59" "unat (sb_inodestart mkfs_sb) = 32" "unat (sb_bmapstart mkfs_sb) = 58" "sb_inodestart mkfs_sb = 32"
  by (simp_all add: nmeta_def nlog_def LOGSIZE_def MAXOPBLOCKS_def ninodeblocks_def NINODES_def IPB_def BSIZE_def nbitmap_def FSSIZE_def mkfs_sb_def)

definition dinode_of :: "block list \<Rightarrow> nat \<Rightarrow> inode" where
  "dinode_of img inum = get_dinode (64 * (inum mod 8)) (img ! (32 + inum div 8)) no_inode"

lemma inode_place:
  assumes "inum < 208"
  shows "unat (IBLOCK (of_nat inum) mkfs_sb) = 32 + inum div 8" "dinode_at (of_nat inum) = 64 * (inum mod 8)"
proof -
  have u: "unat (of_nat inum :: uint) = inum" using assms by (simp add: unat_of_nat)
  have "unat ((of_nat inum :: uint) div 8) = inum div 8" by (simp add: unat_div u)
  then have "unat ((of_nat inum :: uint) div 8 + 32) = inum div 8 + 32" using assms by (subst unat_add_lem [THEN iffD1]) auto
  then show "unat (IBLOCK (of_nat inum) mkfs_sb) = 32 + inum div 8" by (simp add: IBLOCK_def layout_values(4) IPB_def BSIZE_def)
  show "dinode_at (of_nat inum) = 64 * (inum mod 8)" using u by (simp add: dinode_at_def IPB_def BSIZE_def)
qed

lemma rinode_ok: "(\<And>n. host n) \<Longrightarrow> inum < 208 \<Longrightarrow> 58 < length (mk_img s) \<Longrightarrow>
    rinode host inum s = Inr (dinode_of (mk_img s) inum, s\<lparr>mk_calls := mk_calls s + 2\<rparr>)"
  by (simp add: rinode_def inode_place rsect_ok dinode_of_def Let_def)

definition with_inode :: "nat \<Rightarrow> inode \<Rightarrow> block list \<Rightarrow> block list" where
  "with_inode inum ip img = img[32 + inum div 8 := put_dinode (64 * (inum mod 8)) ip (img ! (32 + inum div 8))]"

lemma winode_ok: "(\<And>n. host n) \<Longrightarrow> inum < 208 \<Longrightarrow> 58 < length (mk_img s) \<Longrightarrow>
    winode host inum ip s = Inr (s\<lparr>mk_calls := mk_calls s + 4, mk_img := with_inode inum ip (mk_img s)\<rparr>)"
  by (simp add: winode_def inode_place rsect_ok wsect_ok with_inode_def Let_def)

lemma with_inode_read:
  assumes "inum < 208" "58 < length img" "\<forall>b \<in> set img. length b = 512" "length (i_addrs ip) = 13"
  shows "i_addrs (dinode_of (with_inode inum ip img) inum) = i_addrs ip" "i_size (dinode_of (with_inode inum ip img) inum) = i_size ip"
    "i_type (dinode_of (with_inode inum ip img) inum) = i_type ip" "i_nlink (dinode_of (with_inode inum ip img) inum) = i_nlink ip"
proof -
  have "length (img ! (32 + inum div 8)) = 512" using assms(1-3) by simp
  moreover have "inum mod 8 < 8" by simp
  ultimately have "64 * (inum mod 8) + 64 \<le> length (img ! (32 + inum div 8))" by linarith
  note g = get_put_dinode [OF this assms(4)]
  have e: "with_inode inum ip img ! (32 + inum div 8) = put_dinode (64 * (inum mod 8)) ip (img ! (32 + inum div 8))"
    using assms by (simp add: with_inode_def)
  show "i_addrs (dinode_of (with_inode inum ip img) inum) = i_addrs ip" "i_size (dinode_of (with_inode inum ip img) inum) = i_size ip"
    "i_type (dinode_of (with_inode inum ip img) inum) = i_type ip" "i_nlink (dinode_of (with_inode inum ip img) inum) = i_nlink ip"
    unfolding dinode_of_def e by (rule g)+
qed

lemma with_inode_other:
  assumes "inum < 208" "58 < length img" "j \<noteq> inum"
  shows "dinode_of (with_inode inum ip img) j = dinode_of img j"
proof (cases "j div 8 = inum div 8")
  case True
  then have "j mod 8 \<noteq> inum mod 8" using assms(3) by (metis div_mult_mod_eq)
  then have "get_dinode (64 * (j mod 8)) (put_dinode (64 * (inum mod 8)) ip d) no_inode = get_dinode (64 * (j mod 8)) d no_inode" for d
    by (intro get_dinode_cong put_dinode_outside) auto
  then show ?thesis using True assms by (simp add: dinode_of_def with_inode_def)
qed (simp add: dinode_of_def with_inode_def)

lemma with_inode_nth: "b < 32 \<or> 58 \<le> b \<Longrightarrow> inum < 208 \<Longrightarrow> with_inode inum ip img ! b = img ! b"
  by (auto simp: with_inode_def)

lemma with_inode_lengths [simp]: "length (with_inode inum ip img) = length img"
  by (simp add: with_inode_def)

lemma with_inode_blocks: "58 < length img \<Longrightarrow> inum < 208 \<Longrightarrow> \<forall>b \<in> set img. length b = 512 \<Longrightarrow> \<forall>b \<in> set (with_inode inum ip img). length b = 512"
  by (auto simp: with_inode_def elim!: set_list_updateE)

section \<open>The blocks of a file\<close>

text \<open>
  \<open>maps img addrs bl ib\<close>: the addresses of an inode, with the indirect block \<open>ib\<close>, give the blocks \<open>bl\<close>.
  \<open>bytes_are img bl data\<close>: these blocks have the bytes \<open>data\<close>, and zeros behind them.
\<close>

definition maps :: "block list \<Rightarrow> uint list \<Rightarrow> nat list \<Rightarrow> nat \<Rightarrow> bool" where
  "maps img addrs bl ib \<longleftrightarrow> length addrs = 13 \<and> length bl \<le> 140
     \<and> (\<forall>k < 12. unat (addrs ! k) = (if k < length bl then bl ! k else 0)) \<and> unat (addrs ! 12) = ib \<and> (ib = 0 \<longleftrightarrow> length bl \<le> 12)
     \<and> (12 < length bl \<longrightarrow> (\<forall>j < 128. unat (ld32 (img ! ib) (4 * j)) = (if 12 + j < length bl then bl ! (12 + j) else 0)))"

definition bytes_are :: "block list \<Rightarrow> nat list \<Rightarrow> uchar list \<Rightarrow> bool" where
  "bytes_are img bl data \<longleftrightarrow> (\<forall>i < 512 * length bl. img ! (bl ! (i div 512)) ! (i mod 512) = (if i < length data then data ! i else 0))"

definition owns :: "nat list \<Rightarrow> nat \<Rightarrow> nat set" where
  "owns bl ib = set bl \<union> (if ib = 0 then {} else {ib})"

definition nblk :: "nat \<Rightarrow> nat" where
  "nblk n = (n + 511) div 512"

definition need :: "nat \<Rightarrow> nat" where
  "need n = nblk n + (if 12 < nblk n then 1 else 0)"

definition img_ok :: "block list \<Rightarrow> nat \<Rightarrow> bool" where
  "img_ok img fb \<longleftrightarrow> length img = 1000 \<and> (\<forall>b \<in> set img. length b = 512) \<and> 59 \<le> fb \<and> fb \<le> 1000
     \<and> (\<forall>b. fb \<le> b \<longrightarrow> b < 1000 \<longrightarrow> img ! b = replicate 512 0)"

definition placed :: "nat \<Rightarrow> nat list \<Rightarrow> nat \<Rightarrow> bool" where
  "placed fb bl ib \<longleftrightarrow> distinct bl \<and> ib \<notin> set bl \<and> owns bl ib \<subseteq> {59..<fb}"

lemma ld32_zeros: "j + 3 < 512 \<Longrightarrow> ld32 (replicate 512 0) j = 0"
proof -
  assume "j + 3 < 512"
  then have "ld32 (replicate 512 0) j = ld32 [0, 0, 0, 0] 0"
    unfolding ld32_def load32_def by (simp add: numeral_2_eq_2 numeral_3_eq_3)
  also have "\<dots> = xint 0" unfolding xint_def by simp
  also have "\<dots> = 0" by simp
  finally show ?thesis .
qed

lemma unat_block: "b \<le> 1002 \<Longrightarrow> unat (of_nat b :: uint) = b"
  by (simp add: unat_of_nat)

text \<open>The block is there already.\<close>

lemma block_for_old:
  assumes h: "\<And>n. host n" and m: "maps (mk_img s) (i_addrs din) bl ib" and p: "placed (mk_freeblock s) bl ib" and i: "img_ok (mk_img s) (mk_freeblock s)"
    and k: "k < length bl"
  shows "\<exists>c. block_for host k din s = Inr (bl ! k, din, s\<lparr>mk_calls := c\<rparr>)"
proof -
  have pos: "0 < bl ! k" using p nth_mem [OF k] by (fastforce simp: placed_def owns_def)
  have M: "length bl \<le> 140" "unat (i_addrs din ! 12) = ib" "ib = 0 \<longleftrightarrow> length bl \<le> 12" using m by (auto simp: maps_def)
  show ?thesis
  proof (cases "k < 12")
    case True
    then have "unat (i_addrs din ! k) = bl ! k" using m k by (simp add: maps_def)
    moreover from this have "i_addrs din ! k \<noteq> 0" using pos by auto
    ultimately have "block_for host k din s = Inr (bl ! k, din, s\<lparr>mk_calls := mk_calls s\<rparr>)"
      using True by (simp add: block_for_def NDIRECT_def new_addr_def)
    then show ?thesis by blast
  next
    case False
    then have "unat (ld32 (mk_img s ! ib) (4 * (k - 12))) = bl ! k" using m k M(1) by (auto simp: maps_def)
    moreover from this have "ld32 (mk_img s ! ib) (4 * (k - 12)) \<noteq> 0" using pos by auto
    moreover have ib: "ib \<noteq> 0" "i_addrs din ! 12 \<noteq> 0" using M k False by auto
    moreover have "ib < length (mk_img s)" using p i ib by (auto simp: placed_def owns_def img_ok_def)
    ultimately have "block_for host k din s = Inr (bl ! k, din, s\<lparr>mk_calls := mk_calls s + 2\<rparr>)"
      using False M(2) h by (simp add: block_for_def NDIRECT_def new_addr_def rsect_ok)
    then show ?thesis by blast
  qed
qed

lemma maps_grow_direct:
  assumes m: "maps img addrs bl ib" and k: "length bl < 12" and x: "unat x = b"
  shows "maps img (addrs[length bl := x]) (bl @ [b]) ib"
  using assms unfolding maps_def by (auto simp: nth_append nth_list_update)

lemma block_for_direct:
  assumes m: "maps (mk_img s) (i_addrs din) bl ib" and k: "length bl < 12" and fb: "mk_freeblock s < 1000"
  defines "b \<equiv> mk_freeblock s"
  shows "\<exists>din'. block_for host (length bl) din s = Inr (b, din', s\<lparr>mk_freeblock := b + 1\<rparr>)
    \<and> maps (mk_img s) (i_addrs din') (bl @ [b]) ib \<and> i_type din' = i_type din \<and> i_nlink din' = i_nlink din"
proof -
  have "unat (i_addrs din ! length bl) = 0" "length (i_addrs din) = 13" using m k by (simp_all add: maps_def)
  then have "i_addrs din ! length bl = 0" "length bl < length (i_addrs din)" using k by (simp_all add: unat_eq_0)
  then have "block_for host (length bl) din s =
      Inr (b, din\<lparr>i_addrs := (i_addrs din)[length bl := of_nat b]\<rparr>, s\<lparr>mk_freeblock := b + 1\<rparr>)"
    using k fb by (simp add: block_for_def NDIRECT_def new_addr_def b_def unat_block)
  moreover have "maps (mk_img s) ((i_addrs din)[length bl := of_nat b]) (bl @ [b]) ib"
    by (rule maps_grow_direct [OF m k]) (use fb in \<open>simp add: b_def unat_block\<close>)
  ultimately show ?thesis by auto
qed

lemma entry_read:
  "length d = 512 \<Longrightarrow> i < 128 \<Longrightarrow> j < 128 \<Longrightarrow> ld32 (st32 (4 * j) w d) (4 * i) = (if i = j then w else ld32 d (4 * i))"
  by (cases i j rule: linorder_cases) (auto intro: ld32_st32_disjoint)

text \<open>A new block behind the indirect block, which is new itself for the first of them.\<close>

lemma block_for_indirect:
  assumes h: "\<And>n. host n" and m: "maps (mk_img s) (i_addrs din) bl ib" and p: "placed (mk_freeblock s) bl ib" and i: "img_ok (mk_img s) (mk_freeblock s)"
    and k: "12 < length bl" "length bl < 140" and fb: "mk_freeblock s < 1000"
  defines "b \<equiv> mk_freeblock s"
  defines "d \<equiv> st32 (4 * (length bl - 12)) (of_nat b) (mk_img s ! ib)"
  shows "\<exists>c. block_for host (length bl) din s = Inr (b, din, s\<lparr>mk_freeblock := b + 1, mk_calls := c, mk_img := (mk_img s)[ib := d]\<rparr>)
    \<and> maps ((mk_img s)[ib := d]) (i_addrs din) (bl @ [b]) ib"
proof -
  have M: "unat (i_addrs din ! 12) = ib" "ib \<noteq> 0" "length (i_addrs din) = 13" using m k by (auto simp: maps_def)
  have ib: "ib < length (mk_img s)" "i_addrs din ! 12 \<noteq> 0" using p i M by (auto simp: placed_def owns_def img_ok_def)
  then have len: "length (mk_img s ! ib) = 512" using i by (simp add: img_ok_def)
  have ind: "unat (ld32 (mk_img s ! ib) (4 * j)) = (if 12 + j < length bl then bl ! (12 + j) else 0)" if "j < 128" for j
    using m k that by (simp add: maps_def)
  have "ld32 (mk_img s ! ib) (4 * (length bl - 12)) = 0" using ind [of "length bl - 12"] k by (simp add: unat_eq_0)
  moreover have "ld32 d (4 * (length bl - 12)) = of_nat b" using len k by (simp add: d_def)
  ultimately have "block_for host (length bl) din s = Inr (b, din, s\<lparr>mk_freeblock := b + 1, mk_calls := mk_calls s + 4, mk_img := (mk_img s)[ib := d]\<rparr>)"
    using k M ib h fb by (simp add: block_for_def NDIRECT_def new_addr_def rsect_ok wsect_ok b_def d_def unat_block)
  moreover have "unat (ld32 d (4 * j)) = (if 12 + j < length (bl @ [b]) then (bl @ [b]) ! (12 + j) else 0)" if "j < 128" for j
  proof (cases "j = length bl - 12")
    case True
    then have "(bl @ [b]) ! (12 + j) = b" "12 + j = length bl" using k by (simp_all add: nth_append)
    moreover have "unat (ld32 d (4 * j)) = b" using True len k fb unfolding d_def by (simp add: entry_read b_def unat_block)
    ultimately show ?thesis by simp
  next
    case False
    have "length bl - 12 < 128" using k by simp
    then have "ld32 d (4 * j) = ld32 (mk_img s ! ib) (4 * j)" unfolding d_def using False len that by (simp add: entry_read)
    then show ?thesis using ind [OF that] False k by (auto simp: nth_append)
  qed
  then have "maps ((mk_img s)[ib := d]) (i_addrs din) (bl @ [b]) ib"
    using m k ib unfolding maps_def by (auto simp: nth_append)
  ultimately show ?thesis by blast
qed

lemma block_for_first_indirect:
  assumes h: "\<And>n. host n" and m: "maps (mk_img s) (i_addrs din) bl ib" and i: "img_ok (mk_img s) (mk_freeblock s)"
    and k: "length bl = 12" and fb: "mk_freeblock s + 1 < 1000"
  defines "b \<equiv> mk_freeblock s"
  defines "d \<equiv> st32 0 (of_nat (b + 1)) (replicate 512 0)"
  shows "\<exists>din' c. block_for host (length bl) din s = Inr (b + 1, din', s\<lparr>mk_freeblock := b + 2, mk_calls := c, mk_img := (mk_img s)[b := d]\<rparr>)
    \<and> maps ((mk_img s)[b := d]) (i_addrs din') (bl @ [b + 1]) b \<and> i_type din' = i_type din \<and> i_nlink din' = i_nlink din"
proof -
  have M: "i_addrs din ! 12 = 0" "length (i_addrs din) = 13" using m k by (auto simp: maps_def unat_eq_0)
  have I: "length (mk_img s) = 1000" "mk_img s ! b = replicate 512 0" "59 \<le> b" using i fb by (auto simp: img_ok_def b_def)
  let ?din = "din\<lparr>i_addrs := (i_addrs din)[12 := of_nat b]\<rparr>"
  have z: "ld32 (replicate 512 0) 0 = 0" by (rule ld32_zeros) simp
  have "ld32 d 0 = of_nat (b + 1)" by (simp add: d_def)
  then have "block_for host (length bl) din s = Inr (b + 1, ?din, s\<lparr>mk_freeblock := b + 2, mk_calls := mk_calls s + 4, mk_img := (mk_img s)[b := d]\<rparr>)"
    using k M I fb h z
    by (simp add: block_for_def NDIRECT_def new_addr_def rsect_ok wsect_ok b_def [symmetric] d_def unat_block del: of_nat_add of_nat_Suc)
  moreover have "unat (ld32 d (4 * j)) = (if 12 + j < length (bl @ [b + 1]) then (bl @ [b + 1]) ! (12 + j) else 0)" if "j < 128" for j
  proof (cases "j = 0")
    case True
    then show ?thesis using k fb by (simp add: d_def nth_append b_def unat_block del: of_nat_add of_nat_Suc)
  next
    case False
    have "ld32 d (4 * j) = ld32 (replicate 512 0) (4 * j)" unfolding d_def using False that by (intro ld32_st32_disjoint) auto
    also have "\<dots> = 0" using that by (intro ld32_zeros) simp
    finally show ?thesis using False k by simp
  qed
  then have "maps ((mk_img s)[b := d]) (i_addrs ?din) (bl @ [b + 1]) b"
    using m k M I fb unfolding maps_def by (auto simp: nth_append b_def unat_block)
  ultimately show ?thesis by auto
qed

lemma img_ok_update:
  assumes "img_ok img fb" "c < fb'" "length d = 512" "fb \<le> fb'" "fb' \<le> 1000"
  shows "img_ok (img[c := d]) fb'"
  using assms unfolding img_ok_def by (auto elim!: set_list_updateE)

definition grows :: "mkfs \<Rightarrow> mkfs \<Rightarrow> nat set \<Rightarrow> nat set \<Rightarrow> bool" where
  "grows s t A B \<longleftrightarrow> B \<subseteq> A \<union> {mk_freeblock s..<mk_freeblock t} \<and> mk_freeblock s \<le> mk_freeblock t \<and> mk_freeinode t = mk_freeinode s
     \<and> (\<forall>c. c < mk_freeblock s \<longrightarrow> c \<notin> A \<longrightarrow> mk_img t ! c = mk_img s ! c)"

lemma grows_trans: "grows s t A B \<Longrightarrow> grows t u B C \<Longrightarrow> grows s u A C"
  unfolding grows_def by (auto simp: subset_iff) (metis less_le_trans not_le)

definition filed :: "mkfs \<Rightarrow> inode \<Rightarrow> nat list \<Rightarrow> nat \<Rightarrow> uchar list \<Rightarrow> bool" where
  "filed s din bl ib data \<longleftrightarrow> maps (mk_img s) (i_addrs din) bl ib \<and> bytes_are (mk_img s) bl data
     \<and> placed (mk_freeblock s) bl ib \<and> img_ok (mk_img s) (mk_freeblock s)"

lemma bytes_are_new:
  assumes "bytes_are img bl data" "length data \<le> 512 * length bl" "\<And>c. c \<in> set bl \<Longrightarrow> img' ! c = img ! c" "img' ! x = replicate 512 0"
  shows "bytes_are img' (bl @ [x]) data"
  unfolding bytes_are_def
proof (intro allI impI)
  fix i assume i: "i < 512 * length (bl @ [x])"
  show "img' ! ((bl @ [x]) ! (i div 512)) ! (i mod 512) = (if i < length data then data ! i else 0)"
  proof (cases "i < 512 * length bl")
    case True
    then have k: "i div 512 < length bl" by (simp add: less_mult_imp_div_less mult.commute)
    then have "img' ! (bl ! (i div 512)) = img ! (bl ! (i div 512))" using assms(3) by simp
    then show ?thesis using assms(1) True k by (simp add: bytes_are_def nth_append)
  next
    case False
    then have "i div 512 = length bl" using i by auto
    then show ?thesis using assms(2,4) False by (simp add: nth_append)
  qed
qed

lemma block_for_new:
  assumes h: "\<And>n. host n" and f: "filed s din bl ib data" and k: "length bl < 140" and d: "length data \<le> 512 * length bl"
    and fb: "mk_freeblock s + (if length bl = 12 then 2 else 1) \<le> 1000"
  shows "\<exists>x din' t ib'. block_for host (length bl) din s = Inr (x, din', t) \<and> mk_freeblock t = mk_freeblock s + (if length bl = 12 then 2 else 1)
    \<and> filed t din' (bl @ [x]) ib' data \<and> grows s t (owns bl ib) (owns (bl @ [x]) ib') \<and> i_type din' = i_type din \<and> i_nlink din' = i_nlink din"
proof -
  let ?b = "mk_freeblock s"
  have m: "maps (mk_img s) (i_addrs din) bl ib" and b: "bytes_are (mk_img s) bl data" and p: "placed ?b bl ib" and i: "img_ok (mk_img s) ?b"
    using f by (auto simp: filed_def)
  have I: "length (mk_img s) = 1000" "59 \<le> ?b" using i by (auto simp: img_ok_def)
  have z: "mk_img s ! c = replicate 512 0" if "?b \<le> c" "c < 1000" for c using i that by (simp add: img_ok_def)
  have P: "\<And>c. c \<in> set bl \<Longrightarrow> 59 \<le> c \<and> c < ?b" "ib \<noteq> 0 \<Longrightarrow> 59 \<le> ib \<and> ib < ?b" "ib \<notin> set bl" "distinct bl"
    using p by (auto simp: placed_def owns_def)
  have ib0: "ib = 0 \<longleftrightarrow> length bl \<le> 12" using m by (simp add: maps_def)
  consider (a) "length bl < 12" | (b) "length bl = 12" | (c) "12 < length bl" by linarith
  then show ?thesis
  proof cases
    case a
    then have fb': "?b < 1000" using fb by simp
    obtain din' where e: "block_for host (length bl) din s = Inr (?b, din', s\<lparr>mk_freeblock := ?b + 1\<rparr>)"
        "maps (mk_img s) (i_addrs din') (bl @ [?b]) ib" "i_type din' = i_type din" "i_nlink din' = i_nlink din"
      using block_for_direct [OF m a fb'] by blast
    let ?t = "s\<lparr>mk_freeblock := ?b + 1\<rparr>"
    have "img_ok (mk_img s) (?b + 1)" using i fb' by (auto simp: img_ok_def)
    moreover have "bytes_are (mk_img s) (bl @ [?b]) data" by (rule bytes_are_new [OF b d]) (use z fb' in auto)
    moreover have "placed (?b + 1) (bl @ [?b]) ib" using P I ib0 a by (fastforce simp: placed_def owns_def)
    ultimately have "filed ?t din' (bl @ [?b]) ib data" using e(2) by (simp add: filed_def)
    moreover have "grows s ?t (owns bl ib) (owns (bl @ [?b]) ib)" by (auto simp: grows_def owns_def)
    ultimately show ?thesis using e a by fastforce
  next
    case b': b
    then have fb': "?b + 1 < 1000" using fb by simp
    let ?d = "st32 0 (of_nat (?b + 1)) (replicate 512 0)"
    let ?img = "(mk_img s)[?b := ?d]"
    obtain din' c where e: "block_for host (length bl) din s = Inr (?b + 1, din', s\<lparr>mk_freeblock := ?b + 2, mk_calls := c, mk_img := ?img\<rparr>)"
        "maps ?img (i_addrs din') (bl @ [?b + 1]) ?b" "i_type din' = i_type din" "i_nlink din' = i_nlink din"
      using block_for_first_indirect [where host = host, OF h m i b' fb'] by blast
    let ?t = "s\<lparr>mk_freeblock := ?b + 2, mk_calls := c, mk_img := ?img\<rparr>"
    have "img_ok ?img (?b + 2)" by (rule img_ok_update [OF i]) (use fb' in simp_all)
    moreover have "bytes_are ?img (bl @ [?b + 1]) data" by (rule bytes_are_new [OF b d]) (use z [of "?b + 1"] fb' P(1) in force)+
    moreover have "placed (?b + 2) (bl @ [?b + 1]) ?b" using P I by (fastforce simp: placed_def owns_def)
    ultimately have "filed ?t din' (bl @ [?b + 1]) ?b data" using e(2) by (simp add: filed_def)
    moreover have "grows s ?t (owns bl ib) (owns (bl @ [?b + 1]) ?b)" by (auto simp: grows_def owns_def)
    ultimately show ?thesis using e b' by fastforce
  next
    case c
    then have fb': "?b < 1000" using fb by simp
    let ?d = "st32 (4 * (length bl - 12)) (of_nat ?b) (mk_img s ! ib)"
    let ?img = "(mk_img s)[ib := ?d]"
    obtain c' where e: "block_for host (length bl) din s = Inr (?b, din, s\<lparr>mk_freeblock := ?b + 1, mk_calls := c', mk_img := ?img\<rparr>)"
        "maps ?img (i_addrs din) (bl @ [?b]) ib"
      using block_for_indirect [where host = host, OF h m p i c k fb'] by blast
    have ib: "59 \<le> ib" "ib < ?b" "ib \<noteq> 0" using P(2) ib0 c by auto
    let ?t = "s\<lparr>mk_freeblock := ?b + 1, mk_calls := c', mk_img := ?img\<rparr>"
    have "img_ok ?img (?b + 1)" by (rule img_ok_update [OF i]) (use fb' ib I i in \<open>auto simp: img_ok_def\<close>)
    moreover have "bytes_are ?img (bl @ [?b]) data"
    proof (rule bytes_are_new [OF b d])
      show "?img ! c = mk_img s ! c" if "c \<in> set bl" for c using P(3) that by (metis nth_list_update_neq)
    qed (use z [of ?b] fb' ib in simp)
    moreover have "placed (?b + 1) (bl @ [?b]) ib" using P I ib by (fastforce simp: placed_def owns_def)
    ultimately have "filed ?t din (bl @ [?b]) ib data" using e(2) by (simp add: filed_def)
    moreover have "grows s ?t (owns bl ib) (owns (bl @ [?b]) ib)" using ib by (auto simp: grows_def owns_def)
    ultimately show ?thesis using e c by fastforce
  qed
qed

section \<open>Appending\<close>

lemma length_bcopy_at [simp]: "k + length src \<le> length buf \<Longrightarrow> length (bcopy_at k src buf) = length buf"
  by (simp add: bcopy_at_def)

lemma bcopy_at_nth:
  "k + length src \<le> length buf \<Longrightarrow> r < length buf \<Longrightarrow>
   bcopy_at k src buf ! r = (if k \<le> r \<and> r < k + length src then src ! (r - k) else buf ! r)"
  by (auto simp: bcopy_at_def nth_append)

lemma put_chunk:
  fixes data chunk :: "uchar list"
  defines "k \<equiv> length data div 512" and "m \<equiv> length data mod 512"
  assumes b: "bytes_are img bl data" and l: "distinct bl" "\<forall>c \<in> set bl. c < length img" "\<forall>d \<in> set img. length d = 512"
    and k: "k < length bl" "m + length chunk \<le> 512"
  shows "bytes_are (img[bl ! k := bcopy_at m chunk (img ! (bl ! k))]) bl (data @ chunk)"
  unfolding bytes_are_def
proof (intro allI impI)
  fix i assume i: "i < 512 * length bl"
  have old: "img ! (bl ! (i div 512)) ! (i mod 512) = (if i < length data then data ! i else 0)" using b i by (simp add: bytes_are_def)
  have j: "i div 512 < length bl" using i by (simp add: less_mult_imp_div_less mult.commute)
  have data: "length data = 512 * k + m" by (simp add: k_def m_def)
  show "img[bl ! k := bcopy_at m chunk (img ! (bl ! k))] ! (bl ! (i div 512)) ! (i mod 512)
      = (if i < length (data @ chunk) then (data @ chunk) ! i else 0)"
  proof (cases "i div 512 = k")
    case True
    have ii: "i = 512 * k + i mod 512" using True by (metis mult_div_mod_eq)
    have len: "length (img ! (bl ! k)) = 512" "bl ! k < length img" using l k by simp_all
    have "i mod 512 < 512" by simp
    then have "bcopy_at m chunk (img ! (bl ! k)) ! (i mod 512)
        = (if m \<le> i mod 512 \<and> i mod 512 < m + length chunk then chunk ! (i mod 512 - m) else img ! (bl ! k) ! (i mod 512))"
      using len k by (intro bcopy_at_nth) simp_all
    moreover have "i < length data \<longleftrightarrow> i mod 512 < m" "i < length data + length chunk \<longleftrightarrow> i mod 512 < m + length chunk"
      "i - length data = i mod 512 - m" using ii data by linarith+
    ultimately show ?thesis using True len old by (auto simp: nth_append)
  next
    case False
    then have "bl ! (i div 512) \<noteq> bl ! k" using l(1) j k(1) by (simp add: nth_eq_iff_index_eq)
    moreover have "i < length data \<longleftrightarrow> i < length data + length chunk"
    proof -
      have "i < 512 * k \<or> 512 * (k + 1) \<le> i" using False by (auto simp: not_less)
      then show ?thesis using data k(2) by auto
    qed
    ultimately show ?thesis using old by (auto simp: nth_append)
  qed
qed

lemma nblk_after:
  assumes "0 < n" "n \<le> 512 - len mod 512"
  shows "nblk (len + n) = len div 512 + 1"
proof -
  define q r where "q = len div 512" "r = len mod 512"
  have l: "len = 512 * q + r" "r < 512" by (simp_all add: q_r_def)
  have n: "n \<le> 512 - r" using assms(2) by (simp add: q_r_def)
  have "(512 * q + r + n + 511) div 512 = q + 1" using assms(1) l(2) n by (intro div_nat_eqI) auto
  then show ?thesis unfolding nblk_def l(1) [symmetric] by (simp add: q_r_def)
qed

lemma nblk_mod: "nblk len = (if len mod 512 = 0 then len div 512 else len div 512 + 1)"
proof -
  define q r where "q = len div 512" "r = len mod 512"
  have l: "len = 512 * q + r" "r < 512" by (simp_all add: q_r_def)
  have "(512 * q + r + 511) div 512 = (if r = 0 then q else q + 1)" using l(2) by (intro div_nat_eqI) auto
  then show ?thesis unfolding nblk_def l(1) [symmetric] by (simp add: q_r_def)
qed

lemma need_step:
  assumes "0 < n" "n \<le> 512 - len mod 512"
  shows "need (len + n) = need len + (if len mod 512 = 0 then if len div 512 = 12 then 2 else 1 else 0)"
  unfolding need_def nblk_after [OF assms] nblk_mod [of len] by auto

lemma grows_refl: "mk_img t = mk_img s \<Longrightarrow> mk_freeblock t = mk_freeblock s \<Longrightarrow> mk_freeinode t = mk_freeinode s \<Longrightarrow> grows s t A A"
  by (simp add: grows_def)

lemma get_block:
  assumes h: "\<And>n. host n" and f: "filed s din bl ib data" and bl: "length bl = nblk (length data)" and n: "0 < n" "n \<le> 512 - length data mod 512"
    and fits: "nblk (length data + n) \<le> 140" "mk_freeblock s + need (length data + n) - need (length data) \<le> 1000"
  shows "\<exists>x din' t bl' ib'. block_for host (length data div 512) din s = Inr (x, din', t) \<and> filed t din' bl' ib' data
    \<and> length bl' = nblk (length data + n) \<and> bl' ! (length data div 512) = x \<and> grows s t (owns bl ib) (owns bl' ib')
    \<and> mk_freeblock t = mk_freeblock s + need (length data + n) - need (length data) \<and> i_type din' = i_type din \<and> i_nlink din' = i_nlink din"
proof (cases "length data mod 512 = 0")
  case True
  then have k: "length bl = length data div 512" using bl nblk_mod by simp
  have d: "length data \<le> 512 * length bl" using mult_div_mod_eq [of 512 "length data"] True k by linarith
  have fb: "mk_freeblock s + need (length data + n) - need (length data) = mk_freeblock s + (if length bl = 12 then 2 else 1)"
    unfolding need_step [OF n] using True k by simp
  have "length bl < 140" using fits(1) k by (simp add: nblk_after [OF n])
  from block_for_new [where host = host, OF h f this d] fits(2) fb
  obtain x din' t ib' where "block_for host (length bl) din s = Inr (x, din', t)" "mk_freeblock t = mk_freeblock s + (if length bl = 12 then 2 else 1)"
    "filed t din' (bl @ [x]) ib' data" "grows s t (owns bl ib) (owns (bl @ [x]) ib')" "i_type din' = i_type din" "i_nlink din' = i_nlink din"
    by metis
  then show ?thesis unfolding fb nblk_after [OF n] k [symmetric]
    by (intro exI [of _ x] exI [of _ din'] exI [of _ t] exI [of _ "bl @ [x]"] exI [of _ ib']) simp
next
  case False
  then have k: "length bl = length data div 512 + 1" using bl nblk_mod by simp
  have F: "maps (mk_img s) (i_addrs din) bl ib" "placed (mk_freeblock s) bl ib" "img_ok (mk_img s) (mk_freeblock s)" using f by (simp_all add: filed_def)
  obtain c where e: "block_for host (length data div 512) din s = Inr (bl ! (length data div 512), din, s\<lparr>mk_calls := c\<rparr>)"
    using block_for_old [where host = host, OF h F, of "length data div 512"] k by auto
  have fb: "mk_freeblock s + need (length data + n) - need (length data) = mk_freeblock s" unfolding need_step [OF n] using False by simp
  have "filed (s\<lparr>mk_calls := c\<rparr>) din bl ib data" using f by (simp add: filed_def)
  moreover have "grows s (s\<lparr>mk_calls := c\<rparr>) (owns bl ib) (owns bl ib)" by (rule grows_refl) simp_all
  ultimately show ?thesis unfolding fb nblk_after [OF n] using e k
    by (intro exI [of _ "bl ! (length data div 512)"] exI [of _ din] exI [of _ "s\<lparr>mk_calls := c\<rparr>"] exI [of _ bl] exI [of _ ib]) simp
qed

lemma write_block:
  assumes f: "filed t din bl ib data" and n: "length chunk \<le> 512 - length data mod 512" and k: "length data div 512 < length bl"
  defines "x \<equiv> bl ! (length data div 512)"
  defines "img' \<equiv> (mk_img t)[x := bcopy_at (length data mod 512) chunk (mk_img t ! x)]"
  shows "x < length (mk_img t)" "filed (t\<lparr>mk_calls := c, mk_img := img'\<rparr>) din bl ib (data @ chunk)"
    "grows t (t\<lparr>mk_calls := c, mk_img := img'\<rparr>) (owns bl ib) (owns bl ib)"
proof -
  have F: "maps (mk_img t) (i_addrs din) bl ib" "bytes_are (mk_img t) bl data" "placed (mk_freeblock t) bl ib" "img_ok (mk_img t) (mk_freeblock t)"
    using f by (simp_all add: filed_def)
  have P: "\<forall>c \<in> set bl. c < mk_freeblock t" "distinct bl" "ib \<notin> set bl" using F(3) by (auto simp: placed_def owns_def)
  have I: "length (mk_img t) = 1000" "mk_freeblock t \<le> 1000" "\<forall>d \<in> set (mk_img t). length d = 512" using F(4) by (auto simp: img_ok_def)
  have x: "x \<in> set bl" using k by (simp add: x_def)
  then have xl: "x < mk_freeblock t" "x < 1000" using P(1) I(2) by auto
  then show "x < length (mk_img t)" using I by simp
  have len: "length (bcopy_at (length data mod 512) chunk (mk_img t ! x)) = 512" using n xl I by simp
  have n': "length data mod 512 + length chunk \<le> 512" using n mod_less_divisor [of 512 "length data"] by linarith
  have b: "bytes_are img' bl (data @ chunk)"
    unfolding img'_def x_def by (rule put_chunk [OF F(2) P(2) _ I(3) k n']) (use P(1) I in force)
  have "x \<noteq> ib" using x P(3) by auto
  then have "img' ! ib = mk_img t ! ib" by (simp add: img'_def)
  then have "maps img' (i_addrs din) bl ib" using F(1) by (simp add: maps_def)
  moreover have "img_ok img' (mk_freeblock t)" unfolding img'_def by (rule img_ok_update [OF F(4) xl(1) len]) (use I in simp_all)
  ultimately show "filed (t\<lparr>mk_calls := c, mk_img := img'\<rparr>) din bl ib (data @ chunk)" using F(3) b by (simp add: filed_def)
  show "grows t (t\<lparr>mk_calls := c, mk_img := img'\<rparr>) (owns bl ib) (owns bl ib)"
  proof -
    have "img' ! c = mk_img t ! c" if "c \<notin> owns bl ib" for c
    proof -
      have "c \<noteq> x" using that x by (auto simp: owns_def)
      then show ?thesis by (simp add: img'_def)
    qed
    then show ?thesis by (simp add: grows_def)
  qed
qed

lemma nblk_mono: "a \<le> b \<Longrightarrow> nblk a \<le> nblk b"
  by (simp add: nblk_def div_le_mono)

lemma need_mono: "a \<le> b \<Longrightarrow> need a \<le> need b"
  using nblk_mono [of a b] by (auto simp: need_def)

lemma in_block: "(len div 512 + 1) * 512 - len = 512 - len mod 512" for len :: nat
proof -
  define q r where "q = len div 512" "r = len mod 512"
  have "len = q * 512 + r" by (simp add: q_r_def)
  then have "(q + 1) * 512 - len = 512 - r" by simp
  then show ?thesis by (simp only: q_r_def)
qed

lemma iappend_loop_ok:
  assumes h: "\<And>n. host n"
  shows "filed s din bl ib data \<Longrightarrow> length bl = nblk (length data) \<Longrightarrow> nblk (length data + length p) \<le> 140 \<Longrightarrow>
    mk_freeblock s + need (length data + length p) - need (length data) \<le> 1000 \<Longrightarrow>
    \<exists>din' t bl' ib'. iappend_loop host din (length data) p s = Inr (din', length data + length p, t) \<and> filed t din' bl' ib' (data @ p)
      \<and> length bl' = nblk (length data + length p) \<and> grows s t (owns bl ib) (owns bl' ib')
      \<and> mk_freeblock t = mk_freeblock s + need (length data + length p) - need (length data) \<and> i_type din' = i_type din \<and> i_nlink din' = i_nlink din"
proof (induction "length p" arbitrary: s din bl ib data p rule: less_induct)
  case less
  show ?case
  proof (cases "p = []")
    case True
    then show ?thesis using less.prems(1,2) grows_refl [of s s "owns bl ib"] by (subst iappend_loop.simps) auto
  next
    case False
    define n where "n = min (length p) (512 - length data mod 512)"
    have m: "length data mod 512 < 512" by simp
    have n: "0 < n" "n \<le> 512 - length data mod 512" "n \<le> length p" using False m by (auto simp: n_def)
    let ?k = "length data div 512" and ?c = "take n p" and ?len = "length data" and ?all = "length data + length p"
    have c: "length ?c = n" using n by simp
    have fits: "nblk (?len + n) \<le> 140" "mk_freeblock s + need (?len + n) - need ?len \<le> 1000"
      using nblk_mono [of "?len + n" ?all] need_mono [of "?len + n" ?all] less.prems(3,4) n(3) by auto
    obtain x din' t bl' ib' where b: "block_for host ?k din s = Inr (x, din', t)" "filed t din' bl' ib' data" "length bl' = nblk (?len + n)"
      "bl' ! ?k = x" "grows s t (owns bl ib) (owns bl' ib')" "mk_freeblock t = mk_freeblock s + need (?len + n) - need ?len"
      "i_type din' = i_type din" "i_nlink din' = i_nlink din"
      using get_block [where host = host, OF h less.prems(1,2) n(1,2) fits] by blast
    have k: "?k < length bl'" using b(3) nblk_after [OF n(1,2)] by simp
    note w = write_block [OF b(2) _ k, of ?c, unfolded b(4) c, OF n(2)]
    let ?u = "t\<lparr>mk_calls := Suc (Suc (Suc (Suc (mk_calls t)))), mk_img := (mk_img t)[x := bcopy_at (?len mod 512) ?c (mk_img t ! x)]\<rparr>"
    have "?k < MAXFILE" using k b(3) fits(1) by (simp add: MAXFILE_def NDIRECT_def NINDIRECT_def BSIZE_def)
    moreover have "(?k + 1) * 512 - ?len = 512 - ?len mod 512" "?len - ?k * 512 = ?len mod 512"
      by (rule in_block, rule minus_div_mult_eq_mod)
    then have "min (length p) ((?k + 1) * BSIZE - ?len) = n" "?len - ?k * BSIZE = ?len mod 512"
      unfolding n_def BSIZE_def by simp_all
    ultimately have e: "iappend_loop host din ?len p s = iappend_loop host din' (?len + n) (drop n p) ?u"
      using False b(1) w(1) h by (subst iappend_loop.simps) (simp add: Let_def BSIZE_def rsect_ok wsect_ok)
    have len: "length (data @ ?c) = ?len + n" "length (data @ ?c) + length (drop n p) = ?all" using n(3) by auto
    have u: "mk_freeblock ?u + need ?all - need (?len + n) = mk_freeblock s + need ?all - need ?len"
      using b(6) need_mono [of ?len "?len + n"] need_mono [of "?len + n" ?all] n(3) by simp
    have "\<exists>din'' v bl'' ib''. iappend_loop host din' (length (data @ ?c)) (drop n p) ?u = Inr (din'', length (data @ ?c) + length (drop n p), v)
      \<and> filed v din'' bl'' ib'' ((data @ ?c) @ drop n p) \<and> length bl'' = nblk (length (data @ ?c) + length (drop n p)) \<and> grows ?u v (owns bl' ib') (owns bl'' ib'')
      \<and> mk_freeblock v = mk_freeblock ?u + need (length (data @ ?c) + length (drop n p)) - need (length (data @ ?c))
      \<and> i_type din'' = i_type din' \<and> i_nlink din'' = i_nlink din'"
      by (rule less.hyps) (use n w(2) b(3) less.prems(3,4) u in \<open>simp_all add: len\<close>)
    then obtain din'' v bl'' ib'' where r: "iappend_loop host din' (?len + n) (drop n p) ?u = Inr (din'', ?all, v)"
      "filed v din'' bl'' ib'' (data @ p)" "length bl'' = nblk ?all" "grows ?u v (owns bl' ib') (owns bl'' ib'')"
      "mk_freeblock v = mk_freeblock s + need ?all - need ?len" "i_type din'' = i_type din'" "i_nlink din'' = i_nlink din'"
      unfolding len(2) unfolding len(1) append_assoc append_take_drop_id u by blast
    have "grows s v (owns bl ib) (owns bl'' ib'')" by (rule grows_trans [OF b(5) grows_trans [OF w(3) r(4)]])
    then show ?thesis using e r b(7,8) by (intro exI [of _ din''] exI [of _ v] exI [of _ bl''] exI [of _ ib'']) simp
  qed
qed

section \<open>The files of the image\<close>

text \<open>A file, as the list of files at its number less one: its type, its blocks, its indirect block, its bytes.\<close>

type_synonym mfile = "ushort \<times> nat list \<times> nat \<times> uchar list"

fun m_owns :: "mfile \<Rightarrow> nat set" where
  "m_owns (ty, bl, ib, data) = owns bl ib"

fun file_rep :: "mkfs \<Rightarrow> nat \<Rightarrow> mfile \<Rightarrow> bool" where
  "file_rep s inum (ty, bl, ib, data) \<longleftrightarrow>
     filed s (dinode_of (mk_img s) inum) bl ib data \<and> length bl = nblk (length data)
     \<and> unat (i_size (dinode_of (mk_img s) inum)) = length data \<and> i_type (dinode_of (mk_img s) inum) = ty \<and> i_nlink (dinode_of (mk_img s) inum) = 1"

definition fs_rep :: "mkfs \<Rightarrow> mfile list \<Rightarrow> bool" where
  "fs_rep s F \<longleftrightarrow> mk_freeinode s = length F + 1 \<and> length F < 208 \<and> img_ok (mk_img s) (mk_freeblock s) \<and> mk_img s ! 1 = sb_block
     \<and> (\<forall>i < length F. file_rep s (i + 1) (F ! i)) \<and> (\<forall>i < length F. \<forall>j < length F. i \<noteq> j \<longrightarrow> m_owns (F ! i) \<inter> m_owns (F ! j) = {})"

lemma filed_cong:
  assumes f: "filed s din bl ib data" and "i_addrs din' = i_addrs din" "img_ok (mk_img t) (mk_freeblock t)" "mk_freeblock s \<le> mk_freeblock t"
    and same: "\<And>c. c \<in> owns bl ib \<Longrightarrow> mk_img t ! c = mk_img s ! c"
  shows "filed t din' bl ib data"
proof -
  have F: "maps (mk_img s) (i_addrs din) bl ib" "bytes_are (mk_img s) bl data" "placed (mk_freeblock s) bl ib" using f by (simp_all add: filed_def)
  have "maps (mk_img t) (i_addrs din) bl ib"
  proof (cases "ib = 0")
    case False
    then have "mk_img t ! ib = mk_img s ! ib" by (intro same) (simp add: owns_def)
    then show ?thesis using F(1) by (simp add: maps_def)
  qed (use F(1) in \<open>auto simp: maps_def\<close>)
  moreover have "bytes_are (mk_img t) bl data"
    unfolding bytes_are_def
  proof (intro allI impI)
    fix i assume i: "i < 512 * length bl"
    then have "bl ! (i div 512) \<in> set bl" by (simp add: less_mult_imp_div_less mult.commute)
    then have "mk_img t ! (bl ! (i div 512)) = mk_img s ! (bl ! (i div 512))" by (intro same) (simp add: owns_def)
    then show "mk_img t ! (bl ! (i div 512)) ! (i mod 512) = (if i < length data then data ! i else 0)" using F(2) i by (simp add: bytes_are_def)
  qed
  moreover have "placed (mk_freeblock t) bl ib" using F(3) assms(4) by (auto simp: placed_def)
  ultimately show ?thesis using assms(2,3) by (simp add: filed_def)
qed

text \<open>A file that a change does not touch.\<close>

lemma file_rep_cong:
  assumes f: "file_rep s inum f" and d: "dinode_of (mk_img t) inum = dinode_of (mk_img s) inum"
    and t: "img_ok (mk_img t) (mk_freeblock t)" "mk_freeblock s \<le> mk_freeblock t" "\<And>c. c \<in> m_owns f \<Longrightarrow> mk_img t ! c = mk_img s ! c"
  shows "file_rep t inum f"
proof -
  obtain ty bl ib data where f': "f = (ty, bl, ib, data)" by (cases f)
  have "filed s (dinode_of (mk_img s) inum) bl ib data" using f by (simp add: f')
  then have "filed t (dinode_of (mk_img t) inum) bl ib data" by (rule filed_cong [OF _ _ t(1,2)]) (use d t(3) f' in auto)
  then show ?thesis using f d by (simp add: f')
qed

lemma img_ok_with_inode: "img_ok img fb \<Longrightarrow> inum < 208 \<Longrightarrow> img_ok (with_inode inum ip img) fb"
  using with_inode_blocks [of img inum ip] unfolding img_ok_def by (simp add: with_inode_nth)

lemma m_owns_range: "file_rep s inum f \<Longrightarrow> c \<in> m_owns f \<Longrightarrow> 59 \<le> c \<and> c < mk_freeblock s"
  by (cases f) (auto simp: filed_def placed_def)

lemma dinode_of_cong: "img' ! (32 + inum div 8) = img ! (32 + inum div 8) \<Longrightarrow> dinode_of img' inum = dinode_of img inum"
  by (simp add: dinode_of_def)

lemma ialloc_ok:
  assumes h: "\<And>n. host n" and r: "fs_rep s F" and n: "length F + 1 < 208"
  shows "\<exists>t. mkfs_ialloc host ty s = Inr (length F + 1, t) \<and> fs_rep t (F @ [(ty, [], 0, [])]) \<and> mk_freeblock t = mk_freeblock s"
proof -
  note R = r [unfolded fs_rep_def]
  let ?din = "no_inode\<lparr>i_type := ty, i_nlink := 1, i_size := 0\<rparr>" and ?n = "length F + 1"
  let ?img = "with_inode ?n ?din (mk_img s)"
  let ?t = "s\<lparr>mk_freeinode := ?n + 1, mk_calls := mk_calls s + 4, mk_img := ?img\<rparr>"
  have I: "length (mk_img s) = 1000" "\<forall>b \<in> set (mk_img s). length b = 512" "59 \<le> mk_freeblock s" using R by (auto simp: img_ok_def)
  have e: "mkfs_ialloc host ty s = Inr (?n, ?t)" using h R n I by (simp add: mkfs_ialloc_def Let_def winode_ok)
  have ok: "img_ok ?img (mk_freeblock s)" using R n by (simp add: img_ok_with_inode)
  have a: "length (i_addrs ?din) = 13" by (simp add: no_inode_def NDIRECT_def)
  note d = with_inode_read [OF n, of "mk_img s" ?din, OF _ I(2) a]
  have new: "file_rep ?t ?n (ty, [], 0, [])"
  proof -
    have "maps ?img (i_addrs (dinode_of ?img ?n)) [] 0" using d(1) I(1) by (simp add: maps_def no_inode_def NDIRECT_def del: upt_Suc replicate_Suc)
    then have "filed ?t (dinode_of ?img ?n) [] 0 []" using ok by (simp add: filed_def bytes_are_def placed_def owns_def)
    then show ?thesis using d I(1) by (simp add: nblk_def)
  qed
  have old: "file_rep ?t (i + 1) (F ! i)" if i: "i < length F" for i
  proof (rule file_rep_cong)
    show f: "file_rep s (i + 1) (F ! i)" using R i by simp
    show "dinode_of (mk_img ?t) (i + 1) = dinode_of (mk_img s) (i + 1)" using with_inode_other [OF n, of "mk_img s" "i + 1"] I(1) i by simp
    show "mk_img ?t ! c = mk_img s ! c" if "c \<in> m_owns (F ! i)" for c
      using m_owns_range [OF f that] n by (simp add: with_inode_nth)
  qed (use ok in simp_all)
  have "?img ! 1 = sb_block" using R n by (simp add: with_inode_nth)
  moreover have "\<forall>i < length (F @ [(ty, [], 0, [])]). file_rep ?t (i + 1) ((F @ [(ty, [], 0, [])]) ! i)"
    using old new by (auto simp: nth_append less_Suc_eq)
  moreover have "\<forall>i < length (F @ [(ty, [], 0, [])]). \<forall>j < length (F @ [(ty, [], 0, [])]). i \<noteq> j \<longrightarrow>
      m_owns ((F @ [(ty, [], 0, [])]) ! i) \<inter> m_owns ((F @ [(ty, [], 0, [])]) ! j) = {}"
    using R by (auto simp: nth_append less_Suc_eq owns_def simp del: m_owns.simps) (auto simp: owns_def)
  ultimately have "fs_rep ?t (F @ [(ty, [], 0, [])])" using n ok unfolding fs_rep_def by simp
  with e show ?thesis by simp
qed

text \<open>The inode of one file is written after its blocks have grown: what this is for the file and for another one.\<close>

lemma grown_file:
  assumes f: "filed t din bl ib data" "length bl = nblk (length data)" "i_nlink din = 1" and n: "n < 208"
  shows "file_rep (t\<lparr>mk_calls := c, mk_img := with_inode n (din\<lparr>i_size := of_nat (length data)\<rparr>) (mk_img t)\<rparr>) n (i_type din, bl, ib, data)"
proof -
  let ?d = "din\<lparr>i_size := of_nat (length data)\<rparr>"
  let ?u = "t\<lparr>mk_calls := c, mk_img := with_inode n ?d (mk_img t)\<rparr>"
  have T: "img_ok (mk_img t) (mk_freeblock t)" "length (i_addrs ?d) = 13" "length bl \<le> 140" using f(1) by (simp_all add: filed_def maps_def)
  then have L: "58 < length (mk_img t)" "\<forall>b \<in> set (mk_img t). length b = 512" by (auto simp: img_ok_def)
  note d = with_inode_read [OF n L T(2)]
  have "filed ?u (dinode_of (mk_img ?u) n) bl ib data"
  proof (rule filed_cong [OF f(1)])
    show "mk_img ?u ! c = mk_img t ! c" if c: "c \<in> owns bl ib" for c
    proof -
      have "59 \<le> c" using f(1) c by (auto simp: filed_def placed_def)
      then show ?thesis using n by (simp add: with_inode_nth)
    qed
  qed (use d(1) T(1) n in \<open>simp_all add: img_ok_with_inode\<close>)
  moreover have "length data \<le> 140 * 512" using T(3) unfolding f(2) nblk_def by linarith
  then have "unat (of_nat (length data) :: uint) = length data" by (simp add: unat_of_nat)
  ultimately show ?thesis using d f(2,3) by simp
qed

lemma kept_file:
  assumes g: "grows s t A B" and A: "A \<subseteq> {59..}" "A \<inter> m_owns f = {}" and f: "file_rep s j f" "j < 208" "j \<noteq> n" "n < 208"
    and t: "img_ok (mk_img t) (mk_freeblock t)" and s: "59 \<le> mk_freeblock s"
  shows "file_rep (t\<lparr>mk_calls := c, mk_img := with_inode n d (mk_img t)\<rparr>) j f"
proof (rule file_rep_cong [OF f(1)])
  let ?u = "t\<lparr>mk_calls := c, mk_img := with_inode n d (mk_img t)\<rparr>"
  have same: "mk_img t ! c = mk_img s ! c" if "c < mk_freeblock s" "c \<notin> A" for c using g that by (simp add: grows_def)
  have "58 < length (mk_img t)" using t by (simp add: img_ok_def)
  then have "dinode_of (mk_img ?u) j = dinode_of (mk_img t) j" using with_inode_other [OF f(4) _ f(3)] by simp
  also have "\<dots> = dinode_of (mk_img s) j" by (intro dinode_of_cong same) (use f(2) s A(1) in auto)
  finally show "dinode_of (mk_img ?u) j = dinode_of (mk_img s) j" .
  show "mk_img ?u ! c = mk_img s ! c" if c: "c \<in> m_owns f" for c
    using m_owns_range [OF f(1) c] A(2) c same [of c] f(4) by (auto simp: with_inode_nth)
qed (use g t f(4) in \<open>simp_all add: img_ok_with_inode grows_def\<close>)

lemma grown_fs:
  assumes r: "fs_rep s F" and i: "i < length F" "F ! i = (ty, bl, ib, data)" and g: "grows s t (owns bl ib) (owns bl' ib')"
    and f: "filed t din bl' ib' data'" "length bl' = nblk (length data')" "i_nlink din = 1" "i_type din = ty"
  shows "fs_rep (t\<lparr>mk_calls := c, mk_img := with_inode (i + 1) (din\<lparr>i_size := of_nat (length data')\<rparr>) (mk_img t)\<rparr>) (F[i := (ty, bl', ib', data')])"
    (is "fs_rep ?u ?F")
proof -
  note R = r [unfolded fs_rep_def]
  have n: "i + 1 < 208" using R i by simp
  have t: "img_ok (mk_img t) (mk_freeblock t)" using f(1) by (simp add: filed_def)
  have s: "59 \<le> mk_freeblock s" using R by (auto simp: img_ok_def)
  have fr: "file_rep s (i + 1) (ty, bl, ib, data)" using R i by metis
  have A: "owns bl ib \<subseteq> {59..}" using m_owns_range [OF fr] by auto
  have dis: "owns bl ib \<inter> m_owns (F ! j) = {}" if "j < length F" "j \<noteq> i" for j
  proof -
    have "m_owns (F ! i) \<inter> m_owns (F ! j) = {}" using R i that by blast
    then show ?thesis using i(2) by simp
  qed
  have dis': "owns bl' ib' \<inter> m_owns (F ! j) = {}" if j: "j < length F" "j \<noteq> i" for j
  proof -
    have "\<forall>c \<in> m_owns (F ! j). c < mk_freeblock s" using m_owns_range [of s "j + 1" "F ! j"] R j by auto
    then show ?thesis using dis [OF j] g by (fastforce simp: grows_def)
  qed
  have "file_rep ?u (j + 1) (?F ! j)" if j: "j < length F" for j
  proof (cases "j = i")
    case True
    then show ?thesis using grown_file [OF f(1-3) n] f(4) i(1) by (simp del: file_rep.simps)
  next
    case False
    then show ?thesis using kept_file [OF g A dis [OF j False] _ _ _ n t s, of "j + 1"] R j by simp
  qed
  moreover have "m_owns (?F ! j) \<inter> m_owns (?F ! k) = {}" if "j < length F" "k < length F" "j \<noteq> k" for j k
    using dis' [of j] dis' [of k] R that i(1) by (cases "j = i"; cases "k = i") (auto simp: Int_commute)
  moreover have "1 < mk_freeblock s" "1 \<notin> owns bl ib" using A s by auto
  then have "mk_img t ! 1 = mk_img s ! 1" using g by (simp add: grows_def)
  ultimately show ?thesis using R g n t unfolding fs_rep_def by (simp add: img_ok_with_inode with_inode_nth grows_def)
qed

lemma iappend_ok:
  assumes h: "\<And>n. host n" and r: "fs_rep s F" and i: "i < length F" "F ! i = (ty, bl, ib, data)"
    and fits: "nblk (length data + length p) \<le> 140" "mk_freeblock s + need (length data + length p) - need (length data) \<le> 1000"
  shows "\<exists>t bl' ib'. iappend host (i + 1) p s = Inr t \<and> fs_rep t (F[i := (ty, bl', ib', data @ p)])
    \<and> mk_freeblock t = mk_freeblock s + need (length data + length p) - need (length data)"
proof -
  note R = r [unfolded fs_rep_def]
  let ?n = "i + 1" and ?din = "dinode_of (mk_img s) (i + 1)" and ?all = "length data + length p"
  let ?s = "s\<lparr>mk_calls := mk_calls s + 2\<rparr>"
  have n: "?n < 208" "58 < length (mk_img s)" using R i by (simp_all add: img_ok_def)
  have fr: "file_rep s ?n (ty, bl, ib, data)" using R i by metis
  have f: "filed ?s ?din bl ib data" "length bl = nblk (length data)" using fr by (simp_all add: filed_def)
  obtain din' t bl' ib' where l: "iappend_loop host ?din (length data) p ?s = Inr (din', ?all, t)" "filed t din' bl' ib' (data @ p)"
      "length bl' = nblk ?all" "grows ?s t (owns bl ib) (owns bl' ib')"
      "mk_freeblock t = mk_freeblock s + need ?all - need (length data)" "i_type din' = ty" "i_nlink din' = 1"
    using iappend_loop_ok [where host = host, OF h f fits(1)] fits(2) fr by auto
  have g: "grows s t (owns bl ib) (owns bl' ib')" using l(4) by (simp add: grows_def)
  have "58 < length (mk_img t)" using l(2) by (simp add: filed_def img_ok_def)
  let ?u = "t\<lparr>mk_calls := mk_calls t + 4, mk_img := with_inode ?n (din'\<lparr>i_size := of_nat ?all\<rparr>) (mk_img t)\<rparr>"
  have e: "iappend host ?n p s = Inr ?u"
    unfolding iappend_def using h n l(1) fr \<open>58 < length (mk_img t)\<close> by (simp add: rinode_ok winode_ok)
  have "length bl' = nblk (length (data @ p))" using l(3) by simp
  then have "fs_rep ?u (F[i := (ty, bl', ib', data @ p)])" using grown_fs [OF r i g l(2) _ l(7,6), of "mk_calls t + 4"] by simp
  moreover have "mk_freeblock ?u = mk_freeblock s + need ?all - need (length data)" using l(5) by simp
  ultimately show ?thesis using e by blast
qed

section \<open>Types and contents\<close>

definition blocks_of :: "(ushort \<times> uchar list) list \<Rightarrow> nat" where
  "blocks_of C = sum_list (map (\<lambda>f. need (length (snd f))) C)"

text \<open>The image has the files \<open>C\<close>, given by type and contents, and no more blocks are used than these need.\<close>

definition fs_has :: "mkfs \<Rightarrow> (ushort \<times> uchar list) list \<Rightarrow> bool" where
  "fs_has s C \<longleftrightarrow> (\<exists>F. fs_rep s F \<and> map (\<lambda>(ty, bl, ib, data). (ty, data)) F = C) \<and> mk_freeblock s = nmeta + blocks_of C"

lemma need_0 [simp]: "need 0 = 0"
  by (simp add: need_def nblk_def)

lemma blocks_of_simps [simp]: "blocks_of [] = 0" "blocks_of (f # C) = need (length (snd f)) + blocks_of C" "blocks_of (C @ D) = blocks_of C + blocks_of D"
  by (simp_all add: blocks_of_def)

lemma blocks_of_update:
  assumes "i < length C"
  shows "blocks_of (C[i := f]) + need (length (snd (C ! i))) = blocks_of C + need (length (snd f))"
proof -
  have "C = take i C @ C ! i # drop (Suc i) C" using assms by (rule id_take_nth_drop)
  then have "blocks_of C = blocks_of (take i C) + need (length (snd (C ! i))) + blocks_of (drop (Suc i) C)"
    using blocks_of_simps(2,3) by (metis add.assoc)
  moreover have "blocks_of (C[i := f]) = blocks_of (take i C) + need (length (snd f)) + blocks_of (drop (Suc i) C)"
    using assms by (simp add: upd_conv_take_nth_drop)
  ultimately show ?thesis by simp
qed

lemma ialloc_has:
  assumes h: "\<And>n. host n" and C: "fs_has s C" and n: "length C + 1 < 208"
  shows "\<exists>t. mkfs_ialloc host ty s = Inr (length C + 1, t) \<and> fs_has t (C @ [(ty, [])])"
proof -
  obtain F where F: "fs_rep s F" "map (\<lambda>(ty, bl, ib, data). (ty, data)) F = C" "mk_freeblock s = nmeta + blocks_of C" using C by (auto simp: fs_has_def)
  then have len: "length F = length C" by auto
  obtain t where t: "mkfs_ialloc host ty s = Inr (length C + 1, t)" "fs_rep t (F @ [(ty, [], 0, [])])" "mk_freeblock t = mk_freeblock s"
    using ialloc_ok [where host = host, OF h F(1), of ty] n len by auto
  have "map (\<lambda>(ty, bl, ib, data). (ty, data)) (F @ [(ty, [], 0, [])]) = C @ [(ty, [])]" using F(2) by simp
  moreover have "mk_freeblock t = nmeta + blocks_of (C @ [(ty, [])])" using t(3) F(3) by simp
  ultimately show ?thesis using t(1,2) unfolding fs_has_def by blast
qed

lemma iappend_has:
  assumes h: "\<And>n. host n" and C: "fs_has s C" and i: "i < length C" "C ! i = (ty, d)"
    and fits: "nblk (length d + length p) \<le> 140" "nmeta + blocks_of (C[i := (ty, d @ p)]) \<le> FSSIZE"
  shows "\<exists>t. iappend host (i + 1) p s = Inr t \<and> fs_has t (C[i := (ty, d @ p)])"
proof -
  let ?st = "\<lambda>(ty, bl, ib, data). (ty, data)"
  obtain F where F: "fs_rep s F" "map ?st F = C" "mk_freeblock s = nmeta + blocks_of C" using C by (auto simp: fs_has_def)
  then have len: "length F = length C" by auto
  obtain ty' bl ib d' where f: "F ! i = (ty', bl, ib, d')" by (cases "F ! i")
  have "?st (F ! i) = (ty, d)" using F(2) i len nth_map [of i F ?st] by simp
  then have f: "F ! i = (ty, bl, ib, d)" using f by simp
  have b: "blocks_of (C[i := (ty, d @ p)]) = blocks_of C + need (length d + length p) - need (length d)"
    using blocks_of_update [OF i(1), of "(ty, d @ p)"] i(2) by simp
  have le: "need (length d) \<le> blocks_of C + need (length d + length p)" using need_mono [of "length d" "length d + length p"] by simp
  have "mk_freeblock s + need (length d + length p) - need (length d) \<le> 1000" using fits(2) F(3) b le by (simp add: FSSIZE_def)
  then obtain t bl' ib' where t: "iappend host (i + 1) p s = Inr t" "fs_rep t (F[i := (ty, bl', ib', d @ p)])"
      "mk_freeblock t = mk_freeblock s + need (length d + length p) - need (length d)"
    using iappend_ok [where host = host, OF h F(1) _ f fits(1)] i(1) len by auto
  have "map ?st (F[i := (ty, bl', ib', d @ p)]) = C[i := (ty, d @ p)]" using F(2) by (simp add: List.map_update)
  moreover have "mk_freeblock t = nmeta + blocks_of (C[i := (ty, d @ p)])" using t(3) F(3) b le by simp
  ultimately show ?thesis using t(1,2) unfolding fs_has_def by blast
qed

section \<open>Copying the files of the host\<close>

definition file_name :: "host_file \<Rightarrow> uchar list" where
  "file_name f = (if fst f \<noteq> [] \<and> hd (fst f) = 95 then tl (fst f) else fst f)"

definition file_content :: "host_file \<Rightarrow> uchar list" where
  "file_content f = concat (takeWhile (\<lambda>b. b \<noteq> []) (the (snd f)))"

definition host_file_ok :: "host_file \<Rightarrow> bool" where
  "host_file_ok f \<longleftrightarrow> 47 \<notin> set (fst f) \<and> snd f \<noteq> None \<and> nblk (length (file_content f)) \<le> MAXFILE"

fun entries :: "nat \<Rightarrow> host_file list \<Rightarrow> uchar list" where
  "entries n [] = []"
| "entries n (f # fs) = mk_dirent n (file_name f) @ entries (n + 1) fs"

lemma MAXFILE_140: "MAXFILE = 140"
  by (simp add: MAXFILE_def NDIRECT_def NINDIRECT_def BSIZE_def)

lemma length_mk_dirent [simp]: "length (mk_dirent n name) = 16"
  by (simp add: mk_dirent_def Let_def DIRSIZ_def)

lemma length_entries [simp]: "length (entries n fs) = 16 * length fs"
  by (induction fs arbitrary: n) simp_all

lemma add_pieces_ok:
  assumes h: "\<And>n. host n"
  shows "fs_has s (C @ [(ty, d)]) \<Longrightarrow> nblk (length (d @ concat (takeWhile (\<lambda>b. b \<noteq> []) ps))) \<le> 140 \<Longrightarrow>
    nmeta + blocks_of (C @ [(ty, d @ concat (takeWhile (\<lambda>b. b \<noteq> []) ps))]) \<le> FSSIZE \<Longrightarrow>
    \<exists>t. add_pieces host (length C + 1) ps s = Inr t \<and> fs_has t (C @ [(ty, d @ concat (takeWhile (\<lambda>b. b \<noteq> []) ps))])"
proof (induction ps arbitrary: s d)
  case (Cons b ps)
  show ?case
  proof (cases "b = []")
    case False
    let ?r = "concat (takeWhile (\<lambda>b. b \<noteq> []) ps)"
    have e: "d @ concat (takeWhile (\<lambda>b. b \<noteq> []) (b # ps)) = (d @ b) @ ?r" using False by simp
    have u: "(C @ [(ty, d)])[length C := (ty, d @ b)] = C @ [(ty, d @ b)]" by (simp add: list_update_append)
    have "nblk (length d + length b) \<le> 140" "nmeta + blocks_of (C @ [(ty, d @ b)]) \<le> FSSIZE"
      using Cons.prems(2,3) nblk_mono [of "length d + length b" "length ((d @ b) @ ?r)"] need_mono [of "length d + length b" "length ((d @ b) @ ?r)"]
      unfolding e by simp_all
    then obtain t where t: "iappend host (length C + 1) b s = Inr t" "fs_has t (C @ [(ty, d @ b)])"
      using iappend_has [where host = host, OF h Cons.prems(1), of "length C"] unfolding u by (auto simp: nth_append)
    with Cons.IH [OF t(2)] Cons.prems(2,3) False show ?thesis unfolding e by simp
  qed (use Cons.prems in simp)
qed simp

lemma add_file_ok:
  assumes h: "\<And>n. host n" and C: "fs_has s ((T_DIR, r) # C)" and f: "host_file_ok f" and n: "length C + 2 < 208" and r: "nblk (length r + 16) \<le> 140"
    and fits: "nmeta + need (length r + 16) + blocks_of C + need (length (file_content f)) \<le> FSSIZE"
  shows "\<exists>t. add_file host 1 f s = Inr t \<and> fs_has t ((T_DIR, r @ mk_dirent (length C + 2) (file_name f)) # C @ [(T_FILE, file_content f)])"
proof -
  obtain ps where ps: "snd f = Some ps" "47 \<notin> set (fst f)" using f by (auto simp: host_file_ok_def)
  have fc: "file_content f = concat (takeWhile (\<lambda>b. b \<noteq> []) ps)" by (simp add: file_content_def ps)
  let ?e = "mk_dirent (length C + 2) (file_name f)"
  obtain t where t: "mkfs_ialloc host T_FILE s = Inr (length C + 2, t)" "fs_has t (((T_DIR, r) # C) @ [(T_FILE, [])])"
    using ialloc_has [where host = host, OF h C, of T_FILE] n by auto
  obtain u where u: "iappend host 1 ?e t = Inr u" "fs_has u (((T_DIR, r @ ?e) # C) @ [(T_FILE, [])])"
    using iappend_has [where host = host, OF h t(2), of 0 T_DIR r ?e] r fits by auto
  obtain v where v: "add_pieces host (length C + 2) ps u = Inr v" "fs_has v (((T_DIR, r @ ?e) # C) @ [(T_FILE, file_content f)])"
    using add_pieces_ok [where host = host, OF h u(2), of ps] f fits by (auto simp: fc [symmetric] host_file_ok_def MAXFILE_140)
  have "add_file host 1 f s = Inr v"
    using ps t(1) u(1) v(1) by (simp add: add_file_def Let_def file_name_def)
  then show ?thesis using v(2) by simp
qed

lemma add_files_ok:
  assumes h: "\<And>n. host n"
  shows "fs_has s ((T_DIR, r) # C) \<Longrightarrow> (\<forall>f \<in> set fs. host_file_ok f) \<Longrightarrow> length C + length fs + 1 < 208 \<Longrightarrow> length r + 16 * length fs \<le> 4096 \<Longrightarrow>
    nmeta + need (length r + 16 * length fs) + blocks_of C + (\<Sum>f \<leftarrow> fs. need (length (file_content f))) \<le> FSSIZE \<Longrightarrow>
    \<exists>t. add_files host 1 fs s = Inr t \<and> fs_has t ((T_DIR, r @ entries (length C + 2) fs) # C @ map (\<lambda>f. (T_FILE, file_content f)) fs)"
proof (induction fs arbitrary: s r C)
  case (Cons f fs)
  have "nblk (length r + 16) \<le> nblk 4096" using Cons.prems(4) by (intro nblk_mono) simp
  then have a: "nblk (length r + 16) \<le> 140" by (simp add: nblk_def)
  have b: "nmeta + need (length r + 16) + blocks_of C + need (length (file_content f)) \<le> FSSIZE"
    using Cons.prems(5) need_mono [of "length r + 16" "length r + 16 * length (f # fs)"] by simp
  obtain t where t: "add_file host 1 f s = Inr t" "fs_has t ((T_DIR, r @ mk_dirent (length C + 2) (file_name f)) # C @ [(T_FILE, file_content f)])"
    using add_file_ok [where host = host, OF h Cons.prems(1) _ _ a b] Cons.prems(2,3) by auto
  with Cons.IH [OF t(2)] Cons.prems(2-5) show ?case by (simp add: algebra_simps)
qed simp

section \<open>The finished image\<close>

lemma zero_image_ok:
  assumes h: "\<And>n. host n"
  shows "mk_img s = replicate k (replicate BSIZE 0) \<Longrightarrow>
    \<exists>c. zero_image host [k..<k + n] s = Inr (s\<lparr>mk_img := replicate (k + n) (replicate BSIZE 0), mk_calls := c\<rparr>)"
proof (induction n arbitrary: s k)
  case 0
  then have "zero_image host [k..<k + 0] s = Inr (s\<lparr>mk_img := replicate (k + 0) (replicate BSIZE 0), mk_calls := mk_calls s\<rparr>)" by simp
  then show ?case by blast
next
  case (Suc n)
  let ?t = "s\<lparr>mk_img := replicate (Suc k) (replicate BSIZE 0), mk_calls := mk_calls s + 2\<rparr>"
  have "wsect host k (replicate BSIZE 0) s = Inr ?t"
    using h Suc.prems by (simp add: wsect_def host_call_def replicate_append_same)
  moreover have "[k..<k + Suc n] = k # [Suc k..<Suc k + n]" by (simp add: upt_conv_Cons)
  ultimately show ?case using Suc.IH [of ?t "Suc k"] by simp
qed

lemma length_sb_block: "length sb_block = 512"
  by (simp add: sb_block_def Let_def BSIZE_def)

lemma decode_sb_block: "decode_sb sb_block = mkfs_sb"
  by (simp add: decode_sb_def sb_block_def Let_def ld32_st32_disjoint BSIZE_def)

lemma empty_fs:
  assumes h: "\<And>n. host n"
  shows "\<exists>s. andThen (zero_image host [0..<FSSIZE] \<lparr>mk_img = [], mk_freeinode = 1, mk_freeblock = nmeta, mk_calls = 0\<rparr>) (wsect host 1 sb_block) = Inr s
    \<and> fs_has s []"
proof -
  let ?s = "\<lparr>mk_img = [], mk_freeinode = 1, mk_freeblock = nmeta, mk_calls = 0\<rparr>"
  let ?img = "replicate 1000 (replicate 512 0) :: block list"
  obtain c where z: "zero_image host [0..<FSSIZE] ?s = Inr (?s\<lparr>mk_img := ?img, mk_calls := c\<rparr>)"
    using zero_image_ok [where host = host, OF h, of ?s 0 1000] by (auto simp: FSSIZE_def BSIZE_def)
  let ?t = "?s\<lparr>mk_img := ?img[1 := sb_block], mk_calls := c + 2\<rparr>"
  have "wsect host 1 sb_block (?s\<lparr>mk_img := ?img, mk_calls := c\<rparr>) = Inr ?t" using wsect_ok [where host = host, OF h, of 1 "?s\<lparr>mk_img := ?img, mk_calls := c\<rparr>"] by simp
  moreover have "img_ok ?img 59" unfolding img_ok_def by (simp del: replicate.simps)
  then have "img_ok (?img[1 := sb_block]) 59" by (rule img_ok_update) (simp_all add: length_sb_block)
  then have "fs_rep ?t []" unfolding fs_rep_def by (simp add: layout_values)
  ultimately show ?thesis using z by (auto simp: fs_has_def)
qed

lemma bit_clear_mark_used:
  "length d = BSIZE \<Longrightarrow> \<forall>i \<in> set is. i < BPB \<Longrightarrow> bit_clear (mark_used is d) b \<longleftrightarrow> b \<notin> set is \<and> bit_clear d b"
proof (induction "is" arbitrary: d)
  case (Cons i "is")
  have e: "mark_used (i # is) d = mark_used is (set_bit8 i d)" by (simp add: set_bit8_def)
  have "length (set_bit8 i d) = BSIZE" using Cons.prems by (simp add: set_bit8_def)
  then show ?case unfolding e using Cons bit_clear_set [of i d b] by auto
qed simp

lemma length_mark_used [simp]: "length (mark_used is d) = length d"
  by (induction "is" d rule: mark_used.induct) simp_all

lemma rounded_size:
  fixes w :: uint
  assumes "unat w \<le> 71680"
  shows "unat ((w div 512 + 1) * 512) = (unat w div 512 + 1) * 512"
proof -
  have d: "unat (w div 512) = unat w div 512" by (simp add: unat_div)
  have a: "unat (w div 512 + 1) = unat w div 512 + 1" using assms d by (subst unat_add_lem [THEN iffD1]) auto
  have "unat w div 512 + 1 \<le> 141" using assms by simp
  then show ?thesis using a by (subst unat_mult_lem [THEN iffD1]) auto
qed

text \<open>The image \<open>t\<close> is the image \<open>s\<close> with the size of the root directory rounded up and the free map written.\<close>

definition finished :: "mkfs \<Rightarrow> mkfs \<Rightarrow> mfile list \<Rightarrow> bool" where
  "finished s t F \<longleftrightarrow> length (mk_img t) = FSSIZE \<and> mk_img t ! 1 = sb_block \<and> mk_freeblock t = mk_freeblock s
     \<and> (\<forall>b < FSSIZE. bit_clear (mk_img t ! 58) b \<longleftrightarrow> mk_freeblock t \<le> b)
     \<and> (\<forall>i < length F. i \<noteq> 0 \<longrightarrow> file_rep t (i + 1) (F ! i))
     \<and> (\<forall>bl ib data. F ! 0 = (T_DIR, bl, ib, data) \<longrightarrow> filed t (dinode_of (mk_img t) 1) bl ib data \<and> length bl = nblk (length data)
          \<and> i_type (dinode_of (mk_img t) 1) = T_DIR \<and> unat (i_size (dinode_of (mk_img t) 1)) = (length data div 512 + 1) * 512)"

definition rounded_root :: "mkfs \<Rightarrow> inode" where
  "rounded_root s = (dinode_of (mk_img s) 1)\<lparr>i_size := (i_size (dinode_of (mk_img s) 1) div 512 + 1) * 512\<rparr>"

definition last_image :: "mkfs \<Rightarrow> block list" where
  "last_image s = (with_inode 1 (rounded_root s) (mk_img s))[58 := mark_used [0..<mk_freeblock s] (replicate BSIZE 0)]"

lemma finish_eq:
  assumes h: "\<And>n. host n" and i: "img_ok (mk_img s) (mk_freeblock s)"
  shows "andThen (fix_root_size host 1 s) (\<lambda>s. mkfs_balloc host (mk_freeblock s) s) = Inr (s\<lparr>mk_calls := mk_calls s + 8, mk_img := last_image s\<rparr>)"
  using h i
  by (simp add: fix_root_size_def mkfs_balloc_def Let_def rinode_ok winode_ok wsect_ok layout_values BSIZE_def img_ok_def last_image_def rounded_root_def)

lemma last_image_facts:
  assumes i: "img_ok (mk_img s) (mk_freeblock s)"
  shows "img_ok (last_image s) (mk_freeblock s)" "c < 32 \<or> 59 \<le> c \<Longrightarrow> last_image s ! c = mk_img s ! c"
    "j < 208 \<Longrightarrow> dinode_of (last_image s) j = dinode_of (with_inode 1 (rounded_root s) (mk_img s)) j"
    "b < FSSIZE \<Longrightarrow> bit_clear (last_image s ! 58) b \<longleftrightarrow> mk_freeblock s \<le> b"
proof -
  have I: "length (mk_img s) = 1000" "59 \<le> mk_freeblock s" "mk_freeblock s \<le> 1000" using i by (auto simp: img_ok_def)
  show "img_ok (last_image s) (mk_freeblock s)"
    unfolding last_image_def using I by (intro img_ok_update [OF img_ok_with_inode [OF i]]) (simp_all add: BSIZE_def)
  show "c < 32 \<or> 59 \<le> c \<Longrightarrow> last_image s ! c = mk_img s ! c" by (auto simp: last_image_def with_inode_nth)
  show "j < 208 \<Longrightarrow> dinode_of (last_image s) j = dinode_of (with_inode 1 (rounded_root s) (mk_img s)) j"
    by (intro dinode_of_cong) (auto simp: last_image_def)
  assume "b < FSSIZE"
  then have "bit_clear (replicate BSIZE 0) b" by (simp add: bit_clear_def FSSIZE_def BSIZE_def)
  then show "bit_clear (last_image s ! 58) b \<longleftrightarrow> mk_freeblock s \<le> b"
    using I bit_clear_mark_used [of "replicate BSIZE 0" "[0..<mk_freeblock s]" b] by (auto simp: last_image_def BPB_def BSIZE_def)
qed

lemma last_image_root:
  fixes s c defines "t \<equiv> s\<lparr>mk_calls := c, mk_img := last_image s\<rparr>"
  assumes fr: "file_rep s 1 (T_DIR, bl, ib, data)"
  shows "filed t (dinode_of (mk_img t) 1) bl ib data" "i_type (dinode_of (mk_img t) 1) = T_DIR"
    "unat (i_size (dinode_of (mk_img t) 1)) = (length data div 512 + 1) * 512"
proof -
  have f: "filed s (dinode_of (mk_img s) 1) bl ib data" using fr by simp
  then have i: "img_ok (mk_img s) (mk_freeblock s)" by (simp add: filed_def)
  then have I: "58 < length (mk_img s)" "\<forall>b \<in> set (mk_img s). length b = 512" by (auto simp: img_ok_def)
  have m: "length (i_addrs (rounded_root s)) = 13" "length bl \<le> 140" using f by (simp_all add: filed_def maps_def rounded_root_def)
  have din: "dinode_of (mk_img t) 1 = dinode_of (with_inode 1 (rounded_root s) (mk_img s)) 1" using last_image_facts(3) [OF i, of 1] by (simp add: t_def)
  note d = with_inode_read [of 1, OF _ I m(1)]
  show "filed t (dinode_of (mk_img t) 1) bl ib data"
  proof (rule filed_cong [OF f])
    show "i_addrs (dinode_of (mk_img t) 1) = i_addrs (dinode_of (mk_img s) 1)" unfolding din using d(1) by (simp add: rounded_root_def)
    show "mk_img t ! c = mk_img s ! c" if "c \<in> owns bl ib" for c
      using m_owns_range [OF fr, of c] that last_image_facts(2) [OF i, of c] by (simp add: t_def)
  qed (use last_image_facts(1) [OF i] in \<open>simp_all add: t_def\<close>)
  show "i_type (dinode_of (mk_img t) 1) = T_DIR" unfolding din using d(3) fr by (simp add: rounded_root_def)
  have sz: "unat (i_size (dinode_of (mk_img s) 1)) = length data" "length bl = nblk (length data)" using fr by simp_all
  then have "unat (i_size (dinode_of (mk_img s) 1)) \<le> 71680" using m(2) unfolding nblk_def by linarith
  from rounded_size [OF this] have "unat (i_size (rounded_root s)) = (length data div 512 + 1) * 512" unfolding sz(1) by (simp only: rounded_root_def) simp
  then show "unat (i_size (dinode_of (mk_img t) 1)) = (length data div 512 + 1) * 512" unfolding din using d(2) by simp
qed

lemma finish_ok:
  assumes h: "\<And>n. host n" and r: "fs_rep s F" and F: "F \<noteq> []"
  shows "\<exists>t. andThen (fix_root_size host 1 s) (\<lambda>s. mkfs_balloc host (mk_freeblock s) s) = Inr t \<and> finished s t F"
proof -
  note R = r [unfolded fs_rep_def]
  have i: "img_ok (mk_img s) (mk_freeblock s)" using R by simp
  then have I: "length (mk_img s) = 1000" by (simp add: img_ok_def)
  let ?t = "s\<lparr>mk_calls := mk_calls s + 8, mk_img := last_image s\<rparr>"
  have files: "file_rep ?t (j + 1) (F ! j)" if j: "j < length F" "j \<noteq> 0" for j
  proof (rule file_rep_cong)
    show f: "file_rep s (j + 1) (F ! j)" using R j by simp
    show "dinode_of (mk_img ?t) (j + 1) = dinode_of (mk_img s) (j + 1)"
      using last_image_facts(3) [OF i, of "j + 1"] with_inode_other [of 1 "mk_img s" "j + 1"] R j I by simp
    show "mk_img ?t ! c = mk_img s ! c" if "c \<in> m_owns (F ! j)" for c using m_owns_range [OF f that] last_image_facts(2) [OF i, of c] by simp
  qed (use last_image_facts(1) [OF i] in simp_all)
  have root: "filed ?t (dinode_of (mk_img ?t) 1) bl ib data \<and> length bl = nblk (length data)
      \<and> i_type (dinode_of (mk_img ?t) 1) = T_DIR \<and> unat (i_size (dinode_of (mk_img ?t) 1)) = (length data div 512 + 1) * 512"
    if f: "F ! 0 = (T_DIR, bl, ib, data)" for bl ib data
  proof -
    have fr: "file_rep s 1 (T_DIR, bl, ib, data)" using R F f by (metis add_0 length_greater_0_conv)
    then show ?thesis using last_image_root [OF fr] by simp
  qed
  have "length (last_image s) = 1000" using last_image_facts(1) [OF i] by (simp add: img_ok_def)
  then have "finished s ?t F"
    unfolding finished_def using last_image_facts(2) [OF i, of 1] last_image_facts(4) [OF i] R files root by (simp add: FSSIZE_def)
  with finish_eq [where host = host, OF h i] show ?thesis by blast
qed

text \<open>What the kernel finds in an image: the inode by the superblock of the image, its blocks, its bytes.\<close>

definition disk_inode :: "block list \<Rightarrow> nat \<Rightarrow> inode" where
  "disk_inode img inum = get_dinode (dinode_at (of_nat inum)) (img ! unat (IBLOCK (of_nat inum) (decode_sb (img ! 1)))) no_inode"

definition disk_block :: "block list \<Rightarrow> nat \<Rightarrow> nat \<Rightarrow> nat" where
  "disk_block img inum k =
     (let din = disk_inode img inum
      in unat (if k < NDIRECT then i_addrs din ! k else ld32 (img ! unat (i_addrs din ! NDIRECT)) (4 * (k - NDIRECT))))"

definition disk_bytes :: "block list \<Rightarrow> nat \<Rightarrow> nat \<Rightarrow> uchar list" where
  "disk_bytes img inum n = map (\<lambda>i. img ! disk_block img inum (i div BSIZE) ! (i mod BSIZE)) [0..<n]"

lemma disk_inode_of: "img ! 1 = sb_block \<Longrightarrow> inum < 208 \<Longrightarrow> disk_inode img inum = dinode_of img inum"
  by (simp add: disk_inode_def decode_sb_block inode_place dinode_of_def)

lemma disk_block_of:
  assumes "maps img (i_addrs (disk_inode img inum)) bl ib" "k < length bl"
  shows "disk_block img inum k = bl ! k"
  using assms by (auto simp: disk_block_def maps_def NDIRECT_def Let_def)

lemma disk_bytes_of:
  assumes f: "filed t (disk_inode (mk_img t) inum) bl ib data" and n: "n \<le> 512 * length bl"
  shows "disk_bytes (mk_img t) inum n = take n (data @ replicate (n - length data) 0)"
proof (rule nth_equalityI)
  show "length (disk_bytes (mk_img t) inum n) = length (take n (data @ replicate (n - length data) 0))" by (simp add: disk_bytes_def)
  fix i assume "i < length (disk_bytes (mk_img t) inum n)"
  then have i: "i < n" "i < 512 * length bl" using n by (simp_all add: disk_bytes_def)
  then have "i div 512 < length bl" by (simp add: less_mult_imp_div_less mult.commute)
  then have "disk_block (mk_img t) inum (i div 512) = bl ! (i div 512)" using f by (intro disk_block_of) (auto simp: filed_def)
  then show "disk_bytes (mk_img t) inum n ! i = take n (data @ replicate (n - length data) 0) ! i"
    using f i by (simp add: disk_bytes_def BSIZE_def filed_def bytes_are_def nth_append)
qed

definition wanted :: "host_file list \<Rightarrow> (ushort \<times> uchar list) list" where
  "wanted files = (T_DIR, mk_dirent 1 [46] @ mk_dirent 1 [46, 46] @ entries 2 files) # map (\<lambda>f. (T_FILE, file_content f)) files"

text \<open>The program up to the last two steps.\<close>

lemma main_files:
  assumes h: "\<And>n. host n" and f: "\<forall>f \<in> set files. host_file_ok f" "length files < 207" and b: "nmeta + blocks_of (wanted files) \<le> FSSIZE"
  shows "\<exists>s. mkfs_main host (Some (True, files)) = andThen (fix_root_size host 1 s) (\<lambda>s. mkfs_balloc host (mk_freeblock s) s) \<and> fs_has s (wanted files)"
proof -
  let ?s = "\<lparr>mk_img = [], mk_freeinode = 1, mk_freeblock = nmeta, mk_calls = 0\<rparr>"
  obtain s where s: "andThen (zero_image host [0..<FSSIZE] ?s) (wsect host 1 sb_block) = Inr s" "fs_has s []" using empty_fs [where host = host, OF h] by blast
  obtain t where t: "mkfs_ialloc host T_DIR s = Inr (1, t)" "fs_has t [(T_DIR, [])]" using ialloc_has [where host = host, OF h s(2), of T_DIR] by auto
  have few: "nblk n \<le> 8" if "n \<le> 4096" for n using nblk_mono [OF that] by (simp add: nblk_def)
  have n: "need n \<le> 8" if "n \<le> 4096" for n using few [OF that] by (simp add: need_def)
  have lay: "nmeta = 59" "FSSIZE = 1000" by (simp_all add: layout_values FSSIZE_def)
  obtain u where u: "iappend host 1 (mk_dirent 1 [46]) t = Inr u" "fs_has u [(T_DIR, mk_dirent 1 [46])]"
    using iappend_has [where host = host, OF h t(2), of 0 T_DIR "[]" "mk_dirent 1 [46]"] few [of 16] n [of 16] by (auto simp: lay)
  obtain v where v: "iappend host 1 (mk_dirent 1 [46, 46]) u = Inr v" "fs_has v [(T_DIR, mk_dirent 1 [46] @ mk_dirent 1 [46, 46])]"
    using iappend_has [where host = host, OF h u(2), of 0 T_DIR _ "mk_dirent 1 [46, 46]"] few [of 32] n [of 32] by (auto simp: lay)
  obtain w where w: "add_files host 1 files v = Inr w" "fs_has w (wanted files)"
    using add_files_ok [where host = host, OF h v(2) f(1)] f(2) b by (auto simp: wanted_def blocks_of_def comp_def numeral_2_eq_2)
  have "mkfs_main host (Some (True, files)) = andThen (andThen (zero_image host [0..<FSSIZE] ?s) (wsect host 1 sb_block)) (\<lambda>s.
      andThen (mkfs_ialloc host T_DIR s) (\<lambda>(rootino, s). if rootino \<noteq> unat ROOTINO then Inl Assertion
             else andThen (iappend host rootino (mk_dirent rootino [46]) s) (\<lambda>s. andThen (iappend host rootino (mk_dirent rootino [46, 46]) s) (\<lambda>s.
                  andThen (add_files host rootino files s) (\<lambda>s. andThen (fix_root_size host rootino s) (\<lambda>s. mkfs_balloc host (mk_freeblock s) s))))))"
    by (simp only: mkfs_main_def Let_def andThen_assoc) simp
  also have "\<dots> = andThen (fix_root_size host 1 w) (\<lambda>s. mkfs_balloc host (mk_freeblock s) s)"
    using s(1) t(1) u(1) v(1) w(1) by (simp add: ROOTINO_def)
  finally show ?thesis using w(2) by blast
qed

lemma finished_file:
  assumes r: "fs_rep s F" and fin: "finished s t F" and i: "i < length F" "F ! i = (ty, bl, ib, data)" and root: "fst (F ! 0) = T_DIR"
  shows "filed t (disk_inode (mk_img t) (i + 1)) bl ib data" "length bl = nblk (length data)" "i_type (disk_inode (mk_img t) (i + 1)) = ty"
    "unat (i_size (disk_inode (mk_img t) (i + 1))) = (if i = 0 then (length data div 512 + 1) * 512 else length data)"
proof -
  note fin' = fin [unfolded finished_def]
  have d: "disk_inode (mk_img t) (i + 1) = dinode_of (mk_img t) (i + 1)" using fin' r i by (intro disk_inode_of) (auto simp: fs_rep_def)
  have "filed t (disk_inode (mk_img t) (i + 1)) bl ib data \<and> length bl = nblk (length data) \<and> i_type (disk_inode (mk_img t) (i + 1)) = ty
      \<and> unat (i_size (disk_inode (mk_img t) (i + 1))) = (if i = 0 then (length data div 512 + 1) * 512 else length data)"
  proof (cases "i = 0")
    case True
    then have "F ! 0 = (T_DIR, bl, ib, data)" "ty = T_DIR" using i root by auto
    then show ?thesis using fin' True unfolding d by simp
  next
    case False
    then have "file_rep t (i + 1) (F ! i)" using fin' i by blast
    then show ?thesis using False unfolding d i(2) by simp
  qed
  then show "filed t (disk_inode (mk_img t) (i + 1)) bl ib data" "length bl = nblk (length data)" "i_type (disk_inode (mk_img t) (i + 1)) = ty"
    "unat (i_size (disk_inode (mk_img t) (i + 1))) = (if i = 0 then (length data div 512 + 1) * 512 else length data)" by simp_all
qed

lemma blocks_apart:
  assumes r: "fs_rep s F" and fin: "finished s t F" and root: "fst (F ! 0) = T_DIR"
    and i: "i < length F" "F ! i = (ty, bl, ib, d)" "k < nblk (length d)" and j: "j < length F" "F ! j = (ty', bl', ib', d')" "l < nblk (length d')"
  shows "nmeta \<le> disk_block (mk_img t) (i + 1) k \<and> disk_block (mk_img t) (i + 1) k < mk_freeblock t"
    "disk_block (mk_img t) (i + 1) k = disk_block (mk_img t) (j + 1) l \<Longrightarrow> i = j \<and> k = l"
proof -
  note f = finished_file [OF r fin i(1,2) root] and g = finished_file [OF r fin j(1,2) root]
  have kl: "k < length bl" "l < length bl'" using f(2) g(2) i(3) j(3) by simp_all
  have e: "disk_block (mk_img t) (i + 1) k = bl ! k" "disk_block (mk_img t) (j + 1) l = bl' ! l"
    using f(1) g(1) kl by (auto simp: filed_def intro: disk_block_of)
  have p: "distinct bl" "bl ! k \<in> owns bl ib" "bl' ! l \<in> owns bl' ib'" "owns bl ib \<subseteq> {59..<mk_freeblock t}"
    using f(1) kl by (auto simp: filed_def placed_def owns_def)
  then show "nmeta \<le> disk_block (mk_img t) (i + 1) k \<and> disk_block (mk_img t) (i + 1) k < mk_freeblock t"
    unfolding e layout_values(1) by auto
  assume "disk_block (mk_img t) (i + 1) k = disk_block (mk_img t) (j + 1) l"
  then have same: "bl ! k = bl' ! l" unfolding e .
  have "i = j"
  proof (rule ccontr)
    assume "i \<noteq> j"
    then have "m_owns (F ! i) \<inter> m_owns (F ! j) = {}" using r i(1) j(1) by (simp add: fs_rep_def)
    then show False using p(2,3) same i(2) j(2) by auto
  qed
  then show "i = j \<and> k = l" using same i(2) j(2) p(1) kl by (simp add: nth_eq_iff_index_eq)
qed

text \<open>
  C10. When the calls of the host work, the names have no slash and the files fit, \<open>mkfs\<close> succeeds. Its image has
  the size and the superblock the kernel expects. Reading it the way the kernel does, inode 1 is a directory
  whose bytes are the entries of all files, and the inode of each file has its type, its size and
  exactly its bytes. No two blocks of files are the same, and the free map marks the blocks of the
  layout and of the files and nothing else. The size of the root directory is rounded up.
\<close>

theorem mkfs_builds_image:
  assumes "\<forall>n. host n" "\<forall>f \<in> set files. host_file_ok f" "length files < 207" "nmeta + blocks_of (wanted files) \<le> FSSIZE"
  shows "\<exists>s. mkfs_main host (Some (True, files)) = Inr s \<and> length (mk_img s) = FSSIZE \<and> decode_sb (mk_img s ! 1) = mkfs_sb
    \<and> mk_freeblock s = nmeta + blocks_of (wanted files)
    \<and> (\<forall>b < FSSIZE. bit_clear (mk_img s ! unat (sb_bmapstart mkfs_sb)) b \<longleftrightarrow> mk_freeblock s \<le> b)
    \<and> (\<forall>i < length (wanted files). \<forall>ty d. wanted files ! i = (ty, d) \<longrightarrow>
        i_type (disk_inode (mk_img s) (i + 1)) = ty \<and> disk_bytes (mk_img s) (i + 1) (length d) = d
        \<and> unat (i_size (disk_inode (mk_img s) (i + 1))) = (if i = 0 then (length d div BSIZE + 1) * BSIZE else length d)
        \<and> (\<forall>k < nblk (length d). nmeta \<le> disk_block (mk_img s) (i + 1) k \<and> disk_block (mk_img s) (i + 1) k < mk_freeblock s
            \<and> (\<forall>j < length (wanted files). \<forall>l < nblk (length (snd (wanted files ! j))).
                disk_block (mk_img s) (i + 1) k = disk_block (mk_img s) (j + 1) l \<longrightarrow> i = j \<and> k = l)))"
proof -
  have h: "\<And>n. host n" using assms(1) by blast
  let ?st = "\<lambda>(ty, bl, ib, data). (ty, data)"
  obtain s where s: "mkfs_main host (Some (True, files)) = andThen (fix_root_size host 1 s) (\<lambda>s. mkfs_balloc host (mk_freeblock s) s)" "fs_has s (wanted files)"
    using main_files [where host = host, OF h assms(2-4)] by blast
  then obtain F where F: "fs_rep s F" "map ?st F = wanted files" "mk_freeblock s = nmeta + blocks_of (wanted files)" by (auto simp: fs_has_def)
  have len: "length F = length (wanted files)" using F(2) by (metis length_map)
  then have ne: "F \<noteq> []" by (auto simp: wanted_def)
  have nth: "\<exists>bl ib. F ! i = (ty, bl, ib, d)" if "i < length F" "wanted files ! i = (ty, d)" for i ty d
    using that nth_map [of i F ?st] unfolding F(2) by (cases "F ! i") auto
  have root: "fst (F ! 0) = T_DIR" using nth [of 0] ne by (fastforce simp: wanted_def)
  obtain t where t: "andThen (fix_root_size host 1 s) (\<lambda>s. mkfs_balloc host (mk_freeblock s) s) = Inr t" "finished s t F"
    using finish_ok [where host = host, OF h F(1) ne] by blast
  have fin: "length (mk_img t) = FSSIZE" "mk_img t ! 1 = sb_block" "mk_freeblock t = mk_freeblock s" "\<forall>b < FSSIZE. bit_clear (mk_img t ! 58) b \<longleftrightarrow> mk_freeblock t \<le> b"
    using t(2) by (simp_all add: finished_def)
  have files: "i_type (disk_inode (mk_img t) (i + 1)) = ty \<and> disk_bytes (mk_img t) (i + 1) (length d) = d
        \<and> unat (i_size (disk_inode (mk_img t) (i + 1))) = (if i = 0 then (length d div BSIZE + 1) * BSIZE else length d)"
    if i: "i < length (wanted files)" "wanted files ! i = (ty, d)" for i ty d
  proof -
    obtain bl ib where f: "F ! i = (ty, bl, ib, d)" using nth i len by metis
    note g = finished_file [OF F(1) t(2) _ f root]
    have "length d \<le> 512 * length bl" using g(2) i(1) len unfolding nblk_def by simp
    then show ?thesis using g i(1) len disk_bytes_of [OF g(1), of "length d"] by (simp add: BSIZE_def)
  qed
  have apart: "nmeta \<le> disk_block (mk_img t) (i + 1) k \<and> disk_block (mk_img t) (i + 1) k < mk_freeblock t
      \<and> (disk_block (mk_img t) (i + 1) k = disk_block (mk_img t) (j + 1) l \<longrightarrow> i = j \<and> k = l)"
    if i: "i < length (wanted files)" "wanted files ! i = (ty, d)" "k < nblk (length d)"
      and j: "j < length (wanted files)" "l < nblk (length (snd (wanted files ! j)))" for i ty d k j l
  proof -
    obtain bl ib where f: "F ! i = (ty, bl, ib, d)" using nth i len by metis
    obtain bl' ib' where g: "F ! j = (fst (wanted files ! j), bl', ib', snd (wanted files ! j))" using nth [of j] j len by (metis prod.collapse)
    show ?thesis using blocks_apart [OF F(1) t(2) root _ f i(3) _ g j(2)] i(1) j(1) len by simp
  qed
  have "\<forall>i < length (wanted files). \<forall>ty d. wanted files ! i = (ty, d) \<longrightarrow>
        i_type (disk_inode (mk_img t) (i + 1)) = ty \<and> disk_bytes (mk_img t) (i + 1) (length d) = d
        \<and> unat (i_size (disk_inode (mk_img t) (i + 1))) = (if i = 0 then (length d div BSIZE + 1) * BSIZE else length d)
        \<and> (\<forall>k < nblk (length d). nmeta \<le> disk_block (mk_img t) (i + 1) k \<and> disk_block (mk_img t) (i + 1) k < mk_freeblock t
            \<and> (\<forall>j < length (wanted files). \<forall>l < nblk (length (snd (wanted files ! j))).
                disk_block (mk_img t) (i + 1) k = disk_block (mk_img t) (j + 1) l \<longrightarrow> i = j \<and> k = l))"
    using files apart by simp
  then show ?thesis using s(1) t(1) fin F(3) by (auto simp: decode_sb_block layout_values)
qed

theorem mkfs_builds_image_witness:
  "\<exists>s. mkfs_main (\<lambda>_. True) (Some (True, [([95, 97], Some [[1, 2], [3]])])) = Inr s \<and> disk_bytes (mk_img s) 2 3 = [1, 2, 3] \<and> mk_freeblock s = 61"
proof -
  define f :: "host_file list" where "f = [([95, 97], Some [[1, 2], [3]])]"
  have w: "wanted f ! 1 = (T_FILE, [1, 2, 3])" "1 < length (wanted f)" "blocks_of (wanted f) = 2"
    by (simp_all add: f_def wanted_def file_content_def need_def nblk_def)
  have a: "\<forall>n. (\<lambda>_. True) (n :: nat)" "\<forall>g \<in> set f. host_file_ok g" "length f < 207" "nmeta + blocks_of (wanted f) \<le> FSSIZE"
    unfolding w(3) by (simp_all add: f_def host_file_ok_def file_content_def nblk_def MAXFILE_140 layout_values FSSIZE_def)
  obtain s where s: "mkfs_main (\<lambda>_. True) (Some (True, f)) = Inr s" "mk_freeblock s = nmeta + blocks_of (wanted f)"
      "disk_bytes (mk_img s) (1 + 1) (length [1, 2, 3 :: uchar]) = [1, 2, 3]"
    using mkfs_builds_image [OF a] w(1,2) by blast
  have "mk_freeblock s = 61" using s(2) w(3) by (simp add: layout_values)
  moreover have "disk_bytes (mk_img s) 2 3 = [1, 2, 3]" using s(3) by (simp add: numeral_2_eq_2 numeral_3_eq_3)
  ultimately show ?thesis using s(1) unfolding f_def by blast
qed

text \<open>
  With 30 files the entries fill one block exactly; the rounded size of the root directory then counts a
  second block, which has no address.
\<close>

lemma root_size_overshoots:
  assumes h: "\<forall>n. host n" and f: "\<forall>f \<in> set files. host_file_ok f" "length files = 30" and b: "nmeta + blocks_of (wanted files) \<le> FSSIZE"
  shows "\<exists>s. mkfs_main host (Some (True, files)) = Inr s \<and> unat (i_size (disk_inode (mk_img s) 1)) = 2 * BSIZE \<and> disk_block (mk_img s) 1 1 = 0"
proof -
  have h': "\<And>n. host n" using h by blast
  obtain s F where s: "mkfs_main host (Some (True, files)) = andThen (fix_root_size host 1 s) (\<lambda>s. mkfs_balloc host (mk_freeblock s) s)"
      "fs_rep s F" "map (\<lambda>(ty, bl, ib, data). (ty, data)) F = wanted files"
    using main_files [where host = host, OF h' f(1) _ b] f(2) by (auto simp: fs_has_def)
  then obtain bl ib d G where F: "F = (T_DIR, bl, ib, d) # G" "length d = 512" using f(2) by (cases F) (auto simp: wanted_def)
  obtain t where t: "andThen (fix_root_size host 1 s) (\<lambda>s. mkfs_balloc host (mk_freeblock s) s) = Inr t" "finished s t F"
    using finish_ok [where host = host, OF h' s(2)] F(1) by blast
  note g = finished_file [OF s(2) t(2), of 0 T_DIR bl ib d]
  have "maps (mk_img t) (i_addrs (disk_inode (mk_img t) 1)) bl ib" "length bl = 1" using g(1,2) F by (simp_all add: filed_def nblk_def)
  then have "disk_block (mk_img t) 1 1 = 0" by (simp add: maps_def disk_block_def NDIRECT_def)
  moreover have "unat (i_size (disk_inode (mk_img t) 1)) = 2 * BSIZE" using g(4) F by (simp add: BSIZE_def)
  ultimately show ?thesis using s(1) t(1) by auto
qed

text \<open>The program does not check the number of inodes: inode 208 lies in the block of the free map.\<close>

lemma inode_in_free_map: "unat (IBLOCK 208 mkfs_sb) = unat (sb_bmapstart mkfs_sb)"
  by (simp add: IBLOCK_def layout_values IPB_def BSIZE_def)

end
