(* ===== verification/Vaccine.thy ===== *)
theory Vaccine
  imports Prelude Complex_Main
begin

text \<open>
  The vaccination simulation, \<^verbatim>\<open>q2.c\<close> of the fourth assignment: pharmaceutical companies put batches
  into a shared queue, zones take a batch, offer slots and vaccinate the students that registered,
  students register, wait, and are tested. Every thread has a program counter; one step is one
  critical section of the code, or one access to shared data outside of them. The data of different
  locks is disjoint, so the sections are atomic; only the lock of a zone is part of the state,
  because a student keeps it while it also takes the lock of the counter of waiting students. The
  random numbers are parameters of the steps, and so is whether a \<open>trylock\<close> fails because another thread is
  inside a section of that lock. A thread that waits on a condition variable may check
  its condition at any time, which allows every behaviour of the signals. \<open>main\<close> creates the zones
  and companies in less time than the students' first sleep. The numbers of companies, zones and students
  are checked against the sizes of the arrays: every index used is below one of them.
\<close>

section \<open>Data\<close>

definition QUEUE_MAX :: nat where "QUEUE_MAX = 200000"
definition ZONES_MAX :: nat where "ZONES_MAX = 1000"
definition COMPANY_MAX :: nat where "COMPANY_MAX = 1000"
definition STUDENT_MAX :: nat where "STUDENT_MAX = 10000"
definition BATCH_MIN :: nat where "BATCH_MIN = 2"
definition BATCH_MAX :: nat where "BATCH_MAX = 5"
definition VACC_MIN :: int where "VACC_MIN = 10"
definition VACC_MAX :: int where "VACC_MAX = 20"

record vaccineData =
  vaccineCount :: int
  company_of :: nat
  pSuccess :: rat

datatype zone_pc = ZGet | ZOffer | ZPost int | ZRegister | ZVaccinate "nat list" | ZUsed | ZAssertFailed "nat list"

record zone =
  z_slots :: int
  z_students :: "nat \<Rightarrow> int"
  z_pc :: zone_pc
  z_vaccines :: int
  z_company :: nat
  z_pSuccess :: rat

datatype company_pc = CProduce | CWait nat

record company =
  c_pSuccess :: rat
  c_pc :: company_pc

datatype student_pc = SArrive | SScan nat | SGot nat | SUnlock nat | SWait | STest | SCollege | SHome

record student =
  s_pc :: student_pc
  s_vaccinations :: int

record vst =
  numCompanies :: nat
  numZones :: nat
  numStudents :: nat
  waitingStudents :: int
  vaccineUsed :: "nat \<Rightarrow> int"
  vaccineQueue :: "nat \<Rightarrow> vaccineData"
  readPosVaccine :: nat
  writePosVaccine :: nat
  vaccinated :: "nat \<Rightarrow> bool"
  vaccineGiven :: "nat \<Rightarrow> rat"
  zoneLocks :: "nat \<Rightarrow> nat option"
  zones :: "nat \<Rightarrow> zone"
  companies :: "nat \<Rightarrow> company"
  students :: "nat \<Rightarrow> student"

definition upd_zone :: "nat \<Rightarrow> (zone \<Rightarrow> zone) \<Rightarrow> vst \<Rightarrow> vst" where
  "upd_zone z f v = v\<lparr>zones := (zones v)(z := f (zones v z))\<rparr>"

definition upd_company :: "nat \<Rightarrow> (company \<Rightarrow> company) \<Rightarrow> vst \<Rightarrow> vst" where
  "upd_company c f v = v\<lparr>companies := (companies v)(c := f (companies v c))\<rparr>"

definition upd_student :: "nat \<Rightarrow> (student \<Rightarrow> student) \<Rightarrow> vst \<Rightarrow> vst" where
  "upd_student s f v = v\<lparr>students := (students v)(s := f (students v s))\<rparr>"

section \<open>Companies\<close>

text \<open>The loop of \<open>addToVaccineQueue\<close>; \<open>counts\<close> are the random sizes of the batches.\<close>

fun put_batches :: "nat \<Rightarrow> rat \<Rightarrow> int list \<Rightarrow> vst \<Rightarrow> vst" where
  "put_batches cid p [] v = v"
| "put_batches cid p (n # counts) v =
     put_batches cid p counts
       (v\<lparr>vaccineQueue := (vaccineQueue v)(writePosVaccine v := \<lparr>vaccineCount = n, company_of = cid, pSuccess = p\<rparr>),
          writePosVaccine := (writePosVaccine v + 1) mod QUEUE_MAX\<rparr>)"

definition addToVaccineQueue :: "nat \<Rightarrow> int list \<Rightarrow> vst \<Rightarrow> vst option" where
  "addToVaccineQueue cid counts v =
     (if cid < numCompanies v \<and> c_pc (companies v cid) = CProduce
         \<and> BATCH_MIN \<le> length counts \<and> length counts \<le> BATCH_MAX
         \<and> (\<forall>n \<in> set counts. VACC_MIN \<le> n \<and> n \<le> VACC_MAX)
      then Some (upd_company cid (\<lambda>c. c\<lparr>c_pc := CWait (length counts)\<rparr>)
             (put_batches cid (c_pSuccess (companies v cid)) counts v))
      else None)"

text \<open>The end of the waiting loop in \<open>company\<close>.\<close>

definition company_resume :: "nat \<Rightarrow> vst \<Rightarrow> vst option" where
  "company_resume cid v =
     (case c_pc (companies v cid) of
        CWait batches \<Rightarrow>
          if cid < numCompanies v \<and> vaccineUsed v cid = int batches
          then Some (upd_company cid (\<lambda>c. c\<lparr>c_pc := CProduce\<rparr>) v) else None
      | CProduce \<Rightarrow> None)"

section \<open>Zones\<close>

definition getFromVaccineQueue :: "nat \<Rightarrow> vst \<Rightarrow> vst option" where
  "getFromVaccineQueue z v =
     (if z < numZones v \<and> z_pc (zones v z) = ZGet \<and> readPosVaccine v \<noteq> writePosVaccine v
      then let b = vaccineQueue v (readPosVaccine v)
           in Some (upd_zone z (\<lambda>d. d\<lparr>z_vaccines := vaccineCount b, z_company := company_of b, z_pSuccess := pSuccess b,
                  z_pc := (if vaccineCount b = 0 then ZGet else ZOffer)\<rparr>)
                (v\<lparr>readPosVaccine := (readPosVaccine v + 1) mod QUEUE_MAX\<rparr>))
      else None)"

text \<open>
  \<open>addToSlotsQueue\<close> in two steps: the loop that chooses the number of slots, reading the counter
  of waiting students without its lock, and the section that publishes them.
\<close>

definition choose_slots :: "nat \<Rightarrow> vst \<Rightarrow> vst option" where
  "choose_slots z v =
     (if z < numZones v \<and> z_pc (zones v z) = ZOffer
      then let newSlots = min 8 (min (waitingStudents v) (z_vaccines (zones v z)))
           in Some (if newSlots \<le> 0 then v else upd_zone z (\<lambda>d. d\<lparr>z_pc := ZPost newSlots\<rparr>) v)
      else None)"

definition post_slots :: "nat \<Rightarrow> vst \<Rightarrow> vst option" where
  "post_slots z v =
     (case z_pc (zones v z) of
        ZPost newSlots \<Rightarrow>
          if z < numZones v \<and> zoneLocks v z = None
          then Some (upd_zone z (\<lambda>d. d\<lparr>z_slots := (if newSlots \<noteq> 0 then newSlots else z_slots d), z_pc := ZRegister\<rparr>) v)
          else None
      | _ \<Rightarrow> None)"

text \<open>
  The end of the registration time: the students that registered, and the assertion. A failed assertion
  aborts the program; the model only stops the zone there, with the students it has counted, which allows
  the other threads more than they can do.
\<close>

definition registered :: "nat \<Rightarrow> zone \<Rightarrow> nat list" where
  "registered n d = filter (\<lambda>i. z_students d i > 0) [0..<n]"

definition close_registration :: "nat \<Rightarrow> vst \<Rightarrow> vst option" where
  "close_registration z v =
     (if z < numZones v \<and> z_pc (zones v z) = ZRegister \<and> zoneLocks v z = None
      then let rs = registered (numStudents v) (zones v z)
           in Some (upd_zone z (\<lambda>d. d\<lparr>z_students := (\<lambda>i. if i < numStudents v \<and> z_students d i > 0 then 0 else z_students d i),
                  z_slots := 0,
                  z_pc := (if rs = [] then ZOffer
                           else if z_vaccines d \<ge> int (length rs) then ZVaccinate rs else ZAssertFailed rs)\<rparr>) v)
      else None)"

text \<open>One round of the vaccination loop.\<close>

definition vaccinate :: "nat \<Rightarrow> vst \<Rightarrow> vst option" where
  "vaccinate z v =
     (case z_pc (zones v z) of
        ZVaccinate (r # rs) \<Rightarrow>
          if z < numZones v
          then Some (upd_zone z (\<lambda>d. d\<lparr>z_vaccines := z_vaccines d - 1,
                   z_pc := (if rs \<noteq> [] then ZVaccinate rs else if z_vaccines d - 1 = 0 then ZUsed else ZOffer)\<rparr>)
                 (v\<lparr>vaccinated := (vaccinated v)(r := True),
                    vaccineGiven := (vaccineGiven v)(r := z_pSuccess (zones v z))\<rparr>))
          else None
      | _ \<Rightarrow> None)"

definition report_used :: "nat \<Rightarrow> vst \<Rightarrow> vst option" where
  "report_used z v =
     (if z < numZones v \<and> z_pc (zones v z) = ZUsed
      then Some (upd_zone z (\<lambda>d. d\<lparr>z_pc := ZGet\<rparr>)
             (v\<lparr>vaccineUsed := (vaccineUsed v)(z_company (zones v z) := vaccineUsed v (z_company (zones v z)) + 1)\<rparr>))
      else None)"

section \<open>Students\<close>

definition arrive :: "nat \<Rightarrow> vst \<Rightarrow> vst option" where
  "arrive s v =
     (if s < numStudents v \<and> s_pc (students v s) = SArrive
      then Some (upd_student s (\<lambda>x. x\<lparr>s_pc := SScan 0\<rparr>) (v\<lparr>waitingStudents := waitingStudents v + 1\<rparr>))
      else None)"

text \<open>
  \<open>getRegistered\<close>: one round of the loop over the zones, then the counter, then the lock. \<open>busy\<close> says that
  the zone itself or another student holds the lock at that moment to look at the slots.
\<close>

definition try_zone :: "nat \<Rightarrow> bool \<Rightarrow> vst \<Rightarrow> vst option" where
  "try_zone s busy v =
     (case s_pc (students v s) of
        SScan a \<Rightarrow>
          if s < numStudents v
          then Some (if zoneLocks v a = None \<and> \<not> busy \<and> z_slots (zones v a) > 0
            then upd_student s (\<lambda>x. x\<lparr>s_pc := SGot a\<rparr>)
                   (upd_zone a (\<lambda>d. d\<lparr>z_slots := z_slots d - 1, z_students := (z_students d)(s := 1)\<rparr>)
                     (v\<lparr>zoneLocks := (zoneLocks v)(a \<mapsto> s)\<rparr>))
            else upd_student s (\<lambda>x. x\<lparr>s_pc := SScan ((a + 1) mod numZones v)\<rparr>) v)
          else None
      | _ \<Rightarrow> None)"

definition leave_queue :: "nat \<Rightarrow> vst \<Rightarrow> vst option" where
  "leave_queue s v =
     (case s_pc (students v s) of
        SGot a \<Rightarrow>
          if s < numStudents v
          then Some (upd_student s (\<lambda>x. x\<lparr>s_pc := SUnlock a\<rparr>) (v\<lparr>waitingStudents := waitingStudents v - 1\<rparr>))
          else None
      | _ \<Rightarrow> None)"

definition unlock_zone :: "nat \<Rightarrow> vst \<Rightarrow> vst option" where
  "unlock_zone s v =
     (case s_pc (students v s) of
        SUnlock a \<Rightarrow>
          if s < numStudents v
          then Some (upd_student s (\<lambda>x. x\<lparr>s_pc := SWait\<rparr>) (v\<lparr>zoneLocks := (zoneLocks v)(a := None)\<rparr>))
          else None
      | _ \<Rightarrow> None)"

definition see_vaccinated :: "nat \<Rightarrow> vst \<Rightarrow> vst option" where
  "see_vaccinated s v =
     (if s < numStudents v \<and> s_pc (students v s) = SWait \<and> vaccinated v s
      then Some (upd_student s (\<lambda>x. x\<lparr>s_pc := STest\<rparr>) (v\<lparr>vaccinated := (vaccinated v)(s := False)\<rparr>))
      else None)"

text \<open>The antibody test; \<open>k\<close> is the random number from 0 to 100.\<close>

definition antibody_test :: "nat \<Rightarrow> nat \<Rightarrow> vst \<Rightarrow> vst option" where
  "antibody_test s k v =
     (if s < numStudents v \<and> s_pc (students v s) = STest \<and> k \<le> 100
      then Some (if of_nat k / 100 < vaccineGiven v s
        then upd_student s (\<lambda>x. x\<lparr>s_pc := SCollege\<rparr>) v
        else upd_student s (\<lambda>x. x\<lparr>s_vaccinations := s_vaccinations x + 1,
               s_pc := (if s_vaccinations x + 1 > 3 then SHome else SArrive)\<rparr>) v)
      else None)"

section \<open>The program\<close>

datatype event =
    AddBatches nat "int list" | Resume nat
  | GetBatch nat | ChooseSlots nat | PostSlots nat | Close nat | Vaccinate nat | ReportUsed nat
  | Arrive nat | TryZone nat bool | LeaveQueue nat | UnlockZone nat | SeeVaccinated nat | AntibodyTest nat nat

fun vstep :: "event \<Rightarrow> vst \<Rightarrow> vst option" where
  "vstep (AddBatches c counts) v = addToVaccineQueue c counts v"
| "vstep (Resume c) v = company_resume c v"
| "vstep (GetBatch z) v = getFromVaccineQueue z v"
| "vstep (ChooseSlots z) v = choose_slots z v"
| "vstep (PostSlots z) v = post_slots z v"
| "vstep (Close z) v = close_registration z v"
| "vstep (Vaccinate z) v = vaccinate z v"
| "vstep (ReportUsed z) v = report_used z v"
| "vstep (Arrive s) v = arrive s v"
| "vstep (TryZone s busy) v = try_zone s busy v"
| "vstep (LeaveQueue s) v = leave_queue s v"
| "vstep (UnlockZone s) v = unlock_zone s v"
| "vstep (SeeVaccinated s) v = see_vaccinated s v"
| "vstep (AntibodyTest s k) v = antibody_test s k v"

fun vrun :: "event list \<Rightarrow> vst \<Rightarrow> vst option" where
  "vrun [] v = Some v"
| "vrun (e # es) v = (case vstep e v of None \<Rightarrow> None | Some w \<Rightarrow> vrun es w)"

text \<open>
  \<open>main\<close> ends at once when a number is zero, and writes outside an array when one is too large for it.
  The state it creates otherwise. The zones' records come from \<open>malloc\<close>, with whatever \<open>memory\<close> holds; the
  loop over the students of zone \<open>i\<close> assigns to \<open>students[i]\<close> each time.
\<close>

definition new_zone :: "nat \<Rightarrow> (nat \<Rightarrow> int) \<Rightarrow> nat \<Rightarrow> zone" where
  "new_zone n memory i =
     \<lparr>z_slots = 0, z_students = fold (\<lambda>j m. m(i := 0)) [0..<n] memory, z_pc = ZGet, z_vaccines = 0,
      z_company = 0, z_pSuccess = 0\<rparr>"

datatype start = No_companies | No_zones | No_students | Out_of_bounds | Threads vst

definition vaccine_main :: "nat \<Rightarrow> nat \<Rightarrow> nat \<Rightarrow> (nat \<Rightarrow> rat) \<Rightarrow> (nat \<Rightarrow> nat \<Rightarrow> int) \<Rightarrow> start" where
  "vaccine_main nc nz ns p memory =
     (if nc = 0 then No_companies else if nz = 0 then No_zones else if ns = 0 then No_students
      else if COMPANY_MAX < nc \<or> ZONES_MAX < nz \<or> STUDENT_MAX < ns then Out_of_bounds
      else Threads \<lparr>numCompanies = nc, numZones = nz, numStudents = ns, waitingStudents = 0,
        vaccineUsed = (\<lambda>_. 0), vaccineQueue = (\<lambda>_. \<lparr>vaccineCount = 0, company_of = 0, pSuccess = 0\<rparr>),
        readPosVaccine = 0, writePosVaccine = 0, vaccinated = (\<lambda>_. False), vaccineGiven = (\<lambda>_. 0),
        zoneLocks = (\<lambda>_. None), zones = (\<lambda>i. new_zone ns (memory i) i),
        companies = (\<lambda>i. \<lparr>c_pSuccess = p i, c_pc = CProduce\<rparr>),
        students = (\<lambda>_. \<lparr>s_pc = SArrive, s_vaccinations = 1\<rparr>)\<rparr>)"

section \<open>The invariant\<close>

text \<open>A student is registered at a zone until the zone has vaccinated it.\<close>

definition reg :: "zone \<Rightarrow> nat \<Rightarrow> bool" where
  "reg d s \<longleftrightarrow> z_students d s > 0 \<or> (case z_pc d of ZVaccinate rs \<Rightarrow> s \<in> set rs | ZAssertFailed rs \<Rightarrow> s \<in> set rs | _ \<Rightarrow> False)"

text \<open>
  The records of the zones come uncleared from \<open>malloc\<close>. \<open>c\<close> says of a zone that its record had no positive
  entry, \<open>D\<close> is the set of the students for which no record had one. Outside a registration period the
  entries are cleared, as far as they were to begin with, or as the first period clears them.
\<close>

definition quiet :: "nat \<Rightarrow> bool \<Rightarrow> nat set \<Rightarrow> zone \<Rightarrow> bool" where
  "quiet n c D d \<longleftrightarrow> z_slots d = 0 \<and> (\<forall>i<n. c \<or> i \<in> D \<longrightarrow> z_students d i \<le> 0)"

definition zone_ok :: "nat \<Rightarrow> bool \<Rightarrow> nat set \<Rightarrow> zone \<Rightarrow> bool" where
  "zone_ok n c D d \<longleftrightarrow> (case z_pc d of
       ZGet \<Rightarrow> quiet n c D d \<and> z_vaccines d = 0
     | ZOffer \<Rightarrow> quiet n c D d \<and> 0 < z_vaccines d
     | ZPost k \<Rightarrow> quiet n c D d \<and> 0 < k \<and> k \<le> z_vaccines d
     | ZRegister \<Rightarrow> 0 \<le> z_slots d \<and> (c \<longrightarrow> z_slots d + int (length (registered n d)) \<le> z_vaccines d) \<and> 0 < z_vaccines d
     | ZVaccinate rs \<Rightarrow> quiet n True D d \<and> rs \<noteq> [] \<and> distinct rs \<and> set rs \<subseteq> {..<n} \<and> int (length rs) \<le> z_vaccines d
     | ZUsed \<Rightarrow> quiet n c D d \<and> z_vaccines d = 0
     | ZAssertFailed _ \<Rightarrow> quiet n True D d \<and> \<not> c \<and> 0 < z_vaccines d)"

definition nowhere :: "vst \<Rightarrow> nat \<Rightarrow> bool" where
  "nowhere v s \<longleftrightarrow> (\<forall>z < numZones v. \<not> reg (zones v z) s)"

definition place_ok :: "vst \<Rightarrow> nat \<Rightarrow> bool" where
  "place_ok v s \<longleftrightarrow> (case s_pc (students v s) of
       SScan a \<Rightarrow> nowhere v s \<and> \<not> vaccinated v s
     | SGot a \<Rightarrow> z_students (zones v a) s > 0 \<and> (\<forall>z < numZones v. reg (zones v z) s \<longrightarrow> z = a) \<and> \<not> vaccinated v s
     | SUnlock a \<Rightarrow> z_students (zones v a) s > 0 \<and> (\<forall>z < numZones v. reg (zones v z) s \<longrightarrow> z = a) \<and> \<not> vaccinated v s
     | SWait \<Rightarrow> if vaccinated v s then nowhere v s
         else (\<exists>a < numZones v. reg (zones v a) s \<and> (\<forall>z < numZones v. reg (zones v z) s \<longrightarrow> z = a))
     | _ \<Rightarrow> nowhere v s \<and> \<not> vaccinated v s)"

definition student_ok :: "nat set \<Rightarrow> vst \<Rightarrow> nat \<Rightarrow> bool" where
  "student_ok D v s \<longleftrightarrow> (case s_pc (students v s) of
       SScan a \<Rightarrow> a < numZones v
     | SGot a \<Rightarrow> a < numZones v \<and> zoneLocks v a = Some s
     | SUnlock a \<Rightarrow> a < numZones v \<and> zoneLocks v a = Some s
     | _ \<Rightarrow> True)
   \<and> (s \<in> D \<longrightarrow> place_ok v s)
   \<and> 1 \<le> s_vaccinations (students v s)
   \<and> s_vaccinations (students v s) \<le> (if s_pc (students v s) = SHome then 4 else 3)"

definition waits :: "student_pc \<Rightarrow> int" where
  "waits pc = (case pc of SScan _ \<Rightarrow> 1 | SGot _ \<Rightarrow> 1 | _ \<Rightarrow> 0)"

definition vinv :: "(nat \<Rightarrow> bool) \<Rightarrow> nat set \<Rightarrow> vst \<Rightarrow> bool" where
  "vinv c D v \<longleftrightarrow> (\<forall>k. 0 \<le> vaccineCount (vaccineQueue v k)) \<and> 0 < numZones v
     \<and> (\<forall>z < numZones v. zone_ok (numStudents v) (c z) D (zones v z))
     \<and> (\<forall>s < numStudents v. student_ok D v s)
     \<and> waitingStudents v = (\<Sum>s<numStudents v. waits (s_pc (students v s)))"

named_theorems vsimps "the fields after an update"

lemma upd_zone_fields [vsimps]:
  "numCompanies (upd_zone z f v) = numCompanies v" "numZones (upd_zone z f v) = numZones v" "numStudents (upd_zone z f v) = numStudents v"
  "waitingStudents (upd_zone z f v) = waitingStudents v" "vaccineUsed (upd_zone z f v) = vaccineUsed v"
  "vaccineQueue (upd_zone z f v) = vaccineQueue v" "vaccinated (upd_zone z f v) = vaccinated v"
  "zoneLocks (upd_zone z f v) = zoneLocks v" "zones (upd_zone z f v) = (zones v)(z := f (zones v z))"
  "companies (upd_zone z f v) = companies v" "students (upd_zone z f v) = students v"
  by (simp_all add: upd_zone_def)

lemma upd_company_fields [vsimps]:
  "numCompanies (upd_company c g v) = numCompanies v" "numZones (upd_company c g v) = numZones v" "numStudents (upd_company c g v) = numStudents v"
  "waitingStudents (upd_company c g v) = waitingStudents v" "vaccineUsed (upd_company c g v) = vaccineUsed v"
  "vaccineQueue (upd_company c g v) = vaccineQueue v" "vaccinated (upd_company c g v) = vaccinated v"
  "zoneLocks (upd_company c g v) = zoneLocks v" "zones (upd_company c g v) = zones v"
  "companies (upd_company c g v) = (companies v)(c := g (companies v c))" "students (upd_company c g v) = students v"
  by (simp_all add: upd_company_def)

lemma upd_student_fields [vsimps]:
  "numCompanies (upd_student s h v) = numCompanies v" "numZones (upd_student s h v) = numZones v" "numStudents (upd_student s h v) = numStudents v"
  "waitingStudents (upd_student s h v) = waitingStudents v" "vaccineUsed (upd_student s h v) = vaccineUsed v"
  "vaccineQueue (upd_student s h v) = vaccineQueue v" "vaccinated (upd_student s h v) = vaccinated v"
  "zoneLocks (upd_student s h v) = zoneLocks v" "zones (upd_student s h v) = zones v"
  "companies (upd_student s h v) = companies v" "students (upd_student s h v) = (students v)(s := h (students v s))"
  by (simp_all add: upd_student_def)

lemma put_batches_fields [vsimps]:
  "numCompanies (put_batches cid p counts v) = numCompanies v" "numZones (put_batches cid p counts v) = numZones v"
  "numStudents (put_batches cid p counts v) = numStudents v" "waitingStudents (put_batches cid p counts v) = waitingStudents v"
  "vaccineUsed (put_batches cid p counts v) = vaccineUsed v" "vaccinated (put_batches cid p counts v) = vaccinated v"
  "zoneLocks (put_batches cid p counts v) = zoneLocks v" "zones (put_batches cid p counts v) = zones v"
  "companies (put_batches cid p counts v) = companies v" "students (put_batches cid p counts v) = students v"
  by (induction cid p counts v rule: put_batches.induct) simp_all

lemma put_batches_queue:
  "\<lbrakk>\<forall>n \<in> set counts. 0 \<le> n; \<forall>k. 0 \<le> vaccineCount (vaccineQueue v k)\<rbrakk> \<Longrightarrow>
   0 \<le> vaccineCount (vaccineQueue (put_batches cid p counts v) k)"
  by (induction cid p counts v arbitrary: k rule: put_batches.induct) simp_all

text \<open>What the invariant of a student depends on.\<close>

lemma student_ok_cong:
  assumes "student_ok D v s" "numZones w = numZones v" "students w s = students v s" "vaccinated w s = vaccinated v s"
    "\<And>z. z < numZones v \<Longrightarrow> reg (zones w z) s = reg (zones v z) s"
    "\<And>z. z < numZones v \<Longrightarrow> zoneLocks v z = Some s \<Longrightarrow> zoneLocks w z = Some s"
    "\<And>z. z < numZones v \<Longrightarrow> zoneLocks v z = Some s \<Longrightarrow> z_students (zones v z) s > 0 \<Longrightarrow> z_students (zones w z) s > 0"
  shows "student_ok D w s"
proof -
  have nw: "nowhere w s = nowhere v s" using assms(2,5) by (simp add: nowhere_def)
  have lock: "a < numZones v \<and> zoneLocks v a = Some s" if "s_pc (students v s) = SGot a \<or> s_pc (students v s) = SUnlock a" for a
    using assms(1) that by (auto simp: student_ok_def)
  have re: "(\<forall>z < numZones v. reg (zones w z) s \<longrightarrow> z = a) = (\<forall>z < numZones v. reg (zones v z) s \<longrightarrow> z = a)" for a
    using assms(5) by auto
  have "place_ok w s" if p: "place_ok v s"
  proof (cases "s_pc (students v s)")
    case (SGot a)
    then show ?thesis using p lock [of a] assms(7) by (simp add: place_ok_def assms(2-4) re)
  next
    case (SUnlock a)
    then show ?thesis using p lock [of a] assms(7) by (simp add: place_ok_def assms(2-4) re)
  next
    case SWait
    have "(\<exists>a < numZones v. reg (zones w a) s \<and> P a) = (\<exists>a < numZones v. reg (zones v a) s \<and> P a)" for P
      using assms(5) by auto
    then show ?thesis using SWait p by (simp add: place_ok_def assms(2-4) nw re)
  qed (use p in \<open>simp_all add: place_ok_def assms(2-4) nw\<close>)
  then show ?thesis
    using assms(1) lock assms(6) unfolding student_ok_def assms(2-4)
    by (cases "s_pc (students v s)") simp_all
qed

lemma sum_upd_waits:
  fixes f :: "nat \<Rightarrow> student"
  assumes "s < n"
  shows "(\<Sum>t<n. waits (s_pc ((f(s := x)) t))) = (\<Sum>t<n. waits (s_pc (f t))) + waits (s_pc x) - waits (s_pc (f s))"
proof -
  have "(\<Sum>t<n. waits (s_pc (g t))) = waits (s_pc (g s)) + (\<Sum>t\<in>{..<n} - {s}. waits (s_pc (g t)))" for g :: "nat \<Rightarrow> student"
    using assms by (intro sum.remove) auto
  from this [of "f(s := x)"] this [of f] show ?thesis by simp
qed

lemma vinvD:
  assumes "vinv c D v"
  shows "0 \<le> vaccineCount (vaccineQueue v k)" "0 < numZones v"
    "\<And>z. z < numZones v \<Longrightarrow> zone_ok (numStudents v) (c z) D (zones v z)" "s < numStudents v \<Longrightarrow> student_ok D v s"
    "waitingStudents v = (\<Sum>s<numStudents v. waits (s_pc (students v s)))"
  using assms by (auto simp: vinv_def)

text \<open>A step of a zone that changes nobody's registration.\<close>

lemma vinv_zone:
  assumes v: "vinv c D v" and z: "zone_ok (numStudents v) (c z) D d'"
    and d: "z_students d' = z_students (zones v z)" "\<And>s. reg d' s = reg (zones v z) s"
    and w: "zones w = (zones v)(z := d')" "numZones w = numZones v" "numStudents w = numStudents v" "students w = students v"
      "vaccinated w = vaccinated v" "zoneLocks w = zoneLocks v" "waitingStudents w = waitingStudents v" "vaccineQueue w = vaccineQueue v"
  shows "vinv c D w"
proof -
  have "student_ok D w s" if "s < numStudents v" for s
    using vinvD(4) [OF v that] by (rule student_ok_cong) (use d w in auto)
  then show ?thesis using v z unfolding vinv_def w by simp
qed

lemma reg_unlisted: "(\<And>rs. z_pc d \<noteq> ZVaccinate rs \<and> z_pc d \<noteq> ZAssertFailed rs) \<Longrightarrow> reg d s \<longleftrightarrow> z_students d s > 0"
  by (auto simp: reg_def split: zone_pc.splits)

lemma inv_zone_steps:
  assumes v: "vinv c D v"
  shows "getFromVaccineQueue z v = Some w \<Longrightarrow> vinv c D w" "choose_slots z v = Some w \<Longrightarrow> vinv c D w"
    "post_slots z v = Some w \<Longrightarrow> vinv c D w" "report_used z v = Some w \<Longrightarrow> vinv c D w"
proof -
  note ok = vinvD(3) [OF v, of z]
  { assume a: "getFromVaccineQueue z v = Some w"
    let ?b = "vaccineQueue v (readPosVaccine v)"
    let ?d = "(zones v z)\<lparr>z_vaccines := vaccineCount ?b, z_company := company_of ?b, z_pSuccess := pSuccess ?b,
      z_pc := (if vaccineCount ?b = 0 then ZGet else ZOffer)\<rparr>"
    have g: "z < numZones v" "z_pc (zones v z) = ZGet" and w: "w = upd_zone z (\<lambda>_. ?d) (v\<lparr>readPosVaccine := (readPosVaccine v + 1) mod QUEUE_MAX\<rparr>)"
      using a by (auto simp: getFromVaccineQueue_def Let_def upd_zone_def split: if_splits)
    have "zone_ok (numStudents v) (c z) D ?d" using ok [OF g(1)] g(2) vinvD(1) [OF v, of "readPosVaccine v"] by (auto simp: zone_ok_def quiet_def)
    then show "vinv c D w" by (rule vinv_zone [OF v, where z = z]) (use g in \<open>auto simp: w vsimps reg_unlisted\<close>) }
  { assume a: "choose_slots z v = Some w"
    let ?n = "min 8 (min (waitingStudents v) (z_vaccines (zones v z)))"
    let ?d = "(zones v z)\<lparr>z_pc := ZPost ?n\<rparr>"
    have g: "z < numZones v" "z_pc (zones v z) = ZOffer" "w = (if ?n \<le> 0 then v else upd_zone z (\<lambda>_. ?d) v)"
      using a by (auto simp: choose_slots_def Let_def upd_zone_def split: if_splits)
    show "vinv c D w"
    proof (cases "?n \<le> 0")
      case True
      then have "w = v" using g(3) by (simp only: if_True)
      then show ?thesis using v by simp
    next
      case False
      have "zone_ok (numStudents v) (c z) D ?d" using ok [OF g(1)] g(2) False by (auto simp: zone_ok_def quiet_def)
      then show ?thesis by (rule vinv_zone [OF v, where z = z]) (use g False in \<open>auto simp: vsimps reg_unlisted\<close>)
    qed }
  { assume a: "post_slots z v = Some w"
    then obtain k where g: "z < numZones v" "z_pc (zones v z) = ZPost k"
      "w = upd_zone z (\<lambda>d. d\<lparr>z_slots := (if k \<noteq> 0 then k else z_slots d), z_pc := ZRegister\<rparr>) v"
      by (auto simp: post_slots_def split: zone_pc.splits if_splits)
    let ?d = "(zones v z)\<lparr>z_slots := (if k \<noteq> 0 then k else z_slots (zones v z)), z_pc := ZRegister\<rparr>"
    have "registered (numStudents v) ?d = []" if "c z" using ok [OF g(1)] g(2) that by (auto simp: zone_ok_def quiet_def registered_def filter_empty_conv)
    then have "zone_ok (numStudents v) (c z) D ?d" using ok [OF g(1)] g(2) by (auto simp: zone_ok_def quiet_def)
    then show "vinv c D w" by (rule vinv_zone [OF v, where z = z]) (use g in \<open>auto simp: vsimps reg_unlisted\<close>) }
  { assume a: "report_used z v = Some w"
    have g: "z < numZones v" "z_pc (zones v z) = ZUsed" "zones w = (zones v)(z := (zones v z)\<lparr>z_pc := ZGet\<rparr>)"
      using a by (auto simp: report_used_def vsimps split: if_splits)
    have "zone_ok (numStudents v) (c z) D ((zones v z)\<lparr>z_pc := ZGet\<rparr>)" using ok [OF g(1)] g(2) by (auto simp: zone_ok_def quiet_def)
    then show "vinv c D w"
      by (rule vinv_zone [OF v, where z = z]) (use g a in \<open>auto simp: report_used_def vsimps reg_unlisted split: if_splits\<close>) }
qed

lemma inv_company_steps:
  assumes v: "vinv c D v"
  shows "addToVaccineQueue cid counts v = Some w \<Longrightarrow> vinv c D w" "company_resume cid v = Some w \<Longrightarrow> vinv c D w"
proof -
  have keep: "vinv c D w" if "\<And>k. 0 \<le> vaccineCount (vaccineQueue w k)" "zones w = zones v" "numZones w = numZones v" "numStudents w = numStudents v"
      "students w = students v" "vaccinated w = vaccinated v" "zoneLocks w = zoneLocks v" "waitingStudents w = waitingStudents v" for w
  proof -
    have "student_ok D w s" if "s < numStudents v" for s
      using vinvD(4) [OF v that] by (rule student_ok_cong) (use \<open>zones w = zones v\<close> \<open>numZones w = numZones v\<close> \<open>students w = students v\<close>
        \<open>vaccinated w = vaccinated v\<close> \<open>zoneLocks w = zoneLocks v\<close> in auto)
    with that v show ?thesis unfolding vinv_def that by simp
  qed
  { assume a: "addToVaccineQueue cid counts v = Some w"
    show "vinv c D w"
    proof (rule keep)
      have "\<forall>n \<in> set counts. 0 \<le> n" using a by (auto simp: addToVaccineQueue_def VACC_MIN_def split: if_splits)
      then show "0 \<le> vaccineCount (vaccineQueue w k)" for k
        using a put_batches_queue [of counts v cid _ k] vinvD(1) [OF v] by (auto simp: addToVaccineQueue_def vsimps split: if_splits)
    qed (use a in \<open>auto simp: addToVaccineQueue_def vsimps split: if_splits\<close>) }
  { assume a: "company_resume cid v = Some w"
    show "vinv c D w"
      by (rule keep) (use a vinvD(1) [OF v] in \<open>auto simp: company_resume_def vsimps split: if_splits company_pc.splits\<close>) }
qed

text \<open>A step of a student that changes nobody's registration.\<close>

lemma vinv_student:
  assumes v: "vinv c D v" and s: "s < numStudents v" and ok: "student_ok D w s"
    and w: "students w = (students v)(s := x)" "zones w = zones v" "numZones w = numZones v" "numStudents w = numStudents v"
      "vaccineQueue w = vaccineQueue v"
      "waitingStudents w = waitingStudents v + waits (s_pc x) - waits (s_pc (students v s))"
    and others: "\<And>t. t \<noteq> s \<Longrightarrow> vaccinated w t = vaccinated v t"
      "\<And>t z. t \<noteq> s \<Longrightarrow> zoneLocks v z = Some t \<Longrightarrow> zoneLocks w z = Some t"
  shows "vinv c D w"
proof -
  have "student_ok D w t" if "t < numStudents v" for t
  proof (cases "t = s")
    case False
    from vinvD(4) [OF v that] show ?thesis by (rule student_ok_cong) (use False w others in auto)
  qed (use ok in simp)
  then show ?thesis using v sum_upd_waits [OF s, of "students v" x] unfolding vinv_def w by simp
qed

lemma inv_student_steps:
  assumes v: "vinv c D v"
  shows "arrive s v = Some w \<Longrightarrow> vinv c D w" "leave_queue s v = Some w \<Longrightarrow> vinv c D w" "unlock_zone s v = Some w \<Longrightarrow> vinv c D w"
    "see_vaccinated s v = Some w \<Longrightarrow> vinv c D w" "antibody_test s k v = Some w \<Longrightarrow> vinv c D w"
proof -
  note ok = vinvD(4) [OF v, of s] and nz = vinvD(2) [OF v]
  { assume a: "arrive s v = Some w"
    then have g: "s < numStudents v" "s_pc (students v s) = SArrive"
      and w: "w = upd_student s (\<lambda>x. x\<lparr>s_pc := SScan 0\<rparr>) (v\<lparr>waitingStudents := waitingStudents v + 1\<rparr>)"
      by (auto simp: arrive_def split: if_splits)
    have "student_ok D w s" using ok [OF g(1)] g(2) nz unfolding w by (simp add: student_ok_def place_ok_def nowhere_def vsimps)
    then show "vinv c D w" by (rule vinv_student [OF v g(1)]) (use g in \<open>auto simp: w vsimps waits_def\<close>) }
  { assume a: "leave_queue s v = Some w"
    then obtain b where g: "s < numStudents v" "s_pc (students v s) = SGot b"
      and w: "w = upd_student s (\<lambda>x. x\<lparr>s_pc := SUnlock b\<rparr>) (v\<lparr>waitingStudents := waitingStudents v - 1\<rparr>)"
      by (auto simp: leave_queue_def split: if_splits student_pc.splits)
    have "student_ok D w s" using ok [OF g(1)] g(2) unfolding w by (simp add: student_ok_def place_ok_def vsimps)
    then show "vinv c D w" by (rule vinv_student [OF v g(1)]) (use g in \<open>auto simp: w vsimps waits_def\<close>) }
  { assume a: "unlock_zone s v = Some w"
    then obtain b where g: "s < numStudents v" "s_pc (students v s) = SUnlock b"
      and w: "w = upd_student s (\<lambda>x. x\<lparr>s_pc := SWait\<rparr>) (v\<lparr>zoneLocks := (zoneLocks v)(b := None)\<rparr>)"
      by (auto simp: unlock_zone_def split: if_splits student_pc.splits)
    have o: "b < numZones v" "zoneLocks v b = Some s" "1 \<le> s_vaccinations (students v s)" "s_vaccinations (students v s) \<le> 3"
      using ok [OF g(1)] g(2) by (simp_all add: student_ok_def)
    have "place_ok w s" if "s \<in> D"
    proof -
      have u: "reg (zones v b) s" "\<forall>z < numZones v. reg (zones v z) s \<longrightarrow> z = b" "\<not> vaccinated v s"
        using ok [OF g(1)] g(2) that by (simp_all add: student_ok_def place_ok_def reg_def)
      have "\<exists>b < numZones v. reg (zones v b) s \<and> (\<forall>z < numZones v. reg (zones v z) s \<longrightarrow> z = b)" using o(1) u(1,2) by blast
      then show ?thesis using u(3) unfolding w by (simp add: place_ok_def vsimps)
    qed
    moreover have "s_pc (students w s) = SWait" "s_vaccinations (students w s) = s_vaccinations (students v s)" by (simp_all add: w vsimps)
    ultimately have "student_ok D w s" using o(3,4) by (simp add: student_ok_def)
    then show "vinv c D w" by (rule vinv_student [OF v g(1)]) (use g o in \<open>auto simp: w vsimps waits_def\<close>) }
  { assume a: "see_vaccinated s v = Some w"
    then have g: "s < numStudents v" "s_pc (students v s) = SWait" "vaccinated v s"
      and w: "w = upd_student s (\<lambda>x. x\<lparr>s_pc := STest\<rparr>) (v\<lparr>vaccinated := (vaccinated v)(s := False)\<rparr>)"
      by (auto simp: see_vaccinated_def split: if_splits)
    have "student_ok D w s" using ok [OF g(1)] g(2,3) unfolding w by (simp add: student_ok_def place_ok_def nowhere_def vsimps)
    then show "vinv c D w" by (rule vinv_student [OF v g(1)]) (use g in \<open>auto simp: w vsimps waits_def\<close>) }
  { assume a: "antibody_test s k v = Some w"
    then have g: "s < numStudents v" "s_pc (students v s) = STest" by (auto simp: antibody_test_def split: if_splits)
    obtain x where w: "w = upd_student s (\<lambda>_. x) v" "s_pc x \<in> {SCollege, SHome, SArrive}"
      "1 \<le> s_vaccinations x" "s_vaccinations x \<le> (if s_pc x = SHome then 4 else 3)"
      using a g ok [OF g(1)] that [of "(students v s)\<lparr>s_pc := SCollege\<rparr>"]
        that [of "(students v s)\<lparr>s_vaccinations := s_vaccinations (students v s) + 1,
          s_pc := (if s_vaccinations (students v s) + 1 > 3 then SHome else SArrive)\<rparr>"]
      by (auto simp: antibody_test_def student_ok_def upd_student_def split: if_splits)
    have "student_ok D w s" using ok [OF g(1)] g(2) w unfolding w by (auto simp: student_ok_def place_ok_def nowhere_def vsimps)
    then show "vinv c D w" by (rule vinv_student [OF v g(1)]) (use g w(2) in \<open>auto simp: w(1) vsimps waits_def\<close>) }
qed

lemma registered_upd_length: "length (registered n (d\<lparr>z_slots := k, z_students := (z_students d)(s := 1)\<rparr>)) \<le> Suc (length (registered n d))"
proof -
  have "registered n (d\<lparr>z_slots := k, z_students := (z_students d)(s := 1)\<rparr>) = filter (\<lambda>i. i = s \<or> z_students d i > 0) [0..<n]"
    by (auto simp: registered_def intro!: filter_cong)
  also have "length \<dots> = card {i. i < n \<and> (i = s \<or> z_students d i > 0)}" by (simp add: length_filter_conv_card) (rule arg_cong [of _ _ card], auto)
  also have "\<dots> \<le> card (insert s {i. i < n \<and> z_students d i > 0})" by (rule card_mono) auto
  also have "\<dots> \<le> Suc (card {i. i < n \<and> z_students d i > 0})" by (simp add: card_insert_if)
  also have "card {i. i < n \<and> z_students d i > 0} = length (registered n d)"
    by (simp add: registered_def length_filter_conv_card) (rule arg_cong [of _ _ card], auto)
  finally show ?thesis .
qed

text \<open>A step that registers, or gives up the registration of, some students at one zone.\<close>

lemma vinv_reg:
  assumes v: "vinv c D v" and z: "zone_ok (numStudents v) (c z) D d'" and s: "s < numStudents v"
    and w: "zones w = (zones v)(z := d')" "numZones w = numZones v" "numStudents w = numStudents v" "vaccineQueue w = vaccineQueue v"
      "students w = (students v)(s := x)" "waitingStudents w = waitingStudents v + waits (s_pc x) - waits (s_pc (students v s))"
    and ok: "student_ok D w s"
    and others: "\<And>t. t \<noteq> s \<Longrightarrow> t < numStudents v \<Longrightarrow> vaccinated w t = vaccinated v t"
      "\<And>t. t \<noteq> s \<Longrightarrow> t < numStudents v \<Longrightarrow> reg d' t = reg (zones v z) t"
      "\<And>t. t \<noteq> s \<Longrightarrow> t < numStudents v \<Longrightarrow> zoneLocks v z = Some t \<Longrightarrow> z_students (zones v z) t > 0 \<Longrightarrow> z_students d' t > 0"
      "\<And>t y. t \<noteq> s \<Longrightarrow> zoneLocks v y = Some t \<Longrightarrow> zoneLocks w y = Some t"
  shows "vinv c D w"
proof -
  have "student_ok D w t" if "t < numStudents v" for t
  proof (cases "t = s")
    case False
    from vinvD(4) [OF v that] show ?thesis by (rule student_ok_cong) (use False that w others in auto)
  qed (use ok in simp)
  then show ?thesis using v z sum_upd_waits [OF s, of "students v" x] unfolding vinv_def w by simp
qed

lemma open_slots_register:
  assumes "zone_ok n c D d" "z_slots d > 0"
  shows "z_pc d = ZRegister"
  using assms by (auto simp: zone_ok_def quiet_def split: zone_pc.splits)

lemma inv_try_zone:
  assumes v: "vinv c D v" and a: "try_zone s busy v = Some w"
  shows "vinv c D w"
proof -
  obtain b where g: "s < numStudents v" "s_pc (students v s) = SScan b" using a by (auto simp: try_zone_def split: student_pc.splits if_splits)
  have o: "b < numZones v" "s \<in> D \<Longrightarrow> nowhere v s \<and> \<not> vaccinated v s"
      "1 \<le> s_vaccinations (students v s)" "s_vaccinations (students v s) \<le> 3"
    using vinvD(4) [OF v g(1)] g(2) by (simp_all add: student_ok_def place_ok_def)
  show ?thesis
  proof (cases "zoneLocks v b = None \<and> \<not> busy \<and> z_slots (zones v b) > 0")
    case True
    let ?d = "(zones v b)\<lparr>z_slots := z_slots (zones v b) - 1, z_students := (z_students (zones v b))(s := 1)\<rparr>"
    have w: "w = upd_student s (\<lambda>x. x\<lparr>s_pc := SGot b\<rparr>) (upd_zone b (\<lambda>_. ?d) (v\<lparr>zoneLocks := (zoneLocks v)(b \<mapsto> s)\<rparr>))"
      using a g True by (simp add: try_zone_def upd_zone_def upd_student_def)
    have pc: "z_pc (zones v b) = ZRegister" using open_slots_register [OF vinvD(3) [OF v o(1)]] True by simp
    have z: "zone_ok (numStudents v) (c b) D ?d"
      using vinvD(3) [OF v o(1)] pc True registered_upd_length [of "numStudents v" "zones v b" s "z_slots (zones v b) - 1"]
      by (auto simp: zone_ok_def)
    have "student_ok D w s" using o unfolding w by (auto simp: student_ok_def place_ok_def nowhere_def vsimps)
    then show ?thesis
      by (intro vinv_reg [OF v z g(1), of w "(students v s)\<lparr>s_pc := SGot b\<rparr>"])
        (use g True pc in \<open>auto simp: w vsimps waits_def reg_unlisted\<close>)
  next
    case False
    have w: "w = upd_student s (\<lambda>x. x\<lparr>s_pc := SScan ((b + 1) mod numZones v)\<rparr>) v"
      using a g False by (auto simp: try_zone_def)
    have "student_ok D w s" using o vinvD(2) [OF v] unfolding w by (simp add: student_ok_def place_ok_def nowhere_def vsimps)
    then show ?thesis by (rule vinv_student [OF v g(1)]) (use g in \<open>auto simp: w vsimps waits_def\<close>)
  qed
qed

lemma inv_close:
  assumes v: "vinv c D v" and a: "close_registration z v = Some w"
  shows "vinv c D w"
proof -
  let ?n = "numStudents v" and ?d = "zones v z"
  have g: "z < numZones v" "z_pc ?d = ZRegister" "zoneLocks v z = None" using a by (auto simp: close_registration_def split: if_splits)
  let ?rs = "registered ?n ?d"
  have r: "0 \<le> z_slots ?d" "c z \<Longrightarrow> z_slots ?d + int (length ?rs) \<le> z_vaccines ?d" "0 < z_vaccines ?d"
    using vinvD(3) [OF v g(1)] g(2) by (auto simp: zone_ok_def)
  let ?d' = "?d\<lparr>z_students := (\<lambda>i. if i < ?n \<and> z_students ?d i > 0 then 0 else z_students ?d i), z_slots := 0,
    z_pc := (if ?rs = [] then ZOffer else if z_vaccines ?d \<ge> int (length ?rs) then ZVaccinate ?rs else ZAssertFailed ?rs)\<rparr>"
  have w: "w = upd_zone z (\<lambda>_. ?d') v" using a g by (auto simp: close_registration_def Let_def upd_zone_def split: if_splits)
  have z: "zone_ok ?n (c z) D ?d'" using r by (auto simp: zone_ok_def quiet_def registered_def)
  have rg: "reg ?d' s = reg ?d s" if "s < ?n" for s
    using that g(2) by (auto simp: reg_def registered_def filter_empty_conv not_less intro!: bexI [of _ s])
  have "student_ok D w s" if s: "s < ?n" for s
    using vinvD(4) [OF v s] by (rule student_ok_cong) (use rg [OF s] g in \<open>auto simp: w vsimps\<close>)
  moreover have "zone_ok ?n (c y) D (zones w y)" if "y < numZones v" for y
    using z vinvD(3) [OF v that] by (cases "y = z") (simp_all add: w vsimps)
  ultimately show ?thesis using v unfolding vinv_def by (simp add: w upd_zone_def)
qed

lemma inv_vaccinate:
  assumes v: "vinv c D v" and a: "vaccinate z v = Some w"
  shows "vinv c D w" "\<exists>r rs. z_pc (zones v z) = ZVaccinate (r # rs) \<and> r < numStudents v
    \<and> (r \<in> D \<longrightarrow> s_pc (students v r) = SWait \<and> \<not> vaccinated v r)"
proof -
  let ?n = "numStudents v" and ?d = "zones v z"
  obtain r rs where g: "z < numZones v" "z_pc ?d = ZVaccinate (r # rs)"
    using a by (auto simp: vaccinate_def split: zone_pc.splits list.splits if_splits)
  have q: "quiet ?n True D ?d" "distinct (r # rs)" "set (r # rs) \<subseteq> {..<?n}" "int (length (r # rs)) \<le> z_vaccines ?d"
    using vinvD(3) [OF v g(1)] g(2) by (simp_all add: zone_ok_def)
  have rn: "r < ?n" using q(3) by simp
  have rr: "reg ?d r" "z_students ?d r \<le> 0" using g(2) q(1) rn by (simp_all add: reg_def quiet_def)
  note ok = vinvD(4) [OF v rn]
  have pc: "s_pc (students v r) = SWait \<and> \<not> vaccinated v r" if "r \<in> D"
  proof -
    have "place_ok v r" using ok that by (simp add: student_ok_def)
    then show ?thesis using rr g(1) by (auto simp: place_ok_def nowhere_def split: student_pc.splits if_splits)
  qed
  then show "\<exists>r rs. z_pc (zones v z) = ZVaccinate (r # rs) \<and> r < numStudents v
    \<and> (r \<in> D \<longrightarrow> s_pc (students v r) = SWait \<and> \<not> vaccinated v r)"
    using g(2) rn by blast
  let ?d' = "?d\<lparr>z_vaccines := z_vaccines ?d - 1,
    z_pc := (if rs \<noteq> [] then ZVaccinate rs else if z_vaccines ?d - 1 = 0 then ZUsed else ZOffer)\<rparr>"
  have w: "w = upd_zone z (\<lambda>_. ?d') (v\<lparr>vaccinated := (vaccinated v)(r := True), vaccineGiven := (vaccineGiven v)(r := z_pSuccess ?d)\<rparr>)"
    using a g by (auto simp: vaccinate_def upd_zone_def)
  have z: "zone_ok ?n (c z) D ?d'" using q by (auto simp: zone_ok_def quiet_def)
  have "\<not> reg ?d' r" using q(2) rr(2) by (auto simp: reg_def)
  have "place_ok w r" if "r \<in> D"
  proof -
    have "place_ok v r" using ok that by (simp add: student_ok_def)
    then have "\<forall>y < numZones v. reg (zones v y) r \<longrightarrow> y = z" using pc [OF that] rr g(1) by (auto simp: place_ok_def)
    then have "nowhere w r" using \<open>\<not> reg ?d' r\<close> by (auto simp: nowhere_def w vsimps)
    then show ?thesis using pc [OF that] by (simp add: place_ok_def w vsimps)
  qed
  moreover have "students w = students v" "numZones w = numZones v" "zoneLocks w = zoneLocks v" by (simp_all add: w vsimps)
  ultimately have "student_ok D w r" using ok unfolding student_ok_def by (cases "s_pc (students v r)") simp_all
  moreover have "reg ?d' t = reg ?d t" if "t \<noteq> r" for t using that g(2) by (auto simp: reg_def)
  ultimately show "vinv c D w"
    by (intro vinv_reg [OF v z rn, of w "students v r"]) (use g in \<open>auto simp: w vsimps\<close>)
qed

lemma vstep_inv: "vinv c D v \<Longrightarrow> vstep e v = Some w \<Longrightarrow> vinv c D w"
  by (cases e) (auto intro: inv_company_steps inv_zone_steps inv_student_steps inv_try_zone inv_close inv_vaccinate(1))

lemma vrun_inv: "vinv c D v \<Longrightarrow> vrun es v = Some w \<Longrightarrow> vinv c D w"
  by (induction es arbitrary: v) (auto split: option.splits intro: vstep_inv)

lemma vstep_sizes: "vstep e v = Some w \<Longrightarrow> numZones w = numZones v \<and> numStudents w = numStudents v"
  by (cases e) (auto simp: addToVaccineQueue_def company_resume_def getFromVaccineQueue_def choose_slots_def post_slots_def
      close_registration_def vaccinate_def report_used_def arrive_def try_zone_def leave_queue_def unlock_zone_def
      see_vaccinated_def antibody_test_def Let_def vsimps
      split: if_splits zone_pc.splits list.splits student_pc.splits company_pc.splits)

lemma vrun_sizes: "vrun es v = Some w \<Longrightarrow> numZones w = numZones v \<and> numStudents w = numStudents v"
  by (induction es arbitrary: v) (auto split: option.splits dest!: vstep_sizes)

lemma fold_zero: "fold (\<lambda>j m. m(i := 0)) xs m = (if xs = [] then m else m(i := 0))"
  by (induction xs arbitrary: m) auto

definition fresh :: "nat \<Rightarrow> (nat \<Rightarrow> nat \<Rightarrow> int) \<Rightarrow> nat \<Rightarrow> bool" where
  "fresh ns memory z \<longleftrightarrow> (\<forall>s<ns. s \<noteq> z \<longrightarrow> memory z s \<le> 0)"

definition unmarked :: "nat \<Rightarrow> (nat \<Rightarrow> nat \<Rightarrow> int) \<Rightarrow> nat set" where
  "unmarked nz memory = {s. \<forall>z<nz. s \<noteq> z \<longrightarrow> memory z s \<le> 0}"

lemma main_inv:
  assumes "vaccine_main nc nz ns p memory = Threads v"
  shows "vinv (fresh ns memory) (unmarked nz memory) v" "numZones v = nz" "numStudents v = ns"
proof -
  have n: "0 < ns" "0 < nz" using assms(1) by (auto simp: vaccine_main_def split: if_splits)
  have st: "z_students (new_zone ns (memory z) z) s \<le> 0"
    if "z < nz" "s < ns" "fresh ns memory z \<or> s \<in> unmarked nz memory" for z s
    using n that by (auto simp: new_zone_def fold_zero fresh_def unmarked_def)
  have "zone_ok ns (fresh ns memory z) (unmarked nz memory) (new_zone ns (memory z) z)" if "z < nz" for z
    using st [OF that] by (simp add: zone_ok_def quiet_def new_zone_def)
  moreover have "\<not> reg (new_zone ns (memory z) z) s" if "z < nz" "s < ns" "s \<in> unmarked nz memory" for z s
    using st [OF that(1,2)] that(3) by (auto simp: reg_def new_zone_def not_less)
  ultimately show "vinv (fresh ns memory) (unmarked nz memory) v" using assms(1) n
    by (auto simp: vaccine_main_def vinv_def student_ok_def place_ok_def nowhere_def waits_def split: if_splits)
  show "numZones v = nz" "numStudents v = ns" using assms(1) by (auto simp: vaccine_main_def split: if_splits)
qed

section \<open>Properties\<close>


lemmas vstep_defs = addToVaccineQueue_def company_resume_def getFromVaccineQueue_def choose_slots_def post_slots_def
  close_registration_def vaccinate_def report_used_def arrive_def try_zone_def leave_queue_def unlock_zone_def
  see_vaccinated_def antibody_test_def

lemmas vdata_defs = upd_zone_def upd_company_def upd_student_def new_zone_def registered_def BATCH_MIN_def BATCH_MAX_def
  VACC_MIN_def VACC_MAX_def QUEUE_MAX_def ZONES_MAX_def COMPANY_MAX_def STUDENT_MAX_def

text \<open>One company, one zone and one student, up to the start of the vaccination.\<close>

definition example_events :: "event list" where
  "example_events = [AddBatches 0 [10, 10], Arrive 0, GetBatch 0, ChooseSlots 0, PostSlots 0, TryZone 0 False, LeaveQueue 0, UnlockZone 0, Close 0]"

lemma example_run:
  "\<exists>v w. vaccine_main 1 1 1 (\<lambda>_. 1) (\<lambda>_ _. 0) = Threads v \<and> vrun example_events v = Some w \<and>
     z_pc (zones w 0) = ZVaccinate [0] \<and> z_vaccines (zones w 0) = 10 \<and> s_pc (students w 0) = SWait \<and> \<not> vaccinated w 0"
  by (simp add: vaccine_main_def example_events_def vstep_defs vdata_defs Let_def)


text \<open>
  Students are never lost and never given too many doses: in every interleaving the counter
  of waiting students is the number of students that have arrived and not yet left the queue, a
  student that waits for its vaccination, and for which no uncleared record had a positive entry, is
  registered at exactly one zone, and no student goes
  through more than three rounds.
\<close>

theorem vaccination_students_invariant:
  assumes "vaccine_main nc nz ns p memory = Threads v" and "vrun es v = Some w" and "s < ns"
  shows "waitingStudents w = (\<Sum>t<ns. waits (s_pc (students w t))) \<and>
    (s_pc (students w s) = SWait \<and> \<not> vaccinated w s \<and> (\<forall>z<nz. s \<noteq> z \<longrightarrow> memory z s \<le> 0) \<longrightarrow> (\<exists>!z. z < nz \<and> reg (zones w z) s)) \<and>
    (s_pc (students w s) \<noteq> SHome \<longrightarrow> s_vaccinations (students w s) \<le> 3)"
proof -
  note m = main_inv [OF assms(1)]
  have w: "vinv (fresh ns memory) (unmarked nz memory) w" "numZones w = nz" "numStudents w = ns"
    using vrun_inv [OF m(1) assms(2)] vrun_sizes [OF assms(2)] m by simp_all
  have ok: "student_ok (unmarked nz memory) w s" using vinvD(4) [OF w(1), of s] w assms(3) by simp
  have "\<exists>!z. z < nz \<and> reg (zones w z) s"
    if "s_pc (students w s) = SWait" "\<not> vaccinated w s" "\<forall>z<nz. s \<noteq> z \<longrightarrow> memory z s \<le> 0"
  proof -
    have "place_ok w s" using ok that(3) by (simp add: student_ok_def unmarked_def)
    then have "\<exists>a < nz. reg (zones w a) s \<and> (\<forall>z < nz. reg (zones w z) s \<longrightarrow> z = a)" using that(1,2) w(2) by (simp add: place_ok_def)
    then show ?thesis by blast
  qed
  moreover have "s_pc (students w s) \<noteq> SHome \<longrightarrow> s_vaccinations (students w s) \<le> 3" using ok by (simp add: student_ok_def split: if_splits)
  ultimately show ?thesis using vinvD(5) [OF w(1)] w(3) by simp
qed

theorem vaccination_students_invariant_witness:
  "\<exists>v w. vaccine_main 1 1 1 (\<lambda>_. 1) (\<lambda>_ _. 0) = Threads v \<and> vrun example_events v = Some w \<and> (\<exists>!z. z < 1 \<and> reg (zones w z) 0)"
proof -
  obtain v w where r: "vaccine_main 1 1 1 (\<lambda>_. 1) (\<lambda>_ _. 0) = Threads v" "vrun example_events v = Some w"
    "s_pc (students w 0) = SWait \<and> \<not> vaccinated w 0" using example_run by blast
  have "\<exists>!z. z < 1 \<and> reg (zones w z) 0"
    using vaccination_students_invariant [of 1 1 1 "\<lambda>_. 1" "\<lambda>_ _. 0" v example_events w 0] r by auto
  with r show ?thesis by blast
qed

text \<open>
  The records are not cleared: when \<open>malloc\<close> returns memory with positive entries, a zone counts
  students that never registered and its assertion fails. Twelve students, one of which arrives,
  and the smallest batch are enough.
\<close>

theorem uncleared_zone_fails_assertion:
  "\<exists>v w. vaccine_main 1 1 12 (\<lambda>_. 1) (\<lambda>_ _. 1) = Threads v \<and>
     vrun [AddBatches 0 [10, 10], Arrive 0, GetBatch 0, ChooseSlots 0, PostSlots 0, Close 0] v = Some w \<and>
     z_pc (zones w 0) = ZAssertFailed [1..<12]"
  by (simp add: vaccine_main_def vstep_defs vdata_defs Let_def fold_zero upt_rec)

lemma used_mono: "vstep e v = Some w \<Longrightarrow> vaccineUsed v c \<le> vaccineUsed w c"
  by (cases e) (auto simp: vstep_defs Let_def vsimps
      split: if_splits zone_pc.splits list.splits student_pc.splits company_pc.splits)

lemma company_waits: "vstep e v = Some w \<Longrightarrow> c_pc (companies v c) = CWait b \<Longrightarrow> int b < vaccineUsed v c \<Longrightarrow> c_pc (companies w c) = CWait b"
  by (cases e) (auto simp: vstep_defs Let_def vsimps
      split: if_splits zone_pc.splits list.splits student_pc.splits company_pc.splits)

text \<open>
  A company can stop for good: the counter of its used batches is never reset, so once it has
  resumed after a number of batches and then prepares fewer of them, its waiting loop never ends
  again, whatever the other threads do.
\<close>

theorem company_waits_forever:
  assumes "company_resume c v = Some w" and "vaccineUsed w c = int b"
    and "addToVaccineQueue c counts w = Some x" and "length counts < b" and "vrun es x = Some y"
  shows "company_resume c y = None \<and> c_pc (companies y c) = CWait (length counts)"
proof -
  have x: "c_pc (companies x c) = CWait (length counts)" "int (length counts) < vaccineUsed x c"
    using assms(2-4) by (auto simp: addToVaccineQueue_def vsimps split: if_splits)
  have "c_pc (companies y c) = CWait (length counts) \<and> int (length counts) < vaccineUsed y c"
    using assms(5) x
  proof (induction es arbitrary: x)
    case (Cons e es)
    obtain u where u: "vstep e x = Some u" "vrun es u = Some y" using Cons.prems(1) by (auto split: option.splits)
    show ?case
      by (rule Cons.IH [OF u(2) company_waits [OF u(1) Cons.prems(2,3)]]) (use used_mono [OF u(1), of c] Cons.prems(3) in simp)
  qed simp
  then show ?thesis by (auto simp: company_resume_def)
qed

theorem company_waits_forever_witness:
  "\<exists>v w x. company_resume 0 v = Some w \<and> vaccineUsed w 0 = 3 \<and> addToVaccineQueue 0 [10, 10] w = Some x \<and>
     company_resume 0 x = None"
proof -
  obtain v0 where v0: "vaccine_main 1 1 1 (\<lambda>_. 1) (\<lambda>_ _. 0) = Threads v0" "numCompanies v0 = 1" by (simp add: vaccine_main_def vdata_defs)
  let ?v = "upd_company 0 (\<lambda>c. c\<lparr>c_pc := CWait 3\<rparr>) (v0\<lparr>vaccineUsed := (\<lambda>_. 3)\<rparr>)"
  obtain w where w: "company_resume 0 ?v = Some w" "vaccineUsed w 0 = int 3" "c_pc (companies w 0) = CProduce" "numCompanies w = 1"
    using v0 by (auto simp: company_resume_def vsimps)
  obtain x where x: "addToVaccineQueue 0 [10, 10] w = Some x"
    using w by (simp add: addToVaccineQueue_def BATCH_MIN_def BATCH_MAX_def VACC_MIN_def VACC_MAX_def)
  have "company_resume 0 x = None" using company_waits_forever [OF w(1,2) x, of "[]" x] by simp
  with w x show ?thesis by fastforce
qed

end
