(* ===== verification/Musicians.thy ===== *)
theory Musicians
  imports Prelude
begin

text \<open>
  The music festival, \<^verbatim>\<open>q3.c\<close> of the fourth assignment. Musicians arrive and wait for a stage of
  their kind, perform, are joined by singers, and collect t-shirts. Everything but the t-shirts is
  guarded by one lock; one step is a section from taking the lock, at its start or on return from
  a wait, to giving it up, at its end or in the next wait. The times and random numbers are
  parameters of the steps: a wait with a time limit ends by a signal or by the limit, at any time.
  The arrays have the sizes of the program; a thread that would read or write outside one of them goes
  to \<open>MFault\<close> and no further.
\<close>

section \<open>Data\<close>

definition QUEUE_SIZE :: nat where
  "QUEUE_SIZE = 500"

definition NAME_SIZE :: nat where
  "NAME_SIZE = 100"

datatype stage = ACOUSTIC | ELECTRIC | ACOUSTIC_ELECTRIC

record musicianData =
  iCode :: char
  name :: string
  singer :: bool
  stage_for :: stage

text \<open>
  Where a thread is: not arrived at its first check, waiting for a stage, on a stage without and
  with a singer, about to take and taking t-shirts (the names still to be served), the three ways
  to be finished, and an access outside an array.
\<close>

datatype musician_pc =
    MArrive | MWait
  | MPerform stage int | MExtended stage int string
  | MShirts "string list" | MCollecting "string list"
  | MImpatient | MJoined | MDone
  | MFault

record fest =
  numberMusician :: nat
  numAcoustic :: nat
  numElectric :: nat
  aStage :: int
  eStage :: int
  performanceNoSigner :: int
  singersQueue :: "nat \<Rightarrow> string"
  qReadPos :: nat
  qWritePos :: nat
  stageNoA :: "nat \<Rightarrow> int"
  stageNoE :: "nat \<Rightarrow> int"
  tShirtGuys :: int
  musicians :: "nat \<Rightarrow> musicianData"
  m_pc :: "nat \<Rightarrow> musician_pc"

definition goto :: "nat \<Rightarrow> musician_pc \<Rightarrow> fest \<Rightarrow> fest" where
  "goto m pc f = f\<lparr>m_pc := (m_pc f)(m := pc)\<rparr>"

section \<open>Stages\<close>

text \<open>\<open>None\<close> is a read behind the end of the array.\<close>

fun getStageNo_from :: "(nat \<Rightarrow> int) \<Rightarrow> nat \<Rightarrow> nat \<Rightarrow> (int \<times> (nat \<Rightarrow> int)) option" where
  "getStageNo_from stageA i 0 = Some (-1, stageA)"
| "getStageNo_from stageA i (Suc n) =
     (if QUEUE_SIZE \<le> i then None
      else if stageA i = 0 then Some (int i + 1, stageA(i := 1)) else getStageNo_from stageA (i + 1) n)"

definition getStageNo :: "(nat \<Rightarrow> int) \<Rightarrow> nat \<Rightarrow> (int \<times> (nat \<Rightarrow> int)) option" where
  "getStageNo stageA len = getStageNo_from stageA 0 len"

text \<open>
  The number is between 1 and the size of the array here; \<open>performance_end\<close> faults on any other, such as
  the -1 of a \<open>getStageNo\<close> that found no stage.
\<close>

definition removeStageNo :: "(nat \<Rightarrow> int) \<Rightarrow> int \<Rightarrow> nat \<Rightarrow> int" where
  "removeStageNo stageA no = stageA(nat (no - 1) := 0)"

text \<open>
  \<open>performanceHandler\<close> up to the wait in \<open>perform\<close>, and from there on. It is only called with one of
  the two definite kinds of stage.
\<close>

definition performance_start :: "nat \<Rightarrow> stage \<Rightarrow> fest \<Rightarrow> fest" where
  "performance_start m stage f =
     (if stage = ELECTRIC
      then case getStageNo (stageNoE f) (numElectric f) of None \<Rightarrow> goto m MFault f | Some (stageNo, arr) \<Rightarrow>
             goto m (MPerform stage stageNo)
               (f\<lparr>eStage := eStage f - 1, stageNoE := arr, performanceNoSigner := performanceNoSigner f + 1\<rparr>)
      else case getStageNo (stageNoA f) (numAcoustic f) of None \<Rightarrow> goto m MFault f | Some (stageNo, arr) \<Rightarrow>
             goto m (MPerform stage stageNo)
               (f\<lparr>aStage := aStage f - 1, stageNoA := arr, performanceNoSigner := performanceNoSigner f + 1\<rparr>))"

definition performance_end :: "nat \<Rightarrow> stage \<Rightarrow> int \<Rightarrow> string option \<Rightarrow> fest \<Rightarrow> fest" where
  "performance_end m stage stageNo joined f =
     (if stageNo < 1 \<or> int QUEUE_SIZE < stageNo then goto m MFault f else
      let f = (if stage = ELECTRIC
               then f\<lparr>stageNoE := removeStageNo (stageNoE f) stageNo, eStage := eStage f + 1\<rparr>
               else f\<lparr>stageNoA := removeStageNo (stageNoA f) stageNo, aStage := aStage f + 1\<rparr>);
          f = (if joined = None then f\<lparr>performanceNoSigner := performanceNoSigner f - 1\<rparr> else f)
      in goto m (MShirts (name (musicians f m) # (case joined of None \<Rightarrow> [] | Some n \<Rightarrow> [n]))) f)"

text \<open>\<open>perform\<close> when the wait ends before the time is over: whoever is next in the queue joins.\<close>

definition singer_joins :: "nat \<Rightarrow> fest \<Rightarrow> fest option" where
  "singer_joins m f =
     (case m_pc f m of
        MPerform stage no \<Rightarrow>
          if QUEUE_SIZE \<le> qReadPos f then Some (goto m MFault f)
          else Some (goto m (MExtended stage no (singersQueue f (qReadPos f)))
            (f\<lparr>qReadPos := qReadPos f + 1, performanceNoSigner := performanceNoSigner f - 1\<rparr>))
      | _ \<Rightarrow> None)"

definition performance_over :: "nat \<Rightarrow> fest \<Rightarrow> fest option" where
  "performance_over m f =
     (case m_pc f m of
        MPerform stage no \<Rightarrow> Some (performance_end m stage no None f)
      | MExtended stage no n \<Rightarrow> Some (performance_end m stage no (Some n) f)
      | _ \<Rightarrow> None)"

section \<open>Waiting for a stage\<close>

definition waitForStage_limit :: "nat \<Rightarrow> fest \<Rightarrow> fest option" where
  "waitForStage_limit m f = (if m_pc f m = MWait then Some (goto m MImpatient f) else None)"

definition performAcoustic :: "nat \<Rightarrow> fest \<Rightarrow> fest" where
  "performAcoustic m f = (if aStage f \<le> 0 then goto m MWait f else performance_start m ACOUSTIC f)"

definition performElectric :: "nat \<Rightarrow> fest \<Rightarrow> fest" where
  "performElectric m f = (if eStage f \<le> 0 then goto m MWait f else performance_start m ELECTRIC f)"

text \<open>\<open>goOnStage\<close>, and the same choice in \<open>performAnyStage\<close>; \<open>coin\<close> is the random number.\<close>

definition goOnStage :: "nat \<Rightarrow> int \<Rightarrow> fest \<Rightarrow> fest" where
  "goOnStage m coin f =
     (if eStage f > 0 \<and> aStage f > 0
      then performance_start m (if coin = 1 then ELECTRIC else ACOUSTIC) f
      else if eStage f > 0 then performance_start m ELECTRIC f
      else performance_start m ACOUSTIC f)"

definition performAnyStage :: "nat \<Rightarrow> int \<Rightarrow> fest \<Rightarrow> fest" where
  "performAnyStage m coin f = (if eStage f + aStage f \<le> 0 then goto m MWait f else goOnStage m coin f)"

definition joinAMusician :: "nat \<Rightarrow> fest \<Rightarrow> fest" where
  "joinAMusician m f =
     (if QUEUE_SIZE \<le> qWritePos f \<or> NAME_SIZE \<le> length (name (musicians f m)) then goto m MFault f
      else goto m MJoined (f\<lparr>singersQueue := (singersQueue f)(qWritePos f := name (musicians f m)), qWritePos := qWritePos f + 1\<rparr>))"

definition singersCase :: "nat \<Rightarrow> int \<Rightarrow> int \<Rightarrow> fest \<Rightarrow> fest" where
  "singersCase m coin1 coin2 f =
     (if eStage f + aStage f \<le> 0 \<and> performanceNoSigner f \<le> 0 then goto m MWait f
      else if (eStage f > 0 \<or> aStage f > 0) \<and> performanceNoSigner f > 0
      then (if coin1 = 1 then joinAMusician m f else goOnStage m coin2 f)
      else if performanceNoSigner f > 0 then joinAMusician m f
      else goOnStage m coin2 f)"

text \<open>\<open>musician\<close> at its first check, and at each check after a signal.\<close>

definition musician :: "nat \<Rightarrow> int \<Rightarrow> int \<Rightarrow> fest \<Rightarrow> fest option" where
  "musician m coin1 coin2 f =
     (if m_pc f m = MArrive \<or> m_pc f m = MWait
      then Some (case stage_for (musicians f m) of
          ACOUSTIC \<Rightarrow> performAcoustic m f
        | ELECTRIC \<Rightarrow> performElectric m f
        | ACOUSTIC_ELECTRIC \<Rightarrow>
            if singer (musicians f m) then singersCase m coin1 coin2 f else performAnyStage m coin2 f)
      else None)"

section \<open>T-shirts\<close>

text \<open>\<open>collectTShirt\<close>: \<open>sem_wait\<close>, and \<open>sem_post\<close>; a musician that was joined collects a second time.\<close>

definition collect_start :: "nat \<Rightarrow> fest \<Rightarrow> fest option" where
  "collect_start m f =
     (case m_pc f m of
        MShirts ns \<Rightarrow> if tShirtGuys f > 0 then Some (goto m (MCollecting ns) (f\<lparr>tShirtGuys := tShirtGuys f - 1\<rparr>)) else None
      | _ \<Rightarrow> None)"

definition collect_end :: "nat \<Rightarrow> fest \<Rightarrow> fest option" where
  "collect_end m f =
     (case m_pc f m of
        MCollecting ns \<Rightarrow>
          Some (goto m (if tl ns = [] then MDone else MShirts (tl ns)) (f\<lparr>tShirtGuys := tShirtGuys f + 1\<rparr>))
      | _ \<Rightarrow> None)"

section \<open>The program\<close>

definition stage_of_code :: "char \<Rightarrow> stage" where
  "stage_of_code c =
     (if c = CHR ''p'' \<or> c = CHR ''g'' \<or> c = CHR ''s'' then ACOUSTIC_ELECTRIC
      else if c = CHR ''v'' then ACOUSTIC else ELECTRIC)"

definition fest_main :: "(string \<times> char) list \<Rightarrow> nat \<Rightarrow> nat \<Rightarrow> int \<Rightarrow> fest" where
  "fest_main input nA nE cordCount =
     \<lparr>numberMusician = length input, numAcoustic = nA, numElectric = nE, aStage = int nA, eStage = int nE,
      performanceNoSigner = 0, singersQueue = (\<lambda>_. []), qReadPos = 0, qWritePos = 0,
      stageNoA = (\<lambda>_. 0), stageNoE = (\<lambda>_. 0), tShirtGuys = cordCount,
      musicians = (\<lambda>m. \<lparr>iCode = snd (input ! m), name = fst (input ! m), singer = snd (input ! m) = CHR ''s'',
        stage_for = stage_of_code (snd (input ! m))\<rparr>),
      m_pc = (\<lambda>_. MArrive)\<rparr>"

datatype fevent = Check nat int int | Limit nat | SingerJoins nat | Over nat | Collect nat | Collected nat

fun mover :: "fevent \<Rightarrow> nat" where
  "mover (Check m _ _) = m" | "mover (Limit m) = m" | "mover (SingerJoins m) = m" | "mover (Over m) = m"
| "mover (Collect m) = m" | "mover (Collected m) = m"

definition fstep :: "fevent \<Rightarrow> fest \<Rightarrow> fest option" where
  "fstep e f =
     (if mover e < numberMusician f
      then case e of Check m c1 c2 \<Rightarrow> musician m c1 c2 f
        | Limit m \<Rightarrow> waitForStage_limit m f
        | SingerJoins m \<Rightarrow> singer_joins m f
        | Over m \<Rightarrow> performance_over m f
        | Collect m \<Rightarrow> collect_start m f
        | Collected m \<Rightarrow> collect_end m f
      else None)"

fun frun :: "fevent list \<Rightarrow> fest \<Rightarrow> fest option" where
  "frun [] f = Some f"
| "frun (e # es) f = (case fstep e f of None \<Rightarrow> None | Some g \<Rightarrow> frun es g)"

section \<open>The invariant of one kind of stage\<close>

text \<open>
  \<open>on m\<close> is the number of the stage that musician \<open>m\<close> occupies. Occupied stages are marked, no two
  musicians occupy the same, and the counter of available stages counts both the unmarked stages
  and those that nobody occupies.
\<close>

definition stage_inv :: "nat \<Rightarrow> nat \<Rightarrow> int \<Rightarrow> (nat \<Rightarrow> int) \<Rightarrow> (nat \<Rightarrow> int option) \<Rightarrow> bool" where
  "stage_inv n num avail arr on \<longleftrightarrow>
     (\<forall>m<n. \<forall>no. on m = Some no \<longrightarrow> 1 \<le> no \<and> no \<le> int num \<and> arr (nat (no - 1)) \<noteq> 0)
   \<and> (\<forall>m<n. \<forall>k<n. \<forall>no. on m = Some no \<longrightarrow> on k = Some no \<longrightarrow> m = k)
   \<and> avail = int (card {i. i < num \<and> arr i = 0})
   \<and> avail = int num - (\<Sum>m<n. if on m = None then 0 else 1)"

lemma getStageNo_from_spec:
  assumes "\<exists>k. i \<le> k \<and> k < i + n \<and> arr k = 0" and "i + n \<le> QUEUE_SIZE"
  shows "\<exists>k. i \<le> k \<and> k < i + n \<and> arr k = 0 \<and> getStageNo_from arr i n = Some (int k + 1, arr(k := 1))"
  using assms
proof (induction arr i n rule: getStageNo_from.induct)
  case (2 arr i n)
  have i: "\<not> QUEUE_SIZE \<le> i" "i + 1 + n \<le> QUEUE_SIZE" using 2(3) by simp_all
  show ?case
  proof (cases "arr i = 0")
    case True
    then show ?thesis using i by (intro exI [of _ i]) (simp add: fun_upd_def)
  next
    case False
    obtain k where k: "i \<le> k" "k < i + Suc n" "arr k = 0" using 2(2) by blast
    then have "i \<noteq> k" using False by blast
    then have "\<exists>k. i + 1 \<le> k \<and> k < i + 1 + n \<and> arr k = 0" using k by (intro exI [of _ k]) simp
    from 2(1) [OF i(1) False this i(2)] obtain q where
      "i + 1 \<le> q" "q < i + 1 + n" "arr q = 0" "getStageNo_from arr (i + 1) n = Some (int q + 1, arr(q := 1))" by blast
    then show ?thesis using False i(1) by (intro exI [of _ q]) (simp add: fun_upd_def)
  qed
qed auto

lemma sum_on_upd:
  fixes on :: "nat \<Rightarrow> int option"
  assumes "m < n"
  shows "(\<Sum>k<n. if (on(m := x)) k = None then 0 else 1 :: int)
    = (\<Sum>k<n. if on k = None then 0 else 1) - (if on m = None then 0 else 1) + (if x = None then 0 else 1)"
proof -
  have "(\<Sum>k<n. if g k = None then 0 else 1 :: int) = (if g m = None then 0 else 1) + (\<Sum>k\<in>{..<n} - {m}. if g k = None then 0 else 1)"
    for g :: "nat \<Rightarrow> int option" using assms by (intro sum.remove) auto
  from this [of "on(m := x)"] this [of on] show ?thesis by simp
qed

lemma stage_inv_start:
  assumes i: "stage_inv n num avail arr on" and "avail > 0" "m < n" "on m = None" and "num \<le> QUEUE_SIZE"
  obtains no arr' where "getStageNo arr num = Some (no, arr')" "stage_inv n num (avail - 1) arr' (on(m := Some no))"
proof -
  let ?free = "{i. i < num \<and> arr i = 0}"
  have "?free \<noteq> {}" using i assms(2) by (auto simp: stage_inv_def card_gt_0_iff)
  then obtain k where k: "k < num" "arr k = 0" and g: "getStageNo arr num = Some (int k + 1, arr(k := 1))"
    using getStageNo_from_spec [of 0 num arr] assms(5) by (auto simp: getStageNo_def)
  define no arr' where "no = int k + 1" and "arr' = arr(k := 1)"
  note k = k no_def arr'_def
  have "{i. i < num \<and> arr' i = 0} = ?free - {k}" using k by auto
  moreover have "0 < card ?free" using k by (auto simp: card_gt_0_iff)
  ultimately have c: "int (card {i. i < num \<and> arr' i = 0}) = int (card ?free) - 1" using k(1,2) by (simp add: card_Diff_singleton)
  have fresh: "on j \<noteq> Some no" if "j < n" for j using i that k unfolding stage_inv_def by auto
  have "(on(m := Some no)) j = Some q \<Longrightarrow> 1 \<le> q \<and> q \<le> int num \<and> arr' (nat (q - 1)) \<noteq> 0" if "j < n" for j q
    using i k that unfolding stage_inv_def by (cases "j = m") auto
  moreover have "(on(m := Some no)) j = Some q \<Longrightarrow> (on(m := Some no)) l = Some q \<Longrightarrow> j = l" if "j < n" "l < n" for j l q
    using i fresh [of j] fresh [of l] that unfolding stage_inv_def by (cases "j = m"; cases "l = m") auto
  ultimately have "stage_inv n num (avail - 1) arr' (on(m := Some no))"
    using i c sum_on_upd [OF assms(3), of on "Some no"] assms(4) unfolding stage_inv_def by simp
  then show ?thesis using that g by (simp add: no_def arr'_def)
qed

lemma stage_inv_end:
  assumes i: "stage_inv n num avail arr on" and m: "m < n" "on m = Some no"
  shows "stage_inv n num (avail + 1) (removeStageNo arr no) (on(m := None))"
proof -
  have no: "1 \<le> no" "no \<le> int num" "arr (nat (no - 1)) \<noteq> 0" using i m unfolding stage_inv_def by auto
  let ?k = "nat (no - 1)"
  have "{j. j < num \<and> removeStageNo arr no j = 0} = insert ?k {j. j < num \<and> arr j = 0}" using no by (auto simp: removeStageNo_def)
  then have c: "int (card {j. j < num \<and> removeStageNo arr no j = 0}) = int (card {j. j < num \<and> arr j = 0}) + 1" using no(3) by simp
  have other: "on j \<noteq> Some no" if "j < n" "j \<noteq> m" for j using i m that unfolding stage_inv_def by blast
  have "on j = Some q \<Longrightarrow> removeStageNo arr no (nat (q - 1)) \<noteq> 0" if "j < n" "j \<noteq> m" for j q
  proof -
    assume q: "on j = Some q"
    then have "1 \<le> q" "arr (nat (q - 1)) \<noteq> 0" using i that(1) unfolding stage_inv_def by auto
    moreover have "q \<noteq> no" using other [OF that] q by auto
    ultimately show ?thesis using no by (auto simp: removeStageNo_def nat_eq_iff)
  qed
  then show ?thesis
    using i c m sum_on_upd [OF m(1), of on None] unfolding stage_inv_def by auto
qed

section \<open>The invariant of the program\<close>

definition on_stage :: "stage \<Rightarrow> musician_pc \<Rightarrow> int option" where
  "on_stage k pc = (case pc of
     MPerform st no \<Rightarrow> if st = k then Some no else None
   | MExtended st no _ \<Rightarrow> if st = k then Some no else None
   | _ \<Rightarrow> None)"

definition alone :: "musician_pc \<Rightarrow> int" where
  "alone pc = (case pc of MPerform _ _ \<Rightarrow> 1 | _ \<Rightarrow> 0)"

definition served :: "musician_pc \<Rightarrow> int" where
  "served pc = (case pc of MCollecting _ \<Rightarrow> 1 | _ \<Rightarrow> 0)"

text \<open>Joined performers have written their name into the queue; others may still read one from it.\<close>

definition wrote :: "musician_pc \<Rightarrow> int" where
  "wrote pc = (case pc of MJoined \<Rightarrow> 1 | _ \<Rightarrow> 0)"

definition may_read :: "musician_pc \<Rightarrow> int" where
  "may_read pc = (case pc of MArrive \<Rightarrow> 1 | MWait \<Rightarrow> 1 | MPerform _ _ \<Rightarrow> 1 | _ \<Rightarrow> 0)"

definition definite :: "musician_pc \<Rightarrow> bool" where
  "definite pc = (case pc of MPerform st _ \<Rightarrow> st \<noteq> ACOUSTIC_ELECTRIC | MExtended st _ _ \<Rightarrow> st \<noteq> ACOUSTIC_ELECTRIC | MFault \<Rightarrow> False | _ \<Rightarrow> True)"

definition fest_fits :: "fest \<Rightarrow> bool" where
  "fest_fits f \<longleftrightarrow> numberMusician f \<le> QUEUE_SIZE \<and> numAcoustic f \<le> QUEUE_SIZE \<and> numElectric f \<le> QUEUE_SIZE
   \<and> (\<forall>m<numberMusician f. length (name (musicians f m)) < NAME_SIZE)"

definition finv :: "int \<Rightarrow> fest \<Rightarrow> bool" where
  "finv cords f \<longleftrightarrow>
     stage_inv (numberMusician f) (numAcoustic f) (aStage f) (stageNoA f) (\<lambda>m. on_stage ACOUSTIC (m_pc f m))
   \<and> stage_inv (numberMusician f) (numElectric f) (eStage f) (stageNoE f) (\<lambda>m. on_stage ELECTRIC (m_pc f m))
   \<and> performanceNoSigner f = (\<Sum>m<numberMusician f. alone (m_pc f m))
   \<and> tShirtGuys f = cords - (\<Sum>m<numberMusician f. served (m_pc f m)) \<and> 0 \<le> tShirtGuys f
   \<and> (\<forall>m<numberMusician f. definite (m_pc f m))
   \<and> int (qWritePos f) = (\<Sum>m<numberMusician f. wrote (m_pc f m))
   \<and> int (qReadPos f) + (\<Sum>m<numberMusician f. may_read (m_pc f m)) \<le> int (numberMusician f)
   \<and> fest_fits f"

lemma sum_pc_upd:
  fixes c :: "musician_pc \<Rightarrow> int" and pc :: "nat \<Rightarrow> musician_pc"
  assumes "m < n"
  shows "(\<Sum>k<n. c ((pc(m := x)) k)) = (\<Sum>k<n. c (pc k)) - c (pc m) + c x"
proof -
  have "(\<Sum>k<n. c (g k)) = c (g m) + (\<Sum>k\<in>{..<n} - {m}. c (g k))" for g :: "nat \<Rightarrow> musician_pc"
    using assms by (intro sum.remove) auto
  from this [of "pc(m := x)"] this [of pc] show ?thesis by simp
qed

text \<open>A step of musician \<open>m\<close> that moves it to \<open>pc\<close> and changes the counters to match.\<close>

lemma finv_move:
  assumes i: "finv cords f" and m: "m < numberMusician f"
    and g: "m_pc g = (m_pc f)(m := pc)" "numberMusician g = numberMusician f" "numAcoustic g = numAcoustic f" "numElectric g = numElectric f"
    and a: "stage_inv (numberMusician f) (numAcoustic f) (aStage g) (stageNoA g) ((\<lambda>m. on_stage ACOUSTIC (m_pc f m))(m := on_stage ACOUSTIC pc))"
    and e: "stage_inv (numberMusician f) (numElectric f) (eStage g) (stageNoE g) ((\<lambda>m. on_stage ELECTRIC (m_pc f m))(m := on_stage ELECTRIC pc))"
    and c: "performanceNoSigner g = performanceNoSigner f - alone (m_pc f m) + alone pc"
      "tShirtGuys g = tShirtGuys f + served (m_pc f m) - served pc" "0 \<le> tShirtGuys g" "definite pc"
      "int (qWritePos g) = int (qWritePos f) - wrote (m_pc f m) + wrote pc"
      "int (qReadPos g) + may_read pc \<le> int (qReadPos f) + may_read (m_pc f m)" "musicians g = musicians f"
  shows "finv cords g"
proof -
  have on: "(\<lambda>k. on_stage st (((m_pc f)(m := pc)) k)) = (\<lambda>m. on_stage st (m_pc f m))(m := on_stage st pc)" for st by auto
  show ?thesis
    using i a e c sum_pc_upd [OF m, of alone "m_pc f" pc] sum_pc_upd [OF m, of served "m_pc f" pc]
      sum_pc_upd [OF m, of wrote "m_pc f" pc] sum_pc_upd [OF m, of may_read "m_pc f" pc]
    unfolding finv_def fest_fits_def g on by auto
qed

lemma finv_stay:
  assumes "finv cords f" "m < numberMusician f"
    and "on_stage ACOUSTIC pc = on_stage ACOUSTIC (m_pc f m)" "on_stage ELECTRIC pc = on_stage ELECTRIC (m_pc f m)"
    and "m_pc g = (m_pc f)(m := pc)" "numberMusician g = numberMusician f" "numAcoustic g = numAcoustic f" "numElectric g = numElectric f"
      "aStage g = aStage f" "eStage g = eStage f" "stageNoA g = stageNoA f" "stageNoE g = stageNoE f"
      "performanceNoSigner g = performanceNoSigner f - alone (m_pc f m) + alone pc"
      "tShirtGuys g = tShirtGuys f + served (m_pc f m) - served pc" "0 \<le> tShirtGuys g" "definite pc"
      "int (qWritePos g) = int (qWritePos f) - wrote (m_pc f m) + wrote pc"
      "int (qReadPos g) + may_read pc \<le> int (qReadPos f) + may_read (m_pc f m)" "musicians g = musicians f"
  shows "finv cords g"
proof -
  have "(\<lambda>m. on_stage st (m_pc f m))(m := on_stage st pc) = (\<lambda>m. on_stage st (m_pc f m))"
    if "on_stage st pc = on_stage st (m_pc f m)" for st using that by auto
  with assms show ?thesis by (intro finv_move [OF assms(1,2,5-8)]) (auto simp: finv_def)
qed

lemmas pc_defs = on_stage_def alone_def served_def definite_def wrote_def may_read_def

text \<open>Reads and writes of the queue stay inside it.\<close>

lemma sum_below:
  fixes c :: "musician_pc \<Rightarrow> int" and pc :: "nat \<Rightarrow> musician_pc"
  assumes "m < n" and "c (pc m) = 0" and "\<And>p. c p \<le> 1"
  shows "(\<Sum>k<n. c (pc k)) < int n"
proof -
  have "(\<Sum>k<n. c (pc k)) = c (pc m) + (\<Sum>k\<in>{..<n} - {m}. c (pc k))" using assms(1) by (intro sum.remove) auto
  moreover have "(\<Sum>k\<in>{..<n} - {m}. c (pc k)) \<le> (\<Sum>k\<in>{..<n} - {m}. 1)" by (rule sum_mono) (rule assms(3))
  moreover have "(\<Sum>k\<in>{..<n} - {m}. 1) < int n" using assms(1) by simp
  ultimately show ?thesis using assms(2) by linarith
qed

lemma sum_above:
  fixes c :: "musician_pc \<Rightarrow> int" and pc :: "nat \<Rightarrow> musician_pc"
  assumes "m < n" and "c (pc m) = 1" and "\<And>p. 0 \<le> c p"
  shows "1 \<le> (\<Sum>k<n. c (pc k))"
proof -
  have "c (pc m) \<le> (\<Sum>k<n. c (pc k))" using assms by (intro member_le_sum) auto
  then show ?thesis using assms(2) by simp
qed

lemma wrote_le: "wrote p \<le> 1"
  by (simp add: wrote_def split: musician_pc.split)

lemma may_read_ge: "0 \<le> may_read p"
  by (simp add: may_read_def split: musician_pc.split)

lemma write_fits:
  assumes "finv cords f" and "m < numberMusician f" and "wrote (m_pc f m) = 0"
  shows "qWritePos f < QUEUE_SIZE" and "length (name (musicians f m)) < NAME_SIZE"
  using assms sum_below [of m "numberMusician f" wrote "m_pc f", OF _ _ wrote_le]
  by (auto simp: finv_def fest_fits_def)

lemma read_fits:
  assumes "finv cords f" and "m < numberMusician f" and "may_read (m_pc f m) = 1"
  shows "qReadPos f < QUEUE_SIZE"
  using assms sum_above [of m "numberMusician f" may_read "m_pc f", OF _ _ may_read_ge]
  by (auto simp: finv_def fest_fits_def)

lemma start_inv:
  assumes i: "finv cords f" and m: "m < numberMusician f" and pc: "m_pc f m = MArrive \<or> m_pc f m = MWait"
    and st: "st = ELECTRIC \<and> 0 < eStage f \<or> st = ACOUSTIC \<and> 0 < aStage f"
  shows "finv cords (performance_start m st f)"
proof -
  have none: "on_stage k (m_pc f m) = None" "alone (m_pc f m) = 0" "served (m_pc f m) = 0"
      "wrote (m_pc f m) = 0" "may_read (m_pc f m) = 1" for k using pc by (auto simp: pc_defs)
  have noop: "(\<lambda>j. on_stage k (m_pc f j))(m := None) = (\<lambda>j. on_stage k (m_pc f j))" for k using none(1) by auto
  from st show ?thesis
  proof
    assume a: "st = ELECTRIC \<and> 0 < eStage f"
    have "stage_inv (numberMusician f) (numElectric f) (eStage f) (stageNoE f) (\<lambda>m. on_stage ELECTRIC (m_pc f m))"
      "numElectric f \<le> QUEUE_SIZE" "0 < eStage f"
      using i a by (auto simp: finv_def fest_fits_def)
    then obtain no arr where g: "getStageNo (stageNoE f) (numElectric f) = Some (no, arr)"
      and st': "stage_inv (numberMusician f) (numElectric f) (eStage f - 1) arr ((\<lambda>m. on_stage ELECTRIC (m_pc f m))(m := Some no))"
      using stage_inv_start m none by metis
    from st' show ?thesis using i none noop a g
      by (intro finv_move [OF i m, where pc = "MPerform ELECTRIC no"]) (auto simp: performance_start_def goto_def pc_defs finv_def)
  next
    assume a: "st = ACOUSTIC \<and> 0 < aStage f"
    have "stage_inv (numberMusician f) (numAcoustic f) (aStage f) (stageNoA f) (\<lambda>m. on_stage ACOUSTIC (m_pc f m))"
      "numAcoustic f \<le> QUEUE_SIZE" "0 < aStage f"
      using i a by (auto simp: finv_def fest_fits_def)
    then obtain no arr where g: "getStageNo (stageNoA f) (numAcoustic f) = Some (no, arr)"
      and st': "stage_inv (numberMusician f) (numAcoustic f) (aStage f - 1) arr ((\<lambda>m. on_stage ACOUSTIC (m_pc f m))(m := Some no))"
      using stage_inv_start m none by metis
    from st' show ?thesis using i none noop a g
      by (intro finv_move [OF i m, where pc = "MPerform ACOUSTIC no"]) (auto simp: performance_start_def goto_def pc_defs finv_def)
  qed
qed

lemma end_inv:
  assumes i: "finv cords f" and m: "m < numberMusician f"
    and pc: "m_pc f m = MPerform st no \<and> joined = None \<or> m_pc f m = MExtended st no n \<and> joined = Some n"
  shows "finv cords (performance_end m st no joined f)"
proof -
  let ?pc = "MShirts (name (musicians f m) # (case joined of None \<Rightarrow> [] | Some n \<Rightarrow> [n]))"
  have st: "st = ACOUSTIC \<or> st = ELECTRIC" using i m pc by (cases st) (auto simp: finv_def definite_def)
  have on: "on_stage st (m_pc f m) = Some no" "\<And>k. k \<noteq> st \<Longrightarrow> on_stage k (m_pc f m) = None" using pc by (auto simp: on_stage_def)
  have noop: "k \<noteq> st \<Longrightarrow> (\<lambda>j. on_stage k (m_pc f j))(m := None) = (\<lambda>j. on_stage k (m_pc f j))" for k using on(2) by auto
  have c: "alone (m_pc f m) = (if joined = None then 1 else 0)" "served (m_pc f m) = 0"
      "wrote (m_pc f m) = 0" "0 \<le> may_read (m_pc f m)" using pc by (auto simp: pc_defs)
  have s: "stage_inv (numberMusician f) (if st = ACOUSTIC then numAcoustic f else numElectric f)
      (if st = ACOUSTIC then aStage f else eStage f) (if st = ACOUSTIC then stageNoA f else stageNoE f)
      (\<lambda>m. on_stage st (m_pc f m))"
    using i st unfolding finv_def by fastforce
  have "1 \<le> no" "no \<le> int (if st = ACOUSTIC then numAcoustic f else numElectric f)"
    using s m on(1) unfolding stage_inv_def by blast+
  moreover have "numAcoustic f \<le> QUEUE_SIZE" "numElectric f \<le> QUEUE_SIZE" using i by (auto simp: finv_def fest_fits_def)
  ultimately have no: "\<not> (no < 1 \<or> int QUEUE_SIZE < no)" by (auto split: if_splits)
  note pe = performance_end_def [of m st no joined f, unfolded if_not_P [OF no]]
  from st show ?thesis
  proof
    assume a: "st = ACOUSTIC"
    have "stage_inv (numberMusician f) (numAcoustic f) (aStage f + 1) (removeStageNo (stageNoA f) no) ((\<lambda>m. on_stage ACOUSTIC (m_pc f m))(m := None))"
      using i m on(1) unfolding a by (intro stage_inv_end) (auto simp: finv_def)
    then show ?thesis unfolding pe using i c noop [of ELECTRIC] a
      by (intro finv_move [OF i m, where pc = ?pc]) (auto simp: Let_def goto_def pc_defs finv_def)
  next
    assume e: "st = ELECTRIC"
    have "stage_inv (numberMusician f) (numElectric f) (eStage f + 1) (removeStageNo (stageNoE f) no) ((\<lambda>m. on_stage ELECTRIC (m_pc f m))(m := None))"
      using i m on(1) unfolding e by (intro stage_inv_end) (auto simp: finv_def)
    then show ?thesis unfolding pe using i c noop [of ACOUSTIC] e
      by (intro finv_move [OF i m, where pc = ?pc]) (auto simp: Let_def goto_def pc_defs finv_def)
  qed
qed

lemma stages_nonneg: "finv cords f \<Longrightarrow> 0 \<le> aStage f \<and> 0 \<le> eStage f"
  by (simp add: finv_def stage_inv_def)

lemma musician_inv:
  assumes i: "finv cords f" and m: "m < numberMusician f" and s: "musician m c1 c2 f = Some g"
  shows "finv cords g"
proof -
  have pc: "m_pc f m = MArrive \<or> m_pc f m = MWait" using s by (auto simp: musician_def split: if_splits)
  have zero: "on_stage k (m_pc f m) = None" "alone (m_pc f m) = 0" "served (m_pc f m) = 0"
      "wrote (m_pc f m) = 0" "may_read (m_pc f m) = 1" for k using pc by (auto simp: pc_defs)
  note fits = write_fits [OF i m zero(4)]
  have wait: "finv cords (goto m MWait f)"
    using i zero by (intro finv_stay [OF i m, where pc = MWait]) (auto simp: goto_def pc_defs finv_def)
  have join: "finv cords (joinAMusician m f)"
    using i zero fits by (intro finv_stay [OF i m, where pc = MJoined]) (auto simp: joinAMusician_def goto_def pc_defs finv_def)
  note start = start_inv [OF i m pc]
  have go: "0 < eStage f + aStage f \<Longrightarrow> finv cords (goOnStage m c2 f)"
    using stages_nonneg [OF i] by (auto simp: goOnStage_def intro!: start)
  show ?thesis
    using s pc wait join go start stages_nonneg [OF i]
    by (auto simp: musician_def performAcoustic_def performElectric_def performAnyStage_def singersCase_def split: stage.splits if_splits)
qed

lemma fstep_inv:
  assumes i: "finv cords f" and s: "fstep e f = Some g"
  shows "finv cords g"
proof (cases e)
  case (Check m c1 c2)
  then show ?thesis using musician_inv [OF i] s by (auto simp: fstep_def split: if_splits)
next
  case (Limit m)
  then have m: "m < numberMusician f" "m_pc f m = MWait" "g = goto m MImpatient f"
    using s by (auto simp: fstep_def waitForStage_limit_def split: if_splits)
  then show ?thesis using i by (intro finv_stay [OF i m(1), where pc = MImpatient]) (auto simp: goto_def pc_defs finv_def)
next
  case (SingerJoins m)
  then obtain st no where m: "m < numberMusician f" "m_pc f m = MPerform st no"
    and g: "g = (if QUEUE_SIZE \<le> qReadPos f then goto m MFault f
      else goto m (MExtended st no (singersQueue f (qReadPos f))) (f\<lparr>qReadPos := qReadPos f + 1, performanceNoSigner := performanceNoSigner f - 1\<rparr>))"
    using s by (auto simp: fstep_def singer_joins_def split: if_splits musician_pc.splits)
  have "qReadPos f < QUEUE_SIZE" using read_fits [OF i m(1)] m(2) by (simp add: may_read_def)
  then have g: "g = goto m (MExtended st no (singersQueue f (qReadPos f))) (f\<lparr>qReadPos := qReadPos f + 1, performanceNoSigner := performanceNoSigner f - 1\<rparr>)"
    using g by simp
  have "definite (MPerform st no)" using i m by (auto simp: finv_def)
  then show ?thesis using i m unfolding g
    by (intro finv_stay [OF i m(1), where pc = "MExtended st no (singersQueue f (qReadPos f))"]) (auto simp: goto_def pc_defs finv_def)
next
  case (Over m)
  then have m: "m < numberMusician f" "performance_over m f = Some g" using s by (auto simp: fstep_def split: if_splits)
  then show ?thesis using end_inv [OF i m(1)] by (auto simp: performance_over_def split: musician_pc.splits)
next
  case (Collect m)
  then obtain ns where m: "m < numberMusician f" "m_pc f m = MShirts ns" "0 < tShirtGuys f"
    and g: "g = goto m (MCollecting ns) (f\<lparr>tShirtGuys := tShirtGuys f - 1\<rparr>)"
    using s by (auto simp: fstep_def collect_start_def split: if_splits musician_pc.splits)
  then show ?thesis using i by (intro finv_stay [OF i m(1), where pc = "MCollecting ns"]) (auto simp: goto_def pc_defs)
next
  case (Collected m)
  then obtain ns where m: "m < numberMusician f" "m_pc f m = MCollecting ns"
    and g: "g = goto m (if tl ns = [] then MDone else MShirts (tl ns)) (f\<lparr>tShirtGuys := tShirtGuys f + 1\<rparr>)"
    using s by (auto simp: fstep_def collect_end_def split: if_splits musician_pc.splits)
  then show ?thesis using i
    by (intro finv_stay [OF i m(1), where pc = "if tl ns = [] then MDone else MShirts (tl ns)"]) (auto simp: goto_def pc_defs finv_def)
qed

lemma frun_inv: "finv cords f \<Longrightarrow> frun es f = Some g \<Longrightarrow> finv cords g"
  by (induction es arbitrary: f) (auto split: option.splits intro: fstep_inv)

definition input_fits :: "(string \<times> char) list \<Rightarrow> nat \<Rightarrow> nat \<Rightarrow> bool" where
  "input_fits input nA nE \<longleftrightarrow> length input \<le> QUEUE_SIZE \<and> nA \<le> QUEUE_SIZE \<and> nE \<le> QUEUE_SIZE
   \<and> list_all (\<lambda>x. length (fst x) < NAME_SIZE) input"

lemma main_finv: "0 \<le> cords \<Longrightarrow> input_fits input nA nE \<Longrightarrow> finv cords (fest_main input nA nE cords)"
  by (auto simp: finv_def fest_fits_def input_fits_def list_all_length fest_main_def stage_inv_def pc_defs)

lemma start_sizes [simp]:
  "numberMusician (performance_start m st f) = numberMusician f" "numAcoustic (performance_start m st f) = numAcoustic f"
  "numElectric (performance_start m st f) = numElectric f"
  by (simp_all add: performance_start_def goto_def split: prod.splits option.splits)

lemma fstep_sizes: "fstep e f = Some g \<Longrightarrow> numberMusician g = numberMusician f \<and> numAcoustic g = numAcoustic f \<and> numElectric g = numElectric f"
  by (cases e) (auto simp: fstep_def musician_def performAcoustic_def performElectric_def performAnyStage_def singersCase_def
      goOnStage_def joinAMusician_def waitForStage_limit_def singer_joins_def performance_over_def performance_end_def Let_def
      collect_start_def collect_end_def goto_def
      split: if_splits musician_pc.splits stage.splits)

lemma frun_sizes: "frun es f = Some g \<Longrightarrow> numberMusician g = numberMusician f \<and> numAcoustic g = numAcoustic f \<and> numElectric g = numElectric f"
  by (induction es arbitrary: f) (auto split: option.splits dest!: fstep_sizes)

section \<open>Properties\<close>

text \<open>
  C6. Stages are exclusive and none is lost. Let there be at most 500 musicians, 500 stages of each kind
  and names of fewer than 100 characters, the sizes of the program's arrays. Then in every interleaving of the musicians' threads a
  performing musician is on a stage of its kind with a number from 1 to the number of such stages,
  no two musicians are on the same stage, no thread accesses anything outside an array, the number of available stages of each kind is the number
  of stages that nobody performs on, and the number of performances without a singer and the number
  of people that hand out t-shirts are counted correctly.
\<close>

theorem stages_exclusive:
  assumes "0 \<le> cords" and "input_fits input nA nE" and "frun es (fest_main input nA nE cords) = Some f" 
    and "k = ACOUSTIC \<or> k = ELECTRIC" and "m < length input"
  shows "m_pc f m \<noteq> MFault \<and> (\<forall>no. on_stage k (m_pc f m) = Some no \<longrightarrow>
      1 \<le> no \<and> no \<le> int (if k = ACOUSTIC then nA else nE) \<and>
      (\<forall>j < length input. on_stage k (m_pc f j) = Some no \<longrightarrow> j = m)) \<and>
    (if k = ACOUSTIC then aStage f else eStage f)
      = int (if k = ACOUSTIC then nA else nE) - (\<Sum>j<length input. if on_stage k (m_pc f j) = None then 0 else 1) \<and>
    performanceNoSigner f = (\<Sum>j<length input. alone (m_pc f j)) \<and>
    tShirtGuys f = cords - (\<Sum>j<length input. served (m_pc f j)) \<and> 0 \<le> tShirtGuys f"
proof -
  have n: "numberMusician f = length input" "numAcoustic f = nA" "numElectric f = nE"
    using frun_sizes [OF assms(3)] by (simp_all add: fest_main_def)
  have i: "finv cords f" by (rule frun_inv [OF main_finv [OF assms(1,2)] assms(3)])
  have s: "stage_inv (length input) (if k = ACOUSTIC then nA else nE) (if k = ACOUSTIC then aStage f else eStage f)
      (if k = ACOUSTIC then stageNoA f else stageNoE f) (\<lambda>m. on_stage k (m_pc f m))"
    using i n assms(4) by (auto simp: finv_def)
  then have "\<forall>no. on_stage k (m_pc f m) = Some no \<longrightarrow> 1 \<le> no \<and> no \<le> int (if k = ACOUSTIC then nA else nE) \<and>
      (\<forall>j < length input. on_stage k (m_pc f j) = Some no \<longrightarrow> j = m)"
    using assms(5) unfolding stage_inv_def by blast
  moreover have "m_pc f m \<noteq> MFault" using i n assms(5) by (auto simp: finv_def definite_def)
  ultimately show ?thesis using s i n unfolding stage_inv_def finv_def by simp
qed

text \<open>One acoustic stage, a violinist and two singers.\<close>

definition trio :: "(string \<times> char) list" where
  "trio = [(''Vi'', CHR ''v''), (''Ann'', CHR ''s''), (''Bob'', CHR ''s'')]"

definition trio_events :: "fevent list" where
  "trio_events = [Check 0 1 1, Check 1 1 1, Check 2 1 1, SingerJoins 0, Over 0, Collect 0, Collected 0, Collect 0, Collected 0]"

lemmas fest_defs = QUEUE_SIZE_def NAME_SIZE_def fest_main_def trio_def fstep_def musician_def stage_of_code_def performAcoustic_def performance_start_def
  getStageNo_def goto_def singersCase_def joinAMusician_def singer_joins_def performance_over_def performance_end_def
  removeStageNo_def collect_start_def collect_end_def Let_def

theorem stages_exclusive_witness:
  "\<exists>f. frun [Check 0 1 1] (fest_main trio 1 0 1) = Some f \<and> on_stage ACOUSTIC (m_pc f 0) = Some 1 \<and> aStage f = 0 \<and>
    (\<forall>j < length trio. on_stage ACOUSTIC (m_pc f j) = Some 1 \<longrightarrow> j = 0)"
proof -
  obtain f where f: "frun [Check 0 1 1] (fest_main trio 1 0 1) = Some f" "on_stage ACOUSTIC (m_pc f 0) = Some 1" "aStage f = 0"
    by (simp add: fest_defs on_stage_def)
  have "\<forall>j < length trio. on_stage ACOUSTIC (m_pc f j) = Some 1 \<longrightarrow> j = 0"
    using stages_exclusive [OF _ _ f(1), of ACOUSTIC 0] f(2)
    by (auto simp: trio_def input_fits_def QUEUE_SIZE_def NAME_SIZE_def)
  with f show ?thesis by blast
qed

text \<open>
  A singer can be lost: a performance that a singer is about to join still counts as one without
  a singer until the musician has woken up, so a second singer joins it too. In the end every thread
  has finished, the second singer's name is still in the queue, and it has neither performed nor got
  a t-shirt.
\<close>

theorem singer_can_be_lost:
  "\<exists>f. frun trio_events (fest_main trio 1 0 1) = Some f \<and>
     m_pc f 0 = MDone \<and> m_pc f 1 = MJoined \<and> m_pc f 2 = MJoined \<and>
     qReadPos f = 1 \<and> qWritePos f = 2 \<and> singersQueue f 1 = ''Bob'' \<and> performanceNoSigner f = 0"
  by (simp add: trio_events_def fest_defs)

end
