(* ===== verification/FileTransfer.thy ===== *)
theory FileTransfer
  imports ULib
begin

unbundle bit_operations_syntax

text \<open>
  The file server and its client (assignment 6), \<^verbatim>\<open>header.c\<close>, \<^verbatim>\<open>client.c\<close> and \<^verbatim>\<open>server.c\<close>, as two programs
  that run at the same time and talk over a connection. A program is a tree of system calls: a call holds what
  the program does next for each result of it, so a loop over calls is a corecursive definition, and \<open>Next\<close>
  is the end of the body of the main loop of the server. A step of the pair is one call of one of the two, in any
  order; a read returns any part of what has arrived. \<open>ends step P s\<close>: whatever the order of the steps from
  \<open>s\<close>, a state with \<open>P\<close> comes, and no state before it is stuck.
\<close>

section \<open>System calls\<close>

type_synonym bytes = "uchar list"
type_synonym disk = "bytes \<Rightarrow> bytes option"

text \<open>
  What \<^verbatim>\<open>write\<close> to the connection returns: a count, a negative number with an \<^verbatim>\<open>errno\<close> that asks to try again
  (\<^verbatim>\<open>EAGAIN\<close>, \<^verbatim>\<open>EWOULDBLOCK\<close>, \<^verbatim>\<open>EINTR\<close>), or another error.
\<close>

datatype wres = Wrote (wrote: nat) | Retry | Failed

codatatype prog =
    Halt
  | Abort
  | Next
  | Wr bytes "wres \<Rightarrow> prog"
  | Rd nat "bytes option \<Rightarrow> prog"
  | Malloc "bytes \<Rightarrow> prog"
  | FRd nat bytes "bytes option \<Rightarrow> prog"
  | OpenW bytes "bool \<Rightarrow> prog"
  | Put bytes nat bytes "int \<Rightarrow> prog"

section \<open>Messages\<close>

abbreviation FILENAME_MAX :: nat where "FILENAME_MAX \<equiv> 4096"
abbreviation CHUNK :: nat where "CHUNK \<equiv> 100000"

definition sendAck :: "prog \<Rightarrow> prog" where
  "sendAck k = Wr [1] (\<lambda>_. k)"

text \<open>The result of \<open>getAck\<close> is the byte, or \<open>None\<close>: nothing was read and the variable is not set.\<close>

definition getAck :: "(int option \<Rightarrow> prog) \<Rightarrow> prog" where
  "getAck k = Rd 1 (\<lambda>r. k (case r of Some (b # _) \<Rightarrow> Some (sint b) | _ \<Rightarrow> None))"

text \<open>The buffer has the bytes read in front of what the block of \<open>malloc\<close> held.\<close>

definition getString :: "(bytes option \<Rightarrow> prog) \<Rightarrow> prog" where
  "getString k = Malloc (\<lambda>buff. Rd FILENAME_MAX (\<lambda>r. case r of
       None \<Rightarrow> k None
     | Some bs \<Rightarrow> if bs = [] then k None else sendAck (k (Some (bs @ drop (length bs) buff)))))"

definition c_string :: "bytes \<Rightarrow> bytes" where
  "c_string = takeWhile (\<lambda>b. b \<noteq> 0)"

definition is_blank :: "uchar \<Rightarrow> bool" where
  "is_blank b \<longleftrightarrow> b = 32 \<or> b = 9 \<or> b = 10"

definition is_space :: "uchar \<Rightarrow> bool" where
  "is_space b \<longleftrightarrow> b = 32 \<or> 9 \<le> b \<and> b \<le> 13"

definition is_digit :: "uchar \<Rightarrow> bool" where
  "is_digit b \<longleftrightarrow> 48 \<le> b \<and> b \<le> 57"

definition number :: "bytes \<Rightarrow> nat" where
  "number ds = foldl (\<lambda>n b. n * 10 + (unat b - 48)) 0 ds"

definition strtoll :: "bytes \<Rightarrow> int" where
  "strtoll s = (case dropWhile is_space s of
       [] \<Rightarrow> 0
     | c # t \<Rightarrow> if c = 45 then max (- (2 ^ 63)) (- int (number (takeWhile is_digit t)))
         else min (2 ^ 63 - 1) (int (number (takeWhile is_digit (if c = 43 then t else c # t)))))"

definition lld :: "int \<Rightarrow> bytes" where
  "lld n = (if n < 0 then 45 # dec (nat (- n)) else dec (nat n))"

definition getInt :: "(int \<Rightarrow> prog) \<Rightarrow> prog" where
  "getInt k = getString (\<lambda>r. k (case r of None \<Rightarrow> -1 | Some buff \<Rightarrow> strtoll (c_string buff)))"

primcorec sendString :: "bytes \<Rightarrow> (int option \<Rightarrow> prog) \<Rightarrow> prog" where
  "sendString data k = Wr data (\<lambda>r. if r = Failed then k (Some (-1))
     else if r = Retry
       then if data = [] then getAck k else sendString data k
     else if drop (wrote r) data = [] then getAck k else sendString (drop (wrote r) data) k)"

definition sendInt :: "int \<Rightarrow> (int option \<Rightarrow> prog) \<Rightarrow> prog" where
  "sendInt n k = sendString (lld n) k"

section \<open>Files\<close>

text \<open>The body of a transfer loop has two calls; the phase says which comes next.\<close>

datatype phase = Reading | Writing (buffer: bytes)

primcorec send_chunks :: "bytes \<Rightarrow> phase \<Rightarrow> nat \<Rightarrow> int \<Rightarrow> prog \<Rightarrow> prog" where
  "send_chunks data ph off left k = (case ph of
       Reading \<Rightarrow>
         if left \<le> 0 then Rd 1 (\<lambda>_. k)
         else FRd CHUNK (drop off data) (\<lambda>r. case r of
             None \<Rightarrow> getAck (\<lambda>_. k)
           | Some buff \<Rightarrow> if buff = [] then send_chunks data Reading off left k else send_chunks data (Writing buff) off left k)
     | Writing buff \<Rightarrow> Wr buff (\<lambda>r.
         if r = Wrote (length buff) then send_chunks data Reading (off + length buff) (left - int (length buff)) k else Abort))"

text \<open>The argument is what opening the file gives: \<open>None\<close> is a failure.\<close>

definition sendFile :: "bytes option \<Rightarrow> int \<Rightarrow> prog \<Rightarrow> prog" where
  "sendFile fd n k = (case fd of None \<Rightarrow> k | Some data \<Rightarrow> send_chunks data Reading 0 n k)"

primcorec recv_chunks :: "bytes \<Rightarrow> phase \<Rightarrow> nat \<Rightarrow> int \<Rightarrow> prog \<Rightarrow> prog" where
  "recv_chunks name ph off left k = (case ph of
       Reading \<Rightarrow>
         if left \<le> 0 then Wr [1] (\<lambda>_. k)
         else Rd CHUNK (\<lambda>r. case r of
             None \<Rightarrow> sendAck k
           | Some buff \<Rightarrow> if buff = [] then recv_chunks name Reading off left k else recv_chunks name (Writing buff) off left k)
     | Writing buff \<Rightarrow> Put name off buff (\<lambda>sent.
         if sent = int (length buff) then recv_chunks name Reading (off + length buff) (left - int (length buff)) k else Abort))"

definition getFile :: "bytes \<Rightarrow> int \<Rightarrow> prog \<Rightarrow> prog" where
  "getFile name n k = OpenW name (\<lambda>opened. if opened then recv_chunks name Reading 0 n k else k)"

section \<open>The server\<close>

text \<open>
  What \<open>lstat\<close>, \<open>access\<close> and \<open>open\<close> say of a name. The size is the one of the entry itself; \<open>contents\<close> is what
  opening it gives, which for a symbolic link is the file it points to.
\<close>

record entry =
  st_mode :: uint
  st_size :: int
  readable :: bool
  contents :: "bytes option"

definition S_IFREG :: uint where "S_IFREG = 0x8000"
definition S_IFLNK :: uint where "S_IFLNK = 0xA000"

definition size_of :: "(bytes \<Rightarrow> entry option) \<Rightarrow> bytes option \<Rightarrow> int" where
  "size_of files name = (case Option.bind name files of
       None \<Rightarrow> -1
     | Some e \<Rightarrow> if S_IFREG AND st_mode e \<noteq> 0 \<and> readable e then st_size e else -1)"

fun get_names :: "nat \<Rightarrow> (bytes option list \<Rightarrow> prog) \<Rightarrow> prog" where
  "get_names 0 k = k []"
| "get_names (Suc n) k = getString (\<lambda>s. get_names n (\<lambda>names. k (map_option c_string s # names)))"

fun send_sizes :: "(bytes \<Rightarrow> entry option) \<Rightarrow> bytes option list \<Rightarrow> prog \<Rightarrow> prog" where
  "send_sizes files [] k = k"
| "send_sizes files (name # names) k = sendInt (size_of files name) (\<lambda>_. send_sizes files names k)"

fun send_files :: "(bytes \<Rightarrow> entry option) \<Rightarrow> bytes option list \<Rightarrow> prog \<Rightarrow> prog" where
  "send_files files [] k = k"
| "send_files files (name # names) k =
     (if 0 \<le> size_of files name
      then sendFile (Option.bind (Option.bind name files) contents) (size_of files name) (send_files files names k)
      else send_files files names k)"

text \<open>One round of the main loop. \<open>Halt\<close> is the end of the connection: the server waits for another client.\<close>

definition server :: "(bytes \<Rightarrow> entry option) \<Rightarrow> prog" where
  "server files = getInt (\<lambda>fileNum.
     if fileNum = -1 then Halt
     else get_names (nat fileNum) (\<lambda>names. send_sizes files names (send_files files names Next)))"

section \<open>The client\<close>

text \<open>The result of \<open>trim_whitespace\<close>, and what is at its argument after it.\<close>

definition rtrim :: "bytes \<Rightarrow> bytes" where
  "rtrim s = rev (dropWhile is_blank (rev s))"

definition trim_whitespace :: "bytes \<Rightarrow> bytes \<times> bytes" where
  "trim_whitespace line =
     (rtrim (dropWhile is_blank line), takeWhile is_blank line @ rtrim (dropWhile is_blank line))"

function strtok :: "bytes \<Rightarrow> bytes list" where
  "strtok s = (case dropWhile is_blank s of
       [] \<Rightarrow> []
     | c # t \<Rightarrow> (c # takeWhile (\<lambda>b. \<not> is_blank b) t) # strtok (dropWhile (\<lambda>b. \<not> is_blank b) t))"
  by pat_completeness auto

termination strtok
proof (relation "measure length")
  fix s c t
  assume "dropWhile is_blank s = c # t"
  then show "(dropWhile (\<lambda>b. \<not> is_blank b) t, s) \<in> measure length"
    using length_dropWhile_le [of is_blank s] length_dropWhile_le [of "\<lambda>b. \<not> is_blank b" t] by simp
qed simp

declare strtok.simps [simp del]

fun send_names :: "bytes list \<Rightarrow> prog \<Rightarrow> prog" where
  "send_names [] k = k"
| "send_names (arg # args) k = sendString arg (\<lambda>_. send_names args k)"

fun get_sizes :: "bytes list \<Rightarrow> (int list \<Rightarrow> prog) \<Rightarrow> prog" where
  "get_sizes [] k = k []"
| "get_sizes (_ # args) k = getInt (\<lambda>n. get_sizes args (\<lambda>sizes. k (n # sizes)))"

fun get_files :: "(bytes \<times> int) list \<Rightarrow> prog \<Rightarrow> prog" where
  "get_files [] k = k"
| "get_files ((name, n) # rest) k = (if n \<ge> 0 then getFile name n (get_files rest k) else get_files rest k)"

text \<open>\<open>args\<close> is \<^verbatim>\<open>argv\<close> without the command; without an argument the process exits.\<close>

definition clientStuff :: "bytes list \<Rightarrow> prog \<Rightarrow> prog" where
  "clientStuff args k =
     (if args = [] then Halt
      else sendInt (int (length args)) (\<lambda>_.
        send_names args (get_sizes args (\<lambda>sizes. get_files (zip args sizes) k))))"

definition get_word :: bytes where "get_word = [103, 101, 116]"
definition exit_word :: bytes where "exit_word = [101, 120, 105, 116]"

definition words :: "bytes \<Rightarrow> bytes list" where
  "words command = strtok (snd (trim_whitespace (c_string command)))"

text \<open>The lines of the standard input; a line without a word ends in \<^verbatim>\<open>strcmp(NULL, ...)\<close>.\<close>

fun client :: "bytes list \<Rightarrow> prog" where
  "client [] = Halt"
| "client (line # lines) = (case words line of
       [] \<Rightarrow> Abort
     | word # args \<Rightarrow>
         if word = get_word then clientStuff args (client lines)
         else if word = exit_word then Halt
         else client lines)"

section \<open>The two at work\<close>

text \<open>
  \<open>whole\<close>: so few bytes in the connection are read in one piece, if the buffer of the reader has room.
  \<open>faulty\<close>: calls may fail. \<open>blocks\<close>: what a block of \<open>malloc\<close> can hold. \<open>again\<close>: where \<open>Next\<close> goes on.
\<close>

record env =
  whole :: nat
  faulty :: bool
  blocks :: "bytes set"
  again :: prog

definition overwrite :: "bytes \<Rightarrow> nat \<Rightarrow> bytes \<Rightarrow> bytes" where
  "overwrite old off bs = take off (old @ replicate (off - length old) 0) @ bs @ drop (off + length bs) old"

type_synonym endpoint = "prog \<times> bytes"

definition gone :: "endpoint \<Rightarrow> bool" where
  "gone a \<longleftrightarrow> fst a = Halt \<or> fst a = Abort"

text \<open>
  A call of a program: the program and the bytes that have arrived for it, the files it writes, the same after the
  call, and what it sends. The flag says that the other side has closed the connection: a read of nothing then
  returns zero, and a write may end the process (\<^verbatim>\<open>SIGPIPE\<close>).
\<close>

inductive acts :: "env \<Rightarrow> bool \<Rightarrow> endpoint \<Rightarrow> disk \<Rightarrow> endpoint \<Rightarrow> bytes \<Rightarrow> disk \<Rightarrow> bool" for e g where
  next_round: "acts e g (Next, b) d (again e, b) [] d"
| write_all: "acts e g (Wr bs k, b) d (k (Wrote (length bs)), b) bs d"
| write_part: "faulty e \<Longrightarrow> n < length bs \<Longrightarrow> acts e g (Wr bs k, b) d (k (Wrote n), b) (take n bs) d"
| write_fails: "faulty e \<Longrightarrow> r = Retry \<or> r = Failed \<Longrightarrow> acts e g (Wr bs k, b) d (k r, b) [] d"
| write_gone: "g \<Longrightarrow> acts e g (Wr bs k, b) d (Abort, b) [] d"
| read_some: "0 < n \<Longrightarrow> n \<le> min m (length b) \<Longrightarrow> (length b \<le> whole e \<longrightarrow> n = min m (length b)) \<Longrightarrow>
    acts e g (Rd m k, b) d (k (Some (take n b)), drop n b) [] d"
| read_end: "g \<Longrightarrow> acts e g (Rd m k, []) d (k (Some []), []) [] d"
| read_fails: "faulty e \<Longrightarrow> acts e g (Rd m k, b) d (k None, b) [] d"
| block: "blk \<in> blocks e \<Longrightarrow> acts e g (Malloc k, b) d (k blk, b) [] d"
| read_file: "n \<le> min m (length c) \<Longrightarrow> (n = 0 \<longleftrightarrow> c = []) \<Longrightarrow> acts e g (FRd m c k, b) d (k (Some (take n c)), b) [] d"
| read_file_fails: "faulty e \<Longrightarrow> acts e g (FRd m c k, b) d (k None, b) [] d"
| open_file: "acts e g (OpenW name k, b) d (k True, b) [] (if d name = None then d(name \<mapsto> []) else d)"
| open_fails: "faulty e \<Longrightarrow> acts e g (OpenW name k, b) d (k False, b) [] d"
| put_all: "d name = Some old \<Longrightarrow> acts e g (Put name off bs k, b) d (k (int (length bs)), b) [] (d(name \<mapsto> overwrite old off bs))"
| put_part: "faulty e \<Longrightarrow> d name = Some old \<Longrightarrow> n < length bs \<Longrightarrow>
    acts e g (Put name off bs k, b) d (k (int n), b) [] (d(name \<mapsto> overwrite old off (take n bs)))"
| put_fails: "faulty e \<Longrightarrow> acts e g (Put name off bs k, b) d (k (-1), b) [] d"

type_synonym pair = "endpoint \<times> endpoint \<times> disk"

inductive step :: "env \<Rightarrow> pair \<Rightarrow> pair \<Rightarrow> bool" for e where
  left: "acts e (gone b) a d a' out d' \<Longrightarrow> step e (a, b, d) (a', (fst b, snd b @ out), d')"
| right: "acts e (gone a) b d b' out d' \<Longrightarrow> step e (a, b, d) ((fst a, snd a @ out), b', d')"

inductive ends :: "('s \<Rightarrow> 's \<Rightarrow> bool) \<Rightarrow> ('s \<Rightarrow> bool) \<Rightarrow> 's \<Rightarrow> bool" for R P where
  here: "P s \<Longrightarrow> ends R P s"
| later: "\<exists>t. R s t \<Longrightarrow> (\<And>t. R s t \<Longrightarrow> ends R P t) \<Longrightarrow> ends R P s"

inductive_simps act_Halt: "acts e g (Halt, b) d a' out d'"
inductive_simps act_Abort: "acts e g (Abort, b) d a' out d'"
inductive_simps act_Next: "acts e g (Next, b) d a' out d'"
inductive_simps act_Wr: "acts e g (Wr bs k, b) d a' out d'"
inductive_simps act_Rd: "acts e g (Rd m k, b) d a' out d'"
inductive_simps act_Malloc: "acts e g (Malloc k, b) d a' out d'"
inductive_simps act_FRd: "acts e g (FRd m c k, b) d a' out d'"
inductive_simps act_OpenW: "acts e g (OpenW name k, b) d a' out d'"
inductive_simps act_Put: "acts e g (Put name off bs k, b) d a' out d'"
inductive_simps step_iff: "step e (a, b, d) t"

lemmas act_simps = act_Halt act_Abort act_Next act_Wr act_Rd act_Malloc act_FRd act_OpenW act_Put

lemma ends_only: "R s u \<Longrightarrow> (\<And>t. R s t \<Longrightarrow> t = u) \<Longrightarrow> ends R P u \<Longrightarrow> ends R P s"
  by (rule ends.later) blast+

definition calm :: "env \<Rightarrow> bool" where
  "calm e \<longleftrightarrow> \<not> faulty e \<and> blocks e = {replicate FILENAME_MAX 0}"

lemma calm_not_faulty: "calm e \<Longrightarrow> \<not> faulty e"
  by (simp add: calm_def)

definition silent :: "env \<Rightarrow> prog \<Rightarrow> bytes \<Rightarrow> prog \<Rightarrow> bool" where
  "silent e q pre q' \<longleftrightarrow> q \<noteq> Halt \<and> q \<noteq> Abort \<and>
     (\<forall>g x d a out d'. acts e g (q, pre @ x) d a out d' \<longleftrightarrow> a = (q', x) \<and> out = [] \<and> d' = d)"

definition final :: "(pair \<Rightarrow> bool) \<Rightarrow> bool" where
  "final P \<longleftrightarrow> (\<forall>a b d. P (a, b, d) \<longrightarrow> gone a \<and> gone b)"

lemma act_gone: "gone a \<Longrightarrow> \<not> acts e g a d a' out d'"
  by (cases a) (auto simp: gone_def act_simps)

lemma act_weaken: "acts e False a d a' out d' \<Longrightarrow> acts e g a d a' out d'"
  by (induction a d a' out d' rule: acts.induct) (auto intro: acts.intros simp del: fun_upd_apply split del: if_split)

lemma silent_act: "silent e q pre q' \<Longrightarrow> acts e g (q, pre @ x) d a out d' \<longleftrightarrow> a = (q', x) \<and> out = [] \<and> d' = d"
  by (cases a) (simp add: silent_def)

lemma silent_not_gone: "silent e q pre q' \<Longrightarrow> \<not> gone (q, x)"
  by (simp add: silent_def gone_def)

lemma step_silent:
  assumes "silent e q pre q'"
  shows "step e (a, (q, pre @ x), d) t \<longleftrightarrow>
    t = (a, (q', x), d) \<or> (\<exists>a' out d'. acts e False a d a' out d' \<and> t = (a', (q, pre @ x @ out), d'))"
  using silent_not_gone [OF assms] by (simp add: step_iff silent_act [OF assms]) blast

lemma ends_silent:
  assumes "ends (step e) P s" and "s = (a, (q', x), d)" and q: "silent e q pre q'" and P: "final P"
  shows "ends (step e) P (a, (q, pre @ x), d)"
  using assms(1,2)
proof (induction arbitrary: a x d rule: ends.induct)
  case (here s)
  have "gone a" using here P unfolding final_def by metis
  then have "step e (a, (q, pre @ x), d) t \<longleftrightarrow> t = s" for t
    unfolding step_silent [OF q] here(2) by (simp add: act_gone)
  then show ?case using ends.here [of P, OF here(1)] by (rule_tac ends_only [where u = s]) simp_all
next
  case (later s)
  have "ends (step e) P s" using later.hyps by (rule ends.later)
  then have 1: "ends (step e) P (a, (q', x), d)" by (simp only: later.prems)
  have 2: "ends (step e) P (a', (q, pre @ x @ out), d')" if "acts e False a d a' out d'" for a' out d'
  proof -
    have "step e s (a', (q', x @ out), d')"
      using step.left [OF act_weaken [OF that], of "(q', x)"] by (simp add: later.prems)
    from later.IH [OF this refl] show ?thesis .
  qed
  show ?case
  proof (rule ends.later)
    show "\<exists>t. step e (a, (q, pre @ x), d) t" unfolding step_silent [OF q] by blast
  next
    fix t
    assume "step e (a, (q, pre @ x), d) t"
    then show "ends (step e) P t" unfolding step_silent [OF q] using 1 2 by (elim disjE exE conjE) simp_all
  qed
qed

section \<open>Exchanges\<close>

lemma act_read:
  "\<not> faulty e \<Longrightarrow> b \<noteq> [] \<Longrightarrow> acts e g (Rd m k, b) d a out d' \<longleftrightarrow> out = [] \<and> d' = d \<and>
    (\<exists>n>0. n \<le> min m (length b) \<and> (length b \<le> whole e \<longrightarrow> n = min m (length b)) \<and> a = (k (Some (take n b)), drop n b))"
  by (simp add: act_Rd) blast

lemma act_read_none: "\<not> faulty e \<Longrightarrow> \<not> acts e False (Rd m k, []) d a out d'"
  by (simp add: act_Rd)

lemma act_write: "\<not> faulty e \<Longrightarrow> acts e False (Wr bs k, b) d a out d' \<longleftrightarrow> a = (k (Wrote (length bs)), b) \<and> out = bs \<and> d' = d"
  by (auto simp: act_Wr)

lemma getAck_silent:
  assumes "\<not> faulty e"
  shows "silent e (getAck k) [b] (k (Some (sint b)))"
proof -
  have one: "(\<exists>n>0. n \<le> min 1 (length (b # x)) \<and> (length (b # x) \<le> whole e \<longrightarrow> n = min 1 (length (b # x))) \<and> Q n) \<longleftrightarrow> Q (1 :: nat)"
    for x Q
  proof -
    have m: "min 1 (length (b # x)) = 1" by simp
    have n: "n = 1" if "0 < n" "n \<le> 1" for n :: nat using that by simp
    show ?thesis unfolding m
    proof
      assume "\<exists>n>0. n \<le> 1 \<and> (length (b # x) \<le> whole e \<longrightarrow> n = 1) \<and> Q n"
      then obtain k where k: "0 < k" "k \<le> 1" "Q k" by (elim exE conjE)
      then have "k = 1" by (intro n)
      then show "Q 1" using k by (simp only:)
    next
      assume "Q 1"
      then show "\<exists>n>0. n \<le> 1 \<and> (length (b # x) \<le> whole e \<longrightarrow> n = 1) \<and> Q n" by (intro exI [of _ 1]) simp
    qed
  qed
  have "acts e g (getAck k, b # x) d a out d' \<longleftrightarrow> a = (k (Some (sint b)), x) \<and> out = [] \<and> d' = d" for g x d a out d'
    unfolding getAck_def using assms by (subst act_read) (simp_all only: one, auto)
  then show ?thesis by (simp add: silent_def getAck_def)
qed

lemma Next_silent: "again e \<noteq> Next \<Longrightarrow> silent e Next [] (again e)"
  by (auto simp: silent_def act_Next)

lemma Malloc_silent: "calm e \<Longrightarrow> silent e (Malloc k) [] (k (replicate FILENAME_MAX 0))"
  by (auto simp: silent_def act_Malloc calm_def)

lemma ends_swap:
  "ends (step e) P s \<Longrightarrow> s = (a, b, d) \<Longrightarrow> ends (step e) (\<lambda>(a, b, d). P (b, a, d)) (b, a, d)"
proof (induction arbitrary: a b d rule: ends.induct)
  case (here s)
  then show ?case by (intro ends.here) simp
next
  case (later s)
  have sw: "step e (b, a, d) (b', a', d') \<longleftrightarrow> step e (a, b, d) (a', b', d')" for a b a' b' and d d' :: disk
    by (auto simp: step_iff)
  show ?case
  proof (rule ends.later)
    obtain a' b' d' where "step e s (a', b', d')" using later.hyps(1) by (metis prod_cases3)
    then show "\<exists>t. step e (b, a, d) t" using sw unfolding later.prems by blast
  next
    fix t
    assume t: "step e (b, a, d) t"
    obtain b' a' d' where u: "t = (b', a', d')" by (rule prod_cases3)
    have "step e s (a', b', d')" using t unfolding u later.prems sw .
    from later.IH [OF this refl] show "ends (step e) (\<lambda>(a, b, d). P (b, a, d)) t" unfolding u .
  qed
qed

lemma final_swap: "final P \<Longrightarrow> final (\<lambda>(a, b, d). P (b, a, d))"
  unfolding final_def by simp

lemma ends_silent_left:
  assumes "ends (step e) P ((q', x), b, d)" "silent e q pre q'" "final P"
  shows "ends (step e) P ((q, pre @ x), b, d)"
  using ends_swap [OF ends_silent [OF ends_swap [OF assms(1) refl] refl assms(2) final_swap [OF assms(3)]] refl] by simp

lemma acked:
  assumes e: "\<not> faulty e" and P: "final P" and goal: "ends (step e) P ((k, []), (j (Some 1), []), d)"
  shows "ends (step e) P ((sendAck k, []), (getAck j, []), d)"
proof -
  have f: "\<not> faulty e" using e .
  have *: "ends (step e) P ((k, []), (getAck j, [1]), d)"
    using ends_silent [OF goal refl getAck_silent [OF e, of j 1, simplified] P] by simp
  show ?thesis
    by (rule ends_only [OF _ _ *]) (auto simp: step_iff sendAck_def act_write f gone_def getAck_def act_read_none)
qed

lemma exchange:
  assumes e: "calm e" and P: "final P" and bs: "bs \<noteq> []" "length bs < FILENAME_MAX" "length bs \<le> whole e"
    and goal: "ends (step e) P ((kR (Some (bs @ replicate (FILENAME_MAX - length bs) 0)), []), (kS (Some 1), []), d)"
  shows "ends (step e) P ((getString kR, []), (sendString bs kS, []), d)"
proof -
  let ?kR = "\<lambda>r. case r of None \<Rightarrow> kR None | Some s \<Rightarrow> if s = [] then kR None
    else sendAck (kR (Some (s @ drop (length s) (replicate FILENAME_MAX 0))))"
  let ?got = "kR (Some (bs @ replicate (FILENAME_MAX - length bs) 0))"
  have f: "\<not> faulty e" using e by (simp add: calm_def)
  have "ends (step e) P ((sendAck ?got, []), (getAck kS, []), d)" by (rule acked [OF f P, where j = kS]) (rule goal)
  then have *: "ends (step e) P ((?kR (Some bs), []), (getAck kS, []), d)" using bs by simp
  have n: "n = min FILENAME_MAX (length bs) \<longleftrightarrow> n = length bs" for n using bs by auto
  have "ends (step e) P ((Rd FILENAME_MAX ?kR, bs), (getAck kS, []), d)"
    by (rule ends_only [OF _ _ *]) (use bs n in \<open>auto simp: step_iff act_read f gone_def getAck_def act_read_none\<close>)
  then have *: "ends (step e) P ((Rd FILENAME_MAX ?kR, bs), (getAck kS, []), d)" .
  have "ends (step e) P ((Rd FILENAME_MAX ?kR, []), (sendString bs kS, []), d)"
    by (rule ends_only [OF _ _ *])
      (use bs in \<open>auto simp: step_iff act_read_none f gone_def sendString.code act_write\<close>)
  moreover have "silent e (getString kR) [] (Rd FILENAME_MAX ?kR)"
    unfolding getString_def by (rule Malloc_silent [OF e])
  ultimately show ?thesis using ends_silent_left [of e P _ "[]" _ _ "getString kR" "[]"] P by simp
qed

section \<open>The transfer of a file\<close>

fun pend :: "phase \<Rightarrow> bytes" where
  "pend Reading = []"
| "pend (Writing bs) = bs"

definition on_way :: "bytes \<Rightarrow> phase \<Rightarrow> nat \<Rightarrow> bool" where
  "on_way data ph off \<longleftrightarrow> off + length (pend ph) \<le> length data \<and> pend ph = take (length (pend ph)) (drop off data) \<and>
     (ph \<noteq> Reading \<longrightarrow> pend ph \<noteq> [])"

definition weight :: "bytes \<Rightarrow> phase \<Rightarrow> nat \<Rightarrow> nat" where
  "weight data ph off = 2 * (length data - off) - (if ph = Reading then 0 else 1)"

abbreviation sending :: "bytes \<Rightarrow> phase \<Rightarrow> nat \<Rightarrow> prog \<Rightarrow> prog" where
  "sending data ph off k \<equiv> send_chunks data ph off (int (length data) - int off) k"

abbreviation receiving :: "bytes \<Rightarrow> bytes \<Rightarrow> phase \<Rightarrow> nat \<Rightarrow> prog \<Rightarrow> prog" where
  "receiving data name ph off k \<equiv> recv_chunks name ph off (int (length data) - int off) k"

definition arrived :: "bytes \<Rightarrow> phase \<Rightarrow> nat \<Rightarrow> nat \<Rightarrow> bytes" where
  "arrived data ph off lim = take (lim - (off + length (pend ph))) (drop (off + length (pend ph)) data)"

lemma act_read_file: "\<not> faulty e \<Longrightarrow> acts e g (FRd m c k, b) d a out d' \<longleftrightarrow>
    (\<exists>n. n \<le> min m (length c) \<and> (n = 0 \<longleftrightarrow> c = []) \<and> a = (k (Some (take n c)), b)) \<and> out = [] \<and> d' = d"
  by (auto simp: act_FRd)

lemma act_open: "\<not> faulty e \<Longrightarrow> acts e g (OpenW name k, b) d a out d' \<longleftrightarrow>
    a = (k True, b) \<and> out = [] \<and> d' = (if d name = None then d(name \<mapsto> []) else d)"
  unfolding act_OpenW by blast

lemma act_put: "\<not> faulty e \<Longrightarrow> d name = Some old \<Longrightarrow> acts e g (Put name off bs k, b) d a out d' \<longleftrightarrow>
    a = (k (int (length bs)), b) \<and> out = [] \<and> d' = d(name \<mapsto> overwrite old off bs)"
  by (auto simp: act_Put)

lemma weight_less: "off + n \<le> l \<Longrightarrow> 0 < n \<Longrightarrow> 2 * (l - (off + n)) < 2 * (l - off) - Suc 0"
  by arith

lemma sending_done: "sending data Reading (length data) k = getAck (\<lambda>_. k)"
  by (subst send_chunks.code) (simp add: getAck_def)

lemma receiving_done: "receiving data name Reading (length data) k = sendAck k"
  by (subst recv_chunks.code) (simp add: sendAck_def)

lemma sending_cases [consumes 1, case_names reading writing finished]:
  assumes "on_way data ph off"
  obtains "ph = Reading" "off < length data"
      "sending data ph off k = FRd CHUNK (drop off data) (\<lambda>r. case r of None \<Rightarrow> getAck (\<lambda>_. k)
        | Some buff \<Rightarrow> if buff = [] then sending data Reading off k else sending data (Writing buff) off k)"
    | bs where "ph = Writing bs" "bs \<noteq> []" "bs = take (length bs) (drop off data)" "off + length bs \<le> length data"
      "sending data ph off k = Wr bs (\<lambda>r. if r = Wrote (length bs) then sending data Reading (off + length bs) k else Abort)"
    | "ph = Reading" "off = length data"
proof (cases ph)
  case Reading
  then show ?thesis using assms that(1,3) by (cases "off = length data") (simp_all add: on_way_def send_chunks.code [of data Reading off _ k])
next
  case (Writing bs)
  have e: "int (length data) - int off - int (length bs) = int (length data) - int (off + length bs)" by simp
  show ?thesis
  proof (rule that(2))
    show "sending data ph off k = Wr bs (\<lambda>r. if r = Wrote (length bs) then sending data Reading (off + length bs) k else Abort)"
      unfolding Writing by (subst send_chunks.code) (simp only: phase.case e)
  qed (use assms Writing in \<open>simp_all add: on_way_def\<close>)
qed

lemma send_act:
  assumes "\<not> faulty e" "on_way data ph off" "acts e False (sending data ph off k, []) d a out d'"
  shows "\<exists>ph' off'. a = (sending data ph' off' k, []) \<and> d' = d \<and> on_way data ph' off' \<and> off \<le> off' \<and>
    out = take (off' - off) (drop off data) \<and> weight data ph' off' < weight data ph off"
  using assms(2)
proof (cases rule: sending_cases [where k = k])
  case reading
  obtain n where n: "n \<le> min CHUNK (length (drop off data))" "n = 0 \<longleftrightarrow> drop off data = []"
      and a: "a = (if take n (drop off data) = [] then sending data Reading off k else sending data (Writing (take n (drop off data))) off k, [])"
        "out = []" "d' = d"
    using assms(1,3) unfolding reading(3) by (auto simp: act_read_file)
  then have "0 < n" "n \<le> length data - off" using reading by simp_all
  then show ?thesis using n a reading
    by (intro exI [of _ "Writing (take n (drop off data))"] exI [of _ off]) (simp add: on_way_def weight_def min_absorb1)
next
  case (writing bs)
  then have "a = (sending data Reading (off + length bs) k, [])" "out = bs" "d' = d"
    using assms(1,3) by (simp_all add: act_write)
  then show ?thesis using writing(1-4)
    by (intro exI [of _ Reading] exI [of _ "off + length bs"]) (simp add: on_way_def weight_def weight_less)
next
  case finished
  then have False using assms(1,3) sending_done [of data k] by (simp add: getAck_def act_read_none)
  then show ?thesis ..
qed

lemma send_can:
  assumes "on_way data ph off" "\<not> (ph = Reading \<and> off = length data)"
  shows "\<exists>a out. acts e g (sending data ph off k, []) d a out d"
  using assms(1)
proof (cases rule: sending_cases [where k = k])
  case reading
  have "acts e g (FRd CHUNK (drop off data) f, []) d (f (Some (take 1 (drop off data))), []) [] d" for f
    using reading(2) by (intro acts.intros) simp_all
  then show ?thesis unfolding reading(3) by blast
next
  case writing
  then show ?thesis by (metis acts.write_all)
qed (use assms(2) in simp)

lemma receiving_cases [consumes 1, case_names reading writing finished]:
  assumes "on_way data ph off"
  obtains "ph = Reading" "off < length data"
      "receiving data name ph off k = Rd CHUNK (\<lambda>r. case r of None \<Rightarrow> sendAck k
        | Some buff \<Rightarrow> if buff = [] then receiving data name Reading off k else receiving data name (Writing buff) off k)"
    | bs where "ph = Writing bs" "bs \<noteq> []" "bs = take (length bs) (drop off data)" "off + length bs \<le> length data"
      "receiving data name ph off k = Put name off bs
        (\<lambda>sent. if sent = int (length bs) then receiving data name Reading (off + length bs) k else Abort)"
    | "ph = Reading" "off = length data"
proof (cases ph)
  case Reading
  then show ?thesis using assms that(1,3) by (cases "off = length data") (simp_all add: on_way_def recv_chunks.code [of name Reading off _ k])
next
  case (Writing bs)
  have e: "int (length data) - int off - int (length bs) = int (length data) - int (off + length bs)" by simp
  show ?thesis
  proof (rule that(2))
    show "receiving data name ph off k = Put name off bs
        (\<lambda>sent. if sent = int (length bs) then receiving data name Reading (off + length bs) k else Abort)"
      unfolding Writing by (subst recv_chunks.code) (simp only: phase.case e)
  qed (use assms Writing in \<open>simp_all add: on_way_def\<close>)
qed

lemma overwrite_prefix:
  assumes "off + length bs \<le> length data" "bs = take (length bs) (drop off data)"
  shows "overwrite (take off data @ drop off old) off bs = take (off + length bs) data @ drop (off + length bs) old"
proof -
  have "take off data @ bs = take (off + length bs) data" using assms by (simp add: take_add)
  then show ?thesis using assms(1) by (simp add: overwrite_def drop_drop add.commute)
qed

lemma recv_act:
  assumes f: "\<not> faulty e" and w: "on_way data ph off" and lim: "off + length (pend ph) \<le> lim" "lim \<le> length data"
    and more: "\<not> (ph = Reading \<and> off = length data)"
    and a: "acts e False (receiving data name ph off k, arrived data ph off lim) (d(name \<mapsto> take off data @ drop off old)) a out d'"
  shows "\<exists>ph' off'. a = (receiving data name ph' off' k, arrived data ph' off' lim) \<and> out = [] \<and>
    d' = d(name \<mapsto> take off' data @ drop off' old) \<and> on_way data ph' off' \<and> off' + length (pend ph') \<le> lim \<and>
    weight data ph' off' < weight data ph off"
  using w
proof (cases rule: receiving_cases [where k = k and name = name])
  case reading
  let ?b = "arrived data ph off lim"
  have l: "length ?b = lim - off" using lim reading by (simp add: arrived_def)
  show ?thesis
  proof (cases "?b = []")
    case True
    then show ?thesis using a f unfolding reading(3) by (simp add: act_read_none)
  next
    case False
    from False a obtain n where n: "0 < n" "n \<le> min CHUNK (length ?b)" and eq: "out = []" "d' = d(name \<mapsto> take off data @ drop off old)"
      and a: "a = ((\<lambda>r. case r of None \<Rightarrow> sendAck k | Some buff \<Rightarrow>
          if buff = [] then receiving data name Reading off k else receiving data name (Writing buff) off k) (Some (take n ?b)), drop n ?b)"
      unfolding reading(3) act_read [OF f False] by (elim conjE exE)
    have "take n ?b \<noteq> []" using n(1) False by simp
    then have a': "a = (receiving data name (Writing (take n ?b)) off k, drop n ?b)" using a by simp
    have n: "0 < n" "n \<le> lim - off" using n l by simp_all
    then have b: "off + n \<le> lim" "off + n \<le> length data" using lim reading by simp_all
    have "take n ?b = take n (drop off data)" using n reading by (simp add: arrived_def min_absorb1)
    moreover have "drop n ?b = arrived data (Writing (take n (drop off data))) off lim"
      using n lim reading by (simp add: arrived_def drop_take add.commute)
    ultimately show ?thesis using n b a' eq reading lim
      by (intro exI [of _ "Writing (take n (drop off data))"] exI [of _ off]) (simp add: on_way_def weight_def min_absorb1)
  qed
next
  case (writing bs)
  then have "a = (receiving data name Reading (off + length bs) k, arrived data ph off lim)" "out = []"
      "d' = d(name \<mapsto> overwrite (take off data @ drop off old) off bs)"
    using f a by (simp_all add: act_put)
  moreover have "arrived data ph off lim = arrived data Reading (off + length bs) lim" using writing by (simp add: arrived_def)
  moreover note overwrite_prefix [OF writing(4) writing(3), of old]
  ultimately show ?thesis using writing(1-4) lim
    by (intro exI [of _ Reading] exI [of _ "off + length bs"]) (simp add: on_way_def weight_def weight_less)
qed (use more in simp)

lemma recv_can:
  assumes "on_way data ph off" "ph = Reading \<Longrightarrow> off < lim" "lim \<le> length data" "d name = Some cur"
  shows "\<exists>a out d'. acts e g (receiving data name ph off k, arrived data ph off lim) d a out d'"
  using assms(1)
proof (cases rule: receiving_cases [where k = k and name = name])
  case reading
  have l: "length (arrived data ph off lim) = lim - off" using assms reading by (simp add: arrived_def)
  let ?n = "min CHUNK (length (arrived data ph off lim))"
  have "acts e g (Rd CHUNK f, arrived data ph off lim) d (f (Some (take ?n (arrived data ph off lim))), drop ?n (arrived data ph off lim)) [] d" for f
    using reading(1) assms(2) l by (intro acts.intros) simp_all
  then show ?thesis unfolding reading(3) by blast
next
  case writing
  then show ?thesis using acts.put_all [of d name, OF assms(4)] by metis
next
  case finished
  then show ?thesis using assms(2,3) by simp
qed

lemma arrived_more:
  assumes "off + length (pend ph) \<le> lim" "lim \<le> lim'"
  shows "arrived data ph off lim @ take (lim' - lim) (drop lim data) = arrived data ph off lim'"
proof -
  let ?k = "off + length (pend ph)"
  have "lim' - ?k = (lim - ?k) + (lim' - lim)" "drop (lim - ?k) (drop ?k data) = drop lim data" using assms by simp_all
  then show ?thesis unfolding arrived_def by (simp only: take_add)
qed

lemma on_way_end: "on_way data ph off \<Longrightarrow> length data \<le> off \<Longrightarrow> ph = Reading \<and> off = length data"
  unfolding on_way_def by (cases ph) auto

lemma transfer_loop:
  assumes e: "\<not> faulty e" and P: "final P" and cfg: "on_way data phr offr" "on_way data phs offs" "offr + length (pend phr) \<le> offs"
    and goal: "ends (step e) P ((kC, []), (kS, []), d(name \<mapsto> data @ drop (length data) old))"
  shows "ends (step e) P
    ((receiving data name phr offr kC, arrived data phr offr offs), (sending data phs offs kS, []), d(name \<mapsto> take offr data @ drop offr old))"
  using cfg
proof (induction "weight data phr offr + weight data phs offs" arbitrary: phr offr phs offs rule: less_induct)
  case less
  have f: "\<not> faulty e" using e .
  let ?c = "(receiving data name phr offr kC, arrived data phr offr offs)"
  let ?s = "(sending data phs offs kS, []) :: endpoint"
  let ?d = "d(name \<mapsto> take offr data @ drop offr old)"
  have lim: "offs \<le> length data" using less.prems by (simp add: on_way_def)
  have live: "\<not> gone ?c" "\<not> gone ?s" by (simp_all add: gone_def recv_chunks.code [of _ phr] send_chunks.code [of _ phs] split: phase.split)
  show ?case
  proof (cases "phr = Reading \<and> offr = length data")
    case True
    then have "phs = Reading" "offs = length data" using less.prems(3) on_way_end [OF less.prems(2)] by simp_all
    then have s: "?s = (getAck (\<lambda>_. kS), [])" and c: "?c = (sendAck kC, [])"
      using True sending_done [of data kS] receiving_done [where data = data and name = name and k = kC] by (simp_all add: arrived_def)
    have "ends (step e) P ((kC, []), (kS, []), ?d)" using goal True by simp
    then show ?thesis unfolding s c by (rule acked [OF e P, where j = "\<lambda>_. kS"])
  next
    case False
    have client: "ends (step e) P (a, (fst ?s, snd ?s @ out), d')" if "acts e False ?c ?d a out d'" for a out d'
    proof -
      from recv_act [OF f less.prems(1,3) lim False that] obtain ph' off' where
        a: "a = (receiving data name ph' off' kC, arrived data ph' off' offs)" "out = []" "d' = d(name \<mapsto> take off' data @ drop off' old)"
          "on_way data ph' off'" "off' + length (pend ph') \<le> offs" "weight data ph' off' < weight data phr offr" by (elim exE conjE)
      then show ?thesis using less.hyps [of ph' off' phs offs] less.prems(2) by simp
    qed
    have server: "ends (step e) P ((fst ?c, snd ?c @ out), b, d')" if "acts e False ?s ?d b out d'" for b out d'
    proof -
      from send_act [OF f less.prems(2) that] obtain ph' off' where
        b: "b = (sending data ph' off' kS, [])" "d' = ?d" "on_way data ph' off'" "offs \<le> off'"
          "out = take (off' - offs) (drop offs data)" "weight data ph' off' < weight data phs offs" by (elim exE conjE)
      have "arrived data phr offr offs @ out = arrived data phr offr off'"
        unfolding b(5) by (rule arrived_more [OF less.prems(3) b(4)])
      then show ?thesis using less.hyps [of phr offr ph' off'] less.prems b by simp
    qed
    show ?thesis
    proof (rule ends.later)
      show "\<exists>t. step e (?c, ?s, ?d) t"
      proof (cases "phr = Reading \<and> offr = offs")
        case True
        then have "\<not> (phs = Reading \<and> offs = length data)" using False by simp
        from send_can [OF less.prems(2) this, of e "gone ?c" kS ?d] show ?thesis by (blast intro: step.right)
      next
        case False
        have "phr = Reading \<Longrightarrow> offr < offs" using False less.prems(3) by (cases phr) auto
        from recv_can [OF less.prems(1) this lim, of ?d name _ e "gone ?s" kC] show ?thesis by (fastforce intro: step.left)
      qed
    next
      fix t
      assume "step e (?c, ?s, ?d) t"
      then show "ends (step e) P t" unfolding step_iff using live client server by (elim disjE exE conjE) simp_all
    qed
  qed
qed

lemma transfer_file:
  assumes e: "\<not> faulty e" and P: "final P" and cfg: "on_way data phs offs"
    and goal: "ends (step e) P ((kC, []), (kS, []), d(name \<mapsto> data @ drop (length data) (case d name of None \<Rightarrow> [] | Some old \<Rightarrow> old)))"
  shows "ends (step e) P ((getFile name (int (length data)) kC, take offs data), (sending data phs offs kS, []), d)"
  using cfg
proof (induction "weight data phs offs" arbitrary: phs offs rule: less_induct)
  case less
  have f: "\<not> faulty e" using e .
  let ?c = "(getFile name (int (length data)) kC, take offs data)"
  let ?s = "(sending data phs offs kS, []) :: endpoint"
  let ?old = "case d name of None \<Rightarrow> [] | Some old \<Rightarrow> old"
  let ?c' = "(recv_chunks name Reading 0 (int (length data)) kC, take offs data)"
  have live: "\<not> gone ?c" "\<not> gone ?s" by (simp_all add: gone_def getFile_def send_chunks.code [of _ phs] split: phase.split)
  have w: "on_way data Reading 0" by (simp add: on_way_def)
  have client: "acts e False ?c d a out d' \<longleftrightarrow> a = ?c' \<and> out = [] \<and> d' = d(name \<mapsto> ?old)" for a out d'
  proof -
    have "(if d name = None then d(name \<mapsto> []) else d) = d(name \<mapsto> ?old)" by (cases "d name") (simp_all add: fun_upd_idem)
    then show ?thesis unfolding getFile_def act_open [OF f] by simp
  qed
  have c': "ends (step e) P (?c', ?s, d(name \<mapsto> ?old))"
    using transfer_loop [OF e P w less.prems _ goal] by (simp add: arrived_def)
  have server: "ends (step e) P ((fst ?c, snd ?c @ out), b, d')" if "acts e False ?s d b out d'" for b out d'
  proof -
    from send_act [OF f less.prems that] obtain ph' off' where
      b: "b = (sending data ph' off' kS, [])" "d' = d" "on_way data ph' off'" "offs \<le> off'"
        "out = take (off' - offs) (drop offs data)" "weight data ph' off' < weight data phs offs" by (elim exE conjE)
    have "take offs data @ out = take off' data" using b(4,5) take_add [of offs "off' - offs" data] by simp
    then show ?thesis using less.hyps [of ph' off'] b by simp
  qed
  show ?case
  proof (rule ends.later)
    have "acts e (gone ?s) ?c d ?c' [] (d(name \<mapsto> ?old))" using client live(2) by simp
    then show "\<exists>t. step e (?c, ?s, d) t" by (blast intro: step.left)
  next
    fix t
    assume "step e (?c, ?s, d) t"
    then show "ends (step e) P t" unfolding step_iff using live client c' server by (elim disjE exE conjE) simp_all
  qed
qed

section \<open>Strings and numbers\<close>

lemma c_string_padded: "0 \<notin> set bs \<Longrightarrow> 0 < n \<Longrightarrow> c_string (bs @ replicate n 0) = bs"
  by (induction bs) (cases n; simp add: c_string_def)+

lemma number_snoc: "number (ds @ [b]) = number ds * 10 + (unat b - 48)"
  by (simp add: number_def)

lemma number_dec: "number (dec n) = n"
proof (induction n rule: dec.induct)
  case (1 n)
  show ?case
  proof (cases "n < 10")
    case True
    then show ?thesis using digit_byte(1) [of n] by (simp add: dec.simps [of n] number_def del: of_nat_add)
  next
    case False
    then show ?thesis using 1 digit_byte(1) [of "n mod 10"] by (simp add: dec.simps [of n] number_snoc del: of_nat_add)
  qed
qed

lemma digits_dec: "takeWhile is_digit (dec n) = dec n"
  by (simp add: takeWhile_eq_all_conv is_digit_def set_dec)

lemma dec_nonempty [simp]: "dec n \<noteq> []"
  by (subst dec.simps) simp

lemma dec_head: "\<exists>c t. dec n = c # t \<and> 48 \<le> c \<and> c \<le> 57"
  using set_dec [of _ n] by (cases "dec n") auto

lemma strtoll_lld: "- (2 ^ 63) \<le> n \<Longrightarrow> n < 2 ^ 63 \<Longrightarrow> strtoll (lld n) = n"
proof -
  assume n: "- (2 ^ 63) \<le> n" "n < 2 ^ 63"
  obtain c t where c: "dec (nat n) = c # t" "48 \<le> c" "c \<le> 57" using dec_head by blast
  then have "\<not> is_space c" "c \<noteq> 45" "c \<noteq> 43" by (auto simp: is_space_def word_le_nat_alt)
  moreover from this have "strtoll (dec (nat n)) = min (2 ^ 63 - 1) (int (number (takeWhile is_digit (dec (nat n)))))"
    unfolding strtoll_def c by simp
  moreover have "strtoll (45 # dec (nat (- n))) = max (- (2 ^ 63)) (- int (number (takeWhile is_digit (dec (nat (- n))))))"
    by (simp add: strtoll_def is_space_def)
  ultimately show ?thesis using n unfolding lld_def digits_dec number_dec by simp
qed

lemma lld_bytes: "0 \<notin> set (lld n)" "lld n \<noteq> []"
  using set_dec [of 0] by (auto simp: lld_def)

lemma length_lld: "- (2 ^ 63) \<le> n \<Longrightarrow> n < 2 ^ 63 \<Longrightarrow> length (lld n) \<le> 20"
proof -
  assume n: "- (2 ^ 63) \<le> n" "n < 2 ^ 63"
  have "length (dec m) \<le> 19" if "m \<le> 2 ^ 63" for m using that by (intro length_dec) simp_all
  then have "length (dec m) \<le> 20" if "m \<le> 2 ^ 63" for m using that le_trans [of "length (dec m)" 19 20] by simp
  moreover have "length (45 # dec m) \<le> 20" if "m \<le> 2 ^ 63" for m using that \<open>\<And>m. m \<le> 2 ^ 63 \<Longrightarrow> length (dec m) \<le> 19\<close> by simp
  moreover have "nat n \<le> 2 ^ 63" "nat (- n) \<le> 2 ^ 63" using n by (simp_all add: nat_le_iff)
  ultimately show ?thesis unfolding lld_def by (simp only: split: if_split) blast
qed

section \<open>A session\<close>

lemma exchange_int:
  assumes e: "calm e" "20 \<le> whole e" and P: "final P" and n: "- (2 ^ 63) \<le> n" "n < 2 ^ 63"
    and goal: "ends (step e) P ((kR n, []), (kS (Some 1), []), d)"
  shows "ends (step e) P ((getInt kR, []), (sendInt n kS, []), d)"
proof -
  have l: "length (lld n) \<le> 20" by (rule length_lld [OF n])
  then have "c_string (lld n @ replicate (FILENAME_MAX - length (lld n)) 0) = lld n"
    by (intro c_string_padded lld_bytes) simp
  then show ?thesis unfolding getInt_def sendInt_def using l e goal
    by (intro exchange P) (simp_all add: lld_bytes strtoll_lld [OF n])
qed

lemma exchange_right:
  assumes "calm e" "final P" "bs \<noteq> []" "length bs < FILENAME_MAX" "length bs \<le> whole e"
    and goal: "ends (step e) P ((kS (Some 1), []), (kR (Some (bs @ replicate (FILENAME_MAX - length bs) 0)), []), d)"
  shows "ends (step e) P ((sendString bs kS, []), (getString kR, []), d)"
  using ends_swap [OF exchange [where kR = kR and kS = kS, OF assms(1) final_swap [OF assms(2)] assms(3-5) ends_swap [OF goal refl]] refl] by simp

lemma exchange_int_right:
  assumes "calm e" "20 \<le> whole e" "final P" "- (2 ^ 63) \<le> n" "n < 2 ^ 63"
    and goal: "ends (step e) P ((kS (Some 1), []), (kR n, []), d)"
  shows "ends (step e) P ((sendInt n kS, []), (getInt kR, []), d)"
  using ends_swap [OF exchange_int [where kR = kR and kS = kS, OF assms(1,2) final_swap [OF assms(3)] assms(4,5) ends_swap [OF goal refl]] refl] by simp

text \<open>A name that can be asked for, and the answer of a server whose file system keeps still.\<close>

definition short_name :: "env \<Rightarrow> bytes \<Rightarrow> bool" where
  "short_name e n \<longleftrightarrow> n \<noteq> [] \<and> 0 \<notin> set n \<and> length n < FILENAME_MAX \<and> length n \<le> whole e"

definition plain :: "(bytes \<Rightarrow> entry option) \<Rightarrow> bytes \<Rightarrow> bool" where
  "plain files n \<longleftrightarrow> - (2 ^ 63) \<le> size_of files (Some n) \<and> size_of files (Some n) < 2 ^ 63 \<and>
     (0 \<le> size_of files (Some n) \<longrightarrow>
       (\<exists>data. Option.bind (files n) contents = Some data \<and> size_of files (Some n) = int (length data)))"

definition deliver :: "(bytes \<Rightarrow> entry option) \<Rightarrow> bytes \<Rightarrow> disk \<Rightarrow> disk" where
  "deliver files n d =
     (if 0 \<le> size_of files (Some n)
      then case Option.bind (files n) contents of
          None \<Rightarrow> d
        | Some data \<Rightarrow> d(n \<mapsto> data @ drop (length data) (case d n of None \<Rightarrow> [] | Some old \<Rightarrow> old))
      else d)"

lemma names_sent:
  assumes "calm e" "final P" "\<forall>n\<in>set args. short_name e n"
    and "ends (step e) P ((k, []), (k' (map Some args), []), d)"
  shows "ends (step e) P ((send_names args k, []), (get_names (length args) k', []), d)"
  using assms(3,4)
proof (induction args arbitrary: k')
  case (Cons n args)
  then have "c_string (n @ replicate (FILENAME_MAX - length n) 0) = n"
    by (intro c_string_padded) (simp_all add: short_name_def)
  then show ?case using Cons assms(1,2)
    by (simp only: send_names.simps list.size get_names.simps add_0_right add_Suc_right)
      (rule exchange_right, simp_all add: short_name_def)
qed simp

lemma sizes_sent:
  assumes "calm e" "20 \<le> whole e" "final P" "\<forall>n\<in>set args. plain files n"
    and "ends (step e) P ((k (map (\<lambda>n. size_of files (Some n)) args), []), (k', []), d)"
  shows "ends (step e) P ((get_sizes args k, []), (send_sizes files (map Some args) k', []), d)"
  using assms(4,5)
proof (induction args arbitrary: k)
  case (Cons n args)
  then show ?case using assms(1-3) by simp (rule exchange_int, simp_all add: plain_def)
qed simp

lemma files_sent:
  assumes "\<not> faulty e" "final P" "\<forall>n\<in>set args. plain files n"
    and "ends (step e) P ((k, []), (k', []), fold (deliver files) args d)"
  shows "ends (step e) P ((get_files (zip args (map (\<lambda>n. size_of files (Some n)) args)) k, []), (send_files files (map Some args) k', []), d)"
  using assms(3,4)
proof (induction args arbitrary: d)
  case (Cons n args)
  show ?case
  proof (cases "0 \<le> size_of files (Some n)")
    case True
    then obtain data where data: "Option.bind (files n) contents = Some data" "size_of files (Some n) = int (length data)"
      using Cons.prems(1) by (auto simp: plain_def)
    have w: "on_way data Reading 0" by (simp add: on_way_def)
    have "deliver files n d = d(n \<mapsto> data @ drop (length data) (case d n of None \<Rightarrow> [] | Some old \<Rightarrow> old))"
      using True data by (simp add: deliver_def)
    then have "ends (step e) P
        ((get_files (zip args (map (\<lambda>n. size_of files (Some n)) args)) k, []), (send_files files (map Some args) k', []),
          d(n \<mapsto> data @ drop (length data) (case d n of None \<Rightarrow> [] | Some old \<Rightarrow> old)))"
      using Cons by simp
    from transfer_file [OF assms(1,2) w this] show ?thesis using True data by (simp add: sendFile_def)
  next
    case False
    then show ?thesis using Cons by (simp add: deliver_def)
  qed
qed simp

definition good_line :: "env \<Rightarrow> (bytes \<Rightarrow> entry option) \<Rightarrow> bytes \<Rightarrow> bool" where
  "good_line e files line \<longleftrightarrow> words line \<noteq> [] \<and> (hd (words line) = get_word \<longrightarrow> length (words line) < 2 ^ 31 \<and> tl (words line) \<noteq> [] \<and>
     (\<forall>n\<in>set (tl (words line)). length n < FILENAME_MAX \<and> length n \<le> whole e \<and> plain files n))"

fun session :: "(bytes \<Rightarrow> entry option) \<Rightarrow> bytes list \<Rightarrow> disk \<Rightarrow> disk" where
  "session files [] d = d"
| "session files (line # lines) d =
     (if hd (words line) = get_word then session files lines (fold (deliver files) (tl (words line)) d)
      else if hd (words line) = exit_word then d
      else session files lines d)"

lemma strtok_word: "w \<in> set (strtok s) \<Longrightarrow> w \<noteq> [] \<and> set w \<subseteq> set s"
proof (induction s rule: strtok.induct)
  case (1 s)
  show ?case
  proof (cases "dropWhile is_blank s")
    case Nil
    show ?thesis using 1(2) unfolding strtok.simps [of s] Nil by simp
  next
    case (Cons c t)
    have s: "set (c # t) \<subseteq> set s" using set_dropWhileD [of _ is_blank s] unfolding Cons by blast
    note IH = 1(1) [OF Cons]
    have "set (takeWhile (\<lambda>b. \<not> is_blank b) t) \<subseteq> set t" "set (dropWhile (\<lambda>b. \<not> is_blank b) t) \<subseteq> set t"
      by (auto dest: set_takeWhileD set_dropWhileD)
    from 1(2) consider "w = c # takeWhile (\<lambda>b. \<not> is_blank b) t" | "w \<in> set (strtok (dropWhile (\<lambda>b. \<not> is_blank b) t))"
      unfolding strtok.simps [of s] Cons by auto
    then show ?thesis
    proof cases
      case 1
      then show ?thesis using s \<open>set (takeWhile (\<lambda>b. \<not> is_blank b) t) \<subseteq> set t\<close> by auto
    next
      case 2
      from IH [OF this] show ?thesis using s \<open>set (dropWhile (\<lambda>b. \<not> is_blank b) t) \<subseteq> set t\<close> by auto
    qed
  qed
qed

lemma words_bytes: "w \<in> set (words line) \<Longrightarrow> w \<noteq> [] \<and> 0 \<notin> set w"
proof -
  assume "w \<in> set (words line)"
  then have w: "w \<noteq> []" "set w \<subseteq> set (snd (trim_whitespace (c_string line)))" unfolding words_def using strtok_word by auto
  have "set (rtrim s) \<subseteq> set s" for s using set_dropWhileD [of _ is_blank "rev s"] by (auto simp: rtrim_def)
  then have "set (snd (trim_whitespace s)) \<subseteq> set s" for s
    using set_takeWhileD [of _ is_blank s] set_dropWhileD [of _ is_blank s] unfolding trim_whitespace_def by auto
  moreover have "0 \<notin> set (c_string line)" unfolding c_string_def using set_takeWhileD by fastforce
  ultimately show ?thesis using w by blast
qed

lemma getString_closed:
  assumes e: "calm e" and P: "P ((Halt, []), (Halt, []), d)" "final P" and k: "k None = Halt"
  shows "ends (step e) P ((Halt, []), (getString k, []), d)"
proof -
  let ?k = "\<lambda>r. case r of None \<Rightarrow> k None | Some bs \<Rightarrow> if bs = [] then k None
    else sendAck (k (Some (bs @ drop (length bs) (replicate FILENAME_MAX 0))))"
  have f: "\<not> faulty e" using e by (simp add: calm_def)
  have *: "ends (step e) P ((Halt, []), (Rd FILENAME_MAX ?k, []), d)"
    by (rule ends_only [OF _ _ ends.here [of P, OF P(1)]]) (auto simp: step_iff act_Halt act_Rd f gone_def k)
  have "silent e (getString k) [] (Rd FILENAME_MAX ?k)"
    unfolding getString_def by (rule Malloc_silent [OF e])
  from ends_silent [OF * refl this P(2)] show ?thesis by simp
qed

lemma connection_closed:
  assumes "calm e" and "P ((Halt, []), (Halt, []), d)" "final P"
  shows "ends (step e) P ((Halt, []), (server files, []), d)"
  unfolding server_def getInt_def by (rule getString_closed [OF assms]) simp

lemma server_not_Next: "server files \<noteq> Next"
  by (simp add: server_def getInt_def getString_def)

text \<open>
  C11. The files of a request arrive. The server has the sizes it has sent, the client the same sizes, of any
  number of names, each either refused or a regular file of that size at the server, and no call fails. Then in
  every interleaving of the calls of the two, however the data are cut into reads on both sides, both come to the
  end of \<open>send_files\<close> and \<open>get_files\<close> with nothing left on the way, and the client's directory has each
  of the files, its bytes first and behind them what a longer file of the same name had there, and nothing else
  has changed.
\<close>

theorem files_delivered:
  assumes "\<not> faulty e" and "\<forall>n\<in>set names. plain files n"
  shows "ends (step e) (\<lambda>s. s = ((Halt, []), (Halt, []), fold (deliver files) names d))
    ((get_files (zip names (map (\<lambda>n. size_of files (Some n)) names)) Halt, []), (send_files files (map Some names) Halt, []), d)"
  by (rule files_sent [OF assms(1) _ assms(2) ends.here]) (simp_all add: final_def gone_def)

definition demo_files :: "bytes \<Rightarrow> entry option" where
  "demo_files n = (if n = [102] then Some \<lparr>st_mode = S_IFREG, st_size = 3, readable = True, contents = Some [1, 2, 3]\<rparr> else None)"

text \<open>Blocks of \<^verbatim>\<open>malloc\<close> with old contents, and reads of any length.\<close>

definition any_env :: env where
  "any_env = \<lparr>whole = 0, faulty = False, blocks = {replicate FILENAME_MAX 7}, again = server demo_files\<rparr>"

theorem files_delivered_witness:
  "ends (step any_env) (\<lambda>s. s = ((Halt, []), (Halt, []), [[102] \<mapsto> [1, 2, 3, 9]]))
    ((get_files [([102], 3), ([103], -1)] Halt, []), (send_files demo_files [Some [102], Some [103]] Halt, []), [[102] \<mapsto> [5, 6, 7, 9]])"
proof -
  have "\<forall>n\<in>set [[102], [103]]. plain demo_files n"
    by (simp add: plain_def size_of_def demo_files_def S_IFREG_def)
  moreover have "fold (deliver demo_files) [[102], [103]] [[102] \<mapsto> [5, 6, 7, 9]] = [[102] \<mapsto> [1, 2, 3, 9]]"
    by (simp add: deliver_def size_of_def demo_files_def S_IFREG_def)
  moreover have "map (\<lambda>n. size_of demo_files (Some n)) [[102], [103]] = [3, -1]"
    by (simp add: size_of_def demo_files_def S_IFREG_def)
  moreover have "\<not> faulty any_env" by (simp add: any_env_def)
  ultimately show ?thesis
    using files_delivered [of any_env "[[102], [103]]" demo_files "[[102] \<mapsto> [5, 6, 7, 9]]"] by simp
qed


text \<open>\<^verbatim>\<open>get f g\<close> and \<^verbatim>\<open>exit\<close>\<close>

definition demo_lines :: "bytes list" where
  "demo_lines = [[103, 101, 116, 32, 102, 32, 103, 10], [101, 120, 105, 116, 10]]"

definition demo_env :: env where
  "demo_env = \<lparr>whole = FILENAME_MAX, faulty = False, blocks = {replicate FILENAME_MAX 0}, again = server demo_files\<rparr>"

lemma demo_words: "words [103, 101, 116, 32, 102, 32, 103, 10] = [[103, 101, 116], [102], [103]]" "words [101, 120, 105, 116, 10] = [[101, 120, 105, 116]]"
  by (simp_all add: words_def trim_whitespace_def rtrim_def c_string_def is_blank_def strtok.simps)

lemma demo_good: "\<forall>line\<in>set demo_lines. good_line demo_env demo_files line"
  by (simp add: demo_lines_def good_line_def demo_words get_word_def demo_env_def plain_def size_of_def demo_files_def S_IFREG_def)


section \<open>What faults cannot do\<close>

text \<open>\<open>only N p\<close>: whatever its calls return, the program opens and writes no file but those in \<open>N\<close>.\<close>

coinductive only :: "bytes set \<Rightarrow> prog \<Rightarrow> bool" for N where
  only_Halt: "only N Halt"
| only_Abort: "only N Abort"
| only_Next: "only N Next"
| only_Wr: "(\<And>r. only N (k r)) \<Longrightarrow> only N (Wr bs k)"
| only_Rd: "(\<And>r. only N (k r)) \<Longrightarrow> only N (Rd m k)"
| only_Malloc: "(\<And>r. only N (k r)) \<Longrightarrow> only N (Malloc k)"
| only_FRd: "(\<And>r. only N (k r)) \<Longrightarrow> only N (FRd m c k)"
| only_OpenW: "name \<in> N \<Longrightarrow> (\<And>r. only N (k r)) \<Longrightarrow> only N (OpenW name k)"
| only_Put: "name \<in> N \<Longrightarrow> (\<And>r. only N (k r)) \<Longrightarrow> only N (Put name off bs k)"

inductive_simps only_simps [simp]:
  "only N Halt" "only N Abort" "only N Next" "only N (Wr bs k)" "only N (Rd m k)" "only N (Malloc k)"
  "only N (FRd m c k)" "only N (OpenW name k)" "only N (Put name off bs k)"

lemma act_only:
  "acts e g a d a' out d' \<Longrightarrow> only N (fst a) \<Longrightarrow> only N (again e) \<Longrightarrow> only N (fst a') \<and> (n \<notin> N \<longrightarrow> d' n = d n)"
  by (induction a d a' out d' rule: acts.induct) auto

lemma only_sendAck: "only N k \<Longrightarrow> only N (sendAck k)"
  by (simp add: sendAck_def)

lemma only_getAck: "(\<And>r. only N (k r)) \<Longrightarrow> only N (getAck k)"
  by (simp add: getAck_def)

lemma only_getString: "(\<And>r. only N (k r)) \<Longrightarrow> only N (getString k)"
  by (auto simp: getString_def only_sendAck split: option.split)

lemma only_getInt: "(\<And>n. only N (k n)) \<Longrightarrow> only N (getInt k)"
  by (simp add: getInt_def only_getString)

lemma only_sendString:
  assumes "\<And>r. only N (k r)"
  shows "only N (sendString data k)"
proof -
  have "only N p" if "\<exists>data. p = sendString data k" for p
    using that
  proof (coinduction arbitrary: p rule: only.coinduct)
    case only
    then obtain data where "p = sendString data k" ..
    then show ?case using assms only_getAck [of N k, OF assms]
      by (subst (asm) sendString.code) auto
  qed
  then show ?thesis by blast
qed

lemma only_sendInt: "(\<And>r. only N (k r)) \<Longrightarrow> only N (sendInt n k)"
  by (simp add: sendInt_def only_sendString)

lemma only_send_chunks:
  assumes "only N k"
  shows "only N (send_chunks data ph off left k)"
proof -
  have "only N p" if "\<exists>ph off left. p = send_chunks data ph off left k" for p
    using that
  proof (coinduction arbitrary: p rule: only.coinduct)
    case only
    then obtain ph off left where "p = send_chunks data ph off left k" by blast
    then have p: "p = (case ph of
       Reading \<Rightarrow> if left \<le> 0 then Rd 1 (\<lambda>_. k)
         else FRd CHUNK (drop off data) (\<lambda>r. case r of None \<Rightarrow> getAck (\<lambda>_. k)
           | Some buff \<Rightarrow> if buff = [] then send_chunks data Reading off left k else send_chunks data (Writing buff) off left k)
     | Writing buff \<Rightarrow> Wr buff (\<lambda>r. if r = Wrote (length buff)
         then send_chunks data Reading (off + length buff) (left - int (length buff)) k else Abort))"
      by (simp only: send_chunks.code [symmetric])
    have "only N (getAck (\<lambda>_. k))" using assms by (intro only_getAck)
    then show ?case using assms unfolding p by (cases ph) (auto split: option.split)
  qed
  then show ?thesis by blast
qed

lemma only_recv_chunks:
  assumes "only N k" "name \<in> N"
  shows "only N (recv_chunks name ph off left k)"
proof -
  have "only N p" if "\<exists>ph off left. p = recv_chunks name ph off left k" for p
    using that
  proof (coinduction arbitrary: p rule: only.coinduct)
    case only
    then obtain ph off left where "p = recv_chunks name ph off left k" by blast
    then have p: "p = (case ph of
       Reading \<Rightarrow> if left \<le> 0 then Wr [1] (\<lambda>_. k)
         else Rd CHUNK (\<lambda>r. case r of None \<Rightarrow> sendAck k
           | Some buff \<Rightarrow> if buff = [] then recv_chunks name Reading off left k else recv_chunks name (Writing buff) off left k)
     | Writing buff \<Rightarrow> Put name off buff (\<lambda>sent. if sent = int (length buff)
         then recv_chunks name Reading (off + length buff) (left - int (length buff)) k else Abort))"
      by (simp only: recv_chunks.code [symmetric])
    have "only N (sendAck k)" using assms by (intro only_sendAck)
    then show ?case using assms unfolding p by (cases ph) (auto split: option.split)
  qed
  then show ?thesis by blast
qed

lemma only_server: "only N (server files)"
proof -
  have send: "only N k \<Longrightarrow> only N (send_files files names k)" for names k
    by (induction names) (auto simp: sendFile_def only_send_chunks split: option.split)
  have sizes: "only N k \<Longrightarrow> only N (send_sizes files names k)" for names k
    by (induction names) (simp_all add: only_sendInt)
  have "(\<And>names. only N (k names)) \<Longrightarrow> only N (get_names n k)" for n k
    by (induction n arbitrary: k) (simp_all add: only_getString)
  then show ?thesis using send sizes by (simp add: server_def only_getInt)
qed

text \<open>The names that the commands of a client ask for.\<close>

definition requested :: "bytes list \<Rightarrow> bytes set" where
  "requested lines = (\<Union>line \<in> set lines. set (tl (words line)))"

lemma only_clientStuff:
  assumes "only N k" "set args \<subseteq> N"
  shows "only N (clientStuff args k)"
proof -
  have names: "only N p \<Longrightarrow> only N (send_names xs p)" for xs p
    by (induction xs) (simp_all add: only_sendString)
  have sizes: "(\<And>ns. only N (q ns)) \<Longrightarrow> only N (get_sizes xs q)" for xs q
    by (induction xs arbitrary: q) (simp_all add: only_getInt)
  have files: "fst ` set xs \<subseteq> N \<Longrightarrow> only N (get_files xs k)" for xs
    using assms(1) by (induction xs k rule: get_files.induct) (simp_all add: getFile_def only_recv_chunks)
  have "fst ` set (zip args ns) \<subseteq> N" for ns :: "int list" using assms(2) by (auto dest: set_zip_leftD)
  then show ?thesis using names sizes files by (simp add: clientStuff_def only_sendInt)
qed

lemma only_client: "requested lines \<subseteq> N \<Longrightarrow> only N (client lines)"
  by (induction lines) (auto simp: requested_def intro!: only_clientStuff split: list.split)

lemma step_only:
  assumes "step e s t" "only N (fst (fst s))" "only N (fst (fst (snd s)))" "only N (again e)"
  shows "only N (fst (fst t)) \<and> only N (fst (fst (snd t))) \<and> (n \<notin> N \<longrightarrow> snd (snd t) n = snd (snd s) n)"
  using assms by (induction rule: step.induct) (auto dest: act_only)

text \<open>
  C33. Whatever fails, a file of the client that no command asks for stays as it is: calls may return errors, writes
  and reads may be cut anywhere, the server's names and numbers may arrive damaged, and either process may be gone.
\<close>

theorem faults_spare_other_files:
  assumes "(step e)\<^sup>*\<^sup>* ((client lines, []), (server files, []), d) s" and "again e = server files" and "n \<notin> requested lines"
  shows "snd (snd s) n = d n"
proof -
  let ?N = "requested lines"
  have "only ?N (fst (fst s)) \<and> only ?N (fst (fst (snd s))) \<and> snd (snd s) n = d n"
    using assms(1)
  proof (induction rule: rtranclp_induct)
    case base
    show ?case by (simp add: only_client only_server)
  next
    case (step s t)
    then show ?case using step_only [of e s t ?N n] assms(2,3) by (simp add: only_server)
  qed
  then show ?thesis by blast
qed

lemma faults_spare_other_files_witness:
  "(\<exists>s. step (demo_env\<lparr>faulty := True\<rparr>) ((client demo_lines, []), (server demo_files, []), [[107] \<mapsto> [1]]) s \<and> snd (snd s) [107] = Some [1])"
proof -
  let ?e = "demo_env\<lparr>faulty := True\<rparr>"
  let ?s = "((client demo_lines, []), (server demo_files, []), [[107] \<mapsto> [1]])"
  obtain k where k: "server demo_files = Malloc k" by (simp add: server_def getInt_def getString_def)
  have "acts ?e (gone (client demo_lines, [])) (Malloc k, []) [[107] \<mapsto> [1]] (k (replicate FILENAME_MAX 0), []) [] [[107] \<mapsto> [1]]"
    by (rule acts.block) (simp add: demo_env_def)
  from step.right [OF this] have "\<exists>s. step ?e ?s s" unfolding k by blast
  then obtain s where s: "step ?e ?s s" ..
  have "[107] \<notin> requested demo_lines" by (simp add: requested_def demo_lines_def demo_words)
  then have "snd (snd s) [107] = Some [1]"
    using faults_spare_other_files [of ?e demo_lines demo_files _ s "[107]", OF r_into_rtranclp [where r = "step ?e", OF s]] by (simp add: demo_env_def)
  then show ?thesis using s by blast
qed

section \<open>Where the code does not do what it means to\<close>

text \<open>\<open>open\<close> without \<^verbatim>\<open>O_TRUNC\<close>: the end of a longer old file stays behind the new one.\<close>

lemma longer_old_file_shows_through:
  assumes "files n = Some \<lparr>st_mode = S_IFREG, st_size = int (length data), readable = True, contents = Some data\<rparr>"
    and "d n = Some (data' @ tail)" "length data' = length data"
  shows "deliver files n d n = Some (data @ tail)"
  using assms by (simp add: deliver_def size_of_def S_IFREG_def)

text \<open>A block that held \<^verbatim>\<open>foo.txt\<close>, and the name \<^verbatim>\<open>b\<close> read into it: the string is \<^verbatim>\<open>boo.txt\<close>.\<close>

lemma old_block_shows_through:
  "c_string ([98] @ drop 1 ([102, 111, 111, 46, 116, 120, 116, 0] @ rest)) = [98, 111, 111, 46, 116, 120, 116]"
  by (simp add: c_string_def)

text \<open>The test of the mode lets a symbolic link pass, and the size of a link is not the one of its file: more is sent than announced.\<close>

lemma link_is_served: "size_of (\<lambda>_. Some \<lparr>st_mode = S_IFLNK, st_size = n, readable = True, contents = c\<rparr>) (Some name) = n"
  by (simp add: size_of_def S_IFREG_def S_IFLNK_def)

lemma more_than_announced:
  assumes "data \<noteq> []" "length data \<le> CHUNK" "0 < n"
  shows "acts e g (send_chunks data Reading 0 n k, b) d (send_chunks data (Writing data) 0 n k, b) [] d"
    and "acts e g (send_chunks data (Writing data) 0 n k, b) d (send_chunks data Reading (length data) (n - int (length data)) k, b) data d"
proof -
  let ?f = "\<lambda>r. case r of None \<Rightarrow> getAck (\<lambda>_. k) | Some buff \<Rightarrow>
    if buff = [] then send_chunks data Reading 0 n k else send_chunks data (Writing buff) 0 n k"
  have "acts e g (FRd CHUNK data ?f, b) d (?f (Some (take (length data) data)), b) [] d"
    using assms by (intro acts.read_file) simp_all
  then show "acts e g (send_chunks data Reading 0 n k, b) d (send_chunks data (Writing data) 0 n k, b) [] d"
    using assms by (subst send_chunks.code) simp
  show "acts e g (send_chunks data (Writing data) 0 n k, b) d (send_chunks data Reading (length data) (n - int (length data)) k, b) data d"
    using acts.write_all [of e g data "\<lambda>r. if r = Wrote (length data) then send_chunks data Reading (length data) (n - int (length data)) k else Abort" b d]
    by (subst send_chunks.code) (simp only: phase.case add_0 if_True simp_thms)
qed

text \<open>When the server is gone in the middle of a file, the client reads its end again and again.\<close>

lemma recv_spins: "0 < left \<Longrightarrow> acts e True (recv_chunks name Reading off left k, []) d (recv_chunks name Reading off left k, []) [] d"
proof -
  assume "0 < left"
  then have eq: "recv_chunks name Reading off left k = Rd CHUNK (\<lambda>r. case r of None \<Rightarrow> sendAck k
      | Some buff \<Rightarrow> if buff = [] then recv_chunks name Reading off left k else recv_chunks name (Writing buff) off left k)"
    by (subst recv_chunks.code) simp
  let ?f = "\<lambda>r. case r of None \<Rightarrow> sendAck k
      | Some buff \<Rightarrow> if buff = [] then recv_chunks name Reading off left k else recv_chunks name (Writing buff) off left k"
  have "acts e True (Rd CHUNK ?f, []) d (?f (Some []), []) [] d" by (rule acts.read_end) simp
  then show ?thesis by (subst (1) eq) simp
qed

lemma blank_line_crashes: "client ([10] # lines) = Abort"
  by (simp add: words_def trim_whitespace_def rtrim_def c_string_def is_blank_def strtok.simps)

end
