(* ===== verification/Ish.thy ===== *)
theory Ish
  imports Prelude "HOL-Library.Char_ord"
begin

text \<open>
  The command interpreter of the third assignment (\<^verbatim>\<open>src/Assignment3/2019101050\<close>): its state, the host it
  calls, and the calls on descriptors and output that its parts share. Text is a list of characters without
  the zero character at its end. The host is an argument: what it answers may depend on how many calls it has had
  before, which the state counts. A place where the C program writes or reads outside of an array or through a
  pointer that was never set is a failure (\<open>Inl\<close>).
\<close>

section \<open>State\<close>

datatype fault = Overflow | OutOfBounds | WildPointer | Unset

text \<open>What an open descriptor stands for. \<open>Inherited n\<close> is what the interpreter was started with as descriptor \<open>n\<close>.\<close>

datatype desc = Inherited nat | PipeR nat | PipeW nat | InFile string | OutFile string | AppFile string

datatype wstatus = Exited int | Signaled int | Stopped int | Changed

datatype sh_event =
    Text desc string
  | Lost string
  | Spawn int "string list" bool "desc option list"
  | Waited int wstatus
  | Killed int int

text \<open>
  \<open>homeDir\<close>, \<open>currDir\<close>, \<open>showDir\<close>, \<open>old_add\<close> and \<open>exit_code\<close> of \<^verbatim>\<open>util.h\<close> and \<^verbatim>\<open>util.c\<close>; \<open>stack\<close>, \<open>commands\<close> and \<open>top\<close> of
  \<^verbatim>\<open>process_maker.c\<close>; the history file; the environment; the descriptors of the process.
\<close>

record ish =
  homeDir :: string
  currDir :: string
  showDir :: string
  old_add :: "string option"
  exit_code :: int
  stack :: "int list"
  commands :: "string option list"
  top :: nat
  history :: "string list"
  environ :: "string \<Rightarrow> string option"
  fds :: "desc option list"
  pipes :: nat
  calls :: nat
  trace :: "sh_event list"

text \<open>
  The host. The first argument counts the calls before. \<open>st\<close> is the mode and the number of blocks of a file; \<open>junk_mode\<close> is what a mode that was never set holds; \<open>names\<close> is what
  \<^verbatim>\<open>readdir\<close> returns; \<open>children\<close> are the processes in \<^verbatim>\<open>/proc\<close> whose parent is the interpreter, \<open>reap\<close> is what \<^verbatim>\<open>waitpid(-1)\<close> returns until there is
  no more. \<open>quiet_periods\<close> is how many periods pass before the user stops a watch.
\<close>

record host =
  fork_pid :: "nat \<Rightarrow> int"
  wait_pid :: "nat \<Rightarrow> int \<Rightarrow> wstatus"
  reap :: "nat \<Rightarrow> (int \<times> wstatus) list"
  children :: "nat \<Rightarrow> (int \<times> string) list"
  kill_ok :: "nat \<Rightarrow> int \<Rightarrow> int \<Rightarrow> bool"
  stat_mode :: "nat \<Rightarrow> string \<Rightarrow> uint option"
  junk_mode :: "nat \<Rightarrow> uint"
  stat_blocks :: "nat \<Rightarrow> string \<Rightarrow> int"
  lstat_line :: "nat \<Rightarrow> string \<Rightarrow> (uint \<times> int \<times> string \<times> string \<times> int \<times> int \<times> int \<times> int \<times> int) option"
  chdir_ok :: "nat \<Rightarrow> string \<Rightarrow> bool"
  getcwd :: "nat \<Rightarrow> string option"
  names :: "nat \<Rightarrow> string \<Rightarrow> string list"
  can_open :: "nat \<Rightarrow> string \<Rightarrow> bool"
  proc_state :: "nat \<Rightarrow> int \<Rightarrow> char option"
  read_file :: "nat \<Rightarrow> string \<Rightarrow> string option"
  read_link :: "nat \<Rightarrow> string \<Rightarrow> string option"
  own_pid :: int
  quiet_periods :: "nat \<Rightarrow> nat"
  setenv_ok :: "nat \<Rightarrow> string \<Rightarrow> bool"

definition size_buff :: nat where "size_buff = 5000"

definition tick :: "ish \<Rightarrow> ish" where
  "tick s = s\<lparr>calls := calls s + 1\<rparr>"

definition fail :: "ish \<Rightarrow> ish" where
  "fail s = s\<lparr>exit_code := 1\<rparr>"

section \<open>Output\<close>

text \<open>Standard output is a terminal when the interpreter starts, so a line is written when it is complete.\<close>

definition put_fd :: "nat \<Rightarrow> string \<Rightarrow> ish \<Rightarrow> ish" where
  "put_fd fd t s = s\<lparr>trace := trace s @ [case fds s ! fd of None \<Rightarrow> Lost t | Some d \<Rightarrow> Text d t]\<rparr>"

definition say :: "string \<Rightarrow> ish \<Rightarrow> ish" where
  "say t s = put_fd 1 t s"

definition complain :: "string \<Rightarrow> ish \<Rightarrow> ish" where
  "complain t s = put_fd 2 t s"

section \<open>Descriptors\<close>

definition valid_fd :: "int \<Rightarrow> ish \<Rightarrow> bool" where
  "valid_fd fd s \<longleftrightarrow> 0 \<le> fd \<and> nat fd < length (fds s) \<and> fds s ! nat fd \<noteq> None"

text \<open>A new descriptor has the lowest number that is free; \<open>-1\<close> when there is none.\<close>

definition new_fd :: "desc \<Rightarrow> ish \<Rightarrow> int \<times> ish" where
  "new_fd d s = (case first_index (\<lambda>x. x = None) (fds s) of
       None \<Rightarrow> (-1, s)
     | Some i \<Rightarrow> (int i, s\<lparr>fds := (fds s)[i := Some d]\<rparr>))"

definition close :: "int \<Rightarrow> ish \<Rightarrow> ish" where
  "close fd s = (if valid_fd fd s then s\<lparr>fds := (fds s)[nat fd := None]\<rparr> else s)"

definition dup :: "int \<Rightarrow> ish \<Rightarrow> int \<times> ish" where
  "dup fd s = (if valid_fd fd s then new_fd (the (fds s ! nat fd)) s else (-1, s))"

definition dup2 :: "int \<Rightarrow> int \<Rightarrow> ish \<Rightarrow> ish" where
  "dup2 old new s = (if valid_fd old s \<and> 0 \<le> new \<and> nat new < length (fds s)
     then s\<lparr>fds := (fds s)[nat new := fds s ! nat old]\<rparr> else s)"

text \<open>\<open>pipe\<close>: both ends, or nothing when two descriptors are not free.\<close>

definition open_pipe :: "ish \<Rightarrow> (int \<times> int) option \<times> ish" where
  "open_pipe s = (case new_fd (PipeR (pipes s)) s of (r, s') \<Rightarrow>
     if r = -1 then (None, s)
     else case new_fd (PipeW (pipes s)) s' of (w, s'') \<Rightarrow>
       if w = -1 then (None, s) else (Some (r, w), s''\<lparr>pipes := pipes s + 1\<rparr>))"

section \<open>Strings\<close>

definition blank_char :: "char \<Rightarrow> bool" where
  "blank_char c \<longleftrightarrow> c = CHR '' '' \<or> c = CHR 0x09 \<or> c = CHR 0x0A"

definition trim_end :: "string \<Rightarrow> string" where
  "trim_end s = rev (dropWhile blank_char (rev s))"

definition trim_whitespace :: "string \<Rightarrow> string" where
  "trim_whitespace line = trim_end (dropWhile blank_char line)"

text \<open>\<^verbatim>\<open>strtok\<close>, called until it returns null: the parts between the characters with \<open>P\<close> that are not empty.\<close>

function strtok_all :: "(char \<Rightarrow> bool) \<Rightarrow> string \<Rightarrow> string list" where
  "strtok_all P s = (case dropWhile P s of
       [] \<Rightarrow> []
     | c # t \<Rightarrow> (c # takeWhile (\<lambda>b. \<not> P b) t) # strtok_all P (dropWhile (\<lambda>b. \<not> P b) t))"
  by pat_completeness auto

termination strtok_all
proof (relation "measure (\<lambda>(P, s). length s)")
  fix P :: "char \<Rightarrow> bool" and s c t
  assume "dropWhile P s = c # t"
  then show "((P, dropWhile (\<lambda>b. \<not> P b) t), P, s) \<in> measure (\<lambda>(P, s). length s)"
    using length_dropWhile_le [of P s] length_dropWhile_le [of "\<lambda>b. \<not> P b" t] by simp
qed simp

declare strtok_all.simps [simp del]

fun digits :: "nat \<Rightarrow> string" where
  "digits n = (if n < 10 then [char_of (48 + n)] else digits (n div 10) @ [char_of (48 + n mod 10)])"

declare digits.simps [simp del]

definition decimal :: "int \<Rightarrow> string" where
  "decimal n = (if n < 0 then CHR ''-'' # digits (nat (- n)) else digits (nat n))"

definition space_char :: "char \<Rightarrow> bool" where
  "space_char c \<longleftrightarrow> c = CHR '' '' \<or> CHR 0x09 \<le> c \<and> c \<le> CHR 0x0D"

definition decimal_digit :: "char \<Rightarrow> bool" where
  "decimal_digit c \<longleftrightarrow> CHR ''0'' \<le> c \<and> c \<le> CHR ''9''"

definition value_of :: "string \<Rightarrow> nat" where
  "value_of ds = foldl (\<lambda>n c. n * 10 + (of_char c - 48)) 0 ds"

text \<open>\<open>strtol\<close> with base ten and clamping; a conversion to \<open>int\<close> of what it returns keeps the low 32 bits.\<close>

definition strtol :: "string \<Rightarrow> int" where
  "strtol s = (case dropWhile space_char s of
       [] \<Rightarrow> 0
     | c # t \<Rightarrow> if c = CHR ''-'' then max (- (2 ^ 63)) (- int (value_of (takeWhile decimal_digit t)))
         else min (2 ^ 63 - 1) (int (value_of (takeWhile decimal_digit (if c = CHR ''+'' then t else c # t)))))"

definition to_int :: "int \<Rightarrow> int" where
  "to_int n = sint (word_of_int n :: uint)"

definition pad :: "nat \<Rightarrow> string \<Rightarrow> string" where
  "pad n t = replicate (n - length t) (CHR '' '') @ t"

lemma trim_subset: "set (trim_whitespace s) \<subseteq> set s"
proof -
  have "set (trim_end t) \<subseteq> set t" for t using set_dropWhileD [of _ blank_char "rev t"] by (auto simp: trim_end_def)
  then show ?thesis unfolding trim_whitespace_def using set_dropWhileD [of _ blank_char s] by fastforce
qed

end
