(* ===== verification/IshFiles.thy ===== *)
theory IshFiles
  imports Ish "HOL-Library.List_Lexorder" "HOL-Library.Multiset"
begin

unbundle bit_operations_syntax

text \<open>
  Builtin commands of the command interpreter that deal with directories, files and variables: \<^verbatim>\<open>util.c\<close>, \<^verbatim>\<open>ls.c\<close>,
  \<^verbatim>\<open>env_var.c\<close> and \<^verbatim>\<open>history_handler.c\<close>. The history file is the list of its lines, each with the newline at its end.
  Of a message of \<^verbatim>\<open>perror\<close> only the program's part is kept.
\<close>

section \<open>Directories\<close>

definition checked :: "string \<Rightarrow> fault + string" where
  "checked t = (if length t < size_buff then Inr t else Inl Overflow)"

definition get_raw_address :: "string \<Rightarrow> ish \<Rightarrow> fault + int \<times> string" where
  "get_raw_address cd_location s = (
     if cd_location = ''-''
       then (case old_add s of None \<Rightarrow> Inl WildPointer | Some a \<Rightarrow> andThen (checked a) (\<lambda>a. Inr (911, a)))
     else if take 1 cd_location = ''/'' then andThen (checked cd_location) (\<lambda>a. Inr (0, a))
     else if take 1 cd_location = ''~'' then andThen (checked (homeDir s @ drop 1 cd_location)) (\<lambda>a. Inr (0, a))
     else if currDir s = [] then Inl OutOfBounds
     else andThen (checked ((if last (currDir s) \<noteq> CHR ''/'' then currDir s @ ''/'' else currDir s) @ cd_location)) (\<lambda>a. Inr (0, a)))"

definition strip_slash :: "string \<Rightarrow> string" where
  "strip_slash t = (if last t = CHR ''/'' then butlast t else t)"

definition updateShowDir :: "ish \<Rightarrow> fault + ish" where
  "updateShowDir s = (
     if length (currDir s) < length (homeDir s)
       then if currDir s = [] then Inl OutOfBounds else Inr (s\<lparr>showDir := strip_slash (currDir s)\<rparr>)
     else if take (length (homeDir s)) (currDir s) \<noteq> homeDir s then Inr (s\<lparr>showDir := currDir s\<rparr>)
     else andThen (checked (''~/'' @ drop (length (homeDir s)) (currDir s))) (\<lambda>d. Inr (s\<lparr>showDir := strip_slash d\<rparr>)))"

definition pwd_handler :: "ish \<Rightarrow> ish" where
  "pwd_handler s = say (currDir s @ ''\<newline>'') s"

definition echo_handler :: "string list \<Rightarrow> ish \<Rightarrow> ish" where
  "echo_handler tokens s = say (concat (map (\<lambda>t. t @ '' '') (tl tokens)) @ ''\<newline>'') s"

definition S_IFDIR :: uint where "S_IFDIR = 0x4000"
definition S_IFREG :: uint where "S_IFREG = 0x8000"
definition S_IFLNK :: uint where "S_IFLNK = 0xA000"
definition S_IFMT :: uint where "S_IFMT = 0xF000"

definition cd_handler :: "host \<Rightarrow> string list \<Rightarrow> ish \<Rightarrow> fault + ish" where
  "cd_handler h tokens s = andThen (checked (tokens ! 1)) (\<lambda>cd_location.
     let s = (if old_add s = None then s\<lparr>old_add := Some (homeDir s)\<rparr> else s) in
     andThen (get_raw_address cd_location s) (\<lambda>(f, new_address).
       let ol = currDir s; mode = stat_mode h (calls s) new_address; s = tick s in
       if mode \<noteq> None \<and> S_IFDIR AND the mode \<noteq> 0
       then let s = (if chdir_ok h (calls s) new_address then (tick s)\<lparr>old_add := Some ol\<rparr>
                     else fail (complain ''cd : directory does not exist\<newline>'' (tick s)));
                s = (case getcwd h (calls s) of None \<Rightarrow> complain ''cd : getcwd failed\<newline>'' (tick s) | Some d \<Rightarrow> (tick s)\<lparr>currDir := d\<rparr>) in
         andThen (checked (currDir s @ ''/'')) (\<lambda>d.
         andThen (updateShowDir (s\<lparr>currDir := d\<rparr>)) (\<lambda>s.
           Inr (if f = 911 then pwd_handler s else s)))
       else Inr (fail (complain (''cd : directory does not exist: '' @ tokens ! 1 @ ''\<newline>'') s))))"

section \<open>Listing\<close>

definition month_name :: "int \<Rightarrow> string \<Rightarrow> string" where
  "month_name no name = (if 0 \<le> no \<and> no < 12
     then [''Jan'', ''Feb'', ''Mar'', ''Apr'', ''May'', ''Jun'', ''Jul'', ''Aug'', ''Sep'', ''Oct'', ''Nov'', ''Dec''] ! nat no else name)"

definition permission_format :: "uint \<Rightarrow> string" where
  "permission_format mode = map (\<lambda>i. if mode AND push_bit i 1 \<noteq> 0
     then if i mod 3 = 0 then CHR ''x'' else if i mod 3 = 1 then CHR ''w'' else CHR ''r'' else CHR ''-'') (rev [0..<9])"

definition two_digits :: "int \<Rightarrow> string" where
  "two_digits n = (if 0 \<le> n \<and> n < 10 then CHR ''0'' # decimal n else decimal n)"

text \<open>The entries of \<open>lstat_line\<close>: mode, links, user, group, size, month, day, hour and minute of the last change.\<close>

definition detail_print :: "host \<Rightarrow> string \<Rightarrow> string \<Rightarrow> bool \<Rightarrow> ish \<Rightarrow> ish" where
  "detail_print h add name detail s = (case lstat_line h (calls s) add of
       None \<Rightarrow> complain ''Error getting stat struct'' (fail (complain (add @ ''\<newline>'') (tick s)))
     | Some (mode, links, user, grp, bytes, month, day, hour, minute) \<Rightarrow>
         let permission = (if mode AND S_IFDIR \<noteq> 0 then ''d'' else if mode AND S_IFMT = S_IFLNK then ''l'' else ''-'') in
         if \<not> detail then say (name @ ''\<newline>'') (tick s)
         else say (permission @ permission_format mode @ pad 5 (decimal links) @ pad 10 user @ pad 10 grp @ pad 10 (decimal bytes) @ '' '' @
           month_name month [] @ '' '' @ two_digits day @ '' '' @ two_digits hour @ '':'' @ two_digits minute @ '' '' @ name @ ''\<newline>'') (tick s))"

definition sort_step :: "nat \<Rightarrow> nat \<Rightarrow> string list \<Rightarrow> string list" where
  "sort_step i j name = (if name ! i > name ! j then name[i := name ! j, j := name ! i] else name)"

definition sort_names :: "string list \<Rightarrow> string list" where
  "sort_names name = fold (\<lambda>i name. fold (sort_step i) [i + 1..<length name] name) [0..<length name - 1] name"

definition is_hidden :: "string \<Rightarrow> bool" where
  "is_hidden name \<longleftrightarrow> take 1 name = ''.''"

definition add_blocks :: "host \<Rightarrow> string \<Rightarrow> bool \<Rightarrow> string \<Rightarrow> int \<times> ish \<Rightarrow> int \<times> ish" where
  "add_blocks h location hidden name = (\<lambda>(total, s).
     if \<not> hidden \<and> is_hidden name then (total, s)
     else case stat_mode h (calls s) (location @ name) of
         None \<Rightarrow> (total, fail (complain ''Error getting stat struct'' (complain (location @ name @ ''\<newline>'') (tick s))))
       | Some _ \<Rightarrow> (total + stat_blocks h (calls s) (location @ name), tick s))"

definition print_ls_data ::
    "host \<Rightarrow> string \<Rightarrow> bool \<Rightarrow> bool \<Rightarrow> bool \<Rightarrow> string \<Rightarrow> bool \<Rightarrow> ish \<Rightarrow> fault + ish" where
  "print_ls_data h location hidden details is_file outName detail s = (
     let s = (if outName \<noteq> [] \<and> detail then say (outName @ '' :\<newline>'') s else s) in
     if is_file then Inr (detail_print h location outName details s)
     else if \<not> can_open h (calls s) location then Inl WildPointer
     else let total = length (names h (calls s) location); s = tick s; found = names h (calls s) location; s = tick s in
       if length found > total then Inl Overflow
       else if length found < total then Inl WildPointer
       else case fold (add_blocks h location hidden) found (0, s) of (total_blocks, s) \<Rightarrow>
         let s = (if details then say (''total '' @ decimal (total_blocks div 2) @ ''\<newline>'') s else s) in
         Inr (fold (\<lambda>name s. if is_hidden name \<and> \<not> hidden then s else detail_print h (location @ name) name details s) (sort_names found) s))"

text \<open>The flags of \<^verbatim>\<open>ls\<close>: \<open>None\<close> is a flag that is neither \<^verbatim>\<open>l\<close> nor \<^verbatim>\<open>a\<close>.\<close>

fun ls_flags :: "string \<Rightarrow> bool \<times> bool \<Rightarrow> (bool \<times> bool) option" where
  "ls_flags [] (details, hidden) = Some (details, hidden)"
| "ls_flags (c # cs) (details, hidden) = (if c = CHR ''l'' then ls_flags cs (True, hidden)
     else if c = CHR ''a'' then ls_flags cs (details, True) else None)"

fun ls_arguments :: "string list \<Rightarrow> bool \<times> bool \<Rightarrow> string list \<Rightarrow> ((bool \<times> bool) \<times> string list) option" where
  "ls_arguments [] f dirs = Some (f, rev dirs)"
| "ls_arguments (t # ts) f dirs = (if take 1 t = ''-''
     then (case ls_flags (drop 1 t) f of None \<Rightarrow> None | Some f \<Rightarrow> ls_arguments ts f dirs)
     else ls_arguments ts f (t # dirs))"

fun ls_each :: "host \<Rightarrow> bool \<Rightarrow> bool \<Rightarrow> bool \<Rightarrow> string list \<Rightarrow> ish \<Rightarrow> fault + ish" where
  "ls_each h details hidden detail [] s = Inr s"
| "ls_each h details hidden detail (t # ts) s = andThen (get_raw_address t s) (\<lambda>(_, location).
     let found = stat_mode h (calls s) location; mode = (case found of None \<Rightarrow> junk_mode h (calls s) | Some m \<Rightarrow> m); s = tick s in
     andThen (
       if found \<noteq> None \<and> S_IFDIR AND mode \<noteq> 0
         then if location = [] then Inl OutOfBounds
           else andThen (checked (if last location \<noteq> CHR ''/'' then location @ ''/'' else location)) (\<lambda>location.
             print_ls_data h location hidden details False t detail s)
       else if S_IFREG AND mode \<noteq> 0 then print_ls_data h location hidden details True t detail s
       else Inr (complain ''ls : No such file or directory\<newline>'' (fail s))) (ls_each h details hidden detail ts))"

definition ls_handler :: "host \<Rightarrow> string list \<Rightarrow> ish \<Rightarrow> fault + ish" where
  "ls_handler h tokens s = (case ls_arguments (tl tokens) (False, False) [] of
       None \<Rightarrow> Inr (complain ''ls : invalid flag only l and a supported\<newline>'' (fail s))
     | Some ((details, hidden), dirs) \<Rightarrow>
         if dirs = [] then ls_each h details hidden False [''.''] s else ls_each h details hidden True dirs s)"

section \<open>Variables\<close>

definition env_name :: "string \<Rightarrow> bool" where
  "env_name n \<longleftrightarrow> n \<noteq> [] \<and> CHR ''='' \<notin> set n"

definition getenv_handler :: "string list \<Rightarrow> ish \<Rightarrow> ish" where
  "getenv_handler tokens s = (
     if length tokens \<noteq> 2 then fail (complain ''getenv: invalid format : getenv <varname>\<newline>'' s)
     else case environ s (tokens ! 1) of
         None \<Rightarrow> fail (complain (''getenv: '' @ tokens ! 1 @ '' does not exist\<newline>'') s)
       | Some t \<Rightarrow> complain (t @ '' \<newline>'') s)"

text \<open>\<^verbatim>\<open>setenv\<close> returns \<open>-1\<close> when it fails; the code compares with 1.\<close>

definition setenv :: "host \<Rightarrow> string \<Rightarrow> string \<Rightarrow> ish \<Rightarrow> int \<times> ish" where
  "setenv h n v s = (if env_name n \<and> setenv_ok h (calls s) n then (0, (tick s)\<lparr>environ := (environ s)(n \<mapsto> v)\<rparr>) else (-1, tick s))"

definition setenv_handler :: "host \<Rightarrow> string list \<Rightarrow> ish \<Rightarrow> ish" where
  "setenv_handler h tokens s = (
     if length tokens = 1 \<or> length tokens \<ge> 4 then fail (complain ''setenv: invalid format : setenv <varname> <value>\<newline>'' s)
     else case setenv h (tokens ! 1) (if length tokens = 2 then [] else tokens ! 2) s of (r, s) \<Rightarrow>
       if r = 1 then fail (complain ''setenv: setenv failed\<newline>'' s)
       else say (''setenv: '' @ tokens ! 1 @ '' set successfully\<newline>'') s)"

definition unsetenv_handler :: "string list \<Rightarrow> ish \<Rightarrow> ish" where
  "unsetenv_handler tokens s = (
     if length tokens = 1 \<or> length tokens \<ge> 3 then fail (complain ''unsetenv: invalid format : unsetenv <varname> \<newline>'' s)
     else if \<not> env_name (tokens ! 1) then fail (complain ''unsetenv failed\<newline>'' s)
     else say (''unsetenv: '' @ tokens ! 1 @ '' unset successfully\<newline>'') (s\<lparr>environ := (environ s)(tokens ! 1 := None)\<rparr>))"

section \<open>History\<close>

definition NLINES :: nat where "NLINES = 100"

text \<open>The lines that are not empty; the array of lines has room for one less than its length.\<close>

definition read_history :: "ish \<Rightarrow> fault + string list" where
  "read_history s = (let ls = filter (\<lambda>l. l \<noteq> ''\<newline>'') (history s) in if length ls < NLINES then Inr ls else Inl Overflow)"

text \<open>
  \<^verbatim>\<open>fopen\<close> of the history file: its result is used without a check, by \<^verbatim>\<open>fclose\<close> at the latest, so a failure is
  an access through the null pointer. The file is opened for appending, to create it, for reading and for writing.
\<close>

definition history_file :: string where
  "history_file = ''/tmp/.shell_history''"

definition open_history :: "host \<Rightarrow> ish \<Rightarrow> fault + ish" where
  "open_history h s = (if can_open h (calls s) history_file then Inr (tick s) else Inl WildPointer)"

definition add_history :: "host \<Rightarrow> string \<Rightarrow> ish \<Rightarrow> fault + ish" where
  "add_history h tokens s = (
     if tokens = [] then Inr s
     else andThen (open_history h s) (\<lambda>s. andThen (open_history h s) (\<lambda>s.
       andThen (read_history s) (\<lambda>ls. andThen (open_history h s) (\<lambda>s.
       andThen (checked (tokens @ ''\<newline>'')) (\<lambda>new.
         Inr (s\<lparr>history := drop (length ls - 20) ls @ (if ls = [] \<or> new \<noteq> last ls then [new] else [])\<rparr>)))))))"

definition show_history :: "host \<Rightarrow> nat \<Rightarrow> ish \<Rightarrow> fault + ish" where
  "show_history h no s = andThen (open_history h s) (\<lambda>s. andThen (open_history h s) (\<lambda>s.
     andThen (read_history s) (\<lambda>ls. Inr (fold (\<lambda>l. say (l @ ''\<newline>'')) (drop (length ls - no) ls) s))))"

section \<open>Sorting is sorting\<close>

lemma length_sort_step [simp]: "length (sort_step i j xs) = length xs"
  by (simp add: sort_step_def)

lemma mset_sort_step: "i < length xs \<Longrightarrow> j < length xs \<Longrightarrow> mset (sort_step i j xs) = mset xs"
  by (simp add: sort_step_def mset_swap)

text \<open>The inner loop brings the least of the names from \<open>i\<close> to \<open>j\<close> to \<open>i\<close>, and leaves what is in front of \<open>i\<close> alone.\<close>

lemma inner_loop:
  assumes "i < j" "j \<le> length xs"
  shows "let ys = fold (sort_step i) [i + 1..<j] xs in length ys = length xs \<and> mset ys = mset xs \<and>
    take i ys = take i xs \<and> drop j ys = drop j xs \<and> (\<forall>k. i \<le> k \<and> k < j \<longrightarrow> ys ! i \<le> ys ! k)"
  using assms
proof (induction j)
  case (Suc j)
  show ?case
  proof (cases "i = j")
    case True
    then show ?thesis by (auto simp: less_Suc_eq)
  next
    case False
    let ?ys = "fold (sort_step i) [i + 1..<j] xs"
    have ij: "i < j" "j < length xs" using False Suc.prems by simp_all
    then have ys: "length ?ys = length xs" "mset ?ys = mset xs" "take i ?ys = take i xs" "drop j ?ys = drop j xs"
        "\<And>k. i \<le> k \<Longrightarrow> k < j \<Longrightarrow> ?ys ! i \<le> ?ys ! k"
      using Suc.IH by (simp_all add: Let_def)
    have f: "fold (sort_step i) [i + 1..<Suc j] xs = sort_step i j ?ys" using ij by simp
    have "drop (Suc j) ?ys = drop (Suc j) xs" using ys(4) by (metis drop_Suc tl_drop)
    moreover have "take i (sort_step i j ?ys) = take i ?ys" "drop (Suc j) (sort_step i j ?ys) = drop (Suc j) ?ys"
      using ij by (simp_all add: sort_step_def)
    moreover have "sort_step i j ?ys ! i \<le> sort_step i j ?ys ! k" if "i \<le> k" "k < Suc j" for k
    proof (cases "?ys ! i > ?ys ! j")
      case True
      then have s: "sort_step i j ?ys = ?ys[i := ?ys ! j, j := ?ys ! i]" by (simp add: sort_step_def)
      show ?thesis
      proof (cases "k = j \<or> k = i")
        case True
        then show ?thesis using s ij ys(1) \<open>?ys ! i > ?ys ! j\<close> by (auto simp: nth_list_update)
      next
        case False
        then have "?ys ! i \<le> ?ys ! k" using ys(5) [of k] that by simp
        then show ?thesis using s ij ys(1) \<open>?ys ! i > ?ys ! j\<close> False by (auto simp: nth_list_update)
      qed
    next
      case False
      then show ?thesis using that ys(5) [of k] by (cases "k = j") (auto simp: sort_step_def)
    qed
    ultimately show ?thesis using ij ys(1-3) unfolding f by (simp add: Let_def mset_sort_step)
  qed
qed simp

definition sorted_upto :: "nat \<Rightarrow> string list \<Rightarrow> bool" where
  "sorted_upto n xs \<longleftrightarrow> (\<forall>a b. a < n \<and> a \<le> b \<and> b < length xs \<longrightarrow> xs ! a \<le> xs ! b)"

lemma outer_step:
  assumes "sorted_upto i xs" "i < length xs"
  shows "sorted_upto (Suc i) (fold (sort_step i) [i + 1..<length xs] xs)"
proof -
  let ?ys = "fold (sort_step i) [i + 1..<length xs] xs"
  have ys: "length ?ys = length xs" "mset ?ys = mset xs" "take i ?ys = take i xs"
      "\<And>k. i \<le> k \<Longrightarrow> k < length xs \<Longrightarrow> ?ys ! i \<le> ?ys ! k"
    using inner_loop [of i "length xs" xs] assms(2) by (simp_all add: Let_def)
  have front: "?ys ! a = xs ! a" if "a < i" for a using ys(3) that assms(2) by (metis nth_take)
  have "mset (drop i ?ys) = mset (drop i xs)"
    using ys(2,3) by (metis append_take_drop_id mset_append add_left_cancel)
  then have rest: "set (drop i ?ys) = set (drop i xs)" by (rule mset_eq_setD)
  show ?thesis unfolding sorted_upto_def
  proof (intro allI impI)
    fix a b
    assume ab: "a < Suc i \<and> a \<le> b \<and> b < length ?ys"
    show "?ys ! a \<le> ?ys ! b"
    proof (cases "a < i")
      case True
      show ?thesis
      proof (cases "b < i")
        case True
        then show ?thesis using front \<open>a < i\<close> ab assms ys(1) unfolding sorted_upto_def by simp
      next
        case False
        then have "?ys ! b \<in> set (drop i ?ys)" using ab by (auto simp: in_set_conv_nth intro!: exI [of _ "b - i"])
        then obtain c where "c < length xs - i" "?ys ! b = xs ! (i + c)" unfolding rest by (auto simp: in_set_conv_nth)
        then have "i + c < length xs" "?ys ! b = xs ! (i + c)" by simp_all
        then show ?thesis using assms(1) True front unfolding sorted_upto_def by simp
      qed
    next
      case False
      then show ?thesis using ab ys(1) ys(4) [of b] by (cases "a = i") auto
    qed
  qed
qed

text \<open>The exchange sort of \<^verbatim>\<open>ls\<close> returns the names in the order of \<^verbatim>\<open>strcmp\<close>, each as often as it was there.\<close>

lemma sort_names_sorts: "sort_names xs = sort xs"
proof -
  let ?f = "\<lambda>i name. fold (sort_step i) [i + 1..<length name] name"
  have "length (fold ?f [0..<n] xs) = length xs \<and> mset (fold ?f [0..<n] xs) = mset xs \<and> sorted_upto n (fold ?f [0..<n] xs)"
    if "n \<le> length xs" for n
    using that
  proof (induction n)
    case 0
    then show ?case by (simp add: sorted_upto_def)
  next
    case (Suc n)
    let ?ys = "fold ?f [0..<n] xs"
    have ys: "length ?ys = length xs" "mset ?ys = mset xs" "sorted_upto n ?ys" using Suc by simp_all
    have "n < length ?ys" using Suc.prems ys(1) by simp
    from outer_step [OF ys(3) this] inner_loop [of n "length ?ys" ?ys] this ys show ?case by (simp add: Let_def)
  qed
  from this [of "length xs - 1"] have s: "length (sort_names xs) = length xs" "mset (sort_names xs) = mset xs" "sorted_upto (length xs - 1) (sort_names xs)"
    by (simp_all add: sort_names_def)
  have "sorted (sort_names xs)" unfolding sorted_iff_nth_mono
  proof (intro allI impI)
    fix a b
    assume "a \<le> b" "b < length (sort_names xs)"
    then show "sort_names xs ! a \<le> sort_names xs ! b" using s(1,3) unfolding sorted_upto_def by (cases "a = b") auto
  qed
  then show ?thesis using s(2) by (metis properties_for_sort)
qed

section \<open>What the history keeps\<close>

definition nl :: "string \<Rightarrow> string" where
  "nl c = c @ ''\<newline>''"

lemma nl_inj: "nl a = nl b \<longleftrightarrow> a = b"
  by (simp add: nl_def)

fun add_all :: "host \<Rightarrow> string list \<Rightarrow> ish \<Rightarrow> fault + ish" where
  "add_all h [] s = Inr s"
| "add_all h (c # cs) s = andThen (add_history h c s) (add_all h cs)"

lemma add_all_snoc: "add_all h (cs @ [c]) s = andThen (add_all h cs s) (add_history h c)"
  by (induction cs arbitrary: s) (simp_all add: andThen_def split: sum.split)

text \<open>How many of the commands the file holds: one more after a command that is not a repetition.\<close>

definition kept :: "string list \<Rightarrow> nat" where
  "kept cs = (if 2 \<le> length cs \<and> last cs = last (butlast cs) then 20 else 21)"

lemma read_history_cong: "read_history (s\<lparr>calls := n\<rparr>) = read_history s"
  by (simp add: read_history_def)

lemma remdups_adj_snoc: "remdups_adj (xs @ [x]) = (if xs \<noteq> [] \<and> last xs = x then remdups_adj xs else remdups_adj xs @ [x])"
proof (cases xs rule: rev_cases)
  case (snoc ys y)
  then show ?thesis using remdups_adj_append_two [of ys y x] by auto
qed simp

lemma add_history_step:
  assumes c: "c \<noteq> []" "length c + 1 < size_buff" and k: "20 \<le> k" "k \<le> 21"
    and h: "history s = map nl (drop (length d - k) d)" "[] \<notin> set d"
    and o: "\<forall>n. can_open h n history_file"
  shows "add_history h c s = Inr (s\<lparr>calls := calls s + 3,
    history := (if d \<noteq> [] \<and> last d = c then map nl (drop (length d - 20) d) else map nl (drop (length (d @ [c]) - 21) (d @ [c])))\<rparr>)"
proof -
  let ?ls = "map nl (drop (length d - k) d)"
  have "l \<noteq> ''\<newline>''" if "l \<in> set ?ls" for l
    using that h(2) by (auto simp: nl_def dest: in_set_dropD)
  then have f: "filter (\<lambda>l. l \<noteq> ''\<newline>'') ?ls = ?ls" by (simp add: filter_id_conv)
  have len: "length ?ls = min k (length d)" by simp
  have r: "read_history s = Inr ?ls"
    unfolding read_history_def h(1) f using len k by (simp add: NLINES_def)
  have chk: "checked (c @ ''\<newline>'') = Inr (nl c)" using c(2) by (simp add: checked_def nl_def)
  have keep: "drop (length ?ls - 20) ?ls = map nl (drop (length d - 20) d)"
  proof -
    have "length ?ls - 20 + (length d - k) = length d - 20" unfolding len using k by linarith
    then show ?thesis by (simp add: drop_map drop_drop add.commute)
  qed
  have l: "?ls = [] \<longleftrightarrow> d = []" using k by (cases d) auto
  have la: "last ?ls = nl (last d)" if "d \<noteq> []"
  proof -
    have "length d - k < length d" using that k by (cases d) auto
    then show ?thesis by (simp add: last_map)
  qed
  have run: "add_history h c s = Inr (s\<lparr>calls := calls s + 3,
      history := drop (length ?ls - 20) ?ls @ (if ?ls = [] \<or> nl c \<noteq> last ?ls then [nl c] else [])\<rparr>)"
    using c o unfolding add_history_def open_history_def
    by (simp add: tick_def read_history_cong r chk del: drop_map length_map length_drop)
  show ?thesis
  proof (cases "d \<noteq> [] \<and> last d = c")
    case True
    then show ?thesis unfolding run keep using l la by simp
  next
    case False
    moreover have "map nl (drop (length (d @ [c]) - 21) (d @ [c])) = map nl (drop (length d - 20) d) @ [nl c]" by simp
    ultimately show ?thesis unfolding run keep using l la by (auto simp: nl_inj)
  qed
qed

lemma add_all_keeps:
  assumes "history s = []" and "\<forall>c\<in>set cs. c \<noteq> [] \<and> length c + 1 < size_buff" and "\<forall>n. can_open h n history_file"
  shows "add_all h cs s = Inr (s\<lparr>calls := calls s + 3 * length cs,
    history := map nl (drop (length (remdups_adj cs) - kept cs) (remdups_adj cs))\<rparr>)"
  using assms(2)
proof (induction cs rule: rev_induct)
  case Nil
  then show ?case using assms(1) by simp
next
  case (snoc c cs)
  let ?d = "remdups_adj cs"
  let ?s = "s\<lparr>calls := calls s + 3 * length cs, history := map nl (drop (length ?d - kept cs) ?d)\<rparr>"
  have c: "c \<noteq> []" "length c + 1 < size_buff" "[] \<notin> set ?d" using snoc.prems by auto
  have k: "20 \<le> kept cs" "kept cs \<le> 21" by (simp_all add: kept_def)
  have "add_all h cs s = Inr ?s" using snoc by simp
  moreover have "?d \<noteq> [] \<and> last ?d = c \<longleftrightarrow> cs \<noteq> [] \<and> last cs = c" by auto
  moreover have "kept (cs @ [c]) = (if cs \<noteq> [] \<and> last cs = c then 20 else 21)"
    by (cases cs) (auto simp: kept_def)
  moreover note add_history_step [of c "kept cs" ?s ?d, OF c(1,2) k _ c(3) assms(3)]
  ultimately show ?case by (simp add: add_all_snoc remdups_adj_snoc)
qed


definition open_host :: host where
  "open_host = undefined\<lparr>can_open := (\<lambda>_ _. True)\<rparr>"


section \<open>Where the code does not do what it means to\<close>

text \<open>\<^verbatim>\<open>setenv\<close> that fails is reported as done, because it returns \<open>-1\<close> and not 1.\<close>

lemma failed_setenv_is_success:
  assumes "\<not> setenv_ok h (calls s) n"
  shows "setenv_handler h [''setenv'', n, v] s = say (''setenv: '' @ n @ '' set successfully\<newline>'') (tick s)"
  using assms by (simp add: setenv_handler_def setenv_def)

text \<open>A directory that cannot be opened: \<^verbatim>\<open>readdir\<close> is called with a null pointer.\<close>

lemma ls_unreadable: "\<not> can_open h (calls s) location \<Longrightarrow> print_ls_data h location hidden details False [] detail s = Inl WildPointer"
  by (simp add: print_ls_data_def)

text \<open>A name without a file may be listed as a file: the mode of the test was never set.\<close>

lemma ls_stale_mode:
  assumes "get_raw_address t s = Inr (0, a)" "stat_mode h (calls s) a = None" "junk_mode h (calls s) = S_IFREG"
  shows "ls_each h details hidden detail [t] s = print_ls_data h a hidden details True t detail (tick s)"
  using assms by (simp add: Let_def S_IFREG_def) (simp add: andThen_def split: sum.split)

lemma history_lines_double:
  assumes "read_history s = Inr [nl c]" and "\<forall>n. can_open h n history_file"
  shows "show_history h 10 s = Inr (say (c @ ''\<newline>\<newline>'') (tick (tick s)))"
  using assms by (simp add: show_history_def open_history_def nl_def tick_def read_history_cong)

text \<open>When the history file cannot be opened, the first command crashes the interpreter: \<^verbatim>\<open>fclose(NULL)\<close>.\<close>

lemma history_unopened_crashes:
  assumes "\<not> can_open h (calls s) history_file" and "c \<noteq> []"
  shows "add_history h c s = Inl WildPointer"
  using assms by (simp add: add_history_def open_history_def)

end
