(* ===== verification/IshJobs.thy ===== *)
theory IshJobs
  imports Ish
begin

text \<open>
  The jobs of the command interpreter, \<^verbatim>\<open>process_maker.c\<close> and \<^verbatim>\<open>zombie_killer.c\<close>: the table of child processes, the
  start of a process and the wait for it, and the commands that name a job. Signals and the terminal's process
  group are calls of the host.
\<close>

section \<open>The table\<close>

definition NJOB :: nat where "NJOB = 1000"

fun pid_to_job_from :: "nat \<Rightarrow> nat \<Rightarrow> int list \<Rightarrow> int \<Rightarrow> int" where
  "pid_to_job_from i 0 st pid = -1"
| "pid_to_job_from i (Suc n) st pid = (if st ! i = pid then int i else pid_to_job_from (i + 1) n st pid)"

definition pid_to_job :: "int \<Rightarrow> ish \<Rightarrow> int" where
  "pid_to_job pid s = pid_to_job_from 1 (top s - 1) (stack s) pid"

definition job_to_pid :: "int \<Rightarrow> ish \<Rightarrow> int" where
  "job_to_pid job s = (if job \<le> 0 \<or> job \<ge> int NJOB \<or> stack s ! nat job = 0 then -1 else stack s ! nat job)"

fun lower_top :: "int list \<Rightarrow> nat \<Rightarrow> nat" where
  "lower_top st (Suc n) = (if n \<ge> 1 \<and> st ! n = 0 then lower_top st n else Suc n)"
| "lower_top st 0 = 0"

definition remove_child :: "int \<Rightarrow> ish \<Rightarrow> fault + int \<times> ish" where
  "remove_child pid s = (let job = pid_to_job pid s in
     if job < 0 then Inl OutOfBounds
     else let st = (stack s)[nat job := 0] in
       Inr (job, s\<lparr>stack := st, commands := (commands s)[nat job := None], top := lower_top st (top s)\<rparr>))"

definition add_child :: "int \<Rightarrow> string \<Rightarrow> ish \<Rightarrow> fault + int \<times> ish" where
  "add_child pid command s = (let s = (if top s = 1 then s\<lparr>stack := replicate NJOB 0, commands := replicate NJOB None\<rparr> else s) in
     if top s = 0 then Inr (-1, fail (complain ''Error adding child process to stack'' s))
     else if top s \<ge> NJOB then Inl OutOfBounds
     else Inr (int (top s), s\<lparr>stack := (stack s)[top s := pid], commands := (commands s)[top s := Some command], top := top s + 1\<rparr>))"

section \<open>Starting and waiting\<close>

definition or_null :: "string option \<Rightarrow> string" where
  "or_null c = (case c of None \<Rightarrow> ''(null)'' | Some t \<Rightarrow> t)"

definition wait_n_switch :: "host \<Rightarrow> int \<Rightarrow> ish \<Rightarrow> fault + ish" where
  "wait_n_switch h pid s = (let status = wait_pid h (calls s) pid;
       s = tick s\<lparr>trace := trace s @ [Killed pid 18, Waited pid status]\<rparr> in
     case status of
       Exited code \<Rightarrow> andThen (remove_child pid s) (\<lambda>(_, s). Inr (s\<lparr>exit_code := code\<rparr>))
     | Stopped sig \<Rightarrow>
         let s = say ''\<newline>'' (s\<lparr>exit_code := sig\<rparr>); job = pid_to_job pid s in
         if job < 0 then Inl OutOfBounds
         else Inr (complain (''\<newline>['' @ decimal job @ ''] Stopped '' @ or_null (commands s ! nat job) @ '' ('' @ decimal pid @ '')\<newline>'') s)
     | Signaled sig \<Rightarrow> andThen (remove_child pid s) (\<lambda>(_, s). Inr (s\<lparr>exit_code := sig\<rparr>))
     | Changed \<Rightarrow> Inr s)"

text \<open>What a child closes before \<^verbatim>\<open>execvp\<close>; \<open>pipe\<close> is null for the last command of a line of pipes.\<close>

definition child_fds :: "(int \<times> int) option \<Rightarrow> ish \<Rightarrow> desc option list" where
  "child_fds pipe s = (case pipe of None \<Rightarrow> fds s | Some (r, w) \<Rightarrow> fds (close r (close w s)))"

definition make_process ::
    "host \<Rightarrow> string list \<Rightarrow> bool \<Rightarrow> (int \<times> int) option \<Rightarrow> int \<Rightarrow> string \<Rightarrow> ish \<Rightarrow> fault + ish" where
  "make_process h tokens bg pipe prev_open oldcommand s = (let rc = fork_pid h (calls s); s = tick s in
     if rc < 0 then Inr (fail (complain ''creating child process failed\<newline>'' s))
     else andThen (add_child rc oldcommand s) (\<lambda>(job, s).
       let s = s\<lparr>trace := trace s @ [Spawn rc tokens bg (child_fds pipe s)]\<rparr>;
           s = (case pipe of None \<Rightarrow> s
             | Some (r, w) \<Rightarrow> let s = close w s in if prev_open \<noteq> -1 then close prev_open s else s) in
       if bg then Inr (say (''+['' @ decimal job @ ''] ('' @ decimal rc @ '')\<newline>'') s)
       else wait_n_switch h rc s))"

section \<open>Commands on jobs\<close>

definition send_signal :: "host \<Rightarrow> int \<Rightarrow> int \<Rightarrow> ish \<Rightarrow> bool \<times> ish" where
  "send_signal h pid sig s = (kill_ok h (calls s) pid sig, tick s\<lparr>trace := trace s @ [Killed pid sig]\<rparr>)"

definition kjob_handler :: "host \<Rightarrow> string list \<Rightarrow> ish \<Rightarrow> ish" where
  "kjob_handler h tokens s = (
     if length tokens \<noteq> 3 then fail (complain ''kjob : Invalid format : kjob <job number> <signal number>\<newline>'' s)
     else let pid = job_to_pid (to_int (strtol (tokens ! 1))) s; sig = to_int (strtol (tokens ! 2)) in
       if pid \<le> 0 then fail (complain ''kjob : Job does not exist \<newline>'' s)
       else if sig < 0 then fail (complain ''kjob : invalid signal \<newline>'' s)
       else case send_signal h pid sig s of (ok, s) \<Rightarrow> if ok then s else fail (complain ''Signal Failed'' s))"

definition bg_handler :: "host \<Rightarrow> string list \<Rightarrow> ish \<Rightarrow> ish" where
  "bg_handler h tokens s = (
     if length tokens \<noteq> 2 then fail (complain ''bg: invalid format! bg <job number>\<newline>'' s)
     else let pid = job_to_pid (to_int (strtol (tokens ! 1))) s in
       if pid \<le> 0 then complain ''Job does not exist \<newline>'' (fail s)
       else case send_signal h pid 18 s of (ok, s) \<Rightarrow> if ok then s else fail s)"

definition fg_handler :: "host \<Rightarrow> string list \<Rightarrow> ish \<Rightarrow> fault + ish" where
  "fg_handler h tokens s = (
     if length tokens \<noteq> 2 then Inr (fail (complain ''fg: invalid format! correct format is fg <job number>\<newline>'' s))
     else let pid = job_to_pid (to_int (strtol (tokens ! 1))) s in
       if pid \<le> 0 then Inr (fail (complain ''Job does not exist \<newline>'' s))
       else wait_n_switch h pid s)"

definition overkill_handler :: "host \<Rightarrow> ish \<Rightarrow> ish" where
  "overkill_handler h s = fold (\<lambda>i s. if stack s ! i > 0 then snd (send_signal h (stack s ! i) 9 s) else s) [1..<top s] s"

definition job_state :: "char \<Rightarrow> string" where
  "job_state c = (if c = CHR ''R'' then ''Running'' else if c = CHR ''T'' then ''Stopped'' else if c = CHR ''Z'' then ''Zombie''
     else if c = CHR ''S'' then ''Running'' else ''Unknown State'')"

definition print_job_data :: "host \<Rightarrow> int \<Rightarrow> ish \<Rightarrow> ish" where
  "print_job_data h pid s = (let job = pid_to_job pid s in
     case proc_state h (calls s) pid of
       None \<Rightarrow> complain (decimal pid @ '' process not found\<newline>'') (tick s)
     | Some c \<Rightarrow> say (''['' @ decimal job @ ''] '' @ job_state c @ '' '' @ or_null (commands s ! nat job) @ '' ('' @ decimal pid @ '')\<newline>'') (tick s))"

definition job_printer :: "host \<Rightarrow> ish \<Rightarrow> ish" where
  "job_printer h s = fold (\<lambda>i s. if stack s ! i \<noteq> 0 then print_job_data h (stack s ! i) s else s) [1..<top s] s"

section \<open>Children that have ended\<close>

definition status_text :: "wstatus \<Rightarrow> string" where
  "status_text st = (case st of Exited t \<Rightarrow> ''normally with status '' @ decimal t | Signaled t \<Rightarrow> ''with signal '' @ decimal t
     | _ \<Rightarrow> ''exited somehow'')"

definition red :: string where "red = CHR 0x1B # ''[1m'' @ CHR 0x1B # ''[31m''"

fun reap_children :: "(int \<times> string) list \<Rightarrow> (int \<times> wstatus) list \<Rightarrow> ish \<Rightarrow> fault + ish" where
  "reap_children procs [] s = Inr s"
| "reap_children procs ((pid, status) # rest) s =
     andThen (remove_child pid s) (\<lambda>(job, s).
       let name = (case map_of procs pid of None \<Rightarrow> '' '' | Some n \<Rightarrow> n) in
       reap_children procs rest (complain (''\<newline>'' @ red @ ''-['' @ decimal job @ '']'' @ name @ '' ('' @ decimal pid @ '') has exited ''
         @ status_text status @ ''\<newline>'') s))"

definition zombie_process_check :: "host \<Rightarrow> ish \<Rightarrow> fault + ish" where
  "zombie_process_check h s =
     (if can_open h (calls s) ''/proc'' then reap_children (children h (calls s)) (reap h (calls s)) (tick s) else Inr s)"

definition killbg :: "host \<Rightarrow> ish \<Rightarrow> ish" where
  "killbg h s = (if can_open h (calls s) ''/proc''
     then fold (\<lambda>(pid, _) s. snd (send_signal h pid 9 s)) (children h (calls s)) s else s)"

section \<open>The table is a map from job numbers\<close>

text \<open>
  Jobs have numbers from one below \<open>top\<close>; a process has one job; the last job below \<open>top\<close> is in use.
\<close>

definition jobs_ok :: "ish \<Rightarrow> bool" where
  "jobs_ok s \<longleftrightarrow> length (stack s) = NJOB \<and> length (commands s) = NJOB \<and> 1 \<le> top s \<and> top s \<le> NJOB \<and>
     stack s ! 0 = 0 \<and> (\<forall>i<NJOB. stack s ! i \<ge> 0 \<and> (commands s ! i = None \<longleftrightarrow> stack s ! i = 0)) \<and>
     (\<forall>i<NJOB. top s \<le> i \<longrightarrow> stack s ! i = 0) \<and>
     (\<forall>i<NJOB. \<forall>j<NJOB. stack s ! i = stack s ! j \<and> stack s ! i \<noteq> 0 \<longrightarrow> i = j) \<and>
     (top s > 1 \<longrightarrow> stack s ! (top s - 1) \<noteq> 0)"

definition job_map :: "ish \<Rightarrow> nat \<Rightarrow> (int \<times> string) option" where
  "job_map s j = (if j < NJOB \<and> stack s ! j \<noteq> 0 then Some (stack s ! j, or_null (commands s ! j)) else None)"

lemma job_mapI: "j < NJOB \<Longrightarrow> stack s ! j \<noteq> 0 \<Longrightarrow> job_map s j = Some (stack s ! j, or_null (commands s ! j))"
  by (simp add: job_map_def)

lemma pid_to_job_from_None: "\<forall>j. i \<le> j \<and> j < i + n \<longrightarrow> st ! j \<noteq> pid \<Longrightarrow> pid_to_job_from i n st pid = -1"
  by (induction i n st pid rule: pid_to_job_from.induct) auto

lemma pid_to_job_from_Some:
  "i \<le> j \<Longrightarrow> j < i + n \<Longrightarrow> st ! j = pid \<Longrightarrow> \<forall>k. i \<le> k \<and> k < j \<longrightarrow> st ! k \<noteq> pid \<Longrightarrow> pid_to_job_from i n st pid = int j"
proof (induction i n st pid rule: pid_to_job_from.induct)
  case (2 i n st pid)
  then show ?case by (cases "i = j") auto
qed simp

lemma pid_to_job_eq:
  assumes "jobs_ok s" "job_map s j = Some (pid, c)"
  shows "pid_to_job pid s = int j"
proof -
  have j: "j < NJOB" "stack s ! j = pid" "pid \<noteq> 0" using assms(2) by (auto simp: job_map_def split: if_splits)
  have "1 \<le> j" using assms(1) j by (cases j) (auto simp: jobs_ok_def)
  moreover have "j < top s" using assms(1) j unfolding jobs_ok_def by (metis not_le)
  moreover have "stack s ! k \<noteq> pid" if "k < j" for k using assms(1) j that unfolding jobs_ok_def by (metis less_trans nat_less_le)
  ultimately show ?thesis unfolding pid_to_job_def using j by (intro pid_to_job_from_Some) auto
qed

lemma pid_to_job_none:
  assumes "jobs_ok s" "pid \<noteq> 0" "\<forall>j c. job_map s j \<noteq> Some (pid, c)"
  shows "pid_to_job pid s = -1"
  unfolding pid_to_job_def
proof (rule pid_to_job_from_None, intro allI impI)
  fix j
  assume "1 \<le> j \<and> j < 1 + (top s - 1)"
  then have "j < NJOB" using assms(1) by (auto simp: jobs_ok_def)
  then show "stack s ! j \<noteq> pid" using assms(2,3) job_mapI [of j s] by metis
qed

lemma job_to_pid_eq:
  assumes "jobs_ok s"
  shows "job_to_pid j s = (case if j < 0 then None else job_map s (nat j) of None \<Rightarrow> -1 | Some (pid, _) \<Rightarrow> pid)"
  using assms by (auto simp: job_to_pid_def job_map_def jobs_ok_def nat_less_iff)

lemma lower_top_props:
  "1 \<le> n \<Longrightarrow> 1 \<le> lower_top st n \<and> lower_top st n \<le> n \<and> (lower_top st n > 1 \<longrightarrow> st ! (lower_top st n - 1) \<noteq> 0) \<and>
    (\<forall>i. lower_top st n \<le> i \<and> i < n \<longrightarrow> st ! i = 0)"
proof (induction n)
  case (Suc n)
  show ?case
  proof (cases "n \<ge> 1 \<and> st ! n = 0")
    case True
    then show ?thesis using Suc by (auto simp: less_Suc_eq)
  next
    case False
    then show ?thesis by (cases n) auto
  qed
qed simp

lemma add_child_map:
  assumes ok: "jobs_ok s" and pid: "0 < pid" "\<forall>j c. job_map s j \<noteq> Some (pid, c)" and room: "top s < NJOB"
  obtains s' where "add_child pid c s = Inr (int (top s), s')" "jobs_ok s'" "job_map s' = (job_map s)(top s \<mapsto> (pid, c))"
    "job_map s (top s) = None"
proof -
  let ?s = "if top s = 1 then s\<lparr>stack := replicate NJOB 0, commands := replicate NJOB None\<rparr> else s"
  let ?t = "s\<lparr>stack := (stack s)[top s := pid], commands := (commands s)[top s := Some c], top := top s + 1\<rparr>"
  have z: "stack s ! i = 0" "commands s ! i = None" if "top s = 1" "i < NJOB" for i
    using ok that unfolding jobs_ok_def by (cases "i = 0"; simp)+
  have "stack s = replicate NJOB 0 \<and> commands s = replicate NJOB None" if "top s = 1"
    using ok z that by (auto simp: jobs_ok_def intro!: nth_equalityI)
  then have "?s = s" by (cases "top s = 1") simp_all
  moreover have top: "1 \<le> top s" using ok by (simp add: jobs_ok_def)
  ultimately have 1: "add_child pid c s = Inr (int (top s), ?t)" using room by (simp add: add_child_def Let_def)
  have len: "length (stack s) = NJOB" "length (commands s) = NJOB" using ok by (simp_all add: jobs_ok_def)
  have fresh: "stack s ! i \<noteq> pid" if "i < NJOB" for i using pid that job_mapI [of i s] by (metis less_irrefl)
  have 2: "jobs_ok ?t" unfolding jobs_ok_def
    using ok room pid(1) top len fresh by (auto simp: jobs_ok_def nth_list_update)
  have 3: "job_map ?t = (job_map s)(top s \<mapsto> (pid, c))"
    using room pid(1) len by (auto simp: job_map_def nth_list_update or_null_def fun_eq_iff)
  have "job_map s (top s) = None" using ok room by (simp add: job_map_def jobs_ok_def)
  then show ?thesis using that 1 2 3 by blast
qed

lemma add_child_ex:
  assumes "jobs_ok s" and "0 < pid" "\<forall>j c. job_map s j \<noteq> Some (pid, c)" and "top s < NJOB"
  shows "\<exists>s'. add_child pid c s = Inr (int (top s), s') \<and> jobs_ok s' \<and> job_map s' = (job_map s)(top s \<mapsto> (pid, c))"
  using add_child_map [OF assms, of c] by metis

lemma remove_child_map:
  assumes ok: "jobs_ok s" and j: "job_map s j = Some (pid, c)"
  obtains s' where "remove_child pid s = Inr (int j, s')" "jobs_ok s'" "job_map s' = (job_map s)(j := None)"
proof -
  let ?t = "s\<lparr>stack := (stack s)[j := 0], commands := (commands s)[j := None], top := lower_top ((stack s)[j := 0]) (top s)\<rparr>"
  have 1: "remove_child pid s = Inr (int j, ?t)" unfolding remove_child_def pid_to_job_eq [OF ok j] by (simp add: Let_def)
  have len: "length (stack s) = NJOB" "length (commands s) = NJOB" "1 \<le> top s" using ok by (simp_all add: jobs_ok_def)
  note low = lower_top_props [OF len(3), of "(stack s)[j := 0]"]
  have jn: "j < NJOB" using j by (auto simp: job_map_def split: if_splits)
  have above: "(stack s)[j := 0] ! i = 0" if "i < NJOB" "lower_top ((stack s)[j := 0]) (top s) \<le> i" for i
  proof (cases "i < top s")
    case True
    then show ?thesis using low that by blast
  next
    case False
    then show ?thesis using ok that len by (cases "i = j") (simp_all add: jobs_ok_def)
  qed
  have "jobs_ok ?t" unfolding jobs_ok_def
  proof (intro conjI)
    show "\<forall>i<NJOB. top ?t \<le> i \<longrightarrow> stack ?t ! i = 0" using above by simp
    show "1 \<le> top ?t" "top ?t > 1 \<longrightarrow> stack ?t ! (top ?t - 1) \<noteq> 0" using low by simp_all
    show "top ?t \<le> NJOB" using low ok by (simp add: jobs_ok_def)
  qed (use ok jn len in \<open>auto simp: jobs_ok_def nth_list_update\<close>)
  moreover have "job_map ?t = (job_map s)(j := None)"
    using jn len by (auto simp: job_map_def nth_list_update fun_eq_iff)
  ultimately show ?thesis using that 1 by blast
qed

lemma remove_child_ex:
  assumes "jobs_ok s" "job_map s j = Some (pid, c)"
  shows "\<exists>s'. remove_child pid s = Inr (int j, s') \<and> jobs_ok s' \<and> job_map s' = (job_map s)(j := None)"
  by (rule remove_child_map [OF assms]) blast

text \<open>Output, descriptors and the other fields do not matter to the table.\<close>

lemma table_fields:
  "stack s = stack t \<Longrightarrow> commands s = commands t \<Longrightarrow> top s = top t \<Longrightarrow> jobs_ok s = jobs_ok t \<and> job_map s = job_map t"
  by (simp add: jobs_ok_def job_map_def fun_eq_iff)

lemma table_unchanged [simp]:
  "stack (put_fd fd x s) = stack s" "commands (put_fd fd x s) = commands s" "top (put_fd fd x s) = top s"
  "stack (tick s) = stack s" "commands (tick s) = commands s" "top (tick s) = top s"
  "stack (fail s) = stack s" "commands (fail s) = commands s" "top (fail s) = top s"
  "stack (close n s) = stack s" "commands (close n s) = commands s" "top (close n s) = top s"
  by (simp_all add: put_fd_def tick_def fail_def close_def)

lemma exit_code_unchanged [simp]:
  "exit_code (put_fd fd x s) = exit_code s" "exit_code (tick s) = exit_code s" "exit_code (close n s) = exit_code s"
  by (simp_all add: put_fd_def tick_def close_def)

text \<open>What waiting for a process of the table does to the table, for each way in which the wait can end.\<close>

definition after_wait :: "wstatus \<Rightarrow> nat \<Rightarrow> (nat \<Rightarrow> (int \<times> string) option) \<Rightarrow> nat \<Rightarrow> (int \<times> string) option" where
  "after_wait status j m = (case status of Exited _ \<Rightarrow> m(j := None) | Signaled _ \<Rightarrow> m(j := None) | _ \<Rightarrow> m)"

definition code_of :: "wstatus \<Rightarrow> int \<Rightarrow> int" where
  "code_of status c = (case status of Exited n \<Rightarrow> n | Signaled n \<Rightarrow> n | Stopped n \<Rightarrow> n | Changed \<Rightarrow> c)"

lemma remove_child_fields: "remove_child pid s = Inr (j, s') \<Longrightarrow> exit_code s' = exit_code s \<and> fds s' = fds s \<and> trace s' = trace s"
  by (auto simp: remove_child_def Let_def split: if_splits)

lemma wait_n_switch_table:
  assumes ok: "jobs_ok s" and j: "job_map s j = Some (pid, c)"
  obtains s' where "wait_n_switch h pid s = Inr s'" "jobs_ok s'" "job_map s' = after_wait (wait_pid h (calls s) pid) j (job_map s)"
    "exit_code s' = code_of (wait_pid h (calls s) pid) (exit_code s)"
proof -
  let ?st = "wait_pid h (calls s) pid"
  let ?s = "tick s\<lparr>trace := trace s @ [Killed pid 18, Waited pid ?st]\<rparr>"
  have eq: "jobs_ok ?s = jobs_ok s \<and> job_map ?s = job_map s" by (rule table_fields) simp_all
  with ok j have ok': "jobs_ok ?s" and j': "job_map ?s j = Some (pid, c)" by simp_all
  show ?thesis
  proof (cases ?st)
    case (Exited n)
    from remove_child_map [OF ok' j'] obtain t where t: "remove_child pid ?s = Inr (int j, t)" "jobs_ok t" "job_map t = (job_map s)(j := None)"
      using eq by metis
    have u: "jobs_ok (t\<lparr>exit_code := n\<rparr>) = jobs_ok t \<and> job_map (t\<lparr>exit_code := n\<rparr>) = job_map t" by (rule table_fields) simp_all
    show ?thesis by (rule that [of "t\<lparr>exit_code := n\<rparr>"]) (use Exited t u in \<open>simp_all add: wait_n_switch_def after_wait_def code_of_def\<close>)
  next
    case (Signaled n)
    from remove_child_map [OF ok' j'] obtain t where t: "remove_child pid ?s = Inr (int j, t)" "jobs_ok t" "job_map t = (job_map s)(j := None)"
      using eq by metis
    have u: "jobs_ok (t\<lparr>exit_code := n\<rparr>) = jobs_ok t \<and> job_map (t\<lparr>exit_code := n\<rparr>) = job_map t" by (rule table_fields) simp_all
    show ?thesis by (rule that [of "t\<lparr>exit_code := n\<rparr>"]) (use Signaled t u in \<open>simp_all add: wait_n_switch_def after_wait_def code_of_def\<close>)
  next
    case (Stopped n)
    let ?t = "say ''\<newline>'' (?s\<lparr>exit_code := n\<rparr>)"
    let ?u = "complain (''\<newline>['' @ decimal (int j) @ ''] Stopped '' @ or_null (commands ?t ! j) @ '' ('' @ decimal pid @ '')\<newline>'') ?t"
    have u: "jobs_ok ?t = jobs_ok s \<and> job_map ?t = job_map s" "jobs_ok ?u = jobs_ok s \<and> job_map ?u = job_map s"
      by (rule table_fields; simp add: say_def complain_def)+
    then have "pid_to_job pid ?t = int j" using ok j by (intro pid_to_job_eq) simp_all
    then have "wait_n_switch h pid s = Inr ?u" using Stopped by (simp add: wait_n_switch_def Let_def)
    then show ?thesis by (rule that [of ?u]) (use Stopped u ok in \<open>simp_all add: after_wait_def code_of_def say_def complain_def\<close>)
  next
    case Changed
    then show ?thesis using that [of ?s] eq ok by (simp add: wait_n_switch_def after_wait_def code_of_def)
  qed
qed

lemma add_child_fields: "add_child pid c s = Inr (j, s') \<Longrightarrow> 0 < top s \<Longrightarrow> exit_code s' = exit_code s \<and> calls s' = calls s \<and> fds s' = fds s \<and> trace s' = trace s"
  by (auto simp: add_child_def Let_def split: if_splits)

lemma calls_unchanged [simp]: "calls (put_fd fd x s) = calls s" "calls (close n s) = calls s" "calls (fail s) = calls s" "calls (tick s) = calls s + 1"
  by (simp_all add: put_fd_def close_def fail_def tick_def)

text \<open>
  C13. The table of jobs behaves as a map from job numbers to processes: a new process gets the number \<open>top\<close>, which no job
  has, a process is found under its number and its number under the process, and the end of a process
  takes exactly its entry out; every call keeps the table well formed.
\<close>

theorem job_table_refines_map:
  assumes "jobs_ok s"
  shows "(\<forall>pid c. 0 < pid \<and> (\<forall>j c. job_map s j \<noteq> Some (pid, c)) \<and> top s < NJOB \<longrightarrow>
      job_map s (top s) = None \<and>
      (\<exists>s'. add_child pid c s = Inr (int (top s), s') \<and> jobs_ok s' \<and> job_map s' = (job_map s)(top s \<mapsto> (pid, c)))) \<and>
    (\<forall>j pid c. job_map s j = Some (pid, c) \<longrightarrow>
      pid_to_job pid s = int j \<and> job_to_pid (int j) s = pid \<and>
      (\<exists>s'. remove_child pid s = Inr (int j, s') \<and> jobs_ok s' \<and> job_map s' = (job_map s)(j := None))) \<and>
    (\<forall>j. job_map s j = None \<longrightarrow> job_to_pid (int j) s = -1)"
proof (intro conjI allI impI)
  fix pid c
  assume p: "0 < pid \<and> (\<forall>j c. job_map s j \<noteq> Some (pid, c)) \<and> top s < NJOB"
  then show "job_map s (top s) = None" using assms by (simp add: job_map_def jobs_ok_def)
  show "\<exists>s'. add_child pid c s = Inr (int (top s), s') \<and> jobs_ok s' \<and> job_map s' = (job_map s)(top s \<mapsto> (pid, c))"
    using p by (intro add_child_ex assms) auto
next
  fix j pid c
  assume j: "job_map s j = Some (pid, c)"
  show "pid_to_job pid s = int j" by (rule pid_to_job_eq [OF assms j])
  show "job_to_pid (int j) s = pid" using job_to_pid_eq [OF assms, of "int j"] j by simp
  show "\<exists>s'. remove_child pid s = Inr (int j, s') \<and> jobs_ok s' \<and> job_map s' = (job_map s)(j := None)"
    by (rule remove_child_ex [OF assms j])
next
  fix j
  assume "job_map s j = None"
  then show "job_to_pid (int j) s = -1" using job_to_pid_eq [OF assms, of "int j"] by simp
qed

text \<open>
  C26. A command in the foreground: its process is entered into the table, and when the wait for it ends because the
  process has ended, the table is again what it was and the exit code is the one of the process; when the
  process was stopped it stays in the table under its number.
\<close>

theorem foreground_process:
  assumes ok: "jobs_ok s" and rc: "0 < fork_pid h (calls s)" "\<forall>j c. job_map s j \<noteq> Some (fork_pid h (calls s), c)" and room: "top s < NJOB"
  shows "\<exists>s'. make_process h tokens False pipe prev_open cmd s = Inr s' \<and> jobs_ok s' \<and>
    job_map s' = after_wait (wait_pid h (calls s + 1) (fork_pid h (calls s))) (top s) ((job_map s)(top s \<mapsto> (fork_pid h (calls s), cmd))) \<and>
    exit_code s' = code_of (wait_pid h (calls s + 1) (fork_pid h (calls s))) (exit_code s)"
proof -
  let ?rc = "fork_pid h (calls s)"
  have tk: "jobs_ok (tick s) = jobs_ok s \<and> job_map (tick s) = job_map s" by (rule table_fields) simp_all
  obtain t where t: "add_child ?rc cmd (tick s) = Inr (int (top s), t)" "jobs_ok t" "job_map t = (job_map s)(top s \<mapsto> (?rc, cmd))"
    using add_child_ex [of "tick s" ?rc cmd] ok rc room tk by auto
  have "0 < top s" using ok by (simp add: jobs_ok_def)
  with add_child_fields [OF t(1)] have f: "exit_code t = exit_code s" "calls t = calls s + 1" by simp_all
  let ?t = "t\<lparr>trace := trace t @ [Spawn ?rc tokens False (child_fds pipe t)]\<rparr>"
  define u where "u = (case pipe of None \<Rightarrow> ?t | Some (r, w) \<Rightarrow> let s = close w ?t in if prev_open \<noteq> -1 then close prev_open s else s)"
  have "stack u = stack t" "commands u = commands t" "top u = top t" and g: "exit_code u = exit_code t" "calls u = calls t"
    by (simp_all add: u_def Let_def split: option.split prod.split)
  then have u: "jobs_ok u = jobs_ok t \<and> job_map u = job_map t" by (intro table_fields)
  then have "jobs_ok u" "job_map u (top s) = Some (?rc, cmd)" using t by simp_all
  from wait_n_switch_table [OF this, of h] obtain v where v: "wait_n_switch h ?rc u = Inr v" "jobs_ok v"
      "job_map v = after_wait (wait_pid h (calls u) ?rc) (top s) (job_map u)" "exit_code v = code_of (wait_pid h (calls u) ?rc) (exit_code u)" by metis
  have "make_process h tokens False pipe prev_open cmd s = Inr v"
    using rc(1) t(1) v(1) unfolding u_def by (simp add: make_process_def Let_def)
  then show ?thesis using v(2,3,4) u t(3) f g by simp
qed

text \<open>A full table: the next process is written behind the array.\<close>

lemma add_child_full: "top s = NJOB \<Longrightarrow> add_child pid c s = Inl OutOfBounds"
  by (simp add: add_child_def NJOB_def)

definition started :: ish where
  "started = \<lparr>homeDir = ''/home/u/'', currDir = ''/home/u/'', showDir = ''~'', old_add = None, exit_code = 0,
     stack = replicate NJOB 0, commands = replicate NJOB None, top = 1, history = [], environ = Map.empty,
     fds = [Some (Inherited 0), Some (Inherited 1), Some (Inherited 2)] @ replicate 29 None, pipes = 0, calls = 0, trace = []\<rparr>"

lemma started_ok: "jobs_ok started" "job_map started j = None" "top started = 1"
  by (auto simp: started_def jobs_ok_def job_map_def NJOB_def nth_list_update)

text \<open>A host for examples: processes get the numbers from 100 on and end with code 3, and every other call works.\<close>

definition demo_host :: host where
  "demo_host = \<lparr>fork_pid = (\<lambda>n. 100 + int n), wait_pid = (\<lambda>_ _. Exited 3), reap = (\<lambda>_. []), children = (\<lambda>_. []), kill_ok = (\<lambda>_ _ _. True),
     stat_mode = (\<lambda>_ _. Some 0x41ED), junk_mode = (\<lambda>_. 0), stat_blocks = (\<lambda>_ _. 8), lstat_line = (\<lambda>_ _. None), chdir_ok = (\<lambda>_ _. True), getcwd = (\<lambda>_. None),
     names = (\<lambda>_ _. [''b'', ''.'', ''a'']), can_open = (\<lambda>_ _. True), proc_state = (\<lambda>_ _. None), read_file = (\<lambda>_ _. None), read_link = (\<lambda>_ _. None), own_pid = 50, quiet_periods = (\<lambda>_. 0), setenv_ok = (\<lambda>_ _. True)\<rparr>"

lemma foreground_process_witness:
  "\<exists>s'. make_process demo_host [''ls''] False None (-1) ''ls'' started = Inr s' \<and> jobs_ok s' \<and> job_map s' = job_map started \<and> exit_code s' = 3"
proof -
  have "(job_map started)(Suc 0 := None) = job_map started" using started_ok(2) by (simp add: fun_eq_iff)
  moreover have "0 < fork_pid demo_host (calls started)" "wait_pid demo_host n p = Exited 3" for n p by (simp_all add: demo_host_def)
  ultimately show ?thesis
    using foreground_process [of started demo_host "[''ls'']" None "-1" "''ls''"] started_ok
    by (simp add: after_wait_def code_of_def NJOB_def)
qed

lemma job_table_refines_map_witness:
  "\<exists>s'. add_child 7 ''ls'' started = Inr (1, s') \<and> jobs_ok s' \<and> job_map s' = [1 \<mapsto> (7, ''ls'')]"
proof -
  have "job_map started = Map.empty" using started_ok(2) by (simp add: fun_eq_iff)
  then show ?thesis using job_table_refines_map [OF started_ok(1)] started_ok(3) by (simp add: NJOB_def)
qed

end
