(* ===== verification/IshMon.thy ===== *)
theory IshMon
  imports Ish
begin

text \<open>
  The commands of the interpreter that show data of the system, \<^verbatim>\<open>pinfo.c\<close> and \<^verbatim>\<open>nightswatch.c\<close>. The files under
  \<^verbatim>\<open>/proc\<close> are texts that the host gives. Putting the terminal into raw mode and back is left out.
\<close>

section \<open>pinfo\<close>

text \<open>A conversion of \<^verbatim>\<open>fscanf\<close> returns what it read and the rest of the text.\<close>

definition scan_word :: "string \<Rightarrow> string \<times> string" where
  "scan_word t = (let u = dropWhile space_char t in (takeWhile (\<lambda>c. \<not> space_char c) u, dropWhile (\<lambda>c. \<not> space_char c) u))"

definition scan_int :: "string \<Rightarrow> (int \<times> string) option" where
  "scan_int t = (let u = dropWhile space_char t; sign = (take 1 u = ''-'' \<or> take 1 u = ''+''); ds = (if sign then drop 1 u else u) in
     if takeWhile decimal_digit ds = [] then None else Some (to_int (strtol u), dropWhile decimal_digit ds))"

fun pieces :: "nat \<Rightarrow> string \<Rightarrow> string list" where
  "pieces n [] = []"
| "pieces n (c # cs) = (c # take n cs) # pieces n (drop n cs)"

text \<open>The word behind \<^verbatim>\<open>VmSize:\<close>, or the last word of the file when there is none; \<open>w\<close> is the word read before.\<close>

fun find_size :: "string list \<Rightarrow> string option \<Rightarrow> string option" where
  "find_size [] w = w"
| "find_size (x # xs) w = (if x = ''VmSize:'' then (case xs of [] \<Rightarrow> Some x | y # _ \<Rightarrow> Some y) else find_size xs (Some x))"

definition pinfo_handler :: "host \<Rightarrow> string list \<Rightarrow> ish \<Rightarrow> fault + ish" where
  "pinfo_handler h tokens s = (case read_file h (calls s) (''/proc/'' @ tokens ! 1 @ ''/stat'') of
       None \<Rightarrow> Inr (fail (complain ''Cannot access the process \<newline>'' (tick s)))
     | Some text \<Rightarrow> (case scan_int text of None \<Rightarrow> Inl Unset | Some (pid, rest) \<Rightarrow>
       (case scan_word rest of (exec_name, rest) \<Rightarrow>
         if exec_name = [] \<or> dropWhile space_char rest = [] then Inl Unset
         else if length exec_name \<ge> 1000 then Inl Overflow
         else let st = hd (dropWhile space_char rest); s = tick s;
                exe = (case read_link h (calls s) (''/proc/'' @ tokens ! 1 @ ''/exe'') of None \<Rightarrow> ''defunct :'' @ exec_name | Some l \<Rightarrow> l);
                s = tick s in
           if length exe \<ge> size_buff then Inl Overflow
           else case read_file h (calls s) (''/proc/'' @ tokens ! 1 @ ''/status'') of
               None \<Rightarrow> Inr (fail (complain ''Cannot access the process \<newline>'' (tick s)))
             | Some status \<Rightarrow> (case find_size (concat (map (pieces 498) (strtok_all space_char status))) None of
                 None \<Rightarrow> Inl Unset
               | Some word \<Rightarrow> Inr (say ''\<newline>'' (say (''Executable Path -- '' @ exe @ ''\<newline>'') (say (''memory -- '' @ word @ ''\<newline>'')
                   (say (''Process Status -- '' @ [st] @ ''\<newline>'') (say (''pid -- '' @ decimal pid @ ''\<newline>'') (tick s))))))))))"

section \<open>nightswatch\<close>

definition NWORDS :: nat where "NWORDS = 10000"

definition read_words :: "host \<Rightarrow> string \<Rightarrow> ish \<Rightarrow> fault + string list option" where
  "read_words h name s = (case read_file h (calls s) name of None \<Rightarrow> Inr None
     | Some text \<Rightarrow> let ws = strtok_all space_char text in if length ws < NWORDS then Inr (Some ws) else Inl Overflow)"

definition starts_digit :: "string \<Rightarrow> bool" where
  "starts_digit w \<longleftrightarrow> w \<noteq> [] \<and> decimal_digit (hd w)"

text \<open>A column is built in an array of 100 bytes; the newline is written with the zero byte behind it.\<close>

definition column :: "string \<Rightarrow> string \<Rightarrow> ish \<Rightarrow> fault + ish" where
  "column after w s = (if length (pad 10 w @ after) < 100 then Inr (say (pad 10 w @ after) s) else Inl Overflow)"

fun columns :: "string \<Rightarrow> string list \<Rightarrow> ish \<Rightarrow> fault + ish" where
  "columns after [] s = Inr s"
| "columns after (w # ws) s = andThen (column after w s) (columns after ws)"

definition line_end :: string where "line_end = [CHR 0x0A, CHR 0x00]"

definition cpu_header :: "host \<Rightarrow> ish \<Rightarrow> fault + ish" where
  "cpu_header h s = andThen (read_words h ''/proc/interrupts'' s) (\<lambda>r. case r of
       None \<Rightarrow> Inr (tick s)
     | Some ws \<Rightarrow> andThen (columns '' '' (takeWhile (\<lambda>w. \<not> starts_digit w) ws) (tick s)) (\<lambda>s. Inr (say line_end s)))"

definition interrupt_line :: "host \<Rightarrow> ish \<Rightarrow> fault + ish" where
  "interrupt_line h s = andThen (read_words h ''/proc/interrupts'' s) (\<lambda>r. case r of
       None \<Rightarrow> Inr (tick s)
     | Some ws \<Rightarrow> (case dropWhile (\<lambda>w. w \<noteq> ''1:'') ws of
         [] \<Rightarrow> Inr (say line_end (tick s))
       | _ # rest \<Rightarrow> if list_all starts_digit rest then Inl Unset
           else andThen (columns [] (takeWhile starts_digit rest) (tick s)) (\<lambda>s. Inr (say line_end s))))"

definition new_born :: "host \<Rightarrow> ish \<Rightarrow> fault + ish" where
  "new_born h s = (case read_file h (calls s) ''/proc/loadavg'' of
       None \<Rightarrow> Inl WildPointer
     | Some text \<Rightarrow> (case take 5 (strtok_all space_char text) of
         [] \<Rightarrow> Inl Unset
       | ws \<Rightarrow> if list_ex (\<lambda>w. length w \<ge> 100) ws then Inl Overflow else Inr (say (last ws @ ''\<newline>'') (tick s))))"

text \<open>One round of the loop for each period that passes before the user presses the key, and the round in which he does.\<close>

fun watch_loop :: "host \<Rightarrow> string \<Rightarrow> nat \<Rightarrow> ish \<Rightarrow> fault + ish" where
  "watch_loop h func n s =
     (if func \<noteq> ''interrupt'' \<and> func \<noteq> ''newborn'' then Inr (fail (complain ''nightswatch : invalid command \<newline>'' s))
      else andThen (if func = ''interrupt'' then interrupt_line h s else new_born h s) (\<lambda>s.
        case n of 0 \<Rightarrow> Inr s | Suc m \<Rightarrow> watch_loop h func m s))"

declare watch_loop.simps [simp del]

definition nightswatch_handler :: "host \<Rightarrow> string list \<Rightarrow> ish \<Rightarrow> fault + ish" where
  "nightswatch_handler h tokens s = (
     if length tokens \<noteq> 4 then Inr (fail (complain ''2 args required : -n  <int> <command>\<newline>'' s))
     else let s = (if tokens ! 1 \<noteq> ''-n'' then fail (say ''2 args required : -n  <int> <command>\<newline>'' s) else s);
              s = (if to_int (strtol (tokens ! 2)) \<le> 0 then complain ''n > 0\<newline>'' s else s) in
       andThen (if tokens ! 3 = ''interrupt'' then cpu_header h s else Inr s) (\<lambda>s.
         watch_loop h (tokens ! 3) (quiet_periods h (calls s)) (tick s)))"

text \<open>A missing file: the message is printed, and the next call reads from the null pointer.\<close>

lemma new_born_no_file: "read_file h (calls s) ''/proc/loadavg'' = None \<Longrightarrow> new_born h s = Inl WildPointer"
  by (simp add: new_born_def)

text \<open>Without a line \<^verbatim>\<open>VmSize:\<close> (a process of the kernel has none) the last word of the file is shown as the size.\<close>

lemma size_is_last_word: "''VmSize:'' \<notin> set ws \<Longrightarrow> ws \<noteq> [] \<Longrightarrow> find_size ws w = Some (last ws)"
proof (induction ws arbitrary: w)
  case (Cons x ws)
  then show ?case by (cases ws) auto
qed simp

text \<open>A wrong flag and a period that is not positive are reported, and the watch starts all the same.\<close>

lemma watch_starts_anyway:
  assumes "tokens = [''nightswatch'', flag, ''0'', ''newborn'']" "flag \<noteq> ''-n''"
  shows "nightswatch_handler h tokens s =
    (let s = complain ''n > 0\<newline>'' (fail (say ''2 args required : -n  <int> <command>\<newline>'' s)) in
      watch_loop h ''newborn'' (quiet_periods h (calls s)) (tick s))"
proof -
  have "strtol ''0'' = 0" by (simp add: strtol_def space_char_def decimal_digit_def value_of_def)
  then show ?thesis using assms by (simp add: nightswatch_handler_def Let_def to_int_def)
qed

end
