(* ===== verification/IshParse.thy ===== *)
theory IshParse
  imports IshFiles IshJobs IshMon
begin

text \<open>
  The commands of a line: \<^verbatim>\<open>parser.c\<close> and the main loop of \<^verbatim>\<open>shell.c\<close>. A line is cut at semicolons and ampersands, a
  command at bars, and a part of it into words and redirections, and each part is run with the descriptors that the
  pipes and redirections give it.
\<close>

text \<open>Why the interpreter does not go on: a fault, or the end with the state it had then.\<close>

datatype stop = Fault fault | Done ish

definition lift :: "fault + ish \<Rightarrow> stop + ish" where
  "lift m = (case m of Inl f \<Rightarrow> Inl (Fault f) | Inr s \<Rightarrow> Inr s)"

section \<open>Words and redirections\<close>

text \<open>\<open>tokenize\<close> cuts a word at each place where \<open>tok\<close> stands; \<open>part\<close> is the part before, read so far, in reverse.\<close>

fun tokenize_from :: "string \<Rightarrow> string \<Rightarrow> string \<Rightarrow> string list" where
  "tokenize_from tok part [] = [rev part]"
| "tokenize_from tok part (c # cs) = (if take (length tok) (c # cs) = tok
     then rev part # tok # tokenize_from tok [] (drop (length tok - 1) cs)
     else tokenize_from tok (c # part) cs)"

definition tokenize :: "string \<Rightarrow> string \<Rightarrow> string list" where
  "tokenize tok s = tokenize_from tok [] s"

definition tab :: "char \<Rightarrow> bool" where
  "tab c \<longleftrightarrow> c = CHR '' '' \<or> c = CHR 0x09"

text \<open>The first call of \<^verbatim>\<open>strtok\<close> also ends a word at a newline, the others do not.\<close>

definition command_words :: "string \<Rightarrow> string list" where
  "command_words input = (case dropWhile blank_char input of
       [] \<Rightarrow> []
     | c # t \<Rightarrow> (c # takeWhile (\<lambda>b. \<not> blank_char b) t) # strtok_all tab (drop 1 (dropWhile (\<lambda>b. \<not> blank_char b) t)))"

definition NTOK :: nat where "NTOK = 100"
definition TOKLEN :: nat where "TOKLEN = 1000"

definition stored :: "string list \<Rightarrow> fault + string list" where
  "stored ts = (if length ts \<le> NTOK \<and> list_all (\<lambda>t. length t < TOKLEN) ts then Inr ts else Inl Overflow)"

definition cut_at :: "string \<Rightarrow> string list \<Rightarrow> string list \<Rightarrow> fault + string list" where
  "cut_at tok keep ts = (if list_ex (\<lambda>t. t \<notin> set keep \<and> length (tokenize tok t) > NTOK) ts then Inl Overflow
     else stored (concat (map (\<lambda>t. if t \<in> set keep then [t] else filter (\<lambda>p. p \<noteq> []) (tokenize tok t)) ts)))"

text \<open>The three passes over the words, for \<open>>>\<close>, \<open>>\<close> and \<open><\<close>.\<close>

definition lex :: "string \<Rightarrow> fault + string list" where
  "lex input = (let ws = command_words input in
     if length ws \<ge> 1000 then Inl Overflow
     else andThen (cut_at ''>>'' [] ws) (\<lambda>ts. andThen (cut_at ''>'' [''>>''] ts) (cut_at ''<'' [])))"

definition changeInput :: "host \<Rightarrow> string \<Rightarrow> string \<Rightarrow> ish \<Rightarrow> ish" where
  "changeInput h token name s = (
     if token = ''>'' \<or> token = ''>>''
     then (case (if can_open h (calls s) name then new_fd (if token = ''>'' then OutFile name else AppFile name) (tick s) else (-1, tick s)) of (fd, s) \<Rightarrow>
       if fd = -1 then complain ''cannot redirect output'' (fail s) else close fd (snd (dup fd (close 1 s))))
     else if token = ''<''
     then (case (if can_open h (calls s) name then new_fd (InFile name) (tick s) else (-1, tick s)) of (fd, s) \<Rightarrow>
       if fd = -1 then fail (complain ''cannot redirect input'' s) else close fd (snd (dup fd (close 0 s))))
     else s)"

definition fixInput :: "int \<Rightarrow> int \<Rightarrow> ish \<Rightarrow> ish" where
  "fixInput i out s = close out (dup2 out 1 (close i (dup2 i 0 s)))"

definition operator :: "string \<Rightarrow> bool" where
  "operator w \<longleftrightarrow> w = ''>'' \<or> w = ''>>'' \<or> w = ''<''"

text \<open>The words of the command, or \<open>None\<close> when an operator has no name behind it; the redirections up to there are done.\<close>

fun redirect :: "host \<Rightarrow> string list \<Rightarrow> string list \<Rightarrow> ish \<Rightarrow> string list option \<times> ish" where
  "redirect h [] args s = (Some (rev args), s)"
| "redirect h [w] args s = (if operator w then (None, fail (complain (''unexpected token after '' @ w @ '' \<newline>'') s)) else (Some (rev (w # args)), s))"
| "redirect h (w # v # ws) args s = (if operator w then redirect h ws args (changeInput h w v s) else redirect h (v # ws) (w # args) s)"

section \<open>Commands\<close>

definition clearScreen :: "ish \<Rightarrow> ish" where
  "clearScreen s = say (CHR 0x1B # ''[1;1H'' @ CHR 0x1B # ''[2J'') s"

definition history_command :: "host \<Rightarrow> string list \<Rightarrow> ish \<Rightarrow> fault + ish" where
  "history_command h tokens s = (if length tokens = 1 then show_history h 10 s
     else let n = strtol (tokens ! 1) in
       if n \<le> 0 \<or> n > 20 then Inr (fail (complain ''history <int n> \<newline> n > 0 && n <= 20\<newline>'' s)) else show_history h (nat n) s)"

definition run_command ::
    "host \<Rightarrow> string list \<Rightarrow> bool \<Rightarrow> (int \<times> int) option \<Rightarrow> int \<Rightarrow> string \<Rightarrow> ish \<Rightarrow> stop + ish" where
  "run_command h tokens bg pipe prev_open oldcommand s = (
     if tokens = [] then Inl (Fault Unset)
     else let first = hd tokens in
       if first = ''cd'' then lift (cd_handler h (if length tokens = 1 then tokens @ [''~''] else tokens) s)
       else if first = ''pwd'' then Inr (pwd_handler s)
       else if first = ''ls'' then lift (ls_handler h tokens s)
       else if first = ''echo'' then Inr (echo_handler tokens s)
       else if first = ''quit'' then Inl (Done (say ''cya\<newline>'' (killbg h s)))
       else if first = ''clear'' then Inr (clearScreen s)
       else if first = ''pinfo'' then lift (pinfo_handler h (if length tokens = 1 then tokens @ [decimal (own_pid h)] else tokens) s)
       else if first = ''history'' then lift (history_command h tokens s)
       else if first = ''nightswatch'' then lift (nightswatch_handler h tokens s)
       else if first = ''getenv'' then Inr (getenv_handler tokens s)
       else if first = ''setenv'' then Inr (setenv_handler h tokens s)
       else if first = ''unsetenv'' then Inr (unsetenv_handler tokens s)
       else if first = ''jobs'' then Inr (job_printer h s)
       else if first = ''kjob'' then Inr (kjob_handler h tokens s)
       else if first = ''overkill'' then Inr (overkill_handler h s)
       else if first = ''fg'' then lift (fg_handler h tokens s)
       else if first = ''bg'' then Inr (bg_handler h tokens s)
       else lift (make_process h tokens bg pipe prev_open oldcommand s))"

definition redirectionHandler :: "host \<Rightarrow> string \<Rightarrow> bool \<Rightarrow> (int \<times> int) option \<Rightarrow> int \<Rightarrow> ish \<Rightarrow> stop + ish" where
  "redirectionHandler h input bg pipe prev_open s = (
     if command_words input = [] then Inr s
     else case lex input of Inl f \<Rightarrow> Inl (Fault f)
       | Inr ts \<Rightarrow> (case redirect h ts [] s of
           (None, s) \<Rightarrow> Inr s
         | (Some args, s) \<Rightarrow> run_command h args bg pipe prev_open input s))"

section \<open>Pipes\<close>

text \<open>All commands but the last. The flag says that no pipe could be had, which ends the line.\<close>

fun pipe_loop :: "host \<Rightarrow> bool \<Rightarrow> string list \<Rightarrow> int \<Rightarrow> ish \<Rightarrow> stop + bool \<times> int \<times> ish" where
  "pipe_loop h bg [] prev_open s = Inr (True, prev_open, s)"
| "pipe_loop h bg (c # cs) prev_open s = (case open_pipe s of
       (None, s) \<Rightarrow> Inr (False, prev_open, s)
     | (Some (r, w), s) \<Rightarrow>
         let s = (if prev_open \<noteq> -1 then close prev_open (dup2 prev_open 0 s) else s);
             s = close w (dup2 w 1 s) in
         andThen (redirectionHandler h c bg (Some (r, w)) prev_open s) (pipe_loop h bg cs r))"

definition bar :: "char \<Rightarrow> bool" where
  "bar c \<longleftrightarrow> c = CHR ''|''"

definition pipeChecker :: "host \<Rightarrow> string \<Rightarrow> bool \<Rightarrow> ish \<Rightarrow> stop + ish" where
  "pipeChecker h cmd bg s = (
     if list_all (\<lambda>c. \<not> bar c) cmd then redirectionHandler h cmd bg None (-1) (s\<lparr>exit_code := 0\<rparr>)
     else if bar (hd cmd) \<or> bar (last cmd) then Inr (fail (complain ''Pipe does not have both ends \<newline>'' s))
     else let cs = strtok_all bar cmd in
       if length cs > 1000 then Inl (Fault Overflow)
       else case dup 1 s of (out, s) \<Rightarrow> case dup 0 s of (i, s) \<Rightarrow>
         andThen (pipe_loop h bg (butlast cs) (-1) s) (\<lambda>(ok, prev_open, s).
           if \<not> ok then Inr s
           else let s = close out (dup2 out 1 s);
                    s = (if prev_open \<noteq> -1 then close prev_open (dup2 prev_open 0 s) else s) in
             andThen (redirectionHandler h (last cs) bg None prev_open (s\<lparr>exit_code := 0\<rparr>)) (\<lambda>s. Inr (close i (dup2 i 0 s)))))"

section \<open>Lines\<close>

definition separator :: "char \<Rightarrow> bool" where
  "separator c \<longleftrightarrow> c = CHR '';'' \<or> c = CHR ''&''"

text \<open>The commands of a line, with the flag that an ampersand stands behind the command.\<close>

function split_commands :: "string \<Rightarrow> (string \<times> bool) list" where
  "split_commands line = (case dropWhile separator line of
       [] \<Rightarrow> []
     | c # t \<Rightarrow> (let rest = dropWhile (\<lambda>b. \<not> separator b) t in
         (c # takeWhile (\<lambda>b. \<not> separator b) t, take 1 rest = ''&'') # split_commands rest))"
  by pat_completeness auto

termination split_commands
proof (relation "measure length")
  fix line c t x
  assume "dropWhile separator line = c # t" "x = dropWhile (\<lambda>b. \<not> separator b) t"
  then show "(x, line) \<in> measure length"
    using length_dropWhile_le [of separator line] length_dropWhile_le [of "\<lambda>b. \<not> separator b" t] by simp
qed simp

declare split_commands.simps [simp del]

definition one_command :: "host \<Rightarrow> string \<times> bool \<Rightarrow> ish \<Rightarrow> stop + ish" where
  "one_command h = (\<lambda>(c, bg) s. case dup 1 s of (out, s) \<Rightarrow> case dup 0 s of (i, s) \<Rightarrow>
     andThen (pipeChecker h (trim_whitespace c) bg s) (\<lambda>s. Inr (fixInput i out s)))"

fun run_all :: "host \<Rightarrow> (string \<times> bool) list \<Rightarrow> ish \<Rightarrow> stop + ish" where
  "run_all h [] s = Inr s"
| "run_all h (c # cs) s = andThen (one_command h c s) (run_all h cs)"

definition getIndividualCommands :: "host \<Rightarrow> string \<Rightarrow> ish \<Rightarrow> stop + ish" where
  "getIndividualCommands h line s = run_all h (split_commands line) s"

definition colour :: "string \<Rightarrow> ish \<Rightarrow> ish" where
  "colour c s = say (CHR 0x1B # ''[1m'' @ CHR 0x1B # c) s"

definition printExitCode :: "ish \<Rightarrow> ish" where
  "printExitCode s = (say (if exit_code s = 0 then '':) '' else '':( '') s)\<lparr>exit_code := 0\<rparr>"

definition quit :: "host \<Rightarrow> ish \<Rightarrow> stop" where
  "quit h s = Done (say ''cya\<newline>'' (killbg h s))"

text \<open>A line as \<^verbatim>\<open>fgets\<close> returns it, without its newline.\<close>

definition main_round :: "host \<Rightarrow> string \<Rightarrow> string option \<Rightarrow> ish \<Rightarrow> stop + ish" where
  "main_round h shellName line s = andThen (lift (zombie_process_check h s)) (\<lambda>s.
     let s = colour ''[0m'' (say ''$ '' (colour ''[33m'' (say (showDir s @ '' '') (colour ''[32m'' (say shellName (colour ''[36m'' s)))))) in
     case line of None \<Rightarrow> Inl (quit h s)
     | Some l \<Rightarrow> let l = trim_whitespace l in
         andThen (lift (add_history h l s)) (\<lambda>s. andThen (getIndividualCommands h l s) (\<lambda>s.
           Inr (colour ''[0m'' (printExitCode (colour ''[33m'' s))))))"

fun main_loop :: "host \<Rightarrow> string \<Rightarrow> string list \<Rightarrow> ish \<Rightarrow> stop" where
  "main_loop h shellName [] s = (case main_round h shellName None s of Inl e \<Rightarrow> e | Inr s \<Rightarrow> Done s)"
| "main_loop h shellName (l # ls) s = (case main_round h shellName (Some l) s of Inl e \<Rightarrow> e | Inr s \<Rightarrow> main_loop h shellName ls s)"

section \<open>What a command does to descriptors and processes\<close>

text \<open>The processes that were started: the words and the descriptors of each.\<close>

fun spawned :: "sh_event list \<Rightarrow> (string list \<times> desc option list) list" where
  "spawned [] = []"
| "spawned (Spawn pid argv bg ds # es) = (argv, ds) # spawned es"
| "spawned (_ # es) = spawned es"

lemma spawned_append [simp]: "spawned (xs @ ys) = spawned xs @ spawned ys"
  by (induction xs rule: spawned.induct) simp_all

definition good_host :: "host \<Rightarrow> bool" where
  "good_host h \<longleftrightarrow> (\<forall>n. 0 < fork_pid h n) \<and> inj (fork_pid h)"

definition jobs_known :: "host \<Rightarrow> ish \<Rightarrow> bool" where
  "jobs_known h s \<longleftrightarrow> jobs_ok s \<and> (\<forall>j pid c. job_map s j = Some (pid, c) \<longrightarrow> (\<exists>m<calls s. pid = fork_pid h m))"

text \<open>What stays when the table of jobs and the output change.\<close>

definition same_fds :: "ish \<Rightarrow> ish \<Rightarrow> bool" where
  "same_fds s t \<longleftrightarrow> fds t = fds s \<and> pipes t = pipes s \<and> spawned (trace t) = spawned (trace s) \<and> top t \<le> top s \<and> calls s \<le> calls t"

lemma same_fds_trans: "same_fds s t \<Longrightarrow> same_fds t u \<Longrightarrow> same_fds s u"
  by (simp add: same_fds_def)

lemma same_fds_simple [simp]:
  "same_fds s (put_fd fd x s)" "same_fds s (tick s)" "same_fds s (s\<lparr>exit_code := n\<rparr>)" "same_fds s s"
  by (simp_all add: same_fds_def put_fd_def tick_def split: option.split)

lemma lower_top_le: "lower_top st n \<le> n"
  by (induction st n rule: lower_top.induct) auto

lemma remove_child_same: "remove_child pid s = Inr (j, t) \<Longrightarrow> same_fds s t"
  by (auto simp: remove_child_def Let_def same_fds_def lower_top_le split: if_splits)

lemma wait_same:
  assumes "wait_n_switch h pid s = Inr t"
  shows "same_fds s t"
proof -
  define u where "u = tick s\<lparr>trace := trace s @ [Killed pid 18, Waited pid (wait_pid h (calls s) pid)]\<rparr>"
  have s: "same_fds s u" by (simp add: u_def same_fds_def tick_def)
  have w: "wait_n_switch h pid s = (case wait_pid h (calls s) pid of
       Exited code \<Rightarrow> andThen (remove_child pid u) (\<lambda>(_, s). Inr (s\<lparr>exit_code := code\<rparr>))
     | Stopped sig \<Rightarrow>
         let s = say ''\<newline>'' (u\<lparr>exit_code := sig\<rparr>); job = pid_to_job pid s in
         if job < 0 then Inl OutOfBounds
         else Inr (complain (''\<newline>['' @ decimal job @ ''] Stopped '' @ or_null (commands s ! nat job) @ '' ('' @ decimal pid @ '')\<newline>'') s)
     | Signaled sig \<Rightarrow> andThen (remove_child pid u) (\<lambda>(_, s). Inr (s\<lparr>exit_code := sig\<rparr>))
     | Changed \<Rightarrow> Inr u)"
    unfolding wait_n_switch_def u_def Let_def by (rule refl)
  have ends: "same_fds s t" if "andThen (remove_child pid u) (\<lambda>(_, s). Inr (s\<lparr>exit_code := n\<rparr>)) = Inr t" for n
  proof -
    from that obtain j v where "remove_child pid u = Inr (j, v)" and t: "t = v\<lparr>exit_code := n\<rparr>"
      by (auto simp: andThen_eq_Inr_iff)
    from same_fds_trans [OF s remove_child_same [OF this(1)]] show ?thesis unfolding t by (rule same_fds_trans) simp
  qed
  show ?thesis
  proof (cases "wait_pid h (calls s) pid")
    case (Stopped n)
    then obtain x y where t: "t = put_fd 2 x (put_fd 1 y (u\<lparr>exit_code := n\<rparr>))"
      using assms unfolding w by (auto simp: Let_def say_def complain_def split: if_splits)
    have "same_fds u (u\<lparr>exit_code := n\<rparr>)" by simp
    from same_fds_trans [OF s this] have "same_fds s (put_fd 1 y (u\<lparr>exit_code := n\<rparr>))" by (rule same_fds_trans) simp
    then show ?thesis unfolding t by (rule same_fds_trans) simp
  qed (use assms w ends s in simp_all)
qed

lemma add_child_same:
  assumes "add_child pid c s = Inr (j, t)" "0 < top s"
  shows "fds t = fds s \<and> pipes t = pipes s \<and> trace t = trace s \<and> calls t = calls s \<and> top t = top s + 1"
  using assms by (auto simp: add_child_def Let_def split: if_splits)

lemma jobs_known_room:
  assumes "jobs_known h s" "good_host h"
  shows "\<forall>j c. job_map s j \<noteq> Some (fork_pid h (calls s), c)"
proof (intro allI notI)
  fix j c
  assume "job_map s j = Some (fork_pid h (calls s), c)"
  then obtain m where "m < calls s" "fork_pid h (calls s) = fork_pid h m" using assms(1) unfolding jobs_known_def by blast
  then show False using assms(2) unfolding good_host_def by (metis injD less_irrefl)
qed

lemma after_wait_sub: "after_wait st j m i = Some x \<Longrightarrow> m i = Some x"
  by (auto simp: after_wait_def split: wstatus.splits if_splits)

lemma close_fds: "fds s = fds t \<Longrightarrow> fds (close n s) = fds (close n t)"
  by (auto simp: close_def valid_fd_def)

lemma child_fds_cong: "fds s = fds t \<Longrightarrow> child_fds pipe s = child_fds pipe t"
proof (cases pipe)
  case (Some p)
  assume "fds s = fds t"
  from close_fds [OF close_fds [OF this]] show ?thesis using Some by (cases p) (simp add: child_fds_def)
qed (simp add: child_fds_def)

lemma close_trace [simp]: "trace (close n s) = trace s" "pipes (close n s) = pipes s"
  by (simp_all add: close_def)

text \<open>A started process, in the foreground or not.\<close>

lemma make_process_started:
  assumes h: "good_host h" and known: "jobs_known h s" and room: "top s < NJOB"
  shows "\<exists>t. make_process h tokens bg pipe prev_open cmd s = Inr t \<and> jobs_known h t \<and> top t \<le> top s + 1 \<and>
    fds t = (case pipe of None \<Rightarrow> fds s | Some (r, w) \<Rightarrow> fds (if prev_open \<noteq> -1 then close prev_open (close w s) else close w s)) \<and>
    pipes t = pipes s \<and> spawned (trace t) = spawned (trace s) @ [(tokens, child_fds pipe s)]"
proof -
  define rc where "rc = fork_pid h (calls s)"
  have rc: "0 < rc" "\<forall>j c. job_map s j \<noteq> Some (rc, c)" using h jobs_known_room [OF known h] by (simp_all add: rc_def good_host_def)
  have ok: "jobs_ok s" using known by (simp add: jobs_known_def)
  then have top: "0 < top s" by (simp add: jobs_ok_def)
  have tk: "jobs_ok (tick s) = jobs_ok s \<and> job_map (tick s) = job_map s" by (rule table_fields) simp_all
  obtain t1 where t1: "add_child rc cmd (tick s) = Inr (int (top s), t1)" "jobs_ok t1" "job_map t1 = (job_map s)(top s \<mapsto> (rc, cmd))"
    using add_child_ex [of "tick s" rc cmd] ok rc room tk by auto
  have f1: "fds t1 = fds s" "pipes t1 = pipes s" "trace t1 = trace s" "calls t1 = calls s + 1" "top t1 = top s + 1"
    using add_child_same [OF t1(1)] top by (simp_all add: tick_def)
  define t2 where "t2 = t1\<lparr>trace := trace t1 @ [Spawn rc tokens bg (child_fds pipe t1)]\<rparr>"
  define u where "u = (case pipe of None \<Rightarrow> t2 | Some (r, w) \<Rightarrow> let s = close w t2 in if prev_open \<noteq> -1 then close prev_open s else s)"
  have f2: "fds t2 = fds s" "pipes t2 = pipes s" "trace t2 = trace s @ [Spawn rc tokens bg (child_fds pipe s)]" "calls t2 = calls s + 1"
      "top t2 = top s + 1" "stack t2 = stack t1" "commands t2 = commands t1"
    using f1 child_fds_cong [of t1 s pipe] by (simp_all add: t2_def)
  have fu: "pipes u = pipes s" "trace u = trace s @ [Spawn rc tokens bg (child_fds pipe s)]" "calls u = calls s + 1"
      "top u = top s + 1" "stack u = stack t1" "commands u = commands t1"
    using f2 by (simp_all add: u_def Let_def split: option.split prod.split)
  have fdu: "fds u = (case pipe of None \<Rightarrow> fds s | Some (r, w) \<Rightarrow> fds (if prev_open \<noteq> -1 then close prev_open (close w s) else close w s))"
  proof (cases pipe)
    case (Some p)
    obtain r w where p: "p = (r, w)" by (cases p)
    have c: "fds (close w t2) = fds (close w s)" by (rule close_fds [OF f2(1)])
    show ?thesis using Some p c close_fds [OF c, of prev_open] by (simp add: u_def Let_def)
  qed (use f2(1) in \<open>simp add: u_def\<close>)
  have mu: "jobs_ok u = jobs_ok t1 \<and> job_map u = job_map t1" using fu(4-6) f1(5) by (intro table_fields) simp_all
  have made: "make_process h tokens bg pipe prev_open cmd s =
      (if bg then Inr (say (''+['' @ decimal (int (top s)) @ ''] ('' @ decimal rc @ '')\<newline>'') u) else wait_n_switch h rc u)"
    using rc(1) t1(1) unfolding rc_def u_def t2_def make_process_def Let_def by simp
  have known_u: "\<exists>m<calls u. pid = fork_pid h m" if "job_map u j = Some (pid, c)" for j pid c
  proof (cases "j = top s")
    case True
    then have "pid = rc" using that mu t1(3) by simp
    then show ?thesis using fu(3) by (auto simp: rc_def)
  next
    case False
    then have "job_map s j = Some (pid, c)" using that mu t1(3) by simp
    then show ?thesis using known fu(3) unfolding jobs_known_def by (metis less_Suc_eq Suc_eq_plus1)
  qed
  show ?thesis
  proof (cases bg)
    case True
    define v where "v = say (''+['' @ decimal (int (top s)) @ ''] ('' @ decimal rc @ '')\<newline>'') u"
    have sv: "same_fds u v" by (simp add: v_def say_def)
    have tv: "jobs_ok v = jobs_ok u \<and> job_map v = job_map u" "calls v = calls u" by (rule table_fields) (simp_all add: v_def say_def)
    then have "jobs_known h v" using mu t1(2) known_u by (auto simp: jobs_known_def)
    then show ?thesis using made True sv fu fdu v_def by (intro exI [of _ v]) (simp add: same_fds_def)
  next
    case False
    have "jobs_ok u" "job_map u (top s) = Some (rc, cmd)" using mu t1(2,3) by simp_all
    from wait_n_switch_table [OF this, of h] obtain v where v: "wait_n_switch h rc u = Inr v" "jobs_ok v"
        "job_map v = after_wait (wait_pid h (calls u) rc) (top s) (job_map u)" by metis
    have sv: "same_fds u v" by (rule wait_same [OF v(1)])
    have "\<exists>m<calls v. pid = fork_pid h m" if "job_map v j = Some (pid, c)" for j pid c
      using known_u [OF after_wait_sub [OF that [unfolded v(3)]]] sv unfolding same_fds_def by (metis order_less_le_trans)
    then have "jobs_known h v" using v(2) by (auto simp: jobs_known_def)
    then show ?thesis using made False v(1) sv fu fdu by (intro exI [of _ v]) (simp add: same_fds_def)
  qed
qed

section \<open>Commands without redirections\<close>

lemma token_props: "w \<in> set (strtok_all P s) \<Longrightarrow> w \<noteq> [] \<and> set w \<subseteq> set s \<and> (\<forall>c\<in>set w. \<not> P c)"
proof (induction P s rule: strtok_all.induct)
  case (1 P s)
  show ?case
  proof (cases "dropWhile P s")
    case Nil
    show ?thesis using 1(2) unfolding strtok_all.simps [of P s] Nil by simp
  next
    case (Cons c t)
    have s: "set (c # t) \<subseteq> set s" using set_dropWhileD [of _ P s] unfolding Cons by blast
    have c: "\<not> P c" using Cons by (metis dropWhile_eq_Cons_conv)
    have tw: "set (takeWhile (\<lambda>b. \<not> P b) t) \<subseteq> set t" "set (dropWhile (\<lambda>b. \<not> P b) t) \<subseteq> set t" "\<forall>x\<in>set (takeWhile (\<lambda>b. \<not> P b) t). \<not> P x"
      by (auto dest: set_takeWhileD set_dropWhileD)
    note IH = 1(1) [OF Cons]
    from 1(2) consider "w = c # takeWhile (\<lambda>b. \<not> P b) t" | "w \<in> set (strtok_all P (dropWhile (\<lambda>b. \<not> P b) t))"
      unfolding strtok_all.simps [of P s] Cons by auto
    then show ?thesis
    proof cases
      case 1
      then show ?thesis using s c tw by auto
    next
      case 2
      from IH [OF this] show ?thesis using s tw by auto
    qed
  qed
qed

lemma words_word: "w \<in> set (command_words c) \<Longrightarrow> w \<noteq> [] \<and> set w \<subseteq> set c"
proof -
  assume w: "w \<in> set (command_words c)"
  show ?thesis
  proof (cases "dropWhile blank_char c")
    case Nil
    then show ?thesis using w by (simp add: command_words_def del: dropWhile_eq_Nil_conv)
  next
    case (Cons d t)
    have s: "set (d # t) \<subseteq> set c" using set_dropWhileD [of _ blank_char c] unfolding Cons by blast
    have tw: "set (takeWhile (\<lambda>b. \<not> blank_char b) t) \<subseteq> set t" "set (drop 1 (dropWhile (\<lambda>b. \<not> blank_char b) t)) \<subseteq> set t"
      by (auto dest: set_takeWhileD set_dropWhileD in_set_dropD)
    from w consider "w = d # takeWhile (\<lambda>b. \<not> blank_char b) t" | "w \<in> set (strtok_all tab (drop 1 (dropWhile (\<lambda>b. \<not> blank_char b) t)))"
      unfolding command_words_def Cons by auto
    then show ?thesis
    proof cases
      case 1
      then show ?thesis using s tw by auto
    next
      case 2
      from token_props [OF this] show ?thesis using s tw by auto
    qed
  qed
qed

lemma tokenize_from_none: "x \<notin> set s \<Longrightarrow> tokenize_from (x # tok) part s = [rev part @ s]"
  by (induction s arbitrary: part) auto

lemma tokenize_none: "x \<notin> set s \<Longrightarrow> tokenize (x # tok) s = [s]"
  by (simp add: tokenize_def tokenize_from_none)

definition builtins :: "string list" where
  "builtins = [''cd'', ''pwd'', ''ls'', ''echo'', ''quit'', ''clear'', ''pinfo'', ''history'', ''nightswatch'', ''getenv'', ''setenv'', ''unsetenv'',
     ''jobs'', ''kjob'', ''overkill'', ''fg'', ''bg'']"

text \<open>A part of a line that starts a program and redirects nothing.\<close>

definition plain_command :: "string \<Rightarrow> bool" where
  "plain_command c \<longleftrightarrow> command_words c \<noteq> [] \<and> length (command_words c) \<le> NTOK \<and> list_all (\<lambda>w. length w < TOKLEN) (command_words c) \<and>
     CHR ''<'' \<notin> set c \<and> CHR ''>'' \<notin> set c \<and> hd (command_words c) \<notin> set builtins"

lemma cut_at_none:
  assumes "\<forall>t\<in>set ts. t \<noteq> [] \<and> x \<notin> set t" "length ts \<le> NTOK" "list_all (\<lambda>t. length t < TOKLEN) ts"
  shows "cut_at (x # tok) keep ts = Inr ts"
proof -
  have "concat (map (\<lambda>t. if t \<in> set keep then [t] else filter (\<lambda>p. p \<noteq> []) (tokenize (x # tok) t)) ts) = ts"
    using assms(1) by (induction ts) (simp_all add: tokenize_none)
  moreover have "\<not> list_ex (\<lambda>t. t \<notin> set keep \<and> length (tokenize (x # tok) t) > NTOK) ts"
    using assms(1) by (auto simp: list_ex_iff tokenize_none NTOK_def)
  ultimately show ?thesis using assms(2,3) by (simp add: cut_at_def stored_def)
qed

lemma lex_plain: "plain_command c \<Longrightarrow> lex c = Inr (command_words c)"
proof -
  assume p: "plain_command c"
  have "\<forall>t\<in>set (command_words c). t \<noteq> [] \<and> CHR ''<'' \<notin> set t \<and> CHR ''>'' \<notin> set t" using words_word p unfolding plain_command_def by blast
  then show ?thesis using p unfolding lex_def plain_command_def
    by (simp add: Let_def cut_at_none NTOK_def)
qed

lemma redirect_plain: "\<forall>t\<in>set ts. CHR ''<'' \<notin> set t \<and> CHR ''>'' \<notin> set t \<Longrightarrow> redirect h ts args s = (Some (rev args @ ts), s)"
  by (induction h ts args s rule: redirect.induct) (auto simp: operator_def)

lemma run_plain:
  assumes "plain_command c"
  shows "redirectionHandler h c bg pipe prev_open s = lift (make_process h (command_words c) bg pipe prev_open c s)"
proof -
  have "\<forall>t\<in>set (command_words c). CHR ''<'' \<notin> set t \<and> CHR ''>'' \<notin> set t" using words_word assms unfolding plain_command_def by blast
  then have r: "redirect h (command_words c) [] s = (Some (command_words c), s)" using redirect_plain [of "command_words c" h "[]" s] by simp
  have w: "command_words c \<noteq> []" "hd (command_words c) \<notin> set builtins" using assms by (simp_all add: plain_command_def)
  have "run_command h (command_words c) bg pipe prev_open c s = lift (make_process h (command_words c) bg pipe prev_open c s)"
    using w by (simp add: run_command_def Let_def builtins_def)
  then show ?thesis using w(1) by (simp add: redirectionHandler_def lex_plain [OF assms] r)
qed

section \<open>Descriptors\<close>

definition free_slots :: "desc option list \<Rightarrow> nat set" where
  "free_slots F = {i. i < length F \<and> F ! i = None}"

lemma finite_free [simp]: "finite (free_slots F)"
  by (simp add: free_slots_def)

lemma free_used: "d \<noteq> None \<Longrightarrow> i < length F \<Longrightarrow> free_slots (F[i := d]) = free_slots F - {i}"
  by (auto simp: free_slots_def nth_list_update)

lemma new_fd_free:
  assumes "free_slots (fds s) \<noteq> {}"
  obtains i where "i \<in> free_slots (fds s)" "new_fd d s = (int i, s\<lparr>fds := (fds s)[i := Some d]\<rparr>)"
proof (cases "first_index (\<lambda>x. x = None) (fds s)")
  case None
  then show ?thesis using assms by (auto simp: first_index_None_iff free_slots_def)
next
  case (Some i)
  then have "i \<in> free_slots (fds s)" by (simp add: first_index_Some_iff free_slots_def)
  then show ?thesis using that Some by (simp add: new_fd_def)
qed

lemma open_pipe_free:
  assumes "2 \<le> card (free_slots (fds s))"
  obtains r w where "r \<in> free_slots (fds s)" "w \<in> free_slots (fds s)" "r \<noteq> w"
    "open_pipe s = (Some (int r, int w), s\<lparr>fds := (fds s)[r := Some (PipeR (pipes s)), w := Some (PipeW (pipes s))], pipes := pipes s + 1\<rparr>)"
proof -
  have "free_slots (fds s) \<noteq> {}" using assms by auto
  then obtain r where r: "r \<in> free_slots (fds s)" "new_fd (PipeR (pipes s)) s = (int r, s\<lparr>fds := (fds s)[r := Some (PipeR (pipes s))]\<rparr>)"
    by (rule new_fd_free)
  let ?s = "s\<lparr>fds := (fds s)[r := Some (PipeR (pipes s))]\<rparr>"
  have f: "free_slots (fds ?s) = free_slots (fds s) - {r}" using r(1) by (simp add: free_used free_slots_def [of "fds s"])
  then have "card (free_slots (fds ?s)) \<noteq> 0" using r(1) assms by simp
  then have "free_slots (fds ?s) \<noteq> {}" by auto
  then obtain w where w: "w \<in> free_slots (fds ?s)" "new_fd (PipeW (pipes s)) ?s = (int w, ?s\<lparr>fds := (fds ?s)[w := Some (PipeW (pipes s))]\<rparr>)"
    by (rule new_fd_free)
  then show ?thesis using that [of r w] r f by (simp add: open_pipe_def)
qed

lemma fds_close: "fds (close (int n) s) = (fds s)[n := None]"
proof (cases "n < length (fds s) \<and> fds s ! n \<noteq> None")
  case False
  then have "(fds s)[n := None] = fds s" by (metis list_update_id list_update_beyond not_le)
  then show ?thesis using False by (auto simp: close_def valid_fd_def)
qed (simp add: close_def valid_fd_def)

lemma fds_dup2: "n < length (fds s) \<Longrightarrow> fds s ! n \<noteq> None \<Longrightarrow> m < length (fds s) \<Longrightarrow>
    fds (dup2 (int n) (int m) s) = (fds s)[m := fds s ! n]"
  by (simp add: dup2_def valid_fd_def)

text \<open>Everything but the descriptors.\<close>

definition same_rest :: "ish \<Rightarrow> ish \<Rightarrow> bool" where
  "same_rest s t \<longleftrightarrow> stack t = stack s \<and> commands t = commands s \<and> top t = top s \<and> calls t = calls s \<and> trace t = trace s \<and> pipes t = pipes s"

lemma same_rest_refl [simp]: "same_rest s s"
  by (simp add: same_rest_def)

lemma same_rest_close: "same_rest s t \<Longrightarrow> same_rest s (close n t)"
  by (simp add: same_rest_def)

lemma same_rest_dup2: "same_rest s t \<Longrightarrow> same_rest s (dup2 n m t)"
  by (simp add: same_rest_def dup2_def)

lemma same_rest_jobs: "same_rest s t \<Longrightarrow> jobs_known h t = jobs_known h s"
  using table_fields [of t s] by (simp add: same_rest_def jobs_known_def)

text \<open>
  The descriptors in the middle of a line: those of the start, with the input and the output of the command, and
  the end of the pipe before it, if there is one.
\<close>

definition middle :: "desc option list \<Rightarrow> desc option \<Rightarrow> desc option \<Rightarrow> (nat \<times> nat) option \<Rightarrow> desc option list" where
  "middle B i out prev = (case prev of None \<Rightarrow> B[0 := i, 1 := out] | Some (p, k) \<Rightarrow> B[0 := i, 1 := out, p := Some (PipeR k)])"

definition fd_of :: "(nat \<times> nat) option \<Rightarrow> int" where
  "fd_of prev = (case prev of None \<Rightarrow> -1 | Some (p, _) \<Rightarrow> int p)"

definition input_of :: "desc option \<Rightarrow> (nat \<times> nat) option \<Rightarrow> desc option" where
  "input_of i prev = (case prev of None \<Rightarrow> i | Some (_, k) \<Rightarrow> Some (PipeR k))"

definition room_in :: "desc option list \<Rightarrow> (nat \<times> nat) option \<Rightarrow> bool" where
  "room_in B prev \<longleftrightarrow> 1 < length B \<and> B ! 0 \<noteq> None \<and> B ! 1 \<noteq> None \<and> 3 \<le> card (free_slots B) \<and>
     (\<forall>p k. prev = Some (p, k) \<longrightarrow> p \<in> free_slots B)"

lemma connect_input:
  assumes F: "length F = length B" "fds s = F" and prev: "\<forall>p k. prev = Some (p, k) \<longrightarrow> 1 < p \<and> p < length F \<and> F ! p = Some (PipeR k)"
    and B: "1 < length B"
  shows "fds (if fd_of prev \<noteq> -1 then close (fd_of prev) (dup2 (fd_of prev) 0 s) else s) =
    (case prev of None \<Rightarrow> F | Some (p, k) \<Rightarrow> F[0 := Some (PipeR k), p := None])"
proof (cases prev)
  case (Some pk)
  obtain p k where pk: "prev = Some (p, k)" using Some by (cases pk) simp
  then have "1 < p" "p < length F" "F ! p = Some (PipeR k)" using prev by simp_all
  then have "fds (dup2 (int p) (int 0) s) = F[0 := Some (PipeR k)]" using F B fds_dup2 [of p s 0] order_less_trans [OF zero_less_one B] by simp
  then show ?thesis using pk by (simp add: fd_of_def fds_close)
qed (use F in \<open>simp add: fd_of_def\<close>)

lemma same_rest_connect: "same_rest s (if fd \<noteq> -1 then close fd (dup2 fd 0 s) else s)"
  by (simp add: same_rest_close same_rest_dup2)

lemma free_above: "j \<in> free_slots B \<Longrightarrow> B ! 0 \<noteq> None \<Longrightarrow> B ! 1 \<noteq> None \<Longrightarrow> 1 < j"
  by (cases "j = 0"; cases "j = 1") (simp_all add: free_slots_def)

lemma pipe_step:
  assumes h: "good_host h" and known: "jobs_known h s" "top s < NJOB" and c: "plain_command c"
    and F: "fds s = middle B i out prev" "i \<noteq> None" "out \<noteq> None" "room_in B prev"
  shows "\<exists>r t. pipe_loop h bg (c # cs) (fd_of prev) s = pipe_loop h bg cs (fd_of (Some (r, pipes s))) t \<and>
    jobs_known h t \<and> top t \<le> top s + 1 \<and> pipes t = pipes s + 1 \<and> room_in B (Some (r, pipes s)) \<and>
    fds t = middle B (input_of i prev) (Some (PipeW (pipes s))) (Some (r, pipes s)) \<and>
    spawned (trace t) = spawned (trace s) @ [(command_words c, B[0 := input_of i prev, 1 := Some (PipeW (pipes s))])]"
proof -
  let ?F = "fds s"
  have B: "1 < length B" "B ! 0 \<noteq> None" "B ! 1 \<noteq> None" "3 \<le> card (free_slots B)" using F(4) by (simp_all add: room_in_def)
  have len: "length ?F = length B" by (simp add: F(1) middle_def split: option.split prod.split)
  have f01: "0 \<notin> free_slots B" "1 \<notin> free_slots B" using B by (simp_all add: free_slots_def)
  have "free_slots (B[0 := i, 1 := out]) = free_slots B - {0} - {1}"
    using free_used [OF F(3), of 1 "B[0 := i]"] free_used [OF F(2), of 0 B] B(1) order_less_trans [OF zero_less_one B(1)] by simp
  then have fB: "free_slots (B[0 := i, 1 := out]) = free_slots B" using f01 by auto
  have fF: "free_slots ?F \<subseteq> free_slots B \<and> 2 \<le> card (free_slots ?F) \<and> (\<forall>p k. prev = Some (p, k) \<longrightarrow> p \<in> free_slots B \<and> ?F ! p = Some (PipeR k))"
  proof (cases prev)
    case None
    then show ?thesis using F(1) fB B(4) by (simp add: middle_def)
  next
    case (Some pk)
    obtain p k where pk: "prev = Some (p, k)" using Some by (cases pk) simp
    then have p: "p \<in> free_slots B" using F(4) by (simp add: room_in_def)
    then have "p < length B" by (simp add: free_slots_def)
    then have "free_slots ?F = free_slots B - {p}" "?F ! p = Some (PipeR k)"
      using fB by (simp_all add: F(1) pk middle_def free_used)
    then show ?thesis using pk p B(4) by auto
  qed
  then obtain r w where rw: "r \<in> free_slots ?F" "w \<in> free_slots ?F" "r \<noteq> w"
      "open_pipe s = (Some (int r, int w), s\<lparr>fds := ?F[r := Some (PipeR (pipes s)), w := Some (PipeW (pipes s))], pipes := pipes s + 1\<rparr>)"
    using open_pipe_free by blast
  have rwB: "r \<in> free_slots B" "w \<in> free_slots B" using rw fF by auto
  then have rwl: "r < length B" "w < length B" "B ! r = None" "B ! w = None" "?F ! r = None" "?F ! w = None"
    using rw by (simp_all add: free_slots_def)
  have rw1: "1 < r" "1 < w" by (rule free_above [OF rwB(1) B(2,3)], rule free_above [OF rwB(2) B(2,3)])
  define s1 where "s1 = s\<lparr>fds := ?F[r := Some (PipeR (pipes s)), w := Some (PipeW (pipes s))], pipes := pipes s + 1\<rparr>"
  define s2 where "s2 = (if fd_of prev \<noteq> -1 then close (fd_of prev) (dup2 (fd_of prev) 0 s1) else s1)"
  define s3 where "s3 = close (int w) (dup2 (int w) 1 s2)"
  let ?F1 = "?F[r := Some (PipeR (pipes s)), w := Some (PipeW (pipes s))]"
  have p: "1 < p \<and> p < length B \<and> B ! p = None \<and> p \<noteq> r \<and> p \<noteq> w \<and> ?F ! p = Some (PipeR k)" if "prev = Some (p, k)" for p k
  proof -
    have pf: "p \<in> free_slots B" "?F ! p = Some (PipeR k)" using fF that by auto
    then have "1 < p" using B(2,3) by (intro free_above)
    then show ?thesis using rwl pf by (auto simp: free_slots_def)
  qed
  have fds2: "fds s2 = (case prev of None \<Rightarrow> ?F1 | Some (p, k) \<Rightarrow> ?F1[0 := Some (PipeR k), p := None])"
    unfolding s2_def by (rule connect_input) (use len p B in \<open>auto simp: s1_def\<close>)
  then have "w < length (fds s2)" "fds s2 ! w = Some (PipeW (pipes s))" "1 < length (fds s2)"
    using rwl rw1 p len B(1) by (auto split: option.split)
  then have fds3: "fds s3 = (fds s2)[1 := Some (PipeW (pipes s)), w := None]"
    using fds_dup2 [of w s2 1] by (simp add: s3_def fds_close)
  have G: "fds s3 = B[0 := input_of i prev, 1 := Some (PipeW (pipes s)), r := Some (PipeR (pipes s))]" (is "_ = ?G")
  proof (cases prev)
    case None
    then have "?F = B[0 := i, 1 := out]" by (simp add: F(1) middle_def)
    then show ?thesis unfolding fds3 fds2 using None rwl rw1 rw(3)
      by (intro nth_equalityI) (auto simp: input_of_def nth_list_update)
  next
    case (Some pk)
    obtain q k where pk: "prev = Some (q, k)" using Some by (cases pk) simp
    then have "?F = B[0 := i, 1 := out, q := Some (PipeR k)]" by (simp add: F(1) middle_def)
    then show ?thesis unfolding fds3 fds2 using pk p [OF pk] rwl rw1 rw(3) order_less_trans [OF zero_less_one B(1)]
      by (intro nth_equalityI) (auto simp: input_of_def nth_list_update)
  qed
  have rest: "same_rest s1 s3" unfolding s3_def s2_def by (intro same_rest_close same_rest_dup2 same_rest_connect)
  have k1: "jobs_known h s1 = jobs_known h s" using table_fields [of s1 s] by (simp add: s1_def jobs_known_def)
  have "jobs_known h s3" "top s3 < NJOB" using same_rest_jobs [OF rest] k1 known rest by (simp_all add: same_rest_def s1_def)
  from make_process_started [OF h this, of "command_words c" bg "Some (int r, int w)" "fd_of prev" c] obtain t where
    t: "make_process h (command_words c) bg (Some (int r, int w)) (fd_of prev) c s3 = Inr t" "jobs_known h t" "top t \<le> top s3 + 1"
      "fds t = fds (if fd_of prev \<noteq> -1 then close (fd_of prev) (close (int w) s3) else close (int w) s3)"
      "pipes t = pipes s3" "spawned (trace t) = spawned (trace s3) @ [(command_words c, child_fds (Some (int r, int w)) s3)]"
    by auto
  have wG: "?G[w := None] = ?G" using rwl rw1 rw(3) B(1) by (simp add: list_update_same_conv)
  then have cw: "fds (close (int w) s3) = ?G" using G by (simp add: fds_close)
  have "fds t = ?G"
  proof (cases prev)
    case None
    then show ?thesis using t(4) cw by (simp add: fd_of_def)
  next
    case (Some pk)
    obtain q k where pk: "prev = Some (q, k)" using Some by (cases pk) simp
    have "?G[q := None] = ?G" using p [OF pk] rw1 by (simp add: list_update_same_conv)
    then show ?thesis using t(4) cw pk by (simp add: fd_of_def fds_close)
  qed
  then have 1: "fds t = middle B (input_of i prev) (Some (PipeW (pipes s))) (Some (r, pipes s))" by (simp add: middle_def)
  have "fds (close (int r) (close (int w) s3)) = ?G[r := None]" using cw by (simp add: fds_close)
  also have "\<dots> = B[0 := input_of i prev, 1 := Some (PipeW (pipes s))]"
    using rwl rw1 by (intro nth_equalityI) (auto simp: nth_list_update)
  finally have 2: "child_fds (Some (int r, int w)) s3 = B[0 := input_of i prev, 1 := Some (PipeW (pipes s))]" by (simp add: child_fds_def)
  have "pipe_loop h bg (c # cs) (fd_of prev) s = pipe_loop h bg cs (int r) t"
  proof -
    have "open_pipe s = (Some (int r, int w), s1)" using rw(4) by (simp add: s1_def)
    then have "pipe_loop h bg (c # cs) (fd_of prev) s =
        andThen (redirectionHandler h c bg (Some (int r, int w)) (fd_of prev) s3) (pipe_loop h bg cs (int r))"
      unfolding s3_def s2_def by (simp add: Let_def)
    then show ?thesis unfolding run_plain [OF c] t(1) by (simp add: lift_def)
  qed
  then show ?thesis using t(2,3,5,6) 1 2 rest rwB B
    by (intro exI [of _ r] exI [of _ t]) (simp add: same_rest_def s1_def fd_of_def room_in_def)
qed

fun stages :: "desc option list \<Rightarrow> desc option \<Rightarrow> nat \<Rightarrow> string list \<Rightarrow> (string list \<times> desc option list) list" where
  "stages B i k [] = []"
| "stages B i k (c # cs) = (command_words c, B[0 := i, 1 := Some (PipeW k)]) # stages B (Some (PipeR k)) (k + 1) cs"

lemma pipe_loop_wiring:
  assumes h: "good_host h"
  shows "jobs_known h s \<Longrightarrow> top s + length cs \<le> NJOB \<Longrightarrow> list_all plain_command cs \<Longrightarrow> fds s = middle B i out prev \<Longrightarrow> i \<noteq> None \<Longrightarrow> out \<noteq> None \<Longrightarrow>
    room_in B prev \<Longrightarrow> \<exists>prev' i' out' t. pipe_loop h bg cs (fd_of prev) s = Inr (True, fd_of prev', t) \<and>
      jobs_known h t \<and> top t \<le> top s + length cs \<and> pipes t = pipes s + length cs \<and> room_in B prev' \<and>
      fds t = middle B i' out' prev' \<and> i' \<noteq> None \<and> out' \<noteq> None \<and>
      (if cs = [] then prev' = prev else input_of i' prev' = Some (PipeR (pipes s + length cs - 1)) \<and> prev' \<noteq> None) \<and>
      spawned (trace t) = spawned (trace s) @ stages B (input_of i prev) (pipes s) cs"
proof (induction cs arbitrary: s i out prev)
  case Nil
  then show ?case by (intro exI [of _ prev] exI [of _ i] exI [of _ out] exI [of _ s]) simp
next
  case (Cons c cs)
  have c: "plain_command c" "list_all plain_command cs" "top s < NJOB" using Cons.prems by simp_all
  obtain r t where rt: "pipe_loop h bg (c # cs) (fd_of prev) s = pipe_loop h bg cs (fd_of (Some (r, pipes s))) t"
      "jobs_known h t" "top t \<le> top s + 1" "pipes t = pipes s + 1" "room_in B (Some (r, pipes s))"
      "fds t = middle B (input_of i prev) (Some (PipeW (pipes s))) (Some (r, pipes s))"
      "spawned (trace t) = spawned (trace s) @ [(command_words c, B[0 := input_of i prev, 1 := Some (PipeW (pipes s))])]"
    using pipe_step [OF h Cons.prems(1) c(3,1) Cons.prems(4-7), of bg cs] by (elim exE conjE)
  have inp: "input_of i prev \<noteq> None" using Cons.prems(5) by (simp add: input_of_def split: option.split prod.split)
  have "top t + length cs \<le> NJOB" using rt(3) Cons.prems(2) by simp
  from Cons.IH [OF rt(2) this c(2) rt(6) inp _ rt(5)] obtain prev' i' out' u where
    u: "pipe_loop h bg cs (fd_of (Some (r, pipes s))) t = Inr (True, fd_of prev', u)" "jobs_known h u" "top u \<le> top t + length cs"
      "pipes u = pipes t + length cs" "room_in B prev'" "fds u = middle B i' out' prev'" "i' \<noteq> None" "out' \<noteq> None"
      "if cs = [] then prev' = Some (r, pipes s) else input_of i' prev' = Some (PipeR (pipes t + length cs - 1)) \<and> prev' \<noteq> None"
      "spawned (trace u) = spawned (trace t) @ stages B (input_of (input_of i prev) (Some (r, pipes s))) (pipes t) cs"
    by auto
  have "input_of i' prev' = Some (PipeR (pipes s + length (c # cs) - 1)) \<and> prev' \<noteq> None"
    using u(9) rt(4) by (cases "cs = []") (simp_all add: input_of_def)
  moreover have "stages B (input_of (input_of i prev) (Some (r, pipes s))) (pipes t) cs = stages B (Some (PipeR (pipes s))) (pipes s + 1) cs"
    using rt(4) by (simp add: input_of_def)
  ultimately show ?case using u rt(1,3,4,7)
    by (intro exI [of _ prev'] exI [of _ i'] exI [of _ out'] exI [of _ u]) simp
qed

lemma strtok_no_separator: "list_all (\<lambda>c. \<not> P c) s \<Longrightarrow> length (strtok_all P s) \<le> 1"
proof (cases s)
  case (Cons c t)
  assume s: "list_all (\<lambda>c. \<not> P c) s"
  then have d: "dropWhile P s = c # t" "dropWhile (\<lambda>b. \<not> P b) t = []" using Cons by (auto simp: list_all_iff)
  have "strtok_all P s = [c # takeWhile (\<lambda>b. \<not> P b) t]" unfolding strtok_all.simps [of P s] d by (simp add: d strtok_all.simps [of P "[]"] del: dropWhile_eq_Nil_conv)
  then show ?thesis by simp
qed (simp add: strtok_all.simps)

lemma dup_free:
  assumes "n < length (fds s)" "fds s ! n = Some d" "free_slots (fds s) \<noteq> {}"
  obtains j where "j \<in> free_slots (fds s)" "dup (int n) s = (int j, s\<lparr>fds := (fds s)[j := Some d]\<rparr>)"
  using new_fd_free [OF assms(3), of d] assms(1,2) by (auto simp: dup_def valid_fd_def)

text \<open>
  C5. A line of pipes between programs, on a host where every \<open>fork\<close> succeeds and no process number comes
  twice (\<open>good_host\<close>): each program is started once, in the order of the line, the first with the
  input of the interpreter and the last with its output, every other with the read end of the pipe behind the program
  before it as input and the write end of its own pipe as output; apart from the two saved descriptors a program
  gets nothing else, in particular no other end of a pipe, and the interpreter has its descriptors back at the end.
\<close>

theorem pipeline_wiring:
  assumes h: "good_host h" and known: "jobs_known h s" "top s + length (cs @ [c]) \<le> NJOB"
    and cmd: "strtok_all bar cmd = cs @ [c]" "cs \<noteq> []" "\<not> bar (hd cmd)" "\<not> bar (last cmd)" "list_all plain_command (cs @ [c])" "length (cs @ [c]) \<le> 1000"
    and F: "1 < length (fds s)" "fds s ! 0 = Some x" "fds s ! 1 = Some y" "5 \<le> card (free_slots (fds s))"
  shows "\<exists>t j i. j \<in> free_slots (fds s) \<and> i \<in> free_slots (fds s) \<and> j \<noteq> i \<and>
    pipeChecker h cmd bg s = Inr t \<and> fds t = fds s \<and>
    spawned (trace t) = spawned (trace s) @ stages ((fds s)[j := Some y, i := Some x]) (Some x) (pipes s) cs @
      [(command_words c, (fds s)[i := Some x, 0 := Some (PipeR (pipes s + length cs - 1))])]"
proof -
  have l0: "0 < length (fds s)" by (rule order_less_trans [OF zero_less_one F(1)])
  have "free_slots (fds s) \<noteq> {}" using F(4) by auto
  from dup_free [OF F(1,3) this] obtain j where j: "j \<in> free_slots (fds s)" "dup (int 1) s = (int j, s\<lparr>fds := (fds s)[j := Some y]\<rparr>)" .
  have jl: "j < length (fds s)" "fds s ! j = None" using j(1) by (simp_all add: free_slots_def)
  define s1 where "s1 = s\<lparr>fds := (fds s)[j := Some y]\<rparr>"
  have j1: "1 < j" by (rule free_above [OF j(1)]) (use F in simp_all)
  have free1: "free_slots (fds s1) = free_slots (fds s) - {j}" using jl by (simp add: s1_def free_used)
  then have c1: "4 \<le> card (free_slots (fds s1))" using j(1) F(4) by simp
  then have "free_slots (fds s1) \<noteq> {}" by auto
  moreover have "0 < length (fds s1)" "fds s1 ! 0 = Some x" using l0 F(2) j1 by (simp_all add: s1_def)
  ultimately obtain i where i: "i \<in> free_slots (fds s1)" "dup (int 0) s1 = (int i, s1\<lparr>fds := (fds s1)[i := Some x]\<rparr>)"
    using dup_free [of 0 s1 x] by blast
  have il: "i < length (fds s)" "fds s ! i = None" "i \<noteq> j" "i \<in> free_slots (fds s)" using i(1) jl unfolding free1 by (auto simp: free_slots_def)
  have i1: "1 < i" by (rule free_above [OF il(4)]) (use F in simp_all)
  let ?B = "(fds s)[j := Some y, i := Some x]"
  define s2 where "s2 = s\<lparr>fds := ?B\<rparr>"
  have d: "dup 1 s = (int j, s1)" "dup 0 s1 = (int i, s2)" using j(2) i(2) by (simp_all add: s1_def s2_def)
  have "free_slots ?B = free_slots (fds s) - {j} - {i}" using jl il by (simp add: free_used)
  then have "3 \<le> card (free_slots ?B)" using j(1) il F(4) by simp
  then have room: "room_in ?B None" using F i1 j1 by (simp add: room_in_def)
  have B0: "?B = ?B[0 := Some x, 1 := Some y]"
    using F i1 j1 l0 by (intro nth_equalityI) (auto simp: nth_list_update)
  have "jobs_known h s2" using known(1) table_fields [of s2 s] by (simp add: s2_def jobs_known_def)
  moreover have "top s2 + length cs \<le> NJOB" "list_all plain_command cs" "fds s2 = middle ?B (Some x) (Some y) None"
    using known(2) cmd(5) B0 by (simp_all add: s2_def middle_def)
  ultimately obtain prev i' out' u where u: "pipe_loop h bg cs (fd_of None) s2 = Inr (True, fd_of prev, u)"
      "jobs_known h u" "top u \<le> top s2 + length cs" "room_in ?B prev" "fds u = middle ?B i' out' prev" "i' \<noteq> None" "out' \<noteq> None"
      "input_of i' prev = Some (PipeR (pipes s2 + length cs - 1))" "prev \<noteq> None"
      "spawned (trace u) = spawned (trace s2) @ stages ?B (input_of (Some x) None) (pipes s2) cs"
    using pipe_loop_wiring [OF h, of s2 cs ?B "Some x" "Some y" None bg] room cmd(2) by auto
  obtain p k where pk: "prev = Some (p, k)" using u(9) by auto
  have k: "PipeR k = PipeR (pipes s + length cs - 1)" using u(8) by (simp add: pk input_of_def s2_def)
  have pB: "p \<in> free_slots ?B" using u(4) by (simp add: room_in_def pk)
  then have p: "p < length (fds s)" "p \<noteq> j" "p \<noteq> i" "fds s ! p = None"
    using jl il by (auto simp: free_slots_def nth_list_update split: if_splits)
  have p1: "1 < p" by (rule free_above [OF pB]) (use room in \<open>simp_all add: room_in_def\<close>)
  have fu: "fds u = ?B[0 := i', 1 := out', p := Some (PipeR k)]" using u(5) by (simp add: pk middle_def)
  define u1 where "u1 = close (int j) (dup2 (int j) 1 u)"
  define u2 where "u2 = (if fd_of prev \<noteq> -1 then close (fd_of prev) (dup2 (fd_of prev) 0 u1) else u1)"
  have fu1: "fds u1 = ?B[0 := i', 1 := Some y, p := Some (PipeR k), j := None]"
  proof -
    have "j < length (fds u)" "fds u ! j = Some y" "1 < length (fds u)"
      using fu jl il p j1 F(1) by (simp_all add: nth_list_update)
    then have "fds u1 = (fds u)[1 := Some y, j := None]" using fds_dup2 [of j u 1] by (simp add: u1_def fds_close)
    then show ?thesis unfolding fu using p p1 j1 jl il i1 F(1) l0 by (intro nth_equalityI) (auto simp: nth_list_update)
  qed
  have "fds u2 = (case prev of None \<Rightarrow> fds u1 | Some (p, k) \<Rightarrow> (fds u1)[0 := Some (PipeR k), p := None])"
    unfolding u2_def by (rule connect_input [where B = "fds s"]) (use fu1 pk p p1 F(1) in \<open>auto simp: nth_list_update\<close>)
  then have fu2: "fds u2 = (fds s)[i := Some x, 0 := Some (PipeR k)]"
    unfolding fu1 pk using p p1 j1 jl il i1 F l0 by (intro nth_equalityI) (auto simp: nth_list_update)
  have rest: "same_rest u u2" unfolding u2_def u1_def
    by (auto intro: same_rest_close same_rest_dup2 simp: same_rest_close same_rest_dup2)
  have ku: "jobs_known h (u2\<lparr>exit_code := 0\<rparr>)" "top (u2\<lparr>exit_code := 0\<rparr>) < NJOB"
    using same_rest_jobs [OF rest, of h] u(2,3) known(2) rest table_fields [of "u2\<lparr>exit_code := 0\<rparr>" u2]
    by (simp_all add: jobs_known_def same_rest_def s2_def)
  obtain v where v: "make_process h (command_words c) bg None (fd_of prev) c (u2\<lparr>exit_code := 0\<rparr>) = Inr v" "fds v = fds u2"
      "spawned (trace v) = spawned (trace u2) @ [(command_words c, fds u2)]"
    using make_process_started [OF h ku, of "command_words c" bg None "fd_of prev" c] by (auto simp: child_fds_def)
  define t where "t = close (int i) (dup2 (int i) 0 v)"
  have "fds t = fds s"
  proof -
    have "i < length (fds v)" "fds v ! i = Some x" "0 < length (fds v)" using v(2) fu2 il i1 l0 by simp_all
    then have "fds t = (fds v)[0 := Some x, i := None]" using fds_dup2 [of i v 0] by (simp add: t_def fds_close)
    then show ?thesis unfolding v(2) fu2 using F(2) il i1 l0 by (intro nth_equalityI) (auto simp: nth_list_update)
  qed
  moreover have "pipeChecker h cmd bg s = Inr t"
  proof -
    have "\<not> list_all (\<lambda>c. \<not> bar c) cmd" using strtok_no_separator [of bar cmd] cmd(1,2) by (cases cs) auto
    moreover have "plain_command c" using cmd(5) by simp
    moreover have fp: "fd_of prev \<noteq> -1" by (simp add: pk fd_of_def)
    moreover have u2': "close (fd_of prev) (dup2 (fd_of prev) 0 u1) = u2" using fp by (simp add: u2_def)
    ultimately show ?thesis
      using cmd(3,4,6) u(1) v(1)
      by (simp add: pipeChecker_def cmd(1) d Let_def fd_of_def [of None] u1_def [symmetric] run_plain lift_def t_def)
  qed
  moreover have "trace t = trace v" "trace u2 = trace u" using rest by (simp_all add: t_def dup2_def same_rest_def)
  ultimately show ?thesis using u(10) v(3) j(1) il fu2 k
    by (intro exI [of _ t] exI [of _ j] exI [of _ i]) (simp add: s2_def input_of_def)
qed

section \<open>What the parser returns\<close>

lemma tokenize_from_concat: "tok \<noteq> [] \<Longrightarrow> concat (tokenize_from tok part s) = rev part @ s"
proof (induction tok part s rule: tokenize_from.induct)
  case (2 tok part c cs)
  show ?case
  proof (cases "take (length tok) (c # cs) = tok")
    case True
    then have "tok @ drop (length tok - 1) cs = c # cs"
      using 2(3) append_take_drop_id [of "length tok" "c # cs"] by (cases tok) simp_all
    then show ?thesis using 2 True by simp
  qed (use 2 in simp)
qed simp

text \<open>
  The reference: one pass over a command from left to right. \<open>cur\<close> is the word read so far, in reverse. A blank ends a
  word, and so does a bracket; two closing brackets next to each other are one operator.
\<close>

definition pending :: "string \<Rightarrow> string list" where
  "pending cur = (if cur = [] then [] else [rev cur])"

fun one_pass :: "string \<Rightarrow> string \<Rightarrow> string list" where
  "one_pass cur [] = pending cur"
| "one_pass cur (c # cs) = (
     if tab c then pending cur @ one_pass [] cs
     else if c = CHR ''>'' \<and> take 1 cs = ''>'' then pending cur @ ''>>'' # one_pass [] (drop 1 cs)
     else if c = CHR ''>'' \<or> c = CHR ''<'' then pending cur @ [c] # one_pass [] cs
     else one_pass (c # cur) cs)"

declare one_pass.simps(2) [simp del]

lemma one_pass_word: "\<not> tab c \<Longrightarrow> c \<noteq> CHR ''>'' \<Longrightarrow> c \<noteq> CHR ''<'' \<Longrightarrow> one_pass cur (c # cs) = one_pass (c # cur) cs"
  by (simp add: one_pass.simps)

lemma one_pass_sep:
  assumes "tab c \<or> c = CHR ''<'' \<or> c = CHR ''>''"
  shows "one_pass cur (c # cs) = pending cur @ one_pass [] (c # cs)"
  using assms by (auto simp: one_pass.simps(2) pending_def)

lemma one_pass_append:
  assumes "tab c \<or> c = CHR ''<'' \<or> c = CHR ''>''" and "c = CHR ''>'' \<Longrightarrow> p = [] \<or> last p \<noteq> CHR ''>''"
  shows "one_pass cur (p @ c # s) = one_pass cur p @ one_pass [] (c # s)"
  using assms(2)
proof (induction cur p rule: one_pass.induct)
  case (1 cur)
  show ?case unfolding append_Nil one_pass.simps(1) by (rule one_pass_sep [OF assms(1)])
next
  case (2 cur a p)
  have e: "c = CHR ''>'' \<Longrightarrow> p = [] \<or> last p \<noteq> CHR ''>''" using 2(5) by (cases p) simp_all
  show ?case
  proof (cases "a = CHR ''>'' \<and> take 1 p = ''>''")
    case True
    then obtain q where q: "a = CHR ''>''" "p = CHR ''>'' # q" by (cases p) auto
    have t: "\<not> tab a" by (simp add: q tab_def)
    have "c = CHR ''>'' \<Longrightarrow> q = [] \<or> last q \<noteq> CHR ''>''" using e q(2) by (cases q) simp_all
    then have "one_pass [] (q @ c # s) = one_pass [] q @ one_pass [] (c # s)"
      using 2(2) [OF t True] q(2) by simp
    then show ?thesis using t by (simp add: one_pass.simps(2) [of cur "CHR ''>''"] q)
  next
    case False
    have n: "\<not> (a = CHR ''>'' \<and> take 1 (p @ c # s) = ''>'')"
      using False 2(5) by (cases p) auto
    note L = one_pass.simps(2) [of cur a "p @ c # s"] and R = one_pass.simps(2) [of cur a p]
    consider "tab a" | "\<not> tab a" "a = CHR ''>'' \<or> a = CHR ''<''" | "\<not> tab a" "\<not> (a = CHR ''>'' \<or> a = CHR ''<'')" by blast
    then show ?thesis
    proof cases
      case 1
      show ?thesis using 2(1) [OF 1 e] unfolding append_Cons L R if_P [OF 1] by simp
    next
      case sep: 2
      show ?thesis using 2(3) [OF sep(1) False sep(2) e]
        unfolding append_Cons L R if_not_P [OF sep(1)] if_not_P [OF n] if_not_P [OF False] if_P [OF sep(2)] by simp
    next
      case word: 3
      show ?thesis unfolding append_Cons L R if_not_P [OF word(1)] if_not_P [OF n] if_not_P [OF False] if_not_P [OF word(2)]
        by (rule 2(4) [OF word(1) False word(2) e])
    qed
  qed
qed

abbreviation ne :: "string list \<Rightarrow> string list" where
  "ne \<equiv> filter (\<lambda>p. p \<noteq> [])"

lemma ne_pending: "ne (rev p # ps) = pending p @ ne ps"
  by (simp add: pending_def)

lemma cut_less:
  assumes "CHR ''>'' \<notin> set s" "\<forall>c\<in>set s. \<not> tab c"
  shows "ne (tokenize_from ''<'' part s) = one_pass part s"
  using assms
proof (induction "''<''" part s rule: tokenize_from.induct)
  case (1 part)
  then show ?case by (simp add: pending_def)
next
  case (2 part c cs)
  then show ?case by (cases "c = CHR ''<''") (auto simp: one_pass.simps(2) pending_def)
qed

definition cut3 :: "string list \<Rightarrow> string list" where
  "cut3 ts = concat (map (\<lambda>t. ne (tokenize ''<'' t)) ts)"

lemma cut3_simps [simp]: "cut3 [] = []" "cut3 (t # ts) = ne (tokenize ''<'' t) @ cut3 ts" "cut3 (ts @ us) = cut3 ts @ cut3 us"
  by (simp_all add: cut3_def)

lemma cut3_ne: "cut3 (ne (t # ts)) = ne (tokenize ''<'' t) @ cut3 (ne ts)"
  by (simp add: tokenize_def)

lemma one_pass_word_pending: "CHR ''>'' \<notin> set p \<Longrightarrow> \<forall>c\<in>set p. \<not> tab c \<Longrightarrow> ne (tokenize ''<'' p) = one_pass [] p"
  by (simp add: tokenize_def cut_less)

fun no2 :: "string \<Rightarrow> bool" where
  "no2 (a # b # cs) \<longleftrightarrow> \<not> (a = CHR ''>'' \<and> b = CHR ''>'') \<and> no2 (b # cs)"
| "no2 cs \<longleftrightarrow> True"

lemma no2_snoc: "no2 (p @ [a, b]) \<longleftrightarrow> no2 (p @ [a]) \<and> \<not> (a = CHR ''>'' \<and> b = CHR ''>'')"
  by (induction p rule: no2.induct) auto

lemma no2_front: "no2 (p @ q) \<Longrightarrow> no2 p"
  by (induction p rule: no2.induct) auto

lemma cut_greater:
  assumes "no2 v" "CHR ''>'' \<notin> set part" "\<forall>c\<in>set part \<union> set v. \<not> tab c"
  shows "cut3 (ne (tokenize_from ''>'' part v)) = one_pass [] (rev part @ v)"
  using assms
proof (induction "''>''" part v rule: tokenize_from.induct)
  case (1 part)
  then have "cut3 (ne [rev part]) = one_pass [] (rev part)"
    using one_pass_word_pending [of "rev part"] by (cases part) (simp_all add: pending_def)
  then show ?case by simp
next
  case (2 part c cs)
  have n: "no2 cs" using 2(3) by (cases cs) auto
  show ?case
  proof (cases "c = CHR ''>''")
    case True
    have h: "take 1 cs \<noteq> ''>''" using 2(3) True by (cases cs) auto
    have IH: "cut3 (ne (tokenize_from ''>'' [] cs)) = one_pass [] cs"
      using 2(1) n 2(5) True by simp
    have "one_pass [] (rev part @ c # cs) = one_pass [] (rev part) @ one_pass [] (c # cs)"
      by (rule one_pass_append) (use True 2(4) last_in_set [of "rev part"] in auto)
    also have "one_pass [] (c # cs) = ''>'' # one_pass [] cs"
      using True h by (simp add: one_pass.simps(2) tab_def pending_def)
    also have "one_pass [] (rev part) = ne (tokenize ''<'' (rev part))"
      using one_pass_word_pending [of "rev part"] 2(4,5) by simp
    also have "ne (tokenize ''<'' (rev part)) @ ''>'' # one_pass [] cs = cut3 (ne (rev part # ''>'' # tokenize_from ''>'' [] cs))"
      unfolding cut3_ne IH by (simp add: tokenize_def)
    finally show ?thesis using True by simp
  next
    case False
    then show ?thesis using 2(2) n 2(4,5) by auto
  qed
qed

definition cut2 :: "string list \<Rightarrow> string list" where
  "cut2 ts = concat (map (\<lambda>t. if t \<in> set [''>>''] then [t] else ne (tokenize ''>'' t)) ts)"

lemma cut2_ne: "cut2 (ne (t # ts)) = (if t = ''>>'' then [t] else ne (tokenize ''>'' t)) @ cut2 (ne ts)"
  by (simp add: cut2_def tokenize_def)

lemma cut32_piece:
  assumes "no2 p" "\<forall>c\<in>set p. \<not> tab c"
  shows "cut3 (if p = ''>>'' then [p] else ne (tokenize ''>'' p)) = one_pass [] p"
proof -
  have "p \<noteq> ''>>''" using assms(1) by auto
  then show ?thesis using cut_greater [of p "[]"] assms by (simp add: tokenize_def)
qed

lemma cut_append:
  assumes "no2 (rev part @ take 1 s)" "\<forall>c\<in>set part \<union> set s. \<not> tab c"
  shows "cut3 (cut2 (ne (tokenize_from ''>>'' part s))) = one_pass [] (rev part @ s)"
  using assms
proof (induction "''>>''" part s rule: tokenize_from.induct)
  case (1 part)
  then show ?case using cut32_piece [of "rev part"] cut2_ne [of "rev part" "[]"] by (simp add: cut2_def)
next
  case (2 part c cs)
  show ?case
  proof (cases "take (length ''>>'') (c # cs) = ''>>''")
    case True
    then obtain ds where c: "c = CHR ''>''" "cs = CHR ''>'' # ds" by (cases cs) auto
    have n: "no2 (rev part)" and e: "part = [] \<or> hd part \<noteq> CHR ''>''"
      using 2(3) c by (cases part; simp add: no2_snoc no2_front)+
    have IH: "cut3 (cut2 (ne (tokenize_from ''>>'' [] ds))) = one_pass [] ds"
      using 2(1) [OF True] 2(4) c by (cases ds) simp_all
    have r: "rev part \<noteq> ''>>''" using n by auto
    have "one_pass [] (rev part @ c # cs) = one_pass [] (rev part) @ one_pass [] (c # cs)"
      by (rule one_pass_append) (use c(1) e in \<open>auto simp: last_rev\<close>)
    also have "one_pass [] (c # cs) = ''>>'' # one_pass [] ds" by (simp add: c one_pass.simps(2) tab_def pending_def)
    also have "one_pass [] (rev part) = cut3 (ne (tokenize ''>'' (rev part)))"
      using cut32_piece [OF n] 2(4) r by simp
    finally have "one_pass [] (rev part @ c # cs) = cut3 (ne (tokenize ''>'' (rev part))) @ ''>>'' # one_pass [] ds" .
    moreover have "tokenize_from ''>>'' part (c # cs) = rev part # ''>>'' # tokenize_from ''>>'' [] ds" by (simp add: c)
    moreover have "cut3 (cut2 (ne (rev part # ''>>'' # ts))) = cut3 (ne (tokenize ''>'' (rev part))) @ ''>>'' # cut3 (cut2 (ne ts))" for ts
    proof -
      have "cut2 (ne (rev part # ''>>'' # ts)) = ne (tokenize ''>'' (rev part)) @ ''>>'' # cut2 (ne ts)"
        unfolding cut2_ne if_not_P [OF r] by simp
      moreover have "ne (tokenize ''<'' ''>>'') = [''>>'']" by (simp add: tokenize_def)
      ultimately show ?thesis by (simp del: filter.simps)
    qed
    ultimately show ?thesis unfolding IH by (simp only: IH)
  next
    case False
    have "no2 (rev (c # part) @ take 1 cs)"
      using 2(3) False by (cases cs) (auto simp: no2_snoc)
    then have "cut3 (cut2 (ne (tokenize_from ''>>'' (c # part) cs))) = one_pass [] (rev (c # part) @ cs)"
      using 2(4) by (intro 2(2) [OF False]) auto
    then show ?thesis unfolding tokenize_from.simps if_not_P [OF False] by simp
  qed
qed

lemma one_pass_blank: "tab c \<Longrightarrow> one_pass [] (c # cs) = one_pass [] cs"
  by (simp add: one_pass.simps(2) pending_def)

lemma one_pass_words: "concat (map (one_pass []) (strtok_all tab s)) = one_pass [] s"
proof (induction tab s rule: strtok_all.induct)
  case (1 s)
  have lead: "one_pass [] (dropWhile tab s) = one_pass [] s" by (induction s) (simp_all add: one_pass_blank)
  show ?case
  proof (cases "dropWhile tab s")
    case Nil
    then show ?thesis using lead strtok_all.simps [of tab s] by (simp del: dropWhile_eq_Nil_conv add: pending_def)
  next
    case (Cons c t)
    let ?w = "c # takeWhile (\<lambda>b. \<not> tab b) t" and ?r = "dropWhile (\<lambda>b. \<not> tab b) t"
    have "one_pass [] (?w @ ?r) = one_pass [] ?w @ one_pass [] ?r"
    proof (cases ?r)
      case (Cons b u)
      then have "tab b" using hd_dropWhile [of "\<lambda>b. \<not> tab b" t] by fastforce
      then show ?thesis unfolding Cons by (intro one_pass_append) (auto simp: tab_def)
    next
      case Nil
      then show ?thesis unfolding Nil by (simp add: pending_def)
    qed
    also have "?w @ ?r = dropWhile tab s" by (simp add: Cons)
    finally show ?thesis using 1 [OF Cons] lead unfolding strtok_all.simps [of tab s] Cons by simp
  qed
qed

lemma command_words_line: "CHR ''\<newline>'' \<notin> set input \<Longrightarrow> command_words input = strtok_all tab input"
proof -
  assume n: "CHR ''\<newline>'' \<notin> set input"
  have b: "blank_char c = tab c" if "c \<in> set input" for c using n that by (auto simp: blank_char_def tab_def)
  have d: "dropWhile blank_char input = dropWhile tab input" using b by (intro dropWhile_cong) auto
  show ?thesis
  proof (cases "dropWhile tab input")
    case Nil
    then show ?thesis using d by (simp add: command_words_def strtok_all.simps [of tab input] del: dropWhile_eq_Nil_conv)
  next
    case (Cons c t)
    have "set t \<subseteq> set input" using set_dropWhileD [of _ tab input] unfolding Cons by auto
    then have w: "takeWhile (\<lambda>b. \<not> blank_char b) t = takeWhile (\<lambda>b. \<not> tab b) t" "dropWhile (\<lambda>b. \<not> blank_char b) t = dropWhile (\<lambda>b. \<not> tab b) t"
      using b by (auto intro!: takeWhile_cong dropWhile_cong)
    have "strtok_all tab (drop 1 (dropWhile (\<lambda>b. \<not> tab b) t)) = strtok_all tab (dropWhile (\<lambda>b. \<not> tab b) t)"
    proof (cases "dropWhile (\<lambda>b. \<not> tab b) t")
      case (Cons x u)
      then have "tab x" using hd_dropWhile [of "\<lambda>b. \<not> tab b" t] by fastforce
      then show ?thesis unfolding Cons by (simp add: strtok_all.simps [of tab "x # u"] strtok_all.simps [of tab u])
    next
      case Nil
      show ?thesis unfolding Nil by simp
    qed
    then show ?thesis using Cons d w by (simp add: command_words_def strtok_all.simps [of tab input])
  qed
qed

lemma cut_at_eq: "cut_at tok keep ts = Inr us \<Longrightarrow> us = concat (map (\<lambda>t. if t \<in> set keep then [t] else ne (tokenize tok t)) ts)"
  by (auto simp: cut_at_def stored_def split: if_splits)

lemma cut3_cut2: "\<forall>w\<in>set ws. \<forall>c\<in>set w. \<not> tab c \<Longrightarrow>
    cut3 (cut2 (concat (map (\<lambda>t. ne (tokenize ''>>'' t)) ws))) = concat (map (one_pass []) ws)"
proof (induction ws)
  case (Cons w ws)
  then have "cut3 (cut2 (ne (tokenize ''>>'' w))) = one_pass [] w"
    using cut_append [of "[]" w] by (cases w) (simp_all add: tokenize_def)
  then show ?case using Cons by (simp add: cut2_def)
qed (simp add: cut2_def)

lemma lex_one_pass:
  assumes "CHR ''\<newline>'' \<notin> set input" and "lex input = Inr ts"
  shows "ts = one_pass [] input"
proof -
  let ?ws = "command_words input"
  obtain us vs where us: "cut_at ''>>'' [] ?ws = Inr us" and vs: "cut_at ''>'' [''>>''] us = Inr vs" and ts: "cut_at ''<'' [] vs = Inr ts"
    using assms by (auto simp: lex_def Let_def andThen_eq_Inr_iff split: if_splits)
  have "ts = cut3 (cut2 (concat (map (\<lambda>t. ne (tokenize ''>>'' t)) ?ws)))"
    using cut_at_eq [OF us] cut_at_eq [OF vs] cut_at_eq [OF ts] by (simp add: cut3_def cut2_def)
  also have "\<dots> = concat (map (one_pass []) ?ws)"
    using token_props [of _ tab input] unfolding command_words_line [OF assms(1)] by (intro cut3_cut2) blast
  also have "\<dots> = one_pass [] input" unfolding command_words_line [OF assms(1)] by (rule one_pass_words)
  finally show ?thesis .
qed

lemma length_concat_ne: "length (ne ts) \<le> length (concat ts)"
proof (induction ts)
  case (Cons t ts)
  then show ?case by (cases t) auto
qed simp

lemma length_tokenize: "length (tokenize_from tok part s) \<le> 2 * length s + 1"
  by (induction tok part s rule: tokenize_from.induct) (auto simp: le_diff_conv intro: order_trans)

lemma length_in_concat: "t \<in> set ts \<Longrightarrow> length t \<le> length (concat ts)"
  by (induction ts) auto

lemma cut_small:
  assumes "length (concat ts) < 50" "tok \<noteq> []" "[] \<notin> set keep"
  shows "\<exists>us. cut_at tok keep ts = Inr us \<and> length (concat us) < 50"
proof -
  let ?us = "concat (map (\<lambda>t. if t \<in> set keep then [t] else ne (tokenize tok t)) ts)"
  have f: "concat (ne xs) = concat xs" for xs :: "string list" by (induction xs) simp_all
  have "concat (if t \<in> set keep then [t] else ne (tokenize tok t)) = t" for t
    using tokenize_from_concat [OF assms(2), of "[]" t] by (simp add: tokenize_def f)
  then have c: "concat ?us = concat ts" by (induction ts) simp_all
  have "ne ?us = ?us" using assms(3) by (auto simp: filter_id_conv)
  then have "length ?us < 50" using length_concat_ne [of ?us] c assms(1) by simp
  moreover have "length u < 50" if "u \<in> set ?us" for u using length_in_concat [OF that] c assms(1) by simp
  then have "list_all (\<lambda>u. length u < TOKLEN) ?us" unfolding list_all_iff TOKLEN_def by fastforce
  ultimately have "stored ?us = Inr ?us" by (simp only: stored_def NTOK_def) simp
  moreover have "length (tokenize tok t) \<le> NTOK" if "t \<in> set ts" for t
    using length_tokenize [of tok "[]" t] length_in_concat [OF that] assms(1) by (simp add: tokenize_def NTOK_def)
  ultimately have "cut_at tok keep ts = Inr ?us" by (auto simp: cut_at_def list_ex_iff not_less)
  then show ?thesis using c assms(1) by (intro exI [of _ ?us]) simp
qed

lemma length_strtok: "length (concat (strtok_all P s)) \<le> length s"
proof (induction P s rule: strtok_all.induct)
  case (1 P s)
  show ?case
  proof (cases "dropWhile P s")
    case Nil
    show ?thesis unfolding strtok_all.simps [of P s] Nil by simp
  next
    case (Cons c t)
    have "length (takeWhile (\<lambda>b. \<not> P b) t) + length (dropWhile (\<lambda>b. \<not> P b) t) = length t"
      using takeWhile_dropWhile_id [of "\<lambda>b. \<not> P b" t] by (metis length_append)
    moreover have "length (c # t) \<le> length s" using length_dropWhile_le [of P s] unfolding Cons .
    ultimately show ?thesis using 1 [OF Cons] unfolding strtok_all.simps [of P s] Cons by simp
  qed
qed

lemma lex_small:
  assumes "CHR ''\<newline>'' \<notin> set input" and "length input < 50"
  shows "\<exists>ts. lex input = Inr ts"
proof -
  let ?ws = "command_words input"
  have l: "length (concat ?ws) < 50"
    using length_strtok [of tab input] assms(2) unfolding command_words_line [OF assms(1)] by simp
  have "[] \<notin> set ?ws" using token_props [of "[]" tab input] unfolding command_words_line [OF assms(1)] by blast
  then have "ne ?ws = ?ws" by (auto simp: filter_id_conv)
  then have "length ?ws < 50" using length_concat_ne [of ?ws] l by simp
  moreover obtain us where us: "cut_at ''>>'' [] ?ws = Inr us" "length (concat us) < 50"
    using cut_small [OF l, of "''>>''" "[]"] by auto
  moreover obtain vs where vs: "cut_at ''>'' [''>>''] us = Inr vs" "length (concat vs) < 50"
    using cut_small [OF us(2), of "''>''" "[''>>'']"] by auto
  moreover obtain ts where "cut_at ''<'' [] vs = Inr ts"
    using cut_small [OF vs(2), of "''<''" "[]"] by auto
  ultimately show ?thesis by (simp add: lex_def Let_def andThen_def)
qed

text \<open>
  C24. The passes over a command, first into words at blanks, then at \<open>>>\<close>, at \<open>>\<close> and at \<open><\<close>, give the words
  and operators that one pass from left to right gives: a row of closing brackets is read two at a time, blanks
  and brackets end a word, nothing else does, and nothing is lost. This is so whenever the arrays are
  large enough, and they are for every command of fewer than 50 characters. A command has no newline, because
  lines are cut at them.
\<close>

theorem lex_tokens:
  assumes "CHR ''\<newline>'' \<notin> set input"
  shows "(\<forall>ts. lex input = Inr ts \<longrightarrow> ts = one_pass [] input) \<and>
    (length input < 50 \<longrightarrow> lex input = Inr (one_pass [] input))"
  using lex_one_pass [OF assms] lex_small [OF assms] by blast

lemma one_pass_sample: "one_pass [] ''ls -l>a>>b<c >>>d'' = [''ls'', ''-l'', ''>'', ''a'', ''>>'', ''b'', ''<'', ''c'', ''>>'', ''>'', ''d'']"
  by (simp add: one_pass.simps tab_def pending_def)

theorem lex_tokens_witness: "lex ''ls -l>a>>b<c >>>d'' = Inr [''ls'', ''-l'', ''>'', ''a'', ''>>'', ''b'', ''<'', ''c'', ''>>'', ''>'', ''d'']"
proof -
  have "lex ''ls -l>a>>b<c >>>d'' = Inr (one_pass [] ''ls -l>a>>b<c >>>d'')"
    by (rule lex_tokens [THEN conjunct2, THEN mp]) simp_all
  then show ?thesis by (simp only: one_pass_sample)
qed

text \<open>A line put together from commands is taken apart into the same commands with the same flags.\<close>

fun join :: "(string \<times> bool) list \<Rightarrow> string" where
  "join [] = []"
| "join ((c, bg) # cs) = c @ (if bg then ''&'' else '';'') @ join cs"

text \<open>
  The text of a list of commands, each not empty and without a separator in it, with an ampersand behind those for
  the background and a semicolon behind the others, is split into the same list with the same flags.
\<close>

theorem split_join: "\<forall>(c, bg)\<in>set cs. c \<noteq> [] \<and> (\<forall>x\<in>set c. \<not> separator x) \<Longrightarrow> split_commands (join cs) = cs"
proof (induction cs rule: join.induct)
  case 1
  then show ?case by (simp add: split_commands.simps)
next
  case (2 c bg cs)
  let ?e = "if bg then CHR ''&'' else CHR '';''"
  obtain x t where c: "c = x # t" "\<not> separator x" "\<forall>y\<in>set t. \<not> separator y" using 2(2) by (cases c) auto
  have e: "separator ?e" "?e = CHR ''&'' \<longleftrightarrow> bg" by (simp_all add: separator_def)
  have j: "join ((c, bg) # cs) = x # t @ ?e # join cs" by (simp add: c)
  have tw: "takeWhile (\<lambda>b. \<not> separator b) (t @ ?e # join cs) = t" "dropWhile (\<lambda>b. \<not> separator b) (t @ ?e # join cs) = ?e # join cs"
    using c(3) e(1) by (simp_all add: takeWhile_append2 dropWhile_append2)
  have skip: "split_commands (?e # l) = split_commands l" for l
    by (subst (1 2) split_commands.simps) (simp add: e(1))
  have "split_commands (x # t @ ?e # join cs) = (x # t, bg) # split_commands (?e # join cs)"
    by (subst split_commands.simps) (simp add: c(2) tw e(2) Let_def)
  then have "split_commands (x # t @ ?e # join cs) = (x # t, bg) # cs" using 2 skip [of "join cs"] by simp
  then show ?case unfolding j by (simp add: c(1))
qed

lemma split_join_witness: "split_commands ''a;b&'' = [(''a'', False), (''b'', True)]"
  using split_join [of "[(''a'', False), (''b'', True)]"] by (simp add: separator_def)

lemma pipeline_wiring_witness:
  "\<exists>t j i. pipeChecker demo_host ''a|b'' False started = Inr t \<and> fds t = fds started \<and>
    spawned (trace t) = [([''a''], (fds started)[j := Some (Inherited 1), i := Some (Inherited 0), 0 := Some (Inherited 0), 1 := Some (PipeW 0)]),
      ([''b''], (fds started)[i := Some (Inherited 0), 0 := Some (PipeR 0)])]"
proof -
  have "good_host demo_host" by (simp add: good_host_def demo_host_def inj_def)
  moreover have "jobs_known demo_host started" using started_ok by (simp add: jobs_known_def)
  moreover have s: "strtok_all bar ''a|b'' = [''a''] @ [''b'']" by (simp add: strtok_all.simps bar_def)
  moreover have "list_all plain_command ([''a''] @ [''b''])"
    by (simp add: plain_command_def command_words_def blank_char_def strtok_all.simps NTOK_def TOKLEN_def builtins_def)
  moreover have "free_slots (fds started) = {3..<32}"
  proof -
    have "fds started ! i = None \<longleftrightarrow> 3 \<le> i" if "i < 32" for i
    proof -
      consider "i = 0" | "i = 1" | "i = 2" | "3 \<le> i" by linarith
      then show ?thesis using that by cases (simp_all add: started_def nth_append)
    qed
    moreover have "length (fds started) = 32" by (simp add: started_def)
    ultimately show ?thesis by (auto simp: free_slots_def)
  qed
  moreover have "command_words ''a'' = [''a'']" "command_words ''b'' = [''b'']" by (simp_all add: command_words_def blank_char_def strtok_all.simps)
  moreover have "spawned (trace started) = []" "fds started ! 0 = Some (Inherited 0)" "fds started ! 1 = Some (Inherited 1)" "1 < length (fds started)"
      "pipes started = 0" "top started + length ([''a''] @ [''b'']) \<le> NJOB" by (simp_all add: started_def NJOB_def)
  ultimately show ?thesis
    using pipeline_wiring [of demo_host started "[''a'']" "''b''" "''a|b''" "Inherited 0" "Inherited 1" False]
    by (auto simp: bar_def)
qed

section \<open>Where the code does not do what it means to\<close>

text \<open>A redirection without a command: the first word was never set.\<close>

lemma only_redirection:
  assumes "can_open h (calls s) ''f''"
  shows "redirectionHandler h ''>f'' bg pipe prev_open s = Inl (Fault Unset)"
proof -
  have "command_words ''>f'' = [''>f'']" "lex ''>f'' = Inr [''>'', ''f'']"
    by (simp_all add: lex_def command_words_def blank_char_def tab_def strtok_all.simps cut_at_def tokenize_def stored_def NTOK_def TOKLEN_def)
  then show ?thesis by (simp add: redirectionHandler_def operator_def run_command_def)
qed

text \<open>More words than the arrays have places.\<close>

lemma too_many_words:
  assumes "100 < length (command_words c)" "CHR ''<'' \<notin> set c" "CHR ''>'' \<notin> set c"
  shows "lex c = Inl Overflow"
proof -
  have "\<forall>t\<in>set (command_words c). t \<noteq> [] \<and> CHR ''>'' \<notin> set t" using words_word assms by blast
  moreover have "\<forall>t\<in>set ws. t \<noteq> [] \<and> CHR ''>'' \<notin> set t \<Longrightarrow>
      concat (map (\<lambda>t. if t \<in> set [] then [t] else filter (\<lambda>p. p \<noteq> []) (tokenize ''>>'' t)) ws) = ws" for ws
    by (induction ws) (simp_all add: tokenize_none)
  ultimately have "concat (map (\<lambda>t. if t \<in> set [] then [t] else filter (\<lambda>p. p \<noteq> []) (tokenize ''>>'' t)) (command_words c)) = command_words c" by blast
  then show ?thesis using assms(1) by (simp add: lex_def cut_at_def stored_def NTOK_def Let_def)
qed

text \<open>
  In the foreground every program of a line of pipes is waited for before the next one is started, so a program that
  writes more than the pipe holds never ends.
\<close>

lemma wait_trace:
  assumes "wait_n_switch h pid s = Inr t"
  shows "\<exists>rest. trace t = trace s @ [Killed pid 18, Waited pid (wait_pid h (calls s) pid)] @ rest"
proof (cases "wait_pid h (calls s) pid")
  case (Exited n)
  then show ?thesis using assms by (auto simp: wait_n_switch_def Let_def andThen_eq_Inr_iff dest!: remove_child_fields)
next
  case (Signaled n)
  then show ?thesis using assms by (auto simp: wait_n_switch_def Let_def andThen_eq_Inr_iff dest!: remove_child_fields)
next
  case (Stopped n)
  then show ?thesis using assms by (auto simp: wait_n_switch_def Let_def put_fd_def say_def complain_def split: if_splits)
next
  case Changed
  then show ?thesis using assms by (auto simp: wait_n_switch_def Let_def)
qed

lemma waits_before_next:
  assumes made: "make_process h tokens False pipe prev_open cmd s = Inr t" and rc: "0 \<le> fork_pid h (calls s)" and top: "0 < top s"
  shows "\<exists>ds rest. trace t = trace s @ [Spawn (fork_pid h (calls s)) tokens False ds, Killed (fork_pid h (calls s)) 18,
    Waited (fork_pid h (calls s)) (wait_pid h (calls s + 1) (fork_pid h (calls s)))] @ rest"
proof -
  let ?rc = "fork_pid h (calls s)"
  obtain j t1 where t1: "add_child ?rc cmd (tick s) = Inr (j, t1)"
    using made rc by (auto simp: make_process_def Let_def andThen_eq_Inr_iff split: if_splits)
  have f1: "trace t1 = trace s" "calls t1 = calls s + 1" using add_child_same [OF t1] top by (simp_all add: tick_def)
  define t2 where "t2 = t1\<lparr>trace := trace t1 @ [Spawn ?rc tokens False (child_fds pipe t1)]\<rparr>"
  define u where "u = (case pipe of None \<Rightarrow> t2 | Some (r, w) \<Rightarrow> let s = close w t2 in if prev_open \<noteq> -1 then close prev_open s else s)"
  have u: "trace u = trace t2" "calls u = calls t2" by (simp_all add: u_def Let_def split: option.split prod.split)
  have "make_process h tokens False pipe prev_open cmd s = wait_n_switch h ?rc u"
    using rc t1 unfolding u_def t2_def make_process_def Let_def by simp
  with made have "wait_n_switch h ?rc u = Inr t" by simp
  from wait_trace [OF this] obtain rest where "trace t = trace u @ [Killed ?rc 18, Waited ?rc (wait_pid h (calls u) ?rc)] @ rest" ..
  moreover have "trace u = trace s @ [Spawn ?rc tokens False (child_fds pipe t1)]" "calls u = calls s + 1"
    using u f1 by (simp_all add: t2_def)
  ultimately show ?thesis by (intro exI [of _ "child_fds pipe t1"] exI [of _ rest]) simp
qed

end
