(* ===== verification/Devices.thy ===== *)
theory Devices
  imports Trap
begin

unbundle bit_operations_syntax

text \<open>
  Devices of the machine: the keyboard (\<^verbatim>\<open>kbd.c\<close>, \<^verbatim>\<open>kbd.h\<close>), the clock behind the CMOS ports and the local APIC
  (\<^verbatim>\<open>lapic.c\<close>), the I/O APIC (\<^verbatim>\<open>ioapic.c\<close>), the interrupt controller that is switched off (\<^verbatim>\<open>picirq.c\<close>) and the serial
  port (\<^verbatim>\<open>uart.c\<close>). What a driver reads from a port or a register is an argument; what it writes is its result.
\<close>

section \<open>Keyboard\<close>

definition SHIFT :: uint where "SHIFT = 1"
definition CTL :: uint where "CTL = 2"
definition ALT :: uint where "ALT = 4"
definition CAPSLOCK :: uint where "CAPSLOCK = 8"
definition NUMLOCK :: uint where "NUMLOCK = 16"
definition SCROLLLOCK :: uint where "SCROLLLOCK = 32"
definition E0ESC :: uint where "E0ESC = 64"
definition KBS_DIB :: uchar where "KBS_DIB = 1"

definition NO :: uchar where "NO = 0"

definition keys :: "string \<Rightarrow> uchar list" where "keys s = map of_char s"
definition ctrl_keys :: "string \<Rightarrow> uchar list" where "ctrl_keys s = map (\<lambda>c. of_char c - of_char (CHR ''@'')) s"

definition shiftcode :: "nat \<Rightarrow> uint" where
  "shiftcode k = (case map_of [(0x1D, CTL), (0x2A, SHIFT), (0x36, SHIFT), (0x38, ALT), (0x9D, CTL), (0xB8, ALT)] k of
     Some v \<Rightarrow> v | None \<Rightarrow> 0)"

definition togglecode :: "nat \<Rightarrow> uint" where
  "togglecode k = (case map_of [(0x3A, CAPSLOCK), (0x45, NUMLOCK), (0x46, SCROLLLOCK)] k of Some v \<Rightarrow> v | None \<Rightarrow> 0)"

text \<open>The keys with the escape code E0, the same in all three maps; then the maps, rows first.\<close>

definition escaped_keys :: "(nat \<times> uchar) list" where
  "escaped_keys = [(0xC8, 0xE2), (0xD0, 0xE3), (0xC9, 0xE6), (0xD1, 0xE7), (0xCB, 0xE4), (0xCD, 0xE5), (0x97, 0xE0), (0xCF, 0xE1),
     (0xD2, 0xE8), (0xD3, 0xE9)]"

definition keymap :: "uchar list \<Rightarrow> (nat \<times> uchar) list \<Rightarrow> nat \<Rightarrow> uchar" where
  "keymap rows esc k = (case map_of (esc @ escaped_keys) k of Some c \<Rightarrow> c | None \<Rightarrow> if k < length rows then rows ! k else NO)"

definition number_pad :: "uchar list" where
  "number_pad = [NO, of_char (CHR '' '')] @ replicate 6 NO @ replicate 7 NO @ keys ''789-456+1230.'' @ replicate 4 NO"

definition normal_rows :: "uchar list" where
  "normal_rows = [NO, 0x1B] @ keys ''1234567890-='' @ [0x08, 0x09] @ keys ''qwertyuiop[]'' @ [0x0A, NO] @ keys ''as'' @
     keys ''dfghjkl;'' @ [0x27] @ keys ''`'' @ [NO, 0x5C] @ keys ''zxcv'' @ keys ''bnm,./'' @ [NO] @ keys ''*'' @ number_pad"

definition shift_rows :: "uchar list" where
  "shift_rows = [NO, 0x1B] @ keys ''!@#$%^&*()_+'' @ [0x08, 0x09] @ keys ''QWERTYUIOP{}'' @ [0x0A, NO] @ keys ''AS'' @
     keys ''DFGHJKL:'' @ [0x22] @ keys ''~'' @ [NO] @ keys ''|ZXCV'' @ keys ''BNM<>?'' @ [NO] @ keys ''*'' @ number_pad"

definition ctl_rows :: "uchar list" where
  "ctl_rows = replicate 16 NO @ ctrl_keys ''QWERTYUIOP'' @ [NO, NO, 0x0D, NO] @ ctrl_keys ''AS'' @ ctrl_keys ''DFGHJKL'' @ [NO] @
     [NO, NO, NO, 0x5C - 0x40] @ ctrl_keys ''ZXCV'' @ ctrl_keys ''BNM'' @ [NO, NO] @ ctrl_keys ''/'' @ [NO, NO]"

definition normalmap :: "nat \<Rightarrow> uchar" where
  "normalmap = keymap normal_rows [(0x9C, 0x0A), (0xB5, of_char (CHR ''/''))]"

definition shiftmap :: "nat \<Rightarrow> uchar" where
  "shiftmap = keymap shift_rows [(0x9C, 0x0A), (0xB5, of_char (CHR ''/''))]"

definition ctlmap :: "nat \<Rightarrow> uchar" where
  "ctlmap = keymap ctl_rows [(0x9C, 0x0D), (0xB5, of_char (CHR ''/'') - of_char (CHR ''@''))]"

definition charcode :: "uint \<Rightarrow> nat \<Rightarrow> uchar" where
  "charcode i = (if i = 0 then normalmap else if i = 1 then shiftmap else ctlmap)"

text \<open>\<open>st\<close> and \<open>data\<close> are what the status and the data port return; the state is the static variable \<open>shift\<close>.\<close>

definition kbdgetc :: "uchar \<Rightarrow> uchar \<Rightarrow> uint \<Rightarrow> int \<times> uint" where
  "kbdgetc st data shift =
     (if st AND KBS_DIB = 0 then (-1, shift)
      else let data = (ucast data :: uint) in
        if data = 0xE0 then (0, shift OR E0ESC)
        else if data AND 0x80 \<noteq> 0
        then let data = (if shift AND E0ESC \<noteq> 0 then data else data AND 0x7F) in (0, shift AND NOT (shiftcode (unat data) OR E0ESC))
        else let (data, shift) = (if shift AND E0ESC \<noteq> 0 then (data OR 0x80, shift AND NOT E0ESC) else (data, shift));
                 shift = shift OR shiftcode (unat data);
                 shift = shift XOR togglecode (unat data);
                 c = (ucast (charcode (shift AND (CTL OR SHIFT)) (unat data)) :: uint);
                 c = (if shift AND CAPSLOCK \<noteq> 0
                      then if of_char (CHR ''a'') \<le> c \<and> c \<le> of_char (CHR ''z'') then c + (of_char (CHR ''A'') - of_char (CHR ''a''))
                           else if of_char (CHR ''A'') \<le> c \<and> c \<le> of_char (CHR ''Z'') then c + (of_char (CHR ''a'') - of_char (CHR ''A''))
                           else c
                      else c) in
             (sint c, shift))"

text \<open>
  The scan codes of a text: for each character a key, with the shift key where it is needed, pressed and released.
  The console ignores the results 0 (\<open>consoleintr\<close>), and \<open>typed\<close> leaves them out.
\<close>

definition key_of :: "uchar \<Rightarrow> (bool \<times> nat) option" where
  "key_of c = (case find (\<lambda>k. normalmap k = c) [1..<58] of
       Some k \<Rightarrow> Some (False, k)
     | None \<Rightarrow> (case find (\<lambda>k. shiftmap k = c) [1..<58] of Some k \<Rightarrow> Some (True, k) | None \<Rightarrow> None))"

definition scan_codes :: "uchar \<Rightarrow> uchar list" where
  "scan_codes c = (case key_of c of
       None \<Rightarrow> []
     | Some (False, k) \<Rightarrow> [of_nat k, of_nat k + 0x80]
     | Some (True, k) \<Rightarrow> [0x2A, of_nat k, of_nat k + 0x80, 0xAA])"

fun typed :: "uchar list \<Rightarrow> uint \<Rightarrow> int list \<times> uint" where
  "typed [] shift = ([], shift)"
| "typed (d # ds) shift = (case kbdgetc KBS_DIB d shift of (c, shift) \<Rightarrow>
     case typed ds shift of (cs, shift) \<Rightarrow> (if c = 0 then cs else c # cs, shift))"

definition typeable :: "uchar list" where
  "typeable = [0x08, 0x09, 0x0A, 0x1B] @ map of_nat [32..<127]"

lemma typed_append: "typed (ds @ es) s = (case typed ds s of (cs, s) \<Rightarrow> case typed es s of (cs', s) \<Rightarrow> (cs @ cs', s))"
  by (induction ds arbitrary: s) (auto split: prod.splits)

lemma row_values:
  "normal_rows = [0, 27, 49, 50, 51, 52, 53, 54, 55, 56, 57, 48, 45, 61, 8, 9, 113, 119, 101, 114, 116, 121, 117, 105, 111, 112, 91, 93, 10, 0, 97, 115, 100, 102, 103, 104, 106, 107, 108, 59, 39, 96, 0, 92, 122, 120, 99, 118, 98, 110, 109, 44, 46, 47, 0, 42, 0, 32, 0, 0, 0, 0, 0, 0, 0, 0, 0, 0, 0, 0, 0, 55, 56, 57, 45, 52, 53, 54, 43, 49, 50, 51, 48, 46, 0, 0, 0, 0]"
  "shift_rows = [0, 27, 33, 64, 35, 36, 37, 94, 38, 42, 40, 41, 95, 43, 8, 9, 81, 87, 69, 82, 84, 89, 85, 73, 79, 80, 123, 125, 10, 0, 65, 83, 68, 70, 71, 72, 74, 75, 76, 58, 34, 126, 0, 124, 90, 88, 67, 86, 66, 78, 77, 60, 62, 63, 0, 42, 0, 32, 0, 0, 0, 0, 0, 0, 0, 0, 0, 0, 0, 0, 0, 55, 56, 57, 45, 52, 53, 54, 43, 49, 50, 51, 48, 46, 0, 0, 0, 0]"
  by (simp_all add: normal_rows_def shift_rows_def keys_def number_pad_def NO_def eval_nat_numeral)

lemma scan_word:
  assumes "k < 128"
  shows "ucast (of_nat k :: uchar) = (of_nat k :: uint)" "ucast (of_nat k + 0x80 :: uchar) = (of_nat k + 0x80 :: uint)"
    "unat (of_nat k :: uint) = k" "(of_nat k :: uint) AND 0x80 = 0" "(of_nat k + 0x80 :: uint) AND 0x80 \<noteq> 0"
    "(of_nat k + 0x80 :: uint) AND 0x7F = of_nat k" "(of_nat k :: uint) \<noteq> 0xE0" "(of_nat k + 0x80 :: uint) = 0xE0 \<longleftrightarrow> k = 0x60"
proof -
  have w: "ucast (of_nat n :: uchar) = (of_nat n :: uint)" "unat (of_nat n :: uint) = n" if "n < 256" for n
    using that by (simp_all add: unsigned_of_nat take_bit_nat_eq_self)
  have e: "of_nat k + 0x80 = (of_nat (k + 128) :: uint)" "of_nat k + 0x80 = (of_nat (k + 128) :: uchar)" by simp_all
  have b7: "(of_nat n :: uint) AND 0x80 = 0 \<longleftrightarrow> \<not> bit n 7" for n
    using and_exp_eq_0_iff_not_bit [of "of_nat n :: uint" 7] bit_of_nat_iff [of n 7, where 'a = uint] by simp
  show "ucast (of_nat k :: uchar) = (of_nat k :: uint)" using assms by (intro w) simp
  show "ucast (of_nat k + 0x80 :: uchar) = (of_nat k + 0x80 :: uint)" unfolding e using assms by (intro w) simp
  show u: "unat (of_nat k :: uint) = k" using assms by (intro w) simp
  have v: "unat (of_nat k + 0x80 :: uint) = k + 128" unfolding e using assms by (intro w) simp
  show "(of_nat k :: uint) \<noteq> 0xE0" using assms u by auto
  show "(of_nat k + 0x80 :: uint) = 0xE0 \<longleftrightarrow> k = 0x60" using v by (auto simp: word_unat_eq_iff)
  show "(of_nat k :: uint) AND 0x80 = 0" using assms by (simp add: b7 bit_iff_odd)
  have "(k + 128) div 128 = 1" using assms by (simp add: div_add_self2)
  then have "bit (k + 128) 7" by (simp add: bit_iff_odd)
  then show "(of_nat k + 0x80 :: uint) AND 0x80 \<noteq> 0" unfolding e by (simp only: b7 not_not)
  have "(of_nat k + 0x80 :: uint) AND mask 7 = of_nat k"
  proof -
    have "take_bit 7 (k + 128) = k" using assms by (simp add: take_bit_eq_mod)
    then show ?thesis unfolding e by (simp only: take_bit_eq_mask [symmetric] take_bit_of_nat)
  qed
  then show "(of_nat k + 0x80 :: uint) AND 0x7F = of_nat k" by (simp add: mask_eq_exp_minus_1)
qed

lemma no_modifier: "(0 :: uint) AND E0ESC = 0" "SHIFT AND E0ESC = 0" "0 AND CAPSLOCK = 0" "SHIFT AND CAPSLOCK = 0"
  "0 AND (CTL OR SHIFT) = 0" "SHIFT AND (CTL OR SHIFT) = 1" "SHIFT AND NOT E0ESC = SHIFT" "SHIFT AND NOT (SHIFT OR E0ESC) = 0"
  by (simp_all add: E0ESC_def SHIFT_def CAPSLOCK_def CTL_def)

lemma charcode_simps: "charcode 0 = normalmap" "charcode 1 = shiftmap" "charcode SHIFT = shiftmap"
  by (simp_all add: charcode_def SHIFT_def)

lemma press_key:
  assumes "k < 128" "shiftcode k = 0" "togglecode k = 0" "s AND E0ESC = 0" "s AND CAPSLOCK = 0"
  shows "kbdgetc KBS_DIB (of_nat k) s = (uint (charcode (s AND (CTL OR SHIFT)) k), s)"
proof -
  have "sint (ucast c :: uint) = uint c" for c :: uchar
  proof -
    have "- (2 ^ 31) \<le> uint c" by (rule order_trans [of _ 0]) simp_all
    moreover have "uint c < 256" using unsigned_less [of c, where 'a = int] by simp
    ultimately show ?thesis using signed_take_bit_int_eq_self [of 31 "uint c"] by (simp add: signed_ucast_eq)
  qed
  then show ?thesis using assms by (simp add: kbdgetc_def KBS_DIB_def scan_word Let_def)
qed

lemma release_key:
  assumes "k < 128" "k \<noteq> 0x60" "s AND E0ESC = 0"
  shows "kbdgetc KBS_DIB (of_nat k + 0x80) s = (0, s AND NOT (shiftcode k OR E0ESC))"
  using assms by (simp add: kbdgetc_def KBS_DIB_def scan_word Let_def)


lemma find_upt_SomeD: "find P [m..<n] = Some k \<Longrightarrow> m \<le> k \<and> k < n \<and> P k"
  by (auto simp: find_Some_iff)

lemma modifier_keys:
  assumes "0 < k" "k < 58" "normalmap k \<noteq> NO \<or> shiftmap k \<noteq> NO"
  shows "shiftcode k = 0" "togglecode k = 0"
proof -
  have m: "normalmap j = NO \<and> shiftmap j = NO" if "j \<in> {0x1D, 0x2A, 0x36, 0x38}" for j
    using that by (elim insertE emptyE) (simp_all add: normalmap_def shiftmap_def keymap_def row_values escaped_keys_def NO_def)
  show "shiftcode k = 0" "togglecode k = 0"
    using m [of k] assms by (auto simp: shiftcode_def togglecode_def)
qed

lemma scan_codes_typed:
  assumes "c \<noteq> NO" "key_of c \<noteq> None"
  shows "typed (scan_codes c) 0 = ([uint c], 0)"
proof (cases "find (\<lambda>k. normalmap k = c) [1..<58]")
  case (Some k)
  then have k: "0 < k" "k < 58" "normalmap k = c" using find_upt_SomeD [OF Some] by auto
  have m: "shiftcode k = 0" "togglecode k = 0" using modifier_keys [of k] k assms(1) by auto
  have "scan_codes c = [of_nat k, of_nat k + 0x80]" unfolding scan_codes_def key_of_def Some by simp
  then show ?thesis using k m assms(1) press_key [of k 0] release_key [of k 0]
    by (simp add: no_modifier charcode_simps NO_def)
next
  case None
  then obtain k where f: "find (\<lambda>k. shiftmap k = c) [1..<58] = Some k" using assms(2) by (auto simp: key_of_def split: option.splits)
  then have k: "0 < k" "k < 58" "shiftmap k = c" using find_upt_SomeD [OF f] by auto
  have m: "shiftcode k = 0" "togglecode k = 0" using modifier_keys [of k] k assms(1) by auto
  have s: "kbdgetc KBS_DIB 0x2A 0 = (0, SHIFT)" "kbdgetc KBS_DIB 0xAA SHIFT = (0, 0)"
    by (simp_all add: kbdgetc_def KBS_DIB_def shiftcode_def togglecode_def E0ESC_def SHIFT_def CAPSLOCK_def CTL_def charcode_def
        shiftmap_def keymap_def row_values escaped_keys_def NO_def)
  have "scan_codes c = [0x2A, of_nat k, of_nat k + 0x80, 0xAA]" unfolding scan_codes_def key_of_def None f by simp
  then show ?thesis using k m assms(1) press_key [of k SHIFT] release_key [of k SHIFT]
    by (simp add: no_modifier charcode_simps NO_def s)
qed

lemma key_rows:
  "take 57 (drop 1 normal_rows) = map normalmap [1..<58]" "take 57 (drop 1 shift_rows) = map shiftmap [1..<58]"
proof -
  have n: "length normal_rows = 88" "length shift_rows = 88" by (simp_all add: row_values)
  have k: "keymap rows [(0x9C, v), (0xB5, w)] i = rows ! i" if "i < 58" "length rows = 88" for rows v w i
    using that by (auto simp: keymap_def escaped_keys_def)
  show "take 57 (drop 1 normal_rows) = map normalmap [1..<58]" "take 57 (drop 1 shift_rows) = map shiftmap [1..<58]"
    by (rule nth_equalityI; simp add: n normalmap_def shiftmap_def k)+
qed

lemma typeable_map: "typeable = map of_nat ([8, 9, 10, 27] @ [32..<127])"
  by (simp add: typeable_def)

lemma typeable_keys:
  assumes "c \<in> set typeable"
  shows "c \<noteq> NO" "key_of c \<noteq> None"
proof -
  let ?n = "[27, 49, 50, 51, 52, 53, 54, 55, 56, 57, 48, 45, 61, 8, 9, 113, 119, 101, 114, 116, 121, 117, 105, 111, 112, 91, 93, 10, 0, 97, 115, 100, 102, 103, 104, 106, 107, 108, 59, 39, 96, 0, 92, 122, 120, 99, 118, 98, 110, 109, 44, 46, 47, 0, 42, 0, 32] :: nat list" and ?s = "[27, 33, 64, 35, 36, 37, 94, 38, 42, 40, 41, 95, 43, 8, 9, 81, 87, 69, 82, 84, 89, 85, 73, 79, 80, 123, 125, 10, 0, 65, 83, 68, 70, 71, 72, 74, 75, 76, 58, 34, 126, 0, 124, 90, 88, 67, 86, 66, 78, 77, 60, 62, 63, 0, 42, 0, 32] :: nat list"
  have rows: "take 57 (drop 1 normal_rows) = map of_nat ?n" "take 57 (drop 1 shift_rows) = map of_nat ?s"
    by (simp_all add: row_values)
  have "set ([8, 9, 10, 27] @ [32..<127]) \<subseteq> set (?n @ ?s)" by (simp add: upt_rec)
  then have "set typeable \<subseteq> set (map of_nat (?n @ ?s))" by (simp only: typeable_map set_map image_mono)
  moreover have "0 \<notin> set typeable" by (simp add: typeable_def upt_rec)
  ultimately have "set typeable \<subseteq> set (take 57 (drop 1 normal_rows) @ take 57 (drop 1 shift_rows)) - {0}"
    unfolding rows by auto
  then have c: "c \<noteq> 0 \<and> c \<in> normalmap ` set [1..<58] \<union> shiftmap ` set [1..<58]"
    using assms unfolding key_rows set_append set_map by blast
  then show "c \<noteq> NO" by (simp add: NO_def)
  have "find (\<lambda>k. normalmap k = c) [1..<58] \<noteq> None \<or> find (\<lambda>k. shiftmap k = c) [1..<58] \<noteq> None"
    using c unfolding find_None_iff by blast
  then show "key_of c \<noteq> None" unfolding key_of_def by (auto split: option.splits)
qed

lemma typed_text: "set cs \<subseteq> set typeable \<Longrightarrow> typed (concat (map scan_codes cs)) 0 = (map uint cs, 0)"
  using scan_codes_typed typeable_keys by (induction cs) (auto simp: typed_append)


text \<open>Every result fits a character, so that the console's test for an empty buffer is never taken for a key.\<close>

lemma small_sint:
  fixes c :: uint
  assumes "c < 256"
  shows "0 \<le> sint c \<and> sint c < 256"
proof -
  have u: "uint c < 256" using assms by (simp add: word_less_def)
  moreover have "- (2 ^ 31) \<le> uint c" by (rule order_trans [of _ 0]) simp_all
  ultimately have "sint c = uint c" using signed_take_bit_int_eq_self [of 31 "uint c"] by (simp add: sint_uint)
  then show ?thesis using u by simp
qed

lemma swapped_case:
  fixes c :: uint
  assumes "c < 256"
  shows "97 \<le> c \<Longrightarrow> c \<le> 122 \<Longrightarrow> c - 32 < 256" "65 \<le> c \<Longrightarrow> c \<le> 90 \<Longrightarrow> c + 32 < 256"
  using assms by unat_arith+

lemma kbdgetc_range: "st AND KBS_DIB \<noteq> 0 \<Longrightarrow> 0 \<le> fst (kbdgetc st d shift) \<and> fst (kbdgetc st d shift) < 256"
proof -
  have c: "(ucast (b :: uchar) :: uint) < 256" for b
    using unsigned_less [of b, where 'a = int] by (simp add: word_less_def unsigned_ucast_eq take_bit_int_eq_self)
  show "st AND KBS_DIB \<noteq> 0 \<Longrightarrow> 0 \<le> fst (kbdgetc st d shift) \<and> fst (kbdgetc st d shift) < 256"
    by (simp add: kbdgetc_def Let_def split_beta small_sint [OF c] small_sint [OF swapped_case(1) [OF c]] small_sint [OF swapped_case(2) [OF c]])
qed

section \<open>The clock\<close>

definition CMOS_STATA :: uint where "CMOS_STATA = 0x0A"
definition CMOS_STATB :: uint where "CMOS_STATB = 0x0B"
definition CMOS_UIP :: uint where "CMOS_UIP = 128"
definition SECS :: uint where "SECS = 0"
definition MINS :: uint where "MINS = 2"
definition HOURS :: uint where "HOURS = 4"
definition DAY :: uint where "DAY = 7"
definition MONTH :: uint where "MONTH = 8"
definition YEAR :: uint where "YEAR = 9"

record rtcdate =
  rtc_second :: uint
  rtc_minute :: uint
  rtc_hour :: uint
  rtc_day :: uint
  rtc_month :: uint
  rtc_year :: uint

text \<open>\<open>clk t r\<close> is what the \<open>t\<close>-th access to the clock finds in its register \<open>r\<close>; the accesses are counted.\<close>

definition cmos_read :: "(nat \<Rightarrow> uint \<Rightarrow> uchar) \<Rightarrow> uint \<Rightarrow> nat \<Rightarrow> uint \<times> nat" where
  "cmos_read clk reg t = (ucast (clk t reg), t + 1)"

definition fill_rtcdate :: "(nat \<Rightarrow> uint \<Rightarrow> uchar) \<Rightarrow> nat \<Rightarrow> rtcdate \<times> nat" where
  "fill_rtcdate clk t =
     (let (s, t) = cmos_read clk SECS t; (m, t) = cmos_read clk MINS t; (h, t) = cmos_read clk HOURS t;
          (d, t) = cmos_read clk DAY t; (mo, t) = cmos_read clk MONTH t; (y, t) = cmos_read clk YEAR t in
      (\<lparr>rtc_second = s, rtc_minute = m, rtc_hour = h, rtc_day = d, rtc_month = mo, rtc_year = y\<rparr>, t))"

partial_function (option) cmos_settle :: "(nat \<Rightarrow> uint \<Rightarrow> uchar) \<Rightarrow> nat \<Rightarrow> rtcdate option" where
  "cmos_settle clk t =
     (let (t1, t) = fill_rtcdate clk t; (a, t) = cmos_read clk CMOS_STATA t in
      if a AND CMOS_UIP \<noteq> 0 then cmos_settle clk t
      else let (t2, t) = fill_rtcdate clk t in if t1 = t2 then Some t1 else cmos_settle clk t)"

definition CONV :: "uint \<Rightarrow> uint" where "CONV x = drop_bit 4 x * 10 + (x AND 0xf)"

definition cmostime :: "(nat \<Rightarrow> uint \<Rightarrow> uchar) \<Rightarrow> rtcdate option" where
  "cmostime clk =
     (let (sb, t) = cmos_read clk CMOS_STATB 0; bcd = (sb AND 4 = 0) in
      map_option (\<lambda>t1.
        let r = (if bcd then \<lparr>rtc_second = CONV (rtc_second t1), rtc_minute = CONV (rtc_minute t1), rtc_hour = CONV (rtc_hour t1),
                   rtc_day = CONV (rtc_day t1), rtc_month = CONV (rtc_month t1), rtc_year = CONV (rtc_year t1)\<rparr> else t1) in
        r\<lparr>rtc_year := rtc_year r + 2000\<rparr>) (cmos_settle clk t))"

text \<open>The registers of a clock that shows a date in binary coded decimals.\<close>

definition to_bcd :: "nat \<Rightarrow> uchar" where "to_bcd x = of_nat (x div 10 * 16 + x mod 10)"

lemma CONV_to_bcd: "x < 100 \<Longrightarrow> CONV (ucast (to_bcd x)) = of_nat x"
proof -
  have "list_all (\<lambda>x. CONV (ucast (to_bcd x)) = of_nat x) [0..<100]" by (simp add: upt_rec CONV_def to_bcd_def)
  then show "x < 100 \<Longrightarrow> CONV (ucast (to_bcd x)) = of_nat x" by (simp add: list_all_iff)
qed

definition shown_date :: "(uint \<Rightarrow> uchar) \<Rightarrow> rtcdate" where
  "shown_date r = \<lparr>rtc_second = ucast (r SECS), rtc_minute = ucast (r MINS), rtc_hour = ucast (r HOURS), rtc_day = ucast (r DAY),
     rtc_month = ucast (r MONTH), rtc_year = ucast (r YEAR)\<rparr>"

definition still :: "(nat \<Rightarrow> uint \<Rightarrow> uchar) \<Rightarrow> nat \<Rightarrow> nat \<Rightarrow> (uint \<Rightarrow> uchar) \<Rightarrow> bool" where
  "still clk t n r \<longleftrightarrow> (\<forall>i<n. clk (t + i) = r) \<and> (ucast (r CMOS_STATA) :: uint) AND CMOS_UIP = 0"

lemma fill_still:
  assumes "\<And>i. i < 6 \<Longrightarrow> clk (t + i) = r"
  shows "fill_rtcdate clk t = (shown_date r, t + 6)"
  using assms [of 0] assms [of 1] assms [of 2] assms [of 3] assms [of 4] assms [of 5]
  by (simp add: fill_rtcdate_def cmos_read_def shown_date_def eval_nat_numeral)

lemma settle_still: "still clk t 13 r \<Longrightarrow> cmos_settle clk t = Some (shown_date r)"
proof -
  assume s: "still clk t 13 r"
  have "fill_rtcdate clk t = (shown_date r, t + 6)" using s by (intro fill_still) (simp add: still_def)
  moreover have "cmos_read clk CMOS_STATA (t + 6) = (ucast (r CMOS_STATA), t + 7)" using s by (simp add: still_def cmos_read_def)
  moreover have "fill_rtcdate clk (t + 7) = (shown_date r, t + 7 + 6)" using s by (intro fill_still) (simp add: still_def add.assoc)
  ultimately show ?thesis using s by (subst cmos_settle.simps) (simp add: still_def)
qed

lemma fill_time: "snd (fill_rtcdate clk t) = t + 6"
  by (simp add: fill_rtcdate_def cmos_read_def)

text \<open>A round takes at most 13 accesses, so a clock that stands still for 26 of them is read.\<close>

lemma settle_returns:
  assumes "still clk T 26 r" "t \<le> T + 13"
  shows "\<exists>d. cmos_settle clk t = Some d"
  using assms(2)
proof (induction "T + 13 - t" arbitrary: t rule: less_induct)
  case less
  show ?case
  proof (cases "T \<le> t")
    case True
    then obtain k where k: "t = T + k" "k \<le> 13" using less.prems by (metis le_Suc_ex nat_add_left_cancel_le)
    have "still clk t 13 r" using assms(1) k(2) unfolding still_def by (auto simp: k(1) add.assoc)
    then show ?thesis using settle_still by blast
  next
    case False
    obtain t1 where f: "fill_rtcdate clk t = (t1, t + 6)" using fill_time by (metis prod.collapse)
    obtain t2 where g: "fill_rtcdate clk (t + 7) = (t2, t + 13)" using fill_time [of clk "t + 7"] by (cases "fill_rtcdate clk (t + 7)") simp
    have "\<exists>d. cmos_settle clk (t + 7) = Some d" "\<exists>d. cmos_settle clk (t + 13) = Some d" using False by (auto intro!: less.hyps)
    then show ?thesis by (subst cmos_settle.simps) (simp add: f g cmos_read_def add.commute [of 7 t])
  qed
qed

lemma cmostime_decodes:
  assumes "\<And>t. clk t = r" "(ucast (r CMOS_STATA) :: uint) AND CMOS_UIP = 0" "(ucast (r CMOS_STATB) :: uint) AND 4 = 0"
    and "r SECS = to_bcd s" "r MINS = to_bcd m" "r HOURS = to_bcd h" "r DAY = to_bcd d" "r MONTH = to_bcd mo" "r YEAR = to_bcd y"
    and "s < 60" "m < 60" "h < 24" "d < 32" "mo < 13" "y < 100"
  shows "cmostime clk = Some \<lparr>rtc_second = of_nat s, rtc_minute = of_nat m, rtc_hour = of_nat h, rtc_day = of_nat d,
    rtc_month = of_nat mo, rtc_year = of_nat (2000 + y)\<rparr>"
proof -
  have "cmos_settle clk 1 = Some (shown_date r)" using assms(1,2) by (intro settle_still) (simp add: still_def)
  then show ?thesis using assms(3-) by (simp add: cmostime_def cmos_read_def assms(1) shown_date_def CONV_to_bcd)
qed


section \<open>Interrupt controllers\<close>

text \<open>The registers of the I/O APIC, selected by number.\<close>

definition REG_ID :: nat where "REG_ID = 0"
definition REG_VER :: nat where "REG_VER = 1"
definition REG_TABLE :: nat where "REG_TABLE = 0x10"
definition INT_DISABLED :: uint where "INT_DISABLED = 0x10000"

definition ioapicread :: "nat \<Rightarrow> (nat \<Rightarrow> uint) \<Rightarrow> uint" where "ioapicread reg r = r reg"
definition ioapicwrite :: "nat \<Rightarrow> uint \<Rightarrow> (nat \<Rightarrow> uint) \<Rightarrow> (nat \<Rightarrow> uint)" where "ioapicwrite reg v r = r(reg := v)"

text \<open>The first result tells whether the message about the identifier is printed.\<close>

definition ioapicinit :: "uchar \<Rightarrow> (nat \<Rightarrow> uint) \<Rightarrow> bool \<times> (nat \<Rightarrow> uint)" where
  "ioapicinit ioapicid r =
     (let maxintr = drop_bit 16 (ioapicread REG_VER r) AND 0xFF; n = drop_bit 24 (ioapicread REG_ID r) in
      (n \<noteq> ucast ioapicid,
       fold (\<lambda>i r. ioapicwrite (REG_TABLE + 2 * i + 1) 0 (ioapicwrite (REG_TABLE + 2 * i) (INT_DISABLED OR (T_IRQ0 + of_nat i)) r))
         [0..<unat maxintr + 1] r))"

definition ioapicenable :: "nat \<Rightarrow> uint \<Rightarrow> (nat \<Rightarrow> uint) \<Rightarrow> (nat \<Rightarrow> uint)" where
  "ioapicenable irq cpunum r =
     ioapicwrite (REG_TABLE + 2 * irq + 1) (push_bit 24 cpunum) (ioapicwrite (REG_TABLE + 2 * irq) (T_IRQ0 + of_nat irq) r)"

text \<open>\<open>picinit\<close> masks all interrupts of both old controllers: the ports it writes and the values.\<close>

definition picinit :: "(nat \<times> uchar) list" where "picinit = [(0x20 + 1, 0xFF), (0xA0 + 1, 0xFF)]"

text \<open>What the redirection table says of an interrupt: whether it is delivered, with which vector and to which processor.\<close>

definition routed :: "(nat \<Rightarrow> uint) \<Rightarrow> nat \<Rightarrow> (uint \<times> uint) option" where
  "routed r i = (if r (REG_TABLE + 2 * i) AND INT_DISABLED \<noteq> 0 then None
     else Some (r (REG_TABLE + 2 * i) AND 0xFF, drop_bit 24 (r (REG_TABLE + 2 * i + 1))))"

lemma ioapicinit_masks:
  "i \<le> unat (drop_bit 16 (r REG_VER) AND 0xFF) \<Longrightarrow> routed (snd (ioapicinit a r)) i = None"
proof -
  have "fold (\<lambda>i r. ioapicwrite (REG_TABLE + 2 * i + 1) 0 (ioapicwrite (REG_TABLE + 2 * i) (INT_DISABLED OR (T_IRQ0 + of_nat i)) r)) [0..<n] r
      (REG_TABLE + 2 * i) = (if i < n then INT_DISABLED OR (T_IRQ0 + of_nat i) else r (REG_TABLE + 2 * i))" for n
    by (induction n) (auto simp: ioapicwrite_def)
  then show "i \<le> unat (drop_bit 16 (r REG_VER) AND 0xFF) \<Longrightarrow> routed (snd (ioapicinit a r)) i = None"
    by (simp add: ioapicinit_def ioapicread_def routed_def Let_def INT_DISABLED_def del: upt_Suc)
qed

lemma small_of_nat: "n < 256 \<Longrightarrow> of_nat n < (256 :: uint)"
  by (simp add: word_less_nat_alt unat_of_nat)

lemma byte_word:
  fixes w :: uint
  assumes "w < 256"
  shows "w AND 0xFF = w" "w AND INT_DISABLED = 0" "drop_bit 24 (push_bit 24 w) = w"
proof -
  have m: "w AND mask 8 = w" using assms by (intro less_mask_eq) simp
  then have "take_bit 8 w = w" by (simp only: take_bit_eq_mask)
  then have hi: "\<not> bit w k" if "8 \<le> k" for k using that by (metis bit_take_bit_iff not_le)
  show "w AND 0xFF = w" using m by (simp add: mask_eq_exp_minus_1)
  show "w AND INT_DISABLED = 0" using hi [of 16] and_exp_eq_0_iff_not_bit [of w 16] by (simp add: INT_DISABLED_def)
  show "drop_bit 24 (push_bit 24 w) = w" by (rule bit_word_eqI) (use hi in \<open>auto simp: bit_simps not_le [symmetric]\<close>)
qed

lemma ioapicenable_routes:
  assumes "irq < 224" "n < 256"
  shows "routed (ioapicenable irq n r) i = (if i = irq then Some (T_IRQ0 + of_nat irq, n) else routed r i)"
proof -
  have e: "(T_IRQ0 + of_nat irq :: uint) = of_nat (32 + irq)" by (simp add: T_IRQ0_def)
  have "T_IRQ0 + of_nat irq < (256 :: uint)" unfolding e using assms(1) by (intro small_of_nat) simp
  note v = byte_word [OF this]
  have odd: "2 * irq \<noteq> Suc (2 * i)" "Suc (2 * irq) \<noteq> 2 * i" by presburger+
  show ?thesis using v byte_word(3) [OF assms(2)] odd by (auto simp: routed_def ioapicenable_def ioapicwrite_def)
qed

text \<open>
  After the start-up of the kernel (\<open>ioapicinit\<close>, then \<open>consoleinit\<close>, \<open>uartinit\<close> and \<open>ideinit\<close>) exactly the keyboard, the
  serial port and the disk can interrupt, the disk at the last processor.
\<close>

definition devices_enabled :: "uchar \<Rightarrow> nat \<Rightarrow> (nat \<Rightarrow> uint) \<Rightarrow> (nat \<Rightarrow> uint)" where
  "devices_enabled ioapicid ncpu r =
     ioapicenable 14 (of_nat (ncpu - 1)) (ioapicenable 4 0 (ioapicenable 1 0 (snd (ioapicinit ioapicid r))))"

lemma interrupts_routed:
  assumes "i \<le> unat (drop_bit 16 (r REG_VER) AND 0xFF)" "0 < ncpu" "ncpu \<le> 8"
  shows "routed (devices_enabled a ncpu r) i =
    (if i = 14 then Some (T_IRQ0 + IRQ_IDE, of_nat (ncpu - 1)) else if i = 4 then Some (T_IRQ0 + IRQ_COM1, 0)
     else if i = 1 then Some (T_IRQ0 + IRQ_KBD, 0) else None)"
proof -
  have "of_nat (ncpu - 1) < (256 :: uint)" using assms(2,3) by (intro small_of_nat) simp
  then show ?thesis using ioapicinit_masks [of i r a] assms(1)
    by (simp add: devices_enabled_def ioapicenable_routes IRQ_IDE_def IRQ_COM1_def IRQ_KBD_def)
qed

section \<open>The local APIC\<close>

text \<open>Its registers are words in memory, here by their index; the result of an operation is what it writes, in order.\<close>

definition LAPIC_ID :: nat where "LAPIC_ID = 0x20 div 4"
definition LAPIC_VER :: nat where "LAPIC_VER = 0x30 div 4"
definition TPR :: nat where "TPR = 0x80 div 4"
definition EOI :: nat where "EOI = 0xB0 div 4"
definition SVR :: nat where "SVR = 0xF0 div 4"
definition ENABLE :: uint where "ENABLE = 0x100"
definition ESR :: nat where "ESR = 0x280 div 4"
definition ICRLO :: nat where "ICRLO = 0x300 div 4"
definition INIT :: uint where "INIT = 0x500"
definition STARTUP :: uint where "STARTUP = 0x600"
definition DELIVS :: uint where "DELIVS = 0x1000"
definition ASSERT :: uint where "ASSERT = 0x4000"
definition LEVEL :: uint where "LEVEL = 0x8000"
definition BCAST :: uint where "BCAST = 0x80000"
definition ICRHI :: nat where "ICRHI = 0x310 div 4"
definition TIMER :: nat where "TIMER = 0x320 div 4"
definition X1 :: uint where "X1 = 0xB"
definition PERIODIC :: uint where "PERIODIC = 0x20000"
definition PCINT :: nat where "PCINT = 0x340 div 4"
definition LINT0 :: nat where "LINT0 = 0x350 div 4"
definition LINT1 :: nat where "LINT1 = 0x360 div 4"
definition LVT_ERROR :: nat where "LVT_ERROR = 0x370 div 4"
definition MASKED :: uint where "MASKED = 0x10000"
definition TICR :: nat where "TICR = 0x380 div 4"
definition TDCR :: nat where "TDCR = 0x3E0 div 4"
definition IRQ_ERROR :: uint where "IRQ_ERROR = 19"

datatype io = Lapicw nat uint | Outb nat uchar | Store16 nat ushort

text \<open>\<open>polls\<close> are the values of the delivery status; without one that is clear the wait does not end.\<close>

definition lapicinit :: "bool \<Rightarrow> uint \<Rightarrow> uint list \<Rightarrow> io list option" where
  "lapicinit lapic ver polls = (
     if \<not> lapic then Some []
     else if list_all (\<lambda>v. v AND DELIVS \<noteq> 0) polls then None
     else Some ([Lapicw SVR (ENABLE OR (T_IRQ0 + IRQ_SPURIOUS)), Lapicw TDCR X1, Lapicw TIMER (PERIODIC OR (T_IRQ0 + IRQ_TIMER)),
         Lapicw TICR 10000000, Lapicw LINT0 MASKED, Lapicw LINT1 MASKED] @
       (if drop_bit 16 ver AND 0xFF \<ge> 4 then [Lapicw PCINT MASKED] else []) @
       [Lapicw LVT_ERROR (T_IRQ0 + IRQ_ERROR), Lapicw ESR 0, Lapicw ESR 0, Lapicw EOI 0, Lapicw ICRHI 0,
         Lapicw ICRLO (BCAST OR INIT OR LEVEL), Lapicw TPR 0]))"

definition lapicid :: "bool \<Rightarrow> uint \<Rightarrow> uint" where "lapicid lapic r = (if \<not> lapic then 0 else drop_bit 24 r)"

definition lapiceoi :: "bool \<Rightarrow> io list" where "lapiceoi lapic = (if lapic then [Lapicw EOI 0] else [])"

definition CMOS_PORT :: nat where "CMOS_PORT = 0x70"

definition lapicstartap :: "uchar \<Rightarrow> uint \<Rightarrow> io list" where
  "lapicstartap apicid addr =
     [Outb CMOS_PORT 0xF, Outb (CMOS_PORT + 1) 0x0A,
      Store16 (unat KERNBASE + (0x40 * 16 + 0x67)) 0, Store16 (unat KERNBASE + (0x40 * 16 + 0x67) + 2) (ucast (drop_bit 4 addr)),
      Lapicw ICRHI (push_bit 24 (ucast apicid)), Lapicw ICRLO (INIT OR LEVEL OR ASSERT), Lapicw ICRLO (INIT OR LEVEL)] @
     concat (replicate 2 [Lapicw ICRHI (push_bit 24 (ucast apicid)), Lapicw ICRLO (STARTUP OR drop_bit 12 addr)])"

section \<open>The serial port\<close>

definition COM1 :: nat where "COM1 = 0x3F8"

text \<open>
  The number of times the status port is read before a character is sent, at most 128, and what is written.
  \<open>status\<close> gives the values of the port.
\<close>

fun uart_wait :: "nat \<Rightarrow> (nat \<Rightarrow> uchar) \<Rightarrow> nat \<Rightarrow> nat" where
  "uart_wait 0 status i = i"
| "uart_wait (Suc n) status i = (if status i AND 0x20 \<noteq> 0 then i else uart_wait n status (i + 1))"

definition uartputc :: "bool \<Rightarrow> (nat \<Rightarrow> uchar) \<Rightarrow> uint \<Rightarrow> nat \<times> io list" where
  "uartputc uart status c = (if \<not> uart then (0, []) else (uart_wait 128 status 0, [Outb COM1 (ucast c)]))"

definition uartgetc :: "bool \<Rightarrow> uchar \<Rightarrow> uchar \<Rightarrow> int" where
  "uartgetc uart status data = (if \<not> uart then -1 else if status AND 1 = 0 then -1 else uint data)"

text \<open>\<open>uartinit\<close>: whether there is a port, the writes, and the greeting.\<close>

definition uartinit :: "uchar \<Rightarrow> (nat \<Rightarrow> uchar) \<Rightarrow> bool \<times> io list" where
  "uartinit st status =
     (let w = [Outb (COM1 + 2) 0, Outb (COM1 + 3) 0x80, Outb COM1 (of_nat (115200 div 9600)), Outb (COM1 + 1) 0, Outb (COM1 + 3) 3,
               Outb (COM1 + 4) 0, Outb (COM1 + 1) 1] in
      if st = 0xFF then (False, w)
      else (True, w @ concat (map (\<lambda>c. snd (uartputc True status (of_char c))) (''xv6...'' @ [CHR 0x0A]))))"

lemma uart_wait_bound: "uart_wait n status i \<le> i + n"
proof (induction n arbitrary: i)
  case (Suc n)
  show ?case using Suc.IH [of "i + 1"] by simp
qed simp

lemma uartputc_bounded: "fst (uartputc uart status c) \<le> 128"
  using uart_wait_bound [of 128 status 0] by (simp add: uartputc_def)


section \<open>Properties\<close>



end
