(* ===== verification/Ide.thy ===== *)
theory Ide
  imports Bio
begin

unbundle bit_operations_syntax

text \<open>
  The driver of the IDE disk, \<^verbatim>\<open>ide.c\<close>. The queue of requests is a list of buffers linked through \<open>qnext\<close>, and the
  first buffer is the one the disk works on. Each critical section of \<open>idelock\<close> is one operation: entering a request,
  and the interrupt handler. The controller is the environment: it keeps what the driver writes to its ports, and
  carries out the command they make up. \<open>polls\<close> are the values a waiting loop reads from the status port.
\<close>

section \<open>Buffers and the controller\<close>

record ibuf = buf +
  qnext :: "nat option"

text \<open>A command is a write flag, a drive and a sector; \<open>ported\<close> are the data written for it.\<close>

record ide =
  id_buf :: "ibuf list"
  idequeue :: "nat option"
  havedisk1 :: bool
  ports :: "nat \<Rightarrow> uchar"
  command :: "(bool \<times> bool \<times> uint) option"
  ported :: block
  served :: block
  sectors :: "bool \<Rightarrow> uint \<Rightarrow> block"

datatype ide_stop = Stopped_by string | Never_ready

definition IDE_FSSIZE :: nat where "IDE_FSSIZE = 1000"
definition SECTOR_SIZE :: nat where "SECTOR_SIZE = 512"
definition IDE_BSY :: uchar where "IDE_BSY = 0x80"
definition IDE_DRDY :: uchar where "IDE_DRDY = 0x40"
definition IDE_DF :: uchar where "IDE_DF = 0x20"
definition IDE_ERR :: uchar where "IDE_ERR = 0x01"
definition IDE_CMD_READ :: uchar where "IDE_CMD_READ = 0x20"
definition IDE_CMD_WRITE :: uchar where "IDE_CMD_WRITE = 0x30"
definition IDE_CMD_RDMUL :: uchar where "IDE_CMD_RDMUL = 0xc4"
definition IDE_CMD_WRMUL :: uchar where "IDE_CMD_WRMUL = 0xc5"

text \<open>The sector and the drive that the ports name.\<close>

definition port_sector :: "(nat \<Rightarrow> uchar) \<Rightarrow> uint" where
  "port_sector p = ucast (p 0x1f3) OR push_bit 8 (ucast (p 0x1f4)) OR push_bit 16 (ucast (p 0x1f5)) OR
     push_bit 24 (ucast (p 0x1f6) AND 0x0f)"

definition port_drive :: "(nat \<Rightarrow> uchar) \<Rightarrow> bool" where
  "port_drive p \<longleftrightarrow> p 0x1f6 AND 0x10 \<noteq> 0"

definition outb :: "nat \<Rightarrow> uchar \<Rightarrow> ide \<Rightarrow> ide" where
  "outb port v s = (let s = s\<lparr>ports := (ports s)(port := v)\<rparr> in
     if port = 0x1f7 \<and> (v = IDE_CMD_READ \<or> v = IDE_CMD_RDMUL) then s\<lparr>command := Some (False, port_drive (ports s), port_sector (ports s))\<rparr>
     else if port = 0x1f7 \<and> (v = IDE_CMD_WRITE \<or> v = IDE_CMD_WRMUL) then s\<lparr>command := Some (True, port_drive (ports s), port_sector (ports s))\<rparr>
     else s)"

definition outsl :: "block \<Rightarrow> ide \<Rightarrow> ide" where
  "outsl bs s = s\<lparr>ported := bs\<rparr>"

text \<open>The disk carries out its command. A failing read leaves the data of before in the port.\<close>

definition disk_works :: "bool \<Rightarrow> ide \<Rightarrow> ide" where
  "disk_works ok s = (case command s of
       None \<Rightarrow> s
     | Some (True, drive, n) \<Rightarrow> if ok then s\<lparr>command := None, sectors := (sectors s)(drive := (sectors s drive)(n := ported s))\<rparr> else s\<lparr>command := None\<rparr>
     | Some (False, drive, n) \<Rightarrow> if ok then s\<lparr>command := None, served := sectors s drive n\<rparr> else s\<lparr>command := None\<rparr>)"

section \<open>The driver\<close>

definition idewait :: "uchar list \<Rightarrow> bool \<Rightarrow> ide_stop + int" where
  "idewait polls checkerr = (case find (\<lambda>r. r AND (IDE_BSY OR IDE_DRDY) = IDE_DRDY) polls of
       None \<Rightarrow> Inl Never_ready
     | Some r \<Rightarrow> Inr (if checkerr \<and> r AND (IDE_DF OR IDE_ERR) \<noteq> 0 then -1 else 0))"

text \<open>\<open>probes\<close> are the status values of the second drive.\<close>

definition ideinit :: "uchar list \<Rightarrow> uchar list \<Rightarrow> ide \<Rightarrow> ide_stop + ide" where
  "ideinit polls probes s = andThen (idewait polls False) (\<lambda>_.
     let s = outb 0x1f6 (0xe0 OR push_bit 4 1) s;
         s = (if list_ex (\<lambda>v. v \<noteq> 0) (take 1000 probes) then s\<lparr>havedisk1 := True\<rparr> else s) in
     Inr (outb 0x1f6 (0xe0 OR push_bit 4 0) s))"

definition idestart :: "uchar list \<Rightarrow> nat option \<Rightarrow> ide \<Rightarrow> ide_stop + ide" where
  "idestart polls b s = (case b of
       None \<Rightarrow> Inl (Stopped_by ''idestart'')
     | Some b \<Rightarrow>
         let x = id_buf s ! b; sector_per_block = BSIZE div SECTOR_SIZE; sector = b_blockno x * of_nat sector_per_block;
             read_cmd = (if sector_per_block = 1 then IDE_CMD_READ else IDE_CMD_RDMUL);
             write_cmd = (if sector_per_block = 1 then IDE_CMD_WRITE else IDE_CMD_WRMUL) in
         if b_blockno x \<ge> of_nat IDE_FSSIZE then Inl (Stopped_by ''incorrect blockno'')
         else if sector_per_block > 7 then Inl (Stopped_by ''idestart'')
         else andThen (idewait polls False) (\<lambda>_.
           let s = outb 0x3f6 0 s;
               s = outb 0x1f2 (of_nat sector_per_block) s;
               s = outb 0x1f3 (ucast (sector AND 0xff)) s;
               s = outb 0x1f4 (ucast (drop_bit 8 sector AND 0xff)) s;
               s = outb 0x1f5 (ucast (drop_bit 16 sector AND 0xff)) s;
               s = outb 0x1f6 (ucast (0xe0 OR push_bit 4 (b_dev x AND 1) OR (drop_bit 24 sector AND 0x0f))) s in
           Inr (if b_flags x AND B_DIRTY \<noteq> 0 then outsl (b_data x) (outb 0x1f7 write_cmd s) else outb 0x1f7 read_cmd s)))"

definition upd_ibuf :: "nat \<Rightarrow> (ibuf \<Rightarrow> ibuf) \<Rightarrow> ide \<Rightarrow> ide" where
  "upd_ibuf i f s = s\<lparr>id_buf := (id_buf s)[i := f (id_buf s ! i)]\<rparr>"

text \<open>The handler; \<open>polls\<close> and \<open>polls'\<close> are for the wait before the data and for the start of the next request.\<close>

definition ideintr :: "uchar list \<Rightarrow> uchar list \<Rightarrow> ide \<Rightarrow> ide_stop + nat option \<times> ide" where
  "ideintr polls polls' s = (case idequeue s of
       None \<Rightarrow> Inr (None, s)
     | Some b \<Rightarrow>
         let s = s\<lparr>idequeue := qnext (id_buf s ! b)\<rparr> in
         andThen (if b_flags (id_buf s ! b) AND B_DIRTY = 0
             then andThen (idewait polls True) (\<lambda>r. Inr (if r \<ge> 0 then upd_ibuf b (\<lambda>x. x\<lparr>b_data := served s\<rparr>) s else s))
             else Inr s) (\<lambda>s.
         let s = upd_ibuf b (\<lambda>x. x\<lparr>b_flags := b_flags x OR B_VALID\<rparr>) s;
             s = upd_ibuf b (\<lambda>x. x\<lparr>b_flags := b_flags x AND NOT B_DIRTY\<rparr>) s in
         andThen (if idequeue s \<noteq> None then idestart polls' (idequeue s) s else Inr s) (\<lambda>s. Inr (Some b, s))))"

text \<open>
  The last buffer of the queue from \<open>p\<close> on, \<open>None\<close> for an empty queue. The count bounds the walk; a queue is never
  longer than the number of buffers.
\<close>

fun queue_end :: "nat \<Rightarrow> nat option \<Rightarrow> ibuf list \<Rightarrow> nat option \<Rightarrow> nat option" where
  "queue_end (Suc n) (Some p) bufs l = queue_end n (qnext (bufs ! p)) bufs (Some p)"
| "queue_end n None bufs l = l"
| "queue_end 0 p bufs l = p"

text \<open>\<open>iderw\<close> up to its wait; \<open>held\<close> is the answer of \<open>holdingsleep\<close>.\<close>

definition ide_request :: "bool \<Rightarrow> uchar list \<Rightarrow> nat \<Rightarrow> ide \<Rightarrow> ide_stop + ide" where
  "ide_request held polls b s = (
     if \<not> held then Inl (Stopped_by ''iderw: buf not locked'')
     else if b_flags (id_buf s ! b) AND (B_VALID OR B_DIRTY) = B_VALID then Inl (Stopped_by ''iderw: nothing to do'')
     else if b_dev (id_buf s ! b) \<noteq> 0 \<and> \<not> havedisk1 s then Inl (Stopped_by ''iderw: ide disk 1 not present'')
     else
       let s = upd_ibuf b (\<lambda>x. x\<lparr>qnext := None\<rparr>) s;
           s = (case queue_end (length (id_buf s)) (idequeue s) (id_buf s) None of
                  None \<Rightarrow> s\<lparr>idequeue := Some b\<rparr>
                | Some p \<Rightarrow> upd_ibuf p (\<lambda>x. x\<lparr>qnext := Some b\<rparr>) s) in
       if idequeue s = Some b then idestart polls (Some b) s else Inr s)"

text \<open>Whether the process that waits in \<open>iderw\<close> goes on.\<close>

definition ide_done :: "nat \<Rightarrow> ide \<Rightarrow> bool" where
  "ide_done b s \<longleftrightarrow> b_flags (id_buf s ! b) AND (B_VALID OR B_DIRTY) = B_VALID"


section \<open>Events and the specification\<close>

text \<open>The buffers in the queue, from the first one on.\<close>

fun queued_from :: "nat \<Rightarrow> nat option \<Rightarrow> ibuf list \<Rightarrow> nat list" where
  "queued_from (Suc n) (Some p) bufs = p # queued_from n (qnext (bufs ! p)) bufs"
| "queued_from n p bufs = []"

definition queued :: "ide \<Rightarrow> nat list" where
  "queued s = queued_from (length (id_buf s)) (idequeue s) (id_buf s)"

definition to_write :: "'a buf_scheme \<Rightarrow> bool" where "to_write x \<longleftrightarrow> b_flags x AND B_DIRTY \<noteq> 0"
definition drive_of :: "'a buf_scheme \<Rightarrow> bool" where "drive_of x \<longleftrightarrow> bit (b_dev x) 0"

datatype ide_event = Request nat | Works | Interrupt | Uses nat buf

definition with_contents :: "buf \<Rightarrow> ibuf \<Rightarrow> ibuf" where
  "with_contents x y = y\<lparr>b_flags := b_flags x, b_dev := b_dev x, b_blockno := b_blockno x, b_refcnt := b_refcnt x, b_data := b_data x\<rparr>"

text \<open>
  A process enters a buffer that is not in the queue: it holds the buffer's lock until its request is served. It may
  change only such buffers. The disk interrupts when it has carried out the command, and reports no error.
\<close>

inductive ide_step :: "ide \<Rightarrow> ide_event \<Rightarrow> ide \<Rightarrow> bool" where
  request: "b < length (id_buf s) \<Longrightarrow> b \<notin> set (queued s) \<Longrightarrow> b_blockno (id_buf s ! b) < of_nat IDE_FSSIZE \<Longrightarrow>
    ide_request True polls b s = Inr s' \<Longrightarrow> ide_step s (Request b) s'"
| works: "command s \<noteq> None \<Longrightarrow> ide_step s Works (disk_works True s)"
| interrupt: "command s = None \<Longrightarrow> idewait polls True = Inr 0 \<Longrightarrow> ideintr polls polls' s = Inr (w, s') \<Longrightarrow>
    ide_step s Interrupt s'"
| uses: "b \<notin> set (queued s) \<Longrightarrow> ide_step s (Uses b x) (upd_ibuf b (with_contents x) s)"

inductive ide_trace :: "ide \<Rightarrow> ide_event list \<Rightarrow> ide \<Rightarrow> bool" where
  "ide_trace s [] s"
| "ide_step s e s' \<Longrightarrow> ide_trace s' es s'' \<Longrightarrow> ide_trace s (e # es) s''"

text \<open>What the driver promises: requests wait in a list and are carried out one at a time, the oldest first.\<close>

record requests =
  waiting :: "nat list"
  sp_buf :: "buf list"
  sp_disk :: "bool \<Rightarrow> uint \<Rightarrow> block"

definition serve :: "nat \<Rightarrow> requests \<Rightarrow> requests" where
  "serve b a = (let x = sp_buf a ! b in
     if to_write x
     then a\<lparr>sp_disk := (sp_disk a)(drive_of x := (sp_disk a (drive_of x))(b_blockno x := b_data x)),
            sp_buf := (sp_buf a)[b := x\<lparr>b_flags := (b_flags x OR B_VALID) AND NOT B_DIRTY\<rparr>]\<rparr>
     else a\<lparr>sp_buf := (sp_buf a)[b := x\<lparr>b_data := sp_disk a (drive_of x) (b_blockno x),
                                          b_flags := (b_flags x OR B_VALID) AND NOT B_DIRTY\<rparr>]\<rparr>)"

fun spec_step :: "ide_event \<Rightarrow> requests \<Rightarrow> requests" where
  "spec_step (Request b) a = a\<lparr>waiting := waiting a @ [b]\<rparr>"
| "spec_step Works a = a"
| "spec_step Interrupt a = (case waiting a of [] \<Rightarrow> a | b # bs \<Rightarrow> (serve b a)\<lparr>waiting := bs\<rparr>)"
| "spec_step (Uses b x) a = a\<lparr>sp_buf := (sp_buf a)[b := x]\<rparr>"

section \<open>The queue\<close>

fun chain :: "nat option \<Rightarrow> ibuf list \<Rightarrow> nat list \<Rightarrow> bool" where
  "chain p bufs [] \<longleftrightarrow> p = None"
| "chain p bufs (b # bs) \<longleftrightarrow> p = Some b \<and> b < length bufs \<and> chain (qnext (bufs ! b)) bufs bs"

lemma queue_end_chain: "chain p bufs qs \<Longrightarrow> length qs \<le> n \<Longrightarrow> queue_end n p bufs l = (if qs = [] then l else Some (last qs))"
proof (induction qs arbitrary: p n l)
  case (Cons b bs)
  then obtain m where n: "n = Suc m" by (cases n) auto
  have "queue_end m (qnext (bufs ! b)) bufs (Some b) = (if bs = [] then Some b else Some (last bs))"
    using Cons by (simp add: n)
  then show ?case using Cons.prems(1) by (simp add: n)
qed simp

lemma queued_from_chain: "chain p bufs qs \<Longrightarrow> length qs \<le> n \<Longrightarrow> queued_from n p bufs = qs"
proof (induction qs arbitrary: p n)
  case (Cons b bs)
  then obtain m where n: "n = Suc m" by (cases n) auto
  then show ?case using Cons by simp
qed simp

lemma chain_range: "chain p bufs qs \<Longrightarrow> set qs \<subseteq> {..<length bufs}"
  by (induction qs arbitrary: p) auto

lemma distinct_chain_length: "chain p bufs qs \<Longrightarrow> distinct qs \<Longrightarrow> length qs \<le> length bufs"
  using card_mono [of "{..<length bufs}" "set qs"] chain_range [of p bufs qs] by (simp add: distinct_card)

lemma chain_cong:
  "\<lbrakk>chain p bufs qs; length bufs' = length bufs; \<And>q. q \<in> set qs \<Longrightarrow> qnext (bufs' ! q) = qnext (bufs ! q)\<rbrakk> \<Longrightarrow> chain p bufs' qs"
  by (induction qs arbitrary: p) auto

lemma chain_append:
  "\<lbrakk>chain p bufs qs; qs \<noteq> []; distinct qs; b \<notin> set qs; b < length bufs; length bufs' = length bufs;
    \<And>q. q \<in> set (butlast qs) \<Longrightarrow> qnext (bufs' ! q) = qnext (bufs ! q); qnext (bufs' ! last qs) = Some b; qnext (bufs' ! b) = None\<rbrakk>
   \<Longrightarrow> chain p bufs' (qs @ [b])"
proof (induction qs arbitrary: p)
  case (Cons q qs)
  show ?case
  proof (cases "qs = []")
    case False
    then show ?thesis using Cons by auto
  qed (use Cons in auto)
qed simp


section \<open>Starting a request\<close>

text \<open>What the driver writes to the ports is the request: the controller reads back the sector and the drive.\<close>

lemma byte_masks:
  "bit (0xff :: uint) k \<longleftrightarrow> k < 8" "bit (0x0f :: uint) k \<longleftrightarrow> k < 4" "bit (0xe0 :: uint) k \<longleftrightarrow> 5 \<le> k \<and> k < 8"
proof -
  have e: "(0xff :: uint) = mask 8" "(0x0f :: uint) = mask 4" "(0xe0 :: uint) = push_bit 5 (mask 3)"
    by (simp_all add: mask_eq_exp_minus_1)
  show "bit (0xff :: uint) k \<longleftrightarrow> k < 8" "bit (0x0f :: uint) k \<longleftrightarrow> k < 4" "bit (0xe0 :: uint) k \<longleftrightarrow> 5 \<le> k \<and> k < 8"
    unfolding e by (auto simp only: bit_mask_iff bit_push_bit_iff possible_bit_word) auto
qed

lemma sector_in_ports:
  fixes n m8 m4 :: uint
  assumes n: "n < 2 ^ 28" and m: "\<And>k. bit m8 k \<longleftrightarrow> k < 8" "\<And>k. bit m4 k \<longleftrightarrow> k < 4"
  shows "(n AND m8) OR push_bit 8 (drop_bit 8 n AND m8) OR push_bit 16 (drop_bit 16 n AND m8) OR
    push_bit 24 (drop_bit 24 n AND m4) = n"
proof -
  have hi: "\<not> bit n k" if "28 \<le> k" for k
    using n that by (metis bit_take_bit_iff less_mask_eq not_le take_bit_eq_mask unsigned_less word_less_nat_alt)
  show ?thesis
  proof (rule bit_word_eqI)
    fix k assume "k < LENGTH(32)"
    then show "bit ((n AND m8) OR push_bit 8 (drop_bit 8 n AND m8) OR push_bit 16 (drop_bit 16 n AND m8) OR
      push_bit 24 (drop_bit 24 n AND m4)) k = bit n k"
      using hi [of k] by (cases "k < 8"; cases "k < 16"; cases "k < 24"; cases "k < 28") (auto simp: bit_simps m)
  qed
qed

lemma byte_back:
  fixes w m8 :: uint
  assumes "\<And>k. bit m8 k \<longleftrightarrow> k < 8"
  shows "ucast (ucast (w AND m8) :: uchar) = w AND m8"
  by (rule bit_word_eqI) (auto simp: bit_simps assms)

lemma drive_byte:
  fixes n d m4 e0 :: uint
  assumes "\<And>k. bit m4 k \<longleftrightarrow> k < 4" "\<And>k. bit e0 k \<longleftrightarrow> 5 \<le> k \<and> k < 8"
  defines "b \<equiv> ucast (e0 OR push_bit 4 (d AND 1) OR (drop_bit 24 n AND m4)) :: uchar"
  shows "ucast b AND m4 = drop_bit 24 n AND m4" and "bit b 4 \<longleftrightarrow> bit d 0"
  unfolding b_def by (rule bit_word_eqI) (auto simp: bit_simps assms(1,2))

lemma port_sector_written:
  fixes n d :: uint
  assumes "n < 2 ^ 28"
    and "p 0x1f3 = ucast (n AND 0xff)" "p 0x1f4 = ucast (drop_bit 8 n AND 0xff)" "p 0x1f5 = ucast (drop_bit 16 n AND 0xff)"
    and p6: "p 0x1f6 = ucast (0xe0 OR push_bit 4 (d AND 1) OR (drop_bit 24 n AND 0x0f))"
  shows "port_sector p = n" and "port_drive p \<longleftrightarrow> bit d 0"
proof -
  note m = byte_masks
  show "port_sector p = n"
    unfolding port_sector_def assms(2-5) byte_back [OF m(1)] drive_byte(1) [OF m(2,3)]
    by (rule sector_in_ports [OF assms(1) m(1,2)])
  have "p 0x1f6 AND 0x10 \<noteq> 0 \<longleftrightarrow> bit (p 0x1f6) 4"
    using and_exp_eq_0_iff_not_bit [of "p 0x1f6" 4] by simp
  also have "\<dots> \<longleftrightarrow> bit d 0" unfolding p6 by (rule drive_byte(2) [OF m(2,3)])
  finally show "port_drive p \<longleftrightarrow> bit d 0" by (simp add: port_drive_def)
qed

lemma idewait_cases: "idewait polls c = Inl Never_ready \<or> (\<exists>r. idewait polls c = Inr r)"
  by (simp add: idewait_def split: option.splits)

lemma outb_ports:
  "outb 0x3f6 v s = s\<lparr>ports := (ports s)(0x3f6 := v)\<rparr>" "outb 0x1f2 v s = s\<lparr>ports := (ports s)(0x1f2 := v)\<rparr>"
  "outb 0x1f3 v s = s\<lparr>ports := (ports s)(0x1f3 := v)\<rparr>" "outb 0x1f4 v s = s\<lparr>ports := (ports s)(0x1f4 := v)\<rparr>"
  "outb 0x1f5 v s = s\<lparr>ports := (ports s)(0x1f5 := v)\<rparr>" "outb 0x1f6 v s = s\<lparr>ports := (ports s)(0x1f6 := v)\<rparr>"
  by (simp_all add: outb_def)

lemma outb_address:
  "outb 0x1f6 f (outb 0x1f5 e (outb 0x1f4 d (outb 0x1f3 c (outb 0x1f2 b (outb 0x3f6 a s))))) =
   s\<lparr>ports := (ports s)(0x3f6 := a, 0x1f2 := b, 0x1f3 := c, 0x1f4 := d, 0x1f5 := e, 0x1f6 := f)\<rparr>"
  by (simp add: outb_ports)

lemma outb_command:
  "outb 0x1f7 0x20 s = s\<lparr>ports := (ports s)(0x1f7 := 0x20),
     command := Some (False, port_drive ((ports s)(0x1f7 := 0x20)), port_sector ((ports s)(0x1f7 := 0x20)))\<rparr>"
  "outb 0x1f7 0x30 s = s\<lparr>ports := (ports s)(0x1f7 := 0x30),
     command := Some (True, port_drive ((ports s)(0x1f7 := 0x30)), port_sector ((ports s)(0x1f7 := 0x30)))\<rparr>"
  by (simp_all add: outb_def IDE_CMD_READ_def IDE_CMD_WRITE_def IDE_CMD_RDMUL_def IDE_CMD_WRMUL_def)

lemma idestart_started:
  assumes "idestart polls (Some b) s = Inr s'"
  shows "id_buf s' = id_buf s" "idequeue s' = idequeue s" "sectors s' = sectors s" "havedisk1 s' = havedisk1 s"
    "command s' = Some (to_write (id_buf s ! b), drive_of (id_buf s ! b), b_blockno (id_buf s ! b))"
    "to_write (id_buf s ! b) \<Longrightarrow> ported s' = b_data (id_buf s ! b)"
proof -
  define x where "x = id_buf s ! b"
  define n where "n = b_blockno x"
  have spb: "BSIZE div SECTOR_SIZE = 1" by (simp add: BSIZE_def SECTOR_SIZE_def)
  have bn: "\<not> b_blockno x \<ge> of_nat IDE_FSSIZE"
    using assms by (auto simp: idestart_def Let_def x_def)
  then have n: "n < 2 ^ 28" unfolding n_def IDE_FSSIZE_def not_le by (rule order_less_trans) simp
  obtain r where r: "idewait polls False = Inr r"
    using idewait_cases [of polls False] assms bn by (auto simp: idestart_def Let_def x_def spb)
  define v where "v = (ucast (0xe0 OR push_bit 4 (b_dev x AND 1) OR (drop_bit 24 n AND 0x0f)) :: uchar)"
  define p where "p = (ports s)(0x3f6 := 0, 0x1f2 := of_nat 1, 0x1f3 := ucast (n AND 0xff), 0x1f4 := ucast (drop_bit 8 n AND 0xff),
    0x1f5 := ucast (drop_bit 16 n AND 0xff), 0x1f6 := v)"
  have p: "port_sector (p(0x1f7 := c)) = n" "port_drive (p(0x1f7 := c)) = drive_of x" for c
    using port_sector_written [OF n, of "p(0x1f7 := c)" "b_dev x"] by (simp_all add: p_def v_def drive_of_def)
  define t where "t = s\<lparr>ports := p\<rparr>"
  have nn: "n * of_nat 1 = n" by simp
  have T: "outb 0x1f6 v (outb 0x1f5 (ucast (drop_bit 16 n AND 0xff)) (outb 0x1f4 (ucast (drop_bit 8 n AND 0xff))
      (outb 0x1f3 (ucast (n AND 0xff)) (outb 0x1f2 (of_nat 1) (outb 0x3f6 0 s))))) = t"
    by (simp only: outb_address t_def p_def)
  have "s' = (if to_write x then outsl (b_data x) (outb 0x1f7 0x30 t) else outb 0x1f7 0x20 t)"
    using assms bn unfolding idestart_def Let_def option.case x_def [symmetric] spb r n_def [symmetric] nn
      v_def [symmetric] andThen_Inr T
    by (simp add: to_write_def IDE_CMD_READ_def IDE_CMD_WRITE_def split: if_splits)
  then have s': "s' = (if to_write x then s\<lparr>ports := p(0x1f7 := 0x30), command := Some (True, drive_of x, n), ported := b_data x\<rparr>
      else s\<lparr>ports := p(0x1f7 := 0x20), command := Some (False, drive_of x, n)\<rparr>)"
    by (simp add: outb_command outsl_def t_def p)
  show "id_buf s' = id_buf s" "idequeue s' = idequeue s" "sectors s' = sectors s" "havedisk1 s' = havedisk1 s"
    "command s' = Some (to_write (id_buf s ! b), drive_of (id_buf s ! b), b_blockno (id_buf s ! b))"
    "to_write (id_buf s ! b) \<Longrightarrow> ported s' = b_data (id_buf s ! b)"
    by (simp_all add: s' x_def [symmetric] n_def [symmetric])
qed


section \<open>The driver implements the specification\<close>

definition progress :: "ide \<Rightarrow> requests \<Rightarrow> bool" where
  "progress s a \<longleftrightarrow> (case waiting a of
       [] \<Rightarrow> command s = None \<and> sectors s = sp_disk a
     | b # bs \<Rightarrow> let x = sp_buf a ! b in
         command s = Some (to_write x, drive_of x, b_blockno x) \<and> (to_write x \<longrightarrow> ported s = b_data x) \<and> sectors s = sp_disk a \<or>
         command s = None \<and> (\<not> to_write x \<longrightarrow> served s = sp_disk a (drive_of x) (b_blockno x)) \<and> sectors s = sp_disk (serve b a))"

definition sim :: "ide \<Rightarrow> requests \<Rightarrow> bool" where
  "sim s a \<longleftrightarrow> chain (idequeue s) (id_buf s) (waiting a) \<and> distinct (waiting a) \<and>
     (\<forall>b\<in>set (waiting a). b_blockno (sp_buf a ! b) < of_nat IDE_FSSIZE) \<and> map buf.truncate (id_buf s) = sp_buf a \<and> progress s a"

lemma contents_simps [simp]:
  "to_write (buf.truncate x) \<longleftrightarrow> to_write x" "drive_of (buf.truncate x) \<longleftrightarrow> drive_of x"
  "b_blockno (buf.truncate x) = b_blockno x" "b_data (buf.truncate x) = b_data x" "b_flags (buf.truncate x) = b_flags x"
  "buf.truncate (y\<lparr>qnext := q\<rparr>) = buf.truncate y" "buf.truncate (with_contents z y) = z" "qnext (with_contents z y) = qnext y"
  "buf.truncate (y\<lparr>b_flags := f\<rparr>) = (buf.truncate y)\<lparr>b_flags := f\<rparr>"
  "buf.truncate (y\<lparr>b_data := d\<rparr>) = (buf.truncate y)\<lparr>b_data := d\<rparr>"
  by (simp_all add: to_write_def drive_of_def buf.defs with_contents_def)

lemma upd_ibuf_simps [simp]:
  "id_buf (upd_ibuf i f s) = (id_buf s)[i := f (id_buf s ! i)]" "idequeue (upd_ibuf i f s) = idequeue s"
  "command (upd_ibuf i f s) = command s" "ported (upd_ibuf i f s) = ported s" "served (upd_ibuf i f s) = served s"
  "sectors (upd_ibuf i f s) = sectors s" "havedisk1 (upd_ibuf i f s) = havedisk1 s"
  by (simp_all add: upd_ibuf_def)

lemma sim_queued: "sim s a \<Longrightarrow> queued s = waiting a"
  unfolding queued_def sim_def by (blast intro: queued_from_chain distinct_chain_length)

lemma started_progress:
  assumes "idestart polls (Some b) s = Inr s'" "waiting a = b # bs" "sp_buf a = map buf.truncate (id_buf s)" "b < length (id_buf s)"
    and "sectors s = sp_disk a"
  shows "progress s' a"
  using idestart_started [OF assms(1)] assms(2-) by (simp add: progress_def Let_def)

lemma sp_disk_serve_waiting [simp]: "sp_disk (serve b (a\<lparr>waiting := w\<rparr>)) = sp_disk (serve b a)"
  by (simp add: serve_def Let_def)

lemma sp_buf_serve: "b < length (sp_buf a) \<Longrightarrow> sp_buf (serve b a) = (sp_buf a)[b := sp_buf (serve b a) ! b]"
  by (cases "to_write (sp_buf a ! b)") (simp_all add: serve_def Let_def)

lemma sim_request:
  assumes sim: "sim s a" and b: "b < length (id_buf s)" "b \<notin> set (queued s)" "b_blockno (id_buf s ! b) < of_nat IDE_FSSIZE"
    and run: "ide_request True polls b s = Inr s'"
  shows "sim s' (spec_step (Request b) a)"
proof -
  define qs where "qs = waiting a"
  define a' where "a' = spec_step (Request b) a"
  have a': "waiting a' = qs @ [b]" "sp_buf a' = sp_buf a" "sp_disk a' = sp_disk a" by (simp_all add: a'_def qs_def)
  have S: "chain (idequeue s) (id_buf s) qs" "distinct qs" "\<And>q. q \<in> set qs \<Longrightarrow> b_blockno (sp_buf a ! q) < of_nat IDE_FSSIZE"
    "map buf.truncate (id_buf s) = sp_buf a" "progress s a"
    using sim by (auto simp: sim_def qs_def)
  have nb: "b \<notin> set qs" using b(2) sim_queued [OF sim] by (simp add: qs_def)
  define s1 where "s1 = upd_ibuf b (\<lambda>x. x\<lparr>qnext := None\<rparr>) s"
  have s1: "idequeue s1 = idequeue s" "id_buf s1 = (id_buf s)[b := (id_buf s ! b)\<lparr>qnext := None\<rparr>]" "sectors s1 = sectors s"
    by (simp_all add: s1_def)
  have c1: "chain (idequeue s1) (id_buf s1) qs" using nb by (intro chain_cong [OF S(1), folded s1(1)]) (simp_all add: s1(2), metis nth_list_update_neq)
  have t1: "map buf.truncate (id_buf s1) = sp_buf a" using b(1) by (simp add: s1(2) map_update S(4) [symmetric] list_update_same_conv)
  have l: "length qs \<le> length (id_buf s1)" using distinct_chain_length [OF c1 S(2)] .
  have qe: "queue_end (length (id_buf s1)) (idequeue s1) (id_buf s1) None = (if qs = [] then None else Some (last qs))"
    by (rule queue_end_chain [OF c1 l])
  have blk: "\<And>q. q \<in> set (qs @ [b]) \<Longrightarrow> b_blockno (sp_buf a ! q) < of_nat IDE_FSSIZE"
    using S(3) b(1,3) by (auto simp: S(4) [symmetric])
  have run1: "(let s = (case queue_end (length (id_buf s1)) (idequeue s1) (id_buf s1) None of None \<Rightarrow> s1\<lparr>idequeue := Some b\<rparr>
      | Some p \<Rightarrow> upd_ibuf p (\<lambda>x. x\<lparr>qnext := Some b\<rparr>) s1) in if idequeue s = Some b then idestart polls (Some b) s else Inr s) = Inr s'"
    using run unfolding ide_request_def Let_def s1_def [symmetric] by (simp split: if_splits)
  have "chain (idequeue s') (id_buf s') (qs @ [b]) \<and> map buf.truncate (id_buf s') = sp_buf a \<and> progress s' a'"
  proof (cases "qs = []")
    case True
    define s2 where "s2 = s1\<lparr>idequeue := Some b\<rparr>"
    have st: "idestart polls (Some b) s2 = Inr s'" using run1 True by (simp add: qe s2_def)
    have f: "id_buf s' = id_buf s1" "idequeue s' = Some b" using idestart_started [OF st] by (simp_all add: s2_def)
    have "sectors s2 = sp_disk a'" using S(5) True by (simp add: progress_def qs_def [symmetric] a' s2_def s1)
    moreover have "b < length (id_buf s1)" using b(1) by (simp add: s1(2))
    ultimately have "progress s' a'" using True by (intro started_progress [OF st, where bs = "[]"]) (simp_all add: a' s2_def t1)
    then show ?thesis using True b(1) t1 by (simp add: f) (simp add: s1(2))
  next
    case False
    define s2 where "s2 = upd_ibuf (last qs) (\<lambda>x. x\<lparr>qnext := Some b\<rparr>) s1"
    have lq: "last qs \<in> set qs" using False by simp
    then have lb: "last qs \<noteq> b" "last qs < length (id_buf s1)" using nb chain_range [OF c1] by auto
    have hd: "idequeue s2 = Some (hd qs)" using c1 False by (cases qs) (auto simp: s2_def)
    then have "idequeue s2 \<noteq> Some b" using nb False hd_in_set [of qs] by auto
    then have s': "s' = s2" using run1 False by (simp add: qe s2_def split: if_splits)
    have c2: "chain (idequeue s1) (id_buf s2) (qs @ [b])"
    proof (rule chain_append [OF c1 False S(2) nb])
      fix q assume "q \<in> set (butlast qs)"
      then have "q \<noteq> last qs" using S(2) False by (metis append_butlast_last_id distinct_append disjoint_iff list.set_intros(1))
      then show "qnext (id_buf s2 ! q) = qnext (id_buf s1 ! q)" by (simp add: s2_def)
    qed (use lb b(1) in \<open>simp_all add: s2_def s1(2)\<close>)
    have t2: "map buf.truncate (id_buf s2) = sp_buf a"
      using lb(2) by (simp add: s2_def map_update t1 [symmetric] list_update_same_conv)
    obtain q rs where q: "qs = q # rs" using False by (cases qs) auto
    have "progress s2 (a\<lparr>waiting := qs @ [b]\<rparr>)" using S(5) unfolding progress_def qs_def [symmetric] q
      by (simp add: s2_def s1_def)
    then have "progress s2 a'" by (simp add: a'_def qs_def)
    then show ?thesis using c2 t2 by (simp add: s' s2_def)
  qed
  then show ?thesis using S(2) nb blk unfolding sim_def a'_def [symmetric] a' by auto
qed

lemma sim_works:
  assumes sim: "sim s a" and c: "command s \<noteq> None"
  shows "sim (disk_works True s) (spec_step Works a)"
proof -
  have pr: "progress s a" using sim by (simp add: sim_def)
  obtain b bs where q: "waiting a = b # bs" using pr c by (cases "waiting a") (auto simp: progress_def)
  define x where "x = sp_buf a ! b"
  have st: "command s = Some (to_write x, drive_of x, b_blockno x)" "to_write x \<Longrightarrow> ported s = b_data x" "sectors s = sp_disk a"
    using pr c by (auto simp: progress_def q x_def Let_def)
  have f: "id_buf (disk_works True s) = id_buf s" "idequeue (disk_works True s) = idequeue s" "command (disk_works True s) = None"
    by (simp_all add: disk_works_def st split: bool.splits)
  have "progress (disk_works True s) a"
    unfolding progress_def q x_def [symmetric] list.case Let_def
    using st by (cases "to_write x") (simp_all add: disk_works_def serve_def x_def [symmetric] Let_def)
  then show ?thesis using sim by (simp add: sim_def f)
qed


lemma ideintr_head:
  assumes "idequeue s = Some b" "b < length (id_buf s)" "idewait polls True = Inr 0" and x: "x = id_buf s ! b"
  shows "ideintr polls polls' s =
    (let y = (if to_write x then x else x\<lparr>b_data := served s\<rparr>)\<lparr>b_flags := (b_flags x OR B_VALID) AND NOT B_DIRTY\<rparr>;
         t = s\<lparr>idequeue := qnext x, id_buf := (id_buf s)[b := y]\<rparr> in
     andThen (if idequeue t \<noteq> None then idestart polls' (idequeue t) t else Inr t) (\<lambda>s. Inr (Some b, s)))"
proof -
  define s1 where "s1 = s\<lparr>idequeue := qnext x\<rparr>"
  define s2 where "s2 = (if to_write x then s1 else upd_ibuf b (\<lambda>x. x\<lparr>b_data := served s1\<rparr>) s1)"
  have s1: "id_buf s1 ! b = x" by (simp add: s1_def x)
  have A: "(if b_flags (id_buf s1 ! b) AND B_DIRTY = 0
      then andThen (idewait polls True) (\<lambda>r. Inr (if r \<ge> 0 then upd_ibuf b (\<lambda>x. x\<lparr>b_data := served s1\<rparr>) s1 else s1)) else Inr s1) = Inr s2"
    by (simp add: s1 assms(3) s2_def to_write_def)
  have B: "upd_ibuf b (\<lambda>x. x\<lparr>b_flags := b_flags x AND NOT B_DIRTY\<rparr>) (upd_ibuf b (\<lambda>x. x\<lparr>b_flags := b_flags x OR B_VALID\<rparr>) s2) =
      s1\<lparr>id_buf := (id_buf s)[b :=
        (if to_write x then x else x\<lparr>b_data := served s\<rparr>)\<lparr>b_flags := (b_flags x OR B_VALID) AND NOT B_DIRTY\<rparr>]\<rparr>"
    using assms(2) by (cases "to_write x") (simp_all add: s2_def s1_def upd_ibuf_def x [symmetric])
  show ?thesis unfolding ideintr_def assms(1) option.case Let_def x [symmetric] s1_def [symmetric] A andThen_Inr B by simp
qed

lemma sim_interrupt:
  assumes sim: "sim s a" and c: "command s = None" "idewait polls True = Inr 0" and run: "ideintr polls polls' s = Inr (w, s')"
  shows "sim s' (spec_step Interrupt a)"
proof (cases "waiting a")
  case Nil
  then have "idequeue s = None" using sim by (simp add: sim_def)
  then have "s' = s" using run by (simp add: ideintr_def)
  then show ?thesis using sim Nil by simp
next
  case (Cons b bs)
  have S: "chain (idequeue s) (id_buf s) (b # bs)" "distinct (b # bs)" "\<And>q. q \<in> set (b # bs) \<Longrightarrow> b_blockno (sp_buf a ! q) < of_nat IDE_FSSIZE"
    "map buf.truncate (id_buf s) = sp_buf a" "progress s a"
    using sim by (auto simp: sim_def Cons)
  have b: "idequeue s = Some b" "b < length (id_buf s)" "b \<notin> set bs" using S(1,2) by simp_all
  define x where "x = id_buf s ! b"
  have x: "sp_buf a ! b = buf.truncate x" using b(2) by (simp add: S(4) [symmetric] x_def)
  have pr: "\<not> to_write x \<Longrightarrow> served s = sp_disk a (drive_of x) (b_blockno x)" "sectors s = sp_disk (serve b a)"
    using S(5) c(1) by (simp_all add: progress_def Cons x Let_def)
  define y where "y = (if to_write x then x else x\<lparr>b_data := served s\<rparr>)\<lparr>b_flags := (b_flags x OR B_VALID) AND NOT B_DIRTY\<rparr>"
  define t where "t = s\<lparr>idequeue := qnext x, id_buf := (id_buf s)[b := y]\<rparr>"
  have t: "idequeue t = qnext x" "id_buf t = (id_buf s)[b := y]" "sectors t = sectors s" "command t = None"
    by (simp_all add: t_def c)
  define a' where "a' = spec_step Interrupt a"
  have a': "waiting a' = bs" "sp_disk a' = sectors s" by (simp_all add: a'_def Cons pr(2))
  have sa': "sp_buf a' = sp_buf (serve b a)" by (simp add: a'_def Cons)
  have len: "length (sp_buf a) = length (id_buf s)" by (simp add: S(4) [symmetric])
  have y: "qnext y = qnext x" "buf.truncate y = sp_buf (serve b a) ! b"
    using b(2) pr(1) by (simp_all add: y_def serve_def x Let_def len)
  have upd: "sp_buf (serve b a) = (sp_buf a)[b := buf.truncate y]"
    unfolding y(2) using b(2) by (intro sp_buf_serve) (simp add: len)
  have buf: "map buf.truncate (id_buf t) = sp_buf a'" using upd by (simp only: t(2) map_update S(4) sa')
  have ch: "chain (idequeue t) (id_buf t) bs"
  proof (rule chain_cong [where bufs = "id_buf s"])
    show "chain (idequeue t) (id_buf s) bs" using S(1) b(1) by (simp add: t(1) x_def)
    show "length (id_buf t) = length (id_buf s)" by (simp add: t(2))
    show "qnext (id_buf t ! q) = qnext (id_buf s ! q)" if "q \<in> set bs" for q
      unfolding t(2) using b(3) that by (metis nth_list_update_neq)
  qed
  have blk: "b_blockno (sp_buf a' ! q) < of_nat IDE_FSSIZE" if "q \<in> set bs" for q
  proof -
    have "q \<noteq> b" using b(3) that by auto
    then have "sp_buf a' ! q = sp_buf a ! q" using upd by (simp only: sa' nth_list_update_neq not_False_eq_True)
    then show ?thesis using S(3) [of q] that by simp
  qed
  have run': "(if idequeue t \<noteq> None then idestart polls' (idequeue t) t else Inr t) = Inr s'"
  proof -
    have "andThen (if idequeue t \<noteq> None then idestart polls' (idequeue t) t else Inr t) (\<lambda>s. Inr (Some b, s)) = Inr (w, s')"
      using run unfolding ideintr_head [OF b(1,2) c(2) x_def] Let_def y_def [symmetric] t_def [symmetric] .
    then show ?thesis unfolding andThen_eq_Inr_iff by (metis prod.inject sum.inject(2))
  qed
  have "chain (idequeue s') (id_buf s') bs \<and> map buf.truncate (id_buf s') = sp_buf a' \<and> progress s' a'"
  proof (cases bs)
    case Nil
    then have "idequeue t = None" using ch by simp
    then have "s' = t" using run' by simp
    then show ?thesis using ch buf Nil by (simp add: progress_def a' t)
  next
    case (Cons d ds)
    then have d: "idequeue t = Some d" "d < length (id_buf t)" using ch by simp_all
    then have st: "idestart polls' (Some d) t = Inr s'" using run' by simp
    have "progress s' a'" by (rule started_progress [OF st _ buf [symmetric] d(2)]) (simp_all add: a' Cons t(3))
    then show ?thesis using idestart_started [OF st] ch buf by simp
  qed
  then show ?thesis using S(2) blk unfolding sim_def a'_def [symmetric] a' by auto
qed


lemma sim_uses:
  assumes sim: "sim s a" and b: "b \<notin> set (queued s)"
  shows "sim (upd_ibuf b (with_contents x) s) (spec_step (Uses b x) a)"
proof -
  define s' where "s' = upd_ibuf b (with_contents x) s"
  define a' where "a' = spec_step (Uses b x) a"
  have s': "idequeue s' = idequeue s" "id_buf s' = (id_buf s)[b := with_contents x (id_buf s ! b)]" "command s' = command s"
    "ported s' = ported s" "served s' = served s" "sectors s' = sectors s"
    by (simp_all add: s'_def)
  have a': "waiting a' = waiting a" "sp_buf a' = (sp_buf a)[b := x]" "sp_disk a' = sp_disk a" by (simp_all add: a'_def)
  have nb: "b \<notin> set (waiting a)" using b sim_queued [OF sim] by simp
  have same: "sp_buf a' ! q = sp_buf a ! q" "id_buf s' ! q = id_buf s ! q" if "q \<in> set (waiting a)" for q
    using nb that by (metis a'(2) nth_list_update_neq, metis s'(2) nth_list_update_neq)
  have "chain (idequeue s') (id_buf s') (waiting a)"
    using sim same unfolding sim_def by (intro chain_cong [where bufs = "id_buf s" and bufs' = "id_buf s'"]) (simp_all add: s'(1,2))
  moreover have "map buf.truncate (id_buf s') = sp_buf a'" using sim by (simp add: sim_def s'(2) a'(2) map_update)
  moreover have "progress s' a'"
  proof (cases "waiting a")
    case (Cons q qs)
    have "sp_buf a' ! q = sp_buf a ! q" by (rule same) (simp add: Cons)
    moreover from this have "sp_disk (serve q a') = sp_disk (serve q a)" by (cases "to_write (sp_buf a ! q)") (simp_all add: serve_def Let_def a'(3))
    moreover have "progress s a" using sim by (simp add: sim_def)
    ultimately show ?thesis unfolding progress_def a'(1,3) Cons list.case s' by simp
  qed (use sim in \<open>simp add: sim_def progress_def s' a'\<close>)
  ultimately show ?thesis using sim same unfolding sim_def s'_def [symmetric] a'_def [symmetric] a'(1) by auto
qed

lemma sim_step: "ide_step s e s' \<Longrightarrow> sim s a \<Longrightarrow> sim s' (spec_step e a)"
  by (induction rule: ide_step.induct) (blast intro: sim_request sim_works sim_interrupt sim_uses)+

lemma sim_trace: "ide_trace s es s' \<Longrightarrow> sim s a \<Longrightarrow> sim s' (fold spec_step es a)"
  by (induction arbitrary: a rule: ide_trace.induct) (simp_all add: sim_step)

definition idle :: "ide \<Rightarrow> bool" where "idle s \<longleftrightarrow> idequeue s = None \<and> command s = None"

definition requests_of :: "ide \<Rightarrow> requests" where
  "requests_of s = \<lparr>waiting = queued s, sp_buf = map buf.truncate (id_buf s), sp_disk = sectors s\<rparr>"

lemma idle_sim: "idle s \<Longrightarrow> sim s (requests_of s)"
  by (simp add: idle_def sim_def requests_of_def progress_def queued_def)

lemma idle_requests:
  assumes "idle s" "ide_trace s es s'" "idequeue s' = None"
  shows "requests_of s' = fold spec_step es (requests_of s)"
proof -
  define a where "a = fold spec_step es (requests_of s)"
  have "sim s' a" using sim_trace [OF assms(2) idle_sim [OF assms(1)]] by (simp add: a_def)
  moreover from this have "waiting a = []" using assms(3) by (cases "waiting a") (auto simp: sim_def)
  ultimately show ?thesis unfolding a_def [symmetric] by (simp add: requests_of_def queued_def sim_def progress_def assms(3))
qed


section \<open>Every request is answered\<close>

lemma ready_poll: "idewait [IDE_DRDY] c = Inr 0"
  by (simp add: idewait_def IDE_DRDY_def IDE_BSY_def IDE_DF_def IDE_ERR_def)

lemma idestart_ready:
  assumes "b_blockno (id_buf s ! b) < of_nat IDE_FSSIZE"
  shows "\<exists>s'. idestart [IDE_DRDY] (Some b) s = Inr s'"
  using assms by (simp add: idestart_def ready_poll Let_def not_le [symmetric] BSIZE_def SECTOR_SIZE_def)

lemma sim_never_stuck:
  assumes sim: "sim s a" and q: "waiting a = b # bs"
  shows "\<exists>e s'. e \<in> {Works, Interrupt} \<and> ide_step s e s'"
proof (cases "command s")
  case None
  have S: "chain (idequeue s) (id_buf s) (b # bs)" "distinct (b # bs)" "map buf.truncate (id_buf s) = sp_buf a"
    "\<And>q. q \<in> set bs \<Longrightarrow> b_blockno (sp_buf a ! q) < of_nat IDE_FSSIZE"
    using sim by (auto simp: sim_def q)
  then have b: "idequeue s = Some b" "b < length (id_buf s)" by simp_all
  define x where "x = id_buf s ! b"
  define t where "t = s\<lparr>idequeue := qnext x, id_buf := (id_buf s)[b :=
    (if to_write x then x else x\<lparr>b_data := served s\<rparr>)\<lparr>b_flags := (b_flags x OR B_VALID) AND NOT B_DIRTY\<rparr>]\<rparr>"
  have "\<exists>s'. (if idequeue t \<noteq> None then idestart [IDE_DRDY] (idequeue t) t else Inr t) = Inr s'"
  proof (cases bs)
    case Nil
    then show ?thesis using S(1) by (simp add: t_def x_def)
  next
    case (Cons d ds)
    then have d: "idequeue t = Some d" "d < length (id_buf s)" "d \<noteq> b" using S(1,2) by (auto simp: t_def x_def)
    have "b_blockno (id_buf s ! d) < of_nat IDE_FSSIZE" using S(4) [of d] d(2) by (simp add: Cons S(3) [symmetric])
    moreover have "id_buf t ! d = id_buf s ! d" using d(3) by (simp add: t_def)
    ultimately show ?thesis using idestart_ready [of t d] d(1) by simp
  qed
  then obtain s' where "(if idequeue t \<noteq> None then idestart [IDE_DRDY] (idequeue t) t else Inr t) = Inr s'" by blast
  then have "ideintr [IDE_DRDY] [IDE_DRDY] s = Inr (Some b, s')"
    unfolding ideintr_head [OF b ready_poll x_def] Let_def t_def [symmetric] by (simp only: andThen_Inr)
  then have "ide_step s Interrupt s'" by (rule ide_step.interrupt [OF None ready_poll])
  then show ?thesis by blast
next
  case (Some c)
  then have "ide_step s Works (disk_works True s)" by (intro ide_step.works) simp
  then show ?thesis by blast
qed

lemma served_is_done:
  assumes "sim s (spec_step Interrupt a)" "waiting a = b # bs" "b < length (sp_buf a)"
  shows "ide_done b s"
proof -
  have t: "map buf.truncate (id_buf s) = sp_buf (serve b a)" using assms(1,2) by (simp add: sim_def)
  have l: "length (sp_buf (serve b a)) = length (sp_buf a)" using sp_buf_serve [OF assms(3)] by (metis length_list_update)
  have "b_flags (sp_buf (serve b a) ! b) = (b_flags (sp_buf a ! b) OR B_VALID) AND NOT B_DIRTY"
    using assms(3) by (cases "to_write (sp_buf a ! b)") (simp_all add: serve_def Let_def)
  moreover have "b_flags (id_buf s ! b) = b_flags (sp_buf (serve b a) ! b)"
    using assms(3) l by (metis contents_simps(5) length_map nth_map t)
  ultimately show ?thesis unfolding ide_done_def flags_only_valid by (simp add: bit_simps flag_bits)
qed

lemma answered:
  "\<lbrakk>ide_trace s es s''; sim s a; i < length (waiting a); waiting a ! i = b; i < count_list es Interrupt\<rbrakk> \<Longrightarrow>
   \<exists>es1 es2 t. es = es1 @ es2 \<and> ide_trace s es1 t \<and> ide_done b t"
proof (induction arbitrary: a i rule: ide_trace.induct)
  case (2 s e s' es s'')
  have sim': "sim s' (spec_step e a)" by (rule sim_step [OF 2(1) 2(4)])
  have later: ?case if "\<exists>es1 es2 t. es = es1 @ es2 \<and> ide_trace s' es1 t \<and> ide_done b t"
    using that ide_trace.intros(2) [OF 2(1)] by (metis append_Cons)
  show ?case
  proof (cases e)
    case (Request c)
    then show ?thesis using 2(5-7) by (intro later 2(3) [OF sim', of i]) (simp_all add: nth_append)
  next
    case Works
    then show ?thesis using 2(5-7) by (intro later 2(3) [OF sim', of i]) simp_all
  next
    case (Uses c x)
    then show ?thesis using 2(5-7) by (intro later 2(3) [OF sim', of i]) simp_all
  next
    case Interrupt
    obtain d bs where q: "waiting a = d # bs" using 2(5) by (cases "waiting a") auto
    show ?thesis
    proof (cases i)
      case 0
      have "chain (idequeue s) (id_buf s) (d # bs)" "length (sp_buf a) = length (id_buf s)"
        using 2(4) q unfolding sim_def by (simp, metis length_map)
      then have "d < length (sp_buf a)" by simp
      then have "ide_done b s'" using served_is_done [OF sim' [unfolded Interrupt] q] 2(6) 0 q by simp
      moreover have "ide_trace s [e] s'" using 2(1) by (blast intro: ide_trace.intros)
      ultimately show ?thesis by (intro exI [of _ "[e]"] exI [of _ es] exI [of _ s']) simp
    next
      case (Suc j)
      then show ?thesis using 2(5-7) Interrupt q by (intro later 2(3) [OF sim', of j]) simp_all
    qed
  qed
qed simp

lemma queued_answered:
  assumes "idle s" "ide_trace s es s'" "b \<in> set (queued s')"
    and "ide_trace s' es' s''" "length (queued s') \<le> count_list es' Interrupt"
  shows "\<exists>es1 es2 t. es' = es1 @ es2 \<and> ide_trace s' es1 t \<and> ide_done b t"
proof -
  have sim: "sim s' (fold spec_step es (requests_of s))" by (rule sim_trace [OF assms(2) idle_sim [OF assms(1)]])
  obtain i where "i < length (queued s')" "queued s' ! i = b" using assms(3) by (auto simp: in_set_conv_nth)
  moreover from this have "i < count_list es' Interrupt" using assms(5) by linarith
  ultimately show ?thesis by (intro answered [OF assms(4) sim]) (simp_all add: sim_queued [OF sim, symmetric])
qed

lemma ide_never_stuck:
  assumes "idle s" "ide_trace s es s'" "queued s' \<noteq> []"
  shows "\<exists>e s''. e \<in> {Works, Interrupt} \<and> ide_step s' e s''"
proof -
  have sim: "sim s' (fold spec_step es (requests_of s))" by (rule sim_trace [OF assms(2) idle_sim [OF assms(1)]])
  then show ?thesis using assms(3) sim_never_stuck [OF sim] by (cases "queued s'") (simp_all add: sim_queued [OF sim, symmetric])
qed

text \<open>
  When the disk reports that a read has failed, the data are not read, but the buffer is marked valid all the same: the
  process that waits goes on with the data the buffer had before.
\<close>

lemma failed_read_marked_valid:
  assumes "idequeue s = Some b" "b < length (id_buf s)" "\<not> to_write (id_buf s ! b)" "qnext (id_buf s ! b) = None"
    and "idewait polls True = Inr (-1)"
  shows "\<exists>s'. ideintr polls polls' s = Inr (Some b, s') \<and> ide_done b s' \<and> b_data (id_buf s' ! b) = b_data (id_buf s ! b)"
proof -
  define x where "x = id_buf s ! b"
  have "b_flags x AND B_DIRTY = 0" using assms(3) by (simp add: to_write_def x_def)
  then have run: "ideintr polls polls' s = Inr (Some b, s\<lparr>idequeue := None, id_buf := (id_buf s)[b := x\<lparr>b_flags := (b_flags x OR B_VALID) AND NOT B_DIRTY\<rparr>]\<rparr>)"
    using assms(2,5) unfolding ideintr_def assms(1) option.case Let_def by (simp add: upd_ibuf_def x_def [symmetric] assms(4) [folded x_def])
  show ?thesis unfolding run by (simp add: ide_done_def flags_only_valid bit_simps flag_bits assms(2) x_def)
qed

lemma request_ready:
  assumes "b_flags (id_buf s ! b) AND (B_VALID OR B_DIRTY) \<noteq> B_VALID" "b_dev (id_buf s ! b) = 0 \<or> havedisk1 s"
    and "b_blockno (id_buf s ! b) < of_nat IDE_FSSIZE"
  shows "\<exists>s'. ide_request True [IDE_DRDY] b s = Inr s'"
proof -
  have kept: "b_blockno (id_buf (upd_ibuf i (\<lambda>x. x\<lparr>qnext := q\<rparr>) t) ! b) = b_blockno (id_buf t ! b)" for i q t
    by (cases "i < length (id_buf t)"; cases "i = b") (simp_all add: list_update_beyond not_less)
  define s1 where "s1 = upd_ibuf b (\<lambda>x. x\<lparr>qnext := None\<rparr>) s"
  define s2 where "s2 = (case queue_end (length (id_buf s1)) (idequeue s1) (id_buf s1) None of
    None \<Rightarrow> s1\<lparr>idequeue := Some b\<rparr> | Some p \<Rightarrow> upd_ibuf p (\<lambda>x. x\<lparr>qnext := Some b\<rparr>) s1)"
  have "b_blockno (id_buf s2 ! b) = b_blockno (id_buf s1 ! b)" by (simp add: s2_def kept split: option.split del: upd_ibuf_simps)
  moreover have "b_blockno (id_buf s1 ! b) = b_blockno (id_buf s ! b)" unfolding s1_def by (rule kept)
  ultimately obtain t where "idestart [IDE_DRDY] (Some b) s2 = Inr t" using idestart_ready [of s2 b] assms(3) by auto
  then have "(if idequeue s2 = Some b then idestart [IDE_DRDY] (Some b) s2 else Inr s2) = Inr (if idequeue s2 = Some b then t else s2)" by simp
  then show ?thesis using assms(1,2) unfolding ide_request_def Let_def s1_def [symmetric] s2_def [symmetric] by auto
qed

lemma request_starts:
  assumes "idequeue s = None" "ide_request True polls b s = Inr s'"
  shows "command s' \<noteq> None"
proof -
  have "\<exists>t. idestart polls (Some b) t = Inr s'"
    using assms(2) unfolding ide_request_def by (auto simp: assms(1) Let_def split: if_splits)
  then show ?thesis using idestart_started(5) by fastforce
qed

text \<open>A request that finds the disk idle is served by one round of the disk and its interrupt.\<close>

lemma single_request:
  assumes idle: "idle s" and b: "b < length (id_buf s)" "b_flags (id_buf s ! b) AND (B_VALID OR B_DIRTY) \<noteq> B_VALID"
    "b_dev (id_buf s ! b) = 0 \<or> havedisk1 s" "b_blockno (id_buf s ! b) < of_nat IDE_FSSIZE"
  shows "\<exists>s1 s'. ide_trace s [Request b] s1 \<and> queued s1 = [b] \<and> ide_trace s1 [Works, Interrupt] s' \<and> idequeue s' = None"
proof -
  have q: "queued s = []" using idle by (simp add: queued_def idle_def)
  obtain s1 where run: "ide_request True [IDE_DRDY] b s = Inr s1" using request_ready [OF b(2-4)] by blast
  then have 1: "ide_step s (Request b) s1" using b q by (intro ide_step.request [OF _ _ _ run]) simp_all
  have sim1: "sim s1 ((requests_of s)\<lparr>waiting := [b]\<rparr>)" using sim_step [OF 1 idle_sim [OF idle]] by (simp add: requests_of_def q)
  have q1: "queued s1 = [b]" using sim_queued [OF sim1] by simp
  have c: "command s1 \<noteq> None" using idle run by (intro request_starts) (simp_all add: idle_def)
  define s2 where "s2 = disk_works True s1"
  have 2: "ide_step s1 Works s2" unfolding s2_def by (rule ide_step.works [OF c])
  have sim2: "sim s2 ((requests_of s)\<lparr>waiting := [b]\<rparr>)" using sim_step [OF 2 sim1] by simp
  have c2: "command s2 = None" using c by (auto simp: s2_def disk_works_def split: bool.splits)
  obtain e s' where e: "ide_step s2 e s'" "e \<in> {Works, Interrupt}" using sim_never_stuck [OF sim2, of b "[]"] by auto
  have 3: "ide_step s2 Interrupt s'" using e c2 by (auto elim: ide_step.cases)
  have "sim s' (spec_step Interrupt ((requests_of s)\<lparr>waiting := [b]\<rparr>))" by (rule sim_step [OF 3 sim2])
  then have "idequeue s' = None" by (simp add: sim_def)
  then show ?thesis using 1 2 3 q1 by (blast intro: ide_trace.intros)
qed

section \<open>The memory disk implements the same specification\<close>

definition mem_requests :: "'a bst_scheme \<Rightarrow> requests" where
  "mem_requests m = \<lparr>waiting = [], sp_buf = bc_buf m, sp_disk = (\<lambda>drive n. if drive then dk_blocks m n else [])\<rparr>"

lemma served_flags:
  "(f AND NOT B_DIRTY) OR B_VALID = (f OR B_VALID) AND NOT B_DIRTY"
  "f AND B_DIRTY = 0 \<Longrightarrow> f OR B_VALID = (f OR B_VALID) AND NOT B_DIRTY"
proof -
  show e: "(f AND NOT B_DIRTY) OR B_VALID = (f OR B_VALID) AND NOT B_DIRTY" for f
    by (rule bit_word_eqI) (auto simp: bit_simps flag_bits)
  assume "f AND B_DIRTY = 0"
  then have "\<not> bit f 2" using and_exp_eq_0_iff_not_bit [of f 2] by (simp add: B_DIRTY_def)
  then show "f OR B_VALID = (f OR B_VALID) AND NOT B_DIRTY" by (intro bit_word_eqI) (auto simp: bit_simps flag_bits)
qed

lemma iderw_disk_1:
  assumes "at_proc m i p" "iderw b m = Inr m'"
  shows "b_dev (bc_buf m ! b) = 1"
  using assms(2) unfolding iderw_def holdingsleep_eq [OF assms(1)] by (auto simp: Let_def split: if_splits)

lemma serve_drive:
  assumes "sp_buf a = sp_buf c" "sp_disk a True = sp_disk c True" "drive_of (sp_buf c ! b)"
  shows "sp_buf (serve b a) = sp_buf (serve b c) \<and> sp_disk (serve b a) True = sp_disk (serve b c) True"
  using assms by (cases "to_write (sp_buf c ! b)") (simp_all add: serve_def Let_def)

lemma memide_serves:
  assumes "at_proc m i p" "b < length (bc_buf m)" and run: "iderw b m = Inr m'"
  shows "mem_requests m' = serve b (mem_requests m)"
proof -
  define x where "x = bc_buf m ! b"
  have dev: "b_dev x = 1" and ok: "\<not> b_blockno x \<ge> dk_size m"
    using run unfolding iderw_def holdingsleep_eq [OF assms(1)] by (auto simp: Let_def x_def split: if_splits)
  have d: "drive_of x" by (simp add: drive_of_def dev)
  show ?thesis
  proof (cases "to_write x")
    case True
    then have "m' = upd_buf b (\<lambda>x. x\<lparr>b_flags := b_flags x OR B_VALID\<rparr>)
        ((upd_buf b (\<lambda>x. x\<lparr>b_flags := b_flags x AND NOT B_DIRTY\<rparr>) (probed i m))\<lparr>
          dk_blocks := (dk_blocks m)(b_blockno x := b_data x), dk_writes := dk_writes m @ [(b_blockno x, b_data x)]\<rparr>)"
      using run dev ok unfolding iderw_def holdingsleep_eq [OF assms(1)] by (simp add: Let_def x_def to_write_def split: if_splits)
    then have "bc_buf m' = (bc_buf m)[b := x\<lparr>b_flags := (b_flags x OR B_VALID) AND NOT B_DIRTY\<rparr>]"
      "dk_blocks m' = (dk_blocks m)(b_blockno x := b_data x)"
      using assms(2) by (simp_all add: bc_buf_upd_buf x_def [symmetric] served_flags(1))
    then show ?thesis using True d by (auto simp: mem_requests_def serve_def x_def [symmetric] Let_def fun_eq_iff)
  next
    case False
    then have "m' = upd_buf b (\<lambda>x. x\<lparr>b_flags := b_flags x OR B_VALID\<rparr>) (upd_buf b (\<lambda>y. y\<lparr>b_data := dk_blocks m (b_blockno x)\<rparr>) (probed i m))"
      using run dev ok unfolding iderw_def holdingsleep_eq [OF assms(1)] by (simp add: Let_def x_def to_write_def split: if_splits)
    then have "bc_buf m' = (bc_buf m)[b := x\<lparr>b_data := dk_blocks m (b_blockno x), b_flags := b_flags x OR B_VALID\<rparr>]"
      "dk_blocks m' = dk_blocks m"
      using assms(2) by (simp_all add: bc_buf_upd_buf x_def [symmetric])
    moreover have "b_flags x OR B_VALID = (b_flags x OR B_VALID) AND NOT B_DIRTY" using False by (intro served_flags(2)) (simp add: to_write_def)
    ultimately show ?thesis using False d by (simp add: mem_requests_def serve_def x_def [symmetric] Let_def fun_eq_iff)
  qed
qed

theorem ide_agrees_with_memide:
  assumes "idle s" "ide_trace s [Request b, Works, Interrupt] s'" "idequeue s' = None"
    and m: "at_proc m i p" "iderw b m = Inr m'"
    and same: "map buf.truncate (id_buf s) = bc_buf m" "sectors s True = dk_blocks m"
  shows "map buf.truncate (id_buf s') = bc_buf m' \<and> sectors s' True = dk_blocks m'"
proof -
  have "b < length (id_buf s)" using assms(2) by (auto elim!: ide_trace.cases ide_step.cases)
  then have b: "b < length (bc_buf m)" by (metis length_map same(1))
  have w: "queued s = []" using assms(1) by (simp add: idle_def queued_def)
  define a where "a = (requests_of s)\<lparr>waiting := [b]\<rparr>"
  have eq: "requests_of s' = (serve b a)\<lparr>waiting := []\<rparr>"
    using idle_requests [OF assms(1-3)] by (simp add: requests_of_def w a_def)
  have "sp_buf (serve b a) = sp_buf (serve b (mem_requests m)) \<and> sp_disk (serve b a) True = sp_disk (serve b (mem_requests m)) True"
    using iderw_disk_1 [OF m] by (intro serve_drive) (simp_all add: a_def requests_of_def mem_requests_def same drive_of_def)
  then have "sp_buf (requests_of s') = sp_buf (mem_requests m')" "sp_disk (requests_of s') True = sp_disk (mem_requests m') True"
    by (simp_all add: eq memide_serves [OF m(1) b m(2)])
  then show ?thesis by (simp add: requests_of_def mem_requests_def)
qed


section \<open>Properties\<close>

definition ide_sample :: ide where
  "ide_sample = \<lparr>id_buf = [\<lparr>b_flags = 4, b_dev = 0, b_blockno = 7, b_refcnt = 1, b_data = [1, 2], qnext = None\<rparr>],
     idequeue = None, havedisk1 = True, ports = (\<lambda>_. 0), command = None, ported = [], served = [], sectors = (\<lambda>_ _. [])\<rparr>"

lemma ide_sample_request:
  "\<exists>s1 s'. ide_trace ide_sample [Request 0] s1 \<and> queued s1 = [0] \<and> ide_trace s1 [Works, Interrupt] s' \<and> idequeue s' = None"
  by (rule single_request) (simp_all add: ide_sample_def idle_def B_VALID_def B_DIRTY_def IDE_FSSIZE_def)

lemma ide_trace_append: "ide_trace s es s' \<Longrightarrow> ide_trace s' es' s'' \<Longrightarrow> ide_trace s (es @ es') s''"
  by (induction rule: ide_trace.induct) (auto intro: ide_trace.intros)

text \<open>
  C4. The driver of the IDE disk serves its requests one at a time and in the order of their arrival. Every history of
  requests, disk operations and interrupts that ends with an empty queue leaves the buffers and both disks as the
  specification says, in which a request is carried out as a whole.
\<close>

theorem ide_refines_requests:
  assumes "idle s" "ide_trace s es s'" "idequeue s' = None"
  shows "requests_of s' = fold spec_step es (requests_of s)"
  using assms by (rule idle_requests)

theorem ide_refines_requests_witness:
  "\<exists>s'. ide_trace ide_sample [Request 0, Works, Interrupt] s' \<and>
     requests_of s' = fold spec_step [Request 0, Works, Interrupt] (requests_of ide_sample)"
proof -
  obtain s1 s' where t: "ide_trace ide_sample [Request 0] s1" "ide_trace s1 [Works, Interrupt] s'" "idequeue s' = None"
    using ide_sample_request by blast
  have tr: "ide_trace ide_sample [Request 0, Works, Interrupt] s'" using ide_trace_append [OF t(1,2)] by simp
  show ?thesis using tr ide_refines_requests [OF _ tr t(3)] by (auto simp: idle_def ide_sample_def)
qed



end
