(* ===== verification/Boot.thy ===== *)
theory Boot
  imports Ide Exec
begin

unbundle bit_operations_syntax

text \<open>
  The start of the machine: the boot loader \<^verbatim>\<open>bootmain.c\<close>, which reads the kernel from the disk by whole sectors, and
  \<^verbatim>\<open>mp.c\<close>, which finds the processors in the tables of the firmware. Memory is physical memory, by address; a pointer of the
  kernel is such an address plus \<open>KERNBASE\<close>. A loop
  that need not end is a partial function, and \<open>None\<close> is a run that never returns. \<open>st\<close> are the values that one
  wait for the disk reads from its status port, and \<open>disk\<close> its sectors.
\<close>

section \<open>The boot loader\<close>

definition SECTSIZE :: nat where "SECTSIZE = 512"

definition waitdisk :: "uchar list \<Rightarrow> unit option" where
  "waitdisk st = (if list_ex (\<lambda>r. r AND 0xC0 = 0x40) st then Some () else None)"

text \<open>The sector that is read is the one that the ports name after the writes.\<close>

definition sect_ports :: "uint \<Rightarrow> nat \<Rightarrow> uchar" where
  "sect_ports offset = (\<lambda>_. 0)(0x1F2 := 1, 0x1F3 := ucast offset, 0x1F4 := ucast (drop_bit 8 offset), 0x1F5 := ucast (drop_bit 16 offset),
     0x1F6 := ucast (drop_bit 24 offset OR 0xE0), 0x1F7 := 0x20)"

definition readsect :: "uchar list \<Rightarrow> (uint \<Rightarrow> uchar list) \<Rightarrow> uint \<Rightarrow> uint \<Rightarrow> memory \<Rightarrow> memory option" where
  "readsect st disk dst offset m =
     Option.bind (waitdisk st) (\<lambda>_. Option.bind (waitdisk st) (\<lambda>_.
       Some (poke m (unat dst) (disk (port_sector (sect_ports offset))))))"

partial_function (option) readseg_from ::
  "uchar list \<Rightarrow> (uint \<Rightarrow> uchar list) \<Rightarrow> uint \<Rightarrow> uint \<Rightarrow> uint \<Rightarrow> memory \<Rightarrow> memory option" where
  "readseg_from st disk pa epa offset m = (
     if pa < epa
     then Option.bind (readsect st disk pa offset m) (readseg_from st disk (pa + of_nat SECTSIZE) epa (offset + 1))
     else Some m)"

definition readseg :: "uchar list \<Rightarrow> (uint \<Rightarrow> uchar list) \<Rightarrow> uint \<Rightarrow> uint \<Rightarrow> uint \<Rightarrow> memory \<Rightarrow> memory option" where
  "readseg st disk pa count offset m =
     (let epa = pa + count; pa = pa - offset mod of_nat SECTSIZE; offset = offset div of_nat SECTSIZE + 1 in
      readseg_from st disk pa epa offset m)"

definition ph_paddr :: "uchar list \<Rightarrow> uint" where "ph_paddr d = ld32 d 12"

fun load_segments :: "uchar list \<Rightarrow> (uint \<Rightarrow> uchar list) \<Rightarrow> nat \<Rightarrow> uint \<Rightarrow> memory \<Rightarrow> memory option" where
  "load_segments st disk 0 ph m = Some m"
| "load_segments st disk (Suc n) ph m =
     (let d = peek m (unat ph) 32; pa = ph_paddr d in
      Option.bind (readseg st disk pa (ph_filesz d) (ph_off d) m) (\<lambda>m.
      let d = peek m (unat ph) 32;
          m = (if ph_memsz d > ph_filesz d then stosb (unat (pa + ph_filesz d)) 0 (unat (ph_memsz d - ph_filesz d)) m else m) in
      load_segments st disk n (ph + 32) m))"

text \<open>The result is the memory, and the address the kernel is entered at unless the image is not an executable.\<close>

definition bootmain :: "uchar list \<Rightarrow> (uint \<Rightarrow> uchar list) \<Rightarrow> memory \<Rightarrow> (uint option \<times> memory) option" where
  "bootmain st disk m =
     Option.bind (readseg st disk 0x10000 4096 0 m) (\<lambda>m.
     let elf = peek m 0x10000 52 in
     if elf_magic elf \<noteq> ELF_MAGIC then Some (None, m)
     else Option.bind (load_segments st disk (unat (elf_phnum elf)) (0x10000 + elf_phoff elf) m)
       (\<lambda>m. Some (Some (elf_entry (peek m 0x10000 52)), m)))"

section \<open>Reading segments\<close>

text \<open>Byte \<open>j\<close> of the kernel image, which starts at the second sector.\<close>

definition image_byte :: "(uint \<Rightarrow> uchar list) \<Rightarrow> nat \<Rightarrow> uchar" where
  "image_byte disk j = disk (of_nat (j div SECTSIZE + 1)) ! (j mod SECTSIZE)"

definition whole_sectors :: "(uint \<Rightarrow> uchar list) \<Rightarrow> bool" where
  "whole_sectors disk \<longleftrightarrow> (\<forall>n. length (disk n) = SECTSIZE)"

lemma low_byte:
  fixes w m8 :: uint
  assumes "\<And>k. bit m8 k \<longleftrightarrow> k < 8"
  shows "ucast w = (ucast (w AND m8) :: uchar)"
  by (rule bit_word_eqI) (auto simp: bit_simps assms)

lemma high_byte:
  fixes n m4 e0 :: uint
  assumes "\<And>k. bit m4 k \<longleftrightarrow> k < 4" "\<And>k. bit e0 k \<longleftrightarrow> 5 \<le> k \<and> k < 8"
  shows "ucast (ucast (drop_bit 24 n OR e0) :: uchar) AND m4 =
    ucast (ucast (e0 OR push_bit 4 (0 AND 1) OR (drop_bit 24 n AND m4)) :: uchar) AND m4"
  by (rule bit_word_eqI) (auto simp: bit_simps assms)

lemma port_sector_sect:
  assumes "n < 2 ^ 28"
  shows "port_sector (sect_ports n) = n"
proof -
  define v where "v = (ucast (0xe0 OR push_bit 4 (0 AND 1) OR (drop_bit 24 n AND 0x0f)) :: uchar)"
  define p where "p = (sect_ports n)(0x1f6 := v)"
  have "(ucast (ucast (drop_bit 24 n OR 0xE0) :: uchar) :: uint) AND 0x0f = ucast v AND 0x0f"
    unfolding v_def by (rule high_byte [OF byte_masks(2,3)])
  then have "port_sector (sect_ports n) = port_sector p" by (simp add: port_sector_def sect_ports_def p_def)
  also have "port_sector p = n"
    by (rule port_sector_written(1) [OF assms, of _ 0])
      (simp_all only: p_def v_def sect_ports_def fun_upd_apply low_byte [OF byte_masks(1), symmetric], simp_all)
  finally show ?thesis .
qed

definition filled :: "(uint \<Rightarrow> uchar list) \<Rightarrow> uint \<Rightarrow> nat \<Rightarrow> nat \<Rightarrow> memory \<Rightarrow> memory" where
  "filled disk offset p k m = (\<lambda>a. if p \<le> a \<and> a < p + SECTSIZE * k
     then disk (offset + of_nat ((a - p) div SECTSIZE)) ! ((a - p) mod SECTSIZE) else m a)"

lemma filled_0: "filled disk offset p 0 m = m"
  by (rule ext) (auto simp: filled_def)

lemma filled_Suc:
  assumes "length (disk offset) = SECTSIZE"
  shows "filled disk (offset + 1) (p + SECTSIZE) k (poke m p (disk offset)) = filled disk offset p (Suc k) m"
proof
  fix a
  consider "a < p" | "p \<le> a" "a < p + SECTSIZE" | b where "a = p + SECTSIZE + b"
    by (metis le_Suc_ex not_le)
  then show "filled disk (offset + 1) (p + SECTSIZE) k (poke m p (disk offset)) a = filled disk offset p (Suc k) m a"
  proof cases
    case 3
    have "(SECTSIZE + b) div SECTSIZE = Suc (b div SECTSIZE)" "(SECTSIZE + b) mod SECTSIZE = b mod SECTSIZE"
      by (simp_all add: SECTSIZE_def)
    then show ?thesis using assms by (simp add: 3 filled_def poke_def add.assoc)
  qed (simp_all add: filled_def poke_def assms)
qed

lemma readsect_ready:
  assumes "waitdisk st = Some u" "offset < 2 ^ 28"
  shows "readsect st disk pa offset m = Some (poke m (unat pa) (disk offset))"
  using assms by (simp add: readsect_def port_sector_sect)

lemma ceiling_step:
  fixes k d :: nat
  assumes "Suc k = (d + 511) div 512"
  shows "0 < d" "k = (d - 512 + 511) div 512"
proof -
  show "0 < d" using assms by (cases "d = 0") simp_all
  show "k = (d - 512 + 511) div 512"
  proof (cases "d \<le> 512")
    case True
    then show ?thesis using assms by simp
  next
    case False
    then obtain e where "d = 512 + e" using le_Suc_ex by (metis nle_le)
    then show ?thesis using assms div_add_self1 [of 512 "e + 511"] by (simp add: add.assoc)
  qed
qed

lemma readseg_from_filled:
  assumes "waitdisk st = Some u" "whole_sectors disk" "k = (unat epa - unat pa + 511) div SECTSIZE"
    and "unat pa + SECTSIZE * k < 2 ^ 32" "unat offset + k \<le> 2 ^ 28"
  shows "readseg_from st disk pa epa offset m = Some (filled disk offset (unat pa) k m)"
  using assms(3-)
proof (induction k arbitrary: pa offset m)
  case 0
  then have "\<not> pa < epa" by (simp add: word_less_nat_alt SECTSIZE_def)
  then show ?case by (subst readseg_from.simps) (simp add: filled_0)
next
  case (Suc k)
  define d where "d = unat epa - unat pa"
  have d: "0 < d" "k = (d - 512 + 511) div 512"
    using Suc.prems(1) ceiling_step [of k d] by (simp_all add: d_def SECTSIZE_def)
  then have lt: "pa < epa" by (simp add: d_def word_less_nat_alt)
  have next_pa: "unat (pa + of_nat SECTSIZE) = unat pa + SECTSIZE"
    using Suc.prems(2) by (simp add: unat_word_ariths SECTSIZE_def)
  have next_off: "unat (offset + 1) = unat offset + 1" using Suc.prems(3) by (simp add: unat_word_ariths)
  have "readseg_from st disk (pa + of_nat SECTSIZE) epa (offset + 1) (poke m (unat pa) (disk offset)) =
      Some (filled disk (offset + 1) (unat (pa + of_nat SECTSIZE)) k (poke m (unat pa) (disk offset)))"
  proof (rule Suc.IH)
    show "k = (unat epa - unat (pa + of_nat SECTSIZE) + 511) div SECTSIZE"
      unfolding next_pa using d(2) by (simp add: d_def SECTSIZE_def)
    show "unat (pa + of_nat SECTSIZE) + SECTSIZE * k < 2 ^ 32" unfolding next_pa using Suc.prems(2) by simp
    show "unat (offset + 1) + k \<le> 2 ^ 28" unfolding next_off using Suc.prems(3) by simp
  qed
  moreover have "readsect st disk pa offset m = Some (poke m (unat pa) (disk offset))"
    using Suc.prems(3) by (intro readsect_ready [OF assms(1)]) (simp add: word_less_nat_alt)
  ultimately show ?case using lt assms(2)
    by (subst readseg_from.simps) (simp add: next_pa filled_Suc whole_sectors_def)
qed


lemma filled_image:
  assumes "i < SECTSIZE * k"
  shows "filled disk (of_nat (q + 1)) p k m (p + i) = image_byte disk (SECTSIZE * q + i)"
proof -
  have "(SECTSIZE * q + i) div SECTSIZE = q + i div SECTSIZE" "(SECTSIZE * q + i) mod SECTSIZE = i mod SECTSIZE"
    by (simp_all add: SECTSIZE_def)
  then show ?thesis using assms by (simp add: filled_def image_byte_def algebra_simps)
qed

lemma unat_small: "n < 2 ^ 32 \<Longrightarrow> unat (of_nat n :: uint) = n"
  by (simp add: unat_of_nat take_bit_nat_eq_self)

lemma readseg_loads:
  assumes "waitdisk st = Some u" "whole_sectors disk" "unat off mod SECTSIZE \<le> unat pa" "unat pa + unat count + 512 < 2 ^ 32"
  shows "\<exists>m'. readseg st disk pa count off m = Some m' \<and>
    (\<forall>i<unat count. m' (unat pa + i) = image_byte disk (unat off + i)) \<and>
    (\<forall>a. a < unat pa - unat off mod SECTSIZE \<or> unat pa + unat count + 511 \<le> a \<longrightarrow> m' a = m a)"
proof -
  define r where "r = unat off mod SECTSIZE"
  define q where "q = unat off div SECTSIZE"
  define k where "k = (unat count + r + 511) div SECTSIZE"
  have off: "unat off = SECTSIZE * q + r" by (simp add: q_def r_def)
  have r: "r \<le> unat pa" "r < 512" using assms(3) by (simp_all add: r_def SECTSIZE_def)
  have "unat off < 2 ^ 32" using unsigned_less [of off, where 'a = nat] by simp
  then have q: "q < 2 ^ 23" by (simp add: q_def SECTSIZE_def) 
  have k: "unat count + r \<le> 512 * k" "512 * k \<le> unat count + r + 511" 
    using div_mult_mod_eq [of "unat count + r + 511" 512] mod_less_divisor [of 512 "unat count + r + 511"]
    by (simp_all add: k_def SECTSIZE_def)
  have k23: "k \<le> 2 ^ 23" using k(2) r assms(4) by simp
  have e: "unat (pa + count) = unat pa + unat count" using assms(4) by (simp add: unat_word_ariths)
  have "unat (off mod of_nat SECTSIZE) = r" by (simp add: unat_mod SECTSIZE_def r_def)
  then have p: "unat (pa - off mod of_nat SECTSIZE) = unat pa - r" using r by (simp add: unat_sub word_le_nat_alt)
  have "off div of_nat SECTSIZE = of_nat q" by (simp add: word_arith_nat_div q_def SECTSIZE_def)
  then have s: "off div of_nat SECTSIZE + 1 = of_nat (q + 1)" by simp
  have s': "unat (of_nat (q + 1) :: uint) = q + 1" by (rule unat_small) (use q in simp)
  have run: "readseg st disk pa count off m = Some (filled disk (of_nat (q + 1)) (unat pa - r) k m)"
    unfolding readseg_def Let_def s p [symmetric]
  proof (rule readseg_from_filled [OF assms(1,2)])
    show "k = (unat (pa + count) - unat (pa - off mod of_nat SECTSIZE) + 511) div SECTSIZE" using r by (simp add: e p k_def)
    show "unat (pa - off mod of_nat SECTSIZE) + SECTSIZE * k < 2 ^ 32" unfolding p unfolding SECTSIZE_def using k(2) r assms(4) by linarith
    show "unat (of_nat (q + 1) :: uint) + k \<le> 2 ^ 28" unfolding s' using q k23 by simp
  qed
  show ?thesis
  proof (intro exI conjI allI impI, rule run)
    fix i assume "i < unat count"
    then have "filled disk (of_nat (q + 1)) (unat pa - r) k m (unat pa - r + (r + i)) = image_byte disk (SECTSIZE * q + (r + i))"
      using k(1) by (intro filled_image) (simp add: SECTSIZE_def)
    then show "filled disk (of_nat (q + 1)) (unat pa - r) k m (unat pa + i) = image_byte disk (unat off + i)"
      using r by (simp add: off add.assoc)
  next
    fix a assume "a < unat pa - unat off mod SECTSIZE \<or> unat pa + unat count + 511 \<le> a"
    then have "a < unat pa - r \<or> unat pa - r + 512 * k \<le> a" using k(2) r by (auto simp: r_def)
    then show "filled disk (of_nat (q + 1)) (unat pa - r) k m a = m a" by (auto simp: filled_def SECTSIZE_def)
  qed
qed


section \<open>Loading the kernel\<close>

text \<open>
  The headers of the image on the disk; for a segment with header \<open>d\<close> the addresses that loading it may write, because
  whole sectors are read, and those it fills.
\<close>

definition elf_header :: "(uint \<Rightarrow> uchar list) \<Rightarrow> uchar list" where
  "elf_header disk = map (image_byte disk) [0..<52]"

definition prog_header :: "(uint \<Rightarrow> uchar list) \<Rightarrow> nat \<Rightarrow> uchar list" where
  "prog_header disk i = map (\<lambda>j. image_byte disk (unat (elf_phoff (elf_header disk)) + 32 * i + j)) [0..<32]"

definition prog_headers :: "(uint \<Rightarrow> uchar list) \<Rightarrow> uchar list list" where
  "prog_headers disk = map (prog_header disk) [0..<unat (elf_phnum (elf_header disk))]"

definition seg_writes :: "uchar list \<Rightarrow> nat set" where
  "seg_writes d = {unat (ph_paddr d) - unat (ph_off d) mod SECTSIZE ..< unat (ph_paddr d) + unat (ph_filesz d) + 511} \<union>
     {unat (ph_paddr d) ..< unat (ph_paddr d) + unat (ph_memsz d)}"

definition seg_body :: "uchar list \<Rightarrow> nat set" where
  "seg_body d = {unat (ph_paddr d) ..< unat (ph_paddr d) + max (unat (ph_filesz d)) (unat (ph_memsz d))}"

definition seg_ok :: "uchar list \<Rightarrow> bool" where
  "seg_ok d \<longleftrightarrow> unat (ph_off d) mod SECTSIZE \<le> unat (ph_paddr d) \<and> unat (ph_paddr d) + unat (ph_filesz d) + 512 < 2 ^ 32 \<and>
     unat (ph_paddr d) + unat (ph_memsz d) < 2 ^ 32"

definition seg_loaded :: "(uint \<Rightarrow> uchar list) \<Rightarrow> uchar list \<Rightarrow> memory \<Rightarrow> bool" where
  "seg_loaded disk d m \<longleftrightarrow>
     (\<forall>i<unat (ph_filesz d). m (unat (ph_paddr d) + i) = image_byte disk (unat (ph_off d) + i)) \<and>
     (\<forall>i<unat (ph_memsz d). unat (ph_filesz d) \<le> i \<longrightarrow> m (unat (ph_paddr d) + i) = 0)"

text \<open>
  The loader keeps the headers in memory from 0x10000 on. Segments must not reach into them, nor into a segment loaded
  before.
\<close>

definition bootable :: "(uint \<Rightarrow> uchar list) \<Rightarrow> bool" where
  "bootable disk \<longleftrightarrow> whole_sectors disk \<and> elf_magic (elf_header disk) = ELF_MAGIC \<and>
     unat (elf_phoff (elf_header disk)) + 32 * unat (elf_phnum (elf_header disk)) \<le> 4096 \<and>
     (\<forall>d\<in>set (prog_headers disk). seg_ok d \<and> seg_writes d \<inter> {0x10000..<0x11000} = {}) \<and>
     sorted_wrt (\<lambda>c d. seg_body c \<inter> seg_writes d = {}) (prog_headers disk)"

lemma seg_loaded_cong: "seg_loaded disk d m \<Longrightarrow> (\<And>a. a \<in> seg_body d \<Longrightarrow> m' a = m a) \<Longrightarrow> seg_loaded disk d m'"
  unfolding seg_loaded_def seg_body_def by simp

lemma load_one_segment:
  assumes "waitdisk st = Some u" "whole_sectors disk" "seg_ok d"
    and "peek m (unat ph) 32 = d" "{unat ph..<unat ph + 32} \<inter> seg_writes d = {}"
  shows "\<exists>m'. load_segments st disk (Suc n) ph m = load_segments st disk n (ph + 32) m' \<and> seg_loaded disk d m' \<and>
    (\<forall>a. a \<notin> seg_writes d \<longrightarrow> m' a = m a)"
proof -
  define pa where "pa = ph_paddr d"
  have ok: "unat (ph_off d) mod SECTSIZE \<le> unat pa" "unat pa + unat (ph_filesz d) + 512 < 2 ^ 32" "unat pa + unat (ph_memsz d) < 2 ^ 32"
    using assms(3) by (simp_all add: seg_ok_def pa_def)
  obtain m1 where m1: "readseg st disk pa (ph_filesz d) (ph_off d) m = Some m1"
    "\<And>i. i < unat (ph_filesz d) \<Longrightarrow> m1 (unat pa + i) = image_byte disk (unat (ph_off d) + i)"
    "\<And>a. a < unat pa - unat (ph_off d) mod SECTSIZE \<or> unat pa + unat (ph_filesz d) + 511 \<le> a \<Longrightarrow> m1 a = m a"
    using readseg_loads [OF assms(1,2) ok(1,2), of m] by blast
  have out: "m1 a = m a" if "a \<notin> seg_writes d" for a
    using that by (intro m1(3)) (auto simp: seg_writes_def pa_def)
  have "unat ph + i \<notin> seg_writes d" if "i < 32" for i
    using assms(5) that by (metis atLeastLessThan_iff disjoint_iff le_add1 nat_add_left_cancel_less)
  then have "peek m1 (unat ph) 32 = peek m (unat ph) 32" by (intro nth_equalityI) (simp_all add: out)
  then have hdr: "peek m1 (unat ph) 32 = d" using assms(4) by simp
  define m2 where "m2 = (if ph_memsz d > ph_filesz d then stosb (unat (pa + ph_filesz d)) 0 (unat (ph_memsz d - ph_filesz d)) m1 else m1)"
  have run: "load_segments st disk (Suc n) ph m = load_segments st disk n (ph + 32) m2"
    by (simp add: assms(4) pa_def [symmetric] m1(1) hdr m2_def Let_def)
  have m2: "m2 = (\<lambda>a. if unat pa + unat (ph_filesz d) \<le> a \<and> a < unat pa + unat (ph_memsz d) then 0 else m1 a)"
  proof (cases "ph_memsz d > ph_filesz d")
    case True
    then have "unat (ph_memsz d - ph_filesz d) = unat (ph_memsz d) - unat (ph_filesz d)" "unat (ph_filesz d) < unat (ph_memsz d)"
      by (simp_all add: unat_sub word_less_nat_alt word_le_nat_alt)
    moreover have "unat (pa + ph_filesz d) = unat pa + unat (ph_filesz d)" using ok(2) by (simp add: unat_word_ariths)
    ultimately show ?thesis using True by (auto simp: m2_def stosb_poke poke_def fun_eq_iff)
  next
    case False
    then show ?thesis by (auto simp: m2_def word_less_nat_alt fun_eq_iff)
  qed
  have "seg_loaded disk d m2" using m1(2) unfolding seg_loaded_def m2 pa_def [symmetric] by simp
  moreover have "m2 a = m a" if "a \<notin> seg_writes d" for a
    using out [OF that] that by (auto simp: m2 seg_writes_def pa_def)
  ultimately show ?thesis using run by blast
qed


lemma load_segments_all:
  assumes "waitdisk st = Some u" "whole_sectors disk"
  shows "\<lbrakk>\<And>d. d \<in> set ds \<Longrightarrow> seg_ok d \<and> seg_writes d \<inter> {unat ph..<unat ph + 32 * length ds} = {};
    sorted_wrt (\<lambda>c d. seg_body c \<inter> seg_writes d = {}) ds; unat ph + 32 * length ds < 2 ^ 32;
    \<And>i. i < length ds \<Longrightarrow> peek m (unat ph + 32 * i) 32 = ds ! i\<rbrakk> \<Longrightarrow>
   \<exists>m'. load_segments st disk (length ds) ph m = Some m' \<and> (\<forall>d\<in>set ds. seg_loaded disk d m') \<and>
     (\<forall>a. (\<forall>d\<in>set ds. a \<notin> seg_writes d) \<longrightarrow> m' a = m a)"
proof (induction ds arbitrary: ph m)
  case (Cons d ds)
  have d: "seg_ok d" "seg_writes d \<inter> {unat ph..<unat ph + 32 * Suc (length ds)} = {}" using Cons.prems(1) [of d] by simp_all
  then have "{unat ph..<unat ph + 32} \<inter> seg_writes d = {}" by (auto simp: disjoint_iff)
  then obtain m1 where m1: "load_segments st disk (Suc (length ds)) ph m = load_segments st disk (length ds) (ph + 32) m1"
    "seg_loaded disk d m1" "\<And>a. a \<notin> seg_writes d \<Longrightarrow> m1 a = m a"
    using load_one_segment [OF assms d(1), of m ph "length ds"] Cons.prems(4) [of 0] by auto
  have ph: "unat (ph + 32) = unat ph + 32" using Cons.prems(3) by (simp add: unat_word_ariths)
  have "\<exists>m'. load_segments st disk (length ds) (ph + 32) m1 = Some m' \<and> (\<forall>d\<in>set ds. seg_loaded disk d m') \<and>
     (\<forall>a. (\<forall>d\<in>set ds. a \<notin> seg_writes d) \<longrightarrow> m' a = m1 a)"
  proof (rule Cons.IH)
    fix c assume "c \<in> set ds"
    then show "seg_ok c \<and> seg_writes c \<inter> {unat (ph + 32)..<unat (ph + 32) + 32 * length ds} = {}"
      using Cons.prems(1) [of c] by (auto simp: ph disjoint_iff)
  next
    fix i assume i: "i < length ds"
    have "unat ph + 32 * Suc i + j \<notin> seg_writes d" if "j < 32" for j
      using d(2) i that by (auto simp: disjoint_iff)
    then have "peek m1 (unat ph + 32 * Suc i) 32 = peek m (unat ph + 32 * Suc i) 32" by (intro nth_equalityI) (simp_all add: m1(3))
    then show "peek m1 (unat (ph + 32) + 32 * i) 32 = ds ! i" using Cons.prems(4) [of "Suc i"] i by (simp add: ph add.assoc)
  qed (use Cons.prems(2,3) in \<open>simp_all add: ph\<close>)
  then obtain m' where m': "load_segments st disk (length ds) (ph + 32) m1 = Some m'" "\<forall>d\<in>set ds. seg_loaded disk d m'"
    "\<And>a. (\<forall>d\<in>set ds. a \<notin> seg_writes d) \<Longrightarrow> m' a = m1 a" by blast
  have "m' a = m1 a" if "a \<in> seg_body d" for a
    using that Cons.prems(2) by (intro m'(3)) (auto simp: disjoint_iff)
  then have "seg_loaded disk d m'" by (rule seg_loaded_cong [OF m1(2)])
  then show ?case using m' m1 by (intro exI [of _ m']) (simp del: load_segments.simps)
qed simp

lemma bootmain_loads:
  assumes st: "waitdisk st = Some u" and b: "bootable disk"
  shows "\<exists>m'. bootmain st disk m = Some (Some (elf_entry (elf_header disk)), m') \<and> (\<forall>d\<in>set (prog_headers disk). seg_loaded disk d m')"
proof -
  have ws: "whole_sectors disk" using b by (simp add: bootable_def)
  define n where "n = unat (elf_phnum (elf_header disk))"
  define po where "po = elf_phoff (elf_header disk)"
  have po: "unat po + 32 * n \<le> 4096" using b by (simp add: bootable_def po_def n_def)
  obtain m1 where m1: "readseg st disk 0x10000 4096 0 m = Some m1" "\<And>i. i < 4096 \<Longrightarrow> m1 (0x10000 + i) = image_byte disk i"
    using readseg_loads [OF st ws, of 0 "0x10000" 4096 m] by auto
  have hdr: "peek m1 0x10000 52 = elf_header disk" by (intro nth_equalityI) (simp_all add: elf_header_def m1(2))
  have ph: "unat (0x10000 + po) = 0x10000 + unat po" using po by (simp add: unat_word_ariths)
  have len: "length (prog_headers disk) = n" by (simp add: prog_headers_def n_def)
  have "\<exists>m'. load_segments st disk (length (prog_headers disk)) (0x10000 + po) m1 = Some m' \<and>
      (\<forall>d\<in>set (prog_headers disk). seg_loaded disk d m') \<and>
      (\<forall>a. (\<forall>d\<in>set (prog_headers disk). a \<notin> seg_writes d) \<longrightarrow> m' a = m1 a)"
  proof (rule load_segments_all [OF st ws])
    fix d assume "d \<in> set (prog_headers disk)"
    then have "seg_ok d" "seg_writes d \<inter> {0x10000..<0x11000} = {}" using b unfolding bootable_def by blast+
    moreover have "{0x10000 + unat po..<0x10000 + unat po + 32 * n} \<subseteq> {0x10000..<0x11000}" using po by auto
    ultimately show "seg_ok d \<and> seg_writes d \<inter> {unat (0x10000 + po)..<unat (0x10000 + po) + 32 * length (prog_headers disk)} = {}"
      unfolding ph len by blast
  next
    fix i assume "i < length (prog_headers disk)"
    then have i: "i < n" by (simp add: len)
    then have "unat po + 32 * i + 32 \<le> 4096" using po by linarith
    then have "peek m1 (0x10000 + (unat po + 32 * i)) 32 = prog_header disk i"
      by (intro nth_equalityI) (simp_all add: prog_header_def po_def m1(2) add.assoc)
    then show "peek m1 (unat (0x10000 + po) + 32 * i) 32 = prog_headers disk ! i"
      using i by (simp add: ph prog_headers_def n_def add.assoc)
  qed (use b po in \<open>simp_all add: bootable_def ph len\<close>)
  then obtain m' where m': "load_segments st disk n (0x10000 + po) m1 = Some m'" "\<forall>d\<in>set (prog_headers disk). seg_loaded disk d m'"
      "\<And>a. (\<forall>d\<in>set (prog_headers disk). a \<notin> seg_writes d) \<Longrightarrow> m' a = m1 a"
    unfolding len by blast
  have "m' (0x10000 + i) = m1 (0x10000 + i)" if "i < 52" for i
  proof (rule m'(3), rule ballI)
    fix d assume "d \<in> set (prog_headers disk)"
    then have "seg_writes d \<inter> {0x10000..<0x11000} = {}" using b unfolding bootable_def by blast
    moreover have "0x10000 + i \<in> {0x10000..<0x11000}" using that by simp
    ultimately show "0x10000 + i \<notin> seg_writes d" by blast
  qed
  then have "peek m' 0x10000 52 = elf_header disk" unfolding hdr [symmetric] by (intro nth_equalityI) simp_all
  then have "bootmain st disk m = Some (Some (elf_entry (elf_header disk)), m')"
    using b m'(1) by (simp add: bootmain_def m1(1) hdr Let_def bootable_def n_def po_def)
  then show ?thesis using m'(2) by blast
qed


section \<open>Finding the processors\<close>

definition NCPU :: nat where "NCPU = 8"
definition MPPROC :: uchar where "MPPROC = 0"
definition MPBUS :: uchar where "MPBUS = 1"
definition MPIOAPIC :: uchar where "MPIOAPIC = 2"
definition MPIOINTR :: uchar where "MPIOINTR = 3"
definition MPLINTR :: uchar where "MPLINTR = 4"

definition sum_bytes :: "memory \<Rightarrow> nat \<Rightarrow> nat \<Rightarrow> uchar" where
  "sum_bytes m addr len = sum_list (peek m addr len)"

text \<open>Fields of \<open>struct mp\<close> (16 bytes) and \<open>struct mpconf\<close> (44 bytes), by their offset.\<close>

definition mp_physaddr :: "memory \<Rightarrow> nat \<Rightarrow> nat" where "mp_physaddr m p = unat (load32 m (p + 4))"
definition mp_imcrp :: "memory \<Rightarrow> nat \<Rightarrow> uchar" where "mp_imcrp m p = m (p + 12)"
definition conf_length :: "memory \<Rightarrow> nat \<Rightarrow> nat" where "conf_length m p = unat (m (p + 4)) + 256 * unat (m (p + 5))"
definition conf_version :: "memory \<Rightarrow> nat \<Rightarrow> uchar" where "conf_version m p = m (p + 6)"
definition conf_lapicaddr :: "memory \<Rightarrow> nat \<Rightarrow> uint" where "conf_lapicaddr m p = load32 m (p + 36)"

definition mpsearch1 :: "memory \<Rightarrow> nat \<Rightarrow> nat \<Rightarrow> nat option" where
  "mpsearch1 m a len = find (\<lambda>p. peek m p 4 = map of_char ''_MP_'' \<and> sum_bytes m p 16 = 0) (map (\<lambda>k. a + 16 * k) [0..<(len + 15) div 16])"

definition mpsearch :: "memory \<Rightarrow> nat option" where
  "mpsearch m =
     (let p = (unat (m (0x400 + 0x0F)) * 256 + unat (m (0x400 + 0x0E))) * 16 in
      case (if p \<noteq> 0 then mpsearch1 m p 1024
            else let p = (unat (m (0x400 + 0x14)) * 256 + unat (m (0x400 + 0x13))) * 1024 in mpsearch1 m (unat (of_nat p - 1024 :: uint)) 1024) of
        Some mp \<Rightarrow> Some mp
      | None \<Rightarrow> mpsearch1 m 0xF0000 0x10000)"

definition mpconfig :: "memory \<Rightarrow> (nat \<times> nat) option" where
  "mpconfig m =
     (case mpsearch m of None \<Rightarrow> None
      | Some mp \<Rightarrow>
          let conf = mp_physaddr m mp in
          if conf = 0 then None
          else if peek m conf 4 \<noteq> map of_char ''PCMP'' then None
          else if conf_version m conf \<noteq> 1 \<and> conf_version m conf \<noteq> 4 then None
          else if sum_bytes m conf (conf_length m conf) \<noteq> 0 then None
          else Some (mp, conf))"

text \<open>What \<open>mpinit\<close> finds out: the identifiers of the processors, one for each, and of the I/O APIC.\<close>

record mps =
  apicids :: "uchar list"
  ioapicid :: uchar
  ismp :: bool

partial_function (option) mp_entries :: "memory \<Rightarrow> nat \<Rightarrow> nat \<Rightarrow> mps \<Rightarrow> mps option" where
  "mp_entries m p e s =
     (if p < e
      then if m p = MPPROC
           then mp_entries m (p + 20) e (if length (apicids s) < NCPU then s\<lparr>apicids := apicids s @ [m (p + 1)]\<rparr> else s)
           else if m p = MPIOAPIC then mp_entries m (p + 8) e (s\<lparr>ioapicid := m (p + 1)\<rparr>)
           else if m p = MPBUS \<or> m p = MPIOINTR \<or> m p = MPLINTR then mp_entries m (p + 8) e s
           else mp_entries m p e (s\<lparr>ismp := False\<rparr>)
      else Some s)"

text \<open>The results of \<open>mpinit\<close>: a panic, or the address of the local APIC, what was found, and the writes to the interrupt mode register.\<close>

definition mpinit :: "memory \<Rightarrow> uchar \<Rightarrow> (string + uint \<times> mps \<times> (nat \<times> uchar) list) option" where
  "mpinit m imcr =
     (case mpconfig m of
        None \<Rightarrow> Some (Inl ''Expect to run on an SMP'')
      | Some (mp, conf) \<Rightarrow>
          Option.bind (mp_entries m (conf + 44) (conf + conf_length m conf) \<lparr>apicids = [], ioapicid = 0, ismp = True\<rparr>) (\<lambda>s.
          if \<not> ismp s then Some (Inl ''Didn't find a suitable machine'')
          else Some (Inr (conf_lapicaddr m conf, s, if mp_imcrp m mp \<noteq> 0 then [(0x22, 0x70), (0x23, imcr OR 1)] else []))))"

text \<open>The table as a list of entries, and what it says.\<close>

datatype mp_entry = Processor uchar | IO_apic uchar | Bus | IO_interrupt | Local_interrupt | Unknown uchar

fun entry_at :: "memory \<Rightarrow> nat \<Rightarrow> mp_entry \<Rightarrow> bool" where
  "entry_at m p (Processor a) \<longleftrightarrow> m p = MPPROC \<and> m (p + 1) = a"
| "entry_at m p (IO_apic a) \<longleftrightarrow> m p = MPIOAPIC \<and> m (p + 1) = a"
| "entry_at m p Bus \<longleftrightarrow> m p = MPBUS"
| "entry_at m p IO_interrupt \<longleftrightarrow> m p = MPIOINTR"
| "entry_at m p Local_interrupt \<longleftrightarrow> m p = MPLINTR"
| "entry_at m p (Unknown t) \<longleftrightarrow> m p = t \<and> t \<notin> {MPPROC, MPIOAPIC, MPBUS, MPIOINTR, MPLINTR}"

fun entry_size :: "mp_entry \<Rightarrow> nat" where
  "entry_size (Processor a) = 20"
| "entry_size e = 8"

fun table_at :: "memory \<Rightarrow> nat \<Rightarrow> nat \<Rightarrow> mp_entry list \<Rightarrow> bool" where
  "table_at m p e [] \<longleftrightarrow> p = e"
| "table_at m p e (x # xs) \<longleftrightarrow> entry_at m p x \<and> table_at m (p + entry_size x) e xs"

definition is_known :: "mp_entry \<Rightarrow> bool" where "is_known x \<longleftrightarrow> (case x of Unknown t \<Rightarrow> False | _ \<Rightarrow> True)"

definition processors :: "mp_entry list \<Rightarrow> uchar list" where
  "processors xs = concat (map (\<lambda>x. case x of Processor a \<Rightarrow> [a] | _ \<Rightarrow> []) xs)"

definition io_apics :: "mp_entry list \<Rightarrow> uchar list" where
  "io_apics xs = concat (map (\<lambda>x. case x of IO_apic a \<Rightarrow> [a] | _ \<Rightarrow> []) xs)"

lemma table_at_le: "table_at m p e xs \<Longrightarrow> p \<le> e \<and> (xs \<noteq> [] \<longrightarrow> p < e)"
proof (induction xs arbitrary: p)
  case (Cons x xs)
  have "0 < entry_size x" by (cases x) simp_all
  then show ?case using Cons by force
qed simp

lemma mp_entries_table:
  "\<lbrakk>table_at m p e xs; list_all is_known xs; length (apicids s) \<le> NCPU\<rbrakk> \<Longrightarrow> mp_entries m p e s =
     Some (s\<lparr>apicids := take NCPU (apicids s @ processors xs), ioapicid := last (ioapicid s # io_apics xs)\<rparr>)"
proof (induction xs arbitrary: p s)
  case Nil
  then show ?case by (subst mp_entries.simps) (simp add: processors_def io_apics_def)
next
  case (Cons x xs)
  have lt: "p < e" using table_at_le [OF Cons.prems(1)] by simp
  show ?case
  proof (cases x)
    case (Processor a)
    define t where "t = (if length (apicids s) < NCPU then s\<lparr>apicids := apicids s @ [a]\<rparr> else s)"
    have "mp_entries m p e s = mp_entries m (p + 20) e t" using Cons.prems(1) lt by (subst mp_entries.simps) (simp add: Processor t_def)
    also have "\<dots> = Some (t\<lparr>apicids := take NCPU (apicids t @ processors xs), ioapicid := last (ioapicid t # io_apics xs)\<rparr>)"
      using Cons.prems by (intro Cons.IH) (simp_all add: Processor t_def)
    also have "take NCPU (apicids t @ processors xs) = take NCPU (apicids s @ processors (x # xs))"
      using Cons.prems(3) by (cases "length (apicids s) < NCPU") (simp_all add: t_def Processor processors_def)
    also have "t\<lparr>apicids := A, ioapicid := last (ioapicid t # io_apics xs)\<rparr> = s\<lparr>apicids := A, ioapicid := last (ioapicid s # io_apics (x # xs))\<rparr>" for A
      by (simp add: t_def Processor io_apics_def)
    finally show ?thesis .
  next
    case (IO_apic a)
    have "mp_entries m p e s = mp_entries m (p + 8) e (s\<lparr>ioapicid := a\<rparr>)"
      using Cons.prems(1) lt by (subst mp_entries.simps) (simp add: IO_apic MPPROC_def MPIOAPIC_def)
    also have "\<dots> = Some (s\<lparr>apicids := take NCPU (apicids s @ processors xs), ioapicid := last (a # io_apics xs)\<rparr>)"
      using Cons.prems by (subst Cons.IH) (simp_all add: IO_apic)
    finally show ?thesis by (simp add: IO_apic processors_def io_apics_def)
  next
    case (Unknown t)
    then show ?thesis using Cons.prems(2) by (simp add: is_known_def)
  qed (use Cons.prems lt Cons.IH [of "p + 8" s] in \<open>subst mp_entries.simps;
     simp add: MPPROC_def MPIOAPIC_def MPBUS_def MPIOINTR_def MPLINTR_def processors_def io_apics_def\<close>)+
qed


text \<open>
  An entry of an unknown type stops the search in the table for ever: the \<open>break\<close> of its case leaves the \<open>switch\<close> but not
  the loop, and the pointer stays where it is. The panic that is meant for this case is never reached.
\<close>

lemma mp_entries_known:
  assumes "mp_entries m p e s = Some y" "table_at m p e xs"
  shows "list_all is_known xs"
proof -
  have "\<forall>xs. table_at m p e xs \<longrightarrow> list_all is_known xs"
  proof (rule mp_entries.raw_induct [where P = "\<lambda>m p e s y. \<forall>xs. table_at m p e xs \<longrightarrow> list_all is_known xs", OF _ assms(1)], intro allI impI)
    fix f m p e s y xs
    assume IH: "\<And>m p e s y. f m p e s = Some y \<Longrightarrow> \<forall>xs. table_at m p e xs \<longrightarrow> list_all is_known xs"
      and run: "(if p < e
        then if m p = MPPROC then f m (p + 20) e (if length (apicids s) < NCPU then s\<lparr>apicids := apicids s @ [m (p + 1)]\<rparr> else s)
             else if m p = MPIOAPIC then f m (p + 8) e (s\<lparr>ioapicid := m (p + 1)\<rparr>)
             else if m p = MPBUS \<or> m p = MPIOINTR \<or> m p = MPLINTR then f m (p + 8) e s else f m p e (s\<lparr>ismp := False\<rparr>)
        else Some s) = Some y"
      and t: "table_at m p e xs"
    show "list_all is_known xs"
    proof (cases xs)
      case (Cons x ys)
      have lt: "p < e" using table_at_le [OF t] by (simp add: Cons)
      have ys: "table_at m (p + entry_size x) e ys" and x: "entry_at m p x" using t by (simp_all add: Cons)
      show ?thesis
      proof (cases "is_known x")
        case True
        have "\<exists>s'. f m (p + entry_size x) e s' = Some y"
          using run lt x True by (cases x) (auto simp: is_known_def MPPROC_def MPIOAPIC_def MPBUS_def MPIOINTR_def MPLINTR_def)
        then show ?thesis using IH ys True by (auto simp: Cons)
      next
        case False
        then obtain u where "x = Unknown u" by (cases x) (simp_all add: is_known_def)
        then have "f m p e (s\<lparr>ismp := False\<rparr>) = Some y" using run lt x by (simp split: if_splits)
        then show ?thesis using IH t by blast
      qed
    qed simp
  qed
  then show ?thesis using assms(2) by blast
qed

section \<open>Properties\<close>

text \<open>
  C36. The boot loader loads the kernel: from a disk whose image is an executable with its program headers in the first
  page, and whose segments keep clear of that page and of the sectors read for later segments, it returns for every
  content of the memory, enters the kernel at the address of the image, and every segment lies at its physical address,
  with its bytes from the image and zeros up to its size.
\<close>

theorem boot_loads_kernel:
  assumes "waitdisk st = Some ()" "bootable disk"
  shows "\<exists>m'. bootmain st disk m = Some (Some (elf_entry (elf_header disk)), m') \<and> (\<forall>d\<in>set (prog_headers disk). seg_loaded disk d m')"
  using assms by (rule bootmain_loads)

definition boot_sector :: "uchar list" where
  "boot_sector =
     [127, 69, 76, 70, 0, 0, 0, 0, 0, 0, 0, 0, 0, 0, 0, 0, 0, 0, 0, 0, 0, 0, 0, 0, 12, 0, 16, 0, 52, 0, 0, 0, 0, 0, 0, 0, 0, 0, 0, 0, 0, 0, 0, 0, 1, 0, 0, 0, 0, 0, 0, 0] @
     [1, 0, 0, 0, 0, 16, 0, 0, 0, 0, 16, 128, 0, 0, 16, 0, 4, 0, 0, 0, 8, 0, 0, 0, 0, 0, 0, 0, 0, 0, 0, 0] @ replicate 428 0"

definition boot_sample :: "uint \<Rightarrow> uchar list" where
  "boot_sample n = (if n = 1 then boot_sector else replicate 512 (ucast n))"

lemma boot_sample_headers:
  "elf_header boot_sample = take 52 boot_sector" "prog_header boot_sample 0 = take 32 (drop 52 boot_sector)"
  "elf_magic (elf_header boot_sample) = ELF_MAGIC" "elf_entry (elf_header boot_sample) = 0x10000C"
  "elf_phoff (elf_header boot_sample) = 52" "elf_phnum (elf_header boot_sample) = 1"
proof -
  have b: "image_byte boot_sample j = boot_sector ! j" if "j < 512" for j
    using that by (simp add: image_byte_def boot_sample_def SECTSIZE_def)
  have l: "length boot_sector = 512" by (simp add: boot_sector_def)
  show h: "elf_header boot_sample = take 52 boot_sector"
    by (rule nth_equalityI) (simp_all add: elf_header_def b l)
  show "elf_magic (elf_header boot_sample) = ELF_MAGIC" "elf_entry (elf_header boot_sample) = 0x10000C"
    "elf_phnum (elf_header boot_sample) = 1" and o: "elf_phoff (elf_header boot_sample) = 52"
    unfolding h by (simp_all add: boot_sector_def elf_magic_def elf_entry_def elf_phoff_def elf_phnum_def ld32_def ld16_def load32_def ELF_MAGIC_def)
  show "prog_header boot_sample 0 = take 32 (drop 52 boot_sector)"
    by (rule nth_equalityI) (simp_all add: prog_header_def o b l)
qed

lemma boot_sample_segment:
  "prog_headers boot_sample = [prog_header boot_sample 0]"
  "ph_paddr (prog_header boot_sample 0) = 0x100000" "ph_off (prog_header boot_sample 0) = 0x1000"
  "ph_filesz (prog_header boot_sample 0) = 4" "ph_memsz (prog_header boot_sample 0) = 8"
  by (simp_all add: prog_headers_def boot_sample_headers(2,6) boot_sector_def ph_paddr_def ph_off_def ph_filesz_def ph_memsz_def ld32_def load32_def)

lemma boot_sample_bootable: "bootable boot_sample"
proof -
  have "whole_sectors boot_sample" by (simp add: whole_sectors_def boot_sample_def boot_sector_def SECTSIZE_def)
  moreover have "seg_ok (prog_header boot_sample 0)" by (simp add: seg_ok_def boot_sample_segment SECTSIZE_def)
  moreover have "seg_writes (prog_header boot_sample 0) \<inter> {0x10000..<0x11000} = {}"
    by (auto simp: seg_writes_def boot_sample_segment SECTSIZE_def)
  ultimately show ?thesis by (simp add: bootable_def boot_sample_segment(1) boot_sample_headers(3,5,6))
qed

theorem boot_loads_kernel_witness:
  "\<exists>m'. bootmain [0x40] boot_sample (\<lambda>_. 1) = Some (Some 0x10000C, m') \<and> m' 0x100003 = 9 \<and> m' 0x100007 = 0"
proof -
  have "waitdisk [0x40] = Some ()" by (simp add: waitdisk_def)
  then obtain m' where m': "bootmain [0x40] boot_sample (\<lambda>_. 1) = Some (Some 0x10000C, m')"
    "seg_loaded boot_sample (prog_header boot_sample 0) m'"
    using boot_loads_kernel [OF _ boot_sample_bootable] by (auto simp: boot_sample_segment(1) boot_sample_headers(4))
  then have l: "\<forall>i<4. m' (0x100000 + i) = image_byte boot_sample (0x1000 + i)" "\<forall>i<8. 4 \<le> i \<longrightarrow> m' (0x100000 + i) = 0"
    unfolding seg_loaded_def boot_sample_segment by simp_all
  have "m' 0x100003 = image_byte boot_sample (0x1000 + 3)" "m' 0x100007 = 0"
    using l(1) [rule_format, of 3] l(2) [rule_format, of 7] by simp_all
  moreover have "image_byte boot_sample (0x1000 + 3) = 9" by (simp add: image_byte_def boot_sample_def SECTSIZE_def)
  ultimately show ?thesis using m'(1) by simp
qed

text \<open>
  C38. The tables of the firmware decide which processors the kernel uses. When a configuration table with valid check sum
  and version is found, \<open>mpinit\<close> records the identifiers of its processors in order, at most \<open>NCPU\<close> of them, and of the
  last I/O APIC, however the entries of the table are mixed; with an entry of unknown type it never returns.
\<close>

theorem mpinit_reads_table:
  assumes "mpconfig m = Some (mp, conf)" "table_at m (conf + 44) (conf + conf_length m conf) xs"
  shows "mpinit m imcr = (if list_all is_known xs
    then Some (Inr (conf_lapicaddr m conf, \<lparr>apicids = take NCPU (processors xs), ioapicid = last (0 # io_apics xs), ismp = True\<rparr>,
      if mp_imcrp m mp \<noteq> 0 then [(0x22, 0x70), (0x23, imcr OR 1)] else []))
    else None)"
proof (cases "list_all is_known xs")
  case True
  then show ?thesis using mp_entries_table [OF assms(2) True, of "\<lparr>apicids = [], ioapicid = 0, ismp = True\<rparr>"]
    by (simp add: mpinit_def assms(1))
next
  case False
  then have "mp_entries m (conf + 44) (conf + conf_length m conf) \<lparr>apicids = [], ioapicid = 0, ismp = True\<rparr> = None"
    using mp_entries_known [OF _ assms(2)] by (meson not_None_eq)
  then show ?thesis using False by (simp add: mpinit_def assms(1))
qed

definition mp_pointer :: "uchar list" where "mp_pointer = [95, 77, 80, 95, 0, 32, 0, 0, 1, 4, 0, 0, 128, 0, 0, 0]"

definition mp_table :: "uchar list" where
  "mp_table =
     [80, 67, 77, 80, 72, 0, 4, 179, 0, 0, 0, 0, 0, 0, 0, 0, 0, 0, 0, 0, 0, 0, 0, 0, 0, 0, 0, 0, 0, 0, 0, 0, 0, 0, 2, 0, 0, 0, 224, 254, 0, 0, 0, 0] @
     [0, 3, 20, 3, 0, 0, 0, 0, 0, 0, 0, 0, 0, 0, 0, 0, 0, 0, 0, 0] @ [2, 5, 17, 1, 0, 0, 192, 254]"

definition mp_sample :: memory where
  "mp_sample = poke (poke (poke (\<lambda>_. 0) 0x40F [1]) 0x1000 mp_pointer) 0x2000 mp_table"

lemma mp_sample_values:
  "i < 16 \<Longrightarrow> mp_sample (0x1000 + i) = mp_pointer ! i" "i < 72 \<Longrightarrow> mp_sample (0x2000 + i) = mp_table ! i"
  "mp_sample 0x40E = 0" "mp_sample 0x40F = 1"
  by (simp_all add: mp_sample_def poke_def mp_table_def mp_pointer_def)

lemma mp_sample_peek: "peek mp_sample 0x1000 16 = mp_pointer" "peek mp_sample 0x2000 72 = mp_table"
  by (rule nth_equalityI; simp add: mp_sample_values mp_table_def mp_pointer_def)+

lemma mp_sample_config: "mpconfig mp_sample = Some (0x1000, 0x2000)"
proof -
  have "length mp_pointer = 16" "length mp_table = 72" by (simp_all add: mp_pointer_def mp_table_def)
  then have "peek mp_sample 0x1000 4 = take 4 mp_pointer" "peek mp_sample 0x2000 4 = take 4 mp_table"
    by (intro nth_equalityI; simp add: mp_sample_values)+
  then have sig: "peek mp_sample 0x1000 4 = map of_char ''_MP_''" "peek mp_sample 0x2000 4 = map of_char ''PCMP''"
    by (simp_all add: mp_pointer_def mp_table_def)
  have sum: "sum_bytes mp_sample 0x1000 16 = 0" "sum_bytes mp_sample 0x2000 72 = 0"
    by (simp_all add: sum_bytes_def mp_sample_peek) (simp_all add: mp_pointer_def mp_table_def)
  have "mpsearch1 mp_sample 0x1000 1024 = Some 0x1000"
    by (simp add: mpsearch1_def upt_conv_Cons sig sum)
  then have "mpsearch mp_sample = Some 0x1000" by (simp add: mpsearch_def mp_sample_values)
  moreover have "mp_physaddr mp_sample 0x1000 = 0x2000"
    using mp_sample_values(1) [of 4] mp_sample_values(1) [of 5] mp_sample_values(1) [of 6] mp_sample_values(1) [of 7]
    by (simp add: mp_physaddr_def load32_def mp_pointer_def)
  moreover have "conf_length mp_sample 0x2000 = 72" "conf_version mp_sample 0x2000 = 4"
    using mp_sample_values(2) [of 4] mp_sample_values(2) [of 5] mp_sample_values(2) [of 6]
    by (simp_all add: conf_length_def conf_version_def mp_table_def)
  ultimately show ?thesis by (simp add: mpconfig_def sig sum)
qed

theorem mpinit_reads_table_witness:
  "mpinit mp_sample 0 = Some (Inr (0xFEE00000, \<lparr>apicids = [3], ioapicid = 5, ismp = True\<rparr>, [(0x22, 0x70), (0x23, 1)]))"
proof -
  note v = mp_sample_values(2)
  have "conf_length mp_sample 0x2000 = 72" "conf_lapicaddr mp_sample 0x2000 = 0xFEE00000"
    using v [of 4] v [of 5] v [of 36] v [of 37] v [of 38] v [of 39]
    by (simp_all add: conf_length_def conf_lapicaddr_def load32_def mp_table_def)
  moreover have "mp_imcrp mp_sample 0x1000 \<noteq> 0" using mp_sample_values(1) [of 12] by (simp add: mp_imcrp_def mp_pointer_def)
  moreover have "table_at mp_sample (0x2000 + 44) (0x2000 + 72) [Processor 3, IO_apic 5]"
    using v [of 44] v [of 45] v [of 64] v [of 65] by (simp add: mp_table_def MPPROC_def MPIOAPIC_def)
  ultimately show ?thesis using mpinit_reads_table [OF mp_sample_config, of "[Processor 3, IO_apic 5]" 0]
    by (simp add: is_known_def processors_def io_apics_def NCPU_def)
qed

end
