(* ===== verification/UserProgs.thy ===== *)
theory UserProgs
  imports Fs
begin

text \<open>
  The small user programs of the kernel: \<^verbatim>\<open>init.c\<close>, \<^verbatim>\<open>ls.c\<close>, \<^verbatim>\<open>kill.c\<close>, \<^verbatim>\<open>ln.c\<close>, \<^verbatim>\<open>mkdir.c\<close>, \<^verbatim>\<open>rm.c\<close>, \<^verbatim>\<open>ps.c\<close>,
  \<^verbatim>\<open>setPriority.c\<close>, \<^verbatim>\<open>time.c\<close> and \<^verbatim>\<open>zombie.c\<close>. A program is a tree of system calls, which goes on as the kernel answers;
  an endless one is an infinite tree. \<open>Exit\<close> ends the process; both sides of a \<open>fork\<close> run the same tree.
\<close>

section \<open>Programs as trees of calls\<close>

datatype print_arg = PStr string | PInt int

datatype ucall = Open string int | Mknod string int int | Dup int | Printf int string "print_arg list" | Fork | Exec string "string list" | Wait
  | Kill int | Link string string | Unlink string | Mkdir string | GetPs | SetPriority int int | Waitx | Sleep int
  | Fstat int | Stat string | ReadDirent int | Close int

text \<open>The answer has the result and what the call stores through its pointers.\<close>

record answer =
  ret :: int
  an_wtime :: int
  an_rtime :: int
  an_type :: int
  an_ino :: int
  an_size :: int
  an_inum :: nat
  an_name :: string

codatatype uprog = Exit | Call ucall "answer \<Rightarrow> uprog"

section \<open>The programs\<close>

fun kill_args :: "int list \<Rightarrow> uprog" where
  "kill_args [] = Exit"
| "kill_args (n # ns) = Call (Kill n) (\<lambda>_. kill_args ns)"

text \<open>\<open>argv\<close> has the name of the program first. \<open>num\<close> is \<open>atoi\<close>.\<close>

definition kill_main :: "(string \<Rightarrow> int) \<Rightarrow> string list \<Rightarrow> uprog" where
  "kill_main num argv = (if length argv < 2 then Call (Printf 2 ''usage: kill pid...'' []) (\<lambda>_. Exit) else kill_args (map num (drop 1 argv)))"

definition ln_main :: "string list \<Rightarrow> uprog" where
  "ln_main argv = (if length argv \<noteq> 3 then Call (Printf 2 ''Usage: ln old new'' []) (\<lambda>_. Exit)
     else Call (Link (argv ! 1) (argv ! 2)) (\<lambda>a.
       if ret a < 0 then Call (Printf 2 ''link %s %s: failed'' [PStr (argv ! 1), PStr (argv ! 2)]) (\<lambda>_. Exit) else Exit))"

fun mkdir_args :: "string list \<Rightarrow> uprog" where
  "mkdir_args [] = Exit"
| "mkdir_args (d # ds) = Call (Mkdir d) (\<lambda>a. if ret a < 0 then Call (Printf 2 ''mkdir: %s failed to create'' [PStr d]) (\<lambda>_. Exit)
     else mkdir_args ds)"

definition mkdir_main :: "string list \<Rightarrow> uprog" where
  "mkdir_main argv = (if length argv < 2 then Call (Printf 2 ''Usage: mkdir files...'' []) (\<lambda>_. Exit) else mkdir_args (drop 1 argv))"

fun rm_args :: "string list \<Rightarrow> uprog" where
  "rm_args [] = Exit"
| "rm_args (f # fs) = Call (Unlink f) (\<lambda>a. if ret a < 0 then Call (Printf 2 ''rm: %s failed to delete'' [PStr f]) (\<lambda>_. Exit)
     else rm_args fs)"

definition rm_main :: "string list \<Rightarrow> uprog" where
  "rm_main argv = (if length argv < 2 then Call (Printf 2 ''Usage: rm files...'' []) (\<lambda>_. Exit) else rm_args (drop 1 argv))"

definition ps_main :: uprog where "ps_main = Call GetPs (\<lambda>_. Exit)"

definition setPriority_main :: "(string \<Rightarrow> int) \<Rightarrow> string list \<Rightarrow> uprog" where
  "setPriority_main num argv = (if length argv < 3 then Call (Printf 2 ''Pass a new priority and pid'' []) (\<lambda>_. Exit)
     else Call (SetPriority (num (argv ! 1)) (num (argv ! 2))) (\<lambda>a.
       Call (Printf 1 ''PRIORITY HAS BEEN SET from %d'' [PInt (ret a)]) (\<lambda>_. Exit)))"

text \<open>
  An \<open>exec\<close> that succeeds does not return, and then the tree behind it is not run. \<open>wtime\<close> and \<open>rtime\<close> start with
  unknown values, which stay when \<open>waitx\<close> fails.
\<close>

definition time_wait :: "int \<Rightarrow> int \<Rightarrow> uprog" where
  "time_wait wtime rtime = Call Waitx (\<lambda>a.
     let wtime = (if ret a < 0 then wtime else an_wtime a); rtime = (if ret a < 0 then rtime else an_rtime a) in
     Call (Printf 1 ''Wait time is %d'' [PInt wtime]) (\<lambda>_. Call (Printf 1 ''Run time is %d'' [PInt rtime]) (\<lambda>_. Exit)))"

definition time_main :: "int \<Rightarrow> int \<Rightarrow> string list \<Rightarrow> uprog" where
  "time_main wtime rtime argv = (if length argv < 2 then Call (Printf 2 ''Pass a command as an arg'' []) (\<lambda>_. Exit)
     else Call Fork (\<lambda>a. if ret a = 0 then Call (Exec (argv ! 1) (drop 1 argv)) (\<lambda>_. time_wait wtime rtime) else time_wait wtime rtime))"

definition zombie_main :: uprog where
  "zombie_main = Call Fork (\<lambda>a. if ret a > 0 then Call (Sleep 5) (\<lambda>_. Exit) else Exit)"

text \<open>\<open>init\<close>: the states of its endless loop.\<close>

datatype init_pc = Starting | Forking | Fork_failed | Child | Exec_failed | Waiting (shell: int) | Zombie (shell_after: int) | Exiting

primcorec init_loop :: "init_pc \<Rightarrow> uprog" where
  "init_loop pc = (case pc of
       Starting \<Rightarrow> Call (Printf 1 ''init: starting sh'' []) (\<lambda>_. init_loop Forking)
     | Forking \<Rightarrow> Call Fork (\<lambda>a. init_loop (if ret a < 0 then Fork_failed else if ret a = 0 then Child else Waiting (ret a)))
     | Fork_failed \<Rightarrow> Call (Printf 1 ''init: fork failed'' []) (\<lambda>_. init_loop Exiting)
     | Child \<Rightarrow> Call (Exec ''sh'' [''sh'']) (\<lambda>_. init_loop Exec_failed)
     | Exec_failed \<Rightarrow> Call (Printf 1 ''init: exec sh failed'' []) (\<lambda>_. init_loop Exiting)
     | Waiting pid \<Rightarrow> Call Wait (\<lambda>a. init_loop (if ret a \<ge> 0 \<and> ret a \<noteq> pid then Zombie pid else Starting))
     | Zombie pid \<Rightarrow> Call (Printf 1 ''zombie!'' []) (\<lambda>_. init_loop (Waiting pid))
     | Exiting \<Rightarrow> Exit)"

definition INIT_RDWR :: int where "INIT_RDWR = 2"

definition init_main :: uprog where
  "init_main = Call (Open ''console'' INIT_RDWR) (\<lambda>a.
     let dups = Call (Dup 0) (\<lambda>_. Call (Dup 0) (\<lambda>_. init_loop Starting)) in
     if ret a < 0 then Call (Mknod ''console'' 1 1) (\<lambda>_. Call (Open ''console'' INIT_RDWR) (\<lambda>_. dups)) else dups)"

section \<open>Listing\<close>

definition fmtname :: "string \<Rightarrow> string" where
  "fmtname path = (let p = rev (takeWhile (\<lambda>c. c \<noteq> CHR ''/'') (rev path)) in
     if length p \<ge> DIRSIZ then p else p @ replicate (DIRSIZ - length p) (CHR '' ''))"

definition ls_line :: "string \<Rightarrow> answer \<Rightarrow> ucall" where
  "ls_line path a = Printf 1 ''%s %d %d %d'' [PStr (fmtname path), PInt (an_type a), PInt (an_ino a), PInt (an_size a)]"

text \<open>The loop over the directory; \<open>k\<close> is what follows after \<open>close\<close>.\<close>

datatype ls_pc = Reading | Statting (stat_path: string) | Cannot (bad_path: string) | Showing (show_path: string) (show_answer: answer) | Closing

primcorec ls_dir :: "string \<Rightarrow> int \<Rightarrow> ls_pc \<Rightarrow> uprog \<Rightarrow> uprog" where
  "ls_dir path fd pc k = (case pc of
       Reading \<Rightarrow> Call (ReadDirent fd) (\<lambda>a. ls_dir path fd
           (if ret a \<noteq> 16 then Closing else if an_inum a = 0 then Reading
            else Statting (path @ ''/'' @ takeWhile (\<lambda>c. c \<noteq> CHR 0x00) (take DIRSIZ (an_name a)))) k)
     | Statting buf \<Rightarrow> Call (Stat buf) (\<lambda>a. ls_dir path fd (if ret a < 0 then Cannot buf else Showing buf a) k)
     | Cannot buf \<Rightarrow> Call (Printf 1 ''ls: cannot stat %s'' [PStr buf]) (\<lambda>_. ls_dir path fd Reading k)
     | Showing buf a \<Rightarrow> Call (ls_line buf a) (\<lambda>_. ls_dir path fd Reading k)
     | Closing \<Rightarrow> Call (Close fd) (\<lambda>_. k))"

definition ls :: "string \<Rightarrow> uprog \<Rightarrow> uprog" where
  "ls path k = Call (Open path 0) (\<lambda>a. let fd = ret a in
     if fd < 0 then Call (Printf 2 ''ls: cannot open %s'' [PStr path]) (\<lambda>_. k)
     else Call (Fstat fd) (\<lambda>a.
       if ret a < 0 then Call (Printf 2 ''ls: cannot stat %s'' [PStr path]) (\<lambda>_. Call (Close fd) (\<lambda>_. k))
       else if an_type a = 2 then Call (ls_line path a) (\<lambda>_. Call (Close fd) (\<lambda>_. k))
       else if an_type a = 1
       then if length path + 1 + DIRSIZ + 1 > 512 then Call (Printf 1 ''ls: path too long'' []) (\<lambda>_. Call (Close fd) (\<lambda>_. k))
            else ls_dir path fd Reading k
       else Call (Close fd) (\<lambda>_. k)))"

fun ls_args :: "string list \<Rightarrow> uprog" where
  "ls_args [] = Exit"
| "ls_args (p # ps) = ls p (ls_args ps)"

definition ls_main :: "string list \<Rightarrow> uprog" where
  "ls_main argv = (if length argv < 2 then ls ''.'' Exit else ls_args (drop 1 argv))"

section \<open>Runs\<close>

text \<open>The calls that a program makes while the kernel answers a list of calls, and the program that is left.\<close>

fun run :: "answer list \<Rightarrow> uprog \<Rightarrow> ucall list \<times> uprog" where
  "run [] p = ([], p)"
| "run (a # as) p = (case p of Exit \<Rightarrow> ([], Exit) | Call c k \<Rightarrow> (case run as (k a) of (cs, q) \<Rightarrow> (c # cs, q)))"

text \<open>The first failure ends \<open>mkdir\<close> and \<open>rm\<close>, and the later arguments are not touched.\<close>

lemma mkdir_run:
  assumes "length as = length ds" "list_all (\<lambda>a. ret a \<ge> 0) as" "ret b < 0"
  shows "run (as @ [b, c]) (mkdir_args (ds @ d # es)) = (map Mkdir (ds @ [d]) @ [Printf 2 ''mkdir: %s failed to create'' [PStr d]], Exit)"
  using assms by (induction as ds rule: list_induct2) auto

lemma mkdir_run_ok:
  assumes "length as = length ds" "list_all (\<lambda>a. ret a \<ge> 0) as"
  shows "run as (mkdir_args ds) = (map Mkdir ds, Exit)"
  using assms by (induction as ds rule: list_induct2) auto

lemma rm_run:
  assumes "length as = length fs" "list_all (\<lambda>a. ret a \<ge> 0) as" "ret b < 0"
  shows "run (as @ [b, c]) (rm_args (fs @ f # gs)) = (map Unlink (fs @ [f]) @ [Printf 2 ''rm: %s failed to delete'' [PStr f]], Exit)"
  using assms by (induction as fs rule: list_induct2) auto

lemma kill_run: "length as = length ns \<Longrightarrow> run as (kill_args ns) = (map Kill ns, Exit)"
  by (induction as ns rule: list_induct2) auto

text \<open>\<open>ls\<close> prints one line for each entry that is in use, and none for a free one.\<close>

definition entry_answers :: "answer \<times> answer \<times> answer \<Rightarrow> answer list" where
  "entry_answers e = (case e of (d, st, pr) \<Rightarrow> if an_inum d = 0 then [d] else [d, st, pr])"

definition entry_path :: "string \<Rightarrow> answer \<Rightarrow> string" where
  "entry_path path d = path @ ''/'' @ takeWhile (\<lambda>c. c \<noteq> CHR 0x00) (take DIRSIZ (an_name d))"

definition entry_calls :: "string \<Rightarrow> int \<Rightarrow> answer \<times> answer \<times> answer \<Rightarrow> ucall list" where
  "entry_calls path fd e = (case e of (d, st, pr) \<Rightarrow> if an_inum d = 0 then [ReadDirent fd]
     else [ReadDirent fd, Stat (entry_path path d),
       if ret st < 0 then Printf 1 ''ls: cannot stat %s'' [PStr (entry_path path d)] else ls_line (entry_path path d) st])"

lemma run_append: "run (as @ bs) p = (case run as p of (cs, q) \<Rightarrow> case run bs q of (ds, r) \<Rightarrow> (cs @ ds, r))"
proof (induction as arbitrary: p)
  case (Cons a as)
  have e: "run bs Exit = ([], Exit)" by (cases bs) simp_all
  show ?case using Cons e by (cases p) (auto split: prod.splits)
qed simp

lemma ls_entry:
  assumes "ret d = 16"
  shows "run (entry_answers (d, st, pr)) (ls_dir path fd Reading k) = (entry_calls path fd (d, st, pr), ls_dir path fd Reading k)"
  using assms by (simp add: entry_answers_def entry_calls_def entry_path_def ls_dir.code [of path fd Reading] ls_dir.code [of path fd "Statting _"]
      ls_dir.code [of path fd "Cannot _"] ls_dir.code [of path fd "Showing _ _"])

lemma ls_lists_directory:
  assumes "list_all (\<lambda>(d, st, pr). ret d = 16) es" "ret e \<noteq> 16"
  shows "run (concat (map entry_answers es) @ [e, c]) (ls_dir path fd Reading k) =
    (concat (map (entry_calls path fd) es) @ [ReadDirent fd, Close fd], k)"
  using assms(1)
proof (induction es)
  case Nil
  then show ?case using assms(2) by (simp add: ls_dir.code [of path fd Reading] ls_dir.code [of path fd Closing])
next
  case (Cons x es)
  obtain d st pr where x: "x = (d, st, pr)" by (cases x)
  then have "run (entry_answers x) (ls_dir path fd Reading k) = (entry_calls path fd x, ls_dir path fd Reading k)"
    using ls_entry Cons.prems by simp
  then show ?case using Cons by (simp add: run_append)
qed

lemma fmtname_width: "length (fmtname path) \<ge> DIRSIZ"
  by (simp add: fmtname_def Let_def)

text \<open>
  \<open>init\<close> keeps a shell running: whatever processes it inherits end first, when the shell it started ends it starts the
  next.
\<close>

lemma init_restarts:
  assumes "list_all (\<lambda>(w, pr). ret w \<ge> 0 \<and> ret w \<noteq> pid) zs" "ret e = pid"
  shows "run (concat (map (\<lambda>(w, pr). [w, pr]) zs) @ [e]) (init_loop (Waiting pid)) =
    (concat (map (\<lambda>_. [Wait, Printf 1 ''zombie!'' []]) zs) @ [Wait], init_loop Starting)"
  using assms(1)
proof (induction zs)
  case Nil
  then show ?case using assms(2) by (simp add: init_loop.code [of "Waiting pid"])
next
  case (Cons z zs)
  then show ?case by (cases z) (simp add: init_loop.code [of "Waiting pid"] init_loop.code [of "Zombie pid"])
qed

text \<open>
  When the command does not exist, the child of \<open>time\<close> goes on as its parent does: it waits for a process it does not
  have and prints two numbers that nobody has set.
\<close>

lemma time_child_waits:
  assumes "ret a = 0" "ret x < 0" "ret w < 0"
  shows "run [a, x, w, p, q] (time_main u v [''time'', cmd]) = ([Fork, Exec cmd [cmd], Waitx,
    Printf 1 ''Wait time is %d'' [PInt u], Printf 1 ''Run time is %d'' [PInt v]], Exit)"
  using assms by (simp add: time_main_def time_wait_def Let_def)

end
