(* ===== verification/Spec2Isabelle.thy ===== *)
theory Spec2Isabelle
  imports Preempt BlockAlloc VmLoops ConsoleLine Paths MergeSorts FileReverse Grep Shell Umalloc ULib Mkfs Vaccine Musicians FileTransfer IshParse Devices Boot UserProgs
begin

text \<open>
  Verification of the operating-systems course code.

  \<^bold>\<open>The programs.\<close> The repository holds the solutions of six assignments in C. The largest is a
  version of the xv6 teaching kernel (\<^verbatim>\<open>src/Assignment5/2019101050-xv6/xv6/\<close>) with four schedulers,
  an in-memory disk and its user programs. The others are two programs that reverse a file and check
  the reversal (\<^verbatim>\<open>src/Assignment1\<close>), a command interpreter for Linux (\<^verbatim>\<open>src/Assignment3\<close>), a merge sort by
  processes and by threads and two simulations with threads (\<^verbatim>\<open>src/Assignment4\<close>), and a file server
  with its client (\<^verbatim>\<open>src/Assignment6\<close>).

  \<^bold>\<open>How the kernel is modelled.\<close> The kernel's global data is one record that each layer extends:
  processors and spin locks, then memory and the free page list, the process table, sleep locks, the
  buffer cache and the disk, the log, inodes, the console, pipes, and the file table. Each C function
  is a definition over this record. A panic, a null pointer and waiting for a spin lock that is
  held are failures (\<open>Inl\<close>). A function that can give up the processor (\<open>sleep\<close>, \<open>sched\<close>, \<open>exit\<close>,
  \<open>yield\<close>) is cut there: it returns \<open>Off\<close> with the state at the switch, and what follows when the
  process runs again is a definition of its own. Machine words are words where the code relies on
  their width; an \<open>int\<close> that only counts is an integer.

  \<^bold>\<open>Theories, in the order of the layers.\<close>
  \<^item> \<open>Prelude\<close>: machine types, sequencing of fallible calls, list and memory lemmas.
  \<^item> \<open>KString\<close>: \<^verbatim>\<open>string.c\<close> and the string instructions of \<^verbatim>\<open>x86.h\<close> over byte memory. Shown: \<open>memmove\<close> is
    right for every overlap, \<open>memset\<close>'s two paths agree, \<open>strncpy\<close> and \<open>strncmp\<close> fit together.
  \<^item> \<open>Spinlock\<close>: \<^verbatim>\<open>spinlock.c\<close> and the processors of \<^verbatim>\<open>proc.c\<close>. Shown: mutual exclusion in every
    interleaving of several processors, nesting of \<open>pushcli\<close> and \<open>popcli\<close>.
  \<^item> \<open>Kalloc\<close>: \<^verbatim>\<open>kalloc.c\<close>, the free list kept in the free pages. Shown: in every history of calls the
    pages in use and the free ones are a partition, \<open>freerange\<close> adds exactly its pages.
  \<^item> \<open>Vm\<close>, \<open>VmLoops\<close>: \<^verbatim>\<open>vm.c\<close>, two-level page tables in memory. Shown: what \<open>mappages\<close> does to every
    translation, and that all loops over user memory end. Loops are \<open>partial_function\<close>s, so that not
    ending is the value \<open>None\<close>.
  \<^item> \<open>Proc\<close>: \<^verbatim>\<open>proc.c\<close>. Shown: what \<open>allocproc\<close> creates, and that no wakeup is lost.
  \<^item> \<open>Sched\<close>: the schedulers of \<^verbatim>\<open>RR.c\<close>, \<^verbatim>\<open>FCFS.c\<close>, \<^verbatim>\<open>PBS.c\<close> and \<^verbatim>\<open>MLFQ.c\<close>; what a process does in its
    turn is an argument. Shown: fairness of round robin, which process the other three choose, how
    levels change.
  \<^item> \<open>SleepLock\<close>: \<^verbatim>\<open>sleeplock.c\<close>. Shown: mutual exclusion of processes.
  \<^item> \<open>Bio\<close>: \<^verbatim>\<open>bio.c\<close> and the disk of \<^verbatim>\<open>memide.c\<close>. The locale \<open>block_cache\<close> is the contract of the cache
    for its clients, interpreted on the model. The disk also records the order of its writes.
  \<^item> \<open>Ide\<close>: \<^verbatim>\<open>ide.c\<close>, the driver of the real disk, with the controller as its environment. Shown: requests are served
    in order and each is answered, and the memory disk does the same to a buffer as the real one.
  \<^item> \<open>Devices\<close>: \<^verbatim>\<open>kbd.c\<close>, \<^verbatim>\<open>lapic.c\<close>, \<^verbatim>\<open>ioapic.c\<close>, \<^verbatim>\<open>picirq.c\<close> and \<^verbatim>\<open>uart.c\<close>, with the contents of their
    ports and registers as arguments. Shown: what is typed is delivered, the clock is read when it stands still long
    enough, and which interrupts are routed to which processor after the start.
  \<^item> \<open>Boot\<close>: \<^verbatim>\<open>bootmain.c\<close> and \<^verbatim>\<open>mp.c\<close>. Shown: the kernel is loaded where its headers say, and what the tables of the
    firmware lead to. Their loops are partial functions, so that a run without an end is a value.
  \<^item> \<open>Log\<close>, \<open>Txn\<close>: \<^verbatim>\<open>log.c\<close>. Shown: a commit, and a whole transaction, is atomic for a crash after any
    number of its writes; a cached update refines an update of the disk.
  \<^item> \<open>Inode\<close>, \<open>BlockAlloc\<close>, \<open>Fs\<close>, \<open>Paths\<close>: \<^verbatim>\<open>fs.c\<close>. Shown: \<open>balloc\<close> takes the first free block and
    \<open>bfree\<close> undoes it, \<open>skipelem\<close> walks over the elements of a path.
  \<^item> \<open>Console\<close>, \<open>ConsoleLine\<close>: \<^verbatim>\<open>console.c\<close>. Shown: the interrupt handler refines an editor of lines, and
    a typed line is the line that a read returns.
  \<^item> \<open>Pipe\<close>: \<^verbatim>\<open>pipe.c\<close>. Shown: bytes arrive in order, none is lost.
  \<^item> \<open>File\<close>, \<open>Syscall\<close>, \<open>SysFile\<close>, \<open>Exec\<close>, \<open>Trap\<close>, \<open>Preempt\<close>: \<^verbatim>\<open>file.c\<close>, \<^verbatim>\<open>syscall.c\<close>, \<^verbatim>\<open>sysfile.c\<close>,
    \<^verbatim>\<open>sysproc.c\<close>, \<^verbatim>\<open>exec.c\<close> and the trap handlers of the scheduler files. Shown: what a timer interrupt
    does to the running process under the four policies.
  \<^item> \<open>Shell\<close>: \<^verbatim>\<open>sh.c\<close>. Shown: printing and parsing of commands are inverse, the parser returns well-formed
    commands and always ends. Its mutual recursion has fuel; four times the length of the text plus
    four is enough, because each round through the four functions takes a parenthesis.
  \<^item> \<open>ULib\<close>: \<^verbatim>\<open>ulib.c\<close>, \<^verbatim>\<open>printf.c\<close>, and the loops of \<^verbatim>\<open>wc.c\<close>, \<^verbatim>\<open>cat.c\<close> and \<^verbatim>\<open>echo.c\<close>. Shown: printed numbers are read
    back by \<open>atoi\<close>, and \<open>wc\<close> prints the right counts however its input is divided into reads.
  \<^item> \<open>UserProgs\<close>: \<^verbatim>\<open>init.c\<close>, \<^verbatim>\<open>ls.c\<close> and the small programs, as trees of system calls. Shown: \<open>ls\<close> prints a line for
    each entry in use, the first failure ends \<open>mkdir\<close> and \<open>rm\<close>, and \<open>init\<close> starts the next shell.
  \<^item> \<open>Umalloc\<close>: \<^verbatim>\<open>umalloc.c\<close>, the ring of free blocks in the heap of a user program. Shown: in every
    sequence of requests, writes and releases blocks in use never overlap and keep their contents, and
    both operations return.
  \<^item> \<open>Grep\<close>: \<^verbatim>\<open>grep.c\<close>. Shown: the matcher decides its pattern language, and the program writes exactly
    the matching lines of a file.
  \<^item> \<open>Mkfs\<close>: \<^verbatim>\<open>mkfs.c\<close>. Shown: in the image it builds, the layout that the kernel reads gives each file
    with its bytes and the root directory with its entries, and the free map is exact.
  \<^item> \<open>FileReverse\<close>: the first assignment. Shown: the copy is the reversal, and the checker decides it.
  \<^item> \<open>MergeSorts\<close>: \<^verbatim>\<open>q1.c\<close> of the fourth assignment. Shown: both parallel sorts sort in every
    interleaving.
  \<^item> \<open>Vaccine\<close>, \<open>Musicians\<close>: \<^verbatim>\<open>q2.c\<close> and \<^verbatim>\<open>q3.c\<close> of the fourth assignment as systems of threads, one step
    per critical section. Shown: the invariants of zones, students, stages and counters in every
    interleaving.
  \<^item> \<open>FileTransfer\<close>: the file server and the client of the sixth assignment, as two trees of system calls that run
    at the same time. Loops over calls are corecursive, so no fuel is needed; that a session comes to its
    end is shown for every order of the calls. Shown: files arrive whole, and what faults cannot change.
  \<^item> \<open>Ish\<close>, \<open>IshJobs\<close>, \<open>IshFiles\<close>, \<open>IshMon\<close>, \<open>IshParse\<close>: the command interpreter of the third assignment. \<open>Ish\<close> has
    its state, the host and the descriptors; the others follow its files. Shown: the job table is a map
    from numbers to processes, a line of pipes is connected as it should be and the descriptors come back,
    lines and words are split without loss, and what the history keeps.

  \<^bold>\<open>Parameters.\<close> What stands outside of the sources is an argument: the turns of processes, the
  characters a device delivers, random numbers, the memory that \<open>malloc\<close> returns, which calls of the
  host system fail.

  \<^bold>\<open>Faults shown.\<close> Some lemmas show where the code does not do what it means to. In the kernel: \<open>kill\<close> of
  process 0, starvation above priority 101, the process a processor keeps after a turn of the multilevel
  queue, slices that are not counted on other processors, the size of the log, failed reads that the disk
  driver passes off as data, and processor tables that stop the start for ever. In its programs: lines that
  \<open>grep\<close> loses, the child of \<open>time\<close> that goes on when there is no command, requests for memory whose size
  wraps around, the user library's \<open>memmove\<close> of overlapping areas, the rounded size of the root directory,
  and inodes that reach into the free map. In the simulations: the check of the sorts, companies that wait
  for ever, zones that are not cleared, singers that are lost. In the file server: received files that keep
  an old end, strings without an end, and symbolic links served with a wrong size. In the command
  interpreter: programs of a line of pipes that wait for each other, arrays without checks, results of calls
  that are not looked at, and a redirection without a command.

  \<^bold>\<open>Not modelled.\<close> The order of the kernel's initialisations and the start of the other processors
  (\<^verbatim>\<open>main.c\<close>), which runs assembly code, and the segment registers. \<^verbatim>\<open>usertests.c\<close>, \<^verbatim>\<open>forktest.c\<close>,
  \<^verbatim>\<open>stressfs.c\<close>, \<^verbatim>\<open>benchmark.c\<close> and \<^verbatim>\<open>gm.c\<close> are tests and demonstrations. Of the command interpreter the
  terminal modes, process groups and the start-up are left out, and the host's part of the messages of
  \<^verbatim>\<open>perror\<close>. Of the file server only the set-up of the sockets is left out, and the buffers of a
  connection have no bound.
\<close>

end
